(* ===== verification/Prelude.thy ===== *)
theory Prelude
  imports Main "HOL-Library.Word" "HOL-Library.Signed_Division"
begin

text \<open>
  The prelude of the development: the outcome of a run of kernel code, the way outcomes are
  sequenced, total-correctness triples over them, loops, and lemmas on lists the components share.

  A kernel function that may panic, give up the CPU or leave the language (an access out of the
  bounds of an array, a null pointer, a division by zero) is a HOL function from the state to an
  outcome:
  \<^item> \<open>Ok x s\<close>: it returned \<open>x\<close> in state \<open>s\<close>;
  \<^item> \<open>Panic m\<close>: it called \<open>panic(m)\<close>, which never returns;
  \<^item> \<open>Sched s\<close>: it switched to the scheduler in \<open>sched()\<close>; \<open>s\<close> is the state at the switch, where the
    process is SLEEPING, RUNNABLE or ZOMBIE;
  \<^item> \<open>Undef\<close>: undefined behaviour of C.
\<close>

declare One_nat_def [simp del]

datatype ('a, 's) res = Ok 'a 's | Panic string | Sched 's | Undef

definition kbind :: "('a, 's) res \<Rightarrow> ('a \<Rightarrow> 's \<Rightarrow> ('b, 's) res) \<Rightarrow> ('b, 's) res" where
  "kbind m f = (case m of Ok x s \<Rightarrow> f x s | Panic e \<Rightarrow> Panic e | Sched s \<Rightarrow> Sched s | Undef \<Rightarrow> Undef)"

lemma kbind_simps [simp]:
  "kbind (Ok x s) f = f x s"
  "kbind (Panic e) f = Panic e"
  "kbind (Sched s) f = Sched s"
  "kbind Undef f = Undef"
  by (simp_all add: kbind_def)

lemma kbind_assoc: "kbind (kbind m f) g = kbind m (\<lambda>x s. kbind (f x s) g)"
  by (cases m) simp_all

lemma kbind_Ok_iff: "kbind m f = Ok y t \<longleftrightarrow> (\<exists>x s. m = Ok x s \<and> f x s = Ok y t)"
  by (cases m) simp_all

lemma kbind_OkE:
  assumes "kbind m f = Ok y t"
  obtains x s where "m = Ok x s" "f x s = Ok y t"
  using assms by (cases m) simp_all

text \<open>An assertion of the code: \<open>if(!b) panic(m)\<close>, and an access that C leaves undefined.\<close>

definition kassert :: "bool \<Rightarrow> string \<Rightarrow> 's \<Rightarrow> (unit, 's) res" where
  "kassert b m s = (if b then Ok () s else Panic m)"

definition kguard :: "bool \<Rightarrow> 's \<Rightarrow> (unit, 's) res" where
  "kguard b s = (if b then Ok () s else Undef)"

lemma kassert_simps [simp]:
  "b \<Longrightarrow> kassert b m s = Ok () s"
  "\<not> b \<Longrightarrow> kassert b m s = Panic m"
  by (simp_all add: kassert_def)

lemma kguard_simps [simp]:
  "b \<Longrightarrow> kguard b s = Ok () s"
  "\<not> b \<Longrightarrow> kguard b s = Undef"
  by (simp_all add: kguard_def)

subsection \<open>Triples\<close>

text \<open>
  \<open>runs m Q\<close>: the run returned, and its result and final state satisfy \<open>Q\<close> (total correctness: no
  panic, no sleep, no undefined behaviour). \<open>safe m Q\<close>: if it returned then \<open>Q\<close>.
\<close>

definition runs :: "('a, 's) res \<Rightarrow> ('a \<Rightarrow> 's \<Rightarrow> bool) \<Rightarrow> bool" where
  "runs m Q = (case m of Ok x s \<Rightarrow> Q x s | _ \<Rightarrow> False)"

definition safe :: "('a, 's) res \<Rightarrow> ('a \<Rightarrow> 's \<Rightarrow> bool) \<Rightarrow> bool" where
  "safe m Q = (case m of Ok x s \<Rightarrow> Q x s | _ \<Rightarrow> True)"

named_theorems run_rules "introduction rules for runs: one per operation"

lemma runs_Ok [simp]: "runs (Ok x s) Q = Q x s"
  by (simp add: runs_def)

lemma runs_not [simp]: "\<not> runs (Panic e) Q" "\<not> runs (Sched s) Q" "\<not> runs Undef Q"
  by (simp_all add: runs_def)

lemma safe_simps [simp]:
  "safe (Ok x s) Q = Q x s" "safe (Panic e) Q" "safe (Sched s) Q" "safe Undef Q"
  by (simp_all add: safe_def)

lemma runs_iff: "runs m Q \<longleftrightarrow> (\<exists>x s. m = Ok x s \<and> Q x s)"
  by (cases m) simp_all

lemma runsE:
  assumes "runs m Q"
  obtains x s where "m = Ok x s" "Q x s"
  using assms by (auto simp: runs_iff)

lemma runs_kbind [simp]: "runs (kbind m f) Q = runs m (\<lambda>x s. runs (f x s) Q)"
  by (cases m) simp_all

lemma safe_kbind [simp]: "safe (kbind m f) Q = safe m (\<lambda>x s. safe (f x s) Q)"
  by (cases m) simp_all

lemma runs_mono: "runs m P \<Longrightarrow> (\<And>x s. P x s \<Longrightarrow> Q x s) \<Longrightarrow> runs m Q"
  by (cases m) simp_all

lemma safe_mono: "safe m P \<Longrightarrow> (\<And>x s. P x s \<Longrightarrow> Q x s) \<Longrightarrow> safe m Q"
  by (cases m) simp_all

lemma runs_seq: "runs m P \<Longrightarrow> (\<And>x s. P x s \<Longrightarrow> runs (f x s) Q) \<Longrightarrow> runs (kbind m f) Q"
  by (cases m) simp_all

lemma safe_seq: "safe m P \<Longrightarrow> (\<And>x s. P x s \<Longrightarrow> safe (f x s) Q) \<Longrightarrow> safe (kbind m f) Q"
  by (cases m) simp_all

lemma runs_conj: "runs m P \<Longrightarrow> runs m Q \<Longrightarrow> runs m (\<lambda>x s. P x s \<and> Q x s)"
  by (cases m) simp_all

lemma safe_runs: "runs m P \<Longrightarrow> safe m P"
  by (cases m) simp_all

lemma safe_Ok: "safe m Q \<longleftrightarrow> (\<forall>x s. m = Ok x s \<longrightarrow> Q x s)"
  by (cases m) simp_all

subsection \<open>Loops\<close>

text \<open>\<open>for(x in xs) f(x)\<close>: a loop without \<open>break\<close> whose body may stop the run.\<close>

fun kfor :: "'x list \<Rightarrow> ('x \<Rightarrow> 's \<Rightarrow> (unit, 's) res) \<Rightarrow> 's \<Rightarrow> (unit, 's) res" where
  "kfor [] f s = Ok () s"
| "kfor (x # xs) f s = kbind (f x s) (\<lambda>_ s'. kfor xs f s')"

lemma kfor_append: "kfor (xs @ ys) f s = kbind (kfor xs f s) (\<lambda>_ s'. kfor ys f s')"
  by (induction xs arbitrary: s) (simp_all add: kbind_def split: res.split)

lemma kfor_safe:
  assumes "I s" and "\<And>x s. x \<in> set xs \<Longrightarrow> I s \<Longrightarrow> safe (f x s) (\<lambda>_. I)"
  shows "safe (kfor xs f s) (\<lambda>_. I)"
  using assms by (induction xs arbitrary: s) (auto intro: safe_mono)

lemma kfor_runs:
  assumes "I 0 s"
    and "\<And>i s. i < length xs \<Longrightarrow> I i s \<Longrightarrow> runs (f (xs ! i) s) (\<lambda>_. I (Suc i))"
  shows "runs (kfor xs f s) (\<lambda>_. I (length xs))"
  using assms
proof (induction xs arbitrary: s I)
  case Nil
  then show ?case by simp
next
  case (Cons x xs)
  have "runs (f x s) (\<lambda>_. I (Suc 0))"
    using Cons.prems(2)[of 0 s] Cons.prems(1) by simp
  moreover have "runs (kfor xs f s') (\<lambda>_. I (Suc (length xs)))" if "I (Suc 0) s'" for s'
    using Cons.IH[of "\<lambda>i. I (Suc i)" s'] that Cons.prems(2)[of "Suc _"] by simp
  ultimately show ?case by (auto elim: runs_mono)
qed

text \<open>A loop over \<open>xs\<close> whose body may end it with \<open>return r\<close>, as the value \<open>Some r\<close>.\<close>

fun kfind :: "'x list \<Rightarrow> ('x \<Rightarrow> 's \<Rightarrow> ('r option, 's) res) \<Rightarrow> 's \<Rightarrow> ('r option, 's) res" where
  "kfind [] f s = Ok None s"
| "kfind (x # xs) f s = kbind (f x s) (\<lambda>r s'. case r of None \<Rightarrow> kfind xs f s' | Some y \<Rightarrow> Ok (Some y) s')"

lemma kfind_runs:
  assumes "I 0 s" and "\<And>s. I (length xs) s \<Longrightarrow> Q None s"
    and "\<And>i s. i < length xs \<Longrightarrow> I i s
      \<Longrightarrow> runs (f (xs ! i) s) (\<lambda>r t. case r of None \<Rightarrow> I (Suc i) t | Some y \<Rightarrow> Q (Some y) t)"
  shows "runs (kfind xs f s) Q"
  using assms
proof (induction xs arbitrary: s I)
  case Nil
  then show ?case by simp
next
  case (Cons x xs)
  have "runs (f x s) (\<lambda>r t. case r of None \<Rightarrow> I (Suc 0) t | Some y \<Rightarrow> Q (Some y) t)"
    using Cons.prems(3)[of 0 s] Cons.prems(1) by simp
  moreover have "runs (kfind xs f s') Q" if "I (Suc 0) s'" for s'
    using Cons.IH[of "\<lambda>i. I (Suc i)" s'] that Cons.prems(2) Cons.prems(3)[of "Suc _"] by simp
  ultimately show ?case by (auto elim!: runs_mono split: option.splits)
qed

subsection \<open>Lists\<close>

text \<open>The first index at which a test holds, as a scan from 0 with \<open>break\<close> finds it.\<close>

fun first_idx :: "('a \<Rightarrow> bool) \<Rightarrow> 'a list \<Rightarrow> nat option" where
  "first_idx P [] = None"
| "first_idx P (x # xs) = (if P x then Some 0 else map_option Suc (first_idx P xs))"

lemma first_idx_None [simp]: "first_idx P xs = None \<longleftrightarrow> (\<forall>x \<in> set xs. \<not> P x)"
  by (induction xs) auto

lemma first_idx_Some:
  "first_idx P xs = Some i \<longleftrightarrow> i < length xs \<and> P (xs ! i) \<and> (\<forall>j < i. \<not> P (xs ! j))"
proof (induction xs arbitrary: i)
  case Nil
  then show ?case by simp
next
  case (Cons x xs)
  show ?case
  proof (cases i)
    case 0
    then show ?thesis by (auto simp: Cons.IH)
  next
    case (Suc k)
    have "(\<forall>j < Suc k. \<not> P ((x # xs) ! j)) \<longleftrightarrow> \<not> P x \<and> (\<forall>j < k. \<not> P (xs ! j))"
      by (auto simp: less_Suc_eq_0_disj)
    then show ?thesis using Suc by (auto simp: Cons.IH)
  qed
qed

lemma first_idx_SomeD: "first_idx P xs = Some i \<Longrightarrow> i < length xs \<and> P (xs ! i)"
  by (simp add: first_idx_Some)

lemma first_idx_replicate: "first_idx P (replicate n x) = (if 0 < n \<and> P x then Some 0 else None)"
  by (induction n) auto

lemma nth_list_update_if: "xs[i := x] ! j = (if i = j \<and> i < length xs then x else xs ! j)"
  by (cases "i < length xs") (auto simp: nth_list_update list_update_beyond)

lemma remove1_take_drop:
  assumes "i < length xs" "xs ! i = x" "\<And>j. j < i \<Longrightarrow> xs ! j \<noteq> x"
  shows "remove1 x xs = take i xs @ drop (Suc i) xs"
  using assms
proof (induction xs arbitrary: i)
  case Nil
  then show ?case by simp
next
  case (Cons y ys)
  show ?case
  proof (cases i)
    case 0
    then show ?thesis using Cons.prems by simp
  next
    case (Suc k)
    have "y \<noteq> x" using Cons.prems(3)[of 0] Suc by simp
    moreover have "remove1 x ys = take k ys @ drop (Suc k) ys"
      using Cons.IH[of k] Cons.prems Suc by force
    ultimately show ?thesis using Suc by simp
  qed
qed

lemma sum_list_remove1: "x \<in> set xs \<Longrightarrow> sum_list (map f (remove1 x xs)) = sum_list (map f xs) - (f x :: int)"
  by (induction xs) auto

subsection \<open>Systems with an invariant\<close>

text \<open>The interface of a step relation with an invariant: what holds of the start states and is kept by every step.\<close>

locale inv_system =
  fixes start :: "'s \<Rightarrow> bool"
    and step :: "'s \<Rightarrow> 's \<Rightarrow> bool"
    and inv :: "'s \<Rightarrow> bool"
  assumes start_law: "start s \<Longrightarrow> inv s"
    and step_law: "step s t \<Longrightarrow> inv s \<Longrightarrow> inv t"
begin

lemma steps_inv: "rtranclp step s t \<Longrightarrow> inv s \<Longrightarrow> inv t"
  by (induction rule: rtranclp_induct) (auto intro: step_law)

lemma reach_inv: "start s \<Longrightarrow> rtranclp step s t \<Longrightarrow> inv t"
  by (blast intro: steps_inv start_law)

end

end
