(* ===== verification/KState.thy ===== *)
theory KState
  imports Prelude
begin

text \<open>
  The state of the project 3 kernel (src/project3/xv6-public): its constants (param.h, fs.h, buf.h)
  and one record per struct of its headers, gathered into the record \<open>kst\<close> of one CPU running
  kernel code. Pointers into the static tables (ptable, bcache, icache, ftable) are the indices of
  the entries, a null pointer is \<open>None\<close>. An unsigned 32-bit integer is a \<open>nat\<close> below \<open>2 ^ 32\<close>, and
  every operation of the code that can wrap is written with \<open>uadd\<close>/\<open>usub\<close>; an \<open>int\<close> of C is an
  \<open>int\<close>.
\<close>

named_theorems param_defs "the constants of param.h, fs.h and mmu.h"

definition NPROC :: nat where "NPROC = 64"
definition NOFILE :: nat where "NOFILE = 16"
definition NFILE :: nat where "NFILE = 100"
definition NINODE :: nat where "NINODE = 50"
definition NDEV :: nat where "NDEV = 10"
definition ROOTDEV :: nat where "ROOTDEV = 1"
definition MAXOPBLOCKS :: nat where "MAXOPBLOCKS = 40"
definition LOGSIZE :: nat where "LOGSIZE = MAXOPBLOCKS * 3"
definition NBUF :: nat where "NBUF = MAXOPBLOCKS * 3"
definition FSSIZE :: nat where "FSSIZE = 100000"
definition BSIZE :: nat where "BSIZE = 512"
definition PGSIZE :: nat where "PGSIZE = 4096"
definition KSTACKSIZE :: nat where "KSTACKSIZE = 4096"

lemmas [param_defs] = NPROC_def NOFILE_def NFILE_def NINODE_def NDEV_def ROOTDEV_def
  MAXOPBLOCKS_def LOGSIZE_def NBUF_def FSSIZE_def BSIZE_def PGSIZE_def KSTACKSIZE_def

text \<open>Unsigned 32-bit arithmetic on \<open>nat\<close>, with the wrap-around written out.\<close>

definition uadd :: "nat \<Rightarrow> nat \<Rightarrow> nat" where "uadd a b = (a + b) mod 2 ^ 32"
definition usub :: "nat \<Rightarrow> nat \<Rightarrow> nat" where "usub a b = (a + 2 ^ 32 - b) mod 2 ^ 32"

lemma uadd_small: "a + b < 2 ^ 32 \<Longrightarrow> uadd a b = a + b"
  by (simp add: uadd_def)

lemma usub_small: "b \<le> a \<Longrightarrow> a < 2 ^ 32 \<Longrightarrow> usub a b = a - b"
  by (simp add: usub_def mod_if)

type_synonym u8 = "8 word"
type_synonym block = "u8 list"
type_synonym pptr = "nat option"

subsection \<open>Locks and sleep channels\<close>

text \<open>
  The spin locks of the kernel, by the object they are in. \<open>held\<close> lists the locks this CPU holds,
  the last acquired first; its length is \<open>mycpu()->ncli\<close>, and interrupts are on when it is empty.
\<close>

datatype lockid = LPtable | LTicks | LBcache | LBuf nat | LInode nat | LLog | LIcache | LFtable
  | LPipe nat | LIde | LKmem | LCons

text \<open>The addresses processes sleep on.\<close>

datatype chan = ChProc nat | ChTicks | ChBufLock nat | ChInodeLock nat | ChLog
  | ChBuf nat | ChPipeRead nat | ChPipeWrite nat | ChInput

record sleeplock =
  sl_locked :: bool
  sl_pid :: int

definition free_lock :: sleeplock where
  "free_lock = \<lparr>sl_locked = False, sl_pid = 0\<rparr>"

subsection \<open>Processes (proc.h)\<close>

datatype procstate = UNUSED | EMBRYO | SLEEPING | RUNNABLE | RUNNING | ZOMBIE

record trapframe =
  tf_eax :: nat
  tf_eip :: nat
  tf_esp :: nat
  tf_cs :: nat
  tf_trapno :: nat
  tf_rest :: "nat list"

record proc =
  pgdir :: nat
  sz :: nat
  kstack :: nat
  state :: procstate
  parent :: pptr
  tf :: trapframe
  ctx_eip :: nat
  chan :: "chan option"
  killed :: bool
  ofile :: "nat option list"
  cwd :: "nat option"
  pname :: "u8 list"
  first_scheduled :: bool
  from_trap :: bool
  start_tick :: nat
  lev :: int
  time_allotment :: int
  share :: int
  pass :: int
  pid :: int

definition zero_tf :: trapframe where
  "zero_tf = \<lparr>tf_eax = 0, tf_eip = 0, tf_esp = 0, tf_cs = 0, tf_trapno = 0, tf_rest = []\<rparr>"

text \<open>A process table entry as the zeroed static storage of the kernel holds it.\<close>

definition zero_proc :: proc where
  "zero_proc = \<lparr>pgdir = 0, sz = 0, kstack = 0, state = UNUSED, parent = None, tf = zero_tf,
     ctx_eip = 0, chan = None, killed = False, ofile = replicate NOFILE None, cwd = None,
     pname = replicate 16 0, first_scheduled = False, from_trap = False, start_tick = 0, lev = 0,
     time_allotment = 0, share = 0, pass = 0, pid = 0\<rparr>"

text \<open>
  Entries of the stride table: null, the local \<open>mlfq\<close> of \<open>scheduler()\<close> that stands for all
  processes of the multi-level feedback queue, or a process. \<open>mlfq\<close> has only the fields the
  scheduler sets.
\<close>

datatype sptr = SNull | SMlfq | SProc nat

record mlfqproc =
  mshare :: int
  mpass :: int

subsection \<open>File system structures (buf.h, file.h, fs.h, log.c)\<close>

record buf =
  b_valid :: bool
  b_dirty :: bool
  b_dev :: nat
  b_blockno :: nat
  b_lock :: sleeplock
  b_refcnt :: nat
  b_data :: block

record superblock =
  sb_size :: nat
  sb_nblocks :: nat
  sb_ninodes :: nat
  sb_nlog :: nat
  sb_logstart :: nat
  sb_inodestart :: nat
  sb_bmapstart :: nat

record logrec =
  lg_start :: nat
  lg_size :: int
  lg_outstanding :: int
  lg_committing :: bool
  lg_dev :: nat
  lh_n :: int
  lh_block :: "nat list"

record inode =
  i_dev :: nat
  i_inum :: nat
  i_ref :: int
  i_lock :: sleeplock
  i_valid :: bool
  i_type :: int
  i_major :: int
  i_minor :: int
  i_nlink :: int
  i_size :: nat
  i_addrs :: "nat list"

datatype ftype = FD_NONE | FD_PIPE | FD_INODE

record kfile =
  f_type :: ftype
  f_ref :: int
  f_readable :: bool
  f_writable :: bool
  f_pipe :: nat
  f_ip :: nat
  f_off :: nat

record pipe =
  p_data :: "u8 list"
  p_nread :: nat
  p_nwrite :: nat
  p_readopen :: bool
  p_writeopen :: bool

subsection \<open>The kernel\<close>

text \<open>
  \<open>dwrites\<close> is the history of the disk: the blocks written to it so far, in order. No code reads
  it; it is what a crash can cut short. \<open>devsw\<close> says for each major device number whether the console's
  functions are installed in the table (file.c), the only ones the kernel has. \<open>in_buf\<close>, \<open>in_r\<close>,
  \<open>in_w\<close> and \<open>in_e\<close> are the console's input buffer. \<open>pmem\<close> is the physical memory, byte by byte; it holds free pages,
  page tables and user memory, and the other structures the kernel keeps in pages of their own (pipes)
  are records of their own. \<open>kend\<close> and \<open>kdata\<close> are the addresses of the linker symbols \<open>end\<close> and \<open>data\<close>,
  \<open>cr3\<close> the page-directory register of the CPU, \<open>first_ret\<close> the static variable of \<open>forkret\<close>.
\<close>

record kst =
  held :: "lockid list"
  curproc :: pptr
  procs :: "proc list"
  arrq :: "pptr list list"
  q_size :: "int list"
  stab :: "sptr list"
  stable_size :: int
  mlfq :: mlfqproc
  min_pass :: int
  initproc :: pptr
  nextpid :: int
  ticks :: nat
  mlfq_ticks :: nat
  time_quantom :: "int list"
  time_allot :: "int list"
  freelist :: nat
  kend :: nat
  kdata :: nat
  kpgdir :: nat
  cr3 :: nat
  first_ret :: bool
  use_lock :: bool
  bufs :: "buf list"
  mru :: "nat list"
  disk :: "nat \<Rightarrow> block"
  disksize :: nat
  dwrites :: "(nat \<times> block) list"
  lg :: logrec
  sb :: superblock
  inodes :: "inode list"
  files :: "kfile list"
  pipes :: "nat \<Rightarrow> pipe"
  devsw :: "bool list"
  in_buf :: "u8 list"
  in_r :: nat
  in_w :: nat
  in_e :: nat
  pmem :: "nat \<Rightarrow> u8"

type_synonym 'a kres = "('a, kst) res"

text \<open>Update one entry of a table.\<close>

definition upd_proc :: "nat \<Rightarrow> (proc \<Rightarrow> proc) \<Rightarrow> kst \<Rightarrow> kst" where
  "upd_proc i f s = s\<lparr>procs := (procs s)[i := f (procs s ! i)]\<rparr>"

definition upd_buf :: "nat \<Rightarrow> (buf \<Rightarrow> buf) \<Rightarrow> kst \<Rightarrow> kst" where
  "upd_buf i f s = s\<lparr>bufs := (bufs s)[i := f (bufs s ! i)]\<rparr>"

definition upd_inode :: "nat \<Rightarrow> (inode \<Rightarrow> inode) \<Rightarrow> kst \<Rightarrow> kst" where
  "upd_inode i f s = s\<lparr>inodes := (inodes s)[i := f (inodes s ! i)]\<rparr>"

definition upd_file :: "nat \<Rightarrow> (kfile \<Rightarrow> kfile) \<Rightarrow> kst \<Rightarrow> kst" where
  "upd_file i f s = s\<lparr>files := (files s)[i := f (files s ! i)]\<rparr>"

lemma upd_buf_simps [simp]:
  "bufs (upd_buf i f s) = (bufs s)[i := f (bufs s ! i)]"
  "held (upd_buf i f s) = held s" "curproc (upd_buf i f s) = curproc s"
  "procs (upd_buf i f s) = procs s" "mru (upd_buf i f s) = mru s" "disk (upd_buf i f s) = disk s"
  "disksize (upd_buf i f s) = disksize s" "lg (upd_buf i f s) = lg s" "sb (upd_buf i f s) = sb s"
  "inodes (upd_buf i f s) = inodes s" "files (upd_buf i f s) = files s"
  "pipes (upd_buf i f s) = pipes s" "dwrites (upd_buf i f s) = dwrites s"
  by (simp_all add: upd_buf_def)

lemma upd_buf_cong: "f (bufs s ! i) = g (bufs s ! i) \<Longrightarrow> upd_buf i f s = upd_buf i g s"
  by (simp add: upd_buf_def)

lemma upd_inode_simps [simp]:
  "inodes (upd_inode i g s) = (inodes s)[i := g (inodes s ! i)]"
  "held (upd_inode i g s) = held s" "curproc (upd_inode i g s) = curproc s"
  "procs (upd_inode i g s) = procs s" "mru (upd_inode i g s) = mru s"
  "disk (upd_inode i g s) = disk s" "disksize (upd_inode i g s) = disksize s"
  "lg (upd_inode i g s) = lg s" "sb (upd_inode i g s) = sb s" "bufs (upd_inode i g s) = bufs s"
  "files (upd_inode i g s) = files s" "pipes (upd_inode i g s) = pipes s"
  "dwrites (upd_inode i g s) = dwrites s"
  by (simp_all add: upd_inode_def)

text \<open>The entry of the process running on this CPU, as \<open>myproc()\<close> returns it.\<close>

definition cur :: "kst \<Rightarrow> proc" where
  "cur s = (case curproc s of None \<Rightarrow> zero_proc | Some i \<Rightarrow> procs s ! i)"

lemma cur_upd [simp]: "cur (upd_buf i f s) = cur s" "cur (upd_inode i g s) = cur s"
  by (simp_all add: cur_def split: option.split)

lemma cur_cong: "curproc t = curproc s \<Longrightarrow> procs t = procs s \<Longrightarrow> cur t = cur s"
  by (simp add: cur_def split: option.split)

text \<open>
  \<open>s\<close> and \<open>t\<close> have the same processes up to the scheduling state, which \<open>wakeup\<close> changes: pid,
  open files and current directory of every process are the same.
\<close>

definition psame :: "kst \<Rightarrow> kst \<Rightarrow> bool" where
  "psame s t \<longleftrightarrow> curproc t = curproc s
     \<and> map (\<lambda>p. p\<lparr>state := UNUSED\<rparr>) (procs t) = map (\<lambda>p. p\<lparr>state := UNUSED\<rparr>) (procs s)"

lemma psame_refl [simp]: "psame s s"
  by (simp add: psame_def)

lemma psame_trans [trans]: "psame s t \<Longrightarrow> psame t u \<Longrightarrow> psame s u"
  by (simp add: psame_def)

lemma psame_eq: "curproc t = curproc s \<Longrightarrow> procs t = procs s \<Longrightarrow> psame s t"
  by (simp add: psame_def)

lemma psame_nth:
  assumes "psame s t" "i < length (procs s)"
  shows "length (procs t) = length (procs s)"
    and "(procs t ! i)\<lparr>state := UNUSED\<rparr> = (procs s ! i)\<lparr>state := UNUSED\<rparr>"
proof -
  let ?f = "\<lambda>p. p\<lparr>state := UNUSED\<rparr>"
  have m: "map ?f (procs t) = map ?f (procs s)" using assms(1) by (simp add: psame_def)
  then show len: "length (procs t) = length (procs s)" by (metis length_map)
  show "?f (procs t ! i) = ?f (procs s ! i)"
    using arg_cong[OF m, of "\<lambda>xs. xs ! i"] assms(2) len by simp
qed

lemma psame_cur:
  assumes "psame s t" "curproc s = Some p" "p < length (procs s)"
  shows "pid (cur t) = pid (cur s)" "ofile (cur t) = ofile (cur s)" "cwd (cur t) = cwd (cur s)"
    "killed (cur t) = killed (cur s)"
proof -
  have c: "curproc t = Some p" using assms(1,2) by (simp add: psame_def)
  have "(procs t ! p)\<lparr>state := UNUSED\<rparr> = (procs s ! p)\<lparr>state := UNUSED\<rparr>"
    by (rule psame_nth(2)[OF assms(1,3)])
  then show "pid (cur t) = pid (cur s)" "ofile (cur t) = ofile (cur s)"
    "cwd (cur t) = cwd (cur s)" "killed (cur t) = killed (cur s)"
    using c assms(2) unfolding cur_def by (cases "procs t ! p"; cases "procs s ! p"; simp)+
qed

end
