(* ===== verification/Sync.thy ===== *)
theory Sync
  imports KState
begin

text \<open>
  Locks, sleeping and waking: the spin locks as one CPU sees them (spinlock.c; \<open>Spin\<close> models that
  file with all CPUs and shows this view correct), \<open>sched\<close>, \<open>sleep\<close>, \<open>wakeup1\<close>, \<open>wakeup\<close> and
  \<open>kill\<close> of proc.c, and the sleep locks of sleeplock.c.
\<close>

subsection \<open>Spin locks\<close>

definition acquire :: "lockid \<Rightarrow> kst \<Rightarrow> unit kres" where
  "acquire l s = (if l \<in> set (held s) then Panic ''acquire'' else Ok () (s\<lparr>held := l # held s\<rparr>))"

definition release :: "lockid \<Rightarrow> kst \<Rightarrow> unit kres" where
  "release l s = (if l \<notin> set (held s) then Panic ''release'' else Ok () (s\<lparr>held := remove1 l (held s)\<rparr>))"

subsection \<open>Switching to the scheduler\<close>

text \<open>
  \<open>sched()\<close> up to its \<open>swtch\<close>. \<open>mycpu()->ncli\<close> is the number of locks held, and interrupts are on
  when none is.
\<close>

definition sched :: "kst \<Rightarrow> 'a kres" where
  "sched s = (case curproc s of None \<Rightarrow> Undef | Some p \<Rightarrow>
     if LPtable \<notin> set (held s) then Panic ''sched ptable.lock''
     else if length (held s) \<noteq> 1 then Panic ''sched locks''
     else if state (procs s ! p) = RUNNING then Panic ''sched running''
     else if held s = [] then Panic ''sched interruptible''
     else Sched s)"

definition sleep :: "chan \<Rightarrow> lockid option \<Rightarrow> kst \<Rightarrow> 'a kres" where
  "sleep ch lk s = (case curproc s of None \<Rightarrow> Panic ''sleep'' | Some p \<Rightarrow>
     (case lk of None \<Rightarrow> Panic ''sleep without lk'' | Some l \<Rightarrow>
        kbind (if l \<noteq> LPtable then kbind (acquire LPtable s) (\<lambda>_ s. release l s) else Ok () s) (\<lambda>_ s.
        sched (upd_proc p (\<lambda>q. q\<lparr>chan := Some ch, state := SLEEPING\<rparr>) s))))"

text \<open>What \<open>sleep\<close> does when the scheduler runs the process again.\<close>

definition sleep_resume :: "lockid \<Rightarrow> kst \<Rightarrow> unit kres" where
  "sleep_resume l s = (case curproc s of None \<Rightarrow> Undef | Some p \<Rightarrow>
     let s = upd_proc p (\<lambda>q. q\<lparr>chan := None\<rparr>) s in
     if l \<noteq> LPtable then kbind (release LPtable s) (\<lambda>_ s. acquire l s) else Ok () s)"

definition wakeup1 :: "chan option \<Rightarrow> kst \<Rightarrow> kst" where
  "wakeup1 ch s = s\<lparr>procs := map (\<lambda>p. if state p = SLEEPING \<and> chan p = ch then p\<lparr>state := RUNNABLE\<rparr> else p)
     (procs s)\<rparr>"

definition wakeup :: "chan option \<Rightarrow> kst \<Rightarrow> unit kres" where
  "wakeup ch s = kbind (acquire LPtable s) (\<lambda>_ s. release LPtable (wakeup1 ch s))"

definition kill :: "int \<Rightarrow> kst \<Rightarrow> int kres" where
  "kill pd s = kbind (acquire LPtable s) (\<lambda>_ s.
     (case first_idx (\<lambda>p. pid p = pd) (procs s) of
        Some i \<Rightarrow> kbind (release LPtable (upd_proc i (\<lambda>p. p\<lparr>killed := True,
                    state := (if state p = SLEEPING then RUNNABLE else state p)\<rparr>) s)) (\<lambda>_ s. Ok 0 s)
      | None \<Rightarrow> kbind (release LPtable s) (\<lambda>_ s. Ok (- 1) s)))"

subsection \<open>Sleep locks\<close>

text \<open>A sleep lock is the one of a buffer or of an inode; a pointer to it names the owner.\<close>

datatype slref = SBuf nat | SInode nat

fun sl_lk :: "slref \<Rightarrow> lockid" where
  "sl_lk (SBuf i) = LBuf i"
| "sl_lk (SInode i) = LInode i"

fun sl_chan :: "slref \<Rightarrow> chan" where
  "sl_chan (SBuf i) = ChBufLock i"
| "sl_chan (SInode i) = ChInodeLock i"

fun get_sl :: "slref \<Rightarrow> kst \<Rightarrow> sleeplock" where
  "get_sl (SBuf i) s = b_lock (bufs s ! i)"
| "get_sl (SInode i) s = i_lock (inodes s ! i)"

fun set_sl :: "slref \<Rightarrow> sleeplock \<Rightarrow> kst \<Rightarrow> kst" where
  "set_sl (SBuf i) v s = upd_buf i (\<lambda>b. b\<lparr>b_lock := v\<rparr>) s"
| "set_sl (SInode i) v s = upd_inode i (\<lambda>b. b\<lparr>i_lock := v\<rparr>) s"

definition initsleeplock :: "slref \<Rightarrow> kst \<Rightarrow> kst" where
  "initsleeplock r s = set_sl r free_lock s"

definition acquiresleep :: "slref \<Rightarrow> kst \<Rightarrow> unit kres" where
  "acquiresleep r s = kbind (acquire (sl_lk r) s) (\<lambda>_ s.
     if sl_locked (get_sl r s) then sleep (sl_chan r) (Some (sl_lk r)) s
     else kbind (kguard (curproc s \<noteq> None) s) (\<lambda>_ s.
       release (sl_lk r) (set_sl r \<lparr>sl_locked = True, sl_pid = pid (cur s)\<rparr> s)))"

definition releasesleep :: "slref \<Rightarrow> kst \<Rightarrow> unit kres" where
  "releasesleep r s = kbind (acquire (sl_lk r) s) (\<lambda>_ s.
     kbind (wakeup (Some (sl_chan r)) (set_sl r free_lock s)) (\<lambda>_ s.
     release (sl_lk r) s))"

definition holdingsleep :: "slref \<Rightarrow> kst \<Rightarrow> bool kres" where
  "holdingsleep r s = kbind (acquire (sl_lk r) s) (\<lambda>_ s.
     kbind (kguard (curproc s \<noteq> None) s) (\<lambda>_ s.
     let held_by_me = (sl_locked (get_sl r s) \<and> sl_pid (get_sl r s) = pid (cur s)) in
     kbind (release (sl_lk r) s) (\<lambda>_ s. Ok held_by_me s)))"

subsection \<open>Frames and closed forms\<close>

lemma wakeup1_simps [simp]:
  "held (wakeup1 c s) = held s" "curproc (wakeup1 c s) = curproc s"
  "bufs (wakeup1 c s) = bufs s" "mru (wakeup1 c s) = mru s" "disk (wakeup1 c s) = disk s"
  "disksize (wakeup1 c s) = disksize s" "lg (wakeup1 c s) = lg s" "sb (wakeup1 c s) = sb s"
  "inodes (wakeup1 c s) = inodes s" "files (wakeup1 c s) = files s" "pipes (wakeup1 c s) = pipes s"
  "freelist (wakeup1 c s) = freelist s" "length (procs (wakeup1 c s)) = length (procs s)"
  "arrq (wakeup1 c s) = arrq s" "q_size (wakeup1 c s) = q_size s" "stab (wakeup1 c s) = stab s"
  "stable_size (wakeup1 c s) = stable_size s" "mlfq (wakeup1 c s) = mlfq s"
  "min_pass (wakeup1 c s) = min_pass s" "initproc (wakeup1 c s) = initproc s"
  "nextpid (wakeup1 c s) = nextpid s" "ticks (wakeup1 c s) = ticks s"
  "mlfq_ticks (wakeup1 c s) = mlfq_ticks s" "time_quantom (wakeup1 c s) = time_quantom s"
  "time_allot (wakeup1 c s) = time_allot s"
  "dwrites (wakeup1 c s) = dwrites s"
  by (simp_all add: wakeup1_def)

lemma wakeup1_held [simp]: "wakeup1 c (s\<lparr>held := h\<rparr>) = (wakeup1 c s)\<lparr>held := h\<rparr>"
  by (simp add: wakeup1_def)

lemma procs_wakeup1_nth:
  "i < length (procs s) \<Longrightarrow> procs (wakeup1 c s) ! i =
     (if state (procs s ! i) = SLEEPING \<and> chan (procs s ! i) = c
      then (procs s ! i)\<lparr>state := RUNNABLE\<rparr> else procs s ! i)"
  by (simp add: wakeup1_def)

lemma psame_wakeup1 [simp]: "psame s (wakeup1 c s)"
  by (simp add: psame_def wakeup1_def o_def if_distrib cong: if_cong)

lemma acquire_ok [simp]: "l \<notin> set (held s) \<Longrightarrow> acquire l s = Ok () (s\<lparr>held := l # held s\<rparr>)"
  by (simp add: acquire_def)

lemma release_top [simp]: "held s = l # h \<Longrightarrow> release l s = Ok () (s\<lparr>held := h\<rparr>)"
  by (simp add: release_def)

lemma wakeup_ok: "LPtable \<notin> set (held s) \<Longrightarrow> wakeup c s = Ok () (wakeup1 c s)"
  by (simp add: wakeup_def)

lemma sl_lk_neq [simp]: "sl_lk r \<noteq> LPtable" "LPtable \<noteq> sl_lk r"
  by (cases r; simp)+

lemma get_sl_held [simp]: "get_sl r (s\<lparr>held := h\<rparr>) = get_sl r s"
  by (cases r) simp_all

lemma set_sl_held [simp]: "set_sl r v (s\<lparr>held := h\<rparr>) = (set_sl r v s)\<lparr>held := h\<rparr>"
  by (cases r) (simp_all add: upd_buf_def upd_inode_def)

lemma cur_held [simp]: "cur (s\<lparr>held := h\<rparr>) = cur s"
  by (simp add: cur_def split: option.split)

lemma set_sl_simps [simp]:
  "held (set_sl r v s) = held s" "procs (set_sl r v s) = procs s" "curproc (set_sl r v s) = curproc s"
  by (cases r; simp add: upd_buf_def upd_inode_def)+

lemma held_update_same [simp]: "held s = h \<Longrightarrow> s\<lparr>held := h\<rparr> = s"
  by auto

text \<open>
  The closed forms of the sleep-lock operations when this CPU holds no spin lock, as in every call
  from the file system.
\<close>

lemma acquiresleep_free:
  assumes "held s = []" "curproc s = Some p" "\<not> sl_locked (get_sl r s)"
  shows "acquiresleep r s = Ok () (set_sl r \<lparr>sl_locked = True, sl_pid = pid (cur s)\<rparr> s)"
  using assms by (simp add: acquiresleep_def)

lemma acquiresleep_busy:
  assumes "held s = []" "curproc s = Some p" "sl_locked (get_sl r s)" "p < length (procs s)"
  shows "acquiresleep r s =
    Sched (upd_proc p (\<lambda>q. q\<lparr>chan := Some (sl_chan r), state := SLEEPING\<rparr>) (s\<lparr>held := [LPtable]\<rparr>))"
  using assms
  by (simp add: acquiresleep_def sleep_def sched_def release_def upd_proc_def)

lemma releasesleep_eq:
  assumes "held s = []"
  shows "releasesleep r s = Ok () (wakeup1 (Some (sl_chan r)) (set_sl r free_lock s))"
  using assms by (simp add: releasesleep_def wakeup_ok)

lemma holdingsleep_eq:
  assumes "held s = []" "curproc s = Some p"
  shows "holdingsleep r s = Ok (sl_locked (get_sl r s) \<and> sl_pid (get_sl r s) = pid (cur s)) s"
  using assms by (simp add: holdingsleep_def)

text \<open>A process sleeps only while it holds no spin lock but \<open>ptable.lock\<close>.\<close>

lemma sched_Sched: "sched s = Sched t \<Longrightarrow> t = s \<and> held s = [LPtable]"
  by (auto simp: sched_def One_nat_def length_Suc_conv split: option.splits if_splits)

lemma sched_not_Ok [simp]: "sched s \<noteq> Ok x t"
  by (auto simp: sched_def split: option.splits)

lemma sleep_not_Ok [simp]: "sleep ch lk s \<noteq> Ok x t"
  by (auto simp: sleep_def kbind_Ok_iff split: option.splits)

end
