(* ===== verification/Bio.thy ===== *)
theory Bio
  imports Sync
begin

text \<open>
  The buffer cache (bio.c) over the memory disk (memide.c). \<open>mru\<close> is the circular list of all
  buffers from \<open>head.next\<close> (most recently used) to \<open>head.prev\<close>; its pointer surgery is the list
  operations of \<open>binit\<close> and \<open>brelse\<close>. The invariant \<open>bc_inv\<close> says that a disk block has at most one
  buffer and that a valid buffer nobody holds is dirty or equal to the disk; \<open>view\<close> is the content
  of a block as \<open>bread\<close> returns it.
\<close>

named_theorems bio_simps "frame facts of the buffer cache operations"

definition binit :: "kst \<Rightarrow> kst" where
  "binit s = foldl (\<lambda>s b. (initsleeplock (SBuf b) s)\<lparr>mru := b # mru s\<rparr>) (s\<lparr>mru := []\<rparr>) [0..<NBUF]"

subsection \<open>The memory disk\<close>

definition iderw :: "nat \<Rightarrow> kst \<Rightarrow> unit kres" where
  "iderw i s = kbind (holdingsleep (SBuf i) s) (\<lambda>h s.
     let b = bufs s ! i in
     if \<not> h then Panic ''iderw: buf not locked''
     else if b_valid b \<and> \<not> b_dirty b then Panic ''iderw: nothing to do''
     else if b_dev b \<noteq> 1 then Panic ''iderw: request not for disk 1''
     else if b_blockno b \<ge> disksize s then Panic ''iderw: block out of range''
     else if b_dirty b then
       Ok () (upd_buf i (\<lambda>b. b\<lparr>b_dirty := False, b_valid := True\<rparr>)
                (s\<lparr>disk := (disk s)(b_blockno b := b_data b),
                   dwrites := dwrites s @ [(b_blockno b, b_data b)]\<rparr>))
     else
       Ok () (upd_buf i (\<lambda>b. b\<lparr>b_data := disk s (b_blockno b), b_valid := True\<rparr>) s))"

subsection \<open>Buffers\<close>

text \<open>The scan of \<open>bget\<close> for a cached block, and its scan from the other end for a buffer to recycle.\<close>

definition buf_hit :: "nat \<Rightarrow> nat \<Rightarrow> kst \<Rightarrow> nat option" where
  "buf_hit dev n s = List.find (\<lambda>i. b_dev (bufs s ! i) = dev \<and> b_blockno (bufs s ! i) = n) (mru s)"

definition buf_victim :: "kst \<Rightarrow> nat option" where
  "buf_victim s = List.find (\<lambda>i. b_refcnt (bufs s ! i) = 0 \<and> \<not> b_dirty (bufs s ! i)) (rev (mru s))"

definition bget :: "nat \<Rightarrow> nat \<Rightarrow> kst \<Rightarrow> nat kres" where
  "bget dev n s = kbind (acquire LBcache s) (\<lambda>_ s.
     case buf_hit dev n s of
       Some i \<Rightarrow>
         let s = upd_buf i (\<lambda>b. b\<lparr>b_refcnt := uadd (b_refcnt b) 1\<rparr>) s in
         kbind (release LBcache s) (\<lambda>_ s.
         kbind (acquiresleep (SBuf i) s) (\<lambda>_ s. Ok i s))
     | None \<Rightarrow>
         (case buf_victim s of
            Some i \<Rightarrow>
              let s = upd_buf i (\<lambda>b. b\<lparr>b_dev := dev, b_blockno := n, b_valid := False,
                        b_dirty := False, b_refcnt := 1\<rparr>) s in
              kbind (release LBcache s) (\<lambda>_ s.
              kbind (acquiresleep (SBuf i) s) (\<lambda>_ s. Ok i s))
          | None \<Rightarrow> Panic ''bget: no buffers''))"

definition bread :: "nat \<Rightarrow> nat \<Rightarrow> kst \<Rightarrow> nat kres" where
  "bread dev n s = kbind (bget dev n s) (\<lambda>i s.
     kbind (if \<not> b_valid (bufs s ! i) then iderw i s else Ok () s) (\<lambda>_ s.
     Ok i s))"

definition bwrite :: "nat \<Rightarrow> kst \<Rightarrow> unit kres" where
  "bwrite i s = kbind (holdingsleep (SBuf i) s) (\<lambda>h s.
     if \<not> h then Panic ''bwrite''
     else iderw i (upd_buf i (\<lambda>b. b\<lparr>b_dirty := True\<rparr>) s))"

definition brelse :: "nat \<Rightarrow> kst \<Rightarrow> unit kres" where
  "brelse i s = kbind (holdingsleep (SBuf i) s) (\<lambda>h s.
     if \<not> h then Panic ''brelse''
     else kbind (releasesleep (SBuf i) s) (\<lambda>_ s.
       kbind (acquire LBcache s) (\<lambda>_ s.
       let s = upd_buf i (\<lambda>b. b\<lparr>b_refcnt := usub (b_refcnt b) 1\<rparr>) s in
       release LBcache
         (if b_refcnt (bufs s ! i) = 0 then s\<lparr>mru := i # remove1 i (mru s)\<rparr> else s))))"

subsection \<open>The invariant\<close>

definition buf_ok :: "kst \<Rightarrow> buf \<Rightarrow> bool" where
  "buf_ok s b \<longleftrightarrow> b_refcnt b < 2 ^ 32
     \<and> (if sl_locked (b_lock b) then 0 < b_refcnt b
        else b_refcnt b < 2 ^ 32 - 1
          \<and> (b_valid b \<longrightarrow> b_dirty b \<or> b_data b = disk s (b_blockno b)))
     \<and> (b_valid b \<longrightarrow> length (b_data b) = BSIZE \<and> b_dev b = 1 \<and> b_blockno b < disksize s)
     \<and> (b_dirty b \<longrightarrow> b_valid b)"

definition bc_inv :: "kst \<Rightarrow> bool" where
  "bc_inv s \<longleftrightarrow> length (bufs s) = NBUF \<and> distinct (mru s) \<and> set (mru s) = {..<NBUF}
     \<and> (\<forall>i < NBUF. buf_ok s (bufs s ! i))
     \<and> (\<forall>i < NBUF. \<forall>j < NBUF. b_dev (bufs s ! i) \<noteq> 0 \<longrightarrow> b_dev (bufs s ! i) = b_dev (bufs s ! j)
          \<longrightarrow> b_blockno (bufs s ! i) = b_blockno (bufs s ! j) \<longrightarrow> i = j)
     \<and> (\<forall>n < disksize s. length (disk s n) = BSIZE)"

text \<open>Buffer \<open>i\<close> is the buffer of block \<open>n\<close> of the disk.\<close>

definition cached :: "kst \<Rightarrow> nat \<Rightarrow> nat \<Rightarrow> bool" where
  "cached s i n \<longleftrightarrow> i < NBUF \<and> b_dev (bufs s ! i) = 1 \<and> b_blockno (bufs s ! i) = n"

text \<open>The content of block \<open>n\<close> as the kernel sees it: its valid buffer, or the disk.\<close>

definition view :: "kst \<Rightarrow> nat \<Rightarrow> block" where
  "view s n = (case List.find (\<lambda>i. b_valid (bufs s ! i) \<and> b_dev (bufs s ! i) = 1 \<and> b_blockno (bufs s ! i) = n)
                    [0..<NBUF] of
     Some i \<Rightarrow> b_data (bufs s ! i) | None \<Rightarrow> disk s n)"

text \<open>This CPU runs kernel code of process \<open>p\<close> and holds no spin lock.\<close>

definition idle_locks :: "kst \<Rightarrow> bool" where
  "idle_locks s \<longleftrightarrow> held s = [] \<and> (\<exists>p. curproc s = Some p \<and> p < length (procs s))"

text \<open>The current process holds the sleep lock of buffer \<open>i\<close>.\<close>

definition owns :: "kst \<Rightarrow> nat \<Rightarrow> bool" where
  "owns s i \<longleftrightarrow> sl_locked (b_lock (bufs s ! i)) \<and> sl_pid (b_lock (bufs s ! i)) = pid (cur s)"

lemma find_SomeD: "List.find P xs = Some x \<Longrightarrow> P x \<and> x \<in> set xs"
  by (auto simp: find_Some_iff)

lemma find_None: "List.find P xs = None \<longleftrightarrow> (\<forall>x \<in> set xs. \<not> P x)"
  by (auto simp: find_None_iff)

lemma find_unique:
  assumes "P x" "x \<in> set xs" "\<And>y. y \<in> set xs \<Longrightarrow> P y \<Longrightarrow> y = x"
  shows "List.find P xs = Some x"
proof (cases "List.find P xs")
  case None
  with assms(1,2) show ?thesis by (simp add: find_None)
next
  case (Some y)
  with assms(3) show ?thesis by (auto dest: find_SomeD)
qed

lemma find_append_Some: "List.find P xs = Some x \<Longrightarrow> List.find P (xs @ ys) = Some x"
  by (induction xs) (auto split: if_split_asm)

text \<open>\<open>List.find\<close> from the back returns the last element that passes the test.\<close>

lemma find_rev_last:
  assumes "List.find P (rev (ys @ x # zs)) = Some x" "x \<notin> set zs"
  shows "\<forall>z \<in> set zs. \<not> P z"
proof (rule ccontr)
  assume "\<not> (\<forall>z \<in> set zs. \<not> P z)"
  then obtain z where z: "List.find P (rev zs) = Some z"
    by (cases "List.find P (rev zs)") (auto simp: find_None)
  then have "List.find P (rev (ys @ x # zs)) = Some z"
    using find_append_Some[OF z, of "x # rev ys"] by simp
  with assms find_SomeD[OF z] show False by simp
qed

lemma bc_inv_buf: "bc_inv s \<Longrightarrow> i < NBUF \<Longrightarrow> buf_ok s (bufs s ! i)"
  by (simp add: bc_inv_def)

lemma bc_inv_len: "bc_inv s \<Longrightarrow> length (bufs s) = NBUF"
  by (simp add: bc_inv_def)

lemma bc_inv_mru: "bc_inv s \<Longrightarrow> set (mru s) = {..<NBUF}"
  by (simp add: bc_inv_def)

lemma cached_unique: "bc_inv s \<Longrightarrow> cached s i n \<Longrightarrow> cached s j n \<Longrightarrow> i = j"
  by (simp add: bc_inv_def cached_def)

lemma view_cached:
  assumes "bc_inv s" "cached s i n"
  shows "view s n = (if b_valid (bufs s ! i) then b_data (bufs s ! i) else disk s n)"
proof -
  let ?P = "\<lambda>i. b_valid (bufs s ! i) \<and> b_dev (bufs s ! i) = 1 \<and> b_blockno (bufs s ! i) = n"
  have only: "j = i" if "j \<in> set [0..<NBUF]" "?P j" for j
    using cached_unique[OF assms(1) _ assms(2), of j] that by (simp add: cached_def)
  show ?thesis
  proof (cases "b_valid (bufs s ! i)")
    case True
    then have "List.find ?P [0..<NBUF] = Some i"
      using assms(2) only by (intro find_unique) (auto simp: cached_def)
    then show ?thesis using True by (simp add: view_def)
  next
    case False
    then have "List.find ?P [0..<NBUF] = None"
      using only by (auto simp: find_None)
    then show ?thesis using False by (simp add: view_def)
  qed
qed

lemma view_uncached: "\<forall>i. \<not> cached s i n \<Longrightarrow> view s n = disk s n"
  by (auto simp: view_def cached_def split: option.split dest!: find_SomeD)

end
