(* ===== verification/BioSpec.thy ===== *)
theory BioSpec
  imports Bio
begin

text \<open>
  Correctness of the buffer cache: what \<open>bread\<close>, \<open>brelse\<close>, a modification of a held buffer and
  \<open>bwrite\<close> do to the invariant and to the view of the disk.
\<close>

lemma idle_locksD: "idle_locks s \<Longrightarrow> held s = []"
  by (simp add: idle_locks_def)

lemma idle_locks_upd_buf [simp]: "idle_locks (upd_buf i f s) = idle_locks s"
  by (simp add: idle_locks_def)

lemma idle_locks_wakeup1 [simp]: "idle_locks (wakeup1 c s) = idle_locks s"
  by (simp add: idle_locks_def)

lemma acquiresleep_idle:
  assumes "idle_locks s" "\<not> sl_locked (get_sl r s)"
  shows "acquiresleep r s = Ok () (set_sl r \<lparr>sl_locked = True, sl_pid = pid (cur s)\<rparr> s)"
  using assms acquiresleep_free by (auto simp: idle_locks_def)

lemma holdingsleep_idle:
  assumes "idle_locks s"
  shows "holdingsleep r s = Ok (sl_locked (get_sl r s) \<and> sl_pid (get_sl r s) = pid (cur s)) s"
  using assms holdingsleep_eq by (auto simp: idle_locks_def)

lemma upd_buf_upd_buf [simp]:
  "upd_buf i f (upd_buf i g s) = upd_buf i (\<lambda>b. f (g b)) s" if "i < length (bufs s)"
  using that by (simp add: upd_buf_def)

text \<open>The scan for a cached block finds the buffer of the block.\<close>

lemma buf_hit_Some:
  assumes "bc_inv s" "buf_hit 1 n s = Some i"
  shows "cached s i n"
  using assms by (auto simp: buf_hit_def bc_inv_mru cached_def dest!: find_SomeD)

lemma buf_hit_cached:
  assumes "bc_inv s" "cached s i n"
  shows "buf_hit 1 n s = Some i"
proof -
  have "i \<in> set (mru s)" using assms by (simp add: bc_inv_mru cached_def)
  moreover have "j = i" if "j \<in> set (mru s)" "b_dev (bufs s ! j) = 1 \<and> b_blockno (bufs s ! j) = n" for j
    using cached_unique[OF assms(1) _ assms(2), of j] that bc_inv_mru[OF assms(1)]
    by (simp add: cached_def)
  ultimately show ?thesis
    using assms(2) unfolding buf_hit_def cached_def by (intro find_unique) blast+
qed

lemma buf_hit_None: "bc_inv s \<Longrightarrow> buf_hit 1 n s = None \<longleftrightarrow> (\<forall>i. \<not> cached s i n)"
  by (cases "buf_hit 1 n s") (auto dest: buf_hit_Some buf_hit_cached)

lemma buf_victim_Some:
  assumes "bc_inv s" "buf_victim s = Some i"
  shows "i < NBUF \<and> b_refcnt (bufs s ! i) = 0 \<and> \<not> b_dirty (bufs s ! i)"
  using assms by (auto simp: buf_victim_def bc_inv_mru dest!: find_SomeD)

text \<open>A buffer that can be recycled.\<close>

definition buf_free :: "kst \<Rightarrow> nat \<Rightarrow> bool" where
  "buf_free s i \<longleftrightarrow> i < NBUF \<and> b_refcnt (bufs s ! i) = 0 \<and> \<not> b_dirty (bufs s ! i)"

lemma buf_victim_ex:
  assumes "bc_inv s" "buf_free s i"
  shows "\<exists>j. buf_victim s = Some j"
proof (cases "buf_victim s")
  case None
  then have "\<forall>x \<in> {..<NBUF}. \<not> (b_refcnt (bufs s ! x) = 0 \<and> \<not> b_dirty (bufs s ! x))"
    by (simp add: buf_victim_def find_None bc_inv_mru[OF assms(1)])
  with assms(2) show ?thesis unfolding buf_free_def by blast
qed simp

subsection \<open>What \<open>bread\<close> does to the entry it returns\<close>

definition take_hit :: "int \<Rightarrow> block \<Rightarrow> buf \<Rightarrow> buf" where
  "take_hit pd d b = b\<lparr>b_refcnt := uadd (b_refcnt b) 1, b_lock := \<lparr>sl_locked = True, sl_pid = pd\<rparr>,
     b_data := (if b_valid b then b_data b else d), b_valid := True\<rparr>"

definition take_miss :: "int \<Rightarrow> nat \<Rightarrow> block \<Rightarrow> buf \<Rightarrow> buf" where
  "take_miss pd n d b = b\<lparr>b_dev := 1, b_blockno := n, b_valid := True, b_dirty := False, b_refcnt := 1,
     b_lock := \<lparr>sl_locked = True, sl_pid = pd\<rparr>, b_data := d\<rparr>"

lemma bget_hit:
  assumes "idle_locks s" "bc_inv s" "cached s i n" "\<not> sl_locked (b_lock (bufs s ! i))"
  shows "bget 1 n s = Ok i (upd_buf i (\<lambda>b. b\<lparr>b_refcnt := uadd (b_refcnt b) 1,
           b_lock := \<lparr>sl_locked = True, sl_pid = pid (cur s)\<rparr>\<rparr>) s)"
proof -
  have i: "i < length (bufs s)" using assms(2,3) by (simp add: bc_inv_len cached_def)
  have h: "buf_hit 1 n (s\<lparr>held := [LBcache]\<rparr>) = Some i"
    using buf_hit_cached[OF assms(2,3)] by (simp add: buf_hit_def)
  let ?u = "upd_buf i (\<lambda>b. b\<lparr>b_refcnt := uadd (b_refcnt b) 1\<rparr>) s"
  have "acquiresleep (SBuf i) ?u = Ok () (set_sl (SBuf i) \<lparr>sl_locked = True, sl_pid = pid (cur s)\<rparr> ?u)"
    using assms(1,4) i by (subst acquiresleep_idle) simp_all
  then show ?thesis
    using assms(1) h i by (simp add: bget_def idle_locksD upd_buf_def)
qed

lemma bget_miss:
  assumes "idle_locks s" "bc_inv s" "\<forall>i. \<not> cached s i n" "buf_victim s = Some i"
  shows "bget 1 n s = Ok i (upd_buf i (\<lambda>b. b\<lparr>b_dev := 1, b_blockno := n, b_valid := False,
           b_dirty := False, b_refcnt := 1, b_lock := \<lparr>sl_locked = True, sl_pid = pid (cur s)\<rparr>\<rparr>) s)"
proof -
  have i: "i < NBUF" "b_refcnt (bufs s ! i) = 0" using buf_victim_Some[OF assms(2,4)] by auto
  then have free: "\<not> sl_locked (b_lock (bufs s ! i))" and len: "i < length (bufs s)"
    using bc_inv_buf[OF assms(2), of i] bc_inv_len[OF assms(2)] by (auto simp: buf_ok_def)
  have h: "buf_hit 1 n (s\<lparr>held := [LBcache]\<rparr>) = None" "buf_victim (s\<lparr>held := [LBcache]\<rparr>) = Some i"
    using assms buf_hit_None[OF assms(2)] by (simp_all add: buf_hit_def buf_victim_def)
  let ?u = "upd_buf i (\<lambda>b. b\<lparr>b_dev := 1, b_blockno := n, b_valid := False, b_dirty := False,
              b_refcnt := 1\<rparr>) s"
  have "acquiresleep (SBuf i) ?u = Ok () (set_sl (SBuf i) \<lparr>sl_locked = True, sl_pid = pid (cur s)\<rparr> ?u)"
    using assms(1) free len by (subst acquiresleep_idle) simp_all
  then show ?thesis
    using assms(1) h len by (simp add: bget_def idle_locksD upd_buf_def)
qed

lemma bread_hit:
  assumes "idle_locks s" "bc_inv s" "cached s i n" "\<not> sl_locked (b_lock (bufs s ! i))" "n < disksize s"
  shows "bread 1 n s = Ok i (upd_buf i (take_hit (pid (cur s)) (disk s n)) s)"
proof -
  have i: "i < length (bufs s)" using assms(2,3) by (simp add: bc_inv_len cached_def)
  have nd: "\<not> b_valid (bufs s ! i) \<Longrightarrow> \<not> b_dirty (bufs s ! i)"
    using bc_inv_buf[OF assms(2), of i] assms(3) by (auto simp: buf_ok_def cached_def)
  show ?thesis
    using assms(1,3,5) i nd
    by (simp add: bread_def bget_hit[OF assms(1-4)] iderw_def holdingsleep_idle Let_def cached_def)
       (auto simp: take_hit_def intro!: upd_buf_cong buf.equality)
qed

lemma bread_miss:
  assumes "idle_locks s" "bc_inv s" "\<forall>i. \<not> cached s i n" "buf_victim s = Some i" "n < disksize s"
  shows "bread 1 n s = Ok i (upd_buf i (take_miss (pid (cur s)) n (disk s n)) s)"
proof -
  have i: "i < length (bufs s)" using buf_victim_Some[OF assms(2,4)] assms(2) by (simp add: bc_inv_len)
  show ?thesis
    using assms(1,5) i
    by (simp add: bread_def bget_miss[OF assms(1-4)] iderw_def holdingsleep_idle Let_def)
       (auto simp: take_miss_def intro!: upd_buf_cong buf.equality)
qed

subsection \<open>The invariant and the view under an update of one buffer\<close>

lemma buf_ok_upd_buf [simp]: "buf_ok (upd_buf i f s) b = buf_ok s b"
  by (simp add: buf_ok_def)

lemma bc_inv_upd_buf:
  assumes "bc_inv s" "i < NBUF" "buf_ok s (f (bufs s ! i))"
    and "\<And>j. j < NBUF \<Longrightarrow> j \<noteq> i \<Longrightarrow> b_dev (f (bufs s ! i)) = b_dev (bufs s ! j) \<Longrightarrow>
           b_blockno (f (bufs s ! i)) = b_blockno (bufs s ! j) \<Longrightarrow> b_dev (bufs s ! j) = 0"
  shows "bc_inv (upd_buf i f s)"
proof -
  have nth: "bufs (upd_buf i f s) ! j = (if j = i then f (bufs s ! i) else bufs s ! j)" for j
    using assms(1,2) by (simp add: bc_inv_len nth_list_update_if)
  show ?thesis
    unfolding bc_inv_def
  proof (intro conjI allI impI)
    fix j k assume jk: "j < NBUF" "k < NBUF" "b_dev (bufs (upd_buf i f s) ! j) \<noteq> 0"
      "b_dev (bufs (upd_buf i f s) ! j) = b_dev (bufs (upd_buf i f s) ! k)"
      "b_blockno (bufs (upd_buf i f s) ! j) = b_blockno (bufs (upd_buf i f s) ! k)"
    then show "j = k"
      using assms(4)[of j] assms(4)[of k] assms(1) unfolding nth bc_inv_def
      by (auto split: if_split_asm)
  qed (use assms(1,3) nth in \<open>auto simp: bc_inv_def\<close>)
qed

lemma bc_inv_upd_same:
  assumes "bc_inv s" "i < NBUF" "buf_ok s (f (bufs s ! i))"
    "b_dev (f (bufs s ! i)) = b_dev (bufs s ! i)" "b_blockno (f (bufs s ! i)) = b_blockno (bufs s ! i)"
  shows "bc_inv (upd_buf i f s)"
proof (rule bc_inv_upd_buf[where f = f, OF assms(1-3)])
  fix j assume "j < NBUF" "j \<noteq> i" "b_dev (f (bufs s ! i)) = b_dev (bufs s ! j)"
    "b_blockno (f (bufs s ! i)) = b_blockno (bufs s ! j)"
  then show "b_dev (bufs s ! j) = 0"
    using assms unfolding bc_inv_def by metis
qed

lemma cached_upd_same:
  assumes "length (bufs s) = NBUF" "i < NBUF"
    "b_dev (f (bufs s ! i)) = b_dev (bufs s ! i)" "b_blockno (f (bufs s ! i)) = b_blockno (bufs s ! i)"
  shows "cached (upd_buf i f s) j m = cached s j m"
  using assms by (auto simp: cached_def nth_list_update_if)

text \<open>The view after the buffer of block \<open>n\<close> changed, but not the block it caches.\<close>

lemma view_upd_same:
  assumes "bc_inv s" "bc_inv (upd_buf i f s)" "cached s i n"
    "b_dev (f (bufs s ! i)) = b_dev (bufs s ! i)" "b_blockno (f (bufs s ! i)) = b_blockno (bufs s ! i)"
  shows "view (upd_buf i f s) = (view s)(n := (if b_valid (f (bufs s ! i)) then b_data (f (bufs s ! i))
           else disk s n))"
proof
  fix m
  let ?t = "upd_buf i f s"
  have i: "i < NBUF" using assms(3) by (simp add: cached_def)
  have c: "cached ?t j k = cached s j k" for j k
    using assms i by (intro cached_upd_same) (simp_all add: bc_inv_len)
  show "view ?t m = ((view s)(n := (if b_valid (f (bufs s ! i)) then b_data (f (bufs s ! i))
           else disk s n))) m"
  proof (cases "m = n")
    case True
    have "cached ?t i n" using assms(3) c by simp
    then show ?thesis
      using view_cached[OF assms(2)] True i assms(1) by (simp add: bc_inv_len)
  next
    case False
    show ?thesis
    proof (cases "\<exists>j. cached s j m")
      case True
      then obtain j where j: "cached s j m" by blast
      then have "j \<noteq> i" using False assms(3) by (auto simp: cached_def)
      then show ?thesis
        using view_cached[OF assms(1) j] view_cached[OF assms(2), of j m] j c False by simp
    next
      case uc: False
      then show ?thesis using view_uncached[of s m] view_uncached[of ?t m] c False by simp
    qed
  qed
qed

text \<open>Recycling a free buffer for an uncached block leaves the view as it is.\<close>

lemma view_recycle:
  assumes "bc_inv s" "bc_inv (upd_buf i f s)" "buf_free s i" "\<forall>i. \<not> cached s i n"
    "b_dev (f (bufs s ! i)) = 1" "b_blockno (f (bufs s ! i)) = n" "b_data (f (bufs s ! i)) = disk s n"
  shows "view (upd_buf i f s) = view s"
proof
  fix m
  let ?t = "upd_buf i f s"
  have i: "i < NBUF" "i < length (bufs s)" using assms(1,3) by (simp_all add: buf_free_def bc_inv_len)
  have ok: "b_valid (bufs s ! i) \<Longrightarrow> b_data (bufs s ! i) = disk s (b_blockno (bufs s ! i))"
    using bc_inv_buf[OF assms(1) i(1)] assms(3) by (auto simp: buf_ok_def buf_free_def split: if_split_asm)
  have c: "cached ?t j k = (if j = i then k = n else cached s j k)" for j k
    using assms(5,6) i by (auto simp: cached_def)
  consider (new) "m = n" | (old) "cached s i m" "m \<noteq> n" | (other) "\<not> cached s i m" "m \<noteq> n" by blast
  then show "view ?t m = view s m"
  proof cases
    case new
    then show ?thesis
      using view_cached[OF assms(2), of i n] view_uncached[OF assms(4)] c i assms(7) by simp
  next
    case old
    then have "\<forall>j. \<not> cached ?t j m" using c cached_unique[OF assms(1)] by (metis (full_types))
    then show ?thesis
      using view_uncached[of ?t m] view_cached[OF assms(1) old(1)] ok old(1) by (auto simp: cached_def)
  next
    case other
    show ?thesis
    proof (cases "\<exists>j. cached s j m")
      case True
      then obtain j where j: "cached s j m" by blast
      with other have "j \<noteq> i" by auto
      then show ?thesis
        using view_cached[OF assms(1) j] view_cached[OF assms(2), of j m] j c by simp
    next
      case False
      then show ?thesis using view_uncached[of s m] view_uncached[of ?t m] c other by simp
    qed
  qed
qed

subsection \<open>Specifications of the operations\<close>

text \<open>
  The buffer cache operations change only the buffers, their order and, by waking processes, the
  scheduling states.
\<close>

definition bframe :: "kst \<Rightarrow> kst \<Rightarrow> bool" where
  "bframe s t \<longleftrightarrow> psame s t
     \<and> t\<lparr>bufs := [], mru := [], procs := []\<rparr> = s\<lparr>bufs := [], mru := [], procs := []\<rparr>"

lemma bframe_refl [simp]: "bframe s s"
  by (simp add: bframe_def)

lemma bframe_trans [trans]: "bframe s t \<Longrightarrow> bframe t u \<Longrightarrow> bframe s u"
  by (auto simp: bframe_def intro: psame_trans)

lemma bframe_psame: "bframe s t \<Longrightarrow> psame s t"
  by (simp add: bframe_def)

lemma bframeD:
  assumes "bframe s t"
  shows "disk t = disk s" "disksize t = disksize s" "lg t = lg s" "sb t = sb s" "inodes t = inodes s"
    "files t = files s" "pipes t = pipes s" "held t = held s" "curproc t = curproc s"
    "dwrites t = dwrites s"
  using assms unfolding bframe_def by (cases s; cases t; simp)+

lemma bframe_upd_buf [simp]: "bframe s (upd_buf i f s)"
  by (simp add: bframe_def psame_def upd_buf_def)

lemma bframe_mru [simp]: "bframe s (s\<lparr>mru := m\<rparr>)"
  by (simp add: bframe_def psame_def)

lemma bframe_wakeup1 [simp]: "bframe s (wakeup1 c s)"
  unfolding bframe_def by (simp add: wakeup1_def[of c s]) (simp add: wakeup1_def[symmetric])

lemma bframe_pid:
  assumes "bframe s t" "idle_locks s"
  shows "pid (cur t) = pid (cur s)" "idle_locks t"
  using assms psame_cur[OF bframe_psame[OF assms(1)]] psame_nth(1)[OF bframe_psame[OF assms(1)]]
    bframeD[OF assms(1)] unfolding idle_locks_def by auto

text \<open>Block \<open>n\<close> can be read without sleeping and without running out of buffers.\<close>

definition can_read :: "kst \<Rightarrow> nat \<Rightarrow> bool" where
  "can_read s n \<longleftrightarrow> n < disksize s
     \<and> ((\<exists>i. cached s i n \<and> \<not> sl_locked (b_lock (bufs s ! i)))
        \<or> (\<forall>i. \<not> cached s i n) \<and> (\<exists>i. buf_free s i))"

text \<open>
  Buffer \<open>i\<close> is held by the current process as the valid buffer of block \<open>n\<close>, with content \<open>d\<close>.
\<close>

definition holds :: "kst \<Rightarrow> nat \<Rightarrow> nat \<Rightarrow> block \<Rightarrow> bool" where
  "holds s i n d \<longleftrightarrow> cached s i n \<and> owns s i \<and> b_valid (bufs s ! i) \<and> b_data (bufs s ! i) = d"

lemma take_hit_ok:
  assumes "bc_inv s" "cached s i n" "\<not> sl_locked (b_lock (bufs s ! i))" "n < disksize s"
  shows "buf_ok s (take_hit pd (disk s n) (bufs s ! i))"
  using bc_inv_buf[OF assms(1), of i] assms
  by (auto simp: buf_ok_def take_hit_def cached_def uadd_def bc_inv_def split: if_split_asm)

lemma take_miss_ok: "bc_inv s \<Longrightarrow> n < disksize s \<Longrightarrow> buf_ok s (take_miss pd n (disk s n) b)"
  by (simp add: buf_ok_def take_miss_def bc_inv_def)

lemma bread_runs:
  assumes "idle_locks s" "bc_inv s" "can_read s n"
  shows "runs (bread 1 n s) (\<lambda>i t. idle_locks t \<and> bc_inv t \<and> holds t i n (view s n) \<and> view t = view s
      \<and> bframe s t \<and> (\<forall>j. j \<noteq> i \<longrightarrow> bufs t ! j = bufs s ! j) \<and> (cached s i n \<or> buf_free s i)
      \<and> b_refcnt (bufs t ! i) = b_refcnt (bufs s ! i) + 1
      \<and> (b_dirty (bufs t ! i) = (cached s i n \<and> b_dirty (bufs s ! i)))
      \<and> (b_dirty (bufs t ! i) \<or> view s n = disk s n))"
proof -
  have n: "n < disksize s" using assms(3) by (simp add: can_read_def)
  consider (hit) i where "cached s i n" "\<not> sl_locked (b_lock (bufs s ! i))"
    | (miss) i where "\<forall>i. \<not> cached s i n" "buf_victim s = Some i"
    using assms(3) buf_victim_ex[OF assms(2)] unfolding can_read_def by blast
  then show ?thesis
  proof cases
    case hit
    let ?f = "take_hit (pid (cur s)) (disk s n)"
    have i: "i < NBUF" "i < length (bufs s)" using hit(1) assms(2) by (simp_all add: cached_def bc_inv_len)
    have inv: "bc_inv (upd_buf i ?f s)"
      using take_hit_ok[OF assms(2) hit n] i by (intro bc_inv_upd_same[OF assms(2)]) (simp_all add: take_hit_def)
    have v: "view (upd_buf i ?f s) = view s"
      using view_upd_same[OF assms(2) inv hit(1)] view_cached[OF assms(2) hit(1)]
      by (auto simp: take_hit_def fun_eq_iff)
    have coh: "b_dirty (bufs s ! i) \<or> view s n = disk s n"
      using bc_inv_buf[OF assms(2) i(1)] hit view_cached[OF assms(2) hit(1)]
      by (auto simp: buf_ok_def cached_def)
    have c: "cached (upd_buf i ?f s) i n"
      using hit(1) i by (simp add: cached_def take_hit_def)
    show ?thesis
      using bread_hit[OF assms(1,2) hit n] assms(1) inv v coh c hit(1) i view_cached[OF inv c]
      bc_inv_buf[OF assms(2) i(1)] hit(2)
      by (auto simp: holds_def owns_def take_hit_def buf_ok_def uadd_def)
  next
    case miss
    let ?f = "take_miss (pid (cur s)) n (disk s n)"
    have free: "buf_free s i" using buf_victim_Some[OF assms(2) miss(2)] by (simp add: buf_free_def)
    then have i: "i < NBUF" "i < length (bufs s)" using assms(2) by (simp_all add: buf_free_def bc_inv_len)
    have inv: "bc_inv (upd_buf i ?f s)"
      using take_miss_ok[OF assms(2) n] miss(1) i
      by (intro bc_inv_upd_buf[OF assms(2)]) (auto simp: take_miss_def cached_def)
    have v: "view (upd_buf i ?f s) = view s"
      by (rule view_recycle[OF assms(2) inv free miss(1)]) (simp_all add: take_miss_def)
    show ?thesis
      using bread_miss[OF assms(1,2) miss n] assms(1) inv v i free view_uncached[OF miss(1)] miss(1)
      by (auto simp: holds_def owns_def cached_def take_miss_def buf_free_def)
  qed
qed

text \<open>The holder of a buffer may overwrite its data.\<close>

lemma set_data_spec:
  assumes "bc_inv s" "holds s i n d" "length d' = BSIZE"
  defines "t \<equiv> upd_buf i (\<lambda>b. b\<lparr>b_data := d'\<rparr>) s"
  shows "bc_inv t" "holds t i n d'" "view t = (view s)(n := d')"
proof -
  have i: "i < NBUF" "i < length (bufs s)" and c: "cached s i n"
    using assms(1,2) by (simp_all add: holds_def cached_def bc_inv_len)
  show inv: "bc_inv t"
    unfolding t_def using bc_inv_buf[OF assms(1) i(1)] assms i
    by (intro bc_inv_upd_same) (auto simp: buf_ok_def holds_def owns_def)
  show "holds t i n d'"
    using assms(2) i by (simp add: t_def holds_def owns_def cached_def)
  show "view t = (view s)(n := d')"
    using view_upd_same[OF assms(1) inv[unfolded t_def] c] assms(2) by (simp add: t_def holds_def)
qed

text \<open>Marking a held buffer dirty, as \<open>log_write\<close> does.\<close>

lemma set_dirty_spec:
  assumes "bc_inv s" "holds s i n d"
  defines "t \<equiv> upd_buf i (\<lambda>b. b\<lparr>b_dirty := True\<rparr>) s"
  shows "bc_inv t" "holds t i n d" "view t = view s"
proof -
  have i: "i < NBUF" "i < length (bufs s)" and c: "cached s i n"
    using assms(1,2) by (simp_all add: holds_def cached_def bc_inv_len)
  show inv: "bc_inv t"
    unfolding t_def using bc_inv_buf[OF assms(1) i(1)] assms i
    by (intro bc_inv_upd_same) (auto simp: buf_ok_def holds_def owns_def)
  show "holds t i n d"
    using assms(2) i by (simp add: t_def holds_def owns_def cached_def)
  show "view t = view s"
    using view_upd_same[OF assms(1) inv[unfolded t_def] c] view_cached[OF assms(1) c] assms(2)
    by (auto simp: t_def holds_def)
qed

subsection \<open>Releasing a buffer\<close>

definition put_buf :: "buf \<Rightarrow> buf" where
  "put_buf b = b\<lparr>b_lock := free_lock, b_refcnt := usub (b_refcnt b) 1\<rparr>"

lemma brelse_eq:
  assumes "idle_locks s" "owns s i" "i < length (bufs s)"
  shows "brelse i s = (let t = wakeup1 (Some (ChBufLock i)) (upd_buf i put_buf s) in
     Ok () (if b_refcnt (bufs t ! i) = 0 then t\<lparr>mru := i # remove1 i (mru t)\<rparr> else t))"
proof -
  have h: "held s = []" using assms(1) by (rule idle_locksD)
  have w: "upd_buf i f (wakeup1 c u) = wakeup1 c (upd_buf i f u)" for f c u
    by (simp add: wakeup1_def upd_buf_def)
  show ?thesis
    using assms h
    by (simp add: brelse_def holdingsleep_idle owns_def releasesleep_eq w put_buf_def[abs_def] Let_def
        upd_buf_def wakeup1_def)
qed

lemma bc_inv_mru_update:
  "bc_inv s \<Longrightarrow> i < NBUF \<Longrightarrow> bc_inv (s\<lparr>mru := i # remove1 i (mru s)\<rparr>)"
  by (auto simp: bc_inv_def buf_ok_def distinct_remove1 set_remove1_eq)

lemma bc_inv_wakeup1 [simp]: "bc_inv (wakeup1 c s) = bc_inv s"
  by (simp add: bc_inv_def buf_ok_def)

lemma view_wakeup1 [simp]: "view (wakeup1 c s) = view s"
  by (simp add: view_def fun_eq_iff cong: option.case_cong)

lemma view_mru [simp]: "view (s\<lparr>mru := m\<rparr>) = view s"
  by (simp add: view_def fun_eq_iff cong: option.case_cong)

lemma idle_locks_mru [simp]: "idle_locks (s\<lparr>mru := m\<rparr>) = idle_locks s"
  by (simp add: idle_locks_def)

lemma brelse_runs:
  assumes "idle_locks s" "bc_inv s" "holds s i n d" "b_dirty (bufs s ! i) \<or> d = disk s n"
  shows "runs (brelse i s) (\<lambda>_ t. idle_locks t \<and> bc_inv t \<and> view t = view s \<and> bframe s t
      \<and> bufs t = (bufs s)[i := put_buf (bufs s ! i)])"
proof -
  have i: "i < NBUF" "i < length (bufs s)" and c: "cached s i n"
    using assms(2,3) by (simp_all add: holds_def cached_def bc_inv_len)
  have inv: "bc_inv (upd_buf i put_buf s)"
    using bc_inv_buf[OF assms(2) i(1)] assms(3,4) i
    by (intro bc_inv_upd_same[OF assms(2)])
       (auto simp: buf_ok_def put_buf_def free_lock_def holds_def owns_def cached_def usub_def mod_if)
  have v: "view (upd_buf i put_buf s) = view s"
    using view_upd_same[OF assms(2) inv c] view_cached[OF assms(2) c]
    by (auto simp: put_buf_def fun_eq_iff)
  let ?t = "wakeup1 (Some (ChBufLock i)) (upd_buf i put_buf s)"
  have fr1: "bframe s ?t" by (rule bframe_trans[OF bframe_upd_buf bframe_wakeup1])
  have fr: "bframe s (?t\<lparr>mru := m\<rparr>)" for m by (rule bframe_trans[OF fr1 bframe_mru])
  have eq: "brelse i s = Ok () (if b_refcnt (bufs ?t ! i) = 0 then ?t\<lparr>mru := i # remove1 i (mru ?t)\<rparr> else ?t)"
    using brelse_eq[OF assms(1) _ i(2)] assms(3) by (simp add: holds_def Let_def)
  have tinv: "bc_inv ?t" "view ?t = view s" "idle_locks ?t" "bufs ?t = (bufs s)[i := put_buf (bufs s ! i)]"
    using inv v assms(1) by simp_all
  show ?thesis
    unfolding eq using tinv fr fr1 bc_inv_mru_update[OF tinv(1) i(1)] by simp
qed

end
