(* ===== verification/BufProto.thy ===== *)
theory BufProto
  imports BioSpec
begin

text \<open>
  The protocol of a process that uses the buffer cache while no other process does: \<open>bproto s H\<close>
  says that it holds exactly the buffers \<open>H\<close>, each once. Under it \<open>bread\<close>, \<open>brelse\<close>, \<open>bwrite\<close> and
  the changes the log makes have exact effects on \<open>H\<close>, on the set \<open>dset\<close> of pinned buffers and on
  the view.
\<close>

definition dset :: "kst \<Rightarrow> nat set" where
  "dset s = {i. i < NBUF \<and> b_dirty (bufs s ! i)}"

definition bproto :: "kst \<Rightarrow> nat set \<Rightarrow> bool" where
  "bproto s H \<longleftrightarrow> idle_locks s \<and> bc_inv s \<and> H \<subseteq> {..<NBUF}
     \<and> (\<forall>j < NBUF. if j \<in> H then b_refcnt (bufs s ! j) = 1 \<and> owns s j \<and> b_valid (bufs s ! j)
                    else b_refcnt (bufs s ! j) = 0)"

text \<open>There is a buffer for block \<open>n\<close>.\<close>

definition roomy :: "kst \<Rightarrow> nat set \<Rightarrow> nat \<Rightarrow> bool" where
  "roomy s H n \<longleftrightarrow> n < disksize s \<and> (\<forall>i \<in> H. \<not> cached s i n)
     \<and> ((\<exists>i. cached s i n) \<or> card (H \<union> dset s) < NBUF)"

lemma bprotoD:
  assumes "bproto s H"
  shows "idle_locks s" "bc_inv s" "H \<subseteq> {..<NBUF}"
    "j < NBUF \<Longrightarrow> j \<in> H \<Longrightarrow> b_refcnt (bufs s ! j) = 1 \<and> owns s j \<and> b_valid (bufs s ! j)"
    "j < NBUF \<Longrightarrow> j \<notin> H \<Longrightarrow> b_refcnt (bufs s ! j) = 0"
  using assms by (auto simp: bproto_def)

lemma dset_sub [simp]: "dset s \<subseteq> {..<NBUF}" "finite (dset s)"
  by (auto simp: dset_def)

lemma bproto_unlocked:
  assumes "bproto s H" "j < NBUF" "j \<notin> H"
  shows "\<not> sl_locked (b_lock (bufs s ! j))"
  using bc_inv_buf[OF bprotoD(2)[OF assms(1)] assms(2)] bprotoD(5)[OF assms] by (auto simp: buf_ok_def)

lemma roomy_can_read:
  assumes "bproto s H" "roomy s H n"
  shows "can_read s n"
proof -
  have "\<exists>i. buf_free s i" if "card (H \<union> dset s) < NBUF"
  proof -
    have "H \<union> dset s \<subseteq> {..<NBUF}" using bprotoD(3)[OF assms(1)] by simp
    moreover have "H \<union> dset s \<noteq> {..<NBUF}"
    proof
      assume "H \<union> dset s = {..<NBUF}"
      then have "card (H \<union> dset s) = NBUF" by simp
      with that show False by simp
    qed
    ultimately obtain i where "i < NBUF" "i \<notin> H" "i \<notin> dset s" by blast
    then show ?thesis using bprotoD(5)[OF assms(1)] by (auto simp: buf_free_def dset_def)
  qed
  moreover have "\<not> sl_locked (b_lock (bufs s ! i))" if "cached s i n" for i
    using bproto_unlocked[OF assms(1)] assms(2) that by (auto simp: roomy_def cached_def)
  ultimately show ?thesis using assms(2) unfolding can_read_def roomy_def by blast
qed

text \<open>What \<open>bread\<close> establishes, with \<open>coh\<close> the coherence of the buffer it returns.\<close>

definition coh :: "kst \<Rightarrow> nat \<Rightarrow> nat \<Rightarrow> bool" where
  "coh s i n \<longleftrightarrow> b_dirty (bufs s ! i) \<or> b_data (bufs s ! i) = disk s n"

lemma bread_proto:
  assumes "bproto s H" "roomy s H n"
  shows "runs (bread 1 n s) (\<lambda>i t. bproto t (insert i H) \<and> i \<notin> H \<and> i < NBUF \<and> holds t i n (view s n)
     \<and> view t = view s \<and> bframe s t \<and> dset t = dset s \<and> (\<forall>j. j \<noteq> i \<longrightarrow> bufs t ! j = bufs s ! j)
     \<and> (cached s i n \<or> buf_free s i) \<and> coh t i n)"
proof -
  note sD = bprotoD[OF assms(1)]
  show ?thesis
  proof (rule runs_mono[OF bread_runs[OF sD(1,2) roomy_can_read[OF assms]]])
    fix i t
    assume A: "idle_locks t \<and> bc_inv t \<and> holds t i n (view s n) \<and> view t = view s
      \<and> bframe s t \<and> (\<forall>j. j \<noteq> i \<longrightarrow> bufs t ! j = bufs s ! j) \<and> (cached s i n \<or> buf_free s i)
      \<and> b_refcnt (bufs t ! i) = b_refcnt (bufs s ! i) + 1
      \<and> (b_dirty (bufs t ! i) = (cached s i n \<and> b_dirty (bufs s ! i)))
      \<and> (b_dirty (bufs t ! i) \<or> view s n = disk s n)"
    have i: "i < NBUF" using A by (auto simp: holds_def cached_def)
    have nH: "i \<notin> H"
      using A assms(2) sD(4)[OF i] by (auto simp: roomy_def buf_free_def)
    have pd: "pid (cur t) = pid (cur s)" using bframe_pid A sD(1) by blast
    have "bproto t (insert i H)"
      unfolding bproto_def
    proof (intro conjI allI impI)
      fix j assume j: "j < NBUF"
      show "if j \<in> insert i H then b_refcnt (bufs t ! j) = 1 \<and> owns t j \<and> b_valid (bufs t ! j)
            else b_refcnt (bufs t ! j) = 0"
        using A nH j sD(4,5)[of j] sD(5)[OF i nH] pd by (auto simp: holds_def owns_def)
    qed (use A i sD(3) in auto)
    moreover have "dset t = dset s"
      using A by (auto simp: dset_def buf_free_def)
    moreover have "coh t i n"
      using A bframeD(1)[of s t] by (auto simp: coh_def holds_def)
    ultimately show "bproto t (insert i H) \<and> i \<notin> H \<and> i < NBUF \<and> holds t i n (view s n)
       \<and> view t = view s \<and> bframe s t \<and> dset t = dset s \<and> (\<forall>j. j \<noteq> i \<longrightarrow> bufs t ! j = bufs s ! j)
       \<and> (cached s i n \<or> buf_free s i) \<and> coh t i n"
      using A i nH by simp
  qed
qed

lemma brelse_proto:
  assumes "bproto s H" "i \<in> H" "holds s i n d" "coh s i n"
  shows "runs (brelse i s) (\<lambda>_ t. bproto t (H - {i}) \<and> view t = view s \<and> bframe s t \<and> dset t = dset s
     \<and> (\<forall>j. j \<noteq> i \<longrightarrow> bufs t ! j = bufs s ! j) \<and> (\<forall>j m. cached t j m = cached s j m)
     \<and> b_data (bufs t ! i) = d \<and> b_valid (bufs t ! i))"
proof -
  note sD = bprotoD[OF assms(1)]
  have i: "i < NBUF" "i < length (bufs s)" using assms(2) sD(3) bc_inv_len[OF sD(2)] by auto
  have c: "b_dirty (bufs s ! i) \<or> d = disk s n" using assms(3,4) by (auto simp: coh_def holds_def)
  show ?thesis
  proof (rule runs_mono[OF brelse_runs[OF sD(1,2) assms(3) c]])
    fix u t
    assume A: "idle_locks t \<and> bc_inv t \<and> view t = view s \<and> bframe s t
      \<and> bufs t = (bufs s)[i := put_buf (bufs s ! i)]"
    have pd: "pid (cur t) = pid (cur s)" using bframe_pid A sD(1) by blast
    have nth: "bufs t ! j = (if j = i then put_buf (bufs s ! i) else bufs s ! j)" for j
      using A i by simp
    have "bproto t (H - {i})"
      using A sD nth pd assms(2)
      by (auto simp: bproto_def owns_def put_buf_def usub_def sD(4)[OF i(1) assms(2)])
    moreover have "dset t = dset s"
      unfolding dset_def nth by (auto simp: put_buf_def)
    moreover have "cached t j m = cached s j m" for j m
      unfolding cached_def nth by (auto simp: put_buf_def)
    ultimately show "bproto t (H - {i}) \<and> view t = view s \<and> bframe s t \<and> dset t = dset s
       \<and> (\<forall>j. j \<noteq> i \<longrightarrow> bufs t ! j = bufs s ! j) \<and> (\<forall>j m. cached t j m = cached s j m)
       \<and> b_data (bufs t ! i) = d \<and> b_valid (bufs t ! i)"
      using A assms(3) unfolding nth by (auto simp: put_buf_def holds_def)
  qed
qed

text \<open>Overwriting the data of a held buffer, and pinning it.\<close>

lemma set_data_proto:
  assumes "bproto s H" "i \<in> H" "holds s i n d" "length d' = BSIZE"
  defines "t \<equiv> upd_buf i (\<lambda>b. b\<lparr>b_data := d'\<rparr>) s"
  shows "bproto t H" "holds t i n d'" "view t = (view s)(n := d')" "dset t = dset s"
proof -
  note sD = bprotoD[OF assms(1)]
  have i: "i < NBUF" "i < length (bufs s)" using assms(2) sD(3) bc_inv_len[OF sD(2)] by auto
  note spec = set_data_spec[OF sD(2) assms(3,4), folded t_def]
  show "holds t i n d'" "view t = (view s)(n := d')" using spec by simp_all
  show "bproto t H"
    using spec(1) sD i by (auto simp: bproto_def t_def nth_list_update_if owns_def)
  show "dset t = dset s" using i by (auto simp: t_def dset_def nth_list_update_if)
qed

lemma set_dirty_proto:
  assumes "bproto s H" "i \<in> H" "holds s i n d"
  defines "t \<equiv> upd_buf i (\<lambda>b. b\<lparr>b_dirty := True\<rparr>) s"
  shows "bproto t H" "holds t i n d" "view t = view s" "dset t = insert i (dset s)" "coh t i n"
proof -
  note sD = bprotoD[OF assms(1)]
  have i: "i < NBUF" "i < length (bufs s)" using assms(2) sD(3) bc_inv_len[OF sD(2)] by auto
  note spec = set_dirty_spec[OF sD(2) assms(3), folded t_def]
  show "holds t i n d" "view t = view s" using spec by simp_all
  show "bproto t H"
    using spec(1) sD i by (auto simp: bproto_def t_def nth_list_update_if owns_def)
  show "dset t = insert i (dset s)" using i by (auto simp: t_def dset_def nth_list_update_if)
  show "coh t i n" using i by (simp add: t_def coh_def)
qed

subsection \<open>Writing a block to the disk\<close>

definition wrote :: "nat \<Rightarrow> block \<Rightarrow> buf \<Rightarrow> buf" where
  "wrote n d b = b\<lparr>b_dirty := False, b_valid := True\<rparr>"

text \<open>A disk write of \<open>d\<close> to block \<open>n\<close>: only the disk, its history and the buffers change.\<close>

definition wframe :: "nat \<Rightarrow> block \<Rightarrow> kst \<Rightarrow> kst \<Rightarrow> bool" where
  "wframe n d s t \<longleftrightarrow> t\<lparr>bufs := []\<rparr>
     = s\<lparr>disk := (disk s)(n := d), dwrites := dwrites s @ [(n, d)], bufs := []\<rparr>"

lemma wframeD:
  assumes "wframe n d s t"
  shows "disk t = (disk s)(n := d)" "dwrites t = dwrites s @ [(n, d)]" "disksize t = disksize s"
    "lg t = lg s" "sb t = sb s" "inodes t = inodes s" "files t = files s" "pipes t = pipes s"
    "held t = held s" "curproc t = curproc s" "procs t = procs s" "mru t = mru s"
  using assms unfolding wframe_def by (cases s; cases t; simp)+

lemma bwrite_eq:
  assumes "idle_locks s" "bc_inv s" "holds s i n d"
  shows "bwrite i s = Ok () (upd_buf i (\<lambda>b. b\<lparr>b_dirty := False, b_valid := True\<rparr>)
           (s\<lparr>disk := (disk s)(n := d), dwrites := dwrites s @ [(n, d)]\<rparr>))"
proof -
  have i: "i < NBUF" "i < length (bufs s)" using assms(2,3) by (simp_all add: holds_def cached_def bc_inv_len)
  have "b_dev (bufs s ! i) = 1" "b_blockno (bufs s ! i) = n" "n < disksize s"
    using assms(3) bc_inv_buf[OF assms(2) i(1)] by (auto simp: holds_def cached_def buf_ok_def)
  then show ?thesis
    using assms(1,3) i
    by (simp add: bwrite_def holdingsleep_idle iderw_def Let_def holds_def owns_def)
       (simp add: upd_buf_def)
qed

lemma bwrite_proto:
  assumes "bproto s H" "i \<in> H" "holds s i n d"
  shows "runs (bwrite i s) (\<lambda>_ t. bproto t H \<and> holds t i n d \<and> view t = view s \<and> coh t i n
     \<and> dset t = dset s - {i} \<and> (\<forall>j. j \<noteq> i \<longrightarrow> bufs t ! j = bufs s ! j)
     \<and> (\<forall>j m. cached t j m = cached s j m)
     \<and> wframe n d s t)"
proof -
  note sD = bprotoD[OF assms(1)]
  let ?t = "upd_buf i (\<lambda>b. b\<lparr>b_dirty := False, b_valid := True\<rparr>)
           (s\<lparr>disk := (disk s)(n := d), dwrites := dwrites s @ [(n, d)]\<rparr>)"
  have i: "i < NBUF" "i < length (bufs s)" using assms(2) sD(3) bc_inv_len[OF sD(2)] by auto
  have c: "cached s i n" and v: "b_valid (bufs s ! i)" and d: "b_data (bufs s ! i) = d"
    using assms(3) by (simp_all add: holds_def)
  have ok: "buf_ok s (bufs s ! j)" if "j < NBUF" for j by (rule bc_inv_buf[OF sD(2) that])
  have nth: "bufs ?t ! j = (if j = i then (bufs s ! i)\<lparr>b_dirty := False, b_valid := True\<rparr> else bufs s ! j)" for j
    using i by simp
  have cc: "cached ?t j m = cached s j m" for j m
    unfolding cached_def nth by auto
  have bok: "buf_ok ?t (bufs ?t ! j)" if j: "j < NBUF" for j
  proof (cases "j = i")
    case True
    then show ?thesis unfolding nth using ok[OF i(1)] d c assms(3)
      by (auto simp: buf_ok_def cached_def holds_def owns_def)
  next
    case False
    have "b_blockno (bufs s ! j) \<noteq> n" if "b_valid (bufs s ! j)"
      using cached_unique[OF sD(2) c, of j] ok[OF j] that False j by (auto simp: cached_def buf_ok_def)
    then show ?thesis unfolding nth using ok[OF j] False by (auto simp: buf_ok_def)
  qed
  have dl: "length d = BSIZE" using ok[OF i(1)] v d by (simp add: buf_ok_def)
  have inv: "bc_inv ?t"
    unfolding bc_inv_def
  proof (intro conjI allI impI bok)
    fix j k assume "j < NBUF" "k < NBUF" "b_dev (bufs ?t ! j) \<noteq> 0" "b_dev (bufs ?t ! j) = b_dev (bufs ?t ! k)"
      "b_blockno (bufs ?t ! j) = b_blockno (bufs ?t ! k)"
    then show "j = k" using sD(2) unfolding nth bc_inv_def by (auto split: if_split_asm)
  qed (use sD(2) dl in \<open>simp_all add: bc_inv_def\<close>)
  have vw: "view ?t = view s"
  proof
    fix m
    show "view ?t m = view s m"
    proof (cases "\<exists>j. cached s j m")
      case True
      then obtain j where j: "cached s j m" by blast
      have "m \<noteq> n" if "j \<noteq> i" using cached_unique[OF sD(2) c, of j] j that by auto
      then show ?thesis
        using view_cached[OF sD(2) j] view_cached[OF inv, of j m] j cc v unfolding nth by auto
    next
      case False
      then have "m \<noteq> n" using c by auto
      then show ?thesis using view_uncached[of s m] view_uncached[of ?t m] cc False by simp
    qed
  qed
  have cu: "cur ?t = cur s" by (rule cur_cong) simp_all
  have ow: "owns ?t j = owns s j" for j unfolding owns_def nth cu by simp
  have "bproto ?t H"
    unfolding bproto_def ow
  proof (intro conjI allI impI)
    fix j assume "j < NBUF"
    then show "if j \<in> H then b_refcnt (bufs ?t ! j) = 1 \<and> owns s j \<and> b_valid (bufs ?t ! j)
      else b_refcnt (bufs ?t ! j) = 0"
      using sD(4,5)[of j] unfolding nth by auto
  qed (use inv sD(1,3) in \<open>simp_all add: idle_locks_def\<close>)
  moreover have "holds ?t i n d" using assms(3) unfolding holds_def cc ow nth by simp
  moreover have "dset ?t = dset s - {i}" unfolding dset_def nth by auto
  moreover have "coh ?t i n" unfolding coh_def nth using d by simp
  moreover have "wframe n d s ?t"
    by (simp add: wframe_def upd_buf_def)
  ultimately show ?thesis
    unfolding bwrite_eq[OF sD(1,2) assms(3)] using vw nth cc by simp
qed

subsection \<open>Pinned blocks\<close>

text \<open>
  The blocks whose buffers are dirty: the log has modified them and not yet written them home, so
  \<open>bget\<close> must not recycle their buffers.
\<close>

definition pinned :: "kst \<Rightarrow> nat set" where
  "pinned s = {m. \<exists>i \<in> dset s. cached s i m}"

lemma dset_cached: "bc_inv s \<Longrightarrow> i \<in> dset s \<Longrightarrow> cached s i (b_blockno (bufs s ! i))"
  using bc_inv_buf[of s i] by (auto simp: dset_def cached_def buf_ok_def)

lemma pinned_image: "bc_inv s \<Longrightarrow> pinned s = (\<lambda>i. b_blockno (bufs s ! i)) ` dset s"
  using dset_cached by (auto simp: pinned_def cached_def)

lemma card_pinned: "bc_inv s \<Longrightarrow> card (pinned s) = card (dset s)"
proof -
  assume inv: "bc_inv s"
  have "inj_on (\<lambda>i. b_blockno (bufs s ! i)) (dset s)"
  proof (rule inj_onI)
    fix i j assume "i \<in> dset s" "j \<in> dset s" "b_blockno (bufs s ! i) = b_blockno (bufs s ! j)"
    then show "i = j"
      using dset_cached[OF inv, of i] dset_cached[OF inv, of j] cached_unique[OF inv] by auto
  qed
  then show ?thesis by (simp add: pinned_image[OF inv] card_image)
qed

lemma finite_pinned: "bc_inv s \<Longrightarrow> finite (pinned s)"
  by (simp add: pinned_image)

lemma pinned_cached: "m \<in> pinned s \<Longrightarrow> \<exists>i. cached s i m"
  by (auto simp: pinned_def)

text \<open>Blocks that are not pinned are on the disk as the view shows them, once nobody holds a buffer.\<close>

lemma view_unpinned:
  assumes "bproto s {}" "m \<notin> pinned s"
  shows "view s m = disk s m"
proof (cases "\<exists>i. cached s i m")
  case True
  then obtain i where i: "cached s i m" by blast
  note sD = bprotoD[OF assms(1)]
  have "\<not> b_dirty (bufs s ! i)" using i assms(2) by (auto simp: pinned_def dset_def cached_def)
  then show ?thesis
    using view_cached[OF sD(2) i] bc_inv_buf[OF sD(2), of i] bproto_unlocked[OF assms(1), of i] i
    by (auto simp: buf_ok_def cached_def)
qed (simp add: view_uncached)

text \<open>There is a buffer for \<open>n\<close> beside the held buffers \<open>H\<close>.\<close>

definition ready :: "kst \<Rightarrow> nat set \<Rightarrow> nat \<Rightarrow> bool" where
  "ready s H n \<longleftrightarrow> n < disksize s \<and> (\<forall>i \<in> H. \<not> cached s i n)
     \<and> (n \<in> pinned s \<or> card H + card (pinned s) < NBUF)"

lemma ready_roomy: "bproto s H \<Longrightarrow> ready s H n \<Longrightarrow> roomy s H n"
  using card_Un_le[of H "dset s"] card_pinned[OF bprotoD(2), of s H] pinned_cached[of n s]
  by (auto simp: ready_def roomy_def)

lemma bread_blk:
  assumes "bproto s H" "ready s H n"
  shows "runs (bread 1 n s) (\<lambda>i t. bproto t (insert i H) \<and> i \<notin> H \<and> i < NBUF \<and> holds t i n (view s n)
     \<and> view t = view s \<and> bframe s t \<and> pinned t = pinned s \<and> (\<forall>j. j \<noteq> i \<longrightarrow> bufs t ! j = bufs s ! j)
     \<and> coh t i n)"
proof (rule runs_mono[OF bread_proto[OF assms(1) ready_roomy[OF assms]]], goal_cases)
  case (1 i t)
  then have "cached t j m = cached s j m" if "j \<in> dset s" for j m
    using that by (cases "j = i") (auto simp: cached_def holds_def dset_def buf_free_def)
  with 1 show ?case by (auto simp: pinned_def)
qed

lemma brelse_blk:
  assumes "bproto s H" "i \<in> H" "holds s i n d" "coh s i n"
  shows "runs (brelse i s) (\<lambda>_ t. bproto t (H - {i}) \<and> view t = view s \<and> bframe s t
     \<and> pinned t = pinned s \<and> (\<forall>j. j \<noteq> i \<longrightarrow> bufs t ! j = bufs s ! j) \<and> (\<forall>j m. cached t j m = cached s j m))"
  by (rule runs_mono[OF brelse_proto[OF assms]]) (auto simp: pinned_def)

text \<open>Held buffers stay as they are while the process uses others.\<close>

lemma holds_frame:
  assumes "holds s i n d" "bufs t ! i = bufs s ! i" "pid (cur t) = pid (cur s)"
  shows "holds t i n d"
  using assms by (simp add: holds_def cached_def owns_def)

lemma coh_frame: "coh s i n \<Longrightarrow> bufs t ! i = bufs s ! i \<Longrightarrow> disk t n = disk s n \<Longrightarrow> coh t i n"
  by (simp add: coh_def)

lemma bwrite_blk:
  assumes "bproto s H" "i \<in> H" "holds s i n d"
  shows "runs (bwrite i s) (\<lambda>_ t. bproto t H \<and> holds t i n d \<and> view t = view s \<and> coh t i n
     \<and> pinned t = pinned s - {n} \<and> (\<forall>j. j \<noteq> i \<longrightarrow> bufs t ! j = bufs s ! j)
     \<and> (\<forall>j m. cached t j m = cached s j m)
     \<and> wframe n d s t)"
proof (rule runs_mono[OF bwrite_proto[OF assms]], elim conjE)
  fix x t
  assume P: "bproto t H" "holds t i n d" "view t = view s" "coh t i n"
    and ds: "dset t = dset s - {i}" and fr: "\<forall>j. j \<noteq> i \<longrightarrow> bufs t ! j = bufs s ! j"
    and cc: "\<forall>j m. cached t j m = cached s j m" and wf: "wframe n d s t"
  have c: "cached s i n" using assms(3) by (simp add: holds_def)
  have u: "j = i" if "cached s j n" for j
    using cached_unique[OF bprotoD(2)[OF assms(1)] that c] .
  have f: "m = n" if "cached s i m" for m using that c by (simp add: cached_def)
  have "pinned t = pinned s - {n}"
    unfolding pinned_def ds cc[rule_format] using u f by fast
  then show "bproto t H \<and> holds t i n d \<and> view t = view s \<and> coh t i n
     \<and> pinned t = pinned s - {n} \<and> (\<forall>j. j \<noteq> i \<longrightarrow> bufs t ! j = bufs s ! j)
     \<and> (\<forall>j m. cached t j m = cached s j m) \<and> wframe n d s t"
    using P fr cc wf by blast
qed

text \<open>Reading a block and releasing it: the shape \<open>bp = bread(...); x = g(bp->data); brelse(bp)\<close>.\<close>

lemma read_blk:
  assumes "bproto s H" "ready s H n"
  shows "runs (bread 1 n s) (\<lambda>i t. b_data (bufs t ! i) = view s n \<and> bframe s t \<and> i < NBUF
     \<and> runs (brelse i t) (\<lambda>_ u. bproto u H \<and> view u = view s \<and> bframe s u \<and> pinned u = pinned s
          \<and> (\<forall>j \<in> H. bufs u ! j = bufs s ! j)))"
proof (rule runs_mono[OF bread_blk[OF assms]], elim conjE)
  fix i t
  assume P: "bproto t (insert i H)" and nH: "i \<notin> H" and iN: "i < NBUF" and hl: "holds t i n (view s n)"
    and vw: "view t = view s" and bf: "bframe s t" and pn: "pinned t = pinned s"
    and fr: "\<forall>j. j \<noteq> i \<longrightarrow> bufs t ! j = bufs s ! j" and co: "coh t i n"
  have H: "insert i H - {i} = H" using nH by (rule Diff_insert_absorb)
  have "runs (brelse i t) (\<lambda>_ u. bproto u H \<and> view u = view s \<and> bframe s u \<and> pinned u = pinned s
          \<and> (\<forall>j \<in> H. bufs u ! j = bufs s ! j))"
  proof (rule runs_mono[OF brelse_blk[OF P insertI1 hl co]], elim conjE)
    fix y u
    assume P': "bproto u (insert i H - {i})" and vw': "view u = view t" and bf': "bframe t u"
      and pn': "pinned u = pinned t" and fr': "\<forall>j. j \<noteq> i \<longrightarrow> bufs u ! j = bufs t ! j"
    have "bufs u ! j = bufs s ! j" if "j \<in> H" for j
    proof -
      have ne: "j \<noteq> i" using that nH by metis
      show ?thesis using fr[rule_format, OF ne] fr'[rule_format, OF ne] by (rule trans[rotated])
    qed
    then show "bproto u H \<and> view u = view s \<and> bframe s u \<and> pinned u = pinned s
          \<and> (\<forall>j \<in> H. bufs u ! j = bufs s ! j)"
      using P'[unfolded H] trans[OF vw' vw] bframe_trans[OF bf bf'] trans[OF pn' pn] by blast
  qed
  moreover have "b_data (bufs t ! i) = view s n" using hl by (simp add: holds_def)
  ultimately show "b_data (bufs t ! i) = view s n \<and> bframe s t \<and> i < NBUF
     \<and> runs (brelse i t) (\<lambda>_ u. bproto u H \<and> view u = view s \<and> bframe s u \<and> pinned u = pinned s
          \<and> (\<forall>j \<in> H. bufs u ! j = bufs s ! j))" using bf iN by blast
qed

end
