(* ===== verification/Bytes.thy ===== *)
theory Bytes
  imports KState
begin

text \<open>
  The byte layout of on-disk structures: little-endian 16- and 32-bit fields at byte offsets of a
  block, as the x86 stores the structs of fs.h and the log header of log.c when the code casts
  \<open>bp->data\<close>, and two's complement readings of them.
\<close>

definition get16 :: "u8 list \<Rightarrow> nat \<Rightarrow> nat" where
  "get16 d i = unat (d ! i) + 256 * unat (d ! (i + 1))"

definition get32 :: "u8 list \<Rightarrow> nat \<Rightarrow> nat" where
  "get32 d i = get16 d i + 65536 * get16 d (i + 2)"

definition put16 :: "nat \<Rightarrow> nat \<Rightarrow> u8 list \<Rightarrow> u8 list" where
  "put16 i v d = d[i := of_nat v, i + 1 := of_nat (v div 256)]"

definition put32 :: "nat \<Rightarrow> nat \<Rightarrow> u8 list \<Rightarrow> u8 list" where
  "put32 i v d = put16 (i + 2) (v div 65536) (put16 i v d)"

text \<open>\<open>short\<close> and \<open>int\<close> of C as their 16- and 32-bit patterns, and back.\<close>

definition sshort :: "nat \<Rightarrow> int" where
  "sshort n = (if n < 2 ^ 15 then int n else int n - 2 ^ 16)"

definition ushort :: "int \<Rightarrow> nat" where
  "ushort i = nat (i mod 2 ^ 16)"

definition sint32 :: "nat \<Rightarrow> int" where
  "sint32 n = (if n < 2 ^ 31 then int n else int n - 2 ^ 32)"

definition uint32 :: "int \<Rightarrow> nat" where
  "uint32 i = nat (i mod 2 ^ 32)"

lemma length_put16 [simp]: "length (put16 i v d) = length d"
  by (simp add: put16_def)

lemma length_put32 [simp]: "length (put32 i v d) = length d"
  by (simp add: put32_def)

lemma nth_put16:
  "j < length d \<Longrightarrow> put16 i v d ! j =
     (if j = i then of_nat v else if j = i + 1 then of_nat (v div 256) else d ! j)"
  by (auto simp: put16_def nth_list_update_if)

lemma nth_put32_other: "j < i \<or> i + 4 \<le> j \<Longrightarrow> j < length d \<Longrightarrow> put32 i v d ! j = d ! j"
  by (auto simp: put32_def nth_put16)

lemma get16_put16: "i + 2 \<le> length d \<Longrightarrow> get16 (put16 i v d) i = v mod 2 ^ 16"
proof -
  assume "i + 2 \<le> length d"
  then have "get16 (put16 i v d) i = v mod 256 + 256 * (v div 256 mod 256)"
    by (simp add: get16_def nth_put16 unat_of_nat)
  also have "\<dots> = v mod 2 ^ 16"
    using mod_mult2_eq[of v 256 256] by simp
  finally show ?thesis .
qed

lemma get16_put16_other:
  "i + 2 \<le> j \<or> j + 2 \<le> i \<Longrightarrow> j + 2 \<le> length d \<Longrightarrow> get16 (put16 i v d) j = get16 d j"
  by (auto simp: get16_def nth_put16)

lemma get32_put32: "i + 4 \<le> length d \<Longrightarrow> get32 (put32 i v d) i = v mod 2 ^ 32"
proof -
  assume i: "i + 4 \<le> length d"
  then have "get32 (put32 i v d) i = v mod 2 ^ 16 + 65536 * (v div 65536 mod 2 ^ 16)"
    by (simp add: get32_def put32_def get16_put16 get16_put16_other)
  also have "\<dots> = v mod 2 ^ 32"
    using mod_mult2_eq[of v "2 ^ 16" "2 ^ 16"] by simp
  finally show ?thesis .
qed

lemma get32_put32_other:
  "i + 4 \<le> j \<or> j + 4 \<le> i \<Longrightarrow> j + 4 \<le> length d \<Longrightarrow> get32 (put32 i v d) j = get32 d j"
  by (auto simp: get32_def get16_def nth_put32_other)

lemma get16_less: "get16 d i < 2 ^ 16"
proof -
  have "unat (x :: u8) \<le> 255" for x
    using unsigned_less[where ?'a = nat, of x] by simp
  from this[of "d ! i"] this[of "d ! (i + 1)"] show ?thesis by (simp add: get16_def)
qed

lemma get32_less: "get32 d i < 2 ^ 32"
  using get16_less[of d i] get16_less[of d "i + 2"] by (simp add: get32_def)

lemma sshort_ushort: "- (2 ^ 15) \<le> i \<Longrightarrow> i < 2 ^ 15 \<Longrightarrow> sshort (ushort i) = i"
proof (cases "0 \<le> i")
  case False
  assume "- (2 ^ 15) \<le> i"
  moreover have "i mod 65536 = (i + 65536) mod 65536" by simp
  moreover have "(i + 65536) mod 65536 = i + 65536"
    using False \<open>- (2 ^ 15) \<le> i\<close> by (intro mod_pos_pos_trivial) simp_all
  ultimately have "i mod 65536 = i + 65536" by (simp only:)
  then show ?thesis using False \<open>- (2 ^ 15) \<le> i\<close> by (simp add: sshort_def ushort_def)
qed (simp add: sshort_def ushort_def)

lemma sint32_uint32: "0 \<le> i \<Longrightarrow> i < 2 ^ 31 \<Longrightarrow> sint32 (uint32 i) = i"
  by (simp add: sint32_def uint32_def)

text \<open>An array of \<open>uint\<close> in a block: the indirect blocks and the block numbers of the log header.\<close>

definition word_at :: "block \<Rightarrow> nat \<Rightarrow> nat" where
  "word_at d k = get32 d (4 * k)"

definition set_word :: "nat \<Rightarrow> nat \<Rightarrow> block \<Rightarrow> block" where
  "set_word k v d = put32 (4 * k) v d"

lemma length_set_word [simp]: "length (set_word k v d) = length d"
  by (simp add: set_word_def)

lemma word_at_set_word:
  "length d = BSIZE \<Longrightarrow> k < 128 \<Longrightarrow> j < 128 \<Longrightarrow> v < 2 ^ 32 \<Longrightarrow>
     word_at (set_word k v d) j = (if j = k then v else word_at d j)"
  by (auto simp: word_at_def set_word_def BSIZE_def get32_put32 intro!: get32_put32_other)

lemma word_at_less: "word_at d k < 2 ^ 32"
  by (simp add: word_at_def get32_less[simplified])

lemma word_at_zero [simp]: "k < 128 \<Longrightarrow> word_at (replicate BSIZE 0) k = 0"
  by (simp add: word_at_def get32_def get16_def BSIZE_def)

subsection \<open>Tables in blocks\<close>

text \<open>
  The interface of a block that holds \<open>n\<close> entries: an entry that was put is read back, and the
  others stay. A table whose entry \<open>i\<close> is in slot \<open>i mod n\<close> of block \<open>blk i\<close> is then updated at one entry only.
\<close>

locale slots =
  fixes get :: "nat \<Rightarrow> 'b \<Rightarrow> 'a"
    and put :: "nat \<Rightarrow> 'a \<Rightarrow> 'b \<Rightarrow> 'b"
    and wf :: "'b \<Rightarrow> bool"
    and ok :: "'a \<Rightarrow> bool"
    and n :: nat
  assumes pos_law: "0 < n"
    and get_put_law: "wf d \<Longrightarrow> k < n \<Longrightarrow> ok x \<Longrightarrow> get k (put k x d) = x"
    and other_law: "wf d \<Longrightarrow> k < n \<Longrightarrow> j < n \<Longrightarrow> j \<noteq> k \<Longrightarrow> get j (put k x d) = get j d"
    and wf_law: "wf d \<Longrightarrow> k < n \<Longrightarrow> wf (put k x d)"
begin

lemma slot_less: "i mod n < n"
  by (rule mod_less_divisor[OF pos_law])

lemma table_put:
  assumes "wf (v (blk i))" "ok x" "blk j = blk i \<Longrightarrow> j mod n = i mod n \<Longrightarrow> j = i"
  shows "get (j mod n) ((v(blk i := put (i mod n) x (v (blk i)))) (blk j)) = (if j = i then x else get (j mod n) (v (blk j)))"
proof (cases "blk j = blk i")
  case True
  then show ?thesis
    using get_put_law[OF assms(1) slot_less assms(2), of i] other_law[OF assms(1) slot_less slot_less, of j i x] assms(3) by auto
qed auto

lemma table_wf: "(\<And>b. wf (v b)) \<Longrightarrow> wf ((v(blk i := put (i mod n) x (v (blk i)))) b)"
  using wf_law[OF _ slot_less] by simp

end

lemma word_at_set_other: "length d = BSIZE \<Longrightarrow> j < 128 \<Longrightarrow> j \<noteq> k \<Longrightarrow> word_at (set_word k v d) j = word_at d j"
  unfolding word_at_def set_word_def BSIZE_def by (rule get32_put32_other) auto

text \<open>The words of an indirect block.\<close>

interpretation words: slots "\<lambda>k d. word_at d k" set_word "\<lambda>d. length d = BSIZE" "\<lambda>v. v < 2 ^ 32" 128
  by unfold_locales (simp_all add: word_at_set_word word_at_set_other)

end
