(* ===== verification/Log.thy ===== *)
theory Log
  imports BufProto Bytes
begin

text \<open>
  The write-ahead log (log.c): a system call is bracketed by \<open>begin_op\<close> and \<open>end_op\<close>, modifies
  buffers and hands them to \<open>log_write\<close>, which pins them; the last \<open>end_op\<close> commits. \<open>tail\<close> and \<open>i\<close>
  of the loops run over \<open>[0..<n]\<close>; an index beyond the array \<open>block[LOGSIZE]\<close> is undefined.
\<close>

subsection \<open>Geometry\<close>

text \<open>The superblock as \<open>memmove\<close> copies it from its block.\<close>

definition dec_sb :: "block \<Rightarrow> superblock" where
  "dec_sb d = \<lparr>sb_size = get32 d 0, sb_nblocks = get32 d 4, sb_ninodes = get32 d 8,
     sb_nlog = get32 d 12, sb_logstart = get32 d 16, sb_inodestart = get32 d 20,
     sb_bmapstart = get32 d 24\<rparr>"

definition readsb :: "nat \<Rightarrow> kst \<Rightarrow> superblock kres" where
  "readsb dev s = kbind (bread dev 1 s) (\<lambda>i s.
     let v = dec_sb (b_data (bufs s ! i)) in
     kbind (brelse i s) (\<lambda>_ s. Ok v s))"

definition upd_lg :: "(logrec \<Rightarrow> logrec) \<Rightarrow> kst \<Rightarrow> kst" where
  "upd_lg f s = s\<lparr>lg := f (lg s)\<rparr>"

text \<open>\<open>memmove(dst->data, src->data, BSIZE)\<close>.\<close>

definition copy_buf :: "nat \<Rightarrow> nat \<Rightarrow> kst \<Rightarrow> kst" where
  "copy_buf dst src s = upd_buf dst (\<lambda>b. b\<lparr>b_data := b_data (bufs s ! src)\<rparr>) s"

definition log_blk :: "kst \<Rightarrow> nat \<Rightarrow> nat" where
  "log_blk s tail = uadd (lg_start (lg s)) (uadd tail 1)"

definition install_one :: "nat \<Rightarrow> kst \<Rightarrow> unit kres" where
  "install_one tail s = kbind (bread (lg_dev (lg s)) (log_blk s tail) s) (\<lambda>lbuf s.
     kbind (kguard (tail < LOGSIZE) s) (\<lambda>_ s.
     kbind (bread (lg_dev (lg s)) (lh_block (lg s) ! tail) s) (\<lambda>dbuf s.
     kbind (bwrite dbuf (copy_buf dbuf lbuf s)) (\<lambda>_ s.
     kbind (brelse lbuf s) (\<lambda>_ s.
     brelse dbuf s)))))"

definition install_trans :: "kst \<Rightarrow> unit kres" where
  "install_trans s = kfor [0..<nat (lh_n (lg s))] install_one s"

definition read_head :: "kst \<Rightarrow> unit kres" where
  "read_head s = kbind (bread (lg_dev (lg s)) (lg_start (lg s)) s) (\<lambda>b s.
     let d = b_data (bufs s ! b); n = sint32 (get32 d 0) in
     kbind (kfor [0..<nat n] (\<lambda>i s. kbind (kguard (i < LOGSIZE) s) (\<lambda>_ s.
         Ok () (upd_lg (\<lambda>g. g\<lparr>lh_block := (lh_block g)[i := get32 d (4 + 4 * i)]\<rparr>) s)))
       (upd_lg (\<lambda>g. g\<lparr>lh_n := n\<rparr>) s)) (\<lambda>_ s.
     brelse b s))"

definition write_head :: "kst \<Rightarrow> unit kres" where
  "write_head s = kbind (bread (lg_dev (lg s)) (lg_start (lg s)) s) (\<lambda>b s.
     kbind (kfor [0..<nat (lh_n (lg s))] (\<lambda>i s. kbind (kguard (i < LOGSIZE) s) (\<lambda>_ s.
         Ok () (upd_buf b (\<lambda>x. x\<lparr>b_data := put32 (4 + 4 * i) (lh_block (lg s) ! i) (b_data x)\<rparr>) s)))
       (upd_buf b (\<lambda>x. x\<lparr>b_data := put32 0 (uint32 (lh_n (lg s))) (b_data x)\<rparr>) s)) (\<lambda>_ s.
     kbind (bwrite b s) (\<lambda>_ s.
     brelse b s)))"

definition recover_from_log :: "kst \<Rightarrow> unit kres" where
  "recover_from_log s = kbind (read_head s) (\<lambda>_ s.
     kbind (install_trans s) (\<lambda>_ s.
     write_head (upd_lg (\<lambda>g. g\<lparr>lh_n := 0\<rparr>) s)))"

text \<open>\<open>sizeof(struct logheader)\<close> is \<open>4 + 4 * LOGSIZE\<close>.\<close>

definition initlog :: "nat \<Rightarrow> kst \<Rightarrow> unit kres" where
  "initlog dev s = kbind (kassert (\<not> 4 + 4 * LOGSIZE \<ge> BSIZE) ''initlog: too big logheader'' s) (\<lambda>_ s.
     kbind (readsb dev s) (\<lambda>v s.
     recover_from_log (upd_lg (\<lambda>g. g\<lparr>lg_start := sb_logstart v, lg_size := sint32 (sb_nlog v),
       lg_dev := dev\<rparr>) s)))"

definition write_log_one :: "nat \<Rightarrow> kst \<Rightarrow> unit kres" where
  "write_log_one tail s = kbind (bread (lg_dev (lg s)) (log_blk s tail) s) (\<lambda>tob s.
     kbind (kguard (tail < LOGSIZE) s) (\<lambda>_ s.
     kbind (bread (lg_dev (lg s)) (lh_block (lg s) ! tail) s) (\<lambda>fromb s.
     kbind (bwrite tob (copy_buf tob fromb s)) (\<lambda>_ s.
     kbind (brelse fromb s) (\<lambda>_ s.
     brelse tob s)))))"

definition write_log :: "kst \<Rightarrow> unit kres" where
  "write_log s = kfor [0..<nat (lh_n (lg s))] write_log_one s"

definition commit :: "kst \<Rightarrow> unit kres" where
  "commit s = (if lh_n (lg s) > 0 then
     kbind (write_log s) (\<lambda>_ s.
     kbind (write_head s) (\<lambda>_ s.
     kbind (install_trans s) (\<lambda>_ s.
     write_head (upd_lg (\<lambda>g. g\<lparr>lh_n := 0\<rparr>) s))))
   else Ok () s)"

subsection \<open>Transactions\<close>

text \<open>
  The loop of \<open>begin_op\<close>: it sleeps or reserves; a process that slept runs \<open>begin_op_again\<close> when the
  scheduler picks it.
\<close>

definition begin_op_loop :: "kst \<Rightarrow> unit kres" where
  "begin_op_loop s =
     (if lg_committing (lg s) then sleep ChLog (Some LLog) s
      else if lh_n (lg s) + (lg_outstanding (lg s) + 1) * int MAXOPBLOCKS > int LOGSIZE
      then sleep ChLog (Some LLog) s
      else release LLog (upd_lg (\<lambda>g. g\<lparr>lg_outstanding := lg_outstanding g + 1\<rparr>) s))"

definition begin_op :: "kst \<Rightarrow> unit kres" where
  "begin_op s = kbind (acquire LLog s) (\<lambda>_ s. begin_op_loop s)"

definition begin_op_again :: "kst \<Rightarrow> unit kres" where
  "begin_op_again s = kbind (sleep_resume LLog s) (\<lambda>_ s. begin_op_loop s)"

definition end_op :: "kst \<Rightarrow> unit kres" where
  "end_op s = kbind (acquire LLog s) (\<lambda>_ s.
     let s = upd_lg (\<lambda>g. g\<lparr>lg_outstanding := lg_outstanding g - 1\<rparr>) s in
     if lg_committing (lg s) then Panic ''log.committing''
     else if lg_outstanding (lg s) = 0 then
       kbind (release LLog (upd_lg (\<lambda>g. g\<lparr>lg_committing := True\<rparr>) s)) (\<lambda>_ s.
       kbind (commit s) (\<lambda>_ s.
       kbind (acquire LLog s) (\<lambda>_ s.
       kbind (wakeup (Some ChLog) (upd_lg (\<lambda>g. g\<lparr>lg_committing := False\<rparr>) s)) (\<lambda>_ s.
       release LLog s))))
     else
       kbind (wakeup (Some ChLog) s) (\<lambda>_ s. release LLog s))"

text \<open>The scan of \<open>log_write\<close> for the block: the index where it is, or \<open>log.lh.n\<close>.\<close>

definition log_slot :: "nat \<Rightarrow> logrec \<Rightarrow> nat" where
  "log_slot m g = (case first_idx (\<lambda>x. x = m) (take (nat (lh_n g)) (lh_block g)) of
     Some k \<Rightarrow> k | None \<Rightarrow> nat (lh_n g))"

definition log_write :: "nat \<Rightarrow> kst \<Rightarrow> unit kres" where
  "log_write b s =
     (if lh_n (lg s) \<ge> int LOGSIZE \<or> lh_n (lg s) \<ge> lg_size (lg s) - 1 then Panic ''too big a transaction''
      else if lg_outstanding (lg s) < 1 then Panic ''log_write outside of trans''
      else kbind (acquire LLog s) (\<lambda>_ s.
        let m = b_blockno (bufs s ! b); k = log_slot m (lg s) in
        release LLog (upd_buf b (\<lambda>x. x\<lparr>b_dirty := True\<rparr>)
          (upd_lg (\<lambda>g. g\<lparr>lh_block := (lh_block g)[k := m],
             lh_n := (if int k = lh_n g then lh_n g + 1 else lh_n g)\<rparr>) s))))"

subsection \<open>The system calls added by the project\<close>

definition get_log_num :: "kst \<Rightarrow> int kres" where
  "get_log_num s = kbind (acquire LLog s) (\<lambda>_ s.
     let n = lh_n (lg s) in kbind (release LLog s) (\<lambda>_ s. Ok n s))"

definition sys_get_log_num :: "kst \<Rightarrow> int kres" where
  "sys_get_log_num s = get_log_num s"

definition sync :: "kst \<Rightarrow> int kres" where
  "sync s = Ok 0 s"

definition sys_sync :: "kst \<Rightarrow> int kres" where
  "sys_sync s = sync s"

end
