(* ===== verification/LogSpec.thy ===== *)
theory LogSpec
  imports Log
begin

text \<open>
  Correctness of the log: the exact disk writes of a commit and of a recovery.
\<close>

definition apply_writes :: "(nat \<times> block) list \<Rightarrow> (nat \<Rightarrow> block) \<Rightarrow> nat \<Rightarrow> block" where
  "apply_writes ws d = fold (\<lambda>(n, x) d. d(n := x)) ws d"

lemma apply_writes_simps [simp]:
  "apply_writes [] d = d"
  "apply_writes ((n, x) # ws) d = apply_writes ws (d(n := x))"
  "apply_writes (ws @ vs) d = apply_writes vs (apply_writes ws d)"
  by (simp_all add: apply_writes_def)

lemma apply_writes_notin: "m \<notin> fst ` set ws \<Longrightarrow> apply_writes ws d m = d m"
proof (induction ws arbitrary: d)
  case (Cons w ws)
  then show ?case by (cases w) simp
qed simp

text \<open>Two disks that agree off a set of blocks still do after the same writes.\<close>

lemma apply_writes_agree:
  assumes "\<And>m. m \<notin> A \<Longrightarrow> d m = e m" "m \<notin> A"
  shows "apply_writes ws d m = apply_writes ws e m"
  using assms(1)
proof (induction ws arbitrary: d e)
  case Nil
  then show ?case using assms(2) by simp
next
  case (Cons w ws)
  obtain n x where w: "w = (n, x)" by (cases w)
  show ?case
    unfolding w apply_writes_simps
    by (rule Cons.IH) (simp add: Cons.prems)
qed

text \<open>
  A run of one process that wrote \<open>ws\<close> to the disk: the disk and its history say so, and beside the
  buffers, their order and scheduling states nothing else changed.
\<close>

definition dframe :: "(nat \<times> block) list \<Rightarrow> kst \<Rightarrow> kst \<Rightarrow> bool" where
  "dframe ws s t \<longleftrightarrow> psame s t \<and> t\<lparr>bufs := [], mru := [], procs := []\<rparr>
     = s\<lparr>disk := apply_writes ws (disk s), dwrites := dwrites s @ ws, bufs := [], mru := [], procs := []\<rparr>"

lemma dframeD:
  assumes "dframe ws s t"
  shows "disk t = apply_writes ws (disk s)" "dwrites t = dwrites s @ ws" "disksize t = disksize s"
    "lg t = lg s" "sb t = sb s" "inodes t = inodes s" "files t = files s" "pipes t = pipes s"
    "held t = held s" "curproc t = curproc s" "psame s t"
  using assms unfolding dframe_def by (cases s; cases t; simp)+

lemma dframe_bframe: "bframe s t \<Longrightarrow> dframe [] s t"
  unfolding dframe_def bframe_def by (cases s; cases t) simp

lemma dframe_wframe: "wframe n d s t \<Longrightarrow> dframe [(n, d)] s t"
  unfolding dframe_def wframe_def psame_def by (cases s; cases t) simp

lemma dframe_upd_buf [simp]: "dframe [] s (upd_buf i f s)"
  by (rule dframe_bframe) simp

lemma dframe_trans:
  assumes "dframe ws s t" "dframe vs t u"
  shows "dframe (ws @ vs) s u"
proof -
  have "psame s u" using assms unfolding dframe_def by (blast intro: psame_trans)
  then show ?thesis using assms unfolding dframe_def by (cases s; cases t; cases u) simp
qed

lemma dframe_refl [simp]: "dframe [] s s"
  by (simp add: dframe_bframe)

lemma dframe_nil: "dframe [] s t \<Longrightarrow> dframe vs t u \<Longrightarrow> dframe vs s u"
  using dframe_trans[of "[]" s t vs u] by simp

lemma dframe_snil: "dframe vs s t \<Longrightarrow> dframe [] t u \<Longrightarrow> dframe vs s u"
  using dframe_trans[of vs s t "[]" u] by simp

lemma dframe_pid:
  assumes "dframe ws s t" "idle_locks s"
  shows "pid (cur t) = pid (cur s)"
  using psame_cur(1)[OF dframeD(11)[OF assms(1)]] assms(2) unfolding idle_locks_def by auto

subsection \<open>Copying a block\<close>

lemma holds_bframe:
  assumes "holds s i n d" "bufs t ! i = bufs s ! i" "bframe s t" "idle_locks s"
  shows "holds t i n d"
  using holds_frame[OF assms(1,2) bframe_pid(1)[OF assms(3,4)]] .

lemma coh_bframe: "coh s i n \<Longrightarrow> bufs t ! i = bufs s ! i \<Longrightarrow> bframe s t \<Longrightarrow> coh t i n"
  by (rule coh_frame) (simp_all add: bframeD)

lemma set_data_pinned:
  assumes "bproto s H" "i \<in> H" "holds s i n d" "length d' = BSIZE"
  shows "pinned (upd_buf i (\<lambda>b. b\<lparr>b_data := d'\<rparr>) s) = pinned s"
proof -
  have "cached (upd_buf i (\<lambda>b. b\<lparr>b_data := d'\<rparr>) s) j m = cached s j m" for j m
    using assms(3) bc_inv_len[OF bprotoD(2)[OF assms(1)]]
    by (intro cached_upd_same) (simp_all add: holds_def cached_def)
  then show ?thesis unfolding pinned_def set_data_proto(4)[OF assms] by simp
qed

text \<open>Reading block \<open>a\<close> and then block \<open>b\<close>.\<close>

definition two_held :: "kst \<Rightarrow> nat \<Rightarrow> nat \<Rightarrow> block \<Rightarrow> nat \<Rightarrow> nat \<Rightarrow> block \<Rightarrow> bool" where
  "two_held s i a x j b y \<longleftrightarrow> bproto s {i, j} \<and> i \<noteq> j \<and> a \<noteq> b
     \<and> holds s i a x \<and> coh s i a \<and> holds s j b y \<and> coh s j b"

lemma two_held_sym: "two_held s i a x j b y \<Longrightarrow> two_held s j b y i a x"
  by (simp add: two_held_def insert_commute)

lemma two_held_intro:
  assumes "bproto t (insert j {i})" "i \<noteq> j" "a \<noteq> b" "holds t i a x" "coh t i a" "holds t j b y" "coh t j b"
  shows "two_held t i a x j b y"
  using assms by (simp add: two_held_def insert_commute)

lemma read_second:
  assumes P: "bproto t {i}" and hi: "holds t i a x" and ci: "coh t i a" and ne: "a \<noteq> b"
    and b: "b < disksize t" "b \<in> pinned t \<or> 1 + card (pinned t) < NBUF"
  shows "runs (bread 1 b t) (\<lambda>j u. two_held u i a x j b (view t b) \<and> view u = view t
     \<and> pinned u = pinned t \<and> bframe t u)"
proof -
  have "\<not> cached t i b" using hi ne by (auto simp: holds_def cached_def)
  then have rd: "ready t {i} b" using b by (simp add: ready_def One_nat_def)
  show ?thesis
  proof (rule runs_mono[OF bread_blk[OF P rd]], elim conjE)
    fix j u
    assume P': "bproto u {j, i}" and nj: "j \<notin> {i}" and hj: "holds u j b (view t b)"
      and vw: "view u = view t" and bf: "bframe t u" and pn: "pinned u = pinned t"
      and fr: "\<forall>k. k \<noteq> j \<longrightarrow> bufs u ! k = bufs t ! k" and cj: "coh u j b"
    have ij: "i \<noteq> j" using nj by simp
    have e: "bufs u ! i = bufs t ! i" by (rule fr[rule_format, OF ij])
    have hi': "holds u i a x" by (rule holds_bframe[OF hi e bf bprotoD(1)[OF P]])
    have ci': "coh u i a" by (rule coh_bframe[OF ci e bf])
    have "two_held u i a x j b (view t b)" by (rule two_held_intro[OF P' ij ne hi' ci' hj cj])
    then show "two_held u i a x j b (view t b) \<and> view u = view t \<and> pinned u = pinned t \<and> bframe t u"
      using vw pn bf by blast
  qed
qed

lemma release_two:
  assumes "two_held s i a x j b y"
  shows "runs (brelse i s) (\<lambda>_ t. runs (brelse j t) (\<lambda>_ u. bproto u {} \<and> view u = view s
     \<and> pinned u = pinned s \<and> bframe s u))"
proof -
  have P: "bproto s {i, j}" and ij: "i \<noteq> j" and hi: "holds s i a x" and ci: "coh s i a"
    and hj: "holds s j b y" and cj: "coh s j b" using assms by (simp_all add: two_held_def)
  have e1: "{i, j} - {i} = {j}" using ij by blast
  have e2: "{j} - {j} = {}" by blast
  show ?thesis
  proof (rule runs_mono[OF brelse_blk[OF P insertI1 hi ci]], elim conjE)
    fix v t
    assume P1: "bproto t ({i, j} - {i})" and vw: "view t = view s" and bf: "bframe s t"
      and pn: "pinned t = pinned s" and fr: "\<forall>k. k \<noteq> i \<longrightarrow> bufs t ! k = bufs s ! k"
    have e: "bufs t ! j = bufs s ! j" by (rule fr[rule_format, OF ij[symmetric]])
    have hj': "holds t j b y" by (rule holds_bframe[OF hj e bf bprotoD(1)[OF P]])
    have cj': "coh t j b" by (rule coh_bframe[OF cj e bf])
    show "runs (brelse j t) (\<lambda>_ u. bproto u {} \<and> view u = view s \<and> pinned u = pinned s \<and> bframe s u)"
    proof (rule runs_mono[OF brelse_blk[OF P1[unfolded e1] insertI1 hj' cj']], elim conjE)
      fix w u
      assume P2: "bproto u ({j} - {j})" and vw': "view u = view t" and bf': "bframe t u"
        and pn': "pinned u = pinned t"
      show "bproto u {} \<and> view u = view s \<and> pinned u = pinned s \<and> bframe s u"
        using P2[unfolded e2] trans[OF vw' vw] trans[OF pn' pn] bframe_trans[OF bf bf'] by blast
    qed
  qed
qed

text \<open>Copying the second buffer into the first and writing it to the disk.\<close>

lemma copy_write:
  assumes "two_held s i a x j b y"
  shows "runs (bwrite i (copy_buf i j s)) (\<lambda>_ t. two_held t i a y j b y \<and> view t = (view s)(a := y)
     \<and> pinned t = pinned s - {a} \<and> dframe [(a, y)] s t)"
proof -
  have P: "bproto s {i, j}" and ij: "i \<noteq> j" and ab: "a \<noteq> b" and hi: "holds s i a x"
    and ci: "coh s i a" and hj: "holds s j b y" and cj: "coh s j b"
    using assms by (simp_all add: two_held_def)
  let ?u = "upd_buf i (\<lambda>b. b\<lparr>b_data := y\<rparr>) s"
  have jN: "j < NBUF" using hj by (simp add: holds_def cached_def)
  have y: "length y = BSIZE"
    using bc_inv_buf[OF bprotoD(2)[OF P] jN] hj by (auto simp: holds_def buf_ok_def)
  have cp: "copy_buf i j s = ?u" using hj by (simp add: copy_buf_def holds_def)
  note sd = set_data_proto[OF P insertI1 hi y]
  have idl: "idle_locks s" by (rule bprotoD(1)[OF P])
  have pu: "pinned ?u = pinned s" by (rule set_data_pinned[OF P insertI1 hi y])
  have hj2: "holds ?u j b y" by (rule holds_bframe[OF hj _ bframe_upd_buf idl]) (simp add: ij)
  have cj2: "coh ?u j b" by (rule coh_bframe[OF cj _ bframe_upd_buf]) (simp add: ij)
  show ?thesis
    unfolding cp
  proof (rule runs_mono[OF bwrite_blk[OF sd(1) insertI1 sd(2)]], elim conjE)
    fix v t
    assume P': "bproto t {i, j}" and hi': "holds t i a y" and vw: "view t = view ?u" and ci': "coh t i a"
      and pn: "pinned t = pinned ?u - {a}" and fr: "\<forall>k. k \<noteq> i \<longrightarrow> bufs t ! k = bufs ?u ! k"
      and wf: "wframe a y ?u t"
    have e: "bufs t ! j = bufs ?u ! j" by (rule fr[rule_format, OF ij[symmetric]])
    have df: "dframe [(a, y)] s t" by (rule dframe_nil[OF dframe_upd_buf dframe_wframe[OF wf]])
    have hj3: "holds t j b y" by (rule holds_frame[OF hj2 e]) (simp add: dframe_pid[OF df idl])
    have cj3: "coh t j b" by (rule coh_frame[OF cj2 e]) (simp add: wframeD[OF wf] ab[symmetric])
    show "two_held t i a y j b y \<and> view t = (view s)(a := y) \<and> pinned t = pinned s - {a} \<and> dframe [(a, y)] s t"
      using P' ij ab hi' ci' hj3 cj3 df unfolding two_held_def vw pn pu sd(3) by blast
  qed
qed

text \<open>The whole body: copy block \<open>b\<close> to block \<open>a\<close> on the disk.\<close>

definition copied :: "kst \<Rightarrow> nat \<Rightarrow> nat \<Rightarrow> kst \<Rightarrow> bool" where
  "copied s a b t \<longleftrightarrow> bproto t {} \<and> view t = (view s)(a := view s b)
     \<and> pinned t = pinned s - {a} \<and> dframe [(a, view s b)] s t"

lemma copy_body:
  assumes th: "two_held s i a x j b (view r b)" and vw: "view s = view r" and pn: "pinned s = pinned r"
    and bf: "bframe r s"
  shows "runs (bwrite i (copy_buf i j s)) (\<lambda>_ t.
           runs (brelse j t) (\<lambda>_ u. runs (brelse i u) (\<lambda>_ v. copied r a b v)) \<and>
           runs (brelse i t) (\<lambda>_ u. runs (brelse j u) (\<lambda>_ v. copied r a b v)))"
proof (rule runs_mono[OF copy_write[OF th]], elim conjE)
  fix w t
  let ?y = "view r b"
  assume th': "two_held t i a ?y j b ?y" and vw': "view t = (view s)(a := ?y)"
    and pn': "pinned t = pinned s - {a}" and df: "dframe [(a, ?y)] s t"
  have df': "dframe [(a, ?y)] r t" by (rule dframe_nil[OF dframe_bframe[OF bf] df])
  have fin: "copied r a b v" if "bproto v {} \<and> view v = view t \<and> pinned v = pinned t \<and> bframe t v" for v
    using that vw' pn' vw pn dframe_snil[OF df' dframe_bframe] unfolding copied_def by simp
  show "runs (brelse j t) (\<lambda>_ u. runs (brelse i u) (\<lambda>_ v. copied r a b v)) \<and>
     runs (brelse i t) (\<lambda>_ u. runs (brelse j u) (\<lambda>_ v. copied r a b v))"
    by (rule conjI; rule runs_mono[OF release_two]; (rule th' two_held_sym[OF th'])?)
      (auto elim!: runs_mono intro: fin)
qed

subsection \<open>One block of \<open>write_log\<close> and of \<open>install_trans\<close>\<close>

definition log_area :: "kst \<Rightarrow> nat set" where
  "log_area s = {lg_start (lg s)..<lg_start (lg s) + LOGSIZE}"

definition log_geom :: "kst \<Rightarrow> bool" where
  "log_geom s \<longleftrightarrow> lg_dev (lg s) = 1 \<and> 1 < lg_start (lg s) \<and> lg_size (lg s) = int LOGSIZE
     \<and> lg_start (lg s) + LOGSIZE \<le> disksize s \<and> disksize s < 2 ^ 31 \<and> length (lh_block (lg s)) = LOGSIZE"

text \<open>A block outside the boot block, the superblock and the log.\<close>

definition home :: "kst \<Rightarrow> nat \<Rightarrow> bool" where
  "home s m \<longleftrightarrow> 1 < m \<and> m < disksize s \<and> m \<notin> log_area s"

lemma log_blk_eq:
  assumes "log_geom s" "k + 1 < LOGSIZE"
  shows "log_blk s k = lg_start (lg s) + 1 + k" "lg_start (lg s) + 1 + k \<in> log_area s"
    "lg_start (lg s) + 1 + k < disksize s"
  using assms by (simp_all add: log_blk_def log_geom_def uadd_small log_area_def)

lemma read_two:
  assumes P: "bproto s {}" and a: "ready s {} a" and b: "b < disksize s" "a \<noteq> b"
    "b \<in> pinned s \<or> 1 + card (pinned s) < NBUF"
  shows "runs (bread 1 a s) (\<lambda>i t. lg t = lg s \<and> runs (bread 1 b t) (\<lambda>j u.
     two_held u i a (view s a) j b (view s b) \<and> view u = view s \<and> pinned u = pinned s \<and> bframe s u))"
proof (rule runs_mono[OF bread_blk[OF P a]], elim conjE)
  fix i t
  assume P1: "bproto t {i}" and hi: "holds t i a (view s a)" and vw: "view t = view s"
    and bf: "bframe s t" and pn: "pinned t = pinned s" and ci: "coh t i a"
  have b': "b < disksize t" "b \<in> pinned t \<or> 1 + card (pinned t) < NBUF"
    using b by (simp_all only: pn bframeD(2)[OF bf])
  have "runs (bread 1 b t) (\<lambda>j u. two_held u i a (view s a) j b (view s b) \<and> view u = view s
     \<and> pinned u = pinned s \<and> bframe s u)"
    by (rule runs_mono[OF read_second[OF P1 hi ci b(2) b']])
      (simp add: vw pn bframe_trans[OF bf])
  then show "lg t = lg s \<and> runs (bread 1 b t) (\<lambda>j u. two_held u i a (view s a) j b (view s b)
     \<and> view u = view s \<and> pinned u = pinned s \<and> bframe s u)"
    by (simp add: bframeD(3)[OF bf])
qed

lemma write_log_one_spec:
  assumes P: "bproto s {}" and g: "log_geom s" and k: "k + 1 < LOGSIZE"
    and h: "home s (lh_block (lg s) ! k)" and pb: "lh_block (lg s) ! k \<in> pinned s"
    and c: "card (pinned s) < NBUF"
  shows "runs (write_log_one k s) (\<lambda>_. copied s (lg_start (lg s) + 1 + k) (lh_block (lg s) ! k))"
proof -
  let ?a = "lg_start (lg s) + 1 + k" and ?b = "lh_block (lg s) ! k"
  note a = log_blk_eq[OF g k]
  have ne: "?a \<noteq> ?b" using h a(2) by (auto simp: home_def)
  have bd: "?b < disksize s" using h by (simp add: home_def)
  have dev: "lg_dev (lg s) = 1" using g by (simp add: log_geom_def)
  have kL: "k < LOGSIZE" using k by simp
  have ra: "ready s {} ?a" using a(3) c by (simp add: ready_def)
  show ?thesis
    unfolding write_log_one_def dev a(1) runs_kbind
  proof (rule runs_mono[OF read_two[OF P ra bd ne disjI1[OF pb]]], elim conjE)
    fix i t
    assume l: "lg t = lg s" and r: "runs (bread 1 ?b t) (\<lambda>j u. two_held u i ?a (view s ?a) j ?b (view s ?b)
       \<and> view u = view s \<and> pinned u = pinned s \<and> bframe s u)"
    show "runs (kguard (k < LOGSIZE) t) (\<lambda>_ t. runs (bread (lg_dev (lg t)) (lh_block (lg t) ! k) t)
        (\<lambda>j u. runs (bwrite i (copy_buf i j u)) (\<lambda>_ u. runs (brelse j u) (\<lambda>_ u. runs (brelse i u)
          (\<lambda>_. copied s ?a ?b)))))"
      unfolding kguard_simps(1)[OF kL] runs_Ok l dev
    proof (rule runs_mono[OF r], elim conjE)
      fix j u
      assume "two_held u i ?a (view s ?a) j ?b (view s ?b)" "view u = view s" "pinned u = pinned s" "bframe s u"
      from copy_body[OF this]
      show "runs (bwrite i (copy_buf i j u)) (\<lambda>_ u. runs (brelse j u) (\<lambda>_ u. runs (brelse i u)
          (\<lambda>_. copied s ?a ?b)))"
        by (rule runs_mono) (rule conjunct1)
    qed
  qed
qed

lemma install_one_spec:
  assumes P: "bproto s {}" and g: "log_geom s" and k: "k + 1 < LOGSIZE"
    and h: "home s (lh_block (lg s) ! k)"
    and pb: "lh_block (lg s) ! k \<in> pinned s \<or> 1 + card (pinned s) < NBUF"
    and c: "card (pinned s) < NBUF"
  shows "runs (install_one k s) (\<lambda>_. copied s (lh_block (lg s) ! k) (lg_start (lg s) + 1 + k))"
proof -
  let ?a = "lg_start (lg s) + 1 + k" and ?b = "lh_block (lg s) ! k"
  note a = log_blk_eq[OF g k]
  have ne: "?a \<noteq> ?b" using h a(2) by (auto simp: home_def)
  have bd: "?b < disksize s" using h by (simp add: home_def)
  have dev: "lg_dev (lg s) = 1" using g by (simp add: log_geom_def)
  have kL: "k < LOGSIZE" using k by simp
  have ra: "ready s {} ?a" using a(3) c by (simp add: ready_def)
  show ?thesis
    unfolding install_one_def dev a(1) runs_kbind
  proof (rule runs_mono[OF read_two[OF P ra bd ne pb]], elim conjE)
    fix i t
    assume l: "lg t = lg s" and r: "runs (bread 1 ?b t) (\<lambda>j u. two_held u i ?a (view s ?a) j ?b (view s ?b)
       \<and> view u = view s \<and> pinned u = pinned s \<and> bframe s u)"
    show "runs (kguard (k < LOGSIZE) t) (\<lambda>_ t. runs (bread (lg_dev (lg t)) (lh_block (lg t) ! k) t)
        (\<lambda>j u. runs (bwrite j (copy_buf j i u)) (\<lambda>_ u. runs (brelse i u) (\<lambda>_ u. runs (brelse j u)
          (\<lambda>_. copied s ?b ?a)))))"
      unfolding kguard_simps(1)[OF kL] runs_Ok l dev
    proof (rule runs_mono[OF r], elim conjE)
      fix j u
      assume th: "two_held u i ?a (view s ?a) j ?b (view s ?b)"
        and e: "view u = view s" "pinned u = pinned s" "bframe s u"
      from copy_body[OF two_held_sym[OF th] e]
      show "runs (bwrite j (copy_buf j i u)) (\<lambda>_ u. runs (brelse i u) (\<lambda>_ u. runs (brelse j u)
          (\<lambda>_. copied s ?b ?a)))"
        by (rule runs_mono) (rule conjunct1)
    qed
  qed
qed

subsection \<open>The loops\<close>

text \<open>
  The state after the process wrote \<open>ws\<close> to the disk through the cache and let go of every buffer;
  \<open>pn\<close> are the blocks still pinned.
\<close>

definition did :: "kst \<Rightarrow> (nat \<times> block) list \<Rightarrow> nat set \<Rightarrow> kst \<Rightarrow> bool" where
  "did s ws pn t \<longleftrightarrow> bproto t {} \<and> view t = apply_writes ws (view s) \<and> pinned t = pn \<and> dframe ws s t"

lemma did_copied:
  "did s ws pn t \<Longrightarrow> copied t a b u \<Longrightarrow> did s (ws @ [(a, view t b)]) (pn - {a}) u"
  unfolding did_def copied_def by (auto intro: dframe_trans)

lemma did_nil: "bproto s {} \<Longrightarrow> did s [] (pinned s) s"
  by (simp add: did_def)

lemma did_trans: "did s ws pn t \<Longrightarrow> did t vs qn u \<Longrightarrow> did s (ws @ vs) qn u"
  unfolding did_def by (auto intro: dframe_trans)

lemma did_geom: "did s ws pn t \<Longrightarrow> log_geom s \<Longrightarrow> log_geom t"
  unfolding did_def log_geom_def using dframeD(3,4)[of ws s t] by simp

lemma did_lg: "did s ws pn t \<Longrightarrow> lg t = lg s \<and> disksize t = disksize s \<and> log_area t = log_area s"
  unfolding did_def log_area_def using dframeD(3,4)[of ws s t] by simp

lemma did_home: "did s ws pn t \<Longrightarrow> home t m = home s m"
  unfolding home_def using did_lg[of s ws pn t] by simp

lemma didD:
  assumes "did s ws pn t"
  shows "bproto t {}" "view t = apply_writes ws (view s)" "pinned t = pn" "dframe ws s t"
  using assms by (simp_all add: did_def)

text \<open>The writes of \<open>write_log\<close> and of \<open>install_trans\<close>.\<close>

definition log_copies :: "kst \<Rightarrow> nat \<Rightarrow> (nat \<times> block) list" where
  "log_copies s n = map (\<lambda>k. (lg_start (lg s) + 1 + k, view s (lh_block (lg s) ! k))) [0..<n]"

definition installs :: "kst \<Rightarrow> nat \<Rightarrow> (nat \<times> block) list" where
  "installs s n = map (\<lambda>k. (lh_block (lg s) ! k, view s (lg_start (lg s) + 1 + k))) [0..<n]"

lemma fst_log_copies: "log_geom s \<Longrightarrow> n < LOGSIZE \<Longrightarrow> fst ` set (log_copies s n) \<subseteq> log_area s"
  by (auto simp: log_copies_def log_area_def)

lemma fst_installs: "fst ` set (installs s n) = (\<lambda>k. lh_block (lg s) ! k) ` {..<n}"
  by (auto simp: installs_def image_image)

lemma home_area: "home s m \<Longrightarrow> m \<notin> log_area s"
  by (simp add: home_def)

lemma log_copies_home: "log_geom s \<Longrightarrow> n < LOGSIZE \<Longrightarrow> home s m \<Longrightarrow> apply_writes (log_copies s n) d m = d m"
  using fst_log_copies[of s n] home_area[of s m] by (intro apply_writes_notin) blast

lemma installs_area:
  "\<forall>k < n. home s (lh_block (lg s) ! k) \<Longrightarrow> m \<in> log_area s \<Longrightarrow> apply_writes (installs s n) d m = d m"
  using home_area by (intro apply_writes_notin) (auto simp: fst_installs)

lemma write_log_spec:
  assumes P: "bproto s {}" and g: "log_geom s" and n: "n = nat (lh_n (lg s))" "n < LOGSIZE"
    and h: "\<forall>k < n. home s (lh_block (lg s) ! k) \<and> lh_block (lg s) ! k \<in> pinned s"
    and pin: "\<forall>m \<in> pinned s. home s m" and c: "card (pinned s) < NBUF"
  shows "runs (write_log s) (\<lambda>_. did s (log_copies s n) (pinned s))"
proof -
  define I where "I = (\<lambda>k. did s (log_copies s k) (pinned s))"
  have "runs (kfor [0..<n] write_log_one s) (\<lambda>_. I (length [0..<n]))"
  proof (rule kfor_runs)
    show "I 0 s" using did_nil[OF P] by (simp add: I_def log_copies_def)
  next
    fix k t assume k: "k < length [0..<n]" and It: "I k t"
    then have kn: "k < n" and kL: "k + 1 < LOGSIZE" using n(2) by simp_all
    let ?a = "lg_start (lg s) + 1 + k" and ?b = "lh_block (lg s) ! k"
    note D = It[unfolded I_def]
    note l = did_lg[OF D]
    have vb: "view t ?b = view s ?b"
      using didD(2)[OF D] log_copies_home[OF g, of k ?b] h kn n(2) by simp
    have an: "pinned s - {?a} = pinned s"
      using pin log_blk_eq(2)[OF g kL] home_area by blast
    have app: "log_copies s k @ [(?a, view s ?b)] = log_copies s (Suc k)"
      by (simp add: log_copies_def)
    have "runs (write_log_one k t) (\<lambda>_. copied t ?a ?b)"
      using write_log_one_spec[OF didD(1)[OF D] did_geom[OF D g] kL] h kn c
      by (simp add: did_home[OF D] didD(3)[OF D] l)
    then have "runs (write_log_one k t) (\<lambda>_. I (Suc k))"
      by (rule runs_mono) (metis I_def D an app did_copied vb)
    then show "runs (write_log_one ([0..<n] ! k) t) (\<lambda>_. I (Suc k))" using kn by simp
  qed
  then show ?thesis by (simp add: write_log_def I_def n(1))
qed

lemma install_trans_spec:
  assumes P: "bproto s {}" and g: "log_geom s" and n: "n = nat (lh_n (lg s))" "n < LOGSIZE"
    and h: "\<forall>k < n. home s (lh_block (lg s) ! k)"
    and pin: "(\<forall>k < n. lh_block (lg s) ! k \<in> pinned s) \<and> distinct (take n (lh_block (lg s)))
       \<or> pinned s = {}"
    and c: "card (pinned s) < NBUF"
  shows "runs (install_trans s) (\<lambda>_. did s (installs s n) (pinned s - set (take n (lh_block (lg s)))))"
proof -
  let ?B = "lh_block (lg s)"
  define I where "I = (\<lambda>k. did s (installs s k) (pinned s - set (take k ?B)))"
  have len: "length ?B = LOGSIZE" using g by (simp add: log_geom_def)
  have "runs (kfor [0..<n] install_one s) (\<lambda>_. I (length [0..<n]))"
  proof (rule kfor_runs)
    show "I 0 s" using did_nil[OF P] by (simp add: I_def installs_def)
  next
    fix k t assume k: "k < length [0..<n]" and It: "I k t"
    then have kn: "k < n" and kL: "k + 1 < LOGSIZE" using n(2) by simp_all
    let ?a = "lg_start (lg s) + 1 + k" and ?b = "?B ! k"
    note D = It[unfolded I_def]
    note l = did_lg[OF D]
    have va: "view t ?a = view s ?a"
      using didD(2)[OF D] installs_area[of k s ?a] h kn log_blk_eq(2)[OF g kL] by simp
    have tk: "take (Suc k) ?B = take k ?B @ [?b]" using kL len by (intro take_Suc_conv_app_nth) simp
    have pt: "?b \<in> pinned t \<or> 1 + card (pinned t) < NBUF"
    proof (cases "pinned s = {}")
      case True
      then show ?thesis using didD(3)[OF D] by (simp add: param_defs)
    next
      case False
      then have pb: "?b \<in> pinned s" and ds: "distinct (take n ?B)" using pin kn by blast+
      have "distinct (take (Suc k) ?B)" using ds kn by (metis Suc_leI distinct_take min.absorb1 take_take)
      then show ?thesis using pb unfolding didD(3)[OF D] tk by simp
    qed
    have cp: "card (pinned t) < NBUF"
      using c card_mono[OF finite_pinned[OF bprotoD(2)[OF P]], of "pinned s - set (take k ?B)"]
      unfolding didD(3)[OF D] by simp
    have app: "installs s k @ [(?b, view s ?a)] = installs s (Suc k)"
      by (simp add: installs_def)
    have pn: "pinned s - set (take k ?B) - {?b} = pinned s - set (take (Suc k) ?B)"
      unfolding tk by auto
    have ht: "home t (lh_block (lg t) ! k)" using h kn by (simp add: did_home[OF D] l)
    have lt: "lg t = lg s" using l by blast
    have "runs (install_one k t) (\<lambda>_. copied t ?b ?a)"
      using install_one_spec[OF didD(1)[OF D] did_geom[OF D g] kL ht _ cp] pt unfolding lt by blast
    then have "runs (install_one k t) (\<lambda>_. I (Suc k))"
      by (rule runs_mono) (metis I_def D pn app did_copied va)
    then show "runs (install_one ([0..<n] ! k) t) (\<lambda>_. I (Suc k))" using kn by simp
  qed
  then show ?thesis by (simp add: install_trans_def I_def n(1))
qed

subsection \<open>The header block\<close>

text \<open>The header block with the first \<open>m\<close> block numbers stored, as the loop of \<open>write_head\<close> leaves it.\<close>

fun put_blocks :: "nat \<Rightarrow> nat list \<Rightarrow> block \<Rightarrow> block" where
  "put_blocks 0 B d = d"
| "put_blocks (Suc m) B d = put32 (4 + 4 * m) (B ! m) (put_blocks m B d)"

definition head_img :: "int \<Rightarrow> nat list \<Rightarrow> block \<Rightarrow> block" where
  "head_img n B d = put_blocks (nat n) B (put32 0 (uint32 n) d)"

lemma length_put_blocks [simp]: "length (put_blocks m B d) = length d"
  by (induction m) simp_all

lemma length_head_img [simp]: "length (head_img n B d) = length d"
  by (simp add: head_img_def)

lemma get32_put_blocks:
  "length d = BSIZE \<Longrightarrow> m \<le> LOGSIZE \<Longrightarrow> k < m \<Longrightarrow> B ! k < 2 ^ 32 \<Longrightarrow>
     get32 (put_blocks m B d) (4 + 4 * k) = B ! k"
proof (induction m)
  case (Suc m)
  then show ?case
    by (cases "k = m") (simp_all add: get32_put32[simplified] get32_put32_other param_defs)
qed simp

lemma get32_put_blocks_0:
  "length d = BSIZE \<Longrightarrow> m \<le> LOGSIZE \<Longrightarrow> get32 (put_blocks m B d) 0 = get32 d 0"
  by (induction m) (simp_all add: get32_put32_other param_defs)

lemma head_img_n:
  "length d = BSIZE \<Longrightarrow> 0 \<le> n \<Longrightarrow> n \<le> int LOGSIZE \<Longrightarrow> sint32 (get32 (head_img n B d) 0) = n"
proof -
  assume a: "length d = BSIZE" "0 \<le> n" "n \<le> int LOGSIZE"
  then have "uint32 n = nat n" by (simp add: uint32_def param_defs)
  then show ?thesis using a
    by (simp add: head_img_def get32_put_blocks_0 get32_put32[simplified] param_defs sint32_def)
qed

lemma head_img_block:
  "length d = BSIZE \<Longrightarrow> nat n \<le> LOGSIZE \<Longrightarrow> k < nat n \<Longrightarrow> B ! k < 2 ^ 32 \<Longrightarrow>
     get32 (head_img n B d) (4 + 4 * k) = B ! k"
  by (simp add: head_img_def get32_put_blocks)

lemma write_head_loop:
  "m \<le> LOGSIZE \<Longrightarrow> b < length (bufs s) \<Longrightarrow>
   kfor [0..<m] (\<lambda>i s. kbind (kguard (i < LOGSIZE) s) (\<lambda>_ s.
      Ok () (upd_buf b (\<lambda>x. x\<lparr>b_data := put32 (4 + 4 * i) (lh_block (lg s) ! i) (b_data x)\<rparr>) s))) s
   = Ok () (upd_buf b (\<lambda>x. x\<lparr>b_data := put_blocks m (lh_block (lg s)) (b_data x)\<rparr>) s)"
proof (induction m)
  case 0
  have "upd_buf b (\<lambda>x. x) s = s" by (simp add: upd_buf_def)
  then show ?case by simp
next
  case (Suc m)
  then show ?case by (simp add: kfor_append)
qed

lemma write_head_spec:
  assumes P: "bproto s {}" and g: "log_geom s" and n: "lh_n (lg s) \<le> int LOGSIZE"
    and pin: "\<forall>m \<in> pinned s. home s m" and c: "card (pinned s) < NBUF"
  shows "runs (write_head s) (\<lambda>_. did s [(lg_start (lg s), head_img (lh_n (lg s)) (lh_block (lg s))
           (view s (lg_start (lg s))))] (pinned s))"
proof -
  let ?h = "lg_start (lg s)" and ?n = "lh_n (lg s)" and ?B = "lh_block (lg s)"
  let ?y = "head_img ?n ?B (view s ?h)"
  have dev: "lg_dev (lg s) = 1" and hd: "?h < disksize s" and ha: "?h \<in> log_area s"
    using g by (simp_all add: log_geom_def log_area_def param_defs)
  have rd: "ready s {} ?h" using hd c by (simp add: ready_def)
  show ?thesis
    unfolding write_head_def dev runs_kbind
  proof (rule runs_mono[OF bread_blk[OF P rd]], elim conjE)
    fix i t
    assume P1: "bproto t {i}" and iN: "i < NBUF" and hi: "holds t i ?h (view s ?h)"
      and vw: "view t = view s" and bf: "bframe s t" and pn: "pinned t = pinned s" and ci: "coh t i ?h"
    have il: "i < length (bufs t)" using iN bc_inv_len[OF bprotoD(2)[OF P1]] by simp
    have l: "lg t = lg s" by (rule bframeD(3)[OF bf])
    let ?u = "upd_buf i (\<lambda>b. b\<lparr>b_data := ?y\<rparr>) t"
    have vl: "length (view s ?h) = BSIZE"
      using bc_inv_buf[OF bprotoD(2)[OF P1] iN] hi by (auto simp: holds_def buf_ok_def)
    then have yl: "length ?y = BSIZE" by simp
    note sd = set_data_proto[OF P1 insertI1 hi yl]
    have pu: "pinned ?u = pinned t" by (rule set_data_pinned[OF P1 insertI1 hi yl])
    have nL: "nat ?n \<le> LOGSIZE" using n by simp
    have loop: "kfor [0..<nat (lh_n (lg t))] (\<lambda>i' s. kbind (kguard (i' < LOGSIZE) s) (\<lambda>_ s.
         Ok () (upd_buf i (\<lambda>x. x\<lparr>b_data := put32 (4 + 4 * i') (lh_block (lg s) ! i') (b_data x)\<rparr>) s)))
       (upd_buf i (\<lambda>x. x\<lparr>b_data := put32 0 (uint32 (lh_n (lg t))) (b_data x)\<rparr>) t) = Ok () ?u"
      using il nL hi unfolding l by (simp add: write_head_loop)
        (simp add: upd_buf_def head_img_def holds_def l)
    have "runs (bwrite i ?u) (\<lambda>_ v. runs (brelse i v) (\<lambda>_. did s [(?h, ?y)] (pinned s)))"
    proof (rule runs_mono[OF bwrite_blk[OF sd(1) insertI1 sd(2)]], elim conjE)
      fix x v
      assume P2: "bproto v {i}" and hv: "holds v i ?h ?y" and vv: "view v = view ?u" and cv: "coh v i ?h"
        and pv: "pinned v = pinned ?u - {?h}" and wf: "wframe ?h ?y ?u v"
      have df: "dframe [(?h, ?y)] s v"
        by (rule dframe_nil[OF dframe_bframe[OF bframe_trans[OF bf bframe_upd_buf]] dframe_wframe[OF wf]])
      have pp: "pinned v = pinned s" unfolding pv pu pn using pin home_area ha by blast
      show "runs (brelse i v) (\<lambda>_. did s [(?h, ?y)] (pinned s))"
      proof (rule runs_mono[OF brelse_blk[OF P2 insertI1 hv cv]], elim conjE)
        fix y w
        assume P3: "bproto w ({i} - {i})" and vw': "view w = view v" and bf': "bframe v w"
          and pn': "pinned w = pinned v"
        have "dframe [(?h, ?y)] s w" by (rule dframe_snil[OF df dframe_bframe[OF bf']])
        then show "did s [(?h, ?y)] (pinned s) w"
          using P3 by (simp add: did_def vw' vv sd(3) vw pn' pp)
      qed
    qed
    then show "runs (kfor [0..<nat (lh_n (lg t))] (\<lambda>i' s. kbind (kguard (i' < LOGSIZE) s) (\<lambda>_ s.
         Ok () (upd_buf i (\<lambda>x. x\<lparr>b_data := put32 (4 + 4 * i') (lh_block (lg s) ! i') (b_data x)\<rparr>) s)))
       (upd_buf i (\<lambda>x. x\<lparr>b_data := put32 0 (uint32 (lh_n (lg t))) (b_data x)\<rparr>) t))
       (\<lambda>_ u. runs (bwrite i u) (\<lambda>_ v. runs (brelse i v) (\<lambda>_. did s [(?h, ?y)] (pinned s))))"
      unfolding loop by simp
  qed
qed

text \<open>The in-memory header after \<open>read_head\<close>.\<close>

fun read_blocks :: "nat \<Rightarrow> block \<Rightarrow> nat list \<Rightarrow> nat list" where
  "read_blocks 0 d B = B"
| "read_blocks (Suc m) d B = (read_blocks m d B)[m := get32 d (4 + 4 * m)]"

lemma length_read_blocks [simp]: "length (read_blocks m d B) = length B"
  by (induction m) simp_all

lemma nth_read_blocks: "k < m \<Longrightarrow> m \<le> length B \<Longrightarrow> read_blocks m d B ! k = get32 d (4 + 4 * k)"
  by (induction m) (auto simp: nth_list_update_if less_Suc_eq)

lemma upd_lg_simps [simp]:
  "lg (upd_lg f s) = f (lg s)" "bufs (upd_lg f s) = bufs s" "disk (upd_lg f s) = disk s"
  "disksize (upd_lg f s) = disksize s" "procs (upd_lg f s) = procs s" "mru (upd_lg f s) = mru s"
  "curproc (upd_lg f s) = curproc s" "held (upd_lg f s) = held s" "sb (upd_lg f s) = sb s"
  "dwrites (upd_lg f s) = dwrites s" "inodes (upd_lg f s) = inodes s" "files (upd_lg f s) = files s"
  "pipes (upd_lg f s) = pipes s"
  by (simp_all add: upd_lg_def)

lemma upd_lg_comp: "upd_lg f (upd_lg g s) = upd_lg (\<lambda>x. f (g x)) s"
  by (simp add: upd_lg_def)

lemma cur_upd_lg [simp]: "cur (upd_lg f s) = cur s"
  by (simp add: cur_def split: option.split)

text \<open>The buffer cache does not depend on the log's state.\<close>

lemma cache_upd_lg [simp]:
  "view (upd_lg f s) = view s" "bproto (upd_lg f s) H = bproto s H" "pinned (upd_lg f s) = pinned s"
  "cached (upd_lg f s) = cached s" "holds (upd_lg f s) = holds s" "coh (upd_lg f s) = coh s"
  "ready (upd_lg f s) = ready s"
proof -
  have c: "cached (upd_lg f s) = cached s" by (intro ext) (simp add: cached_def)
  have o: "owns (upd_lg f s) = owns s" by (intro ext) (simp add: owns_def)
  have b: "bc_inv (upd_lg f s) = bc_inv s" by (simp add: bc_inv_def buf_ok_def)
  have d: "dset (upd_lg f s) = dset s" by (simp add: dset_def)
  show "cached (upd_lg f s) = cached s" by (rule c)
  show "view (upd_lg f s) = view s" by (intro ext) (simp add: view_def split: option.split)
  show "bproto (upd_lg f s) H = bproto s H" by (simp add: bproto_def b o idle_locks_def)
  show p: "pinned (upd_lg f s) = pinned s" by (simp add: pinned_def c d)
  show "holds (upd_lg f s) = holds s" by (intro ext) (simp add: holds_def c o)
  show "coh (upd_lg f s) = coh s" by (intro ext) (simp add: coh_def)
  show "ready (upd_lg f s) = ready s" by (intro ext) (simp add: ready_def c p)
qed

lemma bframe_upd_lg: "bframe s t \<Longrightarrow> bframe (upd_lg f s) (upd_lg f t)"
  unfolding bframe_def psame_def upd_lg_def by (cases s; cases t) simp

lemma dframe_upd_lg: "dframe ws s t \<Longrightarrow> dframe ws (upd_lg f s) (upd_lg f t)"
  unfolding dframe_def psame_def upd_lg_def by (cases s; cases t) simp

lemma did_upd_lg: "did s ws pn t \<Longrightarrow> did (upd_lg f s) ws pn (upd_lg f t)"
  by (simp add: did_def dframe_upd_lg)

lemma read_head_loop:
  "m \<le> LOGSIZE \<Longrightarrow>
   kfor [0..<m] (\<lambda>i s. kbind (kguard (i < LOGSIZE) s) (\<lambda>_ s.
         Ok () (upd_lg (\<lambda>g. g\<lparr>lh_block := (lh_block g)[i := get32 d (4 + 4 * i)]\<rparr>) s))) s
   = Ok () (upd_lg (\<lambda>g. g\<lparr>lh_block := read_blocks m d (lh_block g)\<rparr>) s)"
proof (induction m)
  case 0
  have "upd_lg (\<lambda>g. g) s = s" by (simp add: upd_lg_def)
  then show ?case by simp
next
  case (Suc m)
  then show ?case by (simp add: kfor_append upd_lg_comp)
qed

definition load_head :: "block \<Rightarrow> logrec \<Rightarrow> logrec" where
  "load_head d g = g\<lparr>lh_n := sint32 (get32 d 0),
     lh_block := read_blocks (nat (sint32 (get32 d 0))) d (lh_block g)\<rparr>"

lemma read_head_spec:
  assumes P: "bproto s {}" and rd: "ready s {} (lg_start (lg s))" and dev: "lg_dev (lg s) = 1"
    and n: "sint32 (get32 (view s (lg_start (lg s))) 0) \<le> int LOGSIZE"
  shows "runs (read_head s) (\<lambda>_. did (upd_lg (load_head (view s (lg_start (lg s)))) s) [] (pinned s))"
proof -
  let ?d = "view s (lg_start (lg s))"
  let ?f = "load_head ?d"
  have nL: "nat (sint32 (get32 ?d 0)) \<le> LOGSIZE" using n by simp
  show ?thesis
    unfolding read_head_def dev runs_kbind
  proof (rule runs_mono[OF bread_blk[OF P rd]], elim conjE)
    fix i t
    assume P1: "bproto t {i}" and hi: "holds t i (lg_start (lg s)) ?d"
      and vw: "view t = view s" and bf: "bframe s t" and pn: "pinned t = pinned s"
      and ci: "coh t i (lg_start (lg s))"
    have d: "b_data (bufs t ! i) = ?d" using hi by (simp add: holds_def)
    have e: "upd_lg (\<lambda>g. g\<lparr>lh_block := read_blocks (nat (sint32 (get32 ?d 0))) ?d (lh_block g)\<rparr>)
        (upd_lg (\<lambda>g. g\<lparr>lh_n := sint32 (get32 ?d 0)\<rparr>) t) = upd_lg ?f t"
      unfolding upd_lg_comp by (simp add: load_head_def upd_lg_def)
    let ?u = "upd_lg ?f t"
    have P2: "bproto ?u {i}" and h2: "holds ?u i (lg_start (lg s)) ?d" and c2: "coh ?u i (lg_start (lg s))"
      using P1 hi ci by simp_all
    have "runs (brelse i ?u) (\<lambda>_. did (upd_lg ?f s) [] (pinned s))"
    proof (rule runs_mono[OF brelse_blk[OF P2 insertI1 h2 c2]], elim conjE)
      fix x w
      assume P3: "bproto w ({i} - {i})" and vw': "view w = view ?u" and bf': "bframe ?u w"
        and pn': "pinned w = pinned ?u"
      have "bframe (upd_lg ?f s) w" by (rule bframe_trans[OF bframe_upd_lg[OF bf] bf'])
      then show "did (upd_lg ?f s) [] (pinned s) w"
        using P3 vw vw' pn pn' by (simp add: did_def dframe_bframe)
    qed
    then show "runs (let d = b_data (bufs t ! i); n = sint32 (get32 d 0) in
       kbind (kfor [0..<nat n] (\<lambda>i s. kbind (kguard (i < LOGSIZE) s) (\<lambda>_ s.
         Ok () (upd_lg (\<lambda>g. g\<lparr>lh_block := (lh_block g)[i := get32 d (4 + 4 * i)]\<rparr>) s)))
       (upd_lg (\<lambda>g. g\<lparr>lh_n := n\<rparr>) t)) (\<lambda>_ s. brelse i s))
       (\<lambda>_. did (upd_lg ?f s) [] (pinned s))"
      by (simp only: Let_def d read_head_loop[OF nL] kbind_simps e)
  qed
qed

end
