(* ===== verification/LogCrash.thy ===== *)
theory LogCrash
  imports LogSpec
begin

text \<open>
  Transactions as a whole: the invariant of the log, the absorption done by \<open>log_write\<close>, the writes
  of a commit, recovery at boot, and the atomicity of a commit under a crash.
\<close>

subsection \<open>The invariant of the log\<close>

text \<open>The blocks of the current transaction.\<close>

definition logged :: "kst \<Rightarrow> nat list" where
  "logged s = take (nat (lh_n (lg s))) (lh_block (lg s))"

text \<open>
  The header on the disk is empty, and the blocks in the log are distinct blocks outside the log,
  exactly those whose buffers are pinned.
\<close>

definition log_ok :: "kst \<Rightarrow> bool" where
  "log_ok s \<longleftrightarrow> log_geom s \<and> 0 \<le> lh_n (lg s) \<and> lh_n (lg s) < int LOGSIZE
     \<and> distinct (logged s) \<and> set (logged s) = pinned s \<and> (\<forall>m \<in> pinned s. home s m)
     \<and> sint32 (get32 (disk s (lg_start (lg s))) 0) = 0"

lemma log_okD:
  assumes "log_ok s"
  shows "log_geom s" "0 \<le> lh_n (lg s)" "nat (lh_n (lg s)) < LOGSIZE" "distinct (logged s)"
    "set (logged s) = pinned s" "\<forall>m \<in> pinned s. home s m"
    "length (logged s) = nat (lh_n (lg s))" "length (lh_block (lg s)) = LOGSIZE"
    "k < nat (lh_n (lg s)) \<Longrightarrow> lh_block (lg s) ! k = logged s ! k"
    "sint32 (get32 (disk s (lg_start (lg s))) 0) = 0"
  using assms by (auto simp: log_ok_def log_geom_def logged_def)

lemma log_ok_card: "log_ok s \<Longrightarrow> card (pinned s) < NBUF"
  using log_okD(3,4,5,7)[of s] distinct_card[of "logged s"] by (simp add: param_defs)

lemma log_ok_nth:
  assumes "log_ok s" "k < nat (lh_n (lg s))"
  shows "home s (lh_block (lg s) ! k)" "lh_block (lg s) ! k \<in> pinned s"
proof -
  have "logged s ! k \<in> set (logged s)" using assms(2) log_okD(7)[OF assms(1)] by (intro nth_mem) simp
  then show "lh_block (lg s) ! k \<in> pinned s" using log_okD(5,9)[OF assms(1)] assms(2) by simp
  then show "home s (lh_block (lg s) ! k)" using log_okD(6)[OF assms(1)] by blast
qed

lemma header_unpinned: "log_geom s \<Longrightarrow> \<forall>m \<in> pinned s. home s m \<Longrightarrow> m \<in> log_area s \<Longrightarrow> m \<notin> pinned s"
  using home_area by blast

lemma start_in_area: "lg_start (lg s) \<in> log_area s"
  by (simp add: log_area_def param_defs)

subsection \<open>Commit\<close>

text \<open>The disk writes of a commit, in order: the log, the header, the home blocks, the empty header.\<close>

definition commit_header :: "kst \<Rightarrow> block" where
  "commit_header s = head_img (lh_n (lg s)) (lh_block (lg s)) (view s (lg_start (lg s)))"

definition home_writes :: "kst \<Rightarrow> (nat \<times> block) list" where
  "home_writes s = map (\<lambda>m. (m, view s m)) (logged s)"

definition commit_writes :: "kst \<Rightarrow> (nat \<times> block) list" where
  "commit_writes s = log_copies s (nat (lh_n (lg s))) @ [(lg_start (lg s), commit_header s)]
     @ home_writes s @ [(lg_start (lg s), head_img 0 (lh_block (lg s)) (commit_header s))]"

lemma apply_log_copies:
  assumes "k < n"
  shows "apply_writes (log_copies s n) d (lg_start (lg s) + 1 + k) = view s (lh_block (lg s) ! k)"
  using assms
proof (induction n)
  case (Suc n)
  have e: "log_copies s (Suc n) = log_copies s n @ [(lg_start (lg s) + 1 + n, view s (lh_block (lg s) ! n))]"
    by (simp add: log_copies_def)
  show ?case
    using Suc by (cases "k = n") (simp_all add: e)
qed simp

lemma apply_log_copies_head: "apply_writes (log_copies s n) d (lg_start (lg s)) = d (lg_start (lg s))"
  by (rule apply_writes_notin) (auto simp: log_copies_def)

lemma commit_spec:
  assumes P: "bproto s {}" and ok: "log_ok s" and n: "0 < lh_n (lg s)"
  shows "runs (commit s) (\<lambda>_. did (upd_lg (\<lambda>g. g\<lparr>lh_n := 0\<rparr>) s) (commit_writes s) {})"
proof -
  let ?n = "nat (lh_n (lg s))" and ?B = "lh_block (lg s)" and ?h = "lg_start (lg s)"
  let ?f = "\<lambda>g. g\<lparr>lh_n := 0 :: int\<rparr>"
  let ?C = "log_copies s ?n" and ?hd = "commit_header s"
  note D = log_okD[OF ok]
  have hn: "\<forall>k < ?n. home s (?B ! k) \<and> ?B ! k \<in> pinned s" using log_ok_nth[OF ok] by blast
  have "runs (write_head t) (\<lambda>_. did s (?C @ [(?h, ?hd)]) (pinned s))" if t: "did s ?C (pinned s) t" for t
  proof -
    note l = did_lg[OF t]
    have v: "view t ?h = view s ?h" unfolding didD(2)[OF t] by (rule apply_log_copies_head)
    have "runs (write_head t) (\<lambda>_. did t [(?h, ?hd)] (pinned t))"
      using write_head_spec[OF didD(1)[OF t] did_geom[OF t D(1)]] log_ok_card[OF ok] D(3,6)
      by (simp add: l v commit_header_def didD(3)[OF t] did_home[OF t])
    then show ?thesis by (rule runs_mono) (simp add: did_trans[OF t] didD(3)[OF t])
  qed
  moreover have "runs (install_trans t) (\<lambda>_. did s (?C @ [(?h, ?hd)] @ home_writes s) {})"
    if t: "did s (?C @ [(?h, ?hd)]) (pinned s) t" for t
  proof -
    note l = did_lg[OF t]
    have va: "view t (?h + 1 + k) = view s (?B ! k)" if "k < ?n" for k
      using that by (simp add: didD(2)[OF t] apply_log_copies)
    have "installs t ?n = map (\<lambda>k. (logged s ! k, view s (logged s ! k))) [0..<?n]"
      unfolding installs_def by (rule map_cong) (simp_all add: l va[simplified] D(9))
    also have "\<dots> = home_writes s"
      unfolding home_writes_def using D(7) by (intro nth_equalityI) simp_all
    finally have ins: "installs t ?n = home_writes s" .
    have n1: "?n = nat (lh_n (lg t))" by (simp add: l)
    have h1: "\<forall>k<?n. home t (lh_block (lg t) ! k)" using hn by (simp add: l did_home[OF t])
    have h2: "(\<forall>k<?n. lh_block (lg t) ! k \<in> pinned t) \<and> distinct (take ?n (lh_block (lg t))) \<or> pinned t = {}"
      using hn D(4) by (simp add: l didD(3)[OF t] logged_def)
    have c1: "card (pinned t) < NBUF" using log_ok_card[OF ok] by (simp add: didD(3)[OF t])
    have pe: "pinned t - set (take ?n (lh_block (lg t))) = {}"
      using D(5) by (simp add: l didD(3)[OF t] logged_def)
    have "runs (install_trans t) (\<lambda>_. did t (home_writes s) {})"
      using install_trans_spec[OF didD(1)[OF t] did_geom[OF t D(1)] n1 D(3) h1 h2 c1] unfolding ins pe .
    then show ?thesis by (rule runs_mono) (use did_trans[OF t] in fastforce)
  qed
  moreover have "runs (write_head (upd_lg ?f t)) (\<lambda>_. did (upd_lg ?f s) (commit_writes s) {})"
    if t: "did s (?C @ [(?h, ?hd)] @ home_writes s) {} t" for t
  proof -
    let ?t = "upd_lg ?f t"
    note l = did_lg[OF t]
    have g: "log_geom ?t" using did_geom[OF t D(1)] by (simp add: log_geom_def)
    have hnot: "?h \<notin> fst ` set (home_writes s)"
      using header_unpinned[OF D(1,6) start_in_area] D(5) by (auto simp: home_writes_def)
    have v: "view t ?h = ?hd"
      unfolding didD(2)[OF t] by (simp add: apply_writes_notin[OF hnot])
    have "runs (write_head ?t) (\<lambda>_. did ?t [(?h, head_img 0 ?B ?hd)] (pinned ?t))"
      using write_head_spec[of ?t] didD(1)[OF t] g by (simp add: didD(3)[OF t] l v param_defs)
    then show ?thesis
      by (rule runs_mono) (use did_trans[OF did_upd_lg[OF t, of ?f]] didD(3)[OF t] in
        \<open>simp add: commit_writes_def\<close>)
  qed
  moreover have "runs (write_log s) (\<lambda>_. did s ?C (pinned s))"
    by (rule write_log_spec[OF P D(1) refl D(3) hn D(6) log_ok_card[OF ok]])
  ultimately show ?thesis
    using n by (simp add: commit_def) (blast intro: runs_mono)
qed

lemma lg_upd_did: "did (upd_lg f s) ws pn t \<Longrightarrow> lg t = f (lg s)"
  using did_lg by fastforce

lemma did_view_home:
  assumes "did s ws pn t" "m \<notin> pn"
  shows "disk t m = view t m"
  using view_unpinned[of t m] didD(1,3)[OF assms(1)] assms(2) by simp

text \<open>After a commit the transaction is empty, and every block is on the disk as the kernel saw it.\<close>

lemma apply_writes_view:
  "apply_writes (map (\<lambda>m. (m, f m)) ms) e m = (if m \<in> set ms then f m else e m)"
  by (induction ms arbitrary: e) auto

lemma commit_writes_home:
  assumes "log_ok s" "home s m"
  shows "apply_writes (commit_writes s) d m = (if m \<in> pinned s then view s m else d m)"
proof -
  note D = log_okD[OF assms(1)]
  have nh: "m \<noteq> lg_start (lg s)" using home_area[OF assms(2)] start_in_area by metis
  have "apply_writes (home_writes s) e m = (if m \<in> set (logged s) then view s m else e m)" for e
    unfolding home_writes_def by (rule apply_writes_view)
  then show ?thesis
    using nh log_copies_home[OF D(1,3) assms(2)] by (simp add: commit_writes_def D(5))
qed

subsection \<open>Recovery\<close>

text \<open>
  What recovery makes of a disk \<open>d\<close> whose log starts at \<open>h\<close>: the blocks the header names get the
  contents of the log.
\<close>

definition head_count :: "block \<Rightarrow> nat" where
  "head_count x = nat (sint32 (get32 x 0))"

definition recov :: "nat \<Rightarrow> (nat \<Rightarrow> block) \<Rightarrow> nat \<Rightarrow> block" where
  "recov h d = apply_writes (map (\<lambda>k. (get32 (d h) (4 + 4 * k), d (h + 1 + k))) [0..<head_count (d h)]) d"

lemma load_head_start [simp]: "lg_start (load_head d g) = lg_start g"
  by (simp add: load_head_def)

lemma ready_pinned_empty: "bproto s {} \<Longrightarrow> pinned s = {} \<Longrightarrow> n < disksize s \<Longrightarrow> ready s {} n"
  by (simp add: ready_def param_defs)

lemma recover_spec:
  assumes P: "bproto s {}" and pin: "pinned s = {}" and g: "log_geom s"
    and n: "sint32 (get32 (disk s (lg_start (lg s))) 0) < int LOGSIZE"
    and hm: "\<forall>k < head_count (disk s (lg_start (lg s))). home s (get32 (disk s (lg_start (lg s))) (4 + 4 * k))"
  shows "runs (recover_from_log s) (\<lambda>_ u. bproto u {} \<and> pinned u = {} \<and> log_geom u \<and> lh_n (lg u) = 0
     \<and> lg_start (lg u) = lg_start (lg s) \<and> disksize u = disksize s
     \<and> sint32 (get32 (disk u (lg_start (lg s))) 0) = 0
     \<and> (\<forall>m. home s m \<longrightarrow> disk u m = recov (lg_start (lg s)) (disk s) m))"
proof -
  let ?h = "lg_start (lg s)" and ?f = "\<lambda>g. g\<lparr>lh_n := 0 :: int\<rparr>"
  let ?d = "disk s ?h"
  let ?n = "head_count ?d"
  let ?s1 = "upd_lg (load_head ?d) s"
  have vd: "view s m = disk s m" for m using view_unpinned[OF P] pin by simp
  have hd: "?h < disksize s" and dev: "lg_dev (lg s) = 1" and hl: "length (lh_block (lg s)) = LOGSIZE"
    using g by (simp_all add: log_geom_def param_defs)
  have nL: "?n < LOGSIZE" using n by (simp add: head_count_def param_defs)
  have g1: "log_geom ?s1" using g by (simp add: log_geom_def load_head_def)
  have P1: "bproto ?s1 {}" "pinned ?s1 = {}" using P pin by simp_all
  have hb: "lh_block (lg ?s1) ! k = get32 ?d (4 + 4 * k)" if "k < ?n" for k
    using that nL hl by (simp add: load_head_def head_count_def nth_read_blocks)
  have n1: "nat (lh_n (lg ?s1)) = ?n" by (simp add: load_head_def head_count_def)
  have st1: "lg_start (lg ?s1) = ?h" by (simp add: load_head_def)
  have hs: "home ?s1 m = home s m" for m by (simp add: home_def log_area_def load_head_def)
  have h1: "\<forall>k < ?n. home ?s1 (lh_block (lg ?s1) ! k)" using hm hb hs by simp
  have c1: "card (pinned ?s1) < NBUF" using P1(2) by (simp add: param_defs)
  have ins: "installs ?s1 ?n = map (\<lambda>k. (get32 ?d (4 + 4 * k), disk s (?h + 1 + k))) [0..<?n]"
    unfolding installs_def using hb by (intro map_cong) (simp_all add: vd st1)
  have "runs (read_head s) (\<lambda>_. did ?s1 [] {})"
    using read_head_spec[OF P ready_pinned_empty[OF P pin hd] dev] n vd pin by simp
  moreover have "runs (install_trans t) (\<lambda>_. did ?s1 (installs ?s1 ?n) {})" if t: "did ?s1 [] {} t" for t
  proof -
    note l = did_lg[OF t]
    have e: "view t = view ?s1" using didD(2)[OF t] by simp
    have "runs (install_trans t) (\<lambda>_. did t (installs t ?n) (pinned t - set (take ?n (lh_block (lg t)))))"
      by (rule install_trans_spec[OF didD(1)[OF t] did_geom[OF t g1] _ nL])
        (use l n1 h1 c1 in \<open>simp_all add: did_home[OF t] didD(3)[OF t] param_defs\<close>)
    moreover have "installs t ?n = installs ?s1 ?n" by (simp only: installs_def l e)
    ultimately show ?thesis
      using did_trans[OF t] didD(3)[OF t] by (auto elim!: runs_mono)
  qed
  moreover have "runs (write_head (upd_lg ?f t)) (\<lambda>_ u. did (upd_lg ?f ?s1)
      (installs ?s1 ?n @ [(?h, head_img 0 (lh_block (lg ?s1)) (view t ?h))]) {} u \<and> length (view t ?h) = BSIZE)"
    if t: "did ?s1 (installs ?s1 ?n) {} t" for t
  proof -
    note l = did_lg[OF t]
    have g2: "log_geom (upd_lg ?f t)" using did_geom[OF t g1] by (simp add: log_geom_def)
    have "view t ?h = ?d"
      using installs_area[OF h1, of ?h] start_in_area[of ?s1]
      by (simp add: didD(2)[OF t] vd st1)
    moreover have "length ?d = BSIZE" using bprotoD(2)[OF P] hd by (simp add: bc_inv_def)
    ultimately have len: "length (view t ?h) = BSIZE" by simp
    have "runs (write_head (upd_lg ?f t)) (\<lambda>_. did (upd_lg ?f t) [(?h, head_img 0 (lh_block (lg ?s1)) (view t ?h))]
        (pinned (upd_lg ?f t)))"
      using write_head_spec[of "upd_lg ?f t"] didD(1)[OF t] g2
      by (simp add: didD(3)[OF t] l st1 param_defs)
    then show ?thesis
      by (rule runs_mono) (use did_trans[OF did_upd_lg[OF t, of ?f]] didD(3)[OF t] len in simp)
  qed
  moreover have "bproto u {} \<and> pinned u = {} \<and> log_geom u \<and> lh_n (lg u) = 0
     \<and> lg_start (lg u) = ?h \<and> disksize u = disksize s \<and> sint32 (get32 (disk u ?h) 0) = 0
     \<and> (\<forall>m. home s m \<longrightarrow> disk u m = recov ?h (disk s) m)"
    if u: "did (upd_lg ?f ?s1) (installs ?s1 ?n @ [(?h, head_img 0 B x)]) {} u" and x: "length x = BSIZE"
    for u B x
  proof -
    have l: "lg u = ?f (load_head ?d (lg s))" "disksize u = disksize s" using did_lg[OF u] by simp_all
    have du: "disk u = apply_writes (installs ?s1 ?n @ [(?h, head_img 0 B x)]) (disk s)"
      using dframeD(1)[OF didD(4)[OF u]] by simp
    have "log_geom u" using g1 l by (simp add: log_geom_def)
    moreover have "disk u m = recov ?h (disk s) m" if "home s m" for m
    proof -
      have "m \<noteq> ?h" using home_area[OF that] start_in_area by metis
      then show ?thesis by (simp add: du ins recov_def)
    qed
    moreover have "sint32 (get32 (disk u ?h) 0) = 0"
      using head_img_n[OF x, of 0 B] by (simp add: du)
    ultimately show ?thesis
      using didD(1,3)[OF u] l by (simp add: load_head_def)
  qed
  ultimately show ?thesis
    unfolding recover_from_log_def runs_kbind by (elim runs_mono) (blast intro: runs_mono)
qed

lemma readsb_spec:
  assumes "bproto s {}" "ready s {} 1"
  shows "runs (readsb 1 s) (\<lambda>v t. v = dec_sb (view s 1) \<and> did s [] (pinned s) t)"
  unfolding readsb_def runs_kbind
proof (rule runs_mono[OF read_blk[OF assms]], elim conjE)
  fix i t
  assume d: "b_data (bufs t ! i) = view s 1" and r: "runs (brelse i t) (\<lambda>_ u. bproto u {} \<and> view u = view s
     \<and> bframe s u \<and> pinned u = pinned s \<and> (\<forall>j \<in> {}. bufs u ! j = bufs s ! j))"
  have "runs (brelse i t) (\<lambda>_. did s [] (pinned s))"
    by (rule runs_mono[OF r]) (simp add: did_def dframe_bframe)
  then show "runs (let v = dec_sb (b_data (bufs t ! i)) in kbind (brelse i t) (\<lambda>_. Ok v))
       (\<lambda>v t. v = dec_sb (view s 1) \<and> did s [] (pinned s) t)"
    by (simp add: d)
qed

text \<open>The state of the kernel at boot, before \<open>initlog\<close>: the cache is empty.\<close>

definition booted :: "kst \<Rightarrow> bool" where
  "booted r \<longleftrightarrow> bproto r {} \<and> pinned r = {} \<and> length (lh_block (lg r)) = LOGSIZE
     \<and> 1 < disksize r \<and> disksize r < 2 ^ 31"

text \<open>The superblock on disk \<open>d\<close> puts a log of \<open>LOGSIZE\<close> blocks at \<open>h\<close>.\<close>

definition sb_log :: "(nat \<Rightarrow> block) \<Rightarrow> nat \<Rightarrow> nat \<Rightarrow> bool" where
  "sb_log d nb h \<longleftrightarrow> sb_logstart (dec_sb (d 1)) = h \<and> sb_nlog (dec_sb (d 1)) = LOGSIZE
     \<and> 1 < h \<and> h + LOGSIZE \<le> nb"

text \<open>A block of a disk of \<open>nb\<close> blocks that is neither the boot block, the superblock nor in the log.\<close>

definition off_log :: "nat \<Rightarrow> nat \<Rightarrow> nat \<Rightarrow> bool" where
  "off_log nb h m \<longleftrightarrow> 1 < m \<and> m < nb \<and> m \<notin> {h..<h + LOGSIZE}"

lemma home_off_log: "home s = off_log (disksize s) (lg_start (lg s))"
  by (intro ext) (simp add: home_def off_log_def log_area_def)

lemma initlog_spec:
  assumes b: "booted r" and sl: "sb_log (disk r) (disksize r) h"
    and n: "sint32 (get32 (disk r h) 0) < int LOGSIZE"
    and hm: "\<forall>k < head_count (disk r h). off_log (disksize r) h (get32 (disk r h) (4 + 4 * k))"
  shows "runs (initlog 1 r) (\<lambda>_ u. bproto u {} \<and> log_ok u \<and> pinned u = {} \<and> lg_start (lg u) = h
     \<and> (\<forall>m. off_log (disksize r) h m \<longrightarrow> disk u m = recov h (disk r) m))"
proof -
  have P: "bproto r {}" and pin: "pinned r = {}" and sz: "1 < disksize r" "disksize r < 2 ^ 31"
    and len: "length (lh_block (lg r)) = LOGSIZE"
    using b by (simp_all add: booted_def)
  have v1: "view r 1 = disk r 1" using view_unpinned[OF P] pin by simp
  let ?v = "dec_sb (disk r 1)"
  let ?f = "\<lambda>g. g\<lparr>lg_start := sb_logstart ?v, lg_size := sint32 (sb_nlog ?v), lg_dev := 1\<rparr>"
  have s12: "sb_logstart ?v = h" "sb_nlog ?v = LOGSIZE" "1 < h" "h + LOGSIZE \<le> disksize r"
    using sl by (simp_all add: sb_log_def)
  have "runs (recover_from_log (upd_lg ?f t)) (\<lambda>_ u. bproto u {} \<and> log_ok u \<and> pinned u = {} \<and> lg_start (lg u) = h
     \<and> (\<forall>m. off_log (disksize r) h m \<longrightarrow> disk u m = recov h (disk r) m))"
    if t: "did r [] {} t" for t
  proof -
    let ?t = "upd_lg ?f t"
    have l: "lg t = lg r" "disksize t = disksize r" using did_lg[OF t] by simp_all
    have dk: "disk t = disk r" using dframeD(1)[OF didD(4)[OF t]] by simp
    have g: "log_geom ?t" using s12 sz len l by (simp add: log_geom_def sint32_def param_defs)
    have "runs (recover_from_log ?t) (\<lambda>_ u. bproto u {} \<and> pinned u = {} \<and> log_geom u \<and> lh_n (lg u) = 0
     \<and> lg_start (lg u) = h \<and> disksize u = disksize r \<and> sint32 (get32 (disk u h) 0) = 0
     \<and> (\<forall>m. off_log (disksize r) h m \<longrightarrow> disk u m = recov h (disk r) m))"
      using recover_spec[of ?t] g didD(1,3)[OF t] n hm by (simp add: s12 dk l home_off_log)
    then show ?thesis
      by (rule runs_mono) (simp add: log_ok_def logged_def param_defs)
  qed
  moreover have "runs (readsb 1 r) (\<lambda>v t. v = ?v \<and> did r [] {} t)"
    using readsb_spec[OF P ready_pinned_empty[OF P pin sz(1)]] by (simp add: v1 pin)
  ultimately have "runs (readsb 1 r) (\<lambda>v t. runs (recover_from_log (upd_lg (\<lambda>g. g\<lparr>lg_start := sb_logstart v,
      lg_size := sint32 (sb_nlog v), lg_dev := 1\<rparr>) t)) (\<lambda>_ u. bproto u {} \<and> log_ok u \<and> pinned u = {}
     \<and> lg_start (lg u) = h \<and> (\<forall>m. off_log (disksize r) h m \<longrightarrow> disk u m = recov h (disk r) m)))"
    by (elim runs_mono) auto
  then show ?thesis by (simp add: initlog_def param_defs)
qed

subsection \<open>Crashes during a commit\<close>

lemma log_area_disk:
  assumes "bproto s {}" "log_ok s" "m \<notin> pinned s"
  shows "view s m = disk s m"
  by (rule view_unpinned[OF assms(1,3)])

text \<open>The three stretches of a commit a crash can fall into.\<close>

lemma prefix_cases:
  assumes "C @ [x] @ I @ [y] = W1 @ W2"
  obtains (before) C2 where "C = W1 @ C2" | (between) I1 I2 where "W1 = C @ [x] @ I1" "I = I1 @ I2"
    | (after) "W1 = C @ [x] @ I @ [y]"
proof (cases "length W1 \<le> length C")
  case True
  then have "C = W1 @ drop (length W1) C"
    using assms by (metis append_eq_append_conv_if append_take_drop_id)
  then show ?thesis by (rule before)
next
  case False
  then obtain V where V: "W1 = C @ [x] @ V" "I @ [y] = V @ W2"
    using assms by (auto simp: append_eq_append_conv2 append_eq_Cons_conv Cons_eq_append_conv)
  show ?thesis
  proof (cases "W2 = []")
    case True
    then show ?thesis using V after by simp
  next
    case False
    then obtain W3 z where "W2 = W3 @ [z]" by (metis rev_exhaust)
    then show ?thesis using V between[of V W3] by simp
  qed
qed

lemma recov_empty: "sint32 (get32 (d h) 0) = 0 \<Longrightarrow> recov h d = d"
  by (simp add: recov_def head_count_def)

text \<open>The disk after a crash that let the first writes \<open>W\<close> of the commit of \<open>s\<close> through.\<close>

lemma crash_recov:
  assumes P: "bproto s {}" and ok: "log_ok s" and W: "commit_writes s = W1 @ W2"
  defines "h \<equiv> lg_start (lg s)" and "d \<equiv> apply_writes W1 (disk s)"
  shows "sint32 (get32 (d h) 0) < int LOGSIZE"
    and "\<forall>k < head_count (d h). home s (get32 (d h) (4 + 4 * k))"
    and "(\<forall>m. home s m \<longrightarrow> recov h d m = disk s m) \<or> (\<forall>m. home s m \<longrightarrow> recov h d m = view s m)"
proof -
  note D = log_okD[OF ok]
  let ?n = "nat (lh_n (lg s))" and ?B = "lh_block (lg s)" and ?hd = "commit_header s"
  let ?C = "log_copies s ?n"
  have hs: "h < disksize s" "h \<notin> pinned s"
    using D(1) header_unpinned[OF D(1,6) start_in_area] by (simp_all add: log_geom_def h_def param_defs)
  have vl: "length (view s h) = BSIZE"
    using view_unpinned[OF P hs(2)] bprotoD(2)[OF P] hs(1) by (simp add: bc_inv_def)
  have hdl: "length ?hd = BSIZE" using vl by (simp add: commit_header_def h_def)
  have hdn: "sint32 (get32 ?hd 0) = lh_n (lg s)"
    using head_img_n[OF vl D(2)] D(3) by (simp add: commit_header_def h_def param_defs)
  have hdc: "head_count ?hd = ?n" by (simp add: head_count_def hdn)
  have Bh: "home s (?B ! k)" if "k < ?n" for k using log_ok_nth(1)[OF ok that] .
  have hdb: "get32 ?hd (4 + 4 * k) = ?B ! k" if "k < ?n" for k
  proof -
    have "?B ! k < 2 ^ 32" using Bh[OF that] D(1) by (simp add: home_def log_geom_def)
    then show ?thesis
      unfolding commit_header_def using head_img_block[OF vl, of "lh_n (lg s)" k ?B] that D(3)
      by (simp add: h_def)
  qed
  have nh: "m \<noteq> h" if "home s m" for m using home_area[OF that] start_in_area h_def by metis
  have hw: "apply_writes (map (\<lambda>m. (m, view s m)) ms) e h = e h" if "set ms \<subseteq> pinned s" for ms e
    using hs(2) that by (intro apply_writes_notin) auto
  from W have "?C @ [(h, ?hd)] @ home_writes s @ [(h, head_img 0 ?B ?hd)] = W1 @ W2"
    by (simp add: commit_writes_def h_def)
  then have "sint32 (get32 (d h) 0) < int LOGSIZE
    \<and> (\<forall>k < head_count (d h). home s (get32 (d h) (4 + 4 * k)))
    \<and> ((\<forall>m. home s m \<longrightarrow> recov h d m = disk s m) \<or> (\<forall>m. home s m \<longrightarrow> recov h d m = view s m))"
  proof (cases rule: prefix_cases)
    case (before C2)
    have sub: "fst ` set W1 \<subseteq> log_area s - {h}"
    proof -
      have "fst ` set ?C \<subseteq> log_area s" by (rule fst_log_copies[OF D(1,3)])
      moreover have "h \<notin> fst ` set ?C" by (auto simp: log_copies_def h_def)
      ultimately show ?thesis using before by auto
    qed
    have dh: "d h = disk s h" unfolding d_def using sub by (intro apply_writes_notin) blast
    have dm: "d m = disk s m" if "home s m" for m
      unfolding d_def using sub home_area[OF that] by (intro apply_writes_notin) blast
    have z: "sint32 (get32 (d h) 0) = 0" unfolding dh unfolding h_def by (rule D(10))
    have "recov h d = d" by (rule recov_empty[of d h, OF z])
    then show ?thesis using dm z by (simp add: head_count_def param_defs)
  next
    case (between I1 I2)
    obtain ms where ms: "I1 = map (\<lambda>m. (m, view s m)) ms" "set ms \<subseteq> set (logged s)"
    proof -
      have "I1 = take (length I1) (home_writes s)" using between(2) by simp
      then have "I1 = map (\<lambda>m. (m, view s m)) (take (length I1) (logged s))"
        by (simp add: home_writes_def take_map)
      then show ?thesis using that set_take_subset by metis
    qed
    have msp: "set ms \<subseteq> pinned s" using ms(2) D(5) by simp
    have dh: "d h = ?hd" unfolding d_def between(1) ms(1) by (simp add: hw[OF msp])
    have dl: "d (h + 1 + k) = view s (?B ! k)" if "k < ?n" for k
    proof -
      have "h + 1 + k \<notin> pinned s"
        using header_unpinned[OF D(1,6)] log_blk_eq(2)[OF D(1), of k] that D(3) by (simp add: h_def)
      then have "h + 1 + k \<notin> fst ` set I1" using msp unfolding ms(1) by auto
      then have "d (h + 1 + k) = apply_writes ?C (disk s) (h + 1 + k)"
        unfolding d_def between(1) by (simp add: apply_writes_notin)
      then show ?thesis using apply_log_copies[OF that] by (simp add: h_def)
    qed
    have rc: "recov h d = apply_writes (home_writes s) d"
    proof -
      have "map (\<lambda>k. (get32 (d h) (4 + 4 * k), d (h + 1 + k))) [0..<head_count (d h)] = home_writes s"
        unfolding dh hdc home_writes_def
        by (intro nth_equalityI) (simp_all add: D(7) hdb dl[simplified] D(9))
      then show ?thesis by (simp only: recov_def)
    qed
    have "recov h d m = view s m" if m: "home s m" for m
    proof (cases "m \<in> pinned s")
      case True
      then show ?thesis unfolding rc home_writes_def apply_writes_view by (simp add: D(5))
    next
      case False
      have "d m = disk s m"
        unfolding d_def between(1) ms(1)
        using subsetD[OF msp, of m] False nh[OF m] log_copies_home[OF D(1,3) m]
        by (auto simp: apply_writes_view)
      then show ?thesis
        unfolding rc home_writes_def apply_writes_view using False view_unpinned[OF P False] by (simp add: D(5))
    qed
    then show ?thesis using hdn D(3) Bh hdb by (simp add: dh hdc param_defs)
  next
    case after
    have dh: "d h = head_img 0 ?B ?hd" by (simp add: d_def after)
    have z: "sint32 (get32 (d h) 0) = 0" unfolding dh by (rule head_img_n[OF hdl]) simp_all
    have "d = apply_writes (commit_writes s) (disk s)"
      unfolding d_def after by (simp add: commit_writes_def h_def)
    then have "d m = view s m" if "home s m" for m
      using commit_writes_home[OF ok that, of "disk s"] view_unpinned[OF P, of m] by simp
    then show ?thesis using z recov_empty[of d h, OF z] by (simp add: head_count_def param_defs)
  qed
  then show "sint32 (get32 (d h) 0) < int LOGSIZE"
    "\<forall>k < head_count (d h). home s (get32 (d h) (4 + 4 * k))"
    "(\<forall>m. home s m \<longrightarrow> recov h d m = disk s m) \<or> (\<forall>m. home s m \<longrightarrow> recov h d m = view s m)"
    by blast+
qed

text \<open>Rebooting from a disk on which a crash left a prefix of the writes of a commit.\<close>

lemma crash_reboot:
  assumes P: "bproto s {}" and ok: "log_ok s" and sl: "sb_log (disk s) (disksize s) (lg_start (lg s))"
    and W: "commit_writes s = W1 @ W2"
    and b: "booted r" and dk: "disk r = apply_writes W1 (disk s)" "disksize r = disksize s"
  shows "runs (initlog 1 r) (\<lambda>_ u. log_ok u \<and> pinned u = {}
     \<and> ((\<forall>m. home s m \<longrightarrow> disk u m = disk s m) \<or> (\<forall>m. home s m \<longrightarrow> disk u m = view s m)))"
proof -
  let ?h = "lg_start (lg s)"
  note D = log_okD[OF ok]
  note C = crash_recov[OF P ok W]
  have one: "1 \<notin> fst ` set W1"
  proof -
    have h1: "1 < ?h" using D(1) by (simp add: log_geom_def)
    have "1 \<notin> fst ` set (commit_writes s)"
      using D(5,6) h1 by (auto simp: commit_writes_def log_copies_def home_writes_def home_def)
    then show ?thesis using W by auto
  qed
  have sl': "sb_log (disk r) (disksize r) ?h"
    using sl apply_writes_notin[OF one, of "disk s"] by (simp add: sb_log_def dk)
  have "runs (initlog 1 r) (\<lambda>_ u. bproto u {} \<and> log_ok u \<and> pinned u = {} \<and> lg_start (lg u) = ?h
     \<and> (\<forall>m. off_log (disksize r) ?h m \<longrightarrow> disk u m = recov ?h (disk r) m))"
    by (rule initlog_spec[OF b sl']) (use C in \<open>simp_all add: dk home_off_log\<close>)
  then show ?thesis
    by (rule runs_mono) (use C(3) in \<open>auto simp: dk home_off_log\<close>)
qed

end
