(* ===== verification/LogOps.thy ===== *)
theory LogOps
  imports LogCrash
begin

text \<open>
  \<open>begin_op\<close>, \<open>log_write\<close> and \<open>end_op\<close>: reservation, absorption and group commit.
\<close>

lemma upd_lg_held [simp]: "upd_lg f (s\<lparr>held := h\<rparr>) = (upd_lg f s)\<lparr>held := h\<rparr>"
  by (simp add: upd_lg_def)

lemma upd_buf_held [simp]: "upd_buf i f (s\<lparr>held := h\<rparr>) = (upd_buf i f s)\<lparr>held := h\<rparr>"
  by (simp add: upd_buf_def)

text \<open>What \<open>begin_op\<close> waits for: no commit is running and the log has room for one more call.\<close>

definition log_room :: "kst \<Rightarrow> bool" where
  "log_room s \<longleftrightarrow> \<not> lg_committing (lg s)
     \<and> lh_n (lg s) + (lg_outstanding (lg s) + 1) * int MAXOPBLOCKS \<le> int LOGSIZE"

lemma begin_op_room:
  assumes "idle_locks s" "log_room s"
  shows "begin_op s = Ok () (upd_lg (\<lambda>g. g\<lparr>lg_outstanding := lg_outstanding g + 1\<rparr>) s)"
  using assms by (simp add: begin_op_def begin_op_loop_def log_room_def idle_locks_def)

lemma begin_op_full:
  assumes "idle_locks s" "\<not> log_room s"
  obtains p where "curproc s = Some p" "begin_op s = Sched (upd_proc p
     (\<lambda>q. q\<lparr>chan := Some ChLog, state := SLEEPING\<rparr>) (s\<lparr>held := [LPtable]\<rparr>))"
proof -
  obtain p where p: "curproc s = Some p" "p < length (procs s)" "held s = []"
    using assms(1) by (auto simp: idle_locks_def)
  let ?s = "s\<lparr>held := [LLog]\<rparr>"
  have "begin_op_loop ?s = sleep ChLog (Some LLog) ?s"
    using assms(2) by (auto simp: begin_op_loop_def log_room_def)
  also have "\<dots> = Sched (upd_proc p (\<lambda>q. q\<lparr>chan := Some ChLog, state := SLEEPING\<rparr>) (s\<lparr>held := [LPtable]\<rparr>))"
    using p by (simp add: sleep_def sched_def release_def upd_proc_def)
  finally show ?thesis using that p by (simp add: begin_op_def)
qed

subsection \<open>\<open>log_write\<close>\<close>

lemma log_slot_hit:
  assumes "distinct (logged s)" "k < length (logged s)" "logged s ! k = m"
  shows "log_slot m (lg s) = k"
proof -
  have "first_idx (\<lambda>x. x = m) (logged s) = Some k"
    unfolding first_idx_Some using assms by (auto simp: nth_eq_iff_index_eq)
  then show ?thesis by (simp add: log_slot_def logged_def)
qed

lemma log_slot_new:
  assumes "m \<notin> set (logged s)"
  shows "log_slot m (lg s) = nat (lh_n (lg s))"
proof -
  have "first_idx (\<lambda>x. x = m) (logged s) = None" using assms by auto
  then show ?thesis by (simp only: log_slot_def logged_def option.case)
qed

definition log_absorb :: "nat \<Rightarrow> nat list \<Rightarrow> nat list" where
  "log_absorb m ms = (if m \<in> set ms then ms else ms @ [m])"

lemma log_write_eq:
  assumes "idle_locks s" "log_ok s" "lh_n (lg s) < int LOGSIZE - 1" "1 \<le> lg_outstanding (lg s)"
    "b_blockno (bufs s ! i) = m"
  obtains g where "log_write i s = Ok () (upd_buf i (\<lambda>x. x\<lparr>b_dirty := True\<rparr>) (upd_lg (\<lambda>_. g) s))"
    "take (nat (lh_n g)) (lh_block g) = log_absorb m (logged s)"
    "g = (lg s)\<lparr>lh_n := lh_n g, lh_block := lh_block g\<rparr>" "length (lh_block g) = LOGSIZE"
    "0 \<le> lh_n g" "lh_n g < int LOGSIZE"
proof -
  note D = log_okD[OF assms(2)]
  let ?k = "log_slot m (lg s)" and ?n = "lh_n (lg s)" and ?B = "lh_block (lg s)"
  let ?g = "(lg s)\<lparr>lh_block := ?B[?k := m], lh_n := (if int ?k = ?n then ?n + 1 else ?n)\<rparr>"
  have sz: "lg_size (lg s) = int LOGSIZE" using D(1) by (simp add: log_geom_def)
  have lw: "log_write i s = Ok () (upd_buf i (\<lambda>x. x\<lparr>b_dirty := True\<rparr>) (upd_lg (\<lambda>_. ?g) s))"
    using assms(1,3,4,5) sz by (simp add: log_write_def Let_def idle_locks_def upd_lg_def upd_buf_def)
  have tk: "take (nat (lh_n ?g)) (lh_block ?g) = log_absorb m (logged s)"
  proof (cases "m \<in> set (logged s)")
    case True
    then obtain k where k: "k < length (logged s)" "logged s ! k = m" by (auto simp: in_set_conv_nth)
    then have sl: "?k = k" by (rule log_slot_hit[OF D(4)])
    have "int k \<noteq> ?n" using k(1) D(7) by simp
    moreover have "?B[k := m] = ?B"
      using k D(7,9) by (metis list_update_id)
    ultimately show ?thesis using True k sl D(7) by (simp add: log_absorb_def logged_def)
  next
    case False
    then have sl: "?k = nat ?n" by (rule log_slot_new)
    have "take (nat (?n + 1)) (?B[nat ?n := m]) = take (nat ?n) ?B @ [m]"
      using D(2,3,8) by (simp add: nat_add_distrib take_Suc_conv_app_nth One_nat_def)
    then show ?thesis using False sl D(2) by (simp add: log_absorb_def logged_def)
  qed
  show ?thesis
    by (rule that[OF lw tk]) (use D(2,3,8) assms(3) in auto)
qed

lemma log_write_spec:
  assumes P: "bproto s H" and ok: "log_ok s" and n: "lh_n (lg s) < int LOGSIZE - 1"
    and out: "1 \<le> lg_outstanding (lg s)" and i: "i \<in> H" and h: "holds s i m d" and hm: "home s m"
  shows "runs (log_write i s) (\<lambda>_ t. bproto t H \<and> log_ok t \<and> view t = view s \<and> holds t i m d \<and> coh t i m
     \<and> pinned t = insert m (pinned s) \<and> logged t = log_absorb m (logged s)
     \<and> lg_outstanding (lg t) = lg_outstanding (lg s) \<and> lg_start (lg t) = lg_start (lg s)
     \<and> lg_committing (lg t) = lg_committing (lg s)
     \<and> (\<forall>j. j \<noteq> i \<longrightarrow> bufs t ! j = bufs s ! j) \<and> bframe (upd_lg (\<lambda>_. lg t) s) t)"
proof -
  note D = log_okD[OF ok]
  have iN: "i < NBUF" "i < length (bufs s)" and bn: "b_blockno (bufs s ! i) = m"
    using h bc_inv_len[OF bprotoD(2)[OF P]] by (simp_all add: holds_def cached_def)
  obtain g where lw: "log_write i s = Ok () (upd_buf i (\<lambda>x. x\<lparr>b_dirty := True\<rparr>) (upd_lg (\<lambda>_. g) s))"
    and tk: "take (nat (lh_n g)) (lh_block g) = log_absorb m (logged s)"
    and ge: "g = (lg s)\<lparr>lh_n := lh_n g, lh_block := lh_block g\<rparr>"
    and gl: "length (lh_block g) = LOGSIZE" "0 \<le> lh_n g" "lh_n g < int LOGSIZE"
    by (rule log_write_eq[OF bprotoD(1)[OF P] ok n out bn])
  let ?u = "upd_lg (\<lambda>_. g) s"
  let ?t = "upd_buf i (\<lambda>x. x\<lparr>b_dirty := True\<rparr>) ?u"
  have P': "bproto ?u H" and h': "holds ?u i m d" using P h by simp_all
  note sd = set_dirty_proto[OF P' i h']
  have gg: "lg_start g = lg_start (lg s)" "lg_dev g = lg_dev (lg s)" "lg_size g = lg_size (lg s)"
    "lg_outstanding g = lg_outstanding (lg s)" "lg_committing g = lg_committing (lg s)"
    by (subst ge, simp)+
  have pn: "pinned ?t = insert m (pinned s)"
  proof -
    have c: "cached ?t j k = cached s j k" for j k
      using iN bc_inv_len[OF bprotoD(2)[OF P']] by (subst cached_upd_same) simp_all
    have ds: "dset ?t = insert i (dset s)" using sd(4) by (simp add: dset_def)
    have ci: "cached s i k \<longleftrightarrow> k = m" for k using h by (auto simp: holds_def cached_def)
    show ?thesis unfolding pinned_def ds c by (auto simp: ci)
  qed
  have ab: "set (log_absorb m (logged s)) = insert m (pinned s)" "distinct (log_absorb m (logged s))"
    using D(4,5) by (auto simp: log_absorb_def)
  have hh: "home ?t k = home s k" for k by (simp add: home_off_log gg)
  have geo: "log_geom ?t" using D(1) gl gg by (simp add: log_geom_def)
  have lt: "logged ?t = log_absorb m (logged s)" by (simp add: logged_def tk)
  have "log_ok ?t"
    unfolding log_ok_def pn lt hh using geo gl ab D(6,10) hm by (simp add: gg)
  moreover have "bframe ?u ?t" by simp
  ultimately show ?thesis
    unfolding lw using sd pn lt gg by simp
qed

subsection \<open>\<open>end_op\<close>\<close>

lemma idle_locks_upd_lg [simp]: "idle_locks (upd_lg f s) = idle_locks s"
  by (simp add: idle_locks_def)

lemma wakeup1_upd_lg [simp]: "wakeup1 c (upd_lg f s) = upd_lg f (wakeup1 c s)"
  by (simp add: wakeup1_def upd_lg_def)

text \<open>The last call of a group commits; another one only gives its reservation back.\<close>

lemma end_op_last:
  assumes "idle_locks s" "lg_outstanding (lg s) = 1" "\<not> lg_committing (lg s)"
    and c: "runs (commit (upd_lg (\<lambda>g. g\<lparr>lg_outstanding := 0, lg_committing := True\<rparr>) s))
      (\<lambda>_ t. idle_locks t \<and> Q (wakeup1 (Some ChLog) (upd_lg (\<lambda>g. g\<lparr>lg_committing := False\<rparr>) t)))"
  shows "runs (end_op s) (\<lambda>_. Q)"
proof -
  have h: "held s = []" using assms(1) by (simp add: idle_locks_def)
  have e: "(upd_lg (\<lambda>g. g\<lparr>lg_committing := True\<rparr>) (upd_lg (\<lambda>g. g\<lparr>lg_outstanding := lg_outstanding g - 1\<rparr>)
      (s\<lparr>held := [LLog]\<rparr>)))\<lparr>held := []\<rparr> = upd_lg (\<lambda>g. g\<lparr>lg_outstanding := 0, lg_committing := True\<rparr>) s"
    using assms(2) h by (simp add: upd_lg_def)
  have fin: "runs (kbind (acquire LLog t) (\<lambda>_ s.
       kbind (wakeup (Some ChLog) (upd_lg (\<lambda>g. g\<lparr>lg_committing := False\<rparr>) s)) (\<lambda>_ s. release LLog s))) (\<lambda>_. Q)"
    if "idle_locks t \<and> Q (wakeup1 (Some ChLog) (upd_lg (\<lambda>g. g\<lparr>lg_committing := False\<rparr>) t))" for t
    using that by (simp add: idle_locks_def wakeup_ok)
  have "end_op s = kbind (commit (upd_lg (\<lambda>g. g\<lparr>lg_outstanding := 0, lg_committing := True\<rparr>) s)) (\<lambda>_ s.
       kbind (acquire LLog s) (\<lambda>_ s.
       kbind (wakeup (Some ChLog) (upd_lg (\<lambda>g. g\<lparr>lg_committing := False\<rparr>) s)) (\<lambda>_ s.
       release LLog s)))"
    using assms(2,3) h e unfolding end_op_def by (simp add: Let_def)
  then show ?thesis using c fin by (auto elim!: runs_mono)
qed

lemma end_op_more:
  assumes "idle_locks s" "1 < lg_outstanding (lg s)" "\<not> lg_committing (lg s)"
  shows "end_op s = Ok () (wakeup1 (Some ChLog) (upd_lg (\<lambda>g. g\<lparr>lg_outstanding := lg_outstanding g - 1\<rparr>) s))"
  using assms by (simp add: end_op_def Let_def idle_locks_def wakeup_ok)

text \<open>Waking processes does not touch the cache.\<close>

lemma cache_wakeup1 [simp]:
  "view (wakeup1 c s) = view s" "pinned (wakeup1 c s) = pinned s" "log_ok (wakeup1 c s) = log_ok s"
  "bproto (wakeup1 c s) {} = bproto s {}"
proof -
  have b: "bframe s (wakeup1 c s)" by simp
  have ca: "cached (wakeup1 c s) = cached s" by (intro ext) (simp add: cached_def)
  have inv: "bc_inv (wakeup1 c s) = bc_inv s" by (simp add: bc_inv_def buf_ok_def)
  show "view (wakeup1 c s) = view s" by (intro ext) (simp add: view_def)
  show pn: "pinned (wakeup1 c s) = pinned s" by (simp add: pinned_def ca dset_def)
  have hm: "home (wakeup1 c s) = home s" by (simp add: home_off_log)
  show "log_ok (wakeup1 c s) = log_ok s" by (simp add: log_ok_def log_geom_def logged_def pn hm)
  show "bproto (wakeup1 c s) {} = bproto s {}" by (simp add: bproto_def inv)
qed

lemma log_ok_upd_lg:
  assumes "lh_n (f (lg s)) = lh_n (lg s)" "lh_block (f (lg s)) = lh_block (lg s)"
    "lg_start (f (lg s)) = lg_start (lg s)" "lg_dev (f (lg s)) = lg_dev (lg s)"
    "lg_size (f (lg s)) = lg_size (lg s)"
  shows "log_ok (upd_lg f s) = log_ok s"
  using assms by (simp add: log_ok_def log_geom_def logged_def home_off_log)

text \<open>
  Group commit: the last \<open>end_op\<close> writes exactly the writes of the commit, after which no block is
  pinned, the log is empty and every block outside the log is on the disk as the kernel saw it.
\<close>

lemma commit_done:
  assumes P: "bproto s {}" and ok: "log_ok s"
  shows "runs (commit s) (\<lambda>_ t. bproto t {} \<and> log_ok t \<and> pinned t = {} \<and> lg t = (lg s)\<lparr>lh_n := 0\<rparr>
     \<and> dwrites t = dwrites s @ (if 0 < lh_n (lg s) then commit_writes s else [])
     \<and> (\<forall>m. home s m \<longrightarrow> disk t m = view s m \<and> view t m = view s m))"
proof (cases "0 < lh_n (lg s)")
  case False
  then have n: "lh_n (lg s) = 0" using log_okD(2)[OF ok] by simp
  then have "pinned s = {}" using log_okD(5)[OF ok] by (simp add: logged_def)
  moreover have "lg s = (lg s)\<lparr>lh_n := 0\<rparr>" using n by simp
  ultimately show ?thesis
    using P ok n view_unpinned[OF P] by (simp add: commit_def)
next
  case True
  let ?s0 = "upd_lg (\<lambda>g. g\<lparr>lh_n := 0\<rparr>) s"
  note D = log_okD[OF ok]
  show ?thesis
  proof (rule runs_mono[OF commit_spec[OF P ok True]])
    fix x t
    assume t: "did ?s0 (commit_writes s) {} t"
    have l: "lg t = (lg s)\<lparr>lh_n := 0\<rparr>" "disksize t = disksize s" using did_lg[OF t] by simp_all
    have df: "disk t = apply_writes (commit_writes s) (disk s)" "dwrites t = dwrites s @ commit_writes s"
      using dframeD(1,2)[OF didD(4)[OF t]] by simp_all
    have vw: "view t = disk t" using view_unpinned[OF didD(1)[OF t]] didD(3)[OF t] by auto
    have eq: "disk t m = view s m" if "home s m" for m
      using commit_writes_home[OF ok that, of "disk s"] view_unpinned[OF P, of m] by (simp add: df)
    have hz: "sint32 (get32 (disk t (lg_start (lg s))) 0) = 0"
    proof -
      have hn: "lg_start (lg s) \<notin> pinned s" by (rule header_unpinned[OF D(1,6) start_in_area])
      have "length (view s (lg_start (lg s))) = BSIZE"
        using view_unpinned[OF P hn] bprotoD(2)[OF P] D(1)
        by (simp add: bc_inv_def log_geom_def param_defs)
      then have "length (commit_header s) = BSIZE" by (simp add: commit_header_def)
      from head_img_n[OF this, of 0] show ?thesis
        by (simp add: df commit_writes_def)
    qed
    have "log_ok t"
      using D(1) hz by (simp add: log_ok_def didD(3)[OF t] logged_def log_geom_def l param_defs)
    then show "bproto t {} \<and> log_ok t \<and> pinned t = {} \<and> lg t = (lg s)\<lparr>lh_n := 0\<rparr>
     \<and> dwrites t = dwrites s @ (if 0 < lh_n (lg s) then commit_writes s else [])
     \<and> (\<forall>m. home s m \<longrightarrow> disk t m = view s m \<and> view t m = view s m)"
      using didD(1,3)[OF t] l df(2) True eq vw by simp
  qed
qed

end
