(* ===== verification/Boot.thy ===== *)
theory Boot
  imports LogOps
begin

text \<open>
  The kernel at boot: the zeroed static storage with one process running, a disk, and the buffer
  cache after \<open>binit\<close>. It satisfies the preconditions of \<open>initlog\<close>.
\<close>

definition zero_buf :: buf where
  "zero_buf = \<lparr>b_valid = False, b_dirty = False, b_dev = 0, b_blockno = 0, b_lock = free_lock,
     b_refcnt = 0, b_data = replicate BSIZE 0\<rparr>"

definition zero_log :: logrec where
  "zero_log = \<lparr>lg_start = 0, lg_size = 0, lg_outstanding = 0, lg_committing = False, lg_dev = 0,
     lh_n = 0, lh_block = replicate LOGSIZE 0\<rparr>"

definition zero_inode :: inode where
  "zero_inode = \<lparr>i_dev = 0, i_inum = 0, i_ref = 0, i_lock = free_lock, i_valid = False, i_type = 0,
     i_major = 0, i_minor = 0, i_nlink = 0, i_size = 0, i_addrs = replicate 13 0\<rparr>"

definition zero_file :: kfile where
  "zero_file = \<lparr>f_type = FD_NONE, f_ref = 0, f_readable = False, f_writable = False, f_pipe = 0,
     f_ip = 0, f_off = 0\<rparr>"

definition zero_pipe :: pipe where
  "zero_pipe = \<lparr>p_data = replicate 512 0, p_nread = 0, p_nwrite = 0, p_readopen = False, p_writeopen = False\<rparr>"

text \<open>The first process, running \<open>forkret\<close> on a disk \<open>d\<close> of \<open>n\<close> blocks.\<close>

definition kernel0 :: "(nat \<Rightarrow> block) \<Rightarrow> nat \<Rightarrow> kst" where
  "kernel0 d n = \<lparr>held = [], curproc = Some 0,
     procs = zero_proc\<lparr>state := RUNNING, pid := 1\<rparr> # replicate (NPROC - 1) zero_proc,
     arrq = [(replicate NPROC None)[0 := Some 0], replicate NPROC None, replicate NPROC None], q_size = [0, - 1, - 1],
     stab = (replicate NPROC SNull)[0 := SMlfq], stable_size = 0, mlfq = \<lparr>mshare = 100, mpass = 0\<rparr>, min_pass = 0,
     initproc = Some 0, nextpid = 2, ticks = 0, mlfq_ticks = 0, time_quantom = [1, 2, 4, 0, 0, 0, 0, 0, 0, 5],
     time_allot = [5, 10, 0, 0, 0, 0, 0, 0, 0, 5], freelist = 0,
     kend = 0x80115000, kdata = 0x80108000, kpgdir = 0, cr3 = 0, first_ret = True, use_lock = True, bufs = replicate NBUF zero_buf, mru = [], disk = d,
     disksize = n, dwrites = [], lg = zero_log,
     sb = \<lparr>sb_size = 0, sb_nblocks = 0, sb_ninodes = 0, sb_nlog = 0, sb_logstart = 0, sb_inodestart = 0,
       sb_bmapstart = 0\<rparr>,
     inodes = replicate NINODE zero_inode, files = replicate NFILE zero_file,
     pipes = (\<lambda>_. zero_pipe), devsw = replicate NDEV False, in_buf = replicate 128 0, in_r = 0, in_w = 0,
     in_e = 0, pmem = (\<lambda>_. 0)\<rparr>"

text \<open>\<open>binit\<close> leaves the buffers as they are and links all of them into the list.\<close>

lemma binit_fold:
  assumes "\<forall>i < NBUF. b_lock (bufs s ! i) = free_lock" "length (bufs s) = NBUF" "n \<le> NBUF"
  shows "foldl (\<lambda>s b. (initsleeplock (SBuf b) s)\<lparr>mru := b # mru s\<rparr>) (s\<lparr>mru := []\<rparr>) [0..<n]
    = s\<lparr>mru := rev [0..<n]\<rparr>"
  using assms(3)
proof (induction n)
  case (Suc n)
  have "(bufs s ! n)\<lparr>b_lock := free_lock\<rparr> = bufs s ! n"
    using assms(1) Suc.prems by (intro buf.equality) simp_all
  then have "initsleeplock (SBuf n) (s\<lparr>mru := rev [0..<n]\<rparr>) = s\<lparr>mru := rev [0..<n]\<rparr>"
    by (simp add: initsleeplock_def upd_buf_def)
  then show ?case using Suc by simp
qed simp

lemma binit_kernel0: "binit (kernel0 d n) = (kernel0 d n)\<lparr>mru := rev [0..<NBUF]\<rparr>"
  unfolding binit_def by (rule binit_fold) (simp_all add: kernel0_def zero_buf_def)

lemma booted_binit:
  assumes "\<And>m. m < n \<Longrightarrow> length (d m) = BSIZE" "1 < n" "n < 2 ^ 31"
  shows "booted (binit (kernel0 d n))"
proof -
  let ?s = "(kernel0 d n)\<lparr>mru := rev [0..<NBUF]\<rparr>"
  have nth: "i < NBUF \<Longrightarrow> bufs ?s ! i = zero_buf" for i by (simp add: kernel0_def)
  have "buf_ok ?s zero_buf" by (simp add: buf_ok_def zero_buf_def free_lock_def)
  then have inv: "bc_inv ?s"
    unfolding bc_inv_def using assms(1) nth by (auto simp: kernel0_def zero_buf_def)
  have "bproto ?s {}"
    unfolding bproto_def using inv nth by (simp add: idle_locks_def zero_buf_def) (simp add: kernel0_def)
  moreover have "pinned ?s = {}"
    using nth by (auto simp: pinned_def dset_def zero_buf_def)
  ultimately show ?thesis
    unfolding booted_def binit_kernel0 using assms(2,3) by (simp add: kernel0_def zero_log_def)
qed

subsection \<open>An example disk\<close>

text \<open>A disk of 1000 zero blocks whose superblock puts a log of 120 blocks at block 2.\<close>

definition sb_example :: block where
  "sb_example = put32 24 151 (put32 20 122 (put32 16 2 (put32 12 120 (put32 8 200 (put32 4 846
     (put32 0 1000 (replicate BSIZE 0)))))))"

definition disk_example :: "nat \<Rightarrow> block" where
  "disk_example m = (if m = 1 then sb_example else replicate BSIZE 0)"

lemma disk_example_len [simp]: "length (disk_example m) = BSIZE"
  by (simp add: disk_example_def sb_example_def)

lemma disk_example_sb: "sb_log disk_example 1000 2"
  by (simp add: sb_log_def disk_example_def sb_example_def dec_sb_def get32_put32 get32_put32_other param_defs)

lemma zero_get32 [simp]: "i + 4 \<le> n \<Longrightarrow> get32 (replicate n 0) i = 0"
  by (simp add: get32_def get16_def)

definition boot_example :: kst where
  "boot_example = binit (kernel0 disk_example 1000)"

lemma booted_example: "booted boot_example"
  unfolding boot_example_def by (rule booted_binit) simp_all

lemma boot_example_simps [simp]:
  "disk boot_example = disk_example" "disksize boot_example = 1000"
  "lg boot_example = zero_log" "dwrites boot_example = []"
  by (simp_all add: boot_example_def binit_kernel0) (simp_all add: kernel0_def)

text \<open>After \<open>initlog\<close> the log is empty and ready.\<close>

lemma initlog_example:
  "runs (initlog 1 boot_example) (\<lambda>_ u. bproto u {} \<and> log_ok u \<and> pinned u = {} \<and> lg_start (lg u) = 2
     \<and> (\<forall>m. off_log 1000 2 m \<longrightarrow> disk u m = disk_example m))"
proof -
  have z: "get32 (disk_example 2) 0 = 0" by (simp add: disk_example_def BSIZE_def)
  have "recov 2 disk_example = disk_example"
    by (rule recov_empty) (simp add: z sint32_def)
  then show ?thesis
    using initlog_spec[OF booted_example, of 2] disk_example_sb
    by (simp add: z sint32_def head_count_def param_defs)
qed

subsection \<open>An example transaction\<close>

text \<open>The kernel with the log of the example disk, and a call of a process that modifies block 500.\<close>

definition log_example :: logrec where
  "log_example = zero_log\<lparr>lg_start := 2, lg_size := 120, lg_dev := 1\<rparr>"

definition mounted_example :: kst where
  "mounted_example = upd_lg (\<lambda>_. log_example) boot_example"

definition write_example :: "kst \<Rightarrow> unit kres" where
  "write_example s = kbind (begin_op s) (\<lambda>_ s.
     kbind (bread 1 500 s) (\<lambda>b s.
     kbind (log_write b (upd_buf b (\<lambda>x. x\<lparr>b_data := replicate BSIZE 7\<rparr>) s)) (\<lambda>_ s.
     brelse b s)))"

lemma mounted_example_ok:
  "bproto mounted_example {}" "log_ok mounted_example" "pinned mounted_example = {}"
  "log_room mounted_example" "view mounted_example = disk_example"
proof -
  show b: "bproto mounted_example {}" and p: "pinned mounted_example = {}"
    using booted_example by (simp_all add: mounted_example_def booted_def)
  have "get32 (disk_example 2) 0 = 0" by (simp add: disk_example_def BSIZE_def)
  then show "log_ok mounted_example"
    by (simp add: log_ok_def p logged_def log_geom_def)
      (simp add: mounted_example_def log_example_def zero_log_def sint32_def param_defs)
  show "log_room mounted_example"
    by (simp add: log_room_def mounted_example_def log_example_def zero_log_def param_defs)
  have "view mounted_example m = disk mounted_example m" for m using view_unpinned[OF b] p by simp
  then show "view mounted_example = disk_example" by (auto simp: mounted_example_def)
qed

lemma txn_example:
  "runs (write_example mounted_example) (\<lambda>_ s. bproto s {} \<and> log_ok s \<and> logged s = [500]
     \<and> pinned s = {500} \<and> lh_n (lg s) = 1 \<and> lg_start (lg s) = 2 \<and> lg_outstanding (lg s) = 1
     \<and> \<not> lg_committing (lg s) \<and> disk s = disk_example \<and> disksize s = 1000 \<and> dwrites s = []
     \<and> view s 500 = replicate BSIZE 7)"
proof -
  let ?f = "\<lambda>g. g\<lparr>lg_outstanding := lg_outstanding g + 1\<rparr>"
  let ?s = "upd_lg ?f mounted_example"
  note M = mounted_example_ok
  have bo: "begin_op mounted_example = Ok () ?s" by (rule begin_op_room[OF bprotoD(1)[OF M(1)] M(4)])
  have P: "bproto ?s {}" and pn: "pinned ?s = {}" and vw: "view ?s = disk_example" using M by simp_all
  have ok: "log_ok ?s" using M(2) by (subst log_ok_upd_lg) simp_all
  have l: "lg ?s = log_example\<lparr>lg_outstanding := 1\<rparr>" "disksize ?s = 1000" "disk ?s = disk_example"
    "dwrites ?s = []" "logged ?s = []"
    by (simp_all add: mounted_example_def log_example_def zero_log_def logged_def)
  have rd: "ready ?s {} 500" by (rule ready_pinned_empty[OF P pn]) (simp only: l; simp)
  show ?thesis
    unfolding write_example_def bo kbind_simps runs_kbind
  proof (rule runs_mono[OF bread_blk[OF P rd]], elim conjE)
    fix b t
    assume A: "bproto t {b}" and hb: "holds t b 500 (view ?s 500)" and bf: "bframe ?s t"
      and vt: "view t = view ?s" and pt: "pinned t = pinned ?s"
    let ?y = "replicate BSIZE 7 :: block"
    let ?u = "upd_buf b (\<lambda>x. x\<lparr>b_data := ?y\<rparr>) t"
    have y: "length ?y = BSIZE" by simp
    note sd = set_data_proto[OF A insertI1 hb y]
    have ut: "bframe ?s ?u" by (rule bframe_trans[OF bf bframe_upd_buf])
    note fr = bframeD[OF ut]
    have pu: "pinned ?u = {}" using set_data_pinned[OF A insertI1 hb y] pt pn by simp
    have oku: "log_ok ?u"
      using ok pu pn fr by (simp add: log_ok_def log_geom_def logged_def)
    have lu: "lg ?u = lg ?s" "disksize ?u = 1000" "disk ?u = disk_example" "dwrites ?u = []"
      using fr l by simp_all
    have hm: "home ?u 500" unfolding home_off_log off_log_def lu l
      by (simp add: log_example_def param_defs)
    have n1: "lh_n (lg ?u) < int LOGSIZE - 1" "1 \<le> lg_outstanding (lg ?u)"
      unfolding lu l by (simp_all add: log_example_def zero_log_def param_defs)
    have lgu: "logged ?u = []" using l(5) by (simp only: logged_def lu(1))
    note W = log_write_spec[OF sd(1) oku n1 insertI1 sd(2) hm]
    show "runs (log_write b ?u) (\<lambda>_ t. runs (brelse b t) (\<lambda>_ s. bproto s {} \<and> log_ok s \<and> logged s = [500]
     \<and> pinned s = {500} \<and> lh_n (lg s) = 1 \<and> lg_start (lg s) = 2 \<and> lg_outstanding (lg s) = 1
     \<and> \<not> lg_committing (lg s) \<and> disk s = disk_example \<and> disksize s = 1000 \<and> dwrites s = []
     \<and> view s 500 = replicate BSIZE 7))"
    proof (rule runs_mono[OF W], elim conjE)
      fix x v
      assume P2: "bproto v {b}" and ok2: "log_ok v" and v2: "view v = view ?u" and h2: "holds v b 500 ?y"
        and c2: "coh v b 500" and p2: "pinned v = insert 500 (pinned ?u)"
        and l2: "logged v = log_absorb 500 (logged ?u)" and o2: "lg_outstanding (lg v) = lg_outstanding (lg ?u)"
        and s2: "lg_start (lg v) = lg_start (lg ?u)" and m2: "lg_committing (lg v) = lg_committing (lg ?u)"
        and f2: "bframe (upd_lg (\<lambda>_. lg v) ?u) v"
      show "runs (brelse b v) (\<lambda>_ s. bproto s {} \<and> log_ok s \<and> logged s = [500]
     \<and> pinned s = {500} \<and> lh_n (lg s) = 1 \<and> lg_start (lg s) = 2 \<and> lg_outstanding (lg s) = 1
     \<and> \<not> lg_committing (lg s) \<and> disk s = disk_example \<and> disksize s = 1000 \<and> dwrites s = []
     \<and> view s 500 = replicate BSIZE 7)"
      proof (rule runs_mono[OF brelse_blk[OF P2 insertI1 h2 c2]], elim conjE)
        fix y w
        assume P3: "bproto w ({b} - {b})" and v3: "view w = view v" and f3: "bframe v w"
          and p3: "pinned w = pinned v"
        note fw = bframeD[OF f3] and fv = bframeD[OF f2]
        have lw: "logged w = [500]" using l2 unfolding lgu by (simp add: logged_def fw log_absorb_def)
        have okw: "log_ok w" using ok2 p3 fw by (simp add: log_ok_def log_geom_def logged_def home_off_log)
        have nw: "lh_n (lg w) = 1"
          using lw log_okD(2,7)[OF okw] by simp
        have "lg_start (lg w) = 2" "lg_outstanding (lg w) = 1" "\<not> lg_committing (lg w)"
          unfolding fw s2 o2 m2 lu l by (simp_all add: log_example_def zero_log_def)
        moreover have "view w 500 = ?y" unfolding v3 v2 sd(3) by simp
        moreover have "disk w = disk_example \<and> disksize w = 1000 \<and> dwrites w = []"
          unfolding fw fv(1,2,10) upd_lg_simps(3,4,10) lu by simp
        moreover have "pinned w = {500}" unfolding p3 p2 pu by simp
        ultimately show "bproto w {} \<and> log_ok w \<and> logged w = [500]
     \<and> pinned w = {500} \<and> lh_n (lg w) = 1 \<and> lg_start (lg w) = 2 \<and> lg_outstanding (lg w) = 1
     \<and> \<not> lg_committing (lg w) \<and> disk w = disk_example \<and> disksize w = 1000 \<and> dwrites w = []
     \<and> view w 500 = replicate BSIZE 7"
          using P3 okw lw nw by simp
      qed
    qed
  qed
qed

end
