(* ===== verification/StorageProps.thy ===== *)
theory StorageProps
  imports Boot
begin

text \<open>
  The properties of the storage stack: sleep locks, buffer cache, log.
\<close>

lemma runs_Ok_eq: "m = Ok x s \<Longrightarrow> runs m Q \<Longrightarrow> Q x s"
  by simp

text \<open>
  C1. A crash during a commit is atomic. Let the process that ends the last transaction commit it,
  and let the machine crash after any prefix \<open>W1\<close> of the disk writes of the commit reached the disk.
  Then \<open>initlog\<close> of the next boot returns, with an empty log, and either every block outside the log
  has on the disk the content it had before the transaction, or every one has the content the
  transaction gave it. Nothing in between is possible.
\<close>
theorem commit_crash_atomic:
  assumes "bproto s {}" "log_ok s" "0 < lh_n (lg s)"
    and "sb_log (disk s) (disksize s) (lg_start (lg s))"
    and "commit s = Ok () t" "dwrites t = dwrites s @ W1 @ W2"
    and "booted r" "disk r = apply_writes W1 (disk s)" "disksize r = disksize s"
  shows "runs (initlog 1 r) (\<lambda>_ u. log_ok u \<and> pinned u = {}
     \<and> ((\<forall>m. home s m \<longrightarrow> disk u m = disk s m) \<or> (\<forall>m. home s m \<longrightarrow> disk u m = view s m)))"
proof -
  have "did (upd_lg (\<lambda>g. g\<lparr>lh_n := 0\<rparr>) s) (commit_writes s) {} t"
    using runs_Ok_eq[OF assms(5) commit_spec[OF assms(1-3)]] .
  then have "dwrites t = dwrites s @ commit_writes s" by (auto simp: did_def dest: dframeD)
  then have "commit_writes s = W1 @ W2" using assms(6) by simp
  then show ?thesis by (rule crash_reboot[OF assms(1,2,4) _ assms(7-9)])
qed

text \<open>A crash after the header reached the disk and before the home blocks did.\<close>

theorem commit_crash_atomic_witness:
  "\<exists>s t r u. commit s = Ok () t \<and> logged s = [500] \<and> view s 500 \<noteq> disk s 500
     \<and> length (dwrites t) = 4 \<and> disk r = apply_writes (take 2 (dwrites t)) (disk s)
     \<and> initlog 1 r = Ok () u \<and> log_ok u
     \<and> ((\<forall>m. home s m \<longrightarrow> disk u m = disk s m) \<or> (\<forall>m. home s m \<longrightarrow> disk u m = view s m))"
proof -
  obtain s where s: "bproto s {}" "log_ok s" "logged s = [500]" "lh_n (lg s) = 1" "lg_start (lg s) = 2"
    "disk s = disk_example" "disksize s = 1000" "dwrites s = []" "view s 500 = replicate BSIZE 7"
    using txn_example by (auto elim!: runsE)
  have n: "0 < lh_n (lg s)" using s(4) by simp
  have sl: "sb_log (disk s) (disksize s) (lg_start (lg s))" using disk_example_sb s by simp
  obtain t where t: "commit s = Ok () t" "dwrites t = commit_writes s"
    using commit_done[OF s(1,2)] n s(8) by (auto elim!: runsE)
  have len: "length (commit_writes s) = 4"
    using s(3,4) by (simp add: commit_writes_def log_copies_def home_writes_def)
  define r where "r = binit (kernel0 (apply_writes (take 2 (commit_writes s)) disk_example) 1000)"
  have wl: "length x = BSIZE" if "(m, x) \<in> set (commit_writes s)" "m < 1000" for m x
  proof -
    have "length (view s k) = BSIZE" if "k < 1000" for k
    proof (cases "k \<in> pinned s")
      case True
      then have "k = 500" using log_okD(5)[OF s(2)] s(3) by auto
      then show ?thesis using s(9) by simp
    next
      case False
      then show ?thesis using view_unpinned[OF s(1)] s(6) by simp
    qed
    moreover have "\<forall>k \<in> {0}. lh_block (lg s) ! k = 500"
      using log_okD(9)[OF s(2), of 0] s(3,4) by simp
    ultimately show ?thesis using that s(3,4,5)
      by (auto simp: commit_writes_def log_copies_def home_writes_def commit_header_def)
  qed
  have "length (apply_writes ws disk_example m) = BSIZE" if "set ws \<subseteq> set (commit_writes s)" "m < 1000" for ws m
    using that(1)
  proof (induction ws rule: rev_induct)
    case (snoc w ws)
    then show ?case using wl that(2) by (cases w) auto
  qed simp
  then have b: "booted r"
    unfolding r_def by (intro booted_binit) (simp_all add: set_take_subset)
  have dk: "disk r = apply_writes (take 2 (commit_writes s)) (disk s)" "disksize r = disksize s"
    by (simp_all add: r_def binit_kernel0 s(6,7)) (simp_all add: kernel0_def)
  have W: "dwrites t = dwrites s @ take 2 (commit_writes s) @ drop 2 (commit_writes s)"
    using s(8) t(2) by simp
  from commit_crash_atomic[OF s(1,2) n sl t(1) W b dk] obtain u where
    "initlog 1 r = Ok () u" "log_ok u"
    "(\<forall>m. home s m \<longrightarrow> disk u m = disk s m) \<or> (\<forall>m. home s m \<longrightarrow> disk u m = view s m)"
    by (auto simp: runs_iff)
  moreover have "view s 500 \<noteq> disk s 500"
    by (simp add: s(6,9) disk_example_def BSIZE_def)
  ultimately show ?thesis using t s(3) len dk(1) by (intro exI[of _ s] exI[of _ t] exI[of _ r] exI[of _ u]) simp
qed

text \<open>
  C4. The last \<open>end_op\<close> of a group commits it: it returns with an empty log and no pinned buffer, its
  disk writes are exactly the log copies, the header, the home blocks and the cleared header in this
  order (nothing when the group logged nothing), and every block outside the log is then on the disk
  as the calls of the group left it.
\<close>
theorem end_op_commits:
  assumes "bproto s {}" "log_ok s" "lg_outstanding (lg s) = 1" "\<not> lg_committing (lg s)"
  shows "runs (end_op s) (\<lambda>_ t. bproto t {} \<and> log_ok t \<and> pinned t = {} \<and> logged t = []
     \<and> lg_outstanding (lg t) = 0 \<and> \<not> lg_committing (lg t)
     \<and> dwrites t = dwrites s @ (if logged s = [] then [] else commit_writes s)
     \<and> (\<forall>m. home s m \<longrightarrow> disk t m = view s m \<and> view t m = view s m))"
proof (rule end_op_last[OF bprotoD(1)[OF assms(1)] assms(3,4)])
  let ?u = "upd_lg (\<lambda>g. g\<lparr>lg_outstanding := 0, lg_committing := True\<rparr>) s"
  let ?v = "\<lambda>t. wakeup1 (Some ChLog) (upd_lg (\<lambda>g. g\<lparr>lg_committing := False\<rparr>) t)"
  have P: "bproto ?u {}" and ok: "log_ok ?u"
    using assms(1,2) by (simp_all add: log_ok_upd_lg)
  have lw: "0 < lh_n (lg s) \<longleftrightarrow> logged s \<noteq> []"
    using log_okD(7)[OF assms(2)] length_0_conv[of "logged s"] by linarith
  have cw: "commit_writes ?u = commit_writes s"
    by (simp add: commit_writes_def log_copies_def commit_header_def home_writes_def logged_def)
  have hm: "home ?u = home s" by (simp add: home_off_log)
  show "runs (commit ?u) (\<lambda>_ t. idle_locks t \<and> (bproto (?v t) {} \<and> log_ok (?v t) \<and> pinned (?v t) = {}
     \<and> logged (?v t) = [] \<and> lg_outstanding (lg (?v t)) = 0 \<and> \<not> lg_committing (lg (?v t))
     \<and> dwrites (?v t) = dwrites s @ (if logged s = [] then [] else commit_writes s)
     \<and> (\<forall>m. home s m \<longrightarrow> disk (?v t) m = view s m \<and> view (?v t) m = view s m)))"
    by (rule runs_mono[OF commit_done[OF P ok]], elim conjE)
      (simp add: bprotoD(1) log_ok_upd_lg logged_def lw[unfolded logged_def] cw hm)
qed

theorem end_op_commits_witness:
  "\<exists>s t. end_op s = Ok () t \<and> logged s = [500] \<and> disk t 500 = replicate BSIZE 7
     \<and> disk s 500 \<noteq> disk t 500"
proof -
  obtain s where s: "bproto s {}" "log_ok s" "lg_outstanding (lg s) = 1" "\<not> lg_committing (lg s)"
    "logged s = [500]" "disk s = disk_example" "view s 500 = replicate BSIZE 7"
    using txn_example by (auto elim!: runsE)
  have "500 \<in> pinned s" using log_okD(5)[OF s(2)] s(5) by auto
  then have h: "home s 500" using log_okD(6)[OF s(2)] by blast
  from end_op_commits[OF s(1-4)] h obtain t where "end_op s = Ok () t" "disk t 500 = view s 500"
    by (auto elim!: runsE)
  then show ?thesis
    using s by (intro exI[of _ s] exI[of _ t]) (simp add: disk_example_def BSIZE_def)
qed

text \<open>
  C5. \<open>log_write\<close> of a held buffer of a block outside the log, inside a transaction with room in the
  log, records the block exactly once (a block already in the transaction is absorbed), pins its
  buffer, and keeps the invariant of the log, the content of every block, the other buffers and the
  reservations.
\<close>
theorem log_write_absorbs:
  assumes "bproto s H" "log_ok s" "lh_n (lg s) < int LOGSIZE - 1" "1 \<le> lg_outstanding (lg s)"
    and "i \<in> H" "holds s i m d" "home s m"
  shows "runs (log_write i s) (\<lambda>_ t. bproto t H \<and> log_ok t \<and> view t = view s \<and> holds t i m d
     \<and> pinned t = insert m (pinned s)
     \<and> logged t = (if m \<in> set (logged s) then logged s else logged s @ [m])
     \<and> lg_outstanding (lg t) = lg_outstanding (lg s) \<and> (\<forall>j. j \<noteq> i \<longrightarrow> bufs t ! j = bufs s ! j))"
  by (rule runs_mono[OF log_write_spec[OF assms]]) (simp add: log_absorb_def)

theorem log_write_absorbs_witness:
  "\<exists>s i t. log_write i s = Ok () t \<and> logged s = [500] \<and> logged t = [500]"
proof -
  obtain s where s: "bproto s {}" "log_ok s" "logged s = [500]" "lh_n (lg s) = 1" "lg_outstanding (lg s) = 1"
    "disksize s = 1000"
    using txn_example by (auto elim!: runsE)
  have p: "500 \<in> pinned s" using log_okD(5)[OF s(2)] s(3) by auto
  have rd: "ready s {} 500" using p s(6) by (simp add: ready_def)
  obtain i t where t: "bproto t {i}" "holds t i 500 (view s 500)" "pinned t = pinned s" "bframe s t"
    using bread_blk[OF s(1) rd] by (auto elim!: runsE)
  note f = bframeD[OF t(4)]
  have ok: "log_ok t" using s(2) f t(3) by (simp add: log_ok_def log_geom_def logged_def home_off_log)
  have h: "home t 500" using log_okD(6)[OF ok] p t(3) by simp
  have n: "lh_n (lg t) < int LOGSIZE - 1" "1 \<le> lg_outstanding (lg t)" using s f by (simp_all add: param_defs)
  have l: "logged t = [500]" using s(3) f by (simp add: logged_def)
  show ?thesis
    using log_write_absorbs[OF t(1) ok n insertI1 t(2) h] l by (auto simp: runs_iff)
qed

text \<open>
  \<open>begin_op\<close> reserves \<open>MAXOPBLOCKS\<close> log blocks when no commit is running and the log has them for
  one more call; otherwise it goes to sleep on the log with only \<open>ptable.lock\<close> held, and has
  reserved nothing.
\<close>
theorem begin_op_reserves:
  assumes "idle_locks s"
  shows "if log_room s
    then begin_op s = Ok () (upd_lg (\<lambda>g. g\<lparr>lg_outstanding := lg_outstanding g + 1\<rparr>) s)
    else \<exists>p t. curproc s = Some p \<and> begin_op s = Sched t \<and> held t = [LPtable] \<and> lg t = lg s
      \<and> state (procs t ! p) = SLEEPING \<and> chan (procs t ! p) = Some ChLog"
proof (cases "log_room s")
  case False
  then obtain p where p: "curproc s = Some p" "begin_op s = Sched (upd_proc p
     (\<lambda>q. q\<lparr>chan := Some ChLog, state := SLEEPING\<rparr>) (s\<lparr>held := [LPtable]\<rparr>))"
    by (rule begin_op_full[OF assms])
  then have "p < length (procs s)" using assms by (auto simp: idle_locks_def)
  with p False show ?thesis by (simp add: upd_proc_def)
qed (simp add: begin_op_room[OF assms])

theorem begin_op_reserves_witness:
  "log_room mounted_example \<and> begin_op mounted_example
     = Ok () (upd_lg (\<lambda>g. g\<lparr>lg_outstanding := lg_outstanding g + 1\<rparr>) mounted_example)"
  using begin_op_reserves[OF bprotoD(1)[OF mounted_example_ok(1)]] mounted_example_ok(4) by simp

text \<open>Another holder has the buffer of block \<open>n\<close>; there is no buffer for block \<open>n\<close>.\<close>

definition buf_busy :: "kst \<Rightarrow> nat \<Rightarrow> bool" where
  "buf_busy s n \<longleftrightarrow> (\<exists>i. cached s i n \<and> sl_locked (b_lock (bufs s ! i)))"

definition no_buffer :: "kst \<Rightarrow> nat \<Rightarrow> bool" where
  "no_buffer s n \<longleftrightarrow> (\<forall>i. \<not> cached s i n) \<and> (\<forall>i. \<not> buf_free s i)"

lemma can_read_cases:
  assumes "bc_inv s" "n < disksize s"
  shows "can_read s n \<longleftrightarrow> \<not> buf_busy s n \<and> \<not> no_buffer s n"
  using assms(2) cached_unique[OF assms(1)] unfolding can_read_def buf_busy_def no_buffer_def by blast

lemma find_append_None: "List.find P xs = None \<Longrightarrow> List.find P (xs @ ys) = List.find P ys"
  by (induction xs) (auto split: if_split_asm)

text \<open>
  C10. \<open>bread\<close> of a block of the disk. When the block is cached and unlocked, or uncached with a buffer
  to recycle, it returns a locked buffer with the content of the block, keeps the invariant of the
  cache and the content of every block, and changes no other buffer; a dirty buffer is never recycled.
  When another process holds the buffer the caller goes to sleep, and when every buffer is in use or
  dirty the kernel panics.
\<close>
theorem bread_outcomes:
  assumes "idle_locks s" "bc_inv s" "n < disksize s"
  shows "if buf_busy s n then \<exists>t. bread 1 n s = Sched t
    else if no_buffer s n then bread 1 n s = Panic ''bget: no buffers''
    else runs (bread 1 n s) (\<lambda>i t. idle_locks t \<and> bc_inv t \<and> holds t i n (view s n) \<and> view t = view s
      \<and> (\<forall>j. j \<noteq> i \<longrightarrow> bufs t ! j = bufs s ! j) \<and> (cached s i n \<or> \<not> b_dirty (bufs s ! i)))"
proof -
  have h: "held s = []" using assms(1) by (simp add: idle_locks_def)
  note cr = can_read_cases[OF assms(2,3)]
  consider (busy) i where "buf_busy s n" "cached s i n" "sl_locked (b_lock (bufs s ! i))"
    | (none) "\<not> buf_busy s n" "no_buffer s n" "\<forall>i. \<not> cached s i n" "\<forall>i. \<not> buf_free s i"
    | (ok) "can_read s n" "\<not> buf_busy s n" "\<not> no_buffer s n"
    using cr unfolding buf_busy_def no_buffer_def by blast
  then show ?thesis
  proof cases
    case busy
    have i: "i < length (bufs s)" using busy(2) bc_inv_len[OF assms(2)] by (simp add: cached_def)
    obtain p where p: "curproc s = Some p" "p < length (procs s)" using assms(1) by (auto simp: idle_locks_def)
    have hit: "buf_hit 1 n (s\<lparr>held := [LBcache]\<rparr>) = Some i"
      using buf_hit_cached[OF assms(2) busy(2)] by (simp add: buf_hit_def)
    let ?u = "upd_buf i (\<lambda>b. b\<lparr>b_refcnt := uadd (b_refcnt b) 1\<rparr>) s"
    have "\<exists>t. acquiresleep (SBuf i) ?u = Sched t"
      using acquiresleep_busy[of ?u p "SBuf i"] h p i busy(3) by simp
    then have "\<exists>t. bread 1 n s = Sched t"
      using hit h i by (auto simp: bread_def bget_def)
    then show ?thesis using busy(1) by simp
  next
    case none
    have mr: "\<forall>x \<in> set (mru s). x < NBUF" using bc_inv_mru[OF assms(2)] by simp
    have "buf_hit 1 n (s\<lparr>held := [LBcache]\<rparr>) = None"
      using buf_hit_None[OF assms(2), of n] none(3) by (simp add: buf_hit_def)
    moreover have "buf_victim (s\<lparr>held := [LBcache]\<rparr>) = None"
      using none(4) mr by (auto simp: buf_victim_def find_None buf_free_def)
    ultimately have "bread 1 n s = Panic ''bget: no buffers''"
      using h by (simp add: bread_def bget_def)
    then show ?thesis using none(1,2) by simp
  next
    case ok
    have "runs (bread 1 n s) (\<lambda>i t. idle_locks t \<and> bc_inv t \<and> holds t i n (view s n)
      \<and> view t = view s \<and> (\<forall>j. j \<noteq> i \<longrightarrow> bufs t ! j = bufs s ! j) \<and> (cached s i n \<or> \<not> b_dirty (bufs s ! i)))"
      by (rule runs_mono[OF bread_runs[OF assms(1,2) ok(1)]], elim conjE) (simp add: buf_free_def, blast)
    then show ?thesis using ok(2,3) by simp
  qed
qed

theorem bread_outcomes_witness:
  "\<exists>i t. bread 1 1 mounted_example = Ok i t \<and> holds t i 1 sb_example \<and> view t = disk_example"
proof -
  note M = mounted_example_ok
  note D = bprotoD[OF M(1)]
  have b: "1 < disksize mounted_example" by (simp add: mounted_example_def)
  have c: "can_read mounted_example 1"
    by (rule roomy_can_read[OF M(1)]) (rule ready_roomy[OF M(1) ready_pinned_empty[OF M(1,3) b]])
  then have "\<not> buf_busy mounted_example 1" "\<not> no_buffer mounted_example 1"
    using can_read_cases[OF D(2) b] by simp_all
  then show ?thesis
    using bread_outcomes[OF D(1,2) b] M(5) by (auto simp: runs_iff disk_example_def)
qed

text \<open>
  \<open>bget\<close> recycles the least recently used buffer: when the block is not cached, the buffer it
  takes is the last one in the list, from most to least recently used, that is unused and clean.
\<close>
theorem bget_recycles_lru:
  assumes "idle_locks s" "bc_inv s" "\<forall>i. \<not> cached s i n"
    and "mru s = xs @ i # ys" "buf_free s i" "\<forall>j \<in> set ys. \<not> buf_free s j"
  shows "\<exists>t. bget 1 n s = Ok i t \<and> cached t i n \<and> \<not> b_valid (bufs t ! i) \<and> owns t i
    \<and> b_refcnt (bufs t ! i) = 1 \<and> (\<forall>j. j \<noteq> i \<longrightarrow> bufs t ! j = bufs s ! j) \<and> mru t = mru s"
proof -
  have mr: "j \<in> set (mru s) \<Longrightarrow> j < NBUF" for j using bc_inv_mru[OF assms(2)] by simp
  have "List.find (\<lambda>j. b_refcnt (bufs s ! j) = 0 \<and> \<not> b_dirty (bufs s ! j)) (rev ys) = None"
    using assms(4,6) mr by (auto simp: find_None buf_free_def)
  then have v: "buf_victim s = Some i"
    using assms(4,5) by (simp add: buf_victim_def find_append_None buf_free_def)
  have i: "i < length (bufs s)" "i < NBUF" using assms(2,5) by (simp_all add: bc_inv_len buf_free_def)
  show ?thesis
    unfolding bget_miss[OF assms(1-3) v] using i by (simp add: cached_def owns_def)
qed

theorem bget_recycles_lru_witness:
  "\<exists>t. bget 1 500 mounted_example = Ok 0 t \<and> cached t 0 500"
proof -
  note D = bprotoD[OF mounted_example_ok(1)]
  have z: "bufs mounted_example = replicate NBUF zero_buf"
    by (simp add: mounted_example_def boot_example_def binit_kernel0) (simp add: kernel0_def)
  have f: "buf_free mounted_example 0" by (simp add: buf_free_def z zero_buf_def param_defs)
  have c: "\<forall>i. \<not> cached mounted_example i 500" by (simp add: cached_def z zero_buf_def)
  have e: "rev [0..<NBUF] = rev [1..<NBUF] @ [0]" by (simp add: upt_conv_Cons param_defs One_nat_def)
  have m: "mru mounted_example = rev [1..<NBUF] @ 0 # []"
    unfolding e[symmetric] by (simp add: mounted_example_def boot_example_def binit_kernel0)
  show ?thesis using bget_recycles_lru[OF D(1,2) c m f] by auto
qed

text \<open>
  \<open>brelse\<close> of a held buffer whose content is pinned or on the disk gives up the lock and the
  reference, keeps the invariant of the cache and the content of every block, and moves the buffer
  to the front of the list exactly when this was the last reference.
\<close>
theorem brelse_releases:
  assumes "idle_locks s" "bc_inv s" "holds s i n d" "b_dirty (bufs s ! i) \<or> d = disk s n"
  shows "runs (brelse i s) (\<lambda>_ t. idle_locks t \<and> bc_inv t \<and> view t = view s
    \<and> \<not> sl_locked (b_lock (bufs t ! i)) \<and> b_refcnt (bufs t ! i) = b_refcnt (bufs s ! i) - 1
    \<and> (\<forall>j. j \<noteq> i \<longrightarrow> bufs t ! j = bufs s ! j)
    \<and> mru t = (if b_refcnt (bufs s ! i) = 1 then i # remove1 i (mru s) else mru s))"
proof -
  have i: "i < length (bufs s)" using assms(2,3) by (simp add: holds_def cached_def bc_inv_len)
  have ow: "owns s i" using assms(3) by (simp add: holds_def)
  have rc: "0 < b_refcnt (bufs s ! i)" "b_refcnt (bufs s ! i) < 2 ^ 32"
    using bc_inv_buf[OF assms(2), of i] i ow bc_inv_len[OF assms(2)] by (auto simp: buf_ok_def owns_def)
  then have u: "usub (b_refcnt (bufs s ! i)) 1 = b_refcnt (bufs s ! i) - 1" by (simp add: usub_small)
  have "runs (brelse i s) (\<lambda>_ t. mru t = (if b_refcnt (bufs s ! i) = 1 then i # remove1 i (mru s) else mru s))"
    unfolding brelse_eq[OF assms(1) ow i] using i rc u by (simp add: Let_def put_buf_def)
  then show ?thesis
    using brelse_runs[OF assms]
    by (rule runs_mono[OF runs_conj]) (use i u in \<open>simp add: put_buf_def free_lock_def\<close>)
qed

theorem brelse_releases_witness:
  "\<exists>i s t. holds s i 500 (replicate BSIZE 0) \<and> brelse i s = Ok () t \<and> hd (mru t) = i"
proof -
  note M = mounted_example_ok
  have b: "500 < disksize mounted_example" by (simp add: mounted_example_def)
  obtain i s where s: "bproto s {i}" "holds s i 500 (disk_example 500)" "coh s i 500" "i < NBUF"
    using bread_blk[OF M(1) ready_pinned_empty[OF M(1,3) b]] M(5) by (auto elim!: runsE)
  have "b_refcnt (bufs s ! i) = 1" using bprotoD(4)[OF s(1) s(4)] by simp
  moreover have "b_dirty (bufs s ! i) \<or> disk_example 500 = disk s 500"
    using s(2,3) by (auto simp: coh_def holds_def)
  ultimately have "runs (brelse i s) (\<lambda>_ t. hd (mru t) = i)"
    using brelse_releases[OF bprotoD(1,2)[OF s(1)] s(2)] by (auto elim!: runs_mono)
  then show ?thesis using s(2) by (auto simp: runs_iff disk_example_def)
qed

text \<open>
  A sleep lock is free after \<open>releasesleep\<close>, and exactly the processes asleep on it become
  runnable: no other process is woken, and nothing else of any process changes. A process that calls
  \<open>acquiresleep\<close> gets the lock when it is free; otherwise it ends up asleep on the lock with
  only \<open>ptable.lock\<close> held, the lock and its owner unchanged.
\<close>
theorem sleeplock_handover:
  assumes "idle_locks s" "curproc s = Some p" "case r of SBuf i \<Rightarrow> i < length (bufs s) | SInode i \<Rightarrow> i < length (inodes s)"
  shows "runs (releasesleep r s) (\<lambda>_ t. get_sl r t = free_lock \<and> held t = []
      \<and> length (procs t) = length (procs s)
      \<and> (\<forall>q < length (procs s). procs t ! q =
          (if state (procs s ! q) = SLEEPING \<and> chan (procs s ! q) = Some (sl_chan r)
           then (procs s ! q)\<lparr>state := RUNNABLE\<rparr> else procs s ! q)))
    \<and> (if sl_locked (get_sl r s)
      then \<exists>t. acquiresleep r s = Sched t \<and> held t = [LPtable] \<and> get_sl r t = get_sl r s
        \<and> state (procs t ! p) = SLEEPING \<and> chan (procs t ! p) = Some (sl_chan r)
      else \<exists>t. acquiresleep r s = Ok () t \<and> held t = [] \<and> get_sl r t = \<lparr>sl_locked = True, sl_pid = pid (cur s)\<rparr>)"
proof (intro conjI)
  have h: "held s = []" and p: "p < length (procs s)" using assms(1,2) by (auto simp: idle_locks_def)
  have g: "get_sl r (wakeup1 c (set_sl r v s)) = v" "get_sl r (set_sl r v s) = v" for c v
    using assms(3) by (cases r; simp)+
  show "runs (releasesleep r s) (\<lambda>_ t. get_sl r t = free_lock \<and> held t = []
      \<and> length (procs t) = length (procs s)
      \<and> (\<forall>q < length (procs s). procs t ! q =
          (if state (procs s ! q) = SLEEPING \<and> chan (procs s ! q) = Some (sl_chan r)
           then (procs s ! q)\<lparr>state := RUNNABLE\<rparr> else procs s ! q)))"
    unfolding releasesleep_eq[OF h] using h by (simp add: g procs_wakeup1_nth)
  have u: "get_sl r (upd_proc p f s) = get_sl r s" for f by (cases r) (simp_all add: upd_proc_def)
  have "acquiresleep r s = Sched (upd_proc p (\<lambda>q. q\<lparr>chan := Some (sl_chan r), state := SLEEPING\<rparr>) (s\<lparr>held := [LPtable]\<rparr>))"
    if "sl_locked (get_sl r s)" using acquiresleep_busy[OF h assms(2) that p] .
  moreover have "get_sl r (upd_proc p f (s\<lparr>held := x\<rparr>)) = get_sl r s" for f x
    by (cases r) (simp_all add: upd_proc_def)
  ultimately show "if sl_locked (get_sl r s)
      then \<exists>t. acquiresleep r s = Sched t \<and> held t = [LPtable] \<and> get_sl r t = get_sl r s
        \<and> state (procs t ! p) = SLEEPING \<and> chan (procs t ! p) = Some (sl_chan r)
      else \<exists>t. acquiresleep r s = Ok () t \<and> held t = [] \<and> get_sl r t = \<lparr>sl_locked = True, sl_pid = pid (cur s)\<rparr>"
    using acquiresleep_free[OF h assms(2)] h p g by (auto simp: upd_proc_def)
qed

theorem sleeplock_handover_witness:
  "\<exists>t. acquiresleep (SBuf 3) boot_example = Ok () t \<and> get_sl (SBuf 3) t = \<lparr>sl_locked = True, sl_pid = 1\<rparr>"
proof -
  have b: "bufs boot_example = replicate NBUF zero_buf" "curproc boot_example = Some 0" "pid (cur boot_example) = 1"
    by (simp_all add: boot_example_def binit_kernel0 cur_def) (simp_all add: kernel0_def)
  have i: "idle_locks boot_example" using bprotoD(1)[of boot_example "{}"] booted_example by (simp add: booted_def)
  show ?thesis
    using sleeplock_handover[OF i b(2), of "SBuf 3"] b by (auto simp: zero_buf_def free_lock_def param_defs)
qed

end
