(* ===== verification/PQueue.thy ===== *)
theory PQueue
  imports KState
begin

text \<open>
  The arrays of pointers the scheduler uses as queues (\<open>ARRAYQUEUE\<close> with \<open>q_size\<close>, \<open>stable\<close> with
  \<open>stable_size\<close> in proc.c). Such a queue is a row of \<open>NPROC\<close> cells with the index of its last
  element, \<open>-1\<close> when it is empty. The operations are the loops the code repeats: appending at the
  end, and removing an element by shifting the cells behind it. An access beyond the row is \<open>None\<close>.
  The locale \<open>fifo\<close> states what the scheduler relies on, and is interpreted by these operations.
\<close>

subsection \<open>The operations\<close>

type_synonym 'a aq = "'a list \<times> int"

text \<open>\<open>row[++last] = x\<close>.\<close>

definition aq_push :: "'a \<Rightarrow> 'a aq \<Rightarrow> 'a aq option" where
  "aq_push x q = (let last = snd q + 1 in
     if 0 \<le> last \<and> last < int (length (fst q)) then Some ((fst q)[nat last := x], last) else None)"

text \<open>\<open>for(j = i; j < i + k; j++) row[j] = row[j+1]\<close>.\<close>

fun shift_left :: "nat \<Rightarrow> nat \<Rightarrow> 'a list \<Rightarrow> 'a list" where
  "shift_left i 0 row = row"
| "shift_left i (Suc k) row = shift_left (Suc i) k (row[i := row ! Suc i])"

text \<open>The body under \<open>if(row[i] == x)\<close>: \<open>last--\<close> and the shift up to the new \<open>last\<close>.\<close>

definition aq_cut :: "nat \<Rightarrow> 'a aq \<Rightarrow> 'a aq option" where
  "aq_cut i q = (let last = snd q - 1 in
     if last + 1 < int (length (fst q)) then Some (shift_left i (nat (last + 1 - int i)) (fst q), last) else None)"

text \<open>
  \<open>for(i = ...; i <= last; i++) if(row[i] == x) cut\<close>, with a \<open>break\<close> after the cut when \<open>brk\<close>.
  \<open>yield\<close> has no \<open>break\<close>; \<open>set_cpu_share\<close> and \<open>exit\<close> have one.
\<close>

function aq_scan :: "bool \<Rightarrow> 'a \<Rightarrow> nat \<Rightarrow> 'a aq \<Rightarrow> 'a aq option" where
  "aq_scan brk x i q =
     (if int i \<le> snd q then
        if i \<ge> length (fst q) then None
        else if fst q ! i = x then
          (case aq_cut i q of None \<Rightarrow> None | Some r \<Rightarrow> if brk then Some r else aq_scan brk x (Suc i) r)
        else aq_scan brk x (Suc i) q
      else Some q)"
  by pat_completeness auto
termination
  by (relation "measure (\<lambda>(b, x, i, q). nat (snd q + 1 - int i))") (auto simp: aq_cut_def Let_def split: if_splits)

declare aq_scan.simps [simp del]

definition aq_del :: "bool \<Rightarrow> 'a \<Rightarrow> 'a aq \<Rightarrow> 'a aq option" where
  "aq_del brk x q = aq_scan brk x 0 q"

subsection \<open>The queue they implement\<close>

definition aq_list :: "'a aq \<Rightarrow> 'a list" where
  "aq_list q = take (nat (snd q + 1)) (fst q)"

definition aq_ok :: "'a aq \<Rightarrow> bool" where
  "aq_ok q \<longleftrightarrow> length (fst q) = NPROC \<and> - 1 \<le> snd q \<and> snd q < int NPROC"

lemma length_shift_left [simp]: "length (shift_left i k row) = length row"
  by (induction i k row rule: shift_left.induct) simp_all

lemma shift_left_nth:
  "i + k < length row \<Longrightarrow> shift_left i k row ! j = (if i \<le> j \<and> j < i + k then row ! Suc j else row ! j)"
proof (induction i k row rule: shift_left.induct)
  case (2 i k row)
  then show ?case by (auto simp: nth_list_update_if)
qed auto

lemma length_aq_list: "aq_ok q \<Longrightarrow> length (aq_list q) = nat (snd q + 1)"
  by (auto simp: aq_ok_def aq_list_def)

lemma aq_push_list:
  assumes "aq_ok q" "length (aq_list q) < NPROC"
  shows "\<exists>r. aq_push x q = Some r \<and> aq_ok r \<and> aq_list r = aq_list q @ [x]"
proof -
  have l: "0 \<le> snd q + 1" "snd q + 1 < int (length (fst q))"
    using assms length_aq_list[OF assms(1)] by (auto simp: aq_ok_def)
  have n: "nat (snd q + 1 + 1) = Suc (nat (snd q + 1))" using l by (simp add: nat_add_distrib One_nat_def)
  have "take (nat (snd q + 1 + 1)) ((fst q)[nat (snd q + 1) := x]) = aq_list q @ [x]"
    unfolding aq_list_def n using l by (subst take_Suc_conv_app_nth) simp_all
  then show ?thesis using assms(1) l by (simp add: aq_push_def aq_ok_def aq_list_def Let_def)
qed

lemma aq_cut_list:
  assumes "aq_ok q" "int i \<le> snd q"
  shows "\<exists>r. aq_cut i q = Some r \<and> aq_ok r \<and> snd r = snd q - 1
     \<and> aq_list r = take i (aq_list q) @ drop (Suc i) (aq_list q)"
proof -
  let ?k = "nat (snd q - 1 + 1 - int i)"
  let ?r = "(shift_left i ?k (fst q), snd q - 1)"
  have len: "length (fst q) = NPROC" "snd q < int NPROC" "- 1 \<le> snd q" using assms(1) by (auto simp: aq_ok_def)
  have k: "i + ?k = nat (snd q)" "i + ?k < length (fst q)" using assms(2) len by auto
  have "aq_list ?r = take i (aq_list q) @ drop (Suc i) (aq_list q)"
  proof (rule nth_equalityI)
    show "length (aq_list ?r) = length (take i (aq_list q) @ drop (Suc i) (aq_list q))"
      using assms(2) len by (auto simp: aq_list_def)
  next
    fix j assume "j < length (aq_list ?r)"
    then have j: "j < nat (snd q)" using len by (simp add: aq_list_def)
    then show "aq_list ?r ! j = (take i (aq_list q) @ drop (Suc i) (aq_list q)) ! j"
      using assms(2) len k by (auto simp: aq_list_def shift_left_nth nth_append)
  qed
  moreover have "aq_ok ?r" using assms(2) len by (simp add: aq_ok_def)
  ultimately show ?thesis using len by (simp add: aq_cut_def Let_def)
qed

lemma aq_list_nth: "aq_ok q \<Longrightarrow> int i \<le> snd q \<Longrightarrow> i < length (fst q) \<and> fst q ! i = aq_list q ! i"
  by (auto simp: aq_ok_def aq_list_def)

lemma aq_scan_absent:
  assumes "aq_ok q" "x \<notin> set (drop i (aq_list q))"
  shows "aq_scan brk x i q = Some q"
  using assms
proof (induction brk x i q rule: aq_scan.induct)
  case (1 brk x i q)
  show ?case
  proof (cases "int i \<le> snd q")
    case True
    have i: "i < length (aq_list q)" using True length_aq_list[OF 1(3)] by simp
    have n: "\<not> i \<ge> length (fst q)" "fst q ! i = aq_list q ! i" using aq_list_nth[OF 1(3) True] by auto
    have "drop i (aq_list q) = aq_list q ! i # drop (Suc i) (aq_list q)" by (rule Cons_nth_drop_Suc[symmetric, OF i])
    then have ne: "fst q ! i \<noteq> x" and x: "x \<notin> set (drop (Suc i) (aq_list q))" using 1(4) n(2) by auto
    from 1(2)[OF True n(1) ne 1(3) x] show ?thesis
      using True n(1) ne by (simp add: aq_scan.simps[of brk x i q])
  next
    case False
    then show ?thesis by (simp add: aq_scan.simps[of brk x i q])
  qed
qed

lemma aq_scan_remove:
  assumes "aq_ok q" "distinct (aq_list q)" "x \<in> set (drop i (aq_list q))"
  shows "\<exists>r. aq_scan brk x i q = Some r \<and> aq_ok r \<and> aq_list r = remove1 x (aq_list q)"
  using assms
proof (induction brk x i q rule: aq_scan.induct)
  case (1 brk x i q)
  have i: "i < length (aq_list q)" using 1(5) by (cases "i < length (aq_list q)") simp_all
  then have le: "int i \<le> snd q" using length_aq_list[OF 1(3)] by simp
  have n: "\<not> i \<ge> length (fst q)" "fst q ! i = aq_list q ! i" using aq_list_nth[OF 1(3) le] by auto
  have dr: "drop i (aq_list q) = aq_list q ! i # drop (Suc i) (aq_list q)" by (rule Cons_nth_drop_Suc[symmetric, OF i])
  show ?case
  proof (cases "fst q ! i = x")
    case True
    obtain r where r: "aq_cut i q = Some r" "aq_ok r" "aq_list r = take i (aq_list q) @ drop (Suc i) (aq_list q)"
      using aq_cut_list[OF 1(3) le] by blast
    have nj: "aq_list q ! j \<noteq> x" if "j < i" for j
      using that i True n(2) 1(4) by (auto simp: nth_eq_iff_index_eq)
    have rm: "aq_list r = remove1 x (aq_list q)"
      unfolding r(3) using remove1_take_drop[OF i _ nj] True n(2) by simp
    have "x \<notin> set (aq_list r)" unfolding rm using 1(4) by simp
    then have "x \<notin> set (drop (Suc i) (aq_list r))" by (auto dest: in_set_dropD)
    then have "aq_scan brk x (Suc i) r = Some r" by (rule aq_scan_absent[OF r(2)])
    then have "aq_scan brk x i q = Some r"
      using le n(1) True r(1) by (cases brk) (simp_all add: aq_scan.simps[of _ x i q])
    then show ?thesis using r(2) rm by blast
  next
    case False
    then have x: "x \<in> set (drop (Suc i) (aq_list q))" using 1(5) dr n(2) by auto
    from 1(2)[OF le n(1) False 1(3,4) x] show ?thesis
      using le n(1) False by (simp add: aq_scan.simps[of brk x i q])
  qed
qed

lemma aq_del_list:
  assumes "aq_ok q" "distinct (aq_list q)"
  shows "\<exists>r. aq_del brk x q = Some r \<and> aq_ok r \<and> aq_list r = remove1 x (aq_list q)"
proof (cases "x \<in> set (aq_list q)")
  case True
  then show ?thesis using aq_scan_remove[OF assms, of x 0 brk] by (simp add: aq_del_def)
next
  case False
  then show ?thesis using aq_scan_absent[OF assms(1), of x 0 brk] assms(1) by (simp add: aq_del_def remove1_idem)
qed

subsection \<open>The interface\<close>

text \<open>
  What the scheduler uses of a queue: \<open>push\<close> appends at the end, \<open>del\<close> removes an element and keeps
  the order of the others. \<open>requeue\<close> is the way \<open>yield\<close> ends the turn of a process: every other
  process moves towards the front or stays, so a process waits at most for those in front of it.
\<close>

locale fifo =
  fixes elems :: "'q \<Rightarrow> 'a list"
    and ok :: "'q \<Rightarrow> bool"
    and push :: "'a \<Rightarrow> 'q \<Rightarrow> 'q option"
    and del :: "'a \<Rightarrow> 'q \<Rightarrow> 'q option"
    and cap :: nat
  assumes push_law: "ok q \<Longrightarrow> length (elems q) < cap \<Longrightarrow> \<exists>r. push x q = Some r \<and> ok r \<and> elems r = elems q @ [x]"
    and del_law: "ok q \<Longrightarrow> distinct (elems q) \<Longrightarrow> \<exists>r. del x q = Some r \<and> ok r \<and> elems r = remove1 x (elems q)"
    and cap_law: "ok q \<Longrightarrow> length (elems q) \<le> cap"
begin

definition requeue :: "'a \<Rightarrow> 'q \<Rightarrow> 'q option" where
  "requeue x q = (case del x q of None \<Rightarrow> None | Some r \<Rightarrow> push x r)"

lemma del_set:
  assumes "ok q" "distinct (elems q)" "del x q = Some r"
  shows "ok r" "distinct (elems r)" "set (elems r) = set (elems q) - {x}"
  using del_law[OF assms(1,2), of x] assms(2,3) by (auto simp: set_remove1_eq)

lemma push_new:
  assumes "ok q" "length (elems q) < cap" "distinct (elems q)" "x \<notin> set (elems q)"
  obtains r where "push x q = Some r" "ok r" "elems r = elems q @ [x]" "distinct (elems r)"
  using push_law[OF assms(1,2), of x] assms(3,4) by auto

lemma requeue_law:
  assumes "ok q" "distinct (elems q)" "x \<in> set (elems q)"
  shows "\<exists>r. requeue x q = Some r \<and> ok r \<and> elems r = remove1 x (elems q) @ [x]"
proof -
  obtain r where r: "del x q = Some r" "ok r" "elems r = remove1 x (elems q)"
    using del_law[OF assms(1,2), of x] by blast
  have "length (elems r) < length (elems q)"
    using assms(3) length_pos_if_in_set[of x "elems q"] by (simp add: r(3) length_remove1)
  then have "length (elems r) < cap" using cap_law[OF assms(1)] by simp
  from push_law[OF r(2) this, of x] r show ?thesis by (auto simp: requeue_def)
qed

end

lemma aq_cap: "aq_ok q \<Longrightarrow> length (aq_list q) \<le> NPROC"
  by (auto simp: length_aq_list aq_ok_def)

text \<open>The queues of \<open>yield\<close> (no \<open>break\<close>) and of \<open>set_cpu_share\<close> and \<open>exit\<close> (with \<open>break\<close>).\<close>

interpretation rotq: fifo aq_list aq_ok aq_push "aq_del False" NPROC
  by unfold_locales (rule aq_push_list aq_del_list aq_cap; assumption)+

interpretation brkq: fifo aq_list aq_ok aq_push "aq_del True" NPROC
  by unfold_locales (rule aq_push_list aq_del_list aq_cap; assumption)+

end
