(* ===== verification/CString.thy ===== *)
theory CString
  imports KState
begin

text \<open>
  string.c. The functions on memory regions work on a byte memory \<open>m\<close>, a map from addresses to bytes;
  the functions on strings work on the bytes from the pointer to the end of the object it points into,
  and are \<open>None\<close> where the code would read past that end. The pointer arithmetic of the C code does not wrap around.
\<close>

type_synonym memory = "nat \<Rightarrow> u8"

subsection \<open>Memory\<close>

text \<open>
  \<open>stosb\<close> and \<open>stosl\<close> (x86.h): store a byte or a little-endian word \<open>n\<close> times. The address is a 32-bit
  register, which wraps around.
\<close>

fun stosb :: "memory \<Rightarrow> nat \<Rightarrow> u8 \<Rightarrow> nat \<Rightarrow> memory" where
  "stosb m d c 0 = m"
| "stosb m d c (Suc n) = stosb (m(d := c)) (uadd d 1) c n"

fun stosl :: "memory \<Rightarrow> nat \<Rightarrow> 32 word \<Rightarrow> nat \<Rightarrow> memory" where
  "stosl m d c 0 = m"
| "stosl m d c (Suc n) = stosl (m(d := ucast c, uadd d 1 := ucast (drop_bit 8 c),
     uadd d 2 := ucast (drop_bit 16 c), uadd d 3 := ucast (drop_bit 24 c))) (uadd d 4) c n"

definition memset :: "memory \<Rightarrow> nat \<Rightarrow> 32 word \<Rightarrow> nat \<Rightarrow> memory" where
  "memset m dst c n = (if dst mod 4 = 0 \<and> n mod 4 = 0
     then let c = and c 0xFF in
       stosl m dst (or (or (or (push_bit 24 c) (push_bit 16 c)) (push_bit 8 c)) c) (n div 4)
     else stosb m dst (ucast c) n)"

fun memcmp :: "memory \<Rightarrow> nat \<Rightarrow> nat \<Rightarrow> nat \<Rightarrow> int" where
  "memcmp m s1 s2 0 = 0"
| "memcmp m s1 s2 (Suc n) = (if m s1 \<noteq> m s2 then uint (m s1) - uint (m s2) else memcmp m (s1 + 1) (s2 + 1) n)"

text \<open>The two loops of \<open>memmove\<close>: from the ends down, or from the starts up.\<close>

fun copy_down :: "memory \<Rightarrow> nat \<Rightarrow> nat \<Rightarrow> nat \<Rightarrow> memory" where
  "copy_down m d s 0 = m"
| "copy_down m d s (Suc n) = copy_down (m(d - 1 := m (s - 1))) (d - 1) (s - 1) n"

fun copy_up :: "memory \<Rightarrow> nat \<Rightarrow> nat \<Rightarrow> nat \<Rightarrow> memory" where
  "copy_up m d s 0 = m"
| "copy_up m d s (Suc n) = copy_up (m(d := m s)) (d + 1) (s + 1) n"

definition memmove :: "memory \<Rightarrow> nat \<Rightarrow> nat \<Rightarrow> nat \<Rightarrow> memory" where
  "memmove m dst src n = (if src < dst \<and> src + n > dst then copy_down m (dst + n) (src + n) n
     else copy_up m dst src n)"

definition memcpy :: "memory \<Rightarrow> nat \<Rightarrow> nat \<Rightarrow> nat \<Rightarrow> memory" where
  "memcpy m dst src n = memmove m dst src n"

subsection \<open>Strings\<close>

fun strncmp :: "u8 list \<Rightarrow> u8 list \<Rightarrow> nat \<Rightarrow> int option" where
  "strncmp p q 0 = Some 0"
| "strncmp (a # p) (b # q) (Suc n) =
     (if a \<noteq> 0 \<and> a = b then strncmp p q n else Some (uint a - uint b))"
| "strncmp [] q (Suc n) = None"
| "strncmp (a # p) [] (Suc n) = None"

text \<open>\<open>strncpy\<close>: the bytes written to \<open>s\<close>; the copying loop ends with the NUL or after \<open>n\<close> bytes.\<close>

fun strncpy :: "u8 list \<Rightarrow> nat \<Rightarrow> u8 list option" where
  "strncpy t 0 = Some []"
| "strncpy [] (Suc n) = None"
| "strncpy (c # t) (Suc n) = (if c \<noteq> 0 then map_option (Cons c) (strncpy t n) else Some (replicate (Suc n) 0))"

text \<open>\<open>safestrcpy\<close>: the bytes written, for \<open>n > 0\<close>: at most \<open>n - 1\<close> bytes and a NUL.\<close>

fun safe_copy :: "u8 list \<Rightarrow> nat \<Rightarrow> u8 list option" where
  "safe_copy t 0 = Some [0]"
| "safe_copy [] (Suc n) = None"
| "safe_copy (c # t) (Suc n) = (if c \<noteq> 0 then map_option (Cons c) (safe_copy t n) else Some [0, 0])"

definition safestrcpy :: "u8 list \<Rightarrow> int \<Rightarrow> u8 list option" where
  "safestrcpy t n = (if n \<le> 0 then Some [] else safe_copy t (nat n - 1))"

fun strlen :: "u8 list \<Rightarrow> nat option" where
  "strlen [] = None"
| "strlen (c # s) = (if c = 0 then Some 0 else map_option Suc (strlen s))"

subsection \<open>What they compute\<close>

text \<open>The bytes of a region, and the memory with a region replaced.\<close>

definition region :: "memory \<Rightarrow> nat \<Rightarrow> nat \<Rightarrow> u8 list" where
  "region m p n = map m [p..<p + n]"

definition put_region :: "memory \<Rightarrow> nat \<Rightarrow> u8 list \<Rightarrow> memory" where
  "put_region m p xs = (\<lambda>a. if p \<le> a \<and> a < p + length xs then xs ! (a - p) else m a)"

lemma length_region [simp]: "length (region m p n) = n"
  by (simp add: region_def)

lemma region_put_region [simp]: "region (put_region m p xs) p (length xs) = xs"
  by (intro nth_equalityI) (simp_all add: region_def put_region_def)

lemma put_region_Nil [simp]: "put_region m d [] = m"
  by (auto simp: put_region_def fun_eq_iff)

lemma nth_region: "i < n \<Longrightarrow> region m p n ! i = m (p + i)"
  by (simp add: region_def)

text \<open>A fill that does not reach beyond the end of the address space.\<close>

lemma stosb_eq: "d + n \<le> 2 ^ 32 \<Longrightarrow> stosb m d c n = put_region m d (replicate n c)"
proof (induction n arbitrary: m d)
  case (Suc n)
  show ?case
  proof (cases "n = 0")
    case False
    then have u: "uadd d 1 = d + 1" using Suc.prems by (intro uadd_small) simp
    have "d + 1 + n \<le> 2 ^ 32" using Suc.prems by simp
    from Suc.IH[OF this] show ?thesis unfolding stosb.simps u by (auto simp: put_region_def fun_eq_iff)
  qed (auto simp: put_region_def fun_eq_iff)
qed simp

lemma stosl_eq:
  assumes "ucast w = c" "ucast (drop_bit 8 w) = c" "ucast (drop_bit 16 w) = c" "ucast (drop_bit 24 w) = c"
  shows "d + 4 * n \<le> 2 ^ 32 \<Longrightarrow> stosl m d w n = put_region m d (replicate (4 * n) c)"
proof (induction n arbitrary: m d)
  case (Suc n)
  have u: "uadd d 1 = d + 1" "uadd d 2 = d + 2" "uadd d 3 = d + 3" using Suc.prems by (simp_all add: uadd_small)
  show ?case
  proof (cases "n = 0")
    case True
    then show ?thesis unfolding stosl.simps u assms by (auto simp: put_region_def fun_eq_iff)
  next
    case False
    then have u4: "uadd d 4 = d + 4" using Suc.prems by (intro uadd_small) simp
    have "d + 4 + 4 * n \<le> 2 ^ 32" using Suc.prems by simp
    from Suc.IH[OF this] show ?thesis unfolding stosl.simps u u4 assms by (auto simp: put_region_def fun_eq_iff)
  qed
qed simp

lemma splat_bytes:
  fixes c :: "32 word"
  defines "w \<equiv> or (or (or (push_bit 24 (and c 0xFF)) (push_bit 16 (and c 0xFF))) (push_bit 8 (and c 0xFF))) (and c 0xFF)"
  shows "(ucast w :: u8) = ucast c" "(ucast (drop_bit 8 w) :: u8) = ucast c"
    "(ucast (drop_bit 16 w) :: u8) = ucast c" "(ucast (drop_bit 24 w) :: u8) = ucast c"
proof -
  have m: "(0xFF :: 32 word) = mask 8" by (simp add: mask_eq_exp_minus_1)
  show "(ucast w :: u8) = ucast c" "(ucast (drop_bit 8 w) :: u8) = ucast c"
    "(ucast (drop_bit 16 w) :: u8) = ucast c" "(ucast (drop_bit 24 w) :: u8) = ucast c"
    unfolding w_def m
    by (rule bit_word_eqI; simp add: bit_simps; presburger?)+
qed

lemma memset_eq: "dst + n \<le> 2 ^ 32 \<Longrightarrow> memset m dst c n = put_region m dst (replicate n (ucast c))"
proof (cases "dst mod 4 = 0 \<and> n mod 4 = 0")
  case True
  assume l: "dst + n \<le> 2 ^ 32"
  have e: "4 * (n div 4) = n" using True by auto
  have "dst + 4 * (n div 4) \<le> 2 ^ 32" unfolding e by (rule l)
  from stosl_eq[OF splat_bytes this] show ?thesis using True e by (simp add: memset_def Let_def)
next
  case False
  assume "dst + n \<le> 2 ^ 32"
  then show ?thesis using False by (simp only: memset_def if_False stosb_eq)
qed

lemma uint_inj [simp]: "uint (a :: u8) = uint b \<longleftrightarrow> a = b" "uint (a :: u8) = 0 \<longleftrightarrow> a = 0"
  by (simp_all add: word_uint_eq_iff)

lemma memcmp_eq: "memcmp m p q n = 0 \<longleftrightarrow> region m p n = region m q n"
proof (induction n arbitrary: p q)
  case (Suc n)
  have r: "region m x (Suc n) = m x # region m (x + 1) n" for x
    by (simp add: region_def upt_conv_Cons One_nat_def del: upt_Suc)
  show ?case unfolding memcmp.simps r by (simp add: Suc)
qed (simp add: region_def)

lemma copy_up_eq:
  assumes "d \<le> s \<or> s + n \<le> d"
  shows "copy_up m d s n = put_region m d (region m s n)"
  using assms
proof (induction n arbitrary: m d s)
  case (Suc n)
  have "copy_up (m(d := m s)) (d + 1) (s + 1) n
      = put_region (m(d := m s)) (d + 1) (region (m(d := m s)) (s + 1) n)"
    using Suc.prems by (intro Suc.IH) auto
  then show ?case using Suc.prems
    by (auto simp: put_region_def fun_eq_iff nth_region less_Suc_eq_le)
qed (simp add: region_def)

lemma copy_down_eq:
  assumes "s \<le> d"
  shows "copy_down m (d + n) (s + n) n = put_region m d (region m s n)"
  using assms
proof (induction n arbitrary: m)
  case (Suc n)
  let ?m = "m(d + n := m (s + n))"
  have e: "copy_down m (d + Suc n) (s + Suc n) (Suc n) = copy_down ?m (d + n) (s + n) n"
    by (simp add: One_nat_def)
  have "region ?m s n = region m s n"
    using Suc.prems by (intro nth_equalityI) (simp_all add: nth_region)
  moreover have "x = d + n" if "d \<le> x" "x < d + Suc n" "\<not> x < d + n" for x using that by simp
  ultimately show ?case unfolding e Suc.IH[OF Suc.prems]
    by (auto simp: put_region_def fun_eq_iff nth_region)
qed (simp add: region_def)

text \<open>\<open>memmove\<close> copies the bytes the source had, also when the regions overlap.\<close>

lemma memmove_eq: "memmove m dst src n = put_region m dst (region m src n)"
  unfolding memmove_def by (auto intro!: copy_down_eq copy_up_eq)

text \<open>The string in a buffer of \<open>n\<close> bytes: up to the first NUL or to the end of the buffer.\<close>

definition cname :: "nat \<Rightarrow> u8 list \<Rightarrow> u8 list" where
  "cname n p = takeWhile (\<lambda>c. c \<noteq> 0) (take n p)"

lemma cname_simps [simp]:
  "cname 0 p = []" "cname n [] = []"
  "cname (Suc n) (c # p) = (if c = 0 then [] else c # cname n p)"
  by (simp_all add: cname_def)

lemma length_cname: "length (cname n p) \<le> n"
  using length_takeWhile_le[of "\<lambda>c. c \<noteq> 0" "take n p"] by (simp add: cname_def)

text \<open>The buffer is long enough for the functions that read at most \<open>n\<close> bytes of it.\<close>

definition readable :: "nat \<Rightarrow> u8 list \<Rightarrow> bool" where
  "readable n p \<longleftrightarrow> n \<le> length p \<or> 0 \<in> set p"

lemma readable_simps [simp]:
  "readable 0 p" "\<not> readable (Suc n) []" "readable (Suc n) (c # p) \<longleftrightarrow> c = 0 \<or> readable n p"
  by (auto simp: readable_def)

lemma strncmp_eq:
  "readable n p \<Longrightarrow> readable n q \<Longrightarrow> \<exists>r. strncmp p q n = Some r \<and> (r = 0 \<longleftrightarrow> cname n p = cname n q)"
proof (induction p q n rule: strncmp.induct)
  case (2 a p b q n)
  show ?case
  proof (cases "a \<noteq> 0 \<and> a = b")
    case True
    then show ?thesis using 2 by (cases "b = 0") simp_all
  next
    case False
    then show ?thesis using 2 by (cases "a = 0"; cases "b = 0") auto
  qed
qed auto

lemma strncpy_eq:
  "readable n t \<Longrightarrow> strncpy t n = Some (cname n t @ replicate (n - length (cname n t)) 0)"
  by (induction t n rule: strncpy.induct) auto

lemma length_strncpy: "strncpy t n = Some d \<Longrightarrow> length d = n"
  by (induction t n arbitrary: d rule: strncpy.induct) (auto split: if_splits)

lemma strlen_eq: "0 \<in> set s \<Longrightarrow> strlen s = Some (length (takeWhile (\<lambda>c. c \<noteq> 0) s))"
  by (induction s) auto

lemma strlen_None: "strlen s = None \<longleftrightarrow> 0 \<notin> set s"
  by (induction s) auto

lemma safe_copy_eq:
  "readable n t \<Longrightarrow> \<exists>d. safe_copy t n = Some d \<and> cname (Suc n) d = cname n t \<and> length d \<le> Suc n \<and> last d = 0 \<and> d \<noteq> []"
  by (induction t n rule: safe_copy.induct) (auto simp: not_less)

end
