(* ===== verification/KMem.thy ===== *)
theory KMem
  imports Sync CString Bytes
begin

text \<open>
  The page allocator (kalloc.c). A pointer of the kernel is its 32-bit address, 0 the null pointer; the
  kernel sees physical address \<open>a\<close> at \<open>P2V a\<close>. The free pages form a linked list through their first
  words. \<open>free_list s xs\<close> is the abstraction: the free pages are exactly \<open>xs\<close>, in this order; \<open>kalloc\<close>
  takes its head and \<open>kfree\<close> puts a page in front.
\<close>

definition EXTMEM :: nat where "EXTMEM = 0x100000"
definition PHYSTOP :: nat where "PHYSTOP = 0xE000000"
definition DEVSPACE :: nat where "DEVSPACE = 0xFE000000"
definition KERNBASE :: nat where "KERNBASE = 0x80000000"
definition KERNLINK :: nat where "KERNLINK = KERNBASE + EXTMEM"

lemmas [param_defs] = EXTMEM_def PHYSTOP_def DEVSPACE_def KERNBASE_def KERNLINK_def

definition V2P :: "nat \<Rightarrow> nat" where "V2P a = usub a KERNBASE"
definition P2V :: "nat \<Rightarrow> nat" where "P2V a = uadd a KERNBASE"

text \<open>\<open>PGROUNDUP\<close> adds in 32 bits before it masks.\<close>

definition PGROUNDUP :: "nat \<Rightarrow> nat" where
  "PGROUNDUP a = uadd a (PGSIZE - 1) div PGSIZE * PGSIZE"

definition PGROUNDDOWN :: "nat \<Rightarrow> nat" where
  "PGROUNDDOWN a = a div PGSIZE * PGSIZE"

subsection \<open>Words in memory\<close>

definition rd32 :: "memory \<Rightarrow> nat \<Rightarrow> nat" where
  "rd32 m a = get32 (region m a 4) 0"

definition wr32 :: "memory \<Rightarrow> nat \<Rightarrow> nat \<Rightarrow> memory" where
  "wr32 m a v = put_region m a (put32 0 v [0, 0, 0, 0])"

lemma rd32_cong: "(\<And>i. i < 4 \<Longrightarrow> m (a + i) = m' (a + i)) \<Longrightarrow> rd32 m a = rd32 m' a"
proof -
  assume h: "\<And>i. i < 4 \<Longrightarrow> m (a + i) = m' (a + i)"
  have "region m a 4 = region m' a 4" by (rule nth_equalityI) (simp_all add: nth_region h)
  then show ?thesis by (simp add: rd32_def)
qed

lemma rd32_wr32: "rd32 (wr32 m a v) a = v mod 2 ^ 32"
proof -
  have four: "length (put32 0 v [0, 0, 0, 0]) = 4" by (simp only: length_put32) simp
  have "region (wr32 m a v) a 4 = put32 0 v [0, 0, 0, 0]"
    using region_put_region[of m a "put32 0 v [0, 0, 0, 0]"] four by (simp only: wr32_def)
  then show ?thesis by (simp add: rd32_def get32_put32)
qed

lemma wr32_other: "b < a \<or> a + 4 \<le> b \<Longrightarrow> wr32 m a v b = m b"
  by (auto simp: wr32_def put_region_def)

lemma rd32_wr32_other: "b + 4 \<le> a \<or> a + 4 \<le> b \<Longrightarrow> rd32 (wr32 m a v) b = rd32 m b"
  by (rule rd32_cong, rule wr32_other) linarith

lemma rd32_less: "rd32 m a < 2 ^ 32"
  using get32_less[of "region m a 4" 0] by (simp add: rd32_def)

lemma put_region_other: "b < a \<or> a + length xs \<le> b \<Longrightarrow> put_region m a xs b = m b"
  by (auto simp: put_region_def)

lemma rd32_put_region_other: "b + 4 \<le> a \<or> a + length xs \<le> b \<Longrightarrow> rd32 (put_region m a xs) b = rd32 m b"
  by (rule rd32_cong, rule put_region_other) linarith

subsection \<open>The allocator\<close>

definition kmem_lock :: "kst \<Rightarrow> unit kres" where
  "kmem_lock s = (if use_lock s then acquire LKmem s else Ok () s)"

definition kmem_unlock :: "kst \<Rightarrow> unit kres" where
  "kmem_unlock s = (if use_lock s then release LKmem s else Ok () s)"

definition kalloc :: "kst \<Rightarrow> nat kres" where
  "kalloc s = kbind (kmem_lock s) (\<lambda>_ s.
     let r = freelist s;
         s = (if r \<noteq> 0 then s\<lparr>freelist := rd32 (pmem s) (V2P r)\<rparr> else s) in
     kbind (kmem_unlock s) (\<lambda>_ s. Ok r s))"

definition kfree :: "nat \<Rightarrow> kst \<Rightarrow> unit kres" where
  "kfree v s =
     (if v mod PGSIZE \<noteq> 0 \<or> v < kend s \<or> V2P v \<ge> PHYSTOP then Panic ''kfree''
      else kbind (kmem_lock (s\<lparr>pmem := memset (pmem s) (V2P v) 1 PGSIZE\<rparr>)) (\<lambda>_ s.
        kmem_unlock (s\<lparr>pmem := wr32 (pmem s) (V2P v) (freelist s), freelist := v\<rparr>)))"

definition freerange :: "nat \<Rightarrow> nat \<Rightarrow> kst \<Rightarrow> unit kres" where
  "freerange vstart vend s = (let p = PGROUNDUP vstart in
     kfor (map (\<lambda>k. p + k * PGSIZE) [0..<(vend - p) div PGSIZE]) kfree s)"

definition kinit1 :: "nat \<Rightarrow> nat \<Rightarrow> kst \<Rightarrow> unit kres" where
  "kinit1 vstart vend s = freerange vstart vend (s\<lparr>use_lock := False\<rparr>)"

definition kinit2 :: "nat \<Rightarrow> nat \<Rightarrow> kst \<Rightarrow> unit kres" where
  "kinit2 vstart vend s = kbind (freerange vstart vend s) (\<lambda>_ s. Ok () (s\<lparr>use_lock := True\<rparr>))"

subsection \<open>The free list\<close>

text \<open>The pages the allocator may hold.\<close>

definition page_ok :: "kst \<Rightarrow> nat \<Rightarrow> bool" where
  "page_ok s v \<longleftrightarrow> v mod PGSIZE = 0 \<and> kend s \<le> v \<and> KERNBASE \<le> v \<and> v < KERNBASE + PHYSTOP"

definition in_page :: "nat \<Rightarrow> nat \<Rightarrow> bool" where
  "in_page v a \<longleftrightarrow> V2P v \<le> a \<and> a < V2P v + PGSIZE"

fun chain :: "memory \<Rightarrow> nat \<Rightarrow> nat list \<Rightarrow> bool" where
  "chain m h [] \<longleftrightarrow> h = 0"
| "chain m h (v # xs) \<longleftrightarrow> h = v \<and> v \<noteq> 0 \<and> chain m (rd32 m (V2P v)) xs"

definition free_list :: "kst \<Rightarrow> nat list \<Rightarrow> bool" where
  "free_list s xs \<longleftrightarrow> chain (pmem s) (freelist s) xs \<and> distinct xs \<and> (\<forall>v \<in> set xs. page_ok s v)
     \<and> KERNBASE < kend s \<and> LKmem \<notin> set (held s)"

lemma free_listD:
  assumes "free_list s xs"
  shows "chain (pmem s) (freelist s) xs" "distinct xs" "v \<in> set xs \<Longrightarrow> page_ok s v" "KERNBASE < kend s"
    "LKmem \<notin> set (held s)"
  using assms by (simp_all add: free_list_def)

lemma V2P_page: "page_ok s v \<Longrightarrow> V2P v = v - KERNBASE"
  by (simp add: V2P_def page_ok_def usub_small param_defs)

lemma P2V_V2P: "page_ok s v \<Longrightarrow> P2V (V2P v) = v"
  by (simp add: V2P_page P2V_def) (simp add: page_ok_def uadd_small param_defs)

lemma page_fits: "page_ok s v \<Longrightarrow> V2P v + PGSIZE \<le> 2 ^ 32"
  unfolding V2P_page by (auto simp: page_ok_def param_defs le_diff_conv)

text \<open>Different pages do not overlap.\<close>

lemma pages_apart:
  assumes "page_ok s v" "page_ok s w" "v \<noteq> w"
  shows "V2P v + PGSIZE \<le> V2P w \<or> V2P w + PGSIZE \<le> V2P v"
proof -
  obtain i where i: "v = i * PGSIZE" using assms(1) unfolding page_ok_def by (metis div_mod_decomp add.right_neutral)
  obtain j where j: "w = j * PGSIZE" using assms(2) unfolding page_ok_def by (metis div_mod_decomp add.right_neutral)
  have "KERNBASE \<le> v" "KERNBASE \<le> w" using assms by (simp_all add: page_ok_def)
  moreover have "i < j \<or> j < i" using assms(3) i j by auto
  then have "v + PGSIZE \<le> w \<or> w + PGSIZE \<le> v" unfolding i j by (simp add: param_defs) linarith
  ultimately show ?thesis unfolding V2P_page[OF assms(1)] V2P_page[OF assms(2)] by linarith
qed

lemma chain_cong:
  "(\<And>v. v \<in> set xs \<Longrightarrow> rd32 m' (V2P v) = rd32 m (V2P v)) \<Longrightarrow> chain m' h xs = chain m h xs"
  by (induction xs arbitrary: h) auto

lemma chain_head: "chain m h xs \<Longrightarrow> h = (case xs of [] \<Rightarrow> 0 | v # _ \<Rightarrow> v)"
  by (cases xs) auto

text \<open>\<open>kalloc\<close> returns the first free page, or 0 when there is none, and writes nothing.\<close>

lemma kalloc_eq:
  assumes "free_list s xs"
  shows "kalloc s = Ok (freelist s) (s\<lparr>freelist := hd (tl xs @ [0])\<rparr>)"
proof (cases xs)
  case Nil
  then have z: "freelist s = 0" using free_listD(1)[OF assms] by simp
  then have "s\<lparr>freelist := 0\<rparr> = s" by simp
  then show ?thesis using free_listD(5)[OF assms] z Nil
    by (simp add: kalloc_def kmem_lock_def kmem_unlock_def acquire_def release_def)
next
  case (Cons v ys)
  have c: "freelist s = v" "v \<noteq> 0" "chain (pmem s) (rd32 (pmem s) (V2P v)) ys"
    using free_listD(1)[OF assms] Cons by auto
  have "rd32 (pmem s) (V2P v) = hd (ys @ [0])" using chain_head[OF c(3)] by (cases ys) auto
  then show ?thesis using free_listD(5)[OF assms] c(1,2) Cons
    by (simp add: kalloc_def kmem_lock_def kmem_unlock_def acquire_def release_def)
qed

lemma kalloc_spec:
  assumes "free_list s xs"
  shows "runs (kalloc s) (\<lambda>r t. r = (case xs of [] \<Rightarrow> 0 | v # _ \<Rightarrow> v) \<and> free_list t (tl xs) \<and> pmem t = pmem s
     \<and> t = s\<lparr>freelist := freelist t\<rparr>)"
proof -
  have "free_list (s\<lparr>freelist := hd (tl xs @ [0])\<rparr>) (tl xs)"
  proof (cases xs)
    case Nil
    then show ?thesis using assms by (simp add: free_list_def)
  next
    case (Cons v ys)
    then have "chain (pmem s) (hd (ys @ [0])) ys"
      using free_listD(1)[OF assms] chain_head[of "pmem s" "rd32 (pmem s) (V2P v)" ys] by (cases ys) auto
    then show ?thesis using assms Cons by (simp add: free_list_def page_ok_def)
  qed
  then show ?thesis using chain_head[OF free_listD(1)[OF assms]] by (simp add: kalloc_eq[OF assms])
qed

text \<open>\<open>kfree\<close> of a page that is not free fills it with ones and puts it in front of the list.\<close>

definition freed_page :: "memory \<Rightarrow> nat \<Rightarrow> nat \<Rightarrow> memory" where
  "freed_page m v nxt = wr32 (put_region m (V2P v) (replicate PGSIZE 1)) (V2P v) nxt"

lemma kfree_eq:
  assumes "free_list s xs" "page_ok s v"
  shows "kfree v s = Ok () (s\<lparr>pmem := freed_page (pmem s) v (freelist s), freelist := v\<rparr>)"
proof -
  have "V2P v < PHYSTOP" using assms(2) V2P_page[OF assms(2)] by (auto simp: page_ok_def)
  then show ?thesis using assms free_listD(5)[OF assms(1)]
    by (simp add: kfree_def freed_page_def memset_eq[OF page_fits[OF assms(2)]] kmem_lock_def kmem_unlock_def acquire_def release_def)
      (simp add: page_ok_def)
qed

lemma freed_page_other: "\<not> in_page v a \<Longrightarrow> freed_page m v n a = m a"
  by (auto simp: freed_page_def in_page_def wr32_def put_region_def param_defs)

lemma rd32_freed: "rd32 (freed_page m v n) (V2P v) = n mod 2 ^ 32"
  by (simp add: freed_page_def rd32_wr32)

lemma rd32_freed_other:
  assumes "page_ok s v" "page_ok s w" "v \<noteq> w"
  shows "rd32 (freed_page m v n) (V2P w) = rd32 m (V2P w)"
  by (rule rd32_cong, rule freed_page_other)
    (use pages_apart[OF assms] in \<open>auto simp: in_page_def param_defs\<close>)

lemma page_ok_upd [simp]: "page_ok (s\<lparr>pmem := m\<rparr>) v = page_ok s v" "page_ok (s\<lparr>freelist := n\<rparr>) v = page_ok s v"
  by (simp_all add: page_ok_def)

lemma kfree_spec:
  assumes F: "free_list s xs" and v: "page_ok s v" "v \<notin> set xs"
  shows "runs (kfree v s) (\<lambda>_ t. free_list t (v # xs)
     \<and> t = s\<lparr>pmem := freed_page (pmem s) v (freelist s), freelist := v\<rparr>)"
proof -
  let ?m = "freed_page (pmem s) v (freelist s)"
  have nz: "v \<noteq> 0" using v(1) by (auto simp: page_ok_def param_defs)
  have fl: "freelist s < 2 ^ 32"
  proof (cases xs)
    case (Cons w ys)
    then have "page_ok s (freelist s)" using chain_head[OF free_listD(1)[OF F]] free_listD(3)[OF F] by auto
    then show ?thesis by (simp add: page_ok_def param_defs)
  qed (use free_listD(1)[OF F] in simp)
  have "chain ?m (freelist s) xs = chain (pmem s) (freelist s) xs"
  proof (rule chain_cong)
    fix w assume w: "w \<in> set xs"
    show "rd32 ?m (V2P w) = rd32 (pmem s) (V2P w)"
      by (rule rd32_freed_other[OF v(1) free_listD(3)[OF F w]]) (use w v(2) in auto)
  qed
  then have "chain ?m v (v # xs)" using free_listD(1)[OF F] nz fl by (simp add: rd32_freed)
  then show ?thesis
    using F v by (simp add: kfree_eq[OF F v(1)]) (simp add: free_list_def)
qed

subsection \<open>The interface\<close>

text \<open>
  What an allocator of pages promises its clients: \<open>pool s xs\<close> is that \<open>xs\<close> are the free pages of \<open>s\<close>; \<open>get\<close> takes the first
  one, or returns \<open>null\<close>, and \<open>put\<close> gives a page back.
\<close>

locale page_pool =
  fixes pool :: "'s \<Rightarrow> 'p list \<Rightarrow> bool"
    and valid :: "'s \<Rightarrow> 'p \<Rightarrow> bool"
    and null :: 'p
    and get :: "'s \<Rightarrow> ('p, 's) res"
    and put :: "'p \<Rightarrow> 's \<Rightarrow> (unit, 's) res"
  assumes get_law: "pool s xs \<Longrightarrow> runs (get s) (\<lambda>r t. r = (case xs of [] \<Rightarrow> null | v # _ \<Rightarrow> v) \<and> pool t (tl xs) \<and> valid t = valid s)"
    and put_law: "pool s xs \<Longrightarrow> valid s v \<Longrightarrow> v \<notin> set xs \<Longrightarrow> runs (put v s) (\<lambda>_ t. pool t (v # xs) \<and> valid t = valid s)"
    and pool_law: "pool s xs \<Longrightarrow> distinct xs \<and> (\<forall>v \<in> set xs. valid s v)"
    and null_law: "\<not> valid s null"
begin

text \<open>A page that was given back is the next one to be taken.\<close>

lemma put_get: "pool s xs \<Longrightarrow> valid s v \<Longrightarrow> v \<notin> set xs \<Longrightarrow> runs (kbind (put v s) (\<lambda>_. get)) (\<lambda>r t. r = v \<and> pool t xs)"
  by (rule runs_seq[OF put_law], assumption+) (rule runs_mono[OF get_law], auto)

text \<open>Pages given back one after the other.\<close>

lemma put_all:
  "pool s xs \<Longrightarrow> distinct vs \<Longrightarrow> set vs \<inter> set xs = {} \<Longrightarrow> \<forall>v \<in> set vs. valid s v
    \<Longrightarrow> runs (kfor vs put s) (\<lambda>_ t. pool t (rev vs @ xs) \<and> valid t = valid s)"
proof (induction vs arbitrary: s xs)
  case (Cons v vs)
  have "runs (put v s) (\<lambda>_ t. pool t (v # xs) \<and> valid t = valid s)" using Cons.prems by (intro put_law) auto
  then have "runs (kbind (put v s) (\<lambda>_. kfor vs put)) (\<lambda>_ t. pool t (rev (v # vs) @ xs) \<and> valid t = valid s)"
  proof (rule runs_seq)
    fix t assume t: "pool t (v # xs) \<and> valid t = valid s"
    show "runs (kfor vs put t) (\<lambda>_ u. pool u (rev (v # vs) @ xs) \<and> valid u = valid s)"
      by (rule runs_mono[OF Cons.IH[of t "v # xs"]]) (use t Cons.prems in auto)
  qed
  then show ?case by simp
qed simp

text \<open>The null pointer is returned only when no page is left.\<close>

lemma get_null: "pool s xs \<Longrightarrow> runs (get s) (\<lambda>r t. r = null \<longleftrightarrow> xs = [])"
  by (rule runs_mono[OF get_law], assumption) (use pool_law null_law in \<open>force split: list.splits\<close>)

end

lemma page_ok_eqI: "t = s\<lparr>freelist := n\<rparr> \<Longrightarrow> page_ok t = page_ok s"
  by (simp add: page_ok_def fun_eq_iff)

interpretation kmem: page_pool free_list page_ok 0 kalloc kfree
proof unfold_locales
  show "runs (kalloc s) (\<lambda>r t. r = (case xs of [] \<Rightarrow> 0 | v # _ \<Rightarrow> v) \<and> free_list t (tl xs) \<and> page_ok t = page_ok s)"
    if "free_list s xs" for s xs
    by (rule runs_mono[OF kalloc_spec[OF that]]) (metis page_ok_eqI)
  show "runs (kfree v s) (\<lambda>_ t. free_list t (v # xs) \<and> page_ok t = page_ok s)" if "free_list s xs" "page_ok s v" "v \<notin> set xs" for s xs v
    by (rule runs_mono[OF kfree_spec[OF that]]) (simp add: page_ok_def fun_eq_iff)
qed (auto simp: free_list_def page_ok_def param_defs)

text \<open>\<open>freerange\<close> frees the pages that lie in a range of memory, from the lowest on.\<close>

definition pages_in :: "nat \<Rightarrow> nat \<Rightarrow> nat list" where
  "pages_in a b = map (\<lambda>k. PGROUNDUP a + k * PGSIZE) [0..<(b - PGROUNDUP a) div PGSIZE]"

lemma freerange_pool:
  assumes F: "free_list s xs" and r: "kend s \<le> PGROUNDUP a" "b \<le> KERNBASE + PHYSTOP"
    and x: "\<forall>v \<in> set xs. \<not> (PGROUNDUP a \<le> v \<and> v < b)"
  shows "runs (freerange a b s) (\<lambda>_ t. free_list t (rev (pages_in a b) @ xs))"
proof -
  have p: "PGROUNDUP a \<le> v \<and> v + PGSIZE \<le> b \<and> v mod PGSIZE = 0" if vp: "v \<in> set (pages_in a b)" for v
  proof -
    obtain k where k: "v = PGROUNDUP a + k * PGSIZE" "k < (b - PGROUNDUP a) div PGSIZE" using vp by (auto simp: pages_in_def PGSIZE_def)
    then have "(k + 1) * PGSIZE \<le> (b - PGROUNDUP a) div PGSIZE * PGSIZE" by (intro mult_le_mono1) simp
    then have "(k + 1) * PGSIZE \<le> b - PGROUNDUP a" using div_times_less_eq_dividend order_trans by blast
    moreover have "PGROUNDUP a mod PGSIZE = 0" by (simp add: PGROUNDUP_def)
    ultimately show ?thesis using k(1) by (auto simp: PGSIZE_def)
  qed
  have "distinct (pages_in a b)" by (simp add: pages_in_def distinct_map inj_on_def PGSIZE_def)
  moreover have "page_ok s v" if "v \<in> set (pages_in a b)" for v
    using p[OF that] r free_listD(4)[OF F] by (auto simp: page_ok_def PGSIZE_def)
  moreover have "set (pages_in a b) \<inter> set xs = {}" using p x by (fastforce simp: PGSIZE_def)
  ultimately show ?thesis
    unfolding freerange_def Let_def pages_in_def[symmetric] by (intro runs_mono[OF kmem.put_all[OF F]]) auto
qed

lemma kfree_bad: "\<not> page_ok s v \<Longrightarrow> KERNBASE < kend s \<Longrightarrow> v < 2 ^ 32 \<Longrightarrow> kfree v s = Panic ''kfree''"
  by (cases "KERNBASE \<le> v") (auto simp: kfree_def page_ok_def V2P_def usub_small param_defs)

end
