(* ===== verification/Sched.thy ===== *)
theory Sched
  imports PQueue KMem
begin

text \<open>
  The scheduler of the project (proc.c, trap.c): a multi-level feedback queue of \<open>DEPTH_QUEUE\<close>
  levels, and stride scheduling between the processes that reserved a share of the CPU and the queue
  as a whole, which takes part in it as the pseudo-process \<open>mlfq\<close>. Here is the code as one CPU runs
  it; every access outside the arrays and every null pointer is \<open>Undef\<close>.
\<close>

definition MULTSTRIDESHARE :: int where "MULTSTRIDESHARE = 1000"
definition DEPTH_QUEUE :: nat where "DEPTH_QUEUE = 3"
definition PERIOD_BOOSTING :: nat where "PERIOD_BOOSTING = 200"
definition STRIDE_DEFAULT_TIME_QUANTOM :: int where "STRIDE_DEFAULT_TIME_QUANTOM = 5"
definition INITIAL_LEV :: int where "INITIAL_LEV = 0"
definition STRIDE_LEV :: int where "STRIDE_LEV = 9"

lemmas [param_defs] = MULTSTRIDESHARE_def DEPTH_QUEUE_def PERIOD_BOOSTING_def
  STRIDE_DEFAULT_TIME_QUANTOM_def INITIAL_LEV_def STRIDE_LEV_def

subsection \<open>Queues and shares\<close>

definition aq_of :: "nat \<Rightarrow> kst \<Rightarrow> pptr aq" where
  "aq_of l s = (arrq s ! l, q_size s ! l)"

definition set_aq :: "nat \<Rightarrow> pptr aq \<Rightarrow> kst \<Rightarrow> kst" where
  "set_aq l q s = s\<lparr>arrq := (arrq s)[l := fst q], q_size := (q_size s)[l := snd q]\<rparr>"

definition st_of :: "kst \<Rightarrow> sptr aq" where
  "st_of s = (stab s, stable_size s)"

definition set_st :: "sptr aq \<Rightarrow> kst \<Rightarrow> kst" where
  "set_st q s = s\<lparr>stab := fst q, stable_size := snd q\<rparr>"

text \<open>An index into \<open>ARRAYQUEUE\<close> and \<open>q_size\<close>.\<close>

definition lev_ok :: "int \<Rightarrow> bool" where
  "lev_ok l \<longleftrightarrow> 0 \<le> l \<and> l < int DEPTH_QUEUE"

text \<open>The fields of an entry of the stride table.\<close>

fun sp_share :: "sptr \<Rightarrow> kst \<Rightarrow> int" where
  "sp_share SNull s = 0"
| "sp_share SMlfq s = mshare (mlfq s)"
| "sp_share (SProc p) s = share (procs s ! p)"

fun sp_pass :: "sptr \<Rightarrow> kst \<Rightarrow> int" where
  "sp_pass SNull s = 0"
| "sp_pass SMlfq s = mpass (mlfq s)"
| "sp_pass (SProc p) s = pass (procs s ! p)"

fun sp_runnable :: "sptr \<Rightarrow> kst \<Rightarrow> bool" where
  "sp_runnable SNull s = False"
| "sp_runnable SMlfq s = True"
| "sp_runnable (SProc p) s = (state (procs s ! p) = RUNNABLE)"

fun sp_set_share :: "int \<Rightarrow> sptr \<Rightarrow> kst \<Rightarrow> kst" where
  "sp_set_share v SNull s = s"
| "sp_set_share v SMlfq s = s\<lparr>mlfq := (mlfq s)\<lparr>mshare := v\<rparr>\<rparr>"
| "sp_set_share v (SProc p) s = upd_proc p (\<lambda>q. q\<lparr>share := v\<rparr>) s"

fun sp_set_pass :: "int \<Rightarrow> sptr \<Rightarrow> kst \<Rightarrow> kst" where
  "sp_set_pass v SNull s = s"
| "sp_set_pass v SMlfq s = s\<lparr>mlfq := (mlfq s)\<lparr>mpass := v\<rparr>\<rparr>"
| "sp_set_pass v (SProc p) s = upd_proc p (\<lambda>q. q\<lparr>pass := v\<rparr>) s"

definition int_range :: "int \<Rightarrow> bool" where
  "int_range x \<longleftrightarrow> - (2 ^ 31) \<le> x \<and> x < 2 ^ 31"

definition lift_aq :: "('q \<Rightarrow> kst \<Rightarrow> kst) \<Rightarrow> 'q option \<Rightarrow> kst \<Rightarrow> unit kres" where
  "lift_aq put r s = (case r of None \<Rightarrow> Undef | Some q \<Rightarrow> Ok () (put q s))"

subsection \<open>System calls of the scheduler\<close>

definition getlev :: "kst \<Rightarrow> int kres" where
  "getlev s = (case curproc s of None \<Rightarrow> Undef | Some p \<Rightarrow> Ok (lev (procs s ! p)) s)"

definition set_cpu_share :: "int \<Rightarrow> kst \<Rightarrow> int kres" where
  "set_cpu_share shr s =
    (let m = stab s ! 0 in
     if m = SNull \<or> \<not> int_range (sp_share m s - shr) then Undef
     else if sp_share m s - shr < 20 \<or> shr < 0 then Ok (- 1) s
     else kbind (acquire LPtable s) (\<lambda>_ s.
       case curproc s of None \<Rightarrow> Undef | Some p \<Rightarrow>
       kbind (lift_aq set_st (aq_push (SProc p) (st_of s)) s) (\<lambda>_ s.
       let s = sp_set_share (sp_share m s - shr) m s;
           s = upd_proc p (\<lambda>q. q\<lparr>share := shr, pass := min_pass s\<rparr>) s;
           l = lev (procs s ! p) in
       kbind (kguard (lev_ok l) s) (\<lambda>_ s.
       kbind (lift_aq (set_aq (nat l)) (aq_del True (Some p) (aq_of (nat l) s)) s) (\<lambda>_ s.
       kbind (release LPtable (upd_proc p (\<lambda>q. q\<lparr>lev := STRIDE_LEV,
           time_allotment := STRIDE_DEFAULT_TIME_QUANTOM\<rparr>) s)) (\<lambda>_ s.
       Ok 1 s))))))"

subsection \<open>A new process\<close>

text \<open>
  \<open>allocproc\<close> also lays out the trap frame and the context on the new stack, so that the process
  starts in \<open>forkret\<close> and returns to \<open>trapret\<close>: \<open>ctx_eip\<close> is the address of \<open>forkret\<close>, a parameter
  as every address the linker assigns. The bytes of the new trap frame are left as they are.
\<close>

definition allocproc :: "nat \<Rightarrow> kst \<Rightarrow> nat option kres" where
  "allocproc forkret_addr s = kbind (acquire LPtable s) (\<lambda>_ s.
     case first_idx (\<lambda>p. state p = UNUSED) (procs s) of
       None \<Rightarrow> kbind (release LPtable s) (\<lambda>_ s. Ok None s)
     | Some p \<Rightarrow>
         let s = (upd_proc p (\<lambda>q. q\<lparr>state := EMBRYO, pid := nextpid s\<rparr>) s)\<lparr>nextpid := nextpid s + 1\<rparr> in
         kbind (release LPtable s) (\<lambda>_ s.
         kbind (kalloc s) (\<lambda>v s.
           if v = 0 then Ok None (upd_proc p (\<lambda>q. q\<lparr>kstack := 0, state := UNUSED\<rparr>) s)
           else
             let s = upd_proc p (\<lambda>q. q\<lparr>kstack := v, ctx_eip := forkret_addr, lev := INITIAL_LEV,
                       time_allotment := time_allot s ! nat INITIAL_LEV, start_tick := ticks s, share := 0,
                       pass := 0, first_scheduled := False\<rparr>) s in
             kbind (acquire LPtable s) (\<lambda>_ s.
             kbind (lift_aq (set_aq 0) (aq_push (Some p) (aq_of 0 s)) s) (\<lambda>_ s.
             kbind (release LPtable s) (\<lambda>_ s. Ok (Some p) s))))))"

subsection \<open>Giving up the CPU\<close>

text \<open>The branch of \<open>yield\<close> for a process of the multi-level feedback queue.\<close>

definition yield_mlfq :: "nat \<Rightarrow> kst \<Rightarrow> unit kres" where
  "yield_mlfq p s =
    (let lev_pre = lev (procs s ! p);
         s = (if time_allotment (procs s ! p) = 0 \<and> lev (procs s ! p) \<noteq> int DEPTH_QUEUE - 1
              then upd_proc p (\<lambda>q. q\<lparr>lev := lev q + 1\<rparr>) s else s);
         lev_now = lev (procs s ! p) in
     kbind (kguard (lev_ok lev_pre) s) (\<lambda>_ s.
     kbind (lift_aq (set_aq (nat lev_pre)) (aq_del False (Some p) (aq_of (nat lev_pre) s)) s) (\<lambda>_ s.
     kbind (kguard (lev_ok lev_now) s) (\<lambda>_ s.
     kbind (lift_aq (set_aq (nat lev_now)) (aq_push (Some p) (aq_of (nat lev_now) s)) s) (\<lambda>_ s.
     Ok () (if lev_now \<noteq> lev_pre
            then upd_proc p (\<lambda>q. q\<lparr>time_allotment := time_allot s ! nat lev_now\<rparr>) s else s))))))"

definition yield :: "kst \<Rightarrow> unit kres" where
  "yield s = kbind (acquire LPtable s) (\<lambda>_ s.
     case curproc s of None \<Rightarrow> Undef | Some p \<Rightarrow>
     let s = upd_proc p (\<lambda>q. q\<lparr>state := RUNNABLE\<rparr>) s;
         s = (if from_trap (procs s ! p) then s
              else upd_proc p (\<lambda>q. q\<lparr>time_allotment := time_allotment q - 1\<rparr>) s) in
     kbind (if share (procs s ! p) = 0 then yield_mlfq p s
            else kbind (kguard (0 \<le> lev (procs s ! p) \<and> lev (procs s ! p) < 10) s) (\<lambda>_ s.
              Ok () (upd_proc p (\<lambda>q. q\<lparr>time_allotment := time_allot s ! nat (lev q)\<rparr>) s))) (\<lambda>_ s.
     sched s))"

text \<open>What \<open>yield\<close> does when the process runs again, and the start of a new process.\<close>

definition yield_resume :: "kst \<Rightarrow> unit kres" where
  "yield_resume s = release LPtable s"

definition boost :: "kst \<Rightarrow> unit kres" where
  "boost s = kbind (acquire LPtable s) (\<lambda>_ s.
     release LPtable (s\<lparr>procs := map (\<lambda>p. p\<lparr>lev := 0, time_allotment := time_allot s ! 0\<rparr>) (procs s)\<rparr>))"

subsection \<open>Choosing a process\<close>

definition scheduler_init :: "kst \<Rightarrow> unit kres" where
  "scheduler_init s =
    (let s = s\<lparr>curproc := None,
               time_quantom := (time_quantom s)[nat STRIDE_LEV := STRIDE_DEFAULT_TIME_QUANTOM],
               time_allot := (time_allot s)[nat STRIDE_LEV := STRIDE_DEFAULT_TIME_QUANTOM],
               mlfq := \<lparr>mshare = 100, mpass = 0\<rparr>\<rparr> in
     lift_aq set_st (aq_push SMlfq (st_of s)) s)"

text \<open>
  The loop that finds the runnable entry with the smallest pass: \<open>i\<close> runs up to \<open>stable_size\<close>. The code dereferences
  every entry it visits, and \<open>stride_pick\<close> is \<open>Undef\<close> when one of them is null.
\<close>

fun min_scan :: "nat \<Rightarrow> nat \<Rightarrow> nat \<Rightarrow> kst \<Rightarrow> nat" where
  "min_scan 0 i min_index s = min_index"
| "min_scan (Suc k) i min_index s = min_scan k (Suc i)
     (if \<not> sp_runnable (stab s ! i) s then min_index
      else if sp_pass (stab s ! i) s < sp_pass (stab s ! min_index) s then i else min_index) s"

text \<open>
  The search of the queues in level order. The entries the loops visit are \<open>mlfq_entries\<close>, where
  \<open>None\<close> stands for a cell outside the row. The result is \<open>Undef\<close> when such a cell or a null entry is
  reached before a process that can run; otherwise \<open>p\<close> at the end of the loops, the first process
  that can run or else the last entry, or \<open>None\<close> when no entry was visited.
\<close>

definition mlfq_ok :: "nat \<Rightarrow> kst \<Rightarrow> bool" where
  "mlfq_ok p s \<longleftrightarrow> state (procs s ! p) = RUNNABLE \<and> share (procs s ! p) = 0"

definition level_entries :: "nat \<Rightarrow> kst \<Rightarrow> pptr list" where
  "level_entries l s = aq_list (aq_of l s)
     @ (if int (length (arrq s ! l)) \<le> q_size s ! l then [None] else [])"

definition mlfq_entries :: "kst \<Rightarrow> pptr list" where
  "mlfq_entries s = concat (map (\<lambda>l. level_entries l s) [0..<DEPTH_QUEUE])"

definition mlfq_scan :: "kst \<Rightarrow> pptr kres" where
  "mlfq_scan s =
    (case List.find (\<lambda>e. case e of None \<Rightarrow> True | Some p \<Rightarrow> mlfq_ok p s) (mlfq_entries s) of
       Some None \<Rightarrow> Undef
     | Some (Some p) \<Rightarrow> Ok (Some p) s
     | None \<Rightarrow> Ok (if mlfq_entries s = [] then None else last (mlfq_entries s)) s)"

text \<open>\<open>switchuvm\<close>; the segment registers and the task state are not modelled.\<close>

definition switchuvm :: "nat \<Rightarrow> kst \<Rightarrow> unit kres" where
  "switchuvm p s = kbind (kassert (kstack (procs s ! p) \<noteq> 0) ''switchuvm: no kstack'' s) (\<lambda>_ s.
     kbind (kassert (pgdir (procs s ! p) \<noteq> 0) ''switchuvm: no pgdir'' s) (\<lambda>_ s.
     Ok () (s\<lparr>cr3 := V2P (pgdir (procs s ! p))\<rparr>)))"

text \<open>
  One iteration of the loop of \<open>scheduler()\<close>, up to the switch to the process it returns; the process
  runs with \<open>ptable.lock\<close> held. It returns \<open>None\<close> when the entry it ended with cannot run. When the
  queues are empty the entry is the local variable \<open>mlfq\<close> itself, whose other fields are not
  initialised.
\<close>

definition stride_pick :: "kst \<Rightarrow> (nat \<times> sptr) kres" where
  "stride_pick s =
    (let m = min_scan (nat (stable_size s + 1)) 0 0 s;
         e = stab s ! m;
         v = sp_pass e s + MULTSTRIDESHARE sdiv sp_share e s in
     kbind (kguard (SNull \<notin> set (aq_list (st_of s)) \<and> e \<noteq> SNull \<and> sp_share e s \<noteq> 0 \<and> int_range v) s) (\<lambda>_ s.
     Ok (m, e) ((sp_set_pass v e s)\<lparr>min_pass := v\<rparr>)))"

definition run_proc :: "nat \<Rightarrow> kst \<Rightarrow> nat option kres" where
  "run_proc p s =
    (if state (procs s ! p) = RUNNABLE then
       let s = upd_proc p (\<lambda>q. q\<lparr>first_scheduled := True, start_tick := mlfq_ticks s\<rparr>) s in
       kbind (switchuvm p (s\<lparr>curproc := Some p\<rparr>)) (\<lambda>_ s.
       Ok (Some p) (upd_proc p (\<lambda>q. q\<lparr>state := RUNNING\<rparr>) s))
     else kbind (release LPtable s) (\<lambda>_ s. Ok None s))"

definition scheduler_step :: "kst \<Rightarrow> nat option kres" where
  "scheduler_step s = kbind (acquire LPtable s) (\<lambda>_ s.
     kbind (kguard (0 \<le> stable_size s \<and> stable_size s < int NPROC) s) (\<lambda>_ s.
     kbind (stride_pick s) (\<lambda>(m, e) s.
     kbind (if m = 0 then mlfq_scan s else Ok None s) (\<lambda>q s.
     case q of
       Some p \<Rightarrow> run_proc p s
     | None \<Rightarrow> (case e of SProc p \<Rightarrow> run_proc p s | _ \<Rightarrow> Undef)))))"

text \<open>After the process switched back.\<close>

definition scheduler_back :: "kst \<Rightarrow> unit kres" where
  "scheduler_back s = release LPtable (s\<lparr>curproc := None\<rparr>)"

subsection \<open>Exit\<close>

text \<open>\<open>exit\<close> from the acquisition of \<open>ptable.lock\<close> on, once the files are closed.\<close>

definition abandon :: "nat \<Rightarrow> nat \<Rightarrow> kst \<Rightarrow> kst" where
  "abandon c p s =
    (if parent (procs s ! p) = Some c then
       let s = upd_proc p (\<lambda>q. q\<lparr>parent := initproc s\<rparr>) s in
       if state (procs s ! p) = ZOMBIE then wakeup1 (map_option ChProc (initproc s)) s else s
     else s)"

definition exit_dequeue :: "nat \<Rightarrow> kst \<Rightarrow> unit kres" where
  "exit_dequeue c s =
    (if share (procs s ! c) = 0 then
       let l = lev (procs s ! c) in
       kbind (kguard (lev_ok l) s) (\<lambda>_ s.
       lift_aq (set_aq (nat l)) (aq_del True (Some c) (aq_of (nat l) s)) s)
     else
       kbind (lift_aq set_st (aq_del True (SProc c) (st_of s)) s) (\<lambda>_ s.
       let m = stab s ! 0 in
       kbind (kguard (m \<noteq> SNull) s) (\<lambda>_ s.
       Ok () (sp_set_share (sp_share m s + share (procs s ! c)) m s))))"

definition exit_tail :: "kst \<Rightarrow> unit kres" where
  "exit_tail s = kbind (acquire LPtable s) (\<lambda>_ s.
     case curproc s of None \<Rightarrow> Undef | Some c \<Rightarrow>
     let s = wakeup1 (map_option ChProc (parent (procs s ! c))) s;
         s = foldl (\<lambda>s p. abandon c p s) s [0..<NPROC] in
     kbind (exit_dequeue c s) (\<lambda>_ s.
     sched (upd_proc c (\<lambda>q. q\<lparr>state := ZOMBIE\<rparr>) s)))"

subsection \<open>The timer\<close>

text \<open>The timer interrupt of CPU 0: \<open>ticks\<close> counts and its sleepers wake up.\<close>

definition timer_irq :: "kst \<Rightarrow> unit kres" where
  "timer_irq s = kbind (acquire LTicks s) (\<lambda>_ s.
     kbind (wakeup (Some ChTicks) (s\<lparr>ticks := uadd (ticks s) 1\<rparr>)) (\<lambda>_ s.
     release LTicks s))"

text \<open>The end of \<open>trap\<close> for a timer interrupt of a running process.\<close>

definition trap_tick :: "kst \<Rightarrow> unit kres" where
  "trap_tick s = (case curproc s of None \<Rightarrow> Ok () s | Some p \<Rightarrow>
     if state (procs s ! p) \<noteq> RUNNING then Ok () s
     else
       kbind (if share (procs s ! p) = 0 then
                kbind (acquire LTicks s) (\<lambda>_ s. release LTicks (s\<lparr>mlfq_ticks := uadd (mlfq_ticks s) 1\<rparr>))
              else Ok () s) (\<lambda>_ s.
       kbind (if mlfq_ticks s mod PERIOD_BOOSTING = 0 then boost s else Ok () s) (\<lambda>_ s.
       let s = upd_proc p (\<lambda>q. q\<lparr>time_allotment := time_allotment q - 1\<rparr>) s;
           l = lev (procs s ! p) in
       kbind (kguard (0 \<le> l \<and> l < 10 \<and> time_quantom s ! nat l \<noteq> 0) s) (\<lambda>_ s.
       if time_allotment (procs s ! p) smod (time_quantom s ! nat l) \<noteq> 0 then Ok () s
       else yield (upd_proc p (\<lambda>q. q\<lparr>from_trap := True\<rparr>) s)))))"

end
