(* ===== verification/SchedSpec.thy ===== *)
theory SchedSpec
  imports Sched
begin

text \<open>
  The invariant of the scheduler and its operations: every live process is exactly once in the queue
  of its level or, when it reserved a share, in the stride table, and the shares add up to 100.
\<close>

lemma upd_proc_simps [simp]:
  "procs (upd_proc i f s) = (procs s)[i := f (procs s ! i)]"
  "held (upd_proc i f s) = held s" "curproc (upd_proc i f s) = curproc s"
  "arrq (upd_proc i f s) = arrq s" "q_size (upd_proc i f s) = q_size s" "stab (upd_proc i f s) = stab s"
  "stable_size (upd_proc i f s) = stable_size s" "mlfq (upd_proc i f s) = mlfq s"
  "min_pass (upd_proc i f s) = min_pass s" "initproc (upd_proc i f s) = initproc s"
  "nextpid (upd_proc i f s) = nextpid s" "ticks (upd_proc i f s) = ticks s"
  "mlfq_ticks (upd_proc i f s) = mlfq_ticks s" "time_quantom (upd_proc i f s) = time_quantom s"
  "time_allot (upd_proc i f s) = time_allot s" "freelist (upd_proc i f s) = freelist s"
  "use_lock (upd_proc i f s) = use_lock s" "kend (upd_proc i f s) = kend s"
  by (simp_all add: upd_proc_def)

lemma upd_proc_held [simp]: "upd_proc i f (s\<lparr>held := h\<rparr>) = (upd_proc i f s)\<lparr>held := h\<rparr>"
  by (simp add: upd_proc_def)

definition queue :: "nat \<Rightarrow> kst \<Rightarrow> pptr list" where
  "queue l s = aq_list (aq_of l s)"

definition strides :: "kst \<Rightarrow> sptr list" where
  "strides s = aq_list (st_of s)"

text \<open>A process that has a place in the scheduler.\<close>

definition live :: "nat \<Rightarrow> kst \<Rightarrow> bool" where
  "live p s \<longleftrightarrow> p < NPROC \<and> state (procs s ! p) \<noteq> UNUSED \<and> state (procs s ! p) \<noteq> ZOMBIE"

definition in_mlfq :: "nat \<Rightarrow> nat \<Rightarrow> kst \<Rightarrow> bool" where
  "in_mlfq l p s \<longleftrightarrow> live p s \<and> share (procs s ! p) = 0 \<and> lev (procs s ! p) = int l"

definition in_stride :: "nat \<Rightarrow> kst \<Rightarrow> bool" where
  "in_stride p s \<longleftrightarrow> live p s \<and> share (procs s ! p) \<noteq> 0"

definition reserved :: "kst \<Rightarrow> int" where
  "reserved s = (\<Sum>p \<in> {p. in_stride p s}. share (procs s ! p))"

definition queues_ok :: "kst \<Rightarrow> bool" where
  "queues_ok s \<longleftrightarrow> (\<forall>l < DEPTH_QUEUE. aq_ok (aq_of l s) \<and> distinct (queue l s)
     \<and> set (queue l s) = Some ` {p. in_mlfq l p s})"

definition strides_ok :: "kst \<Rightarrow> bool" where
  "strides_ok s \<longleftrightarrow> aq_ok (st_of s) \<and> distinct (strides s) \<and> strides s \<noteq> [] \<and> hd (strides s) = SMlfq
     \<and> set (strides s) = insert SMlfq (SProc ` {p. in_stride p s})"

definition levels_ok :: "kst \<Rightarrow> bool" where
  "levels_ok s \<longleftrightarrow> (\<forall>p. live p s \<longrightarrow> 0 \<le> share (procs s ! p)
     \<and> (if share (procs s ! p) = 0 then lev_ok (lev (procs s ! p)) else lev (procs s ! p) = STRIDE_LEV))"

definition sched_inv :: "kst \<Rightarrow> bool" where
  "sched_inv s \<longleftrightarrow> length (procs s) = NPROC \<and> length (arrq s) = DEPTH_QUEUE \<and> length (q_size s) = DEPTH_QUEUE
     \<and> length (time_allot s) = 10 \<and> queues_ok s \<and> strides_ok s \<and> levels_ok s
     \<and> 20 \<le> mshare (mlfq s) \<and> mshare (mlfq s) + reserved s = 100"

lemma sched_invD:
  assumes "sched_inv s"
  shows "length (procs s) = NPROC" "length (arrq s) = DEPTH_QUEUE" "length (q_size s) = DEPTH_QUEUE"
    "length (time_allot s) = 10" "queues_ok s" "strides_ok s" "levels_ok s"
    "20 \<le> mshare (mlfq s)" "mshare (mlfq s) + reserved s = 100"
  using assms by (simp_all add: sched_inv_def)

lemma queues_okD:
  assumes "queues_ok s" "l < DEPTH_QUEUE"
  shows "aq_ok (aq_of l s)" "distinct (queue l s)" "set (queue l s) = Some ` {p. in_mlfq l p s}"
  using assms by (simp_all add: queues_ok_def)

text \<open>A queue that lacks a process has room for it.\<close>

lemma live_room:
  assumes "distinct xs" "set xs \<subseteq> f ` {p. live p s}" "inj f" "f q \<notin> set xs" "q < NPROC"
  shows "length xs < NPROC"
proof -
  have "set xs \<subseteq> f ` ({..<NPROC} - {q})"
    using assms(2,4) by (fastforce simp: live_def)
  then have "card (set xs) \<le> card (f ` ({..<NPROC} - {q}))" by (intro card_mono) simp_all
  also have "\<dots> = NPROC - 1" using assms(3,5) by (simp add: card_image inj_on_subset)
  finally have "length xs \<le> NPROC - 1" using distinct_card[OF assms(1)] by simp
  then show ?thesis using assms(5) by linarith
qed

lemma queue_room:
  assumes "queues_ok s" "l < DEPTH_QUEUE" "\<not> in_mlfq l q s" "q < NPROC"
  shows "length (queue l s) < NPROC"
proof (rule live_room[where f = Some and q = q])
  note Q = queues_okD[OF assms(1,2)]
  show "distinct (queue l s)" by (rule Q(2))
  show "set (queue l s) \<subseteq> Some ` {p. live p s}" unfolding Q(3) by (auto simp: in_mlfq_def)
  show "Some q \<notin> set (queue l s)" unfolding Q(3) using assms(3) by auto
qed (use assms queues_okD[OF assms(1,2)] in auto)

subsection \<open>Frames\<close>

text \<open>The queue part and the process part of a state decide the invariant.\<close>

lemma set_aq_simps [simp]:
  "procs (set_aq l q s) = procs s" "curproc (set_aq l q s) = curproc s" "held (set_aq l q s) = held s"
  "stab (set_aq l q s) = stab s" "stable_size (set_aq l q s) = stable_size s" "mlfq (set_aq l q s) = mlfq s"
  "time_allot (set_aq l q s) = time_allot s" "length (arrq (set_aq l q s)) = length (arrq s)"
  "length (q_size (set_aq l q s)) = length (q_size s)" "min_pass (set_aq l q s) = min_pass s"
  by (simp_all add: set_aq_def)

lemma aq_of_set_aq:
  assumes "length (arrq s) = DEPTH_QUEUE" "length (q_size s) = DEPTH_QUEUE" "l < DEPTH_QUEUE"
  shows "aq_of k (set_aq l q s) = (if k = l then q else aq_of k s)"
  using assms by (auto simp: aq_of_def set_aq_def nth_list_update_if)

lemma aq_of_cong: "arrq t = arrq s \<Longrightarrow> q_size t = q_size s \<Longrightarrow> aq_of l t = aq_of l s"
  by (simp add: aq_of_def)

lemma st_of_cong: "stab t = stab s \<Longrightarrow> stable_size t = stable_size s \<Longrightarrow> st_of t = st_of s"
  by (simp add: st_of_def)

lemma live_cong: "procs t = procs s \<Longrightarrow> live p t = live p s"
  by (simp add: live_def)

lemma live_upd:
  assumes "length (procs s) = NPROC"
  shows "live p (upd_proc q f s) = (if p = q then q < NPROC \<and> state (f (procs s ! q)) \<noteq> UNUSED
     \<and> state (f (procs s ! q)) \<noteq> ZOMBIE else live p s)"
  using assms by (auto simp: live_def)

subsection \<open>Changing one process\<close>

text \<open>\<open>s\<close> and \<open>t\<close> have the same processes but \<open>p\<close>.\<close>

definition others :: "nat \<Rightarrow> kst \<Rightarrow> kst \<Rightarrow> bool" where
  "others p s t \<longleftrightarrow> (\<forall>q < NPROC. q \<noteq> p \<longrightarrow> procs t ! q = procs s ! q)"

lemma others_in:
  assumes "others p s t" "q \<noteq> p"
  shows "in_mlfq l q t = in_mlfq l q s" "in_stride q t = in_stride q s" "live q t = live q s"
  using assms by (auto simp: others_def in_mlfq_def in_stride_def live_def)

lemma set_mlfq_step:
  assumes "others p s t"
  shows "Some ` {q. in_mlfq l q t} = (Some ` {q. in_mlfq l q s} - {Some p}) \<union> (if in_mlfq l p t then {Some p} else {})"
proof -
  have "q \<in> {q. in_mlfq l q t} \<longleftrightarrow> q \<in> ({q. in_mlfq l q s} - {p}) \<union> (if in_mlfq l p t then {p} else {})" for q
    by (cases "q = p") (simp_all add: others_in(1)[OF assms])
  then have e: "{q. in_mlfq l q t} = ({q. in_mlfq l q s} - {p}) \<union> (if in_mlfq l p t then {p} else {})"
    by blast
  show ?thesis by (subst e) auto
qed

lemma set_stride_step:
  assumes "others p s t"
  shows "SProc ` {q. in_stride q t} = (SProc ` {q. in_stride q s} - {SProc p}) \<union> (if in_stride p t then {SProc p} else {})"
proof -
  have "q \<in> {q. in_stride q t} \<longleftrightarrow> q \<in> ({q. in_stride q s} - {p}) \<union> (if in_stride p t then {p} else {})" for q
    by (cases "q = p") (simp_all add: others_in(2)[OF assms])
  then have e: "{q. in_stride q t} = ({q. in_stride q s} - {p}) \<union> (if in_stride p t then {p} else {})"
    by blast
  show ?thesis by (subst e) auto
qed

lemma queues_ok_step:
  assumes q: "queues_ok s" and o: "others p s t"
    and st: "\<And>l. l < DEPTH_QUEUE \<Longrightarrow> aq_ok (aq_of l t) \<and>
      (queue l t = queue l s \<and> in_mlfq l p t = in_mlfq l p s
       \<or> queue l t = remove1 (Some p) (queue l s) @ (if in_mlfq l p t then [Some p] else []))"
  shows "queues_ok t"
  unfolding queues_ok_def
proof (intro allI impI conjI)
  fix l assume l: "l < DEPTH_QUEUE"
  note Q = queues_okD[OF q l]
  show "aq_ok (aq_of l t)" using st[OF l] by simp
  have "distinct (queue l t) \<and> set (queue l t) = Some ` {p. in_mlfq l p t}"
  proof (rule disjE[OF conjunct2[OF st[OF l]]])
    assume A: "queue l t = queue l s \<and> in_mlfq l p t = in_mlfq l p s"
    then show ?thesis
      unfolding set_mlfq_step[OF o] using Q(2,3) by auto
  next
    assume A: "queue l t = remove1 (Some p) (queue l s) @ (if in_mlfq l p t then [Some p] else [])"
    then show ?thesis
      unfolding set_mlfq_step[OF o] using Q(2,3) by (auto simp: set_remove1_eq distinct_remove1)
  qed
  then show "distinct (queue l t)" "set (queue l t) = Some ` {p. in_mlfq l p t}" by simp_all
qed

lemma strides_ok_step:
  assumes q: "strides_ok s" and o: "others p s t" and ok: "aq_ok (st_of t)"
    and st: "strides t = strides s \<and> in_stride p t = in_stride p s
       \<or> strides t = remove1 (SProc p) (strides s) @ (if in_stride p t then [SProc p] else [])"
  shows "strides_ok t"
proof -
  have Q: "distinct (strides s)" "strides s \<noteq> []" "hd (strides s) = SMlfq"
    "set (strides s) = insert SMlfq (SProc ` {p. in_stride p s})"
    using q by (simp_all add: strides_ok_def)
  from st have "distinct (strides t) \<and> strides t \<noteq> [] \<and> hd (strides t) = SMlfq
     \<and> set (strides t) = insert SMlfq (SProc ` {p. in_stride p t})"
  proof
    assume A: "strides t = strides s \<and> in_stride p t = in_stride p s"
    then show ?thesis unfolding set_stride_step[OF o] using Q by auto
  next
    assume A: "strides t = remove1 (SProc p) (strides s) @ (if in_stride p t then [SProc p] else [])"
    obtain ys where ys: "strides s = SMlfq # ys" using Q(2,3) by (cases "strides s") auto
    show ?thesis
      unfolding set_stride_step[OF o] A using Q unfolding ys by (auto simp: set_remove1_eq distinct_remove1)
  qed
  then show ?thesis using ok by (simp add: strides_ok_def)
qed

lemma finite_stride [simp]: "finite {p. in_stride p s}"
  by (rule finite_subset[of _ "{..<NPROC}"]) (auto simp: in_stride_def live_def)

lemma reserved_step:
  assumes o: "others p s t"
  shows "reserved t = reserved s - (if in_stride p s then share (procs s ! p) else 0)
     + (if in_stride p t then share (procs t ! p) else 0)"
proof -
  have part: "reserved u = (\<Sum>q \<in> {q. in_stride q u} - {p}. share (procs u ! q))
     + (if in_stride p u then share (procs u ! p) else 0)" for u
    unfolding reserved_def by (auto simp: sum.remove[of _ p])
  have eq: "{q. in_stride q t} - {p} = {q. in_stride q s} - {p}"
    using others_in(2)[OF o] by auto
  have "(\<Sum>q \<in> {q. in_stride q t} - {p}. share (procs t ! q)) = (\<Sum>q \<in> {q. in_stride q s} - {p}. share (procs s ! q))"
    unfolding eq using o by (intro sum.cong) (auto simp: others_def in_stride_def live_def)
  then show ?thesis using part[of s] part[of t] by simp
qed

lemma levels_ok_step:
  assumes "levels_ok s" "others p s t"
    and "live p t \<Longrightarrow> 0 \<le> share (procs t ! p) \<and> (if share (procs t ! p) = 0 then lev_ok (lev (procs t ! p))
       else lev (procs t ! p) = STRIDE_LEV)"
  shows "levels_ok t"
  unfolding levels_ok_def
proof (intro allI impI)
  fix q assume q: "live q t"
  show "0 \<le> share (procs t ! q) \<and> (if share (procs t ! q) = 0 then lev_ok (lev (procs t ! q))
       else lev (procs t ! q) = STRIDE_LEV)"
  proof (cases "q = p")
    case True
    then show ?thesis using assms(3) q by simp
  next
    case False
    then have "live q s" "procs t ! q = procs s ! q"
      using others_in(3)[OF assms(2) False] q assms(2) by (auto simp: others_def live_def)
    then show ?thesis using assms(1) by (simp add: levels_ok_def)
  qed
qed

text \<open>Changes that keep who is live, the shares and the levels: \<open>wakeup\<close> and new parents.\<close>

lemma sched_inv_cong:
  assumes "sched_inv s" "length (procs t) = length (procs s)"
    and "\<And>p. live p t = live p s" "\<And>p. p < NPROC \<Longrightarrow> share (procs t ! p) = share (procs s ! p)
       \<and> lev (procs t ! p) = lev (procs s ! p)"
    and "arrq t = arrq s" "q_size t = q_size s" "stab t = stab s" "stable_size t = stable_size s"
      "mshare (mlfq t) = mshare (mlfq s)" "time_allot t = time_allot s"
  shows "sched_inv t"
proof -
  have m: "in_mlfq l p t = in_mlfq l p s" and r: "in_stride p t = in_stride p s" for l p
    using assms(3)[of p] assms(4)[of p] by (auto simp: in_mlfq_def in_stride_def live_def)
  have "reserved t = reserved s"
    unfolding reserved_def r using assms(4) by (intro sum.cong) (auto simp: in_stride_def live_def)
  moreover have "queue l t = queue l s" "aq_of l t = aq_of l s" "strides t = strides s" "st_of t = st_of s" for l
    using assms by (simp_all add: queue_def strides_def aq_of_def st_of_def)
  moreover have "levels_ok t"
    using sched_invD(7)[OF assms(1)] assms(3,4) unfolding levels_ok_def by (auto simp: live_def)
  ultimately show ?thesis
    using assms(1,2,5-10) m r by (simp add: sched_inv_def queues_ok_def strides_ok_def)
qed

subsection \<open>\<open>yield\<close>\<close>

lemma queue_set_aq:
  assumes "length (arrq s) = DEPTH_QUEUE" "length (q_size s) = DEPTH_QUEUE" "l < DEPTH_QUEUE"
  shows "queue k (set_aq l q s) = (if k = l then aq_list q else queue k s)"
  using aq_of_set_aq[OF assms] by (simp add: queue_def)

lemma queue_cong: "arrq t = arrq s \<Longrightarrow> q_size t = q_size s \<Longrightarrow> queue l t = queue l s"
  by (simp add: queue_def aq_of_def)

text \<open>The queue operations of \<open>yield_mlfq\<close>, from queue \<open>l\<close> to queue \<open>k\<close>.\<close>

lemma requeue_run:
  assumes len: "length (arrq s) = DEPTH_QUEUE" "length (q_size s) = DEPTH_QUEUE"
    and lk: "l < DEPTH_QUEUE" "k < DEPTH_QUEUE"
    and ok: "aq_ok (aq_of l s)" "distinct (queue l s)" "aq_ok (aq_of k s)"
    and p: "x \<in> set (queue l s)" and room: "k \<noteq> l \<Longrightarrow> length (queue k s) < NPROC"
  shows "\<exists>q r. aq_del False x (aq_of l s) = Some q \<and> aq_push x (aq_of k (set_aq l q s)) = Some r
     \<and> (\<forall>j < DEPTH_QUEUE. (aq_ok (aq_of j s) \<longrightarrow> aq_ok (aq_of j (set_aq k r (set_aq l q s))))
        \<and> queue j (set_aq k r (set_aq l q s)) = (if j = l then remove1 x (queue j s) else queue j s)
            @ (if j = k then [x] else []))"
proof -
  obtain q where q: "aq_del False x (aq_of l s) = Some q" "aq_ok q" "aq_list q = remove1 x (queue l s)"
    using rotq.del_law[OF ok(1), of x] ok(2) by (auto simp: queue_def)
  let ?s = "set_aq l q s"
  have len': "length (arrq ?s) = DEPTH_QUEUE" "length (q_size ?s) = DEPTH_QUEUE" using len by simp_all
  have qs: "queue j ?s = (if j = l then remove1 x (queue j s) else queue j s)" for j
    using queue_set_aq[OF len lk(1)] q(3) by simp
  have okk: "aq_ok (aq_of k ?s)" using ok(3) q(2) aq_of_set_aq[OF len lk(1)] by simp
  have "length (queue k ?s) < NPROC"
  proof (cases "k = l")
    case True
    have l0: "0 < length (queue l s)" using p by (rule length_pos_if_in_set)
    have lN: "length (queue l s) \<le> NPROC" using rotq.cap_law[OF ok(1)] by (simp add: queue_def)
    have "length (remove1 x (queue l s)) = length (queue l s) - 1" using p by (simp add: length_remove1)
    also have "\<dots> < NPROC" using l0 lN by linarith
    finally show ?thesis using True qs by simp
  next
    case False
    then show ?thesis using room qs by simp
  qed
  then obtain r where r: "aq_push x (aq_of k ?s) = Some r" "aq_ok r" "aq_list r = queue k ?s @ [x]"
    using rotq.push_law[OF okk, of x] by (auto simp: queue_def)
  have "aq_ok (aq_of j (set_aq k r ?s))" if "aq_ok (aq_of j s)" for j
    using that q(2) r(2) aq_of_set_aq[OF len' lk(2)] aq_of_set_aq[OF len lk(1)] by simp
  moreover have "queue j (set_aq k r ?s) = (if j = l then remove1 x (queue j s) else queue j s)
            @ (if j = k then [x] else [])" for j
    using queue_set_aq[OF len' lk(2)] r(3) qs by simp
  ultimately show ?thesis using q(1) r(1) by blast
qed

text \<open>The allotment a process yields with, and its next level.\<close>

definition yield_left :: "proc \<Rightarrow> int" where
  "yield_left p = (if from_trap p then time_allotment p else time_allotment p - 1)"

definition yield_lev :: "proc \<Rightarrow> int" where
  "yield_lev p = (if yield_left p = 0 \<and> lev p \<noteq> int DEPTH_QUEUE - 1 then lev p + 1 else lev p)"

definition yielded :: "int list \<Rightarrow> proc \<Rightarrow> proc" where
  "yielded ta p = p\<lparr>state := RUNNABLE, lev := yield_lev p,
     time_allotment := (if yield_lev p = lev p then yield_left p else ta ! nat (yield_lev p))\<rparr>"

lemma yield_mlfq_run:
  assumes inv: "sched_inv s" and p: "in_mlfq l p s" "l < DEPTH_QUEUE"
    and u: "u = upd_proc p (\<lambda>q. q\<lparr>state := RUNNABLE, time_allotment := yield_left (procs s ! p)\<rparr>) (s\<lparr>held := h\<rparr>)"
  shows "\<exists>t. yield_mlfq p u = Ok () t \<and> held t = h \<and> curproc t = curproc s \<and> sched_inv t \<and> others p s t
     \<and> procs t ! p = yielded (time_allot s) (procs s ! p) \<and> strides t = strides s
     \<and> (\<forall>j < DEPTH_QUEUE. queue j t = (if j = l then remove1 (Some p) (queue j s) else queue j s)
          @ (if int j = yield_lev (procs s ! p) then [Some p] else []))"
proof -
  note D = sched_invD[OF inv]
  let ?q = "procs s ! p" and ?k = "nat (yield_lev (procs s ! p))"
  have pl: "p < NPROC" "p < length (procs s)" "lev ?q = int l" "share ?q = 0" "live p s"
    using p D(1) by (auto simp: in_mlfq_def live_def)
  have k: "int ?k = yield_lev ?q" "?k < DEPTH_QUEUE" "?k = l \<or> ?k = Suc l"
    using pl(3) p(2) by (auto simp: yield_lev_def param_defs)
  let ?u = "if yield_lev ?q \<noteq> lev ?q then upd_proc p (\<lambda>q. q\<lparr>lev := lev q + 1\<rparr>) u else u"
  have qu: "queue j ?u = queue j s" "aq_of j ?u = aq_of j s" for j
    unfolding u by (auto simp: queue_def aq_of_def)
  have lu: "length (arrq ?u) = DEPTH_QUEUE" "length (q_size ?u) = DEPTH_QUEUE" using D(2,3) by (auto simp: u)
  have mem: "Some p \<in> set (queue l ?u)" using queues_okD(3)[OF D(5) p(2)] p(1) unfolding qu by simp
  have nk: "\<not> in_mlfq ?k p s" if "?k \<noteq> l" unfolding in_mlfq_def pl(3) using that by linarith
  have room: "?k \<noteq> l \<Longrightarrow> length (queue ?k ?u) < NPROC"
    unfolding qu using queue_room[OF D(5) k(2) nk pl(1)] by blast
  obtain q r where qr: "aq_del False (Some p) (aq_of l ?u) = Some q" "aq_push (Some p) (aq_of ?k (set_aq l q ?u)) = Some r"
    and fin: "\<And>j. j < DEPTH_QUEUE \<Longrightarrow> (aq_ok (aq_of j ?u) \<longrightarrow> aq_ok (aq_of j (set_aq ?k r (set_aq l q ?u))))
        \<and> queue j (set_aq ?k r (set_aq l q ?u)) = (if j = l then remove1 (Some p) (queue j ?u) else queue j ?u)
            @ (if j = ?k then [Some p] else [])"
  proof -
    have ok: "aq_ok (aq_of l ?u)" "distinct (queue l ?u)" "aq_ok (aq_of ?k ?u)"
      unfolding qu using queues_okD(1,2)[OF D(5)] p(2) k(2) by simp_all
    from requeue_run[OF lu p(2) k(2) ok mem room] that show thesis by blast
  qed
  let ?v = "set_aq ?k r (set_aq l q ?u)"
  let ?t = "if yield_lev ?q \<noteq> lev ?q then upd_proc p (\<lambda>q. q\<lparr>time_allotment := time_allot ?v ! ?k\<rparr>) ?v else ?v"
  have y0: "0 \<le> yield_lev ?q" unfolding yield_lev_def pl(3) by simp
  have lo: "lev_ok (lev ?q)" "lev_ok (yield_lev ?q)" using k(2) y0 pl(3) p(2) by (simp_all add: lev_ok_def)
  have run: "yield_mlfq p u = Ok () ?t"
    using pl(2,3) qr lo k unfolding yield_mlfq_def Let_def u
    by (auto simp: lift_aq_def yield_lev_def split: if_splits)
  have qt: "queue j ?t = queue j ?v" "aq_of j ?t = aq_of j ?v" for j by (auto simp: queue_def aq_of_def)
  have oth: "others p s ?t" using pl(2) unfolding others_def u by auto
  have pt: "procs ?t ! p = yielded (time_allot s) ?q"
    using pl(2) unfolding u yielded_def by (auto simp: yield_lev_def)
  have lp: "live p ?t" using pl(1) pt by (simp add: live_def yielded_def)
  have mt: "in_mlfq j p ?t \<longleftrightarrow> j = ?k" for j
    using lp pl(4) pt k(1) by (auto simp: in_mlfq_def yielded_def)
  have qk: "queue j ?t = remove1 (Some p) (queue j s) @ (if in_mlfq j p ?t then [Some p] else [])
      \<and> aq_ok (aq_of j ?t)" if j: "j < DEPTH_QUEUE" for j
  proof -
    have "remove1 (Some p) (queue j s) = queue j s" if "j \<noteq> l"
    proof (rule remove1_idem)
      have "\<not> in_mlfq j p s" using that pl(3) by (simp add: in_mlfq_def)
      then show "Some p \<notin> set (queue j s)" unfolding queues_okD(3)[OF D(5) j] by auto
    qed
    then show ?thesis using fin[OF j] queues_okD(1)[OF D(5) j] unfolding qt mt qu by auto
  qed
  have ns: "\<not> in_stride p s" "\<not> in_stride p ?t" using pl(4) pt by (simp_all add: in_stride_def yielded_def)
  have st: "st_of ?t = st_of s" "strides ?t = strides s" by (auto simp: st_of_def strides_def u)
  have "queues_ok ?t" by (rule queues_ok_step[OF D(5) oth]) (use qk in blast)
  moreover have "strides_ok ?t"
    by (rule strides_ok_step[OF D(6) oth]) (use D(6) st ns in \<open>simp_all add: strides_ok_def\<close>)
  moreover have "levels_ok ?t"
    by (rule levels_ok_step[OF D(7) oth]) (use pl(4) pt lo in \<open>simp add: yielded_def\<close>)
  moreover have "reserved ?t = reserved s" using reserved_step[OF oth] ns by simp
  ultimately have "sched_inv ?t"
    using D lu unfolding sched_inv_def u by auto
  moreover have "\<forall>j < DEPTH_QUEUE. queue j ?t = (if j = l then remove1 (Some p) (queue j s) else queue j s)
          @ (if int j = yield_lev ?q then [Some p] else [])"
  proof (intro allI impI)
    fix j assume j: "j < DEPTH_QUEUE"
    have "int j = yield_lev ?q \<longleftrightarrow> j = ?k" using y0 by linarith
    then show "queue j ?t = (if j = l then remove1 (Some p) (queue j s) else queue j s)
          @ (if int j = yield_lev ?q then [Some p] else [])"
      using conjunct2[OF fin[OF j]] unfolding qt qu by simp
  qed
  moreover have "held ?t = h" "curproc ?t = curproc s" by (auto simp: u)
  ultimately show ?thesis using run oth pt st(2) by blast
qed

text \<open>A process of the multi-level feedback queue yields.\<close>

lemma yield_spec:
  assumes inv: "sched_inv s" and h: "held s = []" and c: "curproc s = Some p"
    and p: "in_mlfq l p s" "l < DEPTH_QUEUE"
  shows "\<exists>t. yield s = Sched t \<and> held t = [LPtable] \<and> sched_inv t \<and> others p s t
     \<and> procs t ! p = yielded (time_allot s) (procs s ! p) \<and> strides t = strides s
     \<and> (\<forall>j < DEPTH_QUEUE. queue j t = (if j = l then remove1 (Some p) (queue j s) else queue j s)
          @ (if int j = yield_lev (procs s ! p) then [Some p] else []))"
proof -
  let ?q = "procs s ! p"
  let ?u = "upd_proc p (\<lambda>q. q\<lparr>state := RUNNABLE, time_allotment := yield_left ?q\<rparr>) (s\<lparr>held := [LPtable]\<rparr>)"
  have pl: "p < length (procs s)" "share ?q = 0"
    using p sched_invD(1)[OF inv] by (simp_all add: in_mlfq_def live_def)
  obtain t where t: "yield_mlfq p ?u = Ok () t" "held t = [LPtable]" "curproc t = curproc s" "sched_inv t"
    "others p s t" "procs t ! p = yielded (time_allot s) ?q" "strides t = strides s"
    "\<forall>j < DEPTH_QUEUE. queue j t = (if j = l then remove1 (Some p) (queue j s) else queue j s)
          @ (if int j = yield_lev ?q then [Some p] else [])"
    using yield_mlfq_run[OF inv p refl, of "[LPtable]"] by blast
  have u: "(if from_trap ?q then upd_proc p (\<lambda>q. q\<lparr>state := RUNNABLE\<rparr>) (s\<lparr>held := [LPtable]\<rparr>)
      else upd_proc p (\<lambda>q. q\<lparr>time_allotment := time_allotment q - 1\<rparr>)
        (upd_proc p (\<lambda>q. q\<lparr>state := RUNNABLE\<rparr>) (s\<lparr>held := [LPtable]\<rparr>))) = ?u"
    using pl by (simp add: upd_proc_def yield_left_def)
  have "yield s = kbind (yield_mlfq p ?u) (\<lambda>_ s. sched s)"
    using h c pl u unfolding yield_def Let_def by (auto simp: kbind_def split: if_splits)
  moreover have "sched t = Sched t"
    using t(2,3,6) c by (simp add: sched_def yielded_def)
  ultimately show ?thesis using t by auto
qed

subsection \<open>\<open>set_cpu_share\<close>\<close>

lemma set_st_simps [simp]:
  "procs (set_st q s) = procs s" "curproc (set_st q s) = curproc s" "held (set_st q s) = held s"
  "arrq (set_st q s) = arrq s" "q_size (set_st q s) = q_size s" "mlfq (set_st q s) = mlfq s"
  "time_allot (set_st q s) = time_allot s" "st_of (set_st q s) = q" "min_pass (set_st q s) = min_pass s"
  "stab (set_st q s) = fst q" "stable_size (set_st q s) = snd q"
  by (simp_all add: set_st_def st_of_def)

lemma strides_hd:
  assumes "strides_ok s"
  shows "stab s ! 0 = SMlfq" "0 \<le> stable_size s"
proof -
  have "aq_ok (st_of s)" "strides s \<noteq> []" "hd (strides s) = SMlfq" using assms by (simp_all add: strides_ok_def)
  then show "stab s ! 0 = SMlfq" "0 \<le> stable_size s"
    by (auto simp: strides_def aq_list_def aq_ok_def st_of_def hd_conv_nth split: if_splits)
qed

lemma set_mlfq_share_frame [simp]:
  "procs (sp_set_share v SMlfq s) = procs s" "arrq (sp_set_share v SMlfq s) = arrq s"
  "q_size (sp_set_share v SMlfq s) = q_size s" "stab (sp_set_share v SMlfq s) = stab s"
  "stable_size (sp_set_share v SMlfq s) = stable_size s" "held (sp_set_share v SMlfq s) = held s"
  "curproc (sp_set_share v SMlfq s) = curproc s" "min_pass (sp_set_share v SMlfq s) = min_pass s"
  "mshare (mlfq (sp_set_share v SMlfq s)) = v" "time_allot (sp_set_share v SMlfq s) = time_allot s"
  by simp_all

declare sp_set_share.simps(2) [simp del]

text \<open>The process after \<open>set_cpu_share(shr)\<close>.\<close>

definition shared :: "int \<Rightarrow> int \<Rightarrow> proc \<Rightarrow> proc" where
  "shared shr mp p = p\<lparr>share := shr, pass := mp, lev := STRIDE_LEV, time_allotment := STRIDE_DEFAULT_TIME_QUANTOM\<rparr>"

lemma set_cpu_share_grant:
  assumes inv: "sched_inv s" and h: "held s = []" and c: "curproc s = Some p"
    and p: "in_mlfq l p s" "l < DEPTH_QUEUE" and room: "length (strides s) < NPROC"
    and shr: "0 < shr" "20 \<le> mshare (mlfq s) - shr"
  shows "\<exists>t. set_cpu_share shr s = Ok 1 t \<and> held t = [] \<and> sched_inv t \<and> others p s t
     \<and> procs t ! p = shared shr (min_pass s) (procs s ! p) \<and> mshare (mlfq t) = mshare (mlfq s) - shr
     \<and> strides t = strides s @ [SProc p]
     \<and> (\<forall>j < DEPTH_QUEUE. queue j t = (if j = l then remove1 (Some p) (queue j s) else queue j s))"
proof -
  note D = sched_invD[OF inv]
  let ?q = "procs s ! p"
  have pl: "p < NPROC" "p < length (procs s)" "lev ?q = int l" "share ?q = 0" "live p s"
    using p D(1) by (auto simp: in_mlfq_def live_def)
  have ms: "mshare (mlfq s) \<le> 100"
  proof -
    have "0 \<le> reserved s" unfolding reserved_def
      using D(7) by (intro sum_nonneg) (auto simp: in_stride_def levels_ok_def)
    then show ?thesis using D(9) by simp
  qed
  have m0: "stab s ! 0 = SMlfq" by (rule strides_hd(1)[OF D(6)])
  have sok: "aq_ok (st_of s)" using D(6) by (simp add: strides_ok_def)
  obtain st where st: "aq_push (SProc p) (st_of s) = Some st" "aq_ok st" "aq_list st = strides s @ [SProc p]"
    using brkq.push_law[OF sok, of "SProc p"] room by (auto simp: strides_def)
  let ?a = "set_st st (s\<lparr>held := [LPtable]\<rparr>)"
  let ?b = "upd_proc p (\<lambda>q. q\<lparr>share := shr, pass := min_pass s\<rparr>) (sp_set_share (mshare (mlfq s) - shr) SMlfq ?a)"
  have aqb: "aq_of j ?b = aq_of j s" "queue j ?b = queue j s" for j by (simp_all add: aq_of_def queue_def)
  obtain q where q: "aq_del True (Some p) (aq_of l s) = Some q" "aq_ok q" "aq_list q = remove1 (Some p) (queue l s)"
    using brkq.del_law[OF queues_okD(1)[OF D(5) p(2)], of "Some p"] queues_okD(2)[OF D(5) p(2)]
    by (auto simp: queue_def)
  let ?f = "upd_proc p (\<lambda>q. q\<lparr>lev := STRIDE_LEV, time_allotment := STRIDE_DEFAULT_TIME_QUANTOM\<rparr>)"
  let ?t = "(?f (set_aq l q ?b))\<lparr>held := []\<rparr>"
  have lb: "length (arrq ?b) = DEPTH_QUEUE" "length (q_size ?b) = DEPTH_QUEUE" using D(2,3) by simp_all
  have run: "set_cpu_share shr s = Ok 1 ?t"
    using h c m0 shr ms st(1) pl p(2) q(1) aqb(1)[of l]
    by (simp add: set_cpu_share_def Let_def int_range_def st_of_def lift_aq_def lev_ok_def)
  have oth: "others p s ?t" using pl(2) by (auto simp: others_def)
  have pt: "procs ?t ! p = shared shr (min_pass s) ?q" using pl(2) by (simp add: shared_def)
  have lp: "live p ?t" using pl(1,5) pt by (simp add: live_def shared_def)
  have nm: "\<not> in_mlfq j p ?t" for j using pt shr(1) by (simp add: in_mlfq_def shared_def)
  have ist: "in_stride p ?t" "\<not> in_stride p s" using pt shr(1) lp pl(4) by (simp_all add: in_stride_def shared_def)
  have qt: "queue j ?t = (if j = l then remove1 (Some p) (queue j s) else queue j s)" for j
    using queue_set_aq[OF lb p(2), of j q] q(3) aqb(2)[of j] by (simp add: queue_def aq_of_def)
  have at: "aq_of j ?t = (if j = l then q else aq_of j s)" for j
    using aq_of_set_aq[OF lb p(2), of j q] aqb(1)[of j] by (simp add: aq_of_def)
  have tt: "st_of ?t = st" "strides ?t = strides s @ [SProc p]" using st(3) by (simp_all add: st_of_def strides_def)
  have nl: "in_mlfq j p s \<longleftrightarrow> j = l" for j using pl by (auto simp: in_mlfq_def)
  have np: "SProc p \<notin> set (strides s)" using D(6) ist(2) by (auto simp: strides_ok_def)
  have "queues_ok ?t"
    by (rule queues_ok_step[OF D(5) oth]) (use nm nl qt at q(2) queues_okD(1)[OF D(5)] in auto)
  moreover have "strides_ok ?t"
    by (rule strides_ok_step[OF D(6) oth]) (use tt st(2) ist(1) np in \<open>simp_all add: remove1_idem\<close>)
  moreover have "levels_ok ?t"
    by (rule levels_ok_step[OF D(7) oth]) (use pt shr(1) in \<open>simp add: shared_def\<close>)
  moreover have "reserved ?t = reserved s + shr" using reserved_step[OF oth] ist pt by (simp add: shared_def)
  moreover have mt: "mshare (mlfq ?t) = mshare (mlfq s) - shr" by (simp add: upd_proc_def set_aq_def sp_set_share.simps)
  ultimately have "sched_inv ?t"
    using D lb shr by (simp add: sched_inv_def)
  then show ?thesis
    using run oth pt mt tt(2) qt by (intro exI[of _ ?t]) simp
qed

lemma set_cpu_share_refuse:
  assumes "sched_inv s" "int_range (mshare (mlfq s) - shr)" "shr < 0 \<or> mshare (mlfq s) - shr < 20"
  shows "set_cpu_share shr s = Ok (- 1) s"
  using assms strides_hd(1)[OF sched_invD(6)[OF assms(1)]] by (auto simp: set_cpu_share_def)

subsection \<open>\<open>exit\<close>\<close>

text \<open>
  The changes \<open>wakeup1\<close> and the loop over the children make: scheduling states from SLEEPING to
  RUNNABLE and parents.
\<close>

definition psched :: "kst \<Rightarrow> kst \<Rightarrow> bool" where
  "psched s t \<longleftrightarrow> t\<lparr>procs := []\<rparr> = s\<lparr>procs := []\<rparr> \<and> length (procs t) = length (procs s)
     \<and> (\<forall>p < length (procs s). (procs t ! p)\<lparr>state := UNUSED, parent := None\<rparr>
            = (procs s ! p)\<lparr>state := UNUSED, parent := None\<rparr>
         \<and> (state (procs t ! p) = state (procs s ! p)
            \<or> state (procs s ! p) = SLEEPING \<and> state (procs t ! p) = RUNNABLE))"

lemma psched_refl: "psched s s"
  by (simp add: psched_def)

lemma psched_nth:
  assumes "psched s t" "p < length (procs s)"
  shows "(procs t ! p)\<lparr>state := UNUSED, parent := None\<rparr> = (procs s ! p)\<lparr>state := UNUSED, parent := None\<rparr>"
    and "state (procs t ! p) = state (procs s ! p)
       \<or> state (procs s ! p) = SLEEPING \<and> state (procs t ! p) = RUNNABLE"
  using assms unfolding psched_def by blast+

lemma psched_trans:
  assumes "psched s t" "psched t u"
  shows "psched s u"
  unfolding psched_def
proof (intro conjI allI impI)
  have l: "length (procs t) = length (procs s)" "length (procs u) = length (procs t)"
    using assms by (simp_all add: psched_def)
  then show "length (procs u) = length (procs s)" by simp
  show "u\<lparr>procs := []\<rparr> = s\<lparr>procs := []\<rparr>" using assms by (simp add: psched_def)
  fix p assume p: "p < length (procs s)"
  then have p': "p < length (procs t)" using l by simp
  note a = psched_nth[OF assms(1) p] and b = psched_nth[OF assms(2) p']
  show "(procs u ! p)\<lparr>state := UNUSED, parent := None\<rparr> = (procs s ! p)\<lparr>state := UNUSED, parent := None\<rparr>"
    using a(1) b(1) by simp
  show "state (procs u ! p) = state (procs s ! p)
       \<or> state (procs s ! p) = SLEEPING \<and> state (procs u ! p) = RUNNABLE"
    using a(2) b(2) by auto
qed

lemma psched_wakeup1: "psched s (wakeup1 ch s)"
  by (auto simp: psched_def wakeup1_def)

lemma psched_parent: "p < length (procs s) \<Longrightarrow> psched s (upd_proc p (\<lambda>q. q\<lparr>parent := x\<rparr>) s)"
  by (auto simp: psched_def upd_proc_def nth_list_update_if)

lemma psched_abandon: "p < length (procs s) \<Longrightarrow> psched s (abandon c p s)"
  unfolding abandon_def Let_def
  by (auto intro: psched_refl psched_parent psched_trans[OF psched_parent psched_wakeup1])

lemma psched_inv:
  assumes "psched s t" "sched_inv s"
  shows "sched_inv t"
proof (rule sched_inv_cong[OF assms(2)])
  have l: "length (procs s) = NPROC" by (rule sched_invD(1)[OF assms(2)])
  have e: "t\<lparr>procs := []\<rparr> = s\<lparr>procs := []\<rparr>" and f: "\<And>p. p < NPROC \<Longrightarrow>
     (procs t ! p)\<lparr>state := UNUSED, parent := None\<rparr> = (procs s ! p)\<lparr>state := UNUSED, parent := None\<rparr>
         \<and> (state (procs t ! p) = state (procs s ! p)
            \<or> state (procs s ! p) = SLEEPING \<and> state (procs t ! p) = RUNNABLE)"
    using assms(1) l unfolding psched_def by auto
  show "length (procs t) = length (procs s)" using assms(1) by (simp add: psched_def)
  show "live p t = live p s" for p using f[of p] by (auto simp: live_def)
  show "share (procs t ! p) = share (procs s ! p) \<and> lev (procs t ! p) = lev (procs s ! p)" if "p < NPROC" for p
    using conjunct1[OF f[OF that]] by (cases "procs t ! p"; cases "procs s ! p") simp
  show "arrq t = arrq s" "q_size t = q_size s" "stab t = stab s" "stable_size t = stable_size s"
      "mshare (mlfq t) = mshare (mlfq s)" "time_allot t = time_allot s" using e by (cases s; cases t; simp)+
qed

lemma psched_frame:
  assumes "psched s t"
  shows "length (procs t) = length (procs s)" "curproc t = curproc s" "initproc t = initproc s" "held t = held s"
    "arrq t = arrq s" "q_size t = q_size s" "stab t = stab s" "stable_size t = stable_size s" "mlfq t = mlfq s"
    "time_allot t = time_allot s" "min_pass t = min_pass s"
  using assms unfolding psched_def by (cases s; cases t; simp)+

lemma psched_proc:
  assumes "psched s t" "p < length (procs s)"
  shows "share (procs t ! p) = share (procs s ! p)" "lev (procs t ! p) = lev (procs s ! p)"
    "live p t = live p s"
  using psched_nth[OF assms] by (cases "procs t ! p"; cases "procs s ! p"; auto simp: live_def)+

lemma parent_wakeup1: "q < length (procs u) \<Longrightarrow> parent (procs (wakeup1 ch u) ! q) = parent (procs u ! q)"
  by (simp add: procs_wakeup1_nth)

lemma parent_abandon:
  "n < length (procs u) \<Longrightarrow> q < length (procs u) \<Longrightarrow> parent (procs (abandon c n u) ! q) =
     (if q = n \<and> parent (procs u ! q) = Some c then initproc u else parent (procs u ! q))"
  by (auto simp: abandon_def Let_def parent_wakeup1 nth_list_update_if)

text \<open>The loop over the children: every child of \<open>c\<close> gets the first process as its parent.\<close>

lemma abandon_parents:
  assumes "n \<le> length (procs s)" "initproc s \<noteq> Some c" "q < length (procs s)"
  defines "w \<equiv> foldl (\<lambda>s p. abandon c p s) s [0..<n]"
  shows "psched s w \<and> parent (procs w ! q) =
    (if parent (procs s ! q) = Some c \<and> q < n then initproc s else parent (procs s ! q))"
  using assms(1) unfolding w_def
proof (induction n)
  case 0
  then show ?case by (simp add: psched_refl)
next
  case (Suc n)
  let ?v = "foldl (\<lambda>s p. abandon c p s) s [0..<n]"
  have IH: "psched s ?v" "parent (procs ?v ! q) = (if parent (procs s ! q) = Some c \<and> q < n then initproc s else parent (procs s ! q))"
    using Suc by simp_all
  note f = psched_frame[OF IH(1)]
  have n: "n < length (procs ?v)" using Suc.prems f(1) by simp
  have q: "q < length (procs ?v)" using assms(3) f(1) by simp
  have "parent (procs (abandon c n ?v) ! q) =
      (if q = n \<and> parent (procs ?v ! q) = Some c then initproc s else parent (procs ?v ! q))"
    unfolding parent_abandon[OF n q] f(3) by (rule refl)
  then have "parent (procs (abandon c n ?v) ! q) =
      (if parent (procs s ! q) = Some c \<and> q < Suc n then initproc s else parent (procs s ! q))"
    unfolding IH(2) using assms(2) by (auto simp: less_Suc_eq)
  then show ?case using psched_trans[OF IH(1) psched_abandon[OF n]] by simp
qed

lemma exit_tail_spec:
  assumes inv: "sched_inv s" and h: "held s = []" and c: "curproc s = Some c" and l: "live c s"
    and i: "initproc s \<noteq> Some c"
  shows "\<exists>t. exit_tail s = Sched t \<and> held t = [LPtable] \<and> sched_inv t \<and> state (procs t ! c) = ZOMBIE
     \<and> mshare (mlfq t) = mshare (mlfq s) + share (procs s ! c)
     \<and> (\<forall>q < NPROC. parent (procs t ! q) = (if parent (procs s ! q) = Some c then initproc s else parent (procs s ! q)))
     \<and> (\<forall>j < DEPTH_QUEUE. queue j t = remove1 (Some c) (queue j s)) \<and> strides t = remove1 (SProc c) (strides s)"
proof -
  let ?s = "s\<lparr>held := [LPtable]\<rparr>"
  let ?s1 = "wakeup1 (map_option ChProc (parent (procs s ! c))) ?s"
  define w where "w = foldl (\<lambda>s p. abandon c p s) ?s1 [0..<NPROC]"
  note D = sched_invD[OF inv]
  have inv': "sched_inv ?s" by (rule sched_inv_cong[OF inv]) (simp_all add: live_def)
  have len: "length (procs ?s1) = NPROC" using D(1) by simp
  have i1: "initproc ?s1 \<noteq> Some c" using i by simp
  have sw: "psched ?s1 w" and par: "\<And>q. q < NPROC \<Longrightarrow> parent (procs w ! q) =
     (if parent (procs s ! q) = Some c then initproc s else parent (procs s ! q))"
  proof -
    have A: "q < NPROC \<Longrightarrow> psched ?s1 w \<and> parent (procs w ! q) =
     (if parent (procs ?s1 ! q) = Some c \<and> q < NPROC then initproc ?s1 else parent (procs ?s1 ! q))" for q
      unfolding w_def by (rule abandon_parents[OF _ i1]) (simp_all only: len order_refl)
    show "psched ?s1 w" using A[of 0] by (simp add: param_defs)
    fix q assume q: "q < NPROC"
    have "parent (procs ?s1 ! q) = parent (procs s ! q)" using q D(1) parent_wakeup1[of q ?s] by simp
    then show "parent (procs w ! q) = (if parent (procs s ! q) = Some c then initproc s else parent (procs s ! q))"
      using A[OF q] q by simp
  qed
  have sw': "psched ?s w" by (rule psched_trans[OF psched_wakeup1 sw])
  note W = sched_invD[OF psched_inv[OF sw' inv']]
  note f = psched_frame[OF sw', simplified]
  have cN: "c < NPROC" "c < length (procs w)" using l W(1) by (simp_all add: live_def)
  have wc: "share (procs w ! c) = share (procs s ! c)" "lev (procs w ! c) = lev (procs s ! c)" "live c w"
    using psched_proc[OF sw', of c] cN D(1) l by (simp_all add: live_def)
  have qw: "queue j w = queue j s" "aq_of j w = aq_of j s" "strides w = strides s" "st_of w = st_of s" for j
    using f by (simp_all add: queue_def aq_of_def strides_def st_of_def)
  have m0: "stab w ! 0 = SMlfq" by (rule strides_hd(1)[OF W(6)])
  let ?Z = "upd_proc c (\<lambda>q. q\<lparr>state := ZOMBIE\<rparr>)"
  have fin: "sched_inv (?Z v) \<and> (\<forall>q < NPROC. parent (procs (?Z v) ! q)
       = (if parent (procs s ! q) = Some c then initproc s else parent (procs s ! q)))"
    if v: "procs v = procs w" "length (arrq v) = DEPTH_QUEUE" "length (q_size v) = DEPTH_QUEUE"
      "time_allot v = time_allot w" "\<And>j. j < DEPTH_QUEUE \<Longrightarrow> aq_ok (aq_of j v) \<and> queue j v = remove1 (Some c) (queue j w)"
      "aq_ok (st_of v)" "strides v = remove1 (SProc c) (strides w)"
      "mshare (mlfq v) = mshare (mlfq w) + share (procs w ! c)" for v
  proof -
    have e: "queue j (?Z v) = queue j v" "aq_of j (?Z v) = aq_of j v" "strides (?Z v) = strides v" "st_of (?Z v) = st_of v" for j
      by (simp_all add: queue_def aq_of_def strides_def st_of_def)
    have oth: "others c w (?Z v)" by (simp add: others_def v(1))
    have nl: "\<not> live c (?Z v)" using cN v(1) by (simp add: live_def)
    then have n: "\<not> in_mlfq j c (?Z v)" "\<not> in_stride c (?Z v)" for j by (simp_all add: in_mlfq_def in_stride_def)
    have "queues_ok (?Z v)" by (rule queues_ok_step[OF W(5) oth]) (use n v(5) e in auto)
    moreover have "strides_ok (?Z v)" by (rule strides_ok_step[OF W(6) oth]) (use n v(6,7) e in auto)
    moreover have "levels_ok (?Z v)" by (rule levels_ok_step[OF W(7) oth]) (use nl in simp)
    moreover have "reserved (?Z v) = reserved w - share (procs w ! c)"
      using reserved_step[OF oth] n wc(3) by (auto simp: in_stride_def)
    moreover have "0 \<le> share (procs w ! c)" using W(7) wc(3) by (simp add: levels_ok_def)
    ultimately have "sched_inv (?Z v)" using W v by (simp add: sched_inv_def)
    then show ?thesis using par cN v(1) by (auto simp: nth_list_update_if)
  qed
  have step: "exit_tail s = kbind (exit_dequeue c w) (\<lambda>_ s. sched (?Z s))"
    using h c by (simp add: exit_tail_def Let_def w_def)
  show ?thesis
  proof (cases "share (procs s ! c) = 0")
    case True
    define k where "k = nat (lev (procs s ! c))"
    have k: "lev_ok (lev (procs w ! c))" "k < DEPTH_QUEUE" "lev (procs s ! c) = int k"
    proof -
      show lo: "lev_ok (lev (procs w ! c))" using W(7) wc True by (auto simp: levels_ok_def)
      then show "lev (procs s ! c) = int k" "k < DEPTH_QUEUE" by (simp_all add: lev_ok_def k_def wc(2) nat_less_iff)
    qed
    obtain q where q: "aq_del True (Some c) (aq_of k w) = Some q" "aq_ok q" "aq_list q = remove1 (Some c) (queue k w)"
      using brkq.del_law[OF queues_okD(1)[OF W(5) k(2)], of "Some c"] queues_okD(2)[OF W(5) k(2)]
      by (auto simp: queue_def)
    let ?v = "set_aq k q w"
    have rm: "remove1 (Some c) (queue j w) = queue j w" if "j \<noteq> k" "j < DEPTH_QUEUE" for j
      using that queues_okD(3)[OF W(5) that(2)] wc(2) k(3) by (intro remove1_idem) (auto simp: in_mlfq_def)
    have rs: "remove1 (SProc c) (strides w) = strides w"
      using W(6) wc(1) True by (intro remove1_idem) (auto simp: strides_ok_def in_stride_def)
    have qv: "aq_ok (aq_of j ?v) \<and> queue j ?v = remove1 (Some c) (queue j w)" if "j < DEPTH_QUEUE" for j
      using that aq_of_set_aq[OF W(2,3) k(2), of j q] queue_set_aq[OF W(2,3) k(2), of j q] q(2,3) rm[of j]
        queues_okD(1)[OF W(5) that] by auto
    have sv: "st_of ?v = st_of w" "strides ?v = strides w" by (simp_all add: st_of_def strides_def)
    have "sched_inv (?Z ?v) \<and> (\<forall>q < NPROC. parent (procs (?Z ?v) ! q)
       = (if parent (procs s ! q) = Some c then initproc s else parent (procs s ! q)))"
      by (rule fin) (use W qv sv rs True wc in \<open>auto simp: strides_ok_def\<close>)
    moreover have "exit_tail s = Sched (?Z ?v)"
      using c True q(1) k f(4) cN wc unfolding step exit_dequeue_def
      by (simp add: lift_aq_def sched_def f(2))
    moreover have "strides (?Z ?v) = remove1 (SProc c) (strides s)"
      using sv rs qw by (simp add: strides_def st_of_def)
    moreover have "queue j (?Z ?v) = remove1 (Some c) (queue j s)" if "j < DEPTH_QUEUE" for j
      using qv[OF that] sv rs qw by (simp_all add: queue_def aq_of_def strides_def st_of_def)
    ultimately show ?thesis
      using f cN True by (intro exI[of _ "?Z ?v"]) (auto simp: param_defs)
  next
    case False
    obtain q where q: "aq_del True (SProc c) (st_of w) = Some q" "aq_ok q" "aq_list q = remove1 (SProc c) (strides w)"
      using brkq.del_law[of "st_of w" "SProc c"] W(6) by (auto simp: strides_def strides_ok_def)
    let ?u = "set_st q w"
    have u0: "stab ?u ! 0 = SMlfq"
    proof -
      obtain ys where ys: "strides w = SMlfq # ys" using W(6) by (cases "strides w") (auto simp: strides_ok_def)
      have "aq_list q = SMlfq # remove1 (SProc c) ys" unfolding q(3) ys by simp
      then show ?thesis by (cases "fst q"; cases "nat (snd q + 1)") (auto simp: aq_list_def)
    qed
    let ?v = "sp_set_share (sp_share SMlfq ?u + share (procs ?u ! c)) SMlfq ?u"
    have rm: "remove1 (Some c) (queue j w) = queue j w" if "j < DEPTH_QUEUE" for j
      using that queues_okD(3)[OF W(5) that] wc(1) False by (intro remove1_idem) (auto simp: in_mlfq_def)
    have qv: "queue j ?v = queue j w" "aq_of j ?v = aq_of j w" "st_of ?v = q" "strides ?v = aq_list q" for j
      by (simp_all add: queue_def aq_of_def st_of_def strides_def)
    have "sched_inv (?Z ?v) \<and> (\<forall>q < NPROC. parent (procs (?Z ?v) ! q)
       = (if parent (procs s ! q) = Some c then initproc s else parent (procs s ! q)))"
      by (rule fin) (use W qv rm q in \<open>auto simp: queues_ok_def\<close>)
    moreover have "exit_tail s = Sched (?Z ?v)"
      using c False q(1) f(4) cN wc u0 unfolding step exit_dequeue_def
      by (simp add: lift_aq_def sched_def f(2))
    moreover have "strides (?Z ?v) = remove1 (SProc c) (strides s)"
      using qv q(3) qw by (simp add: strides_def st_of_def)
    moreover have "queue j (?Z ?v) = remove1 (Some c) (queue j s)" if "j < DEPTH_QUEUE" for j
      using rm[OF that] qv q(3) qw by (simp_all add: queue_def aq_of_def strides_def st_of_def)
    ultimately show ?thesis
      using f cN wc by (intro exI[of _ "?Z ?v"]) (auto simp: param_defs)
  qed
qed

end
