(* ===== verification/SchedPick.thy ===== *)
theory SchedPick
  imports SchedSpec
begin

text \<open>
  Which process the scheduler runs: the entry of the stride table with the smallest pass, and for the
  multi-level feedback queue the first process that can run in the order of the levels.
\<close>

subsection \<open>The smallest pass\<close>

lemma min_scan_spec:
  assumes "m = 0 \<or> sp_runnable (stab s ! m) s \<and> m < i"
    and "\<forall>j < i. sp_runnable (stab s ! j) s \<longrightarrow> sp_pass (stab s ! m) s \<le> sp_pass (stab s ! j) s"
  shows "let r = min_scan k i m s in (r = 0 \<or> sp_runnable (stab s ! r) s \<and> r < i + k)
     \<and> (\<forall>j < i + k. sp_runnable (stab s ! j) s \<longrightarrow> sp_pass (stab s ! r) s \<le> sp_pass (stab s ! j) s)"
  using assms
proof (induction k arbitrary: i m)
  case 0
  then show ?case by simp
next
  case (Suc k)
  define n where "n = (if \<not> sp_runnable (stab s ! i) s then m
      else if sp_pass (stab s ! i) s < sp_pass (stab s ! m) s then i else m)"
  have "n = 0 \<or> sp_runnable (stab s ! n) s \<and> n < Suc i"
    using Suc.prems(1) by (auto simp: n_def)
  moreover have "\<forall>j < Suc i. sp_runnable (stab s ! j) s \<longrightarrow> sp_pass (stab s ! n) s \<le> sp_pass (stab s ! j) s"
    using Suc.prems(2) by (fastforce simp: n_def less_Suc_eq)
  ultimately show ?case using Suc.IH[of n "Suc i"] by (simp add: n_def)
qed

lemma strides_nth:
  assumes "strides_ok s" "j < nat (stable_size s + 1)"
  shows "stab s ! j = strides s ! j" "j < length (strides s)" "length (strides s) = nat (stable_size s + 1)"
  using assms length_aq_list[of "st_of s"] by (auto simp: strides_ok_def strides_def aq_list_def st_of_def)

text \<open>The entry the scheduler takes.\<close>

definition min_entry :: "kst \<Rightarrow> sptr" where
  "min_entry s = stab s ! min_scan (nat (stable_size s + 1)) 0 0 s"

lemma min_entry_spec:
  assumes "strides_ok s"
  shows "min_entry s \<in> set (strides s)" "sp_runnable (min_entry s) s"
    "e \<in> set (strides s) \<Longrightarrow> sp_runnable e s \<Longrightarrow> sp_pass (min_entry s) s \<le> sp_pass e s"
    "min_scan (nat (stable_size s + 1)) 0 0 s = 0 \<longleftrightarrow> min_entry s = SMlfq"
proof -
  let ?n = "nat (stable_size s + 1)"
  let ?r = "min_scan ?n 0 0 s"
  note hd = strides_hd[OF assms]
  have n: "0 < ?n" using hd(2) by simp
  have R: "?r = 0 \<or> sp_runnable (stab s ! ?r) s \<and> ?r < ?n"
    "\<forall>j < ?n. sp_runnable (stab s ! j) s \<longrightarrow> sp_pass (stab s ! ?r) s \<le> sp_pass (stab s ! j) s"
    using min_scan_spec[of 0 s 0 ?n] by (simp_all add: Let_def)
  have rn: "?r < ?n" using R(1) n by auto
  note st = strides_nth[OF assms]
  show "min_entry s \<in> set (strides s)" unfolding min_entry_def st(1)[OF rn] using st(2)[OF rn] by simp
  show "sp_runnable (min_entry s) s" unfolding min_entry_def using R(1) hd(1) by auto
  show "sp_pass (min_entry s) s \<le> sp_pass e s" if "e \<in> set (strides s)" "sp_runnable e s"
  proof -
    obtain j where j: "j < length (strides s)" "e = strides s ! j" using \<open>e \<in> set (strides s)\<close> by (auto simp: in_set_conv_nth)
    then have jn: "j < ?n" using st(3)[OF n] by simp
    have e: "stab s ! j = e" using st(1)[OF jn] j(2) by simp
    from R(2)[rule_format, OF jn] show ?thesis unfolding e min_entry_def using that(2) by blast
  qed
  have "distinct (strides s)" using assms by (simp add: strides_ok_def)
  then show "?r = 0 \<longleftrightarrow> min_entry s = SMlfq"
    using hd(1) st(1)[OF rn] st(1)[OF n] st(2)[OF rn] st(2)[OF n] by (metis min_entry_def nth_eq_iff_index_eq)
qed

subsection \<open>The first process that can run\<close>

lemma find_split:
  "List.find P xs = Some x \<Longrightarrow> \<exists>ys zs. xs = ys @ x # zs \<and> P x \<and> (\<forall>y \<in> set ys. \<not> P y)"
proof (induction xs)
  case (Cons a xs)
  show ?case
  proof (cases "P a")
    case True
    then show ?thesis using Cons.prems by (intro exI[of _ "[]"] exI[of _ xs]) simp
  next
    case False
    then obtain ys zs where "xs = ys @ x # zs" "P x" "\<forall>y \<in> set ys. \<not> P y" using Cons by auto
    then show ?thesis using False by (intro exI[of _ "a # ys"] exI[of _ zs]) simp
  qed
qed simp

lemma find_append: "List.find P (xs @ ys) = (case List.find P xs of None \<Rightarrow> List.find P ys | Some x \<Rightarrow> Some x)"
  by (induction xs) auto

lemma find_concat:
  "List.find P (concat xss) = Some x \<Longrightarrow> \<exists>l ys zs. l < length xss \<and> xss ! l = ys @ x # zs \<and> P x
     \<and> (\<forall>y \<in> set ys. \<not> P y) \<and> (\<forall>k < l. \<forall>y \<in> set (xss ! k). \<not> P y)"
proof (induction xss)
  case (Cons xs xss)
  show ?case
  proof (cases "List.find P xs")
    case None
    then have f: "List.find P (concat xss) = Some x" using Cons.prems by (simp add: find_append)
    obtain l ys zs where A: "l < length xss" "xss ! l = ys @ x # zs" "P x" "\<forall>y \<in> set ys. \<not> P y"
      "\<forall>k < l. \<forall>y \<in> set (xss ! k). \<not> P y" using Cons.IH[OF f] by blast
    have "\<forall>k < Suc l. \<forall>y \<in> set ((xs # xss) ! k). \<not> P y"
      using A(5) None by (auto simp: less_Suc_eq_0_disj find_None_iff)
    then show ?thesis using A by (intro exI[of _ "Suc l"] exI[of _ ys] exI[of _ zs]) simp
  next
    case (Some y)
    then have "List.find P xs = Some x" using Cons.prems by (simp add: find_append)
    from find_split[OF this] show ?thesis by (intro exI[of _ 0]) auto
  qed
qed simp

text \<open>\<open>p\<close> is the first process that can run, in the order of the levels and of each queue.\<close>

definition first_runnable :: "nat \<Rightarrow> kst \<Rightarrow> bool" where
  "first_runnable p s \<longleftrightarrow> state (procs s ! p) = RUNNABLE
     \<and> (\<exists>l ys zs. l < DEPTH_QUEUE \<and> queue l s = ys @ Some p # zs
        \<and> (\<forall>q. Some q \<in> set ys \<longrightarrow> state (procs s ! q) \<noteq> RUNNABLE)
        \<and> (\<forall>k < l. \<forall>q. Some q \<in> set (queue k s) \<longrightarrow> state (procs s ! q) \<noteq> RUNNABLE))"

lemma level_entries_eq:
  assumes "queues_ok s" "l < DEPTH_QUEUE"
  shows "level_entries l s = queue l s"
  using queues_okD(1)[OF assms] by (simp add: level_entries_def queue_def aq_ok_def aq_of_def)

lemma mlfq_entries_eq:
  assumes "queues_ok s"
  shows "mlfq_entries s = concat (map (\<lambda>l. queue l s) [0..<DEPTH_QUEUE])"
  unfolding mlfq_entries_def using level_entries_eq[OF assms] by (intro arg_cong[of _ _ concat] map_cong) auto

lemma mlfq_entries_set:
  assumes "queues_ok s"
  shows "e \<in> set (mlfq_entries s) \<longleftrightarrow> (\<exists>l < DEPTH_QUEUE. \<exists>p. e = Some p \<and> in_mlfq l p s)"
  unfolding mlfq_entries_eq[OF assms] using queues_okD(3)[OF assms] by auto

lemma mlfq_scan_found:
  assumes q: "queues_ok s" and r: "in_mlfq l p s" "l < DEPTH_QUEUE" "state (procs s ! p) = RUNNABLE"
  shows "\<exists>p. mlfq_scan s = Ok (Some p) s \<and> first_runnable p s"
proof -
  let ?P = "\<lambda>e. case e of None \<Rightarrow> True | Some p \<Rightarrow> mlfq_ok p s"
  have P: "?P e = (\<exists>q. e = Some q \<and> state (procs s ! q) = RUNNABLE)" if e: "e \<in> set (mlfq_entries s)" for e
  proof -
    obtain l q where "e = Some q" "in_mlfq l q s" using e mlfq_entries_set[OF q] by blast
    then show ?thesis by (simp add: mlfq_ok_def in_mlfq_def)
  qed
  have "Some p \<in> set (mlfq_entries s)" using r mlfq_entries_set[OF q] by blast
  then have "List.find ?P (mlfq_entries s) \<noteq> None" using P r(3) unfolding find_None_iff by blast
  then obtain e where e: "List.find ?P (mlfq_entries s) = Some e" by blast
  then have "e \<in> set (mlfq_entries s)" "?P e" by (auto simp: find_Some_iff)
  then obtain p' where p': "e = Some p'" "state (procs s ! p') = RUNNABLE" using P by blast
  obtain k ys zs where A: "k < length (map (\<lambda>l. queue l s) [0..<DEPTH_QUEUE])"
    "map (\<lambda>l. queue l s) [0..<DEPTH_QUEUE] ! k = ys @ e # zs" "\<forall>y \<in> set ys. \<not> ?P y"
    "\<forall>j < k. \<forall>y \<in> set (map (\<lambda>l. queue l s) [0..<DEPTH_QUEUE] ! j). \<not> ?P y"
    using find_concat[OF e[unfolded mlfq_entries_eq[OF q]]] by blast
  have k: "k < DEPTH_QUEUE" "queue k s = ys @ Some p' # zs" using A(1,2) p'(1) by simp_all
  have inq: "y \<in> set (mlfq_entries s)" if "y \<in> set (queue j s)" "j < DEPTH_QUEUE" for y j
    unfolding mlfq_entries_eq[OF q] using that by auto
  have "\<forall>q. Some q \<in> set ys \<longrightarrow> state (procs s ! q) \<noteq> RUNNABLE"
  proof (intro allI impI)
    fix q' assume m: "Some q' \<in> set ys"
    then have "Some q' \<in> set (mlfq_entries s)" using inq[of "Some q'" k] k by simp
    from P[OF this] A(3) m show "state (procs s ! q') \<noteq> RUNNABLE" by auto
  qed
  moreover have "\<forall>j < k. \<forall>q. Some q \<in> set (queue j s) \<longrightarrow> state (procs s ! q) \<noteq> RUNNABLE"
  proof (intro allI impI)
    fix j q' assume j: "j < k" and m: "Some q' \<in> set (queue j s)"
    then have "Some q' \<in> set (mlfq_entries s)" using inq[of "Some q'" j] k(1) by simp
    moreover have "\<not> ?P (Some q')"
    proof -
      have "\<forall>y \<in> set (queue j s). \<not> ?P y" using A(4)[rule_format, OF j] j k(1) by simp
      from bspec[OF this m] show ?thesis .
    qed
    ultimately show "state (procs s ! q') \<noteq> RUNNABLE" using P by blast
  qed
  ultimately have "first_runnable p' s" using p'(2) k unfolding first_runnable_def by blast
  moreover have "mlfq_scan s = Ok (Some p') s" using e p'(1) by (simp add: mlfq_scan_def)
  ultimately show ?thesis by blast
qed

subsection \<open>One iteration of the scheduler\<close>

text \<open>\<open>t\<close> is \<open>s\<close> with process \<open>q\<close> running; stacks and page tables are the same.\<close>

definition started :: "nat \<Rightarrow> kst \<Rightarrow> kst \<Rightarrow> bool" where
  "started q s t \<longleftrightarrow> q < NPROC \<and> curproc t = Some q \<and> state (procs t ! q) = RUNNING
     \<and> (\<forall>p. p \<noteq> q \<longrightarrow> state (procs t ! p) = state (procs s ! p))
     \<and> (\<forall>p. kstack (procs t ! p) = kstack (procs s ! p) \<and> pgdir (procs t ! p) = pgdir (procs s ! p))"

text \<open>Passes and run states do not matter for the invariant.\<close>

definition qsame :: "kst \<Rightarrow> kst \<Rightarrow> bool" where
  "qsame s t \<longleftrightarrow> length (procs t) = length (procs s) \<and> (\<forall>p. live p t = live p s)
     \<and> (\<forall>p < NPROC. share (procs t ! p) = share (procs s ! p) \<and> lev (procs t ! p) = lev (procs s ! p))
     \<and> arrq t = arrq s \<and> q_size t = q_size s \<and> stab t = stab s \<and> stable_size t = stable_size s
     \<and> mshare (mlfq t) = mshare (mlfq s) \<and> time_allot t = time_allot s"

lemma qsame_inv:
  assumes "qsame s t" "sched_inv s"
  shows "sched_inv t" "queue j t = queue j s" "strides t = strides s" "in_mlfq l p t = in_mlfq l p s"
proof -
  show "sched_inv t"
    by (rule sched_inv_cong[OF assms(2)]) (use assms(1) in \<open>simp_all add: qsame_def\<close>)
  show "queue j t = queue j s" "strides t = strides s"
    using assms(1) by (simp_all add: qsame_def queue_def aq_of_def strides_def st_of_def)
  show "in_mlfq l p t = in_mlfq l p s"
    using assms(1) by (auto simp: qsame_def in_mlfq_def live_def)
qed

lemma sp_pass_set:
  assumes "e \<noteq> SNull" "case e of SProc p \<Rightarrow> p < length (procs s) | _ \<Rightarrow> True"
  shows "sp_pass e (sp_set_pass v e s) = v" "x \<noteq> e \<Longrightarrow> sp_pass x (sp_set_pass v e s) = sp_pass x s"
proof -
  show "sp_pass e (sp_set_pass v e s) = v" using assms by (cases e) simp_all
  show "x \<noteq> e \<Longrightarrow> sp_pass x (sp_set_pass v e s) = sp_pass x s"
    using assms by (cases e; cases x) (auto simp: nth_list_update_if)
qed

lemma qsame_pick:
  "length (procs s) = NPROC \<Longrightarrow> qsame s ((sp_set_pass v e (s\<lparr>held := h\<rparr>))\<lparr>min_pass := m\<rparr>)"
  by (cases e) (auto simp: qsame_def live_def nth_list_update_if)

lemma state_pick: "state (procs ((sp_set_pass v e (s\<lparr>held := h\<rparr>))\<lparr>min_pass := m\<rparr>) ! p) = state (procs s ! p)"
    "kstack (procs ((sp_set_pass v e (s\<lparr>held := h\<rparr>))\<lparr>min_pass := m\<rparr>) ! p) = kstack (procs s ! p)"
    "pgdir (procs ((sp_set_pass v e (s\<lparr>held := h\<rparr>))\<lparr>min_pass := m\<rparr>) ! p) = pgdir (procs s ! p)"
  by (cases e; auto simp: nth_list_update_if)+

lemma run_proc_runs:
  assumes "state (procs u ! q) = RUNNABLE" "q < length (procs u)" "length (procs u) = NPROC"
    "kstack (procs u ! q) \<noteq> 0" "pgdir (procs u ! q) \<noteq> 0"
  shows "\<exists>t. run_proc q u = Ok (Some q) t \<and> qsame u t \<and> held t = held u \<and> started q u t
     \<and> min_pass t = min_pass u \<and> (\<forall>e. sp_pass e t = sp_pass e u)"
proof -
  let ?v = "(upd_proc q (\<lambda>p. p\<lparr>first_scheduled := True, start_tick := mlfq_ticks u\<rparr>) u)\<lparr>curproc := Some q\<rparr>"
  let ?w = "?v\<lparr>cr3 := V2P (pgdir (procs u ! q))\<rparr>"
  let ?t = "upd_proc q (\<lambda>p. p\<lparr>state := RUNNING\<rparr>) ?w"
  have "switchuvm q ?v = Ok () ?w" using assms by (simp add: switchuvm_def)
  then have r: "run_proc q u = Ok (Some q) ?t" using assms(1) by (simp add: run_proc_def Let_def)
  have "qsame u ?t" using assms by (auto simp: qsame_def live_def nth_list_update_if)
  moreover have "sp_pass e ?t = sp_pass e u" for e using assms(2) by (cases e) (auto simp: nth_list_update_if)
  moreover have "started q u ?t" using assms(2,3) by (auto simp: started_def nth_list_update_if)
  ultimately show ?thesis using r assms(2) by simp
qed

lemma qsame_trans: "qsame s t \<Longrightarrow> qsame t u \<Longrightarrow> qsame s u"
  by (simp add: qsame_def)

lemma sdiv_pos: "0 < y \<Longrightarrow> 0 \<le> x \<Longrightarrow> x sdiv y = x div (y :: int)"
  by (cases "x = 0") (simp_all add: signed_divide_int_def)

lemma strides_mem:
  assumes "sched_inv s" "e \<in> set (strides s)"
  shows "e \<noteq> SNull" "case e of SProc p \<Rightarrow> p < length (procs s) \<and> in_stride p s | _ \<Rightarrow> True" "0 < sp_share e s"
proof -
  note D = sched_invD[OF assms(1)]
  have "e = SMlfq \<or> (\<exists>p. e = SProc p \<and> in_stride p s)" using assms(2) D(6) by (auto simp: strides_ok_def)
  then show "e \<noteq> SNull" "case e of SProc p \<Rightarrow> p < length (procs s) \<and> in_stride p s | _ \<Rightarrow> True" "0 < sp_share e s"
    using D(1,7,8) by (fastforce simp: in_stride_def live_def levels_ok_def)+
qed

lemma scheduler_step_spec:
  assumes inv: "sched_inv s" and h: "held s = []"
    and rng: "\<forall>e \<in> set (strides s). 0 \<le> sp_pass e s \<and> sp_pass e s + MULTSTRIDESHARE < 2 ^ 31"
    and mem: "\<forall>p < NPROC. state (procs s ! p) = RUNNABLE \<longrightarrow> kstack (procs s ! p) \<noteq> 0 \<and> pgdir (procs s ! p) \<noteq> 0"
    and run: "min_entry s = SMlfq \<Longrightarrow> \<exists>l p. l < DEPTH_QUEUE \<and> in_mlfq l p s \<and> state (procs s ! p) = RUNNABLE"
  shows "\<exists>q t. scheduler_step s = Ok (Some q) t
     \<and> (if min_entry s = SMlfq then first_runnable q s else min_entry s = SProc q)
     \<and> qsame s t \<and> held t = [LPtable] \<and> started q s t
     \<and> min_pass t = sp_pass (min_entry s) s + MULTSTRIDESHARE div sp_share (min_entry s) s
     \<and> sp_pass (min_entry s) t = min_pass t \<and> (\<forall>e. e \<noteq> min_entry s \<longrightarrow> sp_pass e t = sp_pass e s)"
proof -
  note D = sched_invD[OF inv]
  let ?e = "min_entry s" and ?m = "min_scan (nat (stable_size s + 1)) 0 0 s"
  note M = min_entry_spec[OF D(6)]
  note E = strides_mem[OF inv M(1)]
  define v where "v = sp_pass ?e s + MULTSTRIDESHARE div sp_share ?e s"
  define u where "u = (sp_set_pass v ?e (s\<lparr>held := [LPtable]\<rparr>))\<lparr>min_pass := v\<rparr>"
  have ms: "min_scan k i m (s\<lparr>held := x\<rparr>) = min_scan k i m s" for k i m x
  proof (induction k arbitrary: i m)
    case (Suc k)
    have "sp_runnable e (s\<lparr>held := x\<rparr>) = sp_runnable e s" "sp_pass e (s\<lparr>held := x\<rparr>) = sp_pass e s" for e
      by (cases e; simp)+
    then show ?case using Suc by simp
  qed simp
  have sps: "sp_share ?e (s\<lparr>held := x\<rparr>) = sp_share ?e s" "sp_pass ?e (s\<lparr>held := x\<rparr>) = sp_pass ?e s" for x
    by (cases ?e; simp)+
  have "MULTSTRIDESHARE div sp_share ?e s \<le> MULTSTRIDESHARE" "0 \<le> MULTSTRIDESHARE div sp_share ?e s"
    using E(3) zdiv_mono2[of MULTSTRIDESHARE 1 "sp_share ?e s"]
    by (simp_all add: pos_imp_zdiv_nonneg_iff param_defs)
  then have iv: "int_range v" using rng M(1) by (auto simp: int_range_def v_def)
  have sd: "MULTSTRIDESHARE sdiv sp_share ?e s = MULTSTRIDESHARE div sp_share ?e s"
    using E(3) by (intro sdiv_pos) (simp_all add: param_defs)
  have "SNull \<notin> set (strides s)" using strides_mem(1)[OF inv, of SNull] by blast
  then have nn: "SNull \<notin> set (aq_list (st_of (s\<lparr>held := [LPtable]\<rparr>)))" by (simp add: strides_def st_of_def)
  have pick: "stride_pick (s\<lparr>held := [LPtable]\<rparr>) = Ok (?m, ?e) u"
    using iv E(1,3) nn unfolding stride_pick_def Let_def
    by (simp add: ms min_entry_def[symmetric] sps sd v_def[symmetric] u_def)
  have su: "qsame s u" unfolding u_def by (rule qsame_pick[OF D(1)])
  have lu: "length (procs u) = NPROC" using su D(1) by (simp add: qsame_def)
  have pu: "min_pass u = v" "sp_pass ?e u = v" "e \<noteq> ?e \<Longrightarrow> sp_pass e u = sp_pass e s" "held u = [LPtable]" for e
  proof -
    have b: "sp_pass x (y\<lparr>min_pass := z\<rparr>) = sp_pass x y" "sp_pass x (s\<lparr>held := h\<rparr>) = sp_pass x s" for x y z h
      by (cases x; simp)+
    have c: "case ?e of SProc p \<Rightarrow> p < length (procs (s\<lparr>held := [LPtable]\<rparr>)) | _ \<Rightarrow> True"
      using E(2) by (cases ?e) simp_all
    show "min_pass u = v" by (simp add: u_def)
    show "sp_pass ?e u = v" unfolding u_def b(1) by (rule sp_pass_set(1)[OF E(1) c])
    show "e \<noteq> ?e \<Longrightarrow> sp_pass e u = sp_pass e s" unfolding u_def b(1) using sp_pass_set(2)[OF E(1) c] b(2) by simp
    show "held u = [LPtable]" by (cases ?e) (simp_all add: u_def)
  qed
  note si = state_pick[where v = v and e = "?e" and s = s and h = "[LPtable]" and m = v, folded u_def]
  have fin: "\<exists>q t. scheduler_step s = Ok (Some q) t
     \<and> (if ?e = SMlfq then first_runnable q s else ?e = SProc q)
     \<and> qsame s t \<and> held t = [LPtable] \<and> started q s t
     \<and> min_pass t = v \<and> sp_pass ?e t = min_pass t \<and> (\<forall>e. e \<noteq> ?e \<longrightarrow> sp_pass e t = sp_pass e s)"
    if st: "scheduler_step s = run_proc q u" and q: "if ?e = SMlfq then first_runnable q s else ?e = SProc q"
      "state (procs s ! q) = RUNNABLE" "q < NPROC" for q
  proof -
    obtain t where t: "run_proc q u = Ok (Some q) t" "qsame u t" "held t = held u" "started q u t"
      "min_pass t = min_pass u" "\<forall>e. sp_pass e t = sp_pass e u"
    proof -
      have "state (procs u ! q) = RUNNABLE" unfolding si by (rule q(2))
      moreover have "q < length (procs u)" unfolding lu by (rule q(3))
      moreover have "kstack (procs u ! q) \<noteq> 0" "pgdir (procs u ! q) \<noteq> 0"
        unfolding si using mem[rule_format, OF q(3,2)] by simp_all
      ultimately show ?thesis using run_proc_runs[OF _ _ lu] that by blast
    qed
    have "qsame s t" by (rule qsame_trans[OF su t(2)])
    moreover have "started q s t" using t(4) unfolding started_def si .
    ultimately show ?thesis using st t q(1) pu by (intro exI[of _ q] exI[of _ t]) simp
  qed
  have rng0: "0 \<le> stable_size s" "stable_size s < int NPROC"
    using strides_hd(2)[OF D(6)] D(6) by (simp_all add: strides_ok_def aq_ok_def st_of_def)
  have st0: "scheduler_step s = kbind (if ?m = 0 then mlfq_scan u else Ok None u) (\<lambda>q s.
     case q of Some p \<Rightarrow> run_proc p s | None \<Rightarrow> (case ?e of SProc p \<Rightarrow> run_proc p s | _ \<Rightarrow> Undef))"
    using h rng0 unfolding scheduler_step_def by (simp add: pick)
  show ?thesis
  proof (cases "?e = SMlfq")
    case True
    then have m0: "?m = 0" using M(4) by simp
    obtain l p where lp: "l < DEPTH_QUEUE" "in_mlfq l p s" "state (procs s ! p) = RUNNABLE" using run[OF True] by blast
    have qu: "queues_ok u" by (rule sched_invD(5)[OF qsame_inv(1)[OF su inv]])
    have iu: "in_mlfq l p u" unfolding qsame_inv(4)[OF su inv] by (rule lp(2))
    have ru: "state (procs u ! p) = RUNNABLE" unfolding si by (rule lp(3))
    obtain q where q: "mlfq_scan u = Ok (Some q) u" "first_runnable q u"
      using mlfq_scan_found[OF qu iu lp(1) ru] by blast
    have fr: "first_runnable q s" using q(2) unfolding first_runnable_def si(1) qsame_inv(2)[OF su inv] .
    then obtain k where "k < DEPTH_QUEUE" "Some q \<in> set (queue k s)" by (auto simp: first_runnable_def)
    then have "q < NPROC" using queues_okD(3)[OF D(5)] by (auto simp: in_mlfq_def live_def)
    moreover have "scheduler_step s = run_proc q u" unfolding st0 using m0 q(1) by simp
    moreover have "state (procs s ! q) = RUNNABLE" using fr by (simp add: first_runnable_def)
    ultimately show ?thesis using fin[of q] fr True unfolding v_def by simp
  next
    case False
    then obtain p where p: "?e = SProc p" using E(1) by (cases ?e) simp_all
    have "?m \<noteq> 0" using M(4) False by simp
    then have "scheduler_step s = run_proc p u" unfolding st0 using p by simp
    moreover have "state (procs s ! p) = RUNNABLE" "p < NPROC" using M(2) E(2) p D(1) by simp_all
    ultimately show ?thesis using fin[of p] p unfolding v_def by simp
  qed
qed

subsection \<open>Fairness of the stride scheduler\<close>

text \<open>The distance between two turns of an entry, and the bound on how far passes spread.\<close>

definition stride_of :: "sptr \<Rightarrow> kst \<Rightarrow> int" where
  "stride_of e s = MULTSTRIDESHARE div sp_share e s"

definition spread :: "kst \<Rightarrow> bool" where
  "spread s \<longleftrightarrow> (\<forall>x \<in> set (strides s). \<forall>y \<in> set (strides s). sp_pass x s \<le> sp_pass y s + stride_of x s)"

text \<open>
  A state in which the scheduler can make its choice: every entry of the stride table wants to run,
  and so does some process of the multi-level feedback queue.
\<close>

definition contended :: "kst \<Rightarrow> bool" where
  "contended s \<longleftrightarrow> sched_inv s \<and> held s = []
     \<and> (\<forall>e \<in> set (strides s). sp_runnable e s \<and> 0 \<le> sp_pass e s \<and> sp_pass e s + MULTSTRIDESHARE < 2 ^ 31)
     \<and> (\<forall>p < NPROC. state (procs s ! p) = RUNNABLE \<longrightarrow> kstack (procs s ! p) \<noteq> 0 \<and> pgdir (procs s ! p) \<noteq> 0)
     \<and> (\<exists>l p. l < DEPTH_QUEUE \<and> in_mlfq l p s \<and> state (procs s ! p) = RUNNABLE)"

lemma qsame_share:
  assumes "qsame s t" "sched_inv s" "e \<in> set (strides s)"
  shows "sp_share e t = sp_share e s" "stride_of e t = stride_of e s"
proof -
  show "sp_share e t = sp_share e s"
    using strides_mem(2)[OF assms(2,3)] assms(1) sched_invD(1)[OF assms(2)]
    by (cases e) (simp_all add: qsame_def)
  then show "stride_of e t = stride_of e s" by (simp add: stride_of_def)
qed

lemma turn_spec:
  assumes "contended s"
  obtains q t where "scheduler_step s = Ok (Some q) t" "qsame s t" "started q s t" "held t = [LPtable]"
    "sp_pass (min_entry s) t = sp_pass (min_entry s) s + stride_of (min_entry s) s"
    "\<And>e. e \<noteq> min_entry s \<Longrightarrow> sp_pass e t = sp_pass e s"
proof -
  obtain q t where t: "scheduler_step s = Ok (Some q) t" "qsame s t" "started q s t" "held t = [LPtable]"
    "min_pass t = sp_pass (min_entry s) s + MULTSTRIDESHARE div sp_share (min_entry s) s"
    "sp_pass (min_entry s) t = min_pass t" "\<forall>e. e \<noteq> min_entry s \<longrightarrow> sp_pass e t = sp_pass e s"
    using scheduler_step_spec[of s] assms unfolding contended_def by blast
  then show ?thesis using that[of q t] by (simp add: stride_of_def)
qed

lemma min_entry_least:
  assumes "contended s" "y \<in> set (strides s)"
  shows "sp_pass (min_entry s) s \<le> sp_pass y s"
  using min_entry_spec(3)[OF sched_invD(6), of s y] assms by (simp add: contended_def)

text \<open>
  Turns: the scheduler picks the entries \<open>es\<close> one after the other; between two picks the process that
  ran gives the CPU back without a change of shares or passes, and every entry wants to run again.
\<close>

inductive turns :: "kst \<Rightarrow> sptr list \<Rightarrow> kst \<Rightarrow> bool" where
  start: "contended s \<Longrightarrow> turns s [] s"
| turn: "turns s es t \<Longrightarrow> scheduler_step t = Ok (Some q) u \<Longrightarrow> qsame u v \<Longrightarrow>
    (\<And>e. sp_pass e v = sp_pass e u) \<Longrightarrow> contended v \<Longrightarrow> turns s (es @ [min_entry t]) v"

lemma turns_invariant:
  assumes "turns s es t"
  shows "contended s \<and> contended t \<and> strides t = strides s
     \<and> (\<forall>e \<in> set (strides s). stride_of e t = stride_of e s
          \<and> sp_pass e t = sp_pass e s + int (count_list es e) * stride_of e s)
     \<and> (spread s \<longrightarrow> spread t)"
  using assms
proof (induction rule: turns.induct)
  case (start s)
  then show ?case by simp
next
  case (turn s es t q u v)
  let ?e = "min_entry t"
  have cs: "contended s" and ct: "contended t" and st: "strides t = strides s"
    and IH: "\<And>e. e \<in> set (strides s) \<Longrightarrow> stride_of e t = stride_of e s
          \<and> sp_pass e t = sp_pass e s + int (count_list es e) * stride_of e s"
    and sp: "spread s \<longrightarrow> spread t"
    using turn.IH by blast+
  have inv: "sched_inv t" using ct by (simp add: contended_def)
  obtain q' u' where u': "scheduler_step t = Ok (Some q') u'" "qsame t u'"
    "sp_pass ?e u' = sp_pass ?e t + stride_of ?e t" "\<And>e. e \<noteq> ?e \<Longrightarrow> sp_pass e u' = sp_pass e t"
    using turn_spec[OF ct] by blast
  have uu: "u' = u" using u'(1) turn.hyps(2) by simp
  have tv: "qsame t v" using qsame_trans[OF u'(2)] turn.hyps(3) uu by simp
  have sv: "strides v = strides t" by (rule qsame_inv(3)[OF tv inv])
  have so: "stride_of e v = stride_of e t" if "e \<in> set (strides t)" for e by (rule qsame_share(2)[OF tv inv that])
  have pv: "sp_pass e v = (if e = ?e then sp_pass e t + stride_of e t else sp_pass e t)" for e
    using turn.hyps(4)[of e] u'(3,4) uu by (cases "e = ?e") auto
  have me: "?e \<in> set (strides t)" by (rule min_entry_spec(1)[OF sched_invD(6)[OF inv]])
  have s0: "0 \<le> stride_of e t" if "e \<in> set (strides t)" for e
    using strides_mem(3)[OF inv that] by (simp add: stride_of_def pos_imp_zdiv_nonneg_iff param_defs)
  have "spread v" if "spread s"
    unfolding spread_def sv
  proof (intro ballI)
    fix x y assume x: "x \<in> set (strides t)" and y: "y \<in> set (strides t)"
    have sxy: "sp_pass x t \<le> sp_pass y t + stride_of x t" using sp that x y by (auto simp: spread_def)
    have "sp_pass ?e t \<le> sp_pass y t" by (rule min_entry_least[OF ct y])
    then show "sp_pass x v \<le> sp_pass y v + stride_of x v"
      using sxy s0[OF x] s0[OF y] unfolding pv so[OF x] by (cases "x = ?e"; cases "y = ?e") auto
  qed
  moreover have "stride_of e v = stride_of e s
      \<and> sp_pass e v = sp_pass e s + int (count_list (es @ [?e]) e) * stride_of e s" if "e \<in> set (strides s)" for e
    using IH[OF that] so[of e] that st pv[of e] by (auto simp: algebra_simps)
  ultimately show ?case using cs turn.hyps(5) sv st by auto
qed

end
