(* ===== verification/SchedProps.thy ===== *)
theory SchedProps
  imports SchedPick Boot
begin

text \<open>
  The properties of the scheduler, a concrete scheduler state for their witnesses, the timer, and the
  creation of processes.
\<close>

subsection \<open>A timer tick\<close>

lemma qsame_upd:
  assumes "length (procs s) = NPROC"
    and "share (f (procs s ! p)) = share (procs s ! p)" "lev (f (procs s ! p)) = lev (procs s ! p)"
    and "state (f (procs s ! p)) = state (procs s ! p)"
  shows "qsame s (upd_proc p f s)"
  using assms by (auto simp: qsame_def live_def nth_list_update_if)

lemma qsame_fields: "qsame s (s\<lparr>mlfq_ticks := x\<rparr>)"
  by (simp add: qsame_def live_def)

lemma trap_tick_spec:
  assumes inv: "sched_inv s" and h: "held s = []" and c: "curproc s = Some p"
    and p: "in_mlfq l p s" "l < DEPTH_QUEUE" "state (procs s ! p) = RUNNING"
    and tq: "time_quantom s ! l \<noteq> 0" and nb: "uadd (mlfq_ticks s) 1 mod PERIOD_BOOSTING \<noteq> 0"
  defines "q \<equiv> (procs s ! p)\<lparr>time_allotment := time_allotment (procs s ! p) - 1\<rparr>"
  shows "if time_allotment q smod time_quantom s ! l \<noteq> 0
    then \<exists>t. trap_tick s = Ok () t \<and> sched_inv t \<and> procs t = (procs s)[p := q] \<and> (\<forall>j. queue j t = queue j s)
    else \<exists>t. trap_tick s = Sched t \<and> sched_inv t \<and> others p s t
      \<and> procs t ! p = yielded (time_allot s) (q\<lparr>from_trap := True\<rparr>)
      \<and> (\<forall>j < DEPTH_QUEUE. queue j t = (if j = l then remove1 (Some p) (queue j s) else queue j s)
          @ (if int j = yield_lev (q\<lparr>from_trap := True\<rparr>) then [Some p] else []))"
proof -
  note D = sched_invD[OF inv]
  let ?s = "s\<lparr>mlfq_ticks := uadd (mlfq_ticks s) 1\<rparr>"
  let ?u = "upd_proc p (\<lambda>q. q\<lparr>time_allotment := time_allotment q - 1\<rparr>) ?s"
  let ?v = "upd_proc p (\<lambda>q. q\<lparr>from_trap := True\<rparr>) ?u"
  have pl: "p < length (procs s)" "lev (procs s ! p) = int l" "share (procs s ! p) = 0" "l < 10"
    using p D(1) by (simp_all add: in_mlfq_def live_def param_defs)
  have tk: "trap_tick s = (if time_allotment q smod time_quantom s ! l \<noteq> 0 then Ok () ?u else yield ?v)"
    using h c p(3) pl tq nb by (simp add: trap_tick_def Let_def q_def)
  have su: "qsame s ?u"
    using D(1) by (intro qsame_trans[OF qsame_fields qsame_upd]) simp_all
  have sv: "qsame s ?v"
    using D(1) by (intro qsame_trans[OF su qsame_upd]) simp_all
  show ?thesis
  proof (cases "time_allotment q smod time_quantom s ! l \<noteq> 0")
    case True
    then show ?thesis
      using tk qsame_inv(1,2)[OF su inv] by (simp add: q_def)
  next
    case False
    have m: "in_mlfq l p ?v" using qsame_inv(4)[OF sv inv] p(1) by simp
    have hv: "held ?v = []" "curproc ?v = Some p" using h c by simp_all
    have pv: "procs ?v ! p = q\<lparr>from_trap := True\<rparr>" using pl by (simp add: q_def)
    from yield_spec[OF qsame_inv(1)[OF sv inv] hv m p(2)] obtain t where t: "yield ?v = Sched t" "sched_inv t"
      "others p ?v t" "procs t ! p = yielded (time_allot ?v) (procs ?v ! p)"
      "\<forall>j < DEPTH_QUEUE. queue j t = (if j = l then remove1 (Some p) (queue j ?v) else queue j ?v)
          @ (if int j = yield_lev (procs ?v ! p) then [Some p] else [])" by blast
    have "others p s t" using t(3) by (simp add: others_def)
    moreover have "time_allot ?v = time_allot s" by simp
    ultimately show ?thesis
      using False tk t unfolding pv qsame_inv(2)[OF sv inv] by auto
  qed
qed

subsection \<open>A concrete state\<close>

text \<open>
  Process 0 runs in level 0, process 1 waits in level 1, process 2 reserved a share of 30.
\<close>

definition proc_example :: "int \<Rightarrow> procstate \<Rightarrow> int \<Rightarrow> int \<Rightarrow> int \<Rightarrow> proc" where
  "proc_example pd st lv al sh = zero_proc\<lparr>pid := pd, state := st, lev := lv, time_allotment := al,
     share := sh, kstack := 0x8dffe000, pgdir := 0x8dffd000\<rparr>"

definition sched_example :: kst where
  "sched_example = (kernel0 disk_example 1000)\<lparr>
     procs := [proc_example 1 RUNNING 0 1 0, proc_example 2 RUNNABLE 1 10 0, proc_example 3 RUNNABLE 9 5 30]
       @ replicate 61 zero_proc,
     arrq := [(replicate NPROC None)[0 := Some 0], (replicate NPROC None)[0 := Some 1], replicate NPROC None],
     q_size := [0, 0, - 1], stab := (replicate NPROC SNull)[0 := SMlfq, 1 := SProc 2], stable_size := 1,
     mlfq := \<lparr>mshare = 70, mpass = 0\<rparr>, initproc := Some 1\<rparr>"

lemma sched_example_procs [simp]:
  "procs sched_example ! 0 = proc_example 1 RUNNING 0 1 0"
  "procs sched_example ! 1 = proc_example 2 RUNNABLE 1 10 0"
  "procs sched_example ! 2 = proc_example 3 RUNNABLE 9 5 30"
  "2 < p \<Longrightarrow> p < NPROC \<Longrightarrow> procs sched_example ! p = zero_proc"
  "length (procs sched_example) = NPROC"
  by (simp_all add: sched_example_def nth_append numeral_2_eq_2 param_defs)

lemma sched_example_simps [simp]:
  "held sched_example = []" "curproc sched_example = Some 0" "mlfq_ticks sched_example = 0"
  "time_quantom sched_example = [1, 2, 4, 0, 0, 0, 0, 0, 0, 5]"
  "time_allot sched_example = [5, 10, 0, 0, 0, 0, 0, 0, 0, 5]" "initproc sched_example = Some 1"
  "min_pass sched_example = 0" "mlfq sched_example = \<lparr>mshare = 70, mpass = 0\<rparr>"
  by (simp_all add: sched_example_def) (simp_all add: kernel0_def)

lemma proc_example_simps [simp]:
  "state (proc_example pd st lv al sh) = st" "lev (proc_example pd st lv al sh) = lv"
  "time_allotment (proc_example pd st lv al sh) = al" "share (proc_example pd st lv al sh) = sh"
  "pass (proc_example pd st lv al sh) = 0" "from_trap (proc_example pd st lv al sh) = False"
  "parent (proc_example pd st lv al sh) = None" "kstack (proc_example pd st lv al sh) = 0x8dffe000"
  "pgdir (proc_example pd st lv al sh) = 0x8dffd000"
  by (simp_all add: proc_example_def zero_proc_def)

lemma below3: "p < 3 \<longleftrightarrow> p = 0 \<or> p = 1 \<or> p = (2::nat)"
  by auto

lemma below2: "p < 2 \<longleftrightarrow> p = 0 \<or> p = (1::nat)"
  by auto

lemma sched_example_live: "live p sched_example \<longleftrightarrow> p < 3"
proof (cases "p < 3")
  case True
  then show ?thesis by (auto simp: below3 live_def param_defs)
next
  case False
  then show ?thesis by (cases "p < NPROC") (simp_all add: live_def zero_proc_def)
qed

lemma sched_example_in:
  "in_mlfq l p sched_example \<longleftrightarrow> l < 2 \<and> p = l" "in_stride p sched_example \<longleftrightarrow> p = 2"
proof -
  show "in_mlfq l p sched_example \<longleftrightarrow> l < 2 \<and> p = l"
    unfolding in_mlfq_def sched_example_live by (auto simp: below3 below2)
  show "in_stride p sched_example \<longleftrightarrow> p = 2"
    unfolding in_stride_def sched_example_live by (auto simp: below3)
qed

lemma take_1_2:
  "0 < length xs \<Longrightarrow> take (Suc 0) xs = [xs ! 0]" "1 < length xs \<Longrightarrow> take 2 xs = [xs ! 0, xs ! 1]"
  by (cases xs; simp) (cases xs; cases "tl xs"; simp add: numeral_2_eq_2 One_nat_def)

lemma sched_example_queues:
  "queue 0 sched_example = [Some 0]" "queue 1 sched_example = [Some 1]" "queue 2 sched_example = []"
  "strides sched_example = [SMlfq, SProc 2]"
  by (simp_all add: queue_def strides_def aq_list_def aq_of_def st_of_def sched_example_def param_defs
      take_1_2)

lemma sched_example_inv: "sched_inv sched_example"
proof -
  have "queues_ok sched_example"
    unfolding queues_ok_def
  proof (intro allI impI conjI)
    fix l assume "l < DEPTH_QUEUE"
    then have l: "l = 0 \<or> l = 1 \<or> l = 2" by (simp add: DEPTH_QUEUE_def below3)
    then show "aq_ok (aq_of l sched_example)"
      by (elim disjE; simp add: aq_ok_def aq_of_def sched_example_def param_defs)
    show "distinct (queue l sched_example)" "set (queue l sched_example) = Some ` {p. in_mlfq l p sched_example}"
      using l by (elim disjE; simp add: sched_example_queues sched_example_in)+
  qed
  moreover have "strides_ok sched_example"
    by (simp add: strides_ok_def sched_example_queues sched_example_in)
      (simp add: aq_ok_def st_of_def sched_example_def param_defs)
  moreover have "levels_ok sched_example"
    by (auto simp: levels_ok_def sched_example_live below3 lev_ok_def param_defs)
  moreover have "reserved sched_example = 30" by (simp add: reserved_def sched_example_in)
  ultimately show ?thesis
    by (simp add: sched_inv_def) (simp add: sched_example_def param_defs)
qed

subsection \<open>Properties\<close>

text \<open>
  C2. \<open>scheduler()\<close> runs the right process. Between the processes that reserved a share and the
  multi-level feedback queue it takes the runnable entry with the smallest pass, adds 1000 divided by
  its share to that pass and no other, and remembers it in \<open>min_pass\<close>; for the feedback queue it runs
  the first runnable process of the highest level that has one. The process is switched to with only
  \<open>ptable.lock\<close> held and state RUNNING, and queues and shares are as before.
\<close>
theorem scheduler_picks:
  assumes "sched_inv s" "held s = []"
    and "\<forall>e \<in> set (strides s). 0 \<le> sp_pass e s \<and> sp_pass e s + MULTSTRIDESHARE < 2 ^ 31"
    and "\<forall>p < NPROC. state (procs s ! p) = RUNNABLE \<longrightarrow> kstack (procs s ! p) \<noteq> 0 \<and> pgdir (procs s ! p) \<noteq> 0"
    and "\<exists>l p. l < DEPTH_QUEUE \<and> in_mlfq l p s \<and> state (procs s ! p) = RUNNABLE"
  shows "\<exists>e q t. scheduler_step s = Ok (Some q) t
     \<and> e \<in> set (strides s) \<and> sp_runnable e s
     \<and> (\<forall>x \<in> set (strides s). sp_runnable x s \<longrightarrow> sp_pass e s \<le> sp_pass x s)
     \<and> (if e = SMlfq then first_runnable q s else e = SProc q)
     \<and> sp_pass e t = sp_pass e s + MULTSTRIDESHARE div sp_share e s \<and> min_pass t = sp_pass e t
     \<and> (\<forall>x. x \<noteq> e \<longrightarrow> sp_pass x t = sp_pass x s)
     \<and> held t = [LPtable] \<and> curproc t = Some q \<and> state (procs t ! q) = RUNNING
     \<and> sched_inv t \<and> (\<forall>j. queue j t = queue j s) \<and> strides t = strides s"
proof -
  note M = min_entry_spec[OF sched_invD(6)[OF assms(1)]]
  obtain q t where t: "scheduler_step s = Ok (Some q) t"
     "if min_entry s = SMlfq then first_runnable q s else min_entry s = SProc q"
     "qsame s t" "held t = [LPtable]" "started q s t"
     "min_pass t = sp_pass (min_entry s) s + MULTSTRIDESHARE div sp_share (min_entry s) s"
     "sp_pass (min_entry s) t = min_pass t" "\<forall>e. e \<noteq> min_entry s \<longrightarrow> sp_pass e t = sp_pass e s"
    using scheduler_step_spec[OF assms(1-4)] assms(5) by blast
  show ?thesis
    using t M(1-3) qsame_inv(1-3)[OF t(3) assms(1)]
    by (intro exI[of _ "min_entry s"] exI[of _ q] exI[of _ t]) (simp add: started_def)
qed

lemma sched_example_ready:
  "\<forall>e \<in> set (strides sched_example). 0 \<le> sp_pass e sched_example \<and> sp_pass e sched_example + MULTSTRIDESHARE < 2 ^ 31"
  "\<forall>p < NPROC. state (procs sched_example ! p) = RUNNABLE \<longrightarrow> kstack (procs sched_example ! p) \<noteq> 0
     \<and> pgdir (procs sched_example ! p) \<noteq> 0"
  "\<exists>l p. l < DEPTH_QUEUE \<and> in_mlfq l p sched_example \<and> state (procs sched_example ! p) = RUNNABLE"
proof -
  show "\<forall>e \<in> set (strides sched_example). 0 \<le> sp_pass e sched_example \<and> sp_pass e sched_example + MULTSTRIDESHARE < 2 ^ 31"
    by (simp add: sched_example_queues param_defs)
  show "\<forall>p < NPROC. state (procs sched_example ! p) = RUNNABLE \<longrightarrow> kstack (procs sched_example ! p) \<noteq> 0
     \<and> pgdir (procs sched_example ! p) \<noteq> 0"
  proof (intro allI impI)
    fix p assume "p < NPROC" "state (procs sched_example ! p) = RUNNABLE"
    then have "live p sched_example" by (simp add: live_def)
    then show "kstack (procs sched_example ! p) \<noteq> 0 \<and> pgdir (procs sched_example ! p) \<noteq> 0"
      unfolding sched_example_live below3 by auto
  qed
  show "\<exists>l p. l < DEPTH_QUEUE \<and> in_mlfq l p sched_example \<and> state (procs sched_example ! p) = RUNNABLE"
    by (intro exI[of _ 1]) (simp add: sched_example_in param_defs)
qed

theorem scheduler_picks_witness:
  "\<exists>t. scheduler_step sched_example = Ok (Some 1) t \<or> scheduler_step sched_example = Ok (Some 2) t"
proof -
  obtain e q t where t: "scheduler_step sched_example = Ok (Some q) t" "e \<in> set (strides sched_example)"
    "if e = SMlfq then first_runnable q sched_example else e = SProc q"
    using scheduler_picks[OF sched_example_inv _ sched_example_ready] by auto
  have "q = 1 \<or> q = 2"
  proof (cases "e = SMlfq")
    case True
    then have f: "first_runnable q sched_example" using t(3) by simp
    then obtain l where "l < DEPTH_QUEUE" "Some q \<in> set (queue l sched_example)"
      by (auto simp: first_runnable_def)
    then have "in_mlfq l q sched_example"
      using queues_okD(3)[OF sched_invD(5)[OF sched_example_inv]] by auto
    moreover have "state (procs sched_example ! q) = RUNNABLE" using f by (simp add: first_runnable_def)
    ultimately show ?thesis by (auto simp: sched_example_in below2)
  next
    case False
    then show ?thesis using t(2,3) by (auto simp: sched_example_queues)
  qed
  then show ?thesis using t(1) by auto
qed

text \<open>
  C3. The CPU is shared in proportion to the shares. Over any number of turns during which every
  entry of the stride table (the reservations, and the feedback queue with what is left) wants to run,
  starting from equal passes, two entries \<open>x\<close> and \<open>y\<close> differ in turns times 1000 divided by the share
  by at most one such step of \<open>x\<close>. No entry starves.
\<close>
theorem stride_fairness:
  assumes "turns s es t" "x \<in> set (strides s)" "y \<in> set (strides s)"
    and "\<forall>e \<in> set (strides s). sp_pass e s = c"
  shows "int (count_list es x) * stride_of x s \<le> int (count_list es y) * stride_of y s + stride_of x s"
proof -
  note T = turns_invariant[OF assms(1)]
  have inv: "sched_inv s" using T by (simp add: contended_def)
  have s0: "0 \<le> stride_of e s" if "e \<in> set (strides s)" for e
    using strides_mem(3)[OF inv that] by (simp add: stride_of_def pos_imp_zdiv_nonneg_iff param_defs)
  have "spread s" unfolding spread_def using assms(4) s0 by auto
  then have "spread t" using T by blast
  then have "sp_pass x t \<le> sp_pass y t + stride_of x t" using T assms(2,3) unfolding spread_def by simp
  then show ?thesis using T assms(2-4) by simp
qed

lemma contended_example: "contended sched_example"
  using sched_example_ready sched_example_inv
  by (auto simp: contended_def sched_example_queues)

text \<open>One turn from the example state.\<close>

theorem stride_fairness_witness:
  "\<exists>es t. turns sched_example es t \<and> length es = 1
     \<and> int (count_list es SMlfq) * 14 \<le> int (count_list es (SProc 2)) * 33 + 14"
proof -
  obtain q u where u: "scheduler_step sched_example = Ok (Some q) u" "qsame sched_example u"
    "started q sched_example u" "held u = [LPtable]"
    "sp_pass (min_entry sched_example) u = sp_pass (min_entry sched_example) sched_example
       + stride_of (min_entry sched_example) sched_example"
    "\<And>e. e \<noteq> min_entry sched_example \<Longrightarrow> sp_pass e u = sp_pass e sched_example"
    using turn_spec[OF contended_example] by blast
  let ?v = "upd_proc q (\<lambda>p. p\<lparr>state := RUNNABLE\<rparr>) (u\<lparr>held := []\<rparr>)"
  have len: "length (procs u) = NPROC" using u(2) by (simp add: qsame_def)
  have q: "q < NPROC" "state (procs u ! q) = RUNNING" using u(3) by (simp_all add: started_def)
  have uv: "qsame u ?v" using len q by (auto simp: qsame_def live_def nth_list_update_if)
  note sv = qsame_trans[OF u(2) uv]
  have st: "strides ?v = [SMlfq, SProc 2]"
    using qsame_inv(3)[OF sv sched_example_inv] by (simp add: sched_example_queues)
  have pv: "sp_pass e ?v = sp_pass e u" for e using len q by (cases e) (auto simp: nth_list_update_if)
  have rv: "state (procs ?v ! p) = RUNNABLE" if "p = q \<or> state (procs sched_example ! p) = RUNNABLE" for p
    using that u(3) len q by (auto simp: started_def nth_list_update_if)
  have kv: "kstack (procs ?v ! p) = kstack (procs sched_example ! p)" "pgdir (procs ?v ! p) = pgdir (procs sched_example ! p)" for p
    using u(3) by (auto simp: started_def nth_list_update_if)
  have pass: "sp_pass e u \<le> 1000" "0 \<le> sp_pass e u" if "e = SMlfq \<or> e = SProc 2" for e
    using that u(5) u(6)[of e] by (cases "e = min_entry sched_example"; auto simp: stride_of_def param_defs)+
  have k0: "kstack (procs ?v ! p) \<noteq> 0 \<and> pgdir (procs ?v ! p) \<noteq> 0" if "p < NPROC" "state (procs ?v ! p) = RUNNABLE" for p
  proof -
    have "live p ?v" using that by (simp add: live_def)
    then have "live p sched_example" using sv by (simp only: qsame_def)
    then have "p = 0 \<or> p = 1 \<or> p = 2" unfolding sched_example_live below3 .
    then show ?thesis unfolding kv by auto
  qed
  have mv: "in_mlfq 1 1 ?v" unfolding qsame_inv(4)[OF sv sched_example_inv] by (simp add: sched_example_in)
  have "sp_runnable e ?v \<and> 0 \<le> sp_pass e ?v \<and> sp_pass e ?v + MULTSTRIDESHARE < 2 ^ 31"
    if "e \<in> set (strides ?v)" for e
  proof -
    have e: "e = SMlfq \<or> e = SProc 2" using that unfolding st by simp
    have "sp_runnable e ?v" using e rv[of 2] by auto
    moreover have "sp_pass e ?v + MULTSTRIDESHARE < 2 ^ 31" using pass(1)[OF e] unfolding pv by (simp add: param_defs)
    ultimately show ?thesis using pass(2)[OF e] unfolding pv by simp
  qed
  moreover have "\<exists>l p. l < DEPTH_QUEUE \<and> in_mlfq l p ?v \<and> state (procs ?v ! p) = RUNNABLE"
    using mv rv[of 1] by (intro exI[of _ 1]) (auto simp: DEPTH_QUEUE_def)
  moreover have "held ?v = []" by simp
  ultimately have cv: "contended ?v"
    unfolding contended_def using qsame_inv(1)[OF sv sched_example_inv] k0 by blast
  have tr: "turns sched_example [min_entry sched_example] ?v"
    using turns.turn[OF turns.start[OF contended_example] u(1) uv pv cv] by simp
  have eq: "\<forall>e \<in> set (strides sched_example). sp_pass e sched_example = 0" by (simp add: sched_example_queues)
  have "stride_of SMlfq sched_example = 14" "stride_of (SProc 2) sched_example = 33"
    by (simp_all add: stride_of_def param_defs)
  then show ?thesis
    using stride_fairness[OF tr _ _ eq, of SMlfq "SProc 2"] tr
    by (intro exI[of _ "[min_entry sched_example]"] exI[of _ ?v]) (simp add: sched_example_queues)
qed

text \<open>
  C7. A timer tick that hits a process of the feedback queue costs it one unit of its allotment. It
  keeps the CPU while the new allotment is not a multiple of the time quantum of its level; otherwise
  it yields, and then sinks one level exactly when the allotment is used up and it is not on the lowest
  level, getting the allotment of the new level. It is put at the end of the queue of its level, and
  all other processes keep their order.
\<close>
theorem trap_tick_preempts:
  assumes "sched_inv s" "held s = []" "curproc s = Some p" "in_mlfq l p s" "l < DEPTH_QUEUE"
    "state (procs s ! p) = RUNNING" "time_quantom s ! l \<noteq> 0" "uadd (mlfq_ticks s) 1 mod PERIOD_BOOSTING \<noteq> 0"
    and "a = time_allotment (procs s ! p) - 1" "k = (if a = 0 \<and> l \<noteq> 2 then l + 1 else l)"
  shows "if a smod time_quantom s ! l \<noteq> 0
    then \<exists>t. trap_tick s = Ok () t \<and> sched_inv t \<and> state (procs t ! p) = RUNNING
      \<and> time_allotment (procs t ! p) = a \<and> (\<forall>j. queue j t = queue j s)
    else \<exists>t. trap_tick s = Sched t \<and> sched_inv t \<and> state (procs t ! p) = RUNNABLE
      \<and> lev (procs t ! p) = int k \<and> time_allotment (procs t ! p) = (if k = l then a else time_allot s ! k)
      \<and> (\<forall>j < DEPTH_QUEUE. queue j t = (if j = l then remove1 (Some p) (queue j s) else queue j s)
          @ (if j = k then [Some p] else []))"
proof -
  let ?q = "(procs s ! p)\<lparr>time_allotment := time_allotment (procs s ! p) - 1\<rparr>"
  have pl: "p < length (procs s)" "lev (procs s ! p) = int l"
    using assms(4) sched_invD(1)[OF assms(1)] by (simp_all add: in_mlfq_def live_def)
  have yl: "yield_lev (?q\<lparr>from_trap := True\<rparr>) = int k"
    using pl(2) assms(9,10) by (auto simp: yield_lev_def yield_left_def param_defs)
  show ?thesis
    using trap_tick_spec[OF assms(1-8)] pl assms(6,9) yl
    by (auto simp: yielded_def yield_left_def)
qed

theorem trap_tick_preempts_witness:
  "\<exists>t. trap_tick (sched_example\<lparr>mlfq_ticks := 6\<rparr>) = Sched t \<and> lev (procs t ! 0) = 1
     \<and> time_allotment (procs t ! 0) = 10 \<and> queue 1 t = [Some 1, Some 0]"
proof -
  let ?s = "sched_example\<lparr>mlfq_ticks := 6\<rparr>"
  have q: "qsame sched_example ?s" by (rule qsame_fields)
  have m: "in_mlfq 0 0 ?s" unfolding qsame_inv(4)[OF q sched_example_inv] by (simp add: sched_example_in)
  have pr: "procs ?s ! 0 = proc_example 1 RUNNING 0 1 0" "time_quantom ?s ! 0 = 1" "time_allot ?s ! 1 = 10" by simp_all
  have "queue 1 ?s = [Some 1]" using qsame_inv(2)[OF q sched_example_inv] by (simp add: sched_example_queues)
  then show ?thesis
    using trap_tick_preempts[OF qsame_inv(1)[OF q sched_example_inv] _ _ m, of 0 1] pr
    by (auto simp: param_defs uadd_def)
qed

text \<open>
  C6. \<open>set_cpu_share\<close> of a process of the feedback queue with a positive share grants it when the
  queue keeps at least 20 percent: the process leaves its queue and enters the stride table at the
  smallest pass so far, the queue's share shrinks by the amount, all shares still add up to 100 and
  the invariant of the scheduler holds. Otherwise, or for a negative share, it returns -1 and nothing
  changes.
\<close>
theorem set_cpu_share_accounts:
  assumes "sched_inv s" "held s = []" "curproc s = Some p" "in_mlfq l p s" "l < DEPTH_QUEUE"
    and "length (strides s) < NPROC" "shr \<noteq> 0" "int_range (mshare (mlfq s) - shr)"
  shows "if shr < 0 \<or> mshare (mlfq s) - shr < 20 then set_cpu_share shr s = Ok (- 1) s
    else \<exists>t. set_cpu_share shr s = Ok 1 t \<and> held t = [] \<and> sched_inv t
      \<and> share (procs t ! p) = shr \<and> pass (procs t ! p) = min_pass s \<and> lev (procs t ! p) = STRIDE_LEV
      \<and> mshare (mlfq t) = mshare (mlfq s) - shr \<and> mshare (mlfq t) + reserved t = 100
      \<and> strides t = strides s @ [SProc p]
      \<and> (\<forall>j < DEPTH_QUEUE. queue j t = (if j = l then remove1 (Some p) (queue j s) else queue j s))"
proof (cases "shr < 0 \<or> mshare (mlfq s) - shr < 20")
  case True
  then show ?thesis using set_cpu_share_refuse[OF assms(1,8)] by simp
next
  case False
  then have sh: "0 < shr" "20 \<le> mshare (mlfq s) - shr" using assms(7) by auto
  obtain t where t: "set_cpu_share shr s = Ok 1 t" "held t = []" "sched_inv t"
     "procs t ! p = shared shr (min_pass s) (procs s ! p)" "mshare (mlfq t) = mshare (mlfq s) - shr"
     "strides t = strides s @ [SProc p]"
     "\<forall>j < DEPTH_QUEUE. queue j t = (if j = l then remove1 (Some p) (queue j s) else queue j s)"
    using set_cpu_share_grant[OF assms(1-6) sh] by blast
  show ?thesis using False t sched_invD(9)[OF t(3)] by (simp add: shared_def)
qed

theorem set_cpu_share_accounts_witness:
  "\<exists>t. set_cpu_share 40 sched_example = Ok 1 t \<and> sched_inv t \<and> mshare (mlfq t) = 30
     \<and> strides t = [SMlfq, SProc 2, SProc 0] \<and> queue 0 t = []"
  using set_cpu_share_accounts[OF sched_example_inv, of 0 0 40]
  by (auto simp: sched_example_in sched_example_queues int_range_def param_defs)

text \<open>
  C8. The end of \<open>exit\<close> removes the process from its queue or from the stride table, gives its share
  back to the feedback queue, hands its children to the first process, keeps the invariant of the
  scheduler, and switches to the scheduler with the process a zombie and only \<open>ptable.lock\<close> held.
\<close>
theorem exit_returns_share:
  assumes "sched_inv s" "held s = []" "curproc s = Some c" "live c s" "initproc s \<noteq> Some c"
  shows "\<exists>t. exit_tail s = Sched t \<and> held t = [LPtable] \<and> sched_inv t \<and> state (procs t ! c) = ZOMBIE
     \<and> mshare (mlfq t) = mshare (mlfq s) + share (procs s ! c)
     \<and> (\<forall>q < NPROC. parent (procs t ! q) = (if parent (procs s ! q) = Some c then initproc s else parent (procs s ! q)))
     \<and> (\<forall>j < DEPTH_QUEUE. queue j t = remove1 (Some c) (queue j s)) \<and> strides t = remove1 (SProc c) (strides s)"
  by (rule exit_tail_spec[OF assms])

theorem exit_returns_share_witness:
  "\<exists>t. exit_tail sched_example = Sched t \<and> queue 0 t = [] \<and> state (procs t ! 0) = ZOMBIE"
  using exit_returns_share[OF sched_example_inv, of 0]
  by (auto simp: sched_example_live sched_example_queues param_defs)

text \<open>
  A process of the feedback queue that gives up the CPU by itself pays for it: it loses one unit
  of its allotment even within its quantum, sinks when that was the last one, and goes to the end of
  the queue of its level. It gives the CPU up with only \<open>ptable.lock\<close> held.
\<close>
theorem yield_requeues:
  assumes "sched_inv s" "held s = []" "curproc s = Some p" "in_mlfq l p s" "l < DEPTH_QUEUE"
    and "\<not> from_trap (procs s ! p)" "a = time_allotment (procs s ! p) - 1" "k = (if a = 0 \<and> l \<noteq> 2 then l + 1 else l)"
  shows "\<exists>t. yield s = Sched t \<and> held t = [LPtable] \<and> sched_inv t \<and> state (procs t ! p) = RUNNABLE
      \<and> lev (procs t ! p) = int k \<and> time_allotment (procs t ! p) = (if k = l then a else time_allot s ! k)
      \<and> (\<forall>q < NPROC. q \<noteq> p \<longrightarrow> procs t ! q = procs s ! q) \<and> strides t = strides s
      \<and> (\<forall>j < DEPTH_QUEUE. queue j t = (if j = l then remove1 (Some p) (queue j s) else queue j s)
          @ (if j = k then [Some p] else []))"
proof -
  have pl: "lev (procs s ! p) = int l" using assms(4) by (simp add: in_mlfq_def)
  have yl: "yield_lev (procs s ! p) = int k"
    using pl assms(6-8) by (auto simp: yield_lev_def yield_left_def param_defs)
  show ?thesis
    using yield_spec[OF assms(1-5)] pl yl assms(6,7) by (auto simp: yielded_def yield_left_def others_def)
qed

theorem yield_requeues_witness:
  "\<exists>t. yield sched_example = Sched t \<and> lev (procs t ! 0) = 1 \<and> queue 0 t = [] \<and> queue 1 t = [Some 1, Some 0]"
  using yield_requeues[OF sched_example_inv, of 0 0 0 1]
  by (auto simp: sched_example_in sched_example_queues param_defs)

text \<open>
  C11. \<open>boost\<close> moves a process to level 0 without moving it between the queues: after it, every
  process that was on a lower level has level 0, is in the queue of its old level and not in queue 0,
  so that the queues no longer say which level a process is on.
\<close>
theorem boost_strands_processes:
  assumes "sched_inv s" "held s = []" "in_mlfq l p s" "0 < l" "l < DEPTH_QUEUE"
  shows "\<exists>t. boost s = Ok () t \<and> in_mlfq 0 p t \<and> Some p \<notin> set (queue 0 t) \<and> Some p \<in> set (queue l t)
    \<and> \<not> sched_inv t"
proof -
  let ?t = "s\<lparr>procs := map (\<lambda>p. p\<lparr>lev := 0, time_allotment := time_allot s ! 0\<rparr>) (procs s)\<rparr>"
  note D = sched_invD[OF assms(1)]
  have b: "boost s = Ok () ?t" using assms(2) by (simp add: boost_def)
  have p: "p < length (procs s)" "lev (procs s ! p) = int l" using assms(3) D(1) by (simp_all add: in_mlfq_def live_def)
  have m: "in_mlfq 0 p ?t" using assms(3) p by (simp add: in_mlfq_def live_def)
  have q: "queue j ?t = queue j s" for j by (simp add: queue_def aq_of_def)
  have d0: "0 < DEPTH_QUEUE" by (simp add: param_defs)
  have n0: "Some p \<notin> set (queue 0 s)"
    unfolding queues_okD(3)[OF D(5) d0] using p(2) assms(4) by (auto simp: in_mlfq_def)
  have nl: "Some p \<in> set (queue l s)" unfolding queues_okD(3)[OF D(5) assms(5)] using assms(3) by auto
  have "\<not> sched_inv ?t"
  proof
    assume "sched_inv ?t"
    from queues_okD(3)[OF sched_invD(5)[OF this] d0] m have "Some p \<in> set (queue 0 ?t)" by auto
    then show False using n0 q by simp
  qed
  then show ?thesis using b m n0 nl q by auto
qed

theorem boost_strands_processes_witness:
  "\<exists>t. boost sched_example = Ok () t \<and> lev (procs t ! 1) = 0 \<and> Some 1 \<in> set (queue 1 t) \<and> \<not> sched_inv t"
proof -
  have "in_mlfq 1 1 sched_example" by (simp add: sched_example_in)
  from boost_strands_processes[OF sched_example_inv _ this] show ?thesis
    by (auto simp: DEPTH_QUEUE_def in_mlfq_def)
qed

text \<open>
  C12. \<open>set_cpu_share(0)\<close> is accepted, and leaves a process that has level 9 without being a stride
  process: its next \<open>yield\<close> indexes the queues beyond their three levels.
\<close>
theorem zero_share_out_of_bounds:
  assumes "sched_inv s" "held s = []" "curproc s = Some p" "in_mlfq l p s" "l < DEPTH_QUEUE"
    and "length (strides s) < NPROC"
  shows "\<exists>t. set_cpu_share 0 s = Ok 1 t \<and> share (procs t ! p) = 0 \<and> lev (procs t ! p) = 9
    \<and> SProc p \<in> set (strides t) \<and> yield t = Undef"
proof -
  note D = sched_invD[OF assms(1)]
  have pl: "p < length (procs s)" "lev (procs s ! p) = int l"
    using assms(4) D(1) by (simp_all add: in_mlfq_def live_def)
  have m0: "stab s ! 0 = SMlfq" by (rule strides_hd(1)[OF D(6)])
  have sok: "aq_ok (st_of s)" using D(6) by (simp add: strides_ok_def)
  obtain st where st: "aq_push (SProc p) (st_of s) = Some st" "aq_list st = strides s @ [SProc p]"
    using brkq.push_law[OF sok, of "SProc p"] assms(6) by (auto simp: strides_def)
  obtain q where q: "aq_del True (Some p) (aq_of l s) = Some q"
    using brkq.del_law[OF queues_okD(1)[OF D(5) assms(5)], of "Some p"] queues_okD(2)[OF D(5) assms(5)]
    by (auto simp: queue_def)
  have ms: "20 \<le> mshare (mlfq s)" "mshare (mlfq s) \<le> 100"
  proof -
    have "0 \<le> reserved s" unfolding reserved_def
      using D(7) by (intro sum_nonneg) (auto simp: in_stride_def levels_ok_def)
    then show "20 \<le> mshare (mlfq s)" "mshare (mlfq s) \<le> 100" using D(8,9) by simp_all
  qed
  let ?b = "upd_proc p (\<lambda>q. q\<lparr>share := 0, pass := min_pass s\<rparr>)
    (sp_set_share (mshare (mlfq s) - 0) SMlfq (set_st st (s\<lparr>held := [LPtable]\<rparr>)))"
  let ?t = "(upd_proc p (\<lambda>q. q\<lparr>lev := STRIDE_LEV, time_allotment := STRIDE_DEFAULT_TIME_QUANTOM\<rparr>)
    (set_aq l q ?b))\<lparr>held := []\<rparr>"
  have aqb: "aq_of l ?b = aq_of l s" by (simp add: aq_of_def)
  have run: "set_cpu_share 0 s = Ok 1 ?t"
    using assms(2,3,5) m0 ms st(1) pl q aqb
    by (simp add: set_cpu_share_def Let_def int_range_def st_of_def lift_aq_def lev_ok_def)
  have c: "held ?t = []" "curproc ?t = Some p" using assms(3) by simp_all
  have pt: "procs ?t ! p = shared 0 (min_pass s) (procs s ! p)" using pl(1) by (simp add: shared_def)
  have lt: "p < length (procs ?t)" using pl(1) by simp
  have "yield u = Undef" if "held u = []" "curproc u = Some p" "procs u ! p = shared 0 x y" "p < length (procs u)" for u x y
    using that by (simp add: yield_def Let_def yield_mlfq_def shared_def lev_ok_def param_defs)
  then have "yield ?t = Undef" using c pt lt by blast
  moreover have "strides ?t = strides s @ [SProc p]" using st(2) by (simp add: strides_def st_of_def)
  ultimately show ?thesis using run pt by (intro exI[of _ ?t]) (simp add: shared_def param_defs)
qed

theorem zero_share_out_of_bounds_witness:
  "\<exists>t. set_cpu_share 0 sched_example = Ok 1 t \<and> yield t = Undef"
  using zero_share_out_of_bounds[OF sched_example_inv, of 0 0]
  by (auto simp: sched_example_in sched_example_queues param_defs)

end
