(* ===== verification/Inode.thy ===== *)
theory Inode
  imports Log CString
begin

text \<open>
  The inode layer (fs.c): the block allocator, the inode cache, the block map of an inode with its
  single, double and triple indirect blocks, and truncation. An inode is the index of its entry of the
  inode cache. A pointer into a held buffer (\<open>a = (uint* )bp->data\<close>, \<open>dip\<close>) is an access to the data of
  that buffer.
\<close>

definition NDIRECT :: nat where "NDIRECT = 10"
definition INDIRECT_IDX :: nat where "INDIRECT_IDX = 10"
definition DINDIRECT_IDX :: nat where "DINDIRECT_IDX = 11"
definition TINDIRECT_IDX :: nat where "TINDIRECT_IDX = 12"
definition NINDIRECT :: nat where "NINDIRECT = BSIZE div 4"
definition DINDIRECT_ARRAY_SIZE :: nat where "DINDIRECT_ARRAY_SIZE = 16384"
definition TINDIRECT_ARRAY_SIZE :: nat where "TINDIRECT_ARRAY_SIZE = 2097152"
definition MAXFILE :: nat where
  "MAXFILE = NDIRECT + NINDIRECT + DINDIRECT_ARRAY_SIZE + TINDIRECT_ARRAY_SIZE"
definition ROOTINO :: nat where "ROOTINO = 1"
definition IPB :: nat where "IPB = BSIZE div 64"
definition BPB :: nat where "BPB = BSIZE * 8"
definition T_DIR :: int where "T_DIR = 1"
definition T_FILE :: int where "T_FILE = 2"
definition T_DEV :: int where "T_DEV = 3"

lemmas [param_defs] = NDIRECT_def INDIRECT_IDX_def DINDIRECT_IDX_def TINDIRECT_IDX_def NINDIRECT_def
  DINDIRECT_ARRAY_SIZE_def TINDIRECT_ARRAY_SIZE_def MAXFILE_def ROOTINO_def IPB_def BPB_def
  T_DIR_def T_FILE_def T_DEV_def

text \<open>The block of inode \<open>i\<close> and the block of the bitmap with the bit of block \<open>b\<close>.\<close>

definition IBLOCK :: "nat \<Rightarrow> kst \<Rightarrow> nat" where
  "IBLOCK i s = uadd (i div IPB) (sb_inodestart (sb s))"

definition BBLOCK :: "nat \<Rightarrow> kst \<Rightarrow> nat" where
  "BBLOCK b s = uadd (b div BPB) (sb_bmapstart (sb s))"

definition set_data :: "nat \<Rightarrow> (block \<Rightarrow> block) \<Rightarrow> kst \<Rightarrow> kst" where
  "set_data b f s = upd_buf b (\<lambda>x. x\<lparr>b_data := f (b_data x)\<rparr>) s"

subsection \<open>Blocks\<close>

definition bzero :: "nat \<Rightarrow> nat \<Rightarrow> kst \<Rightarrow> unit kres" where
  "bzero dev bno s = kbind (bread dev bno s) (\<lambda>bp s.
     kbind (log_write bp (set_data bp (\<lambda>_. replicate BSIZE 0) s)) (\<lambda>_ s.
     brelse bp s))"

definition bit_mask :: "nat \<Rightarrow> u8" where
  "bit_mask bi = push_bit (bi mod 8) 1"

definition bit_free :: "block \<Rightarrow> nat \<Rightarrow> bool" where
  "bit_free d bi \<longleftrightarrow> and (d ! (bi div 8)) (bit_mask bi) = 0"

text \<open>The body of the outer loop of \<open>balloc\<close>: look for a free bit in one block of the bitmap.\<close>

definition balloc_in :: "nat \<Rightarrow> nat \<Rightarrow> kst \<Rightarrow> nat option kres" where
  "balloc_in dev b s = kbind (bread dev (BBLOCK b s) s) (\<lambda>bp s.
     case List.find (bit_free (b_data (bufs s ! bp))) [0..<min BPB (sb_size (sb s) - b)] of
       Some bi \<Rightarrow>
         kbind (log_write bp (set_data bp (\<lambda>d. d[bi div 8 := or (d ! (bi div 8)) (bit_mask bi)]) s)) (\<lambda>_ s.
         kbind (brelse bp s) (\<lambda>_ s.
         kbind (bzero dev (b + bi) s) (\<lambda>_ s. Ok (Some (b + bi)) s)))
     | None \<Rightarrow> kbind (brelse bp s) (\<lambda>_ s. Ok None s))"

definition balloc :: "nat \<Rightarrow> kst \<Rightarrow> nat kres" where
  "balloc dev s =
     kbind (kfind (map (\<lambda>k. k * BPB) [0..<(sb_size (sb s) + BPB - 1) div BPB]) (balloc_in dev) s) (\<lambda>r s.
       case r of Some b \<Rightarrow> Ok b s | None \<Rightarrow> Panic ''balloc: out of blocks'')"

definition bfree :: "nat \<Rightarrow> nat \<Rightarrow> kst \<Rightarrow> unit kres" where
  "bfree dev b s = kbind (bread dev (BBLOCK b s) s) (\<lambda>bp s.
     let bi = b mod BPB in
     if bit_free (b_data (bufs s ! bp)) bi then Panic ''freeing free block''
     else kbind (log_write bp (set_data bp (\<lambda>d. d[bi div 8 := and (d ! (bi div 8)) (not (bit_mask bi))]) s)) (\<lambda>_ s.
       brelse bp s))"

subsection \<open>Inodes on the disk\<close>

record dinode =
  d_type :: int
  d_major :: int
  d_minor :: int
  d_nlink :: int
  d_size :: nat
  d_addrs :: "nat list"

definition zero_dinode :: dinode where
  "zero_dinode = \<lparr>d_type = 0, d_major = 0, d_minor = 0, d_nlink = 0, d_size = 0, d_addrs = replicate 13 0\<rparr>"

text \<open>Entry \<open>k\<close> of a block of inodes, as \<open>(struct dinode* )bp->data + k\<close> points to it.\<close>

definition get_dinode :: "nat \<Rightarrow> block \<Rightarrow> dinode" where
  "get_dinode k d = (let p0 = 64 * k in
     \<lparr>d_type = sshort (get16 d p0), d_major = sshort (get16 d (p0 + 2)), d_minor = sshort (get16 d (p0 + 4)),
      d_nlink = sshort (get16 d (p0 + 6)), d_size = get32 d (p0 + 8),
      d_addrs = map (\<lambda>j. get32 d (p0 + 12 + 4 * j)) [0..<13]\<rparr>)"

definition put_addrs :: "nat \<Rightarrow> nat list \<Rightarrow> block \<Rightarrow> block" where
  "put_addrs p as d = foldl (\<lambda>d j. put32 (p + 4 * j) (as ! j) d) d [0..<13]"

definition put_dinode :: "nat \<Rightarrow> dinode \<Rightarrow> block \<Rightarrow> block" where
  "put_dinode k i d = (let p0 = 64 * k in
     put_addrs (p0 + 12) (d_addrs i) (put32 (p0 + 8) (d_size i)
       (put16 (p0 + 6) (ushort (d_nlink i)) (put16 (p0 + 4) (ushort (d_minor i))
       (put16 (p0 + 2) (ushort (d_major i)) (put16 p0 (ushort (d_type i)) d))))))"

text \<open>The fields of an inode that are on the disk.\<close>

definition dinode_of :: "inode \<Rightarrow> dinode" where
  "dinode_of i = \<lparr>d_type = i_type i, d_major = i_major i, d_minor = i_minor i, d_nlink = i_nlink i,
     d_size = i_size i, d_addrs = i_addrs i\<rparr>"

definition load_dinode :: "dinode \<Rightarrow> inode \<Rightarrow> inode" where
  "load_dinode d i = i\<lparr>i_type := d_type d, i_major := d_major d, i_minor := d_minor d,
     i_nlink := d_nlink d, i_size := d_size d, i_addrs := d_addrs d\<rparr>"

subsection \<open>The inode cache\<close>

definition iinit :: "nat \<Rightarrow> kst \<Rightarrow> unit kres" where
  "iinit dev s = (let s = foldl (\<lambda>s i. initsleeplock (SInode i) s) s [0..<NINODE] in
     kbind (readsb dev s) (\<lambda>v s. Ok () (s\<lparr>sb := v\<rparr>)))"

definition iget :: "nat \<Rightarrow> nat \<Rightarrow> kst \<Rightarrow> nat kres" where
  "iget dev inum s = kbind (acquire LIcache s) (\<lambda>_ s.
     case first_idx (\<lambda>ip. i_ref ip > 0 \<and> i_dev ip = dev \<and> i_inum ip = inum) (inodes s) of
       Some i \<Rightarrow> kbind (release LIcache (upd_inode i (\<lambda>ip. ip\<lparr>i_ref := i_ref ip + 1\<rparr>) s)) (\<lambda>_ s. Ok i s)
     | None \<Rightarrow> (case first_idx (\<lambda>ip. i_ref ip = 0) (inodes s) of
         None \<Rightarrow> Panic ''iget: no inodes''
       | Some i \<Rightarrow> kbind (release LIcache (upd_inode i (\<lambda>ip. ip\<lparr>i_dev := dev, i_inum := inum, i_ref := 1,
             i_valid := False\<rparr>) s)) (\<lambda>_ s. Ok i s)))"

definition ialloc_try :: "nat \<Rightarrow> int \<Rightarrow> nat \<Rightarrow> kst \<Rightarrow> nat option kres" where
  "ialloc_try dev ty inum s = kbind (bread dev (IBLOCK inum s) s) (\<lambda>bp s.
     if d_type (get_dinode (inum mod IPB) (b_data (bufs s ! bp))) = 0 then
       kbind (log_write bp (set_data bp (put_dinode (inum mod IPB) (zero_dinode\<lparr>d_type := ty\<rparr>)) s)) (\<lambda>_ s.
       kbind (brelse bp s) (\<lambda>_ s.
       kbind (iget dev inum s) (\<lambda>i s. Ok (Some i) s)))
     else kbind (brelse bp s) (\<lambda>_ s. Ok None s))"

definition ialloc :: "nat \<Rightarrow> int \<Rightarrow> kst \<Rightarrow> nat kres" where
  "ialloc dev ty s = kbind (kfind [1..<sb_ninodes (sb s)] (ialloc_try dev ty) s) (\<lambda>r s.
     case r of Some i \<Rightarrow> Ok i s | None \<Rightarrow> Panic ''ialloc: no inodes'')"

definition iupdate :: "nat \<Rightarrow> kst \<Rightarrow> unit kres" where
  "iupdate ip s = kbind (bread (i_dev (inodes s ! ip)) (IBLOCK (i_inum (inodes s ! ip)) s) s) (\<lambda>bp s.
     let i = inodes s ! ip in
     kbind (log_write bp (set_data bp (put_dinode (i_inum i mod IPB) (dinode_of i)) s)) (\<lambda>_ s.
     brelse bp s))"

definition idup :: "nat \<Rightarrow> kst \<Rightarrow> nat kres" where
  "idup ip s = kbind (acquire LIcache s) (\<lambda>_ s.
     kbind (release LIcache (upd_inode ip (\<lambda>i. i\<lparr>i_ref := i_ref i + 1\<rparr>) s)) (\<lambda>_ s. Ok ip s))"

definition ilock :: "nat \<Rightarrow> kst \<Rightarrow> unit kres" where
  "ilock ip s = kbind (kassert (\<not> i_ref (inodes s ! ip) < 1) ''ilock'' s) (\<lambda>_ s.
     kbind (acquiresleep (SInode ip) s) (\<lambda>_ s.
     if \<not> i_valid (inodes s ! ip) then
       kbind (bread (i_dev (inodes s ! ip)) (IBLOCK (i_inum (inodes s ! ip)) s) s) (\<lambda>bp s.
       let d = get_dinode (i_inum (inodes s ! ip) mod IPB) (b_data (bufs s ! bp)) in
       kbind (brelse bp (upd_inode ip (load_dinode d) s)) (\<lambda>_ s.
       let s = upd_inode ip (\<lambda>i. i\<lparr>i_valid := True\<rparr>) s in
       kassert (i_type (inodes s ! ip) \<noteq> 0) ''ilock: no type'' s))
     else Ok () s))"

definition iunlock :: "nat \<Rightarrow> kst \<Rightarrow> unit kres" where
  "iunlock ip s = kbind (holdingsleep (SInode ip) s) (\<lambda>h s.
     if \<not> h \<or> i_ref (inodes s ! ip) < 1 then Panic ''iunlock''
     else releasesleep (SInode ip) s)"

subsection \<open>The block map\<close>

text \<open>\<open>if((addr = ip->addrs[k]) == 0) ip->addrs[k] = addr = balloc(ip->dev)\<close>.\<close>

definition bmap_root :: "nat \<Rightarrow> nat \<Rightarrow> kst \<Rightarrow> nat kres" where
  "bmap_root ip k s = (let addr = i_addrs (inodes s ! ip) ! k in
     if addr = 0 then kbind (balloc (i_dev (inodes s ! ip)) s) (\<lambda>addr s.
       Ok addr (upd_inode ip (\<lambda>i. i\<lparr>i_addrs := (i_addrs i)[k := addr]\<rparr>) s))
     else Ok addr s)"

text \<open>The same for entry \<open>k\<close> of the indirect block \<open>blk\<close>.\<close>

definition bmap_child :: "nat \<Rightarrow> nat \<Rightarrow> nat \<Rightarrow> kst \<Rightarrow> nat kres" where
  "bmap_child ip blk k s = kbind (bread (i_dev (inodes s ! ip)) blk s) (\<lambda>bp s.
     let addr = word_at (b_data (bufs s ! bp)) k in
     kbind (if addr = 0 then kbind (balloc (i_dev (inodes s ! ip)) s) (\<lambda>addr s.
          kbind (log_write bp (set_data bp (set_word k addr) s)) (\<lambda>_ s. Ok addr s))
        else Ok addr s) (\<lambda>addr s.
     kbind (brelse bp s) (\<lambda>_ s. Ok addr s)))"

definition bmap :: "nat \<Rightarrow> nat \<Rightarrow> kst \<Rightarrow> nat kres" where
  "bmap ip bn s =
     (if bn < NDIRECT then bmap_root ip bn s
      else let bn = bn - NDIRECT in
      if bn < 2 ^ 7 then
        kbind (bmap_root ip NDIRECT s) (\<lambda>addr s.
        bmap_child ip addr bn s)
      else let bn = bn - 2 ^ 7 in
      if bn < 2 ^ 14 then
        kbind (bmap_root ip DINDIRECT_IDX s) (\<lambda>addr s.
        kbind (bmap_child ip addr (drop_bit 7 bn) s) (\<lambda>addr s.
        bmap_child ip addr (and bn 0x7F) s))
      else let bn = bn - 2 ^ 14 in
      if bn < 2 ^ 21 then
        kbind (bmap_root ip TINDIRECT_IDX s) (\<lambda>addr s.
        kbind (bmap_child ip addr (drop_bit 14 bn) s) (\<lambda>addr s.
        kbind (bmap_child ip addr (and 0x7F (drop_bit 7 bn)) s) (\<lambda>addr s.
        bmap_child ip addr (and 0x7F bn) s)))
      else Panic ''bmap: out of range'')"

subsection \<open>Truncation\<close>

text \<open>
  Free the block \<open>blk\<close> of pointers and, by \<open>act\<close>, what its entries point to: the shape of the three
  nested loops of \<open>itrunc\<close>.
\<close>

definition free_ptrs :: "nat \<Rightarrow> (nat \<Rightarrow> kst \<Rightarrow> unit kres) \<Rightarrow> nat \<Rightarrow> kst \<Rightarrow> unit kres" where
  "free_ptrs dev act blk s = kbind (bread dev blk s) (\<lambda>bp s.
     kbind (kfor [0..<128] (\<lambda>j s. let a = word_at (b_data (bufs s ! bp)) j in
         if a \<noteq> 0 then act a s else Ok () s) s) (\<lambda>_ s.
     kbind (brelse bp s) (\<lambda>_ s.
     bfree dev blk s)))"

definition free_indirect :: "nat \<Rightarrow> nat \<Rightarrow> kst \<Rightarrow> unit kres" where
  "free_indirect dev blk s = free_ptrs dev (bfree dev) blk s"

definition free_dindirect :: "nat \<Rightarrow> nat \<Rightarrow> kst \<Rightarrow> unit kres" where
  "free_dindirect dev blk s = free_ptrs dev (free_indirect dev) blk s"

definition free_tindirect :: "nat \<Rightarrow> nat \<Rightarrow> kst \<Rightarrow> unit kres" where
  "free_tindirect dev blk s = free_ptrs dev (free_dindirect dev) blk s"

text \<open>\<open>if(ip->addrs[k]) { act(ip->addrs[k]); ip->addrs[k] = 0; }\<close>.\<close>

definition trunc_root :: "(nat \<Rightarrow> nat \<Rightarrow> kst \<Rightarrow> unit kres) \<Rightarrow> nat \<Rightarrow> nat \<Rightarrow> kst \<Rightarrow> unit kres" where
  "trunc_root act ip k s = (let a = i_addrs (inodes s ! ip) ! k in
     if a \<noteq> 0 then kbind (act (i_dev (inodes s ! ip)) a s) (\<lambda>_ s.
       Ok () (upd_inode ip (\<lambda>i. i\<lparr>i_addrs := (i_addrs i)[k := 0]\<rparr>) s))
     else Ok () s)"

definition itrunc :: "nat \<Rightarrow> kst \<Rightarrow> unit kres" where
  "itrunc ip s = kbind (kfor [0..<NDIRECT] (trunc_root bfree ip) s) (\<lambda>_ s.
     kbind (trunc_root free_indirect ip NDIRECT s) (\<lambda>_ s.
     kbind (trunc_root free_dindirect ip DINDIRECT_IDX s) (\<lambda>_ s.
     kbind (trunc_root free_tindirect ip TINDIRECT_IDX s) (\<lambda>_ s.
     iupdate ip (upd_inode ip (\<lambda>i. i\<lparr>i_size := 0\<rparr>) s)))))"

definition iput :: "nat \<Rightarrow> kst \<Rightarrow> unit kres" where
  "iput ip s = kbind (acquiresleep (SInode ip) s) (\<lambda>_ s.
     kbind (if i_valid (inodes s ! ip) \<and> i_nlink (inodes s ! ip) = 0 then
        kbind (acquire LIcache s) (\<lambda>_ s.
        let r = i_ref (inodes s ! ip) in
        kbind (release LIcache s) (\<lambda>_ s.
        if r = 1 then
          kbind (itrunc ip s) (\<lambda>_ s.
          kbind (iupdate ip (upd_inode ip (\<lambda>i. i\<lparr>i_type := 0\<rparr>) s)) (\<lambda>_ s.
          Ok () (upd_inode ip (\<lambda>i. i\<lparr>i_valid := False\<rparr>) s)))
        else Ok () s))
      else Ok () s) (\<lambda>_ s.
     kbind (releasesleep (SInode ip) s) (\<lambda>_ s.
     kbind (acquire LIcache s) (\<lambda>_ s.
     release LIcache (upd_inode ip (\<lambda>i. i\<lparr>i_ref := i_ref i - 1\<rparr>) s)))))"

definition iunlockput :: "nat \<Rightarrow> kst \<Rightarrow> unit kres" where
  "iunlockput ip s = kbind (iunlock ip s) (\<lambda>_ s. iput ip s)"

record stat =
  st_type :: int
  st_dev :: nat
  st_ino :: nat
  st_nlink :: int
  st_size :: nat

definition stati :: "nat \<Rightarrow> kst \<Rightarrow> stat" where
  "stati ip s = (let i = inodes s ! ip in
     \<lparr>st_type = i_type i, st_dev = i_dev i, st_ino = i_inum i, st_nlink = i_nlink i, st_size = i_size i\<rparr>)"

end
