(* ===== verification/Console.thy ===== *)
theory Console
  imports Inode
begin

text \<open>
  The console (console.c): the line buffer between the interrupt handler and \<open>consoleread\<close>, and the
  device functions \<open>readi\<close> and \<open>writei\<close> reach through the device table. What \<open>consputc\<close> puts on the
  screen is not part of the state. \<open>in_r\<close>, \<open>in_w\<close> and \<open>in_e\<close> are unsigned counters; the characters
  between \<open>in_r\<close> and \<open>in_w\<close> are complete lines, those up to \<open>in_e\<close> are being edited.
\<close>

definition INPUT_BUF :: nat where "INPUT_BUF = 128"
definition CONSOLE :: nat where "CONSOLE = 1"

lemmas [param_defs] = INPUT_BUF_def CONSOLE_def

text \<open>\<open>C('U')\<close>: as many edits are undone as there are characters after \<open>in_w\<close>, up to a newline.\<close>

fun kill_line :: "nat \<Rightarrow> kst \<Rightarrow> kst" where
  "kill_line 0 s = s"
| "kill_line (Suc k) s = (if in_buf s ! (usub (in_e s) 1 mod INPUT_BUF) \<noteq> 10
     then kill_line k (s\<lparr>in_e := usub (in_e s) 1\<rparr>) else s)"

text \<open>One character of \<open>consoleintr\<close>; the lock is held.\<close>

definition cons_char :: "int \<Rightarrow> kst \<Rightarrow> unit kres" where
  "cons_char c s =
     (if c = 16 then Ok () s
      else if c = 21 then Ok () (kill_line (usub (in_e s) (in_w s)) s)
      else if c = 8 \<or> c = 0x7F then
        Ok () (if in_e s \<noteq> in_w s then s\<lparr>in_e := usub (in_e s) 1\<rparr> else s)
      else if c \<noteq> 0 \<and> usub (in_e s) (in_r s) < INPUT_BUF then
        let c = (if c = 13 then 10 else c);
            s = s\<lparr>in_buf := (in_buf s)[in_e s mod INPUT_BUF := word_of_int c], in_e := uadd (in_e s) 1\<rparr> in
        if c = 10 \<or> c = 4 \<or> in_e s = uadd (in_r s) INPUT_BUF
        then wakeup (Some ChInput) (s\<lparr>in_w := in_e s\<rparr>) else Ok () s
      else Ok () s)"

text \<open>\<open>cs\<close> are the characters \<open>getc\<close> delivers before it returns a negative number.\<close>

definition consoleintr :: "int list \<Rightarrow> kst \<Rightarrow> unit kres" where
  "consoleintr cs s = kbind (acquire LCons s) (\<lambda>_ s.
     kbind (kfor cs cons_char s) (\<lambda>_ s.
     release LCons s))"

text \<open>
  The loop of \<open>consoleread\<close>: the first component says whether it ended normally, the second is what it
  stored at \<open>dst\<close>.
\<close>

fun cons_loop :: "nat \<Rightarrow> nat \<Rightarrow> u8 list \<Rightarrow> kst \<Rightarrow> (bool \<times> u8 list) kres" where
  "cons_loop target 0 acc s = Ok (True, acc) s"
| "cons_loop target (Suc n) acc s =
     (if in_r s = in_w s then
        (if killed (cur s) then Ok (False, acc) s else sleep ChInput (Some LCons) s)
      else let c = in_buf s ! (in_r s mod INPUT_BUF); s = s\<lparr>in_r := uadd (in_r s) 1\<rparr> in
        if c = 4 then Ok (True, acc) (if Suc n < target then s\<lparr>in_r := usub (in_r s) 1\<rparr> else s)
        else if c = 10 then Ok (True, acc @ [c]) s
        else cons_loop target n (acc @ [c]) s)"

definition consoleread :: "nat \<Rightarrow> int \<Rightarrow> kst \<Rightarrow> (int \<times> u8 list) kres" where
  "consoleread ip n s = kbind (iunlock ip s) (\<lambda>_ s.
     kbind (acquire LCons s) (\<lambda>_ s.
     kbind (cons_loop (nat n) (nat n) [] s) (\<lambda>r s.
     kbind (release LCons s) (\<lambda>_ s.
     kbind (ilock ip s) (\<lambda>_ s.
     Ok (if fst r then int (length (snd r)) else - 1, snd r) s)))))"

definition consolewrite :: "nat \<Rightarrow> u8 list \<Rightarrow> int \<Rightarrow> kst \<Rightarrow> int kres" where
  "consolewrite ip buf n s = kbind (iunlock ip s) (\<lambda>_ s.
     kbind (acquire LCons s) (\<lambda>_ s.
     kbind (kguard (nat n \<le> length buf) s) (\<lambda>_ s.
     kbind (release LCons s) (\<lambda>_ s.
     kbind (ilock ip s) (\<lambda>_ s. Ok n s)))))"

definition consoleinit :: "kst \<Rightarrow> kst" where
  "consoleinit s = s\<lparr>devsw := (devsw s)[CONSOLE := True]\<rparr>"

end
