(* ===== verification/FsFile.thy ===== *)
theory FsFile
  imports Console
begin

text \<open>
  Reading and writing the content of an inode (\<open>readi\<close>, \<open>writei\<close> of fs.c). The data a call copies to
  or from the address it is given are lists of bytes.
\<close>

text \<open>The loop of \<open>readi\<close>; \<open>acc\<close> is what it has copied so far.\<close>

function readi_loop :: "nat \<Rightarrow> nat \<Rightarrow> nat \<Rightarrow> nat \<Rightarrow> u8 list \<Rightarrow> kst \<Rightarrow> (u8 list) kres" where
  "readi_loop ip n tot off acc s = (if tot < n then
     kbind (bmap ip (off div BSIZE) s) (\<lambda>addr s.
     kbind (bread (i_dev (inodes s ! ip)) addr s) (\<lambda>bp s.
     let m = min (n - tot) (BSIZE - off mod BSIZE);
         chunk = take m (drop (off mod BSIZE) (b_data (bufs s ! bp))) in
     kbind (brelse bp s) (\<lambda>_ s.
     readi_loop ip n (tot + m) (off + m) (acc @ chunk) s)))
   else Ok acc s)"
  by pat_completeness auto
termination
  by (relation "measure (\<lambda>(ip, n, tot, off, acc, s). n - tot)") (auto simp: BSIZE_def)

definition readi :: "nat \<Rightarrow> nat \<Rightarrow> nat \<Rightarrow> kst \<Rightarrow> (int \<times> u8 list) kres" where
  "readi ip off n s = (let i = inodes s ! ip in
     if i_type i = T_DEV then
       (if i_major i < 0 \<or> i_major i \<ge> int NDEV \<or> \<not> devsw s ! nat (i_major i) then Ok (- 1, []) s
        else consoleread ip (sint32 n) s)
     else if off > i_size i \<or> uadd off n < off then Ok (- 1, []) s
     else let n = (if uadd off n > i_size i then i_size i - off else n) in
       kbind (readi_loop ip n 0 off [] s) (\<lambda>bs s. Ok (sint32 n, bs) s))"

definition put_bytes :: "nat \<Rightarrow> u8 list \<Rightarrow> block \<Rightarrow> block" where
  "put_bytes p xs d = take p d @ xs @ drop (p + length xs) d"

text \<open>The loop of \<open>writei\<close>; it returns the offset it has reached.\<close>

function writei_loop :: "nat \<Rightarrow> u8 list \<Rightarrow> nat \<Rightarrow> nat \<Rightarrow> nat \<Rightarrow> kst \<Rightarrow> nat kres" where
  "writei_loop ip src n tot off s = (if tot < n then
     kbind (bmap ip (off div BSIZE) s) (\<lambda>addr s.
     kbind (bread (i_dev (inodes s ! ip)) addr s) (\<lambda>bp s.
     let m = min (n - tot) (BSIZE - off mod BSIZE) in
     kbind (kguard (tot + m \<le> length src) s) (\<lambda>_ s.
     kbind (log_write bp (set_data bp (put_bytes (off mod BSIZE) (take m (drop tot src))) s)) (\<lambda>_ s.
     kbind (brelse bp s) (\<lambda>_ s.
     writei_loop ip src n (tot + m) (off + m) s)))))
   else Ok off s)"
  by pat_completeness auto
termination
  by (relation "measure (\<lambda>(ip, src, n, tot, off, s). n - tot)") (auto simp: BSIZE_def)

definition writei :: "nat \<Rightarrow> u8 list \<Rightarrow> nat \<Rightarrow> nat \<Rightarrow> kst \<Rightarrow> int kres" where
  "writei ip src off n s = (let i = inodes s ! ip in
     if i_type i = T_DEV then
       (if i_major i < 0 \<or> i_major i \<ge> int NDEV \<or> \<not> devsw s ! nat (i_major i) then Ok (- 1) s
        else consolewrite ip src (sint32 n) s)
     else if off > i_size i \<or> uadd off n < off then Ok (- 1) s
     else if uadd off n > MAXFILE * BSIZE then Ok (- 1) s
     else kbind (writei_loop ip src n 0 off s) (\<lambda>off s.
       kbind (if n > 0 \<and> off > i_size (inodes s ! ip)
          then iupdate ip (upd_inode ip (\<lambda>i. i\<lparr>i_size := off\<rparr>) s) else Ok () s) (\<lambda>_ s.
       Ok (sint32 n) s)))"

declare readi_loop.simps [simp del] writei_loop.simps [simp del]

end
