(* ===== verification/Vm.thy ===== *)
theory Vm
  imports KMem FsFile Sched
begin

text \<open>
  Virtual memory (vm.c): two-level page tables in physical memory. A page directory is given by the
  kernel address of its page; \<open>walkpgdir\<close> returns the kernel address of a page table entry, 0 for null.
\<close>

definition PTE_P :: nat where "PTE_P = 0x001"
definition PTE_W :: nat where "PTE_W = 0x002"
definition PTE_U :: nat where "PTE_U = 0x004"
definition NPDENTRIES :: nat where "NPDENTRIES = 1024"

lemmas [param_defs] = PTE_P_def PTE_W_def PTE_U_def NPDENTRIES_def

definition PDX :: "nat \<Rightarrow> nat" where "PDX va = and (drop_bit 22 va) 0x3FF"
definition PTX :: "nat \<Rightarrow> nat" where "PTX va = and (drop_bit 12 va) 0x3FF"
definition PGADDR :: "nat \<Rightarrow> nat \<Rightarrow> nat \<Rightarrow> nat" where
  "PGADDR d t c = or (or (push_bit 22 d) (push_bit 12 t)) c mod 2 ^ 32"
definition PTE_ADDR :: "nat \<Rightarrow> nat" where "PTE_ADDR e = e div 2 ^ 12 * 2 ^ 12"
definition PTE_FLAGS :: "nat \<Rightarrow> nat" where "PTE_FLAGS e = and e 0xFFF"

text \<open>A word at a kernel address.\<close>

definition kread :: "nat \<Rightarrow> kst \<Rightarrow> nat" where
  "kread a s = rd32 (pmem s) (V2P a)"

definition kwrite :: "nat \<Rightarrow> nat \<Rightarrow> kst \<Rightarrow> kst" where
  "kwrite a v s = s\<lparr>pmem := wr32 (pmem s) (V2P a) v\<rparr>"

definition zero_page :: "nat \<Rightarrow> kst \<Rightarrow> kst" where
  "zero_page v s = s\<lparr>pmem := memset (pmem s) (V2P v) 0 PGSIZE\<rparr>"

subsection \<open>Page tables\<close>

definition walkpgdir :: "nat \<Rightarrow> nat \<Rightarrow> bool \<Rightarrow> kst \<Rightarrow> nat kres" where
  "walkpgdir pd va alloc s = (let pde = pd + 4 * PDX va in
     if and (kread pde s) PTE_P \<noteq> 0 then Ok (P2V (PTE_ADDR (kread pde s)) + 4 * PTX va) s
     else if \<not> alloc then Ok 0 s
     else kbind (kalloc s) (\<lambda>pgtab s.
       if pgtab = 0 then Ok 0 s
       else Ok (pgtab + 4 * PTX va)
         (kwrite pde (or (or (or (V2P pgtab) PTE_P) PTE_W) PTE_U) (zero_page pgtab s))))"

text \<open>
  One round of the loop of \<open>mappages\<close>; the value is whether it goes on. The loop ends when \<open>a\<close> is
  \<open>last\<close>; both are page addresses, so it makes \<open>(last - a) / PGSIZE\<close> more rounds, computed in 32 bits
  as \<open>a\<close> itself.
\<close>

definition map_one :: "nat \<Rightarrow> nat \<Rightarrow> nat \<Rightarrow> nat \<Rightarrow> kst \<Rightarrow> bool kres" where
  "map_one pd a pa perm s = kbind (walkpgdir pd a True s) (\<lambda>pte s.
     if pte = 0 then Ok False s
     else if and (kread pte s) PTE_P \<noteq> 0 then Panic ''remap''
     else Ok True (kwrite pte (or (or pa perm) PTE_P) s))"

fun map_loop :: "nat \<Rightarrow> nat \<Rightarrow> nat \<Rightarrow> nat \<Rightarrow> nat \<Rightarrow> kst \<Rightarrow> int kres" where
  "map_loop pd 0 a pa perm s = kbind (map_one pd a pa perm s) (\<lambda>c s. Ok (if c then 0 else - 1) s)"
| "map_loop pd (Suc n) a pa perm s = kbind (map_one pd a pa perm s) (\<lambda>c s.
     if c then map_loop pd n (uadd a PGSIZE) (uadd pa PGSIZE) perm s else Ok (- 1) s)"

definition mappages :: "nat \<Rightarrow> nat \<Rightarrow> nat \<Rightarrow> nat \<Rightarrow> nat \<Rightarrow> kst \<Rightarrow> int kres" where
  "mappages pd va len pa perm s =
    (let a = PGROUNDDOWN va; last = PGROUNDDOWN (usub (uadd va len) 1) in
     map_loop pd (usub last a div PGSIZE) a pa perm s)"

text \<open>
  The loop of \<open>deallocuvm\<close>. Its counter wraps around only when \<open>oldsz\<close> lies in the last 4 megabytes
  of the address space, above every size the kernel passes; the model stops there.
\<close>

function dealloc_loop :: "nat \<Rightarrow> nat \<Rightarrow> nat \<Rightarrow> kst \<Rightarrow> unit kres" where
  "dealloc_loop pd oldsz a s = (if a < oldsz then
     kbind (walkpgdir pd a False s) (\<lambda>pte s.
       if pte = 0 then let a' = uadd (usub (PGADDR (PDX a + 1) 0 0) PGSIZE) PGSIZE in
         if a < a' then dealloc_loop pd oldsz a' s else Undef
       else kbind (if and (kread pte s) PTE_P \<noteq> 0 then
           let pa = PTE_ADDR (kread pte s) in
           kbind (kassert (pa \<noteq> 0) ''kfree'' s) (\<lambda>_ s.
           kbind (kfree (P2V pa) s) (\<lambda>_ s. Ok () (kwrite pte 0 s)))
         else Ok () s) (\<lambda>_ s.
         let a' = uadd a PGSIZE in if a < a' then dealloc_loop pd oldsz a' s else Undef))
     else Ok () s)"
  by pat_completeness auto
termination
  by (relation "measure (\<lambda>(pd, oldsz, a, s). oldsz - a)") auto

declare dealloc_loop.simps [simp del]

definition deallocuvm :: "nat \<Rightarrow> nat \<Rightarrow> nat \<Rightarrow> kst \<Rightarrow> nat kres" where
  "deallocuvm pd oldsz newsz s =
    (if newsz \<ge> oldsz then Ok oldsz s
     else kbind (dealloc_loop pd oldsz (PGROUNDUP newsz) s) (\<lambda>_ s. Ok newsz s))"

definition freevm :: "nat \<Rightarrow> kst \<Rightarrow> unit kres" where
  "freevm pd s = kbind (kassert (pd \<noteq> 0) ''freevm: no pgdir'' s) (\<lambda>_ s.
     kbind (deallocuvm pd KERNBASE 0 s) (\<lambda>_ s.
     kbind (kfor [0..<NPDENTRIES] (\<lambda>i s. let e = kread (pd + 4 * i) s in
       if and e PTE_P \<noteq> 0 then kfree (P2V (PTE_ADDR e)) s else Ok () s) s) (\<lambda>_ s.
     kfree pd s)))"

text \<open>The kernel's mappings: virtual address, start and end of the physical range, permission.\<close>

definition kmap :: "kst \<Rightarrow> (nat \<times> nat \<times> nat \<times> nat) list" where
  "kmap s = [(KERNBASE, 0, EXTMEM, PTE_W),
     (KERNLINK, V2P KERNLINK, V2P (kdata s), 0),
     (kdata s, V2P (kdata s), PHYSTOP, PTE_W),
     (DEVSPACE, DEVSPACE, 0, PTE_W)]"

definition setupkvm :: "kst \<Rightarrow> nat kres" where
  "setupkvm s = kbind (kalloc s) (\<lambda>pd s.
     if pd = 0 then Ok 0 s
     else kbind (kassert (\<not> P2V PHYSTOP > DEVSPACE) ''PHYSTOP too high'' (zero_page pd s)) (\<lambda>_ s.
       kbind (kfind (kmap s) (\<lambda>(virt, st, en, perm) s.
         kbind (mappages pd virt (usub en st) st perm s) (\<lambda>r s.
         if r < 0 then kbind (freevm pd s) (\<lambda>_ s. Ok (Some (0 :: nat)) s) else Ok None s)) s) (\<lambda>r s.
       Ok (case r of None \<Rightarrow> pd | Some x \<Rightarrow> x) s)))"

definition switchkvm :: "kst \<Rightarrow> kst" where
  "switchkvm s = s\<lparr>cr3 := V2P (kpgdir s)\<rparr>"

definition kvmalloc :: "kst \<Rightarrow> unit kres" where
  "kvmalloc s = kbind (setupkvm s) (\<lambda>pd s. Ok () (switchkvm (s\<lparr>kpgdir := pd\<rparr>)))"

subsection \<open>User memory\<close>

definition inituvm :: "nat \<Rightarrow> u8 list \<Rightarrow> kst \<Rightarrow> unit kres" where
  "inituvm pd init s = kbind (kassert (\<not> length init \<ge> PGSIZE) ''inituvm: more than a page'' s) (\<lambda>_ s.
     kbind (kalloc s) (\<lambda>mem s.
     kbind (mappages pd 0 PGSIZE (V2P mem) (or PTE_W PTE_U) (zero_page mem s)) (\<lambda>_ s.
     Ok () (s\<lparr>pmem := put_region (pmem s) (V2P mem) init\<rparr>))))"

text \<open>The page addresses \<open>a\<close>, \<open>a + PGSIZE\<close>, ... below \<open>e\<close>.\<close>

definition pages_from :: "nat \<Rightarrow> nat \<Rightarrow> nat list" where
  "pages_from a e = map (\<lambda>k. a + k * PGSIZE) [0..<(e - a + (PGSIZE - 1)) div PGSIZE]"

definition loaduvm :: "nat \<Rightarrow> nat \<Rightarrow> nat \<Rightarrow> nat \<Rightarrow> nat \<Rightarrow> kst \<Rightarrow> int kres" where
  "loaduvm pd addr ip offset len s =
     kbind (kassert (addr mod PGSIZE = 0) ''loaduvm: addr must be page aligned'' s) (\<lambda>_ s.
     kbind (kfind (pages_from 0 len) (\<lambda>i s.
       kbind (walkpgdir pd (uadd addr i) False s) (\<lambda>pte s.
       kbind (kassert (pte \<noteq> 0) ''loaduvm: address should exist'' s) (\<lambda>_ s.
       let pa = PTE_ADDR (kread pte s); n = (if len - i < PGSIZE then len - i else PGSIZE) in
       kbind (readi ip (uadd offset i) n s) (\<lambda>(r, bs) s.
       Ok (if r \<noteq> int n then Some (- 1 :: int) else None) (s\<lparr>pmem := put_region (pmem s) pa bs\<rparr>))))) s) (\<lambda>r s.
     Ok (case r of None \<Rightarrow> 0 | Some x \<Rightarrow> x) s))"

definition allocuvm :: "nat \<Rightarrow> nat \<Rightarrow> nat \<Rightarrow> kst \<Rightarrow> nat kres" where
  "allocuvm pd oldsz newsz s =
    (if newsz \<ge> KERNBASE then Ok 0 s
     else if newsz < oldsz then Ok oldsz s
     else kbind (kfind (pages_from (PGROUNDUP oldsz) newsz) (\<lambda>a s.
       kbind (kalloc s) (\<lambda>mem s.
       if mem = 0 then kbind (deallocuvm pd newsz oldsz s) (\<lambda>_ s. Ok (Some (0 :: nat)) s)
       else kbind (mappages pd a PGSIZE (V2P mem) (or PTE_W PTE_U) (zero_page mem s)) (\<lambda>r s.
         if r < 0 then kbind (deallocuvm pd newsz oldsz s) (\<lambda>_ s.
           kbind (kfree mem s) (\<lambda>_ s. Ok (Some 0) s))
         else Ok None s))) s) (\<lambda>r s.
     Ok (case r of None \<Rightarrow> newsz | Some x \<Rightarrow> x) s))"

definition clearpteu :: "nat \<Rightarrow> nat \<Rightarrow> kst \<Rightarrow> unit kres" where
  "clearpteu pd uva s = kbind (walkpgdir pd uva False s) (\<lambda>pte s.
     kbind (kassert (pte \<noteq> 0) ''clearpteu'' s) (\<lambda>_ s.
     Ok () (kwrite pte (and (kread pte s) (2 ^ 32 - 1 - PTE_U)) s)))"

definition copyuvm :: "nat \<Rightarrow> nat \<Rightarrow> kst \<Rightarrow> nat kres" where
  "copyuvm pd len s = kbind (setupkvm s) (\<lambda>d s.
     if d = 0 then Ok 0 s
     else kbind (kfind (pages_from 0 len) (\<lambda>i s.
       kbind (walkpgdir pd i False s) (\<lambda>pte s.
       kbind (kassert (pte \<noteq> 0) ''copyuvm: pte should exist'' s) (\<lambda>_ s.
       kbind (kassert (and (kread pte s) PTE_P \<noteq> 0) ''copyuvm: page not present'' s) (\<lambda>_ s.
       let pa = PTE_ADDR (kread pte s); flags = PTE_FLAGS (kread pte s) in
       kbind (kalloc s) (\<lambda>mem s.
       if mem = 0 then kbind (freevm d s) (\<lambda>_ s. Ok (Some (0 :: nat)) s)
       else kbind (mappages d i PGSIZE (V2P mem) flags
           (s\<lparr>pmem := memmove (pmem s) (V2P mem) pa PGSIZE\<rparr>)) (\<lambda>r s.
         if r < 0 then kbind (kfree mem s) (\<lambda>_ s. kbind (freevm d s) (\<lambda>_ s. Ok (Some 0) s))
         else Ok None s)))))) s) (\<lambda>r s.
     Ok (case r of None \<Rightarrow> d | Some x \<Rightarrow> x) s))"

text \<open>\<open>uva2ka\<close> does not test the pointer \<open>walkpgdir\<close> returns.\<close>

definition uva2ka :: "nat \<Rightarrow> nat \<Rightarrow> kst \<Rightarrow> nat kres" where
  "uva2ka pd uva s = kbind (walkpgdir pd uva False s) (\<lambda>pte s.
     kbind (kguard (pte \<noteq> 0) s) (\<lambda>_ s.
     if and (kread pte s) PTE_P = 0 then Ok 0 s
     else if and (kread pte s) PTE_U = 0 then Ok 0 s
     else Ok (P2V (PTE_ADDR (kread pte s))) s))"

lemma pgrounddown_le: "va - PGROUNDDOWN va < PGSIZE" "PGROUNDDOWN va \<le> va"
proof -
  have "va div PGSIZE * PGSIZE + va mod PGSIZE = va" by (rule div_mult_mod_eq)
  moreover have "va mod PGSIZE < PGSIZE" by (simp add: param_defs)
  ultimately show "va - PGROUNDDOWN va < PGSIZE" "PGROUNDDOWN va \<le> va"
    unfolding PGROUNDDOWN_def by linarith+
qed

lemma copyout_chunk: "p \<noteq> [] \<Longrightarrow> length p - min (PGSIZE - (va - PGROUNDDOWN va)) (length p) < length p"
  using pgrounddown_le(1)[of va] by (cases p) auto

function copyout :: "nat \<Rightarrow> nat \<Rightarrow> u8 list \<Rightarrow> kst \<Rightarrow> int kres" where
  "copyout pd va p s = (if p = [] then Ok 0 s
     else let va0 = PGROUNDDOWN va in
       kbind (uva2ka pd va0 s) (\<lambda>pa0 s.
       if pa0 = 0 then Ok (- 1) s
       else let n = min (PGSIZE - (va - va0)) (length p) in
         copyout pd (uadd va0 PGSIZE) (drop n p)
           (s\<lparr>pmem := put_region (pmem s) (V2P (pa0 + (va - va0))) (take n p)\<rparr>)))"
  by pat_completeness auto
termination
  by (relation "measure (\<lambda>(pd, va, p, s). length p)") (use copyout_chunk in auto)

declare copyout.simps [simp del]

end
