(* ===== verification/Dir.thy ===== *)
theory Dir
  imports FsFile
begin

text \<open>
  Directories and path names (fs.c). A directory entry is 16 bytes: the inode number and the name,
  padded with NUL. A path is the list of its bytes before the terminating NUL.
\<close>

definition DIRSIZ :: nat where "DIRSIZ = 14"

lemmas [param_defs] = DIRSIZ_def

definition namecmp :: "u8 list \<Rightarrow> u8 list \<Rightarrow> int option" where
  "namecmp s t = strncmp s t DIRSIZ"

text \<open>\<open>struct dirent\<close>: its two fields in the bytes \<open>readi\<close> copies, and the bytes of an entry.\<close>

definition de_inum :: "u8 list \<Rightarrow> nat" where
  "de_inum d = get16 d 0"

definition de_name :: "u8 list \<Rightarrow> u8 list" where
  "de_name d = take DIRSIZ (drop 2 d)"

definition mk_dirent :: "nat \<Rightarrow> u8 list \<Rightarrow> u8 list" where
  "mk_dirent inum nm = put16 0 inum [0, 0] @ nm"

text \<open>One round of the loop of \<open>dirlookup\<close>; it returns the inode and the offset of the entry.\<close>

definition dirlookup_at :: "nat \<Rightarrow> u8 list \<Rightarrow> nat \<Rightarrow> kst \<Rightarrow> (nat \<times> nat) option kres" where
  "dirlookup_at dp name off s = kbind (readi dp off 16 s) (\<lambda>(r, de) s.
     if r \<noteq> 16 then Panic ''dirlookup read''
     else if de_inum de = 0 then Ok None s
     else case namecmp name (de_name de) of None \<Rightarrow> Undef
     | Some c \<Rightarrow> if c = 0 then kbind (iget (i_dev (inodes s ! dp)) (de_inum de) s) (\<lambda>ip s. Ok (Some (ip, off)) s)
         else Ok None s)"

definition dir_offs :: "nat \<Rightarrow> nat list" where
  "dir_offs n = map (\<lambda>k. 16 * k) [0..<(n + 15) div 16]"

definition dirlookup :: "nat \<Rightarrow> u8 list \<Rightarrow> kst \<Rightarrow> (nat \<times> nat) option kres" where
  "dirlookup dp name s = (if i_type (inodes s ! dp) \<noteq> T_DIR then Panic ''dirlookup not DIR''
     else kfind (dir_offs (i_size (inodes s ! dp))) (dirlookup_at dp name) s)"

text \<open>The search of \<open>dirlink\<close> for an entry to fill.\<close>

definition dirlink_at :: "nat \<Rightarrow> nat \<Rightarrow> kst \<Rightarrow> nat option kres" where
  "dirlink_at dp off s = kbind (readi dp off 16 s) (\<lambda>(r, de) s.
     if r \<noteq> 16 then Panic ''dirlink read''
     else if de_inum de = 0 then Ok (Some off) s else Ok None s)"

definition dirlink :: "nat \<Rightarrow> u8 list \<Rightarrow> nat \<Rightarrow> kst \<Rightarrow> int kres" where
  "dirlink dp name inum s = kbind (dirlookup dp name s) (\<lambda>r s.
     case r of Some (ip, _) \<Rightarrow> kbind (iput ip s) (\<lambda>_ s. Ok (- 1) s)
     | None \<Rightarrow>
       kbind (kfind (dir_offs (i_size (inodes s ! dp))) (dirlink_at dp) s) (\<lambda>r s.
       let off = (case r of Some off \<Rightarrow> off | None \<Rightarrow> 16 * ((i_size (inodes s ! dp) + 15) div 16)) in
       case strncpy name DIRSIZ of None \<Rightarrow> Undef
       | Some nm \<Rightarrow> kbind (writei dp (mk_dirent (inum mod 2 ^ 16) nm) off 16 s) (\<lambda>r s.
           if r \<noteq> 16 then Panic ''dirlink'' else Ok 0 s)))"

subsection \<open>Path names\<close>

text \<open>
  \<open>skipelem path name\<close>: the rest of the path and the new content of the buffer \<open>name\<close>, or \<open>None\<close> when
  there is no element. 47 is the code of the slash.
\<close>

definition skipelem :: "u8 list \<Rightarrow> u8 list \<Rightarrow> (u8 list \<times> u8 list) option" where
  "skipelem path name = (let path = dropWhile (\<lambda>c. c = 47) path in
     if path = [] then None
     else let elem = takeWhile (\<lambda>c. c \<noteq> 47) path; len = length elem;
       name = (if len \<ge> DIRSIZ then take DIRSIZ elem else elem @ 0 # drop (len + 1) name) in
       Some (dropWhile (\<lambda>c. c = 47) (drop len path), name))"

lemma skipelem_shorter:
  assumes "skipelem path name = Some (path', name')"
  shows "length path' < length path"
proof -
  let ?p = "dropWhile (\<lambda>c. c = 47) path" and ?e = "takeWhile (\<lambda>c. c \<noteq> 47) (dropWhile (\<lambda>c. c = 47) path)"
  have ne: "?p \<noteq> []" and p': "path' = dropWhile (\<lambda>c. c = 47) (drop (length ?e) ?p)"
    using assms by (auto simp: skipelem_def Let_def split: if_splits)
  have "hd ?p \<noteq> 47" using hd_dropWhile[OF ne] by simp
  then have "0 < length ?e" using ne by (cases ?p) auto
  moreover have "0 < length ?p" "length ?p \<le> length path" using ne by (simp_all add: length_dropWhile_le)
  moreover have "length path' \<le> length ?p - length ?e"
    unfolding p' using length_dropWhile_le[of _ "drop (length ?e) ?p"] by simp
  ultimately show ?thesis by linarith
qed

text \<open>The loop of \<open>namex\<close>; it returns the inode, if any, and the content of \<open>name\<close>.\<close>

function namex_loop :: "bool \<Rightarrow> nat \<Rightarrow> u8 list \<Rightarrow> u8 list \<Rightarrow> kst \<Rightarrow> (nat option \<times> u8 list) kres" where
  "namex_loop par ip path name s = (case skipelem path name of
     None \<Rightarrow> if par then kbind (iput ip s) (\<lambda>_ s. Ok (None, name) s) else Ok (Some ip, name) s
   | Some (path', name') \<Rightarrow>
       kbind (ilock ip s) (\<lambda>_ s.
       if i_type (inodes s ! ip) \<noteq> T_DIR then kbind (iunlockput ip s) (\<lambda>_ s. Ok (None, name') s)
       else if par \<and> path' = [] then kbind (iunlock ip s) (\<lambda>_ s. Ok (Some ip, name') s)
       else kbind (dirlookup ip name' s) (\<lambda>r s.
         case r of None \<Rightarrow> kbind (iunlockput ip s) (\<lambda>_ s. Ok (None, name') s)
         | Some (nxt, _) \<Rightarrow> kbind (iunlockput ip s) (\<lambda>_ s. namex_loop par nxt path' name' s))))"
  by pat_completeness auto
termination
  by (relation "measure (\<lambda>(par, ip, path, name, s). length path)") (auto dest: skipelem_shorter)

declare namex_loop.simps [simp del]

definition namex :: "u8 list \<Rightarrow> bool \<Rightarrow> u8 list \<Rightarrow> kst \<Rightarrow> (nat option \<times> u8 list) kres" where
  "namex path par name s =
     (if path \<noteq> [] \<and> hd path = 47 then kbind (iget ROOTDEV ROOTINO s) (\<lambda>ip s. namex_loop par ip path name s)
      else case curproc s of None \<Rightarrow> Undef | Some p \<Rightarrow>
        (case cwd (procs s ! p) of None \<Rightarrow> Undef
         | Some ip \<Rightarrow> kbind (idup ip s) (\<lambda>ip s. namex_loop par ip path name s)))"

text \<open>The local buffer \<open>name\<close> of \<open>namei\<close> is not initialised; zeros stand for its content, which nothing reads.\<close>

definition namei :: "u8 list \<Rightarrow> kst \<Rightarrow> nat option kres" where
  "namei path s = kbind (namex path False (replicate DIRSIZ 0) s) (\<lambda>r s. Ok (fst r) s)"

definition nameiparent :: "u8 list \<Rightarrow> u8 list \<Rightarrow> kst \<Rightarrow> (nat option \<times> u8 list) kres" where
  "nameiparent path name s = namex path True name s"

end
