(* ===== verification/Ring.thy ===== *)
theory Ring
  imports KState
begin

text \<open>
  Ring buffers between two free-running 32-bit counters, as the pipes and the console keep them: the
  element with number \<open>k\<close> is in cell \<open>k mod N\<close>, and \<open>N\<close> divides \<open>2 ^ 32\<close>, so that the counters may wrap
  around. The locale \<open>byte_queue\<close> is what the code that moves bytes through such a buffer relies on.
\<close>

subsection \<open>Counters\<close>

lemma usub_self [simp]: "usub a a = 0"
  by (simp add: usub_def)

lemma uadd_usub: "a < 2 ^ 32 \<Longrightarrow> b < 2 ^ 32 \<Longrightarrow> uadd a (usub b a) = b"
proof -
  assume a: "a < 2 ^ 32" "b < 2 ^ 32"
  show ?thesis
  proof (cases "a \<le> b")
    case True
    then show ?thesis using a by (simp add: usub_small uadd_def)
  next
    case False
    then have "usub b a = b + 2 ^ 32 - a" using a by (simp add: usub_def)
    then show ?thesis using a False by (simp add: uadd_def)
  qed
qed

lemma usub_eq_0: "a < 2 ^ 32 \<Longrightarrow> b < 2 ^ 32 \<Longrightarrow> usub b a = 0 \<longleftrightarrow> a = b"
  using uadd_usub[of a b] by (auto simp: uadd_def)

lemma usub_less: "usub a b < 2 ^ 32"
  by (simp add: usub_def)

lemma uadd_less: "uadd a b < 2 ^ 32"
  by (simp add: uadd_def)

lemmas [simp] = usub_less usub_less[simplified] uadd_less uadd_less[simplified]

lemma usub_uadd: "a < 2 ^ 32 \<Longrightarrow> n < 2 ^ 32 \<Longrightarrow> usub (uadd a n) a = n"
proof -
  assume a: "a < 2 ^ 32" "n < 2 ^ 32"
  show ?thesis
  proof (cases "a + n < 2 ^ 32")
    case True
    then show ?thesis using a by (simp add: uadd_def usub_def)
  next
    case False
    then have "(a + n) mod 2 ^ 32 = a + n - 2 ^ 32" using a by (simp add: mod_if)
    then show ?thesis using a False by (simp add: uadd_def usub_def)
  qed
qed

lemma uadd_uadd: "uadd (uadd a b) c = uadd a (b + c)"
  by (simp add: uadd_def mod_add_left_eq add.assoc)

lemma usub_step: "a < 2 ^ 32 \<Longrightarrow> b < 2 ^ 32 \<Longrightarrow> usub b a < 2 ^ 32 - 1 \<Longrightarrow> usub (uadd b 1) a = usub b a + 1"
  using usub_uadd[of a "usub b a + 1"] uadd_usub[of a b] uadd_uadd[of a "usub b a" 1] by simp

lemma usub_next: "a < 2 ^ 32 \<Longrightarrow> b < 2 ^ 32 \<Longrightarrow> a \<noteq> b \<Longrightarrow> usub b (uadd a 1) = usub b a - 1"
proof -
  assume a: "a < 2 ^ 32" "b < 2 ^ 32" "a \<noteq> b"
  have n: "0 < usub b a" using usub_eq_0[OF a(1,2)] a(3) by simp
  have "b = uadd (uadd a 1) (usub b a - 1)" using uadd_usub[OF a(1,2)] uadd_uadd[of a 1 "usub b a - 1"] n by simp
  then show ?thesis using usub_uadd[of "uadd a 1" "usub b a - 1"] usub_less[of b a] by (metis less_imp_diff_less uadd_less)
qed

lemma usub_back: "a < 2 ^ 32 \<Longrightarrow> b < 2 ^ 32 \<Longrightarrow> a \<noteq> b \<Longrightarrow> usub (usub b 1) a = usub b a - 1"
proof -
  assume a: "a < 2 ^ 32" "b < 2 ^ 32" "a \<noteq> b"
  have n: "0 < usub b a" using usub_eq_0[OF a(1,2)] a(3) by simp
  have "uadd (usub b 1) 1 = b" using uadd_usub[of 1 b] a(2) by (simp add: uadd_def add.commute)
  moreover have "uadd (uadd a (usub b a - 1)) 1 = b" using uadd_usub[OF a(1,2)] uadd_uadd[of a "usub b a - 1" 1] n by simp
  ultimately have "usub b 1 = uadd a (usub b a - 1)"
    using usub_uadd[of 1 "usub b 1"] usub_uadd[of 1 "uadd a (usub b a - 1)"]
    by (metis uadd_def add.commute one_less_numeral_iff one_less_power semiring_norm(76) uadd_less usub_less zero_less_numeral)
  then show ?thesis using usub_uadd[of a "usub b a - 1"] a(1) usub_less[of b a] by (metis less_imp_diff_less)
qed

subsection \<open>The elements between two counters\<close>

definition span :: "nat \<Rightarrow> 'a list \<Rightarrow> nat \<Rightarrow> nat \<Rightarrow> 'a list" where
  "span N d a b = map (\<lambda>k. d ! (uadd a k mod N)) [0..<usub b a]"

definition ring_ok :: "nat \<Rightarrow> 'a list \<Rightarrow> nat \<Rightarrow> nat \<Rightarrow> bool" where
  "ring_ok N d a b \<longleftrightarrow> 0 < N \<and> N dvd 2 ^ 32 \<and> N < 2 ^ 32 \<and> length d = N \<and> a < 2 ^ 32 \<and> b < 2 ^ 32 \<and> usub b a \<le> N"

lemma length_span [simp]: "length (span N d a b) = usub b a"
  by (simp add: span_def)

lemma nth_span [simp]: "k < usub b a \<Longrightarrow> span N d a b ! k = d ! (uadd a k mod N)"
  by (simp add: span_def)

lemma uadd_mod: "N dvd 2 ^ 32 \<Longrightarrow> uadd a k mod N = (a + k) mod N"
  by (simp add: uadd_def mod_mod_cancel)

lemma cells_differ:
  assumes "ring_ok N d a b" "k < usub b a" "usub b a < N"
  shows "uadd a k mod N \<noteq> b mod N"
proof
  assume h: "uadd a k mod N = b mod N"
  have "b = uadd a (usub b a)" using uadd_usub[of a b] assms(1) by (simp add: ring_ok_def)
  then have "(a + k) mod N = (a + usub b a) mod N"
    using h assms(1) uadd_mod[of N a "usub b a"] by (simp add: ring_ok_def uadd_mod)
  then have "N dvd (a + usub b a) - (a + k)" using assms(2) mod_eq_dvd_iff_nat[of "a + k" "a + usub b a" N] by simp
  then have "N dvd usub b a - k" by simp
  then show False using assms(2,3) by (auto dest: dvd_imp_le)
qed

lemma span_push:
  assumes R: "ring_ok N d a b" and f: "usub b a < N"
  shows "ring_ok N (d[b mod N := c]) a (uadd b 1)" "span N (d[b mod N := c]) a (uadd b 1) = span N d a b @ [c]"
proof -
  have r: "0 < N" "N dvd 2 ^ 32" "N < 2 ^ 32" "length d = N" "a < 2 ^ 32" "b < 2 ^ 32"
    using R by (simp_all add: ring_ok_def)
  have st: "usub (uadd b 1) a = usub b a + 1" using usub_step[OF r(5,6)] f r(3) by simp
  show "ring_ok N (d[b mod N := c]) a (uadd b 1)" using R f st by (auto simp: ring_ok_def)
  have last: "uadd a (usub b a) mod N = b mod N" using uadd_usub[OF r(5,6)] by simp
  have bl: "b mod N < length d" using r(1,4) by simp
  show "span N (d[b mod N := c]) a (uadd b 1) = span N d a b @ [c]"
  proof (rule nth_equalityI)
    fix k assume "k < length (span N (d[b mod N := c]) a (uadd b 1))"
    then have k: "k < usub b a \<or> k = usub b a" using st by (auto simp: less_Suc_eq)
    then show "span N (d[b mod N := c]) a (uadd b 1) ! k = (span N d a b @ [c]) ! k"
    proof
      assume "k < usub b a"
      then show ?thesis using cells_differ[OF R \<open>k < usub b a\<close> f] st by (simp add: nth_append nth_list_update_neq[OF not_sym])
    next
      assume "k = usub b a"
      then show ?thesis using st last bl by (simp add: nth_append)
    qed
  qed (simp add: st)
qed

lemma span_pop:
  assumes R: "ring_ok N d a b" and ne: "a \<noteq> b"
  shows "ring_ok N d (uadd a 1) b" "span N d a b = d ! (a mod N) # span N d (uadd a 1) b"
proof -
  have r: "a < 2 ^ 32" "b < 2 ^ 32" "usub b a \<le> N" using R by (simp_all add: ring_ok_def)
  have st: "usub b (uadd a 1) = usub b a - 1" by (rule usub_next[OF r(1,2) ne])
  have n: "0 < usub b a" using usub_eq_0[OF r(1,2)] ne by simp
  show "ring_ok N d (uadd a 1) b" using R st by (auto simp: ring_ok_def)
  show "span N d a b = d ! (a mod N) # span N d (uadd a 1) b"
  proof (rule nth_equalityI)
    fix k assume k: "k < length (span N d a b)"
    show "span N d a b ! k = (d ! (a mod N) # span N d (uadd a 1) b) ! k"
    proof (cases k)
      case 0
      then show ?thesis using k r by (simp add: span_def uadd_def)
    next
      case (Suc j)
      then have "j < usub b (uadd a 1)" using k st by simp
      then show ?thesis using Suc k uadd_uadd[of a 1 j] by (simp add: Suc_eq_plus1_left)
    qed
  qed (use st n in simp)
qed

lemma span_unpush:
  assumes R: "ring_ok N d a b" and ne: "a \<noteq> b"
  shows "ring_ok N d a (usub b 1)" "span N d a (usub b 1) = butlast (span N d a b)"
    "last (span N d a b) = d ! (usub b 1 mod N)"
proof -
  have r: "a < 2 ^ 32" "b < 2 ^ 32" "usub b a \<le> N" using R by (simp_all add: ring_ok_def)
  have st: "usub (usub b 1) a = usub b a - 1" by (rule usub_back[OF r(1,2) ne])
  have n: "0 < usub b a" using usub_eq_0[OF r(1,2)] ne by simp
  show "ring_ok N d a (usub b 1)" using R st by (auto simp: ring_ok_def)
  show "span N d a (usub b 1) = butlast (span N d a b)"
    by (rule nth_equalityI) (simp_all add: st nth_butlast)
  have "uadd a (usub b a - 1) = usub b 1" using uadd_usub[of a "usub b 1"] r(1) st by simp
  then show "last (span N d a b) = d ! (usub b 1 mod N)" using n by (simp add: span_def last_conv_nth)
qed

lemma span_split:
  assumes "a < 2 ^ 32" "b < 2 ^ 32" "c < 2 ^ 32" "usub b a \<le> usub c a"
  shows "span N d a c = span N d a b @ span N d b c"
proof -
  let ?x = "usub b a" and ?y = "usub c a"
  have b: "b = uadd a ?x" and c: "c = uadd a ?y" using uadd_usub assms by simp_all
  have "c = uadd b (?y - ?x)" using uadd_uadd[of a ?x "?y - ?x"] b c assms(4) by simp
  moreover have "?y - ?x < 2 ^ 32" using usub_less[of c a] by (rule le_less_trans[OF diff_le_self])
  ultimately have cb: "usub c b = ?y - ?x" using usub_uadd[OF assms(2), of "?y - ?x"] by simp
  show ?thesis
  proof (rule nth_equalityI)
    show "length (span N d a c) = length (span N d a b @ span N d b c)" using assms(4) cb by simp
    fix k assume k: "k < length (span N d a c)"
    show "span N d a c ! k = (span N d a b @ span N d b c) ! k"
    proof (cases "k < ?x")
      case True
      then show ?thesis using assms(4) by (simp add: nth_append)
    next
      case False
      then have "uadd b (k - ?x) = uadd a k" using uadd_uadd[of a ?x "k - ?x"] b by simp
      moreover have "k - ?x < usub c b" using False k cb by simp
      ultimately show ?thesis using False k by (simp add: span_def nth_append)
    qed
  qed
qed

subsection \<open>The interface\<close>

locale byte_queue =
  fixes elems :: "'q \<Rightarrow> 'a list"
    and ok :: "'q \<Rightarrow> bool"
    and full :: "'q \<Rightarrow> bool"
    and empty :: "'q \<Rightarrow> bool"
    and put :: "'a \<Rightarrow> 'q \<Rightarrow> 'q"
    and get :: "'q \<Rightarrow> 'a \<times> 'q"
    and cap :: nat
  assumes full_law: "ok q \<Longrightarrow> full q \<longleftrightarrow> length (elems q) = cap"
    and empty_law: "ok q \<Longrightarrow> empty q \<longleftrightarrow> elems q = []"
    and cap_law: "ok q \<Longrightarrow> length (elems q) \<le> cap"
    and put_law: "ok q \<Longrightarrow> \<not> full q \<Longrightarrow> ok (put c q) \<and> elems (put c q) = elems q @ [c]"
    and get_law: "ok q \<Longrightarrow> \<not> empty q \<Longrightarrow> ok (snd (get q)) \<and> elems q = fst (get q) # elems (snd (get q))"
begin

text \<open>Put as many of the elements as there is room for; take at most \<open>n\<close>.\<close>

fun put_some :: "'a list \<Rightarrow> 'q \<Rightarrow> 'a list \<times> 'q" where
  "put_some [] q = ([], q)"
| "put_some (c # cs) q = (if full q then (c # cs, q) else put_some cs (put c q))"

fun get_some :: "nat \<Rightarrow> 'q \<Rightarrow> 'a list \<times> 'q" where
  "get_some 0 q = ([], q)"
| "get_some (Suc n) q = (if empty q then ([], q) else
     let (c, q) = get q; (cs, q) = get_some n q in (c # cs, q))"

lemma put_some_law:
  "ok q \<Longrightarrow> put_some cs q = (ds, r) \<Longrightarrow> ok r \<and> ds = drop (cap - length (elems q)) cs
     \<and> elems r = elems q @ take (cap - length (elems q)) cs"
proof (induction cs arbitrary: q)
  case (Cons c cs)
  show ?case
  proof (cases "full q")
    case True
    then show ?thesis using Cons.prems full_law by auto
  next
    case False
    note P = put_law[OF Cons.prems(1) False, of c]
    have lt: "length (elems q) < cap" using False full_law[OF Cons.prems(1)] cap_law[OF Cons.prems(1)] by simp
    then have d: "cap - length (elems q) = Suc (cap - length (elems (put c q)))" using P by simp
    show ?thesis using Cons.IH[of "put c q"] Cons.prems(2) P False unfolding d by simp
  qed
qed simp

lemma get_some_law:
  "ok q \<Longrightarrow> get_some n q = (ds, r) \<Longrightarrow> ok r \<and> ds = take n (elems q) \<and> elems r = drop n (elems q)"
proof (induction n arbitrary: q ds r)
  case (Suc n)
  show ?case
  proof (cases "empty q")
    case True
    then show ?thesis using Suc.prems empty_law by auto
  next
    case False
    obtain c q' where g: "get q = (c, q')" by (cases "get q")
    obtain cs q'' where h: "get_some n q' = (cs, q'')" by (cases "get_some n q'")
    have G: "ok q'" "elems q = c # elems q'" using get_law[OF Suc.prems(1) False] g by simp_all
    show ?thesis using Suc.IH[OF G(1) h] Suc.prems(2) False g h G(2) by auto
  qed
qed simp

end

end
