(* ===== verification/FTable.thy ===== *)
theory FTable
  imports Sched Dir Ring
begin

text \<open>
  Pipes (pipe.c) and open files (file.c). A pipe is named by the address of the page \<open>kalloc\<close> gave it;
  its fields are a record of their own. A file is the index of its entry in \<open>ftable\<close>. The buffer of a
  read or write is the list of its bytes; a read returns what it stored there. A call that sleeps ends
  in \<open>Sched\<close>; the \<open>_again\<close> definitions say how it goes on when it is woken up.
\<close>

definition PIPESIZE :: nat where "PIPESIZE = 512"

lemmas [param_defs] = PIPESIZE_def

definition upd_pipe :: "nat \<Rightarrow> (pipe \<Rightarrow> pipe) \<Rightarrow> kst \<Rightarrow> kst" where
  "upd_pipe p f s = s\<lparr>pipes := (pipes s)(p := f (pipes s p))\<rparr>"

lemma upd_pipe_simps [simp]:
  "pipes (upd_pipe p f s) = (pipes s)(p := f (pipes s p))" "held (upd_pipe p f s) = held s"
  "curproc (upd_pipe p f s) = curproc s" "procs (upd_pipe p f s) = procs s"
  "files (upd_pipe p f s) = files s" "inodes (upd_pipe p f s) = inodes s" "bufs (upd_pipe p f s) = bufs s"
  "disk (upd_pipe p f s) = disk s" "lg (upd_pipe p f s) = lg s" "freelist (upd_pipe p f s) = freelist s"
  "pmem (upd_pipe p f s) = pmem s"
  by (simp_all add: upd_pipe_def)

subsection \<open>The file table\<close>

definition filealloc :: "kst \<Rightarrow> nat option kres" where
  "filealloc s = kbind (acquire LFtable s) (\<lambda>_ s.
     case first_idx (\<lambda>f. f_ref f = 0) (files s) of
       Some i \<Rightarrow> kbind (release LFtable (upd_file i (\<lambda>f. f\<lparr>f_ref := 1\<rparr>) s)) (\<lambda>_ s. Ok (Some i) s)
     | None \<Rightarrow> kbind (release LFtable s) (\<lambda>_ s. Ok None s))"

definition filedup :: "nat \<Rightarrow> kst \<Rightarrow> nat kres" where
  "filedup f s = kbind (acquire LFtable s) (\<lambda>_ s.
     kbind (kassert (\<not> f_ref (files s ! f) < 1) ''filedup'' s) (\<lambda>_ s.
     kbind (release LFtable (upd_file f (\<lambda>x. x\<lparr>f_ref := f_ref x + 1\<rparr>) s)) (\<lambda>_ s. Ok f s)))"

subsection \<open>Pipes\<close>

definition pipeclose :: "nat \<Rightarrow> bool \<Rightarrow> kst \<Rightarrow> unit kres" where
  "pipeclose p writable s = kbind (acquire (LPipe p) s) (\<lambda>_ s.
     kbind (if writable then wakeup (Some (ChPipeRead p)) (upd_pipe p (\<lambda>x. x\<lparr>p_writeopen := False\<rparr>) s)
            else wakeup (Some (ChPipeWrite p)) (upd_pipe p (\<lambda>x. x\<lparr>p_readopen := False\<rparr>) s)) (\<lambda>_ s.
     if \<not> p_readopen (pipes s p) \<and> \<not> p_writeopen (pipes s p)
     then kbind (release (LPipe p) s) (\<lambda>_ s. kfree p s)
     else release (LPipe p) s))"

definition pipe_full :: "pipe \<Rightarrow> bool" where
  "pipe_full p \<longleftrightarrow> p_nwrite p = uadd (p_nread p) PIPESIZE"

definition pipe_empty :: "pipe \<Rightarrow> bool" where
  "pipe_empty p \<longleftrightarrow> p_nread p = p_nwrite p"

definition pipe_put :: "u8 \<Rightarrow> pipe \<Rightarrow> pipe" where
  "pipe_put c p = p\<lparr>p_data := (p_data p)[p_nwrite p mod PIPESIZE := c], p_nwrite := uadd (p_nwrite p) 1\<rparr>"

definition pipe_get :: "pipe \<Rightarrow> u8 \<times> pipe" where
  "pipe_get p = (p_data p ! (p_nread p mod PIPESIZE), p\<lparr>p_nread := uadd (p_nread p) 1\<rparr>)"

text \<open>
  The loop of \<open>pipewrite\<close> over the bytes still to write, and what follows it; \<open>n\<close> is the length of the
  whole request.
\<close>

fun pipewrite_loop :: "nat \<Rightarrow> int \<Rightarrow> u8 list \<Rightarrow> kst \<Rightarrow> int kres" where
  "pipewrite_loop p n [] s = kbind (wakeup (Some (ChPipeRead p)) s) (\<lambda>_ s.
     kbind (release (LPipe p) s) (\<lambda>_ s. Ok n s))"
| "pipewrite_loop p n (c # cs) s =
     (if pipe_full (pipes s p) then
        if \<not> p_readopen (pipes s p) \<or> killed (cur s) then kbind (release (LPipe p) s) (\<lambda>_ s. Ok (- 1) s)
        else kbind (wakeup (Some (ChPipeRead p)) s) (\<lambda>_ s. sleep (ChPipeWrite p) (Some (LPipe p)) s)
      else pipewrite_loop p n cs (upd_pipe p (pipe_put c) s))"

definition pipewrite :: "nat \<Rightarrow> u8 list \<Rightarrow> int \<Rightarrow> kst \<Rightarrow> int kres" where
  "pipewrite p addr n s = kbind (acquire (LPipe p) s) (\<lambda>_ s.
     kbind (kguard (nat n \<le> length addr) s) (\<lambda>_ s. pipewrite_loop p n (take (nat n) addr) s))"

definition pipewrite_again :: "nat \<Rightarrow> int \<Rightarrow> u8 list \<Rightarrow> kst \<Rightarrow> int kres" where
  "pipewrite_again p n cs s = kbind (sleep_resume (LPipe p) s) (\<lambda>_ s. pipewrite_loop p n cs s)"

fun pipe_take :: "nat \<Rightarrow> nat \<Rightarrow> kst \<Rightarrow> u8 list \<times> kst" where
  "pipe_take p 0 s = ([], s)"
| "pipe_take p (Suc n) s = (if pipe_empty (pipes s p) then ([], s)
     else let (cs, t) = pipe_take p n (upd_pipe p (\<lambda>x. snd (pipe_get x)) s) in
       (fst (pipe_get (pipes s p)) # cs, t))"

text \<open>\<open>piperead\<close> from the test for an empty pipe on.\<close>

definition piperead_loop :: "nat \<Rightarrow> int \<Rightarrow> kst \<Rightarrow> (int \<times> u8 list) kres" where
  "piperead_loop p n s =
     (if pipe_empty (pipes s p) \<and> p_writeopen (pipes s p) then
        if killed (cur s) then kbind (release (LPipe p) s) (\<lambda>_ s. Ok (- 1, []) s)
        else sleep (ChPipeRead p) (Some (LPipe p)) s
      else let (cs, s) = pipe_take p (nat n) s in
        kbind (wakeup (Some (ChPipeWrite p)) s) (\<lambda>_ s.
        kbind (release (LPipe p) s) (\<lambda>_ s. Ok (int (length cs), cs) s)))"

definition piperead :: "nat \<Rightarrow> int \<Rightarrow> kst \<Rightarrow> (int \<times> u8 list) kres" where
  "piperead p n s = kbind (acquire (LPipe p) s) (\<lambda>_ s. piperead_loop p n s)"

definition piperead_again :: "nat \<Rightarrow> int \<Rightarrow> kst \<Rightarrow> (int \<times> u8 list) kres" where
  "piperead_again p n s = kbind (sleep_resume (LPipe p) s) (\<lambda>_ s. piperead_loop p n s)"

subsection \<open>Closing, reading and writing files\<close>

definition fileclose :: "nat \<Rightarrow> kst \<Rightarrow> unit kres" where
  "fileclose f s = kbind (acquire LFtable s) (\<lambda>_ s.
     kbind (kassert (\<not> f_ref (files s ! f) < 1) ''fileclose'' s) (\<lambda>_ s.
     let s = upd_file f (\<lambda>x. x\<lparr>f_ref := f_ref x - 1\<rparr>) s in
     if f_ref (files s ! f) > 0 then release LFtable s
     else let ff = files s ! f in
       kbind (release LFtable (upd_file f (\<lambda>x. x\<lparr>f_ref := 0, f_type := FD_NONE\<rparr>) s)) (\<lambda>_ s.
       case f_type ff of
         FD_PIPE \<Rightarrow> pipeclose (f_pipe ff) (f_writable ff) s
       | FD_INODE \<Rightarrow> kbind (begin_op s) (\<lambda>_ s. kbind (iput (f_ip ff) s) (\<lambda>_ s. end_op s))
       | FD_NONE \<Rightarrow> Ok () s)))"

definition pipealloc :: "kst \<Rightarrow> (nat \<times> nat) option kres" where
  "pipealloc s = kbind (filealloc s) (\<lambda>f0 s. case f0 of None \<Rightarrow> Ok None s | Some f0 \<Rightarrow>
     kbind (filealloc s) (\<lambda>f1 s. case f1 of None \<Rightarrow> kbind (fileclose f0 s) (\<lambda>_ s. Ok None s) | Some f1 \<Rightarrow>
     kbind (kalloc s) (\<lambda>p s.
     if p = 0 then kbind (fileclose f0 s) (\<lambda>_ s. kbind (fileclose f1 s) (\<lambda>_ s. Ok None s))
     else
       let s = upd_pipe p (\<lambda>x. x\<lparr>p_readopen := True, p_writeopen := True, p_nwrite := 0, p_nread := 0\<rparr>) s;
           s = upd_file f0 (\<lambda>f. f\<lparr>f_type := FD_PIPE, f_readable := True, f_writable := False, f_pipe := p\<rparr>) s;
           s = upd_file f1 (\<lambda>f. f\<lparr>f_type := FD_PIPE, f_readable := False, f_writable := True, f_pipe := p\<rparr>) s in
       Ok (Some (f0, f1)) s)))"

definition filestat :: "nat \<Rightarrow> kst \<Rightarrow> stat option kres" where
  "filestat f s = (if f_type (files s ! f) = FD_INODE then
     kbind (ilock (f_ip (files s ! f)) s) (\<lambda>_ s.
     let st = stati (f_ip (files s ! f)) s in
     kbind (iunlock (f_ip (files s ! f)) s) (\<lambda>_ s. Ok (Some st) s))
   else Ok None s)"

definition fileread :: "nat \<Rightarrow> int \<Rightarrow> kst \<Rightarrow> (int \<times> u8 list) kres" where
  "fileread f n s = (let x = files s ! f in
     if \<not> f_readable x then Ok (- 1, []) s
     else case f_type x of
       FD_PIPE \<Rightarrow> piperead (f_pipe x) n s
     | FD_INODE \<Rightarrow> kbind (ilock (f_ip x) s) (\<lambda>_ s.
         kbind (readi (f_ip x) (f_off (files s ! f)) (uint32 n) s) (\<lambda>(r, bs) s.
         let s = (if r > 0 then upd_file f (\<lambda>y. y\<lparr>f_off := uadd (f_off y) (nat r)\<rparr>) s else s) in
         kbind (iunlock (f_ip x) s) (\<lambda>_ s. Ok (r, bs) s)))
     | FD_NONE \<Rightarrow> Panic ''fileread'')"

definition max_chunk :: int where
  "max_chunk = (int MAXOPBLOCKS - 1 - 1 - 2) div 2 * 512"

text \<open>
  One round of the loops of \<open>filewrite\<close> and \<open>pwrite\<close>: a transaction that writes \<open>n1\<close> bytes at \<open>off\<close>
  and then does \<open>adv\<close>; the value is what \<open>writei\<close> returned.
\<close>

definition write_chunk :: "nat \<Rightarrow> u8 list \<Rightarrow> (kst \<Rightarrow> nat) \<Rightarrow> int \<Rightarrow> (int \<Rightarrow> kst \<Rightarrow> kst) \<Rightarrow> kst \<Rightarrow> int kres" where
  "write_chunk ip src off n1 adv s = kbind (begin_op s) (\<lambda>_ s.
     kbind (ilock ip s) (\<lambda>_ s.
     kbind (writei ip src (off s) (uint32 n1) s) (\<lambda>r s.
     let s = (if r > 0 then adv r s else s) in
     kbind (iunlock ip s) (\<lambda>_ s.
     kbind (end_op s) (\<lambda>_ s. Ok r s)))))"

function filewrite_loop :: "nat \<Rightarrow> u8 list \<Rightarrow> int \<Rightarrow> int \<Rightarrow> kst \<Rightarrow> int kres" where
  "filewrite_loop f addr n i s = (if i < n then
     let n1 = min (n - i) max_chunk in
     kbind (write_chunk (f_ip (files s ! f)) (drop (nat i) addr) (\<lambda>s. f_off (files s ! f)) n1
        (\<lambda>r. upd_file f (\<lambda>y. y\<lparr>f_off := uadd (f_off y) (nat r)\<rparr>)) s) (\<lambda>r s.
     if r < 0 then Ok (if i = n then n else - 1) s
     else if r \<noteq> n1 then Panic ''short filewrite''
     else filewrite_loop f addr n (i + n1) s)
   else Ok (if i = n then n else - 1) s)"
  by pat_completeness auto
termination
  by (relation "measure (\<lambda>(f, addr, n, i, s). nat (n - i))") (auto simp: max_chunk_def MAXOPBLOCKS_def)

declare filewrite_loop.simps [simp del]

definition filewrite :: "nat \<Rightarrow> u8 list \<Rightarrow> int \<Rightarrow> kst \<Rightarrow> int kres" where
  "filewrite f addr n s = (let x = files s ! f in
     if \<not> f_writable x then Ok (- 1) s
     else case f_type x of
       FD_PIPE \<Rightarrow> pipewrite (f_pipe x) addr n s
     | FD_INODE \<Rightarrow> filewrite_loop f addr n 0 s
     | FD_NONE \<Rightarrow> Panic ''filewrite'')"

subsection \<open>Positional reads and writes\<close>

text \<open>
  \<open>pwrite\<close> and \<open>pread\<close> take the offset as an \<open>int\<close>, and hand it to functions that take it as unsigned;
  the sum of two \<open>int\<close>s that overflows is undefined in C.
\<close>

function pwrite_loop :: "nat \<Rightarrow> u8 list \<Rightarrow> int \<Rightarrow> int \<Rightarrow> int \<Rightarrow> kst \<Rightarrow> int kres" where
  "pwrite_loop ip addr n i off s = (if i < n then
     let n1 = min (n - i) max_chunk in
     kbind (write_chunk ip (drop (nat i) addr) (\<lambda>_. uint32 off) n1 (\<lambda>r s. s) s) (\<lambda>r s.
     if r < 0 then Ok (if i = n then n else - 1) s
     else if r \<noteq> n1 then Panic ''short filewrite''
     else if int_range (off + r) then pwrite_loop ip addr n (i + n1) (off + r) s else Undef)
   else Ok (if i = n then n else - 1) s)"
  by pat_completeness auto
termination
  by (relation "measure (\<lambda>(ip, addr, n, i, off, s). nat (n - i))") (auto simp: max_chunk_def MAXOPBLOCKS_def)

declare pwrite_loop.simps [simp del]

definition pwrite :: "nat \<Rightarrow> u8 list \<Rightarrow> int \<Rightarrow> int \<Rightarrow> kst \<Rightarrow> int kres" where
  "pwrite f addr n offset s = (let x = files s ! f in
     if \<not> f_writable x then Ok (- 1) s
     else case f_type x of
       FD_PIPE \<Rightarrow> pipewrite (f_pipe x) addr n s
     | FD_INODE \<Rightarrow> pwrite_loop (f_ip x) addr n 0 offset s
     | FD_NONE \<Rightarrow> Panic ''filewrite'')"

text \<open>The comparisons of \<open>offset\<close> with the size of the inode are unsigned.\<close>

definition pread :: "nat \<Rightarrow> int \<Rightarrow> int \<Rightarrow> kst \<Rightarrow> (int \<times> u8 list) kres" where
  "pread f n offset s = (let x = files s ! f in
     if \<not> f_readable x then Ok (- 1, []) s
     else case f_type x of
       FD_PIPE \<Rightarrow> piperead (f_pipe x) n s
     | FD_INODE \<Rightarrow> kbind (ilock (f_ip x) s) (\<lambda>_ s.
         if uint32 offset = i_size (inodes s ! f_ip x) then Ok (0, []) s
         else kbind (kguard (int_range (offset + n)) s) (\<lambda>_ s.
           if uint32 (offset + n) > i_size (inodes s ! f_ip x) \<or> offset + n < offset then Ok (- 1, []) s
           else kbind (readi (f_ip x) (uint32 offset) (uint32 n) s) (\<lambda>(r, bs) s.
             if r < 0 then kbind (iunlock (f_ip x) s) (\<lambda>_ s. Ok (- 1, []) s)
             else kbind (iunlock (f_ip x) s) (\<lambda>_ s. Ok (r, bs) s))))
     | FD_NONE \<Rightarrow> Panic ''fileread'')"

end
