(* ===== verification/Syscall.thy ===== *)
theory Syscall
  imports Vm FTable
begin

text \<open>
  System calls on files: the fetching of arguments from user memory (syscall.c) and sysfile.c. The
  kernel reads and writes user memory through the page table of the process; an access to an address
  that is not mapped, or a write where the page table forbids it, is a page fault inside the kernel, on which \<open>trap\<close> panics. The bytes a call
  writes are fetched from user memory when it starts, those it reads are stored there when it returns.
\<close>

subsection \<open>User memory\<close>

text \<open>
  The MMU: the physical address of a virtual address with the rights the hardware grants there, those that the
  entries of both levels have, \<open>PTE_W\<close> for a write and \<open>PTE_U\<close> for an access in user mode. The kernel reads
  wherever both entries are present; it runs with \<open>CR0_WP\<close> (entry.S), so that its writes need \<open>PTE_W\<close>.
\<close>

definition mmu_access :: "kst \<Rightarrow> nat \<Rightarrow> (nat \<times> nat) option" where
  "mmu_access s va = (let pde = rd32 (pmem s) (cr3 s + 4 * PDX va) in
     if and pde PTE_P = 0 then None
     else let pte = rd32 (pmem s) (PTE_ADDR pde + 4 * PTX va) in
       if and pte PTE_P = 0 then None
       else Some (PTE_ADDR pte + va mod PGSIZE, and (and pde pte) (or PTE_W PTE_U)))"

definition mmu :: "kst \<Rightarrow> nat \<Rightarrow> nat option" where
  "mmu s va = map_option fst (mmu_access s va)"

definition uload :: "nat \<Rightarrow> kst \<Rightarrow> u8 kres" where
  "uload va s = (case mmu s va of None \<Rightarrow> Panic ''trap'' | Some pa \<Rightarrow> Ok (pmem s pa) s)"

definition ustore :: "nat \<Rightarrow> u8 \<Rightarrow> kst \<Rightarrow> unit kres" where
  "ustore va c s = (case mmu_access s va of None \<Rightarrow> Panic ''trap''
     | Some (pa, rights) \<Rightarrow> if and rights PTE_W = 0 then Panic ''trap'' else Ok () (s\<lparr>pmem := (pmem s)(pa := c)\<rparr>))"

fun uread :: "nat \<Rightarrow> nat \<Rightarrow> kst \<Rightarrow> (u8 list) kres" where
  "uread va 0 s = Ok [] s"
| "uread va (Suc n) s = kbind (uload va s) (\<lambda>c s. kbind (uread (va + 1) n s) (\<lambda>cs s. Ok (c # cs) s))"

fun uwrite :: "nat \<Rightarrow> u8 list \<Rightarrow> kst \<Rightarrow> unit kres" where
  "uwrite va [] s = Ok () s"
| "uwrite va (c # cs) s = kbind (ustore va c s) (\<lambda>_ s. uwrite (va + 1) cs s)"

subsection \<open>Arguments (syscall.c)\<close>

definition fetchint :: "nat \<Rightarrow> kst \<Rightarrow> int option kres" where
  "fetchint addr s =
    (if addr \<ge> sz (cur s) \<or> uadd addr 4 > sz (cur s) then Ok None s
     else kbind (uread addr 4 s) (\<lambda>bs s. Ok (Some (sint32 (get32 bs 0))) s))"

text \<open>The string at \<open>va\<close> if it ends within the next \<open>n\<close> bytes.\<close>

fun fetch_string :: "nat \<Rightarrow> nat \<Rightarrow> kst \<Rightarrow> (u8 list) option kres" where
  "fetch_string va 0 s = Ok None s"
| "fetch_string va (Suc n) s = kbind (uload va s) (\<lambda>c s.
     if c = 0 then Ok (Some []) s
     else kbind (fetch_string (va + 1) n s) (\<lambda>r s. Ok (map_option (Cons c) r) s))"

definition fetchstr :: "nat \<Rightarrow> kst \<Rightarrow> (u8 list) option kres" where
  "fetchstr addr s = (if addr \<ge> sz (cur s) then Ok None s else fetch_string addr (sz (cur s) - addr) s)"

definition argint :: "nat \<Rightarrow> kst \<Rightarrow> int option kres" where
  "argint n s = fetchint (uadd (uadd (tf_esp (tf (cur s))) 4) (4 * n)) s"

definition argptr :: "nat \<Rightarrow> int \<Rightarrow> kst \<Rightarrow> nat option kres" where
  "argptr n len s = kbind (argint n s) (\<lambda>i s. case i of None \<Rightarrow> Ok None s | Some i \<Rightarrow>
     if len < 0 \<or> uint32 i \<ge> sz (cur s) \<or> uadd (uint32 i) (uint32 len) > sz (cur s) then Ok None s
     else Ok (Some (uint32 i)) s)"

definition argstr :: "nat \<Rightarrow> kst \<Rightarrow> (u8 list) option kres" where
  "argstr n s = kbind (argint n s) (\<lambda>a s. case a of None \<Rightarrow> Ok None s | Some a \<Rightarrow> fetchstr (uint32 a) s)"

text \<open>\<open>if((x = f()) < 0) return -1;\<close>\<close>

definition or_fail :: "'b \<Rightarrow> 'a option kres \<Rightarrow> ('a \<Rightarrow> kst \<Rightarrow> 'b kres) \<Rightarrow> 'b kres" where
  "or_fail r m f = kbind m (\<lambda>x s. case x of None \<Rightarrow> Ok r s | Some x \<Rightarrow> f x s)"

subsection \<open>File descriptors (sysfile.c)\<close>

definition argfd :: "nat \<Rightarrow> kst \<Rightarrow> (nat \<times> nat) option kres" where
  "argfd n s = or_fail None (argint n s) (\<lambda>fd s.
     if fd < 0 \<or> fd \<ge> int NOFILE then Ok None s
     else case ofile (cur s) ! nat fd of None \<Rightarrow> Ok None s | Some f \<Rightarrow> Ok (Some (nat fd, f)) s)"

definition set_ofile :: "nat \<Rightarrow> nat option \<Rightarrow> kst \<Rightarrow> kst" where
  "set_ofile fd v s = (case curproc s of None \<Rightarrow> s
     | Some p \<Rightarrow> upd_proc p (\<lambda>q. q\<lparr>ofile := (ofile q)[fd := v]\<rparr>) s)"

definition fdalloc :: "nat \<Rightarrow> kst \<Rightarrow> nat option kres" where
  "fdalloc f s = (case first_idx (\<lambda>x. x = None) (ofile (cur s)) of
     None \<Rightarrow> Ok None s
   | Some fd \<Rightarrow> Ok (Some fd) (set_ofile fd (Some f) s))"

definition sys_dup :: "kst \<Rightarrow> int kres" where
  "sys_dup s = or_fail (- 1) (argfd 0 s) (\<lambda>(_, f) s. or_fail (- 1) (fdalloc f s) (\<lambda>fd s.
     kbind (filedup f s) (\<lambda>_ s. Ok (int fd) s)))"

definition sys_read :: "kst \<Rightarrow> int kres" where
  "sys_read s = or_fail (- 1) (argfd 0 s) (\<lambda>(_, f) s. or_fail (- 1) (argint 2 s) (\<lambda>n s.
     or_fail (- 1) (argptr 1 n s) (\<lambda>p s.
     kbind (fileread f n s) (\<lambda>(r, bs) s. kbind (uwrite p bs s) (\<lambda>_ s. Ok r s)))))"

definition sys_pread :: "kst \<Rightarrow> int kres" where
  "sys_pread s = or_fail (- 1) (argfd 0 s) (\<lambda>(_, f) s. or_fail (- 1) (argint 2 s) (\<lambda>n s.
     or_fail (- 1) (argptr 1 n s) (\<lambda>p s. or_fail (- 1) (argint 3 s) (\<lambda>off s.
     kbind (pread f n off s) (\<lambda>(r, bs) s. kbind (uwrite p bs s) (\<lambda>_ s. Ok r s))))))"

definition sys_write :: "kst \<Rightarrow> int kres" where
  "sys_write s = or_fail (- 1) (argfd 0 s) (\<lambda>(_, f) s. or_fail (- 1) (argint 2 s) (\<lambda>n s.
     or_fail (- 1) (argptr 1 n s) (\<lambda>p s.
     kbind (uread p (nat n) s) (\<lambda>bs s. filewrite f bs n s))))"

definition sys_pwrite :: "kst \<Rightarrow> int kres" where
  "sys_pwrite s = or_fail (- 1) (argfd 0 s) (\<lambda>(_, f) s. or_fail (- 1) (argint 2 s) (\<lambda>n s.
     or_fail (- 1) (argptr 1 n s) (\<lambda>p s. or_fail (- 1) (argint 3 s) (\<lambda>off s.
     kbind (uread p (nat n) s) (\<lambda>bs s. pwrite f bs n off s)))))"

definition sys_close :: "kst \<Rightarrow> int kres" where
  "sys_close s = or_fail (- 1) (argfd 0 s) (\<lambda>(fd, f) s.
     kbind (fileclose f (set_ofile fd None s)) (\<lambda>_ s. Ok 0 s))"

text \<open>\<open>struct stat\<close> in memory: 20 bytes, two of padding after \<open>type\<close> and after \<open>nlink\<close>, which are not written.\<close>

definition stat_bytes :: "nat \<Rightarrow> stat \<Rightarrow> kst \<Rightarrow> unit kres" where
  "stat_bytes p st s =
     kbind (uwrite p (put16 0 (ushort (st_type st)) [0, 0]) s) (\<lambda>_ s.
     kbind (uwrite (p + 4) (put32 4 (st_ino st) (put32 0 (st_dev st) (replicate 8 0))) s) (\<lambda>_ s.
     kbind (uwrite (p + 12) (put16 0 (ushort (st_nlink st)) [0, 0]) s) (\<lambda>_ s.
     uwrite (p + 16) (put32 0 (st_size st) (replicate 4 0)) s)))"

definition sys_fstat :: "kst \<Rightarrow> int kres" where
  "sys_fstat s = or_fail (- 1) (argfd 0 s) (\<lambda>(_, f) s. or_fail (- 1) (argptr 1 20 s) (\<lambda>p s.
     or_fail (- 1) (filestat f s) (\<lambda>st s. kbind (stat_bytes p st s) (\<lambda>_ s. Ok 0 s))))"

subsection \<open>Names\<close>

definition bump_nlink :: "nat \<Rightarrow> int \<Rightarrow> kst \<Rightarrow> unit kres" where
  "bump_nlink ip d s = iupdate ip (upd_inode ip (\<lambda>i. i\<lparr>i_nlink := sshort (ushort (i_nlink i + d))\<rparr>) s)"

text \<open>The label \<open>bad\<close> of \<open>sys_link\<close>.\<close>

definition link_undo :: "nat \<Rightarrow> kst \<Rightarrow> int kres" where
  "link_undo ip s = kbind (ilock ip s) (\<lambda>_ s. kbind (bump_nlink ip (- 1) s) (\<lambda>_ s.
     kbind (iunlockput ip s) (\<lambda>_ s. kbind (end_op s) (\<lambda>_ s. Ok (- 1) s))))"

text \<open>A \<open>char name[DIRSIZ]\<close> on the stack; its initial content is never read.\<close>

definition name_local :: "u8 list" where
  "name_local = replicate DIRSIZ 0"

definition link_paths :: "u8 list \<Rightarrow> u8 list \<Rightarrow> kst \<Rightarrow> int kres" where
  "link_paths old new s = kbind (begin_op s) (\<lambda>_ s. kbind (namei old s) (\<lambda>ip s.
     case ip of None \<Rightarrow> kbind (end_op s) (\<lambda>_ s. Ok (- 1) s) | Some ip \<Rightarrow>
     kbind (ilock ip s) (\<lambda>_ s.
     if i_type (inodes s ! ip) = T_DIR then
       kbind (iunlockput ip s) (\<lambda>_ s. kbind (end_op s) (\<lambda>_ s. Ok (- 1) s))
     else
       kbind (bump_nlink ip 1 s) (\<lambda>_ s. kbind (iunlock ip s) (\<lambda>_ s.
       kbind (nameiparent new name_local s) (\<lambda>(dp, name) s. case dp of None \<Rightarrow> link_undo ip s | Some dp \<Rightarrow>
       kbind (ilock dp s) (\<lambda>_ s.
       kbind (if i_dev (inodes s ! dp) \<noteq> i_dev (inodes s ! ip) then Ok (- 1) s
              else dirlink dp name (i_inum (inodes s ! ip)) s) (\<lambda>r s.
       if r < 0 then kbind (iunlockput dp s) (\<lambda>_ s. link_undo ip s)
       else kbind (iunlockput dp s) (\<lambda>_ s. kbind (iput ip s) (\<lambda>_ s.
         kbind (end_op s) (\<lambda>_ s. Ok 0 s)))))))))))"

definition sys_link :: "kst \<Rightarrow> int kres" where
  "sys_link s = or_fail (- 1) (argstr 0 s) (\<lambda>old s. or_fail (- 1) (argstr 1 s) (\<lambda>new s. link_paths old new s))"

text \<open>The offsets of the loop of \<open>isdirempty\<close>; the first two entries are \<open>.\<close> and \<open>..\<close>.\<close>

definition isdirempty :: "nat \<Rightarrow> kst \<Rightarrow> bool kres" where
  "isdirempty dp s = kbind (kfind (drop 2 (dir_offs (i_size (inodes s ! dp)))) (\<lambda>off s.
     kbind (readi dp off 16 s) (\<lambda>(r, de) s.
     if r \<noteq> 16 then Panic ''isdirempty: readi''
     else Ok (if de_inum de \<noteq> 0 then Some False else None) s)) s) (\<lambda>r s.
     Ok (case r of None \<Rightarrow> True | Some b \<Rightarrow> b) s)"

definition unlink_bad :: "nat \<Rightarrow> kst \<Rightarrow> int kres" where
  "unlink_bad dp s = kbind (iunlockput dp s) (\<lambda>_ s. kbind (end_op s) (\<lambda>_ s. Ok (- 1) s))"

text \<open>\<open>namecmp(name, ".") == 0 || namecmp(name, "..") == 0\<close>; 46 is the dot.\<close>

definition is_dot :: "u8 list \<Rightarrow> bool option" where
  "is_dot name = (case namecmp name [46, 0] of None \<Rightarrow> None | Some c \<Rightarrow>
     if c = 0 then Some True else map_option (\<lambda>c. c = 0) (namecmp name [46, 46, 0]))"

definition unlink_entry :: "nat \<Rightarrow> nat \<Rightarrow> nat \<Rightarrow> kst \<Rightarrow> int kres" where
  "unlink_entry dp ip off s =
     kbind (kassert (\<not> i_nlink (inodes s ! ip) < 1) ''unlink: nlink < 1'' s) (\<lambda>_ s.
     kbind (if i_type (inodes s ! ip) = T_DIR then isdirempty ip s else Ok True s) (\<lambda>e s.
     if \<not> e then kbind (iunlockput ip s) (\<lambda>_ s. unlink_bad dp s)
     else kbind (writei dp (replicate 16 0) off 16 s) (\<lambda>r s.
       kbind (kassert (r = 16) ''unlink: writei'' s) (\<lambda>_ s.
       kbind (if i_type (inodes s ! ip) = T_DIR then bump_nlink dp (- 1) s else Ok () s) (\<lambda>_ s.
       kbind (iunlockput dp s) (\<lambda>_ s.
       kbind (bump_nlink ip (- 1) s) (\<lambda>_ s.
       kbind (iunlockput ip s) (\<lambda>_ s.
       kbind (end_op s) (\<lambda>_ s. Ok 0 s)))))))))"

definition unlink_path :: "u8 list \<Rightarrow> kst \<Rightarrow> int kres" where
  "unlink_path path s = kbind (begin_op s) (\<lambda>_ s. kbind (nameiparent path name_local s) (\<lambda>(dp, name) s.
     case dp of None \<Rightarrow> kbind (end_op s) (\<lambda>_ s. Ok (- 1) s) | Some dp \<Rightarrow>
     kbind (ilock dp s) (\<lambda>_ s.
     case is_dot name of None \<Rightarrow> Undef | Some True \<Rightarrow> unlink_bad dp s | Some False \<Rightarrow>
     kbind (dirlookup dp name s) (\<lambda>r s. case r of None \<Rightarrow> unlink_bad dp s | Some (ip, off) \<Rightarrow>
     kbind (ilock ip s) (\<lambda>_ s. unlink_entry dp ip off s)))))"

definition sys_unlink :: "kst \<Rightarrow> int kres" where
  "sys_unlink s = or_fail (- 1) (argstr 0 s) (\<lambda>path s. unlink_path path s)"

text \<open>\<open>create\<close>; the inode it returns is locked.\<close>

definition create_new :: "nat \<Rightarrow> u8 list \<Rightarrow> int \<Rightarrow> int \<Rightarrow> int \<Rightarrow> kst \<Rightarrow> nat option kres" where
  "create_new dp name ty maj mnr s = kbind (ialloc (i_dev (inodes s ! dp)) ty s) (\<lambda>ip s.
     kbind (ilock ip s) (\<lambda>_ s.
     kbind (iupdate ip (upd_inode ip (\<lambda>i. i\<lparr>i_major := maj, i_minor := mnr, i_nlink := 1\<rparr>) s)) (\<lambda>_ s.
     kbind (if ty = T_DIR then
        kbind (bump_nlink dp 1 s) (\<lambda>_ s.
        kbind (dirlink ip [46, 0] (i_inum (inodes s ! ip)) s) (\<lambda>r s.
        if r < 0 then Panic ''create dots''
        else kbind (dirlink ip [46, 46, 0] (i_inum (inodes s ! dp)) s) (\<lambda>r s.
          kassert (\<not> r < 0) ''create dots'' s)))
      else Ok () s) (\<lambda>_ s.
     kbind (dirlink dp name (i_inum (inodes s ! ip)) s) (\<lambda>r s.
     kbind (kassert (\<not> r < 0) ''create: dirlink'' s) (\<lambda>_ s.
     kbind (iunlockput dp s) (\<lambda>_ s. Ok (Some ip) s)))))))"

definition create :: "u8 list \<Rightarrow> int \<Rightarrow> int \<Rightarrow> int \<Rightarrow> kst \<Rightarrow> nat option kres" where
  "create path ty maj mnr s = kbind (nameiparent path name_local s) (\<lambda>(dp, name) s.
     case dp of None \<Rightarrow> Ok None s | Some dp \<Rightarrow>
     kbind (ilock dp s) (\<lambda>_ s.
     kbind (dirlookup dp name s) (\<lambda>r s. case r of
       Some (ip, _) \<Rightarrow> kbind (iunlockput dp s) (\<lambda>_ s. kbind (ilock ip s) (\<lambda>_ s.
         if ty = T_FILE \<and> i_type (inodes s ! ip) = T_FILE then Ok (Some ip) s
         else kbind (iunlockput ip s) (\<lambda>_ s. Ok None s)))
     | None \<Rightarrow> create_new dp name ty maj mnr s)))"

definition O_RDONLY :: nat where "O_RDONLY = 0x000"
definition O_WRONLY :: nat where "O_WRONLY = 0x001"
definition O_RDWR :: nat where "O_RDWR = 0x002"
definition O_CREATE :: nat where "O_CREATE = 0x200"

lemmas [param_defs] = O_RDONLY_def O_WRONLY_def O_RDWR_def O_CREATE_def

text \<open>\<open>return -1\<close> inside a transaction.\<close>

definition fail_op :: "kst \<Rightarrow> int kres" where
  "fail_op s = kbind (end_op s) (\<lambda>_ s. Ok (- 1) s)"

text \<open>\<open>sys_open\<close> from the allocation of the file on; \<open>ip\<close> is locked. The mode is the bits of the \<open>int\<close>.\<close>

definition open_inode :: "nat \<Rightarrow> nat \<Rightarrow> kst \<Rightarrow> int kres" where
  "open_inode ip mode s = kbind (filealloc s) (\<lambda>f s. case f of
     None \<Rightarrow> kbind (iunlockput ip s) (\<lambda>_ s. fail_op s)
   | Some f \<Rightarrow> kbind (fdalloc f s) (\<lambda>fd s. case fd of
       None \<Rightarrow> kbind (fileclose f s) (\<lambda>_ s. kbind (iunlockput ip s) (\<lambda>_ s. fail_op s))
     | Some fd \<Rightarrow> kbind (iunlock ip s) (\<lambda>_ s. kbind (end_op s) (\<lambda>_ s.
         Ok (int fd) (upd_file f (\<lambda>x. x\<lparr>f_type := FD_INODE, f_ip := ip, f_off := 0,
           f_readable := and mode O_WRONLY = 0,
           f_writable := and mode O_WRONLY \<noteq> 0 \<or> and mode O_RDWR \<noteq> 0\<rparr>) s)))))"

definition open_path :: "u8 list \<Rightarrow> nat \<Rightarrow> kst \<Rightarrow> int kres" where
  "open_path path mode s = kbind (begin_op s) (\<lambda>_ s.
     if and mode O_CREATE \<noteq> 0 then
       kbind (create path T_FILE 0 0 s) (\<lambda>ip s. case ip of None \<Rightarrow> fail_op s | Some ip \<Rightarrow> open_inode ip mode s)
     else kbind (namei path s) (\<lambda>ip s. case ip of None \<Rightarrow> fail_op s | Some ip \<Rightarrow>
       kbind (ilock ip s) (\<lambda>_ s.
       if i_type (inodes s ! ip) = T_DIR \<and> mode \<noteq> O_RDONLY then kbind (iunlockput ip s) (\<lambda>_ s. fail_op s)
       else open_inode ip mode s)))"

definition sys_open :: "kst \<Rightarrow> int kres" where
  "sys_open s = or_fail (- 1) (argstr 0 s) (\<lambda>path s. or_fail (- 1) (argint 1 s) (\<lambda>mode s.
     open_path path (uint32 mode) s))"

text \<open>
  \<open>sys_mkdir\<close>, \<open>sys_mknod\<close> and \<open>sys_chdir\<close> begin the transaction before they fetch their arguments; a
  failure ends it.
\<close>

definition or_fail_op :: "'a option kres \<Rightarrow> ('a \<Rightarrow> kst \<Rightarrow> int kres) \<Rightarrow> int kres" where
  "or_fail_op m f = kbind m (\<lambda>x s. case x of None \<Rightarrow> fail_op s | Some x \<Rightarrow> f x s)"

definition sys_mkdir :: "kst \<Rightarrow> int kres" where
  "sys_mkdir s = kbind (begin_op s) (\<lambda>_ s. or_fail_op (argstr 0 s) (\<lambda>path s.
     or_fail_op (create path T_DIR 0 0 s) (\<lambda>ip s.
     kbind (iunlockput ip s) (\<lambda>_ s. kbind (end_op s) (\<lambda>_ s. Ok 0 s)))))"

definition sys_mknod :: "kst \<Rightarrow> int kres" where
  "sys_mknod s = kbind (begin_op s) (\<lambda>_ s. or_fail_op (argstr 0 s) (\<lambda>path s.
     or_fail_op (argint 1 s) (\<lambda>maj s. or_fail_op (argint 2 s) (\<lambda>mnr s.
     or_fail_op (create path T_DEV (sshort (ushort maj)) (sshort (ushort mnr)) s) (\<lambda>ip s.
     kbind (iunlockput ip s) (\<lambda>_ s. kbind (end_op s) (\<lambda>_ s. Ok 0 s)))))))"

definition chdir_path :: "u8 list \<Rightarrow> kst \<Rightarrow> int kres" where
  "chdir_path path s = or_fail_op (namei path s) (\<lambda>ip s.
     kbind (ilock ip s) (\<lambda>_ s.
     if i_type (inodes s ! ip) \<noteq> T_DIR then kbind (iunlockput ip s) (\<lambda>_ s. fail_op s)
     else kbind (iunlock ip s) (\<lambda>_ s.
       case curproc s of None \<Rightarrow> Undef | Some p \<Rightarrow> (case cwd (procs s ! p) of None \<Rightarrow> Undef | Some old \<Rightarrow>
       kbind (iput old s) (\<lambda>_ s. kbind (end_op s) (\<lambda>_ s.
       Ok 0 (upd_proc p (\<lambda>q. q\<lparr>cwd := Some ip\<rparr>) s)))))))"

definition sys_chdir :: "kst \<Rightarrow> int kres" where
  "sys_chdir s = kbind (begin_op s) (\<lambda>_ s. or_fail_op (argstr 0 s) chdir_path)"

text \<open>
  \<open>sys_pipe\<close>: the file descriptors, with the two files released again when there are not enough.
\<close>

definition pipe_fail :: "nat \<Rightarrow> nat \<Rightarrow> kst \<Rightarrow> int kres" where
  "pipe_fail rfl wfl s = kbind (fileclose rfl s) (\<lambda>_ s. kbind (fileclose wfl s) (\<lambda>_ s. Ok (- 1) s))"

definition sys_pipe :: "kst \<Rightarrow> int kres" where
  "sys_pipe s = or_fail (- 1) (argptr 0 8 s) (\<lambda>fd s. or_fail (- 1) (pipealloc s) (\<lambda>(rfl, wfl) s.
     kbind (fdalloc rfl s) (\<lambda>fd0 s. case fd0 of None \<Rightarrow> pipe_fail rfl wfl s | Some fd0 \<Rightarrow>
     kbind (fdalloc wfl s) (\<lambda>fd1 s. case fd1 of None \<Rightarrow> pipe_fail rfl wfl (set_ofile fd0 None s) | Some fd1 \<Rightarrow>
     kbind (uwrite fd (put32 4 fd1 (put32 0 fd0 (replicate 8 0))) s) (\<lambda>_ s. Ok 0 s)))))"

end
