(* ===== verification/Proc.thy ===== *)
theory Proc
  imports Syscall
begin

text \<open>
  The life of a process (proc.c): \<open>userinit\<close>, \<open>fork\<close>, \<open>growproc\<close>, \<open>exit\<close>, \<open>wait\<close>, and the system calls on
  processes (sysproc.c). The addresses the linker gives to \<open>forkret\<close> and to the code of the first process
  are parameters.
\<close>

definition safestr :: "u8 list \<Rightarrow> u8 list \<Rightarrow> int \<Rightarrow> u8 list option" where
  "safestr dst src n = map_option (\<lambda>d. d @ drop (length d) dst) (safestrcpy src n)"

text \<open>The trap frame of the first process: segment registers and flags are in \<open>tf_rest\<close>.\<close>

definition SEG_UCODE :: nat where "SEG_UCODE = 3"
definition SEG_UDATA :: nat where "SEG_UDATA = 4"
definition DPL_USER :: nat where "DPL_USER = 3"
definition FL_IF :: nat where "FL_IF = 0x200"

definition user_tf :: trapframe where
  "user_tf = (let ds = or (push_bit 3 SEG_UDATA) DPL_USER in
     zero_tf\<lparr>tf_cs := or (push_bit 3 SEG_UCODE) DPL_USER, tf_esp := PGSIZE, tf_eip := 0,
       tf_rest := [ds, ds, ds, FL_IF]\<rparr>)"

text \<open>\<open>''initcode''\<close> in bytes, with its NUL.\<close>

definition initcode_name :: "u8 list" where
  "initcode_name = [105, 110, 105, 116, 99, 111, 100, 101, 0]"

definition userinit :: "nat \<Rightarrow> u8 list \<Rightarrow> kst \<Rightarrow> unit kres" where
  "userinit forkret_addr initcode s =
     kbind (allocproc forkret_addr (s\<lparr>q_size := replicate DEPTH_QUEUE (- 1), stable_size := - 1\<rparr>)) (\<lambda>p s.
     case p of None \<Rightarrow> Undef | Some p \<Rightarrow>
     kbind (setupkvm (s\<lparr>initproc := Some p\<rparr>)) (\<lambda>pd s.
     if pd = 0 then Panic ''userinit: out of memory?''
     else kbind (inituvm pd initcode (upd_proc p (\<lambda>q. q\<lparr>pgdir := pd\<rparr>) s)) (\<lambda>_ s.
       case safestr (pname (procs s ! p)) initcode_name 16 of None \<Rightarrow> Undef | Some nm \<Rightarrow>
       kbind (namei [47] (upd_proc p (\<lambda>q. q\<lparr>sz := PGSIZE, tf := user_tf, pname := nm\<rparr>) s)) (\<lambda>ip s.
       kbind (acquire LPtable (upd_proc p (\<lambda>q. q\<lparr>cwd := ip\<rparr>) s)) (\<lambda>_ s.
       release LPtable (upd_proc p (\<lambda>q. q\<lparr>state := RUNNABLE\<rparr>) s))))))"

definition growproc :: "int \<Rightarrow> kst \<Rightarrow> int kres" where
  "growproc n s = (case curproc s of None \<Rightarrow> Undef | Some p \<Rightarrow>
     let oldsz = sz (procs s ! p); new = uadd oldsz (uint32 n); pd = pgdir (procs s ! p) in
     kbind (if n > 0 then allocuvm pd oldsz new s
            else if n < 0 then deallocuvm pd oldsz new s
            else Ok oldsz s) (\<lambda>v s.
     if n \<noteq> 0 \<and> v = 0 then Ok (- 1) s
     else kbind (switchuvm p (upd_proc p (\<lambda>q. q\<lparr>sz := v\<rparr>) s)) (\<lambda>_ s. Ok 0 s)))"

text \<open>The child shares the open files.\<close>

definition dup_file :: "nat \<Rightarrow> nat \<Rightarrow> nat \<Rightarrow> kst \<Rightarrow> unit kres" where
  "dup_file c np i s = (case ofile (procs s ! c) ! i of None \<Rightarrow> Ok () s | Some f \<Rightarrow>
     kbind (filedup f s) (\<lambda>f s. Ok () (upd_proc np (\<lambda>q. q\<lparr>ofile := (ofile q)[i := Some f]\<rparr>) s)))"

definition fork :: "nat \<Rightarrow> kst \<Rightarrow> int kres" where
  "fork forkret_addr s = or_fail (- 1) (allocproc forkret_addr s) (\<lambda>np s.
     case curproc s of None \<Rightarrow> Undef | Some c \<Rightarrow>
     kbind (copyuvm (pgdir (procs s ! c)) (sz (procs s ! c)) s) (\<lambda>d s.
     let s = upd_proc np (\<lambda>q. q\<lparr>pgdir := d\<rparr>) s in
     if d = 0 then kbind (kfree (kstack (procs s ! np)) s) (\<lambda>_ s.
       Ok (- 1) (upd_proc np (\<lambda>q. q\<lparr>kstack := 0, state := UNUSED\<rparr>) s))
     else
       let s = upd_proc np (\<lambda>q. q\<lparr>sz := sz (procs s ! c), parent := Some c,
                 tf := (tf (procs s ! c))\<lparr>tf_eax := 0\<rparr>\<rparr>) s in
       kbind (kfor [0..<NOFILE] (dup_file c np) s) (\<lambda>_ s.
       case cwd (procs s ! c) of None \<Rightarrow> Undef | Some ip \<Rightarrow>
       kbind (idup ip s) (\<lambda>ip s.
       case safestr (pname (procs s ! np)) (pname (procs s ! c)) 16 of None \<Rightarrow> Undef | Some nm \<Rightarrow>
       let s = upd_proc np (\<lambda>q. q\<lparr>cwd := Some ip, pname := nm\<rparr>) s; pd = pid (procs s ! np) in
       kbind (acquire LPtable s) (\<lambda>_ s.
       kbind (release LPtable (upd_proc np (\<lambda>q. q\<lparr>state := RUNNABLE\<rparr>) s)) (\<lambda>_ s.
       Ok pd s))))))"

text \<open>\<open>forkret\<close>, where a new process starts, with \<open>ptable.lock\<close> held by the scheduler.\<close>

definition forkret :: "kst \<Rightarrow> unit kres" where
  "forkret s = kbind (release LPtable s) (\<lambda>_ s.
     if first_ret s then kbind (iinit ROOTDEV (s\<lparr>first_ret := False\<rparr>)) (\<lambda>_ s. initlog ROOTDEV s)
     else Ok () s)"

definition close_file :: "nat \<Rightarrow> nat \<Rightarrow> kst \<Rightarrow> unit kres" where
  "close_file c fd s = (case ofile (procs s ! c) ! fd of None \<Rightarrow> Ok () s | Some f \<Rightarrow>
     kbind (fileclose f s) (\<lambda>_ s. Ok () (upd_proc c (\<lambda>q. q\<lparr>ofile := (ofile q)[fd := None]\<rparr>) s)))"

definition exit :: "kst \<Rightarrow> 'a kres" where
  "exit s = (case curproc s of None \<Rightarrow> Undef | Some c \<Rightarrow>
     if initproc s = Some c then Panic ''init exiting''
     else kbind (kfor [0..<NOFILE] (close_file c) s) (\<lambda>_ s.
       kbind (begin_op s) (\<lambda>_ s.
       case cwd (procs s ! c) of None \<Rightarrow> Undef | Some ip \<Rightarrow>
       kbind (iput ip s) (\<lambda>_ s.
       kbind (end_op s) (\<lambda>_ s.
       kbind (exit_tail (upd_proc c (\<lambda>q. q\<lparr>cwd := None\<rparr>) s)) (\<lambda>_ s.
       Panic ''zombie exit''))))))"

text \<open>The entry of a child that has exited is freed.\<close>

definition reap :: "nat \<Rightarrow> kst \<Rightarrow> int kres" where
  "reap p s = (let pd = pid (procs s ! p) in
     kbind (kfree (kstack (procs s ! p)) s) (\<lambda>_ s.
     kbind (freevm (pgdir (procs s ! p)) (upd_proc p (\<lambda>q. q\<lparr>kstack := 0\<rparr>) s)) (\<lambda>_ s.
     kbind (release LPtable (upd_proc p (\<lambda>q. q\<lparr>pid := 0, parent := None, pname := (pname q)[0 := 0],
         killed := False, state := UNUSED\<rparr>) s)) (\<lambda>_ s. Ok pd s))))"

text \<open>\<open>wait\<close> from the start of a round of its loop on, with \<open>ptable.lock\<close> held.\<close>

definition wait_loop :: "kst \<Rightarrow> int kres" where
  "wait_loop s = (case curproc s of None \<Rightarrow> Undef | Some c \<Rightarrow>
     (case first_idx (\<lambda>p. parent p = Some c \<and> state p = ZOMBIE) (procs s) of
        Some p \<Rightarrow> reap p s
      | None \<Rightarrow>
          if (\<forall>p \<in> set (procs s). parent p \<noteq> Some c) \<or> killed (procs s ! c)
          then kbind (release LPtable s) (\<lambda>_ s. Ok (- 1) s)
          else sleep (ChProc c) (Some LPtable) s))"

definition wait :: "kst \<Rightarrow> int kres" where
  "wait s = kbind (acquire LPtable s) (\<lambda>_ s. wait_loop s)"

definition wait_again :: "kst \<Rightarrow> int kres" where
  "wait_again s = kbind (sleep_resume LPtable s) (\<lambda>_ s. wait_loop s)"

subsection \<open>System calls (sysproc.c)\<close>

definition sys_yield :: "kst \<Rightarrow> int kres" where
  "sys_yield s = (case curproc s of None \<Rightarrow> Undef | Some p \<Rightarrow>
     kbind (yield (upd_proc p (\<lambda>q. q\<lparr>from_trap := False\<rparr>) s)) (\<lambda>_ s. Ok 0 s))"

definition sys_getlev :: "kst \<Rightarrow> int kres" where
  "sys_getlev s = getlev s"

definition sys_set_cpu_share :: "kst \<Rightarrow> int kres" where
  "sys_set_cpu_share s = or_fail (- 1) (argint 0 s) set_cpu_share"

definition sys_fork :: "nat \<Rightarrow> kst \<Rightarrow> int kres" where
  "sys_fork forkret_addr s = fork forkret_addr s"

definition sys_exit :: "kst \<Rightarrow> int kres" where
  "sys_exit s = exit s"

definition sys_wait :: "kst \<Rightarrow> int kres" where
  "sys_wait s = wait s"

definition sys_kill :: "kst \<Rightarrow> int kres" where
  "sys_kill s = or_fail (- 1) (argint 0 s) kill"

definition sys_getpid :: "kst \<Rightarrow> int kres" where
  "sys_getpid s = (case curproc s of None \<Rightarrow> Undef | Some p \<Rightarrow> Ok (pid (procs s ! p)) s)"

definition sys_getppid :: "kst \<Rightarrow> int kres" where
  "sys_getppid s = (case curproc s of None \<Rightarrow> Undef | Some p \<Rightarrow>
     (case parent (procs s ! p) of None \<Rightarrow> Undef | Some q \<Rightarrow> Ok (pid (procs s ! q)) s))"

definition sys_sbrk :: "kst \<Rightarrow> int kres" where
  "sys_sbrk s = or_fail (- 1) (argint 0 s) (\<lambda>n s.
     let addr = sint32 (sz (cur s)) in
     kbind (growproc n s) (\<lambda>r s. Ok (if r < 0 then - 1 else addr) s))"

text \<open>The comparison \<open>ticks - ticks0 < n\<close> is unsigned.\<close>

definition sys_sleep_loop :: "nat \<Rightarrow> int \<Rightarrow> kst \<Rightarrow> int kres" where
  "sys_sleep_loop ticks0 n s =
     (if usub (ticks s) ticks0 < uint32 n then
        if killed (cur s) then kbind (release LTicks s) (\<lambda>_ s. Ok (- 1) s)
        else sleep ChTicks (Some LTicks) s
      else kbind (release LTicks s) (\<lambda>_ s. Ok 0 s))"

definition sys_sleep :: "kst \<Rightarrow> int kres" where
  "sys_sleep s = or_fail (- 1) (argint 0 s) (\<lambda>n s.
     kbind (acquire LTicks s) (\<lambda>_ s. sys_sleep_loop (ticks s) n s))"

definition sys_sleep_again :: "nat \<Rightarrow> int \<Rightarrow> kst \<Rightarrow> int kres" where
  "sys_sleep_again ticks0 n s = kbind (sleep_resume LTicks s) (\<lambda>_ s. sys_sleep_loop ticks0 n s)"

definition sys_uptime :: "kst \<Rightarrow> int kres" where
  "sys_uptime s = kbind (acquire LTicks s) (\<lambda>_ s.
     let xticks = ticks s in kbind (release LTicks s) (\<lambda>_ s. Ok (sint32 xticks) s))"

end
