(* ===== verification/ProcSched.thy ===== *)
theory ProcSched
  imports SchedProps Proc
begin

text \<open>
  New processes and the scheduler: \<open>allocproc\<close> puts a process into the queue of the highest level and keeps the invariant
  of the scheduler; \<open>fork\<close>, when it cannot copy the memory, gives the process up but leaves it in that queue.
\<close>

subsection \<open>The memory of a process\<close>

text \<open>\<open>t\<close> differs from \<open>s\<close> in the physical memory, the free list and the locks only.\<close>

definition memory_only :: "kst \<Rightarrow> kst \<Rightarrow> bool" where
  "memory_only s t \<longleftrightarrow> t\<lparr>pmem := \<lambda>_. 0, freelist := 0, held := []\<rparr> = s\<lparr>pmem := \<lambda>_. 0, freelist := 0, held := []\<rparr>"

abbreviation in_memory :: "kst \<Rightarrow> 'a kres \<Rightarrow> bool" where
  "in_memory s m \<equiv> safe m (\<lambda>_. memory_only s)"

lemma memory_only_simps [simp]:
  "memory_only s s" "memory_only s (t\<lparr>pmem := m\<rparr>) = memory_only s t" "memory_only s (t\<lparr>freelist := f\<rparr>) = memory_only s t"
  "memory_only s (t\<lparr>held := h\<rparr>) = memory_only s t" "memory_only s (t\<lparr>pmem := m, freelist := f\<rparr>) = memory_only s t"
  by (simp_all add: memory_only_def)

lemma memory_onlyD:
  assumes "memory_only s t"
  shows "procs t = procs s" "arrq t = arrq s" "q_size t = q_size s" "stab t = stab s" "stable_size t = stable_size s" "curproc t = curproc s"
  using assms[unfolded memory_only_def, THEN arg_cong[where f = procs]] assms[unfolded memory_only_def, THEN arg_cong[where f = arrq]]
    assms[unfolded memory_only_def, THEN arg_cong[where f = q_size]] assms[unfolded memory_only_def, THEN arg_cong[where f = stab]]
    assms[unfolded memory_only_def, THEN arg_cong[where f = stable_size]] assms[unfolded memory_only_def, THEN arg_cong[where f = curproc]]
  by simp_all

lemma in_memory_bind:
  "in_memory s m \<Longrightarrow> (\<And>x t. memory_only s t \<Longrightarrow> in_memory s (f x t)) \<Longrightarrow> in_memory s (kbind m f)"
  by (cases m) simp_all

lemma in_memory_kfor: "(\<And>x u. memory_only s u \<Longrightarrow> in_memory s (f x u)) \<Longrightarrow> memory_only s t \<Longrightarrow> in_memory s (kfor xs f t)"
  by (induction xs arbitrary: t) (auto intro!: in_memory_bind simp del: safe_kbind)

lemma in_memory_kfind: "(\<And>x u. memory_only s u \<Longrightarrow> in_memory s (f x u)) \<Longrightarrow> memory_only s t \<Longrightarrow> in_memory s (kfind xs f t)"
  by (induction xs arbitrary: t) (auto intro!: in_memory_bind simp del: safe_kbind split: option.split)

lemma in_memory_lock: "memory_only s t \<Longrightarrow> in_memory s (kmem_lock t)" "memory_only s t \<Longrightarrow> in_memory s (kmem_unlock t)"
  by (simp_all add: kmem_lock_def kmem_unlock_def acquire_def release_def)

lemma in_memory_alloc: "memory_only s t \<Longrightarrow> in_memory s (kalloc t)"
  unfolding kalloc_def Let_def by (intro in_memory_bind in_memory_lock) (auto simp: in_memory_lock)

lemma in_memory_free: "memory_only s t \<Longrightarrow> in_memory s (kfree v t)"
  unfolding kfree_def by (auto intro!: in_memory_bind in_memory_lock simp del: safe_kbind)

lemma in_memory_words [simp]: "memory_only s t \<Longrightarrow> memory_only s (kwrite a v t)" "memory_only s t \<Longrightarrow> memory_only s (zero_page a t)"
  by (simp_all add: kwrite_def zero_page_def)

lemma in_memory_walk: "memory_only s t \<Longrightarrow> in_memory s (walkpgdir pd va a t)"
  unfolding walkpgdir_def Let_def by (auto intro!: in_memory_bind in_memory_alloc simp del: safe_kbind)

lemma in_memory_one: "memory_only s t \<Longrightarrow> in_memory s (map_one pd a pa perm t)"
  unfolding map_one_def by (auto intro!: in_memory_bind in_memory_walk simp del: safe_kbind)

lemma in_memory_map_loop: "memory_only s t \<Longrightarrow> in_memory s (map_loop pd n a pa perm t)"
  by (induction n arbitrary: a pa t) (auto intro!: in_memory_bind in_memory_one simp del: safe_kbind)

lemma in_memory_map: "memory_only s t \<Longrightarrow> in_memory s (mappages pd va n pa perm t)"
  unfolding mappages_def Let_def by (rule in_memory_map_loop)

lemma in_memory_guards: "memory_only s t \<Longrightarrow> in_memory s (kassert b e t)" "memory_only s t \<Longrightarrow> in_memory s (kguard b t)"
  by (simp_all add: kassert_def kguard_def)

lemma in_memory_dealloc_loop: "memory_only s t \<Longrightarrow> in_memory s (dealloc_loop pd oldsz a t)"
proof (induction pd oldsz a t rule: dealloc_loop.induct)
  case (1 pd oldsz a t)
  show ?case
    unfolding dealloc_loop.simps[of pd oldsz a t]
    using 1 by (auto intro!: in_memory_bind in_memory_walk in_memory_guards in_memory_free simp del: safe_kbind simp: Let_def split: if_splits)
qed

lemma in_memory_freevm: "memory_only s t \<Longrightarrow> in_memory s (freevm pd t)"
  unfolding freevm_def deallocuvm_def
  by (auto intro!: in_memory_bind in_memory_kfor in_memory_dealloc_loop in_memory_guards in_memory_free simp del: safe_kbind simp: Let_def)

lemma in_memory_setupkvm: "memory_only s t \<Longrightarrow> in_memory s (setupkvm t)"
  unfolding setupkvm_def
  by (auto intro!: in_memory_bind in_memory_kfind in_memory_alloc in_memory_freevm in_memory_map in_memory_guards simp del: safe_kbind split: prod.split)

lemma in_memory_copyuvm: "memory_only s t \<Longrightarrow> in_memory s (copyuvm pd n t)"
  unfolding copyuvm_def Let_def
  by (auto intro!: in_memory_bind in_memory_kfind in_memory_alloc in_memory_free in_memory_freevm in_memory_map in_memory_guards
      in_memory_walk in_memory_setupkvm simp del: safe_kbind)

subsection \<open>A new process\<close>

text \<open>The process \<open>allocproc\<close> makes of the entry \<open>q\<close>.\<close>

definition fresh_proc :: "nat \<Rightarrow> nat \<Rightarrow> kst \<Rightarrow> proc \<Rightarrow> proc" where
  "fresh_proc fa v s q = q\<lparr>state := EMBRYO, pid := nextpid s, kstack := v, ctx_eip := fa, lev := INITIAL_LEV,
     time_allotment := time_allot s ! nat INITIAL_LEV, start_tick := ticks s, share := 0, pass := 0, first_scheduled := False\<rparr>"

lemma allocproc_kalloc:
  assumes h: "held s = []" and F: "free_list s xs" and p: "first_idx (\<lambda>p. state p = UNUSED) (procs s) = Some p"
  defines "u \<equiv> (upd_proc p (\<lambda>q. q\<lparr>state := EMBRYO, pid := nextpid s\<rparr>) s)\<lparr>nextpid := nextpid s + 1, freelist := hd (tl xs @ [0])\<rparr>"
  shows "allocproc fa s = (case xs of [] \<Rightarrow> Ok None (upd_proc p (\<lambda>q. q\<lparr>kstack := 0, state := UNUSED\<rparr>) u)
    | v # _ \<Rightarrow> (case aq_push (Some p) (aq_of 0 s) of None \<Rightarrow> Undef
       | Some r \<Rightarrow> Ok (Some p) (set_aq 0 r (upd_proc p (fresh_proc fa v s) (s\<lparr>nextpid := nextpid s + 1, freelist := hd (tl xs @ [0])\<rparr>)))))"
proof -
  let ?a = "(upd_proc p (\<lambda>q. q\<lparr>state := EMBRYO, pid := nextpid s\<rparr>) s)\<lparr>nextpid := nextpid s + 1\<rparr>"
  have pl: "p < length (procs s)" using p by (auto dest: first_idx_SomeD)
  have s: "s\<lparr>held := []\<rparr> = s" using h by simp
  have "free_list ?a xs" using F by (simp add: free_list_def page_ok_def upd_proc_def)
  then have K: "kalloc ?a = Ok (freelist s) (?a\<lparr>freelist := hd (tl xs @ [0])\<rparr>)" using kalloc_eq by (force simp: upd_proc_def)
  have fl: "freelist s = (case xs of [] \<Rightarrow> 0 | v # _ \<Rightarrow> v)" "xs = v # ys \<Longrightarrow> v \<noteq> 0" for v ys
    using free_listD(1)[OF F] by (cases xs; simp)+
  have aq: "acquire LPtable t = Ok () (t\<lparr>held := [LPtable]\<rparr>)" if "held t = []" for t using that by (simp add: acquire_def)
  have rl: "release LPtable t = Ok () (t\<lparr>held := []\<rparr>)" if "held t = [LPtable]" for t using that by (simp add: release_def)
  have e: "(upd_proc p (\<lambda>q. q\<lparr>state := EMBRYO, pid := nextpid s\<rparr>) (s\<lparr>held := [LPtable]\<rparr>))\<lparr>nextpid := nextpid s + 1, held := []\<rparr> = ?a"
    using h by (cases s) (simp add: upd_proc_def)
  have A: "allocproc fa s = kbind (kalloc ?a) (\<lambda>v t.
       if v = 0 then Ok None (upd_proc p (\<lambda>q. q\<lparr>kstack := 0, state := UNUSED\<rparr>) t)
       else
         let t = upd_proc p (\<lambda>q. q\<lparr>kstack := v, ctx_eip := fa, lev := INITIAL_LEV,
                   time_allotment := time_allot t ! nat INITIAL_LEV, start_tick := ticks t, share := 0,
                   pass := 0, first_scheduled := False\<rparr>) t in
         kbind (acquire LPtable t) (\<lambda>_ t.
         kbind (lift_aq (set_aq 0) (aq_push (Some p) (aq_of 0 t)) t) (\<lambda>_ t.
         kbind (release LPtable t) (\<lambda>_ t. Ok (Some p) t))))"
    unfolding allocproc_def aq[OF h] using p h e by (simp add: rl)
  show ?thesis
  proof (cases xs)
    case Nil
    then show ?thesis unfolding A K using fl(1) by (simp add: u_def)
  next
    case (Cons v ys)
    let ?t = "upd_proc p (fresh_proc fa v s) (s\<lparr>nextpid := nextpid s + 1, freelist := hd (tl xs @ [0])\<rparr>)"
    have t: "upd_proc p (\<lambda>q. q\<lparr>kstack := v, ctx_eip := fa, lev := INITIAL_LEV,
                   time_allotment := time_allot (?a\<lparr>freelist := hd (tl xs @ [0])\<rparr>) ! nat INITIAL_LEV, start_tick := ticks (?a\<lparr>freelist := hd (tl xs @ [0])\<rparr>), share := 0,
                   pass := 0, first_scheduled := False\<rparr>) (?a\<lparr>freelist := hd (tl xs @ [0])\<rparr>) = ?t"
      using pl by (simp add: upd_proc_def fresh_proc_def)
    have o: "aq_of 0 (?t\<lparr>held := [LPtable]\<rparr>) = aq_of 0 s" by (simp add: aq_of_def)
    have f: "(set_aq 0 r (?t\<lparr>held := [LPtable]\<rparr>))\<lparr>held := []\<rparr> = set_aq 0 r ?t" for r using h by (cases s) (simp add: set_aq_def upd_proc_def)
    have "allocproc fa s = kbind (lift_aq (set_aq 0) (aq_push (Some p) (aq_of 0 s)) (?t\<lparr>held := [LPtable]\<rparr>)) (\<lambda>_ t.
         kbind (release LPtable t) (\<lambda>_ t. Ok (Some p) t))"
      unfolding A K kbind_simps Let_def fl(1) Cons list.case if_not_P[OF fl(2)[OF Cons]] t[unfolded Cons]
      using aq[of ?t] h o[unfolded Cons] by (simp add: Cons)
    then show ?thesis using f by (cases "aq_push (Some p) (aq_of 0 s)") (simp_all add: Cons lift_aq_def rl)
  qed
qed

lemma unused_not_in: "state (procs s ! p) = UNUSED \<Longrightarrow> \<not> in_mlfq l p s \<and> \<not> in_stride p s \<and> \<not> live p s"
  by (simp add: in_mlfq_def in_stride_def live_def)

lemma fresh_enqueued:
  assumes inv: "sched_inv s" and p: "p < NPROC" "state (procs s ! p) = UNUSED"
  shows "\<exists>r. aq_push (Some p) (aq_of 0 s) = Some r \<and> (let t = set_aq 0 r (upd_proc p (fresh_proc fa v s) (s\<lparr>nextpid := n, freelist := f\<rparr>)) in
     sched_inv t \<and> others p s t \<and> procs t ! p = fresh_proc fa v s (procs s ! p) \<and> strides t = strides s
     \<and> (\<forall>j < DEPTH_QUEUE. queue j t = (if j = 0 then queue j s @ [Some p] else queue j s)))"
proof -
  note D = sched_invD[OF inv]
  note U = unused_not_in[OF p(2)]
  have d: "0 < DEPTH_QUEUE" by (simp add: param_defs)
  note Q = queues_okD[OF D(5) d]
  have "length (queue 0 s) < NPROC" by (rule queue_room[OF D(5) d _ p(1)]) (use U in blast)
  then obtain r where r: "aq_push (Some p) (aq_of 0 s) = Some r" "aq_ok r" "aq_list r = queue 0 s @ [Some p]"
    using rotq.push_law[OF Q(1), of "Some p"] by (auto simp: queue_def)
  let ?u = "upd_proc p (fresh_proc fa v s) (s\<lparr>nextpid := n, freelist := f\<rparr>)"
  let ?t = "set_aq 0 r ?u"
  have len: "length (arrq ?u) = DEPTH_QUEUE" "length (q_size ?u) = DEPTH_QUEUE" using D by simp_all
  have uq: "aq_of j ?u = aq_of j s" for j by (simp add: aq_of_def)
  have q: "aq_of j ?t = (if j = 0 then r else aq_of j s)" for j using aq_of_set_aq[OF len d] uq by simp
  then have qs: "queue j ?t = (if j = 0 then queue j s @ [Some p] else queue j s)" for j using r(3) by (simp add: queue_def)
  have pt: "procs ?t ! p = fresh_proc fa v s (procs s ! p)" using p(1) D(1) by simp
  have o: "others p s ?t" by (simp add: others_def)
  have m: "in_mlfq l p ?t = (l = 0)" "\<not> in_stride p ?t" for l
    using p(1) by (auto simp: in_mlfq_def in_stride_def live_def pt fresh_proc_def INITIAL_LEV_def simp del: set_aq_simps)
  have st: "strides ?t = strides s" "st_of ?t = st_of s" by (simp_all add: strides_def st_of_def)
  have "queues_ok ?t"
  proof (rule queues_ok_step[OF D(5) o])
    fix l assume l: "l < DEPTH_QUEUE"
    have "Some p \<notin> set (queue 0 s)" unfolding Q(3) using U by auto
    then have "remove1 (Some p) (queue 0 s) = queue 0 s" by (simp add: remove1_idem)
    then show "aq_ok (aq_of l ?t) \<and> (queue l ?t = queue l s \<and> in_mlfq l p ?t = in_mlfq l p s
       \<or> queue l ?t = remove1 (Some p) (queue l s) @ (if in_mlfq l p ?t then [Some p] else []))"
      using queues_okD(1)[OF D(5) l] r(2) U unfolding q qs m by auto
  qed
  moreover have "strides_ok ?t"
    by (rule strides_ok_step[OF D(6) o]) (use D(6) U m(2) in \<open>simp_all add: st strides_ok_def\<close>)
  moreover have "levels_ok ?t"
    by (rule levels_ok_step[OF D(7) o]) (simp add: pt fresh_proc_def INITIAL_LEV_def lev_ok_def param_defs del: set_aq_simps)
  moreover have "reserved ?t = reserved s" using reserved_step[OF o] U m(2) by simp
  ultimately have "sched_inv ?t" using D by (simp add: sched_inv_def)
  then show ?thesis using r(1) o pt st(1) qs by (auto simp: Let_def)
qed

text \<open>When there is no page for the kernel stack, nothing changes but the process identifiers.\<close>

lemma allocproc_no_page:
  fixes m :: int and n :: int and f :: nat
  assumes inv: "sched_inv s" and p: "p < NPROC" "state (procs s ! p) = UNUSED"
  defines "t \<equiv> upd_proc p (\<lambda>q. q\<lparr>kstack := 0, state := UNUSED\<rparr>) ((upd_proc p (\<lambda>q. q\<lparr>state := EMBRYO, pid := m\<rparr>) s)\<lparr>nextpid := n, freelist := f\<rparr>)"
  shows "sched_inv t" "others p s t" "state (procs t ! p) = UNUSED" "queue l t = queue l s" "strides t = strides s"
proof -
  note D = sched_invD[OF inv]
  have n: "procs t ! q = (if q = p then (procs s ! p)\<lparr>state := UNUSED, pid := m, kstack := 0\<rparr> else procs s ! q)" for q
    using p(1) D(1) by (simp add: t_def)
  have f: "arrq t = arrq s" "q_size t = q_size s" "stab t = stab s" "stable_size t = stable_size s" "mlfq t = mlfq s" "time_allot t = time_allot s"
    "length (procs t) = length (procs s)" by (simp_all add: t_def)
  show "others p s t" "state (procs t ! p) = UNUSED" by (simp_all add: others_def n)
  show "queue l t = queue l s" "strides t = strides s" using f by (simp_all add: queue_def aq_of_def strides_def st_of_def)
  show "sched_inv t"
    by (rule sched_inv_cong[OF inv]) (use p(2) in \<open>simp_all add: n f live_def\<close>)
qed

text \<open>When \<open>copyuvm\<close> fails, \<open>fork\<close> clears the entry of the process and nothing else of the scheduler.\<close>

lemma fork_gives_up:
  assumes a: "allocproc fa s = Ok (Some p) u" and c: "curproc u = Some c" and d: "copyuvm (pgdir (procs u ! c)) (sz (procs u ! c)) u = Ok 0 k"
    and f: "fork fa s = Ok x t" and p: "p < length (procs u)"
  shows "x = - 1 \<and> state (procs t ! p) = UNUSED \<and> (\<forall>j. queue j t = queue j u)"
proof -
  let ?k = "upd_proc p (\<lambda>q. q\<lparr>pgdir := 0\<rparr>) k"
  have k: "memory_only u k" using in_memory_copyuvm[of u u "pgdir (procs u ! c)" "sz (procs u ! c)"] d by simp
  obtain y z where z: "kfree (kstack (procs ?k ! p)) ?k = Ok y z" "x = - 1" "t = upd_proc p (\<lambda>q. q\<lparr>kstack := 0, state := UNUSED\<rparr>) z"
    using f by (auto simp: fork_def or_fail_def a c d Let_def elim!: kbind_OkE)
  have "memory_only ?k z" using in_memory_free[of ?k ?k "kstack (procs ?k ! p)"] z(1) by simp
  note F = memory_onlyD[OF this] memory_onlyD[OF k]
  have "queue j t = queue j u" for j by (rule queue_cong) (simp_all add: z(3) F)
  then show ?thesis using z(2,3) p F by simp
qed

text \<open>
  C9. A new process. \<open>allocproc\<close> takes the first unused entry of the table, or fails when there is none or no page for its kernel stack. The
  new process is at the end of the queue of the highest level, on no other queue, without a share, and the invariant of the
  scheduler still holds, in the other cases too. But \<open>fork\<close> breaks the invariant when it cannot copy the memory: its process is then unused
  and still in the queue.
\<close>

theorem allocproc_enqueues:
  assumes inv: "sched_inv s" and h: "held s = []" and F: "free_list s xs"
  shows "case first_idx (\<lambda>p. state p = UNUSED) (procs s) of
      None \<Rightarrow> allocproc fa s = Ok None s
    | Some p \<Rightarrow> (case xs of
        [] \<Rightarrow> \<exists>t. allocproc fa s = Ok None t \<and> sched_inv t \<and> others p s t \<and> state (procs t ! p) = UNUSED \<and> (\<forall>j. queue j t = queue j s) \<and> strides t = strides s
      | v # ys \<Rightarrow> \<exists>t. allocproc fa s = Ok (Some p) t \<and> sched_inv t \<and> held t = [] \<and> free_list t ys \<and> kend t = kend s \<and> curproc t = curproc s
          \<and> others p s t \<and> procs t ! p = fresh_proc fa v s (procs s ! p) \<and> strides t = strides s
          \<and> (\<forall>j < DEPTH_QUEUE. queue j t = (if j = 0 then queue j s @ [Some p] else queue j s))
          \<and> (\<forall>c k x w. curproc t = Some c \<and> copyuvm (pgdir (procs t ! c)) (sz (procs t ! c)) t = Ok 0 k \<and> fork fa s = Ok x w
               \<longrightarrow> x = - 1 \<and> state (procs w ! p) = UNUSED \<and> Some p \<in> set (queue 0 w) \<and> \<not> sched_inv w))"
proof (cases "first_idx (\<lambda>p. state p = UNUSED) (procs s)")
  case None
  have "allocproc fa s = Ok None (s\<lparr>held := []\<rparr>)" unfolding allocproc_def using h None by (simp add: acquire_def release_def del: first_idx_None)
  moreover have "s\<lparr>held := []\<rparr> = s" using h by simp
  ultimately show ?thesis by (simp only: None option.case)
next
  case (Some p)
  have p: "p < NPROC" "state (procs s ! p) = UNUSED" using first_idx_SomeD[OF Some] sched_invD(1)[OF inv] by simp_all
  note A = allocproc_kalloc[OF h F Some, of fa]
  show ?thesis
  proof (cases xs)
    case Nil
    then show ?thesis using A allocproc_no_page[OF inv p] unfolding Some by simp
  next
    case (Cons v ys)
    obtain r where r: "aq_push (Some p) (aq_of 0 s) = Some r" and t: "let t = set_aq 0 r (upd_proc p (fresh_proc fa v s)
        (s\<lparr>nextpid := nextpid s + 1, freelist := hd (tl xs @ [0])\<rparr>)) in
       sched_inv t \<and> others p s t \<and> procs t ! p = fresh_proc fa v s (procs s ! p) \<and> strides t = strides s
       \<and> (\<forall>j < DEPTH_QUEUE. queue j t = (if j = 0 then queue j s @ [Some p] else queue j s))"
      using fresh_enqueued[OF inv p] by blast
    define t where "t = set_aq 0 r (upd_proc p (fresh_proc fa v s) (s\<lparr>nextpid := nextpid s + 1, freelist := hd (tl xs @ [0])\<rparr>))"
    have t: "sched_inv t" "others p s t" "procs t ! p = fresh_proc fa v s (procs s ! p)" "strides t = strides s"
      "\<forall>j < DEPTH_QUEUE. queue j t = (if j = 0 then queue j s @ [Some p] else queue j s)"
      using t unfolding Let_def t_def by blast+
    have a: "allocproc fa s = Ok (Some p) t" using A by (simp add: Cons r t_def)
    have "free_list (s\<lparr>freelist := hd (tl xs @ [0])\<rparr>) (tl xs)" using kalloc_spec[OF F] kalloc_eq[OF F] by simp
    then have m: "free_list t ys" "held t = []" "kend t = kend s" "curproc t = curproc s"
      using h Cons by (simp_all add: t_def set_aq_def upd_proc_def free_list_def page_ok_def)
    have d: "0 < DEPTH_QUEUE" by (simp add: param_defs)
    have f: "x = - 1 \<and> state (procs w ! p) = UNUSED \<and> Some p \<in> set (queue 0 w) \<and> \<not> sched_inv w"
      if h: "curproc t = Some c \<and> copyuvm (pgdir (procs t ! c)) (sz (procs t ! c)) t = Ok 0 k \<and> fork fa s = Ok x w" for c k x w
    proof -
      have "p < length (procs t)" using p(1) sched_invD(1)[OF t(1)] by simp
      then have w: "x = - 1" "state (procs w ! p) = UNUSED" "queue 0 w = queue 0 t" using fork_gives_up[OF a, of c k x w] h by blast+
      then have q: "Some p \<in> set (queue 0 w)" using t(5) d by simp
      have "\<not> sched_inv w"
      proof
        assume "sched_inv w"
        then have "set (queue 0 w) = Some ` {p. in_mlfq 0 p w}" using queues_okD(3)[OF sched_invD(5) d] by blast
        then show False using q w(2) unused_not_in[of w p] by auto
      qed
      then show ?thesis using w q by blast
    qed
    show ?thesis unfolding Some option.case Cons list.case using a t f m by blast
  qed
qed

subsection \<open>An example\<close>

text \<open>One page is left: it becomes the kernel stack of the child, and the copy of the memory fails.\<close>

definition fork_example :: kst where
  "fork_example = sched_example\<lparr>freelist := 0x80200000\<rparr>"

lemma fork_example_inv: "sched_inv fork_example" "held fork_example = []" "free_list fork_example [0x80200000]"
proof -
  show "sched_inv fork_example" by (rule sched_inv_cong[OF sched_example_inv]) (simp_all add: fork_example_def live_def)
  show "held fork_example = []" by (simp add: fork_example_def)
  have z: "rd32 (\<lambda>_. 0) a = 0" for a by (simp add: rd32_def get32_def get16_def nth_region)
  have "pmem fork_example = (\<lambda>_. 0)" "kend fork_example = 0x80115000" by (simp_all add: fork_example_def sched_example_def) (simp_all add: kernel0_def)
  then show "free_list fork_example [0x80200000]" by (simp add: free_list_def page_ok_def z param_defs) (simp add: fork_example_def)
qed

theorem allocproc_enqueues_witness:
  "(\<exists>t. allocproc 0 fork_example = Ok (Some 3) t \<and> sched_inv t \<and> queue 0 t = [Some 0, Some 3])
   \<and> (\<exists>w. fork 0 fork_example = Ok (- 1) w \<and> Some 3 \<in> set (queue 0 w) \<and> \<not> sched_inv w)"
proof -
  have "first_idx (\<lambda>p. state p = UNUSED) (procs fork_example) = Some 3"
    unfolding first_idx_Some by (auto simp: fork_example_def below3 param_defs zero_proc_def)
  with allocproc_enqueues[OF fork_example_inv, of 0]
  obtain t where t: "allocproc 0 fork_example = Ok (Some 3) t" "sched_inv t" "held t = []" "free_list t []" "curproc t = Some 0" "kend t = kend fork_example"
      "procs t ! 3 = fresh_proc 0 0x80200000 fork_example (procs fork_example ! 3)"
      "\<forall>j < DEPTH_QUEUE. queue j t = (if j = 0 then queue j fork_example @ [Some 3] else queue j fork_example)"
    and w: "\<forall>c k x w. curproc t = Some c \<and> copyuvm (pgdir (procs t ! c)) (sz (procs t ! c)) t = Ok 0 k \<and> fork 0 fork_example = Ok x w
      \<longrightarrow> x = - 1 \<and> state (procs w ! 3) = UNUSED \<and> Some 3 \<in> set (queue 0 w) \<and> \<not> sched_inv w"
    by (auto simp: fork_example_def)
  have "queue 0 fork_example = queue 0 sched_example" by (simp add: fork_example_def queue_def aq_of_def)
  then have q: "queue 0 t = [Some 0, Some 3]" using t(8) sched_example_queues(1) by (simp add: param_defs)
  have c: "copyuvm d n t = Ok 0 t" for d n using kalloc_eq[OF t(4)] free_listD(1)[OF t(4)] by (simp add: copyuvm_def setupkvm_def)
  let ?k = "upd_proc 3 (\<lambda>q. q\<lparr>pgdir := 0\<rparr>) t"
  have l: "3 < length (procs t)" using sched_invD(1)[OF t(2)] by (simp add: param_defs)
  have ks: "kstack (procs ?k ! 3) = 0x80200000" using l t(7) by (simp add: fresh_proc_def)
  have "page_ok ?k 0x80200000" using free_listD(3)[OF fork_example_inv(3), of "0x80200000"] t(6) by (simp add: page_ok_def)
  moreover have "free_list ?k []" using t(4) by (simp add: free_list_def)
  ultimately have "\<exists>z. kfree (kstack (procs ?k ! 3)) ?k = Ok () z" unfolding ks using kfree_eq by blast
  then have "\<exists>w. fork 0 fork_example = Ok (- 1) w" using t(1,5) c by (auto simp: fork_def or_fail_def Let_def)
  then show ?thesis using t(1,2,5) q c w by blast
qed

end
