(* ===== verification/Txn.thy ===== *)
theory Txn
  imports LogOps
begin

text \<open>
  Modifying blocks inside a transaction, the interface the inode layer (fs.c) uses: \<open>bread\<close> a block,
  change its data, hand it to \<open>log_write\<close>, \<open>brelse\<close> it. \<open>txn s H\<close> says that the process is inside a
  transaction and holds the buffers \<open>H\<close>; the lemmas give the exact effect of the pattern on the view
  and on the set of pinned blocks.
\<close>

subsection \<open>Frames\<close>

text \<open>
  Steps inside a transaction change the buffer cache, the blocks recorded in the log and the scheduling
  state of sleeping processes, nothing else.
\<close>

definition tframe :: "kst \<Rightarrow> kst \<Rightarrow> bool" where
  "tframe s t \<longleftrightarrow> bframe (upd_lg (\<lambda>_. lg t) s) t \<and> lg_outstanding (lg t) = lg_outstanding (lg s)
     \<and> lg_start (lg t) = lg_start (lg s) \<and> lg_committing (lg t) = lg_committing (lg s)"

lemma upd_lg_id [simp]: "upd_lg (\<lambda>_. lg s) s = s"
  by (simp add: upd_lg_def)

lemma tframe_refl [simp]: "tframe s s"
  by (simp add: tframe_def)

lemma tframe_bframe: "bframe s t \<Longrightarrow> tframe s t"
  using bframeD(3)[of s t] by (simp add: tframe_def)

lemma tframe_trans [trans]: "tframe s t \<Longrightarrow> tframe t u \<Longrightarrow> tframe s u"
  using bframe_trans[OF bframe_upd_lg[of "upd_lg (\<lambda>_. lg t) s" t "\<lambda>_. lg u"]]
  by (simp add: tframe_def upd_lg_comp)

lemma tframeD:
  assumes "tframe s t"
  shows "disk t = disk s" "disksize t = disksize s" "sb t = sb s" "inodes t = inodes s"
    "files t = files s" "pipes t = pipes s" "held t = held s" "curproc t = curproc s"
    "dwrites t = dwrites s" "lg_outstanding (lg t) = lg_outstanding (lg s)"
    "lg_start (lg t) = lg_start (lg s)" "lg_committing (lg t) = lg_committing (lg s)"
  using assms bframeD[of "upd_lg (\<lambda>_. lg t) s" t] by (simp_all add: tframe_def)

lemma tframe_psame: "tframe s t \<Longrightarrow> psame s t"
  using bframe_psame[of "upd_lg (\<lambda>_. lg t) s" t] by (simp add: tframe_def psame_def)

lemma tframe_pid: "tframe s t \<Longrightarrow> idle_locks s \<Longrightarrow> pid (cur t) = pid (cur s) \<and> idle_locks t"
  using bframe_pid[of "upd_lg (\<lambda>_. lg t) s" t] by (simp add: tframe_def)

lemma tframe_home: "tframe s t \<Longrightarrow> home t = home s"
  by (simp add: home_off_log tframeD)

lemma tframe_upd_buf [simp]: "tframe s (upd_buf i f s)"
  by (simp add: tframe_bframe)

text \<open>What the buffer cache and the log depend on; the rest of the kernel state does not matter.\<close>

lemma cache_same:
  assumes "bufs t = bufs s" "mru t = mru s" "disk t = disk s" "disksize t = disksize s" "held t = held s"
    "curproc t = curproc s" "procs t = procs s" "lg t = lg s"
  shows "view t = view s" "bproto t H = bproto s H" "pinned t = pinned s" "log_ok t = log_ok s" "home t = home s"
    "idle_locks t = idle_locks s" "bc_inv t = bc_inv s" "holds t = holds s" "coh t = coh s"
proof -
  have u: "cur t = cur s" using assms by (simp add: cur_def split: option.split)
  have c: "cached t = cached s" using assms by (intro ext) (simp add: cached_def)
  have o: "owns t = owns s" using assms u by (intro ext) (simp add: owns_def)
  have k: "buf_ok t = buf_ok s" using assms by (intro ext) (simp add: buf_ok_def)
  show b: "bc_inv t = bc_inv s" using assms k by (simp add: bc_inv_def)
  have d: "dset t = dset s" using assms by (simp add: dset_def)
  show "view t = view s" using assms c by (intro ext) (simp add: view_def split: option.split)
  show i: "idle_locks t = idle_locks s" using assms by (simp add: idle_locks_def)
  show p: "bproto t H = bproto s H" using assms by (simp add: bproto_def b o i)
  show pn: "pinned t = pinned s" using assms by (simp add: pinned_def c d)
  show "holds t = holds s" using assms by (intro ext) (simp add: holds_def c o)
  show "coh t = coh s" using assms by (intro ext) (simp add: coh_def)
  show h: "home t = home s" using assms by (simp add: home_off_log)
  show "log_ok t = log_ok s" using assms by (simp add: log_ok_def log_geom_def logged_def pn h)
qed

subsection \<open>Transactions\<close>

definition txn :: "kst \<Rightarrow> nat set \<Rightarrow> bool" where
  "txn s H \<longleftrightarrow> bproto s H \<and> log_ok s \<and> 1 \<le> lg_outstanding (lg s)"

lemma txnD:
  assumes "txn s H"
  shows "bproto s H" "log_ok s" "1 \<le> lg_outstanding (lg s)" "idle_locks s" "bc_inv s"
  using assms bprotoD[of s H] by (simp_all add: txn_def)

lemma log_ok_lh_n: "log_ok s \<Longrightarrow> lh_n (lg s) = int (card (pinned s))"
  using log_okD(2,4,5,7)[of s] distinct_card[of "logged s"] by simp

text \<open>A later state of the transaction: what the operations of fs.c have in common.\<close>

definition later :: "nat set \<Rightarrow> kst \<Rightarrow> kst \<Rightarrow> bool" where
  "later H s t \<longleftrightarrow> txn t H \<and> tframe s t \<and> (\<forall>j \<in> H. bufs t ! j = bufs s ! j)"

lemma laterD:
  assumes "later H s t"
  shows "txn t H" "tframe s t" "\<And>j. j \<in> H \<Longrightarrow> bufs t ! j = bufs s ! j"
  using assms by (simp_all add: later_def)

lemma later_trans [trans]: "later H s t \<Longrightarrow> later H t u \<Longrightarrow> later H s u"
  using tframe_trans[of s t u] by (simp add: later_def)

lemma later_refl: "txn s H \<Longrightarrow> later H s s"
  by (simp add: later_def)

lemma later_holds:
  assumes "later H s t" "txn s H" "j \<in> H" "holds s j n d"
  shows "holds t j n d"
  using holds_frame[OF assms(4) laterD(3)[OF assms(1,3)]] tframe_pid[OF laterD(2)[OF assms(1)] txnD(4)[OF assms(2)]]
  by simp

text \<open>Reading a block inside a transaction.\<close>

lemma bread_txn:
  assumes T: "txn s H" and r: "ready s H n"
  shows "runs (bread 1 n s) (\<lambda>i t. txn t (insert i H) \<and> i \<notin> H \<and> holds t i n (view s n) \<and> coh t i n
     \<and> view t = view s \<and> pinned t = pinned s \<and> tframe s t \<and> (\<forall>j. j \<noteq> i \<longrightarrow> bufs t ! j = bufs s ! j))"
proof (rule runs_mono[OF bread_blk[OF txnD(1)[OF T] r]], elim conjE)
  fix i t
  assume P: "bproto t (insert i H)" and nH: "i \<notin> H" and hl: "holds t i n (view s n)" and co: "coh t i n"
    and vw: "view t = view s" and bf: "bframe s t" and pn: "pinned t = pinned s"
    and fr: "\<forall>j. j \<noteq> i \<longrightarrow> bufs t ! j = bufs s ! j"
  have "log_ok t"
    using txnD(2)[OF T] bframeD[OF bf] by (simp add: log_ok_def log_geom_def logged_def pn home_off_log)
  then have "txn t (insert i H)" using P txnD(3)[OF T] bframeD(3)[OF bf] by (simp add: txn_def)
  then show "txn t (insert i H) \<and> i \<notin> H \<and> holds t i n (view s n) \<and> coh t i n
     \<and> view t = view s \<and> pinned t = pinned s \<and> tframe s t \<and> (\<forall>j. j \<noteq> i \<longrightarrow> bufs t ! j = bufs s ! j)"
    using nH hl co vw pn fr tframe_bframe[OF bf] by blast
qed

lemma brelse_txn:
  assumes T: "txn s (insert i H)" and nH: "i \<notin> H" and h: "holds s i n d" and c: "coh s i n"
  shows "runs (brelse i s) (\<lambda>_ t. later H s t \<and> view t = view s \<and> pinned t = pinned s)"
proof (rule runs_mono[OF brelse_blk[OF txnD(1)[OF T] insertI1 h c]], elim conjE)
  fix x t
  assume P: "bproto t (insert i H - {i})" and vw: "view t = view s" and bf: "bframe s t"
    and pn: "pinned t = pinned s" and fr: "\<forall>j. j \<noteq> i \<longrightarrow> bufs t ! j = bufs s ! j"
  have "log_ok t"
    using txnD(2)[OF T] bframeD[OF bf] by (simp add: log_ok_def log_geom_def logged_def pn home_off_log)
  moreover have "insert i H - {i} = H" using nH by (rule Diff_insert_absorb)
  ultimately have "txn t H" using P txnD(3)[OF T] bframeD(3)[OF bf] by (simp add: txn_def)
  moreover have "bufs t ! j = bufs s ! j" if "j \<in> H" for j
    using that nH fr by (cases "j = i") simp_all
  ultimately show "later H s t \<and> view t = view s \<and> pinned t = pinned s"
    using vw pn tframe_bframe[OF bf] unfolding later_def by blast
qed

text \<open>Changing the data of a held buffer and handing it to the log.\<close>

lemma modify_txn:
  assumes T: "txn s (insert i H)" and nH: "i \<notin> H" and h: "holds s i n d" and hm: "home s n"
    and room: "card (pinned s) < LOGSIZE - 1" and d': "length d' = BSIZE"
  shows "runs (log_write i (upd_buf i (\<lambda>b. b\<lparr>b_data := d'\<rparr>) s)) (\<lambda>_ t. runs (brelse i t)
     (\<lambda>_ u. later H s u \<and> view u = (view s)(n := d') \<and> pinned u = insert n (pinned s)))"
proof -
  let ?s = "upd_buf i (\<lambda>b. b\<lparr>b_data := d'\<rparr>) s"
  note P = txnD(1)[OF T] and ok = txnD(2)[OF T]
  note sd = set_data_proto[OF P insertI1 h d'] and pn = set_data_pinned[OF P insertI1 h d']
  have ok': "log_ok ?s" using ok by (simp add: log_ok_def log_geom_def logged_def pn home_off_log)
  have "int (card (pinned s)) < int LOGSIZE - 1" using room by (simp add: param_defs)
  then have lo: "lh_n (lg ?s) < int LOGSIZE - 1" using log_ok_lh_n[OF ok] by simp
  have out: "1 \<le> lg_outstanding (lg ?s)" using txnD(3)[OF T] by simp
  have hm': "home ?s n" using hm by (simp add: home_off_log)
  show ?thesis
  proof (rule runs_mono[OF log_write_spec[OF sd(1) ok' lo out insertI1 sd(2) hm']], elim conjE)
    fix x t
    assume A: "bproto t (insert i H)" "log_ok t" and vw: "view t = view ?s" and ht: "holds t i n d'"
      and co: "coh t i n" and pt: "pinned t = insert n (pinned ?s)"
      and ou: "lg_outstanding (lg t) = lg_outstanding (lg ?s)" and st: "lg_start (lg t) = lg_start (lg ?s)"
      and cm: "lg_committing (lg t) = lg_committing (lg ?s)"
      and fr: "\<forall>j. j \<noteq> i \<longrightarrow> bufs t ! j = bufs ?s ! j" and bf: "bframe (upd_lg (\<lambda>_. lg t) ?s) t"
    have Tt: "txn t (insert i H)" using A out ou by (simp add: txn_def)
    have tf: "tframe s t"
      by (rule tframe_trans[of s ?s]) (use bf ou st cm in \<open>simp_all add: tframe_def\<close>)
    have bs: "bufs t ! j = bufs s ! j" if "j \<in> H" for j
      using that nH fr by (cases "j = i") simp_all
    show "runs (brelse i t) (\<lambda>_ u. later H s u \<and> view u = (view s)(n := d') \<and> pinned u = insert n (pinned s))"
    proof (rule runs_mono[OF brelse_txn[OF Tt nH ht co]], elim conjE)
      fix y u
      assume L: "later H t u" and vu: "view u = view t" and pu: "pinned u = pinned t"
      have "later H s u"
        using laterD[OF L] tframe_trans[OF tf laterD(2)[OF L]] bs by (simp add: later_def)
      then show "later H s u \<and> view u = (view s)(n := d') \<and> pinned u = insert n (pinned s)"
        using vu vw sd(3) pu pt pn by simp
    qed
  qed
qed

text \<open>The two together: \<open>bp = bread(n); bp->data = f(bp->data); log_write(bp); brelse(bp)\<close>.\<close>

definition did_mod :: "nat set \<Rightarrow> kst \<Rightarrow> nat \<Rightarrow> block \<Rightarrow> kst \<Rightarrow> bool" where
  "did_mod H s n d u \<longleftrightarrow> later H s u \<and> view u = (view s)(n := d) \<and> pinned u = insert n (pinned s)"

lemma mod_blk:
  assumes T: "txn s H" and r: "ready s H n" and hm: "home s n" and room: "card (pinned s) < LOGSIZE - 1"
  shows "runs (bread 1 n s) (\<lambda>i t. b_data (bufs t ! i) = view s n \<and> tframe s t
     \<and> runs (brelse i t) (\<lambda>_ u. later H s u \<and> view u = view s \<and> pinned u = pinned s)
     \<and> (\<forall>d. length d = BSIZE \<longrightarrow> runs (log_write i (upd_buf i (\<lambda>b. b\<lparr>b_data := d\<rparr>) t)) (\<lambda>_ u.
          runs (brelse i u) (\<lambda>_. did_mod H s n d))))"
proof (rule runs_mono[OF bread_txn[OF T r]], elim conjE)
  fix i t
  assume Tt: "txn t (insert i H)" and nH: "i \<notin> H" and ht: "holds t i n (view s n)" and co: "coh t i n"
    and vw: "view t = view s" and pn: "pinned t = pinned s" and tf: "tframe s t"
    and fr: "\<forall>j. j \<noteq> i \<longrightarrow> bufs t ! j = bufs s ! j"
  have bs: "bufs t ! j = bufs s ! j" if "j \<in> H" for j using that nH fr by (cases "j = i") simp_all
  have lt: "later H s u" if "later H t u" for u
    using laterD[OF that] tframe_trans[OF tf laterD(2)[OF that]] bs by (simp add: later_def)
  have hm': "home t n" using hm tframe_home[OF tf] by simp
  have room': "card (pinned t) < LOGSIZE - 1" using room pn by simp
  have 1: "runs (brelse i t) (\<lambda>_ u. later H s u \<and> view u = view s \<and> pinned u = pinned s)"
    by (rule runs_mono[OF brelse_txn[OF Tt nH ht co]]) (use lt vw pn in simp)
  have 2: "runs (log_write i (upd_buf i (\<lambda>b. b\<lparr>b_data := d\<rparr>) t)) (\<lambda>_ u. runs (brelse i u) (\<lambda>_. did_mod H s n d))"
    if "length d = BSIZE" for d
    using modify_txn[OF Tt nH ht hm' room' that] by (simp add: did_mod_def vw pn runs_iff) (use lt in blast)
  have 3: "b_data (bufs t ! i) = view s n" using ht by (simp add: holds_def)
  show "b_data (bufs t ! i) = view s n \<and> tframe s t
     \<and> runs (brelse i t) (\<lambda>_ u. later H s u \<and> view u = view s \<and> pinned u = pinned s)
     \<and> (\<forall>d. length d = BSIZE \<longrightarrow> runs (log_write i (upd_buf i (\<lambda>b. b\<lparr>b_data := d\<rparr>) t)) (\<lambda>_ u.
          runs (brelse i u) (\<lambda>_. did_mod H s n d)))"
    using 1 2 3 tf by blast
qed

end
