(* ===== verification/BlockSpec.thy ===== *)
theory BlockSpec
  imports Inode Txn
begin

text \<open>
  The block allocator: \<open>used_blk s b\<close> is the abstract bitmap, as the blocks of the bitmap show it
  through the buffer cache. \<open>balloc\<close> takes the first free block, marks it and zeroes it; \<open>bfree\<close> gives a
  block back.
\<close>

subsection \<open>Bits of a block\<close>

lemma and_push_bit_zero: "k < 8 \<Longrightarrow> and (w :: u8) (push_bit k 1) = 0 \<longleftrightarrow> \<not> bit w k"
  by (subst bit_eq_iff) (auto simp: bit_simps)

lemma bit_free_iff: "bit_free d bi \<longleftrightarrow> \<not> bit (d ! (bi div 8)) (bi mod 8)"
  unfolding bit_free_def bit_mask_def by (rule and_push_bit_zero) simp

definition mark_bit :: "nat \<Rightarrow> block \<Rightarrow> block" where
  "mark_bit bi d = d[bi div 8 := or (d ! (bi div 8)) (bit_mask bi)]"

definition clear_bit :: "nat \<Rightarrow> block \<Rightarrow> block" where
  "clear_bit bi d = d[bi div 8 := and (d ! (bi div 8)) (not (bit_mask bi))]"

lemma length_bits [simp]: "length (mark_bit bi d) = length d" "length (clear_bit bi d) = length d"
  by (simp_all add: mark_bit_def clear_bit_def)

lemma bit_index_eq: "bi div 8 = bj div 8 \<Longrightarrow> bi mod 8 = bj mod 8 \<Longrightarrow> bi = (bj :: nat)"
  by (metis div_mult_mod_eq)

lemma bit_free_mark:
  assumes "length d = BSIZE" "bi < BPB"
  shows "bit_free (mark_bit bi d) bj \<longleftrightarrow> bit_free d bj \<and> bj \<noteq> bi"
proof -
  have l: "bi div 8 < length d" using assms by (simp add: param_defs)
  show ?thesis
  proof (cases "bj div 8 = bi div 8")
    case True
    then show ?thesis using l bit_index_eq[of bj bi]
      by (auto simp: bit_free_iff mark_bit_def bit_mask_def bit_simps)
  next
    case False
    then show ?thesis by (auto simp: bit_free_iff mark_bit_def)
  qed
qed

lemma bit_free_clear:
  assumes "length d = BSIZE" "bi < BPB"
  shows "bit_free (clear_bit bi d) bj \<longleftrightarrow> bit_free d bj \<or> bj = bi"
proof -
  have l: "bi div 8 < length d" using assms by (simp add: param_defs)
  show ?thesis
  proof (cases "bj div 8 = bi div 8")
    case True
    then show ?thesis using l bit_index_eq[of bj bi]
      by (auto simp: bit_free_iff clear_bit_def bit_mask_def bit_simps)
  next
    case False
    then show ?thesis by (auto simp: bit_free_iff clear_bit_def)
  qed
qed

subsection \<open>The layout of the file system\<close>

text \<open>The first block after the bitmap; blocks from there on hold data and indirect blocks.\<close>

definition data_start :: "kst \<Rightarrow> nat" where
  "data_start s = sb_bmapstart (sb s) + sb_size (sb s) div BPB + 1"

definition fs_geom :: "kst \<Rightarrow> bool" where
  "fs_geom s \<longleftrightarrow> lg_start (lg s) + LOGSIZE \<le> sb_inodestart (sb s)
     \<and> sb_inodestart (sb s) + sb_ninodes (sb s) div IPB + 1 \<le> sb_bmapstart (sb s)
     \<and> data_start s \<le> sb_size (sb s) \<and> sb_size (sb s) \<le> disksize s"

definition used_blk :: "kst \<Rightarrow> nat \<Rightarrow> bool" where
  "used_blk s b \<longleftrightarrow> \<not> bit_free (view s (BBLOCK b s)) (b mod BPB)"

text \<open>The blocks up to the bitmap are marked as used, as mkfs leaves them.\<close>

definition fs_ok :: "kst \<Rightarrow> bool" where
  "fs_ok s \<longleftrightarrow> fs_geom s \<and> (\<forall>b < data_start s. used_blk s b)"

definition is_data :: "kst \<Rightarrow> nat \<Rightarrow> bool" where
  "is_data s b \<longleftrightarrow> data_start s \<le> b \<and> b < sb_size (sb s) \<and> used_blk s b"

text \<open>
  The buffers \<open>H\<close> the caller holds are of used data blocks, and \<open>k\<close> more blocks fit into the log.
\<close>

definition fits :: "kst \<Rightarrow> nat set \<Rightarrow> nat \<Rightarrow> bool" where
  "fits s H k \<longleftrightarrow> card H + card (pinned s) + k \<le> LOGSIZE - 1
     \<and> (\<forall>i \<in> H. is_data s (b_blockno (bufs s ! i)))"

lemma fs_geomD:
  assumes "fs_geom s" "log_ok s"
  shows "sb_size (sb s) < 2 ^ 31" "sb_size (sb s) \<le> disksize s" "1 < lg_start (lg s)"
    "lg_start (lg s) + LOGSIZE \<le> sb_inodestart (sb s)"
    "sb_inodestart (sb s) + sb_ninodes (sb s) div IPB + 1 \<le> sb_bmapstart (sb s)"
    "data_start s \<le> sb_size (sb s)"
  using assms log_okD(1)[OF assms(2)] by (auto simp: fs_geom_def log_geom_def)

lemma home_fs:
  assumes "fs_geom s" "log_ok s" "sb_inodestart (sb s) \<le> n" "n < sb_size (sb s)"
  shows "home s n"
  using fs_geomD[OF assms(1,2)] assms(3,4) by (simp add: home_def log_area_def)

lemma BBLOCK_eq:
  assumes "fs_geom s" "log_ok s" "b < sb_size (sb s)"
  shows "BBLOCK b s = sb_bmapstart (sb s) + b div BPB" "sb_bmapstart (sb s) \<le> BBLOCK b s"
    "BBLOCK b s < data_start s" "BBLOCK b s < sb_size (sb s)" "sb_inodestart (sb s) \<le> BBLOCK b s"
proof -
  note D = fs_geomD[OF assms(1,2)]
  have m: "b div BPB \<le> sb_size (sb s) div BPB" using assms(3) by (intro div_le_mono) simp
  have "sb_bmapstart (sb s) + b div BPB < data_start s" using m by (simp add: data_start_def)
  moreover from this have "sb_bmapstart (sb s) + b div BPB < 2 ^ 32" using D(1,6) by simp
  ultimately show e: "BBLOCK b s = sb_bmapstart (sb s) + b div BPB" and "BBLOCK b s < data_start s"
    by (simp_all add: BBLOCK_def uadd_small add.commute)
  then show "sb_bmapstart (sb s) \<le> BBLOCK b s" "BBLOCK b s < sb_size (sb s)" "sb_inodestart (sb s) \<le> BBLOCK b s"
    using D(5,6) by simp_all
qed

lemma IBLOCK_eq:
  assumes "fs_geom s" "log_ok s" "i < sb_ninodes (sb s)"
  shows "IBLOCK i s = sb_inodestart (sb s) + i div IPB" "IBLOCK i s < sb_bmapstart (sb s)"
    "sb_inodestart (sb s) \<le> IBLOCK i s" "IBLOCK i s < sb_size (sb s)" "IBLOCK i s < data_start s"
proof -
  note D = fs_geomD[OF assms(1,2)]
  have m: "i div IPB \<le> sb_ninodes (sb s) div IPB" using assms(3) by (intro div_le_mono) simp
  then have l: "sb_inodestart (sb s) + i div IPB < sb_bmapstart (sb s)" using D(5) by linarith
  have "sb_bmapstart (sb s) < data_start s" by (simp add: data_start_def)
  moreover from this l have "sb_inodestart (sb s) + i div IPB < 2 ^ 32" using D(1,6) by simp
  ultimately show e: "IBLOCK i s = sb_inodestart (sb s) + i div IPB" "IBLOCK i s < sb_bmapstart (sb s)"
    "sb_inodestart (sb s) \<le> IBLOCK i s" "IBLOCK i s < sb_size (sb s)" "IBLOCK i s < data_start s"
    using l D(6) by (simp_all add: IBLOCK_def uadd_small add.commute)
qed

text \<open>What the geometry predicates depend on.\<close>

lemma tframe_geom:
  assumes "tframe s t"
  shows "fs_geom t = fs_geom s" "data_start t = data_start s" "BBLOCK b t = BBLOCK b s"
    "IBLOCK i t = IBLOCK i s"
  using tframeD[OF assms] by (simp_all add: fs_geom_def data_start_def BBLOCK_def IBLOCK_def)

lemma length_view:
  assumes "bc_inv s" "n < disksize s"
  shows "length (view s n) = BSIZE"
proof (cases "\<exists>i. cached s i n")
  case True
  then obtain i where i: "cached s i n" by blast
  show ?thesis
    using view_cached[OF assms(1) i] bc_inv_buf[OF assms(1), of i] i assms
    by (auto simp: buf_ok_def cached_def bc_inv_def)
next
  case False
  then show ?thesis using view_uncached[of s n] assms by (simp add: bc_inv_def)
qed

lemma ready_fits:
  assumes "fits s H k" "n < disksize s" "\<And>i. i \<in> H \<Longrightarrow> b_blockno (bufs s ! i) \<noteq> n"
  shows "ready s H n"
proof -
  have "card H + card (pinned s) < NBUF" using assms(1) by (simp add: fits_def param_defs)
  moreover have "\<not> cached s i n" if "i \<in> H" for i using assms(3)[OF that] by (simp add: cached_def)
  ultimately show ?thesis using assms(2) by (simp add: ready_def)
qed

lemma fits_room: "fits s H k \<Longrightarrow> 0 < k \<Longrightarrow> card (pinned s) < LOGSIZE - 1"
  by (simp add: fits_def)

text \<open>A step that leaves the view alone.\<close>

definition same_view :: "nat set \<Rightarrow> kst \<Rightarrow> kst \<Rightarrow> bool" where
  "same_view H s t \<longleftrightarrow> later H s t \<and> view t = view s \<and> pinned t = pinned s"

lemma same_viewD:
  assumes "same_view H s t"
  shows "later H s t" "view t = view s" "pinned t = pinned s" "txn t H" "tframe s t"
    "used_blk t = used_blk s" "is_data t = is_data s" "fs_ok t = fs_ok s" "fits t H k = fits s H k"
proof -
  show l: "later H s t" and v: "view t = view s" and p: "pinned t = pinned s"
    using assms by (simp_all add: same_view_def)
  show "txn t H" and f: "tframe s t" using laterD[OF l] by simp_all
  show u: "used_blk t = used_blk s" by (intro ext) (simp add: used_blk_def v tframe_geom[OF f])
  show d: "is_data t = is_data s" by (intro ext) (simp add: is_data_def u tframe_geom[OF f] tframeD[OF f])
  show "fs_ok t = fs_ok s" by (simp add: fs_ok_def u tframe_geom[OF f])
  show "fits t H k = fits s H k" using laterD(3)[OF l] by (simp add: fits_def p d)
qed

lemma same_view_trans: "same_view H s t \<Longrightarrow> same_view H t u \<Longrightarrow> same_view H s u"
  using later_trans[of H s t u] by (simp add: same_view_def)

lemma same_view_refl: "txn s H \<Longrightarrow> same_view H s s"
  by (simp add: same_view_def later_refl)

lemma set_data_eq: "set_data b f s = upd_buf b (\<lambda>x. x\<lparr>b_data := f (b_data (bufs s ! b))\<rparr>) s"
  by (simp add: set_data_def upd_buf_def)

subsection \<open>The effect of an allocation\<close>

definition did_alloc :: "nat set \<Rightarrow> kst \<Rightarrow> nat \<Rightarrow> kst \<Rightarrow> bool" where
  "did_alloc H s b t \<longleftrightarrow> later H s t \<and> pinned t = insert b (insert (BBLOCK b s) (pinned s))
     \<and> view t = (view s)(BBLOCK b s := mark_bit (b mod BPB) (view s (BBLOCK b s)), b := replicate BSIZE 0)"

text \<open>Block \<open>b\<close> is one \<open>balloc\<close> may take.\<close>

definition free_data :: "kst \<Rightarrow> nat \<Rightarrow> bool" where
  "free_data s b \<longleftrightarrow> b < sb_size (sb s) \<and> \<not> used_blk s b"

lemma free_data_start: "fs_ok s \<Longrightarrow> free_data s b \<Longrightarrow> data_start s \<le> b"
  by (rule ccontr) (auto simp: fs_ok_def free_data_def not_le)

lemma BBLOCK_mod: "BBLOCK b s = BBLOCK b' s \<Longrightarrow> fs_geom s \<Longrightarrow> log_ok s \<Longrightarrow> b < sb_size (sb s)
  \<Longrightarrow> b' < sb_size (sb s) \<Longrightarrow> b mod BPB = b' mod BPB \<Longrightarrow> b = b'"
  by (simp add: BBLOCK_eq) (metis div_mult_mod_eq)

lemma used_after_mark:
  assumes "fs_ok s" "log_ok s" "bc_inv s" "b < sb_size (sb s)" "m < sb_size (sb s)"
    "view t (BBLOCK m s) = ((view s)(BBLOCK b s := mark_bit (b mod BPB) (view s (BBLOCK b s)))) (BBLOCK m s)"
    "sb t = sb s"
  shows "used_blk t m \<longleftrightarrow> used_blk s m \<or> m = b"
proof -
  have g: "fs_geom s" using assms(1) by (simp add: fs_ok_def)
  have l: "length (view s (BBLOCK b s)) = BSIZE"
    using BBLOCK_eq(4)[OF g assms(2,4)] fs_geomD(2)[OF g assms(2)] by (intro length_view assms(3)) simp
  have B: "BBLOCK m t = BBLOCK m s" by (simp add: BBLOCK_def assms(7))
  have md: "b mod BPB < BPB" by (simp add: param_defs)
  show ?thesis
  proof (cases "BBLOCK m s = BBLOCK b s")
    case True
    then show ?thesis
      using assms(6) bit_free_mark[OF l md] BBLOCK_mod[OF True g assms(2,5,4)]
      by (auto simp: used_blk_def B)
  next
    case False
    then show ?thesis using assms(6) by (auto simp: used_blk_def B)
  qed
qed

lemma used_after_clear:
  assumes "fs_ok s" "log_ok s" "bc_inv s" "b < sb_size (sb s)" "m < sb_size (sb s)"
    "view t (BBLOCK m s) = ((view s)(BBLOCK b s := clear_bit (b mod BPB) (view s (BBLOCK b s)))) (BBLOCK m s)"
    "sb t = sb s"
  shows "used_blk t m \<longleftrightarrow> used_blk s m \<and> m \<noteq> b"
proof -
  have g: "fs_geom s" using assms(1) by (simp add: fs_ok_def)
  have l: "length (view s (BBLOCK b s)) = BSIZE"
    using BBLOCK_eq(4)[OF g assms(2,4)] fs_geomD(2)[OF g assms(2)] by (intro length_view assms(3)) simp
  have B: "BBLOCK m t = BBLOCK m s" by (simp add: BBLOCK_def assms(7))
  have md: "b mod BPB < BPB" by (simp add: param_defs)
  show ?thesis
  proof (cases "BBLOCK m s = BBLOCK b s")
    case True
    then show ?thesis
      using assms(6) bit_free_clear[OF l md] BBLOCK_mod[OF True g assms(2,5,4)]
      by (auto simp: used_blk_def B)
  next
    case False
    then show ?thesis using assms(6) by (auto simp: used_blk_def B)
  qed
qed

lemma alloc_effect:
  assumes A: "did_alloc H s b t" and T: "txn s H" and F: "fs_ok s" and b: "free_data s b"
    and f: "fits s H (k + 2)"
  shows "fs_ok t" "fits t H k" "\<And>m. is_data t m \<longleftrightarrow> is_data s m \<or> m = b"
    "view t b = replicate BSIZE 0" "\<And>m. data_start s \<le> m \<Longrightarrow> m \<noteq> b \<Longrightarrow> view t m = view s m"
    "\<And>m. m < sb_bmapstart (sb s) \<Longrightarrow> view t m = view s m"
    "\<And>m. m < sb_size (sb s) \<Longrightarrow> used_blk t m \<longleftrightarrow> used_blk s m \<or> m = b"
proof -
  have L: "later H s t" and pn: "pinned t = insert b (insert (BBLOCK b s) (pinned s))"
    and vw: "view t = (view s)(BBLOCK b s := mark_bit (b mod BPB) (view s (BBLOCK b s)), b := replicate BSIZE 0)"
    using A by (simp_all add: did_alloc_def)
  note tf = laterD(2)[OF L]
  have g: "fs_geom s" using F by (simp add: fs_ok_def)
  have bs: "b < sb_size (sb s)" using b by (simp add: free_data_def)
  have bd: "data_start s \<le> b" by (rule free_data_start[OF F b])
  note B = BBLOCK_eq[OF g txnD(2)[OF T]]
  have ne: "BBLOCK m s \<noteq> b" if "m < sb_size (sb s)" for m using B(3)[OF that] bd by simp
  show u: "used_blk t m \<longleftrightarrow> used_blk s m \<or> m = b" if m: "m < sb_size (sb s)" for m
    by (rule used_after_mark[OF F txnD(2,5)[OF T] bs m]) (use ne[OF m] vw tframeD(3)[OF tf] in auto)
  show "view t b = replicate BSIZE 0" by (simp add: vw)
  show "view t m = view s m" if "data_start s \<le> m" "m \<noteq> b" for m
    using that B(3)[OF bs] by (auto simp: vw)
  have "sb_bmapstart (sb s) \<le> data_start s" by (simp add: data_start_def)
  then show "view t m = view s m" if "m < sb_bmapstart (sb s)" for m
    using that B(2)[OF bs] bd by (auto simp: vw)
  have ds: "m < data_start s \<Longrightarrow> m < sb_size (sb s)" for m using fs_geomD(6)[OF g txnD(2)[OF T]] by simp
  show fo: "fs_ok t" using F u ds by (simp add: fs_ok_def tframe_geom[OF tf])
  show d: "is_data t m \<longleftrightarrow> is_data s m \<or> m = b" for m
    using u[of m] bs bd by (auto simp: is_data_def tframe_geom[OF tf] tframeD[OF tf])
  have "card (pinned t) \<le> card (pinned s) + 2"
    unfolding pn by (simp add: card_insert_if finite_pinned[OF txnD(5)[OF T]])
  then show "fits t H k" using f laterD(3)[OF L] by (auto simp: fits_def d)
qed

subsection \<open>\<open>balloc\<close> and \<open>bfree\<close>\<close>

text \<open>The shape of every change: read block \<open>n\<close>, apply \<open>f\<close> to its data, log it, release it.\<close>

lemma modify_blk:
  assumes T: "txn s H" and r: "ready s H n" and hm: "home s n" and room: "card (pinned s) < LOGSIZE - 1"
    and len: "length (f (view s n)) = BSIZE"
  shows "runs (bread 1 n s) (\<lambda>i t. b_data (bufs t ! i) = view s n \<and> tframe s t
     \<and> runs (brelse i t) (\<lambda>_. same_view H s)
     \<and> runs (log_write i (set_data i f t)) (\<lambda>_ u. runs (brelse i u) (\<lambda>_. did_mod H s n (f (view s n)))))"
proof (rule runs_mono[OF mod_blk[OF T r hm room]], elim conjE)
  fix i t
  assume d: "b_data (bufs t ! i) = view s n" and tf: "tframe s t"
    and rel: "runs (brelse i t) (\<lambda>_ u. later H s u \<and> view u = view s \<and> pinned u = pinned s)"
    and lw: "\<forall>d. length d = BSIZE \<longrightarrow> runs (log_write i (upd_buf i (\<lambda>b. b\<lparr>b_data := d\<rparr>) t)) (\<lambda>_ u.
          runs (brelse i u) (\<lambda>_. did_mod H s n d))"
  show "b_data (bufs t ! i) = view s n \<and> tframe s t \<and> runs (brelse i t) (\<lambda>_. same_view H s)
     \<and> runs (log_write i (set_data i f t)) (\<lambda>_ u. runs (brelse i u) (\<lambda>_. did_mod H s n (f (view s n))))"
    unfolding set_data_eq d using d tf rel lw[rule_format, OF len] by (simp add: same_view_def[abs_def])
qed

lemma bzero_spec:
  assumes T: "txn s H" and r: "ready s H n" and hm: "home s n" and room: "card (pinned s) < LOGSIZE - 1"
  shows "runs (bzero 1 n s) (\<lambda>_. did_mod H s n (replicate BSIZE 0))"
  unfolding bzero_def runs_kbind
  by (rule runs_mono[OF modify_blk[OF T r hm room, where f = "\<lambda>_. replicate BSIZE 0"]]) simp_all

lemma find_upt_Some:
  "List.find P [0..<n] = Some k \<longleftrightarrow> k < n \<and> P k \<and> (\<forall>j < k. \<not> P j)"
  by (auto simp: find_Some_iff)

lemma find_upt_None: "List.find P [0..<n] = None \<longleftrightarrow> (\<forall>k < n. \<not> P k)"
  by (auto simp: find_None_iff)

text \<open>One block of the bitmap: the bits of blocks \<open>k * BPB\<close> to \<open>(k + 1) * BPB - 1\<close>.\<close>

definition in_chunk :: "nat \<Rightarrow> kst \<Rightarrow> nat \<Rightarrow> bool" where
  "in_chunk k s b \<longleftrightarrow> k * BPB \<le> b \<and> b < k * BPB + BPB \<and> b < sb_size (sb s)"

lemma in_chunk_div: "in_chunk k s b \<Longrightarrow> b div BPB = k \<and> b mod BPB = b - k * BPB"
proof -
  assume a: "in_chunk k s b"
  define r where "r = b - k * BPB"
  have b: "b = r + k * BPB" "r < BPB" using a by (auto simp: in_chunk_def r_def)
  then show ?thesis unfolding r_def[symmetric] by simp
qed

lemma balloc_in_spec:
  assumes T: "txn s H" and F: "fs_ok s" and f: "fits s H 2" and k: "k * BPB < sb_size (sb s)"
  shows "runs (balloc_in 1 (k * BPB) s) (\<lambda>r t. case r of
       None \<Rightarrow> same_view H s t \<and> (\<forall>b. in_chunk k s b \<longrightarrow> used_blk s b)
     | Some b \<Rightarrow> in_chunk k s b \<and> \<not> used_blk s b \<and> (\<forall>b'. in_chunk k s b' \<longrightarrow> b' < b \<longrightarrow> used_blk s b')
         \<and> did_alloc H s b t)"
proof -
  let ?B = "BBLOCK (k * BPB) s"
  let ?n = "min BPB (sb_size (sb s) - k * BPB)"
  have g: "fs_geom s" using F by (simp add: fs_ok_def)
  note B = BBLOCK_eq[OF g txnD(2)[OF T]]
  have dsz: "sb_size (sb s) \<le> disksize s" using fs_geomD(2)[OF g txnD(2)[OF T]] .
  have Bh: "home s ?B" "?B < disksize s"
    using home_fs[OF g txnD(2)[OF T] B(5,4)[OF k]] B(4)[OF k] dsz by simp_all
  have len: "length (view s ?B) = BSIZE" by (rule length_view[OF txnD(5)[OF T] Bh(2)])
  have held: "b_blockno (bufs s ! i) \<noteq> ?B" if "i \<in> H" for i
    using f that B(3)[OF k] by (auto simp: fits_def is_data_def)
  have same: "BBLOCK b s = ?B" if "in_chunk k s b" for b
    using in_chunk_div[OF that] by (simp add: BBLOCK_def param_defs)
  have bit: "bit_free (view s ?B) j \<longleftrightarrow> \<not> used_blk s (k * BPB + j)" "in_chunk k s (k * BPB + j)"
    if "j < ?n" for j
  proof -
    show c: "in_chunk k s (k * BPB + j)" using that by (auto simp: in_chunk_def)
    show "bit_free (view s ?B) j \<longleftrightarrow> \<not> used_blk s (k * BPB + j)"
      using same[OF c] in_chunk_div[OF c] by (simp add: used_blk_def)
  qed
  have ex: "\<exists>j < ?n. b = k * BPB + j" if "in_chunk k s b" for b
    using that by (intro exI[of _ "b - k * BPB"]) (auto simp: in_chunk_def)
  let ?find = "List.find (bit_free (view s ?B)) [0..<?n]"
  let ?f = "\<lambda>bi. mark_bit bi"
  have rd: "ready s H ?B" by (rule ready_fits[OF f Bh(2) held])
  have rm: "card (pinned s) < LOGSIZE - 1" by (rule fits_room[OF f]) simp
  note M = modify_blk[OF T rd Bh(1) rm]
  show ?thesis
  proof (cases ?find)
    case None
    then have us: "\<forall>b. in_chunk k s b \<longrightarrow> used_blk s b"
      using bit ex unfolding find_upt_None by blast
    show ?thesis
      unfolding balloc_in_def runs_kbind
    proof (rule runs_mono[OF M[of id, unfolded id_apply, OF len]], elim conjE)
      fix i t
      assume d: "b_data (bufs t ! i) = view s ?B" and tf: "tframe s t"
        and rel: "runs (brelse i t) (\<lambda>_. same_view H s)"
      show "runs (case List.find (bit_free (b_data (bufs t ! i))) [0..<min BPB (sb_size (sb t) - k * BPB)] of
          None \<Rightarrow> kbind (brelse i t) (\<lambda>_ s. Ok None s)
        | Some bi \<Rightarrow> kbind (log_write i (set_data i (\<lambda>d. d[bi div 8 := or (d ! (bi div 8)) (bit_mask bi)]) t)) (\<lambda>_ s.
            kbind (brelse i s) (\<lambda>_ s. kbind (bzero 1 (k * BPB + bi) s) (\<lambda>_ s. Ok (Some (k * BPB + bi)) s))))
        (\<lambda>r t. case r of None \<Rightarrow> same_view H s t \<and> (\<forall>b. in_chunk k s b \<longrightarrow> used_blk s b)
          | Some b \<Rightarrow> in_chunk k s b \<and> \<not> used_blk s b \<and> (\<forall>b'. in_chunk k s b' \<longrightarrow> b' < b \<longrightarrow> used_blk s b')
             \<and> did_alloc H s b t)"
        unfolding d tframeD(3)[OF tf] None using us by (simp add: runs_mono[OF rel])
    qed
  next
    case (Some bi)
    let ?b = "k * BPB + bi"
    have bi: "bi < ?n" "bit_free (view s ?B) bi" "\<forall>j < bi. \<not> bit_free (view s ?B) j"
      using Some unfolding find_upt_Some by simp_all
    have c: "in_chunk k s ?b" and nu: "\<not> used_blk s ?b" using bit[OF bi(1)] bi(2) by simp_all
    have fst: "\<forall>b'. in_chunk k s b' \<longrightarrow> b' < ?b \<longrightarrow> used_blk s b'"
    proof (intro allI impI)
      fix b' assume b': "in_chunk k s b'" "b' < ?b"
      then obtain j where j: "j < ?n" "b' = k * BPB + j" using ex by blast
      then show "used_blk s b'" using b' bit(1)[OF j(1)] bi(3) by auto
    qed
    have bsz: "?b < sb_size (sb s)" using c by (simp add: in_chunk_def)
    have bd: "data_start s \<le> ?b" by (rule free_data_start[OF F]) (use nu bsz in \<open>simp add: free_data_def\<close>)
    have Bb: "BBLOCK ?b s = ?B" "bi mod BPB = bi" using same[OF c] bi(1) by simp_all
    have ml: "length (mark_bit bi (view s ?B)) = BSIZE" by (simp add: len)
    have zero: "runs (bzero 1 ?b v) (\<lambda>_ t. did_alloc H s ?b t)" if v: "did_mod H s ?B (mark_bit bi (view s ?B)) v" for v
    proof -
      have L: "later H s v" and vv: "view v = (view s)(?B := mark_bit bi (view s ?B))"
        and pv: "pinned v = insert ?B (pinned s)" using v by (simp_all add: did_mod_def)
      note Tv = laterD(1)[OF L] and tf = laterD(2)[OF L]
      have cp: "card (pinned v) \<le> card (pinned s) + 1"
        by (simp add: pv card_insert_if finite_pinned[OF txnD(5)[OF T]])
      have nb: "b_blockno (bufs v ! i) \<noteq> ?b" if "i \<in> H" for i
        using f nu laterD(3)[OF L that] that by (auto simp: fits_def is_data_def)
      have "card H + card (pinned v) < NBUF" using f cp by (simp add: fits_def param_defs)
      then have rd: "ready v H ?b"
        using nb bsz dsz tframeD(2)[OF tf] by (auto simp: ready_def cached_def)
      have hm: "home v ?b"
        using home_fs[OF g txnD(2)[OF T] _ bsz] bd B(3)[OF bsz] B(5)[OF bsz] by (simp add: tframe_home[OF tf])
      have rm: "card (pinned v) < LOGSIZE - 1" using f cp by (simp add: fits_def)
      show ?thesis
      proof (rule runs_mono[OF bzero_spec[OF Tv rd hm rm]])
        fix x t
        assume t: "did_mod H v ?b (replicate BSIZE 0) t"
        then have L2: "later H v t" by (simp add: did_mod_def)
        show "did_alloc H s ?b t"
          using t later_trans[OF L L2] by (simp add: did_alloc_def did_mod_def vv pv Bb)
      qed
    qed
    show ?thesis
      unfolding balloc_in_def runs_kbind
    proof (rule runs_mono[OF M[of "mark_bit bi", OF ml]], elim conjE)
      fix i t
      assume d: "b_data (bufs t ! i) = view s ?B" and tf: "tframe s t"
        and lw: "runs (log_write i (set_data i (mark_bit bi) t)) (\<lambda>_ u.
          runs (brelse i u) (\<lambda>_. did_mod H s ?B (mark_bit bi (view s ?B))))"
      show "runs (case List.find (bit_free (b_data (bufs t ! i))) [0..<min BPB (sb_size (sb t) - k * BPB)] of
          None \<Rightarrow> kbind (brelse i t) (\<lambda>_ s. Ok None s)
        | Some bi \<Rightarrow> kbind (log_write i (set_data i (\<lambda>d. d[bi div 8 := or (d ! (bi div 8)) (bit_mask bi)]) t)) (\<lambda>_ s.
            kbind (brelse i s) (\<lambda>_ s. kbind (bzero 1 (k * BPB + bi) s) (\<lambda>_ s. Ok (Some (k * BPB + bi)) s))))
        (\<lambda>r t. case r of None \<Rightarrow> same_view H s t \<and> (\<forall>b. in_chunk k s b \<longrightarrow> used_blk s b)
          | Some b \<Rightarrow> in_chunk k s b \<and> \<not> used_blk s b \<and> (\<forall>b'. in_chunk k s b' \<longrightarrow> b' < b \<longrightarrow> used_blk s b')
             \<and> did_alloc H s b t)"
        unfolding d tframeD(3)[OF tf] Some option.case runs_kbind mark_bit_def[symmetric]
        by (rule runs_mono[OF lw], erule runs_mono, rule runs_mono[OF zero], assumption)
          (use c nu fst in simp)
    qed
  qed
qed

text \<open>\<open>balloc\<close> takes the first free block, or panics when there is none.\<close>

lemma balloc_scan:
  assumes T: "txn s H" and F: "fs_ok s" and f: "fits s H 2"
  shows "runs (kfind (map (\<lambda>k. k * BPB) [0..<(sb_size (sb s) + BPB - 1) div BPB]) (balloc_in 1) s) (\<lambda>r t. case r of
       None \<Rightarrow> \<forall>b. \<not> free_data s b
     | Some b \<Rightarrow> free_data s b \<and> (\<forall>b' < b. \<not> free_data s b') \<and> did_alloc H s b t)"
proof -
  let ?N = "(sb_size (sb s) + BPB - 1) div BPB"
  let ?I = "\<lambda>k t. same_view H s t \<and> (\<forall>b < k * BPB. \<not> free_data s b)"
  let ?Q = "\<lambda>r t. case r of None \<Rightarrow> \<forall>b. \<not> free_data s b
     | Some b \<Rightarrow> free_data s b \<and> (\<forall>b' < b. \<not> free_data s b') \<and> did_alloc H s b t"
  have pos: "0 < BPB" by (simp add: param_defs)
  have none: "\<forall>b. \<not> free_data s b" if "?I ?N t" for t
  proof (intro allI notI)
    fix b assume "free_data s b"
    then have "b < sb_size (sb s)" by (simp add: free_data_def)
    also have "sb_size (sb s) \<le> ?N * BPB"
      using dividend_less_div_times[OF pos, of "sb_size (sb s) + BPB - 1"] pos by linarith
    finally show False using that \<open>free_data s b\<close> by simp
  qed
  have step: "runs (balloc_in 1 (k * BPB) t) (\<lambda>r u. case r of None \<Rightarrow> ?I (Suc k) u
      | Some b \<Rightarrow> ?Q (Some b) u)"
    if k: "k < ?N" and I: "?I k t" for k t
  proof -
    note sv = same_viewD[OF conjunct1[OF I]]
    have sz: "sb_size (sb t) = sb_size (sb s)" using tframeD(3)[OF sv(5)] by simp
    have "k * BPB < sb_size (sb s)"
    proof (rule ccontr)
      assume "\<not> k * BPB < sb_size (sb s)"
      then have "sb_size (sb s) + BPB - 1 < (k + 1) * BPB" using pos by (simp add: One_nat_def)
      then have "?N < k + 1" using pos by (metis div_less_iff_less_mult)
      then show False using k by simp
    qed
    then have kb: "k * BPB < sb_size (sb t)" by (simp add: sz)
    have ic: "in_chunk k t b = in_chunk k s b" for b by (simp add: in_chunk_def sz)
    have low: "\<not> free_data s b" if "b < k * BPB" for b using I that by blast
    show ?thesis
    proof (rule runs_mono[OF balloc_in_spec[OF sv(4) _ _ kb]])
      show "fs_ok t" "fits t H 2" using F f sv by simp_all
    next
      fix r u
      assume A: "case r of None \<Rightarrow> same_view H t u \<and> (\<forall>b. in_chunk k t b \<longrightarrow> used_blk t b)
       | Some b \<Rightarrow> in_chunk k t b \<and> \<not> used_blk t b \<and> (\<forall>b'. in_chunk k t b' \<longrightarrow> b' < b \<longrightarrow> used_blk t b')
         \<and> did_alloc H t b u"
      show "case r of None \<Rightarrow> ?I (Suc k) u | Some b \<Rightarrow> ?Q (Some b) u"
      proof (cases r)
        case None
        have "\<not> free_data s b" if "b < Suc k * BPB" for b
        proof (cases "b < k * BPB")
          case False
          then show ?thesis using A None that unfolding ic sv(6) by (auto simp: in_chunk_def free_data_def)
        qed (rule low)
        then show ?thesis using A None same_view_trans[OF conjunct1[OF I]] by simp
      next
        case (Some b)
        have b: "in_chunk k s b" "\<not> used_blk s b" and al: "did_alloc H t b u"
          using A Some unfolding ic sv(6) by simp_all
        have "\<not> free_data s b'" if "b' < b" for b'
        proof (cases "b' < k * BPB")
          case False
          then show ?thesis using A Some b(1) that unfolding ic sv(6) by (auto simp: in_chunk_def free_data_def)
        qed (rule low)
        moreover have "did_alloc H s b u"
          using al later_trans[OF sv(1)] sv(2,3) by (simp add: did_alloc_def tframe_geom[OF sv(5)])
        ultimately show ?thesis using b Some by (auto simp: free_data_def in_chunk_def)
      qed
    qed
  qed
  show ?thesis
  proof (rule kfind_runs[where I = ?I])
    show "?I 0 s" using T by (simp add: same_view_refl)
  next
    fix t assume "?I (length (map (\<lambda>k. k * BPB) [0..<?N])) t"
    then have "?I ?N t" by simp
    then show "?Q None t" unfolding option.case by (rule none)
  next
    fix k t assume k: "k < length (map (\<lambda>k. k * BPB) [0..<?N])" and I: "?I k t"
    have k': "k < ?N" and e: "map (\<lambda>k. k * BPB) [0..<?N] ! k = k * BPB" using k by simp_all
    show "runs (balloc_in 1 (map (\<lambda>k. k * BPB) [0..<?N] ! k) t) (\<lambda>r u. case r of None \<Rightarrow> ?I (Suc k) u | Some b \<Rightarrow> ?Q (Some b) u)"
      unfolding e by (rule step[OF k' I])
  qed
qed

lemma balloc_spec:
  assumes T: "txn s H" and F: "fs_ok s" and f: "fits s H 2" and b: "free_data s b"
  shows "runs (balloc 1 s) (\<lambda>b t. free_data s b \<and> (\<forall>b' < b. \<not> free_data s b') \<and> did_alloc H s b t)"
  unfolding balloc_def runs_kbind
  by (rule runs_mono[OF balloc_scan[OF T F f]]) (use b in \<open>auto split: option.splits\<close>)

lemma balloc_full:
  assumes T: "txn s H" and F: "fs_ok s" and f: "fits s H 2" and b: "\<forall>b. \<not> free_data s b"
  shows "balloc 1 s = Panic ''balloc: out of blocks''"
proof (rule runsE[OF balloc_scan[OF T F f]])
  fix r t
  assume "kfind (map (\<lambda>k. k * BPB) [0..<(sb_size (sb s) + BPB - 1) div BPB]) (balloc_in 1) s = Ok r t"
    and "case r of None \<Rightarrow> \<forall>b. \<not> free_data s b
       | Some b \<Rightarrow> free_data s b \<and> (\<forall>b' < b. \<not> free_data s b') \<and> did_alloc H s b t"
  then show ?thesis using b by (cases r) (simp_all add: balloc_def)
qed

definition did_free :: "nat set \<Rightarrow> kst \<Rightarrow> nat \<Rightarrow> kst \<Rightarrow> bool" where
  "did_free H s b t \<longleftrightarrow> did_mod H s (BBLOCK b s) (clear_bit (b mod BPB) (view s (BBLOCK b s))) t"

lemma bfree_spec:
  assumes T: "txn s H" and F: "fs_ok s" and f: "fits s H 1" and b: "b < sb_size (sb s)"
  shows "if used_blk s b then runs (bfree 1 b s) (\<lambda>_. did_free H s b)
    else bfree 1 b s = Panic ''freeing free block''"
proof -
  let ?B = "BBLOCK b s"
  have g: "fs_geom s" using F by (simp add: fs_ok_def)
  note B = BBLOCK_eq[OF g txnD(2)[OF T] b]
  have Bh: "home s ?B" "?B < disksize s"
    using home_fs[OF g txnD(2)[OF T] B(5,4)] B(4) fs_geomD(2)[OF g txnD(2)[OF T]] by simp_all
  have held: "b_blockno (bufs s ! i) \<noteq> ?B" if "i \<in> H" for i
    using f that B(3) by (auto simp: fits_def is_data_def)
  have rd: "ready s H ?B" by (rule ready_fits[OF f Bh(2) held])
  have rm: "card (pinned s) < LOGSIZE - 1" by (rule fits_room[OF f]) simp
  have len: "length (clear_bit (b mod BPB) (view s ?B)) = BSIZE"
    using length_view[OF txnD(5)[OF T] Bh(2)] by simp
  note M = modify_blk[OF T rd Bh(1) rm, of "clear_bit (b mod BPB)", OF len]
  show ?thesis
  proof (cases "used_blk s b")
    case True
    have "runs (bfree 1 b s) (\<lambda>_. did_free H s b)"
      unfolding bfree_def runs_kbind Let_def clear_bit_def[symmetric]
      by (rule runs_mono[OF M]) (use True in \<open>auto simp: used_blk_def did_free_def[abs_def]\<close>)
    then show ?thesis using True by simp
  next
    case False
    from M obtain i t where "bread 1 ?B s = Ok i t" "b_data (bufs t ! i) = view s ?B"
      by (auto simp: runs_iff)
    then show ?thesis using False by (simp add: bfree_def used_blk_def)
  qed
qed

lemma free_effect:
  assumes A: "did_free H s b t" and T: "txn s H" and F: "fs_ok s" and b: "b < sb_size (sb s)" "data_start s \<le> b"
    and nh: "\<And>i. i \<in> H \<Longrightarrow> b_blockno (bufs s ! i) \<noteq> b"
  shows "fs_ok t" "\<And>m. is_data t m \<longleftrightarrow> is_data s m \<and> m \<noteq> b"
    "\<And>m. data_start s \<le> m \<Longrightarrow> view t m = view s m"
    "\<And>m. m < sb_bmapstart (sb s) \<Longrightarrow> view t m = view s m"
    "\<And>m. m < sb_size (sb s) \<Longrightarrow> used_blk t m \<longleftrightarrow> used_blk s m \<and> m \<noteq> b"
    "later H s t" "pinned t = insert (BBLOCK b s) (pinned s)"
proof -
  show L: "later H s t" and pn: "pinned t = insert (BBLOCK b s) (pinned s)"
    using A by (simp_all add: did_free_def did_mod_def)
  have vw: "view t = (view s)(BBLOCK b s := clear_bit (b mod BPB) (view s (BBLOCK b s)))"
    using A by (simp add: did_free_def did_mod_def)
  note tf = laterD(2)[OF L]
  have g: "fs_geom s" using F by (simp add: fs_ok_def)
  note B = BBLOCK_eq[OF g txnD(2)[OF T] b(1)]
  show u: "used_blk t m \<longleftrightarrow> used_blk s m \<and> m \<noteq> b" if m: "m < sb_size (sb s)" for m
    by (rule used_after_clear[OF F txnD(2,5)[OF T] b(1) m]) (use vw tframeD(3)[OF tf] in auto)
  show "view t m = view s m" if "data_start s \<le> m" for m using that B(3) by (auto simp: vw)
  show "view t m = view s m" if "m < sb_bmapstart (sb s)" for m using that B(2) by (auto simp: vw)
  have ds: "m < data_start s \<Longrightarrow> m < sb_size (sb s)" for m using fs_geomD(6)[OF g txnD(2)[OF T]] by simp
  show "fs_ok t" using F u ds b(2) by (auto simp: fs_ok_def tframe_geom[OF tf])
  show "is_data t m \<longleftrightarrow> is_data s m \<and> m \<noteq> b" for m
    using u[of m] by (auto simp: is_data_def tframe_geom[OF tf] tframeD[OF tf])
qed

end
