(* ===== verification/BmapSpec.thy ===== *)
theory BmapSpec
  imports BlockSpec
begin

text \<open>
  The block map of an inode. The blocks of an inode form a tree: the roots are the entries of \<open>addrs\<close>,
  a path is a root and the indices taken in the indirect blocks. \<open>node\<close> is the block at a path,
  \<open>bpath\<close> the path of a block number of the file. \<open>bmap\<close> returns the block at \<open>bpath bn\<close> and creates
  it, and the indirect blocks on the way, when there is none; every other path keeps its block.
\<close>

subsection \<open>Changing an inode in memory\<close>

abbreviation with_inodes :: "inode list \<Rightarrow> kst \<Rightarrow> kst" where
  "with_inodes A s \<equiv> s\<lparr>inodes := A\<rparr>"

lemma cur_with_inodes [simp]: "cur (with_inodes A s) = cur s"
  by (simp add: cur_def split: option.split)

lemma cache_with_inodes [simp]:
  "view (with_inodes A s) = view s" "bproto (with_inodes A s) H = bproto s H"
  "pinned (with_inodes A s) = pinned s" "holds (with_inodes A s) = holds s"
  "coh (with_inodes A s) = coh s" "home (with_inodes A s) = home s" "log_ok (with_inodes A s) = log_ok s"
  "txn (with_inodes A s) H = txn s H" "idle_locks (with_inodes A s) = idle_locks s"
  "bc_inv (with_inodes A s) = bc_inv s" "cached (with_inodes A s) = cached s"
proof -
  show c: "cached (with_inodes A s) = cached s" by (intro ext) (simp add: cached_def)
  have o: "owns (with_inodes A s) = owns s" by (intro ext) (simp add: owns_def)
  show b: "bc_inv (with_inodes A s) = bc_inv s" by (simp add: bc_inv_def buf_ok_def)
  have d: "dset (with_inodes A s) = dset s" by (simp add: dset_def)
  show "view (with_inodes A s) = view s" by (intro ext) (simp add: view_def split: option.split)
  show i: "idle_locks (with_inodes A s) = idle_locks s" by (simp add: idle_locks_def)
  show p: "bproto (with_inodes A s) H = bproto s H" by (simp add: bproto_def b o i)
  show pn: "pinned (with_inodes A s) = pinned s" by (simp add: pinned_def c d)
  show "holds (with_inodes A s) = holds s" by (intro ext) (simp add: holds_def c o)
  show "coh (with_inodes A s) = coh s" by (intro ext) (simp add: coh_def)
  show h: "home (with_inodes A s) = home s" by (simp add: home_off_log)
  show l: "log_ok (with_inodes A s) = log_ok s"
    by (simp add: log_ok_def log_geom_def logged_def pn h)
  show "txn (with_inodes A s) H = txn s H" by (simp add: txn_def p l)
qed

lemma upd_inode_with: "upd_inode ip f s = with_inodes ((inodes s)[ip := f (inodes s ! ip)]) s"
  by (simp add: upd_inode_def)

lemma geom_with_inodes [simp]:
  "used_blk (with_inodes A s) = used_blk s" "is_data (with_inodes A s) = is_data s"
  "fs_ok (with_inodes A s) = fs_ok s" "fs_geom (with_inodes A s) = fs_geom s"
  "data_start (with_inodes A s) = data_start s" "fits (with_inodes A s) H k = fits s H k"
  "free_data (with_inodes A s) = free_data s" "BBLOCK b (with_inodes A s) = BBLOCK b s"
  "IBLOCK b (with_inodes A s) = IBLOCK b s"
proof -
  show g: "fs_geom (with_inodes A s) = fs_geom s" "data_start (with_inodes A s) = data_start s"
    by (simp_all add: fs_geom_def data_start_def)
  show b: "BBLOCK b (with_inodes A s) = BBLOCK b s" "IBLOCK b (with_inodes A s) = IBLOCK b s" for b
    by (simp_all add: BBLOCK_def IBLOCK_def)
  show u: "used_blk (with_inodes A s) = used_blk s" by (intro ext) (simp add: used_blk_def b)
  show d: "is_data (with_inodes A s) = is_data s" by (intro ext) (simp add: is_data_def u g)
  show "fs_ok (with_inodes A s) = fs_ok s" by (simp add: fs_ok_def u g)
  show "fits (with_inodes A s) H k = fits s H k" by (simp add: fits_def d)
  show "free_data (with_inodes A s) = free_data s" by (intro ext) (simp add: free_data_def u)
qed

lemma tframe_with_inodes: "tframe s t \<Longrightarrow> tframe (with_inodes A s) (with_inodes A t)"
  unfolding tframe_def bframe_def psame_def upd_lg_def by (cases s; cases t) simp

text \<open>
  What a step on inode \<open>ip\<close> leaves alone: all but the buffers, the log and the fields of entry \<open>ip\<close>
  that are on the disk or say whether they are valid.
\<close>

definition icore :: "inode \<Rightarrow> inode" where
  "icore i = (load_dinode zero_dinode i)\<lparr>i_valid := False\<rparr>"

definition iframe :: "nat \<Rightarrow> kst \<Rightarrow> kst \<Rightarrow> bool" where
  "iframe ip s t \<longleftrightarrow> tframe (with_inodes (inodes t) s) t \<and> length (inodes t) = length (inodes s)
     \<and> (\<forall>j. j \<noteq> ip \<longrightarrow> inodes t ! j = inodes s ! j) \<and> icore (inodes t ! ip) = icore (inodes s ! ip)"

lemma icoreD:
  assumes "icore i = icore j"
  shows "i_dev i = i_dev j" "i_inum i = i_inum j" "i_ref i = i_ref j" "i_lock i = i_lock j"
  using assms unfolding icore_def load_dinode_def by (cases i; cases j; simp)+

lemma tframe_iframe: "tframe s t \<Longrightarrow> iframe ip s t"
  using tframeD(4)[of s t] by (simp add: iframe_def)

lemma iframe_refl [simp]: "iframe ip s s"
  by (simp add: tframe_iframe)

lemma iframe_trans [trans]: "iframe ip s t \<Longrightarrow> iframe ip t u \<Longrightarrow> iframe ip s u"
  using tframe_trans[OF tframe_with_inodes[of "with_inodes (inodes t) s" t "inodes u"]]
  by (simp add: iframe_def)

lemma iframeD:
  assumes "iframe ip s t"
  shows "disk t = disk s" "disksize t = disksize s" "sb t = sb s" "files t = files s" "pipes t = pipes s"
    "held t = held s" "curproc t = curproc s" "dwrites t = dwrites s"
    "lg_outstanding (lg t) = lg_outstanding (lg s)" "lg_start (lg t) = lg_start (lg s)"
    "length (inodes t) = length (inodes s)" "\<And>j. j \<noteq> ip \<Longrightarrow> inodes t ! j = inodes s ! j"
    "i_dev (inodes t ! ip) = i_dev (inodes s ! ip)" "i_inum (inodes t ! ip) = i_inum (inodes s ! ip)"
    "i_ref (inodes t ! ip) = i_ref (inodes s ! ip)" "i_lock (inodes t ! ip) = i_lock (inodes s ! ip)"
  using assms tframeD[of "with_inodes (inodes t) s" t] icoreD[of "inodes t ! ip" "inodes s ! ip"]
  by (simp_all add: iframe_def)

lemma iframe_geom:
  assumes "iframe ip s t"
  shows "fs_geom t = fs_geom s" "data_start t = data_start s" "BBLOCK b t = BBLOCK b s" "IBLOCK b t = IBLOCK b s"
  using tframe_geom[of "with_inodes (inodes t) s" t] assms by (simp_all add: iframe_def)

lemma iframe_pid: "iframe ip s t \<Longrightarrow> idle_locks s \<Longrightarrow> pid (cur t) = pid (cur s) \<and> idle_locks t"
  using tframe_pid[of "with_inodes (inodes t) s" t] by (simp add: iframe_def)

lemma iframe_upd:
  assumes "icore (f (inodes s ! ip)) = icore (inodes s ! ip)" "ip < length (inodes s)"
  shows "iframe ip s (upd_inode ip f s)"
  using assms tframe_refl[of "with_inodes ((inodes s)[ip := f (inodes s ! ip)]) s"]
  by (simp add: iframe_def upd_inode_with)

subsection \<open>Paths\<close>

definition node :: "(nat \<Rightarrow> block) \<Rightarrow> nat list \<Rightarrow> nat \<times> nat list \<Rightarrow> nat" where
  "node v as p = foldl (\<lambda>a i. if a = 0 then 0 else word_at (v a) i) (as ! fst p) (snd p)"

lemma node_simps [simp]:
  "node v as (r, []) = as ! r"
  "node v as (r, is @ [i]) = (if node v as (r, is) = 0 then 0 else word_at (v (node v as (r, is))) i)"
  by (simp_all add: node_def)

text \<open>The number of levels of indirect blocks below a root, and the paths of the tree.\<close>

definition depth :: "nat \<Rightarrow> nat" where
  "depth r = r - (NDIRECT - 1)"

definition tpath :: "nat \<times> nat list \<Rightarrow> bool" where
  "tpath p \<longleftrightarrow> fst p < 13 \<and> length (snd p) \<le> depth (fst p) \<and> set (snd p) \<subseteq> {..<128}"

text \<open>Inner paths lead to indirect blocks, the others to data blocks.\<close>

definition inner :: "nat \<times> nat list \<Rightarrow> bool" where
  "inner p \<longleftrightarrow> tpath p \<and> length (snd p) < depth (fst p)"

definition bpath :: "nat \<Rightarrow> nat \<times> nat list" where
  "bpath bn = (if bn < NDIRECT then (bn, []) else let bn = bn - NDIRECT in
     if bn < 2 ^ 7 then (NDIRECT, [bn]) else let bn = bn - 2 ^ 7 in
     if bn < 2 ^ 14 then (DINDIRECT_IDX, [bn div 128, bn mod 128]) else let bn = bn - 2 ^ 14 in
     (TINDIRECT_IDX, [bn div 2 ^ 14, bn div 128 mod 128, bn mod 128]))"

text \<open>The number of a path that leads to a data block: the inverse of \<open>bpath\<close>.\<close>

definition bnum :: "nat \<times> nat list \<Rightarrow> nat" where
  "bnum p = foldl (\<lambda>n i. 128 * n + i) 0 (snd p)
     + (if fst p < NDIRECT then fst p else NDIRECT + (if fst p = INDIRECT_IDX then 0
        else 2 ^ 7 + (if fst p = DINDIRECT_IDX then 0 else 2 ^ 14)))"

lemma bnum_bpath:
  assumes "bn < MAXFILE"
  shows "bnum (bpath bn) = bn"
proof -
  have 1: "128 * (n div 128) + n mod 128 = n" for n :: nat by simp
  have 2: "128 * (n div 16384) + n div 128 mod 128 = n div 128" for n :: nat
    using 1[of "n div 128"] by (simp add: div_mult2_eq[symmetric])
  show ?thesis
    by (auto simp: bnum_def bpath_def Let_def param_defs 1 2)
qed

lemma bpath_full:
  assumes "bn < MAXFILE"
  shows "tpath (bpath bn)" "\<not> inner (bpath bn)"
proof -
  have l: "n < 2 ^ 14 \<Longrightarrow> n div 128 < 128" for n :: nat by simp
  have l3: "n < 2 ^ 21 \<Longrightarrow> n div 16384 < 128" for n :: nat by simp
  show "tpath (bpath bn)" "\<not> inner (bpath bn)"
    using assms by (auto simp: tpath_def inner_def bpath_def depth_def Let_def param_defs)
qed

lemma bpath_inj: "bn < MAXFILE \<Longrightarrow> bn' < MAXFILE \<Longrightarrow> bpath bn = bpath bn' \<Longrightarrow> bn = bn'"
  using bnum_bpath by metis

lemma tpath_butlast: "tpath (r, is @ [i]) \<Longrightarrow> inner (r, is) \<and> i < 128"
  by (auto simp: tpath_def inner_def)

lemma inner_tpath: "inner p \<Longrightarrow> tpath p"
  by (simp add: inner_def)

subsection \<open>The tree of an inode\<close>

definition iaddrs :: "kst \<Rightarrow> nat \<Rightarrow> nat list" where
  "iaddrs s ip = i_addrs (inodes s ! ip)"

definition inode_node :: "kst \<Rightarrow> nat \<Rightarrow> nat \<times> nat list \<Rightarrow> nat" where
  "inode_node s ip p = node (view s) (iaddrs s ip) p"

lemma node_up: "inode_node s ip (r, is @ [k]) \<noteq> 0 \<Longrightarrow> inode_node s ip (r, is) \<noteq> 0"
  by (auto simp: inode_node_def split: if_splits)

text \<open>
  The invariant of the tree: its blocks are used data blocks, and no block is at two paths.
\<close>

definition tree_ok :: "kst \<Rightarrow> nat \<Rightarrow> bool" where
  "tree_ok s ip \<longleftrightarrow> ip < length (inodes s) \<and> length (iaddrs s ip) = 13
     \<and> (\<forall>p. tpath p \<longrightarrow> inode_node s ip p \<noteq> 0 \<longrightarrow> is_data s (inode_node s ip p))
     \<and> (\<forall>p q. tpath p \<longrightarrow> tpath q \<longrightarrow> inode_node s ip p \<noteq> 0 \<longrightarrow> inode_node s ip p = inode_node s ip q \<longrightarrow> p = q)"

text \<open>The indirect blocks of the tree.\<close>

definition indirects :: "kst \<Rightarrow> nat \<Rightarrow> nat set" where
  "indirects s ip = {inode_node s ip p | p. inner p \<and> inode_node s ip p \<noteq> 0}"

lemma indirectsI: "inner p \<Longrightarrow> inode_node s ip p \<noteq> 0 \<Longrightarrow> inode_node s ip p \<in> indirects s ip"
  unfolding indirects_def by blast

lemma tree_okD:
  assumes "tree_ok s ip"
  shows "ip < length (inodes s)" "length (iaddrs s ip) = 13"
    "tpath p \<Longrightarrow> inode_node s ip p \<noteq> 0 \<Longrightarrow> is_data s (inode_node s ip p)"
    "tpath p \<Longrightarrow> tpath q \<Longrightarrow> inode_node s ip p \<noteq> 0 \<Longrightarrow> inode_node s ip p = inode_node s ip q \<Longrightarrow> p = q"
  using assms unfolding tree_ok_def by blast+

lemma node_cong:
  assumes "as ! fst p = as' ! fst p"
    and "\<And>is i is'. snd p = is @ i # is' \<Longrightarrow> node v as (fst p, is) \<noteq> 0
       \<Longrightarrow> v (node v as (fst p, is)) = v' (node v as (fst p, is))"
  shows "node v' as' p = node v as p"
proof -
  obtain r "is" where p: "p = (r, is)" by fastforce
  have "node v' as' (r, js) = node v as (r, js)" if "\<exists>ks. is = js @ ks" for js
    using that
  proof (induction js rule: rev_induct)
    case Nil
    then show ?case using assms(1) p by simp
  next
    case (snoc j js)
    then obtain ks where "is = js @ j # ks" by auto
    then show ?case using snoc assms(2)[of js j ks] p by auto
  qed
  then show ?thesis using p by simp
qed

text \<open>
  Growing the tree: block \<open>b\<close>, which no path had, is zeroed and put at the path \<open>p\<close>, which had none;
  no other path changes.
\<close>

definition put_at :: "(nat \<Rightarrow> block) \<Rightarrow> nat list \<Rightarrow> nat \<times> nat list \<Rightarrow> nat \<Rightarrow> (nat \<Rightarrow> block) \<Rightarrow> nat list \<Rightarrow> bool" where
  "put_at v as p b v' as' \<longleftrightarrow> (case snd p of
       [] \<Rightarrow> as' = as[fst p := b]
     | _ \<Rightarrow> as' = as \<and> (\<forall>j < 128. word_at (v' (node v as (fst p, butlast (snd p)))) j
          = (if j = last (snd p) then b else word_at (v (node v as (fst p, butlast (snd p)))) j)))
     \<and> v' b = replicate BSIZE 0"

lemma put_at_child: "put_at v as (r, is @ [k]) b v' as' \<longleftrightarrow> as' = as
     \<and> (\<forall>j < 128. word_at (v' (node v as (r, is))) j = (if j = k then b else word_at (v (node v as (r, is))) j))
     \<and> v' b = replicate BSIZE 0"
  by (cases "is") (simp_all add: put_at_def)

lemma node_put_at:
  assumes ins: "put_at v as p b v' as'" and tp: "tpath p" and len: "length as = 13" and b0: "b \<noteq> 0"
    and none: "node v as p = 0" and par: "snd p \<noteq> [] \<Longrightarrow> node v as (fst p, butlast (snd p)) \<noteq> 0"
    and fresh: "\<And>q. tpath q \<Longrightarrow> node v as q \<noteq> b"
    and inj: "\<And>q q'. tpath q \<Longrightarrow> tpath q' \<Longrightarrow> node v as q \<noteq> 0 \<Longrightarrow> node v as q = node v as q' \<Longrightarrow> q = q'"
    and same: "\<And>q. inner q \<Longrightarrow> node v as q \<noteq> 0 \<Longrightarrow> snd p = [] \<or> q \<noteq> (fst p, butlast (snd p))
      \<Longrightarrow> v' (node v as q) = v (node v as q)"
    and q: "tpath q"
  shows "node v' as' q = (if q = p then b else node v as q)"
proof -
  obtain r "is" where q': "q = (r, is)" by fastforce
  obtain rp ps where p': "p = (rp, ps)" by fastforce
  have rp: "rp < length as" using tp len by (simp add: tpath_def p')
  have "tpath (r, js) \<longrightarrow> node v' as' (r, js) = (if (r, js) = p then b else node v as (r, js))" for js
  proof (induction js rule: rev_induct)
    case Nil
    show ?case using ins rp p' by (cases ps) (auto simp: put_at_def nth_list_update_if)
  next
    case (snoc j js)
    show ?case
    proof
      assume t: "tpath (r, js @ [j])"
      have i: "inner (r, js)" and j: "j < 128" using tpath_butlast[OF t] by simp_all
      have IH: "node v' as' (r, js) = (if (r, js) = p then b else node v as (r, js))"
        using snoc inner_tpath[OF i] by blast
      consider (root) "(r, js) = p" | (zero) "(r, js) \<noteq> p" "node v as (r, js) = 0"
        | (other) "(r, js) \<noteq> p" "node v as (r, js) \<noteq> 0" by blast
      then show "node v' as' (r, js @ [j]) = (if (r, js @ [j]) = p then b else node v as (r, js @ [j]))"
      proof cases
        case root
        then show ?thesis using IH none b0 ins j p' by (auto simp: put_at_def)
      next
        case zero
        then show ?thesis using IH par p' by auto
      next
        case other
        show ?thesis
        proof (cases "ps \<noteq> [] \<and> (r, js) = (rp, butlast ps)")
          case True
          then have w: "word_at (v' (node v as (r, js))) j
              = (if j = last ps then b else word_at (v (node v as (r, js))) j)"
            using ins j p' by (cases ps) (simp_all add: put_at_def)
          have "(r, js @ [j]) = p \<longleftrightarrow> j = last ps"
            using True p' by (auto simp: snoc_eq_iff_butlast)
          then show ?thesis using IH other w by simp
        next
          case False
          then have "v' (node v as (r, js)) = v (node v as (r, js))"
            using same[OF i other(2)] p' by auto
          moreover have "(r, js @ [j]) \<noteq> p" using False p' by auto
          ultimately show ?thesis using IH other by simp
        qed
      qed
    qed
  qed
  then show ?thesis using q q' by simp
qed

text \<open>
  What a growing step from \<open>s\<close> to \<open>t\<close> guarantees; it creates blocks only at the paths \<open>P\<close>.
\<close>

definition grow :: "nat set \<Rightarrow> nat \<Rightarrow> (nat \<times> nat list) set \<Rightarrow> kst \<Rightarrow> kst \<Rightarrow> bool" where
  "grow H ip P s t \<longleftrightarrow> txn t H \<and> fs_ok t \<and> tree_ok t ip \<and> iframe ip s t
     \<and> (\<forall>j \<in> H. bufs t ! j = bufs s ! j)
     \<and> (inodes t ! ip)\<lparr>i_addrs := []\<rparr> = (inodes s ! ip)\<lparr>i_addrs := []\<rparr>
     \<and> (\<forall>q. tpath q \<longrightarrow> q \<notin> P \<or> inode_node s ip q \<noteq> 0 \<longrightarrow> inode_node t ip q = inode_node s ip q)
     \<and> (\<forall>q. tpath q \<longrightarrow> inode_node t ip q \<noteq> 0 \<longrightarrow> inode_node s ip q = 0 \<longrightarrow> \<not> is_data s (inode_node t ip q)
          \<and> (\<not> inner q \<longrightarrow> view t (inode_node t ip q) = replicate BSIZE 0))
     \<and> (\<forall>m. is_data s m \<longrightarrow> is_data t m \<and> (m \<notin> indirects s ip \<longrightarrow> view t m = view s m))
     \<and> (\<forall>m < sb_bmapstart (sb s). view t m = view s m)"

lemma growD:
  assumes "grow H ip P s t"
  shows "txn t H" "fs_ok t" "tree_ok t ip" "iframe ip s t" "j \<in> H \<Longrightarrow> bufs t ! j = bufs s ! j"
    "(inodes t ! ip)\<lparr>i_addrs := []\<rparr> = (inodes s ! ip)\<lparr>i_addrs := []\<rparr>"
    "tpath q \<Longrightarrow> q \<notin> P \<Longrightarrow> inode_node t ip q = inode_node s ip q"
    "tpath q \<Longrightarrow> inode_node s ip q \<noteq> 0 \<Longrightarrow> inode_node t ip q = inode_node s ip q"
    "tpath q \<Longrightarrow> inode_node t ip q \<noteq> 0 \<Longrightarrow> inode_node s ip q = 0 \<Longrightarrow> \<not> is_data s (inode_node t ip q)"
    "tpath q \<Longrightarrow> inode_node t ip q \<noteq> 0 \<Longrightarrow> inode_node s ip q = 0 \<Longrightarrow> \<not> inner q
       \<Longrightarrow> view t (inode_node t ip q) = replicate BSIZE 0"
    "is_data s m \<Longrightarrow> is_data t m" "is_data s m \<Longrightarrow> m \<notin> indirects s ip \<Longrightarrow> view t m = view s m"
    "m < sb_bmapstart (sb s) \<Longrightarrow> view t m = view s m"
  using assms unfolding grow_def by blast+

lemma grow_refl:
  assumes "txn s H" "fs_ok s" "tree_ok s ip"
  shows "grow H ip P s s"
  using assms by (simp add: grow_def)

lemma grow_mono: "grow H ip P s t \<Longrightarrow> P \<subseteq> Q \<Longrightarrow> grow H ip Q s t"
  unfolding grow_def by blast

lemma leaf_not_indirect:
  assumes "tree_ok s ip" "tpath q" "\<not> inner q" "inode_node s ip q \<noteq> 0"
  shows "inode_node s ip q \<notin> indirects s ip"
proof
  assume "inode_node s ip q \<in> indirects s ip"
  then obtain p where "inode_node s ip p = inode_node s ip q" "inner p" by (auto simp: indirects_def)
  then show False using tree_okD(4)[OF assms(1,2) inner_tpath assms(4), of p] assms(3) by simp
qed

lemma grow_trans:
  assumes st: "grow H ip P s t" and tu: "grow H ip Q t u"
  shows "grow H ip (P \<union> Q) s u"
proof -
  note S = growD[OF st] and U = growD[OF tu]
  have sb: "sb t = sb s" using iframeD(3)[OF S(4)] .
  have ind: "m \<notin> indirects t ip" if m: "is_data s m" "m \<notin> indirects s ip" for m
  proof
    assume "m \<in> indirects t ip"
    then obtain p where p: "inner p" "inode_node t ip p \<noteq> 0" "m = inode_node t ip p"
      by (auto simp: indirects_def)
    note tp = inner_tpath[OF p(1)]
    show False
    proof (cases "inode_node s ip p = 0")
      case True
      then show False using S(9)[OF tp p(2)] m p(3) by simp
    next
      case False
      then show False using S(8)[OF tp False] indirectsI[OF p(1) False] m(2) p(3) by simp
    qed
  qed
  have keep: "inode_node u ip q = inode_node s ip q" if "tpath q" "q \<notin> P \<union> Q \<or> inode_node s ip q \<noteq> 0" for q
    using that S(7,8)[of q] U(7,8)[of q] by fastforce
  have new: "\<not> is_data s (inode_node u ip q) \<and> (\<not> inner q \<longrightarrow> view u (inode_node u ip q) = replicate BSIZE 0)"
    if q: "tpath q" "inode_node u ip q \<noteq> 0" "inode_node s ip q = 0" for q
  proof (cases "inode_node t ip q = 0")
    case True
    then show ?thesis using U(9,10)[OF q(1,2)] S(11) by blast
  next
    case False
    note e = U(8)[OF q(1) False]
    have "view u (inode_node t ip q) = view t (inode_node t ip q)" if "\<not> inner q"
      using U(12)[OF tree_okD(3)[OF S(3) q(1) False] leaf_not_indirect[OF S(3) q(1) that False]] .
    then show ?thesis using S(9,10)[OF q(1) False q(3)] unfolding e by simp
  qed
  have bl: "view u m = view s m" if "m < sb_bmapstart (sb s)" for m
    using S(13)[OF that] U(13)[of m] that sb by simp
  show ?thesis
    unfolding grow_def
  proof (intro conjI allI impI ballI)
    show "txn u H" "fs_ok u" "tree_ok u ip" by (rule U)+
    show "iframe ip s u" by (rule iframe_trans[OF S(4) U(4)])
    show "bufs u ! j = bufs s ! j" if "j \<in> H" for j using S(5)[OF that] U(5)[OF that] by simp
    show "(inodes u ! ip)\<lparr>i_addrs := []\<rparr> = (inodes s ! ip)\<lparr>i_addrs := []\<rparr>" using S(6) U(6) by simp
    show "is_data u m" if "is_data s m" for m by (rule U(11)[OF S(11)[OF that]])
    show "view u m = view s m" if "is_data s m" "m \<notin> indirects s ip" for m
      using S(12)[OF that] U(12)[OF S(11)[OF that(1)] ind[OF that]] by simp
  qed (use keep new bl in blast)+
qed

text \<open>Putting a freshly allocated block into the tree is a growing step.\<close>

lemma grow_alloc:
  assumes T: "txn s H" and F: "fs_ok s" and R: "tree_ok s ip" and b: "free_data s b" "b \<noteq> 0"
    and T': "txn t H" and fr: "iframe ip s t" "\<And>j. j \<in> H \<Longrightarrow> bufs t ! j = bufs s ! j"
      "(inodes t ! ip)\<lparr>i_addrs := []\<rparr> = (inodes s ! ip)\<lparr>i_addrs := []\<rparr>"
    and us: "\<And>m. m < sb_size (sb s) \<Longrightarrow> used_blk t m \<longleftrightarrow> used_blk s m \<or> m = b"
    and put: "put_at (view s) (iaddrs s ip) p b (view t) (iaddrs t ip)"
    and p: "tpath p" "inode_node s ip p = 0" "snd p \<noteq> [] \<Longrightarrow> inode_node s ip (fst p, butlast (snd p)) \<noteq> 0"
    and vw: "\<And>m. data_start s \<le> m \<Longrightarrow> m \<noteq> b \<Longrightarrow> snd p = [] \<or> m \<noteq> inode_node s ip (fst p, butlast (snd p))
       \<Longrightarrow> view t m = view s m"
      "\<And>m. m < sb_bmapstart (sb s) \<Longrightarrow> view t m = view s m"
  shows "grow H ip {p} s t \<and> inode_node t ip p = b"
proof -
  note RD = tree_okD[OF R] and fg = iframe_geom[OF fr(1)] and fd = iframeD[OF fr(1)]
  have sz: "sb_size (sb t) = sb_size (sb s)" using fd(3) by simp
  have bsz: "b < sb_size (sb s)" and nu: "\<not> used_blk s b" using b by (simp_all add: free_data_def)
  have bd: "data_start s \<le> b" by (rule free_data_start[OF F b(1)])
  have dat: "is_data t m \<longleftrightarrow> is_data s m \<or> m = b" for m
    using us[of m] bsz bd by (auto simp: is_data_def fg sz)
  have nb: "inode_node s ip q \<noteq> b" if "tpath q" for q
    using RD(3)[OF that] nu b(2) by (auto simp: is_data_def)
  have same: "view t (inode_node s ip q) = view s (inode_node s ip q)"
    if "inner q" "inode_node s ip q \<noteq> 0" "snd p = [] \<or> q \<noteq> (fst p, butlast (snd p))" for q
  proof (rule vw(1))
    note tq = inner_tpath[OF that(1)]
    show "data_start s \<le> inode_node s ip q" using RD(3)[OF tq that(2)] by (simp add: is_data_def)
    show "inode_node s ip q \<noteq> b" by (rule nb[OF tq])
    have "tpath (fst p, butlast (snd p))"
      using p(1) by (auto simp: tpath_def dest: in_set_butlastD)
    then show "snd p = [] \<or> inode_node s ip q \<noteq> inode_node s ip (fst p, butlast (snd p))"
      using that(3) RD(4)[OF tq _ that(2)] by blast
  qed
  have N: "inode_node t ip q = (if q = p then b else inode_node s ip q)" if "tpath q" for q
    using node_put_at[OF put p(1) RD(2) b(2) p(2)[unfolded inode_node_def] p(3)[unfolded inode_node_def]
      nb[unfolded inode_node_def] RD(4)[unfolded inode_node_def] same[unfolded inode_node_def] that]
    unfolding inode_node_def .
  have len: "length (iaddrs t ip) = 13"
    using put RD(2) by (auto simp: put_at_def split: list.splits)
  have tr: "tree_ok t ip"
    unfolding tree_ok_def
  proof (intro conjI allI impI)
    show "ip < length (inodes t)" "length (iaddrs t ip) = 13" using fd(11) RD(1) len by simp_all
    fix q assume q: "tpath q"
    show "is_data t (inode_node t ip q)" if "inode_node t ip q \<noteq> 0"
      using that N[OF q] RD(3)[OF q] dat by (auto split: if_splits)
    show "q = q'" if "tpath q'" "inode_node t ip q \<noteq> 0" "inode_node t ip q = inode_node t ip q'" for q'
      using that N[OF q] N[OF that(1)] RD(4)[OF q that(1)] nb[OF q] nb[OF that(1)] by (auto split: if_splits)
  qed
  have ds: "m < data_start s \<Longrightarrow> m < sb_size (sb s)" for m
    using fs_geomD(6)[OF _ txnD(2)[OF T]] F by (simp add: fs_ok_def)
  have fo: "fs_ok t" using F us ds by (simp add: fs_ok_def fg)
  have keep: "view t m = view s m" if "is_data s m" "m \<notin> indirects s ip" for m
  proof (rule vw(1))
    show "data_start s \<le> m" "m \<noteq> b" using that(1) nu by (auto simp: is_data_def)
    have "inner (fst p, butlast (snd p))" if "snd p \<noteq> []"
      using tpath_butlast[of "fst p" "butlast (snd p)" "last (snd p)"] p(1) that by simp
    then show "snd p = [] \<or> m \<noteq> inode_node s ip (fst p, butlast (snd p))"
      using that(2) p(3) indirectsI by metis
  qed
  have zero: "view t b = replicate BSIZE 0" using put by (simp add: put_at_def)
  have bn: "\<not> is_data s b" using nu by (simp add: is_data_def)
  show ?thesis
    unfolding grow_def
  proof (intro conjI allI impI ballI)
    show "inode_node t ip p = b" using N[OF p(1)] by simp
    show "is_data t m" if "is_data s m" for m using that dat by simp
  qed (use T' fo tr fr N p(2) bn zero keep vw(2) in \<open>auto split: if_splits\<close>)
qed

subsection \<open>The steps of \<open>bmap\<close>\<close>

text \<open>There are \<open>n\<close> free blocks, and the log has room for the blocks that \<open>n\<close> growing steps change.\<close>

definition stock :: "kst \<Rightarrow> nat \<Rightarrow> bool" where
  "stock s n \<longleftrightarrow> fits s {} (3 * n) \<and> n \<le> card {b. free_data s b}"

lemma finite_free [simp]: "finite {b. free_data s b}"
  by (rule finite_subset[of _ "{..<sb_size (sb s)}"]) (auto simp: free_data_def)

lemma stock_free: "stock s (Suc n) \<Longrightarrow> \<exists>b. free_data s b"
  by (auto simp: stock_def card_gt_0_iff dest: order.strict_trans2[OF zero_less_Suc])

lemma stock_mono: "stock s n \<Longrightarrow> k \<le> n \<Longrightarrow> stock s k"
  by (auto simp: stock_def fits_def)

lemma stock_alloc:
  assumes "stock s (Suc n)" "card (pinned t) \<le> card (pinned s) + 3" "free_data s b" "sb t = sb s"
    "\<And>m. m < sb_size (sb s) \<Longrightarrow> used_blk t m \<longleftrightarrow> used_blk s m \<or> m = b"
  shows "stock t n"
proof -
  have "{m. free_data t m} = {m. free_data s m} - {b}"
    using assms(4,5) by (auto simp: free_data_def)
  then have "card {m. free_data t m} = card {m. free_data s m} - 1"
    using assms(3) by (simp add: One_nat_def)
  then show ?thesis using assms(1,2) by (auto simp: stock_def fits_def)
qed

lemma same_view_stock: "same_view {} s t \<Longrightarrow> stock t n = stock s n"
  using same_viewD[of "{}" s t] tframeD(3)[of s t] by (simp add: stock_def free_data_def)

lemma same_view_grow:
  assumes "same_view H s t" "fs_ok s" "tree_ok s ip"
  shows "grow H ip P s t"
proof -
  note V = same_viewD[OF assms(1)]
  have i: "inodes t = inodes s" using tframeD(4)[OF V(5)] .
  have n: "inode_node t ip = inode_node s ip" by (intro ext) (simp add: inode_node_def iaddrs_def V(2) i)
  have "tree_ok t ip" using assms(3) by (simp add: tree_ok_def n V(7) iaddrs_def i)
  then show ?thesis
    using V assms laterD(3)[OF V(1)] by (simp add: grow_def n i tframe_iframe)
qed

definition stepped :: "nat \<Rightarrow> nat \<times> nat list \<Rightarrow> nat \<Rightarrow> kst \<Rightarrow> nat \<Rightarrow> kst \<Rightarrow> bool" where
  "stepped ip p n s c t \<longleftrightarrow> grow {} ip {p} s t \<and> inode_node t ip p = c \<and> c \<noteq> 0 \<and> stock t n
     \<and> (inode_node s ip p \<noteq> 0 \<longrightarrow> same_view {} s t)"

lemma bmap_root_spec:
  assumes T: "txn s {}" and F: "fs_ok s" and R: "tree_ok s ip" and dev: "i_dev (inodes s ! ip) = 1"
    and st: "stock s (Suc n)" and k: "k < 13"
  shows "runs (bmap_root ip k s) (stepped ip (k, []) n s)"
proof (cases "inode_node s ip (k, []) = 0")
  case False
  then have a: "i_addrs (inodes s ! ip) ! k = inode_node s ip (k, [])" "i_addrs (inodes s ! ip) ! k \<noteq> 0"
    by (simp_all add: inode_node_def iaddrs_def)
  show ?thesis
    using grow_refl[OF T F R, of "{(k, [])}"] stock_mono[OF st, of n] same_view_refl[OF T] a
    by (simp add: bmap_root_def Let_def stepped_def)
next
  case True
  then have a: "i_addrs (inodes s ! ip) ! k = 0" by (simp add: inode_node_def iaddrs_def)
  have f2: "fits s {} (0 + 2)" and f2': "fits s {} 2" using st by (simp_all add: stock_def fits_def)
  obtain b where b: "free_data s b" using stock_free[OF st] by blast
  show ?thesis
    unfolding bmap_root_def Let_def a dev if_P[OF refl] runs_kbind
  proof (rule runs_mono[OF balloc_spec[OF T F f2' b]], elim conjE)
    fix c t
    assume c: "free_data s c" and al: "did_alloc {} s c t"
    note E = alloc_effect[OF al T F c f2]
    have L: "later {} s t" and pt: "pinned t = insert c (insert (BBLOCK c s) (pinned s))"
      using al by (simp_all add: did_alloc_def)
    note tf = laterD(2)[OF L]
    let ?u = "upd_inode ip (\<lambda>i. i\<lparr>i_addrs := (i_addrs i)[k := c]\<rparr>) t"
    have ino: "inodes t = inodes s" using tframeD(4)[OF tf] .
    have ip: "ip < length (inodes t)" using tree_okD(1)[OF R] by (simp add: ino)
    have c0: "c \<noteq> 0" using free_data_start[OF F c] by (simp add: data_start_def)
    have u: "view ?u = view t" "used_blk ?u = used_blk t" "pinned ?u = pinned t" "bufs ?u = bufs t" "sb ?u = sb s"
      using tframeD(3)[OF tf] by (simp_all add: upd_inode_with)
    have ia: "iaddrs ?u ip = (iaddrs s ip)[k := c]" using ip by (simp add: iaddrs_def ino)
    have G: "grow {} ip {(k, [])} s ?u \<and> inode_node ?u ip (k, []) = c"
    proof (rule grow_alloc[OF T F R c c0])
      show "txn ?u {}" using laterD(1)[OF L] by (simp add: upd_inode_with)
      show "iframe ip s ?u"
        by (rule iframe_trans[OF tframe_iframe[OF tf] iframe_upd[OF _ ip]]) (simp add: icore_def load_dinode_def)
      show "(inodes ?u ! ip)\<lparr>i_addrs := []\<rparr> = (inodes s ! ip)\<lparr>i_addrs := []\<rparr>" using ip by (simp add: ino)
      show "used_blk ?u m = (used_blk s m \<or> m = c)" if "m < sb_size (sb s)" for m using E(7)[OF that] u by simp
      show "put_at (view s) (iaddrs s ip) (k, []) c (view ?u) (iaddrs ?u ip)"
        using E(4) u ia by (simp add: put_at_def)
      show "tpath (k, [])" using k by (simp add: tpath_def)
    qed (use True u E(5,6) in simp_all)
    have "card (pinned ?u) \<le> card (pinned s) + 3"
      unfolding u pt by (simp add: card_insert_if finite_pinned[OF txnD(5)[OF T]])
    then have "stock ?u n" by (rule stock_alloc[OF st _ c]) (use u E(7) in simp_all)
    then show "runs (Ok c ?u) (stepped ip (k, []) n s)"
      using G True c0 by (simp add: stepped_def)
  qed
qed

lemma bmap_child_spec:
  assumes T: "txn s {}" and F: "fs_ok s" and R: "tree_ok s ip" and dev: "i_dev (inodes s ! ip) = 1"
    and st: "stock s (Suc n)" and p: "tpath (r, is @ [k])" and a: "inode_node s ip (r, is) = a" "a \<noteq> 0"
  shows "runs (bmap_child ip a k s) (stepped ip (r, is @ [k]) n s)"
proof -
  let ?p = "(r, is @ [k])"
  have inn: "inner (r, is)" and k: "k < 128" using tpath_butlast[OF p] by simp_all
  have da: "is_data s a" using tree_okD(3)[OF R inner_tpath[OF inn]] a by simp
  have g: "fs_geom s" using F by (simp add: fs_ok_def)
  have f3: "fits s {} 3" and f1: "fits s {} 1" using st by (simp_all add: stock_def fits_def)
  have asz: "a < disksize s" using da fs_geomD(2)[OF g txnD(2)[OF T]] by (simp add: is_data_def)
  have nd: "inode_node s ip ?p = word_at (view s a) k"
    using a by (simp add: inode_node_def)
  show ?thesis
    unfolding bmap_child_def runs_kbind dev Let_def
  proof (rule runs_mono[OF bread_txn[OF T ready_fits[OF f1 asz]]], simp, elim conjE)
    fix i t
    assume Tt: "txn t {i}" and ht: "holds t i a (view s a)" and co: "coh t i a" and vw: "view t = view s"
      and pn: "pinned t = pinned s" and tf: "tframe s t"
    have bd: "b_data (bufs t ! i) = view s a" and bn: "b_blockno (bufs t ! i) = a"
      using ht by (simp_all add: holds_def cached_def)
    have ino: "inodes t = inodes s" using tframeD(4)[OF tf] .
    have ud: "used_blk t = used_blk s" by (intro ext) (simp add: used_blk_def vw tframe_geom[OF tf])
    have id: "is_data t = is_data s" by (intro ext) (simp add: is_data_def ud tframe_geom[OF tf] tframeD[OF tf])
    show "runs (if word_at (b_data (bufs t ! i)) k = 0
          then kbind (balloc (i_dev (inodes t ! ip)) t) (\<lambda>addr s. kbind (log_write i (set_data i (set_word k addr) s)) (\<lambda>_ s. Ok addr s))
          else Ok (word_at (b_data (bufs t ! i)) k) t)
        (\<lambda>addr s'. runs (brelse i s') (\<lambda>_ s'. runs (Ok addr s') (stepped ip ?p n s)))"
    proof (cases "inode_node s ip ?p = 0")
      case False
      then have w: "word_at (b_data (bufs t ! i)) k = inode_node s ip ?p" using nd bd by simp
      have "runs (brelse i t) (\<lambda>_. stepped ip ?p n s (inode_node s ip ?p))"
      proof (rule runs_mono[OF brelse_txn[OF Tt _ ht co]], simp, elim conjE)
        fix x u
        assume L: "later {} t u" and v: "view u = view t" "pinned u = pinned t"
        have sv: "same_view {} s u"
          using L tframe_trans[OF tf laterD(2)[OF L]] v vw pn by (simp add: same_view_def later_def)
        have "inode_node u ip ?p = inode_node s ip ?p"
          using same_viewD(2)[OF sv] tframeD(4)[OF same_viewD(5)[OF sv]] by (simp add: inode_node_def iaddrs_def)
        then show "stepped ip ?p n s (inode_node s ip ?p) u"
          using same_view_grow[OF sv F R] sv False same_view_stock[OF sv] stock_mono[OF st, of n]
          by (simp add: stepped_def)
      qed
      then show ?thesis unfolding w using False by simp
    next
      case True
      then have w: "word_at (b_data (bufs t ! i)) k = 0" using nd bd by simp
      have Ft: "fs_ok t" using F by (simp add: fs_ok_def ud tframe_geom[OF tf])
      have ft: "fits t {i} 2" and ft0: "fits t {i} (0 + 2)" using f3 da pn by (simp_all add: fits_def bn id)
      have fr: "free_data t = free_data s" by (intro ext) (simp add: free_data_def ud tframeD[OF tf])
      obtain b where b: "free_data t b" using stock_free[OF st] fr by auto
      have dt: "i_dev (inodes t ! ip) = 1" by (simp add: ino dev)
      show ?thesis
        unfolding w dt if_P[OF refl] runs_kbind
      proof (rule runs_mono[OF balloc_spec[OF Tt Ft ft b]], elim conjE)
        fix c u
        assume c: "free_data t c" and al: "did_alloc {i} t c u"
        note E = alloc_effect[OF al Tt Ft c ft0]
        have L: "later {i} t u" and pu: "pinned u = insert c (insert (BBLOCK c t) (pinned t))"
          using al by (simp_all add: did_alloc_def)
        have tu: "tframe s u" by (rule tframe_trans[OF tf laterD(2)[OF L]])
        have hu: "holds u i a (view s a)" by (rule later_holds[OF L Tt _ ht]) simp
        have cs: "free_data s c" using c fr by simp
        have ca: "c \<noteq> a" using da cs by (auto simp: is_data_def free_data_def)
        have c0: "c \<noteq> 0" using free_data_start[OF F cs] by (simp add: data_start_def)
        have cd: "data_start s \<le> c" by (rule free_data_start[OF F cs])
        have c32: "c < 2 ^ 32" using cs fs_geomD(1)[OF g txnD(2)[OF T]] by (simp add: free_data_def)
        have ad: "data_start s \<le> a" "a < sb_size (sb s)" using da by (simp_all add: is_data_def)
        have va: "view u a = view s a" using E(5)[of a] ad ca by (simp add: vw tframe_geom[OF tf])
        have la: "length (view s a) = BSIZE" by (rule length_view[OF txnD(5)[OF T] asz])
        have bmle: "sb_inodestart (sb s) \<le> data_start s"
          using fs_geomD(5)[OF g txnD(2)[OF T]] by (simp add: data_start_def)
        have hm: "home u a"
          using home_fs[OF g txnD(2)[OF T] order_trans[OF bmle ad(1)] ad(2)] by (simp add: tframe_home[OF tu])
        have rm: "card (pinned u) < LOGSIZE - 1" using E(2) by (simp add: fits_def)
        let ?d = "set_word k c (view s a)"
        have sd: "set_data i (set_word k c) u = upd_buf i (\<lambda>b. b\<lparr>b_data := ?d\<rparr>) u"
          using hu by (simp add: set_data_eq holds_def)
        have M: "runs (log_write i (upd_buf i (\<lambda>b. b\<lparr>b_data := ?d\<rparr>) u)) (\<lambda>_ t. runs (brelse i t)
          (\<lambda>_ w. later {} u w \<and> view w = (view u)(a := ?d) \<and> pinned w = insert a (pinned u)))"
          by (rule modify_txn[OF laterD(1)[OF L] _ hu hm rm]) (simp_all add: la)
        have fin: "stepped ip ?p n s c w"
          if "later {} u w \<and> view w = (view u)(a := ?d) \<and> pinned w = insert a (pinned u)" for w
        proof -
          have L': "later {} u w" and v: "view w = (view u)(a := ?d)" and pw: "pinned w = insert a (pinned u)"
            using that by simp_all
          have tw: "tframe s w" by (rule tframe_trans[OF tu laterD(2)[OF L']])
          have iw: "inodes w = inodes s" using tframeD(4)[OF tw] .
          have uw: "used_blk w m = (used_blk s m \<or> m = c)" if m: "m < sb_size (sb s)" for m
          proof -
            have "BBLOCK m s \<noteq> a" using BBLOCK_eq(3)[OF g txnD(2)[OF T] m] ad by simp
            then have "used_blk w m = used_blk u m"
              by (simp add: used_blk_def v tframe_geom[OF laterD(2)[OF L']] tframe_geom[OF tu])
            then show ?thesis using E(7)[of m] m by (simp add: ud tframeD(3)[OF tf])
          qed
          have G: "grow {} ip {?p} s w \<and> inode_node w ip ?p = c"
          proof (rule grow_alloc[OF T F R cs c0 laterD(1)[OF L']])
            show "iframe ip s w" by (rule tframe_iframe[OF tw])
            show "put_at (view s) (iaddrs s ip) ?p c (view w) (iaddrs w ip)"
            proof -
              have pa: "node (view s) (iaddrs s ip) (r, is) = a" using a(1) by (simp only: inode_node_def)
              have "word_at (view w a) j = (if j = k then c else word_at (view s a) j)" if "j < 128" for j
                unfolding v fun_upd_same by (rule word_at_set_word[OF la k that c32])
              moreover have "view w c = replicate BSIZE 0" unfolding v using ca E(4) by simp
              ultimately show ?thesis unfolding put_at_child pa by (simp add: iaddrs_def iw)
            qed
            show "view w m = view s m"
              if "data_start s \<le> m" "m \<noteq> c" "snd ?p = [] \<or> m \<noteq> inode_node s ip (fst ?p, butlast (snd ?p))" for m
              using that E(5)[of m] a v by (simp add: vw tframe_geom[OF tf])
            show "view w m = view s m" if "m < sb_bmapstart (sb s)" for m
            proof -
              have "m \<noteq> a" using that ad(1) by (simp add: data_start_def)
              then show ?thesis using E(6)[of m] that v by (simp add: vw tframeD(3)[OF tf])
            qed
            show "(inodes w ! ip)\<lparr>i_addrs := []\<rparr> = (inodes s ! ip)\<lparr>i_addrs := []\<rparr>" by (simp only: iw)
            show "tpath ?p" "inode_node s ip ?p = 0" by (rule p True)+
            show "inode_node s ip (fst ?p, butlast (snd ?p)) \<noteq> 0" using a by simp
          qed (use uw in simp_all)
          have "card (pinned w) \<le> card (pinned s) + 3"
            unfolding pw pu pn by (simp add: card_insert_if finite_pinned[OF txnD(5)[OF T]])
          then have "stock w n" by (rule stock_alloc[OF st _ cs tframeD(3)[OF tw]]) (rule uw)
          then show ?thesis using G True c0 by (simp add: stepped_def)
        qed
        show "runs (log_write i (set_data i (set_word k c) u)) (\<lambda>_ s'. runs (Ok c s')
          (\<lambda>addr s'. runs (brelse i s') (\<lambda>_ s'. runs (Ok addr s') (stepped ip ?p n s))))"
          unfolding sd runs_Ok by (rule runs_mono[OF M], erule runs_mono, rule fin)
      qed
    qed
  qed
qed

subsection \<open>\<open>bmap\<close>\<close>

definition walked :: "nat \<Rightarrow> (nat \<times> nat list) set \<Rightarrow> nat \<times> nat list \<Rightarrow> nat \<Rightarrow> kst \<Rightarrow> nat \<Rightarrow> kst \<Rightarrow> bool" where
  "walked ip P p n s c t \<longleftrightarrow> grow {} ip P s t \<and> inode_node t ip p = c \<and> c \<noteq> 0 \<and> stock t n
     \<and> (inode_node s ip p \<noteq> 0 \<longrightarrow> same_view {} s t)"

lemma walk_step:
  assumes W: "walked ip P (r, is) (Suc n) s a t" and p: "tpath (r, is @ [k])"
    and dev: "i_dev (inodes s ! ip) = 1"
  shows "runs (bmap_child ip a k t) (walked ip (P \<union> {(r, is @ [k])}) (r, is @ [k]) n s)"
proof -
  have G: "grow {} ip P s t" and a: "inode_node t ip (r, is) = a" "a \<noteq> 0" and st: "stock t (Suc n)"
    and sv: "inode_node s ip (r, is) \<noteq> 0 \<Longrightarrow> same_view {} s t"
    using W by (simp_all add: walked_def)
  note D = growD[OF G]
  have dt: "i_dev (inodes t ! ip) = 1" using iframeD(13)[OF D(4)] dev by simp
  show ?thesis
  proof (rule runs_mono[OF bmap_child_spec[OF D(1,2,3) dt st p a]])
    fix c u
    assume S: "stepped ip (r, is @ [k]) n t c u"
    have "same_view {} s u" if "inode_node s ip (r, is @ [k]) \<noteq> 0"
    proof (rule same_view_trans)
      have z: "inode_node s ip (r, is) \<noteq> 0" by (rule node_up[OF that])
      show "same_view {} s t" by (rule sv[OF z])
      show "same_view {} t u" using S D(8)[OF p that] that by (simp add: stepped_def)
    qed
    then show "walked ip (P \<union> {(r, is @ [k])}) (r, is @ [k]) n s c u"
      using S grow_trans[OF G, of "{(r, is @ [k])}" u] by (simp add: walked_def stepped_def)
  qed
qed

lemma walk_root:
  assumes "txn s {}" "fs_ok s" "tree_ok s ip" "i_dev (inodes s ! ip) = 1" "stock s (Suc n)" "k < 13"
  shows "runs (bmap_root ip k s) (walked ip {(k, [])} (k, []) n s)"
  by (rule runs_mono[OF bmap_root_spec[OF assms]]) (simp add: walked_def stepped_def)

text \<open>The blocks \<open>bmap\<close> may create for block \<open>bn\<close> of the file, and the block it returns.\<close>

definition on_path :: "nat \<Rightarrow> (nat \<times> nat list) set" where
  "on_path bn = {q. inner q \<or> q = bpath bn}"

definition blk_of :: "kst \<Rightarrow> nat \<Rightarrow> nat \<Rightarrow> nat" where
  "blk_of s ip bn = inode_node s ip (bpath bn)"

lemma and_7F: "and (n :: nat) 0x7F = n mod 128" "and 0x7F (n :: nat) = n mod 128"
proof -
  have "and n 0x7F = take_bit 7 n" by (simp add: take_bit_eq_mask mask_eq_exp_minus_1)
  then show "and (n :: nat) 0x7F = n mod 128" by (simp add: take_bit_eq_mod)
  then show "and 0x7F (n :: nat) = n mod 128" by (simp add: and.commute)
qed

lemma drop_bits: "drop_bit 7 (n :: nat) = n div 128" "drop_bit 14 (n :: nat) = n div 2 ^ 14"
  by (simp_all add: drop_bit_eq_div)

lemma bmap_walk:
  assumes T: "txn s {}" and F: "fs_ok s" and R: "tree_ok s ip" and dev: "i_dev (inodes s ! ip) = 1"
    and st: "stock s (n + 4)" and bn: "bn < MAXFILE"
  shows "runs (bmap ip bn s) (walked ip (on_path bn) (bpath bn) n s)"
proof -
  have st': "stock s (Suc n)" "stock s (Suc (Suc n))" "stock s (Suc (Suc (Suc n)))" "stock s (Suc (Suc (Suc (Suc n))))"
    by (rule stock_mono[OF st], simp)+
  have up: "walked ip P p m s c t \<Longrightarrow> P \<subseteq> Q \<Longrightarrow> m = n \<Longrightarrow> walked ip Q p n s c t" for P Q p m c t
    using grow_mono[of "{}" ip P s t Q] by (simp add: walked_def)
  have tp: "tpath (r, is) \<Longrightarrow> \<not> inner (r, is) \<Longrightarrow> bpath bn = (r, is) \<Longrightarrow> (r, is) \<in> on_path bn" for r "is"
    by (simp add: on_path_def)
  note root = walk_root[OF T F R dev]
  note step = walk_step[OF _ _ dev]
  have bt: "tpath (bpath bn)" by (rule bpath_full(1)[OF bn])
  define b1 where "b1 = bn - NDIRECT"
  define b2 where "b2 = b1 - 2 ^ 7"
  define b3 where "b3 = b2 - 2 ^ 14"
  consider (d) "bn < NDIRECT" | (s) "\<not> bn < NDIRECT" "b1 < 2 ^ 7"
    | (dd) "\<not> bn < NDIRECT" "\<not> b1 < 2 ^ 7" "b2 < 2 ^ 14"
    | (t) "\<not> bn < NDIRECT" "\<not> b1 < 2 ^ 7" "\<not> b2 < 2 ^ 14" by blast
  then show ?thesis
  proof cases
    case d
    then have p: "bpath bn = (bn, [])" by (simp add: bpath_def)
    have "bn < 13" using d by (simp add: param_defs)
    then show ?thesis
      using d p by (auto simp: bmap_def on_path_def intro!: runs_mono[OF root[OF st'(1)]] up)
  next
    case s
    then have p: "bpath bn = (NDIRECT, [] @ [b1])" by (simp add: bpath_def b1_def)
    have i: "inner (NDIRECT, [])" by (simp add: inner_def tpath_def depth_def param_defs)
    have "bmap ip bn s = kbind (bmap_root ip NDIRECT s) (\<lambda>addr s. bmap_child ip addr b1 s)"
      using s by (simp add: bmap_def b1_def)
    moreover have "NDIRECT < 13" by (simp add: param_defs)
    ultimately show ?thesis
      by (auto intro!: runs_mono[OF root[OF st'(2)]] runs_mono[OF step[OF _ bt[unfolded p]]] up
        simp: i on_path_def p)
  next
    case dd
    then have p: "bpath bn = (DINDIRECT_IDX, [b2 div 128] @ [b2 mod 128])"
      by (simp add: bpath_def b1_def b2_def Let_def)
    have i: "inner (DINDIRECT_IDX, [])" "inner (DINDIRECT_IDX, [b2 div 128])" "tpath (DINDIRECT_IDX, [] @ [b2 div 128])"
      using dd by (simp_all add: inner_def tpath_def depth_def param_defs)
    have "bmap ip bn s = kbind (bmap_root ip DINDIRECT_IDX s) (\<lambda>addr s.
        kbind (bmap_child ip addr (b2 div 128) s) (\<lambda>addr s. bmap_child ip addr (b2 mod 128) s))"
      using dd by (simp add: bmap_def b1_def b2_def drop_bits and_7F Let_def)
    moreover have "DINDIRECT_IDX < 13" by (simp add: param_defs)
    ultimately show ?thesis
      by (auto intro!: runs_mono[OF root[OF st'(3)]] runs_mono[OF step[OF _ i(3)]]
        runs_mono[OF step[OF _ bt[unfolded p]]] up simp: i on_path_def p)
  next
    case t
    then have p: "bpath bn = (TINDIRECT_IDX, [b3 div 16384, b3 div 128 mod 128] @ [b3 mod 128])"
      by (simp add: bpath_def b1_def b2_def b3_def Let_def)
    have b3: "b3 < 2 ^ 21" using bn t by (simp add: b1_def b2_def b3_def param_defs)
    have i: "inner (TINDIRECT_IDX, [])" "inner (TINDIRECT_IDX, [b3 div 16384])"
      "inner (TINDIRECT_IDX, [b3 div 16384, b3 div 128 mod 128])" "tpath (TINDIRECT_IDX, [] @ [b3 div 16384])"
      "tpath (TINDIRECT_IDX, [b3 div 16384] @ [b3 div 128 mod 128])"
      using b3 by (simp_all add: inner_def tpath_def depth_def param_defs)
    have "bmap ip bn s = kbind (bmap_root ip TINDIRECT_IDX s) (\<lambda>addr s.
        kbind (bmap_child ip addr (b3 div 16384) s) (\<lambda>addr s.
        kbind (bmap_child ip addr (b3 div 128 mod 128) s) (\<lambda>addr s. bmap_child ip addr (b3 mod 128) s)))"
      using t b3 by (simp add: bmap_def b1_def b2_def b3_def drop_bits and_7F Let_def)
    moreover have "TINDIRECT_IDX < 13" by (simp add: param_defs)
    ultimately show ?thesis
      by (auto intro!: runs_mono[OF root[OF st'(4)]] runs_mono[OF step[OF _ i(4)]] runs_mono[OF step[OF _ i(5)]]
        runs_mono[OF step[OF _ bt[unfolded p]]] up simp: i on_path_def p)
  qed
qed

lemma bmap_out_of_range:
  assumes "MAXFILE \<le> bn"
  shows "bmap ip bn s = Panic ''bmap: out of range''"
proof -
  have "\<not> bn < NDIRECT" "\<not> bn - NDIRECT < 2 ^ 7" "\<not> bn - NDIRECT - 2 ^ 7 < 2 ^ 14"
    "\<not> bn - NDIRECT - 2 ^ 7 - 2 ^ 14 < 2 ^ 21"
    using assms by (simp_all add: param_defs)
  then show ?thesis by (simp only: bmap_def Let_def if_False)
qed

end
