(* ===== verification/InodeSpec.thy ===== *)
theory InodeSpec
  imports BmapSpec
begin

text \<open>
  Inodes on the disk and in the cache: the layout of an on-disk inode is read back as it was written
  and its neighbours in the block stay, so \<open>iupdate\<close> and \<open>ilock\<close> are inverse to each other; reference
  counts of the inode cache.
\<close>

subsection \<open>The layout of an inode\<close>

definition dinode_ok :: "dinode \<Rightarrow> bool" where
  "dinode_ok i \<longleftrightarrow> (\<forall>x \<in> {d_type i, d_major i, d_minor i, d_nlink i}. - (2 ^ 15) \<le> x \<and> x < 2 ^ 15)
     \<and> d_size i < 2 ^ 32 \<and> length (d_addrs i) = 13 \<and> (\<forall>a \<in> set (d_addrs i). a < 2 ^ 32)"

lemma put_addrs_fold:
  assumes "n \<le> 13" "p + 52 \<le> length d"
  shows "length (foldl (\<lambda>d j. put32 (p + 4 * j) (as ! j) d) d [0..<n]) = length d"
    "j < n \<Longrightarrow> get32 (foldl (\<lambda>d j. put32 (p + 4 * j) (as ! j) d) d [0..<n]) (p + 4 * j) = as ! j mod 2 ^ 32"
    "x < p \<or> p + 4 * n \<le> x \<Longrightarrow> x < length d
      \<Longrightarrow> foldl (\<lambda>d j. put32 (p + 4 * j) (as ! j) d) d [0..<n] ! x = d ! x"
proof -
  let ?f = "\<lambda>n. foldl (\<lambda>d j. put32 (p + 4 * j) (as ! j) d) d [0..<n]"
  have "length (?f n) = length d \<and> (\<forall>j < n. get32 (?f n) (p + 4 * j) = as ! j mod 2 ^ 32)
     \<and> (\<forall>x. (x < p \<or> p + 4 * n \<le> x) \<longrightarrow> x < length d \<longrightarrow> ?f n ! x = d ! x)"
    using assms
  proof (induction n)
    case (Suc n)
    then have IH: "length (?f n) = length d" "\<forall>j < n. get32 (?f n) (p + 4 * j) = as ! j mod 2 ^ 32"
      "\<forall>x. (x < p \<or> p + 4 * n \<le> x) \<longrightarrow> x < length d \<longrightarrow> ?f n ! x = d ! x"
      by simp_all
    have e: "?f (Suc n) = put32 (p + 4 * n) (as ! n) (?f n)" by simp
    have "get32 (?f (Suc n)) (p + 4 * j) = as ! j mod 2 ^ 32" if "j < Suc n" for j
    proof (cases "j = n")
      case True
      then show ?thesis unfolding e using Suc.prems IH(1) by (simp add: get32_put32)
    next
      case False
      then show ?thesis unfolding e using Suc.prems IH(1,2) that by (subst get32_put32_other) simp_all
    qed
    moreover have "?f (Suc n) ! x = d ! x" if "x < p \<or> p + 4 * Suc n \<le> x" "x < length d" for x
      unfolding e using that IH(1,3) by (subst nth_put32_other) auto
    ultimately show ?case using IH(1) e by simp
  qed simp
  then show "length (?f n) = length d" "j < n \<Longrightarrow> get32 (?f n) (p + 4 * j) = as ! j mod 2 ^ 32"
    "x < p \<or> p + 4 * n \<le> x \<Longrightarrow> x < length d \<Longrightarrow> ?f n ! x = d ! x" by blast+
qed

lemma length_put_addrs [simp]: "p + 52 \<le> length d \<Longrightarrow> length (put_addrs p as d) = length d"
  by (simp only: put_addrs_def put_addrs_fold(1))

lemma get32_put_addrs: "p + 52 \<le> length d \<Longrightarrow> j < 13 \<Longrightarrow> get32 (put_addrs p as d) (p + 4 * j) = as ! j mod 2 ^ 32"
  unfolding put_addrs_def by (rule put_addrs_fold(2)) simp_all

lemma nth_put_addrs: "p + 52 \<le> length d \<Longrightarrow> x < p \<or> p + 52 \<le> x \<Longrightarrow> x < length d \<Longrightarrow> put_addrs p as d ! x = d ! x"
  unfolding put_addrs_def by (rule put_addrs_fold(3)) simp_all

lemma get16_put_addrs:
  "p + 52 \<le> length d \<Longrightarrow> x + 2 \<le> p \<Longrightarrow> get16 (put_addrs p as d) x = get16 d x"
  by (simp add: get16_def nth_put_addrs)

lemma get32_put_addrs_other:
  "p + 52 \<le> length d \<Longrightarrow> x + 4 \<le> p \<Longrightarrow> get32 (put_addrs p as d) x = get32 d x"
  by (simp add: get32_def get16_put_addrs)

lemma get16_put32_other: "x + 2 \<le> i \<Longrightarrow> i + 4 \<le> length d \<Longrightarrow> get16 (put32 i v d) x = get16 d x"
  by (simp add: get16_def nth_put32_other)

lemma length_put_dinode [simp]: "length d = BSIZE \<Longrightarrow> k < IPB \<Longrightarrow> length (put_dinode k i d) = BSIZE"
  by (simp add: put_dinode_def Let_def param_defs)

lemma nth_put_dinode:
  assumes "length d = BSIZE" "k < IPB" "x < 64 * k \<or> 64 * k + 64 \<le> x" "x < BSIZE"
  shows "put_dinode k i d ! x = d ! x"
  using assms by (auto simp: put_dinode_def Let_def nth_put_addrs nth_put32_other nth_put16 param_defs)

lemma ushort_less: "ushort i mod 65536 = ushort i"
proof -
  have "ushort i < 65536" unfolding ushort_def by simp
  then show ?thesis by simp
qed

lemma get_put_dinode:
  assumes l: "length d = BSIZE" and k: "k < IPB" and i: "dinode_ok i"
  shows "get_dinode k (put_dinode k i d) = i"
proof -
  have l': "64 * k + 64 \<le> length d" using l k by (simp add: param_defs)
  note put = get16_put_addrs get32_put_addrs_other get16_put32_other get32_put32 get16_put16 get16_put16_other
    ushort_less
  have sh: "sshort (ushort x) = x" if "x \<in> {d_type i, d_major i, d_minor i, d_nlink i}" for x
    using i that by (intro sshort_ushort) (auto simp: dinode_ok_def)
  have "map (\<lambda>j. d_addrs i ! j mod 2 ^ 32) [0..<13] = d_addrs i"
    using i by (intro nth_equalityI) (auto simp: dinode_ok_def)
  moreover have "map (\<lambda>j. get32 (put_dinode k i d) (64 * k + 12 + 4 * j)) [0..<13]
      = map (\<lambda>j. d_addrs i ! j mod 2 ^ 32) [0..<13]"
    using l' by (intro map_cong refl) (simp add: put_dinode_def Let_def get32_put_addrs del: mult_Suc_right)
  ultimately have a: "map (\<lambda>j. get32 (put_dinode k i d) (64 * k + 12 + 4 * j)) [0..<13] = d_addrs i" by simp
  have "d_size i < 4294967296" using i by (simp add: dinode_ok_def)
  then show ?thesis
    using l' a by (simp add: get_dinode_def Let_def) (simp add: put_dinode_def Let_def put sh)
qed

lemma get_dinode_cong:
  assumes "\<And>x. 64 * k \<le> x \<Longrightarrow> x < 64 * k + 64 \<Longrightarrow> d ! x = d' ! x"
  shows "get_dinode k d = get_dinode k d'"
proof -
  have g16: "get16 d (64 * k + x) = get16 d' (64 * k + x)" if "x + 2 \<le> 64" for x
    using that assms by (simp add: get16_def)
  have g32: "get32 d (64 * k + x) = get32 d' (64 * k + x)" if "x + 4 \<le> 64" for x
    using that g16[of x] g16[of "x + 2"] by (simp add: get32_def add.assoc)
  have "get32 d (64 * k + 12 + 4 * j) = get32 d' (64 * k + 12 + 4 * j)" if "j < 13" for j
    using g32[of "12 + 4 * j"] that by (simp add: add.assoc)
  then show ?thesis
    using g16[of 0] g16[of 2] g16[of 4] g16[of 6] g32[of 8] by (simp add: get_dinode_def Let_def)
qed

lemma get_put_dinode_other:
  assumes "length d = BSIZE" "k < IPB" "j < IPB" "j \<noteq> k"
  shows "get_dinode j (put_dinode k i d) = get_dinode j d"
proof (rule get_dinode_cong)
  fix x assume "64 * j \<le> x" "x < 64 * j + 64"
  then show "put_dinode k i d ! x = d ! x"
    using assms by (intro nth_put_dinode) (auto simp: param_defs)
qed

text \<open>The inodes of a block of inodes.\<close>

interpretation dinodes: slots get_dinode put_dinode "\<lambda>d. length d = BSIZE" dinode_ok IPB
  by unfold_locales (simp_all add: get_put_dinode get_put_dinode_other, simp add: IPB_def BSIZE_def)

lemma dinode_ok_get: "dinode_ok (get_dinode k d)"
proof -
  have "- (2 ^ 15) \<le> sshort (get16 d x) \<and> sshort (get16 d x) < 2 ^ 15" for x
    using get16_less[of d x] by (auto simp: sshort_def)
  then show ?thesis using get32_less[of d] by (auto simp: dinode_ok_def get_dinode_def Let_def)
qed

subsection \<open>Inodes on the disk\<close>

text \<open>Inode number \<open>n\<close> as the kernel sees it on the disk.\<close>

definition disk_inode :: "kst \<Rightarrow> nat \<Rightarrow> dinode" where
  "disk_inode s n = get_dinode (n mod IPB) (view s (IBLOCK n s))"

lemma IBLOCK_mod:
  assumes "fs_geom s" "log_ok s" "i < sb_ninodes (sb s)" "j < sb_ninodes (sb s)"
    "IBLOCK i s = IBLOCK j s" "i mod IPB = j mod IPB"
  shows "i = j"
  using assms(5,6) IBLOCK_eq(1)[OF assms(1,2,3)] IBLOCK_eq(1)[OF assms(1,2,4)]
  by (metis add_left_cancel div_mult_mod_eq)

text \<open>A block below the bitmap changed: the allocation state and all data blocks are as before.\<close>

lemma meta_effect:
  assumes D: "did_mod H s n d t" and g: "fs_geom s" "log_ok s" and n: "n < sb_bmapstart (sb s)"
  shows "m < sb_size (sb s) \<Longrightarrow> used_blk t m = used_blk s m" "is_data t = is_data s" "fs_ok t = fs_ok s"
    "data_start s \<le> m \<Longrightarrow> view t m = view s m" "later H s t"
proof -
  show L: "later H s t" using D by (simp add: did_mod_def)
  note tf = laterD(2)[OF L]
  have v: "view t = (view s)(n := d)" using D by (simp add: did_mod_def)
  show u: "used_blk t m = used_blk s m" if "m < sb_size (sb s)" for m
    using BBLOCK_eq(2)[OF g that] n by (simp add: used_blk_def tframe_geom[OF tf] v)
  show "is_data t = is_data s"
    using u by (intro ext) (auto simp: is_data_def tframe_geom[OF tf] tframeD[OF tf])
  have "m < data_start s \<Longrightarrow> m < sb_size (sb s)" for m using fs_geomD(6)[OF g] by simp
  then show "fs_ok t = fs_ok s" using u by (simp add: fs_ok_def tframe_geom[OF tf])
  show "data_start s \<le> m \<Longrightarrow> view t m = view s m" using n by (simp add: v data_start_def)
qed

lemma iupdate_spec:
  assumes T: "txn s {}" and g: "fs_geom s" and f: "fits s {} 1" and dev: "i_dev (inodes s ! ip) = 1"
    and n: "i_inum (inodes s ! ip) < sb_ninodes (sb s)"
  defines "n \<equiv> i_inum (inodes s ! ip)"
  shows "runs (iupdate ip s) (\<lambda>_. did_mod {} s (IBLOCK n s)
     (put_dinode (n mod IPB) (dinode_of (inodes s ! ip)) (view s (IBLOCK n s))))"
proof -
  note I = IBLOCK_eq[OF g txnD(2)[OF T] n, folded n_def]
  have sz: "IBLOCK n s < disksize s" using I(4) fs_geomD(2)[OF g txnD(2)[OF T]] by simp
  have md: "n mod IPB < IPB" by (simp add: param_defs)
  have rd: "ready s {} (IBLOCK n s)" by (rule ready_fits[OF f sz]) simp
  have rm: "card (pinned s) < LOGSIZE - 1" by (rule fits_room[OF f]) simp
  let ?f = "put_dinode (n mod IPB) (dinode_of (inodes s ! ip))"
  have len: "length (?f (view s (IBLOCK n s))) = BSIZE"
    using length_view[OF txnD(5)[OF T] sz] md by simp
  show ?thesis
    unfolding iupdate_def runs_kbind dev n_def[symmetric]
  proof (rule runs_mono[OF modify_blk[where f = ?f, OF T rd home_fs[OF g txnD(2)[OF T] I(3,4)] rm len]], elim conjE)
    fix i t
    assume tf: "tframe s t"
      and lw: "runs (log_write i (set_data i ?f t)) (\<lambda>_ u. runs (brelse i u) (\<lambda>_. did_mod {} s (IBLOCK n s) (?f (view s (IBLOCK n s)))))"
    have "inodes t = inodes s" using tframeD(4)[OF tf] .
    then show "runs (let i' = inodes t ! ip in kbind (log_write i (set_data i (put_dinode (i_inum i' mod IPB) (dinode_of i')) t))
        (\<lambda>_ s. brelse i s)) (\<lambda>_. did_mod {} s (IBLOCK n s) (?f (view s (IBLOCK n s))))"
      using lw by (simp add: Let_def n_def)
  qed
qed

text \<open>Writing an inode changes this inode on the disk and no other.\<close>

lemma disk_inode_upd:
  assumes D: "did_mod H s (IBLOCK n s) (put_dinode (n mod IPB) i (view s (IBLOCK n s))) t"
    and T: "txn s H" and g: "fs_geom s" and n: "n < sb_ninodes (sb s)" "m < sb_ninodes (sb s)" and i: "dinode_ok i"
  shows "disk_inode t m = (if m = n then i else disk_inode s m)"
proof -
  have v: "view t = (view s)(IBLOCK n s := put_dinode (n mod IPB) i (view s (IBLOCK n s)))" and L: "later H s t"
    using D by (simp_all add: did_mod_def)
  have ib: "IBLOCK m t = IBLOCK m s" for m by (rule tframe_geom(4)[OF laterD(2)[OF L]])
  note I = IBLOCK_eq[OF g txnD(2)[OF T] n(1)]
  have len: "length (view s (IBLOCK n s)) = BSIZE"
    using I(4) fs_geomD(2)[OF g txnD(2)[OF T]] by (intro length_view txnD(5)[OF T]) simp
  show ?thesis unfolding disk_inode_def ib v
    by (rule dinodes.table_put[where blk = "\<lambda>k. IBLOCK k s" and v = "view s" and i = n, OF len i]) (rule IBLOCK_mod[OF g txnD(2)[OF T] n(2,1)])
qed

subsection \<open>Locking an inode\<close>

definition my_lock :: "kst \<Rightarrow> sleeplock" where
  "my_lock s = \<lparr>sl_locked = True, sl_pid = pid (cur s)\<rparr>"

definition locked_inode :: "kst \<Rightarrow> nat \<Rightarrow> inode" where
  "locked_inode s ip = (let i = inodes s ! ip in
     (if i_valid i then i else (load_dinode (disk_inode s (i_inum i)) i)\<lparr>i_valid := True\<rparr>)\<lparr>i_lock := my_lock s\<rparr>)"

text \<open>The step only changes inodes in memory, to \<open>A\<close>.\<close>

definition imem :: "inode list \<Rightarrow> kst \<Rightarrow> kst \<Rightarrow> bool" where
  "imem A s t \<longleftrightarrow> inodes t = A \<and> bproto t {} \<and> view t = view s \<and> pinned t = pinned s
     \<and> bframe (with_inodes A s) t"

lemma imemD:
  assumes "imem A s t"
  shows "inodes t = A" "bproto t {}" "view t = view s" "pinned t = pinned s" "bframe (with_inodes A s) t"
    "lg t = lg s" "sb t = sb s" "disk t = disk s" "disksize t = disksize s" "held t = held s"
    "curproc t = curproc s" "files t = files s" "pipes t = pipes s" "dwrites t = dwrites s"
  using assms bframeD[of "with_inodes A s" t] by (simp_all add: imem_def)

lemma imem_log_ok: "imem A s t \<Longrightarrow> log_ok t = log_ok s"
  using imemD[of A s t] by (simp add: log_ok_def log_geom_def logged_def home_off_log)

lemma imem_pid: "imem A s t \<Longrightarrow> idle_locks s \<Longrightarrow> pid (cur t) = pid (cur s)"
  using bframe_pid(1)[OF imemD(5)[of A s t]] by simp

lemma imem_trans: "imem A s t \<Longrightarrow> imem B t u \<Longrightarrow> imem B s u"
proof -
  assume A: "imem A s t" and B: "imem B t u"
  have "bframe (with_inodes B s) (with_inodes B t)"
    using imemD(5)[OF A] unfolding bframe_def psame_def by (cases s; cases t) simp
  then show ?thesis using imemD[OF A] imemD[OF B] bframe_trans by (auto simp: imem_def)
qed

lemma imem_txn: "imem A s t \<Longrightarrow> txn s {} \<Longrightarrow> txn t {}"
  using imemD[of A s t] imem_log_ok[of A s t] by (simp add: txn_def)

lemma ilock_spec:
  assumes P: "bproto s {}" and g: "fs_geom s" "log_ok s" and ip: "ip < length (inodes s)"
    and ref: "1 \<le> i_ref (inodes s ! ip)" and free: "\<not> sl_locked (i_lock (inodes s ! ip))"
    and dev: "i_dev (inodes s ! ip) = 1" and n: "i_inum (inodes s ! ip) < sb_ninodes (sb s)"
    and ty: "i_valid (inodes s ! ip) \<or> d_type (disk_inode s (i_inum (inodes s ! ip))) \<noteq> 0"
  shows "runs (ilock ip s) (\<lambda>_. imem ((inodes s)[ip := locked_inode s ip]) s)"
proof -
  note sD = bprotoD[OF P]
  obtain p where hp: "held s = []" "curproc s = Some p" using sD(1) by (auto simp: idle_locks_def)
  let ?i = "inodes s ! ip"
  let ?A = "(inodes s)[ip := ?i\<lparr>i_lock := my_lock s\<rparr>]"
  let ?s = "with_inodes ?A s"
  have acq: "acquiresleep (SInode ip) s = Ok () ?s"
    using acquiresleep_free[of s p "SInode ip"] hp free by (simp add: my_lock_def upd_inode_with)
  have nth: "inodes ?s ! ip = ?i\<lparr>i_lock := my_lock s\<rparr>" using ip by simp
  show ?thesis
  proof (cases "i_valid ?i")
    case True
    then have "ilock ip s = Ok () ?s" using ref ip by (simp add: ilock_def acq)
    moreover have "locked_inode s ip = ?i\<lparr>i_lock := my_lock s\<rparr>" using True by (simp add: locked_inode_def Let_def)
    ultimately show ?thesis using P by (simp add: imem_def)
  next
    case False
    let ?n = "IBLOCK (i_inum ?i) s"
    have sz: "?n < disksize ?s"
      using IBLOCK_eq(4)[OF g n] fs_geomD(2)[OF g] by simp
    have rd: "ready ?s {} ?n" using sz log_ok_card[OF g(2)] by (simp add: ready_def)
    have Ps: "bproto ?s {}" using P by simp
    have body: "runs (brelse bp (upd_inode ip (load_dinode (get_dinode (i_inum (inodes t ! ip) mod IPB) (b_data (bufs t ! bp)))) t))
         (\<lambda>_ u. runs (kassert (i_type (inodes (upd_inode ip (\<lambda>i. i\<lparr>i_valid := True\<rparr>) u) ! ip) \<noteq> 0) ''ilock: no type''
             (upd_inode ip (\<lambda>i. i\<lparr>i_valid := True\<rparr>) u)) (\<lambda>_. imem ((inodes s)[ip := locked_inode s ip]) s))"
      if A: "bproto t {bp}" "holds t bp ?n (view ?s ?n)" "view t = view ?s" "bframe ?s t" "pinned t = pinned ?s" "coh t bp ?n"
      for bp t
    proof -
      have ti: "inodes t = ?A" using bframeD(5)[OF A(4)] by simp
      have bd: "b_data (bufs t ! bp) = view s ?n" using A(2) by (simp add: holds_def)
      let ?d = "disk_inode s (i_inum ?i)"
      let ?B = "(inodes s)[ip := load_dinode ?d (?i\<lparr>i_lock := my_lock s\<rparr>)]"
      let ?t = "with_inodes ?B t"
      have e: "upd_inode ip (load_dinode (get_dinode (i_inum (inodes t ! ip) mod IPB) (b_data (bufs t ! bp)))) t = ?t"
        using ip by (simp add: upd_inode_with ti bd disk_inode_def)
      have A': "bproto ?t {bp}" "holds ?t bp ?n (view s ?n)" "coh ?t bp ?n" using A by simp_all
      show ?thesis unfolding e
      proof (rule runs_mono[OF brelse_blk[OF A'(1) singletonI A'(2,3)]], elim conjE)
        fix x u
        assume P': "bproto u ({bp} - {bp})" and vu: "view u = view ?t" and fu: "bframe ?t u" and pu: "pinned u = pinned ?t"
        let ?u = "upd_inode ip (\<lambda>i. i\<lparr>i_valid := True\<rparr>) u"
        have ui: "inodes u = ?B" using bframeD(5)[OF fu] by simp
        have li: "locked_inode s ip = (load_dinode ?d (?i\<lparr>i_lock := my_lock s\<rparr>))\<lparr>i_valid := True\<rparr>"
          using False by (simp add: locked_inode_def Let_def load_dinode_def)
        have iu: "inodes ?u = (inodes s)[ip := locked_inode s ip]" using ip by (simp add: ui li)
        have lty: "i_type (locked_inode s ip) \<noteq> 0" using ty False by (simp add: li load_dinode_def)
        let ?C = "(inodes s)[ip := locked_inode s ip]"
        have uw: "?u = with_inodes ?C u" using iu by (simp add: upd_inode_with)
        have b1: "bframe (with_inodes ?C ?s) (with_inodes ?C t)" and b2: "bframe (with_inodes ?C ?t) (with_inodes ?C u)"
          using A(4) fu unfolding bframe_def psame_def by (cases s; cases t; cases u; simp)+
        have "bframe (with_inodes ?C s) ?u"
          unfolding uw using bframe_trans[OF b1] b2 by simp
        then have "imem ?C s ?u"
          using P' vu pu A(3,5) iu by (simp add: imem_def upd_inode_with)
        moreover have nz: "i_type (inodes ?u ! ip) \<noteq> 0" unfolding iu using lty ip by simp
        ultimately show "runs (kassert (i_type (inodes ?u ! ip) \<noteq> 0) ''ilock: no type'' ?u) (\<lambda>_. imem ?C s)"
          unfolding kassert_simps(1)[OF nz] runs_Ok by blast
      qed
    qed
    have e: "ilock ip s = kbind (bread 1 ?n ?s) (\<lambda>bp t.
        kbind (brelse bp (upd_inode ip (load_dinode (get_dinode (i_inum (inodes t ! ip) mod IPB) (b_data (bufs t ! bp)))) t)) (\<lambda>_ u.
        kassert (i_type (inodes (upd_inode ip (\<lambda>i. i\<lparr>i_valid := True\<rparr>) u) ! ip) \<noteq> 0) ''ilock: no type''
          (upd_inode ip (\<lambda>i. i\<lparr>i_valid := True\<rparr>) u)))"
      using ref False ip dev by (simp add: ilock_def acq Let_def)
    show ?thesis
      unfolding e runs_kbind
    proof (rule runs_mono[OF bread_blk[OF Ps rd]], elim conjE)
      fix bp t
      assume "bproto t {bp}" "holds t bp ?n (view ?s ?n)" "view t = view ?s" "bframe ?s t" "pinned t = pinned ?s"
        "coh t bp ?n"
      from body[OF this] show "runs (brelse bp (upd_inode ip (load_dinode (get_dinode (i_inum (inodes t ! ip) mod IPB) (b_data (bufs t ! bp)))) t))
         (\<lambda>_ u. runs (kassert (i_type (inodes (upd_inode ip (\<lambda>i. i\<lparr>i_valid := True\<rparr>) u) ! ip) \<noteq> 0) ''ilock: no type''
             (upd_inode ip (\<lambda>i. i\<lparr>i_valid := True\<rparr>) u)) (\<lambda>_. imem ((inodes s)[ip := locked_inode s ip]) s))" .
    qed
  qed
qed

lemma imem_upd_inode:
  assumes "bproto s {}"
  shows "imem ((inodes s)[ip := f (inodes s ! ip)]) s (upd_inode ip f s)"
  using assms by (simp add: imem_def upd_inode_with)

text \<open>\<open>iunlock\<close> gives the lock back and wakes the processes that wait for it.\<close>

lemma iunlock_eq:
  assumes "idle_locks s" "i_lock (inodes s ! ip) = my_lock s" "1 \<le> i_ref (inodes s ! ip)"
  shows "iunlock ip s = Ok () (wakeup1 (Some (ChInodeLock ip)) (upd_inode ip (\<lambda>i. i\<lparr>i_lock := free_lock\<rparr>) s))"
proof -
  obtain p where "held s = []" "curproc s = Some p" using assms(1) by (auto simp: idle_locks_def)
  then show ?thesis
    using assms by (simp add: iunlock_def holdingsleep_eq releasesleep_eq my_lock_def)
qed

lemma imem_wakeup1: "imem A s t \<Longrightarrow> imem A s (wakeup1 c t)"
  using bframe_trans[OF _ bframe_wakeup1] by (auto simp: imem_def)

lemma iunlock_spec:
  assumes "bproto s {}" "i_lock (inodes s ! ip) = my_lock s" "1 \<le> i_ref (inodes s ! ip)"
  shows "runs (iunlock ip s) (\<lambda>_. imem ((inodes s)[ip := (inodes s ! ip)\<lparr>i_lock := free_lock\<rparr>]) s)"
  using imem_wakeup1[OF imem_upd_inode[OF assms(1)]]
  by (simp add: iunlock_eq[OF bprotoD(1)[OF assms(1)] assms(2,3)])

lemma iunlock_foreign:
  assumes "idle_locks s" "i_lock (inodes s ! ip) \<noteq> my_lock s \<or> i_ref (inodes s ! ip) < 1"
  shows "iunlock ip s = Panic ''iunlock''"
proof -
  obtain p where h: "held s = []" "curproc s = Some p" using assms(1) by (auto simp: idle_locks_def)
  have "\<not> (sl_locked (i_lock (inodes s ! ip)) \<and> sl_pid (i_lock (inodes s ! ip)) = pid (cur s))
      \<or> i_ref (inodes s ! ip) < 1"
    using assms(2) by (cases "i_lock (inodes s ! ip)") (auto simp: my_lock_def)
  then show ?thesis using h by (auto simp: iunlock_def holdingsleep_eq)
qed

subsection \<open>References to inodes\<close>

text \<open>The inode cache holds an inode at most once.\<close>

definition icache_ok :: "kst \<Rightarrow> bool" where
  "icache_ok s \<longleftrightarrow> length (inodes s) = NINODE \<and> (\<forall>i < NINODE. 0 \<le> i_ref (inodes s ! i))
     \<and> (\<forall>i < NINODE. \<forall>j < NINODE. 0 < i_ref (inodes s ! i) \<longrightarrow> 0 < i_ref (inodes s ! j)
          \<longrightarrow> i_dev (inodes s ! i) = i_dev (inodes s ! j) \<longrightarrow> i_inum (inodes s ! i) = i_inum (inodes s ! j) \<longrightarrow> i = j)"

text \<open>Entry \<open>i\<close> is a referenced entry for inode \<open>n\<close> of device \<open>dev\<close>.\<close>

definition refers :: "kst \<Rightarrow> nat \<Rightarrow> nat \<Rightarrow> nat \<Rightarrow> bool" where
  "refers s i dev n \<longleftrightarrow> i < NINODE \<and> 0 < i_ref (inodes s ! i) \<and> i_dev (inodes s ! i) = dev \<and> i_inum (inodes s ! i) = n"

lemma refers_unique: "icache_ok s \<Longrightarrow> refers s i dev n \<Longrightarrow> refers s j dev n \<Longrightarrow> i = j"
  by (auto simp: icache_ok_def refers_def)

lemma upd_inode_held [simp]: "(upd_inode ip f (s\<lparr>held := h\<rparr>)) = (upd_inode ip f s)\<lparr>held := h\<rparr>"
  by (simp add: upd_inode_def)

abbreviation is_entry :: "nat \<Rightarrow> nat \<Rightarrow> inode \<Rightarrow> bool" where
  "is_entry dev n ip \<equiv> i_ref ip > 0 \<and> i_dev ip = dev \<and> i_inum ip = n"

lemma entry_found:
  assumes "icache_ok s" "refers s i dev n"
  shows "first_idx (is_entry dev n) (inodes s) = Some i"
proof -
  have "\<not> is_entry dev n (inodes s ! j)" if "j < i" for j
    using refers_unique[OF assms, of j] that assms(2) by (auto simp: refers_def)
  then show ?thesis
    unfolding first_idx_Some using assms by (auto simp: refers_def icache_ok_def)
qed

lemma entry_none:
  assumes "icache_ok s" "\<forall>i. \<not> refers s i dev n"
  shows "first_idx (is_entry dev n) (inodes s) = None"
  unfolding first_idx_None
proof
  fix x assume "x \<in> set (inodes s)"
  then obtain i where "i < NINODE" "inodes s ! i = x" using assms(1) by (auto simp: in_set_conv_nth icache_ok_def)
  then show "\<not> is_entry dev n x" using assms(2)[rule_format, of i] by (auto simp: refers_def)
qed

lemma iget_hit:
  assumes "held s = []" "icache_ok s" "refers s i dev n"
  shows "iget dev n s = Ok i (upd_inode i (\<lambda>x. x\<lparr>i_ref := i_ref x + 1\<rparr>) s)"
  using entry_found[OF assms(2,3)] assms(1) by (simp add: iget_def)

lemma iget_miss:
  assumes "held s = []" "icache_ok s" "\<forall>i. \<not> refers s i dev n" "i < NINODE" "i_ref (inodes s ! i) = 0"
    "\<And>j. j < i \<Longrightarrow> i_ref (inodes s ! j) \<noteq> 0"
  shows "iget dev n s = Ok i (upd_inode i (\<lambda>x. x\<lparr>i_dev := dev, i_inum := n, i_ref := 1, i_valid := False\<rparr>) s)"
proof -
  have "first_idx (\<lambda>ip. i_ref ip = 0) (inodes s) = Some i"
    unfolding first_idx_Some using assms by (auto simp: icache_ok_def)
  then show ?thesis using entry_none[OF assms(2,3)] assms(1) by (simp add: iget_def del: first_idx_None)
qed

lemma iget_full:
  assumes "held s = []" "icache_ok s" "\<forall>i. \<not> refers s i dev n" "\<forall>i < NINODE. i_ref (inodes s ! i) \<noteq> 0"
  shows "iget dev n s = Panic ''iget: no inodes''"
proof -
  have "first_idx (\<lambda>ip. i_ref ip = 0) (inodes s) = None"
    using assms(2,4) by (auto simp: icache_ok_def in_set_conv_nth)
  then show ?thesis using entry_none[OF assms(2,3)] assms(1) by (simp add: iget_def del: first_idx_None)
qed

text \<open>
  \<open>iget\<close>: the entry it returns refers to the inode, has one reference more, and the cache still holds
  every inode once; it panics when no entry is free.
\<close>

lemma iget_spec:
  assumes "bproto s {}" "icache_ok s" "(\<exists>i. refers s i dev n) \<or> (\<exists>i < NINODE. i_ref (inodes s ! i) = 0)"
  shows "runs (iget dev n s) (\<lambda>i t. refers t i dev n \<and> icache_ok t
     \<and> i_ref (inodes t ! i) = (if refers s i dev n then i_ref (inodes s ! i) + 1 else 1)
     \<and> (refers s i dev n \<or> i_ref (inodes s ! i) = 0 \<and> \<not> i_valid (inodes t ! i))
     \<and> imem ((inodes s)[i := inodes t ! i]) s t)"
proof -
  have h: "held s = []" using bprotoD(1)[OF assms(1)] by (auto simp: idle_locks_def)
  have len: "length (inodes s) = NINODE" using assms(2) by (simp add: icache_ok_def)
  show ?thesis
  proof (cases "\<exists>i. refers s i dev n")
    case True
    then obtain i where i: "refers s i dev n" by blast
    then have il: "i < NINODE" by (simp add: refers_def)
    let ?t = "upd_inode i (\<lambda>x. x\<lparr>i_ref := i_ref x + 1\<rparr>) s"
    have n: "inodes ?t ! j = (if j = i then (inodes s ! i)\<lparr>i_ref := i_ref (inodes s ! i) + 1\<rparr> else inodes s ! j)" for j
      using il len by (simp add: nth_list_update_if)
    have r: "0 < i_ref (inodes ?t ! j) \<longleftrightarrow> 0 < i_ref (inodes s ! j)" "i_dev (inodes ?t ! j) = i_dev (inodes s ! j)"
      "i_inum (inodes ?t ! j) = i_inum (inodes s ! j)" for j
      unfolding n using i by (auto simp: refers_def)
    have r0: "0 \<le> i_ref (inodes ?t ! j)" if "j < NINODE" for j
      unfolding n using assms(2) that il by (auto simp: icache_ok_def)
    have "length (inodes ?t) = NINODE" using len by simp
    then have ok: "icache_ok ?t"
      using assms(2) r0 unfolding icache_ok_def r by blast
    have "refers ?t i dev n" unfolding refers_def r using i by (simp add: refers_def)
    moreover have "i_ref (inodes ?t ! i) = i_ref (inodes s ! i) + 1" unfolding n by simp
    moreover have "imem ((inodes s)[i := inodes ?t ! i]) s ?t"
      using imem_upd_inode[OF assms(1), of i "\<lambda>x. x\<lparr>i_ref := i_ref x + 1\<rparr>"] unfolding n by simp
    ultimately show ?thesis
      unfolding iget_hit[OF h assms(2) i] runs_Ok using i ok by (simp only: if_True simp_thms)
  next
    case False
    then obtain k where "k < NINODE" "i_ref (inodes s ! k) = 0" using assms(3) by blast
    then have ex: "\<exists>k. k < NINODE \<and> i_ref (inodes s ! k) = 0" by blast
    define i where "i = (LEAST k. k < NINODE \<and> i_ref (inodes s ! k) = 0)"
    have i: "i < NINODE" "i_ref (inodes s ! i) = 0" using LeastI_ex[OF ex] by (simp_all add: i_def)
    have fst: "i_ref (inodes s ! j) \<noteq> 0" if "j < i" for j
      using not_less_Least[of j "\<lambda>k. k < NINODE \<and> i_ref (inodes s ! k) = 0"] that i(1) by (auto simp: i_def)
    let ?f = "\<lambda>x. x\<lparr>i_dev := dev, i_inum := n, i_ref := 1, i_valid := False\<rparr>"
    let ?t = "upd_inode i ?f s"
    have n: "inodes ?t ! j = (if j = i then ?f (inodes s ! i) else inodes s ! j)" for j
      using i len by (simp add: nth_list_update_if)
    have nr: "\<not> refers s i dev n" using i by (simp add: refers_def)
    have nf: "\<forall>i. \<not> refers s i dev n" using False by blast
    have "\<not> (0 < i_ref (inodes s ! j) \<and> i_dev (inodes s ! j) = dev \<and> i_inum (inodes s ! j) = n)" if "j < NINODE" for j
      using False that by (auto simp: refers_def)
    then have ok: "icache_ok ?t"
      unfolding icache_ok_def n using assms(2) by (auto simp: icache_ok_def)
    have e: "iget dev n s = Ok i ?t" by (rule iget_miss[OF h assms(2) nf i]) (rule fst)
    have "refers ?t i dev n" unfolding refers_def n using i by simp
    moreover have "i_ref (inodes ?t ! i) = 1" "\<not> i_valid (inodes ?t ! i)" unfolding n by simp_all
    moreover have "imem ((inodes s)[i := inodes ?t ! i]) s ?t"
      using imem_upd_inode[OF assms(1), of i ?f] unfolding n by simp
    ultimately show ?thesis
      unfolding e runs_Ok using i nr ok
      by (simp only: if_False not_False_eq_True simp_thms)
  qed
qed

lemma idup_eq: "held s = [] \<Longrightarrow> idup ip s = Ok ip (upd_inode ip (\<lambda>i. i\<lparr>i_ref := i_ref i + 1\<rparr>) s)"
  by (simp add: idup_def)

text \<open>\<open>iput\<close> when the inode stays: it has links, or other references.\<close>

definition iput_keeps :: "kst \<Rightarrow> nat \<Rightarrow> bool" where
  "iput_keeps s ip \<longleftrightarrow> \<not> (i_valid (inodes s ! ip) \<and> i_nlink (inodes s ! ip) = 0 \<and> i_ref (inodes s ! ip) = 1)"

lemma iput_drop:
  assumes "idle_locks s" "\<not> sl_locked (i_lock (inodes s ! ip))" "iput_keeps s ip" "ip < length (inodes s)"
  shows "iput ip s = Ok () (upd_inode ip (\<lambda>i. i\<lparr>i_lock := free_lock, i_ref := i_ref i - 1\<rparr>)
           (wakeup1 (Some (ChInodeLock ip)) s))"
proof -
  obtain p where h: "held s = []" "curproc s = Some p" using assms(1) by (auto simp: idle_locks_def)
  let ?s = "upd_inode ip (\<lambda>i. i\<lparr>i_lock := my_lock s\<rparr>) s"
  have acq: "acquiresleep (SInode ip) s = Ok () ?s"
    using acquiresleep_free[of s p "SInode ip"] h assms(2) by (simp add: my_lock_def)
  have mid: "(if i_valid (inodes ?s ! ip) \<and> i_nlink (inodes ?s ! ip) = 0 then
        kbind (acquire LIcache ?s) (\<lambda>_ s.
        let r = i_ref (inodes s ! ip) in
        kbind (release LIcache s) (\<lambda>_ s.
        if r = 1 then
          kbind (itrunc ip s) (\<lambda>_ s.
          kbind (iupdate ip (upd_inode ip (\<lambda>i. i\<lparr>i_type := 0\<rparr>) s)) (\<lambda>_ s.
          Ok () (upd_inode ip (\<lambda>i. i\<lparr>i_valid := False\<rparr>) s)))
        else Ok () s))
      else Ok () ?s) = Ok () ?s"
    using assms(3,4) h by (auto simp: iput_keeps_def)
  have e: "upd_inode ip (\<lambda>i. i\<lparr>i_ref := i_ref i - 1\<rparr>) (wakeup1 c (upd_inode ip (\<lambda>i. i\<lparr>i_lock := free_lock\<rparr>) ?s))
    = upd_inode ip (\<lambda>i. i\<lparr>i_lock := free_lock, i_ref := i_ref i - 1\<rparr>) (wakeup1 c s)" for c
    using assms(4) by (simp add: upd_inode_def wakeup1_def)
  show ?thesis
    unfolding iput_def acq kbind_simps mid using h
    by (simp add: releasesleep_eq e)
qed

end
