(* ===== verification/FileSpec.thy ===== *)
theory FileSpec
  imports InodeSpec FsFile
begin

text \<open>
  The content of a file: \<open>file_byte s ip o\<close> is the byte at offset \<open>o\<close> of the inode in entry \<open>ip\<close> of the
  inode cache, \<open>content s ip\<close> the list of all of them. \<open>readi\<close> returns the part of the content it is
  asked for and changes nothing, \<open>writei\<close> overwrites and extends it.
\<close>

definition file_byte :: "kst \<Rightarrow> nat \<Rightarrow> nat \<Rightarrow> u8" where
  "file_byte s ip p = view s (blk_of s ip (p div BSIZE)) ! (p mod BSIZE)"

definition content :: "kst \<Rightarrow> nat \<Rightarrow> u8 list" where
  "content s ip = map (file_byte s ip) [0..<i_size (inodes s ! ip)]"

text \<open>Every offset below \<open>n\<close> has a block.\<close>

definition covers :: "kst \<Rightarrow> nat \<Rightarrow> nat \<Rightarrow> bool" where
  "covers s ip n \<longleftrightarrow> n \<le> MAXFILE * BSIZE \<and> (\<forall>p < n. blk_of s ip (p div BSIZE) \<noteq> 0)"

definition file_ok :: "kst \<Rightarrow> nat \<Rightarrow> bool" where
  "file_ok s ip \<longleftrightarrow> tree_ok s ip \<and> covers s ip (i_size (inodes s ! ip)) \<and> i_dev (inodes s ! ip) = 1
     \<and> i_type (inodes s ! ip) \<noteq> T_DEV"

lemma off_blk: "p < n \<Longrightarrow> n \<le> MAXFILE * BSIZE \<Longrightarrow> p div BSIZE < MAXFILE"
  by (simp add: less_mult_imp_div_less)

lemma length_content [simp]: "length (content s ip) = i_size (inodes s ! ip)"
  by (simp add: content_def)

subsection \<open>Steps that only read\<close>

definition seen :: "kst \<Rightarrow> kst \<Rightarrow> bool" where
  "seen s t \<longleftrightarrow> bproto t {} \<and> view t = view s \<and> pinned t = pinned s \<and> bframe s t"

lemma seenD:
  assumes "seen s t"
  shows "bproto t {}" "view t = view s" "pinned t = pinned s" "bframe s t" "lg t = lg s" "sb t = sb s"
    "inodes t = inodes s" "disk t = disk s" "disksize t = disksize s" "held t = held s" "curproc t = curproc s"
    "files t = files s" "pipes t = pipes s"
  using assms bframeD[of s t] by (simp_all add: seen_def)

lemma seen_refl: "bproto s {} \<Longrightarrow> seen s s"
  by (simp add: seen_def)

lemma seen_trans: "seen s t \<Longrightarrow> seen t u \<Longrightarrow> seen s u"
  using bframe_trans by (auto simp: seen_def)

lemma seen_log_ok: "seen s t \<Longrightarrow> log_ok t = log_ok s"
  using seenD[of s t] by (simp add: log_ok_def log_geom_def logged_def home_off_log)

lemma seen_txn: "seen s t \<Longrightarrow> txn s {} \<Longrightarrow> txn t {}"
  using seenD[of s t] seen_log_ok[of s t] by (simp add: txn_def)

lemma seen_abs:
  assumes "seen s t"
  shows "inode_node t = inode_node s" "tree_ok t ip = tree_ok s ip" "fs_ok t = fs_ok s" "fs_geom t = fs_geom s"
    "blk_of t = blk_of s" "file_byte t = file_byte s" "is_data t = is_data s" "content t = content s"
    "file_ok t ip = file_ok s ip" "disk_inode t = disk_inode s"
proof -
  note D = seenD[OF assms]
  note tg = tframe_geom[OF tframe_bframe[OF D(4)]]
  show n: "inode_node t = inode_node s" by (intro ext) (simp add: inode_node_def iaddrs_def D)
  have u: "used_blk t = used_blk s" by (intro ext) (simp add: used_blk_def D tg)
  show d: "is_data t = is_data s" by (intro ext) (simp add: is_data_def u D tg)
  show r: "tree_ok t ip = tree_ok s ip" by (simp add: tree_ok_def n d iaddrs_def D)
  show "fs_geom t = fs_geom s" by (rule tg)
  show "fs_ok t = fs_ok s" by (simp add: fs_ok_def u tg)
  show b: "blk_of t = blk_of s" by (intro ext) (simp add: blk_of_def n)
  show f: "file_byte t = file_byte s" by (intro ext) (simp add: file_byte_def b D)
  show "content t = content s" by (intro ext) (simp add: content_def f D)
  show "file_ok t ip = file_ok s ip" by (simp add: file_ok_def covers_def r b D)
  show "disk_inode t = disk_inode s" by (intro ext) (simp add: disk_inode_def D tg)
qed

text \<open>Reading a block and releasing it.\<close>

lemma read_seen:
  assumes "bproto s {}" "n < disksize s" "card (pinned s) < NBUF"
  shows "runs (bread 1 n s) (\<lambda>i t. b_data (bufs t ! i) = view s n \<and> inodes t = inodes s \<and> runs (brelse i t) (\<lambda>_. seen s))"
proof -
  have "ready s {} n" using assms by (simp add: ready_def)
  from read_blk[OF assms(1) this] show ?thesis
    by (rule runs_mono) (auto elim!: runs_mono simp: seen_def dest: bframeD(5))
qed

lemma bmap_child_read:
  assumes S: "seen s t" and c: "card (pinned s) < NBUF" and g: "fs_geom s" "log_ok s" and R: "tree_ok s ip"
    and dev: "i_dev (inodes s ! ip) = 1"
    and p: "tpath (r, is @ [k])" and nz: "inode_node s ip (r, is @ [k]) \<noteq> 0"
  shows "runs (bmap_child ip (inode_node s ip (r, is)) k t) (\<lambda>c u. c = inode_node s ip (r, is @ [k]) \<and> seen s u)"
proof -
  note D = seenD[OF S]
  let ?a = "inode_node s ip (r, is)"
  have a: "?a \<noteq> 0" and w: "word_at (view s ?a) k = inode_node s ip (r, is @ [k])"
    using nz by (auto simp: inode_node_def split: if_splits)
  have "is_data s ?a" using tree_okD(3)[OF R inner_tpath a] tpath_butlast[OF p] by blast
  then have sz: "?a < disksize t" using fs_geomD(2)[OF g] by (simp add: is_data_def D(9))
  have c': "card (pinned t) < NBUF" using c by (simp add: D(3))
  show ?thesis
    unfolding bmap_child_def runs_kbind D(7) dev Let_def
  proof (rule runs_mono[OF read_seen[OF D(1) sz c']], elim conjE)
    fix i u
    assume b: "b_data (bufs u ! i) = view t ?a" and rl: "runs (brelse i u) (\<lambda>_. seen t)"
    have "word_at (b_data (bufs u ! i)) k = inode_node s ip (r, is @ [k])" using b w by (simp add: D(2))
    then show "runs (if word_at (b_data (bufs u ! i)) k = 0
        then kbind (balloc (i_dev (inodes u ! ip)) u) (\<lambda>addr s. kbind (log_write i (set_data i (set_word k addr) s)) (\<lambda>_ s. Ok addr s))
        else Ok (word_at (b_data (bufs u ! i)) k) u)
      (\<lambda>addr s'. runs (brelse i s') (\<lambda>_ s'. runs (Ok addr s') (\<lambda>c u. c = inode_node s ip (r, is @ [k]) \<and> seen s u)))"
      using nz runs_mono[OF rl, of "\<lambda>_. seen s"] seen_trans[OF S] by simp
  qed
qed

lemma bmap_root_read:
  assumes "seen s t" "inode_node s ip (k, []) \<noteq> 0"
  shows "runs (bmap_root ip k t) (\<lambda>c u. c = inode_node s ip (k, []) \<and> seen s u)"
  using assms seenD(7)[OF assms(1)] by (simp add: bmap_root_def Let_def inode_node_def iaddrs_def)

lemma bpath_cases:
  assumes "bn < MAXFILE"
  shows "bn < NDIRECT \<and> bpath bn = (bn, []) \<and> (\<forall>ip s. bmap ip bn s = bmap_root ip bn s)
    \<or> (\<exists>r i. bpath bn = (r, [i]) \<and> r < 13
        \<and> (\<forall>ip s. bmap ip bn s = kbind (bmap_root ip r s) (\<lambda>a s. bmap_child ip a i s)))
    \<or> (\<exists>r i j. bpath bn = (r, [i, j]) \<and> r < 13 \<and> (\<forall>ip s. bmap ip bn s = kbind (bmap_root ip r s) (\<lambda>a s.
          kbind (bmap_child ip a i s) (\<lambda>a s. bmap_child ip a j s))))
    \<or> (\<exists>r i j k. bpath bn = (r, [i, j, k]) \<and> r < 13 \<and> (\<forall>ip s. bmap ip bn s = kbind (bmap_root ip r s) (\<lambda>a s.
          kbind (bmap_child ip a i s) (\<lambda>a s. kbind (bmap_child ip a j s) (\<lambda>a s. bmap_child ip a k s)))))"
proof -
  let ?b1 = "bn - NDIRECT"
  let ?b2 = "?b1 - 2 ^ 7"
  let ?b3 = "?b2 - 2 ^ 14"
  have r: "NDIRECT < 13" "DINDIRECT_IDX < 13" "TINDIRECT_IDX < 13" by (simp_all add: param_defs)
  consider (d) "bn < NDIRECT" | (s) "\<not> bn < NDIRECT" "?b1 < 2 ^ 7"
    | (dd) "\<not> bn < NDIRECT" "\<not> ?b1 < 2 ^ 7" "?b2 < 2 ^ 14"
    | (t) "\<not> bn < NDIRECT" "\<not> ?b1 < 2 ^ 7" "\<not> ?b2 < 2 ^ 14" by blast
  then show ?thesis
  proof cases
    case d
    then show ?thesis by (simp add: bpath_def bmap_def)
  next
    case s
    then show ?thesis using r(1) by (simp add: bpath_def bmap_def)
  next
    case dd
    then show ?thesis using r(2) by (simp add: bpath_def bmap_def Let_def drop_bits and_7F)
  next
    case t
    have "?b3 < 2 ^ 21" using assms t by (simp add: param_defs)
    then show ?thesis using t r(3) by (simp add: bpath_def bmap_def Let_def drop_bits and_7F)
  qed
qed

text \<open>Where the file has a block, \<open>bmap\<close> returns it and changes nothing, also outside a transaction.\<close>

lemma bmap_read:
  assumes S: "seen s t" and c: "card (pinned s) < NBUF" and g: "fs_geom s" "log_ok s" and R: "tree_ok s ip"
    and dev: "i_dev (inodes s ! ip) = 1" and bn: "bn < MAXFILE" and nz: "blk_of s ip bn \<noteq> 0"
  shows "runs (bmap ip bn t) (\<lambda>c u. c = blk_of s ip bn \<and> seen s u)"
proof -
  note tp = bpath_full(1)[OF bn]
  note step = bmap_child_read[OF _ c g R dev]
  note up = node_up
  have tup: "tpath (r, is)" if "tpath (r, is @ [k])" for r "is" k using that by (auto simp: tpath_def)
  from bpath_cases[OF bn] show ?thesis
  proof (elim disjE exE conjE)
    assume p: "bpath bn = (bn, [])" and e: "\<forall>ip s. bmap ip bn s = bmap_root ip bn s"
    show ?thesis using bmap_root_read[OF S, of ip bn] nz by (simp add: e blk_of_def p)
  next
    fix r i
    assume p: "bpath bn = (r, [i])" and e: "\<forall>ip s. bmap ip bn s = kbind (bmap_root ip r s) (\<lambda>a s. bmap_child ip a i s)"
    have n1: "inode_node s ip (r, [] @ [i]) \<noteq> 0" "tpath (r, [] @ [i])" using nz tp by (simp_all add: blk_of_def p)
    note n0 = up[OF n1(1)]
    show ?thesis
      unfolding e[rule_format] runs_kbind blk_of_def p
      by (rule runs_mono[OF bmap_root_read[OF S n0]], elim conjE, hypsubst)
        (use step[OF _ n1(2,1)] in simp)
  next
    fix r i j
    assume p: "bpath bn = (r, [i, j])" and e: "\<forall>ip s. bmap ip bn s = kbind (bmap_root ip r s) (\<lambda>a s.
          kbind (bmap_child ip a i s) (\<lambda>a s. bmap_child ip a j s))"
    have n2: "inode_node s ip (r, [i] @ [j]) \<noteq> 0" "tpath (r, [i] @ [j])" using nz tp by (simp_all add: blk_of_def p)
    have n1: "inode_node s ip (r, [] @ [i]) \<noteq> 0" "tpath (r, [] @ [i])" using up[OF n2(1)] tup[OF n2(2)] by simp_all
    note n0 = up[OF n1(1)]
    show ?thesis
      unfolding e[rule_format] runs_kbind blk_of_def p
      by (rule runs_mono[OF bmap_root_read[OF S n0]], elim conjE, hypsubst,
          rule runs_mono[OF step[OF _ n1(2,1)]], assumption, elim conjE, hypsubst)
        (use step[OF _ n2(2,1)] in simp)
  next
    fix r i j k
    assume p: "bpath bn = (r, [i, j, k])" and e: "\<forall>ip s. bmap ip bn s = kbind (bmap_root ip r s) (\<lambda>a s.
          kbind (bmap_child ip a i s) (\<lambda>a s. kbind (bmap_child ip a j s) (\<lambda>a s. bmap_child ip a k s)))"
    have n3: "inode_node s ip (r, [i, j] @ [k]) \<noteq> 0" "tpath (r, [i, j] @ [k])" using nz tp by (simp_all add: blk_of_def p)
    have n2: "inode_node s ip (r, [i] @ [j]) \<noteq> 0" "tpath (r, [i] @ [j])" using up[OF n3(1)] tup[OF n3(2)] by simp_all
    have n1: "inode_node s ip (r, [] @ [i]) \<noteq> 0" "tpath (r, [] @ [i])" using up[OF n2(1)] tup[OF n2(2)] by simp_all
    note n0 = up[OF n1(1)]
    show ?thesis
      unfolding e[rule_format] runs_kbind blk_of_def p
      by (rule runs_mono[OF bmap_root_read[OF S n0]], elim conjE, hypsubst,
          rule runs_mono[OF step[OF _ n1(2,1)]], assumption, elim conjE, hypsubst, simp only: append.simps,
          rule runs_mono[OF step[OF _ n2(2,1)]], assumption, elim conjE, hypsubst, simp only: append.simps)
        (use step[OF _ n3(2,1)] in simp)
  qed
qed

subsection \<open>\<open>readi\<close>\<close>

lemma upt_split: "a \<le> b \<Longrightarrow> b \<le> c \<Longrightarrow> [a..<b] @ [b..<c] = [a..<c]"
  using upt_add_eq_append[of a b "c - b"] by simp

lemma div_mod_offset: "x < b \<Longrightarrow> (x + k * b) div b = k \<and> (x + k * b) mod b = (x :: nat)"
  by simp

text \<open>The bytes of one block.\<close>

lemma chunk_bytes:
  assumes "length (view s (blk_of s ip (p div BSIZE))) = BSIZE" "m \<le> BSIZE - p mod BSIZE"
  shows "take m (drop (p mod BSIZE) (view s (blk_of s ip (p div BSIZE)))) = map (file_byte s ip) [p..<p + m]"
proof (rule nth_equalityI)
  show "length (take m (drop (p mod BSIZE) (view s (blk_of s ip (p div BSIZE))))) = length (map (file_byte s ip) [p..<p + m])"
    using assms by simp
  fix i assume "i < length (take m (drop (p mod BSIZE) (view s (blk_of s ip (p div BSIZE)))))"
  then have i: "i < m" "p mod BSIZE + i < BSIZE" using assms by simp_all
  have e: "p + i = (p mod BSIZE + i) + (p div BSIZE) * BSIZE" by simp
  have "(p + i) div BSIZE = p div BSIZE" "(p + i) mod BSIZE = p mod BSIZE + i"
    using div_mod_offset[OF i(2), of "p div BSIZE"] unfolding e[symmetric] by simp_all
  then show "take m (drop (p mod BSIZE) (view s (blk_of s ip (p div BSIZE)))) ! i = map (file_byte s ip) [p..<p + m] ! i"
    using i assms by (simp add: file_byte_def)
qed

lemma readi_loop_spec:
  assumes S: "seen s t" and c: "card (pinned s) < NBUF" and g: "fs_geom s" "log_ok s" and R: "tree_ok s ip"
    and dev: "i_dev (inodes s ! ip) = 1" and cov: "covers s ip fsz" and le: "p + (n - tot) \<le> fsz" and tot: "tot \<le> n"
  shows "runs (readi_loop ip n tot p acc t) (\<lambda>bs u. seen s u \<and> bs = acc @ map (file_byte s ip) [p..<p + (n - tot)])"
  using S le tot
proof (induction "n - tot" arbitrary: tot p acc t rule: less_induct)
  case less
  show ?case
  proof (cases "tot < n")
    case False
    then show ?thesis using less.prems by (subst readi_loop.simps) simp
  next
    case True
    let ?bn = "p div BSIZE" and ?m = "min (n - tot) (BSIZE - p mod BSIZE)"
    have B: "0 < BSIZE" by (simp add: param_defs)
    have m0: "0 < ?m" using True B by simp
    have psz: "p < fsz" using less.prems True by linarith
    have bn: "?bn < MAXFILE" and nz: "blk_of s ip ?bn \<noteq> 0" using cov psz off_blk[OF psz] by (auto simp: covers_def)
    have dt: "is_data s (blk_of s ip ?bn)"
      using tree_okD(3)[OF R bpath_full(1)[OF bn]] nz by (simp add: blk_of_def)
    then have bsz: "blk_of s ip ?bn < disksize s" using fs_geomD(2)[OF g] by (simp add: is_data_def)
    have len: "length (view s (blk_of s ip ?bn)) = BSIZE"
      using length_view[OF bprotoD(2)[OF seenD(1)[OF S]], of "blk_of s ip ?bn"] bsz by (simp add: seenD[OF S])
    have IH: "runs (readi_loop ip n (tot + ?m) (p + ?m) (acc @ map (file_byte s ip) [p..<p + ?m]) v)
        (\<lambda>bs u. seen s u \<and> bs = acc @ map (file_byte s ip) [p..<p + (n - tot)])" if "seen s v" for v
    proof -
      have q: "p + ?m + (n - (tot + ?m)) = p + (n - tot)" using True by auto
      have sp: "map (file_byte s ip) [p..<p + ?m] @ map (file_byte s ip) [p + ?m..<p + (n - tot)]
          = map (file_byte s ip) [p..<p + (n - tot)]"
        unfolding map_append[symmetric] by (subst upt_split) simp_all
      have d: "n - (tot + ?m) < n - tot" using m0 True by auto
      have t: "tot + ?m \<le> n" using True by auto
      show ?thesis
        using less.hyps[OF d that, of "p + ?m" "acc @ map (file_byte s ip) [p..<p + ?m]"] t less.prems(2)
        unfolding q append_assoc sp by simp
    qed
    show ?thesis
      unfolding readi_loop.simps[of ip n tot] if_P[OF True] runs_kbind
    proof (rule runs_mono[OF bmap_read[OF less.prems(1) c g R dev bn nz]], elim conjE)
      fix a u
      assume a: "a = blk_of s ip ?bn" and S': "seen s u"
      have fsz: "blk_of s ip ?bn < disksize u" and c': "card (pinned u) < NBUF" using bsz c by (simp_all add: seenD[OF S'])
      show "runs (bread (i_dev (inodes u ! ip)) a u) (\<lambda>bp s'. runs (let m = ?m; chunk = take m (drop (p mod BSIZE) (b_data (bufs s' ! bp)))
          in kbind (brelse bp s') (\<lambda>_ s. readi_loop ip n (tot + m) (p + m) (acc @ chunk) s))
          (\<lambda>bs u. seen s u \<and> bs = acc @ map (file_byte s ip) [p..<p + (n - tot)]))"
        unfolding a seenD(7)[OF S'] dev Let_def runs_kbind
      proof (rule runs_mono[OF read_seen[OF seenD(1)[OF S'] fsz c']], elim conjE)
        fix i v
        assume b: "b_data (bufs v ! i) = view u (blk_of s ip ?bn)" and rl: "runs (brelse i v) (\<lambda>_. seen u)"
        have ch: "take ?m (drop (p mod BSIZE) (b_data (bufs v ! i))) = map (file_byte s ip) [p..<p + ?m]"
          unfolding b seenD(2)[OF S'] by (rule chunk_bytes[OF len]) simp
        show "runs (brelse i v) (\<lambda>_ s'. runs (readi_loop ip n (tot + ?m) (p + ?m)
            (acc @ take ?m (drop (p mod BSIZE) (b_data (bufs v ! i)))) s')
            (\<lambda>bs u. seen s u \<and> bs = acc @ map (file_byte s ip) [p..<p + (n - tot)]))"
          unfolding ch by (rule runs_mono[OF rl], rule IH, erule seen_trans[OF S'])
      qed
    qed
  qed
qed

text \<open>\<open>readi\<close> returns the bytes it is asked for, up to the end of the file.\<close>

lemma readi_spec:
  assumes P: "bproto s {}" and c: "card (pinned s) < NBUF" and g: "fs_geom s" "log_ok s" and F: "file_ok s ip"
    and p: "p \<le> i_size (inodes s ! ip)" and n: "p + n < 2 ^ 32"
  shows "runs (readi ip p n s) (\<lambda>(r, bs) t. seen s t \<and> bs = take n (drop p (content s ip)) \<and> r = int (length bs))"
proof -
  let ?sz = "i_size (inodes s ! ip)"
  have R: "tree_ok s ip" and cov: "covers s ip ?sz" and dev: "i_dev (inodes s ! ip) = 1"
    and ty: "i_type (inodes s ! ip) \<noteq> T_DEV" using F by (simp_all add: file_ok_def)
  define k where "k = (if p + n > ?sz then ?sz - p else n)"
  have k: "p + k \<le> ?sz" "k = min n (?sz - p)" using p by (auto simp: k_def)
  have "?sz \<le> MAXFILE * BSIZE" using cov by (simp add: covers_def)
  then have k31: "k < 2 ^ 31" using k(1) by (simp add: param_defs)
  have bytes: "map (file_byte s ip) [p..<p + k] = take n (drop p (content s ip))"
  proof (rule nth_equalityI)
    fix i assume "i < length (map (file_byte s ip) [p..<p + k])"
    then have "i < n" "i < ?sz - p" using k(2) by simp_all
    then show "map (file_byte s ip) [p..<p + k] ! i = take n (drop p (content s ip)) ! i"
      using k(1) \<open>i < length _\<close> by (simp add: content_def)
  qed (use k in simp)
  have e: "readi ip p n s = kbind (readi_loop ip k 0 p [] s) (\<lambda>bs s. Ok (sint32 k, bs) s)"
    using ty p n by (simp add: readi_def uadd_small Let_def k_def)
  have "runs (readi_loop ip k 0 p [] s) (\<lambda>bs t. seen s t \<and> bs = [] @ map (file_byte s ip) [p..<p + (k - 0)])"
    by (rule readi_loop_spec[OF seen_refl[OF P] c g R dev cov]) (use k in simp_all)
  then show ?thesis
    unfolding e runs_kbind
    by (rule runs_mono) (use k31 in \<open>simp add: bytes[symmetric] sint32_def\<close>)
qed

lemma readi_outside:
  assumes "i_type (inodes s ! ip) \<noteq> T_DEV" "p > i_size (inodes s ! ip) \<or> uadd p n < p"
  shows "readi ip p n s = Ok (- 1, []) s"
  using assms by (auto simp: readi_def Let_def)

end
