(* ===== verification/WriteSpec.thy ===== *)
theory WriteSpec
  imports FileSpec
begin

text \<open>
  \<open>writei\<close>: the content of the file is overwritten from the offset on and extended, and no block of
  another file changes.
\<close>

subsection \<open>Changing a data block of the file\<close>

definition nodes_of :: "kst \<Rightarrow> nat \<Rightarrow> nat set" where
  "nodes_of s ip = {inode_node s ip p | p. tpath p \<and> inode_node s ip p \<noteq> 0}"

lemma nodes_ofI: "tpath p \<Longrightarrow> inode_node s ip p \<noteq> 0 \<Longrightarrow> inode_node s ip p \<in> nodes_of s ip"
  unfolding nodes_of_def by blast

lemma indirects_nodes: "indirects s ip \<subseteq> nodes_of s ip"
  unfolding indirects_def nodes_of_def using inner_tpath by blast

lemma leaf_mod:
  assumes D: "did_mod {} u c d v" and T: "txn u {}" and F: "fs_ok u" and R: "tree_ok u ip" and bn: "bn < MAXFILE"
    and c: "c = blk_of u ip bn" "c \<noteq> 0"
  shows "txn v {}" "fs_ok v" "tree_ok v ip" "tframe u v" "tpath q \<Longrightarrow> inode_node v ip q = inode_node u ip q"
    "view v = (view u)(c := d)" "is_data v = is_data u" "stock u (Suc n) \<Longrightarrow> stock v n"
proof -
  have L: "later {} u v" and pv: "pinned v = insert c (pinned u)" using D by (simp_all add: did_mod_def)
  show vw: "view v = (view u)(c := d)" using D by (simp add: did_mod_def)
  show "txn v {}" and tf: "tframe u v" using laterD[OF L] by simp_all
  have i: "inodes v = inodes u" by (rule tframeD(4)[OF tf])
  have g: "fs_geom u" using F by (simp add: fs_ok_def)
  note tp = bpath_full[OF bn]
  have cd: "is_data u c" using tree_okD(3)[OF R tp(1)] c by (simp add: blk_of_def)
  have u: "used_blk v m = used_blk u m" if "m < sb_size (sb u)" for m
    using BBLOCK_eq(3)[OF g txnD(2)[OF T] that] cd by (auto simp: used_blk_def tframe_geom[OF tf] vw is_data_def)
  show d: "is_data v = is_data u"
    using u by (intro ext) (auto simp: is_data_def tframe_geom[OF tf] tframeD[OF tf])
  have "m < data_start u \<Longrightarrow> m < sb_size (sb u)" for m using fs_geomD(6)[OF g txnD(2)[OF T]] by simp
  then show "fs_ok v" using F u by (simp add: fs_ok_def tframe_geom[OF tf])
  have ind: "c \<notin> indirects u ip" using leaf_not_indirect[OF R tp] c by (simp add: blk_of_def)
  have N: "inode_node v ip q = inode_node u ip q" if q: "tpath q" for q
  proof -
    have "view u (inode_node u ip (fst q, js)) = view v (inode_node u ip (fst q, js))"
      if "snd q = js @ j # js'" "inode_node u ip (fst q, js) \<noteq> 0" for js j js'
    proof -
      have "inner (fst q, js)" using q that(1) by (simp add: inner_def tpath_def)
      then have "inode_node u ip (fst q, js) \<noteq> c" using indirectsI[OF _ that(2)] ind by metis
      then show ?thesis by (simp add: vw)
    qed
    then show ?thesis
      unfolding inode_node_def by (intro node_cong) (simp_all add: iaddrs_def i)
  qed
  then show "tpath q \<Longrightarrow> inode_node v ip q = inode_node u ip q" .
  show "tree_ok v ip"
    using R unfolding tree_ok_def d i iaddrs_def by (simp add: N)
  show "stock v n" if "stock u (Suc n)"
  proof -
    have "{b. free_data v b} = {b. free_data u b}" using u tframeD(3)[OF tf] by (auto simp: free_data_def)
    moreover have "card (pinned v) \<le> card (pinned u) + 3"
      unfolding pv by (simp add: card_insert_if finite_pinned[OF txnD(5)[OF T]])
    ultimately show ?thesis using that by (auto simp: stock_def fits_def)
  qed
qed

lemma length_put_bytes: "p + length xs \<le> length d \<Longrightarrow> length (put_bytes p xs d) = length d"
  by (simp add: put_bytes_def)

lemma nth_put_bytes:
  "p + length xs \<le> length d \<Longrightarrow> i < length d \<Longrightarrow>
     put_bytes p xs d ! i = (if p \<le> i \<and> i < p + length xs then xs ! (i - p) else d ! i)"
  by (auto simp: put_bytes_def nth_append)

subsection \<open>The loop\<close>

definition wstate :: "nat \<Rightarrow> kst \<Rightarrow> u8 list \<Rightarrow> nat \<Rightarrow> nat \<Rightarrow> kst \<Rightarrow> bool" where
  "wstate ip s src p k t \<longleftrightarrow> txn t {} \<and> fs_ok t \<and> tree_ok t ip \<and> iframe ip s t
     \<and> (inodes t ! ip)\<lparr>i_addrs := []\<rparr> = (inodes s ! ip)\<lparr>i_addrs := []\<rparr>
     \<and> (\<forall>m. is_data s m \<longrightarrow> is_data t m \<and> (m \<notin> nodes_of s ip \<longrightarrow> m \<notin> nodes_of t ip \<and> view t m = view s m))
     \<and> (\<forall>m < sb_bmapstart (sb s). view t m = view s m)
     \<and> (\<forall>x < max (i_size (inodes s ! ip)) (p + k). blk_of t ip (x div BSIZE) \<noteq> 0
          \<and> file_byte t ip x = (if p \<le> x \<and> x < p + k then src ! (x - p) else file_byte s ip x))"

lemma wstateD:
  assumes "wstate ip s src p k t"
  shows "txn t {}" "fs_ok t" "tree_ok t ip" "iframe ip s t"
    "(inodes t ! ip)\<lparr>i_addrs := []\<rparr> = (inodes s ! ip)\<lparr>i_addrs := []\<rparr>"
    "is_data s m \<Longrightarrow> is_data t m" "is_data s m \<Longrightarrow> m \<notin> nodes_of s ip \<Longrightarrow> m \<notin> nodes_of t ip \<and> view t m = view s m"
    "m < sb_bmapstart (sb s) \<Longrightarrow> view t m = view s m"
    "x < max (i_size (inodes s ! ip)) (p + k) \<Longrightarrow> blk_of t ip (x div BSIZE) \<noteq> 0"
    "x < max (i_size (inodes s ! ip)) (p + k) \<Longrightarrow>
       file_byte t ip x = (if p \<le> x \<and> x < p + k then src ! (x - p) else file_byte s ip x)"
  using assms unfolding wstate_def by blast+

text \<open>One round: the next \<open>m\<close> bytes go to the block of the current offset.\<close>

lemma write_round:
  assumes W: "wstate ip s src p k t" and G: "walked ip (on_path bn) (bpath bn) n t c u"
    and D: "did_mod {} u c (put_bytes ((p + k) mod BSIZE) xs (view u c)) v"
    and bn: "bn = (p + k) div BSIZE" "bn < MAXFILE" and ps: "p \<le> i_size (inodes s ! ip)"
    and m: "length xs = m" "m \<le> BSIZE - (p + k) mod BSIZE" "xs = take m (drop k src)"
      "k + m \<le> length src" and mx: "p + k + m \<le> MAXFILE * BSIZE" "i_size (inodes s ! ip) \<le> MAXFILE * BSIZE"
  shows "wstate ip s src p (k + m) v"
proof -
  note A = wstateD[OF W]
  have gr: "grow {} ip (on_path bn) t u" and c: "c = blk_of u ip bn" "c \<noteq> 0"
    using G by (simp_all add: walked_def blk_of_def)
  note U = growD[OF gr]
  note V = leaf_mod[OF D U(1,2,3) bn(2) c]
  note tp = bpath_full[OF bn(2)]
  let ?sz = "i_size (inodes s ! ip)" and ?q = "p + k"
  have bv: "blk_of v ip b = blk_of u ip b" if "b < MAXFILE" for b
    using V(5)[OF bpath_full(1)[OF that]] by (simp add: blk_of_def)
  have bu: "blk_of u ip b = blk_of t ip b" if "b < MAXFILE" "b \<noteq> bn \<or> blk_of t ip b \<noteq> 0" for b
    unfolding blk_of_def
  proof (cases "blk_of t ip b = 0")
    case True
    then have "bpath b \<notin> on_path bn"
      using that bpath_full[OF that(1)] bpath_inj[OF that(1) bn(2)] by (auto simp: on_path_def)
    then show "inode_node u ip (bpath b) = inode_node t ip (bpath b)" by (rule U(7)[OF bpath_full(1)[OF that(1)]])
  next
    case False
    then show "inode_node u ip (bpath b) = inode_node t ip (bpath b)"
      by (intro U(8)[OF bpath_full(1)[OF that(1)]]) (simp add: blk_of_def)
  qed
  have vu: "view u (blk_of t ip b) = view t (blk_of t ip b)" if "b < MAXFILE" "blk_of t ip b \<noteq> 0" for b
  proof (rule U(12))
    note f = bpath_full[OF that(1)]
    show "is_data t (blk_of t ip b)" using tree_okD(3)[OF A(3) f(1)] that(2) by (simp add: blk_of_def)
    show "blk_of t ip b \<notin> indirects t ip"
      using leaf_not_indirect[OF A(3) f] that(2) by (simp add: blk_of_def)
  qed
  have cd: "is_data u c" using tree_okD(3)[OF U(3) tp(1)] c by (simp add: blk_of_def)
  have gu: "fs_geom u" using U(2) by (simp add: fs_ok_def)
  have lc: "length (view u c) = BSIZE"
    using cd fs_geomD(2)[OF gu txnD(2)[OF U(1)]] by (intro length_view txnD(5)[OF U(1)]) (simp add: is_data_def)
  have B: "0 < BSIZE" by (simp add: param_defs)
  have fit: "?q mod BSIZE + length xs \<le> length (view u c)"
  proof -
    have "?q mod BSIZE < BSIZE" using B by simp
    then show ?thesis using m(1,2) lc by linarith
  qed
  have bytes: "blk_of v ip (x div BSIZE) \<noteq> 0
      \<and> file_byte v ip x = (if p \<le> x \<and> x < p + (k + m) then src ! (x - p) else file_byte s ip x)"
    if x: "x < max ?sz (p + (k + m))" for x
  proof -
    have xb: "x div BSIZE < MAXFILE" using x mx by (intro off_blk[of x "max ?sz (p + (k + m))"]) auto
    have fv: "file_byte v ip x = (if x div BSIZE = bn then put_bytes (?q mod BSIZE) xs (view u c) ! (x mod BSIZE)
        else file_byte u ip x)"
    proof (cases "x div BSIZE = bn")
      case True
      then show ?thesis using bv[OF bn(2)] c by (simp add: file_byte_def V(6))
    next
      case False
      have "blk_of u ip (x div BSIZE) \<noteq> c"
      proof
        assume e: "blk_of u ip (x div BSIZE) = c"
        then have "bpath (x div BSIZE) = bpath bn"
          using tree_okD(4)[OF U(3) bpath_full(1)[OF xb] tp(1)] c by (simp add: blk_of_def)
        then show False using bpath_inj[OF xb bn(2)] False by simp
      qed
      then show ?thesis using False bv[OF xb] by (simp add: file_byte_def V(6))
    qed
    have old: "file_byte u ip x = file_byte t ip x" "blk_of u ip (x div BSIZE) = blk_of t ip (x div BSIZE)"
      if "blk_of t ip (x div BSIZE) \<noteq> 0"
      using bu[OF xb] vu[OF xb that] that by (simp_all add: file_byte_def)
    show ?thesis
    proof (cases "?q \<le> x \<and> x < ?q + m")
      case True
      have "x mod BSIZE = ?q mod BSIZE + (x - ?q) \<and> x div BSIZE = bn"
      proof -
        have "?q mod BSIZE + (x - ?q) < BSIZE" using True fit m(1) lc by linarith
        moreover have "x = (?q mod BSIZE + (x - ?q)) + (?q div BSIZE) * BSIZE"
          using True by (metis add.commute add.left_commute div_mult_mod_eq le_add_diff_inverse)
        ultimately show ?thesis using div_mod_offset[of "?q mod BSIZE + (x - ?q)" BSIZE "?q div BSIZE"] bn(1) by metis
      qed
      then have xm: "x mod BSIZE = ?q mod BSIZE + (x - ?q)" "x div BSIZE = bn" by simp_all
      have "put_bytes (?q mod BSIZE) xs (view u c) ! (x mod BSIZE) = xs ! (x - ?q)"
        using nth_put_bytes[OF fit, of "x mod BSIZE"] xm(1) True m(1) fit by auto
      also have "\<dots> = src ! (x - p)" using True m by auto
      finally show ?thesis using fv xm(2) bv[OF bn(2)] c True by simp
    next
      case False
      then have xt: "x < max ?sz (p + k)" using x by auto
      note t1 = A(9)[OF xt] and t2 = A(10)[OF xt]
      have keep: "put_bytes (?q mod BSIZE) xs (view u c) ! (x mod BSIZE) = file_byte u ip x" if e: "x div BSIZE = bn"
      proof -
        have "\<not> (?q mod BSIZE \<le> x mod BSIZE \<and> x mod BSIZE < ?q mod BSIZE + length xs)"
        proof
          assume r: "?q mod BSIZE \<le> x mod BSIZE \<and> x mod BSIZE < ?q mod BSIZE + length xs"
          have "x = bn * BSIZE + x mod BSIZE" using div_mult_mod_eq[of x BSIZE] unfolding e by simp
          moreover have "?q = bn * BSIZE + ?q mod BSIZE" unfolding bn(1) by simp
          ultimately show False using r False m(1) by linarith
        qed
        moreover have "x mod BSIZE < length (view u c)" using B lc by simp
        ultimately have "put_bytes (?q mod BSIZE) xs (view u c) ! (x mod BSIZE) = view u c ! (x mod BSIZE)"
          unfolding nth_put_bytes[OF fit \<open>x mod BSIZE < length (view u c)\<close>] by (simp only: if_False)
        then show ?thesis using c e by (simp add: file_byte_def)
      qed
      have "file_byte v ip x = file_byte t ip x" using fv keep old(1)[OF t1] by (cases "x div BSIZE = bn") simp_all
      moreover have "blk_of v ip (x div BSIZE) \<noteq> 0" using bv[OF xb] old(2)[OF t1] t1 by simp
      moreover have "(p \<le> x \<and> x < p + (k + m)) = (p \<le> x \<and> x < p + k)" using False by auto
      ultimately show ?thesis using t2 by simp
    qed
  qed
  have sb: "sb t = sb s" "sb u = sb s"
    using iframeD(3)[OF A(4)] iframeD(3)[OF iframe_trans[OF A(4) U(4)]] by simp_all
  have other: "m \<notin> nodes_of v ip \<and> view v m = view s m" if m: "is_data s m" "m \<notin> nodes_of s ip" for m
  proof -
    note t = A(7)[OF m] and mt = A(6)[OF m(1)]
    have nu: "m \<notin> nodes_of u ip"
    proof
      assume "m \<in> nodes_of u ip"
      then obtain q where q: "tpath q" "m = inode_node u ip q" "inode_node u ip q \<noteq> 0" by (auto simp: nodes_of_def)
      show False
      proof (cases "inode_node t ip q = 0")
        case True
        then show False using U(9)[OF q(1,3)] mt q(2) by simp
      next
        case False
        then show False using U(8)[OF q(1) False] nodes_ofI[OF q(1) False] t q(2) by simp
      qed
    qed
    have "view u m = view t m" using U(12)[OF mt] t indirects_nodes by blast
    moreover have "m \<noteq> c" using nu nodes_ofI[OF tp(1), of u ip] c by (auto simp: blk_of_def)
    moreover have "nodes_of v ip = nodes_of u ip" unfolding nodes_of_def using V(5) by metis
    ultimately show ?thesis using t nu by (simp add: V(6))
  qed
  have low: "view v m = view s m" if "m < sb_bmapstart (sb s)" for m
  proof -
    have "data_start u \<le> c" using cd by (simp add: is_data_def)
    then have "m \<noteq> c" using that sb by (simp add: data_start_def)
    then show ?thesis using A(8)[OF that] U(13)[of m] that sb by (simp add: V(6))
  qed
  have iv: "inodes v = inodes u" using tframeD(4)[OF V(4)] .
  show ?thesis
    unfolding wstate_def
  proof (intro conjI allI impI)
    show "txn v {}" "fs_ok v" "tree_ok v ip" by (rule V)+
    show "iframe ip s v" by (rule iframe_trans[OF iframe_trans[OF A(4) U(4)] tframe_iframe[OF V(4)]])
    show "(inodes v ! ip)\<lparr>i_addrs := []\<rparr> = (inodes s ! ip)\<lparr>i_addrs := []\<rparr>" unfolding iv U(6) A(5) ..
    show "is_data v m" if "is_data s m" for m unfolding V(7) by (rule U(11)[OF A(6)[OF that]])
  qed (use bytes other low in blast)+
qed

text \<open>The number of blocks of \<open>r\<close> bytes from offset \<open>p\<close> on.\<close>

definition blocks_in :: "nat \<Rightarrow> nat \<Rightarrow> nat" where
  "blocks_in p r = (if r = 0 then 0 else (p + r - 1) div BSIZE - p div BSIZE + 1)"

lemma blocks_in_step:
  assumes "0 < r" "m = min r (BSIZE - p mod BSIZE)"
  shows "Suc (blocks_in (p + m) (r - m)) \<le> blocks_in p r"
proof (cases "r - m = 0")
  case True
  then show ?thesis using assms(1) by (simp add: blocks_in_def)
next
  case False
  have B: "p mod BSIZE < BSIZE" by (simp add: param_defs)
  have m: "m = BSIZE - p mod BSIZE" using False assms(2) by auto
  have "p + m = p div BSIZE * BSIZE + BSIZE" using B div_mult_mod_eq[of p BSIZE] m by linarith
  then have "p + m = (p div BSIZE + 1) * BSIZE" by (simp only: add_mult_distrib mult_1)
  then have d: "(p + m) div BSIZE = p div BSIZE + 1" using B by simp
  have "(p + m) div BSIZE \<le> (p + r - 1) div BSIZE" using False by (intro div_le_mono) simp
  then show ?thesis using False assms(1) d by (simp add: blocks_in_def)
qed

lemma writei_loop_spec:
  assumes ps: "p \<le> i_size (inodes s ! ip)" and dev: "i_dev (inodes s ! ip) = 1" and src: "n \<le> length src"
    and mx: "p + n \<le> MAXFILE * BSIZE" "i_size (inodes s ! ip) \<le> MAXFILE * BSIZE"
    and W: "wstate ip s src p k t" and st: "stock t (5 * blocks_in (p + k) (n - k) + j)" and k: "k \<le> n"
  shows "runs (writei_loop ip src n k (p + k) t) (\<lambda>q u. q = p + n \<and> wstate ip s src p n u \<and> stock u j)"
  using W st k
proof (induction "n - k" arbitrary: k t rule: less_induct)
  case less
  show ?case
  proof (cases "k < n")
    case False
    then have "k = n" using less.prems by simp
    then show ?thesis using less.prems by (subst writei_loop.simps) (simp add: blocks_in_def)
  next
    case True
    let ?q = "p + k" and ?bn = "(p + k) div BSIZE" and ?m = "min (n - k) (BSIZE - (p + k) mod BSIZE)"
    note A = wstateD[OF less.prems(1)]
    have B: "?q mod BSIZE < BSIZE" by (simp add: param_defs)
    have m0: "0 < ?m" using True B by simp
    have bn: "?bn < MAXFILE" by (rule off_blk[OF _ mx(1)]) (use True in simp)
    have dt: "i_dev (inodes t ! ip) = 1" using iframeD(13)[OF A(4)] dev by simp
    define j' where "j' = 5 * blocks_in (?q + ?m) (n - k - ?m) + j"
    have "Suc (blocks_in (?q + ?m) (n - k - ?m)) \<le> blocks_in ?q (n - k)"
      by (rule blocks_in_step) (use True in simp_all)
    then have st4: "stock t (Suc j' + 4)"
      using less.prems(2) by (intro stock_mono[OF less.prems(2)]) (simp add: j'_def)
    let ?xs = "take ?m (drop k src)"
    have lx: "length ?xs = ?m" using src True by auto
    show ?thesis
      unfolding writei_loop.simps[of ip src n k] if_P[OF True] runs_kbind Let_def
    proof (rule runs_mono[OF bmap_walk[OF A(1,2,3) dt st4 bn]])
      fix c u
      assume G: "walked ip (on_path ?bn) (bpath ?bn) (Suc j') t c u"
      have gr: "grow {} ip (on_path ?bn) t u" and c: "c = blk_of u ip ?bn" "c \<noteq> 0" and su: "stock u (Suc j')"
        using G by (simp_all add: walked_def blk_of_def)
      note U = growD[OF gr]
      have cd: "is_data u c" using tree_okD(3)[OF U(3) bpath_full(1)[OF bn]] c by (simp add: blk_of_def)
      have g: "fs_geom u" using U(2) by (simp add: fs_ok_def)
      have csz: "c < disksize u" using cd fs_geomD(2)[OF g txnD(2)[OF U(1)]] by (simp add: is_data_def)
      have fu: "fits u {} 3" using su by (simp add: stock_def fits_def)
      have rd: "ready u {} c" by (rule ready_fits[OF fu csz]) simp
      have rm: "card (pinned u) < LOGSIZE - 1" by (rule fits_room[OF fu]) simp
      have "sb_inodestart (sb u) \<le> c"
        using fs_geomD(5)[OF g txnD(2)[OF U(1)]] cd by (simp add: is_data_def data_start_def)
      then have hm: "home u c" using cd by (intro home_fs[OF g txnD(2)[OF U(1)]]) (simp_all add: is_data_def)
      have lc: "length (view u c) = BSIZE" by (rule length_view[OF txnD(5)[OF U(1)] csz])
      have ld: "length (put_bytes (?q mod BSIZE) ?xs (view u c)) = BSIZE"
      proof -
        have "?q mod BSIZE + length ?xs \<le> length (view u c)" unfolding lx lc using B by linarith
        from length_put_bytes[OF this] show ?thesis unfolding lc .
      qed
      have du: "i_dev (inodes u ! ip) = 1" using iframeD(13)[OF U(4)] dt by simp
      have gd: "k + ?m \<le> length src" using src True by simp
      let ?f = "put_bytes (?q mod BSIZE) ?xs"
      have IH: "runs (writei_loop ip src n (k + ?m) (p + k + ?m) v) (\<lambda>q u. q = p + n \<and> wstate ip s src p n u \<and> stock u j)"
        if D: "did_mod {} u c (?f (view u c)) v" for v
      proof -
        have W': "wstate ip s src p (k + ?m) v"
          by (rule write_round[OF less.prems(1) G D refl bn ps lx _ refl gd _ mx(2)]) (use mx(1) True in auto)
        have "stock v j'" by (rule leaf_mod(8)[OF D U(1,2,3) bn c su])
        then have sv: "stock v (5 * blocks_in (p + (k + ?m)) (n - (k + ?m)) + j)" by (simp add: j'_def add.assoc)
        have d: "n - (k + ?m) < n - k" using m0 True by auto
        have kn: "k + ?m \<le> n" using True by auto
        show ?thesis using less.hyps[OF d W' sv kn] by (simp add: add.assoc)
      qed
      show "runs (bread (i_dev (inodes u ! ip)) c u) (\<lambda>bp s'. runs (kguard (k + ?m \<le> length src) s') (\<lambda>_ s'.
          runs (log_write bp (set_data bp (put_bytes (?q mod BSIZE) ?xs) s')) (\<lambda>_ s'. runs (brelse bp s') (\<lambda>_ s'.
          runs (writei_loop ip src n (k + ?m) (p + k + ?m) s') (\<lambda>q u. q = p + n \<and> wstate ip s src p n u \<and> stock u j)))))"
        unfolding du kguard_simps(1)[OF gd] runs_Ok
      proof (rule runs_mono[OF modify_blk[where f = ?f, OF U(1) rd hm rm ld]], elim conjE)
        fix i w
        assume lw: "runs (log_write i (set_data i ?f w)) (\<lambda>_ v. runs (brelse i v) (\<lambda>_. did_mod {} u c (?f (view u c))))"
        show "runs (log_write i (set_data i ?f w)) (\<lambda>_ s'. runs (brelse i s') (\<lambda>_ s'.
          runs (writei_loop ip src n (k + ?m) (p + k + ?m) s') (\<lambda>q u. q = p + n \<and> wstate ip s src p n u \<and> stock u j)))"
          by (rule runs_mono[OF lw], erule runs_mono, erule IH)
      qed
    qed
  qed
qed

subsection \<open>\<open>writei\<close>\<close>

definition overwrite :: "nat \<Rightarrow> u8 list \<Rightarrow> u8 list \<Rightarrow> u8 list" where
  "overwrite p xs c = take p c @ xs @ drop (p + length xs) c"

text \<open>What a completed write guarantees.\<close>

definition written :: "nat \<Rightarrow> kst \<Rightarrow> u8 list \<Rightarrow> nat \<Rightarrow> kst \<Rightarrow> bool" where
  "written ip s xs p t \<longleftrightarrow> txn t {} \<and> fs_ok t \<and> file_ok t ip \<and> iframe ip s t
     \<and> content t ip = overwrite p xs (content s ip)
     \<and> (\<forall>m. is_data s m \<longrightarrow> is_data t m \<and> (m \<notin> nodes_of s ip \<longrightarrow> view t m = view s m))
     \<and> (\<forall>n < sb_ninodes (sb s). n \<noteq> i_inum (inodes s ! ip) \<longrightarrow> disk_inode t n = disk_inode s n)
     \<and> disk_inode t (i_inum (inodes s ! ip))
         = (if p + length xs > i_size (inodes s ! ip) then dinode_of (inodes t ! ip)
            else disk_inode s (i_inum (inodes s ! ip)))"

lemma stock_fits: "stock s (Suc n) \<Longrightarrow> fits s {} 1"
  by (simp add: stock_def fits_def)

lemma fields_except_addrs:
  assumes "i\<lparr>i_addrs := []\<rparr> = j\<lparr>i_addrs := []\<rparr>"
  shows "i_size i = i_size j" "i_type i = i_type j" "i_major i = i_major j" "i_minor i = i_minor j"
    "i_nlink i = i_nlink j" "i_inum i = i_inum j" "i_dev i = i_dev j" "i_valid i = i_valid j" "i_ref i = i_ref j"
    "i_lock i = i_lock j"
  using assms by (cases i; cases j; simp)+

lemma wstate_content:
  assumes W: "wstate ip s src p n t" and n: "n = length src" and p: "p \<le> i_size (inodes s ! ip)"
  shows "map (file_byte t ip) [0..<max (i_size (inodes s ! ip)) (p + n)] = overwrite p src (content s ip)"
proof -
  let ?sz = "i_size (inodes s ! ip)"
  show ?thesis
  proof (rule nth_equalityI)
    show "length (map (file_byte t ip) [0..<max ?sz (p + n)]) = length (overwrite p src (content s ip))"
      using p n by (simp add: overwrite_def)
    fix i assume "i < length (map (file_byte t ip) [0..<max ?sz (p + n)])"
    then have i: "i < max ?sz (p + n)" by simp
    show "map (file_byte t ip) [0..<max ?sz (p + n)] ! i = overwrite p src (content s ip) ! i"
      using wstateD(10)[OF W i] i p n by (auto simp: overwrite_def nth_append content_def less_max_iff_disj)
  qed
qed

lemma iupdate_wstate:
  assumes W: "wstate ip s src p n t" and f: "fits t {} 1" and dev: "i_dev (inodes s ! ip) = 1"
    and inum: "i_inum (inodes s ! ip) < sb_ninodes (sb s)" and dok: "dinode_ok (dinode_of (inodes s ! ip))"
    and sz: "q < 2 ^ 32"
  defines "t' \<equiv> upd_inode ip (\<lambda>i. i\<lparr>i_size := q\<rparr>) t"
  shows "runs (iupdate ip t') (\<lambda>_ u. tframe t' u \<and> txn u {} \<and> fs_ok u \<and> is_data u = is_data t
     \<and> (\<forall>m. data_start t \<le> m \<longrightarrow> view u m = view t m)
     \<and> (\<forall>k < sb_ninodes (sb s). disk_inode u k = (if k = i_inum (inodes s ! ip) then dinode_of (inodes u ! ip) else disk_inode t k)))"
proof -
  note A = wstateD[OF W]
  note fe = fields_except_addrs[OF A(5)]
  have ip: "ip < length (inodes t)" using tree_okD(1)[OF A(3)] .
  have i': "inodes t' ! ip = (inodes t ! ip)\<lparr>i_size := q\<rparr>" using ip by (simp add: t'_def)
  have T: "txn t' {}" "fs_geom t'" "fits t' {} 1" using A(1,2) f by (simp_all add: t'_def upd_inode_with fs_ok_def)
  have w: "view t' = view t" "sb t' = sb t" "data_start t' = data_start t" "is_data t' = is_data t" "fs_ok t' = fs_ok t"
    by (simp_all add: t'_def upd_inode_with)
  have d': "i_dev (inodes t' ! ip) = 1" using fe dev by (simp add: i')
  have sb: "sb t = sb s" using iframeD(3)[OF A(4)] .
  have n': "i_inum (inodes t' ! ip) = i_inum (inodes s ! ip)" "i_inum (inodes t' ! ip) < sb_ninodes (sb t')"
    using fe inum sb by (simp_all add: i' w)
  have ok: "dinode_ok (dinode_of (inodes t' ! ip))"
  proof -
    have "a < 2 ^ 32" if am: "a \<in> set (iaddrs t ip)" for a
    proof -
      obtain k where k: "k < 13" "a = iaddrs t ip ! k"
        using am tree_okD(2)[OF A(3)] by (auto simp: in_set_conv_nth)
      have tp: "tpath (k, [])" using k(1) by (simp add: tpath_def)
      have "inode_node t ip (k, []) = a" using k(2) by (simp add: inode_node_def)
      then have "a = 0 \<or> is_data t a" using tree_okD(3)[OF A(3) tp] by metis
      moreover have "sb_size (sb t) < 2 ^ 31"
        using fs_geomD(1)[OF _ txnD(2)[OF A(1)]] A(2) by (simp add: fs_ok_def)
      ultimately show ?thesis by (auto simp: is_data_def)
    qed
    then show ?thesis
      using dok tree_okD(2)[OF A(3)] fe sz by (simp add: dinode_ok_def dinode_of_def i' iaddrs_def)
  qed
  note I = IBLOCK_eq[OF T(2) txnD(2)[OF T(1)] n'(2)]
  have ib: "IBLOCK k t' = IBLOCK k t" for k by (simp add: t'_def upd_inode_with)
  show ?thesis
  proof (rule runs_mono[OF iupdate_spec[OF T d' n'(2)]])
    fix x u
    assume D: "did_mod {} t' (IBLOCK (i_inum (inodes t' ! ip)) t') (put_dinode (i_inum (inodes t' ! ip) mod IPB)
      (dinode_of (inodes t' ! ip)) (view t' (IBLOCK (i_inum (inodes t' ! ip)) t'))) u"
    note E = meta_effect[OF D T(2) txnD(2)[OF T(1)] I(2)]
    note tf = laterD(2)[OF E(5)]
    have dt: "disk_inode t' k = disk_inode t k" for k by (simp add: disk_inode_def ib w)
    have "disk_inode u k = (if k = i_inum (inodes s ! ip) then dinode_of (inodes u ! ip) else disk_inode t k)"
      if "k < sb_ninodes (sb s)" for k
      using disk_inode_upd[OF D T(1,2) n'(2) _ ok, of k] that sb tframeD(4)[OF tf] by (simp add: w n' dt)
    then show "tframe t' u \<and> txn u {} \<and> fs_ok u \<and> is_data u = is_data t \<and> (\<forall>m. data_start t \<le> m \<longrightarrow> view u m = view t m)
     \<and> (\<forall>k < sb_ninodes (sb s). disk_inode u k = (if k = i_inum (inodes s ! ip) then dinode_of (inodes u ! ip) else disk_inode t k))"
      using E(2,3,4) tf laterD(1)[OF E(5)] A(2) by (simp add: w)
  qed
qed

lemma wstate_refl:
  assumes "txn s {}" "fs_ok s" "file_ok s ip" "p \<le> i_size (inodes s ! ip)"
  shows "wstate ip s src p 0 s"
  using assms by (auto simp: wstate_def file_ok_def covers_def)

lemma wstate_disk_inode:
  assumes "wstate ip s src p k t" "fs_ok s" "log_ok s" "n < sb_ninodes (sb s)"
  shows "disk_inode t n = disk_inode s n"
  using wstateD(8)[OF assms(1)] IBLOCK_eq(2)[OF _ assms(3,4)] assms(2) iframe_geom(4)[OF wstateD(4)[OF assms(1)]]
  by (simp add: disk_inode_def fs_ok_def)

lemma writei_spec:
  assumes T: "txn s {}" and F: "fs_ok s" and fo: "file_ok s ip" and p: "p \<le> i_size (inodes s ! ip)"
    and mx: "p + length xs \<le> MAXFILE * BSIZE" and st: "stock s (5 * blocks_in p (length xs) + 1)"
    and inum: "i_inum (inodes s ! ip) < sb_ninodes (sb s)" and dok: "dinode_ok (dinode_of (inodes s ! ip))"
  shows "runs (writei ip xs p (length xs) s) (\<lambda>r t. r = int (length xs) \<and> written ip s xs p t)"
proof -
  let ?n = "length xs" and ?sz = "i_size (inodes s ! ip)"
  have cov: "covers s ip ?sz" and dev: "i_dev (inodes s ! ip) = 1" and ty: "i_type (inodes s ! ip) \<noteq> T_DEV"
    using fo by (simp_all add: file_ok_def)
  have szm: "?sz \<le> MAXFILE * BSIZE" using cov by (simp add: covers_def)
  have M: "MAXFILE * BSIZE < 2 ^ 31" by (simp add: param_defs)
  have n31: "?n < 2 ^ 31" "p + ?n < 2 ^ 32" using mx M by simp_all
  let ?fin = "\<lambda>q t. kbind (if ?n > 0 \<and> q > i_size (inodes t ! ip)
          then iupdate ip (upd_inode ip (\<lambda>i. i\<lparr>i_size := q\<rparr>) t) else Ok () t) (\<lambda>_ s. Ok (sint32 ?n) s)"
  have e: "writei ip xs p ?n s = kbind (writei_loop ip xs ?n 0 p s) ?fin"
    using ty p mx n31 by (simp add: writei_def uadd_small Let_def)
  have sn: "sint32 ?n = int ?n" using n31 by (simp add: sint32_def)
  have st0: "stock s (5 * blocks_in (p + 0) (?n - 0) + 1)" using st by simp
  have fin: "runs (?fin (p + ?n) t) (\<lambda>r t. r = int ?n \<and> written ip s xs p t)"
    if W: "wstate ip s xs p ?n t" and s1: "stock t 1" for t
  proof -
    note A = wstateD[OF W]
    note fe = fields_except_addrs[OF A(5)]
    note ct = wstate_content[OF W refl p]
    have f1: "fits t {} 1" using s1 by (simp add: stock_def fits_def)
    have cvt: "covers t ip (max ?sz (p + ?n))" using A(9) mx szm by (auto simp: covers_def)
    have dt: "disk_inode t n = disk_inode s n" if "n < sb_ninodes (sb s)" for n
      by (rule wstate_disk_inode[OF W F txnD(2)[OF T] that])
    show ?thesis
    proof (cases "p + ?n > ?sz")
      case False
      then have nz: "\<not> (?n > 0 \<and> p + ?n > i_size (inodes t ! ip))" using fe(1) by simp
      have mxe: "max ?sz (p + ?n) = ?sz" using False by simp
      have "content t ip = overwrite p xs (content s ip)" using ct fe(1) unfolding mxe by (simp add: content_def)
      moreover have "file_ok t ip" using A(3) cvt fe ty dev unfolding mxe by (simp add: file_ok_def)
      ultimately have "written ip s xs p t"
        using A(1,2,4,6,7) dt inum False by (simp add: written_def)
      then show ?thesis unfolding if_not_P[OF nz] by (simp add: sn)
    next
      case True
      let ?t = "upd_inode ip (\<lambda>i. i\<lparr>i_size := p + ?n\<rparr>) t"
      have c: "?n > 0 \<and> p + ?n > i_size (inodes t ! ip)" using True fe(1) p by auto
      have mxe: "max ?sz (p + ?n) = p + ?n" using True by simp
      have ip: "ip < length (inodes t)" using tree_okD(1)[OF A(3)] .
      have it: "inodes ?t ! ip = (inodes t ! ip)\<lparr>i_size := p + ?n\<rparr>" using ip by simp
      have "runs (iupdate ip ?t) (\<lambda>_. written ip s xs p)"
      proof (rule runs_mono[OF iupdate_wstate[OF W f1 dev inum dok n31(2)]], elim conjE)
        fix x u
        assume tf: "tframe ?t u" and Tu: "txn u {}" and Fu: "fs_ok u" and du: "is_data u = is_data t"
          and vu: "\<forall>m. data_start t \<le> m \<longrightarrow> view u m = view t m"
          and di: "\<forall>k < sb_ninodes (sb s). disk_inode u k = (if k = i_inum (inodes s ! ip) then dinode_of (inodes u ! ip) else disk_inode t k)"
        have iu: "inodes u = inodes ?t" using tframeD(4)[OF tf] .
        have au: "iaddrs u ip = iaddrs t ip" unfolding iaddrs_def iu it by simp
        have vd: "view u m = view t m" if "is_data t m" for m using vu that by (simp add: is_data_def)
        have N: "inode_node u ip q = inode_node t ip q" if q: "tpath q" for q
        proof -
          have "view t (inode_node t ip (fst q, js)) = view u (inode_node t ip (fst q, js))"
            if "snd q = js @ j # js'" "inode_node t ip (fst q, js) \<noteq> 0" for js j js'
          proof -
            have "tpath (fst q, js)" using q that(1) by (simp add: tpath_def)
            then show ?thesis using vd tree_okD(3)[OF A(3) _ that(2)] by simp
          qed
          then show ?thesis unfolding inode_node_def by (intro node_cong) (simp_all add: au)
        qed
        have Ru: "tree_ok u ip"
          using A(3) unfolding tree_ok_def du au by (simp add: N iu)
        have bu: "blk_of u ip b = blk_of t ip b" if "b < MAXFILE" for b
          unfolding blk_of_def by (rule N[OF bpath_full(1)[OF that]])
        have sz: "i_size (inodes u ! ip) = p + ?n" unfolding iu it by simp
        have bx: "x div BSIZE < MAXFILE" "blk_of t ip (x div BSIZE) \<noteq> 0" if "x < p + ?n" for x
          using off_blk[OF that mx] cvt that unfolding mxe by (simp_all add: covers_def)
        have fb: "file_byte u ip x = file_byte t ip x" if x: "x < p + ?n" for x
        proof -
          have "is_data t (blk_of t ip (x div BSIZE))"
            using tree_okD(3)[OF A(3) bpath_full(1)[OF bx(1)[OF x]]] bx(2)[OF x] by (simp add: blk_of_def)
          then show ?thesis using bu[OF bx(1)[OF x]] vd by (simp add: file_byte_def)
        qed
        have "map (file_byte u ip) [0..<p + ?n] = map (file_byte t ip) [0..<p + ?n]"
          by (rule map_cong[OF refl]) (simp add: fb)
        then have "content u ip = overwrite p xs (content s ip)"
          using ct unfolding mxe content_def[of u] sz by simp
        moreover have "file_ok u ip"
          unfolding file_ok_def covers_def sz using Ru bu bx mx fe dev ty ip by (simp add: iu)
        moreover have "iframe ip s u"
          by (rule iframe_trans[OF A(4) iframe_trans[OF iframe_upd[OF _ ip] tframe_iframe[OF tf]]])
            (simp add: icore_def load_dinode_def)
        ultimately show "written ip s xs p u"
          using Tu Fu A(6,7) vd du di dt inum True by (simp add: written_def)
      qed
      then show ?thesis unfolding if_P[OF c] runs_kbind by (rule runs_mono) (simp add: sn)
    qed
  qed
  have "runs (writei_loop ip xs ?n 0 (p + 0) s) (\<lambda>q u. q = p + ?n \<and> wstate ip s xs p ?n u \<and> stock u 1)"
    by (rule writei_loop_spec[OF p dev order_refl mx szm wstate_refl[OF T F fo p] st0]) simp
  then have "runs (writei_loop ip xs ?n 0 p s) (\<lambda>q u. q = p + ?n \<and> wstate ip s xs p ?n u \<and> stock u 1)" by simp
  then show ?thesis
    unfolding e runs_kbind by (rule runs_mono) (use fin in \<open>simp only: runs_kbind\<close>)
qed

text \<open>The refusals of \<open>writei\<close>.\<close>

lemma writei_outside:
  assumes "i_type (inodes s ! ip) \<noteq> T_DEV"
    "p > i_size (inodes s ! ip) \<or> uadd p n < p \<or> uadd p n > MAXFILE * BSIZE"
  shows "writei ip xs p n s = Ok (- 1) s"
  using assms by (auto simp: writei_def Let_def)

end
