(* ===== verification/DirSpec.thy ===== *)
theory DirSpec
  imports WriteSpec Dir
begin

text \<open>
  Directories and paths: \<open>dir_ents\<close> is the content of a directory as a list of inode numbers and names;
  \<open>dirlookup\<close> returns the first entry of the name. \<open>path_elems\<close> splits a path; \<open>skipelem\<close> delivers its
  elements one by one.
\<close>

subsection \<open>Path names\<close>

text \<open>The elements of a path: the maximal runs of bytes that are not slashes.\<close>

fun path_elems :: "u8 list \<Rightarrow> u8 list list" where
  "path_elems [] = []"
| "path_elems (c # p) = (if c = 47 then path_elems p
     else case p of [] \<Rightarrow> [[c]]
       | d # _ \<Rightarrow> if d = 47 then [c] # path_elems p
           else (case path_elems p of e # es \<Rightarrow> (c # e) # es | [] \<Rightarrow> [[c]]))"

lemma path_elems_slashes: "path_elems (dropWhile (\<lambda>c. c = 47) p) = path_elems p"
  by (induction p) auto

lemma path_elems_split:
  assumes "p \<noteq> []" "hd p \<noteq> 47"
  shows "path_elems p = takeWhile (\<lambda>c. c \<noteq> 47) p # path_elems (dropWhile (\<lambda>c. c \<noteq> 47) p)"
  using assms
proof (induction p)
  case (Cons c p)
  then show ?case by (cases p) auto
qed simp

lemma path_elems_nonempty: "e \<in> set (path_elems p) \<Longrightarrow> e \<noteq> [] \<and> 47 \<notin> set e"
proof (induction p arbitrary: e)
  case (Cons c p)
  show ?case
  proof (cases "c = 47 \<or> p = [] \<or> hd p = 47")
    case True
    then show ?thesis using Cons by (cases p) (auto split: if_splits)
  next
    case False
    then obtain d q where p: "p = d # q" "d \<noteq> 47" "c \<noteq> 47" by (cases p) auto
    have ne: "path_elems p = takeWhile (\<lambda>c. c \<noteq> 47) p # path_elems (dropWhile (\<lambda>c. c \<noteq> 47) p)"
      by (rule path_elems_split) (use p in simp_all)
    have "path_elems (c # p) = (c # takeWhile (\<lambda>c. c \<noteq> 47) p) # path_elems (dropWhile (\<lambda>c. c \<noteq> 47) p)"
      by (subst path_elems_split) (use p in simp_all)
    moreover have "e \<in> set (path_elems p)" if "e \<in> set (path_elems (dropWhile (\<lambda>c. c \<noteq> 47) p))"
      using that ne by simp
    ultimately show ?thesis using Cons.IH[of e] Cons.prems p by (auto dest: set_takeWhileD)
  qed
qed simp

text \<open>What \<open>skipelem\<close> leaves in the buffer for element \<open>e\<close>.\<close>

definition name_buf :: "u8 list \<Rightarrow> u8 list \<Rightarrow> u8 list" where
  "name_buf e name = (if length e \<ge> DIRSIZ then take DIRSIZ e else e @ 0 # drop (length e + 1) name)"

lemma skipelem_None: "skipelem path name = None \<longleftrightarrow> path_elems path = []"
proof (cases "dropWhile (\<lambda>c. c = 47) path = []")
  case True
  have "path_elems path = path_elems (dropWhile (\<lambda>c. c = 47) path)" by (rule path_elems_slashes[symmetric])
  also have "\<dots> = []" unfolding True by simp
  finally have pe: "path_elems path = []" .
  have "skipelem path name = None" unfolding skipelem_def Let_def True by simp
  then show ?thesis using pe by simp
next
  case False
  have "path_elems path = path_elems (dropWhile (\<lambda>c. c = 47) path)" by (rule path_elems_slashes[symmetric])
  also have "\<dots> \<noteq> []" unfolding path_elems_split[OF False hd_dropWhile[OF False]] by simp
  finally show ?thesis using False by (simp only: skipelem_def Let_def if_False) simp
qed

lemma skipelem_elems:
  assumes "path_elems path = e # es"
  obtains path' where "skipelem path name = Some (path', name_buf e name)" "path_elems path' = es"
    "path' = [] \<or> hd path' \<noteq> 47"
proof -
  let ?p = "dropWhile (\<lambda>c. c = 47) path"
  have pe: "path_elems ?p = e # es" using assms by (simp add: path_elems_slashes)
  have ne: "?p \<noteq> []"
  proof
    assume "?p = []"
    then show False using pe unfolding \<open>?p = []\<close> by simp
  qed
  have hd: "hd ?p \<noteq> 47" using hd_dropWhile[OF ne] by simp
  have e: "e = takeWhile (\<lambda>c. c \<noteq> 47) ?p" "es = path_elems (dropWhile (\<lambda>c. c \<noteq> 47) ?p)"
    using path_elems_split[OF ne hd] pe by simp_all
  let ?r = "dropWhile (\<lambda>c. c = 47) (drop (length e) ?p)"
  have d: "drop (length e) ?p = dropWhile (\<lambda>c. c \<noteq> 47) ?p"
    unfolding e(1) by (rule dropWhile_eq_drop[symmetric])
  show ?thesis
  proof
    show "skipelem path name = Some (?r, name_buf e name)"
      using ne e(1) by (simp add: skipelem_def Let_def name_buf_def)
    show "path_elems ?r = es" by (simp add: path_elems_slashes d e(2))
    show "?r = [] \<or> hd ?r \<noteq> 47" using hd_dropWhile[of "\<lambda>c. c = 47"] by blast
  qed
qed

text \<open>The name \<open>skipelem\<close> leaves in the buffer is the element, cut to \<open>DIRSIZ\<close> bytes.\<close>

lemma cname_name_buf:
  assumes "0 \<notin> set e"
  shows "cname DIRSIZ (name_buf e name) = take DIRSIZ e"
proof (cases "DIRSIZ \<le> length e")
  case True
  then show ?thesis using assms by (auto simp: cname_def name_buf_def takeWhile_eq_all_conv dest: in_set_takeD)
next
  case False
  then have "take DIRSIZ (name_buf e name) = e @ 0 # take (DIRSIZ - length e - 1) (drop (length e + 1) name)"
    by (simp add: name_buf_def take_Cons')
  then have "cname DIRSIZ (name_buf e name) = takeWhile (\<lambda>c. c \<noteq> 0) (e @ 0 # take (DIRSIZ - length e - 1) (drop (length e + 1) name))"
    by (simp only: cname_def)
  also have "\<dots> = e" using assms by (subst takeWhile_append2) auto
  finally show ?thesis using False by simp
qed

text \<open>All elements, one after the other.\<close>

function skip_all :: "u8 list \<Rightarrow> u8 list \<Rightarrow> u8 list list" where
  "skip_all path name = (case skipelem path name of None \<Rightarrow> [] | Some (p, n) \<Rightarrow> cname DIRSIZ n # skip_all p n)"
  by pat_completeness auto
termination
  by (relation "measure (\<lambda>(path, name). length path)") (auto dest: skipelem_shorter)

declare skip_all.simps [simp del]

lemma skip_all_elems: "0 \<notin> set path \<Longrightarrow> skip_all path name = map (take DIRSIZ) (path_elems path)"
proof (induction path name rule: skip_all.induct)
  case (1 path name)
  show ?case
  proof (cases "path_elems path")
    case Nil
    then show ?thesis by (simp add: skip_all.simps[of path] skipelem_None[THEN iffD2])
  next
    case (Cons e es)
    obtain path' where s: "skipelem path name = Some (path', name_buf e name)" "path_elems path' = es"
      by (rule skipelem_elems[OF Cons])
    have sub: "set path' \<subseteq> set path"
    proof -
      have "path' = dropWhile (\<lambda>c. c = 47) (drop (length (takeWhile (\<lambda>c. c \<noteq> 47) (dropWhile (\<lambda>c. c = 47) path)))
         (dropWhile (\<lambda>c. c = 47) path))"
        using s(1) by (auto simp: skipelem_def Let_def split: if_splits)
      then show ?thesis by (auto dest!: set_dropWhileD in_set_dropD)
    qed
    have "set e \<subseteq> set path"
    proof -
      let ?p = "dropWhile (\<lambda>c. c = 47) path"
      have ne: "?p \<noteq> []" using s(1) by (auto simp: skipelem_def Let_def split: if_splits)
      have "e = takeWhile (\<lambda>c. c \<noteq> 47) ?p"
        using path_elems_split[OF ne] hd_dropWhile[OF ne] Cons path_elems_slashes[of path] by simp
      then show ?thesis by (auto dest!: set_takeWhileD set_dropWhileD)
    qed
    then have "cname DIRSIZ (name_buf e name) = take DIRSIZ e" using "1.prems" by (intro cname_name_buf) auto
    moreover have "skip_all path' (name_buf e name) = map (take DIRSIZ) es"
      using "1.IH"[OF s(1) refl] "1.prems" sub s(2) by auto
    ultimately show ?thesis using s(1) Cons by (simp add: skip_all.simps[of path])
  qed
qed

subsection \<open>Looking up a name\<close>

definition entry :: "u8 list \<Rightarrow> nat \<Rightarrow> u8 list" where
  "entry c k = take 16 (drop (16 * k) c)"

text \<open>Entry \<open>k\<close> of directory content \<open>c\<close> is in use and has the name.\<close>

definition has_name :: "u8 list \<Rightarrow> u8 list \<Rightarrow> nat \<Rightarrow> bool" where
  "has_name c name k \<longleftrightarrow> de_inum (entry c k) \<noteq> 0 \<and> cname DIRSIZ name = cname DIRSIZ (de_name (entry c k))"

definition dir_ok :: "kst \<Rightarrow> nat \<Rightarrow> bool" where
  "dir_ok s dp \<longleftrightarrow> file_ok s dp \<and> i_type (inodes s ! dp) = T_DIR \<and> i_size (inodes s ! dp) mod 16 = 0"

definition dir_len :: "kst \<Rightarrow> nat \<Rightarrow> nat" where
  "dir_len s dp = i_size (inodes s ! dp) div 16"

text \<open>The parts of the file system a lookup relies on.\<close>

definition readable_fs :: "kst \<Rightarrow> bool" where
  "readable_fs s \<longleftrightarrow> bproto s {} \<and> fs_geom s \<and> log_ok s"

lemma seen_imem: "seen s t \<Longrightarrow> imem (inodes s) s t"
proof -
  assume "seen s t"
  moreover have "with_inodes (inodes s) s = s" by simp
  ultimately show ?thesis using seenD(7)[of s t] by (simp add: seen_def imem_def)
qed

lemma seen_icache: "seen s t \<Longrightarrow> icache_ok t = icache_ok s" "seen s t \<Longrightarrow> refers t i d n = refers s i d n"
  using seenD(7)[of s t] by (simp_all add: icache_ok_def refers_def)

lemma entry_le: "k < dir_len s dp \<Longrightarrow> dir_ok s dp \<Longrightarrow> 16 * k + 16 \<le> i_size (inodes s ! dp)"
  unfolding dir_len_def dir_ok_def by auto

lemma read_entry:
  assumes R: "readable_fs s" and D: "dir_ok s dp" and S: "seen s t" and k: "k < dir_len s dp"
  shows "runs (readi dp (16 * k) 16 t) (\<lambda>(r, de) u. r = 16 \<and> de = entry (content s dp) k \<and> seen s u)"
proof -
  note le = entry_le[OF k D]
  note sa = seen_abs[OF S] and sd = seenD[OF S]
  have g: "fs_geom t" "log_ok t" using R seen_log_ok[OF S] by (simp_all add: sa readable_fs_def)
  have F: "file_ok t dp" using D by (simp add: sa dir_ok_def)
  have c: "card (pinned t) < NBUF" by (rule log_ok_card[OF g(2)])
  have "i_size (inodes s ! dp) \<le> MAXFILE * BSIZE" using D by (simp add: dir_ok_def file_ok_def covers_def)
  then have b: "16 * k \<le> i_size (inodes t ! dp)" "16 * k + 16 < 2 ^ 32" using le by (simp_all add: sd param_defs)
  have "length (take 16 (drop (16 * k) (content s dp))) = 16" using le by simp
  then show ?thesis
    using runs_mono[OF readi_spec[OF sd(1) c g F b], of "\<lambda>(r, de) u. r = 16 \<and> de = entry (content s dp) k \<and> seen s u"]
      seen_trans[OF S] by (auto simp: sa entry_def)
qed

definition found :: "kst \<Rightarrow> nat \<Rightarrow> u8 list \<Rightarrow> nat \<Rightarrow> nat \<Rightarrow> nat \<Rightarrow> kst \<Rightarrow> bool" where
  "found s dp name k ip p t \<longleftrightarrow> k < dir_len s dp \<and> has_name (content s dp) name k
     \<and> (\<forall>j < k. \<not> has_name (content s dp) name j) \<and> p = 16 * k
     \<and> refers t ip 1 (de_inum (entry (content s dp) k)) \<and> icache_ok t
     \<and> i_ref (inodes t ! ip) = (if refers s ip 1 (de_inum (entry (content s dp) k)) then i_ref (inodes s ! ip) + 1 else 1)
     \<and> imem ((inodes s)[ip := inodes t ! ip]) s t"

definition icache_room :: "kst \<Rightarrow> bool" where
  "icache_room s \<longleftrightarrow> icache_ok s \<and> (\<exists>i < NINODE. i_ref (inodes s ! i) = 0)"

lemma dirlookup_at_spec:
  assumes R: "readable_fs s" and D: "dir_ok s dp" and S: "seen s t" and k: "k < dir_len s dp"
    and nm: "readable DIRSIZ name" and ic: "icache_room s"
    and before: "\<forall>j < k. \<not> has_name (content s dp) name j"
  shows "runs (dirlookup_at dp name (16 * k) t) (\<lambda>r u. case r of
      None \<Rightarrow> seen s u \<and> \<not> has_name (content s dp) name k
    | Some (ip, p) \<Rightarrow> found s dp name k ip p u)"
  unfolding dirlookup_at_def runs_kbind
proof (rule runs_mono[OF read_entry[OF R D S k]], clarify)
  fix u
  assume Su: "seen s u"
  let ?e = "entry (content s dp) k"
  have l: "length ?e = 16" using entry_le[OF k D] by (simp add: entry_def)
  have ln: "length (de_name ?e) = DIRSIZ" using l by (simp add: de_name_def param_defs)
  have rd: "readable DIRSIZ (de_name ?e)" using ln by (simp add: readable_def)
  obtain c where c: "namecmp name (de_name ?e) = Some c" "c = 0 \<longleftrightarrow> cname DIRSIZ name = cname DIRSIZ (de_name ?e)"
    using strncmp_eq[OF nm rd] by (auto simp: namecmp_def)
  have dev: "i_dev (inodes u ! dp) = 1" using D seenD(7)[OF Su] by (simp add: dir_ok_def file_ok_def)
  have iu: "inodes u = inodes s" by (rule seenD(7)[OF Su])
  have ig: "runs (iget 1 (de_inum ?e) u) (\<lambda>ip v. found s dp name k ip (16 * k) v)" if "has_name (content s dp) name k"
  proof -
    have a: "icache_ok u" "(\<exists>i. refers u i 1 (de_inum ?e)) \<or> (\<exists>i < NINODE. i_ref (inodes u ! i) = 0)"
      using ic by (auto simp: icache_room_def seen_icache[OF Su] iu)
    show ?thesis
    proof (rule runs_mono[OF iget_spec[OF seenD(1)[OF Su] a]], elim conjE)
      fix ip v
      assume r: "refers v ip 1 (de_inum ?e)" "icache_ok v" and im: "imem ((inodes u)[ip := inodes v ! ip]) u v"
        and n: "i_ref (inodes v ! ip) = (if refers u ip 1 (de_inum ?e) then i_ref (inodes u ! ip) + 1 else 1)"
      have "imem ((inodes s)[ip := inodes v ! ip]) s v" using imem_trans[OF seen_imem[OF Su] im] by (simp add: iu)
      then show "found s dp name k ip (16 * k) v" using r n that before k by (simp add: found_def iu seen_icache(2)[OF Su])
    qed
  qed
  show "runs (if (16 :: int) \<noteq> 16 then Panic ''dirlookup read''
     else if de_inum ?e = 0 then Ok None u
     else case namecmp name (de_name ?e) of None \<Rightarrow> Undef
     | Some c \<Rightarrow> if c = 0 then kbind (iget (i_dev (inodes u ! dp)) (de_inum ?e) u) (\<lambda>ip s. Ok (Some (ip, 16 * k)) s)
         else Ok None u) (\<lambda>r u. case r of None \<Rightarrow> seen s u \<and> \<not> has_name (content s dp) name k
          | Some (ip, p) \<Rightarrow> found s dp name k ip p u)"
    using c Su ig by (auto simp: has_name_def dev)
qed

text \<open>\<open>dirlookup\<close>: the first entry of that name, with a reference to its inode.\<close>

lemma dir_offs_len: "n mod 16 = 0 \<Longrightarrow> dir_offs n = map (\<lambda>k. 16 * k) [0..<n div 16]"
proof -
  assume "n mod 16 = 0"
  then obtain k where "n = 16 * k" by (metis mult.commute div_mult_mod_eq add.right_neutral)
  then show ?thesis by (simp add: dir_offs_def)
qed

lemma dirlookup_spec:
  assumes R: "readable_fs s" and D: "dir_ok s dp" and nm: "readable DIRSIZ name" and ic: "icache_room s"
  shows "runs (dirlookup dp name s) (\<lambda>r t. case r of
      None \<Rightarrow> seen s t \<and> (\<forall>k < dir_len s dp. \<not> has_name (content s dp) name k)
    | Some (ip, p) \<Rightarrow> \<exists>k. found s dp name k ip p t)"
proof -
  let ?n = "dir_len s dp"
  let ?I = "\<lambda>k t. seen s t \<and> (\<forall>j < k. \<not> has_name (content s dp) name j)"
  let ?Q = "\<lambda>r t. case r of None \<Rightarrow> seen s t \<and> (\<forall>k < ?n. \<not> has_name (content s dp) name k)
    | Some (ip, p) \<Rightarrow> \<exists>k. found s dp name k ip p t"
  have off: "dir_offs (i_size (inodes s ! dp)) = map (\<lambda>k. 16 * k) [0..<?n]"
    unfolding dir_len_def by (rule dir_offs_len) (use D in \<open>simp add: dir_ok_def\<close>)
  have ty: "i_type (inodes s ! dp) = T_DIR" using D by (simp add: dir_ok_def)
  have "runs (kfind (map (\<lambda>k. 16 * k) [0..<?n]) (dirlookup_at dp name) s) ?Q"
  proof (rule kfind_runs[where I = ?I])
    show "?I 0 s" using R by (simp add: readable_fs_def seen_refl)
    show "?Q None t" if "?I (length (map (\<lambda>k. 16 * k) [0..<?n])) t" for t using that by simp
    fix k t
    assume k: "k < length (map (\<lambda>k. 16 * k) [0..<?n])" and I: "?I k t"
    have k': "k < ?n" and e: "map (\<lambda>k. 16 * k) [0..<?n] ! k = 16 * k" using k by simp_all
    show "runs (dirlookup_at dp name (map (\<lambda>k. 16 * k) [0..<?n] ! k) t)
       (\<lambda>r u. case r of None \<Rightarrow> ?I (Suc k) u | Some y \<Rightarrow> ?Q (Some y) u)"
      unfolding e
      by (rule runs_mono[OF dirlookup_at_spec[OF R D conjunct1[OF I] k' nm ic conjunct2[OF I]]])
        (use I in \<open>auto split: option.splits simp: less_Suc_eq\<close>)
  qed
  then show ?thesis unfolding dirlookup_def off using ty by simp
qed

end
