(* ===== verification/FsExample.thy ===== *)
theory FsExample
  imports DirSpec Boot
begin

text \<open>
  An example file system: the disk of \<open>Boot\<close> with a bitmap, a root directory with one entry and a file
  of 5 bytes, mounted, inside a transaction, with both inodes in the inode cache. It satisfies the
  invariants of the file system and the preconditions of its operations.
\<close>

definition bitmap_example :: block where
  "bitmap_example = replicate 19 255 @ 3 # replicate 492 0"

definition hello :: "u8 list" where
  "hello = [104, 101, 108, 108, 111]"

definition greet :: "u8 list" where
  "greet = [103, 114, 101, 101, 116] @ replicate 9 0"

definition dir_block :: block where
  "dir_block = mk_dirent 2 greet @ replicate 496 0"

definition fs_disk :: "nat \<Rightarrow> block" where
  "fs_disk = disk_example(151 := bitmap_example, 152 := dir_block, 153 := hello @ replicate 507 0)"

definition root_inode :: inode where
  "root_inode = zero_inode\<lparr>i_dev := 1, i_inum := 1, i_ref := 1, i_valid := True, i_type := T_DIR,
     i_nlink := 1, i_size := 16, i_addrs := 152 # replicate 12 0\<rparr>"

definition file_inode :: inode where
  "file_inode = zero_inode\<lparr>i_dev := 1, i_inum := 2, i_ref := 1, i_valid := True, i_type := T_FILE,
     i_nlink := 1, i_size := 5, i_addrs := 153 # replicate 12 0\<rparr>"

definition inodes_example :: "inode list" where
  "inodes_example = [root_inode, file_inode] @ replicate 48 zero_inode"

text \<open>Two open files: the file, for reading and writing, and the write end of a pipe.\<close>

definition files_example :: "kfile list" where
  "files_example = [zero_file\<lparr>f_type := FD_INODE, f_ref := 2, f_readable := True, f_writable := True, f_ip := 1\<rparr>,
     zero_file\<lparr>f_type := FD_PIPE, f_ref := 1, f_writable := True, f_pipe := 0x80200000\<rparr>] @ replicate 98 zero_file"

definition fs_example :: kst where
  "fs_example = (upd_lg (\<lambda>_. log_example\<lparr>lg_outstanding := 1\<rparr>) (binit (kernel0 fs_disk 1000)))
     \<lparr>sb := dec_sb sb_example, inodes := inodes_example, files := files_example\<rparr>"

lemma fs_disk_len [simp]: "length (fs_disk m) = BSIZE"
  by (simp add: fs_disk_def bitmap_example_def dir_block_def mk_dirent_def greet_def hello_def param_defs put16_def One_nat_def)

lemma sb_example_dec [simp]:
  "dec_sb sb_example = \<lparr>sb_size = 1000, sb_nblocks = 846, sb_ninodes = 200, sb_nlog = 120, sb_logstart = 2,
     sb_inodestart = 122, sb_bmapstart = 151\<rparr>"
  by (simp add: dec_sb_def sb_example_def get32_put32 get32_put32_other param_defs)

lemma fs_example_fields [simp]:
  "sb fs_example = dec_sb sb_example" "disksize fs_example = 1000" "disk fs_example = fs_disk"
  "inodes fs_example = inodes_example" "files fs_example = files_example" "lg fs_example = log_example\<lparr>lg_outstanding := 1\<rparr>"
  "curproc fs_example = Some 0" "held fs_example = []"
  "cur fs_example = zero_proc\<lparr>state := RUNNING, pid := 1\<rparr>"
  by (simp_all add: fs_example_def binit_kernel0) (simp_all add: kernel0_def cur_def)

lemma fs_example_storage:
  "bproto fs_example {}" "pinned fs_example = {}" "view fs_example = fs_disk" "log_ok fs_example"
  "txn fs_example {}"
proof -
  have B: "booted (binit (kernel0 fs_disk 1000))" by (rule booted_binit) simp_all
  let ?s = "upd_lg (\<lambda>_. log_example\<lparr>lg_outstanding := 1\<rparr>) (binit (kernel0 fs_disk 1000))"
  have "bproto ?s {}" "pinned ?s = {}" using B by (simp_all add: booted_def)
  moreover have "bproto fs_example {} = bproto ?s {}" "pinned fs_example = pinned ?s"
    by (rule cache_same; simp add: fs_example_def)+
  ultimately show P: "bproto fs_example {}" and pn: "pinned fs_example = {}" by simp_all
  have "view fs_example m = disk fs_example m" for m using view_unpinned[OF P] pn by simp
  then show "view fs_example = fs_disk" by auto
  have "get32 (fs_disk 2) 0 = 0" by (simp add: fs_disk_def disk_example_def BSIZE_def)
  then show ok: "log_ok fs_example"
    by (simp add: log_ok_def pn logged_def log_geom_def) (simp add: log_example_def zero_log_def sint32_def param_defs)
  show "txn fs_example {}" unfolding txn_def using P ok by simp
qed

subsection \<open>The layout\<close>

lemma fs_example_geom: "fs_geom fs_example" "data_start fs_example = 152"
  by (simp_all add: fs_geom_def data_start_def param_defs log_example_def)

lemma bit_255: "k < 8 \<Longrightarrow> bit (255 :: u8) k"
proof -
  have "(255 :: u8) = mask 8" by (simp add: mask_eq_exp_minus_1)
  then show "k < 8 \<Longrightarrow> bit (255 :: u8) k" by (simp only: bit_mask_iff) simp
qed

lemma bit_3: "k < 8 \<Longrightarrow> bit (3 :: u8) k \<longleftrightarrow> k < 2"
proof -
  have "(3 :: u8) = mask 2" by (simp add: mask_eq_exp_minus_1)
  then show "k < 8 \<Longrightarrow> bit (3 :: u8) k \<longleftrightarrow> k < 2" by (simp only: bit_mask_iff) simp
qed

lemma used_example: "b < 1000 \<Longrightarrow> used_blk fs_example b \<longleftrightarrow> b < 154"
proof -
  assume b: "b < 1000"
  have B: "BBLOCK b fs_example = 151" "b mod BPB = b" using b by (simp_all add: BBLOCK_def uadd_def param_defs)
  have "bit (bitmap_example ! (b div 8)) (b mod 8) \<longleftrightarrow> b < 154"
  proof -
    have m: "b mod 8 < 8" by simp
    consider "b div 8 < 19" | "b div 8 = 19" | "19 < b div 8" by linarith
    then show ?thesis
    proof cases
      case 1
      then have "bitmap_example ! (b div 8) = 255" by (simp add: bitmap_example_def nth_append)
      then show ?thesis using 1 bit_255[OF m] by simp
    next
      case 2
      then have "bitmap_example ! (b div 8) = 3" by (simp add: bitmap_example_def nth_append)
      then have "bit (bitmap_example ! (b div 8)) (b mod 8) \<longleftrightarrow> b mod 8 < 2" using bit_3[OF m] by simp
      moreover have "b mod 8 < 2 \<longleftrightarrow> b < 154" using 2 div_mult_mod_eq[of b 8] m by linarith
      ultimately show ?thesis by simp
    next
      case 3
      moreover have "b div 8 - 20 < 492" using b by linarith
      ultimately have "bitmap_example ! (b div 8) = 0" by (simp add: bitmap_example_def nth_append nth_Cons')
      then show ?thesis using 3 by simp
    qed
  qed
  then show ?thesis unfolding used_blk_def B fs_example_storage by (simp add: fs_disk_def bit_free_iff)
qed

lemma fs_example_ok: "fs_ok fs_example"
  using fs_example_geom used_example by (simp add: fs_ok_def)

lemma free_example: "free_data fs_example b \<longleftrightarrow> 154 \<le> b \<and> b < 1000"
  using used_example[of b] by (auto simp: free_data_def)

lemma stock_example: "n \<le> 39 \<Longrightarrow> stock fs_example n"
proof -
  assume n: "n \<le> 39"
  have "{b. free_data fs_example b} = {154..<1000}" by (auto simp: free_example)
  then show ?thesis using n by (simp add: stock_def fits_def fs_example_storage param_defs)
qed

lemma data_example: "is_data fs_example b \<longleftrightarrow> b = 152 \<or> b = 153"
  using used_example[of b] by (auto simp: is_data_def fs_example_geom)

subsection \<open>The inodes\<close>

lemma inodes_example_nth [simp]:
  "inodes_example ! 0 = root_inode" "inodes_example ! 1 = file_inode" "length inodes_example = NINODE"
  "inodes_example ! (Suc 0) = file_inode"
  "1 < i \<Longrightarrow> i < NINODE \<Longrightarrow> inodes_example ! i = zero_inode"
  by (auto simp: inodes_example_def param_defs nth_Cons' One_nat_def)

lemma node_one:
  assumes "tpath p" "length as = 13" "\<And>k. k < 13 \<Longrightarrow> as ! k = (if k = 0 then b else 0)"
  shows "node v as p = (if p = (0, []) then b else 0)"
proof (cases p)
  case (Pair r i)
  show ?thesis
  proof (cases "r = 0")
    case True
    then show ?thesis using assms Pair by (simp add: tpath_def depth_def)
  next
    case False
    have z: "foldl (\<lambda>a i. if a = 0 then 0 else word_at (v a) i) 0 i = 0" by (induction i) simp_all
    have "as ! r = 0" using False assms Pair by (simp add: tpath_def)
    then show ?thesis using False Pair z by (simp add: node_def)
  qed
qed

lemma example_node:
  assumes "tpath p" "ip = 0 \<and> b = 152 \<or> ip = 1 \<and> b = 153"
  shows "inode_node fs_example ip p = (if p = (0, []) then b else 0)"
  unfolding inode_node_def
  by (rule node_one) (use assms in \<open>auto simp: iaddrs_def root_inode_def file_inode_def nth_Cons'\<close>)

lemma example_tree: "ip = 0 \<or> ip = 1 \<Longrightarrow> tree_ok fs_example ip"
proof -
  assume "ip = 0 \<or> ip = 1"
  then obtain b :: nat where b: "ip = 0 \<and> b = 152 \<or> ip = 1 \<and> b = 153" by auto
  note N = example_node[OF _ b]
  have "length (iaddrs fs_example ip) = 13" using b by (auto simp: iaddrs_def root_inode_def file_inode_def)
  moreover have "ip < NINODE" using b by (auto simp: param_defs)
  ultimately show ?thesis using b by (auto simp: tree_ok_def N data_example split: if_splits)
qed

lemma example_bpath: "p < 512 \<Longrightarrow> bpath (p div BSIZE) = (0, [])"
  by (simp add: bpath_def param_defs)

lemma example_blk: "p < 512 \<Longrightarrow> blk_of fs_example 0 (p div BSIZE) = 152" "p < 512 \<Longrightarrow> blk_of fs_example 1 (p div BSIZE) = 153"
proof -
  have t: "tpath (0, [])" by (simp add: tpath_def)
  show "p < 512 \<Longrightarrow> blk_of fs_example 0 (p div BSIZE) = 152" "p < 512 \<Longrightarrow> blk_of fs_example 1 (p div BSIZE) = 153"
    unfolding blk_of_def by (simp_all add: example_bpath example_node[OF t, of 0 152] example_node[OF t, of 1 153])
qed

lemma example_file_ok: "ip = 0 \<or> ip = 1 \<Longrightarrow> file_ok fs_example ip"
proof -
  assume a: "ip = 0 \<or> ip = 1"
  then have le: "i_size (inodes fs_example ! ip) \<le> 16" by (auto simp: root_inode_def file_inode_def)
  from le have l: "i_size (inodes fs_example ! ip) \<le> MAXFILE * BSIZE" by (simp add: param_defs)
  have "blk_of fs_example ip (p div BSIZE) \<noteq> 0" if "p < i_size (inodes fs_example ! ip)" for p
  proof -
    have "p < 512" using that le by linarith
    then show ?thesis using a example_blk[of p] by auto
  qed
  then have "covers fs_example ip (i_size (inodes fs_example ! ip))" unfolding covers_def using l by blast
  moreover have "i_dev (inodes fs_example ! ip) = 1 \<and> i_type (inodes fs_example ! ip) \<noteq> T_DEV"
    using a by (auto simp: root_inode_def file_inode_def param_defs)
  ultimately show ?thesis using example_tree[OF a] by (simp add: file_ok_def)
qed

lemma example_content: "content fs_example 0 = mk_dirent 2 greet" "content fs_example 1 = hello"
proof -
  have l: "length (mk_dirent 2 greet) = 16" by (simp add: mk_dirent_def greet_def length_put16)
  have "file_byte fs_example 0 p = mk_dirent 2 greet ! p" if "p < 16" for p
    using that example_blk(1)[of p] l by (simp add: file_byte_def fs_example_storage fs_disk_def dir_block_def nth_append BSIZE_def)
  then show "content fs_example 0 = mk_dirent 2 greet"
    using l by (intro nth_equalityI) (simp_all add: content_def root_inode_def)
  have h: "length hello = 5" by (simp add: hello_def)
  have "file_byte fs_example 1 p = hello ! p" if "p < 5" for p
    using that example_blk(2)[of p] h by (simp add: file_byte_def fs_example_storage fs_disk_def nth_append BSIZE_def)
  then show "content fs_example 1 = hello"
    using h by (intro nth_equalityI) (simp_all add: content_def file_inode_def)
qed

lemma example_icache: "icache_ok fs_example" "icache_room fs_example"
proof -
  have z: "i_ref (inodes_example ! i) = (if i < 2 then 1 else 0)" if "i < NINODE" for i
  proof (cases "i < 2")
    case True
    then have "i = 0 \<or> i = 1" by linarith
    then show ?thesis by (auto simp: root_inode_def file_inode_def)
  next
    case False
    then show ?thesis using that by (simp add: zero_inode_def)
  qed
  have n: "i_inum (inodes_example ! i) = i + 1" if "i < 2" for i
  proof -
    have "i = 0 \<or> i = 1" using that by linarith
    then show ?thesis by (auto simp: root_inode_def file_inode_def)
  qed
  show ok: "icache_ok fs_example" unfolding icache_ok_def using z n by (auto split: if_splits)
  have "2 < NINODE" "i_ref (inodes fs_example ! 2) = 0" using z[of 2] by (simp_all add: param_defs)
  then show "icache_room fs_example" unfolding icache_room_def using ok by blast
qed

end
