(* ===== verification/FsProps.thy ===== *)
theory FsProps
  imports FsExample
begin

text \<open>
  The properties of the file system above the log: allocation of blocks, the block map, inodes on the
  disk and in the cache, reading and writing files, directories and path names, the string functions.
\<close>

text \<open>
  C13. \<open>writei\<close> inside a transaction, at an offset within the file or at its end: it returns the number of
  bytes and the content of the file is then the old one with the bytes overwritten at the offset (and
  extended when they go beyond the end). It keeps the invariants of the file system, leaves every used
  block that is not of this file and every other inode of the disk alone, and writes the inode to the
  disk exactly when the size changed.
\<close>
theorem writei_overwrites:
  assumes "txn s {}" "fs_ok s" "file_ok s ip" "p \<le> i_size (inodes s ! ip)"
    and "p + length xs \<le> MAXFILE * BSIZE" "stock s (5 * blocks_in p (length xs) + 1)"
    and "i_inum (inodes s ! ip) < sb_ninodes (sb s)" "dinode_ok (dinode_of (inodes s ! ip))"
  shows "runs (writei ip xs p (length xs) s) (\<lambda>r t. r = int (length xs) \<and> txn t {} \<and> fs_ok t \<and> file_ok t ip
     \<and> content t ip = overwrite p xs (content s ip)
     \<and> (\<forall>m. is_data s m \<longrightarrow> is_data t m \<and> (m \<notin> nodes_of s ip \<longrightarrow> view t m = view s m))
     \<and> (\<forall>n < sb_ninodes (sb s). n \<noteq> i_inum (inodes s ! ip) \<longrightarrow> disk_inode t n = disk_inode s n)
     \<and> disk_inode t (i_inum (inodes s ! ip)) = (if p + length xs > i_size (inodes s ! ip)
          then dinode_of (inodes t ! ip) else disk_inode s (i_inum (inodes s ! ip))))"
  by (rule runs_mono[OF writei_spec[OF assms]]) (simp add: written_def)

theorem writei_overwrites_witness:
  "\<exists>t. writei 1 [33, 33] 5 (length [33, 33 :: u8]) fs_example = Ok 2 t \<and> content t 1 = [104, 101, 108, 108, 111, 33, 33]
     \<and> view t 152 = dir_block \<and> d_addrs (disk_inode t 2) ! 0 = i_addrs (inodes t ! 1) ! 0"
proof -
  have st: "stock fs_example (5 * blocks_in 5 (length [33, 33 :: u8]) + 1)"
    by (rule stock_example) (simp add: blocks_in_def BSIZE_def)
  have f: "file_ok fs_example 1" by (rule example_file_ok) simp
  have ok: "dinode_ok (dinode_of (inodes fs_example ! 1))"
    by (auto simp: dinode_ok_def dinode_of_def file_inode_def zero_inode_def param_defs)
  have nn: "152 \<notin> nodes_of fs_example 1"
    by (auto simp: nodes_of_def example_node[of _ 1 153] split: if_splits)
  have a: "5 \<le> i_size (inodes fs_example ! 1)" "5 + length [33, 33 :: u8] \<le> MAXFILE * BSIZE"
    "i_inum (inodes fs_example ! 1) < sb_ninodes (sb fs_example)" "i_size (inodes fs_example ! 1) = 5"
    "i_inum (inodes fs_example ! 1) = 2"
    by (simp_all add: file_inode_def param_defs)
  note W = writei_overwrites[OF fs_example_storage(5) fs_example_ok f a(1,2) st a(3) ok]
  have "overwrite 5 [33, 33] hello = [104, 101, 108, 108, 111, 33, 33]" by (simp add: overwrite_def hello_def)
  moreover have "is_data fs_example 152" using data_example[of 152] by simp
  ultimately show ?thesis using W nn unfolding a(4,5)
    by (auto simp: runs_iff example_content dinode_of_def fs_example_storage fs_disk_def)
qed

text \<open>
  C14. \<open>readi\<close> of a regular file or directory from an offset within it returns the bytes of the content
  at this offset, cut at the end of the file, and their number, and changes nothing but the state of
  the buffer cache.
\<close>
theorem readi_returns:
  assumes "bproto s {}" "fs_geom s" "log_ok s" "file_ok s ip" "p \<le> i_size (inodes s ! ip)" "p + n < 2 ^ 32"
  shows "runs (readi ip p n s) (\<lambda>(r, bs) t. bs = take n (drop p (content s ip)) \<and> r = int (length bs) \<and> seen s t)"
  by (rule runs_mono[OF readi_spec[OF assms(1) log_ok_card[OF assms(3)] assms(2-6)]]) auto

theorem readi_returns_witness:
  "\<exists>t. readi 1 1 100 fs_example = Ok (4, [101, 108, 108, 111]) t"
proof -
  have a: "1 \<le> i_size (inodes fs_example ! 1)" "1 + 100 < (2 :: nat) ^ 32" by (simp_all add: file_inode_def)
  have f: "file_ok fs_example 1" by (rule example_file_ok) simp
  have "take 100 (drop 1 hello) = [101, 108, 108, 111]" by (simp add: hello_def One_nat_def)
  then show ?thesis
    using readi_returns[OF fs_example_storage(1) fs_example_geom(1) fs_example_storage(4) f a]
    by (auto simp: runs_iff example_content)
qed

text \<open>
  C16. \<open>balloc\<close> takes the first free block of the disk, marks it used, leaves the mark of every other
  block and the content of every other data block, and zeroes the block; when no block is free it
  panics.
\<close>
theorem balloc_first_free:
  assumes "txn s H" "fs_ok s" "fits s H 2"
  shows "if \<forall>b. \<not> free_data s b then balloc 1 s = Panic ''balloc: out of blocks''
    else runs (balloc 1 s) (\<lambda>b t. free_data s b \<and> (\<forall>b' < b. \<not> free_data s b') \<and> data_start s \<le> b \<and> fs_ok t
      \<and> view t b = replicate BSIZE 0 \<and> (\<forall>m < sb_size (sb s). used_blk t m \<longleftrightarrow> used_blk s m \<or> m = b)
      \<and> (\<forall>m \<ge> data_start s. m \<noteq> b \<longrightarrow> view t m = view s m)
      \<and> (\<forall>m < sb_bmapstart (sb s). view t m = view s m))"
proof (cases "\<forall>b. \<not> free_data s b")
  case True
  then show ?thesis using balloc_full[OF assms] by simp
next
  case False
  then obtain b0 where b0: "free_data s b0" by blast
  show ?thesis
    unfolding if_not_P[OF False]
  proof (rule runs_mono[OF balloc_spec[OF assms b0]], elim conjE)
    fix b t
    assume b: "free_data s b" and f: "\<forall>b' < b. \<not> free_data s b'" and A: "did_alloc H s b t"
    have k: "fits s H (0 + 2)" using assms(3) by (simp only: add_0)
    note E = alloc_effect[OF A assms(1,2) b k]
    show "free_data s b \<and> (\<forall>b' < b. \<not> free_data s b') \<and> data_start s \<le> b \<and> fs_ok t
      \<and> view t b = replicate BSIZE 0 \<and> (\<forall>m < sb_size (sb s). used_blk t m \<longleftrightarrow> used_blk s m \<or> m = b)
      \<and> (\<forall>m \<ge> data_start s. m \<noteq> b \<longrightarrow> view t m = view s m)
      \<and> (\<forall>m < sb_bmapstart (sb s). view t m = view s m)"
      using b f free_data_start[OF assms(2) b] E(1,4,5,6,7) by blast
  qed
qed

theorem balloc_first_free_witness: "\<exists>t. balloc 1 fs_example = Ok 154 t \<and> view t 154 = replicate BSIZE 0"
proof -
  have f: "fits fs_example {} 2" by (simp add: fits_def fs_example_storage param_defs)
  have n: "\<not> (\<forall>b. \<not> free_data fs_example b)" using free_example[of 154] by auto
  from balloc_first_free[OF fs_example_storage(5) fs_example_ok f] n obtain b t
    where t: "balloc 1 fs_example = Ok b t" "free_data fs_example b" "\<forall>b' < b. \<not> free_data fs_example b'"
      "view t b = replicate BSIZE 0" unfolding if_not_P[OF n] by (auto elim!: runsE)
  have "\<not> 154 < b" using t(3) free_example[of 154] by auto
  then have "b = 154" using t(2) by (simp add: free_example)
  then show ?thesis using t by blast
qed

text \<open>
  \<open>bfree\<close> of a used data block clears its mark and nothing else; freeing a free block panics.
\<close>
theorem bfree_clears:
  assumes "txn s H" "fs_ok s" "fits s H 1" "data_start s \<le> b" "b < sb_size (sb s)"
    and "\<forall>i \<in> H. b_blockno (bufs s ! i) \<noteq> b"
  shows "if used_blk s b then runs (bfree 1 b s) (\<lambda>_ t. fs_ok t
      \<and> (\<forall>m < sb_size (sb s). used_blk t m \<longleftrightarrow> used_blk s m \<and> m \<noteq> b)
      \<and> (\<forall>m \<ge> data_start s. view t m = view s m) \<and> (\<forall>m < sb_bmapstart (sb s). view t m = view s m))
    else bfree 1 b s = Panic ''freeing free block''"
proof (cases "used_blk s b")
  case True
  have "runs (bfree 1 b s) (\<lambda>_. did_free H s b)" using bfree_spec[OF assms(1-3,5)] True by simp
  then have "runs (bfree 1 b s) (\<lambda>_ t. fs_ok t
      \<and> (\<forall>m < sb_size (sb s). used_blk t m \<longleftrightarrow> used_blk s m \<and> m \<noteq> b)
      \<and> (\<forall>m \<ge> data_start s. view t m = view s m) \<and> (\<forall>m < sb_bmapstart (sb s). view t m = view s m))"
  proof (rule runs_mono)
    fix x t assume A: "did_free H s b t"
    note E = free_effect[OF A assms(1,2,5,4) assms(6)[rule_format]]
    show "fs_ok t \<and> (\<forall>m < sb_size (sb s). used_blk t m \<longleftrightarrow> used_blk s m \<and> m \<noteq> b)
      \<and> (\<forall>m \<ge> data_start s. view t m = view s m) \<and> (\<forall>m < sb_bmapstart (sb s). view t m = view s m)"
      using E(1,3,4,5) by blast
  qed
  then show ?thesis using True by simp
next
  case False
  then show ?thesis using bfree_spec[OF assms(1-3,5)] by simp
qed

theorem bfree_clears_witness:
  "\<exists>t. bfree 1 153 fs_example = Ok () t \<and> \<not> used_blk t 153 \<and> used_blk t 152"
proof -
  have f: "fits fs_example {} 1" by (simp add: fits_def fs_example_storage param_defs)
  have r: "data_start fs_example \<le> 153" "153 < sb_size (sb fs_example)" by (simp_all add: fs_example_geom)
  have h: "\<forall>i \<in> {}. b_blockno (bufs fs_example ! i) \<noteq> 153" by simp
  have u: "used_blk fs_example 153" "used_blk fs_example 152" using used_example by simp_all
  show ?thesis using bfree_clears[OF fs_example_storage(5) fs_example_ok f r h] u by (auto simp: runs_iff)
qed

text \<open>What a call of \<open>bmap\<close> for a valid number leaves behind, and that no two numbers share a block.\<close>

lemma bmap_found:
  assumes "txn s {}" "fs_ok s" "tree_ok s ip" "i_dev (inodes s ! ip) = 1" "stock s (n + 4)" "bn < MAXFILE"
  shows "runs (bmap ip bn s) (\<lambda>b t. txn t {} \<and> fs_ok t \<and> tree_ok t ip \<and> iframe ip s t \<and> i_dev (inodes t ! ip) = i_dev (inodes s ! ip)
     \<and> stock t n \<and> blk_of t ip bn = b \<and> b \<noteq> 0 \<and> is_data t b \<and> b \<notin> indirects t ip
     \<and> (\<forall>bn' < MAXFILE. blk_of s ip bn' \<noteq> 0 \<longrightarrow> blk_of t ip bn' = blk_of s ip bn'))"
proof (rule runs_mono[OF bmap_walk[OF assms]])
  fix b t
  assume W: "walked ip (on_path bn) (bpath bn) n s b t"
  then have G: "grow {} ip (on_path bn) s t" and b: "inode_node t ip (bpath bn) = b" "b \<noteq> 0" and st: "stock t n"
    by (simp_all add: walked_def)
  note D = growD[OF G] and P = bpath_full[OF assms(6)]
  have "blk_of t ip bn' = blk_of s ip bn'" if "bn' < MAXFILE" "blk_of s ip bn' \<noteq> 0" for bn'
    using D(8)[OF bpath_full(1)[OF that(1)]] that(2) by (simp add: blk_of_def)
  moreover have "is_data t b" "b \<notin> indirects t ip"
    using tree_okD(3)[OF D(3) P(1)] leaf_not_indirect[OF D(3) P] b by simp_all
  ultimately show "txn t {} \<and> fs_ok t \<and> tree_ok t ip \<and> iframe ip s t \<and> i_dev (inodes t ! ip) = i_dev (inodes s ! ip)
     \<and> stock t n \<and> blk_of t ip bn = b \<and> b \<noteq> 0 \<and> is_data t b \<and> b \<notin> indirects t ip
     \<and> (\<forall>bn' < MAXFILE. blk_of s ip bn' \<noteq> 0 \<longrightarrow> blk_of t ip bn' = blk_of s ip bn')"
    using D(1,2,3,4) iframeD(13)[OF D(4)] st b by (simp add: blk_of_def)
qed

lemma blk_of_inj:
  assumes "tree_ok s ip" "bn < MAXFILE" "bn' < MAXFILE" "blk_of s ip bn \<noteq> 0"
  shows "blk_of s ip bn = blk_of s ip bn' \<longleftrightarrow> bn = bn'"
  using tree_okD(4)[OF assms(1) bpath_full(1)[OF assms(2)] bpath_full(1)[OF assms(3)]] bpath_inj[OF assms(2,3)] assms(4)
  by (auto simp: blk_of_def)

text \<open>
  C17. \<open>bmap\<close> of a block number within the file size limit returns the disk block the block map has
  for it, and creates one when there is none: the new block is zeroed and was free before, every other
  block number keeps its block (the map changes at most at this number), and the content of every used
  block that is not an indirect block of the inode stays the same. A larger number panics.
\<close>
theorem bmap_extends:
  assumes "txn s {}" "fs_ok s" "tree_ok s ip" "i_dev (inodes s ! ip) = 1" "stock s 4"
  shows "if MAXFILE \<le> bn then bmap ip bn s = Panic ''bmap: out of range''
    else runs (bmap ip bn s) (\<lambda>b t. b = blk_of t ip bn \<and> b \<noteq> 0 \<and> txn t {} \<and> fs_ok t \<and> tree_ok t ip
      \<and> (blk_of s ip bn \<noteq> 0 \<longrightarrow> b = blk_of s ip bn \<and> view t = view s)
      \<and> (blk_of s ip bn = 0 \<longrightarrow> \<not> is_data s b \<and> view t b = replicate BSIZE 0)
      \<and> (\<forall>bn' < MAXFILE. bn' \<noteq> bn \<longrightarrow> blk_of t ip bn' = blk_of s ip bn')
      \<and> (\<forall>m. is_data s m \<longrightarrow> is_data t m \<and> (m \<notin> indirects s ip \<longrightarrow> view t m = view s m)))"
proof (cases "MAXFILE \<le> bn")
  case True
  then show ?thesis using bmap_out_of_range by simp
next
  case False
  then have bn: "bn < MAXFILE" by simp
  have st: "stock s (0 + 4)" using assms(5) by (simp only: add_0)
  show ?thesis
    unfolding if_not_P[OF False]
  proof (rule runs_mono[OF bmap_walk[OF assms(1-4) st bn]])
    fix b t
    assume W: "walked ip (on_path bn) (bpath bn) 0 s b t"
    then have G: "grow {} ip (on_path bn) s t" and b: "blk_of t ip bn = b" "b \<noteq> 0"
      and sv: "blk_of s ip bn \<noteq> 0 \<longrightarrow> same_view {} s t"
      by (simp_all add: walked_def blk_of_def)
    note D = growD[OF G]
    have other: "blk_of t ip bn' = blk_of s ip bn'" if "bn' < MAXFILE" "bn' \<noteq> bn" for bn'
    proof -
      have "bpath bn' \<notin> on_path bn" using bpath_full[OF that(1)] bpath_inj[OF that(1) bn] that(2)
        by (auto simp: on_path_def)
      then show ?thesis unfolding blk_of_def by (rule D(7)[OF bpath_full(1)[OF that(1)]])
    qed
    have old: "b = blk_of s ip bn \<and> view t = view s" if "blk_of s ip bn \<noteq> 0"
      using that sv D(8)[OF bpath_full(1)[OF bn]] b same_viewD(2) by (auto simp: blk_of_def)
    have new: "\<not> is_data s b \<and> view t b = replicate BSIZE 0" if "blk_of s ip bn = 0"
      using D(9,10)[OF bpath_full(1)[OF bn]] bpath_full(2)[OF bn] that b by (simp add: blk_of_def)
    show "b = blk_of t ip bn \<and> b \<noteq> 0 \<and> txn t {} \<and> fs_ok t \<and> tree_ok t ip
      \<and> (blk_of s ip bn \<noteq> 0 \<longrightarrow> b = blk_of s ip bn \<and> view t = view s)
      \<and> (blk_of s ip bn = 0 \<longrightarrow> \<not> is_data s b \<and> view t b = replicate BSIZE 0)
      \<and> (\<forall>bn' < MAXFILE. bn' \<noteq> bn \<longrightarrow> blk_of t ip bn' = blk_of s ip bn')
      \<and> (\<forall>m. is_data s m \<longrightarrow> is_data t m \<and> (m \<notin> indirects s ip \<longrightarrow> view t m = view s m))"
      using b D(1,2,3,11,12) other old new by simp
  qed
qed

text \<open>The first block of the triple indirect range: four blocks are allocated.\<close>

theorem bmap_extends_witness:
  "\<exists>b t. bmap 1 (16522) fs_example = Ok b t \<and> \<not> is_data fs_example b \<and> blk_of t 1 0 = 153"
proof -
  have st: "stock fs_example 4" by (rule stock_example) simp
  have dv: "i_dev (inodes fs_example ! 1) = 1" by (simp add: file_inode_def)
  have bn: "\<not> MAXFILE \<le> 16522" by (simp add: param_defs)
  have p: "bpath (16522) = (TINDIRECT_IDX, [0, 0, 0])" by (simp add: bpath_def param_defs)
  have t: "tpath (TINDIRECT_IDX, [0, 0, 0])" by (simp add: tpath_def depth_def param_defs)
  have z: "blk_of fs_example 1 (16522) = 0"
    using example_node[OF t, of 1 153] by (simp add: blk_of_def p)
  have z0: "blk_of fs_example 1 0 = 153" using example_blk(2)[of 0] by simp
  have lt: "0 < MAXFILE" by (simp add: param_defs)
  note B = bmap_extends[OF fs_example_storage(5) fs_example_ok example_tree[of 1] dv st,
      of "16522", unfolded if_not_P[OF bn]]
  from B obtain b t where "bmap 1 (16522) fs_example = Ok b t" "\<not> is_data fs_example b"
    "\<forall>bn' < MAXFILE. bn' \<noteq> 16522 \<longrightarrow> blk_of t 1 bn' = blk_of fs_example 1 bn'"
    using z by (auto elim!: runsE)
  then show ?thesis using lt z0 by (intro exI[of _ b] exI[of _ t]) simp
qed

text \<open>
  C18. The block map stays inside the disk and gives every block number of a file a block of its own. For
  a number below \<open>MAXFILE\<close>, \<open>bmap\<close> returns a used block of the data area of the disk that is not an indirect block
  of the inode. A second call returns that block again exactly when it is for the same number, and the
  first number still has its block after the second call, whatever indirect blocks that has
  created. A number from \<open>MAXFILE\<close> on panics.
\<close>
theorem bmap_separates:
  assumes "txn s {}" "fs_ok s" "tree_ok s ip" "i_dev (inodes s ! ip) = 1" "stock s 12" "bn < MAXFILE"
  shows "runs (bmap ip bn s) (\<lambda>b t. data_start s \<le> b \<and> b < sb_size (sb s) \<and> used_blk t b \<and> b \<notin> indirects t ip
     \<and> (if MAXFILE \<le> bn' then bmap ip bn' t = Panic ''bmap: out of range''
        else runs (bmap ip bn' t) (\<lambda>b' u. (b' = b \<longleftrightarrow> bn' = bn) \<and> runs (bmap ip bn u) (\<lambda>b'' v. b'' = b))))"
proof -
  have st: "stock s (8 + 4)" using assms(5) by simp
  show ?thesis
  proof (rule runs_mono[OF bmap_found[OF assms(1-4) st assms(6)]], elim conjE)
    fix b t
    assume T: "txn t {}" "fs_ok t" "tree_ok t ip" and f: "iframe ip s t" and d: "i_dev (inodes t ! ip) = i_dev (inodes s ! ip)"
      and st: "stock t 8" and b: "blk_of t ip bn = b" "b \<noteq> 0" "is_data t b" "b \<notin> indirects t ip"
    have dt: "i_dev (inodes t ! ip) = 1" using d assms(4) by simp
    have st: "stock t (4 + 4)" using st by simp
    have "runs (bmap ip bn' t) (\<lambda>b' u. (b' = b \<longleftrightarrow> bn' = bn) \<and> runs (bmap ip bn u) (\<lambda>b'' v. b'' = b))" if n: "bn' < MAXFILE"
    proof (rule runs_mono[OF bmap_found[OF T dt st n]], elim conjE)
      fix b' u
      assume U: "txn u {}" "fs_ok u" "tree_ok u ip" and d: "i_dev (inodes u ! ip) = i_dev (inodes t ! ip)" and su: "stock u 4"
        and b': "blk_of u ip bn' = b'" "b' \<noteq> 0" and k: "\<forall>n < MAXFILE. blk_of t ip n \<noteq> 0 \<longrightarrow> blk_of u ip n = blk_of t ip n"
      have bu: "blk_of u ip bn = b" using k assms(6) b(1,2) by simp
      have du: "i_dev (inodes u ! ip) = 1" using d dt by simp
      have su: "stock u (0 + 4)" using su by simp
      have "b' = b \<longleftrightarrow> bn' = bn" using blk_of_inj[OF U(3) n assms(6)] b' bu by simp
      moreover have "runs (bmap ip bn u) (\<lambda>b'' v. b'' = b)"
        by (rule runs_mono[OF bmap_found[OF U du su assms(6)]]) (use bu b(2) assms(6) in auto)
      ultimately show "(b' = b \<longleftrightarrow> bn' = bn) \<and> runs (bmap ip bn u) (\<lambda>b'' v. b'' = b)" by blast
    qed
    moreover have "data_start s \<le> b" "b < sb_size (sb s)" "used_blk t b"
      using b(3) iframe_geom(2)[OF f] iframeD(3)[OF f] by (simp_all add: is_data_def)
    ultimately show "data_start s \<le> b \<and> b < sb_size (sb s) \<and> used_blk t b \<and> b \<notin> indirects t ip
     \<and> (if MAXFILE \<le> bn' then bmap ip bn' t = Panic ''bmap: out of range''
        else runs (bmap ip bn' t) (\<lambda>b' u. (b' = b \<longleftrightarrow> bn' = bn) \<and> runs (bmap ip bn u) (\<lambda>b'' v. b'' = b)))"
      using b(4) bmap_out_of_range by simp
  qed
qed

text \<open>A block in the triple indirect range of a file of one block, and then the block behind it.\<close>

theorem bmap_separates_witness:
  "\<exists>b t b' u. bmap 1 16522 fs_example = Ok b t \<and> bmap 1 16523 t = Ok b' u \<and> b' \<noteq> b \<and> b < sb_size (sb fs_example)"
proof -
  have st: "stock fs_example 12" by (rule stock_example) simp
  have dv: "i_dev (inodes fs_example ! 1) = 1" by (simp add: file_inode_def)
  have bn: "16522 < MAXFILE" "\<not> MAXFILE \<le> 16523" by (simp_all add: param_defs)
  from bmap_separates[OF fs_example_storage(5) fs_example_ok example_tree[of 1] dv st bn(1), of 16523]
  obtain b t where b: "bmap 1 16522 fs_example = Ok b t" "b < sb_size (sb fs_example)"
    "runs (bmap 1 16523 t) (\<lambda>b' u. (b' = b \<longleftrightarrow> (16523 :: nat) = 16522) \<and> runs (bmap 1 16522 u) (\<lambda>b'' v. b'' = b))"
    using bn(2) by (auto elim!: runsE)
  from b(3) obtain b' u where "bmap 1 16523 t = Ok b' u" "b' \<noteq> b" by (auto elim!: runsE)
  then show ?thesis using b by blast
qed

text \<open>
  C19. \<open>iupdate\<close> writes the fields of the inode so that they are read back unchanged, and leaves every
  other inode of the disk, every data block and the bitmap alone.
\<close>
theorem iupdate_roundtrip:
  assumes "txn s {}" "fs_geom s" "fits s {} 1" "i_dev (inodes s ! ip) = 1"
    and "i_inum (inodes s ! ip) < sb_ninodes (sb s)" "dinode_ok (dinode_of (inodes s ! ip))"
  shows "runs (iupdate ip s) (\<lambda>_ t. txn t {} \<and> inodes t = inodes s
     \<and> (\<forall>n < sb_ninodes (sb s). disk_inode t n
          = (if n = i_inum (inodes s ! ip) then dinode_of (inodes s ! ip) else disk_inode s n))
     \<and> (\<forall>m \<ge> data_start s. view t m = view s m) \<and> is_data t = is_data s)"
proof (rule runs_mono[OF iupdate_spec[OF assms(1-5)]])
  fix x t
  assume D: "did_mod {} s (IBLOCK (i_inum (inodes s ! ip)) s) (put_dinode (i_inum (inodes s ! ip) mod IPB)
      (dinode_of (inodes s ! ip)) (view s (IBLOCK (i_inum (inodes s ! ip)) s))) t"
  note ok = txnD(2)[OF assms(1)]
  note M = meta_effect[OF D assms(2) ok IBLOCK_eq(2)[OF assms(2) ok assms(5)]]
  have "inodes t = inodes s" using laterD(2)[OF M(5)] by (rule tframeD(4))
  then show "txn t {} \<and> inodes t = inodes s
     \<and> (\<forall>n < sb_ninodes (sb s). disk_inode t n
          = (if n = i_inum (inodes s ! ip) then dinode_of (inodes s ! ip) else disk_inode s n))
     \<and> (\<forall>m \<ge> data_start s. view t m = view s m) \<and> is_data t = is_data s"
    using laterD(1)[OF M(5)] M(2,4) disk_inode_upd[OF D assms(1,2,5) _ assms(6)] by blast
qed

theorem iupdate_roundtrip_witness:
  "\<exists>t. iupdate 1 fs_example = Ok () t \<and> disk_inode t 2 = dinode_of file_inode \<and> d_size (disk_inode t 2) = 5"
proof -
  have f: "fits fs_example {} 1" by (simp add: fits_def fs_example_storage param_defs)
  have a: "i_dev (inodes fs_example ! 1) = 1" "i_inum (inodes fs_example ! 1) < sb_ninodes (sb fs_example)"
    by (simp_all add: file_inode_def)
  have ok: "dinode_ok (dinode_of (inodes fs_example ! 1))"
    by (auto simp: dinode_ok_def dinode_of_def file_inode_def zero_inode_def param_defs)
  have e: "i_inum (inodes fs_example ! 1) = 2" "(2 :: nat) < sb_ninodes (sb fs_example)" "d_size (dinode_of file_inode) = 5"
    by (simp_all add: file_inode_def dinode_of_def)
  show ?thesis
    using iupdate_roundtrip[OF fs_example_storage(5) fs_example_geom(1) f a ok] e by (auto simp: runs_iff)
qed

text \<open>
  C20. \<open>iget\<close> keeps the inode cache unique: an inode has at most one entry in use. It returns the entry
  of the inode when there is one, counting the new reference, takes an unused entry otherwise (not valid
  until \<open>ilock\<close> reads the inode), changes no other entry, and panics when the table is full.
\<close>
theorem iget_unique:
  assumes "bproto s {}" "icache_ok s"
  shows "if (\<exists>i. refers s i dev n) \<or> (\<exists>i < NINODE. i_ref (inodes s ! i) = 0)
    then runs (iget dev n s) (\<lambda>i t. refers t i dev n \<and> icache_ok t
      \<and> i_ref (inodes t ! i) = (if refers s i dev n then i_ref (inodes s ! i) + 1 else 1)
      \<and> (refers s i dev n \<or> i_ref (inodes s ! i) = 0 \<and> \<not> i_valid (inodes t ! i))
      \<and> (\<forall>j. j \<noteq> i \<longrightarrow> inodes t ! j = inodes s ! j) \<and> (\<forall>j. refers t j dev n \<longrightarrow> j = i))
    else iget dev n s = Panic ''iget: no inodes''"
proof (cases "(\<exists>i. refers s i dev n) \<or> (\<exists>i < NINODE. i_ref (inodes s ! i) = 0)")
  case True
  show ?thesis
    unfolding if_P[OF True]
  proof (rule runs_mono[OF iget_spec[OF assms True]], elim conjE)
    fix i t
    assume r: "refers t i dev n" and ok: "icache_ok t"
      and c: "i_ref (inodes t ! i) = (if refers s i dev n then i_ref (inodes s ! i) + 1 else 1)"
      and v: "refers s i dev n \<or> i_ref (inodes s ! i) = 0 \<and> \<not> i_valid (inodes t ! i)"
      and im: "imem ((inodes s)[i := inodes t ! i]) s t"
    have "inodes t ! j = inodes s ! j" if "j \<noteq> i" for j
      by (subst imemD(1)[OF im]) (simp only: nth_list_update_neq[OF that[symmetric]])
    then show "refers t i dev n \<and> icache_ok t
      \<and> i_ref (inodes t ! i) = (if refers s i dev n then i_ref (inodes s ! i) + 1 else 1)
      \<and> (refers s i dev n \<or> i_ref (inodes s ! i) = 0 \<and> \<not> i_valid (inodes t ! i))
      \<and> (\<forall>j. j \<noteq> i \<longrightarrow> inodes t ! j = inodes s ! j) \<and> (\<forall>j. refers t j dev n \<longrightarrow> j = i)"
      using r ok c v refers_unique[OF ok _ r] by blast
  qed
next
  case False
  then show ?thesis using iget_full[OF _ assms(2)] bprotoD(1)[OF assms(1)] by (auto simp: idle_locks_def)
qed

theorem iget_unique_witness: "\<exists>t. iget 1 2 fs_example = Ok 1 t \<and> i_ref (inodes t ! 1) = 2"
proof -
  have r: "refers fs_example 1 1 2" by (simp add: refers_def file_inode_def param_defs)
  have c: "i_ref (inodes fs_example ! 1) = 1" by (simp add: file_inode_def)
  from r have "(\<exists>i. refers fs_example i 1 2) \<or> (\<exists>i < NINODE. i_ref (inodes fs_example ! i) = 0)" by blast
  from iget_unique[OF fs_example_storage(1) example_icache(1), of 1 2, unfolded if_P[OF this]]
  obtain i t where t: "iget 1 2 fs_example = Ok i t" "refers t i 1 2" "\<forall>j. j \<noteq> i \<longrightarrow> inodes t ! j = inodes fs_example ! j"
    "i_ref (inodes t ! i) = (if refers fs_example i 1 2 then i_ref (inodes fs_example ! i) + 1 else 1)"
    "\<forall>j. refers t j 1 2 \<longrightarrow> j = i" unfolding runs_iff by blast
  have "i = 1"
  proof (rule ccontr)
    assume "i \<noteq> 1"
    then have "refers t 1 1 2" using t(3) r by (simp only: refers_def)
    then show False using t(5) \<open>i \<noteq> 1\<close> by simp
  qed
  then show ?thesis using t(1,4) r c by simp
qed

text \<open>
  C21. \<open>dirlookup\<close> in a directory: it returns the first entry in use with this name, its offset, and a
  reference to its inode, which it counts: the reference count of the cache entry goes up by exactly one, or is one when
  the inode was not cached, and all other cache entries stay as they were. When it returns nothing no entry
  in use has the name and no reference is taken. The content of the disk and of every file stays the same.
\<close>
theorem dirlookup_first:
  assumes "bproto s {}" "fs_geom s" "log_ok s" "dir_ok s dp" "readable DIRSIZ name" "icache_room s"
  shows "runs (dirlookup dp name s) (\<lambda>r t. view t = view s \<and> (case r of
      None \<Rightarrow> inodes t = inodes s \<and> (\<forall>k < dir_len s dp. \<not> has_name (content s dp) name k)
    | Some (ip, off) \<Rightarrow> \<exists>k < dir_len s dp. has_name (content s dp) name k
        \<and> (\<forall>j < k. \<not> has_name (content s dp) name j) \<and> off = 16 * k
        \<and> refers t ip 1 (de_inum (entry (content s dp) k)) \<and> icache_ok t
        \<and> i_ref (inodes t ! ip) = (if refers s ip 1 (de_inum (entry (content s dp) k)) then i_ref (inodes s ! ip) + 1 else 1)
        \<and> (\<forall>j. j \<noteq> ip \<longrightarrow> inodes t ! j = inodes s ! j)))"
proof -
  have R: "readable_fs s" using assms(1-3) by (simp add: readable_fs_def)
  show ?thesis
  proof (rule runs_mono[OF dirlookup_spec[OF R assms(4-6)]], goal_cases)
    case (1 r t)
    show ?case
    proof (cases r)
      case None
      then show ?thesis using 1 by (auto dest: seenD)
    next
      case (Some a)
      obtain ip off where a: "a = (ip, off)" by fastforce
      then obtain k where k: "found s dp name k ip off t" using 1 Some by auto
      then have im: "imem ((inodes s)[ip := inodes t ! ip]) s t" by (simp add: found_def)
      have "inodes t ! j = inodes s ! j" if "j \<noteq> ip" for j
        by (subst imemD(1)[OF im]) (simp only: nth_list_update_neq[OF that[symmetric]])
      moreover have "view t = view s" using imemD[OF im] by blast
      ultimately show ?thesis using k by (simp add: Some a found_def)
    qed
  qed
qed

theorem dirlookup_first_witness:
  "\<exists>t. dirlookup 0 greet fs_example = Ok (Some (1, 0)) t \<and> i_ref (inodes fs_example ! 1) = 1 \<and> i_ref (inodes t ! 1) = 2"
proof -
  have D: "dir_ok fs_example 0" using example_file_ok[of 0] by (simp add: dir_ok_def root_inode_def)
  have nm: "readable DIRSIZ greet" by (simp add: readable_def greet_def)
  have l: "dir_len fs_example 0 = 1" by (simp add: dir_len_def root_inode_def)
  have e: "entry (content fs_example 0) 0 = mk_dirent 2 greet"
    by (simp add: entry_def example_content mk_dirent_def greet_def)
  have i: "de_inum (mk_dirent 2 greet) = 2" "de_name (mk_dirent 2 greet) = greet"
    by (simp_all add: de_inum_def de_name_def mk_dirent_def get16_def put16_def One_nat_def greet_def param_defs)
  have h: "has_name (content fs_example 0) greet 0" by (simp add: has_name_def e i)
  have r: "refers fs_example 1 1 2" "i_ref (inodes fs_example ! 1) = 1" by (simp_all add: refers_def file_inode_def param_defs)
  from dirlookup_first[OF fs_example_storage(1) fs_example_geom(1) fs_example_storage(4) D nm example_icache(2)]
  obtain ip t where t: "dirlookup 0 greet fs_example = Ok (Some (ip, 0)) t" "refers t ip 1 2" "icache_ok t"
    "i_ref (inodes t ! ip) = (if refers fs_example ip 1 2 then i_ref (inodes fs_example ! ip) + 1 else 1)"
    "\<forall>j. j \<noteq> ip \<longrightarrow> inodes t ! j = inodes fs_example ! j"
    using h e i l by (auto simp: runs_iff split: option.splits simp del: fs_example_fields) blast
  have "ip = 1"
  proof (rule ccontr)
    assume n: "ip \<noteq> 1"
    then have "refers t 1 1 2" using t(5) r(1) by (simp only: refers_def)
    then show False using refers_unique[OF t(3) t(2)] n by blast
  qed
  then show ?thesis using t(1,4) r by simp
qed

text \<open>
  Path names: the successive calls of \<open>skipelem\<close> deliver the elements of the path, the maximal
  sequences of bytes other than the slash, in order, each cut to \<open>DIRSIZ\<close> bytes, whatever the buffer
  held before.
\<close>
theorem skipelem_splits:
  assumes "0 \<notin> set path"
  shows "skip_all path name = map (take DIRSIZ) (path_elems path)"
  using assms by (rule skip_all_elems)

text \<open>The path ///a//bb/ in bytes.\<close>

theorem skipelem_splits_witness:
  "skip_all [47, 47, 47, 97, 47, 47, 98, 98, 47] (replicate 14 9) = [[97], [98, 98]]"
  using skipelem_splits[of "[47, 47, 47, 97, 47, 47, 98, 98, 47]" "replicate 14 9"] by (simp add: param_defs)

text \<open>
  \<open>memmove\<close> copies the bytes the source region had before the call to the destination region and
  changes nothing else, also when the regions overlap in either direction.
\<close>
theorem memmove_overlap_safe:
  "memmove m dst src n = put_region m dst (region m src n)"
  by (rule memmove_eq)

text \<open>
  \<open>memset\<close>, by bytes or by words when address and length are multiples of four, stores the low byte
  of its argument in every byte of the region and nowhere else.
\<close>
theorem memset_fills:
  assumes "dst + n \<le> 2 ^ 32"
  shows "memset m dst c n = put_region m dst (replicate n (ucast c))"
  by (rule memset_eq[OF assms])

text \<open>
  \<open>strncpy\<close> of a string that ends within the first \<open>n\<close> bytes or has at least \<open>n\<close> bytes stores exactly
  \<open>n\<close> bytes, the string padded with NUL, and \<open>strncmp\<close> finds the copy equal to the original.
\<close>
theorem strncpy_compares_equal:
  assumes "readable n t"
  shows "\<exists>d. strncpy t n = Some d \<and> length d = n \<and> cname n d = cname n t \<and> strncmp d t n = Some 0"
proof -
  let ?d = "cname n t @ replicate (n - length (cname n t)) 0"
  have e: "strncpy t n = Some ?d" by (rule strncpy_eq[OF assms])
  have l: "length ?d = n" by (rule length_strncpy[OF e])
  have nz: "0 \<notin> set (cname n t)" by (auto simp: cname_def dest: set_takeWhileD)
  have "takeWhile (\<lambda>c. c \<noteq> 0) ?d = cname n t" using nz by (subst takeWhile_append2) (auto simp: takeWhile_replicate)
  then have c: "cname n ?d = cname n t" unfolding cname_def[of n ?d] using l by simp
  have "readable n ?d" using l by (simp add: readable_def)
  then show ?thesis using strncmp_eq[OF _ assms, of ?d] e l c by auto
qed

theorem strncpy_compares_equal_witness:
  "\<exists>d. strncpy greet 14 = Some d \<and> strncmp d greet 14 = Some 0"
proof -
  have "readable 14 greet" by (simp add: readable_def greet_def)
  from strncpy_compares_equal[OF this] show ?thesis by auto
qed

end
