(* ===== verification/PipeSpec.thy ===== *)
theory PipeSpec
  imports FTable
begin

text \<open>
  Pipes as byte queues: \<open>pipe_bytes\<close> are the bytes in the pipe, oldest first. The fields of \<open>struct pipe\<close>
  implement the interface \<open>byte_queue\<close>, and \<open>pipewrite\<close> and \<open>piperead\<close> run its operations \<open>put_some\<close> and
  \<open>get_some\<close>.
\<close>

definition pipe_ok :: "pipe \<Rightarrow> bool" where
  "pipe_ok p \<longleftrightarrow> ring_ok PIPESIZE (p_data p) (p_nread p) (p_nwrite p)"

definition pipe_bytes :: "pipe \<Rightarrow> u8 list" where
  "pipe_bytes p = span PIPESIZE (p_data p) (p_nread p) (p_nwrite p)"

lemma pipe_okD:
  assumes "pipe_ok p"
  shows "p_nread p < 2 ^ 32" "p_nwrite p < 2 ^ 32" "usub (p_nwrite p) (p_nread p) \<le> PIPESIZE" "PIPESIZE < 2 ^ 32"
  using assms by (simp_all add: pipe_ok_def ring_ok_def)

lemma pipe_full_iff: "pipe_ok p \<Longrightarrow> pipe_full p \<longleftrightarrow> length (pipe_bytes p) = PIPESIZE"
  using uadd_usub[of "p_nread p" "p_nwrite p"] usub_uadd[of "p_nread p" PIPESIZE] pipe_okD[of p]
  by (auto simp: pipe_full_def pipe_bytes_def)

lemma pipe_empty_iff: "pipe_ok p \<Longrightarrow> pipe_empty p \<longleftrightarrow> pipe_bytes p = []"
  using usub_eq_0[of "p_nread p" "p_nwrite p"] pipe_okD[of p] length_0_conv[of "pipe_bytes p"]
  by (simp add: pipe_empty_def pipe_bytes_def)

interpretation pq: byte_queue pipe_bytes pipe_ok pipe_full pipe_empty pipe_put pipe_get PIPESIZE
proof unfold_locales
  fix q :: pipe and c
  assume ok: "pipe_ok q"
  show "pipe_full q \<longleftrightarrow> length (pipe_bytes q) = PIPESIZE" by (rule pipe_full_iff[OF ok])
  show "pipe_empty q \<longleftrightarrow> pipe_bytes q = []" by (rule pipe_empty_iff[OF ok])
  show "length (pipe_bytes q) \<le> PIPESIZE" using pipe_okD(3)[OF ok] by (simp add: pipe_bytes_def)
  show "pipe_ok (pipe_put c q) \<and> pipe_bytes (pipe_put c q) = pipe_bytes q @ [c]" if "\<not> pipe_full q"
  proof -
    have "usub (p_nwrite q) (p_nread q) < PIPESIZE"
      using that pipe_full_iff[OF ok] pipe_okD(3)[OF ok] by (simp add: pipe_bytes_def)
    then show ?thesis using span_push[OF ok[unfolded pipe_ok_def]]
      by (simp add: pipe_put_def pipe_ok_def pipe_bytes_def)
  qed
  show "pipe_ok (snd (pipe_get q)) \<and> pipe_bytes q = fst (pipe_get q) # pipe_bytes (snd (pipe_get q))"
    if "\<not> pipe_empty q"
    using span_pop[OF ok[unfolded pipe_ok_def]] that
    by (simp add: pipe_get_def pipe_ok_def pipe_bytes_def pipe_empty_def)
qed

subsection \<open>The calls\<close>

lemma upd_pipe_upd_pipe [simp]: "upd_pipe p f (upd_pipe p g s) = upd_pipe p (\<lambda>x. f (g x)) s"
  by (simp add: upd_pipe_def)

lemma upd_pipe_id: "upd_pipe p (\<lambda>_. pipes s p) s = s"
  by (simp add: upd_pipe_def)

lemma upd_pipe_cong: "f (pipes s p) = g (pipes s p) \<Longrightarrow> upd_pipe p f s = upd_pipe p g s"
  by (simp add: upd_pipe_def)

lemma cur_upd_pipe [simp]: "cur (upd_pipe p f s) = cur s"
  by (simp add: cur_def split: option.split)

lemma put_flags:
  "pq.put_some cs q = (ds, r) \<Longrightarrow> p_readopen r = p_readopen q \<and> p_writeopen r = p_writeopen q"
  by (induction cs arbitrary: q) (auto simp: pipe_put_def split: if_splits)

lemma get_flags:
  "pq.get_some n q = (ds, r) \<Longrightarrow> p_readopen r = p_readopen q \<and> p_writeopen r = p_writeopen q"
proof (induction n arbitrary: q ds r)
  case (Suc n)
  obtain cs r' where g: "pq.get_some n (snd (pipe_get q)) = (cs, r')"
    by (cases "pq.get_some n (snd (pipe_get q))")
  have "p_readopen (snd (pipe_get q)) = p_readopen q \<and> p_writeopen (snd (pipe_get q)) = p_writeopen q"
    by (simp add: pipe_get_def)
  then show ?case using Suc.IH[OF g] Suc.prems g by (auto simp: case_prod_beta split: if_splits)
qed simp

text \<open>\<open>pipewrite_loop\<close> puts what fits, and then ends, fails or sleeps.\<close>

lemma pipewrite_loop_eq:
  assumes "pq.put_some cs (pipes s p) = (ds, q)"
  shows "pipewrite_loop p n cs s = (let t = upd_pipe p (\<lambda>_. q) s in
     if ds = [] then kbind (wakeup (Some (ChPipeRead p)) t) (\<lambda>_ s. kbind (release (LPipe p) s) (\<lambda>_ s. Ok n s))
     else if \<not> p_readopen q \<or> killed (cur s) then kbind (release (LPipe p) t) (\<lambda>_ s. Ok (- 1) s)
     else kbind (wakeup (Some (ChPipeRead p)) t) (\<lambda>_ s. sleep (ChPipeWrite p) (Some (LPipe p)) s))"
  using assms
proof (induction cs arbitrary: s)
  case Nil
  then have "q = pipes s p" "ds = []" by simp_all
  then show ?case by (simp add: upd_pipe_id)
next
  case (Cons c cs)
  show ?case
  proof (cases "pipe_full (pipes s p)")
    case True
    then have "q = pipes s p" "ds = c # cs" using Cons.prems by simp_all
    then show ?thesis using True by (simp add: upd_pipe_id)
  next
    case False
    let ?s = "upd_pipe p (pipe_put c) s"
    have "pq.put_some cs (pipes ?s p) = (ds, q)" using Cons.prems False by simp
    from Cons.IH[OF this] show ?thesis using False by (simp add: Let_def)
  qed
qed

lemma pipe_take_eq:
  assumes "pq.get_some n (pipes s p) = (cs, q)"
  shows "pipe_take p n s = (cs, upd_pipe p (\<lambda>_. q) s)"
  using assms
proof (induction n arbitrary: s cs q)
  case 0
  then show ?case using upd_pipe_id[of p s] by simp
next
  case (Suc n)
  show ?case
  proof (cases "pipe_empty (pipes s p)")
    case True
    then show ?thesis using Suc.prems upd_pipe_id[of p s] by auto
  next
    case False
    let ?s = "upd_pipe p (\<lambda>x. snd (pipe_get x)) s"
    obtain ds r where g: "pq.get_some n (pipes ?s p) = (ds, r)" by (cases "pq.get_some n (pipes ?s p)")
    have g': "pq.get_some n (snd (pipe_get (pipes s p))) = (ds, r)" using g by simp
    have e: "cs = fst (pipe_get (pipes s p)) # ds" "q = r"
      using Suc.prems False g' by (simp_all add: case_prod_beta)
    show ?thesis using Suc.IH[OF g] False by (simp add: e)
  qed
qed

definition no_locks :: "kst \<Rightarrow> bool" where
  "no_locks s \<longleftrightarrow> held s = [] \<and> (\<exists>c. curproc s = Some c \<and> c < length (procs s))"

lemma wakeup_release:
  "held s = [l] \<Longrightarrow> l \<noteq> LPtable \<Longrightarrow> kbind (wakeup c s) (\<lambda>_ s. kbind (release l s) f) =
     f () ((wakeup1 c s)\<lparr>held := []\<rparr>)"
  by (simp add: wakeup_def acquire_def release_def wakeup1_def)

lemma pipewrite_lock:
  assumes "held s = []" "nat n \<le> length xs"
  shows "pipewrite p xs n s = pipewrite_loop p n (take (nat n) xs) (s\<lparr>held := [LPipe p]\<rparr>)"
  using assms by (simp add: pipewrite_def acquire_def)

text \<open>A write that fits.\<close>

lemma pipewrite_fits:
  assumes ok: "pipe_ok (pipes s p)" and h: "held s = []" and fit: "length (pipe_bytes (pipes s p)) + length xs \<le> PIPESIZE"
  obtains q where "pipewrite p xs (int (length xs)) s
      = Ok (int (length xs)) (wakeup1 (Some (ChPipeRead p)) (upd_pipe p (\<lambda>_. q) s))"
    "pipe_ok q" "pipe_bytes q = pipe_bytes (pipes s p) @ xs" "p_readopen q = p_readopen (pipes s p)"
    "p_writeopen q = p_writeopen (pipes s p)"
proof -
  obtain ds q where g: "pq.put_some xs (pipes s p) = (ds, q)" by (cases "pq.put_some xs (pipes s p)")
  note P = pq.put_some_law[OF ok g]
  have ds: "ds = []" using P fit by simp
  have b: "pipe_bytes q = pipe_bytes (pipes s p) @ xs" using P fit by simp
  have g': "pq.put_some xs (pipes (s\<lparr>held := [LPipe p]\<rparr>) p) = (ds, q)" using g by simp
  have "(wakeup1 (Some (ChPipeRead p)) (upd_pipe p (\<lambda>_. q) (s\<lparr>held := [LPipe p]\<rparr>)))\<lparr>held := []\<rparr>
      = wakeup1 (Some (ChPipeRead p)) (upd_pipe p (\<lambda>_. q) s)"
    using h by (simp add: wakeup1_def upd_pipe_def)
  then have "pipewrite p xs (int (length xs)) s
      = Ok (int (length xs)) (wakeup1 (Some (ChPipeRead p)) (upd_pipe p (\<lambda>_. q) s))"
    by (simp add: pipewrite_lock[OF h] pipewrite_loop_eq[OF g'] ds wakeup_release)
  then show ?thesis using that P b put_flags[OF g] by blast
qed

text \<open>A write that does not fit: the pipe is filled and the writer sleeps, or fails when it may not.\<close>

lemma pipewrite_blocks:
  assumes ok: "pipe_ok (pipes s p)" and h: "held s = []" and c: "curproc s = Some c" "c < length (procs s)"
    "state (procs s ! c) = RUNNING"
    and fit: "length (pipe_bytes (pipes s p)) + length xs > PIPESIZE"
  obtains q where "pipe_ok q" "p_readopen q = p_readopen (pipes s p)" "p_writeopen q = p_writeopen (pipes s p)"
    "pipe_bytes q = pipe_bytes (pipes s p) @ take (PIPESIZE - length (pipe_bytes (pipes s p))) xs"
    "pipewrite p xs (int (length xs)) s
      = (if \<not> p_readopen (pipes s p) \<or> killed (cur s) then Ok (- 1) (upd_pipe p (\<lambda>_. q) s)
         else Sched (upd_proc c (\<lambda>x. x\<lparr>chan := Some (ChPipeWrite p), state := SLEEPING\<rparr>)
           ((wakeup1 (Some (ChPipeRead p)) (upd_pipe p (\<lambda>_. q) s))\<lparr>held := [LPtable]\<rparr>)))"
proof -
  obtain ds q where g: "pq.put_some xs (pipes s p) = (ds, q)" by (cases "pq.put_some xs (pipes s p)")
  note P = pq.put_some_law[OF ok g] and F = put_flags[OF g]
  have "length (pipe_bytes (pipes s p)) \<le> PIPESIZE" by (rule pq.cap_law[OF ok])
  then have ds: "ds \<noteq> []" using P fit by auto
  have g': "pq.put_some xs (pipes (s\<lparr>held := [LPipe p]\<rparr>) p) = (ds, q)" using g by simp
  let ?t = "upd_pipe p (\<lambda>_. q) (s\<lparr>held := [LPipe p]\<rparr>)"
  have k: "killed (cur (s\<lparr>held := [LPipe p]\<rparr>)) = killed (cur s)" by (simp add: cur_def split: option.split)
  have fail: "kbind (release (LPipe p) ?t) (\<lambda>_ s. Ok (- 1) s) = Ok (- 1 :: int) (upd_pipe p (\<lambda>_. q) s)"
    using h by (simp add: release_def upd_pipe_def)
  have "kbind (wakeup (Some (ChPipeRead p)) ?t) (\<lambda>_ s. sleep (ChPipeWrite p) (Some (LPipe p)) s)
     = (Sched (upd_proc c (\<lambda>x. x\<lparr>chan := Some (ChPipeWrite p), state := SLEEPING\<rparr>)
           ((wakeup1 (Some (ChPipeRead p)) (upd_pipe p (\<lambda>_. q) s))\<lparr>held := [LPtable]\<rparr>)) :: int kres)"
    using c by (simp add: wakeup_def sleep_def acquire_def release_def sched_def upd_proc_def wakeup1_def upd_pipe_def)
  then have "pipewrite p xs (int (length xs)) s
      = (if \<not> p_readopen (pipes s p) \<or> killed (cur s) then Ok (- 1) (upd_pipe p (\<lambda>_. q) s)
         else Sched (upd_proc c (\<lambda>x. x\<lparr>chan := Some (ChPipeWrite p), state := SLEEPING\<rparr>)
           ((wakeup1 (Some (ChPipeRead p)) (upd_pipe p (\<lambda>_. q) s))\<lparr>held := [LPtable]\<rparr>)))"
    using F fail by (simp add: pipewrite_lock[OF h] pipewrite_loop_eq[OF g'] ds k)
  then show ?thesis using that P F by blast
qed

text \<open>A read when there are bytes or no writer is left.\<close>

lemma piperead_ready:
  assumes ok: "pipe_ok (pipes s p)" and h: "held s = []"
    and rdy: "pipe_bytes (pipes s p) \<noteq> [] \<or> \<not> p_writeopen (pipes s p)"
  obtains q where "piperead p n s = Ok (int (length (take (nat n) (pipe_bytes (pipes s p)))), take (nat n) (pipe_bytes (pipes s p)))
      (wakeup1 (Some (ChPipeWrite p)) (upd_pipe p (\<lambda>_. q) s))"
    "pipe_ok q" "pipe_bytes q = drop (nat n) (pipe_bytes (pipes s p))" "p_readopen q = p_readopen (pipes s p)"
    "p_writeopen q = p_writeopen (pipes s p)"
proof -
  obtain cs q where g: "pq.get_some (nat n) (pipes s p) = (cs, q)" by (cases "pq.get_some (nat n) (pipes s p)")
  note P = pq.get_some_law[OF ok g]
  have g': "pq.get_some (nat n) (pipes (s\<lparr>held := [LPipe p]\<rparr>) p) = (cs, q)" using g by simp
  have ne: "\<not> (pipe_empty (pipes s p) \<and> p_writeopen (pipes s p))" using rdy pipe_empty_iff[OF ok] by auto
  have "(wakeup1 (Some (ChPipeWrite p)) (upd_pipe p (\<lambda>_. q) (s\<lparr>held := [LPipe p]\<rparr>)))\<lparr>held := []\<rparr>
      = wakeup1 (Some (ChPipeWrite p)) (upd_pipe p (\<lambda>_. q) s)"
    using h by (simp add: wakeup1_def upd_pipe_def)
  then have "piperead p n s = Ok (int (length cs), cs) (wakeup1 (Some (ChPipeWrite p)) (upd_pipe p (\<lambda>_. q) s))"
    using h ne by (simp add: piperead_def piperead_loop_def acquire_def pipe_take_eq[OF g'] wakeup_release)
  then show ?thesis using that P get_flags[OF g] by blast
qed

end
