(* ===== verification/PipeRun.thy ===== *)
theory PipeRun
  imports PipeSpec
begin

text \<open>
  A pipe under any interleaving of its readers and writers: \<open>pipe_run p s w r t\<close> holds when the kernel
  got from \<open>s\<close> to \<open>t\<close> by calls of \<open>pipewrite\<close> and \<open>piperead\<close> on pipe \<open>p\<close> (also calls that sleep and go
  on when they are woken up) and by steps that leave its buffer alone; the writes put the bytes \<open>w\<close> into
  the pipe, the reads returned the bytes \<open>r\<close>.
\<close>

text \<open>The state in which a call ends, returning or giving up the CPU.\<close>

definition ends_in :: "'a kres \<Rightarrow> kst \<Rightarrow> bool" where
  "ends_in m t = (case m of Ok _ u \<Rightarrow> u = t | Sched u \<Rightarrow> u = t | Panic _ \<Rightarrow> False | Undef \<Rightarrow> False)"

lemma ends_in_simps [simp]:
  "ends_in (Ok x u) t \<longleftrightarrow> u = t" "ends_in (Sched u) t \<longleftrightarrow> u = t" "\<not> ends_in (Panic e) t" "\<not> ends_in Undef t"
  by (simp_all add: ends_in_def)

text \<open>How many bytes a call put: what the write counter advanced by.\<close>

definition advanced :: "nat \<Rightarrow> kst \<Rightarrow> kst \<Rightarrow> nat" where
  "advanced p s t = usub (p_nwrite (pipes t p)) (p_nwrite (pipes s p))"

inductive pipe_run :: "nat \<Rightarrow> kst \<Rightarrow> u8 list \<Rightarrow> u8 list \<Rightarrow> kst \<Rightarrow> bool" for p s where
  start: "pipe_run p s [] [] s"
| put: "pipe_run p s w r t \<Longrightarrow> ends_in (pipewrite p xs n t) u \<Longrightarrow> pipe_run p s (w @ take (advanced p t u) xs) r u"
| put_again: "pipe_run p s w r t \<Longrightarrow> ends_in (pipewrite_again p n xs t) u
    \<Longrightarrow> pipe_run p s (w @ take (advanced p t u) xs) r u"
| get: "pipe_run p s w r t \<Longrightarrow> piperead p n t = Ok (m, bs) u \<Longrightarrow> pipe_run p s w (r @ bs) u"
| get_sleep: "pipe_run p s w r t \<Longrightarrow> piperead p n t = Sched u \<Longrightarrow> pipe_run p s w r u"
| get_again: "pipe_run p s w r t \<Longrightarrow> piperead_again p n t = Ok (m, bs) u \<Longrightarrow> pipe_run p s w (r @ bs) u"
| get_again_sleep: "pipe_run p s w r t \<Longrightarrow> piperead_again p n t = Sched u \<Longrightarrow> pipe_run p s w r u"
| other: "pipe_run p s w r t \<Longrightarrow> p_data (pipes u p) = p_data (pipes t p) \<Longrightarrow> p_nread (pipes u p) = p_nread (pipes t p)
    \<Longrightarrow> p_nwrite (pipes u p) = p_nwrite (pipes t p) \<Longrightarrow> pipe_run p s w r u"

subsection \<open>Frames\<close>

lemma pipes_held [simp]: "pipes (s\<lparr>held := h\<rparr>) = pipes s"
  by simp

lemma acquire_pipes: "ends_in (acquire l s) t \<Longrightarrow> pipes t = pipes s"
  by (auto simp: acquire_def split: if_splits)

lemma release_pipes: "ends_in (release l s) t \<Longrightarrow> pipes t = pipes s"
  by (auto simp: release_def split: if_splits)

lemma sched_pipes: "ends_in (sched s) t \<Longrightarrow> pipes t = pipes s"
  by (auto simp: sched_def split: if_splits option.splits)

lemma ends_in_kbind:
  assumes "ends_in (kbind m f) t"
  obtains x u where "m = Ok x u" "ends_in (f x u) t" | "m = Sched t"
  using assms by (cases m) auto

text \<open>\<open>keeps m P\<close>: however the call ends, the pipes are then \<open>P\<close>.\<close>

definition keeps :: "'a kres \<Rightarrow> (nat \<Rightarrow> pipe) \<Rightarrow> bool" where
  "keeps m P \<longleftrightarrow> (\<forall>t. ends_in m t \<longrightarrow> pipes t = P)"

named_theorems keeps_rules

lemma keeps_Ok [keeps_rules]: "pipes s = P \<Longrightarrow> keeps (Ok x s) P"
  by (simp add: keeps_def)

lemma keeps_bind [keeps_rules]: "keeps m P \<Longrightarrow> (\<And>x u. pipes u = P \<Longrightarrow> keeps (f x u) P) \<Longrightarrow> keeps (kbind m f) P"
  by (auto simp: keeps_def elim!: ends_in_kbind)

lemma keeps_if [keeps_rules]: "(b \<Longrightarrow> keeps m P) \<Longrightarrow> (\<not> b \<Longrightarrow> keeps n P) \<Longrightarrow> keeps (if b then m else n) P"
  by simp

lemma keeps_sync [keeps_rules]:
  "pipes s = P \<Longrightarrow> keeps (acquire l s) P" "pipes s = P \<Longrightarrow> keeps (release l s) P" "pipes s = P \<Longrightarrow> keeps (sched s) P"
  using acquire_pipes release_pipes sched_pipes by (auto simp: keeps_def)

lemma keeps_wakeup [keeps_rules]: "pipes s = P \<Longrightarrow> keeps (wakeup c s) P"
  unfolding wakeup_def by (intro keeps_rules; simp)

lemma keeps_sleep [keeps_rules]: "pipes s = P \<Longrightarrow> keeps (sleep c l s) P"
  unfolding sleep_def by (auto simp: keeps_def acquire_def release_def sched_def kbind_def upd_proc_def
      split: option.splits if_splits res.splits)

lemma keeps_resume [keeps_rules]: "pipes s = P \<Longrightarrow> keeps (sleep_resume l s) P"
  unfolding sleep_resume_def by (auto simp: keeps_def acquire_def release_def kbind_def upd_proc_def Let_def
      split: option.splits if_splits res.splits)

lemma resume_not_Sched [simp]: "sleep_resume l s \<noteq> Sched t"
  by (auto simp: sleep_resume_def acquire_def release_def kbind_def Let_def split: option.splits if_splits res.splits)

lemma keepsD: "keeps m P \<Longrightarrow> ends_in m t \<Longrightarrow> pipes t = P"
  by (simp add: keeps_def)

subsection \<open>What a call does to the bytes\<close>

text \<open>The write counter counts the bytes put.\<close>

lemma put_some_counter:
  "pq.put_some cs q = (ds, r) \<Longrightarrow> p_nwrite q < 2 ^ 32 \<Longrightarrow> p_nwrite r = uadd (p_nwrite q) (length cs - length ds)"
proof (induction cs arbitrary: q)
  case Nil
  then show ?case by (auto simp: uadd_def)
next
  case (Cons c cs)
  show ?case
  proof (cases "pipe_full q")
    case True
    then show ?thesis using Cons.prems by (auto simp: uadd_def)
  next
    case False
    have p: "p_nwrite (pipe_put c q) = uadd (p_nwrite q) 1" by (simp add: pipe_put_def)
    have g: "pq.put_some cs (pipe_put c q) = (ds, r)" using Cons.prems False by simp
    have len: "length ds \<le> length cs"
      using g by (induction cs arbitrary: c q ds) (auto split: if_splits intro: le_SucI)
    have "p_nwrite r = uadd (uadd (p_nwrite q) 1) (length cs - length ds)" using Cons.IH[OF g] by (simp add: p)
    moreover have "1 + (length cs - length ds) = length (c # cs) - length ds" using len by (simp add: One_nat_def)
    ultimately show ?thesis by (simp only: uadd_uadd)
  qed
qed

lemma pipewrite_loop_bytes:
  assumes ok: "pipe_ok (pipes s p)" and e: "ends_in (pipewrite_loop p n xs s) t"
  shows "pipe_ok (pipes t p) \<and> pipe_bytes (pipes t p) = pipe_bytes (pipes s p) @ take (advanced p s t) xs
     \<and> advanced p s t \<le> length xs"
proof -
  obtain ds q where g: "pq.put_some xs (pipes s p) = (ds, q)" by (cases "pq.put_some xs (pipes s p)")
  note P = pq.put_some_law[OF ok g]
  have "keeps (pipewrite_loop p n xs s) (pipes (upd_pipe p (\<lambda>_. q) s))"
    unfolding pipewrite_loop_eq[OF g] Let_def by (intro keeps_rules; simp)
  then have t: "pipes t p = q" using keepsD[OF _ e] by simp
  have a: "advanced p s t = length xs - length ds"
  proof -
    have len: "length xs - length ds \<le> PIPESIZE"
      using P pq.cap_law[of q] by simp
    have "p_nwrite q = uadd (p_nwrite (pipes s p)) (length xs - length ds)"
      by (rule put_some_counter[OF g pipe_okD(2)[OF ok]])
    then show ?thesis unfolding advanced_def t
      using usub_uadd[OF pipe_okD(2)[OF ok], of "length xs - length ds"] len by (simp add: param_defs)
  qed
  have "take (length xs - length ds) xs = take (PIPESIZE - length (pipe_bytes (pipes s p))) xs"
    using P by (cases "PIPESIZE - length (pipe_bytes (pipes s p)) \<le> length xs") simp_all
  then show ?thesis using P by (simp add: t a)
qed

lemma piperead_loop_bytes:
  assumes ok: "pipe_ok (pipes s p)"
  shows "piperead_loop p n s = Ok (m, bs) t \<Longrightarrow>
      pipe_ok (pipes t p) \<and> pipe_bytes (pipes s p) = bs @ pipe_bytes (pipes t p)"
    "piperead_loop p n s = Sched t \<Longrightarrow> pipes t = pipes s"
proof -
  obtain cs q where g: "pq.get_some (nat n) (pipes s p) = (cs, q)" by (cases "pq.get_some (nat n) (pipes s p)")
  note P = pq.get_some_law[OF ok g]
  let ?rest = "kbind (wakeup (Some (ChPipeWrite p)) (upd_pipe p (\<lambda>_. q) s)) (\<lambda>_ s.
        kbind (release (LPipe p) s) (\<lambda>_ s. Ok (int (length cs), cs) s))"
  have e: "piperead_loop p n s = (if pipe_empty (pipes s p) \<and> p_writeopen (pipes s p) then
        if killed (cur s) then kbind (release (LPipe p) s) (\<lambda>_ s. Ok (- 1, []) s)
        else sleep (ChPipeRead p) (Some (LPipe p)) s
      else ?rest)"
    by (simp add: piperead_loop_def pipe_take_eq[OF g])
  have k: "keeps ?rest (pipes (upd_pipe p (\<lambda>_. q) s))" by (intro keeps_rules; simp)
  have k0: "keeps (kbind (release (LPipe p) s) (\<lambda>_ s. Ok (- 1 :: int, [] :: u8 list) s)) (pipes s)"
    by (intro keeps_rules; simp)
  have k1: "keeps (sleep (ChPipeRead p) (Some (LPipe p)) s :: (int \<times> u8 list) kres) (pipes s)" by (intro keeps_rules; simp)
  show "pipe_ok (pipes t p) \<and> pipe_bytes (pipes s p) = bs @ pipe_bytes (pipes t p)" if r: "piperead_loop p n s = Ok (m, bs) t"
  proof (cases "pipe_empty (pipes s p) \<and> p_writeopen (pipes s p)")
    case True
    then have "kbind (release (LPipe p) s) (\<lambda>_ s. Ok (- 1 :: int, [] :: u8 list) s) = Ok (m, bs) t"
      using r by (simp add: e split: if_splits)
    then have "bs = []" "pipes t = pipes s" using keepsD[OF k0, of t] by (auto simp: kbind_Ok_iff)
    then show ?thesis using ok by simp
  next
    case False
    then have f: "?rest = Ok (m, bs) t" using r unfolding e by (simp only: if_False)
    then have "bs = cs" "pipes t p = q" using keepsD[OF k, of t] by (auto simp: kbind_Ok_iff)
    then show ?thesis using P by simp
  qed
  show "pipes t = pipes s" if r: "piperead_loop p n s = Sched t"
  proof (cases "pipe_empty (pipes s p) \<and> p_writeopen (pipes s p)")
    case True
    then show ?thesis using r keepsD[OF k0, of t] keepsD[OF k1, of t] by (simp add: e split: if_splits)
  next
    case False
    then have f: "?rest = Sched t" using r unfolding e by (simp only: if_False)
    show ?thesis using f
      by (auto simp: wakeup_def acquire_def release_def kbind_def split: if_splits)
  qed
qed

subsection \<open>The calls with their locking\<close>

lemma pipewrite_bytes:
  assumes "pipe_ok (pipes s p)" "ends_in (pipewrite p xs n s) t"
  shows "pipe_ok (pipes t p) \<and> pipe_bytes (pipes t p) = pipe_bytes (pipes s p) @ take (advanced p s t) xs"
proof -
  from assms(2) have e: "ends_in (pipewrite_loop p n (take (nat n) xs) (s\<lparr>held := LPipe p # held s\<rparr>)) t"
    by (auto simp: pipewrite_def acquire_def kguard_def split: if_splits)
  have a: "advanced p (s\<lparr>held := LPipe p # held s\<rparr>) t = advanced p s t" by (simp add: advanced_def)
  have ok: "pipe_ok (pipes (s\<lparr>held := LPipe p # held s\<rparr>) p)" using assms(1) by simp
  note R = pipewrite_loop_bytes[OF ok e]
  then have "advanced p s t \<le> nat n" by (simp add: a)
  then show ?thesis using R by (simp add: a min_def)
qed

lemma pipewrite_again_bytes:
  assumes "pipe_ok (pipes s p)" "ends_in (pipewrite_again p n xs s) t"
  shows "pipe_ok (pipes t p) \<and> pipe_bytes (pipes t p) = pipe_bytes (pipes s p) @ take (advanced p s t) xs"
  using assms(2) unfolding pipewrite_again_def
proof (cases rule: ends_in_kbind)
  case (1 x u)
  have u: "pipes u = pipes s" using 1(1) keepsD[OF keeps_resume[OF refl], of "LPipe p" s u] by simp
  have "pipe_ok (pipes u p)" using assms(1) u by simp
  from pipewrite_loop_bytes[OF this 1(2)] show ?thesis by (simp add: u advanced_def)
next
  case 2
  then show ?thesis by simp
qed

lemma piperead_bytes:
  assumes "pipe_ok (pipes s p)"
  shows "piperead p n s = Ok (m, bs) t \<Longrightarrow> pipe_ok (pipes t p) \<and> pipe_bytes (pipes s p) = bs @ pipe_bytes (pipes t p)"
    "piperead p n s = Sched t \<Longrightarrow> pipes t = pipes s"
  using piperead_loop_bytes[of "s\<lparr>held := LPipe p # held s\<rparr>" p] assms
  by (auto simp: piperead_def acquire_def split: if_splits)

lemma piperead_again_bytes:
  assumes "pipe_ok (pipes s p)"
  shows "piperead_again p n s = Ok (m, bs) t \<Longrightarrow> pipe_ok (pipes t p) \<and> pipe_bytes (pipes s p) = bs @ pipe_bytes (pipes t p)"
    "piperead_again p n s = Sched t \<Longrightarrow> pipes t = pipes s"
proof -
  show "pipe_ok (pipes t p) \<and> pipe_bytes (pipes s p) = bs @ pipe_bytes (pipes t p)" if r: "piperead_again p n s = Ok (m, bs) t"
  proof -
    obtain u where u: "sleep_resume (LPipe p) s = Ok () u" "piperead_loop p n u = Ok (m, bs) t"
      using r by (auto simp: piperead_again_def kbind_Ok_iff)
    have "pipes u = pipes s" using keepsD[OF keeps_resume[OF refl], of "LPipe p" s u] u(1) by simp
    then show ?thesis using piperead_loop_bytes(1)[OF _ u(2)] assms by simp
  qed
  show "pipes t = pipes s" if r: "piperead_again p n s = Sched t"
  proof (cases "sleep_resume (LPipe p) s")
    case (Ok x u)
    then have "pipes u = pipes s" using keepsD[OF keeps_resume[OF refl], of "LPipe p" s u] by simp
    then show ?thesis using piperead_loop_bytes(2)[of u p n t] assms r Ok by (simp add: piperead_again_def)
  qed (use r in \<open>simp_all add: piperead_again_def\<close>)
qed

end
