(* ===== verification/ConsoleSpec.thy ===== *)
theory ConsoleSpec
  imports Console Ring
begin

text \<open>
  The line discipline of the console. \<open>cons_lines\<close> are the characters \<open>consoleread\<close> can take, \<open>cons_edit\<close>
  those being edited; \<open>cons_abs\<close> is the pair of both. \<open>tty\<close> says what a character does to the pair;
  \<open>cons_char\<close> does this in the ring buffer.
\<close>

definition cons_ok :: "kst \<Rightarrow> bool" where
  "cons_ok s \<longleftrightarrow> ring_ok INPUT_BUF (in_buf s) (in_r s) (in_e s) \<and> in_w s < 2 ^ 32
     \<and> usub (in_w s) (in_r s) \<le> usub (in_e s) (in_r s)"

definition cons_lines :: "kst \<Rightarrow> u8 list" where
  "cons_lines s = span INPUT_BUF (in_buf s) (in_r s) (in_w s)"

definition cons_edit :: "kst \<Rightarrow> u8 list" where
  "cons_edit s = span INPUT_BUF (in_buf s) (in_w s) (in_e s)"

definition cons_abs :: "kst \<Rightarrow> u8 list \<times> u8 list" where
  "cons_abs s = (cons_lines s, cons_edit s)"

lemma cons_okD:
  assumes "cons_ok s"
  shows "in_r s < 2 ^ 32" "in_w s < 2 ^ 32" "in_e s < 2 ^ 32" "usub (in_e s) (in_r s) \<le> INPUT_BUF"
    "usub (in_w s) (in_r s) \<le> usub (in_e s) (in_r s)" "length (in_buf s) = INPUT_BUF"
    "ring_ok INPUT_BUF (in_buf s) (in_r s) (in_e s)"
  using assms by (simp_all add: cons_ok_def ring_ok_def)

lemma cons_split: "cons_ok s \<Longrightarrow> span INPUT_BUF (in_buf s) (in_r s) (in_e s) = cons_lines s @ cons_edit s"
  unfolding cons_lines_def cons_edit_def using cons_okD[of s] by (intro span_split) simp_all

lemma cons_edit_len: "cons_ok s \<Longrightarrow> usub (in_e s) (in_w s) = usub (in_e s) (in_r s) - usub (in_w s) (in_r s)"
  using arg_cong[OF cons_split, of s length] by (simp add: cons_lines_def cons_edit_def)

lemma edit_ring:
  assumes "cons_ok s"
  shows "ring_ok INPUT_BUF (in_buf s) (in_w s) (in_e s)"
proof -
  have "usub (in_e s) (in_w s) \<le> INPUT_BUF" using cons_edit_len[OF assms] cons_okD(4)[OF assms] by linarith
  then show ?thesis using assms by (simp add: cons_ok_def ring_ok_def)
qed

lemma edit_empty: "cons_ok s \<Longrightarrow> cons_edit s = [] \<longleftrightarrow> in_e s = in_w s"
  using usub_eq_0[of "in_w s" "in_e s"] cons_okD[of s] length_0_conv[of "cons_edit s"] by (auto simp: cons_edit_def)

lemma lines_empty: "cons_ok s \<Longrightarrow> cons_lines s = [] \<longleftrightarrow> in_r s = in_w s"
  using usub_eq_0[of "in_r s" "in_w s"] cons_okD[of s] length_0_conv[of "cons_lines s"] by (auto simp: cons_lines_def)

subsection \<open>What a character does\<close>

text \<open>Erase the edited line back to the last newline in it (there is none: newlines end lines).\<close>

definition erase_line :: "u8 list \<Rightarrow> u8 list" where
  "erase_line ed = rev (dropWhile (\<lambda>c. c \<noteq> 10) (rev ed))"

definition tty :: "int \<Rightarrow> u8 list \<times> u8 list \<Rightarrow> u8 list \<times> u8 list" where
  "tty c = (\<lambda>(lines, ed).
     if c = 16 then (lines, ed)
     else if c = 21 then (lines, erase_line ed)
     else if c = 8 \<or> c = 0x7F then (lines, butlast ed)
     else if c \<noteq> 0 \<and> length lines + length ed < INPUT_BUF then
       let ed = ed @ [word_of_int (if c = 13 then 10 else c)] in
       if c = 13 \<or> c = 10 \<or> c = 4 \<or> length lines + length ed = INPUT_BUF then (lines @ ed, []) else (lines, ed)
     else (lines, ed))"

text \<open>Taking back the last character of the edited line.\<close>

lemma cons_back:
  assumes ok: "cons_ok s" and ne: "in_e s \<noteq> in_w s"
  defines "t \<equiv> s\<lparr>in_e := usub (in_e s) 1\<rparr>"
  shows "cons_ok t" "cons_lines t = cons_lines s" "cons_edit t = butlast (cons_edit s)"
    "last (cons_edit s) = in_buf s ! (usub (in_e s) 1 mod INPUT_BUF)"
    "usub (in_e t) (in_w t) = usub (in_e s) (in_w s) - 1" "cons_edit s \<noteq> []"
proof -
  note D = cons_okD[OF ok]
  have re: "in_r s \<noteq> in_e s"
  proof
    assume "in_r s = in_e s"
    then have "usub (in_w s) (in_r s) = 0" using D(5) by simp
    then show False using usub_eq_0[OF D(1,2)] \<open>in_r s = in_e s\<close> ne by simp
  qed
  have b: "usub (usub (in_e s) 1) (in_r s) = usub (in_e s) (in_r s) - 1" by (rule usub_back[OF D(1,3) re])
  have l: "0 < usub (in_e s) (in_w s)" using usub_eq_0[OF D(2,3)] ne by auto
  have "usub (in_w s) (in_r s) \<le> usub (in_e s) (in_r s) - 1" using cons_edit_len[OF ok] l by linarith
  then show "cons_ok t" using span_unpush(1)[OF D(7) re] D(2) b by (simp add: cons_ok_def t_def)
  show "cons_lines t = cons_lines s" by (simp add: cons_lines_def t_def)
  note E = span_unpush[OF edit_ring[OF ok] ne[symmetric]]
  show "cons_edit t = butlast (cons_edit s)" "last (cons_edit s) = in_buf s ! (usub (in_e s) 1 mod INPUT_BUF)"
    using E(2,3) by (simp_all add: cons_edit_def t_def)
  show "usub (in_e t) (in_w t) = usub (in_e s) (in_w s) - 1"
    using usub_back[OF D(2,3) ne[symmetric]] by (simp add: t_def)
  show "cons_edit s \<noteq> []" using l length_0_conv[of "cons_edit s"] by (auto simp: cons_edit_def)
qed

lemma kill_line_spec:
  "cons_ok s \<Longrightarrow> k = usub (in_e s) (in_w s) \<Longrightarrow> cons_ok (kill_line k s) \<and> cons_lines (kill_line k s) = cons_lines s
     \<and> cons_edit (kill_line k s) = erase_line (cons_edit s) \<and> (\<exists>e. kill_line k s = s\<lparr>in_e := e\<rparr>)"
proof (induction k arbitrary: s)
  case 0
  then have "cons_edit s = []" using edit_empty usub_eq_0[of "in_w s" "in_e s"] cons_okD[of s] by simp
  moreover have "\<exists>e. s = s\<lparr>in_e := e\<rparr>" by (rule exI[of _ "in_e s"]) simp
  ultimately show ?case using 0 by (simp add: erase_line_def)
next
  case (Suc k)
  have ne: "in_e s \<noteq> in_w s" using Suc.prems(2) by auto
  note B = cons_back[OF Suc.prems(1) ne]
  let ?t = "s\<lparr>in_e := usub (in_e s) 1\<rparr>"
  have e: "cons_edit s = butlast (cons_edit s) @ [in_buf s ! (usub (in_e s) 1 mod INPUT_BUF)]"
    using B(4,6) append_butlast_last_id[of "cons_edit s"] by simp
  show ?case
  proof (cases "in_buf s ! (usub (in_e s) 1 mod INPUT_BUF) = 10")
    case True
    then have "erase_line (cons_edit s) = cons_edit s" by (subst e, subst (2) e) (simp add: erase_line_def)
    moreover have "\<exists>e. s = s\<lparr>in_e := e\<rparr>" by (rule exI[of _ "in_e s"]) simp
    ultimately show ?thesis using True Suc.prems(1) by simp
  next
    case False
    have k: "k = usub (in_e ?t) (in_w ?t)" using B(5) Suc.prems(2) by simp
    have er: "erase_line (cons_edit s) = erase_line (butlast (cons_edit s))"
      by (subst e) (use False in \<open>simp add: erase_line_def\<close>)
    obtain x where x: "kill_line k ?t = ?t\<lparr>in_e := x\<rparr>" using Suc.IH[OF B(1) k] by blast
    have "\<exists>e. kill_line (Suc k) s = s\<lparr>in_e := e\<rparr>" using False x by (intro exI[of _ x]) simp
    then show ?thesis using Suc.IH[OF B(1) k] False B(2,3) er by simp
  qed
qed

text \<open>A character is put at the end of the edited line; a complete line becomes readable.\<close>

lemma cons_char_put:
  fixes s :: kst and x :: u8
  assumes ok: "cons_ok s" and room: "usub (in_e s) (in_r s) < INPUT_BUF"
  defines "t \<equiv> s\<lparr>in_buf := (in_buf s)[in_e s mod INPUT_BUF := x], in_e := uadd (in_e s) 1\<rparr>"
  shows "cons_ok t" "cons_lines t = cons_lines s" "cons_edit t = cons_edit s @ [x]"
    "usub (in_e t) (in_r t) = usub (in_e s) (in_r s) + 1"
    "cons_ok (t\<lparr>in_w := in_e t\<rparr>)" "cons_lines (t\<lparr>in_w := in_e t\<rparr>) = cons_lines s @ cons_edit s @ [x]"
    "cons_edit (t\<lparr>in_w := in_e t\<rparr>) = []"
proof -
  note D = cons_okD[OF ok]
  have "usub (in_e s) (in_r s) < 2 ^ 32 - 1" using room by (simp add: param_defs)
  then show st: "usub (in_e t) (in_r t) = usub (in_e s) (in_r s) + 1"
    using usub_step[OF D(1,3)] by (simp add: t_def)
  note P = span_push[OF D(7) room, of x]
  show okt: "cons_ok t" using P(1) D(2,5) st by (simp add: cons_ok_def t_def)
  have er: "usub (in_e s) (in_w s) < INPUT_BUF" using cons_edit_len[OF ok] room by simp
  show ed: "cons_edit t = cons_edit s @ [x]"
    using span_push(2)[OF edit_ring[OF ok] er] by (simp add: cons_edit_def t_def)
  have all: "cons_lines t @ cons_edit t = (cons_lines s @ cons_edit s) @ [x]"
    using P(2) cons_split[OF okt] cons_split[OF ok] by (simp add: t_def)
  then show ln: "cons_lines t = cons_lines s" by (simp add: ed)
  show "cons_ok (t\<lparr>in_w := in_e t\<rparr>)" using okt by (simp add: cons_ok_def ring_ok_def)
  show "cons_lines (t\<lparr>in_w := in_e t\<rparr>) = cons_lines s @ cons_edit s @ [x]"
    using P(2) cons_split[OF ok] by (simp add: cons_lines_def t_def)
  show "cons_edit (t\<lparr>in_w := in_e t\<rparr>) = []" by (simp add: cons_edit_def span_def)
qed

lemma cons_wakeup1 [simp]:
  "cons_ok (wakeup1 c s) = cons_ok s" "cons_lines (wakeup1 c s) = cons_lines s" "cons_edit (wakeup1 c s) = cons_edit s"
  by (simp_all add: cons_ok_def cons_lines_def cons_edit_def wakeup1_def)

lemma cons_held [simp]:
  "cons_ok (s\<lparr>held := h\<rparr>) = cons_ok s" "cons_lines (s\<lparr>held := h\<rparr>) = cons_lines s" "cons_edit (s\<lparr>held := h\<rparr>) = cons_edit s"
  by (simp_all add: cons_ok_def cons_lines_def cons_edit_def)

lemma cons_char_spec:
  assumes ok: "cons_ok s" and h: "held s = [LCons]" and c: "0 \<le> c" "c < 256"
  shows "runs (cons_char c s) (\<lambda>_ t. cons_ok t \<and> cons_abs t = tty c (cons_abs s) \<and> held t = [LCons])"
proof -
  note D = cons_okD[OF ok]
  have tot: "length (cons_lines s) + length (cons_edit s) = usub (in_e s) (in_r s)"
    using arg_cong[OF cons_split[OF ok], of length] by simp
  consider "c = 16" | "c = 21" | "c = 8 \<or> c = 0x7F"
    | "c \<notin> {16, 21, 8, 0x7F}" "c \<noteq> 0 \<and> usub (in_e s) (in_r s) < INPUT_BUF"
    | "c \<notin> {16, 21, 8, 0x7F}" "\<not> (c \<noteq> 0 \<and> usub (in_e s) (in_r s) < INPUT_BUF)" by blast
  then show ?thesis
  proof cases
    case 1
    then show ?thesis using ok h by (simp add: cons_char_def tty_def cons_abs_def)
  next
    case 2
    obtain e where "kill_line (usub (in_e s) (in_w s)) s = s\<lparr>in_e := e\<rparr>" using kill_line_spec[OF ok refl] by blast
    then have "held (kill_line (usub (in_e s) (in_w s)) s) = [LCons]" using h by simp
    then show ?thesis using kill_line_spec[OF ok refl] 2 by (simp add: cons_char_def tty_def cons_abs_def)
  next
    case 3
    show ?thesis
    proof (cases "in_e s = in_w s")
      case True
      then have "cons_edit s = []" using edit_empty[OF ok] by simp
      then show ?thesis using True 3 ok h by (auto simp: cons_char_def tty_def cons_abs_def)
    next
      case False
      then show ?thesis using cons_back[OF ok False] 3 h by (auto simp: cons_char_def tty_def cons_abs_def)
    qed
  next
    case 4
    let ?x = "if c = 13 then 10 else c"
    let ?t = "s\<lparr>in_buf := (in_buf s)[in_e s mod INPUT_BUF := word_of_int ?x], in_e := uadd (in_e s) 1\<rparr>"
    note P = cons_char_put[OF ok conjunct2[OF 4(2)], of "word_of_int ?x"]
    have full: "in_e ?t = uadd (in_r s) INPUT_BUF \<longleftrightarrow> usub (in_e s) (in_r s) + 1 = INPUT_BUF"
      using P(4) usub_uadd[OF D(1), of INPUT_BUF] uadd_usub[OF D(1), of "in_e ?t"]
      by (auto simp: INPUT_BUF_def)
    have e: "cons_char c s = (if ?x = 10 \<or> ?x = 4 \<or> in_e ?t = uadd (in_r s) INPUT_BUF
        then wakeup (Some ChInput) (?t\<lparr>in_w := in_e ?t\<rparr>) else Ok () ?t)"
      using 4 by (simp add: cons_char_def Let_def)
    have t: "tty c (cons_abs s) = (if ?x = 10 \<or> ?x = 4 \<or> usub (in_e s) (in_r s) + 1 = INPUT_BUF
        then (cons_lines s @ cons_edit s @ [word_of_int ?x], []) else (cons_lines s, cons_edit s @ [word_of_int ?x]))"
      using 4 tot by (auto simp: tty_def cons_abs_def Let_def)
    show ?thesis
    proof (cases "?x = 10 \<or> ?x = 4 \<or> usub (in_e s) (in_r s) + 1 = INPUT_BUF")
      case True
      have L: "LPtable \<notin> set (held (?t\<lparr>in_w := in_e ?t\<rparr>))" using h by simp
      then have "cons_char c s = Ok () (wakeup1 (Some ChInput) (?t\<lparr>in_w := in_e ?t\<rparr>))"
        unfolding e full using True by (simp only: if_True wakeup_ok[OF L])
      then show ?thesis unfolding t using True P(5,6,7) h by (simp add: cons_abs_def)
    next
      case False
      then have "cons_char c s = Ok () ?t" unfolding e full by (simp only: if_False)
      then show ?thesis unfolding t using False P(1,2,3) h by (simp add: cons_abs_def)
    qed
  next
    case 5
    then show ?thesis using ok h tot by (auto simp: cons_char_def tty_def cons_abs_def)
  qed
qed

text \<open>The interrupt handler: the characters act one after the other.\<close>

lemma cons_chars:
  assumes "cons_ok s" "held s = [LCons]" "\<forall>c \<in> set cs. 0 \<le> c \<and> c < 256"
  shows "runs (kfor cs cons_char s) (\<lambda>_ t. cons_ok t \<and> cons_abs t = fold tty cs (cons_abs s) \<and> held t = [LCons])"
  using assms
proof (induction cs arbitrary: s)
  case (Cons c cs)
  have c: "0 \<le> c" "c < 256" using Cons.prems(3) by simp_all
  show ?case unfolding kfor.simps runs_kbind
  proof (rule runs_mono[OF cons_char_spec[OF Cons.prems(1,2) c]], elim conjE)
    fix x t assume t: "cons_ok t" "cons_abs t = tty c (cons_abs s)" "held t = [LCons]"
    show "runs (kfor cs cons_char t) (\<lambda>_ u. cons_ok u \<and> cons_abs u = fold tty (c # cs) (cons_abs s) \<and> held u = [LCons])"
      using Cons.IH[OF t(1,3)] Cons.prems(3) by (simp add: t(2))
  qed
qed simp

lemma consoleintr_spec:
  assumes "cons_ok s" "held s = []" "\<forall>c \<in> set cs. 0 \<le> c \<and> c < 256"
  shows "runs (consoleintr cs s) (\<lambda>_ t. cons_ok t \<and> cons_abs t = fold tty cs (cons_abs s) \<and> held t = [])"
proof -
  have a: "cons_ok (s\<lparr>held := [LCons]\<rparr>)" "cons_abs (s\<lparr>held := [LCons]\<rparr>) = cons_abs s" using assms by (simp_all add: cons_abs_def)
  have "runs (kfor cs cons_char (s\<lparr>held := [LCons]\<rparr>)) (\<lambda>_ t. cons_ok t \<and> cons_abs t = fold tty cs (cons_abs s) \<and> held t = [LCons])"
    using cons_chars[OF a(1) _ assms(3)] by (simp add: a(2))
  then show ?thesis
    using assms(2) by (auto simp: consoleintr_def cons_abs_def elim!: runs_mono)
qed

end
