(* ===== verification/Trap.thy ===== *)
theory Trap
  imports Proc
begin

text \<open>
  Program loading (exec.c), the dispatch of system calls (syscall.c) and of traps (trap.c).
\<close>

subsection \<open>exec\<close>

definition ELF_MAGIC :: nat where "ELF_MAGIC = 0x464C457F"
definition ELF_PROG_LOAD :: nat where "ELF_PROG_LOAD = 1"
definition MAXARG :: nat where "MAXARG = 32"

text \<open>The fields of \<open>struct elfhdr\<close> (52 bytes) and of \<open>struct proghdr\<close> (32 bytes).\<close>

definition eh_magic :: "u8 list \<Rightarrow> nat" where "eh_magic b = get32 b 0"
definition eh_entry :: "u8 list \<Rightarrow> nat" where "eh_entry b = get32 b 24"
definition eh_phoff :: "u8 list \<Rightarrow> nat" where "eh_phoff b = get32 b 28"
definition eh_phnum :: "u8 list \<Rightarrow> nat" where "eh_phnum b = get16 b 44"
definition ph_type :: "u8 list \<Rightarrow> nat" where "ph_type b = get32 b 0"
definition ph_off :: "u8 list \<Rightarrow> nat" where "ph_off b = get32 b 4"
definition ph_vaddr :: "u8 list \<Rightarrow> nat" where "ph_vaddr b = get32 b 8"
definition ph_filesz :: "u8 list \<Rightarrow> nat" where "ph_filesz b = get32 b 16"
definition ph_memsz :: "u8 list \<Rightarrow> nat" where "ph_memsz b = get32 b 20"

text \<open>The label \<open>bad\<close>: \<open>pd\<close> and \<open>ip\<close> are null when they are.\<close>

definition exec_bad :: "nat \<Rightarrow> nat option \<Rightarrow> kst \<Rightarrow> int kres" where
  "exec_bad pd ip s = kbind (if pd \<noteq> 0 then freevm pd s else Ok () s) (\<lambda>_ s.
     kbind (case ip of None \<Rightarrow> Ok () s | Some ip \<Rightarrow> kbind (iunlockput ip s) (\<lambda>_ s. end_op s)) (\<lambda>_ s.
     Ok (- 1) s))"

text \<open>One program header; the value is the new size, or \<open>None\<close> for \<open>goto bad\<close>.\<close>

definition load_segment :: "nat \<Rightarrow> nat \<Rightarrow> nat \<Rightarrow> nat \<Rightarrow> kst \<Rightarrow> nat option kres" where
  "load_segment pd ip off n s = kbind (readi ip off 32 s) (\<lambda>(r, ph) s.
     if r \<noteq> 32 then Ok None s
     else if ph_type ph \<noteq> ELF_PROG_LOAD then Ok (Some n) s
     else if ph_memsz ph < ph_filesz ph then Ok None s
     else if uadd (ph_vaddr ph) (ph_memsz ph) < ph_vaddr ph then Ok None s
     else kbind (allocuvm pd n (uadd (ph_vaddr ph) (ph_memsz ph)) s) (\<lambda>n s.
       if n = 0 then Ok None s
       else if ph_vaddr ph mod PGSIZE \<noteq> 0 then Ok None s
       else kbind (loaduvm pd (ph_vaddr ph) ip (ph_off ph) (ph_filesz ph) s) (\<lambda>r s.
         Ok (if r < 0 then None else Some n) s)))"

fun load_segments :: "nat \<Rightarrow> nat \<Rightarrow> nat \<Rightarrow> nat \<Rightarrow> nat \<Rightarrow> kst \<Rightarrow> nat option kres" where
  "load_segments pd ip 0 off n s = Ok (Some n) s"
| "load_segments pd ip (Suc k) off n s = kbind (load_segment pd ip off n s) (\<lambda>r s.
     case r of None \<Rightarrow> Ok None s | Some n \<Rightarrow> load_segments pd ip k (uadd off 32) n s)"

text \<open>The strings of the arguments, pushed from the top of the stack; \<open>ps\<close> are their addresses so far.\<close>

fun push_args :: "nat \<Rightarrow> u8 list list \<Rightarrow> nat \<Rightarrow> nat list \<Rightarrow> kst \<Rightarrow> (nat \<times> nat list) option kres" where
  "push_args pd [] sp ps s = Ok (Some (sp, ps)) s"
| "push_args pd (a # as) sp ps s =
     (if length ps \<ge> MAXARG then Ok None s
      else let sp = and (usub sp (length a + 1)) (2 ^ 32 - 1 - 3) in
        kbind (copyout pd sp (a @ [0]) s) (\<lambda>r s.
        if r < 0 then Ok None s else push_args pd as sp (ps @ [sp]) s))"

definition words :: "nat list \<Rightarrow> u8 list" where
  "words ws = concat (map (\<lambda>w. put32 0 w [0, 0, 0, 0]) ws)"

definition last_elem :: "u8 list \<Rightarrow> u8 list" where
  "last_elem path = rev (takeWhile (\<lambda>c. c \<noteq> 47) (rev path))"

text \<open>From the moment the segments are loaded: stack, name, commitment to the new image.\<close>

definition exec_image :: "u8 list \<Rightarrow> u8 list list \<Rightarrow> nat \<Rightarrow> nat \<Rightarrow> nat \<Rightarrow> kst \<Rightarrow> int kres" where
  "exec_image path argv pd entry n s = (let n = PGROUNDUP n in
     kbind (allocuvm pd n (uadd n (2 * PGSIZE)) s) (\<lambda>n s.
     if n = 0 then exec_bad pd None s
     else kbind (clearpteu pd (usub n (2 * PGSIZE)) s) (\<lambda>_ s.
       kbind (push_args pd argv n [] s) (\<lambda>r s. case r of None \<Rightarrow> exec_bad pd None s | Some (sp, ps) \<Rightarrow>
       let argc = length ps;
           ustack = [0xffffffff, argc, usub sp ((argc + 1) * 4)] @ ps @ [0];
           sp = usub sp ((3 + argc + 1) * 4) in
       kbind (copyout pd sp (words ustack) s) (\<lambda>r s.
       if r < 0 then exec_bad pd None s
       else case curproc s of None \<Rightarrow> Undef | Some p \<Rightarrow>
         (case safestr (pname (procs s ! p)) (last_elem path @ [0]) 16 of None \<Rightarrow> Undef | Some nm \<Rightarrow>
         let old = pgdir (procs s ! p) in
         kbind (switchuvm p (upd_proc p (\<lambda>q. q\<lparr>pname := nm, pgdir := pd, sz := n,
             tf := (tf q)\<lparr>tf_eip := entry, tf_esp := sp\<rparr>\<rparr>) s)) (\<lambda>_ s.
         kbind (freevm old s) (\<lambda>_ s. Ok 0 s))))))))"

definition exec :: "u8 list \<Rightarrow> u8 list list \<Rightarrow> kst \<Rightarrow> int kres" where
  "exec path argv s = kbind (begin_op s) (\<lambda>_ s. kbind (namei path s) (\<lambda>ip s.
     case ip of None \<Rightarrow> kbind (end_op s) (\<lambda>_ s. Ok (- 1) s) | Some ip \<Rightarrow>
     kbind (ilock ip s) (\<lambda>_ s.
     kbind (readi ip 0 52 s) (\<lambda>(r, elf) s.
     if r \<noteq> 52 \<or> eh_magic elf \<noteq> ELF_MAGIC then exec_bad 0 (Some ip) s
     else kbind (setupkvm s) (\<lambda>pd s.
       if pd = 0 then exec_bad 0 (Some ip) s
       else kbind (load_segments pd ip (eh_phnum elf) (eh_phoff elf) 0 s) (\<lambda>r s.
         case r of None \<Rightarrow> exec_bad pd (Some ip) s | Some n \<Rightarrow>
         kbind (iunlockput ip s) (\<lambda>_ s. kbind (end_op s) (\<lambda>_ s.
         exec_image path argv pd (eh_entry elf) n s))))))))"

text \<open>The arguments of \<open>sys_exec\<close>: at most \<open>MAXARG - 1\<close> strings before the null pointer.\<close>

fun fetch_args :: "nat \<Rightarrow> nat \<Rightarrow> kst \<Rightarrow> (u8 list list) option kres" where
  "fetch_args uargv 0 s = Ok None s"
| "fetch_args uargv (Suc k) s = or_fail None (fetchint uargv s) (\<lambda>uarg s.
     if uarg = 0 then Ok (Some []) s
     else or_fail None (fetchstr (uint32 uarg) s) (\<lambda>a s.
       kbind (fetch_args (uadd uargv 4) k s) (\<lambda>r s. Ok (map_option (Cons a) r) s)))"

definition sys_exec :: "kst \<Rightarrow> int kres" where
  "sys_exec s = or_fail (- 1) (argstr 0 s) (\<lambda>path s. or_fail (- 1) (argint 1 s) (\<lambda>uargv s.
     or_fail (- 1) (fetch_args (uint32 uargv) MAXARG s) (\<lambda>argv s. exec path argv s)))"

subsection \<open>Dispatch of system calls\<close>

text \<open>The table \<open>syscalls\<close>; entry 0 is null.\<close>

definition syscalls :: "nat \<Rightarrow> (kst \<Rightarrow> int kres) option list" where
  "syscalls forkret_addr = None # map Some
     [sys_fork forkret_addr, sys_exit, sys_wait, sys_pipe, sys_read, sys_kill, sys_exec, sys_fstat,
      sys_chdir, sys_dup, sys_getpid, sys_sbrk, sys_sleep, sys_uptime, sys_open, sys_write, sys_mknod,
      sys_unlink, sys_link, sys_mkdir, sys_close, sys_yield, sys_set_cpu_share, sys_getlev, sys_pread,
      sys_pwrite, sys_sync, sys_get_log_num]"

definition set_eax :: "int \<Rightarrow> kst \<Rightarrow> unit kres" where
  "set_eax v s = (case curproc s of None \<Rightarrow> Undef | Some p \<Rightarrow>
     Ok () (upd_proc p (\<lambda>q. q\<lparr>tf := (tf q)\<lparr>tf_eax := uint32 v\<rparr>\<rparr>) s))"

definition syscall :: "nat \<Rightarrow> kst \<Rightarrow> unit kres" where
  "syscall forkret_addr s = (let num = sint32 (tf_eax (tf (cur s))); tab = syscalls forkret_addr in
     if num > 0 \<and> num < int (length tab) then
       case tab ! nat num of Some f \<Rightarrow> kbind (f s) set_eax | None \<Rightarrow> set_eax (- 1) s
     else set_eax (- 1) s)"

subsection \<open>Traps\<close>

definition T_SYSCALL :: nat where "T_SYSCALL = 64"
definition T_IRQ0 :: nat where "T_IRQ0 = 32"
definition IRQ_TIMER :: nat where "IRQ_TIMER = 0"
definition IRQ_KBD :: nat where "IRQ_KBD = 1"
definition IRQ_COM1 :: nat where "IRQ_COM1 = 4"
definition IRQ_IDE :: nat where "IRQ_IDE = 14"
definition IRQ_SPURIOUS :: nat where "IRQ_SPURIOUS = 31"

definition am_killed :: "kst \<Rightarrow> bool" where
  "am_killed s \<longleftrightarrow> curproc s \<noteq> None \<and> killed (cur s)"

text \<open>
  The switch of \<open>trap\<close>, on CPU 0 and with the memory disk, whose interrupt handler does nothing.
  \<open>input\<close> are the characters the keyboard or the serial line delivers at an interrupt.
\<close>

definition trap_irq :: "int list \<Rightarrow> trapframe \<Rightarrow> kst \<Rightarrow> unit kres" where
  "trap_irq input tfr s = (let n = tf_trapno tfr in
     if n = T_IRQ0 + IRQ_TIMER then timer_irq s
     else if n = T_IRQ0 + IRQ_IDE \<or> n = T_IRQ0 + IRQ_IDE + 1 then Ok () s
     else if n = T_IRQ0 + IRQ_KBD \<or> n = T_IRQ0 + IRQ_COM1 then consoleintr input s
     else if n = T_IRQ0 + 7 \<or> n = T_IRQ0 + IRQ_SPURIOUS then Ok () s
     else case curproc s of None \<Rightarrow> Panic ''trap'' | Some p \<Rightarrow>
       if and (tf_cs tfr) 3 = 0 then Panic ''trap''
       else Ok () (upd_proc p (\<lambda>q. q\<lparr>killed := True\<rparr>) s))"

definition exit_if_killed :: "trapframe \<Rightarrow> kst \<Rightarrow> unit kres" where
  "exit_if_killed tfr s = (if am_killed s \<and> and (tf_cs tfr) 3 = DPL_USER then exit s else Ok () s)"

text \<open>
  \<open>trap\<close>. The timer code of \<open>trap_tick\<close> returns from \<open>trap\<close> when the quantum is not used up; a \<open>yield\<close>
  gives up the CPU, and \<open>trap_again\<close> is what follows when the process runs again.
\<close>

definition trap :: "nat \<Rightarrow> int list \<Rightarrow> trapframe \<Rightarrow> kst \<Rightarrow> unit kres" where
  "trap forkret_addr input tfr s =
    (if tf_trapno tfr = T_SYSCALL then
       (case curproc s of None \<Rightarrow> Undef | Some p \<Rightarrow>
        kbind (if killed (procs s ! p) then exit s else Ok () s) (\<lambda>_ s.
        kbind (syscall forkret_addr (upd_proc p (\<lambda>q. q\<lparr>tf := tfr\<rparr>) s)) (\<lambda>_ s.
        if killed (procs s ! p) then exit s else Ok () s)))
     else
       kbind (trap_irq input tfr s) (\<lambda>_ s.
       kbind (exit_if_killed tfr s) (\<lambda>_ s.
       if curproc s \<noteq> None \<and> state (cur s) = RUNNING \<and> tf_trapno tfr = T_IRQ0 + IRQ_TIMER
       then trap_tick s
       else exit_if_killed tfr s)))"

definition trap_again :: "trapframe \<Rightarrow> kst \<Rightarrow> unit kres" where
  "trap_again tfr s = kbind (yield_resume s) (\<lambda>_ s. exit_if_killed tfr s)"

end
