(* ===== verification/KernelProps.thy ===== *)
theory KernelProps
  imports PipeRun ConsoleSpec FsExample Trap
begin

text \<open>
  The properties of the page allocator, the pipes, the open files, the console and the system calls.
\<close>

subsection \<open>The page allocator\<close>

text \<open>
  C22. The free pages form a stack: when the free list of the allocator represents the list \<open>xs\<close> of pages,
  \<open>kalloc\<close> returns its head (the null pointer when there is none), represents its tail afterwards and
  writes no memory; \<open>kfree\<close> of a page that is not free pushes it and changes memory in that page
  only; \<open>kfree\<close> panics on every address that is not a page the allocator may hold; and \<open>freerange\<close> of a range
  of kernel memory pushes the pages that lie in it, from the lowest on.
\<close>

theorem kalloc_kfree_stack:
  assumes "free_list s xs"
  shows "runs (kalloc s) (\<lambda>r t. r = (case xs of [] \<Rightarrow> 0 | v # _ \<Rightarrow> v) \<and> free_list t (tl xs) \<and> pmem t = pmem s)
    \<and> (\<forall>v. page_ok s v \<and> v \<notin> set xs \<longrightarrow> runs (kfree v s) (\<lambda>_ t. free_list t (v # xs)
         \<and> (\<forall>a. \<not> in_page v a \<longrightarrow> pmem t a = pmem s a)))
    \<and> (\<forall>v < 2 ^ 32. \<not> page_ok s v \<longrightarrow> kfree v s = Panic ''kfree'')
    \<and> (\<forall>a b. kend s \<le> PGROUNDUP a \<and> b \<le> KERNBASE + PHYSTOP \<and> (\<forall>v \<in> set xs. \<not> (PGROUNDUP a \<le> v \<and> v < b))
         \<longrightarrow> runs (freerange a b s) (\<lambda>_ t. free_list t (rev (pages_in a b) @ xs)))"
proof (intro conjI allI impI)
  show "runs (freerange a b s) (\<lambda>_ t. free_list t (rev (pages_in a b) @ xs))"
    if "kend s \<le> PGROUNDUP a \<and> b \<le> KERNBASE + PHYSTOP \<and> (\<forall>v \<in> set xs. \<not> (PGROUNDUP a \<le> v \<and> v < b))" for a b
    using that by (intro freerange_pool[OF assms]) auto
  show "runs (kalloc s) (\<lambda>r t. r = (case xs of [] \<Rightarrow> 0 | v # _ \<Rightarrow> v) \<and> free_list t (tl xs) \<and> pmem t = pmem s)"
    by (rule runs_mono[OF kalloc_spec[OF assms]]) simp
  show "runs (kfree v s) (\<lambda>_ t. free_list t (v # xs) \<and> (\<forall>a. \<not> in_page v a \<longrightarrow> pmem t a = pmem s a))"
    if "page_ok s v \<and> v \<notin> set xs" for v
    using that by (intro runs_mono[OF kfree_spec[OF assms, of v]]) (auto simp: freed_page_other)
  show "kfree v s = Panic ''kfree''" if "v < 2 ^ 32" "\<not> page_ok s v" for v
    using kfree_bad[OF that(2) free_listD(4)[OF assms] that(1)] .
qed

lemma fs_example_more [simp]:
  "kend fs_example = 0x80115000" "pipes fs_example = (\<lambda>_. zero_pipe)" "length (procs fs_example) = NPROC"
  "state (procs fs_example ! 0) = RUNNING"
  by (simp_all add: fs_example_def binit_kernel0 upd_lg_def) (simp_all add: kernel0_def param_defs)

text \<open>A state with two free pages.\<close>

definition two_pages :: kst where
  "two_pages = fs_example\<lparr>freelist := 0x80200000, pmem := wr32 (\<lambda>_. 0) 0x200000 0x80300000\<rparr>"

lemma two_pages_free: "free_list two_pages [0x80200000, 0x80300000]"
proof -
  have v: "V2P 0x80200000 = 0x200000" "V2P 0x80300000 = 0x300000" by (simp_all add: V2P_def usub_def param_defs)
  have e: "kend two_pages = 0x80115000" by (simp add: two_pages_def)
  have z: "rd32 (\<lambda>_. 0) a = 0" for a by (simp add: rd32_def get32_def get16_def nth_region)
  have r: "rd32 (pmem two_pages) 0x200000 = 0x80300000" "rd32 (pmem two_pages) 0x300000 = 0"
    by (simp_all add: two_pages_def rd32_wr32 rd32_wr32_other z)
  have "chain (pmem two_pages) (freelist two_pages) [0x80200000, 0x80300000]" by (simp add: v r) (simp add: two_pages_def)
  moreover have "page_ok two_pages 0x80200000" "page_ok two_pages 0x80300000" by (simp_all add: page_ok_def e param_defs)
  ultimately show ?thesis by (simp add: free_list_def e param_defs) (simp add: two_pages_def)
qed

theorem kalloc_kfree_stack_witness:
  "runs (kalloc two_pages) (\<lambda>r t. r = 0x80200000 \<and> free_list t [0x80300000])"
  by (rule runs_mono[OF conjunct1[OF kalloc_kfree_stack[OF two_pages_free]]]) simp

subsection \<open>Pipes\<close>

text \<open>
  C23. A pipe is a queue: however the calls of its readers and writers interleave, sleep and are woken up,
  what was in the pipe followed by what the writes put there is what the reads returned followed by
  what is in the pipe now; and the ring buffer stays well formed although its counters wrap around.
\<close>

theorem pipe_fifo:
  assumes "pipe_run p s w r t" "pipe_ok (pipes s p)"
  shows "pipe_ok (pipes t p) \<and> pipe_bytes (pipes s p) @ w = r @ pipe_bytes (pipes t p)"
  using assms(1)
proof induction
  case start
  then show ?case using assms(2) by simp
next
  case (put w r t xs n u)
  then show ?case using pipewrite_bytes[of t p xs n u] by (metis append.assoc)
next
  case (put_again w r t n xs u)
  then show ?case using pipewrite_again_bytes[of t p n xs u] by (metis append.assoc)
next
  case (get w r t n m bs u)
  then show ?case using piperead_bytes(1)[of t p n m bs u] by simp
next
  case (get_sleep w r t n u)
  then show ?case using piperead_bytes(2)[of t p n u] by simp
next
  case (get_again w r t n m bs u)
  then show ?case using piperead_again_bytes(1)[of t p n m bs u] by simp
next
  case (get_again_sleep w r t n u)
  then show ?case using piperead_again_bytes(2)[of t p n u] by simp
next
  case (other w r t u)
  then show ?case by (simp add: pipe_ok_def pipe_bytes_def)
qed

lemma empty_pipe_example: "pipe_ok (pipes fs_example p)" "pipe_bytes (pipes fs_example p) = []"
  by (simp_all add: zero_pipe_def pipe_ok_def ring_ok_def pipe_bytes_def span_def param_defs)

lemma pipe_run_example: "\<exists>t. pipe_run p fs_example [1, 2, 3] [1, 2] t"
proof -
  note E = empty_pipe_example[of p]
  obtain q where q: "pipewrite p [1, 2, 3] (int (length ([1, 2, 3] :: u8 list))) fs_example
      = Ok (int (length ([1, 2, 3] :: u8 list))) (wakeup1 (Some (ChPipeRead p)) (upd_pipe p (\<lambda>_. q) fs_example))"
    "pipe_ok q" "pipe_bytes q = [1, 2, 3]"
    by (rule pipewrite_fits[OF E(1) fs_example_fields(8), of "[1, 2, 3]"]) (use E(2) in \<open>auto simp: param_defs\<close>)
  let ?t = "wakeup1 (Some (ChPipeRead p)) (upd_pipe p (\<lambda>_. q) fs_example)"
  have e: "ends_in (pipewrite p [1, 2, 3] 3 fs_example) ?t" using q(1) by simp
  have "pipe_bytes (pipes ?t p) = pipe_bytes (pipes fs_example p) @ [1, 2, 3]" unfolding E(2) using q(3) by simp
  from trans[OF sym[OF conjunct2[OF pipewrite_bytes[OF E(1) e]]] this]
  have "take (advanced p fs_example ?t) [1, 2, 3] = ([1, 2, 3] :: u8 list)" by (simp only: same_append_eq)
  then have r: "pipe_run p fs_example [1, 2, 3] [] ?t" using pipe_run.put[OF pipe_run.start e] by simp
  have t: "pipe_ok (pipes ?t p)" "held ?t = []" "pipe_bytes (pipes ?t p) = [1, 2, 3]" using q(2,3) by simp_all
  obtain q' where "piperead p 2 ?t = Ok (int (length (take (nat 2) (pipe_bytes (pipes ?t p)))), take (nat 2) (pipe_bytes (pipes ?t p)))
      (wakeup1 (Some (ChPipeWrite p)) (upd_pipe p (\<lambda>_. q') ?t))"
    by (rule piperead_ready[OF t(1,2), of 2]) (use t(3) in simp)
  then have "piperead p 2 ?t = Ok (2, [1, 2]) (wakeup1 (Some (ChPipeWrite p)) (upd_pipe p (\<lambda>_. q') ?t))"
    unfolding t(3) by (simp add: numeral_2_eq_2)
  from pipe_run.get[OF r this] show ?thesis by auto
qed

theorem pipe_fifo_witness: "\<exists>t. pipe_run 7 fs_example [1, 2, 3] [1, 2] t \<and> pipe_bytes (pipes t 7) = [3]"
proof -
  obtain t where t: "pipe_run 7 fs_example [1, 2, 3] [1, 2] t" using pipe_run_example by blast
  from pipe_fifo[OF t empty_pipe_example(1)] show ?thesis using t empty_pipe_example(2)[of 7] by auto
qed

text \<open>
  A write to a pipe puts all its bytes, wakes up the readers and returns their number when there is
  room. When there is not, the pipe is filled to its last byte, and the call fails if the read end is
  closed or the process has been killed and sleeps on the pipe, with the readers woken up, otherwise.
\<close>

theorem pipewrite_fills:
  assumes "pipe_ok (pipes s p)" "held s = []" "curproc s = Some c" "c < length (procs s)" "state (procs s ! c) = RUNNING"
  shows "\<exists>q. pipe_ok q \<and> pipe_bytes q = pipe_bytes (pipes s p) @ take (PIPESIZE - length (pipe_bytes (pipes s p))) xs
     \<and> pipewrite p xs (int (length xs)) s =
       (let t = upd_pipe p (\<lambda>_. q) s in
        if length (pipe_bytes (pipes s p)) + length xs \<le> PIPESIZE
        then Ok (int (length xs)) (wakeup1 (Some (ChPipeRead p)) t)
        else if \<not> p_readopen (pipes s p) \<or> killed (cur s) then Ok (- 1) t
        else Sched (upd_proc c (\<lambda>x. x\<lparr>chan := Some (ChPipeWrite p), state := SLEEPING\<rparr>)
          ((wakeup1 (Some (ChPipeRead p)) t)\<lparr>held := [LPtable]\<rparr>)))"
proof (cases "length (pipe_bytes (pipes s p)) + length xs \<le> PIPESIZE")
  case True
  obtain q where q: "pipewrite p xs (int (length xs)) s = Ok (int (length xs)) (wakeup1 (Some (ChPipeRead p)) (upd_pipe p (\<lambda>_. q) s))"
    "pipe_ok q" "pipe_bytes q = pipe_bytes (pipes s p) @ xs"
    by (rule pipewrite_fits[OF assms(1,2) True])
  then show ?thesis using True by (intro exI[of _ q]) simp
next
  case False
  then have f: "length (pipe_bytes (pipes s p)) + length xs > PIPESIZE" by simp
  obtain q where "pipe_ok q" "pipe_bytes q = pipe_bytes (pipes s p) @ take (PIPESIZE - length (pipe_bytes (pipes s p))) xs"
    "pipewrite p xs (int (length xs)) s
      = (if \<not> p_readopen (pipes s p) \<or> killed (cur s) then Ok (- 1) (upd_pipe p (\<lambda>_. q) s)
         else Sched (upd_proc c (\<lambda>x. x\<lparr>chan := Some (ChPipeWrite p), state := SLEEPING\<rparr>)
           ((wakeup1 (Some (ChPipeRead p)) (upd_pipe p (\<lambda>_. q) s))\<lparr>held := [LPtable]\<rparr>)))"
    by (rule pipewrite_blocks[OF assms f])
  then show ?thesis using False by (intro exI[of _ q]) (simp add: Let_def)
qed

theorem pipewrite_fills_witness:
  "\<exists>q. pipe_bytes q = [1, 2] \<and> pipewrite 7 [1, 2] 2 fs_example = Ok 2 (wakeup1 (Some (ChPipeRead 7)) (upd_pipe 7 (\<lambda>_. q) fs_example))"
proof -
  have "0 < length (procs fs_example)" by (simp add: param_defs)
  from pipewrite_fills[OF empty_pipe_example(1) fs_example_fields(8,7) this fs_example_more(4), of 7 "[1, 2]"]
  show ?thesis using empty_pipe_example(2)[of 7] by (auto simp: param_defs)
qed

subsection \<open>The console\<close>

text \<open>
  C24. The line discipline: the interrupt handler of the console acts on the ring buffer as \<open>tty\<close> acts, one
  character after the other, on the pair of the readable lines and the line being edited. Backspace and
  delete take back a character of the edited line only, control-U erases it, newline, control-D and a
  full buffer make it readable, and a character that does not fit is dropped.
\<close>

theorem consoleintr_edits:
  assumes "cons_ok s" "held s = []" "\<forall>c \<in> set cs. 0 \<le> c \<and> c < 256"
  shows "runs (consoleintr cs s) (\<lambda>_ t. cons_ok t \<and> cons_abs t = fold tty cs (cons_abs s) \<and> held t = [])"
  by (rule consoleintr_spec[OF assms])

text \<open>\<open>l\<close>, \<open>z\<close>, backspace, \<open>s\<close>, newline, \<open>x\<close>.\<close>

theorem consoleintr_edits_witness:
  "runs (consoleintr [108, 122, 8, 115, 10, 120] fs_example) (\<lambda>_ t. cons_abs t = ([108, 115, 10], [120]))"
proof -
  have f: "in_buf fs_example = replicate 128 0" "in_r fs_example = 0" "in_w fs_example = 0" "in_e fs_example = 0"
    by (simp_all add: fs_example_def binit_kernel0 upd_lg_def) (simp_all add: kernel0_def)
  have ok: "cons_ok fs_example" by (simp add: cons_ok_def ring_ok_def f param_defs)
  have a: "cons_abs fs_example = ([], [])" by (simp add: cons_abs_def cons_lines_def cons_edit_def span_def f)
  have "fold tty [108, 122, 8, 115, 10, 120] (cons_abs fs_example) = ([108, 115, 10], [120])"
    unfolding a by (simp add: tty_def param_defs)
  then show ?thesis
    using consoleintr_edits[OF ok fs_example_fields(8), of "[108, 122, 8, 115, 10, 120]"] by (auto elim!: runs_mono)
qed

subsection \<open>Positional reads\<close>

text \<open>The preconditions of \<open>ilock\<close>: a referenced inode in memory that nobody has locked.\<close>

definition can_ilock :: "kst \<Rightarrow> nat \<Rightarrow> bool" where
  "can_ilock s ip \<longleftrightarrow> ip < length (inodes s) \<and> 1 \<le> i_ref (inodes s ! ip) \<and> \<not> sl_locked (i_lock (inodes s ! ip))
     \<and> i_dev (inodes s ! ip) = 1 \<and> i_inum (inodes s ! ip) < sb_ninodes (sb s)
     \<and> (i_valid (inodes s ! ip) \<or> d_type (disk_inode s (i_inum (inodes s ! ip))) \<noteq> 0)"

lemma can_ilock_spec:
  "bproto s {} \<Longrightarrow> fs_geom s \<Longrightarrow> log_ok s \<Longrightarrow> can_ilock s ip
    \<Longrightarrow> runs (ilock ip s) (\<lambda>_. imem ((inodes s)[ip := locked_inode s ip]) s)"
  by (rule ilock_spec) (simp_all add: can_ilock_def)

lemma locked_inode_locked: "sl_locked (i_lock (locked_inode s ip))" "i_ref (locked_inode s ip) = i_ref (inodes s ! ip)"
  by (simp_all add: locked_inode_def my_lock_def load_dinode_def Let_def)

text \<open>
  A \<open>pread\<close> from the end of the file returns 0, and one that would read past the end returns -1, with
  the lock of the inode still held: the next \<open>ilock\<close> of that inode, also by the same process, goes to
  sleep on a lock nobody will release.
\<close>

theorem pread_keeps_lock:
  assumes "bproto s {}" "fs_geom s" "log_ok s" "f_type (files s ! f) = FD_INODE" "f_readable (files s ! f)"
    "can_ilock s (f_ip (files s ! f))" "int_range (off + n)"
    "uint32 off = i_size (locked_inode s (f_ip (files s ! f)))
      \<or> uint32 (off + n) > i_size (locked_inode s (f_ip (files s ! f)))"
  shows "runs (pread f n off s) (\<lambda>(r, bs) t. r \<le> 0 \<and> bs = [] \<and> sl_locked (i_lock (inodes t ! f_ip (files s ! f)))
     \<and> (\<exists>u. ilock (f_ip (files s ! f)) t = Sched u \<and> state (cur u) = SLEEPING
          \<and> chan (cur u) = Some (ChInodeLock (f_ip (files s ! f)))))"
proof -
  let ?ip = "f_ip (files s ! f)"
  have ip: "?ip < length (inodes s)" using assms(6) by (simp add: can_ilock_def)
  have stuck: "sl_locked (i_lock (inodes t ! ?ip)) \<and> (\<exists>u. ilock ?ip t = Sched u \<and> state (cur u) = SLEEPING
          \<and> chan (cur u) = Some (ChInodeLock ?ip))" if t: "imem ((inodes s)[?ip := locked_inode s ?ip]) s t" for t
  proof -
    have i: "inodes t ! ?ip = locked_inode s ?ip" using imemD(1)[OF t] ip by simp
    have "idle_locks t" using bprotoD[OF imemD(2)[OF t]] by simp
    then obtain p where p: "held t = []" "curproc t = Some p" "p < length (procs t)" by (auto simp: idle_locks_def)
    have l: "sl_locked (get_sl (SInode ?ip) t)" using locked_inode_locked by (simp add: i)
    have r: "\<not> i_ref (inodes t ! ?ip) < 1" using assms(6) by (simp add: i locked_inode_locked can_ilock_def)
    have "ilock ?ip t = Sched (upd_proc p (\<lambda>q. q\<lparr>chan := Some (ChInodeLock ?ip), state := SLEEPING\<rparr>) (t\<lparr>held := [LPtable]\<rparr>))"
      using acquiresleep_busy[OF p(1,2) l p(3)] r by (simp add: ilock_def)
    then show ?thesis using locked_inode_locked p by (simp add: i cur_def upd_proc_def)
  qed
  show ?thesis
    unfolding pread_def Let_def using assms(4,5) apply simp
    apply (rule runs_mono[OF can_ilock_spec[OF assms(1,2,3,6)]])
    subgoal premises prems for x t
    proof -
      have i: "inodes t ! ?ip = locked_inode s ?ip" using imemD(1)[OF prems(3)] ip by simp
      show ?thesis using stuck[OF prems(3)] assms(7,8) by (auto simp: i)
    qed
    done
qed

text \<open>Reading the 5 bytes of the example file from offset 5, its end.\<close>

theorem pread_keeps_lock_witness:
  "runs (pread 0 4 5 fs_example) (\<lambda>(r, bs) t. r \<le> 0 \<and> sl_locked (i_lock (inodes t ! 1)))"
proof -
  have f: "files_example ! 0 = zero_file\<lparr>f_type := FD_INODE, f_ref := 2, f_readable := True, f_writable := True, f_ip := 1\<rparr>"
    by (simp add: files_example_def)
  have c: "can_ilock fs_example (f_ip (files fs_example ! 0))"
    by (simp add: can_ilock_def f file_inode_def zero_inode_def free_lock_def param_defs)
  have z: "i_size (locked_inode fs_example 1) = 5" by (simp add: locked_inode_def file_inode_def)
  have "uint32 5 = 5" by (simp add: uint32_def)
  then show ?thesis
    using pread_keeps_lock[OF fs_example_storage(1) fs_example_geom(1) fs_example_storage(4) _ _ c, of 5 4]
    by (auto simp: z f int_range_def elim!: runs_mono)
qed

end
