(* ===== verification/VmSpec.thy ===== *)
theory VmSpec
  imports Vm Syscall
begin

text \<open>
  Page tables: \<open>vm_ok s pd xs\<close> says that the page directory \<open>pd\<close> is well formed, its page tables are
  pages of their own, and none of these pages is in the free list \<open>xs\<close>. The abstraction is \<open>pte s pd\<close>, the
  page table entry of every virtual address (0 when there is no table); \<open>mmu_pte\<close> says that it is what
  the hardware reads.
\<close>

subsection \<open>Entries\<close>

lemma present_iff [simp]: "and e PTE_P = 0 \<longleftrightarrow> even e"
  by (simp add: PTE_P_def and_one_eq even_iff_mod_2_eq_zero)

lemma or_page: "f < 4096 \<Longrightarrow> or (4096 * q) f = 4096 * q + (f :: nat)"
proof -
  assume "f < 4096"
  then have t: "take_bit 12 f = f" by (simp add: take_bit_eq_mod)
  have p: "push_bit 12 q = 4096 * q" by (simp add: push_bit_eq_mult)
  have "and (push_bit 12 q) (take_bit 12 f) = 0" by (simp add: bit_eq_iff bit_simps)
  then show ?thesis using disjunctive_add_eq_or[of "push_bit 12 q" "take_bit 12 f"] by (simp add: t p)
qed

lemma page_mult: "a mod PGSIZE = 0 \<Longrightarrow> \<exists>q. a = 4096 * q"
  by (metis PGSIZE_def mod_0_imp_dvd dvdE)

lemma PTE_ADDR_or: "a mod PGSIZE = 0 \<Longrightarrow> f < 4096 \<Longrightarrow> PTE_ADDR (or a f) = a"
  using page_mult[of a] by (auto simp: or_page PTE_ADDR_def)

lemma or_less: "a mod PGSIZE = 0 \<Longrightarrow> f < 4096 \<Longrightarrow> a < 2 ^ 32 \<Longrightarrow> or a f < 2 ^ 32"
proof -
  assume h: "a mod PGSIZE = 0" "f < 4096" "a < 2 ^ 32"
  obtain q where q: "a = 4096 * q" using page_mult[OF h(1)] by auto
  then have "q < 1048576" using h(3) by simp
  then show ?thesis using h(2) by (simp add: q or_page)
qed

lemma or_flags: "a < 4096 \<Longrightarrow> b < 4096 \<Longrightarrow> or a b < (4096 :: nat)"
proof -
  assume h: "a < 4096" "b < 4096"
  have "take_bit 12 (or a b) = or a b" using h by (simp add: take_bit_eq_mod[of 12 a] take_bit_eq_mod[of 12 b])
  then show ?thesis using take_bit_nat_less_exp[of 12 "or a b"] by simp
qed

lemma PDX_eq: "PDX va = va div 2 ^ 22 mod 1024"
  using take_bit_eq_mask[of 10 "drop_bit 22 va"]
  by (simp add: PDX_def mask_eq_exp_minus_1 take_bit_eq_mod drop_bit_eq_div)

lemma PTX_eq: "PTX va = va div 4096 mod 1024"
  using take_bit_eq_mask[of 10 "drop_bit 12 va"]
  by (simp add: PTX_def mask_eq_exp_minus_1 take_bit_eq_mod drop_bit_eq_div)

lemma PDX_less [simp]: "PDX va < 1024" by (simp add: PDX_eq)
lemma PTX_less [simp]: "PTX va < 1024" by (simp add: PTX_eq)

lemma same_page:
  assumes "va < 2 ^ 32" "vb < 2 ^ 32"
  shows "PDX va = PDX vb \<and> PTX va = PTX vb \<longleftrightarrow> va div PGSIZE = vb div PGSIZE"
proof -
  have s: "x div 2 ^ 22 mod 1024 = x div 4096 div 1024" if "x < 2 ^ 32" for x :: nat
  proof -
    have "x div 2 ^ 22 = x div 4096 div 1024" by (simp add: div_mult2_eq[symmetric])
    moreover have "x div 4096 div 1024 < 1024" using that by (simp add: div_mult2_eq[symmetric] less_mult_imp_div_less)
    ultimately show ?thesis by simp
  qed
  have "x div 4096 div 1024 = y div 4096 div 1024 \<and> x div 4096 mod 1024 = y div 4096 mod 1024
      \<longleftrightarrow> x div 4096 = y div 4096" for x y :: nat
    by (metis div_mult_mod_eq)
  then show ?thesis using assms by (simp only: PDX_eq PTX_eq s PGSIZE_def)
qed

subsection \<open>Words of a page\<close>

definition ent :: "kst \<Rightarrow> nat \<Rightarrow> nat \<Rightarrow> nat" where
  "ent s v i = kread (v + 4 * i) s"

lemma V2P_slot: "page_ok s v \<Longrightarrow> i < 1024 \<Longrightarrow> V2P (v + 4 * i) = V2P v + 4 * i"
proof -
  assume v: "page_ok s v" and i: "i < 1024"
  have "V2P (v + 4 * i) = v + 4 * i - KERNBASE"
    unfolding V2P_def by (rule usub_small) (use v i in \<open>auto simp: page_ok_def param_defs\<close>)
  then show ?thesis using v V2P_page[OF v] by (simp add: page_ok_def)
qed

lemma page_4096: "page_ok s v \<Longrightarrow> \<exists>q. V2P v = 4096 * q"
proof -
  assume v: "page_ok s v"
  obtain q where q: "v = 4096 * q" using v page_mult[of v] by (auto simp: page_ok_def)
  have "V2P v = 4096 * (q - 0x80000)" using V2P_page[OF v] by (simp add: q param_defs)
  then show ?thesis by blast
qed

lemma V2P_inj: "page_ok s v \<Longrightarrow> page_ok s w \<Longrightarrow> V2P v = V2P w \<Longrightarrow> v = w"
  by (metis P2V_V2P)

lemma slots_apart:
  assumes "page_ok s v" "page_ok s w" "i < 1024" "j < 1024" "v \<noteq> w \<or> i \<noteq> j"
  shows "V2P v + 4 * i + 4 \<le> V2P w + 4 * j \<or> V2P w + 4 * j + 4 \<le> V2P v + 4 * i"
proof (cases "v = w")
  case True
  then show ?thesis using assms(5) by auto
next
  case False
  then show ?thesis using pages_apart[OF assms(1,2)] assms(3,4) by (auto simp: param_defs)
qed

lemma ent_less [simp]: "ent s v i < 2 ^ 32"
  by (simp add: ent_def kread_def rd32_less del: power_numeral)

lemma page_ok_kwrite [simp]: "page_ok (kwrite a x s) v = page_ok s v" "page_ok (zero_page w s) v = page_ok s v"
  by (simp_all add: page_ok_def kwrite_def zero_page_def)

lemma ent_kwrite:
  assumes "page_ok s v" "page_ok s w" "i < 1024" "j < 1024"
  shows "ent (kwrite (w + 4 * j) x s) v i = (if v = w \<and> i = j then x mod 2 ^ 32 else ent s v i)"
proof -
  have "rd32 (wr32 (pmem s) (V2P w + 4 * j) x) (V2P v + 4 * i) = rd32 (pmem s) (V2P v + 4 * i)" if "v \<noteq> w \<or> i \<noteq> j"
    by (rule rd32_wr32_other) (use slots_apart[OF assms that] in linarith)
  then show ?thesis using assms by (auto simp: ent_def kread_def kwrite_def V2P_slot rd32_wr32)
qed

lemma rd32_zero:
  assumes "\<And>k. k < 4 \<Longrightarrow> m (a + k) = 0"
  shows "rd32 m a = 0"
  using assms[of 0] assms[of 1] assms[of 2] assms[of 3] by (simp add: rd32_def get32_def get16_def nth_region)

lemma ent_zero_page:
  assumes "page_ok s v" "page_ok s w" "i < 1024"
  shows "ent (zero_page w s) v i = (if v = w then 0 else ent s v i)"
proof (cases "v = w")
  case True
  have "put_region (pmem s) (V2P w) (replicate PGSIZE 0) (V2P w + 4 * i + k) = 0" if "k < 4" for k
    using that assms(3) by (auto simp: put_region_def param_defs)
  then show ?thesis using True assms by (simp add: ent_def kread_def zero_page_def V2P_slot memset_eq[OF page_fits[OF assms(2)]] rd32_zero)
next
  case False
  have "rd32 (put_region (pmem s) (V2P w) (replicate PGSIZE 0)) (V2P v + 4 * i) = rd32 (pmem s) (V2P v + 4 * i)"
    by (rule rd32_put_region_other) (use pages_apart[OF assms(1,2) False] assms(3) in \<open>auto simp: param_defs\<close>)
  then show ?thesis using False assms by (simp add: ent_def kread_def zero_page_def V2P_slot memset_eq[OF page_fits[OF assms(2)]])
qed

lemma chain_ent: "chain m h xs \<Longrightarrow> \<forall>v \<in> set xs. rd32 m' (V2P v) = rd32 m (V2P v) \<Longrightarrow> chain m' h xs"
  using chain_cong[of xs m' m h] by simp

lemma ent_0: "ent s v 0 = rd32 (pmem s) (V2P v)"
  by (simp add: ent_def kread_def)

text \<open>The free list only depends on its own pages.\<close>

lemma free_list_frame:
  assumes "free_list s xs" "\<forall>v \<in> set xs. ent t v 0 = ent s v 0" "freelist t = freelist s" "kend t = kend s"
    "held t = held s"
  shows "free_list t xs"
  using assms chain_ent[of "pmem s" "freelist s" xs "pmem t"] by (simp add: free_list_def ent_0 page_ok_def)

subsection \<open>Well-formed page tables\<close>

definition tab :: "kst \<Rightarrow> nat \<Rightarrow> nat \<Rightarrow> nat" where
  "tab s pd i = P2V (PTE_ADDR (ent s pd i))"

definition vm_ok :: "kst \<Rightarrow> nat \<Rightarrow> nat list \<Rightarrow> bool" where
  "vm_ok s pd xs \<longleftrightarrow> free_list s xs \<and> page_ok s pd \<and> pd \<notin> set xs
     \<and> (\<forall>i < 1024. odd (ent s pd i) \<longrightarrow> page_ok s (tab s pd i) \<and> tab s pd i \<noteq> pd \<and> tab s pd i \<notin> set xs)
     \<and> (\<forall>i < 1024. \<forall>j < 1024. odd (ent s pd i) \<and> odd (ent s pd j) \<and> tab s pd i = tab s pd j \<longrightarrow> i = j)
     \<and> (\<forall>i < 1024. odd (ent s pd i) \<longrightarrow> and (ent s pd i) (or PTE_W PTE_U) = or PTE_W PTE_U)"

definition pte :: "kst \<Rightarrow> nat \<Rightarrow> nat \<Rightarrow> nat" where
  "pte s pd va = (if odd (ent s pd (PDX va)) then ent s (tab s pd (PDX va)) (PTX va) else 0)"

lemma vm_okD:
  assumes "vm_ok s pd xs"
  shows "free_list s xs" "page_ok s pd" "pd \<notin> set xs"
    "i < 1024 \<Longrightarrow> odd (ent s pd i) \<Longrightarrow> page_ok s (tab s pd i) \<and> tab s pd i \<noteq> pd \<and> tab s pd i \<notin> set xs"
    "i < 1024 \<Longrightarrow> j < 1024 \<Longrightarrow> odd (ent s pd i) \<Longrightarrow> odd (ent s pd j) \<Longrightarrow> tab s pd i = tab s pd j \<Longrightarrow> i = j"
    "i < 1024 \<Longrightarrow> odd (ent s pd i) \<Longrightarrow> and (ent s pd i) (or PTE_W PTE_U) = or PTE_W PTE_U"
  using assms unfolding vm_ok_def by blast+

text \<open>The pages of a page table, and what building page tables may use: these pages and the free ones.\<close>

definition owned :: "kst \<Rightarrow> nat \<Rightarrow> nat \<Rightarrow> bool" where
  "owned s pd v \<longleftrightarrow> v = pd \<or> (\<exists>i < 1024. odd (ent s pd i) \<and> tab s pd i = v)"

lemma owned_pd [simp]: "owned s pd pd"
  by (simp add: owned_def)

lemma owned_tab: "odd (ent s pd (PDX va)) \<Longrightarrow> owned s pd (tab s pd (PDX va))"
  unfolding owned_def by (rule disjI2, rule exI[of _ "PDX va"]) simp

lemma owned_page: "vm_ok s pd xs \<Longrightarrow> owned s pd v \<Longrightarrow> page_ok s v"
  using vm_okD(2,4)[of s pd xs] by (auto simp: owned_def)

lemma owned_not_free: "vm_ok s pd xs \<Longrightarrow> owned s pd v \<Longrightarrow> v \<notin> set xs"
  using vm_okD(3,4)[of s pd xs] by (auto simp: owned_def)

definition vm_next :: "kst \<Rightarrow> nat \<Rightarrow> nat list \<Rightarrow> kst \<Rightarrow> bool" where
  "vm_next s pd xs t \<longleftrightarrow> (\<exists>zs. vm_ok t pd zs \<and> length xs \<le> length zs + 1 \<and> set zs \<subseteq> set xs
     \<and> (\<forall>v. owned t pd v \<or> v \<in> set zs \<longrightarrow> owned s pd v \<or> v \<in> set xs))"

lemma vm_next_refl: "vm_ok s pd xs \<Longrightarrow> vm_next s pd xs s"
  by (auto simp: vm_next_def)

lemma P2V_small: "a < KERNBASE \<Longrightarrow> P2V a = a + KERNBASE"
  by (simp add: P2V_def uadd_small param_defs)

text \<open>The hardware finds the entry that \<open>pte\<close> says; the directory does not take any right away.\<close>

lemma mmu_access_pte:
  assumes "vm_ok s pd xs" "cr3 s = V2P pd"
  shows "mmu_access s va = (if odd (pte s pd va)
    then Some (PTE_ADDR (pte s pd va) + va mod PGSIZE, and (pte s pd va) (or PTE_W PTE_U)) else None)"
proof -
  let ?e = "ent s pd (PDX va)"
  have e: "rd32 (pmem s) (V2P pd + 4 * PDX va) = ?e"
    using V2P_slot[OF vm_okD(2)[OF assms(1)], of "PDX va"] by (simp add: ent_def kread_def)
  show ?thesis
  proof (cases "odd ?e")
    case True
    note T = vm_okD(4)[OF assms(1) PDX_less True]
    have "PTE_ADDR ?e < 2 ^ 32"
      using ent_less[of s pd "PDX va"] times_div_less_eq_dividend[of "2 ^ 12" ?e] unfolding PTE_ADDR_def
      by (metis mult.commute order_le_less_trans)
    then have "V2P (tab s pd (PDX va)) = PTE_ADDR ?e"
      by (cases "PTE_ADDR ?e < KERNBASE") (auto simp: tab_def V2P_def P2V_def uadd_def usub_def param_defs mod_if)
    then have "rd32 (pmem s) (PTE_ADDR ?e + 4 * PTX va) = ent s (tab s pd (PDX va)) (PTX va)"
      using V2P_slot[OF conjunct1[OF T], of "PTX va"] by (simp add: ent_def kread_def)
    moreover have "and (and ?e q) (or PTE_W PTE_U) = and q (or PTE_W PTE_U)" for q
      using vm_okD(6)[OF assms(1) PDX_less True] by (metis and.assoc and.commute)
    ultimately show ?thesis using True by (simp add: mmu_access_def assms(2) e pte_def Let_def)
  next
    case False
    then show ?thesis by (simp add: mmu_access_def assms(2) e pte_def)
  qed
qed

lemma mmu_pte:
  assumes "vm_ok s pd xs" "cr3 s = V2P pd"
  shows "mmu s va = (if odd (pte s pd va) then Some (PTE_ADDR (pte s pd va) + va mod PGSIZE) else None)"
  by (simp add: mmu_def mmu_access_pte[OF assms])

text \<open>What page table code changes: the free list and memory.\<close>

definition vframe :: "kst \<Rightarrow> kst \<Rightarrow> bool" where
  "vframe s t \<longleftrightarrow> (\<exists>m f. t = s\<lparr>pmem := m, freelist := f\<rparr>)"

lemma vframe_refl [simp]: "vframe s s"
  unfolding vframe_def by (rule exI[of _ "pmem s"], rule exI[of _ "freelist s"]) simp

lemma vframe_trans: "vframe s t \<Longrightarrow> vframe t u \<Longrightarrow> vframe s u"
  unfolding vframe_def by (elim exE) (rule exI, rule exI, simp)

lemma vframe_upd [simp]:
  "vframe s (s\<lparr>pmem := m\<rparr>)" "vframe s (s\<lparr>freelist := f\<rparr>)" "vframe s (kwrite a x s)" "vframe s (zero_page v s)"
proof -
  show m: "vframe s (s\<lparr>pmem := m\<rparr>)" for m unfolding vframe_def by (rule exI[of _ m], rule exI[of _ "freelist s"]) simp
  show "vframe s (s\<lparr>freelist := f\<rparr>)" unfolding vframe_def by (rule exI[of _ "pmem s"], rule exI[of _ f]) simp
  show "vframe s (kwrite a x s)" "vframe s (zero_page v s)" unfolding kwrite_def zero_page_def by (rule m)+
qed

lemma vframeD:
  assumes "vframe s t"
  shows "kend t = kend s" "held t = held s" "procs t = procs s" "curproc t = curproc s" "cr3 t = cr3 s"
    "page_ok t v = page_ok s v" "cur t = cur s"
  using assms by (auto simp: vframe_def page_ok_def cur_def split: option.splits)

text \<open>Memory outside the pages that satisfy \<open>P\<close> stays the same.\<close>

definition mem_only :: "(nat \<Rightarrow> bool) \<Rightarrow> kst \<Rightarrow> kst \<Rightarrow> bool" where
  "mem_only P s t \<longleftrightarrow> (\<forall>a. pmem t a = pmem s a \<or> (\<exists>w. P w \<and> in_page w a))"

lemma mem_only_refl [simp]: "mem_only P s s" "mem_only P s (s\<lparr>freelist := f\<rparr>)" "mem_only P (s\<lparr>freelist := f\<rparr>) t = mem_only P s t"
  by (simp_all add: mem_only_def)

lemma mem_only_trans: "mem_only P s t \<Longrightarrow> mem_only Q t u \<Longrightarrow> (\<And>w. P w \<Longrightarrow> Q w) \<Longrightarrow> mem_only Q s u"
  unfolding mem_only_def by metis

lemma mem_only_kwrite: "page_ok s w \<Longrightarrow> j < 1024 \<Longrightarrow> P w \<Longrightarrow> mem_only P s (kwrite (w + 4 * j) x s)"
  by (auto simp: mem_only_def kwrite_def V2P_slot wr32_def put_region_def in_page_def param_defs intro!: exI[of _ w])

lemma mem_only_zero_page: "page_ok s w \<Longrightarrow> P w \<Longrightarrow> mem_only P s (zero_page w s)"
  by (auto simp: mem_only_def zero_page_def memset_eq[OF page_fits] put_region_def in_page_def intro!: exI[of _ w])

text \<open>A table page is put into the directory.\<close>

definition put_table :: "nat \<Rightarrow> nat \<Rightarrow> nat \<Rightarrow> kst \<Rightarrow> kst" where
  "put_table pd i v s = kwrite (pd + 4 * i) (or (or (or (V2P v) PTE_P) PTE_W) PTE_U) (zero_page v s)"

lemma table_pde:
  assumes "page_ok s v"
  shows "odd (or (or (or (V2P v) PTE_P) PTE_W) PTE_U mod 2 ^ 32)"
    "P2V (PTE_ADDR (or (or (or (V2P v) PTE_P) PTE_W) PTE_U mod 2 ^ 32)) = v"
    "and (or (or (or (V2P v) PTE_P) PTE_W) PTE_U mod 2 ^ 32) (or PTE_W PTE_U) = or PTE_W PTE_U"
proof -
  obtain q where q: "V2P v = 4096 * q" using page_4096[OF assms] by blast
  have l: "V2P v < 2 ^ 32" unfolding V2P_def by (rule usub_less)
  have e: "or (or (or (V2P v) PTE_P) PTE_W) PTE_U = or (V2P v) 7" by (simp add: or.assoc param_defs)
  have m: "V2P v mod PGSIZE = 0" by (simp add: q param_defs)
  have lt: "or (V2P v) 7 < 2 ^ 32" by (rule or_less[OF m _ l]) simp
  have a: "PTE_ADDR (or (V2P v) 7) = V2P v" by (rule PTE_ADDR_or[OF m]) simp
  show "odd (or (or (or (V2P v) PTE_P) PTE_W) PTE_U mod 2 ^ 32)"
    unfolding e mod_less[OF lt] unfolding q by (simp add: or_page)
  show "P2V (PTE_ADDR (or (or (or (V2P v) PTE_P) PTE_W) PTE_U mod 2 ^ 32)) = v"
    unfolding e mod_less[OF lt] a by (rule P2V_V2P[OF assms])
  have s: "or 6 1 = (7 :: nat)" by simp
  have "and (or n 7) 6 = (6 :: nat)" for n unfolding s[symmetric] by (rule bit_eqI) (simp only: bit_and_iff bit_or_iff, blast)
  then show "and (or (or (or (V2P v) PTE_P) PTE_W) PTE_U mod 2 ^ 32) (or PTE_W PTE_U) = or PTE_W PTE_U"
    unfolding e mod_less[OF lt] by (simp add: param_defs)
qed

lemma put_table_ok:
  assumes V: "vm_ok s pd xs" and v: "page_ok s v" "v \<noteq> pd" "v \<notin> set xs"
    and new: "\<forall>i < 1024. odd (ent s pd i) \<longrightarrow> tab s pd i \<noteq> v" and i: "i < 1024" "even (ent s pd i)"
  shows "vm_ok (put_table pd i v s) pd xs" "tab (put_table pd i v s) pd i = v" "odd (ent (put_table pd i v s) pd i)"
    "pte (put_table pd i v s) pd = pte s pd" "vframe s (put_table pd i v s)"
    "owned (put_table pd i v s) pd w \<Longrightarrow> w = v \<or> owned s pd w" "mem_only (owned (put_table pd i v s) pd) s (put_table pd i v s)"
proof -
  let ?t = "put_table pd i v s"
  note D = vm_okD[OF V]
  have P: "page_ok (zero_page v s) x = page_ok s x" "page_ok ?t x = page_ok s x" for x by (simp_all add: put_table_def)
  have E: "ent ?t x j = (if x = pd \<and> j = i then or (or (or (V2P v) PTE_P) PTE_W) PTE_U mod 2 ^ 32
      else if x = v then 0 else ent s x j)" if "page_ok s x" "j < 1024" for x j
    using that v(1,2) D(2) i(1) by (simp add: put_table_def ent_kwrite ent_zero_page P)
  have pd: "ent ?t pd j = (if j = i then or (or (or (V2P v) PTE_P) PTE_W) PTE_U mod 2 ^ 32 else ent s pd j)"
    if "j < 1024" for j using E[OF D(2) that] v(2) by simp
  show o: "odd (ent ?t pd i)" and ti: "tab ?t pd i = v" using table_pde[OF v(1)] pd[OF i(1)] by (simp_all add: tab_def)
  have tj: "tab ?t pd j = tab s pd j" "odd (ent ?t pd j) \<longleftrightarrow> odd (ent s pd j)" if "j < 1024" "j \<noteq> i" for j
    using pd[OF that(1)] that by (simp_all add: tab_def)
  have x: "ent ?t w 0 = ent s w 0" if "w \<in> set xs" for w
    using E[OF free_listD(3)[OF D(1) that], of 0] that v(3) D(3) by auto
  have "free_list ?t xs"
    by (rule free_list_frame[OF D(1)]) (use x in \<open>simp_all add: put_table_def kwrite_def zero_page_def\<close>)
  moreover have "page_ok ?t (tab ?t pd j) \<and> tab ?t pd j \<noteq> pd \<and> tab ?t pd j \<notin> set xs" if "j < 1024" "odd (ent ?t pd j)" for j
    by (cases "j = i") (use that v ti tj D(4) P in \<open>auto\<close>)
  moreover have "j = k" if "j < 1024" "k < 1024" "odd (ent ?t pd j)" "odd (ent ?t pd k)" "tab ?t pd j = tab ?t pd k" for j k
  proof (cases "j = i \<or> k = i")
    case True
    then show ?thesis using that ti tj new by metis
  next
    case False
    then show ?thesis using that tj D(5)[of j k] by simp
  qed
  moreover have "and (ent ?t pd j) (or PTE_W PTE_U) = or PTE_W PTE_U" if j: "j < 1024" "odd (ent ?t pd j)" for j
  proof (cases "j = i")
    case True
    show ?thesis unfolding pd[OF j(1)] if_P[OF True] by (rule table_pde(3)[OF v(1)])
  next
    case False
    have "odd (ent s pd j)" using tj(2)[OF j(1) False] j(2) by blast
    then show ?thesis unfolding pd[OF j(1)] if_not_P[OF False] by (rule D(6)[OF j(1)])
  qed
  ultimately show "vm_ok ?t pd xs" using D(2,3) P unfolding vm_ok_def by blast
  have "owned ?t pd v" unfolding owned_def using o ti i(1) by blast
  then show "mem_only (owned ?t pd) s ?t"
    unfolding put_table_def
    by (intro mem_only_trans[OF mem_only_zero_page[where P = "\<lambda>w. w = v"] mem_only_kwrite]) (use D(2) i(1) v(1) in \<open>simp_all\<close>)
  show "w = v \<or> owned s pd w" if "owned ?t pd w"
    using that ti tj unfolding owned_def by metis
  show "pte ?t pd = pte s pd"
  proof
    fix va
    show "pte ?t pd va = pte s pd va"
    proof (cases "PDX va = i")
      case True
      then show ?thesis using o ti i(2) E[OF v(1), of "PTX va"] v(2) by (simp add: pte_def)
    next
      case False
      have "ent ?t (tab s pd (PDX va)) (PTX va) = ent s (tab s pd (PDX va)) (PTX va)" if "odd (ent s pd (PDX va))"
        using E[of "tab s pd (PDX va)" "PTX va"] D(4)[OF PDX_less that] new that by auto
      then show ?thesis using tj[OF PDX_less False] by (simp add: pte_def)
    qed
  qed
  show "vframe s ?t" unfolding put_table_def by (rule vframe_trans[of s "zero_page v s"]) simp_all
qed

subsection \<open>walkpgdir\<close>

lemma vm_ok_pop:
  assumes "vm_ok s pd (v # ys)" "free_list (s\<lparr>freelist := x\<rparr>) ys"
  shows "vm_ok (s\<lparr>freelist := x\<rparr>) pd ys"
  using assms unfolding vm_ok_def tab_def ent_def kread_def by (auto simp: page_ok_def)

text \<open>
  With \<open>alloc\<close>, \<open>walkpgdir\<close> returns the entry's address; it fails only when there is no table and no free
  page for one. The abstraction does not change.
\<close>

lemma walk_alloc:
  assumes V: "vm_ok s pd xs"
  shows "runs (walkpgdir pd va True s) (\<lambda>a t. vframe s t \<and>
     (if a = 0 then t = s \<and> xs = [] \<and> pte s pd va = 0
      else odd (ent t pd (PDX va)) \<and> a = tab t pd (PDX va) + 4 * PTX va \<and> pte t pd = pte s pd
        \<and> vm_next s pd xs t \<and> mem_only (owned t pd) s t))"
proof -
  note D = vm_okD[OF V]
  show ?thesis
  proof (cases "odd (ent s pd (PDX va))")
    case True
    have "tab s pd (PDX va) \<noteq> 0" using D(4)[OF PDX_less True] by (auto simp: page_ok_def param_defs)
    then show ?thesis using True vm_next_refl[OF V] by (simp add: walkpgdir_def ent_def tab_def Let_def)
  next
    case False
    then have w: "walkpgdir pd va True s = kbind (kalloc s) (\<lambda>pgtab s. if pgtab = 0 then Ok 0 s
         else Ok (pgtab + 4 * PTX va) (put_table pd (PDX va) pgtab s))"
      unfolding put_table_def by (simp add: walkpgdir_def ent_def Let_def)
    show ?thesis
    proof (cases xs)
      case Nil
      then have "freelist s = 0" using chain_head[OF free_listD(1)[OF D(1)]] by simp
      then have "kalloc s = Ok 0 s" using kalloc_eq[OF D(1)] Nil by simp
      then show ?thesis using False Nil by (simp add: w pte_def)
    next
      case (Cons v ys)
      have F: "free_list s (v # ys)" using D(1) Cons by simp
      obtain x where x: "kalloc s = Ok v (s\<lparr>freelist := x\<rparr>)" "free_list (s\<lparr>freelist := x\<rparr>) ys"
        using kalloc_spec[OF F] chain_head[OF free_listD(1)[OF F]] by (auto simp: kalloc_eq[OF F])
      let ?u = "s\<lparr>freelist := x\<rparr>"
      have v: "page_ok s v" "v \<noteq> 0" "v \<noteq> pd" "v \<notin> set ys"
        using F D(3) Cons by (auto simp: free_list_def)
      have U: "vm_ok ?u pd ys" by (rule vm_ok_pop[OF _ x(2)]) (use V Cons in simp)
      have same: "ent ?u = ent s" "tab ?u = tab s" "pte ?u = pte s"
        by (simp_all add: ent_def tab_def pte_def kread_def fun_eq_iff)
      have new: "\<forall>i < 1024. odd (ent ?u pd i) \<longrightarrow> tab ?u pd i \<noteq> v" using D(4) Cons by (auto simp: same)
      have "page_ok ?u v" "even (ent ?u pd (PDX va))" using v(1) False by (simp_all add: same)
      note T = put_table_ok[OF U this(1) v(3,4) new PDX_less this(2)]
      have "vframe s ?u" by simp
      then have "vframe s (put_table pd (PDX va) v ?u)" using T(5) by (rule vframe_trans)
      moreover have "owned ?u pd = owned s pd" by (simp add: owned_def same fun_eq_iff)
      then have "vm_next s pd xs (put_table pd (PDX va) v ?u)"
        unfolding vm_next_def using T(1) T(6) Cons by (intro exI[of _ ys]) (auto simp: One_nat_def)
      ultimately show ?thesis using T v(2) by (simp add: w x(1) same)
    qed
  qed
qed

lemma walk_noalloc:
  "walkpgdir pd va False s = Ok (if odd (ent s pd (PDX va)) then tab s pd (PDX va) + 4 * PTX va else 0) s"
  by (simp add: walkpgdir_def ent_def tab_def Let_def)

subsection \<open>Writing an entry\<close>

lemma put_pte:
  fixes x :: nat
  assumes V: "vm_ok s pd xs" and o: "odd (ent s pd (PDX a))"
  defines "t \<equiv> kwrite (tab s pd (PDX a) + 4 * PTX a) x s"
  shows "vm_ok t pd xs" "tab t pd = tab s pd \<and> ent t pd = ent s pd \<or> (\<forall>i < 1024. tab t pd i = tab s pd i \<and> ent t pd i = ent s pd i)"
    "pte t pd va = (if PDX va = PDX a \<and> PTX va = PTX a then x mod 2 ^ 32 else pte s pd va)"
proof -
  note D = vm_okD[OF V]
  let ?T = "tab s pd (PDX a)"
  have T: "page_ok s ?T" "?T \<noteq> pd" "?T \<notin> set xs" using D(4)[OF PDX_less o] by simp_all
  have P: "page_ok t v = page_ok s v" for v by (simp add: t_def)
  have E: "ent t v i = (if v = ?T \<and> i = PTX a then x mod 2 ^ 32 else ent s v i)" if "page_ok s v" "i < 1024" for v i
    unfolding t_def by (rule ent_kwrite[OF that(1) T(1) that(2) PTX_less])
  have pd: "ent t pd i = ent s pd i" "tab t pd i = tab s pd i" if "i < 1024" for i
    using E[OF D(2) that] T(2) by (auto simp: tab_def)
  then show "tab t pd = tab s pd \<and> ent t pd = ent s pd \<or> (\<forall>i < 1024. tab t pd i = tab s pd i \<and> ent t pd i = ent s pd i)"
    by blast
  have "ent t v 0 = ent s v 0" if "v \<in> set xs" for v
    using E[OF free_listD(3)[OF D(1) that], of 0] that T(3) by auto
  then have "free_list t xs" by (intro free_list_frame[OF D(1)]) (simp_all add: t_def kwrite_def)
  then show "vm_ok t pd xs" using D(2,3,4,5,6) pd P unfolding vm_ok_def by simp
  show "pte t pd va = (if PDX va = PDX a \<and> PTX va = PTX a then x mod 2 ^ 32 else pte s pd va)"
  proof (cases "odd (ent s pd (PDX va))")
    case True
    have "page_ok s (tab s pd (PDX va))" using D(4)[OF PDX_less True] by simp
    moreover have "tab s pd (PDX va) = ?T \<longleftrightarrow> PDX va = PDX a" using D(5)[OF PDX_less PDX_less True o] by auto
    ultimately show ?thesis using True E[of "tab s pd (PDX va)" "PTX va"] by (simp add: pte_def pd)
  next
    case False
    then show ?thesis using o by (auto simp: pte_def pd)
  qed
qed

lemma owned_put_pte:
  assumes "vm_ok s pd xs" "odd (ent s pd (PDX a))"
  shows "owned (kwrite (tab s pd (PDX a) + 4 * PTX a) x s) pd = owned s pd"
  using put_pte(2)[OF assms, of x] by (auto simp: owned_def fun_eq_iff)

subsection \<open>mappages\<close>

lemma pte_odd: "odd (pte s pd va) \<Longrightarrow> odd (ent s pd (PDX va)) \<and> pte s pd va = kread (tab s pd (PDX va) + 4 * PTX va) s"
  by (auto simp: pte_def ent_def split: if_splits)

lemma pte_kread: "odd (ent s pd (PDX va)) \<Longrightarrow> kread (tab s pd (PDX va) + 4 * PTX va) s = pte s pd va"
  by (simp add: pte_def ent_def)

lemma tab_pos: "vm_ok s pd xs \<Longrightarrow> odd (ent s pd (PDX va)) \<Longrightarrow> 0 < tab s pd (PDX va) + 4 * PTX va"
  using vm_okD(4)[of s pd xs "PDX va"] by (auto simp: page_ok_def param_defs)

text \<open>One page: a new entry, a full memory, or a panic when the page is mapped already.\<close>

lemma map_one_spec:
  assumes V: "vm_ok s pd xs" and a: "a < 2 ^ 32" "even (pte s pd a)" and x: "or (or pa perm) PTE_P < 2 ^ 32"
  shows "runs (map_one pd a pa perm s) (\<lambda>c t. vframe s t \<and>
     (if c then vm_next s pd xs t \<and> mem_only (owned t pd) s t
        \<and> (\<forall>va < 2 ^ 32. pte t pd va = (if va div PGSIZE = a div PGSIZE then or (or pa perm) PTE_P else pte s pd va))
      else t = s \<and> xs = []))"
  unfolding map_one_def runs_kbind
proof (rule runs_mono[OF walk_alloc[OF V]], elim conjE)
  fix p t
  assume f: "vframe s t" and h: "if p = 0 then t = s \<and> xs = [] \<and> pte s pd a = 0
      else odd (ent t pd (PDX a)) \<and> p = tab t pd (PDX a) + 4 * PTX a \<and> pte t pd = pte s pd
        \<and> vm_next s pd xs t \<and> mem_only (owned t pd) s t"
  show "runs (if p = 0 then Ok False t else if and (kread p t) PTE_P \<noteq> 0 then Panic ''remap''
         else Ok True (kwrite p (or (or pa perm) PTE_P) t)) (\<lambda>c t. vframe s t \<and>
     (if c then vm_next s pd xs t \<and> mem_only (owned t pd) s t
        \<and> (\<forall>va < 2 ^ 32. pte t pd va = (if va div PGSIZE = a div PGSIZE then or (or pa perm) PTE_P else pte s pd va))
      else t = s \<and> xs = []))"
  proof (cases "p = 0")
    case True
    then show ?thesis using h by simp
  next
    case False
    then have o: "odd (ent t pd (PDX a))" and p: "p = tab t pd (PDX a) + 4 * PTX a" and e: "pte t pd = pte s pd"
      and vm: "vm_next s pd xs t" and mo: "mem_only (owned t pd) s t" using h by simp_all
    let ?u = "kwrite p (or (or pa perm) PTE_P) t"
    obtain zs where z: "vm_ok t pd zs" and zl: "length xs \<le> length zs + 1" "set zs \<subseteq> set xs" and zo: "\<forall>v. owned t pd v \<or> v \<in> set zs \<longrightarrow> owned s pd v \<or> v \<in> set xs"
      using vm by (auto simp: vm_next_def)
    have ou: "owned ?u pd = owned t pd" unfolding p by (rule owned_put_pte[OF z o])
    have T: "page_ok t (tab t pd (PDX a))" using vm_okD(4)[OF z PDX_less o] by blast
    have "mem_only (owned ?u pd) s ?u" unfolding ou unfolding p
      by (rule mem_only_trans[OF mo mem_only_kwrite[where P = "owned t pd", OF T PTX_less owned_tab[OF o]]])
    moreover from ou have u: "vm_next s pd xs ?u" using put_pte(1)[OF z o, of "or (or pa perm) PTE_P"] zo zl unfolding vm_next_def p by auto
    moreover have "pte ?u pd va = (if va div PGSIZE = a div PGSIZE then or (or pa perm) PTE_P else pte s pd va)" if "va < 2 ^ 32" for va
      unfolding p put_pte(3)[OF z o] same_page[OF that a(1)] mod_less[OF x] e ..
    moreover have "vframe s ?u" using f vframe_upd(3) by (rule vframe_trans)
    moreover have "even (kread p t)" using pte_kread[OF o] a(2) by (simp add: p e)
    ultimately show ?thesis using False vm u by auto
  qed
qed

lemma map_one_remap: "vm_ok s pd xs \<Longrightarrow> odd (pte s pd a) \<Longrightarrow> map_one pd a pa perm s = Panic ''remap''"
  using pte_odd[of s pd a] tab_pos[of s pd xs a]
  by (simp add: map_one_def walkpgdir_def ent_def tab_def Let_def)

lemma usub_shift:
  assumes "a < 2 ^ 32" "x < 2 ^ 32" "k < 2 ^ 32"
  shows "usub x (uadd a k) = (if k \<le> usub x a then usub x a - k else usub x a + 2 ^ 32 - k)"
proof -
  have x: "x = uadd a (usub x a)" using uadd_usub[OF assms(1,2)] by simp
  show ?thesis
  proof (cases "k \<le> usub x a")
    case True
    then have "x = uadd (uadd a k) (usub x a - k)" using x uadd_uadd[of a k "usub x a - k"] by simp
    then show ?thesis using True usub_uadd[of "uadd a k" "usub x a - k"] usub_less[of x a]
      by (metis less_imp_diff_less uadd_less)
  next
    case False
    let ?d = "usub x a + 2 ^ 32 - k"
    have "uadd (uadd a k) ?d = uadd a (usub x a + 2 ^ 32)" using False assms(3) by (simp add: uadd_uadd)
    also have "\<dots> = uadd a (usub x a)" by (simp add: uadd_def add.assoc[symmetric])
    finally have "x = uadd (uadd a k) ?d" using x by simp
    moreover have "?d < 2 ^ 32" using False by simp
    ultimately show ?thesis using False usub_uadd[of "uadd a k" ?d] by (metis uadd_less)
  qed
qed

lemma page_dvd: "PGSIZE dvd a \<Longrightarrow> PGSIZE dvd b \<Longrightarrow> PGSIZE dvd uadd a b" "PGSIZE dvd a \<Longrightarrow> PGSIZE dvd b \<Longrightarrow> PGSIZE dvd usub a b"
proof -
  assume a: "PGSIZE dvd a" "PGSIZE dvd b"
  have m: "PGSIZE dvd (2 :: nat) ^ 32" by (simp add: param_defs)
  show "PGSIZE dvd uadd a b" unfolding uadd_def using a m by (simp add: dvd_mod)
  have "PGSIZE dvd a + 2 ^ 32 - b" using a m by (intro dvd_diff_nat dvd_add)
  then show "PGSIZE dvd usub a b" unfolding usub_def using m by (rule dvd_mod)
qed

lemma page_dist:
  assumes "va < 2 ^ 32" "a < 2 ^ 32" "PGSIZE dvd a"
  shows "va div PGSIZE = a div PGSIZE \<longleftrightarrow> usub (PGROUNDDOWN va) a = 0"
proof -
  have "PGROUNDDOWN va < 2 ^ 32" using pgrounddown_le(2)[of va] assms(1) by linarith
  then have "usub (PGROUNDDOWN va) a = 0 \<longleftrightarrow> a = PGROUNDDOWN va" using usub_eq_0[OF assms(2)] by simp
  moreover have "a div PGSIZE * PGSIZE = a" using assms(3) by simp
  moreover have "(0 :: nat) < PGSIZE" by (simp add: param_defs)
  ultimately show ?thesis unfolding PGROUNDDOWN_def by (metis mult_right_cancel less_numeral_extra(3))
qed

lemma page_dist_next:
  assumes "va < 2 ^ 32" "a < 2 ^ 32" "PGSIZE dvd a" "usub (PGROUNDDOWN va) a \<noteq> 0"
  shows "usub (PGROUNDDOWN va) a = usub (PGROUNDDOWN va) (uadd a PGSIZE) + PGSIZE"
proof -
  have p: "PGROUNDDOWN va < 2 ^ 32" using pgrounddown_le(2)[of va] assms(1) by linarith
  have "PGSIZE dvd usub (PGROUNDDOWN va) a" using assms(3) by (intro page_dvd(2)) (simp_all add: PGROUNDDOWN_def)
  then have "PGSIZE \<le> usub (PGROUNDDOWN va) a" using assms(4) by (simp add: dvd_imp_le)
  then show ?thesis using usub_shift[OF assms(2) p, of PGSIZE] by (simp add: param_defs)
qed

lemma page_dist_first:
  assumes "va < 2 ^ 32" "a < 2 ^ 32" "usub (PGROUNDDOWN va) a = 0"
  shows "usub (PGROUNDDOWN va) (uadd a PGSIZE) = 2 ^ 32 - PGSIZE"
proof -
  have p: "PGROUNDDOWN va < 2 ^ 32" using pgrounddown_le(2)[of va] assms(1) by linarith
  show ?thesis using usub_shift[OF assms(2) p, of PGSIZE] assms(3) by (simp add: param_defs)
qed

lemma pte_flags: "PGSIZE dvd pa \<Longrightarrow> pa < 2 ^ 32 \<Longrightarrow> perm < PGSIZE \<Longrightarrow> or (or pa perm) PTE_P < 2 ^ 32"
  using or_less[of pa "or perm PTE_P"] or_flags[of perm PTE_P] by (simp add: or.assoc param_defs mod_eq_0_iff_dvd)

text \<open>The loop maps \<open>n + 1\<close> pages; \<open>d\<close> is the distance of a page from the first one.\<close>

lemma map_loop_spec:
  assumes "vm_ok s pd xs" "a < 2 ^ 32" "PGSIZE dvd a" "PGSIZE dvd pa" "perm < PGSIZE" "(n + 1) * PGSIZE \<le> 2 ^ 32" "pa < 2 ^ 32"
    "\<forall>va < 2 ^ 32. usub (PGROUNDDOWN va) a \<le> n * PGSIZE \<longrightarrow> even (pte s pd va)"
  shows "runs (map_loop pd n a pa perm s) (\<lambda>r t. vframe s t \<and> (\<exists>ys. vm_ok t pd ys \<and>
     (r = 0 \<and> (\<forall>va < 2 ^ 32. pte t pd va = (let d = usub (PGROUNDDOWN va) a in
         if d \<le> n * PGSIZE then or (or (uadd pa d) perm) PTE_P else pte s pd va)) \<or> r = - 1 \<and> ys = [])))"
  using assms
proof (induction n arbitrary: s xs a pa)
  case (0 s xs a pa)
  have "even (pte s pd a)" using 0(8) 0(2,3) by (simp add: PGROUNDDOWN_def)
  note M = map_one_spec[OF 0(1,2) this pte_flags[OF 0(4,7,5)]]
  have u: "uadd pa 0 = pa" using 0(7) by (simp add: uadd_def)
  show ?case unfolding map_loop.simps runs_kbind
  proof (rule runs_mono[OF M], elim conjE)
    fix c t
    assume f: "vframe s t" and h: "if c then vm_next s pd xs t \<and> mem_only (owned t pd) s t
        \<and> (\<forall>va < 2 ^ 32. pte t pd va = (if va div PGSIZE = a div PGSIZE then or (or pa perm) PTE_P else pte s pd va))
      else t = s \<and> xs = []"
    have "pte t pd va = (let d = usub (PGROUNDDOWN va) a in
        if d \<le> 0 * PGSIZE then or (or (uadd pa d) perm) PTE_P else pte s pd va)" if "c" "va < 2 ^ 32" for va
      using h that page_dist[OF that(2) 0(2,3)] u by (simp add: Let_def)
    then show "runs (Ok (if c then 0 else - 1) t) (\<lambda>r t. vframe s t \<and> (\<exists>ys. vm_ok t pd ys \<and>
     (r = 0 \<and> (\<forall>va < 2 ^ 32. pte t pd va = (let d = usub (PGROUNDDOWN va) a in
         if d \<le> 0 * PGSIZE then or (or (uadd pa d) perm) PTE_P else pte s pd va)) \<or> r = - 1 \<and> ys = [])))"
      using f h 0(1) by (cases c) (auto simp: vm_next_def)
  qed
next
  case (Suc n s xs a pa)
  let ?a = "uadd a PGSIZE" and ?pa = "uadd pa PGSIZE"
  let ?Q = "\<lambda>r t. vframe s t \<and> (\<exists>ys. vm_ok t pd ys \<and>
     (r = 0 \<and> (\<forall>va < 2 ^ 32. pte t pd va = (let d = usub (PGROUNDDOWN va) a in
         if d \<le> Suc n * PGSIZE then or (or (uadd pa d) perm) PTE_P else pte s pd va)) \<or> r = - 1 \<and> ys = []))"
  have "even (pte s pd a)" using Suc.prems(8,2,3) by (simp add: PGROUNDDOWN_def)
  note M = map_one_spec[OF Suc.prems(1,2) this pte_flags[OF Suc.prems(4,7,5)]]
  have a': "?a < 2 ^ 32" "PGSIZE dvd ?a" "PGSIZE dvd ?pa" "?pa < 2 ^ 32" using page_dvd Suc.prems(3,4) by simp_all
  have n': "(n + 1) * PGSIZE \<le> 2 ^ 32" using Suc.prems(6) by simp
  show ?case unfolding map_loop.simps runs_kbind
  proof (rule runs_mono[OF M], elim conjE)
    fix c t
    assume f: "vframe s t" and h: "if c then vm_next s pd xs t \<and> mem_only (owned t pd) s t
        \<and> (\<forall>va < 2 ^ 32. pte t pd va = (if va div PGSIZE = a div PGSIZE then or (or pa perm) PTE_P else pte s pd va))
      else t = s \<and> xs = []"
    show "runs (if c then map_loop pd n ?a ?pa perm t else Ok (- 1) t) ?Q"
    proof (cases c)
      case False
      then show ?thesis using f h Suc.prems(1) by auto
    next
      case True
      then obtain zs where z: "vm_ok t pd zs" using h by (auto simp: vm_next_def)
      have pt: "pte t pd va = (if usub (PGROUNDDOWN va) a = 0 then or (or pa perm) PTE_P else pte s pd va)" if "va < 2 ^ 32" for va
        using h True that page_dist[OF that Suc.prems(2,3)] by simp
      have big: "n * PGSIZE < 2 ^ 32 - PGSIZE" using Suc.prems(6) by (simp add: param_defs)
      have free: "\<forall>va < 2 ^ 32. usub (PGROUNDDOWN va) ?a \<le> n * PGSIZE \<longrightarrow> even (pte t pd va)"
      proof (intro allI impI)
        fix va assume v: "va < 2 ^ 32" "usub (PGROUNDDOWN va) ?a \<le> n * PGSIZE"
        have nz: "usub (PGROUNDDOWN va) a \<noteq> 0" using page_dist_first[OF v(1) Suc.prems(2)] v(2) big by auto
        have "usub (PGROUNDDOWN va) a \<le> Suc n * PGSIZE"
          using page_dist_next[OF v(1) Suc.prems(2,3) nz] v(2) by simp
        then show "even (pte t pd va)" using Suc.prems(8) v(1) pt[OF v(1)] nz by simp
      qed
      note I = Suc.IH[OF z a'(1,2,3) Suc.prems(5) n' a'(4) free]
      show ?thesis unfolding if_P[OF True]
      proof (rule runs_mono[OF I], elim conjE exE)
        fix r :: int and u ys
        assume f': "vframe t u" and ok: "vm_ok u pd ys" and d: "r = 0 \<and> (\<forall>va < 2 ^ 32. pte u pd va =
            (let d = usub (PGROUNDDOWN va) ?a in if d \<le> n * PGSIZE then or (or (uadd ?pa d) perm) PTE_P else pte t pd va))
          \<or> r = - 1 \<and> ys = []"
        have "pte u pd va = (let d = usub (PGROUNDDOWN va) a in
            if d \<le> Suc n * PGSIZE then or (or (uadd pa d) perm) PTE_P else pte s pd va)" if v: "va < 2 ^ 32" and r: "r = 0" for va
        proof -
          have e: "pte u pd va = (let d = usub (PGROUNDDOWN va) ?a in
             if d \<le> n * PGSIZE then or (or (uadd ?pa d) perm) PTE_P else pte t pd va)" using d r v by auto
          show ?thesis
          proof (cases "usub (PGROUNDDOWN va) a = 0")
            case True
            have "uadd pa 0 = pa" using Suc.prems(7) by (simp add: uadd_def)
            then show ?thesis using e page_dist_first[OF v Suc.prems(2) True] big pt[OF v] True by (simp add: Let_def)
          next
            case False
            note N = page_dist_next[OF v Suc.prems(2,3) False]
            have "uadd ?pa (usub (PGROUNDDOWN va) ?a) = uadd pa (usub (PGROUNDDOWN va) a)"
              unfolding uadd_uadd N by (simp add: add.commute)
            then show ?thesis using e pt[OF v] False N by (simp add: Let_def)
          qed
        qed
        then show "?Q r u" using vframe_trans[OF f f'] ok d by auto
      qed
    qed
  qed
qed

lemma pground_mult: "PGROUNDDOWN x = x div PGSIZE * PGSIZE" "PGSIZE dvd PGROUNDDOWN x"
  by (simp_all add: PGROUNDDOWN_def)

lemma range_dist:
  assumes "x < 2 ^ 32" "PGSIZE dvd va" "0 < m" "va + m * PGSIZE \<le> 2 ^ 32"
  shows "usub (PGROUNDDOWN x) va \<le> (m - 1) * PGSIZE \<longleftrightarrow> va \<le> x \<and> x < va + m * PGSIZE"
    "va \<le> x \<Longrightarrow> usub (PGROUNDDOWN x) va = PGROUNDDOWN x - va"
proof -
  note p = pgrounddown_le[of x]
  obtain q where q: "va = q * PGSIZE" using assms(2) by (auto simp: dvd_def mult.commute)
  have up: "va \<le> x \<Longrightarrow> va \<le> PGROUNDDOWN x"
    unfolding q pground_mult(1) by (intro mult_le_mono1) (simp add: less_eq_div_iff_mult_less_eq param_defs)
  show e: "usub (PGROUNDDOWN x) va = PGROUNDDOWN x - va" if "va \<le> x"
    using up[OF that] p(2) assms(1) by (intro usub_small) linarith+
  have step: "PGROUNDDOWN x < va + m * PGSIZE \<longleftrightarrow> PGROUNDDOWN x \<le> va + (m - 1) * PGSIZE"
  proof -
    have "x div PGSIZE < q + m \<longleftrightarrow> x div PGSIZE \<le> q + (m - 1)" using assms(3) by linarith
    moreover have "(0 :: nat) < PGSIZE" by (simp add: param_defs)
    ultimately show ?thesis unfolding q pground_mult(1) add_mult_distrib[symmetric] by simp
  qed
  have "x < va + m * PGSIZE \<longleftrightarrow> PGROUNDDOWN x < va + m * PGSIZE"
  proof
    assume a: "PGROUNDDOWN x < va + m * PGSIZE"
    then have "x div PGSIZE + 1 \<le> q + m" unfolding q pground_mult(1) add_mult_distrib[symmetric] by simp
    then have "(x div PGSIZE + 1) * PGSIZE \<le> (q + m) * PGSIZE" by (rule mult_le_mono1)
    then show "x < va + m * PGSIZE" using p by (simp add: q pground_mult(1) add_mult_distrib)
  qed (use p in linarith)
  moreover have "usub (PGROUNDDOWN x) va > (m - 1) * PGSIZE" if "\<not> va \<le> x"
  proof -
    have "PGROUNDDOWN x < va" using that p by linarith
    then have "usub (PGROUNDDOWN x) va = PGROUNDDOWN x + 2 ^ 32 - va" using assms(4) by (simp add: usub_def)
    moreover have "(m - 1) * PGSIZE < m * PGSIZE" using assms(3) by (simp add: param_defs)
    ultimately show ?thesis using assms(4) by linarith
  qed
  ultimately show "usub (PGROUNDDOWN x) va \<le> (m - 1) * PGSIZE \<longleftrightarrow> va \<le> x \<and> x < va + m * PGSIZE"
    using e step up by (cases "va \<le> x") auto
qed

text \<open>\<open>mappages\<close> on whole pages.\<close>

lemma mappages_spec:
  assumes V: "vm_ok s pd xs" and va: "PGSIZE dvd va" "0 < m" "va + m * PGSIZE \<le> 2 ^ 32" "m * PGSIZE < 2 ^ 32"
    and pa: "PGSIZE dvd pa" "pa + m * PGSIZE \<le> 2 ^ 32" and perm: "perm < PGSIZE"
    and new: "\<forall>x. va \<le> x \<and> x < va + m * PGSIZE \<longrightarrow> even (pte s pd x)"
  shows "runs (mappages pd va (m * PGSIZE) pa perm s) (\<lambda>r t. vframe s t \<and> (\<exists>ys. vm_ok t pd ys \<and>
     (r = 0 \<and> (\<forall>x < 2 ^ 32. pte t pd x = (if va \<le> x \<and> x < va + m * PGSIZE
         then or (or (pa + (PGROUNDDOWN x - va)) perm) PTE_P else pte s pd x)) \<or> r = - 1 \<and> ys = [])))"
proof -
  have P: "(0 :: nat) < PGSIZE" by (simp add: param_defs)
  have mp: "PGSIZE \<le> m * PGSIZE" "(m - 1 + 1) * PGSIZE = m * PGSIZE" "(m - 1) * PGSIZE + PGSIZE = m * PGSIZE"
    using va(2) mult_eq_if[of m PGSIZE] by simp_all
  obtain q where q: "va = q * PGSIZE" using va(1) by (auto simp: dvd_def mult.commute)
  have vl: "va < 2 ^ 32" "pa < 2 ^ 32" "(m - 1 + 1) * PGSIZE \<le> 2 ^ 32"
  proof -
    show "va < 2 ^ 32" "pa < 2 ^ 32" using va(3) pa(2) mp(1) P by linarith+
    show "(m - 1 + 1) * PGSIZE \<le> 2 ^ 32" unfolding mp(2) by (rule less_imp_le[OF va(4)])
  qed
  have a: "PGROUNDDOWN va = va" using va(1) by (simp add: pground_mult)
  have u: "usub (uadd va (m * PGSIZE)) 1 = va + m * PGSIZE - 1"
  proof (cases "va + m * PGSIZE = 2 ^ 32")
    case True
    then show ?thesis by (simp add: uadd_def usub_def)
  next
    case False
    then have "uadd va (m * PGSIZE) = va + m * PGSIZE" using va(3) by (intro uadd_small) simp
    moreover have "1 \<le> va + m * PGSIZE" using mp(1) P by linarith
    ultimately show ?thesis using False va(3) by (simp add: usub_small)
  qed
  have "va + m * PGSIZE - 1 = (PGSIZE - 1) + (q + (m - 1)) * PGSIZE"
    using mp(3) P unfolding q add_mult_distrib by linarith
  then have "(va + m * PGSIZE - 1) div PGSIZE = q + (m - 1) + (PGSIZE - 1) div PGSIZE"
    using div_mult_self1[of PGSIZE "PGSIZE - 1" "q + (m - 1)"] P by (simp only: not_gr_zero)
  then have "(va + m * PGSIZE - 1) div PGSIZE = q + (m - 1)" by (simp add: param_defs)
  then have "PGROUNDDOWN (va + m * PGSIZE - 1) = va + (m - 1) * PGSIZE"
    by (simp add: pground_mult(1) q add_mult_distrib)
  then have n: "usub (PGROUNDDOWN (usub (uadd va (m * PGSIZE)) 1)) va div PGSIZE = m - 1"
    unfolding u using va(3) mp P by (simp add: usub_small)
  have e: "mappages pd va (m * PGSIZE) pa perm s = map_loop pd (m - 1) va pa perm s"
    by (simp add: mappages_def Let_def a n)
  note R = range_dist[OF _ va(1,2,3)]
  have free: "\<forall>x < 2 ^ 32. usub (PGROUNDDOWN x) va \<le> (m - 1) * PGSIZE \<longrightarrow> even (pte s pd x)" using R(1) new by blast
  have f: "(let d = usub (PGROUNDDOWN x) va in if d \<le> (m - 1) * PGSIZE then or (or (uadd pa d) perm) PTE_P else pte s pd x)
      = (if va \<le> x \<and> x < va + m * PGSIZE then or (or (pa + (PGROUNDDOWN x - va)) perm) PTE_P else pte s pd x)"
    if x: "x < 2 ^ 32" for x
  proof (cases "va \<le> x \<and> x < va + m * PGSIZE")
    case True
    have "pa + (PGROUNDDOWN x - va) < 2 ^ 32" using True pgrounddown_le(2)[of x] pa(2) by linarith
    then show ?thesis using R[OF x] True by (simp add: uadd_small Let_def)
  next
    case False
    then have "\<not> usub (PGROUNDDOWN x) va \<le> (m - 1) * PGSIZE" using R(1)[OF x] by blast
    then show ?thesis using False by (auto simp: Let_def)
  qed
  show ?thesis unfolding e
    by (rule runs_mono[OF map_loop_spec[OF V vl(1) va(1) pa(1) perm vl(3,2) free]]) (simp add: f cong: conj_cong)
qed

end
