(* ===== verification/VmUser.thy ===== *)
theory VmUser
  imports VmSpec Proc
begin

text \<open>
  User memory: \<open>uvm_ok s pd xs\<close> extends \<open>vm_ok\<close> by the pages mapped below \<open>KERNBASE\<close>: they are pages of
  their own, neither free nor part of the page table, and mapped once. \<open>deallocuvm\<close> and \<open>allocuvm\<close> keep
  it, the latter also when memory runs out; \<open>filled\<close> is what user memory reads after \<open>allocuvm\<close>. The kernel's
  own accesses to user memory do not change the page table.
\<close>

definition frame :: "kst \<Rightarrow> nat \<Rightarrow> nat \<Rightarrow> nat" where
  "frame s pd va = P2V (PTE_ADDR (pte s pd va))"

definition uvm_ok :: "kst \<Rightarrow> nat \<Rightarrow> nat list \<Rightarrow> bool" where
  "uvm_ok s pd xs \<longleftrightarrow> vm_ok s pd xs
     \<and> (\<forall>va < KERNBASE. odd (pte s pd va) \<longrightarrow> page_ok s (frame s pd va) \<and> frame s pd va \<notin> set xs \<and> \<not> owned s pd (frame s pd va))
     \<and> (\<forall>va < KERNBASE. \<forall>vb < KERNBASE. odd (pte s pd va) \<and> odd (pte s pd vb) \<and> frame s pd va = frame s pd vb
          \<longrightarrow> va div PGSIZE = vb div PGSIZE)"

lemma uvm_okD:
  assumes "uvm_ok s pd xs"
  shows "vm_ok s pd xs"
    "va < KERNBASE \<Longrightarrow> odd (pte s pd va) \<Longrightarrow> page_ok s (frame s pd va) \<and> frame s pd va \<notin> set xs \<and> \<not> owned s pd (frame s pd va)"
    "va < KERNBASE \<Longrightarrow> vb < KERNBASE \<Longrightarrow> odd (pte s pd va) \<Longrightarrow> odd (pte s pd vb) \<Longrightarrow> frame s pd va = frame s pd vb
       \<Longrightarrow> va div PGSIZE = vb div PGSIZE"
  using assms unfolding uvm_ok_def by blast+

text \<open>A change outside the pages of the page table.\<close>

lemma vm_same:
  assumes V: "vm_ok s pd xs" and e: "\<forall>v i. owned s pd v \<and> i < 1024 \<longrightarrow> ent t v i = ent s v i"
    and k: "kend t = kend s" and f: "free_list t zs" and d: "\<forall>v \<in> set zs. \<not> owned s pd v"
  shows "vm_ok t pd zs" "pte t pd = pte s pd" "owned t pd = owned s pd"
proof -
  have pd: "ent t pd i = ent s pd i" "tab t pd i = tab s pd i" if "i < 1024" for i
    using e owned_pd[of s pd] that by (simp_all add: tab_def)
  have p: "page_ok t v = page_ok s v" for v by (simp add: page_ok_def k)
  show o: "owned t pd = owned s pd" using pd by (auto simp: owned_def fun_eq_iff)
  have nz: "tab s pd i \<notin> set zs" if "i < 1024" "odd (ent s pd i)" for i
    using d that by (auto simp: owned_def)
  have "pd \<notin> set zs" using d owned_pd by blast
  then show "vm_ok t pd zs" using V f nz pd p unfolding vm_ok_def by simp
  show "pte t pd = pte s pd"
    using e owned_tab pd by (auto simp: pte_def fun_eq_iff)
qed

subsection \<open>Freeing a page of the process\<close>

lemma ent_freed:
  assumes "page_ok s v" "page_ok s w" "v \<noteq> w" "i < 1024"
  shows "ent (s\<lparr>pmem := freed_page (pmem s) v n, freelist := m\<rparr>) w i = ent s w i"
proof -
  have "rd32 (freed_page (pmem s) v n) (V2P w + 4 * i) = rd32 (pmem s) (V2P w + 4 * i)"
    by (rule rd32_cong, rule freed_page_other) (use pages_apart[OF assms(1,2,3)] assms(4) in \<open>auto simp: in_page_def param_defs\<close>)
  then show ?thesis using V2P_slot[OF assms(2,4)] by (simp add: ent_def kread_def)
qed

text \<open>One page of the loop of \<open>deallocuvm\<close>.\<close>

lemma free_frame:
  assumes U: "uvm_ok s pd xs" and a: "a < KERNBASE" "odd (pte s pd a)"
  defines "v \<equiv> frame s pd a"
  defines "u \<equiv> s\<lparr>pmem := freed_page (pmem s) v (freelist s), freelist := v\<rparr>"
  defines "t \<equiv> kwrite (tab s pd (PDX a) + 4 * PTX a) 0 u"
  shows "kfree v s = Ok () u" "PTE_ADDR (pte s pd a) \<noteq> 0" "uvm_ok t pd (v # xs)" "vframe s t"
    "x < 2 ^ 32 \<Longrightarrow> pte t pd x = (if x div PGSIZE = a div PGSIZE then 0 else pte s pd x)"
    "owned t pd = owned s pd"
proof -
  note V = uvm_okD(1)[OF U] and F = uvm_okD(2)[OF U a, folded v_def]
  have o: "odd (ent s pd (PDX a))" using pte_odd[OF a(2)] by simp
  have R: "runs (kfree v s) (\<lambda>_ t. free_list t (v # xs) \<and> t = u)"
    unfolding u_def by (rule kfree_spec[OF vm_okD(1)[OF V]]) (use F in simp_all)
  then show k: "kfree v s = Ok () u" using kfree_eq[OF vm_okD(1)[OF V]] F unfolding u_def by simp
  have fl: "free_list u (v # xs)" using R unfolding k by simp
  have "v \<noteq> KERNBASE" using F free_listD(4)[OF vm_okD(1)[OF V]] by (auto simp: page_ok_def)
  moreover have "v = KERNBASE" if "PTE_ADDR (pte s pd a) = 0"
    using that by (simp add: v_def frame_def P2V_def uadd_def param_defs)
  ultimately show "PTE_ADDR (pte s pd a) \<noteq> 0" by blast
  have e: "\<forall>w i. owned s pd w \<and> i < 1024 \<longrightarrow> ent u w i = ent s w i"
    unfolding u_def by (intro allI impI, elim conjE, rule ent_freed[OF _ owned_page[OF V]]) (use F in auto)
  have d: "\<forall>w \<in> set (v # xs). \<not> owned s pd w"
    using F owned_not_free[OF V] by auto
  have ku: "kend u = kend s" by (simp add: u_def)
  note S = vm_same[OF V e ku fl d]
  have ou: "odd (ent u pd (PDX a))" "tab u pd (PDX a) = tab s pd (PDX a)" using e owned_pd[of s pd] o by (simp_all add: tab_def)
  have t: "t = kwrite (tab u pd (PDX a) + 4 * PTX a) 0 u" by (simp add: t_def ou)
  have Vt: "vm_ok t pd (v # xs)" unfolding t by (rule put_pte(1)[OF S(1) ou(1)])
  show ot: "owned t pd = owned s pd" unfolding t owned_put_pte[OF S(1) ou(1)] by (rule S(3))
  have ab: "a < 2 ^ 32" using a(1) by (simp add: param_defs)
  show pt: "pte t pd x = (if x div PGSIZE = a div PGSIZE then 0 else pte s pd x)" if "x < 2 ^ 32" for x
    using same_page[OF that ab] put_pte(3)[OF S(1) ou(1), of 0 x] by (simp add: t S(2))
  show "vframe s t" unfolding t by (rule vframe_trans[OF _ vframe_upd(3)]) (auto simp: vframe_def u_def)
  have pg: "page_ok t w = page_ok s w" for w by (simp add: t_def page_ok_def kwrite_def ku)
  have fr: "frame t pd x = frame s pd x" "odd (pte s pd x)" "x div PGSIZE \<noteq> a div PGSIZE"
    if "x < KERNBASE" "odd (pte t pd x)" for x
  proof -
    have "x < 2 ^ 32" using that(1) by (simp add: param_defs)
    then show "frame t pd x = frame s pd x" "odd (pte s pd x)" "x div PGSIZE \<noteq> a div PGSIZE"
      using pt[of x] that(2) by (auto simp: frame_def split: if_splits)
  qed
  show "uvm_ok t pd (v # xs)"
    unfolding uvm_ok_def
  proof (intro conjI allI impI, goal_cases)
    case 1
    show ?case by (rule Vt)
  next
    case (2 x)
    then show ?case using fr[of x] uvm_okD(2)[OF U, of x] by (simp add: pg)
  next
    case (3 x)
    then show ?case using fr[of x] uvm_okD(2)[OF U, of x] uvm_okD(3)[OF U, of x a] a by (auto simp: v_def)
  next
    case (4 x)
    then show ?case using fr[of x] uvm_okD(2)[OF U, of x] by (simp add: ot)
  next
    case (5 x y)
    then show ?case using fr[of x] fr[of y] uvm_okD(3)[OF U, of x y] by auto
  qed
qed

subsection \<open>deallocuvm\<close>

lemma uvm_KERNBASE: "x < KERNBASE \<Longrightarrow> x < 2 ^ 32"
  by (simp add: param_defs)

text \<open>The next page directory entry.\<close>

lemma next_pde:
  assumes "a < KERNBASE"
  shows "uadd (usub (PGADDR (PDX a + 1) 0 0) PGSIZE) PGSIZE = (a div 2 ^ 22 + 1) * 2 ^ 22"
    "a < (a div 2 ^ 22 + 1) * 2 ^ 22" "(a div 2 ^ 22 + 1) * 2 ^ 22 < 2 ^ 32"
    "a \<le> x \<Longrightarrow> x < (a div 2 ^ 22 + 1) * 2 ^ 22 \<Longrightarrow> PDX x = PDX a" "PGSIZE dvd (a div 2 ^ 22 + 1) * 2 ^ 22"
proof -
  have d: "a div 2 ^ 22 < 512" using assms by (simp add: param_defs)
  then have p: "PDX a = a div 2 ^ 22" by (simp add: PDX_eq)
  have "PGADDR (PDX a + 1) 0 0 = (a div 2 ^ 22 + 1) * 2 ^ 22" using d by (simp add: PGADDR_def p push_bit_eq_mult)
  then show "uadd (usub (PGADDR (PDX a + 1) 0 0) PGSIZE) PGSIZE = (a div 2 ^ 22 + 1) * 2 ^ 22"
    using d by (simp add: usub_small uadd_small param_defs)
  show "a < (a div 2 ^ 22 + 1) * 2 ^ 22" using div_mult_mod_eq[of a "2 ^ 22"] mod_less_divisor[of "2 ^ 22" a] by simp
  show "(a div 2 ^ 22 + 1) * 2 ^ 22 < 2 ^ 32" using d by simp
  show "PDX x = PDX a" if x: "a \<le> x" "x < (a div 2 ^ 22 + 1) * 2 ^ 22"
  proof -
    have "a div 2 ^ 22 \<le> x div 2 ^ 22" by (rule div_le_mono[OF x(1)])
    moreover have "x div 2 ^ 22 < a div 2 ^ 22 + 1" using x(2) by (rule less_mult_imp_div_less)
    ultimately have "x div 2 ^ 22 = a div 2 ^ 22" by linarith
    then show ?thesis by (simp only: PDX_eq)
  qed
  show "PGSIZE dvd (a div 2 ^ 22 + 1) * 2 ^ 22" by (rule dvd_mult) (simp add: param_defs)
qed

lemma in_page_div: "PGSIZE dvd a \<Longrightarrow> a \<le> x \<and> x < a + PGSIZE \<longleftrightarrow> x div PGSIZE = a div PGSIZE"
proof -
  assume "PGSIZE dvd a"
  then obtain q where q: "a = q * PGSIZE" by (auto simp: dvd_def mult.commute)
  have P: "(0 :: nat) < PGSIZE" by (simp add: param_defs)
  have "a + PGSIZE = (q + 1) * PGSIZE" by (simp add: q add_mult_distrib)
  then have "a \<le> x \<and> x < a + PGSIZE \<longleftrightarrow> q \<le> x div PGSIZE \<and> x div PGSIZE < q + 1"
    using less_eq_div_iff_mult_less_eq[OF P, of q x] div_less_iff_less_mult[OF P, of x "q + 1"] by (simp only: q)
  then show ?thesis using P by (auto simp: q)
qed

text \<open>
  The loop frees every page present from \<open>a\<close> to \<open>oldsz\<close> and clears its entry; it skips the
  address ranges without a table.
\<close>

definition cleared :: "nat \<Rightarrow> nat \<Rightarrow> nat \<Rightarrow> kst \<Rightarrow> kst \<Rightarrow> bool" where
  "cleared pd a oldsz s t \<longleftrightarrow> (\<forall>x < 2 ^ 32. pte t pd x =
     (if a \<le> x \<and> PGROUNDDOWN x < oldsz \<and> odd (pte s pd x) then 0 else pte s pd x))"

definition released :: "nat \<Rightarrow> nat list \<Rightarrow> kst \<Rightarrow> kst \<Rightarrow> bool" where
  "released pd ys s t \<longleftrightarrow> owned t pd = owned s pd \<and> (\<forall>w \<in> set ys. \<exists>x < KERNBASE. odd (pte s pd x) \<and> frame s pd x = w)"

lemma released_Nil [simp]: "released pd [] s s"
  by (simp add: released_def)

lemma dealloc_loop_spec:
  assumes "uvm_ok s pd xs" "oldsz \<le> KERNBASE" "PGSIZE dvd a"
  shows "runs (dealloc_loop pd oldsz a s) (\<lambda>_ t. vframe s t \<and> (\<exists>ys. uvm_ok t pd (ys @ xs) \<and> released pd ys s t) \<and> cleared pd a oldsz s t)"
  using assms
proof (induction "oldsz - a" arbitrary: a s xs rule: less_induct)
  case (less a s xs)
  let ?Q = "\<lambda>_ t. vframe s t \<and> (\<exists>ys. uvm_ok t pd (ys @ xs) \<and> released pd ys s t) \<and> cleared pd a oldsz s t"
  show ?case
  proof (cases "a < oldsz")
    case False
    have "\<not> PGROUNDDOWN x < oldsz" if "a \<le> x" for x
    proof -
      have "a div PGSIZE * PGSIZE \<le> x div PGSIZE * PGSIZE" using that by (intro mult_le_mono1 div_le_mono)
      then show ?thesis using False less.prems(3) by (simp add: pground_mult(1))
    qed
    then have "cleared pd a oldsz s s" by (auto simp: cleared_def)
    moreover have "\<exists>ys. uvm_ok s pd (ys @ xs) \<and> released pd ys s s" using less.prems(1) by (intro exI[of _ "[]"]) simp
    ultimately show ?thesis using False by (simp add: dealloc_loop.simps[of pd oldsz a])
  next
    case True
    have aK: "a < KERNBASE" using True less.prems(2) by simp
    have a32: "a < 2 ^ 32" by (rule uvm_KERNBASE[OF aK])
    note V = uvm_okD(1)[OF less.prems(1)]
    show ?thesis
    proof (cases "odd (ent s pd (PDX a))")
      case False
      let ?b = "(a div 2 ^ 22 + 1) * 2 ^ 22"
      note N = next_pde[OF aK]
      have m: "oldsz - ?b < oldsz - a" using True N(2) by simp
      have e: "dealloc_loop pd oldsz a s = dealloc_loop pd oldsz ?b s"
        using True False N(2) by (subst dealloc_loop.simps) (simp only: walk_noalloc kbind_simps if_True if_False Let_def N(1) simp_thms)
      have none: "even (pte s pd x)" if "a \<le> x" "x < ?b" for x
        using N(4)[OF that] False by (simp add: pte_def)
      have c: "cleared pd a oldsz s t" if "cleared pd ?b oldsz s t" for t
        using that none N(2) unfolding cleared_def by (smt (verit, best) linorder_not_le order_trans less_imp_le)
      show ?thesis unfolding e
        by (rule runs_mono[OF less.hyps[OF m less.prems(1,2) N(5)]]) (use c in blast)
    next
      case o: True
      let ?p = "tab s pd (PDX a) + 4 * PTX a"
      have p: "?p \<noteq> 0" using tab_pos[OF V o] by simp
      have b: "uadd a PGSIZE = a + PGSIZE" "a < a + PGSIZE" using aK by (simp_all add: uadd_def param_defs)
      have m: "oldsz - (a + PGSIZE) < oldsz - a" using True b(2) by simp
      have bd: "PGSIZE dvd a + PGSIZE" using less.prems(3) by simp
      have w: "walkpgdir pd a False s = Ok ?p s" using o by (simp add: walk_noalloc)
      have kr: "kread ?p s = pte s pd a" by (rule pte_kread[OF o])
      have step: "cleared pd a oldsz s t" if c: "cleared pd (a + PGSIZE) oldsz u t"
        and u: "\<And>x. x < 2 ^ 32 \<Longrightarrow> pte u pd x = (if x div PGSIZE = a div PGSIZE \<and> odd (pte s pd x) then 0 else pte s pd x)" for u t
        unfolding cleared_def
      proof (intro allI impI)
        fix x :: nat assume x: "x < 2 ^ 32"
        have same: "x div PGSIZE = a div PGSIZE \<longleftrightarrow> a \<le> x \<and> x < a + PGSIZE" using in_page_div[OF less.prems(3)] by blast
        have lo: "PGROUNDDOWN x < oldsz" if "x div PGSIZE = a div PGSIZE"
          using that True less.prems(3) by (simp add: pground_mult(1))
        show "pte t pd x = (if a \<le> x \<and> PGROUNDDOWN x < oldsz \<and> odd (pte s pd x) then 0 else pte s pd x)"
          using c u[OF x] same lo x unfolding cleared_def by (cases "x div PGSIZE = a div PGSIZE") auto
      qed
      show ?thesis
      proof (cases "odd (pte s pd a)")
        case False
        have e: "dealloc_loop pd oldsz a s = dealloc_loop pd oldsz (a + PGSIZE) s"
          unfolding dealloc_loop.simps[of pd oldsz a] if_P[OF True] w kbind_simps if_not_P[OF p] kr
          using b False by (simp add: Let_def)
        have same: "pte s pd x = (if x div PGSIZE = a div PGSIZE \<and> odd (pte s pd x) then 0 else pte s pd x)" if "x < 2 ^ 32" for x
          using False same_page[OF that a32] by (auto simp: pte_def)
        show ?thesis unfolding e
          by (rule runs_mono[OF less.hyps[OF m less.prems(1,2) bd]]) (use step[OF _ same] in blast)
      next
        case odd: True
        let ?v = "frame s pd a"
        let ?u = "s\<lparr>pmem := freed_page (pmem s) ?v (freelist s), freelist := ?v\<rparr>"
        let ?t = "kwrite ?p 0 ?u"
        note F = free_frame[OF less.prems(1) aK odd]
        have e: "dealloc_loop pd oldsz a s = dealloc_loop pd oldsz (a + PGSIZE) ?t"
          unfolding dealloc_loop.simps[of pd oldsz a] if_P[OF True] w kbind_simps if_not_P[OF p] kr
          using b odd F(1,2) by (simp add: Let_def frame_def)
        have sp: "odd (pte s pd x) \<longleftrightarrow> odd (pte s pd a)" if "x < 2 ^ 32" "x div PGSIZE = a div PGSIZE" for x
          using that same_page[OF that(1) a32] by (simp add: pte_def)
        have pt: "pte ?t pd x = (if x div PGSIZE = a div PGSIZE \<and> odd (pte s pd x) then 0 else pte s pd x)" if "x < 2 ^ 32" for x
          using F(5)[OF that] sp[OF that] odd by simp
        have Qt: "?Q y w" if h: "vframe ?t w \<and> (\<exists>ys. uvm_ok w pd (ys @ ?v # xs) \<and> released pd ys ?t w) \<and> cleared pd (a + PGSIZE) oldsz ?t w" for y w
        proof -
          obtain ys where ys: "uvm_ok w pd (ys @ ?v # xs)" "released pd ys ?t w" using h by blast
          have "frame ?t pd x = frame s pd x \<and> odd (pte s pd x)" if "x < KERNBASE" "odd (pte ?t pd x)" for x
            using that pt[OF uvm_KERNBASE[OF that(1)]] by (auto simp: frame_def split: if_splits)
          then have "released pd (ys @ [?v]) s w" using ys(2) F(6) aK odd unfolding released_def by auto metis
          moreover have "uvm_ok w pd ((ys @ [?v]) @ xs)" using ys(1) by simp
          ultimately have "\<exists>ys. uvm_ok w pd (ys @ xs) \<and> released pd ys s w" by blast
          then show ?thesis using h vframe_trans[OF F(4)] step[OF _ pt] by blast
        qed
        show ?thesis unfolding e
          by (rule runs_mono[OF less.hyps[OF m F(3) less.prems(2) bd]]) (rule Qt)
      qed
    qed
  qed
qed

lemma pgroundup_dvd [simp]: "PGSIZE dvd PGROUNDUP a"
  by (simp add: PGROUNDUP_def)

lemma deallocuvm_spec:
  assumes "uvm_ok s pd xs" "oldsz \<le> KERNBASE" "newsz < oldsz"
  shows "runs (deallocuvm pd oldsz newsz s) (\<lambda>r t. r = newsz \<and> vframe s t
     \<and> (\<exists>ys. uvm_ok t pd (ys @ xs) \<and> released pd ys s t) \<and> cleared pd (PGROUNDUP newsz) oldsz s t)"
  using dealloc_loop_spec[OF assms(1,2) pgroundup_dvd, of newsz] assms(3)
  by (auto simp: deallocuvm_def elim!: runs_mono)

subsection \<open>allocuvm\<close>

lemma frame_cong: "pte t pd x = pte s pd x \<Longrightarrow> frame t pd x = frame s pd x"
  by (simp add: frame_def)

text \<open>A new page, taken from the free ones.\<close>

lemma uvm_add:
  assumes U: "uvm_ok s pd xs" and V: "vm_ok t pd zs" and k: "kend t = kend s"
    and sub: "\<forall>w. owned t pd w \<or> w \<in> set zs \<longrightarrow> owned s pd w \<or> w \<in> set xs"
    and v: "v \<in> set xs" "\<not> owned t pd v" "v \<notin> set zs"
    and p: "\<And>x. x < KERNBASE \<Longrightarrow> odd (pte t pd x) \<Longrightarrow> pte t pd x = pte s pd x \<or> x div PGSIZE = a div PGSIZE \<and> frame t pd x = v"
  shows "uvm_ok t pd zs"
proof -
  note D = uvm_okD[OF U]
  have pv: "page_ok s v" using free_listD(3)[OF vm_okD(1)[OF D(1)] v(1)] .
  have pg: "page_ok t w = page_ok s w" for w by (simp add: page_ok_def k)
  have one: "page_ok t (frame t pd x) \<and> frame t pd x \<notin> set zs \<and> \<not> owned t pd (frame t pd x)"
    if x: "x < KERNBASE" "odd (pte t pd x)" for x
    using p[OF x]
  proof
    assume "pte t pd x = pte s pd x"
    then show ?thesis using D(2)[OF x(1)] x(2) sub frame_cong[of t pd x s] by (auto simp: pg)
  next
    assume "x div PGSIZE = a div PGSIZE \<and> frame t pd x = v"
    then show ?thesis using v pv by (simp add: pg)
  qed
  have "x div PGSIZE = y div PGSIZE" if "x < KERNBASE" "y < KERNBASE" "odd (pte t pd x)" "odd (pte t pd y)" "frame t pd x = frame t pd y" for x y
    using p[OF that(1,3)] p[OF that(2,4)]
  proof (elim disjE conjE)
    assume "pte t pd x = pte s pd x" "pte t pd y = pte s pd y"
    then show ?thesis using D(3)[OF that(1,2)] that frame_cong[of t pd x s] frame_cong[of t pd y s] by simp
  next
    assume "pte t pd x = pte s pd x" "frame t pd y = v"
    then show ?thesis using D(2)[OF that(1)] that v(1) frame_cong[of t pd x s] by simp
  next
    assume "pte t pd y = pte s pd y" "frame t pd x = v"
    then show ?thesis using D(2)[OF that(2)] that v(1) frame_cong[of t pd y s] by simp
  qed simp
  then show ?thesis using V one unfolding uvm_ok_def by blast
qed

text \<open>\<open>kalloc\<close> and the zeroing of the page.\<close>

lemma kalloc_page:
  assumes "uvm_ok s pd (v # ys)"
  defines "t \<equiv> zero_page v (s\<lparr>freelist := hd (ys @ [0])\<rparr>)"
  shows "kalloc s = Ok v (s\<lparr>freelist := hd (ys @ [0])\<rparr>)" "vm_ok t pd ys" "pte t pd = pte s pd" "owned t pd = owned s pd"
    "page_ok s v" "\<not> owned s pd v" "v \<notin> set ys" "vframe s t"
proof -
  note V = uvm_okD(1)[OF assms(1)]
  note F = vm_okD(1)[OF V]
  let ?u = "s\<lparr>freelist := hd (ys @ [0])\<rparr>"
  show v: "page_ok s v" "\<not> owned s pd v" "v \<notin> set ys"
    using free_listD(2,3)[OF F] owned_not_free[OF V] by auto
  show "kalloc s = Ok v ?u" using kalloc_eq[OF F] chain_head[OF free_listD(1)[OF F]] by simp
  then have fu: "free_list ?u ys" using kalloc_spec[OF F] by simp
  have e: "ent t w i = ent s w i" if "page_ok s w" "w \<noteq> v" "i < 1024" for w i
    using ent_zero_page[of ?u w v i] that v(1) unfolding t_def by (simp add: ent_def kread_def)
  have eu: "ent ?u w i = ent s w i" for w i by (simp add: ent_def kread_def)
  have "\<forall>w \<in> set ys. ent t w 0 = ent ?u w 0"
  proof
    fix w assume "w \<in> set ys"
    then have "page_ok s w" "w \<noteq> v" using free_listD(3)[OF F] v(3) by auto
    then show "ent t w 0 = ent ?u w 0" using e[of w 0] unfolding eu by simp
  qed
  then have ft: "free_list t ys"
    by (rule free_list_frame[OF fu]) (simp_all add: t_def zero_page_def)
  have o: "\<forall>w i. owned s pd w \<and> i < 1024 \<longrightarrow> ent t w i = ent s w i"
    using e owned_page[OF V] v(2) by blast
  have k: "kend t = kend s" by (simp add: t_def zero_page_def)
  have d: "\<forall>w \<in> set ys. \<not> owned s pd w" using owned_not_free[OF V] by auto
  from vm_same[OF V o k ft d] show "vm_ok t pd ys" "pte t pd = pte s pd" "owned t pd = owned s pd" .
  show "vframe s t" unfolding t_def by (rule vframe_trans[of s ?u]) simp_all
qed

text \<open>Mapping one user page.\<close>

lemma mappages_one:
  assumes "PGSIZE dvd a" "a < KERNBASE"
  shows "mappages pd a PGSIZE pa perm s = kbind (map_one pd a pa perm s) (\<lambda>c s. Ok (if c then 0 else - 1) s)"
proof -
  have a: "PGROUNDDOWN a = a" using assms(1) by (simp add: pground_mult)
  have "a + PGSIZE - 1 = (PGSIZE - 1) + a div PGSIZE * PGSIZE" using assms(1) by (simp add: param_defs)
  then have "(a + PGSIZE - 1) div PGSIZE = a div PGSIZE" by (simp add: param_defs)
  moreover have "usub (uadd a PGSIZE) 1 = a + PGSIZE - 1"
    using assms(2) by (simp add: uadd_small usub_small param_defs)
  ultimately have "PGROUNDDOWN (usub (uadd a PGSIZE) 1) = a" using a by (simp add: pground_mult(1))
  then show ?thesis by (simp add: mappages_def Let_def a)
qed

lemma new_pte:
  assumes "page_ok s v"
  shows "odd (or (or (V2P v) (or PTE_W PTE_U)) PTE_P)" "PTE_FLAGS (or (or (V2P v) (or PTE_W PTE_U)) PTE_P) = 7"
    "P2V (PTE_ADDR (or (or (V2P v) (or PTE_W PTE_U)) PTE_P)) = v" "or (or (V2P v) (or PTE_W PTE_U)) PTE_P < 2 ^ 32"
proof -
  obtain q where q: "V2P v = 4096 * q" using page_4096[OF assms] by blast
  have l: "V2P v < 2 ^ 32" unfolding V2P_def by (rule usub_less)
  have e: "or (or (V2P v) (or PTE_W PTE_U)) PTE_P = or (V2P v) 7" by (simp add: or.assoc param_defs)
  have m: "V2P v mod PGSIZE = 0" by (simp add: q param_defs)
  show "odd (or (or (V2P v) (or PTE_W PTE_U)) PTE_P)" unfolding e unfolding q by (simp add: or_page)
  have "PTE_FLAGS (4096 * q + 7) = (4096 * q + 7) mod 4096"
    using take_bit_eq_mask[of 12 "4096 * q + 7"] by (simp add: PTE_FLAGS_def mask_eq_exp_minus_1 take_bit_eq_mod)
  then show "PTE_FLAGS (or (or (V2P v) (or PTE_W PTE_U)) PTE_P) = 7" unfolding e unfolding q by (simp add: or_page)
  have a: "PTE_ADDR (or (V2P v) 7) = V2P v" by (rule PTE_ADDR_or[OF m]) simp
  show "P2V (PTE_ADDR (or (or (V2P v) (or PTE_W PTE_U)) PTE_P)) = v" unfolding e a by (rule P2V_V2P[OF assms])
  show "or (or (V2P v) (or PTE_W PTE_U)) PTE_P < 2 ^ 32" unfolding e by (rule or_less[OF m _ l]) simp
qed

text \<open>The pages from \<open>lo\<close> to \<open>a\<close> are new: present, writable and for the user; the others are as before.\<close>

definition grown :: "nat \<Rightarrow> nat \<Rightarrow> nat \<Rightarrow> kst \<Rightarrow> kst \<Rightarrow> bool" where
  "grown pd lo a s t \<longleftrightarrow> (\<forall>x < 2 ^ 32. if lo \<le> x \<and> x < a then odd (pte t pd x) \<and> PTE_FLAGS (pte t pd x) = 7
     else pte t pd x = pte s pd x)"

text \<open>
  What user memory reads: the byte of physical memory at \<open>x\<close>. Every page present from \<open>lo\<close> to \<open>a\<close> is one of
  the pages \<open>xs\<close>, filled with zeroes; the bytes of the other pages are as before.
\<close>

definition ubyte :: "kst \<Rightarrow> nat \<Rightarrow> nat \<Rightarrow> u8" where
  "ubyte s pd x = pmem s (PTE_ADDR (pte s pd x) + x mod PGSIZE)"

definition filled :: "nat \<Rightarrow> nat list \<Rightarrow> nat \<Rightarrow> nat \<Rightarrow> kst \<Rightarrow> kst \<Rightarrow> bool" where
  "filled pd xs lo a s t \<longleftrightarrow> (\<forall>x < KERNBASE. odd (pte t pd x) \<longrightarrow>
     (if lo \<le> x \<and> x < a then frame t pd x \<in> set xs \<and> ubyte t pd x = 0 else ubyte t pd x = ubyte s pd x))"

lemma V2P_frame: "V2P (frame s pd x) = PTE_ADDR (pte s pd x)"
proof -
  have "pte s pd x < 2 ^ 32" using ent_less[of s "tab s pd (PDX x)" "PTX x"] by (simp add: pte_def)
  moreover have "PTE_ADDR e \<le> e" for e by (simp add: PTE_ADDR_def)
  ultimately have "PTE_ADDR (pte s pd x) < 2 ^ 32" by (rule le_less_trans[rotated])
  then show ?thesis
    by (cases "PTE_ADDR (pte s pd x) < KERNBASE") (auto simp: frame_def V2P_def P2V_def uadd_def usub_def param_defs mod_if)
qed

lemma in_frame: "in_page (frame s pd x) (PTE_ADDR (pte s pd x) + x mod PGSIZE)"
  by (simp add: in_page_def V2P_frame) (simp add: param_defs)

lemma in_page_unique: "page_ok s v \<Longrightarrow> page_ok s w \<Longrightarrow> in_page v a \<Longrightarrow> in_page w a \<Longrightarrow> v = w"
  using pages_apart[of s v w] by (fastforce simp: in_page_def)

text \<open>A change in the pages of the page table does not reach user memory.\<close>

lemma ubyte_keep:
  assumes U: "uvm_ok t pd zs" and m: "mem_only (owned t pd) s t" and x: "x < KERNBASE" "odd (pte t pd x)"
  shows "ubyte t pd x = pmem s (PTE_ADDR (pte t pd x) + x mod PGSIZE)"
proof (rule ccontr)
  assume "ubyte t pd x \<noteq> pmem s (PTE_ADDR (pte t pd x) + x mod PGSIZE)"
  then obtain w where w: "owned t pd w" "in_page w (PTE_ADDR (pte t pd x) + x mod PGSIZE)"
    using m unfolding mem_only_def ubyte_def by blast
  note F = uvm_okD(2)[OF U x]
  have "w = frame t pd x"
    by (rule in_page_unique[OF owned_page[OF uvm_okD(1)[OF U] w(1)] conjunct1[OF F] w(2) in_frame])
  then show False using F w(1) by blast
qed

text \<open>A page is zeroed and mapped at \<open>a\<close>.\<close>

lemma filled_step:
  assumes U: "uvm_ok u pd zs" and F: "filled pd xs lo a s t" and v: "page_ok t v" "v \<in> set ys" "set ys \<subseteq> set xs" "uvm_ok t pd ys"
    and k: "kend u = kend t" and mt: "pmem t2 = pmem (zero_page v t)" "mem_only (owned u pd) t2 u"
    and p: "\<And>x. x < KERNBASE \<Longrightarrow> odd (pte u pd x) \<Longrightarrow>
       if x div PGSIZE = a div PGSIZE then frame u pd x = v else pte u pd x = pte t pd x"
    and a: "PGSIZE dvd a" "lo \<le> a"
  shows "filled pd xs lo (a + PGSIZE) s u"
  unfolding filled_def
proof (intro allI impI)
  fix x assume x: "x < KERNBASE" "odd (pte u pd x)"
  have z: "pmem t2 b = (if in_page v b then 0 else pmem t b)" for b
    by (auto simp: mt zero_page_def memset_eq[OF page_fits[OF v(1)]] put_region_def in_page_def)
  have b: "ubyte u pd x = (if in_page v (PTE_ADDR (pte u pd x) + x mod PGSIZE) then 0 else pmem t (PTE_ADDR (pte u pd x) + x mod PGSIZE))"
    unfolding ubyte_keep[OF U mt(2) x] z ..
  have same: "x div PGSIZE = a div PGSIZE \<longleftrightarrow> a \<le> x \<and> x < a + PGSIZE" using in_page_div[OF a(1)] by blast
  show "if lo \<le> x \<and> x < a + PGSIZE then frame u pd x \<in> set xs \<and> ubyte u pd x = 0 else ubyte u pd x = ubyte s pd x"
  proof (cases "x div PGSIZE = a div PGSIZE")
    case True
    then have fv: "frame u pd x = v" using p[OF x] by simp
    then have "ubyte u pd x = 0" using b in_frame[of u pd x] by simp
    then show ?thesis using True same a(2) fv v(2,3) by auto
  next
    case False
    then have e: "pte u pd x = pte t pd x" using p[OF x] by simp
    have o: "odd (pte t pd x)" using x(2) by (simp add: e)
    note G = uvm_okD(2)[OF v(4) x(1) o]
    have "\<not> in_page v (PTE_ADDR (pte t pd x) + x mod PGSIZE)"
      using in_page_unique[OF v(1) conjunct1[OF G] _ in_frame] G v(2) by blast
    then have "ubyte u pd x = ubyte t pd x" using b by (simp add: e ubyte_def)
    moreover have "frame u pd x = frame t pd x" by (simp add: frame_def e)
    ultimately show ?thesis using F x(1) o False same unfolding filled_def by auto
  qed
qed

definition alloc_body :: "nat \<Rightarrow> nat \<Rightarrow> nat \<Rightarrow> nat \<Rightarrow> kst \<Rightarrow> nat option kres" where
  "alloc_body pd oldsz newsz a s = kbind (kalloc s) (\<lambda>mem s.
       if mem = 0 then kbind (deallocuvm pd newsz oldsz s) (\<lambda>_ s. Ok (Some (0 :: nat)) s)
       else kbind (mappages pd a PGSIZE (V2P mem) (or PTE_W PTE_U) (zero_page mem s)) (\<lambda>r s.
         if r < 0 then kbind (deallocuvm pd newsz oldsz s) (\<lambda>_ s.
           kbind (kfree mem s) (\<lambda>_ s. Ok (Some 0) s))
         else Ok None s))"

lemma allocuvm_eq:
  "allocuvm pd oldsz newsz s =
    (if newsz \<ge> KERNBASE then Ok 0 s
     else if newsz < oldsz then Ok oldsz s
     else kbind (kfind (pages_from (PGROUNDUP oldsz) newsz) (alloc_body pd oldsz newsz) s) (\<lambda>r s.
     Ok (case r of None \<Rightarrow> newsz | Some x \<Rightarrow> x) s))"
  unfolding allocuvm_def alloc_body_def ..

text \<open>After a failure, the pages allocated so far are freed.\<close>

lemma rollback:
  assumes U: "uvm_ok t pd zs" and g: "grown pd (PGROUNDUP oldsz) a s t" and z: "\<forall>x < KERNBASE. PGROUNDUP oldsz \<le> x \<longrightarrow> pte s pd x = 0"
    and n: "newsz < KERNBASE" "oldsz < newsz" and a: "a = PGROUNDUP oldsz + k * PGSIZE" "\<forall>x < a. PGROUNDDOWN x < newsz"
  shows "runs (deallocuvm pd newsz oldsz t) (\<lambda>_ u. vframe t u \<and> (\<exists>ys. uvm_ok u pd (ys @ zs) \<and> released pd ys t u)
     \<and> (\<forall>x < 2 ^ 32. pte u pd x = pte s pd x))"
proof (rule runs_mono[OF deallocuvm_spec[OF U less_imp_le[OF n(1)] n(2)]], elim conjE, intro conjI)
  fix r u
  assume c: "cleared pd (PGROUNDUP oldsz) newsz t u"
  show "\<forall>x < 2 ^ 32. pte u pd x = pte s pd x"
  proof (intro allI impI)
    fix x :: nat assume x: "x < 2 ^ 32"
    have cx: "pte u pd x = (if PGROUNDUP oldsz \<le> x \<and> PGROUNDDOWN x < newsz \<and> odd (pte t pd x) then 0 else pte t pd x)"
      using c x by (simp add: cleared_def)
    have gx: "if PGROUNDUP oldsz \<le> x \<and> x < a then odd (pte t pd x) \<and> PTE_FLAGS (pte t pd x) = 7
       else pte t pd x = pte s pd x" using g x unfolding grown_def by blast
    have K: "x < KERNBASE" if "PGROUNDDOWN x < newsz"
    proof (rule ccontr)
      assume "\<not> x < KERNBASE"
      then have "KERNBASE div PGSIZE * PGSIZE \<le> x div PGSIZE * PGSIZE" by (intro mult_le_mono1 div_le_mono) simp
      then show False using that n(1) by (simp add: pground_mult(1) param_defs)
    qed
    show "pte u pd x = pte s pd x"
    proof (cases "PGROUNDUP oldsz \<le> x \<and> x < a")
      case True
      then show ?thesis using cx gx a(2) K z by auto
    next
      case False
      then have "pte t pd x = pte s pd x" using gx by simp
      then show ?thesis using cx K z by auto
    qed
  qed
qed

lemma kfree_uvm:
  assumes U: "uvm_ok s pd xs" and v: "page_ok s v" "v \<notin> set xs" "\<not> owned s pd v"
    and f: "\<And>x. x < KERNBASE \<Longrightarrow> odd (pte s pd x) \<Longrightarrow> frame s pd x \<noteq> v"
  shows "runs (kfree v s) (\<lambda>_ t. uvm_ok t pd (v # xs) \<and> pte t pd = pte s pd \<and> owned t pd = owned s pd \<and> vframe s t)"
proof (rule runs_mono[OF kfree_spec[OF vm_okD(1)[OF uvm_okD(1)[OF U]] v(1,2)]], elim conjE)
  fix x t
  assume ft: "free_list t (v # xs)" and t: "t = s\<lparr>pmem := freed_page (pmem s) v (freelist s), freelist := v\<rparr>"
  note V = uvm_okD(1)[OF U]
  have e: "\<forall>w i. owned s pd w \<and> i < 1024 \<longrightarrow> ent t w i = ent s w i"
    unfolding t by (intro allI impI, elim conjE, rule ent_freed[OF v(1) owned_page[OF V]]) (use v in auto)
  have d: "\<forall>w \<in> set (v # xs). \<not> owned s pd w" using v(3) owned_not_free[OF V] by auto
  have k: "kend t = kend s" by (simp add: t)
  note S = vm_same[OF V e k ft d]
  have fr: "frame t pd = frame s pd" by (simp add: frame_def S(2) fun_eq_iff)
  have pg: "page_ok t = page_ok s" by (simp add: page_ok_def k fun_eq_iff)
  have "uvm_ok t pd (v # xs)"
  proof -
    have "\<forall>va < KERNBASE. odd (pte s pd va) \<longrightarrow> page_ok s (frame s pd va) \<and> frame s pd va \<notin> set (v # xs)
        \<and> \<not> owned s pd (frame s pd va)" using uvm_okD(2)[OF U] f by auto
    then show ?thesis unfolding uvm_ok_def S(2,3) fr pg using S(1) uvm_okD(3)[OF U] by blast
  qed
  moreover have "vframe s t" unfolding t vframe_def by blast
  ultimately show "uvm_ok t pd (v # xs) \<and> pte t pd = pte s pd \<and> owned t pd = owned s pd \<and> vframe s t" using S(2,3) by blast
qed

text \<open>One round of the loop.\<close>

lemma alloc_body_spec:
  assumes U: "uvm_ok t pd xs" and g: "grown pd (PGROUNDUP oldsz) a s t" and fl: "filled pd xs0 (PGROUNDUP oldsz) a s t" "set xs \<subseteq> set xs0" and z: "\<forall>x < KERNBASE. PGROUNDUP oldsz \<le> x \<longrightarrow> pte s pd x = 0"
    and n: "newsz < KERNBASE" "oldsz < newsz" and a: "a = PGROUNDUP oldsz + k * PGSIZE" "a < newsz" "\<forall>x < a. PGROUNDDOWN x < newsz"
  shows "runs (alloc_body pd oldsz newsz a t) (\<lambda>r u. vframe t u \<and> (\<exists>zs. uvm_ok u pd zs \<and> (r = None \<longrightarrow> length xs \<le> length zs + 2 \<and> set zs \<subseteq> set xs))
     \<and> (case r of None \<Rightarrow> grown pd (PGROUNDUP oldsz) (a + PGSIZE) s u \<and> filled pd xs0 (PGROUNDUP oldsz) (a + PGSIZE) s u | Some y \<Rightarrow> y = 0 \<and> length xs \<le> 1 \<and> (\<forall>x < 2 ^ 32. pte u pd x = pte s pd x)))"
proof (cases xs)
  case Nil
  note F = vm_okD(1)[OF uvm_okD(1)[OF U]]
  have "freelist t = 0" using chain_head[OF free_listD(1)[OF F]] Nil by simp
  then have "kalloc t = Ok 0 t" using kalloc_eq[OF F] Nil by simp
  then show ?thesis using rollback[OF U g z n a(1,3)] Nil by (auto simp: alloc_body_def elim!: runs_mono)
next
  case (Cons v ys)
  note K = kalloc_page[OF U[unfolded Cons]]
  let ?t1 = "t\<lparr>freelist := hd (ys @ [0])\<rparr>"
  let ?t2 = "zero_page v ?t1"
  have v0: "v \<noteq> 0" using K(5) by (auto simp: page_ok_def param_defs)
  have aK: "a < KERNBASE" "a < 2 ^ 32" "PGSIZE dvd a" using a(1,2) n(1) by (auto simp: param_defs PGROUNDUP_def)
  have even: "even (pte ?t2 pd a)"
    using g z a(1) aK(1,2) unfolding K(3) grown_def by (metis le_add1 less_irrefl even_zero)
  have body: "alloc_body pd oldsz newsz a t = kbind (map_one pd a (V2P v) (or PTE_W PTE_U) ?t2) (\<lambda>c s.
      if c then Ok None s else kbind (deallocuvm pd newsz oldsz s) (\<lambda>_ s. kbind (kfree v s) (\<lambda>_ s. Ok (Some 0) s)))"
    using v0 by (auto simp: alloc_body_def K(1) mappages_one[OF aK(3,1)] kbind_assoc fun_eq_iff
        intro!: arg_cong2[where f = kbind])
  have fv: "frame t pd x \<noteq> v" if "x < KERNBASE" "odd (pte t pd x)" for x
    using uvm_okD(2)[OF U that] Cons by auto
  show ?thesis unfolding body runs_kbind
  proof (rule runs_mono[OF map_one_spec[OF K(2) aK(2) even new_pte(4)[OF K(5)]]], elim conjE)
    fix c u
    assume f: "vframe ?t2 u" and h: "if c then vm_next ?t2 pd ys u \<and> mem_only (owned u pd) ?t2 u \<and> (\<forall>va < 2 ^ 32. pte u pd va =
        (if va div PGSIZE = a div PGSIZE then or (or (V2P v) (or PTE_W PTE_U)) PTE_P else pte ?t2 pd va)) else u = ?t2 \<and> ys = []"
    have tu: "vframe t u" by (rule vframe_trans[OF K(8) f])
    show "runs (if c then Ok None u else kbind (deallocuvm pd newsz oldsz u) (\<lambda>_ s. kbind (kfree v s) (\<lambda>_ s. Ok (Some 0) s)))
        (\<lambda>r u. vframe t u \<and> (\<exists>zs. uvm_ok u pd zs \<and> (r = None \<longrightarrow> length xs \<le> length zs + 2 \<and> set zs \<subseteq> set xs)) \<and> (case r of None \<Rightarrow> grown pd (PGROUNDUP oldsz) (a + PGSIZE) s u \<and> filled pd xs0 (PGROUNDUP oldsz) (a + PGSIZE) s u
          | Some y \<Rightarrow> y = 0 \<and> length xs \<le> 1 \<and> (\<forall>x < 2 ^ 32. pte u pd x = pte s pd x)))"
    proof (cases c)
      case True
      then have p: "pte u pd x = (if x div PGSIZE = a div PGSIZE then or (or (V2P v) (or PTE_W PTE_U)) PTE_P else pte t pd x)"
        if "x < 2 ^ 32" for x using h that by (simp add: K(3))
      obtain zs where Z: "vm_ok u pd zs" and len: "length ys \<le> length zs + 1" "set zs \<subseteq> set ys" and sub: "\<forall>w. owned u pd w \<or> w \<in> set zs \<longrightarrow> owned ?t2 pd w \<or> w \<in> set ys"
        using h True unfolding vm_next_def by auto
      have sub': "\<forall>w. owned u pd w \<or> w \<in> set zs \<longrightarrow> owned t pd w \<or> w \<in> set xs" using sub unfolding K(4) Cons by auto
      have nv: "\<not> owned u pd v" "v \<notin> set zs" using sub K(4,6,7) by auto
      have vx: "v \<in> set xs" using Cons by simp
      have pu: "pte u pd x = pte t pd x \<or> x div PGSIZE = a div PGSIZE \<and> frame u pd x = v" if "x < KERNBASE" "odd (pte u pd x)" for x
        using p[OF uvm_KERNBASE[OF that(1)]] new_pte(3)[OF K(5)] by (auto simp: frame_def)
      have Uu: "uvm_ok u pd zs" by (rule uvm_add[OF U Z vframeD(1)[OF tu] sub' vx nv pu])
      have pm: "if x div PGSIZE = a div PGSIZE then frame u pd x = v else pte u pd x = pte t pd x"
        if "x < KERNBASE" "odd (pte u pd x)" for x
        using p[OF uvm_KERNBASE[OF that(1)]] new_pte(3)[OF K(5)] by (auto simp: frame_def)
      have mo: "mem_only (owned u pd) ?t2 u" using h True by simp
      have "pmem ?t2 = pmem (zero_page v t)" by (simp add: zero_page_def)
      then have "filled pd xs0 (PGROUNDUP oldsz) (a + PGSIZE) s u"
        by (rule filled_step[OF Uu fl(1) K(5) vx fl(2) U vframeD(1)[OF tu] _ mo pm aK(3)]) (simp_all add: a(1))
      moreover note Uu
      moreover have "grown pd (PGROUNDUP oldsz) (a + PGSIZE) s u"
        unfolding grown_def
      proof (intro allI impI)
        fix x :: nat assume x: "x < 2 ^ 32"
        have gx: "if PGROUNDUP oldsz \<le> x \<and> x < a then odd (pte t pd x) \<and> PTE_FLAGS (pte t pd x) = 7 else pte t pd x = pte s pd x"
          using g x unfolding grown_def by blast
        have same: "x div PGSIZE = a div PGSIZE \<longleftrightarrow> a \<le> x \<and> x < a + PGSIZE" using in_page_div[OF aK(3)] by blast
        have lo: "PGROUNDUP oldsz \<le> a" using a(1) by simp
        show "if PGROUNDUP oldsz \<le> x \<and> x < a + PGSIZE then odd (pte u pd x) \<and> PTE_FLAGS (pte u pd x) = 7 else pte u pd x = pte s pd x"
          using p[OF x] gx same lo new_pte(1,2)[OF K(5)] by (cases "x div PGSIZE = a div PGSIZE") auto
      qed
      ultimately show ?thesis using True tu len Cons by (auto simp: One_nat_def intro!: exI[of _ zs])
    next
      case False
      then have u: "u = ?t2" "ys = []" using h by simp_all
      have pu: "pte u pd = pte t pd" and ou: "owned u pd = owned t pd" using K(3,4) by (simp_all add: u(1))
      have fu: "frame u pd = frame t pd" by (simp add: frame_def pu fun_eq_iff)
      have pg: "page_ok u = page_ok t" by (simp add: page_ok_def vframeD(1)[OF tu] fun_eq_iff)
      have Vu: "vm_ok u pd []" using K(2) u(1) unfolding u(2) by simp
      have Uu: "uvm_ok u pd []"
      proof -
        have "\<forall>va < KERNBASE. odd (pte t pd va) \<longrightarrow> page_ok t (frame t pd va) \<and> frame t pd va \<notin> set []
            \<and> \<not> owned t pd (frame t pd va)" using uvm_okD(2)[OF U] by auto
        then show ?thesis unfolding uvm_ok_def pu fu pg ou using Vu uvm_okD(3)[OF U] by blast
      qed
      have gu: "grown pd (PGROUNDUP oldsz) a s u" using g by (simp add: grown_def pu)
      show ?thesis unfolding if_not_P[OF False] runs_kbind
      proof (rule runs_mono[OF rollback[OF Uu gu z n a(1,3)]], elim conjE exE)
        fix r w ws
        assume fw: "vframe u w" and pw: "\<forall>x < 2 ^ 32. pte w pd x = pte s pd x" and Uw: "uvm_ok w pd (ws @ [])" and rel: "released pd ws u w"
        have pgw: "page_ok w v" using K(5) vframeD(6)[OF vframe_trans[OF tu fw]] by simp
        have nw: "v \<notin> set (ws @ [])" using rel fv unfolding released_def pu fu by auto
        have ow: "\<not> owned w pd v" using rel K(6) unfolding released_def ou by simp
        have fw': "frame w pd x \<noteq> v" if x: "x < KERNBASE" "odd (pte w pd x)" for x
        proof -
          have "pte w pd x = pte s pd x" using pw uvm_KERNBASE[OF x(1)] by blast
          then have "PGROUNDUP oldsz \<le> x \<longrightarrow> False" using z x by auto
          then have "pte t pd x = pte w pd x" using g uvm_KERNBASE[OF x(1)] pw unfolding grown_def by auto
          then show ?thesis using fv[OF x(1)] x(2) frame_cong[of t pd x w] by simp
        qed
        show "runs (kfree v w) (\<lambda>_ s'. runs (Ok (Some 0) s') (\<lambda>r u. vframe t u \<and> (\<exists>zs. uvm_ok u pd zs \<and> (r = None \<longrightarrow> length xs \<le> length zs + 2 \<and> set zs \<subseteq> set xs))
           \<and> (case r of None \<Rightarrow> grown pd (PGROUNDUP oldsz) (a + PGSIZE) s u \<and> filled pd xs0 (PGROUNDUP oldsz) (a + PGSIZE) s u | Some y \<Rightarrow> y = 0 \<and> length xs \<le> 1 \<and> (\<forall>x < 2 ^ 32. pte u pd x = pte s pd x))))"
          by (rule runs_mono[OF kfree_uvm[OF Uw pgw nw ow fw']]) (use pw vframe_trans[OF vframe_trans[OF tu fw]] Cons u(2) in auto)
      qed
    qed
  qed
qed

lemma pages_from_nth:
  assumes "i < length (pages_from lo n)"
  shows "pages_from lo n ! i = lo + i * PGSIZE" "lo + i * PGSIZE < n"
proof -
  have i: "i < (n - lo + (PGSIZE - 1)) div PGSIZE" using assms by (simp add: pages_from_def)
  then show "pages_from lo n ! i = lo + i * PGSIZE" by (simp add: pages_from_def)
  have P: "(0 :: nat) < PGSIZE" by (simp add: param_defs)
  have "(i + 1) * PGSIZE \<le> n - lo + (PGSIZE - 1)"
    using i less_eq_div_iff_mult_less_eq[OF P, of "i + 1" "n - lo + (PGSIZE - 1)"] by simp
  then have "i * PGSIZE + 1 \<le> n - lo" using P by (simp add: add_mult_distrib)
  then show "lo + i * PGSIZE < n" by linarith
qed

text \<open>The new region is the pages that start at or after \<open>lo\<close> and before \<open>n\<close>.\<close>

lemma pages_from_all:
  assumes "PGSIZE dvd lo" "lo \<le> x"
  shows "x < lo + length (pages_from lo n) * PGSIZE \<longleftrightarrow> PGROUNDDOWN x < n"
proof -
  have P: "(0 :: nat) < PGSIZE" by (simp add: param_defs)
  obtain q where q: "lo = q * PGSIZE" using assms(1) by (auto simp: dvd_def mult.commute)
  let ?k = "(n - lo + (PGSIZE - 1)) div PGSIZE"
  have l: "length (pages_from lo n) = ?k" by (simp add: pages_from_def)
  have qx: "q \<le> x div PGSIZE" using assms(2) less_eq_div_iff_mult_less_eq[OF P, of q x] by (simp add: q)
  then obtain j where j: "x div PGSIZE = q + j" using le_Suc_ex by blast
  have "x < lo + ?k * PGSIZE \<longleftrightarrow> x div PGSIZE < q + ?k"
    using div_less_iff_less_mult[OF P, of x "q + ?k"] by (simp add: q add_mult_distrib)
  also have "\<dots> \<longleftrightarrow> j < ?k" by (simp add: j)
  also have "\<dots> \<longleftrightarrow> (j + 1) * PGSIZE \<le> n - lo + (PGSIZE - 1)"
    using less_eq_div_iff_mult_less_eq[OF P, of "j + 1" "n - lo + (PGSIZE - 1)"] by (simp add: Suc_le_eq[symmetric] One_nat_def)
  also have "\<dots> \<longleftrightarrow> j * PGSIZE < n - lo" using P by (simp add: add_mult_distrib) linarith
  also have "\<dots> \<longleftrightarrow> PGROUNDDOWN x < n" by (simp add: pground_mult(1) j add_mult_distrib q) linarith
  finally show ?thesis unfolding l .
qed

text \<open>
  \<open>allocuvm\<close> maps new pages for all addresses up to the new size, or leaves the mappings as they were
  when memory runs out.
\<close>

lemma allocuvm_spec:
  assumes U: "uvm_ok s pd xs" and z: "\<forall>x < KERNBASE. PGROUNDUP oldsz \<le> x \<longrightarrow> pte s pd x = 0"
    and n: "newsz < KERNBASE" "oldsz < newsz"
  shows "runs (allocuvm pd oldsz newsz s) (\<lambda>r t. vframe s t \<and> (\<exists>zs. uvm_ok t pd zs) \<and>
     (r = newsz \<and> (\<forall>x < 2 ^ 32. if PGROUNDUP oldsz \<le> x \<and> PGROUNDDOWN x < newsz
         then odd (pte t pd x) \<and> PTE_FLAGS (pte t pd x) = 7 else pte t pd x = pte s pd x)
        \<and> (\<forall>x < KERNBASE. odd (pte t pd x) \<longrightarrow> (if PGROUNDUP oldsz \<le> x \<and> PGROUNDDOWN x < newsz
         then frame t pd x \<in> set xs \<and> ubyte t pd x = 0 else ubyte t pd x = ubyte s pd x))
      \<or> r = 0 \<and> length xs < 2 * length (pages_from (PGROUNDUP oldsz) newsz) \<and> (\<forall>x < 2 ^ 32. pte t pd x = pte s pd x)))"
proof -
  let ?lo = "PGROUNDUP oldsz"
  let ?ps = "pages_from ?lo newsz"
  let ?Q = "\<lambda>r t. vframe s t \<and> (\<exists>zs. uvm_ok t pd zs) \<and> (case r of None \<Rightarrow> grown pd ?lo (?lo + length ?ps * PGSIZE) s t \<and> filled pd xs ?lo (?lo + length ?ps * PGSIZE) s t
      | Some y \<Rightarrow> y = 0 \<and> length xs < 2 * length ?ps \<and> (\<forall>x < 2 ^ 32. pte t pd x = pte s pd x))"
  have "runs (kfind ?ps (alloc_body pd oldsz newsz) s) ?Q"
  proof (rule kfind_runs[where I = "\<lambda>i t. vframe s t \<and> (\<exists>zs. uvm_ok t pd zs \<and> length xs \<le> length zs + 2 * i \<and> set zs \<subseteq> set xs)
      \<and> grown pd ?lo (?lo + i * PGSIZE) s t \<and> filled pd xs ?lo (?lo + i * PGSIZE) s t"])
    show "vframe s s \<and> (\<exists>zs. uvm_ok s pd zs \<and> length xs \<le> length zs + 2 * 0 \<and> set zs \<subseteq> set xs)
        \<and> grown pd ?lo (?lo + 0 * PGSIZE) s s \<and> filled pd xs ?lo (?lo + 0 * PGSIZE) s s"
      using U by (auto simp: grown_def filled_def)
    show "?Q None t" if "vframe s t \<and> (\<exists>zs. uvm_ok t pd zs \<and> length xs \<le> length zs + 2 * length ?ps \<and> set zs \<subseteq> set xs)
        \<and> grown pd ?lo (?lo + length ?ps * PGSIZE) s t \<and> filled pd xs ?lo (?lo + length ?ps * PGSIZE) s t" for t
      using that by auto
    fix i t
    assume i: "i < length ?ps" and I: "vframe s t \<and> (\<exists>zs. uvm_ok t pd zs \<and> length xs \<le> length zs + 2 * i \<and> set zs \<subseteq> set xs)
      \<and> grown pd ?lo (?lo + i * PGSIZE) s t \<and> filled pd xs ?lo (?lo + i * PGSIZE) s t"
    then obtain zs where Ut: "uvm_ok t pd zs" and len: "length xs \<le> length zs + 2 * i" and zx: "set zs \<subseteq> set xs" by blast
    from I have gt: "grown pd ?lo (?lo + i * PGSIZE) s t" and ft: "filled pd xs ?lo (?lo + i * PGSIZE) s t" by blast+
    note p = pages_from_nth[OF i]
    have lt: "\<forall>x < ?lo + i * PGSIZE. PGROUNDDOWN x < newsz"
      using p(2) pgrounddown_le(2) by (meson le_less_trans less_trans)
    show "runs (alloc_body pd oldsz newsz (?ps ! i) t) (\<lambda>r u. case r of
        None \<Rightarrow> vframe s u \<and> (\<exists>zs. uvm_ok u pd zs \<and> length xs \<le> length zs + 2 * Suc i \<and> set zs \<subseteq> set xs)
        \<and> grown pd ?lo (?lo + Suc i * PGSIZE) s u \<and> filled pd xs ?lo (?lo + Suc i * PGSIZE) s u
      | Some y \<Rightarrow> ?Q (Some y) u)"
      unfolding p(1)
    proof (rule runs_mono[OF alloc_body_spec[OF Ut gt ft zx z n refl p(2) lt]], goal_cases)
      case (1 r u)
      have e: "?lo + i * PGSIZE + PGSIZE = ?lo + Suc i * PGSIZE" by simp
      have f: "vframe s u" using 1 I vframe_trans[of s t u] by blast
      obtain ws where ws: "uvm_ok u pd ws" "r = None \<longrightarrow> length zs \<le> length ws + 2 \<and> set ws \<subseteq> set zs" using 1 by blast
      show ?case
      proof (cases r)
        case None
        then have "length xs \<le> length ws + 2 * Suc i" "set ws \<subseteq> set xs" using ws(2) len zx by auto
        then show ?thesis using None 1 f ws(1) unfolding e by auto
      next
        case (Some y)
        then have "length xs < 2 * length ?ps" using 1 len i by simp
        then show ?thesis using Some 1 f ws(1) by auto
      qed
    qed
  qed
  moreover have "\<not> newsz \<ge> KERNBASE" "\<not> newsz < oldsz" using n by simp_all
  moreover have "(if ?lo \<le> x \<and> x < ?lo + length ?ps * PGSIZE then A else B) = (if ?lo \<le> x \<and> PGROUNDDOWN x < newsz then A else B)"
    for x and A B :: bool using pages_from_all[OF pgroundup_dvd, of oldsz x newsz] by (cases "?lo \<le> x") auto
  ultimately show ?thesis
    unfolding allocuvm_eq grown_def filled_def by (auto split: option.splits elim!: runs_mono)
qed

subsection \<open>growproc\<close>

text \<open>
  \<open>growproc\<close> treats the new size 0 as the failure of \<open>deallocuvm\<close>: the memory of the process has been
  freed, but its size stays and the call fails.
\<close>

lemma growproc_zero:
  assumes U: "uvm_ok s (pgdir (cur s)) xs" and c: "curproc s = Some c" and n: "0 < sz (cur s)" "sz (cur s) \<le> KERNBASE"
  shows "runs (growproc (- int (sz (cur s))) s) (\<lambda>r t. r = - 1 \<and> vframe s t
     \<and> (\<exists>ys. uvm_ok t (pgdir (cur s)) (ys @ xs)) \<and> (\<forall>va < sz (cur s). even (pte t (pgdir (cur s)) va)))"
proof -
  let ?n = "sz (cur s)" and ?pd = "pgdir (cur s)"
  have n32: "?n < 2 ^ 32" using n(2) by (simp add: param_defs)
  have "uint32 (- int ?n) = 2 ^ 32 - ?n"
  proof -
    have "(- int ?n) mod 2 ^ 32 = 2 ^ 32 - int ?n" using n(1) n32 by (simp add: zmod_zminus1_eq_if)
    then show ?thesis using n32 by (simp add: uint32_def nat_diff_distrib)
  qed
  then have z: "uadd ?n (uint32 (- int ?n)) = 0" using n32 by (simp add: uadd_def)
  have cr: "procs s ! c = cur s" using c by (simp add: cur_def)
  have e: "growproc (- int ?n) s = kbind (deallocuvm ?pd ?n 0 s) (\<lambda>v s. if v = 0 then Ok (- 1) s
     else kbind (switchuvm c (upd_proc c (\<lambda>q. q\<lparr>sz := v\<rparr>) s)) (\<lambda>_ s. Ok 0 s))"
    using n(1) by (simp add: growproc_def c cr Let_def z)
  have up: "PGROUNDUP 0 = 0" by (simp add: PGROUNDUP_def uadd_def param_defs)
  show ?thesis unfolding e runs_kbind
  proof (rule runs_mono[OF deallocuvm_spec[OF U n(2,1)]], elim conjE exE)
    fix r :: nat and t ys
    assume r: "r = 0" and f: "vframe s t" and u: "uvm_ok t ?pd (ys @ xs)" and cl: "cleared ?pd (PGROUNDUP 0) ?n s t"
    have "even (pte t ?pd va)" if "va < ?n" for va
    proof -
      have "PGROUNDDOWN va < ?n" using that pgrounddown_le(2)[of va] by linarith
      then show ?thesis using cl that n32 unfolding cleared_def up by simp
    qed
    then show "runs (if r = 0 then Ok (- 1) t else kbind (switchuvm c (upd_proc c (\<lambda>q. q\<lparr>sz := r\<rparr>) t)) (\<lambda>_ s. Ok 0 s))
      (\<lambda>r t. r = - 1 \<and> vframe s t \<and> (\<exists>ys. uvm_ok t ?pd (ys @ xs)) \<and> (\<forall>va < ?n. even (pte t ?pd va)))"
      using r f u by auto
  qed
qed

subsection \<open>Accesses to user memory\<close>

text \<open>A change within a page of the process does not change its page table.\<close>

lemma user_write:
  assumes U: "uvm_ok s pd xs" and x: "x < KERNBASE" "odd (pte s pd x)" and m: "mem_only (\<lambda>w. w = frame s pd x) s t"
    and f: "vframe s t" "freelist t = freelist s"
  shows "uvm_ok t pd xs" "pte t pd = pte s pd"
proof -
  note V = uvm_okD(1)[OF U] and F = uvm_okD(2)[OF U x] and fr = vframeD[OF f(1)]
  have e: "ent t w i = ent s w i" if w: "page_ok s w" "w \<noteq> frame s pd x" and i: "i < 1024" for w i
  proof -
    have "pmem t (V2P w + 4 * i + j) = pmem s (V2P w + 4 * i + j)" if "j < 4" for j
    proof -
      have "in_page w (V2P w + 4 * i + j)" using i that by (simp add: in_page_def param_defs)
      then have "\<not> in_page (frame s pd x) (V2P w + 4 * i + j)" using in_page_unique[OF w(1) conjunct1[OF F]] w(2) by blast
      then show ?thesis using m unfolding mem_only_def by blast
    qed
    then have "rd32 (pmem t) (V2P w + 4 * i) = rd32 (pmem s) (V2P w + 4 * i)" by (rule rd32_cong)
    then show ?thesis by (simp add: ent_def kread_def V2P_slot[OF w(1) i])
  qed
  have o: "\<forall>w i. owned s pd w \<and> i < 1024 \<longrightarrow> ent t w i = ent s w i" using e owned_page[OF V] F by blast
  have "\<forall>w \<in> set xs. ent t w 0 = ent s w 0" using e[of _ 0] free_listD(3)[OF vm_okD(1)[OF V]] F by auto
  then have fl: "free_list t xs" using free_list_frame[OF vm_okD(1)[OF V] _ f(2) fr(1,2)] by blast
  have d: "\<forall>w \<in> set xs. \<not> owned s pd w" using owned_not_free[OF V] by auto
  note S = vm_same[OF V o fr(1) fl d]
  show "pte t pd = pte s pd" by (rule S(2))
  have fe: "frame t pd = frame s pd" by (simp add: frame_def S(2) fun_eq_iff)
  show "uvm_ok t pd xs" unfolding uvm_ok_def S(2,3) fe fr(6) using S(1) uvm_okD(2,3)[OF U] by blast
qed

lemma uread_ok:
  assumes "vm_ok s pd xs" "cr3 s = V2P pd"
  shows "\<forall>i < n. odd (pte s pd (va + i)) \<Longrightarrow> \<exists>bs. length bs = n \<and> uread va n s = Ok bs s"
proof (induction n arbitrary: va)
  case (Suc n)
  have "\<forall>i < n. odd (pte s pd (va + 1 + i))" using Suc.prems by (metis Suc_less_eq add.assoc plus_1_eq_Suc)
  then obtain bs where bs: "length bs = n" "uread (va + 1) n s = Ok bs s" using Suc.IH[of "va + 1"] by blast
  have "odd (pte s pd va)" using Suc.prems by (metis add_0_right zero_less_Suc)
  then show ?case using bs by (auto simp: uload_def mmu_pte[OF assms])
qed simp

lemma uwrite_ok:
  assumes "uvm_ok s pd xs" "cr3 s = V2P pd"
    "\<forall>i < length bs. va + i < KERNBASE \<and> odd (pte s pd (va + i)) \<and> and (pte s pd (va + i)) PTE_W \<noteq> 0"
  shows "\<exists>t. uwrite va bs s = Ok () t \<and> vframe s t"
  using assms
proof (induction bs arbitrary: va s)
  case (Cons b bs)
  let ?a = "PTE_ADDR (pte s pd va) + va mod PGSIZE"
  let ?t = "s\<lparr>pmem := (pmem s)(?a := b)\<rparr>"
  have v: "va < KERNBASE" "odd (pte s pd va)" "and (pte s pd va) PTE_W \<noteq> 0" using Cons.prems(3) by fastforce+
  have w: "and (and q (or PTE_W PTE_U)) PTE_W = and q PTE_W" for q by (simp add: and.assoc param_defs)
  have "ustore va b s = Ok () ?t" using v by (simp add: ustore_def mmu_access_pte[OF uvm_okD(1)[OF Cons.prems(1)] Cons.prems(2)] w)
  moreover have m: "mem_only (\<lambda>w. w = frame s pd va) s ?t" using in_frame[of s pd va] by (simp add: mem_only_def)
  have "vframe s ?t" "freelist ?t = freelist s" by simp_all
  note W = user_write[OF Cons.prems(1) v(1,2) m this]
  have "\<forall>i < length bs. va + 1 + i < KERNBASE \<and> odd (pte ?t pd (va + 1 + i)) \<and> and (pte ?t pd (va + 1 + i)) PTE_W \<noteq> 0"
    unfolding W(2) using Cons.prems(3) by (metis Suc_less_eq add.assoc plus_1_eq_Suc length_Cons)
  then obtain u where "uwrite (va + 1) bs ?t = Ok () u" "vframe ?t u" using Cons.IH[OF W(1)] Cons.prems(2) by auto
  ultimately show ?case using vframe_trans[of s ?t u] by auto
qed simp

text \<open>\<open>copyout\<close> within a page of the process.\<close>

lemma copyout_page:
  assumes U: "uvm_ok s pd xs" and x: "PGSIZE dvd x" "x < KERNBASE" "odd (pte s pd x)" "and (pte s pd x) PTE_U \<noteq> 0"
    and bs: "bs \<noteq> []" "length bs \<le> PGSIZE"
  shows "\<exists>t. copyout pd x bs s = Ok 0 t \<and> vframe s t \<and> uvm_ok t pd xs \<and> pte t pd = pte s pd"
proof -
  let ?t = "s\<lparr>pmem := put_region (pmem s) (V2P (frame s pd x)) bs\<rparr>"
  have d: "PGROUNDDOWN x = x" using x(1) by (simp add: pground_mult(1))
  have o: "odd (ent s pd (PDX x))" using pte_odd[OF x(3)] by simp
  have p: "frame s pd x \<noteq> 0" using uvm_okD(2)[OF U x(2,3)] by (auto simp: page_ok_def param_defs)
  have "tab s pd (PDX x) + 4 * PTX x \<noteq> 0" using tab_pos[OF uvm_okD(1)[OF U] o] by simp
  then have "uva2ka pd x s = Ok (frame s pd x) s"
    using x(3,4) by (simp add: uva2ka_def walk_noalloc o pte_kread[OF o] frame_def kguard_def)
  then have "copyout pd x bs s = copyout pd (uadd x PGSIZE) (drop (length bs) bs) ?t"
    using bs p by (subst copyout.simps) (simp add: d Let_def)
  then have "copyout pd x bs s = Ok 0 ?t" by (simp add: copyout.simps[of _ _ "[]"])
  moreover have "mem_only (\<lambda>w. w = frame s pd x) s ?t"
    using bs(2) by (auto simp: mem_only_def put_region_def in_page_def)
  from user_write[OF U x(2,3) this] have "uvm_ok ?t pd xs" "pte ?t pd = pte s pd" by simp_all
  ultimately show ?thesis by (intro exI[of _ ?t]) simp
qed

end
