(* ===== verification/VmProps.thy ===== *)
theory VmProps
  imports VmUser FsExample
begin

text \<open>
  The properties of virtual memory, stated over the addresses and rights the hardware computes (\<open>mmu_access\<close>, \<open>mmu\<close>).
\<close>

subsection \<open>An example address space\<close>

definition pd_ex :: nat where "pd_ex = 0x80300000"

text \<open>Zeroed memory, a process whose page directory is empty and whose size is one page.\<close>

definition vm_ex :: kst where
  "vm_ex = fs_example\<lparr>procs := (procs fs_example)[0 := (procs fs_example ! 0)\<lparr>pgdir := pd_ex, sz := PGSIZE\<rparr>], cr3 := V2P pd_ex\<rparr>"

lemma vm_ex_fields:
  "curproc vm_ex = Some 0" "pgdir (cur vm_ex) = pd_ex" "sz (cur vm_ex) = PGSIZE" "cr3 vm_ex = V2P pd_ex"
  "kend vm_ex = 0x80115000" "held vm_ex = []" "freelist vm_ex = 0" "pmem vm_ex = (\<lambda>_. 0)"
  by (simp_all add: vm_ex_def fs_example_def binit_kernel0 upd_lg_def) (simp_all add: kernel0_def cur_def)

lemma vm_ex_ent: "ent vm_ex v i = 0"
  by (simp add: ent_def kread_def vm_ex_fields rd32_zero)

lemma vm_ex_ok: "uvm_ok vm_ex pd_ex []"
proof -
  have "free_list vm_ex []" by (simp add: free_list_def vm_ex_fields param_defs)
  moreover have "page_ok vm_ex pd_ex" by (simp add: page_ok_def vm_ex_fields pd_ex_def param_defs)
  ultimately have "vm_ok vm_ex pd_ex []" by (simp add: vm_ok_def vm_ex_ent)
  then show ?thesis by (simp add: uvm_ok_def pte_def vm_ex_ent)
qed

text \<open>The same with two free pages.\<close>

lemma vm_ex_pages:
  obtains s where "uvm_ok s pd_ex [0x80402000, 0x80401000]" "vframe vm_ex s" "\<forall>va. pte s pd_ex va = 0"
proof -
  let ?a = "0x80401000 :: nat" and ?b = "0x80402000 :: nat"
  have pg: "page_ok vm_ex ?a" "page_ok vm_ex ?b" by (simp_all add: page_ok_def vm_ex_fields param_defs)
  have z: "pte vm_ex pd_ex va = 0" for va by (simp add: pte_def vm_ex_ent)
  have o: "\<not> owned vm_ex pd_ex ?a" "\<not> owned vm_ex pd_ex ?b" by (simp_all add: owned_def vm_ex_ent pd_ex_def)
  have fr: "\<And>x. x < KERNBASE \<Longrightarrow> odd (pte vm_ex pd_ex x) \<Longrightarrow> frame vm_ex pd_ex x \<noteq> ?a" by (simp add: z)
  from kfree_uvm[OF vm_ex_ok pg(1) _ o(1) fr] obtain t where
    t: "uvm_ok t pd_ex [?a]" "pte t pd_ex = pte vm_ex pd_ex" "owned t pd_ex = owned vm_ex pd_ex" "vframe vm_ex t"
    by (auto simp: runs_iff)
  have pb: "page_ok t ?b" using pg(2) vframeD(6)[OF t(4)] by simp
  have ob: "\<not> owned t pd_ex ?b" using o(2) by (simp add: t(3))
  have fr': "\<And>x. x < KERNBASE \<Longrightarrow> odd (pte t pd_ex x) \<Longrightarrow> frame t pd_ex x \<noteq> ?b" by (simp add: z t(2))
  from kfree_uvm[OF t(1) pb _ ob fr'] obtain u where
    u: "uvm_ok u pd_ex [?b, ?a]" "pte u pd_ex = pte t pd_ex" "vframe t u" by (auto simp: runs_iff)
  show ?thesis using that[OF u(1) vframe_trans[OF t(4) u(3)]] z by (simp add: u(2) t(2))
qed

subsection \<open>mappages\<close>

lemma mmu_access_cr3:
  assumes "vm_ok s pd xs"
  shows "mmu_access (s\<lparr>cr3 := V2P pd\<rparr>) va = (if odd (pte s pd va)
    then Some (PTE_ADDR (pte s pd va) + va mod PGSIZE, and (pte s pd va) (or PTE_W PTE_U)) else None)"
proof -
  let ?s = "s\<lparr>cr3 := V2P pd\<rparr>"
  have e: "ent ?s = ent s" "tab ?s = tab s" "pte ?s = pte s" by (simp_all add: ent_def tab_def pte_def kread_def fun_eq_iff)
  have "vm_ok ?s pd xs" using assms unfolding vm_ok_def e by (simp add: free_list_def page_ok_def)
  from mmu_access_pte[OF this] show ?thesis by (simp add: e)
qed

lemma mmu_cr3:
  assumes "vm_ok s pd xs"
  shows "mmu (s\<lparr>cr3 := V2P pd\<rparr>) va = (if odd (pte s pd va) then Some (PTE_ADDR (pte s pd va) + va mod PGSIZE) else None)"
  by (simp add: mmu_def mmu_access_cr3[OF assms])

text \<open>The rights in an entry are those it was given.\<close>

lemma entry_rights:
  assumes "PGSIZE dvd q"
  shows "and (or (or q perm) PTE_P) (or PTE_W PTE_U) = and perm (or PTE_W PTE_U)"
proof -
  obtain k where k: "q = push_bit 12 k" using assms by (auto simp: dvd_def push_bit_eq_mult param_defs)
  have "and (push_bit 12 k) (take_bit 12 n) = (0 :: nat)" for n by (simp add: bit_eq_iff bit_simps)
  from this[of 6] have z: "and q 6 = 0" by (simp add: k take_bit_eq_mod)
  have "and (or (or q perm) 1) 6 = or (or (and q 6) (and perm 6)) (and 1 6)"
    by (rule bit_eqI) (simp only: bit_and_iff bit_or_iff, blast)
  then show ?thesis by (simp add: z param_defs)
qed

lemma odd_or_P: "odd (or x PTE_P)"
  by (simp add: PTE_P_def even_or_iff)

lemma mapped_addr:
  assumes "PGSIZE dvd pa" "PGSIZE dvd va" "va \<le> x" "perm < PGSIZE"
  shows "PTE_ADDR (or (or (pa + (PGROUNDDOWN x - va)) perm) PTE_P) + x mod PGSIZE = pa + (x - va)"
proof -
  have "PGSIZE dvd pa + (PGROUNDDOWN x - va)" using assms(1,2) pground_mult(2) by (intro dvd_add dvd_diff_nat)
  then have m: "(pa + (PGROUNDDOWN x - va)) mod PGSIZE = 0" by simp
  have "or perm PTE_P < 4096" using or_flags[of perm PTE_P] assms(4) by (simp add: param_defs)
  then have "PTE_ADDR (or (or (pa + (PGROUNDDOWN x - va)) perm) PTE_P) = pa + (PGROUNDDOWN x - va)"
    using PTE_ADDR_or[OF m] by (simp add: or.assoc)
  moreover have "PGROUNDDOWN x + x mod PGSIZE = x" unfolding PGROUNDDOWN_def by (rule div_mult_mod_eq)
  moreover have "va \<le> PGROUNDDOWN x"
  proof -
    have "va div PGSIZE * PGSIZE \<le> x div PGSIZE * PGSIZE" using assms(3) by (intro mult_le_mono1 div_le_mono)
    then show ?thesis using assms(2) by (simp add: pground_mult(1))
  qed
  ultimately show ?thesis by linarith
qed

text \<open>
  C25. \<open>mappages\<close> of a page-aligned region that is not mapped yet: when it returns 0, the hardware
  translates every address of the region to the physical address at the same distance from \<open>pa\<close> and
  allows there exactly what \<open>perm\<close> allows, writing and access in user mode or not; it treats every other
  address as before. \<open>mappages\<close> returns -1 only when no free page is left for a page table. In both
  cases the page tables stay well formed: tables are distinct pages, and none of them is free.
\<close>

theorem mappages_maps:
  assumes "vm_ok s pd xs" "PGSIZE dvd va" "0 < m" "va + m * PGSIZE \<le> 2 ^ 32" "m * PGSIZE < 2 ^ 32"
    "PGSIZE dvd pa" "pa + m * PGSIZE \<le> 2 ^ 32" "perm < PGSIZE"
    "\<forall>x. va \<le> x \<and> x < va + m * PGSIZE \<longrightarrow> mmu (s\<lparr>cr3 := V2P pd\<rparr>) x = None"
  shows "runs (mappages pd va (m * PGSIZE) pa perm s) (\<lambda>r t. \<exists>ys. vm_ok t pd ys
     \<and> (r = 0 \<and> (\<forall>x < 2 ^ 32. mmu_access (t\<lparr>cr3 := V2P pd\<rparr>) x =
           (if va \<le> x \<and> x < va + m * PGSIZE then Some (pa + (x - va), and perm (or PTE_W PTE_U))
            else mmu_access (s\<lparr>cr3 := V2P pd\<rparr>) x))
        \<or> r = - 1 \<and> ys = []))"
proof -
  have "\<forall>x. va \<le> x \<and> x < va + m * PGSIZE \<longrightarrow> even (pte s pd x)"
    using assms(9) by (auto simp: mmu_cr3[OF assms(1)] split: if_splits)
  note M = mappages_spec[OF assms(1-8) this]
  show ?thesis
  proof (rule runs_mono[OF M], elim conjE exE)
    fix r :: int and t ys
    assume V: "vm_ok t pd ys" and h: "r = 0 \<and> (\<forall>x < 2 ^ 32. pte t pd x = (if va \<le> x \<and> x < va + m * PGSIZE
         then or (or (pa + (PGROUNDDOWN x - va)) perm) PTE_P else pte s pd x)) \<or> r = - 1 \<and> ys = []"
    have "mmu_access (t\<lparr>cr3 := V2P pd\<rparr>) x =
           (if va \<le> x \<and> x < va + m * PGSIZE then Some (pa + (x - va), and perm (or PTE_W PTE_U))
            else mmu_access (s\<lparr>cr3 := V2P pd\<rparr>) x)"
      if r: "r = 0" and x: "x < 2 ^ 32" for x
    proof -
      have p: "pte t pd x = (if va \<le> x \<and> x < va + m * PGSIZE
         then or (or (pa + (PGROUNDDOWN x - va)) perm) PTE_P else pte s pd x)" using h r x by simp
      have d: "PGSIZE dvd pa + (PGROUNDDOWN x - va)" using assms(2,6) pground_mult(2) by (intro dvd_add dvd_diff_nat)
      show ?thesis unfolding mmu_access_cr3[OF V] mmu_access_cr3[OF assms(1)] p
        using odd_or_P mapped_addr[OF assms(6,2) _ assms(8)] entry_rights[OF d] by simp
    qed
    then show "\<exists>ys. vm_ok t pd ys
     \<and> (r = 0 \<and> (\<forall>x < 2 ^ 32. mmu_access (t\<lparr>cr3 := V2P pd\<rparr>) x =
           (if va \<le> x \<and> x < va + m * PGSIZE then Some (pa + (x - va), and perm (or PTE_W PTE_U))
            else mmu_access (s\<lparr>cr3 := V2P pd\<rparr>) x))
        \<or> r = - 1 \<and> ys = [])" using V h by auto
  qed
qed

text \<open>Two pages at 0x1000 to the physical addresses from 0x403000, the first call writable and for the user, the second read-only.\<close>

theorem mappages_maps_witness:
  "\<exists>s. runs (mappages pd_ex 0x1000 (2 * PGSIZE) 0x403000 (or PTE_W PTE_U) s) (\<lambda>r t. r = 0 \<longrightarrow>
     mmu_access (t\<lparr>cr3 := V2P pd_ex\<rparr>) 0x2010 = Some (0x404010, or PTE_W PTE_U))
   \<and> runs (mappages pd_ex 0x1000 (2 * PGSIZE) 0x403000 0 s) (\<lambda>r t. r = 0 \<longrightarrow>
     mmu_access (t\<lparr>cr3 := V2P pd_ex\<rparr>) 0x2010 = Some (0x404010, 0))"
proof -
  obtain s where s: "uvm_ok s pd_ex [0x80402000, 0x80401000]" "vframe vm_ex s" "\<forall>va. pte s pd_ex va = 0" by (rule vm_ex_pages)
  note V = uvm_okD(1)[OF s(1)]
  have n: "\<forall>x. 0x1000 \<le> x \<and> x < 0x1000 + 2 * PGSIZE \<longrightarrow> mmu (s\<lparr>cr3 := V2P pd_ex\<rparr>) x = None"
    by (simp add: mmu_cr3[OF V] s(3))
  have "runs (mappages pd_ex 0x1000 (2 * PGSIZE) 0x403000 perm s) (\<lambda>r t. r = 0 \<longrightarrow>
     mmu_access (t\<lparr>cr3 := V2P pd_ex\<rparr>) 0x2010 = Some (0x404010, and perm (or PTE_W PTE_U)))" if "perm < PGSIZE" for perm
    by (rule runs_mono[OF mappages_maps[OF V, where va = "0x1000" and m = 2 and pa = "0x403000" and perm = perm]])
      (use n that in \<open>auto simp: param_defs\<close>)
  from this[of "or PTE_W PTE_U"] this[of 0] show ?thesis by (intro exI[of _ s]) (simp add: param_defs)
qed

subsection \<open>Growing and shrinking a process\<close>


lemma alloc_ex_hyps:
  assumes "\<forall>va. pte s pd_ex va = 0"
  shows "\<forall>x < KERNBASE. PGROUNDUP 0 \<le> x \<longrightarrow> pte s pd_ex x = 0" "PGSIZE < KERNBASE" "0 < PGSIZE"
    "length (pages_from (PGROUNDUP 0) PGSIZE) = 1" "PGROUNDUP 0 = 0"
  using assms by (simp_all add: pages_from_def PGROUNDUP_def uadd_def param_defs)


text \<open>
  A process that gives back all its memory, \<open>sbrk(-sz)\<close>: \<open>growproc\<close> frees the pages and clears their
  entries, and then takes the new size 0 for a failure: it returns -1 and leaves the size as it was, so
  that the process keeps a size of which the hardware translates no address.
\<close>

theorem growproc_to_zero:
  assumes "uvm_ok s (pgdir (cur s)) xs" "curproc s = Some c" "0 < sz (cur s)" "sz (cur s) \<le> KERNBASE"
    "cr3 s = V2P (pgdir (cur s))"
  shows "runs (growproc (- int (sz (cur s))) s) (\<lambda>r t. r = - 1 \<and> sz (cur t) = sz (cur s)
     \<and> (\<forall>va < sz (cur t). mmu t va = None))"
proof (rule runs_mono[OF growproc_zero[OF assms(1-4)]], elim conjE exE)
  fix r :: int and t ys
  assume r: "r = - 1" and f: "vframe s t" and u: "uvm_ok t (pgdir (cur s)) (ys @ xs)"
    and e: "\<forall>va < sz (cur s). even (pte t (pgdir (cur s)) va)"
  have "cr3 t = V2P (pgdir (cur s))" "cur t = cur s" using vframeD(5,7)[OF f] assms(5) by simp_all
  then show "r = - 1 \<and> sz (cur t) = sz (cur s) \<and> (\<forall>va < sz (cur t). mmu t va = None)"
    using r e mmu_pte[OF uvm_okD(1)[OF u]] by simp
qed

text \<open>A process of one mapped page.\<close>

theorem growproc_to_zero_witness:
  "\<exists>s. mmu s 0 \<noteq> None \<and> runs (growproc (- int PGSIZE) s) (\<lambda>r t. r = - 1 \<and> sz (cur t) = PGSIZE \<and> mmu t 0 = None)"
proof -
  obtain s where s: "uvm_ok s pd_ex [0x80402000, 0x80401000]" "vframe vm_ex s" "\<forall>va. pte s pd_ex va = 0" by (rule vm_ex_pages)
  note H = alloc_ex_hyps[OF s(3)]
  obtain t zs where t: "vframe s t" "uvm_ok t pd_ex zs" "odd (pte t pd_ex 0)"
    using allocuvm_spec[OF s(1) H(1,2,3)] H(4,5) by (auto simp: runs_iff PGROUNDDOWN_def param_defs)
  have c: "curproc t = Some 0" "pgdir (cur t) = pd_ex" "sz (cur t) = PGSIZE" "cr3 t = V2P pd_ex"
    using vframeD(4,5,7)[OF vframe_trans[OF s(2) t(1)]] vm_ex_fields by simp_all
  have m: "mmu t 0 \<noteq> None" using mmu_pte[OF uvm_okD(1)[OF t(2)] c(4), of 0] t(3) by simp
  have k: "sz (cur t) \<le> KERNBASE" "0 < sz (cur t)" by (simp_all add: c param_defs)
  have U: "uvm_ok t (pgdir (cur t)) zs" "cr3 t = V2P (pgdir (cur t))" using t(2) c by simp_all
  have "runs (growproc (- int PGSIZE) t) (\<lambda>r t. r = - 1 \<and> sz (cur t) = PGSIZE \<and> mmu t 0 = None)"
    using growproc_to_zero[OF U(1) c(1) k(2,1) U(2)] unfolding c(3) by (rule runs_mono) (simp add: param_defs)
  then show ?thesis using m by blast
qed

end
