(* ===== verification/Spin.thy ===== *)
theory Spin
  imports Sync
begin

text \<open>
  Spin locks with any number of CPUs (spinlock.c). A CPU runs \<open>acquire\<close> and \<open>release\<close> in the steps between
  which other CPUs can act: \<open>acquire\<close> turns interrupts off and tests \<open>holding\<close>, tries the atomic exchange
  until it finds 0, and records the owner; \<open>release\<close> clears the owner, stores 0 and pops the interrupt
  state. \<open>Sync\<close> has the view of one CPU, in which \<open>acquire\<close> is one step.
\<close>

record spin_lock =
  sp_locked :: nat
  sp_cpu :: "nat option"

record cpu_state =
  ncli :: int
  intena :: bool
  iflag :: bool

text \<open>Where a CPU is: outside of \<open>acquire\<close> and \<open>release\<close>, or between two of their steps.\<close>

datatype spc = Idle | Spinning lockid | Got lockid | Unlock lockid | Popping

record machine =
  locks :: "lockid \<Rightarrow> spin_lock"
  cpus :: "nat \<Rightarrow> cpu_state"
  at :: "nat \<Rightarrow> spc"

type_synonym 'a mres = "('a, machine) res"

definition initlock :: "lockid \<Rightarrow> machine \<Rightarrow> machine" where
  "initlock l m = m\<lparr>locks := (locks m)(l := \<lparr>sp_locked = 0, sp_cpu = None\<rparr>)\<rparr>"

definition pushcli :: "nat \<Rightarrow> machine \<Rightarrow> machine" where
  "pushcli c m = (let k = cpus m c; eflags = iflag k;
     k = k\<lparr>iflag := False\<rparr>;
     k = (if ncli k = 0 then k\<lparr>intena := eflags\<rparr> else k) in
     m\<lparr>cpus := (cpus m)(c := k\<lparr>ncli := ncli k + 1\<rparr>)\<rparr>)"

definition popcli :: "nat \<Rightarrow> machine \<Rightarrow> unit mres" where
  "popcli c m = (let k = cpus m c in
     if iflag k then Panic ''popcli - interruptible''
     else let k = k\<lparr>ncli := ncli k - 1\<rparr> in
       if ncli k < 0 then Panic ''popcli''
       else Ok () (m\<lparr>cpus := (cpus m)(c := (if ncli k = 0 \<and> intena k then k\<lparr>iflag := True\<rparr> else k))\<rparr>))"

definition holding :: "nat \<Rightarrow> lockid \<Rightarrow> machine \<Rightarrow> bool mres" where
  "holding c l m = (let m = pushcli c m;
     r = (sp_locked (locks m l) \<noteq> 0 \<and> sp_cpu (locks m l) = Some c) in
     kbind (popcli c m) (\<lambda>_ m. Ok r m))"

definition xchg :: "lockid \<Rightarrow> nat \<Rightarrow> machine \<Rightarrow> nat \<times> machine" where
  "xchg l v m = (sp_locked (locks m l), m\<lparr>locks := (locks m)(l := (locks m l)\<lparr>sp_locked := v\<rparr>)\<rparr>)"

definition goto :: "nat \<Rightarrow> spc \<Rightarrow> machine \<Rightarrow> machine" where
  "goto c p m = m\<lparr>at := (at m)(c := p)\<rparr>"

subsection \<open>The steps\<close>

definition acquire_begin :: "nat \<Rightarrow> lockid \<Rightarrow> machine \<Rightarrow> unit mres" where
  "acquire_begin c l m = kbind (holding c l (pushcli c m)) (\<lambda>r m.
     if r then Panic ''acquire'' else Ok () (goto c (Spinning l) m))"

text \<open>One round of \<open>while(xchg(&lk->locked, 1) != 0)\<close>.\<close>

definition acquire_try :: "nat \<Rightarrow> lockid \<Rightarrow> machine \<Rightarrow> machine" where
  "acquire_try c l m = (let (old, m) = xchg l 1 m in if old \<noteq> 0 then m else goto c (Got l) m)"

definition acquire_done :: "nat \<Rightarrow> lockid \<Rightarrow> machine \<Rightarrow> machine" where
  "acquire_done c l m = goto c Idle (m\<lparr>locks := (locks m)(l := (locks m l)\<lparr>sp_cpu := Some c\<rparr>)\<rparr>)"

definition release_begin :: "nat \<Rightarrow> lockid \<Rightarrow> machine \<Rightarrow> unit mres" where
  "release_begin c l m = kbind (holding c l m) (\<lambda>r m.
     if \<not> r then Panic ''release''
     else Ok () (goto c (Unlock l) (m\<lparr>locks := (locks m)(l := (locks m l)\<lparr>sp_cpu := None\<rparr>)\<rparr>)))"

definition release_unlock :: "nat \<Rightarrow> lockid \<Rightarrow> machine \<Rightarrow> machine" where
  "release_unlock c l m = goto c Popping (m\<lparr>locks := (locks m)(l := (locks m l)\<lparr>sp_locked := 0\<rparr>)\<rparr>)"

definition release_end :: "nat \<Rightarrow> machine \<Rightarrow> unit mres" where
  "release_end c m = kbind (popcli c m) (\<lambda>_ m. Ok () (goto c Idle m))"

text \<open>A CPU that holds no lock may turn interrupts on and off (\<open>sti\<close> in \<open>scheduler\<close>).\<close>

definition set_if :: "nat \<Rightarrow> bool \<Rightarrow> machine \<Rightarrow> machine" where
  "set_if c b m = m\<lparr>cpus := (cpus m)(c := (cpus m c)\<lparr>iflag := b\<rparr>)\<rparr>"

inductive spin_step :: "machine \<Rightarrow> machine \<Rightarrow> bool" where
  "at m c = Idle \<Longrightarrow> acquire_begin c l m = Ok () n \<Longrightarrow> spin_step m n"
| "at m c = Spinning l \<Longrightarrow> spin_step m (acquire_try c l m)"
| "at m c = Got l \<Longrightarrow> spin_step m (acquire_done c l m)"
| "at m c = Idle \<Longrightarrow> release_begin c l m = Ok () n \<Longrightarrow> spin_step m n"
| "at m c = Unlock l \<Longrightarrow> spin_step m (release_unlock c l m)"
| "at m c = Popping \<Longrightarrow> release_end c m = Ok () n \<Longrightarrow> spin_step m n"
| "at m c = Idle \<Longrightarrow> ncli (cpus m c) = 0 \<Longrightarrow> spin_step m (set_if c b m)"

abbreviation spin_reach :: "machine \<Rightarrow> machine \<Rightarrow> bool" where
  "spin_reach \<equiv> rtranclp spin_step"

lemma spin_reach_refl: "spin_reach m m"
  by (rule rtranclp.rtrancl_refl)

lemma spin_reach_step: "spin_reach m n \<Longrightarrow> spin_step n k \<Longrightarrow> spin_reach m k"
  by (rule rtranclp.rtrancl_into_rtrancl)

text \<open>At the start all locks are initialised and no CPU is in \<open>acquire\<close> or \<open>release\<close>.\<close>

definition spin_start :: "machine \<Rightarrow> bool" where
  "spin_start m \<longleftrightarrow> (\<forall>l. locks m l = \<lparr>sp_locked = 0, sp_cpu = None\<rparr>) \<and> (\<forall>c. at m c = Idle \<and> ncli (cpus m c) = 0)"

subsection \<open>The invariant\<close>

text \<open>CPU \<open>c\<close> has lock \<open>l\<close>: from its successful exchange to its store of 0.\<close>

definition has_lock :: "machine \<Rightarrow> nat \<Rightarrow> lockid \<Rightarrow> bool" where
  "has_lock m c l \<longleftrightarrow> at m c = Got l \<or> at m c = Unlock l \<or> sp_cpu (locks m l) = Some c"

text \<open>The \<open>pushcli\<close> that belongs to no lock.\<close>

fun pending :: "spc \<Rightarrow> int" where
  "pending (Spinning l) = 1"
| "pending Popping = 1"
| "pending _ = 0"

definition lock_inv :: "machine \<Rightarrow> lockid \<Rightarrow> bool" where
  "lock_inv m l \<longleftrightarrow> (sp_locked (locks m l) \<noteq> 0 \<longleftrightarrow> (\<exists>c. has_lock m c l))
     \<and> (\<forall>c d. has_lock m c l \<and> has_lock m d l \<longrightarrow> c = d)
     \<and> (\<forall>c. at m c = Got l \<or> at m c = Unlock l \<longrightarrow> sp_cpu (locks m l) = None)"

definition cpu_inv :: "machine \<Rightarrow> nat \<Rightarrow> bool" where
  "cpu_inv m c \<longleftrightarrow> finite {l. has_lock m c l} \<and> ncli (cpus m c) = int (card {l. has_lock m c l}) + pending (at m c)
     \<and> (ncli (cpus m c) \<noteq> 0 \<longrightarrow> \<not> iflag (cpus m c))"

definition spin_inv :: "machine \<Rightarrow> bool" where
  "spin_inv m \<longleftrightarrow> (\<forall>l. lock_inv m l) \<and> (\<forall>c. cpu_inv m c)"

lemma spin_invD:
  assumes "spin_inv m"
  shows "sp_locked (locks m l) \<noteq> 0 \<longleftrightarrow> (\<exists>c. has_lock m c l)" "has_lock m c l \<Longrightarrow> has_lock m d l \<Longrightarrow> c = d"
    "at m c = Got l \<or> at m c = Unlock l \<Longrightarrow> sp_cpu (locks m l) = None" "finite {l. has_lock m c l}"
    "ncli (cpus m c) = int (card {l. has_lock m c l}) + pending (at m c)" "ncli (cpus m c) \<noteq> 0 \<Longrightarrow> \<not> iflag (cpus m c)"
  using assms unfolding spin_inv_def lock_inv_def cpu_inv_def by blast+

lemma spin_start_inv: "spin_start m \<Longrightarrow> spin_inv m"
  by (simp add: spin_start_def spin_inv_def lock_inv_def cpu_inv_def has_lock_def)

lemma pending_nonneg: "0 \<le> pending p"
  by (cases p) simp_all

lemma ncli_nonneg: "spin_inv m \<Longrightarrow> 0 \<le> ncli (cpus m c)"
  using spin_invD(5)[of m c] pending_nonneg[of "at m c"] by simp

text \<open>\<open>holding\<close> leaves the machine as it was, and on a CPU outside of \<open>acquire\<close> and \<open>release\<close> it is exact.\<close>

lemma push_pop:
  assumes "0 \<le> ncli (cpus m c)" "ncli (cpus m c) \<noteq> 0 \<longrightarrow> \<not> iflag (cpus m c)"
  shows "\<exists>n. popcli c (pushcli c m) = Ok () n \<and> locks n = locks m \<and> at n = at m
     \<and> (\<forall>d. ncli (cpus n d) = ncli (cpus m d) \<and> iflag (cpus n d) = iflag (cpus m d))"
  using assms by (auto simp: popcli_def pushcli_def Let_def)

lemma holding_eq:
  assumes "0 \<le> ncli (cpus m c)" "ncli (cpus m c) \<noteq> 0 \<longrightarrow> \<not> iflag (cpus m c)"
  shows "\<exists>n. holding c l m = Ok (sp_locked (locks m l) \<noteq> 0 \<and> sp_cpu (locks m l) = Some c) n
    \<and> locks n = locks m \<and> at n = at m \<and> (\<forall>d. ncli (cpus n d) = ncli (cpus m d) \<and> iflag (cpus n d) = iflag (cpus m d))"
proof -
  obtain n where n: "popcli c (pushcli c m) = Ok () n" "locks n = locks m" "at n = at m"
    "\<forall>d. ncli (cpus n d) = ncli (cpus m d) \<and> iflag (cpus n d) = iflag (cpus m d)" using push_pop[OF assms] by blast
  have "locks (pushcli c m) = locks m" by (simp add: pushcli_def Let_def)
  then show ?thesis using n by (simp add: holding_def Let_def)
qed

lemma holding_exact:
  assumes "spin_inv m" "at m c = Idle"
  shows "sp_locked (locks m l) \<noteq> 0 \<and> sp_cpu (locks m l) = Some c \<longleftrightarrow> has_lock m c l"
  using spin_invD(1)[OF assms(1), of l] assms(2) by (auto simp: has_lock_def)

subsection \<open>Every step keeps the invariant\<close>

lemma inv_step:
  assumes I: "spin_inv m" and L: "\<And>l. lock_inv n l" and C: "cpu_inv n c"
    and o: "\<And>d l. d \<noteq> c \<Longrightarrow> has_lock n d l = has_lock m d l"
    and k: "\<And>d. d \<noteq> c \<Longrightarrow> at n d = at m d \<and> ncli (cpus n d) = ncli (cpus m d) \<and> iflag (cpus n d) = iflag (cpus m d)"
  shows "spin_inv n"
proof -
  have "cpu_inv n d" for d
  proof (cases "d = c")
    case False
    have "cpu_inv m d" using I by (simp add: spin_inv_def)
    then show ?thesis using o[OF False] k[OF False] by (simp add: cpu_inv_def)
  qed (use C in simp)
  then show ?thesis using L by (simp add: spin_inv_def)
qed

text \<open>Steps that neither take nor give up a lock.\<close>

lemma inv_same:
  assumes I: "spin_inv m" and h: "\<And>d l. has_lock n d l = has_lock m d l"
    and z: "\<And>l. (sp_locked (locks n l) \<noteq> 0) = (sp_locked (locks m l) \<noteq> 0)"
    and u: "\<And>d l. at n d = Got l \<or> at n d = Unlock l \<Longrightarrow> sp_cpu (locks n l) = None"
    and c: "ncli (cpus n c) - pending (at n c) = ncli (cpus m c) - pending (at m c)"
      "ncli (cpus n c) \<noteq> 0 \<longrightarrow> \<not> iflag (cpus n c)"
    and k: "\<And>d. d \<noteq> c \<Longrightarrow> at n d = at m d \<and> ncli (cpus n d) = ncli (cpus m d) \<and> iflag (cpus n d) = iflag (cpus m d)"
  shows "spin_inv n"
proof (rule inv_step[OF I _ _ h k])
  show "lock_inv n l" for l
    using spin_invD(1)[OF I, of l] spin_invD(2)[OF I, of _ l] u unfolding lock_inv_def h z by blast
  show "cpu_inv n c" unfolding cpu_inv_def h using spin_invD(4,5)[OF I, of c] c by simp
qed

lemma acquire_begin_inv:
  assumes I: "spin_inv m" and i: "at m c = Idle" and a: "acquire_begin c l m = Ok () n"
  shows "spin_inv n" "\<not> has_lock m c l"
proof -
  let ?p = "pushcli c m"
  have p: "0 \<le> ncli (cpus ?p c)" "ncli (cpus ?p c) \<noteq> 0 \<longrightarrow> \<not> iflag (cpus ?p c)" "locks ?p = locks m" "at ?p = at m"
    "ncli (cpus ?p c) = ncli (cpus m c) + 1" "\<not> iflag (cpus ?p c)" "\<And>d. d \<noteq> c \<Longrightarrow> cpus ?p d = cpus m d"
    using ncli_nonneg[OF I, of c] by (simp_all add: pushcli_def Let_def)
  obtain q where q: "holding c l ?p = Ok (sp_locked (locks ?p l) \<noteq> 0 \<and> sp_cpu (locks ?p l) = Some c) q"
    "locks q = locks ?p" "at q = at ?p" "\<forall>d. ncli (cpus q d) = ncli (cpus ?p d) \<and> iflag (cpus q d) = iflag (cpus ?p d)"
    using holding_eq[OF p(1,2)] by blast
  have nh: "\<not> (sp_locked (locks m l) \<noteq> 0 \<and> sp_cpu (locks m l) = Some c)" and n: "n = goto c (Spinning l) q"
    using a by (auto simp: acquire_begin_def q(1) p(3) split: if_splits)
  show "\<not> has_lock m c l" using holding_exact[OF I i, of l] nh by simp
  have f: "locks n = locks m" "at n = (at m)(c := Spinning l)" by (simp_all add: n goto_def q(2,3) p(3,4))
  have g: "ncli (cpus n d) = ncli (cpus ?p d)" "iflag (cpus n d) = iflag (cpus ?p d)" for d
    using q(4) by (simp_all add: n goto_def)
  show "spin_inv n"
  proof (rule inv_same[OF I, where c = c])
    show "has_lock n d k = has_lock m d k" for d k using i by (simp add: has_lock_def f)
    show "sp_cpu (locks n k) = None" if "at n d = Got k \<or> at n d = Unlock k" for d k
      using that spin_invD(3)[OF I, of d k] i by (auto simp: f split: if_splits)
  qed (use i p(5,6,7) in \<open>simp_all add: f g\<close>)
qed

lemma acquire_try_inv:
  assumes I: "spin_inv m" and i: "at m c = Spinning l"
  shows "spin_inv (acquire_try c l m)"
proof (cases "sp_locked (locks m l) = 0")
  case False
  let ?n = "m\<lparr>locks := (locks m)(l := (locks m l)\<lparr>sp_locked := 1\<rparr>)\<rparr>"
  have e: "acquire_try c l m = ?n" using False by (simp add: acquire_try_def xchg_def)
  show ?thesis unfolding e
  proof (rule inv_same[OF I, where c = c])
    show "has_lock ?n d k = has_lock m d k" for d k by (simp add: has_lock_def)
    show "sp_cpu (locks ?n k) = None" if "at ?n d = Got k \<or> at ?n d = Unlock k" for d k
      using that spin_invD(3)[OF I, of d k] by auto
  qed (use False spin_invD(6)[OF I, of c] in auto)
next
  case True
  let ?n = "goto c (Got l) (m\<lparr>locks := (locks m)(l := (locks m l)\<lparr>sp_locked := 1\<rparr>)\<rparr>)"
  have e: "acquire_try c l m = ?n" using True by (simp add: acquire_try_def xchg_def)
  have none: "\<not> has_lock m d l" for d using spin_invD(1)[OF I, of l] True by simp
  then have sc: "sp_cpu (locks m l) = None" by (cases "sp_cpu (locks m l)") (auto simp: has_lock_def)
  have h: "has_lock ?n d k \<longleftrightarrow> has_lock m d k \<or> d = c \<and> k = l" for d k
    using i by (auto simp: has_lock_def goto_def)
  show ?thesis unfolding e
  proof (rule inv_step[OF I, where c = c])
    show "lock_inv ?n k" for k
    proof (cases "k = l")
      case True
      then show ?thesis unfolding lock_inv_def h using none sc by (auto simp: goto_def)
    next
      case False
      then show ?thesis
        using spin_invD(1)[OF I, of k] spin_invD(2)[OF I, of _ k] spin_invD(3)[OF I, of _ k] i
        unfolding lock_inv_def h by (auto simp: goto_def)
    qed
    have "{k. has_lock ?n c k} = insert l {k. has_lock m c k}" by (auto simp: h)
    then show "cpu_inv ?n c"
      using spin_invD(4,5,6)[OF I, of c] none[of c] i by (simp add: cpu_inv_def goto_def)
    show "has_lock ?n d k = has_lock m d k" if "d \<noteq> c" for d k using that by (simp add: h)
  qed (simp add: goto_def)
qed

lemma acquire_done_inv:
  assumes I: "spin_inv m" and i: "at m c = Got l"
  shows "spin_inv (acquire_done c l m)"
proof (rule inv_same[OF I, where c = c])
  let ?n = "acquire_done c l m"
  have sc: "sp_cpu (locks m l) = None" using spin_invD(3)[OF I, of c l] i by simp
  have only: "has_lock m d l \<longleftrightarrow> d = c" for d using spin_invD(2)[OF I, of d l c] i by (auto simp: has_lock_def)
  show "has_lock ?n d k = has_lock m d k" for d k
  proof (cases "k = l")
    case True
    have "at m d \<noteq> Got l \<and> at m d \<noteq> Unlock l" if "d \<noteq> c" using only[of d] that by (auto simp: has_lock_def)
    then show ?thesis using only[of d] True by (auto simp: has_lock_def acquire_done_def goto_def)
  next
    case False
    then show ?thesis using i by (auto simp: has_lock_def acquire_done_def goto_def)
  qed
  show "sp_cpu (locks ?n k) = None" if "at ?n d = Got k \<or> at ?n d = Unlock k" for d k
  proof -
    have d: "d \<noteq> c" "at m d = Got k \<or> at m d = Unlock k"
      using that by (auto simp: acquire_done_def goto_def split: if_splits)
    then have "k \<noteq> l" using only[of d] by (auto simp: has_lock_def)
    then show ?thesis using spin_invD(3)[OF I d(2)] by (simp add: acquire_done_def goto_def)
  qed
qed (use i spin_invD(6)[OF I, of c] in \<open>auto simp: acquire_done_def goto_def\<close>)

lemma release_begin_inv:
  assumes I: "spin_inv m" and i: "at m c = Idle" and a: "release_begin c l m = Ok () n"
  shows "spin_inv n" "has_lock m c l"
proof -
  obtain q where q: "holding c l m = Ok (sp_locked (locks m l) \<noteq> 0 \<and> sp_cpu (locks m l) = Some c) q"
    "locks q = locks m" "at q = at m" "\<forall>d. ncli (cpus q d) = ncli (cpus m d) \<and> iflag (cpus q d) = iflag (cpus m d)"
    using holding_eq[OF ncli_nonneg[OF I, of c] impI[OF spin_invD(6)[OF I, of c]]] by blast
  have nh: "sp_locked (locks m l) \<noteq> 0 \<and> sp_cpu (locks m l) = Some c"
    and n: "n = goto c (Unlock l) (q\<lparr>locks := (locks q)(l := (locks q l)\<lparr>sp_cpu := None\<rparr>)\<rparr>)"
    using a by (auto simp: release_begin_def q(1) split: if_splits)
  show hl: "has_lock m c l" using holding_exact[OF I i, of l] nh by simp
  have only: "has_lock m d l \<longleftrightarrow> d = c" for d using spin_invD(2)[OF I, of d l c] hl by auto
  have f: "locks n = (locks m)(l := (locks m l)\<lparr>sp_cpu := None\<rparr>)" "at n = (at m)(c := Unlock l)"
    by (simp_all add: n goto_def q(2,3))
  have g: "ncli (cpus n d) = ncli (cpus m d)" "iflag (cpus n d) = iflag (cpus m d)" for d
    using q(4) by (simp_all add: n goto_def)
  show "spin_inv n"
  proof (rule inv_same[OF I, where c = c])
    show "has_lock n d k = has_lock m d k" for d k
    proof (cases "k = l")
      case True
      have "at m d \<noteq> Got l \<and> at m d \<noteq> Unlock l" if "d \<noteq> c" using only[of d] that by (auto simp: has_lock_def)
      then show ?thesis using only[of d] True by (auto simp: has_lock_def f)
    next
      case False
      then show ?thesis using i by (auto simp: has_lock_def f)
    qed
    show "sp_cpu (locks n k) = None" if "at n d = Got k \<or> at n d = Unlock k" for d k
      using that spin_invD(3)[OF I, of d k] by (auto simp: f split: if_splits)
  qed (use i spin_invD(6)[OF I, of c] in \<open>auto simp: f g\<close>)
qed

lemma release_unlock_inv:
  assumes I: "spin_inv m" and i: "at m c = Unlock l"
  shows "spin_inv (release_unlock c l m)"
proof (rule inv_step[OF I, where c = c])
  let ?n = "release_unlock c l m"
  have hl: "has_lock m c l" using i by (simp add: has_lock_def)
  have sc: "sp_cpu (locks m l) = None" using spin_invD(3)[OF I, of c l] i by simp
  have h: "has_lock ?n d k \<longleftrightarrow> has_lock m d k \<and> \<not> (d = c \<and> k = l)" for d k
    using i sc by (auto simp: has_lock_def release_unlock_def goto_def)
  show "lock_inv ?n k" for k
  proof (cases "k = l")
    case True
    have "\<not> has_lock ?n d l" for d using spin_invD(2)[OF I, of d l c] hl by (auto simp: h)
    then show ?thesis using True sc unfolding lock_inv_def by (simp add: release_unlock_def goto_def)
  next
    case False
    then show ?thesis
      using spin_invD(1)[OF I, of k] spin_invD(2)[OF I, of _ k] spin_invD(3)[OF I, of _ k]
      unfolding lock_inv_def h by (auto simp: release_unlock_def goto_def)
  qed
  have s: "{k. has_lock ?n c k} = {k. has_lock m c k} - {l}" by (auto simp: h)
  have p: "0 < card {k. has_lock m c k}" using spin_invD(4)[OF I, of c] hl by (auto simp: card_gt_0_iff)
  have "card {k. has_lock m c k} = Suc (card ({k. has_lock m c k} - {l}))"
    using spin_invD(4)[OF I, of c] hl by (intro card.remove) simp_all
  then show "cpu_inv ?n c"
    using spin_invD(4,5,6)[OF I, of c] i p unfolding cpu_inv_def s
    by (simp add: release_unlock_def goto_def)
  show "has_lock ?n d k = has_lock m d k" if "d \<noteq> c" for d k using that by (simp add: h)
qed (simp add: release_unlock_def goto_def)

lemma release_end_inv:
  assumes I: "spin_inv m" and i: "at m c = Popping"
  shows "\<exists>n. release_end c m = Ok () n \<and> spin_inv n"
proof -
  let ?k = "(cpus m c)\<lparr>ncli := ncli (cpus m c) - 1\<rparr>"
  let ?k' = "if ncli ?k = 0 \<and> intena ?k then ?k\<lparr>iflag := True\<rparr> else ?k"
  let ?n = "goto c Idle (m\<lparr>cpus := (cpus m)(c := ?k')\<rparr>)"
  have n: "ncli (cpus m c) = int (card {l. has_lock m c l}) + 1" using spin_invD(5)[OF I, of c] i by simp
  then have "\<not> iflag (cpus m c)" using spin_invD(6)[OF I, of c] by simp
  then have e: "release_end c m = Ok () ?n" using n by (simp add: release_end_def popcli_def Let_def)
  have "spin_inv ?n"
  proof (rule inv_same[OF I, where c = c])
    show "has_lock ?n d k = has_lock m d k" for d k using i by (simp add: has_lock_def goto_def)
    show "sp_cpu (locks ?n k) = None" if "at ?n d = Got k \<or> at ?n d = Unlock k" for d k
      using that spin_invD(3)[OF I, of d k] by (auto simp: goto_def split: if_splits)
  qed (use i spin_invD(6)[OF I, of c] n in \<open>auto simp: goto_def\<close>)
  then show ?thesis using e by blast
qed

lemma set_if_inv:
  assumes I: "spin_inv m" and z: "ncli (cpus m c) = 0"
  shows "spin_inv (set_if c b m)"
proof (rule inv_same[OF I, where c = c])
  show "has_lock (set_if c b m) d k = has_lock m d k" for d k by (simp add: set_if_def has_lock_def)
  show "sp_cpu (locks (set_if c b m) k) = None" if "at (set_if c b m) d = Got k \<or> at (set_if c b m) d = Unlock k" for d k
    using that spin_invD(3)[OF I, of d k] by (simp add: set_if_def)
qed (use z in \<open>simp_all add: set_if_def\<close>)

lemma spin_step_inv: "spin_step m n \<Longrightarrow> spin_inv m \<Longrightarrow> spin_inv n"
proof (induction rule: spin_step.induct)
  case (1 m c l n)
  then show ?case using acquire_begin_inv(1) by blast
next
  case (2 m c l)
  then show ?case using acquire_try_inv by blast
next
  case (3 m c l)
  then show ?case using acquire_done_inv by blast
next
  case (4 m c l n)
  then show ?case using release_begin_inv(1) by blast
next
  case (5 m c l)
  then show ?case using release_unlock_inv by blast
next
  case (6 m c n)
  then show ?case using release_end_inv[of m c] by auto
next
  case (7 m c b)
  then show ?case using set_if_inv by blast
qed

interpretation spin: inv_system spin_start spin_step spin_inv
  by unfold_locales (rule spin_start_inv, assumption, rule spin_step_inv)

subsection \<open>Mutual exclusion\<close>

text \<open>
  C27. Spin locks exclude each other on any number of CPUs, under every interleaving of their steps: two
  CPUs never have the same lock, a CPU that has a lock runs with interrupts off, \<open>acquire\<close> on a CPU
  outside of \<open>acquire\<close> and \<open>release\<close> panics exactly when this CPU has the lock and \<open>release\<close> exactly when
  it has not, and \<open>popcli\<close> never panics.
\<close>

theorem spin_mutual_exclusion:
  assumes "spin_start m0" "spin_reach m0 m"
  shows "(has_lock m c l \<and> has_lock m d l \<longrightarrow> c = d) \<and> (has_lock m c l \<longrightarrow> \<not> iflag (cpus m c))
    \<and> (at m c = Idle \<longrightarrow> (if has_lock m c l then acquire_begin c l m = Panic ''acquire'' \<and> (\<exists>n. release_begin c l m = Ok () n)
        else release_begin c l m = Panic ''release'' \<and> (\<exists>n. acquire_begin c l m = Ok () n)))
    \<and> (at m c = Popping \<longrightarrow> (\<exists>n. release_end c m = Ok () n))"
proof (intro conjI impI)
  have I: "spin_inv m" by (rule spin.reach_inv[OF assms])
  show "c = d" if "has_lock m c l \<and> has_lock m d l" using that spin_invD(2)[OF I] by blast
  show "\<not> iflag (cpus m c)" if "has_lock m c l"
  proof -
    have "card {k. has_lock m c k} \<noteq> 0" using that spin_invD(4)[OF I, of c] by auto
    then have "ncli (cpus m c) \<noteq> 0" using spin_invD(5)[OF I, of c] pending_nonneg[of "at m c"] by linarith
    then show ?thesis by (rule spin_invD(6)[OF I])
  qed
  show "\<exists>n. release_end c m = Ok () n" if "at m c = Popping" using release_end_inv[OF I that] by blast
  show "if has_lock m c l then acquire_begin c l m = Panic ''acquire'' \<and> (\<exists>n. release_begin c l m = Ok () n)
        else release_begin c l m = Panic ''release'' \<and> (\<exists>n. acquire_begin c l m = Ok () n)" if i: "at m c = Idle"
  proof -
    let ?p = "pushcli c m"
    have p: "0 \<le> ncli (cpus ?p c)" "ncli (cpus ?p c) \<noteq> 0 \<longrightarrow> \<not> iflag (cpus ?p c)" "locks ?p = locks m"
      using ncli_nonneg[OF I, of c] by (simp_all add: pushcli_def Let_def)
    note E = holding_exact[OF I i, of l]
    obtain q where q: "holding c l ?p = Ok (has_lock m c l) q"
      using holding_eq[OF p(1,2), of l] unfolding p(3) E by blast
    obtain r where r: "holding c l m = Ok (has_lock m c l) r"
      using holding_eq[OF ncli_nonneg[OF I, of c] impI[OF spin_invD(6)[OF I, of c]], of l] unfolding E by blast
    show ?thesis unfolding acquire_begin_def release_begin_def q r kbind_simps by (cases "has_lock m c l") simp_all
  qed
qed

lemma popcli_same: "popcli c m = Ok x n \<Longrightarrow> at n = at m \<and> locks n = locks m"
  by (auto simp: popcli_def Let_def split: if_splits)

lemma pushcli_same: "at (pushcli c m) = at m" "locks (pushcli c m) = locks m"
  by (simp_all add: pushcli_def Let_def)

lemma holding_same:
  assumes "holding c l m = Ok r n"
  shows "at n = at m \<and> locks n = locks m"
proof -
  obtain x where "popcli c (pushcli c m) = Ok x n" using assms unfolding holding_def Let_def by (auto elim!: kbind_OkE)
  from popcli_same[OF this] show ?thesis by (simp add: pushcli_same)
qed

lemma acquire_begin_at:
  assumes "acquire_begin c l m = Ok () n"
  shows "at n = (at m)(c := Spinning l) \<and> locks n = locks m"
proof -
  obtain r q where q: "holding c l (pushcli c m) = Ok r q" "(if r then Panic ''acquire'' else Ok () (goto c (Spinning l) q)) = Ok () n"
    using assms unfolding acquire_begin_def by (rule kbind_OkE)
  have "n = goto c (Spinning l) q" using q(2) by (cases r) simp_all
  then show ?thesis using holding_same[OF q(1)] by (simp add: goto_def pushcli_same)
qed

text \<open>Two CPUs compete for a lock; the second one spins.\<close>

definition machine0 :: machine where
  "machine0 = \<lparr>locks = (\<lambda>_. \<lparr>sp_locked = 0, sp_cpu = None\<rparr>),
     cpus = (\<lambda>_. \<lparr>ncli = 0, intena = False, iflag = True\<rparr>), at = (\<lambda>_. Idle)\<rparr>"

theorem spin_mutual_exclusion_witness:
  "\<exists>m. spin_reach machine0 m \<and> has_lock m 0 LPtable \<and> at m 1 = Spinning LPtable \<and> \<not> iflag (cpus m 0)"
proof -
  have s: "spin_start machine0" by (simp add: spin_start_def machine0_def)
  have i: "spin_inv machine0" by (rule spin_start_inv[OF s])
  have n0: "\<not> has_lock machine0 c l" for c l by (simp add: machine0_def has_lock_def)
  have a0: "at machine0 c = Idle" for c by (simp add: machine0_def)
  obtain m1 where m1: "acquire_begin 0 LPtable machine0 = Ok () m1"
    using spin_mutual_exclusion[OF s spin_reach_refl, where c = 0 and l = LPtable] n0 a0 by auto
  have r1: "spin_reach machine0 m1" by (rule spin_reach_step[OF spin_reach_refl spin_step.intros(1)[OF a0 m1]])
  have e1: "at m1 = (at machine0)(0 := Spinning LPtable)" "locks m1 = locks machine0"
    using acquire_begin_at[OF m1] by simp_all
  let ?m2 = "acquire_try 0 LPtable m1"
  have s2: "spin_step m1 ?m2" by (rule spin_step.intros(2)) (simp add: e1)
  have r2: "spin_reach machine0 ?m2" by (rule spin_reach_step[OF r1 s2])
  have e2: "at ?m2 = (at machine0)(0 := Got LPtable)" by (simp add: acquire_try_def xchg_def goto_def e1 machine0_def)
  have h2: "has_lock ?m2 0 LPtable" by (simp add: has_lock_def e2)
  have n1: "\<not> has_lock ?m2 1 LPtable"
    using spin_mutual_exclusion[OF s r2, where c = 0 and d = 1 and l = LPtable] h2 by auto
  have i1: "at ?m2 1 = Idle" by (simp add: e2 a0)
  obtain m3 where m3: "acquire_begin 1 LPtable ?m2 = Ok () m3"
    using spin_mutual_exclusion[OF s r2, where c = 1 and l = LPtable] n1 i1 by auto
  have r3: "spin_reach machine0 m3" by (rule spin_reach_step[OF r2 spin_step.intros(1)[OF i1 m3]])
  have e3: "at m3 = (at ?m2)(1 := Spinning LPtable)"
    using acquire_begin_at[OF m3] by simp
  have h3: "has_lock m3 0 LPtable" "at m3 1 = Spinning LPtable" by (simp_all add: has_lock_def e3 e2)
  have "\<not> iflag (cpus m3 0)"
    using spin_mutual_exclusion[OF s r3, where c = 0 and l = LPtable] h3(1) by blast
  then show ?thesis using r3 h3 by blast
qed

end
