(* ===== verification/Umalloc.thy ===== *)
theory Umalloc
  imports KState
begin

text \<open>
  The allocator of user programs (umalloc.c): a circular list of free blocks ordered by address, each with
  a header of 8 bytes whose size counts headers. A pointer is an address, \<open>p + n\<close> on a \<open>Header *\<close> is
  \<open>hadd p n\<close>. The loops of \<open>free\<close> and \<open>malloc\<close> follow pointers and end on well-formed lists only: they
  are partial functions, and not returning is \<open>None\<close>. The address of \<open>base\<close> is a parameter, as is
  \<open>grant\<close>, which says whether the kernel grants a break.
\<close>

record uheap =
  hptr :: "nat \<Rightarrow> nat"
  hsize :: "nat \<Rightarrow> nat"
  freep :: nat
  brk :: nat

definition HDR :: nat where "HDR = 8"

definition hadd :: "nat \<Rightarrow> nat \<Rightarrow> nat" where
  "hadd p n = uadd p (HDR * n)"

definition umul :: "nat \<Rightarrow> nat \<Rightarrow> nat" where
  "umul a b = a * b mod 2 ^ 32"

definition set_ptr :: "nat \<Rightarrow> nat \<Rightarrow> uheap \<Rightarrow> uheap" where
  "set_ptr p v h = h\<lparr>hptr := (hptr h)(p := v)\<rparr>"

definition set_size :: "nat \<Rightarrow> nat \<Rightarrow> uheap \<Rightarrow> uheap" where
  "set_size p v h = h\<lparr>hsize := (hsize h)(p := v)\<rparr>"

partial_function (option) free_find :: "uheap \<Rightarrow> nat \<Rightarrow> nat \<Rightarrow> nat option" where
  "free_find h bp p =
    (if bp > p \<and> bp < hptr h p then Some p
     else if p \<ge> hptr h p \<and> (bp > p \<or> bp < hptr h p) then Some p
     else free_find h bp (hptr h p))"

text \<open>The block is linked in after \<open>p\<close>, and joined with its neighbours when they touch it.\<close>

definition free_link :: "nat \<Rightarrow> nat \<Rightarrow> uheap \<Rightarrow> uheap" where
  "free_link bp p h =
    (let h = (if hadd bp (hsize h bp) = hptr h p
        then set_ptr bp (hptr h (hptr h p)) (set_size bp (uadd (hsize h bp) (hsize h (hptr h p))) h)
        else set_ptr bp (hptr h p) h);
      h = (if hadd p (hsize h p) = bp
        then set_ptr p (hptr h bp) (set_size p (uadd (hsize h p) (hsize h bp)) h)
        else set_ptr p bp h) in
     h\<lparr>freep := p\<rparr>)"

definition free :: "nat \<Rightarrow> uheap \<Rightarrow> uheap option" where
  "free ap h = (let bp = usub ap HDR in
     map_option (\<lambda>p. free_link bp p h) (free_find h bp (freep h)))"

text \<open>\<open>sbrk\<close>: the old break when the kernel grants the new one.\<close>

definition sbrk :: "(nat \<Rightarrow> bool) \<Rightarrow> nat \<Rightarrow> uheap \<Rightarrow> nat option \<times> uheap" where
  "sbrk grant n h = (if grant (uadd (brk h) n) then (Some (brk h), h\<lparr>brk := uadd (brk h) n\<rparr>) else (None, h))"

definition morecore :: "(nat \<Rightarrow> bool) \<Rightarrow> nat \<Rightarrow> uheap \<Rightarrow> (nat \<times> uheap) option" where
  "morecore grant nu h = (let nu = (if nu < 4096 then 4096 else nu) in
     case sbrk grant (umul nu HDR) h of
       (None, h) \<Rightarrow> Some (0, h)
     | (Some p, h) \<Rightarrow> map_option (\<lambda>h. (freep h, h)) (free (hadd p 1) (set_size p nu h)))"

text \<open>Taking \<open>nunits\<close> from block \<open>p\<close>, the whole block or its tail.\<close>

definition take_block :: "nat \<Rightarrow> nat \<Rightarrow> nat \<Rightarrow> uheap \<Rightarrow> nat \<times> uheap" where
  "take_block nunits prevp p h =
    (if hsize h p = nunits then (hadd p 1, (set_ptr prevp (hptr h p) h)\<lparr>freep := prevp\<rparr>)
     else let h = set_size p (usub (hsize h p) nunits) h; q = hadd p (hsize h p) in
       (hadd q 1, (set_size q nunits h)\<lparr>freep := prevp\<rparr>))"

partial_function (option) malloc_loop :: "(nat \<Rightarrow> bool) \<Rightarrow> nat \<Rightarrow> nat \<Rightarrow> nat \<Rightarrow> uheap \<Rightarrow> (nat \<times> uheap) option" where
  "malloc_loop grant nunits prevp p h =
    (if hsize h p \<ge> nunits then Some (take_block nunits prevp p h)
     else if p = freep h then
       Option.bind (morecore grant nunits h) (\<lambda>(p, h).
         if p = 0 then Some (0, h) else malloc_loop grant nunits p (hptr h p) h)
     else malloc_loop grant nunits p (hptr h p) h)"

text \<open>The first call sets up the list.\<close>

definition malloc_init :: "nat \<Rightarrow> uheap \<Rightarrow> uheap" where
  "malloc_init base h = (if freep h = 0 then (set_size base 0 (set_ptr base base h))\<lparr>freep := base\<rparr> else h)"

definition malloc :: "nat \<Rightarrow> (nat \<Rightarrow> bool) \<Rightarrow> nat \<Rightarrow> uheap \<Rightarrow> (nat \<times> uheap) option" where
  "malloc base grant nbytes h =
    (let nunits = usub (uadd nbytes HDR) 1 div HDR + 1;
         h = malloc_init base h in
     malloc_loop grant nunits (freep h) (hptr h (freep h)) h)"

lemma set_simps [simp]:
  "hptr (set_ptr p v h) = (hptr h)(p := v)" "hsize (set_ptr p v h) = hsize h" "freep (set_ptr p v h) = freep h"
  "hptr (set_size p v h) = hptr h" "hsize (set_size p v h) = (hsize h)(p := v)" "freep (set_size p v h) = freep h"
  "brk (set_ptr p v h) = brk h" "brk (set_size p v h) = brk h"
  by (simp_all add: set_ptr_def set_size_def)

subsection \<open>Well-formed lists\<close>

text \<open>The pointers from \<open>x\<close> visit \<open>bs\<close> and end at \<open>y\<close>.\<close>

fun path :: "uheap \<Rightarrow> nat \<Rightarrow> nat list \<Rightarrow> nat \<Rightarrow> bool" where
  "path h x [] y \<longleftrightarrow> x = y"
| "path h x (b # bs) y \<longleftrightarrow> x = b \<and> path h (hptr h b) bs y"

definition block_end :: "uheap \<Rightarrow> nat \<Rightarrow> nat" where
  "block_end h b = b + HDR * hsize h b"

text \<open>Neighbours in the list neither overlap nor touch.\<close>

fun gaps :: "uheap \<Rightarrow> nat list \<Rightarrow> bool" where
  "gaps h (a # b # bs) \<longleftrightarrow> block_end h a < b \<and> gaps h (b # bs)"
| "gaps h _ \<longleftrightarrow> True"

definition free_blocks :: "nat \<Rightarrow> uheap \<Rightarrow> nat list \<Rightarrow> bool" where
  "free_blocks base h bs \<longleftrightarrow> bs \<noteq> [] \<and> hd bs = base \<and> path h base bs base \<and> gaps h bs \<and> 0 < base \<and> hsize h base = 0
     \<and> freep h \<in> set bs \<and> (\<forall>b \<in> set bs. block_end h b < 2 ^ 32)"

text \<open>The bytes of the free blocks.\<close>

definition block :: "uheap \<Rightarrow> nat \<Rightarrow> nat set" where
  "block h b = {b..<block_end h b}"

definition free_bytes :: "uheap \<Rightarrow> nat list \<Rightarrow> nat set" where
  "free_bytes h bs = (\<Union>b \<in> set bs. block h b)"

lemma path_append: "path h x (xs @ ys) z \<longleftrightarrow> (\<exists>y. path h x xs y \<and> path h y ys z)"
  by (induction xs arbitrary: x) auto

lemma path_hd: "path h x bs y \<Longrightarrow> bs \<noteq> [] \<Longrightarrow> x = hd bs"
  by (cases bs) auto

lemma path_cong: "(\<And>b. b \<in> set bs \<Longrightarrow> hptr t b = hptr h b) \<Longrightarrow> path t x bs y = path h x bs y"
  by (induction bs arbitrary: x) auto

lemma gaps_cong: "(\<And>b. b \<in> set bs \<Longrightarrow> hsize t b = hsize h b) \<Longrightarrow> gaps t bs = gaps h bs"
  by (induction h bs rule: gaps.induct) (simp_all add: block_end_def)

lemma gaps_append: "gaps h (xs @ a # b # ys) \<longleftrightarrow> gaps h (xs @ [a]) \<and> block_end h a < b \<and> gaps h (b # ys)"
  by (induction h xs rule: gaps.induct) auto

lemma gaps_tl: "gaps h (a # bs) \<Longrightarrow> gaps h bs"
  by (cases bs) auto

lemma gaps_sorted: "gaps h bs \<Longrightarrow> sorted_wrt (<) bs"
proof (induction h bs rule: gaps.induct)
  case (1 h a b bs)
  have "a < b" using 1(2) by (simp add: block_end_def)
  then show ?case using 1 by fastforce
qed auto

subsection \<open>The search of free\<close>

text \<open>The search stops at the block before \<open>bp\<close>, from wherever it starts.\<close>

lemma find_from_below:
  "path h x (xs @ [p]) z \<Longrightarrow> sorted_wrt (<) (xs @ [p]) \<Longrightarrow> (\<forall>a \<in> set (xs @ [p]). a < bp) \<Longrightarrow> bp < z \<or> z \<le> p
    \<Longrightarrow> free_find h bp x = Some p"
proof (induction xs arbitrary: x)
  case Nil
  then show ?case by (subst free_find.simps) auto
next
  case (Cons a xs)
  have x: "x = a" and p: "path h (hptr h a) (xs @ [p]) z" using Cons.prems(1) by simp_all
  have n: "hptr h a = hd (xs @ [p])" by (rule path_hd[OF p]) simp
  then have "hptr h a \<in> set (xs @ [p])" by (metis Nil_is_append_conv hd_in_set list.distinct(1))
  then have "a < hptr h a" "hptr h a < bp" using Cons.prems(2,3) by auto
  then have "free_find h bp x = free_find h bp (hptr h a)" unfolding x by (subst free_find.simps) simp
  then show ?case using Cons.IH[OF p] Cons.prems(2,3,4) by simp
qed

lemma find_from_above:
  "path h x bs base \<Longrightarrow> sorted_wrt (<) bs \<Longrightarrow> (\<forall>b \<in> set bs. bp < b) \<Longrightarrow> base < bp
    \<Longrightarrow> free_find h bp x = free_find h bp base"
proof (induction bs arbitrary: x)
  case (Cons b bs)
  have x: "x = b" and p: "path h (hptr h b) bs base" using Cons.prems(1) by simp_all
  have nx: "b < hptr h b \<or> hptr h b = base"
  proof (cases bs)
    case (Cons c cs)
    then show ?thesis using p Cons.prems(2) by auto
  qed (use p in simp)
  have "bp < b" using Cons.prems(3) by simp
  then have "free_find h bp x = free_find h bp (hptr h b)"
    unfolding x using nx Cons.prems(4) by (subst free_find.simps) auto
  then show ?case using Cons.IH[OF p] Cons.prems(2,3,4) by simp
qed simp

text \<open>A list is split at the place of a new block.\<close>

lemma split_at:
  assumes "sorted_wrt (<) bs" "bs \<noteq> []" "hd bs < bp" "bp \<notin> set bs"
  obtains A p B where "bs = A @ p # B" "\<forall>a \<in> set (A @ [p]). a < bp" "\<forall>b \<in> set B. bp < (b :: nat)"
proof -
  let ?A = "takeWhile (\<lambda>b. b < bp) bs" and ?B = "dropWhile (\<lambda>b. b < bp) bs"
  have ne: "?A \<noteq> []" using assms(2,3) by (cases bs) auto
  have e: "bs = butlast ?A @ last ?A # ?B" using append_butlast_last_id[OF ne] takeWhile_dropWhile_id[of "\<lambda>b. b < bp" bs]
    by (metis append_Cons append_Nil append_assoc)
  have a: "\<forall>a \<in> set (butlast ?A @ [last ?A]). a < bp" using set_takeWhileD[of _ "\<lambda>b. b < bp" bs] append_butlast_last_id[OF ne] by auto
  have "bp < b" if b: "b \<in> set ?B" for b
  proof (cases ?B)
    case (Cons c cs)
    have "\<not> c < bp" using Cons hd_dropWhile[of "\<lambda>b. b < bp" bs] by simp
    moreover have "c \<in> set bs" using set_dropWhileD[of c "\<lambda>b. b < bp" bs] Cons by simp
    ultimately have "bp < c" using assms(4) by (metis linorder_neqE_nat)
    moreover have "sorted_wrt (<) (c # cs)"
      using assms(1) e Cons by (metis sorted_wrt_append sorted_wrt.simps(2))
    ultimately show ?thesis using b Cons by auto
  next
    case Nil
    show ?thesis using b unfolding Nil by simp
  qed
  then show ?thesis using that[OF e a] by blast
qed

lemma free_blocksD:
  assumes "free_blocks base h bs"
  shows "bs \<noteq> []" "hd bs = base" "path h base bs base" "gaps h bs" "0 < base" "hsize h base = 0" "freep h \<in> set bs"
    "b \<in> set bs \<Longrightarrow> block_end h b < 2 ^ 32" "sorted_wrt (<) bs" "base \<in> set bs"
  using assms gaps_sorted[of h bs] by (auto simp: free_blocks_def)

lemma free_find_spec:
  assumes F: "free_blocks base h (A @ p # B)" and x: "x \<in> set (A @ p # B)"
    and bp: "\<forall>a \<in> set (A @ [p]). a < bp" "\<forall>b \<in> set B. bp < b"
  shows "free_find h bp x = Some p"
proof -
  note D = free_blocksD[OF F]
  have base: "base \<in> set (A @ [p])" "base < bp" using D(2) bp(1) by (cases A; simp)+
  have s: "sorted_wrt (<) (A @ [p])" "sorted_wrt (<) B" using D(9) by (auto simp: sorted_wrt_append)
  have P: "path h base ((A @ [p]) @ B) base" using D(3) by simp
  then obtain z where z: "path h base (A @ [p]) z" "path h z B base" unfolding path_append by blast
  have zb: "bp < z \<or> z \<le> p"
  proof (cases B)
    case Nil
    then have "z = base" using z(2) by simp
    then show ?thesis using base(1) s(1) by (auto simp: sorted_wrt_append)
  next
    case (Cons b bs)
    then show ?thesis using z(2) bp(2) by simp
  qed
  have below: "free_find h bp y = Some p" if y: "y \<in> set (A @ [p])" for y
  proof -
    obtain xs ys where xy: "A @ [p] = xs @ y # ys" using split_list[OF y] by blast
    obtain y' where "path h y' (y # ys) z" using z(1) unfolding xy path_append by blast
    then have py: "path h y (y # ys) z" by simp
    obtain us where us: "y # ys = us @ [p]" using xy by (metis append_is_Nil_conv last_appendR last_snoc list.distinct(1) append_butlast_last_id)
    have sub: "set (us @ [p]) \<subseteq> set (A @ [p])" unfolding us[symmetric] xy by auto
    have "sorted_wrt (<) (us @ [p])" using s(1) unfolding xy us[symmetric] by (simp add: sorted_wrt_append)
    then show ?thesis using find_from_below[of h y us p z bp] py bp(1) zb sub unfolding us by blast
  qed
  show ?thesis
  proof (cases "x \<in> set (A @ [p])")
    case True
    then show ?thesis by (rule below)
  next
    case False
    then have "x \<in> set B" using x by auto
    then obtain xs ys where xy: "B = xs @ x # ys" using split_list by metis
    have px: "path h x (x # ys) base" using z(2) unfolding xy path_append by auto
    have "sorted_wrt (<) (x # ys)" "\<forall>b \<in> set (x # ys). bp < b" using s(2) bp(2) unfolding xy by (auto simp: sorted_wrt_append)
    then show ?thesis using find_from_above[OF px _ _ base(2)] below[OF base(1)] by simp
  qed
qed

subsection \<open>Linking a block in\<close>

lemma hadd_end: "block_end h b < 2 ^ 32 \<Longrightarrow> hadd b (hsize h b) = block_end h b"
  by (simp add: hadd_def block_end_def uadd_small)

lemma uadd_sizes: "bp + HDR * m + HDR * n < 2 ^ 32 \<Longrightarrow> uadd m n = m + n"
  by (rule uadd_small) (simp add: HDR_def)

text \<open>The block to be freed: not in the list, not empty, apart from every free block.\<close>

definition freeable :: "uheap \<Rightarrow> nat list \<Rightarrow> nat \<Rightarrow> bool" where
  "freeable h bs bp \<longleftrightarrow> bp \<notin> set bs \<and> hd bs < bp \<and> 0 < hsize h bp \<and> block_end h bp < 2 ^ 32
     \<and> (\<forall>b \<in> set bs. block_end h b \<le> bp \<or> block_end h bp \<le> b)"

text \<open>The list with the block: joined with the next one, with the previous one, both or none.\<close>

definition linked :: "uheap \<Rightarrow> nat list \<Rightarrow> nat \<Rightarrow> nat list \<Rightarrow> nat \<Rightarrow> nat list" where
  "linked h A p B bp = A @ p # (if block_end h p = bp then [] else [bp])
     @ (if B \<noteq> [] \<and> block_end h bp = hd B then tl B else B)"

lemma free_link_spec:
  assumes F: "free_blocks base h (A @ p # B)" and R: "freeable h (A @ p # B) bp"
    and bp: "\<forall>a \<in> set (A @ [p]). a < bp" "\<forall>b \<in> set B. bp < b"
  defines "t \<equiv> free_link bp p h"
  shows "free_blocks base t (linked h A p B bp)" "free_bytes t (linked h A p B bp) = free_bytes h (A @ p # B) \<union> block h bp"
    "brk t = brk h" "freep t = p" "\<exists>b \<in> set (linked h A p B bp). hsize h bp \<le> hsize t b"
proof -
  note D = free_blocksD[OF F]
  have base: "base \<in> set (A @ [p])" "base < bp" using D(2) bp(1) by (cases A; simp)+
  have sp: "sorted_wrt (<) (A @ p # B)" using D(9) .
  have nin: "bp \<notin> set (A @ p # B)" "0 < hsize h bp" "block_end h bp < 2 ^ 32" using R by (simp_all add: freeable_def)
  have pe: "block_end h p \<le> bp"
    using R bp(1) nin(2) by (auto simp: freeable_def block_end_def HDR_def)
  have be: "block_end h bp \<le> hd B" if "B \<noteq> []"
  proof -
    have "hd B \<in> set B" using that by simp
    then have "block_end h (hd B) \<le> bp \<or> block_end h bp \<le> hd B" "bp < hd B" using R bp(2) unfolding freeable_def by auto
    moreover have "hd B \<le> block_end h (hd B)" by (simp add: block_end_def)
    ultimately show ?thesis by linarith
  qed
  obtain z where PA: "path h base A p" and z: "z = hptr h p" "path h z B base"
    using D(3) unfolding path_append by auto
  have zB: "z = (if B = [] then base else hd B)" using z(2) path_hd[OF z(2)] by (cases B) auto
  let ?m1 = "B \<noteq> [] \<and> block_end h bp = hd B" and ?m2 = "block_end h p = bp"
  have m1: "hadd bp (hsize h bp) = hptr h p \<longleftrightarrow> ?m1"
    unfolding hadd_end[OF nin(3)] z(1)[symmetric] zB using base(2) by (auto simp: block_end_def)
  have pb: "p \<noteq> bp" using nin(1) by auto
  have pA: "p \<notin> set A" "p \<notin> set B" using sp by (auto simp: sorted_wrt_append)
  have m2: "hadd p (hsize h p) = bp \<longleftrightarrow> ?m2" using hadd_end[of h p] D(8)[of p] by simp
  have dA: "bp \<notin> set A" "bp \<notin> set B" using nin(1) by auto
  define C where "C = (if ?m1 then tl B else B)"
  define sz where "sz = (if ?m1 then hsize h bp + hsize h (hd B) else hsize h bp)"
  define nx where "nx = (if ?m1 then hptr h (hd B) else z)"
  have hB: "block_end h (hd B) < 2 ^ 32" if "B \<noteq> []" using D(8)[of "hd B"] hd_in_set[OF that] by simp
  have s1: "uadd (hsize h bp) (hsize h (hd B)) = hsize h bp + hsize h (hd B)" if ?m1
    using hB that by (intro uadd_sizes[of bp]) (simp add: block_end_def)
  have szb: "bp + HDR * sz = (if ?m1 then block_end h (hd B) else block_end h bp)"
    by (auto simp: sz_def block_end_def add_mult_distrib2)
  have szl: "bp + HDR * sz < 2 ^ 32" unfolding szb using hB nin(3) by simp
  have nxC: "path h nx C base" using z(2) by (cases B) (auto simp: nx_def C_def)
  have CB: "set C \<subseteq> set B" by (cases B) (auto simp: C_def)
  let ?h1 = "set_ptr bp nx (set_size bp sz h)"
  have h1: "(if hadd bp (hsize h bp) = hptr h p
        then set_ptr bp (hptr h (hptr h p)) (set_size bp (uadd (hsize h bp) (hsize h (hptr h p))) h)
        else set_ptr bp (hptr h p) h) = ?h1"
  proof (cases ?m1)
    case True
    have "hptr h p = hd B" using zB z(1) True by simp
    then show ?thesis using m1 True s1[OF True] by (simp add: nx_def sz_def)
  next
    case False
    have "set_size bp (hsize h bp) h = h" by (simp add: set_size_def)
    then show ?thesis using m1 False z(1) by (auto simp: nx_def sz_def)
  qed
  have s2: "uadd (hsize h p) sz = hsize h p + sz" if ?m2
    using szl that by (intro uadd_sizes[of p]) (simp add: block_end_def)
  have t: "t = (if ?m2 then set_ptr p nx (set_size p (hsize h p + sz) ?h1) else set_ptr p bp ?h1)\<lparr>freep := p\<rparr>"
    unfolding t_def free_link_def h1 Let_def using pb m2 s2 by simp
  show "brk t = brk h" "freep t = p" by (simp_all add: t)
  show "\<exists>b \<in> set (linked h A p B bp). hsize h bp \<le> hsize t b"
  proof (cases ?m2)
    case True
    then have "hsize h bp \<le> hsize t p" using pb by (simp add: t sz_def)
    then show ?thesis by (intro bexI[of _ p]) (simp_all add: linked_def)
  next
    case False
    then have "hsize h bp \<le> hsize t bp" using pb by (simp add: t sz_def)
    then show ?thesis using False by (intro bexI[of _ bp]) (simp_all add: linked_def)
  qed
  let ?mid = "if ?m2 then [] else [bp]"
  have l: "linked h A p B bp = A @ p # ?mid @ C" by (simp add: linked_def C_def)
  have ptr: "hptr t b = hptr h b" "hsize t b = hsize h b" if "b \<in> set A \<or> b \<in> set C" for b
    using that CB pA dA by (auto simp: t)
  have path1: "path t base A p" using PA path_cong[of A t h base p] ptr(1) by simp
  have path2: "path t nx C base" using nxC path_cong[of C t h nx base] ptr(1) by simp
  have pt: "path t base (linked h A p B bp) base"
    unfolding l path_append using path1 path2 pb by (auto simp: t)
  have sorC: "block_end t c < d" if "C = d # ds" "c = (if ?m2 then p else bp)" for c d ds
  proof -
    have e: "block_end t c = bp + HDR * sz"
      using that(2) pb by (auto simp: t block_end_def add_mult_distrib2)
    show ?thesis
    proof (cases ?m1)
      case True
      then have "tl B = d # ds" using that(1) unfolding C_def by simp
      then obtain q where "B = q # d # ds" by (cases B) auto
      then show ?thesis unfolding e szb using True D(4) by (auto simp: gaps_append dest: gaps_tl)
    next
      case False
      then have "B = d # ds" using that(1) unfolding C_def by (simp only: if_False)
      then show ?thesis unfolding e szb using False be by auto
    qed
  qed
  have gC: "gaps t C"
  proof -
    have "gaps h B" using D(4) by (metis gaps_tl gaps_append list.exhaust gaps.simps(2) append.assoc append_Cons append_Nil gaps.simps(3))
    then have "gaps h C" by (cases B) (auto simp: C_def dest: gaps_tl)
    then show ?thesis using gaps_cong[of C t h] ptr(2) by simp
  qed
  have gAp: "gaps t (A @ [p])"
  proof -
    have "gaps h (A @ [p])"
    proof (cases B)
      case Nil
      then show ?thesis using D(4) by simp
    next
      case (Cons b bs)
      then show ?thesis using D(4) by (simp add: gaps_append)
    qed
    moreover have "gaps t (A @ [p]) = gaps h (A @ [p])" if "\<forall>a \<in> set A. hsize t a = hsize h a" for A
      using that
    proof (induction A)
      case (Cons a A)
      then show ?case by (cases A) (auto simp: block_end_def)
    qed simp
    ultimately show ?thesis using ptr(2) by simp
  qed
  have g: "gaps t (linked h A p B bp)"
  proof (cases ?m2)
    case True
    show ?thesis unfolding l using gAp gC sorC True by (cases C) (simp_all add: gaps_append)
  next
    case False
    have "block_end t p < bp" using pe False pb by (simp add: t block_end_def)
    moreover have "gaps t (bp # C)" using gC sorC False by (cases C) simp_all
    ultimately show ?thesis unfolding l using gAp False by (simp add: gaps_append)
  qed
  have ends: "block_end t b = block_end h b" if "b \<in> set A \<or> b \<in> set C" for b using ptr(2)[OF that] by (simp add: block_end_def)
  have endp: "block_end t p = (if ?m2 then bp + HDR * sz else block_end h p)"
    using pb by (auto simp: t block_end_def add_mult_distrib2)
  have endbp: "block_end t bp = bp + HDR * sz" if "\<not> ?m2" using pb that by (simp add: t block_end_def)
  have lim: "block_end t b < 2 ^ 32" if "b \<in> set (linked h A p B bp)" for b
    using that ends[of b] endp endbp szl D(8)[of b] CB unfolding l by (auto split: if_splits)
  have hdl: "hd (linked h A p B bp) = base" using D(2) by (cases A) (simp_all add: linked_def)
  have zero: "hsize t base = 0"
  proof -
    have "\<not> (?m2 \<and> p = base)" using D(6) base(2) by (auto simp: block_end_def)
    then show ?thesis using D(6) base(2) pb by (auto simp: t)
  qed
  show "free_blocks base t (linked h A p B bp)"
    unfolding free_blocks_def using hdl pt g D(5) zero lim by (simp add: linked_def t)
  have q: "block h bp \<union> (\<Union>b \<in> set B. block h b) = {bp..<bp + HDR * sz} \<union> (\<Union>b \<in> set C. block h b)"
  proof (cases ?m1)
    case True
    then obtain q where q: "B = q # C" "block_end h bp = q" by (cases B) (auto simp: C_def)
    have "block h bp \<union> block h q = {bp..<bp + HDR * sz}"
      using True q unfolding szb by (auto simp: block_def block_end_def)
    then show ?thesis unfolding q(1) by auto
  next
    case False
    then show ?thesis unfolding szb by (auto simp: C_def block_def)
  qed
  have unA: "(\<Union>b \<in> set A. block t b) = (\<Union>b \<in> set A. block h b)" "(\<Union>b \<in> set C. block t b) = (\<Union>b \<in> set C. block h b)"
    using ends by (simp_all add: block_def)
  have mid: "block t p \<union> (\<Union>b \<in> set ?mid. block t b) = block h p \<union> {bp..<bp + HDR * sz}"
    using endp endbp pe bp(1) by (auto simp: block_def block_end_def)
  show "free_bytes t (linked h A p B bp) = free_bytes h (A @ p # B) \<union> block h bp"
  proof -
    have "free_bytes t (linked h A p B bp) = (\<Union>b \<in> set A. block h b) \<union> (block t p \<union> (\<Union>b \<in> set ?mid. block t b)) \<union> (\<Union>b \<in> set C. block h b)"
      unfolding l free_bytes_def set_append set_simps Un_insert_left UN_Un UN_insert list.set unA[symmetric] by blast
    also have "\<dots> = (\<Union>b \<in> set A. block h b) \<union> block h p \<union> (block h bp \<union> (\<Union>b \<in> set B. block h b))"
      unfolding mid q by blast
    finally show ?thesis unfolding free_bytes_def by auto
  qed
qed

subsection \<open>The heap\<close>

text \<open>All blocks lie below the break.\<close>

definition heap_ok :: "nat \<Rightarrow> uheap \<Rightarrow> nat list \<Rightarrow> bool" where
  "heap_ok base h bs \<longleftrightarrow> free_blocks base h bs \<and> (\<forall>b \<in> set bs. b < brk h \<and> block_end h b \<le> brk h)"

lemma linked_sub: "set (linked h A p B bp) \<subseteq> insert bp (set (A @ p # B))"
  by (auto simp: linked_def dest: list.set_sel(2))

text \<open>\<open>free\<close> ends and adds exactly the block to the free bytes.\<close>

lemma free_spec:
  assumes F: "free_blocks base h bs" and R: "freeable h bs bp"
  shows "\<exists>t bs'. free (bp + HDR) h = Some t \<and> free_blocks base t bs' \<and> free_bytes t bs' = free_bytes h bs \<union> block h bp
    \<and> brk t = brk h \<and> freep t \<in> set bs \<and> (\<forall>b \<in> set bs'. b = bp \<or> b \<in> set bs)
    \<and> (\<exists>b \<in> set bs'. hsize h bp \<le> hsize t b)"
proof -
  note D = free_blocksD[OF F]
  have nin: "bp \<notin> set bs" "hd bs < bp" "block_end h bp < 2 ^ 32" "0 < hsize h bp" using R by (simp_all add: freeable_def)
  obtain A p B where s: "bs = A @ p # B" "\<forall>a \<in> set (A @ [p]). a < bp" "\<forall>b \<in> set B. bp < b"
    using split_at[OF D(9,1) nin(2,1)] by blast
  have bp: "usub (bp + HDR) HDR = bp"
    using nin(3,4) by (intro trans[OF usub_small]) (auto simp: block_end_def HDR_def)
  have "free_find h bp (freep h) = Some p"
    using free_find_spec[of base h A p B "freep h" bp] F D(7) s by simp
  then have f: "free (bp + HDR) h = Some (free_link bp p h)" by (simp add: free_def bp)
  note L = free_link_spec[OF F[unfolded s(1)] R[unfolded s(1)] s(2,3)]
  have "\<forall>b \<in> set (linked h A p B bp). b = bp \<or> b \<in> set bs" using linked_sub[of h A p B bp] unfolding s(1) by auto
  then show ?thesis using f L s(1) by (intro exI[of _ "free_link bp p h"] exI[of _ "linked h A p B bp"]) auto
qed

lemma usub_usize: "m \<le> n \<Longrightarrow> b + HDR * n < 2 ^ 32 \<Longrightarrow> usub n m = n - m"
  by (rule usub_small) (simp_all add: HDR_def)

lemma gaps_apart:
  assumes "gaps h bs" "x \<in> set bs" "y \<in> set bs" "x < y"
  shows "block_end h x \<le> y"
proof -
  have D: "sorted_wrt (<) bs" using assms(1) by (rule gaps_sorted)
  obtain U V where u: "bs = U @ x # V" using split_list[OF assms(2)] by blast
  have y: "y \<in> set V" using assms(3,4) D unfolding u by (auto simp: sorted_wrt_append)
  then obtain v V' where v: "V = v # V'" by (cases V) auto
  have "block_end h x < v" using assms(1) unfolding u v by (simp add: gaps_append)
  moreover have "v \<le> y" using y D unfolding u v by (auto simp: sorted_wrt_append)
  ultimately show ?thesis by simp
qed

text \<open>A block the loop of \<open>malloc\<close> takes.\<close>

lemma take_block_spec:
  assumes H: "heap_ok base h bs" and a: "a \<in> set bs" "b = hptr h a" "b \<in> set bs" and n: "0 < n" "n \<le> hsize h b"
  obtains q t bs' where "take_block n a b h = (q + HDR, t)" "heap_ok base t bs'" "hsize t q = n" "block t q \<subseteq> free_bytes h bs"
    "free_bytes t bs' = free_bytes h bs - block t q" "brk t = brk h" "freeable t bs' q"
proof -
  have F: "free_blocks base h bs" using H by (simp add: heap_ok_def)
  note D = free_blocksD[OF F]
  have bb: "b \<noteq> base" using D(6) n by auto
  obtain X Y where xy: "bs = X @ a # Y" using split_list[OF a(1)] by blast
  have P: "path h base X a" "path h b Y base" using D(3) unfolding xy path_append by (auto simp: a(2))
  then obtain Z where z: "Y = b # Z" using bb by (cases Y) auto
  have bs: "bs = X @ a # b # Z" by (simp add: xy z)
  have srt: "sorted_wrt (<) (X @ a # b # Z)" using D(9) by (simp add: bs)
  have nin: "a \<notin> set X" "b \<notin> set X" "a \<noteq> b" "b \<notin> set Z" "a \<notin> set Z" using srt by (auto simp: sorted_wrt_append)
  have be: "block_end h b < 2 ^ 32" "block_end h b \<le> brk h" using D(8)[OF a(3)] H a(3) by (auto simp: heap_ok_def)
  note ord = gaps_apart[OF D(4)]
  have disj: "block h c \<inter> block h b = {}" if "c \<in> set bs" "c \<noteq> b" for c
    using ord[OF that(1) a(3)] ord[OF a(3) that(1)] that(2) by (cases "c < b") (auto simp: block_def)
  have lo: "base \<le> b" using D(2,9) a(3) unfolding bs by (cases X) (auto simp: sorted_wrt_append)
  have apart: "block_end h c \<le> b \<or> block_end h b \<le> c" if "c \<in> set bs" "c \<noteq> b" for c
    using ord[OF that(1) a(3)] ord[OF a(3) that(1)] that(2) by (cases "c < b") auto
  show ?thesis
  proof (cases "hsize h b = n")
    case True
    let ?t = "(set_ptr a (hptr h b) h)\<lparr>freep := a\<rparr>"
    have tk: "take_block n a b h = (b + HDR, ?t)"
      using True n be(1) by (simp add: take_block_def hadd_def block_end_def uadd_small HDR_def)
    have blk: "block ?t c = block h c" "block_end ?t c = block_end h c" for c by (simp_all add: block_def block_end_def)
    have "path ?t base X a = path h base X a" by (rule path_cong) (use nin(1) in auto)
    moreover have "path ?t (hptr h b) Z base = path h (hptr h b) Z base" by (rule path_cong) (use nin(5) in auto)
    ultimately have pt: "path ?t base (X @ a # Z) base" using P by (auto simp: path_append z)
    have "gaps h (X @ [a])" "block_end h a < b" "gaps h (b # Z)" using D(4) unfolding bs by (simp_all add: gaps_append)
    then have "gaps h (X @ a # Z)" by (cases Z) (auto simp: gaps_append block_end_def)
    then have g: "gaps ?t (X @ a # Z)" using gaps_cong[of "X @ a # Z" ?t h] by simp
    have hd: "hd (X @ a # Z) = base" using D(2) unfolding bs by (cases X) auto
    have "free_blocks base ?t (X @ a # Z)"
      unfolding free_blocks_def using pt g hd D(5,6,8) by (auto simp: blk bs)
    then have "heap_ok base ?t (X @ a # Z)" using H by (auto simp: heap_ok_def blk bs)
    moreover have "free_bytes ?t (X @ a # Z) = free_bytes h bs - block ?t b"
      using disj nin unfolding free_bytes_def blk bs by auto
    moreover have "block ?t b \<subseteq> free_bytes h bs" using a(3) by (auto simp: free_bytes_def blk)
    moreover have "freeable ?t (X @ a # Z) b"
      using nin lo bb be(1) n hd apart unfolding freeable_def blk by (auto simp: bs)
    ultimately show ?thesis using that[OF tk] True by simp
  next
    case False
    then have lt: "n < hsize h b" using n(2) by simp
    let ?m = "hsize h b - n"
    let ?q = "b + HDR * ?m"
    let ?t = "(set_size ?q n (set_size b ?m h))\<lparr>freep := a\<rparr>"
    have tail: "?q + HDR * n = block_end h b"
      using n(2) by (simp add: block_end_def add.assoc flip: add_mult_distrib2)
    have eqs: "usub (hsize h b) n = ?m" "hadd b ?m = ?q" "hadd ?q 1 = ?q + HDR"
    proof -
      show "usub (hsize h b) n = ?m" by (rule usub_usize[OF n(2)]) (use be(1) in \<open>simp add: block_end_def\<close>)
      have l: "?q + HDR * n < 2 ^ 32" using be(1) tail by simp
      then show "hadd b ?m = ?q" unfolding hadd_def by (intro uadd_small) (simp add: HDR_def)
      show "hadd ?q 1 = ?q + HDR" unfolding hadd_def using l n(1) by (subst uadd_small) (auto simp: HDR_def)
    qed
    have tk: "take_block n a b h = (?q + HDR, ?t)" using False by (simp add: take_block_def Let_def eqs)
    have qb: "?q \<noteq> b" "b < ?q" "?q < block_end h b" using lt n(1) by (auto simp: block_end_def HDR_def)
    have qn: "?q \<notin> set bs"
    proof
      assume q: "?q \<in> set bs"
      then have "?q \<in> set Z" using q qb(2) srt unfolding bs by (auto simp: sorted_wrt_append)
      then obtain w W where w: "Z = w # W" by (cases Z) auto
      have "block_end h b < w" using D(4) unfolding bs w by (simp add: gaps_append)
      moreover have "w \<le> ?q" using \<open>?q \<in> set Z\<close> srt unfolding w by (auto simp: sorted_wrt_append)
      ultimately show False using qb(3) by simp
    qed
    have sz: "hsize ?t c = (if c = b then ?m else hsize h c)" if "c \<in> set bs" for c using that qn qb(1) by auto
    have bl: "block_end ?t c = (if c = b then ?q else block_end h c)" if "c \<in> set bs" for c
      using sz[OF that] by (simp add: block_end_def)
    have "path ?t base bs base" using D(3) path_cong[of bs ?t h base base] by simp
    moreover have "gaps ?t bs"
    proof -
      have sz2: "hsize ?t c = hsize h c" if "c \<in> set bs" "c \<noteq> b" for c using sz[OF that(1)] that(2) by simp
      have "gaps ?t (X @ [a]) = gaps h (X @ [a])" by (rule gaps_cong, rule sz2) (use nin in \<open>auto simp: bs\<close>)
      moreover have "gaps ?t Z = gaps h Z" by (rule gaps_cong, rule sz2) (use nin in \<open>auto simp: bs\<close>)
      moreover have "gaps h (X @ [a])" "block_end h a < b" "gaps h (b # Z)" using D(4) unfolding bs by (simp_all add: gaps_append)
      moreover have "gaps ?t (b # Z)" if "gaps h (b # Z)" "gaps ?t Z"
      proof (cases Z)
        case (Cons w W)
        then show ?thesis using that bl[OF a(3)] qb(3) by simp
      qed simp
      moreover have "block_end ?t a = block_end h a" using bl[OF a(1)] nin(3) by simp
      ultimately show ?thesis unfolding bs gaps_append using gaps_tl by auto
    qed
    moreover have "hsize ?t base = 0" using sz[OF D(10)] D(6) bb by simp
    moreover have "block_end ?t c \<le> block_end h c" if "c \<in> set bs" for c using bl[OF that] qb(3) by simp
    moreover have "freep ?t \<in> set bs" using a(1) by simp
    ultimately have "free_blocks base ?t bs"
      unfolding free_blocks_def using D(1,2,5,8) le_less_trans by blast
    moreover have "brk ?t = brk h" by simp
    moreover have "block_end ?t c \<le> brk h" if "c \<in> set bs" for c
      using bl[OF that] qb(3) H that be(2) by (auto simp: heap_ok_def)
    ultimately have ok: "heap_ok base ?t bs" using H by (auto simp: heap_ok_def)
    have "block ?t ?q = {?q..<?q + HDR * n}" by (simp add: block_def block_end_def)
    then have bq: "block ?t ?q = {?q..<block_end h b}" unfolding tail .
    have hb: "block h b = {b..<?q} \<union> {?q..<block_end h b}" using qb by (auto simp: block_def)
    have tb: "block ?t c = (if c = b then {b..<?q} else block h c)" if "c \<in> set bs" for c
      using bl[OF that] by (simp add: block_def)
    have oc: False if "x \<in> block h c" "c \<in> set bs" "c \<noteq> b" "?q \<le> x" "x < block_end h b" for x c
      using disj[OF that(2,3)] that(1,4,5) unfolding hb by auto
    have "free_bytes ?t bs = (\<Union>c \<in> set bs. if c = b then {b..<?q} else block h c)"
      unfolding free_bytes_def by (rule SUP_cong[OF refl tb])
    also have "\<dots> = free_bytes h bs - {?q..<block_end h b}"
      unfolding free_bytes_def using a(3) hb by (auto split: if_splits dest: oc)
    finally have "free_bytes ?t bs = free_bytes h bs - block ?t ?q" unfolding bq .
    moreover have "block ?t ?q \<subseteq> free_bytes h bs" unfolding bq free_bytes_def using a(3) hb by auto
    moreover have "freeable ?t bs ?q"
    proof -
      have e: "block_end ?t ?q = block_end h b" using tail by (simp add: block_end_def)
      have "block_end ?t c \<le> ?q \<or> block_end ?t ?q \<le> c" if "c \<in> set bs" for c
        using apart[OF that] bl[OF that] qb(2) unfolding e by (cases "c = b") auto
      moreover have "hd bs < ?q" unfolding D(2) using lo qb(2) by (rule le_less_trans)
      ultimately show ?thesis using qn be(1) n(1) unfolding freeable_def e by auto
    qed
    ultimately show ?thesis using that[OF tk ok] by simp
  qed
qed

subsection \<open>malloc\<close>

definition heap_more :: "(nat \<Rightarrow> bool) \<Rightarrow> nat \<Rightarrow> uheap \<Rightarrow> (nat \<times> uheap) option" where
  "heap_more grant n h = Option.bind (morecore grant n h) (\<lambda>(p, h).
     if p = 0 then Some (0, h) else malloc_loop grant n p (hptr h p) h)"

text \<open>The loop takes the first block that is large enough, or comes round to \<open>freep\<close> and asks for memory.\<close>

lemma walk:
  "path h p (us @ [f]) z \<Longrightarrow> f = freep h \<Longrightarrow> f \<notin> set us \<Longrightarrow> hptr h a = p \<Longrightarrow>
    if \<exists>b \<in> set (us @ [f]). n \<le> hsize h b
    then \<exists>a' b. malloc_loop g n a p h = Some (take_block n a' b h) \<and> b = hptr h a' \<and> b \<in> set (us @ [f])
      \<and> n \<le> hsize h b \<and> a' \<in> insert a (set us)
    else malloc_loop g n a p h = heap_more g n h"
proof (induction us arbitrary: p a)
  case Nil
  then have p: "p = freep h" "f = freep h" by simp_all
  show ?case unfolding p using Nil.prems(4) p(1)
    by (cases "n \<le> hsize h (freep h)") (auto simp: malloc_loop.simps[of g n a "freep h" h] heap_more_def)
next
  case (Cons u us)
  have p: "p = u" "path h (hptr h u) (us @ [f]) z" "f \<noteq> u" "f \<notin> set us" using Cons.prems(1,3) by auto
  show ?case
  proof (cases "n \<le> hsize h u")
    case True
    have "malloc_loop g n a p h = Some (take_block n a u h)" using True unfolding p(1) by (simp add: malloc_loop.simps[of g n a u h])
    then have "\<exists>a' b. malloc_loop g n a p h = Some (take_block n a' b h) \<and> b = hptr h a' \<and> b \<in> set ((u # us) @ [f])
      \<and> n \<le> hsize h b \<and> a' \<in> insert a (set (u # us))"
      using True Cons.prems(4) p(1) by (intro exI[of _ a] exI[of _ u]) simp
    then show ?thesis using True by auto
  next
    case False
    have e: "malloc_loop g n a p h = malloc_loop g n u (hptr h u) h"
      using False p(3) Cons.prems(2) unfolding p(1) by (simp add: malloc_loop.simps[of g n a u h])
    have ex: "(\<exists>b \<in> set ((u # us) @ [f]). n \<le> hsize h b) \<longleftrightarrow> (\<exists>b \<in> set (us @ [f]). n \<le> hsize h b)" using False by simp
    show ?thesis
    proof (cases "\<exists>b \<in> set (us @ [f]). n \<le> hsize h b")
      case True
      then obtain a' b where "malloc_loop g n u (hptr h u) h = Some (take_block n a' b h)" "b = hptr h a'" "b \<in> set (us @ [f])"
        "n \<le> hsize h b" "a' \<in> insert u (set us)" using Cons.IH[OF p(2) Cons.prems(2) p(4) refl] by auto
      then show ?thesis unfolding ex if_P[OF True] e by auto
    next
      case False
      then show ?thesis using Cons.IH[OF p(2) Cons.prems(2) p(4) refl] unfolding ex e by simp
    qed
  qed
qed

lemma malloc_walk:
  assumes F: "free_blocks base h bs"
  shows "if \<exists>b \<in> set bs. n \<le> hsize h b
    then \<exists>a b. malloc_loop g n (freep h) (hptr h (freep h)) h = Some (take_block n a b h) \<and> b = hptr h a \<and> b \<in> set bs
      \<and> n \<le> hsize h b \<and> a \<in> set bs
    else malloc_loop g n (freep h) (hptr h (freep h)) h = heap_more g n h"
proof -
  note D = free_blocksD[OF F]
  obtain xs ys where xy: "bs = xs @ freep h # ys" using split_list[OF D(7)] by blast
  have P: "path h base xs (freep h)" "path h (hptr h (freep h)) ys base" using D(3) unfolding xy path_append by auto
  then have c: "path h (hptr h (freep h)) ((ys @ xs) @ [freep h]) (hptr h (freep h))" unfolding path_append by auto
  have nf: "freep h \<notin> set (ys @ xs)" using D(9) unfolding xy by (auto simp: sorted_wrt_append)
  have s: "set ((ys @ xs) @ [freep h]) = set bs" "insert (freep h) (set (ys @ xs)) = set bs" unfolding xy by auto
  show ?thesis using walk[OF c refl nf refl, of n g] unfolding s .
qed

lemma block_le:
  assumes "{b..<e} \<subseteq> {..<k}" "b < k"
  shows "e \<le> (k :: nat)"
proof (cases "e \<le> b")
  case False
  then have "e - 1 \<in> {b..<e}" by auto
  then show ?thesis using assms(1) by auto
qed (use assms(2) in simp)

text \<open>\<open>morecore\<close>: the heap is unchanged, or grows by a block that is large enough.\<close>

lemma morecore_spec:
  assumes H: "heap_ok base h bs" and b: "brk h + HDR * max n 4096 < 2 ^ 32"
  shows "morecore g n h = Some (0, h) \<and> \<not> g (brk h + HDR * max n 4096) \<or> (\<exists>t bs'. morecore g n h = Some (freep t, t) \<and> freep t \<noteq> 0 \<and> heap_ok base t bs'
     \<and> free_bytes t bs' = free_bytes h bs \<union> {brk h..<brk t} \<and> brk t = brk h + HDR * max n 4096 \<and> g (brk t)
     \<and> (\<exists>b \<in> set bs'. n \<le> hsize t b))"
proof -
  have F: "free_blocks base h bs" using H by (simp add: heap_ok_def)
  note D = free_blocksD[OF F]
  let ?nu = "if n < 4096 then 4096 else n"
  have nu: "?nu = max n 4096" by (simp add: max_def)
  have u: "umul ?nu HDR = HDR * ?nu" using b unfolding nu by (simp add: umul_def mult.commute)
  have a: "uadd (brk h) (HDR * ?nu) = brk h + HDR * ?nu" using b unfolding nu by (rule uadd_small)
  let ?p = "brk h"
  let ?h = "set_size ?p ?nu (h\<lparr>brk := ?p + HDR * ?nu\<rparr>)"
  show ?thesis
  proof (cases "g (?p + HDR * ?nu)")
    case False
    then have "morecore g n h = Some (0, h)" by (simp add: morecore_def sbrk_def Let_def u a del: if_split)
    then show ?thesis using False unfolding nu by blast
  next
    case True
    have pn: "?p \<notin> set bs" using H by (auto simp: heap_ok_def)
    have one: "hadd ?p 1 = ?p + HDR" using b unfolding hadd_def by (subst uadd_small) (auto simp: HDR_def)
    have m: "morecore g n h = map_option (\<lambda>h. (freep h, h)) (free (?p + HDR) ?h)"
      using True by (simp add: morecore_def sbrk_def Let_def u a one del: if_split)
    have sz: "hsize ?h b = hsize h b" if "b \<in> set bs" for b using that pn by auto
    have bl: "block_end ?h b = block_end h b" if "b \<in> set bs" for b using sz[OF that] by (simp add: block_end_def)
    have "path ?h base bs base = path h base bs base" by (rule path_cong) simp
    moreover have "gaps ?h bs = gaps h bs" by (rule gaps_cong) (rule sz)
    moreover have "freep ?h = freep h" by simp
    ultimately have Fh: "free_blocks base ?h bs"
      unfolding free_blocks_def using D(1-8) D(10) sz bl by simp
    have bp: "block_end ?h ?p = ?p + HDR * ?nu" "hsize ?h ?p = ?nu" by (simp_all add: block_end_def)
    have "hd bs < ?p" using H D(2,10) by (auto simp: heap_ok_def)
    moreover have "block_end ?h b \<le> ?p" if "b \<in> set bs" for b using bl[OF that] H that by (simp add: heap_ok_def)
    ultimately have R: "freeable ?h bs ?p" unfolding freeable_def bp using pn b unfolding nu by (auto simp: less_max_iff_disj)
    obtain t bs' where t: "free (?p + HDR) ?h = Some t" "free_blocks base t bs'" "free_bytes t bs' = free_bytes ?h bs \<union> block ?h ?p"
      "brk t = brk ?h" "\<forall>b \<in> set bs'. b = ?p \<or> b \<in> set bs" "\<exists>b \<in> set bs'. hsize ?h ?p \<le> hsize t b"
      using free_spec[OF Fh R] by blast
    have bt: "brk t = ?p + HDR * ?nu" using t(4) by simp
    have blk: "block ?h ?p = {brk h..<brk t}" by (simp add: block_def bp bt)
    have fb: "free_bytes ?h bs = free_bytes h bs" unfolding free_bytes_def by (rule SUP_cong[OF refl]) (simp add: block_def bl)
    have sub: "free_bytes h bs \<subseteq> {..<brk t}"
    proof
      fix x assume "x \<in> free_bytes h bs"
      then obtain b where "b \<in> set bs" "x < block_end h b" by (auto simp: free_bytes_def block_def)
      then show "x \<in> {..<brk t}" using H bt by (auto simp: heap_ok_def)
    qed
    have lt: "b < brk t" if "b \<in> set bs'" for b
    proof -
      have "0 < HDR * ?nu" by (simp add: HDR_def)
      then show ?thesis using that t(5) H unfolding bt heap_ok_def by (metis add_lessD1 le_add1 less_add_same_cancel1 order_less_le_trans)
    qed
    have "block_end t b \<le> brk t" if "b \<in> set bs'" for b
    proof -
      have "{b..<block_end t b} \<subseteq> free_bytes t bs'" using that by (auto simp: free_bytes_def block_def)
      then have "{b..<block_end t b} \<subseteq> {..<brk t}" using sub unfolding t(3) fb blk by auto
      then show ?thesis using block_le[of b "block_end t b" "brk t"] lt[OF that] by simp
    qed
    then have ok: "heap_ok base t bs'" using t(2) lt by (simp add: heap_ok_def)
    have "base \<le> freep t" using free_blocksD[OF t(2)] by (cases bs') auto
    then have nz: "freep t \<noteq> 0" using D(5) by simp
    have "n \<le> ?nu" by simp
    then have big: "\<exists>b \<in> set bs'. n \<le> hsize t b" using t(6) unfolding bp by (meson order_trans)
    have "morecore g n h = Some (freep t, t)" using m t(1) by simp
    moreover have "free_bytes t bs' = free_bytes h bs \<union> {brk h..<brk t}" using t(3) unfolding fb blk .
    moreover have "g (brk t)" using True unfolding bt .
    moreover have "brk t = brk h + HDR * max n 4096" using bt unfolding nu .
    ultimately show ?thesis using ok nz big by blast
  qed
qed

text \<open>
  \<open>malloc\<close> returns: a block taken from the free bytes, to which \<open>morecore\<close> may have added those of a
  larger break, or the null pointer when the kernel refuses and no block is large enough.
\<close>

lemma malloc_loop_spec:
  assumes H: "heap_ok base h bs" and n: "0 < n" and b: "brk h + HDR * max n 4096 < 2 ^ 32"
  shows "\<exists>r t bs'. malloc_loop g n (freep h) (hptr h (freep h)) h = Some (r, t) \<and> heap_ok base t bs' \<and> brk h \<le> brk t \<and>
    (r = 0 \<and> t = h \<and> (\<forall>b \<in> set bs. hsize h b < n) \<and> \<not> g (brk h + HDR * max n 4096) \<and> bs' = bs
     \<or> HDR \<le> r \<and> hsize t (r - HDR) = n \<and> block t (r - HDR) \<subseteq> free_bytes h bs \<union> {brk h..<brk t}
       \<and> free_bytes t bs' = (free_bytes h bs \<union> {brk h..<brk t}) - block t (r - HDR) \<and> freeable t bs' (r - HDR))"
proof -
  have found: "\<exists>r t bs'. malloc_loop g n (freep h) (hptr h (freep h)) h = Some (r, t) \<and> heap_ok base t bs' \<and> brk t = brk h
      \<and> HDR \<le> r \<and> hsize t (r - HDR) = n \<and> block t (r - HDR) \<subseteq> free_bytes h bs \<and> free_bytes t bs' = free_bytes h bs - block t (r - HDR)
      \<and> freeable t bs' (r - HDR)"
    if H: "heap_ok base h bs" and ex: "\<exists>b \<in> set bs. n \<le> hsize h b" for h bs
  proof -
    have F: "free_blocks base h bs" using H by (simp add: heap_ok_def)
    obtain a b where ab: "malloc_loop g n (freep h) (hptr h (freep h)) h = Some (take_block n a b h)" "b = hptr h a" "b \<in> set bs"
      "n \<le> hsize h b" "a \<in> set bs" using malloc_walk[OF F, of n g] ex by auto
    obtain q t bs' where "take_block n a b h = (q + HDR, t)" "heap_ok base t bs'" "hsize t q = n" "block t q \<subseteq> free_bytes h bs"
      "free_bytes t bs' = free_bytes h bs - block t q" "brk t = brk h" "freeable t bs' q" by (rule take_block_spec[OF H ab(5,2,3) n ab(4)])
    then show ?thesis using ab(1) by (intro exI[of _ "q + HDR"] exI[of _ t] exI[of _ bs']) simp
  qed
  have F: "free_blocks base h bs" using H by (simp add: heap_ok_def)
  show ?thesis
  proof (cases "\<exists>b \<in> set bs. n \<le> hsize h b")
    case True
    from found[OF H True] obtain r t bs' where "malloc_loop g n (freep h) (hptr h (freep h)) h = Some (r, t)" "heap_ok base t bs'"
      "brk t = brk h" "HDR \<le> r" "hsize t (r - HDR) = n" "block t (r - HDR) \<subseteq> free_bytes h bs"
      "free_bytes t bs' = free_bytes h bs - block t (r - HDR)" "freeable t bs' (r - HDR)" by blast
    then show ?thesis by (intro exI[of _ r] exI[of _ t] exI[of _ bs']) auto
  next
    case False
    then have m: "malloc_loop g n (freep h) (hptr h (freep h)) h = heap_more g n h" using malloc_walk[OF F, of n g] by simp
    have small: "\<forall>b \<in> set bs. hsize h b < n" using False by auto
    from morecore_spec[OF H b, of g] show ?thesis
    proof (elim disjE exE conjE)
      assume no: "morecore g n h = Some (0, h)" "\<not> g (brk h + HDR * max n 4096)"
      have "heap_more g n h = Some (0, h)" by (simp add: heap_more_def no(1))
      then show ?thesis using m H small no(2) by (intro exI[of _ 0] exI[of _ h] exI[of _ bs]) simp
    next
      fix u cs
      assume u: "morecore g n h = Some (freep u, u)" "freep u \<noteq> 0" "heap_ok base u cs" "free_bytes u cs = free_bytes h bs \<union> {brk h..<brk u}"
        "brk u = brk h + HDR * max n 4096" "\<exists>b \<in> set cs. n \<le> hsize u b"
      have "heap_more g n h = malloc_loop g n (freep u) (hptr u (freep u)) u" using u(1,2) by (simp add: heap_more_def)
      moreover from found[OF u(3,6)] obtain r t bs' where "malloc_loop g n (freep u) (hptr u (freep u)) u = Some (r, t)" "heap_ok base t bs'"
        "brk t = brk u" "HDR \<le> r" "hsize t (r - HDR) = n" "block t (r - HDR) \<subseteq> free_bytes u cs"
        "free_bytes t bs' = free_bytes u cs - block t (r - HDR)" "freeable t bs' (r - HDR)" by blast
      ultimately show ?thesis using m u(4,5) by (intro exI[of _ r] exI[of _ t] exI[of _ bs']) simp
    qed
  qed
qed

lemma malloc_init_brk [simp]: "brk (malloc_init base h) = brk h"
  by (simp add: malloc_init_def)

definition nunits_of :: "nat \<Rightarrow> nat" where
  "nunits_of nbytes = (nbytes + 7) div HDR + 1"

lemma nunits_of:
  assumes "nbytes < 2 ^ 30"
  shows "usub (uadd nbytes HDR) 1 div HDR + 1 = nunits_of nbytes" "nbytes + HDR \<le> HDR * nunits_of nbytes"
    "HDR * nunits_of nbytes < nbytes + 2 * HDR" "0 < nunits_of nbytes" "HDR * max (nunits_of nbytes) 4096 < 2 ^ 31"
proof -
  have "uadd nbytes HDR = nbytes + 8" using assms by (simp add: HDR_def uadd_small)
  moreover have "usub (nbytes + 8) 1 = nbytes + 7" using assms by (simp add: usub_small)
  ultimately show "usub (uadd nbytes HDR) 1 div HDR + 1 = nunits_of nbytes" by (simp add: nunits_of_def)
  show "nbytes + HDR \<le> HDR * nunits_of nbytes" "0 < nunits_of nbytes" unfolding nunits_of_def HDR_def by presburger+
  show l: "HDR * nunits_of nbytes < nbytes + 2 * HDR" unfolding nunits_of_def HDR_def by presburger
  then show "HDR * max (nunits_of nbytes) 4096 < 2 ^ 31" using assms by (simp add: HDR_def max_def)
qed

text \<open>
  C28. The allocator of user programs returns: on a well-formed heap \<open>malloc\<close> ends, with a block whose bytes
  come from the free ones or from the new break and are no longer free, and \<open>free\<close> of the pointer ends and
  makes exactly these bytes free again; or it returns the null pointer on an unchanged heap, when no free block
  is large enough and the kernel refuses the break.
\<close>

theorem malloc_free_return:
  assumes H: "heap_ok base (malloc_init base h) bs" and n: "nbytes < 2 ^ 30" and b: "brk h \<le> 2 ^ 31"
  shows "\<exists>r t bs'. malloc base g nbytes h = Some (r, t) \<and> heap_ok base t bs' \<and> brk h \<le> brk t \<and>
    (r = 0 \<and> t = malloc_init base h \<and> (\<forall>b \<in> set bs. HDR * hsize t b < nbytes + 2 * HDR)
       \<and> \<not> g (brk h + HDR * max (nunits_of nbytes) 4096)
     \<or> {r..<r + nbytes} \<subseteq> free_bytes (malloc_init base h) bs \<union> {brk h..<brk t} \<and> {r..<r + nbytes} \<inter> free_bytes t bs' = {}
       \<and> (\<exists>u cs. free r t = Some u \<and> free_blocks base u cs
            \<and> free_bytes u cs = free_bytes (malloc_init base h) bs \<union> {brk h..<brk t}))"
proof -
  let ?h = "malloc_init base h" and ?n = "nunits_of nbytes"
  note N = nunits_of[OF n]
  have bk: "brk ?h + HDR * max ?n 4096 < 2 ^ 32" using N(5) b by simp
  have m: "malloc base g nbytes h = malloc_loop g ?n (freep ?h) (hptr ?h (freep ?h)) ?h"
    by (simp add: malloc_def Let_def N(1)[symmetric])
  obtain r t bs' where M: "malloc base g nbytes h = Some (r, t)" "heap_ok base t bs'" "brk h \<le> brk t" and
    c: "r = 0 \<and> t = ?h \<and> (\<forall>b \<in> set bs. hsize ?h b < ?n) \<and> \<not> g (brk h + HDR * max ?n 4096) \<and> bs' = bs
      \<or> HDR \<le> r \<and> hsize t (r - HDR) = ?n \<and> block t (r - HDR) \<subseteq> free_bytes ?h bs \<union> {brk h..<brk t}
       \<and> free_bytes t bs' = (free_bytes ?h bs \<union> {brk h..<brk t}) - block t (r - HDR) \<and> freeable t bs' (r - HDR)"
    using malloc_loop_spec[OF H N(4) bk, of g] unfolding m malloc_init_brk by metis
  from c show ?thesis
  proof (elim disjE conjE)
    assume z: "r = 0" "t = ?h" "\<forall>b \<in> set bs. hsize ?h b < ?n" "\<not> g (brk h + HDR * max ?n 4096)"
    have "HDR * hsize t b < nbytes + 2 * HDR" if "b \<in> set bs" for b
      using z(2,3) that N(3) by (metis less_imp_le mult_le_mono2 order_le_less_trans)
    then show ?thesis using M z by blast
  next
    assume a: "HDR \<le> r" "hsize t (r - HDR) = ?n" "block t (r - HDR) \<subseteq> free_bytes ?h bs \<union> {brk h..<brk t}"
      "free_bytes t bs' = (free_bytes ?h bs \<union> {brk h..<brk t}) - block t (r - HDR)" "freeable t bs' (r - HDR)"
    have blk: "{r..<r + nbytes} \<subseteq> block t (r - HDR)" using a(1,2) N(2) by (auto simp: block_def block_end_def)
    have r: "r - HDR + HDR = r" using a(1) by simp
    have F: "free_blocks base t bs'" using M(2) by (simp add: heap_ok_def)
    obtain u cs where u: "free r t = Some u" "free_blocks base u cs" "free_bytes u cs = free_bytes t bs' \<union> block t (r - HDR)"
      using free_spec[OF F a(5)] unfolding r by blast
    have "free_bytes u cs = free_bytes ?h bs \<union> {brk h..<brk t}" using u(3) a(3,4) by auto
    moreover have "{r..<r + nbytes} \<inter> free_bytes t bs' = {}" "{r..<r + nbytes} \<subseteq> free_bytes ?h bs \<union> {brk h..<brk t}"
      using blk a(3,4) by auto
    ultimately show ?thesis using M u(1,2) by blast
  qed
qed

text \<open>The first call of a program: the list is empty, and the break moves by 4096 headers.\<close>

definition heap0 :: uheap where
  "heap0 = \<lparr>hptr = (\<lambda>_. 0), hsize = (\<lambda>_. 0), freep = 0, brk = 0x4000\<rparr>"

lemma heap0_ok: "heap_ok 0x1000 (malloc_init 0x1000 heap0) [0x1000]"
  by (simp add: heap_ok_def free_blocks_def malloc_init_def heap0_def block_end_def HDR_def)

theorem malloc_free_return_witness:
  "\<exists>r t bs'. malloc 0x1000 (\<lambda>_. True) 100 heap0 = Some (r, t) \<and> heap_ok 0x1000 t bs' \<and>
    {r..<r + 100} \<subseteq> {0x4000..<brk t} \<and> (\<exists>u. free r t = Some u)"
proof -
  have "free_bytes (malloc_init 0x1000 heap0) [0x1000] = {}"
    by (simp add: free_bytes_def block_def block_end_def malloc_init_def heap0_def)
  moreover have "brk heap0 = 0x4000" by (simp add: heap0_def)
  ultimately show ?thesis
    using malloc_free_return[OF heap0_ok, of 100 "\<lambda>_. True"] by auto
qed

end
