(* ===== verification/Ide.thy ===== *)
theory Ide
  imports Sync
begin

text \<open>
  The disk driver of ide.c: the queue of buffers linked by \<open>qnext\<close>, the commands sent to the disk
  through its ports, the interrupt that ends a request and starts the next one, and the processes that sleep
  until their buffer has been served. The disk itself is not code: it is the parameter \<open>A\<close>, what it does
  with the data of a write command and the data it returns for a read command, from the values of its ports.
  The values the status port returns are a parameter too, a function from the number of the read; a wait for
  the disk that never ends is the value \<open>None\<close>.
\<close>

unbundle bit_operations_syntax

record 'd ata =
  ata_out :: "(nat \<Rightarrow> nat) \<Rightarrow> block \<Rightarrow> 'd \<Rightarrow> 'd"
  ata_in :: "(nat \<Rightarrow> nat) \<Rightarrow> 'd \<Rightarrow> block"

record 'd ide =
  kern :: kst
  idequeue :: "nat option"
  qnext :: "nat \<Rightarrow> nat option"
  havedisk1 :: bool
  port :: "nat \<Rightarrow> nat"
  dev :: 'd

type_synonym ('a, 'd) ide_res = "('a, 'd ide) res option"

definition SECTOR_SIZE :: nat where "SECTOR_SIZE = 512"
definition IDE_BSY :: nat where "IDE_BSY = 0x80"
definition IDE_DRDY :: nat where "IDE_DRDY = 0x40"
definition IDE_DF :: nat where "IDE_DF = 0x20"
definition IDE_ERR :: nat where "IDE_ERR = 0x01"
definition IDE_CMD_READ :: nat where "IDE_CMD_READ = 0x20"
definition IDE_CMD_WRITE :: nat where "IDE_CMD_WRITE = 0x30"
definition IDE_CMD_RDMUL :: nat where "IDE_CMD_RDMUL = 0xc4"
definition IDE_CMD_WRMUL :: nat where "IDE_CMD_WRMUL = 0xc5"

lemmas ide_consts = SECTOR_SIZE_def IDE_BSY_def IDE_DRDY_def IDE_DF_def IDE_ERR_def IDE_CMD_READ_def
  IDE_CMD_WRITE_def IDE_CMD_RDMUL_def IDE_CMD_WRMUL_def

text \<open>Sequencing, and the operations of the kernel as operations of the driver.\<close>

definition ibind :: "('a, 'd) ide_res \<Rightarrow> ('a \<Rightarrow> 'd ide \<Rightarrow> ('b, 'd) ide_res) \<Rightarrow> ('b, 'd) ide_res" where
  "ibind m f = (case m of None \<Rightarrow> None | Some (Ok x s) \<Rightarrow> f x s | Some (Panic e) \<Rightarrow> Some (Panic e)
     | Some (Sched s) \<Rightarrow> Some (Sched s) | Some Undef \<Rightarrow> Some Undef)"

definition in_kern :: "(kst \<Rightarrow> 'a kres) \<Rightarrow> 'd ide \<Rightarrow> ('a, 'd) ide_res" where
  "in_kern m s = Some (case m (kern s) of Ok x k \<Rightarrow> Ok x (s\<lparr>kern := k\<rparr>) | Panic e \<Rightarrow> Panic e
     | Sched k \<Rightarrow> Sched (s\<lparr>kern := k\<rparr>) | Undef \<Rightarrow> Undef)"

lemma ibind_simps [simp]:
  "ibind None f = None" "ibind (Some (Ok x s)) f = f x s" "ibind (Some (Panic e)) f = Some (Panic e)"
  "ibind (Some (Sched s)) f = Some (Sched s)" "ibind (Some Undef) f = Some Undef"
  by (simp_all add: ibind_def)

definition ibuf :: "nat \<Rightarrow> 'd ide \<Rightarrow> buf" where
  "ibuf i s = bufs (kern s) ! i"

definition ide_upd :: "nat \<Rightarrow> (buf \<Rightarrow> buf) \<Rightarrow> 'd ide \<Rightarrow> 'd ide" where
  "ide_upd i f s = s\<lparr>kern := upd_buf i f (kern s)\<rparr>"

definition outb :: "nat \<Rightarrow> nat \<Rightarrow> 'd ide \<Rightarrow> 'd ide" where
  "outb p v s = s\<lparr>port := (port s)(p := v mod 256)\<rparr>"

subsection \<open>The driver\<close>

text \<open>\<open>idewait\<close>: \<open>r\<close> are the values of the status port.\<close>

partial_function (option) idewait_loop :: "(nat \<Rightarrow> nat) \<Rightarrow> nat option" where
  "idewait_loop r = (if r 0 AND (IDE_BSY OR IDE_DRDY) \<noteq> IDE_DRDY then idewait_loop (\<lambda>n. r (n + 1)) else Some (r 0))"

definition idewait :: "bool \<Rightarrow> (nat \<Rightarrow> nat) \<Rightarrow> int option" where
  "idewait checkerr r = map_option (\<lambda>v. if checkerr \<and> v AND (IDE_DF OR IDE_ERR) \<noteq> 0 then - 1 else 0) (idewait_loop r)"

definition ideinit :: "(nat \<Rightarrow> nat) \<Rightarrow> (nat \<Rightarrow> nat) \<Rightarrow> 'd ide \<Rightarrow> 'd ide option" where
  "ideinit r r1 s = map_option (\<lambda>_.
     let s = outb 0x1f6 (0xe0 OR push_bit 4 1) s;
         s = (if \<exists>i \<in> set [0..<1000]. r1 i \<noteq> 0 then s\<lparr>havedisk1 := True\<rparr> else s) in
     outb 0x1f6 0xe0 s) (idewait False r)"

definition idestart :: "'d ata \<Rightarrow> (nat \<Rightarrow> nat) \<Rightarrow> nat option \<Rightarrow> 'd ide \<Rightarrow> (unit, 'd) ide_res" where
  "idestart A r b s = (case b of None \<Rightarrow> Some (Panic ''idestart'') | Some i \<Rightarrow>
     let b = ibuf i s in
     if b_blockno b \<ge> FSSIZE then Some (Panic ''incorrect blockno'') else
     let sector_per_block = BSIZE div SECTOR_SIZE;
         sector = b_blockno b * sector_per_block;
         read_cmd = (if sector_per_block = 1 then IDE_CMD_READ else IDE_CMD_RDMUL);
         write_cmd = (if sector_per_block = 1 then IDE_CMD_WRITE else IDE_CMD_WRMUL) in
     if sector_per_block > 7 then Some (Panic ''idestart'') else
     map_option (\<lambda>_.
       let s = outb 0x3f6 0 s;
           s = outb 0x1f2 sector_per_block s;
           s = outb 0x1f3 (sector AND 0xff) s;
           s = outb 0x1f4 (drop_bit 8 sector AND 0xff) s;
           s = outb 0x1f5 (drop_bit 16 sector AND 0xff) s;
           s = outb 0x1f6 (0xe0 OR push_bit 4 (b_dev b AND 1) OR (drop_bit 24 sector AND 0x0f)) s in
       Ok () (if b_dirty b
         then let s = outb 0x1f7 write_cmd s in s\<lparr>dev := ata_out A (port s) (b_data b) (dev s)\<rparr>
         else outb 0x1f7 read_cmd s)) (idewait False r))"

text \<open>The interrupt handler; \<open>r1\<close> are the status values before the data are read, \<open>r2\<close> those before the next command.\<close>

definition ideintr :: "'d ata \<Rightarrow> (nat \<Rightarrow> nat) \<Rightarrow> (nat \<Rightarrow> nat) \<Rightarrow> 'd ide \<Rightarrow> (unit, 'd) ide_res" where
  "ideintr A r1 r2 s = ibind (in_kern (acquire LIde) s) (\<lambda>_ s.
     case idequeue s of
       None \<Rightarrow> in_kern (release LIde) s
     | Some i \<Rightarrow>
         let s = s\<lparr>idequeue := qnext s i\<rparr> in
         case (if b_dirty (ibuf i s) then Some s
               else map_option (\<lambda>e. if e \<ge> 0 then ide_upd i (\<lambda>b. b\<lparr>b_data := ata_in A (port s) (dev s)\<rparr>) s else s)
                 (idewait True r1)) of
           None \<Rightarrow> None
         | Some s \<Rightarrow>
             let s = ide_upd i (\<lambda>b. b\<lparr>b_valid := True, b_dirty := False\<rparr>) s in
             ibind (in_kern (wakeup (Some (ChBuf i))) s) (\<lambda>_ s.
             ibind (if idequeue s \<noteq> None then idestart A r2 (idequeue s) s else Some (Ok () s)) (\<lambda>_ s.
             in_kern (release LIde) s)))"

text \<open>The last buffer of the queue that starts at \<open>i\<close>.\<close>

partial_function (option) queue_last :: "(nat \<Rightarrow> nat option) \<Rightarrow> nat \<Rightarrow> nat option" where
  "queue_last q i = (case q i of None \<Rightarrow> Some i | Some j \<Rightarrow> queue_last q j)"

text \<open>The wait of \<open>iderw\<close>, as it is entered and as it goes on after each \<open>sleep\<close>.\<close>

definition iderw_wait :: "nat \<Rightarrow> 'd ide \<Rightarrow> (unit, 'd) ide_res" where
  "iderw_wait i s = (if \<not> (b_valid (ibuf i s) \<and> \<not> b_dirty (ibuf i s))
     then in_kern (sleep (ChBuf i) (Some LIde)) s else in_kern (release LIde) s)"

definition iderw_again :: "nat \<Rightarrow> 'd ide \<Rightarrow> (unit, 'd) ide_res" where
  "iderw_again i s = ibind (in_kern (sleep_resume LIde) s) (\<lambda>_ s. iderw_wait i s)"

definition ide_iderw :: "'d ata \<Rightarrow> (nat \<Rightarrow> nat) \<Rightarrow> nat \<Rightarrow> 'd ide \<Rightarrow> (unit, 'd) ide_res" where
  "ide_iderw A r i s = ibind (in_kern (holdingsleep (SBuf i)) s) (\<lambda>h s.
     let b = ibuf i s in
     if \<not> h then Some (Panic ''iderw: buf not locked'')
     else if b_valid b \<and> \<not> b_dirty b then Some (Panic ''iderw: nothing to do'')
     else if b_dev b \<noteq> 0 \<and> \<not> havedisk1 s then Some (Panic ''iderw: ide disk 1 not present'')
     else ibind (in_kern (acquire LIde) s) (\<lambda>_ s.
       let s = s\<lparr>qnext := (qnext s)(i := None)\<rparr> in
       case (case idequeue s of None \<Rightarrow> Some (s\<lparr>idequeue := Some i\<rparr>)
             | Some j \<Rightarrow> map_option (\<lambda>l. s\<lparr>qnext := (qnext s)(l := Some i)\<rparr>) (queue_last (qnext s) j)) of
         None \<Rightarrow> None
       | Some s \<Rightarrow>
           ibind (if idequeue s = Some i then idestart A r (Some i) s else Some (Ok () s)) (\<lambda>_ s.
           iderw_wait i s)))"

subsection \<open>The disk\<close>

text \<open>
  What a disk does: the ports 0x1f3 to 0x1f6 hold the drive and the number of a sector. The command 0x20 with
  a sector count of 1 returns the content of that sector, the command 0x30 replaces it by the data. \<open>c\<close>
  is the content of the sectors in a state of the disk.
\<close>

definition ata_addr :: "(nat \<Rightarrow> nat) \<Rightarrow> bool \<times> nat" where
  "ata_addr p = (p 0x1f6 AND 0x10 \<noteq> 0, p 0x1f3 + 2 ^ 8 * p 0x1f4 + 2 ^ 16 * p 0x1f5 + 2 ^ 24 * (p 0x1f6 AND 0x0f))"

definition disk_laws :: "'d ata \<Rightarrow> ('d \<Rightarrow> bool \<times> nat \<Rightarrow> block) \<Rightarrow> bool" where
  "disk_laws A c \<longleftrightarrow>
     (\<forall>p d. p 0x1f2 = 1 \<and> p 0x1f7 = 0x20 \<longrightarrow> ata_in A p d = c d (ata_addr p)) \<and>
     (\<forall>p x d. p 0x1f2 = 1 \<and> p 0x1f7 = 0x30 \<longrightarrow> c (ata_out A p x d) = (c d)(ata_addr p := x))"

end
