(* ===== verification/IdeSpec.thy ===== *)
theory IdeSpec
  imports Ide
begin

text \<open>
  The disk driver under any interleaving of requests and interrupts: \<open>ide_run\<close> is a step relation over the
  calls of \<open>iderw\<close>, its wait, the interrupts and everything else the kernel does; the specification
  is a disk that serves the requests one by one in the order in which they were made, as the memory disk
  of memide.c does.
\<close>

unbundle bit_operations_syntax

subsection \<open>Sequencing\<close>

lemma ibind_OkE:
  assumes "ibind m f = Some (Ok y u)"
  obtains x s where "m = Some (Ok x s)" "f x s = Some (Ok y u)"
  using assms by (auto simp: ibind_def split: option.splits res.splits)

lemma ibind_SchedE:
  assumes "ibind m f = Some (Sched u)"
  obtains "m = Some (Sched u)" | x s where "m = Some (Ok x s)" "f x s = Some (Sched u)"
  using assms by (auto simp: ibind_def split: option.splits res.splits)

lemma in_kern_Ok: "in_kern m s = Some (Ok x u) \<longleftrightarrow> (\<exists>k. m (kern s) = Ok x k \<and> u = s\<lparr>kern := k\<rparr>)"
  by (auto simp: in_kern_def split: res.splits)

lemma in_kern_Sched: "in_kern m s = Some (Sched u) \<longleftrightarrow> (\<exists>k. m (kern s) = Sched k \<and> u = s\<lparr>kern := k\<rparr>)"
  by (auto simp: in_kern_def split: res.splits)

lemma holdingsleep_OkD:
  "holdingsleep r s = Ok h t \<Longrightarrow> t = s \<and> h = (sl_locked (get_sl r s) \<and> sl_pid (get_sl r s) = pid (cur s))"
  unfolding holdingsleep_def acquire_def kguard_def by (auto simp: Let_def split: if_splits)

lemma holdingsleep_not_Sched: "holdingsleep r s \<noteq> Sched t"
  by (auto simp: holdingsleep_def acquire_def release_def kguard_def kbind_def split: if_splits)

lemma acquire_OkD: "acquire l s = Ok x t \<Longrightarrow> t = s\<lparr>held := l # held s\<rparr>"
  by (simp add: acquire_def split: if_splits)

lemma release_OkD: "release l s = Ok x t \<Longrightarrow> t = s\<lparr>held := remove1 l (held s)\<rparr>"
  by (simp add: release_def split: if_splits)

lemma lock_not_Sched: "acquire l s \<noteq> Sched t" "release l s \<noteq> Sched t" "wakeup c s \<noteq> Sched t"
  by (auto simp: acquire_def release_def wakeup_def kbind_def split: if_splits)

lemma wakeup_OkD: "wakeup c s = Ok x t \<Longrightarrow> t = wakeup1 c s"
  by (auto simp: wakeup_def acquire_def release_def kbind_def split: if_splits)

lemma sched_bufs: "sched (upd_proc p f m) = Sched k \<Longrightarrow> bufs k = bufs m"
  by (auto dest!: sched_Sched simp: upd_proc_def)

lemma sleep_SchedD:
  assumes "sleep ch lk s = Sched t"
  shows "bufs t = bufs s"
proof -
  obtain p l where p: "curproc s = Some p" "lk = Some l" using assms by (auto simp: sleep_def split: option.splits)
  have "bufs k = bufs s" if "(if l \<noteq> LPtable then kbind (acquire LPtable s) (\<lambda>_ s. release l s) else Ok () s) = Ok x k" for x k
    using that by (auto simp: acquire_def release_def kbind_def split: if_splits)
  moreover have "(if l \<noteq> LPtable then kbind (acquire LPtable s) (\<lambda>_ s. release l s) else Ok () s) \<noteq> Sched k" for k
    by (auto simp: acquire_def release_def kbind_def split: if_splits)
  ultimately show ?thesis using assms p
    by (auto simp: sleep_def kbind_def split: res.splits dest!: sched_bufs)
qed

lemma sleep_resume_bufs: "sleep_resume l s = Ok x t \<Longrightarrow> bufs t = bufs s"
  by (auto simp: sleep_resume_def Let_def acquire_def release_def kbind_def upd_proc_def split: if_splits option.splits)

lemma sleep_resume_not_Sched: "sleep_resume l s \<noteq> Sched t"
  by (auto simp: sleep_resume_def Let_def acquire_def release_def kbind_def split: if_splits option.splits)

subsection \<open>The queue\<close>

fun chain :: "(nat \<Rightarrow> nat option) \<Rightarrow> nat list \<Rightarrow> bool" where
  "chain q [] \<longleftrightarrow> True"
| "chain q [i] \<longleftrightarrow> q i = None"
| "chain q (i # j # js) \<longleftrightarrow> q i = Some j \<and> chain q (j # js)"

definition ide_queue :: "'d ide \<Rightarrow> nat list \<Rightarrow> bool" where
  "ide_queue s js \<longleftrightarrow> idequeue s = (case js of [] \<Rightarrow> None | i # _ \<Rightarrow> Some i) \<and> chain (qnext s) js \<and> distinct js"

lemma queue_last_chain: "chain q (i # js) \<Longrightarrow> queue_last q i = Some (last (i # js))"
proof (induction js arbitrary: i)
  case Nil
  then show ?case by (subst queue_last.simps) simp
next
  case (Cons j js)
  then show ?case by (subst queue_last.simps) simp
qed

lemma chain_other: "i \<notin> set js \<Longrightarrow> chain (q(i := v)) js = chain q js"
  by (induction q js rule: chain.induct) auto

lemma chain_snoc: "chain q js \<Longrightarrow> js \<noteq> [] \<Longrightarrow> distinct js \<Longrightarrow> q i = None \<Longrightarrow> i \<notin> set js
    \<Longrightarrow> chain (q(last js := Some i)) (js @ [i])"
proof (induction q js rule: chain.induct)
  case (3 q a b js)
  define l where "l = last (b # js)"
  have "chain (q(l := Some i)) ((b # js) @ [i])" unfolding l_def by (rule 3(1)) (use 3(2-6) in auto)
  moreover have "last (a # b # js) = l" by (simp add: l_def)
  moreover have "l \<noteq> a" unfolding l_def using 3(4) by (metis distinct.simps(2) last_in_set list.distinct(1))
  ultimately show ?case using 3(2) by (simp del: fun_upd_apply add: fun_upd_other)
qed simp_all

lemma chain_tl: "chain q (i # js) \<Longrightarrow> chain q js \<and> q i = (case js of [] \<Rightarrow> None | j # _ \<Rightarrow> Some j)"
  by (cases js) simp_all

subsection \<open>Requests\<close>

text \<open>A request: the buffer, the address on the disk, and the data of a write.\<close>

datatype req = Req (rq_buf: nat) (rq_addr: "bool \<times> nat") (rq_data: "block option")

definition buf_addr :: "buf \<Rightarrow> bool \<times> nat" where
  "buf_addr b = (b_dev b AND 1 \<noteq> 0, b_blockno b)"

definition req_of :: "nat \<Rightarrow> 'd ide \<Rightarrow> req" where
  "req_of i s = (let b = ibuf i s in Req i (buf_addr b) (if b_dirty b then Some (b_data b) else None))"

text \<open>The disk that serves requests in order: its content after them, and what it returns.\<close>

definition serve1 :: "(bool \<times> nat \<Rightarrow> block) \<Rightarrow> req \<Rightarrow> bool \<times> nat \<Rightarrow> block" where
  "serve1 d r = (case rq_data r of None \<Rightarrow> d | Some x \<Rightarrow> d(rq_addr r := x))"

definition serve :: "(bool \<times> nat \<Rightarrow> block) \<Rightarrow> req list \<Rightarrow> bool \<times> nat \<Rightarrow> block" where
  "serve d rs = foldl serve1 d rs"

definition answer :: "(bool \<times> nat \<Rightarrow> block) \<Rightarrow> req \<Rightarrow> block" where
  "answer d r = (case rq_data r of None \<Rightarrow> d (rq_addr r) | Some x \<Rightarrow> x)"

lemma serve_Nil [simp]: "serve d [] = d"
  by (simp add: serve_def)

lemma serve_snoc: "serve d (rs @ [r]) = serve1 (serve d rs) r"
  by (simp add: serve_def)

lemma answer_serve1: "serve1 d r (rq_addr r) = answer d r"
  by (simp add: serve1_def answer_def split: option.split)

lemma rq_buf_req_of [simp]: "rq_buf (req_of i s) = i"
  by (simp add: req_of_def Let_def)

subsection \<open>Commands\<close>

text \<open>The ports hold the command for request \<open>q\<close>.\<close>

definition commanded :: "(nat \<Rightarrow> nat) \<Rightarrow> req \<Rightarrow> bool" where
  "commanded p q \<longleftrightarrow> p 0x1f2 = 1 \<and> p 0x1f7 = (if rq_data q = None then 0x20 else 0x30) \<and> ata_addr p = rq_addr q"

lemma sector_bytes:
  fixes n :: nat
  assumes "n < 2 ^ 24"
  shows "(n AND 0xff) mod 256 + 2 ^ 8 * ((drop_bit 8 n AND 0xff) mod 256) + 2 ^ 16 * ((drop_bit 16 n AND 0xff) mod 256) = n"
proof -
  have m: "x AND 0xff = x mod 256" for x :: nat
  proof -
    have "x AND mask 8 = x mod 2 ^ 8" by (simp only: take_bit_eq_mask[symmetric] take_bit_eq_mod)
    then show ?thesis by (simp add: mask_eq_exp_minus_1)
  qed
  have d: "drop_bit 8 n = n div 256" "drop_bit 16 n = n div 65536" by (simp_all add: drop_bit_eq_div)
  have l: "n div 65536 < 256" using assms by (simp add: less_mult_imp_div_less)
  have "n mod 256 + 256 * (n div 256 mod 256) + 65536 * (n div 65536) = n"
  proof -
    have "n div 65536 = n div 256 div 256" by (simp add: div_mult2_eq[symmetric])
    moreover have "256 * (n div 256) + n mod 256 = n" "256 * (n div 256 div 256) + n div 256 mod 256 = n div 256"
      by (rule mult_div_mod_eq)+
    ultimately show ?thesis by linarith
  qed
  then show ?thesis unfolding m d using l by simp
qed

lemma drive_bits:
  fixes d :: nat
  shows "(0xe0 OR push_bit 4 (d AND 1) OR 0) mod 256 AND 0x10 \<noteq> 0 \<longleftrightarrow> d AND 1 \<noteq> 0"
    "((0xe0 OR push_bit 4 (d AND 1) OR 0) mod 256) AND 0x0f = (0 :: nat)"
proof -
  have "d AND 1 = 0 \<or> d AND 1 = 1" by (simp add: and_one_eq) presburger
  then show "(0xe0 OR push_bit 4 (d AND 1) OR 0) mod 256 AND 0x10 \<noteq> 0 \<longleftrightarrow> d AND 1 \<noteq> 0"
    "((0xe0 OR push_bit 4 (d AND 1) OR 0) mod 256) AND 0x0f = (0 :: nat)" by (elim disjE; simp)+
qed

text \<open>A command that is sent is the one for the buffer, and a write takes effect.\<close>

lemma idestart_sends:
  assumes "disk_laws A c" "idestart A r (Some i) s = Some (Ok () t)"
  shows "\<exists>p d. t = s\<lparr>port := p, dev := d\<rparr> \<and> commanded p (req_of i s) \<and> c d = serve1 (c (dev s)) (req_of i s)"
proof -
  let ?b = "ibuf i s" and ?n = "b_blockno (ibuf i s)"
  have one: "BSIZE div SECTOR_SIZE = 1" by (simp add: BSIZE_def SECTOR_SIZE_def)
  have n: "?n < FSSIZE" using assms(2) by (auto simp: idestart_def Let_def split: if_splits)
  then have n24: "?n < 2 ^ 24" and top: "drop_bit 24 ?n = 0" by (simp_all add: FSSIZE_def drop_bit_eq_div)
  obtain v where v: "idewait False r = Some v"
    using assms(2) n by (auto simp: idestart_def Let_def one split: if_splits)
  define p where "p = (port s)(0x3f6 := 0, 0x1f2 := 1, 0x1f3 := (?n AND 0xff) mod 256, 0x1f4 := (drop_bit 8 ?n AND 0xff) mod 256,
     0x1f5 := (drop_bit 16 ?n AND 0xff) mod 256, 0x1f6 := (0xe0 OR push_bit 4 (b_dev ?b AND 1) OR 0) mod 256,
     0x1f7 := (if b_dirty ?b then 0x30 else 0x20))"
  define d where "d = (if b_dirty ?b then ata_out A p (b_data ?b) (dev s) else dev s)"
  have t: "t = s\<lparr>port := p, dev := d\<rparr>"
    using assms(2) n v unfolding p_def d_def
    by (auto simp: idestart_def Let_def one top outb_def IDE_CMD_READ_def IDE_CMD_WRITE_def cong: if_cong)
  have addr: "ata_addr p = buf_addr ?b"
    unfolding ata_addr_def buf_addr_def p_def using sector_bytes[OF n24] drive_bits[of "b_dev ?b"] by simp
  have "commanded p (req_of i s)"
    unfolding commanded_def addr by (simp add: p_def req_of_def Let_def)
  moreover have "c d = serve1 (c (dev s)) (req_of i s)"
  proof (cases "b_dirty ?b")
    case True
    have "p 0x1f2 = 1 \<and> p 0x1f7 = 0x30" using True by (simp add: p_def)
    then have "c (ata_out A p (b_data ?b) (dev s)) = (c (dev s))(ata_addr p := b_data ?b)"
      using assms(1) unfolding disk_laws_def by blast
    then show ?thesis using True by (simp add: d_def serve1_def req_of_def Let_def addr)
  qed (simp add: d_def serve1_def req_of_def Let_def)
  ultimately show ?thesis using t by blast
qed

text \<open>A command is sent when the disk becomes ready.\<close>

definition disk_ready :: "(nat \<Rightarrow> nat) \<Rightarrow> bool" where
  "disk_ready r \<longleftrightarrow> (\<exists>n. r n AND 0xc0 = 0x40)"

lemma idewait_ready:
  assumes "disk_ready r"
  shows "\<exists>v. idewait_loop r = Some v \<and> v \<in> range r"
proof -
  have "\<exists>v. idewait_loop r = Some v \<and> v \<in> range r" if "r n AND 0xc0 = 0x40" for n
    using that
  proof (induction n arbitrary: r)
    case 0
    then show ?case by (subst idewait_loop.simps) (simp add: ide_consts)
  next
    case (Suc n)
    obtain v where "idewait_loop (\<lambda>n. r (n + 1)) = Some v" "v \<in> range (\<lambda>n. r (n + 1))"
      using Suc.IH[of "\<lambda>n. r (n + 1)"] Suc.prems unfolding Suc_eq_plus1 by blast
    then show ?case by (subst idewait_loop.simps) auto
  qed
  then show ?thesis using assms by (auto simp: disk_ready_def)
qed

lemma idewait_False: "disk_ready r \<Longrightarrow> idewait False r = Some 0"
  using idewait_ready[of r] by (auto simp: idewait_def)

lemma idestart_ready:
  assumes "disk_ready r" "b_blockno (ibuf i s) < FSSIZE"
  shows "\<exists>t. idestart A r (Some i) s = Some (Ok () t)"
  using assms by (simp add: idestart_def Let_def idewait_False BSIZE_def SECTOR_SIZE_def)

subsection \<open>Runs\<close>

text \<open>
  \<open>ide_run A s rs dn t\<close>: the kernel got from \<open>s\<close> to \<open>t\<close>, the requests \<open>rs\<close> were made on the way, and the
  interrupts ended those of the buffers in \<open>dn\<close>, with the data in \<open>dn\<close>. A process that waits for a buffer
  does not run, so the one that runs does not have the sleep lock of such a buffer (\<open>submit\<close>);
  what else the kernel does leaves the driver and the waiting buffers alone (\<open>other\<close>). The disk reports
  no error (\<open>intr\<close>).
\<close>

inductive ide_run :: "'d ata \<Rightarrow> 'd ide \<Rightarrow> req list \<Rightarrow> (nat \<times> block) list \<Rightarrow> 'd ide \<Rightarrow> bool" for A s where
  start: "ide_run A s [] [] s"
| submit: "ide_run A s rs dn t \<Longrightarrow> ide_iderw A r i t = Some (Sched u) \<Longrightarrow> i < length (bufs (kern t))
    \<Longrightarrow> \<forall>q \<in> set (drop (length dn) rs). sl_pid (b_lock (ibuf (rq_buf q) t)) \<noteq> pid (cur (kern t))
    \<Longrightarrow> ide_run A s (rs @ [req_of i t]) dn u"
| intr: "ide_run A s rs dn t \<Longrightarrow> idequeue t = Some i \<Longrightarrow> ideintr A r1 r2 t = Some (Ok () u)
    \<Longrightarrow> idewait True r1 = Some 0 \<Longrightarrow> ide_run A s rs (dn @ [(i, b_data (ibuf i u))]) u"
| no_intr: "ide_run A s rs dn t \<Longrightarrow> idequeue t = None \<Longrightarrow> ideintr A r1 r2 t = Some (Ok () u) \<Longrightarrow> ide_run A s rs dn u"
| again: "ide_run A s rs dn t \<Longrightarrow> iderw_again i t = Some (Sched u) \<Longrightarrow> ide_run A s rs dn u"
| return: "ide_run A s rs dn t \<Longrightarrow> iderw_again i t = Some (Ok () u) \<Longrightarrow> ide_run A s rs dn u"
| other: "ide_run A s rs dn t \<Longrightarrow> idequeue u = idequeue t \<Longrightarrow> qnext u = qnext t \<Longrightarrow> port u = port t \<Longrightarrow> dev u = dev t
    \<Longrightarrow> \<forall>q \<in> set (drop (length dn) rs). ibuf (rq_buf q) u = ibuf (rq_buf q) t
    \<Longrightarrow> length (bufs (kern u)) = length (bufs (kern t)) \<Longrightarrow> ide_run A s rs dn u"

definition ide_inv :: "('d \<Rightarrow> bool \<times> nat \<Rightarrow> block) \<Rightarrow> (bool \<times> nat \<Rightarrow> block) \<Rightarrow> req list \<Rightarrow> (nat \<times> block) list \<Rightarrow> 'd ide \<Rightarrow> bool" where
  "ide_inv c d0 rs dn t \<longleftrightarrow> (\<exists>pend. rs = take (length dn) rs @ pend \<and> length dn \<le> length rs \<and> ide_queue t (map rq_buf pend)
     \<and> (\<forall>q \<in> set pend. req_of (rq_buf q) t = q \<and> rq_buf q < length (bufs (kern t)))
     \<and> c (dev t) = serve d0 (take (length dn) rs @ take 1 pend)
     \<and> (pend \<noteq> [] \<longrightarrow> commanded (port t) (hd pend))
     \<and> (\<forall>k < length dn. dn ! k = (rq_buf (rs ! k), answer (serve d0 (take k rs)) (rs ! k))))"

lemma ide_inv_same:
  assumes "ide_inv c d0 rs dn t" "idequeue u = idequeue t" "qnext u = qnext t" "port u = port t" "dev u = dev t"
    "\<forall>q \<in> set (drop (length dn) rs). ibuf (rq_buf q) u = ibuf (rq_buf q) t" "length (bufs (kern u)) = length (bufs (kern t))"
  shows "ide_inv c d0 rs dn u"
proof -
  obtain pend where p: "rs = take (length dn) rs @ pend" "length dn \<le> length rs" "ide_queue t (map rq_buf pend)"
    "\<forall>q \<in> set pend. req_of (rq_buf q) t = q \<and> rq_buf q < length (bufs (kern t))" "c (dev t) = serve d0 (take (length dn) rs @ take 1 pend)"
    "pend \<noteq> [] \<longrightarrow> commanded (port t) (hd pend)"
    "\<forall>k < length dn. dn ! k = (rq_buf (rs ! k), answer (serve d0 (take k rs)) (rs ! k))"
    using assms(1) unfolding ide_inv_def by blast
  have "drop (length dn) rs = pend" using p(1,2) by (metis append_eq_conv_conj length_take min_absorb2)
  then have "\<forall>q \<in> set pend. req_of (rq_buf q) u = q \<and> rq_buf q < length (bufs (kern u))" using p(4) assms(6,7) by (simp add: req_of_def)
  moreover have "ide_queue u (map rq_buf pend)" using p(3) assms(2,3) by (simp add: ide_queue_def)
  ultimately show ?thesis using p assms(4,5) unfolding ide_inv_def by auto
qed

lemma wait_bufs:
  assumes "iderw_wait i s = Some (Sched u) \<or> iderw_wait i s = Some (Ok () u)"
  shows "idequeue u = idequeue s \<and> qnext u = qnext s \<and> port u = port s \<and> dev u = dev s \<and> bufs (kern u) = bufs (kern s)"
  using assms by (auto simp: iderw_wait_def in_kern_Sched in_kern_Ok lock_not_Sched split: if_splits
      dest: sleep_SchedD release_OkD)

lemma again_bufs:
  assumes "iderw_again i s = Some (Sched u) \<or> iderw_again i s = Some (Ok () u)"
  shows "idequeue u = idequeue s \<and> qnext u = qnext s \<and> port u = port s \<and> dev u = dev s \<and> bufs (kern u) = bufs (kern s)"
proof -
  obtain k where k: "sleep_resume LIde (kern s) = Ok () k" "iderw_wait i (s\<lparr>kern := k\<rparr>) = Some (Sched u) \<or> iderw_wait i (s\<lparr>kern := k\<rparr>) = Some (Ok () u)"
    using assms by (auto simp: iderw_again_def in_kern_def ibind_def sleep_resume_not_Sched split: res.splits)
  show ?thesis using wait_bufs[OF k(2)] sleep_resume_bufs[OF k(1)] by simp
qed

lemma ide_invE:
  assumes "ide_inv c d0 rs dn t"
  obtains pre pend where "rs = pre @ pend" "length dn = length pre" "ide_queue t (map rq_buf pend)"
    "\<forall>q \<in> set pend. req_of (rq_buf q) t = q \<and> rq_buf q < length (bufs (kern t))" "c (dev t) = serve d0 (pre @ take 1 pend)"
    "pend \<noteq> [] \<longrightarrow> commanded (port t) (hd pend)"
    "\<forall>k < length dn. dn ! k = (rq_buf (rs ! k), answer (serve d0 (take k rs)) (rs ! k))"
  using assms unfolding ide_inv_def by (metis length_take min_absorb2)

lemma ide_invI:
  assumes "rs = pre @ pend" "length dn = length pre" "ide_queue t (map rq_buf pend)"
    "\<forall>q \<in> set pend. req_of (rq_buf q) t = q \<and> rq_buf q < length (bufs (kern t))" "c (dev t) = serve d0 (pre @ take 1 pend)"
    "pend \<noteq> [] \<Longrightarrow> commanded (port t) (hd pend)"
    "\<forall>k < length dn. dn ! k = (rq_buf (rs ! k), answer (serve d0 (take k rs)) (rs ! k))"
  shows "ide_inv c d0 rs dn t"
  unfolding ide_inv_def using assms by (intro exI[of _ pend]) simp

text \<open>\<open>iderw\<close> up to its wait: the request is the last of the queue, and is started when it is the only one.\<close>

lemma submit_steps:
  assumes "ide_iderw A r i t = Some (Sched u)" "ide_queue t js" "i \<notin> set js"
  shows "\<exists>v w. ide_queue v (js @ [i]) \<and> port v = port t \<and> dev v = dev t \<and> bufs (kern v) = bufs (kern t)
     \<and> (if js = [] then idestart A r (Some i) v = Some (Ok () w) else w = v) \<and> iderw_wait i w = Some (Sched u)"
proof -
  let ?b = "ibuf i t"
  obtain h where h: "holdingsleep (SBuf i) (kern t) = Ok h (kern t)" "h"
    using assms(1) holdingsleep_OkD[of "SBuf i" "kern t"] holdingsleep_not_Sched[of "SBuf i" "kern t"]
    unfolding ide_iderw_def by (auto simp: in_kern_def Let_def split: res.splits if_splits)
  define F where "F = (\<lambda>(_ :: unit) s. let s = s\<lparr>qnext := (qnext s)(i := None)\<rparr> in
       case (case idequeue s of None \<Rightarrow> Some (s\<lparr>idequeue := Some i\<rparr>)
             | Some j \<Rightarrow> map_option (\<lambda>l. s\<lparr>qnext := (qnext s)(l := Some i)\<rparr>) (queue_last (qnext s) j)) of
         None \<Rightarrow> None
       | Some s \<Rightarrow> ibind (if idequeue s = Some i then idestart A r (Some i) s else Some (Ok () s)) (\<lambda>_ s. iderw_wait i s))"
  have "ide_iderw A r i t = (if b_valid ?b \<and> \<not> b_dirty ?b then Some (Panic ''iderw: nothing to do'')
     else if b_dev ?b \<noteq> 0 \<and> \<not> havedisk1 t then Some (Panic ''iderw: ide disk 1 not present'')
     else ibind (in_kern (acquire LIde) t) F)"
    using h by (simp add: ide_iderw_def in_kern_def Let_def F_def)
  then have "ibind (in_kern (acquire LIde) t) F = Some (Sched u)" using assms(1) by (auto split: if_split_asm)
  then obtain k where k: "acquire LIde (kern t) = Ok () k" and e: "F () (t\<lparr>kern := k\<rparr>) = Some (Sched u)"
    by (elim ibind_SchedE) (auto simp: in_kern_Ok in_kern_Sched lock_not_Sched)
  have kb: "bufs k = bufs (kern t)" using acquire_OkD[OF k] by simp
  let ?t = "t\<lparr>kern := k, qnext := (qnext t)(i := None)\<rparr>"
  define v where "v = (if js = [] then ?t\<lparr>idequeue := Some i\<rparr> else ?t\<lparr>qnext := (qnext ?t)(last js := Some i)\<rparr>)"
  have q: "idequeue t = (case js of [] \<Rightarrow> None | i # _ \<Rightarrow> Some i)" "chain (qnext t) js" "distinct js"
    using assms(2) by (simp_all add: ide_queue_def)
  have ch: "chain (qnext ?t) js" using q(2) chain_other[OF assms(3)] by simp
  have V: "ide_queue v (js @ [i])"
  proof (cases "js = []")
    case False
    have "chain (qnext v) (js @ [i])" using chain_snoc[OF ch False q(3) _ assms(3)] False by (simp add: v_def)
    then show ?thesis using False q assms(3) unfolding ide_queue_def v_def by (auto split: list.splits)
  qed (simp add: v_def ide_queue_def)
  have f: "port v = port t" "dev v = dev t" "bufs (kern v) = bufs (kern t)" by (simp_all add: v_def kb)
  have iq: "idequeue v = Some i \<longleftrightarrow> js = []" using V assms(3) by (cases js) (auto simp: ide_queue_def)
  have "ibind (if js = [] then idestart A r (Some i) v else Some (Ok () v)) (\<lambda>_ s. iderw_wait i s) = Some (Sched u)"
  proof (cases js)
    case Nil
    then show ?thesis using e q(1) by (simp add: F_def Let_def v_def)
  next
    case (Cons j ks)
    then have "queue_last ((qnext t)(i := None)) j = Some (last js)" using queue_last_chain[of "qnext ?t" j ks] ch by simp
    then show ?thesis using e q(1) assms(3) unfolding Cons by (simp add: F_def Let_def v_def Cons)
  qed
  moreover have "idestart A r (Some i) v \<noteq> Some (Sched x)" for x by (auto simp: idestart_def Let_def split: if_splits)
  ultimately have "\<exists>w. (if js = [] then idestart A r (Some i) v = Some (Ok () w) else w = v) \<and> iderw_wait i w = Some (Sched u)"
    by (cases "js = []") (auto elim!: ibind_SchedE)
  then show ?thesis using V f by blast
qed

lemma submit_inv:
  assumes L: "disk_laws A c" and I: "ide_inv c d0 rs dn t" and e: "ide_iderw A r i t = Some (Sched u)" and il: "i < length (bufs (kern t))"
    and own: "\<forall>q \<in> set (drop (length dn) rs). sl_pid (b_lock (ibuf (rq_buf q) t)) \<noteq> pid (cur (kern t))"
  shows "ide_inv c d0 (rs @ [req_of i t]) dn u"
proof -
  obtain pre pend where p: "rs = pre @ pend" "length dn = length pre" "ide_queue t (map rq_buf pend)"
    "\<forall>q \<in> set pend. req_of (rq_buf q) t = q \<and> rq_buf q < length (bufs (kern t))" "c (dev t) = serve d0 (pre @ take 1 pend)"
    "pend \<noteq> [] \<longrightarrow> commanded (port t) (hd pend)"
    "\<forall>k < length dn. dn ! k = (rq_buf (rs ! k), answer (serve d0 (take k rs)) (rs ! k))"
    using I by (rule ide_invE)
  have mine: "sl_pid (b_lock (ibuf i t)) = pid (cur (kern t))"
  proof -
    obtain h where "holdingsleep (SBuf i) (kern t) = Ok h (kern t)" "h"
      using e holdingsleep_OkD[of "SBuf i" "kern t"] holdingsleep_not_Sched[of "SBuf i" "kern t"]
      unfolding ide_iderw_def by (auto simp: in_kern_def Let_def split: res.splits if_splits)
    then show ?thesis using holdingsleep_OkD by (fastforce simp: ibuf_def)
  qed
  then have ni: "i \<notin> set (map rq_buf pend)" using own p(1,2) by auto
  obtain v w where v: "ide_queue v (map rq_buf pend @ [i])" "port v = port t" "dev v = dev t" "bufs (kern v) = bufs (kern t)"
    "if pend = [] then idestart A r (Some i) v = Some (Ok () w) else w = v" "iderw_wait i w = Some (Sched u)"
    using submit_steps[OF e p(3) ni] by auto
  have w: "idequeue u = idequeue w" "qnext u = qnext w" "port u = port w" "dev u = dev w" "bufs (kern u) = bufs (kern w)"
    using wait_bufs[of i w u] v(6) by blast+
  have rv: "req_of j v = req_of j t" for j using v(4) by (simp add: req_of_def ibuf_def)
  have W: "idequeue w = idequeue v" "qnext w = qnext v" "bufs (kern w) = bufs (kern v)"
    "c (dev w) = serve d0 (pre @ take 1 (pend @ [req_of i t]))" "commanded (port w) (hd (pend @ [req_of i t]))"
  proof (atomize (full), cases "pend = []")
    case True
    then obtain q d where "w = v\<lparr>port := q, dev := d\<rparr>" "commanded q (req_of i v)" "c d = serve1 (c (dev v)) (req_of i v)"
      using idestart_sends[OF L, of r i v w] v(5) by auto
    then show "(idequeue w = idequeue v \<and> qnext w = qnext v) \<and> bufs (kern w) = bufs (kern v) \<and>
      c (dev w) = serve d0 (pre @ take 1 (pend @ [req_of i t])) \<and> commanded (port w) (hd (pend @ [req_of i t]))"
      using True p(5) v(3) unfolding rv by (simp add: serve_snoc)
  next
    case False
    then show "(idequeue w = idequeue v \<and> qnext w = qnext v) \<and> bufs (kern w) = bufs (kern v) \<and>
      c (dev w) = serve d0 (pre @ take 1 (pend @ [req_of i t])) \<and> commanded (port w) (hd (pend @ [req_of i t]))"
      using v(2,3,4,5) p(5,6) by (cases pend) (auto simp: take_Cons')
  qed
  have ru: "req_of j u = req_of j t" for j using w(5) W(3) rv[of j] by (simp add: req_of_def ibuf_def)
  show ?thesis
  proof (rule ide_invI[of _ pre "pend @ [req_of i t]"])
    show "ide_queue u (map rq_buf (pend @ [req_of i t]))" using v(1) w W by (simp add: ide_queue_def)
    show "\<forall>q \<in> set (pend @ [req_of i t]). req_of (rq_buf q) u = q \<and> rq_buf q < length (bufs (kern u))"
      using p(4) il v(4) w(5) W(3) unfolding ru by auto
    show "\<forall>k < length dn. dn ! k = (rq_buf ((rs @ [req_of i t]) ! k), answer (serve d0 (take k (rs @ [req_of i t]))) ((rs @ [req_of i t]) ! k))"
      using p(1,2,7) by (simp add: nth_append)
  qed (use p(1,2) w W in auto)
qed

text \<open>The interrupt: the first request of the queue has been served.\<close>

lemma ideintr_served:
  assumes a: "acquire LIde (kern t) = Ok () k" and q: "idequeue t = Some i" and w: "idewait True r1 = Some e"
  shows "ideintr A r1 r2 t =
    (let s = t\<lparr>kern := k, idequeue := qnext t i\<rparr>;
         s = (if b_dirty (ibuf i s) then s
           else if e \<ge> 0 then ide_upd i (\<lambda>b. b\<lparr>b_data := ata_in A (port t) (dev t)\<rparr>) s else s);
         s = ide_upd i (\<lambda>b. b\<lparr>b_valid := True, b_dirty := False\<rparr>) s in
     ibind (in_kern (wakeup (Some (ChBuf i))) s) (\<lambda>_ s.
     ibind (if idequeue s \<noteq> None then idestart A r2 (idequeue s) s else Some (Ok () s)) (\<lambda>_ s. in_kern (release LIde) s)))"
proof -
  have k: "in_kern (acquire LIde) t = Some (Ok () (t\<lparr>kern := k\<rparr>))" using a by (simp add: in_kern_def)
  let ?s = "t\<lparr>kern := k, idequeue := qnext t i\<rparr>"
  have "idequeue (t\<lparr>kern := k\<rparr>) = Some i" "qnext (t\<lparr>kern := k\<rparr>) i = qnext t i"
    "(if b_dirty (ibuf i ?s) then Some ?s
      else map_option (\<lambda>e. if e \<ge> 0 then ide_upd i (\<lambda>b. b\<lparr>b_data := ata_in A (port ?s) (dev ?s)\<rparr>) ?s else ?s) (idewait True r1))
     = Some (if b_dirty (ibuf i ?s) then ?s
           else if e \<ge> 0 then ide_upd i (\<lambda>b. b\<lparr>b_data := ata_in A (port t) (dev t)\<rparr>) ?s else ?s)"
    by (simp_all add: q w)
  then show ?thesis unfolding ideintr_def k ibind_simps Let_def by (simp only: option.case)
qed

lemma intr_steps:
  assumes "ideintr A r1 r2 t = Some (Ok () u)" "ide_queue t (i # js)" "idewait True r1 = Some 0"
  defines "x \<equiv> (if b_dirty (ibuf i t) then b_data (ibuf i t) else ata_in A (port t) (dev t))"
  shows "\<exists>v w. ide_queue v js \<and> port v = port t \<and> dev v = dev t
     \<and> bufs (kern v) = (bufs (kern t))[i := (ibuf i t)\<lparr>b_data := x, b_valid := True, b_dirty := False\<rparr>]
     \<and> (if js = [] then w = v else idestart A r2 (Some (hd js)) v = Some (Ok () w))
     \<and> idequeue u = idequeue w \<and> qnext u = qnext w \<and> port u = port w \<and> dev u = dev w \<and> bufs (kern u) = bufs (kern w)"
proof -
  define F where "F = (\<lambda>s. ibind (in_kern (wakeup (Some (ChBuf i))) (ide_upd i (\<lambda>b. b\<lparr>b_valid := True, b_dirty := False\<rparr>) s)) (\<lambda>_ s.
     ibind (if idequeue s \<noteq> None then idestart A r2 (idequeue s) s else Some (Ok () s)) (\<lambda>_ s. in_kern (release LIde) s)))"
  have q: "idequeue t = Some i" "chain (qnext t) (i # js)" "distinct (i # js)" using assms(2) by (simp_all add: ide_queue_def)
  obtain k where k: "acquire LIde (kern t) = Ok () k"
    using assms(1) unfolding ideintr_def by (auto simp: in_kern_Ok elim!: ibind_OkE)
  have kb: "bufs k = bufs (kern t)" using acquire_OkD[OF k] by simp
  define v0 where "v0 = t\<lparr>kern := k, idequeue := qnext t i\<rparr>"
  define v1 where "v1 = (if b_dirty (ibuf i t) then v0 else ide_upd i (\<lambda>b. b\<lparr>b_data := ata_in A (port t) (dev t)\<rparr>) v0)"
  have "F v1 = Some (Ok () u)"
    using assms(1) unfolding ideintr_served[OF k q(1) assms(3)] Let_def
    by (cases "b_dirty (ibuf i t)") (simp_all add: F_def v1_def v0_def ibuf_def kb)
  then obtain x1 s1 where s1: "in_kern (wakeup (Some (ChBuf i))) (ide_upd i (\<lambda>b. b\<lparr>b_valid := True, b_dirty := False\<rparr>) v1) = Some (Ok x1 s1)"
    "ibind (if idequeue s1 \<noteq> None then idestart A r2 (idequeue s1) s1 else Some (Ok () s1)) (\<lambda>_ s. in_kern (release LIde) s) = Some (Ok () u)"
    unfolding F_def by (rule ibind_OkE)
  then obtain k2 where k2: "wakeup (Some (ChBuf i)) (kern (ide_upd i (\<lambda>b. b\<lparr>b_valid := True, b_dirty := False\<rparr>) v1)) = Ok () k2"
    and s1v: "s1 = v1\<lparr>kern := k2\<rparr>" by (auto simp: in_kern_Ok ide_upd_def)
  obtain x2 w where w: "(if idequeue s1 \<noteq> None then idestart A r2 (idequeue s1) s1 else Some (Ok () s1)) = Some (Ok x2 w)"
    and u: "in_kern (release LIde) w = Some (Ok () u)"
    using s1(2) by (rule ibind_OkE)
  define v where "v = v1\<lparr>kern := k2\<rparr>"
  have iq: "idequeue v = (case js of [] \<Rightarrow> None | j # _ \<Rightarrow> Some j)" "qnext v = qnext t" "port v = port t" "dev v = dev t"
    using chain_tl[OF q(2)] by (simp_all add: v_def v1_def v0_def ide_upd_def)
  have Q: "ide_queue v js" using iq chain_tl[OF q(2)] q(3) by (simp add: ide_queue_def)
  have "bufs k2 = bufs (kern (ide_upd i (\<lambda>b. b\<lparr>b_valid := True, b_dirty := False\<rparr>) v1))" using wakeup_OkD[OF k2] by simp
  then have B: "bufs (kern v) = (bufs (kern t))[i := (ibuf i t)\<lparr>b_data := x, b_valid := True, b_dirty := False\<rparr>]"
    by (cases "i < length (bufs (kern t))") (simp_all add: v_def v1_def v0_def ide_upd_def kb x_def ibuf_def list_update_beyond)
  have W: "if js = [] then w = v else idestart A r2 (Some (hd js)) v = Some (Ok () w)"
    using w iq(1) unfolding v_def s1v[symmetric] by (cases js) simp_all
  have U: "idequeue u = idequeue w" "qnext u = qnext w" "port u = port w" "dev u = dev w" "bufs (kern u) = bufs (kern w)"
    using u by (auto simp: in_kern_Ok dest: release_OkD)
  show ?thesis using Q iq B W U by blast
qed

lemma nth_pre: "k < length pre \<Longrightarrow> (pre @ xs) ! k = pre ! k" "(pre @ x # xs) ! length pre = x"
  by (simp_all add: nth_append)

lemma intr_inv:
  assumes L: "disk_laws A c" and I: "ide_inv c d0 rs dn t" and iq: "idequeue t = Some i"
    and e: "ideintr A r1 r2 t = Some (Ok () u)" "idewait True r1 = Some 0"
  shows "ide_inv c d0 rs (dn @ [(i, b_data (ibuf i u))]) u"
proof -
  obtain pre pend where p: "rs = pre @ pend" "length dn = length pre" "ide_queue t (map rq_buf pend)"
    "\<forall>q \<in> set pend. req_of (rq_buf q) t = q \<and> rq_buf q < length (bufs (kern t))" "c (dev t) = serve d0 (pre @ take 1 pend)"
    "pend \<noteq> [] \<longrightarrow> commanded (port t) (hd pend)"
    "\<forall>k < length dn. dn ! k = (rq_buf (rs ! k), answer (serve d0 (take k rs)) (rs ! k))"
    using I by (rule ide_invE)
  obtain q qs where pq: "pend = q # qs" and qi: "rq_buf q = i"
    using p(3) iq by (cases pend) (auto simp: ide_queue_def)
  have ri: "req_of i t = q" "i < length (bufs (kern t))" using p(4) qi unfolding pq by auto
  have ni: "i \<notin> rq_buf ` set qs" using p(3) qi unfolding pq ide_queue_def by auto
  define x where "x = (if b_dirty (ibuf i t) then b_data (ibuf i t) else ata_in A (port t) (dev t))"
  have Q: "ide_queue t (i # map rq_buf qs)" using p(3) unfolding pq by (simp add: qi)
  obtain v w where v: "ide_queue v (map rq_buf qs)" "port v = port t" "dev v = dev t"
    "bufs (kern v) = (bufs (kern t))[i := (ibuf i t)\<lparr>b_data := x, b_valid := True, b_dirty := False\<rparr>]"
    "if qs = [] then w = v else idestart A r2 (Some (hd (map rq_buf qs))) v = Some (Ok () w)"
    "idequeue u = idequeue w" "qnext u = qnext w" "port u = port w" "dev u = dev w" "bufs (kern u) = bufs (kern w)"
    using intr_steps[OF e(1) Q e(2)] unfolding x_def[symmetric] by auto
  have com: "commanded (port t) q" "c (dev t) = serve d0 (pre @ [q])" using p(5,6) unfolding pq by (simp_all add: take_Cons')
  have rq: "rq_data q = (if b_dirty (ibuf i t) then Some (b_data (ibuf i t)) else None)" using ri(1) unfolding req_of_def Let_def by auto
  have xa: "x = answer (serve d0 pre) q"
  proof (cases "b_dirty (ibuf i t)")
    case False
    then have n: "rq_data q = None" using rq by simp
    then have "ata_in A (port t) (dev t) = c (dev t) (rq_addr q)" using L com(1) unfolding disk_laws_def commanded_def by auto
    then show ?thesis using False n unfolding com(2) serve_snoc by (simp add: x_def answer_def serve1_def)
  qed (simp add: x_def answer_def rq)
  have ru: "req_of (rq_buf q') v = q'" if "q' \<in> set qs" for q'
  proof -
    have "rq_buf q' \<noteq> i" using ni that by auto
    then have "ibuf (rq_buf q') v = ibuf (rq_buf q') t" by (simp add: ibuf_def v(4))
    then show ?thesis using p(4) that unfolding pq by (auto simp: req_of_def)
  qed
  have W: "idequeue w = idequeue v" "qnext w = qnext v" "bufs (kern w) = bufs (kern v)"
    "c (dev w) = serve d0 ((pre @ [q]) @ take 1 qs)" "qs \<noteq> [] \<longrightarrow> commanded (port w) (hd qs)"
  proof (atomize (full), cases qs)
    case Nil
    then show "(idequeue w = idequeue v \<and> qnext w = qnext v) \<and> bufs (kern w) = bufs (kern v) \<and>
      c (dev w) = serve d0 ((pre @ [q]) @ take 1 qs) \<and> (qs \<noteq> [] \<longrightarrow> commanded (port w) (hd qs))"
      using v(3,5) com(2) by simp
  next
    case (Cons q' qs')
    then obtain pt d where "w = v\<lparr>port := pt, dev := d\<rparr>" "commanded pt (req_of (rq_buf q') v)" "c d = serve1 (c (dev v)) (req_of (rq_buf q') v)"
      using idestart_sends[OF L, of r2 "rq_buf q'" v w] v(5) by auto
    then show "(idequeue w = idequeue v \<and> qnext w = qnext v) \<and> bufs (kern w) = bufs (kern v) \<and>
      c (dev w) = serve d0 ((pre @ [q]) @ take 1 qs) \<and> (qs \<noteq> [] \<longrightarrow> commanded (port w) (hd qs))"
      using Cons ru[of q'] com(2) v(3) serve_snoc[of d0 "pre @ [q]" q'] by (simp add: take_Cons')
  qed
  have iu: "b_data (ibuf i u) = x" using v(4,10) W(3) ri(2) by (simp add: ibuf_def)
  show ?thesis
  proof (rule ide_invI[of _ "pre @ [q]" qs])
    show "ide_queue u (map rq_buf qs)" using v(1,6,7) W(1,2) by (simp add: ide_queue_def)
    have "req_of (rq_buf q') u = q'" if "q' \<in> set qs" for q' using ru[OF that] v(10) W(3) by (simp add: req_of_def ibuf_def)
    then show "\<forall>q \<in> set qs. req_of (rq_buf q) u = q \<and> rq_buf q < length (bufs (kern u))" using p(4) v(4,10) W(3) unfolding pq by auto
    have "(dn @ [(i, b_data (ibuf i u))]) ! k = (rq_buf (rs ! k), answer (serve d0 (take k rs)) (rs ! k))" if "k < length dn + 1" for k
    proof (cases "k = length dn")
      case True
      then show ?thesis using p(1,2) xa qi unfolding iu pq by (simp add: nth_append)
    next
      case False
      then have "k < length dn" using that by simp
      then show ?thesis using p(7) by (simp add: nth_append)
    qed
    then show "\<forall>k < length (dn @ [(i, b_data (ibuf i u))]). (dn @ [(i, b_data (ibuf i u))]) ! k = (rq_buf (rs ! k), answer (serve d0 (take k rs)) (rs ! k))"
      by simp
  qed (use p(1,2) pq v(8,9) W in auto)
qed

lemma no_intr_same:
  assumes "ideintr A r1 r2 t = Some (Ok () u)" "idequeue t = None"
  shows "idequeue u = idequeue t \<and> qnext u = qnext t \<and> port u = port t \<and> dev u = dev t \<and> bufs (kern u) = bufs (kern t)"
  using assms by (auto simp: ideintr_def in_kern_Ok elim!: ibind_OkE dest!: acquire_OkD release_OkD)

lemma ide_run_inv:
  assumes L: "disk_laws A c" and q: "idequeue s = None"
  shows "ide_run A s rs dn t \<Longrightarrow> ide_inv c (c (dev s)) rs dn t"
proof (induction rule: ide_run.induct)
  case start
  show ?case by (rule ide_invI[of _ "[]" "[]"]) (use q in \<open>simp_all add: ide_queue_def\<close>)
next
  case (submit rs dn t i r u)
  show ?case by (rule submit_inv[OF L submit.IH submit.hyps(2-4)])
next
  case (intr rs dn t i r1 r2 u)
  show ?case by (rule intr_inv[OF L intr.IH intr.hyps(2-4)])
next
  case (no_intr rs dn t r1 r2 u)
  show ?case by (rule ide_inv_same[OF no_intr.IH]) (use no_intr_same[OF no_intr.hyps(3,2)] in \<open>simp_all add: ibuf_def\<close>)
next
  case (again rs dn t i u)
  show ?case by (rule ide_inv_same[OF again.IH]) (use again_bufs[of i t u] again.hyps(2) in \<open>simp_all add: ibuf_def\<close>)
next
  case (return rs dn t i u)
  show ?case by (rule ide_inv_same[OF return.IH]) (use again_bufs[of i t u] return.hyps(2) in \<open>simp_all add: ibuf_def\<close>)
next
  case (other rs dn t u)
  show ?case by (rule ide_inv_same[OF other.IH other.hyps(2-7)])
qed

end
