(* ===== verification/IdeProps.thy ===== *)
theory IdeProps
  imports IdeSpec Boot
begin

text \<open>
  The property of the disk driver: requests are served one by one, in the order in which they were made.
\<close>

unbundle bit_operations_syntax

lemma port_dev: "\<exists>p d. s\<lparr>port := x\<rparr> = s\<lparr>port := p, dev := d\<rparr>"
  by (intro exI[of _ x] exI[of _ "dev s"]) simp

lemma port_dev2: "\<exists>p d. s\<lparr>port := x, dev := y\<rparr> = s\<lparr>port := p, dev := d\<rparr>"
  by blast

lemma idestart_frame:
  assumes "disk_ready r" "b_blockno (ibuf i s) < FSSIZE"
  shows "\<exists>p d. idestart A r (Some i) s = Some (Ok () (s\<lparr>port := p, dev := d\<rparr>))"
  using assms by (cases "b_dirty (ibuf i s)")
    (simp_all add: idestart_def Let_def idewait_False BSIZE_def SECTOR_SIZE_def outb_def port_dev port_dev2)

text \<open>The interrupt returns when the disk becomes ready.\<close>

lemma ideintr_returns:
  assumes q: "ide_queue t (i # js)" and r: "disk_ready r1" "disk_ready r2" and h: "LIde \<notin> set (held (kern t))" "LPtable \<notin> set (held (kern t))"
    and b: "\<forall>j \<in> set (i # js). b_blockno (ibuf j t) < FSSIZE"
  shows "\<exists>u. ideintr A r1 r2 t = Some (Ok () u)"
proof -
  have iq: "idequeue t = Some i" "qnext t i = (case js of [] \<Rightarrow> None | j # _ \<Rightarrow> Some j)"
    using q chain_tl[of "qnext t" i js] by (simp_all add: ide_queue_def)
  obtain e where e: "idewait True r1 = Some e" using idewait_ready[OF r(1)] by (auto simp: idewait_def)
  let ?k = "(kern t)\<lparr>held := LIde # held (kern t)\<rparr>"
  let ?t = "t\<lparr>kern := ?k, idequeue := qnext t i\<rparr>"
  define v where "v = (if b_dirty (ibuf i ?t) then ?t else if e \<ge> 0 then ide_upd i (\<lambda>b. b\<lparr>b_data := ata_in A (port t) (dev t)\<rparr>) ?t else ?t)"
  define w where "w = ide_upd i (\<lambda>b. b\<lparr>b_valid := True, b_dirty := False\<rparr>) v"
  define x where "x = w\<lparr>kern := wakeup1 (Some (ChBuf i)) (kern w)\<rparr>"
  have W: "held (kern w) = LIde # held (kern t)" "idequeue w = qnext t i"
    by (simp_all add: w_def v_def ide_upd_def)
  have wk: "in_kern (wakeup (Some (ChBuf i))) w = Some (Ok () x)"
    using h(2) W(1) by (simp add: in_kern_def wakeup_ok x_def)
  have bn: "b_blockno (ibuf j x) = b_blockno (ibuf j t)" for j
    by (cases "j = i"; cases "i < length (bufs (kern t))") (simp_all add: ibuf_def x_def w_def v_def ide_upd_def list_update_beyond)
  have rel: "\<exists>u. in_kern (release LIde) z = Some (Ok () u)" if "held (kern z) = LIde # held (kern t)" for z :: "'a ide"
    using release_top[OF that] by (simp add: in_kern_def)
  have X: "held (kern x) = LIde # held (kern t)" "idequeue x = qnext t i" using W by (simp_all add: x_def)
  have e1: "ideintr A r1 r2 t = ibind (if idequeue x \<noteq> None then idestart A r2 (idequeue x) x else Some (Ok () x)) (\<lambda>_ s. in_kern (release LIde) s)"
    unfolding ideintr_served[OF acquire_ok[OF h(1)] iq(1) e] Let_def v_def[symmetric] w_def[symmetric] wk ibind_simps ..
  show ?thesis
  proof (cases js)
    case Nil
    then show ?thesis using e1 X iq(2) rel[of x] by simp
  next
    case (Cons j ks)
    obtain p d where "idestart A r2 (Some j) x = Some (Ok () (x\<lparr>port := p, dev := d\<rparr>))"
      using idestart_frame[OF r(2), of j x A] b bn[of j] Cons by auto
    then show ?thesis using e1 X iq(2) rel[of "x\<lparr>port := p, dev := d\<rparr>"] Cons by simp
  qed
qed

text \<open>
  C29. The disk driver of ide.c serves requests like a disk that executes them one by one: under any
  interleaving of calls of \<open>iderw\<close>, interrupts and other kernel code, the buffers in \<open>idequeue\<close> are those of the
  requests not served yet, in the order in which they were made; every request that was served got the data
  which the disk returns after exactly the requests before it; the disk holds what these requests and
  the one being served wrote; and an interrupt returns as soon as the disk becomes ready.
\<close>

theorem ide_serves_in_order:
  assumes L: "disk_laws A c" and q: "idequeue s = None" and R: "ide_run A s rs dn t"
  shows "ide_queue t (map rq_buf (drop (length dn) rs)) \<and> length dn \<le> length rs
    \<and> map fst dn = map rq_buf (take (length dn) rs)
    \<and> (\<forall>k < length dn. snd (dn ! k) = answer (serve (c (dev s)) (take k rs)) (rs ! k))
    \<and> c (dev t) = serve (c (dev s)) (take (length dn + 1) rs)
    \<and> (\<forall>r1 r2. length dn < length rs \<longrightarrow> disk_ready r1 \<longrightarrow> disk_ready r2 \<longrightarrow> LIde \<notin> set (held (kern t)) \<longrightarrow> LPtable \<notin> set (held (kern t)) \<longrightarrow>
         (\<forall>r \<in> set rs. snd (rq_addr r) < FSSIZE) \<longrightarrow> (\<exists>u. ideintr A r1 r2 t = Some (Ok () u)))"
proof -
  obtain pre pend where p: "rs = pre @ pend" "length dn = length pre" "ide_queue t (map rq_buf pend)"
    "\<forall>q \<in> set pend. req_of (rq_buf q) t = q \<and> rq_buf q < length (bufs (kern t))"
    "c (dev t) = serve (c (dev s)) (pre @ take 1 pend)"
    "pend \<noteq> [] \<longrightarrow> commanded (port t) (hd pend)"
    "\<forall>k < length dn. dn ! k = (rq_buf (rs ! k), answer (serve (c (dev s)) (take k rs)) (rs ! k))"
    using ide_run_inv[OF L q R] by (rule ide_invE)
  have "map fst dn = map rq_buf (take (length dn) rs)"
    by (rule nth_equalityI) (use p(1,2,7) in \<open>simp_all add: nth_append\<close>)
  moreover have "\<exists>u. ideintr A r1 r2 t = Some (Ok () u)"
    if h: "length dn < length rs" "disk_ready r1" "disk_ready r2" "LIde \<notin> set (held (kern t))" "LPtable \<notin> set (held (kern t))"
      "\<forall>r \<in> set rs. snd (rq_addr r) < FSSIZE" for r1 r2
  proof -
    obtain r js where js: "pend = r # js" using p(1,2) h(1) by (cases pend) auto
    have "b_blockno (ibuf (rq_buf x) t) < FSSIZE" if "x \<in> set pend" for x
    proof -
      have "snd (rq_addr (req_of (rq_buf x) t)) = b_blockno (ibuf (rq_buf x) t)" by (simp add: req_of_def Let_def buf_addr_def)
      moreover have "snd (rq_addr x) < FSSIZE" using p(1) h(6) that by simp
      ultimately show ?thesis using p(4) that by simp
    qed
    then show ?thesis using ideintr_returns[of t "rq_buf r" "map rq_buf js" r1 r2 A] p(3) h(2-5) unfolding js by auto
  qed
  ultimately show ?thesis using p(1,2,3,5,7) by auto
qed

text \<open>A disk that keeps its sectors in a function, and a process that writes a block.\<close>

definition ata_ex :: "(bool \<times> nat \<Rightarrow> block) ata" where
  "ata_ex = \<lparr>ata_out = (\<lambda>p x d. d(ata_addr p := x)), ata_in = (\<lambda>p d. d (ata_addr p))\<rparr>"

definition ide_ex :: "(bool \<times> nat \<Rightarrow> block) ide" where
  "ide_ex = \<lparr>kern = (kernel0 (\<lambda>_. []) 0)\<lparr>bufs := [zero_buf\<lparr>b_dirty := True, b_dev := 1, b_blockno := 7, b_data := [42],
      b_lock := \<lparr>sl_locked = True, sl_pid = 1\<rparr>\<rparr>]\<rparr>,
     idequeue = None, qnext = (\<lambda>_. None), havedisk1 = True, port = (\<lambda>_. 0), dev = (\<lambda>_. [])\<rparr>"

lemma ata_ex_laws: "disk_laws ata_ex id"
  by (simp add: disk_laws_def ata_ex_def)

lemma ready_ex: "disk_ready (\<lambda>_. 0x40)"
  by (simp add: disk_ready_def)

lemma submit_ex: "\<exists>u. ide_iderw ata_ex (\<lambda>_. 0x40) 0 ide_ex = Some (Sched u)"
proof -
  let ?k = "kern ide_ex"
  have k: "held ?k = []" "curproc ?k = Some 0" "0 < length (procs ?k)" "procs ?k ! 0 = zero_proc\<lparr>state := RUNNING, pid := 1\<rparr>"
    by (simp_all add: ide_ex_def kernel0_def)
  have b: "ibuf 0 ide_ex = zero_buf\<lparr>b_dirty := True, b_dev := 1, b_blockno := 7, b_data := [42], b_lock := \<lparr>sl_locked = True, sl_pid = 1\<rparr>\<rparr>"
    by (simp add: ide_ex_def ibuf_def)
  have h: "in_kern (holdingsleep (SBuf 0)) ide_ex = Some (Ok True ide_ex)"
    using holdingsleep_eq[of ?k 0 "SBuf 0"] k b by (simp add: in_kern_def ibuf_def cur_def)
  let ?s = "ide_ex\<lparr>kern := ?k\<lparr>held := [LIde]\<rparr>, qnext := (\<lambda>_. None), idequeue := Some 0\<rparr>"
  have a: "in_kern (acquire LIde) ide_ex = Some (Ok () (ide_ex\<lparr>kern := ?k\<lparr>held := [LIde]\<rparr>\<rparr>))"
    using k(1) by (simp add: in_kern_def)
  have q: "(qnext (ide_ex\<lparr>kern := ?k\<lparr>held := [LIde]\<rparr>\<rparr>))(0 := None) = (\<lambda>_. None)" "idequeue ide_ex = None" "havedisk1 ide_ex"
    by (auto simp: ide_ex_def)
  have "b_blockno (ibuf 0 ?s) < FSSIZE" using b by (simp add: ibuf_def FSSIZE_def)
  then obtain p d where st: "idestart ata_ex (\<lambda>_. 0x40) (Some 0) ?s = Some (Ok () (?s\<lparr>port := p, dev := d\<rparr>))"
    using idestart_frame[OF ready_ex] by blast
  have w: "\<exists>u. iderw_wait 0 (?s\<lparr>port := p, dev := d\<rparr>) = Some (Sched u)"
    using k b by (auto simp: iderw_wait_def ibuf_def in_kern_def sleep_def sched_def upd_proc_def acquire_def release_def)
  show ?thesis unfolding ide_iderw_def h ibind_simps Let_def a q(1) using b q(2,3) st w by (simp add: zero_buf_def)
qed

theorem ide_serves_in_order_witness:
  "\<exists>rs dn t. ide_run ata_ex ide_ex rs dn t \<and> dn = [(0, [42])] \<and> dev t (True, 7) = [42]"
proof -
  obtain u where u: "ide_iderw ata_ex (\<lambda>_. 0x40) 0 ide_ex = Some (Sched u)" using submit_ex by blast
  let ?q = "req_of 0 ide_ex"
  have q: "?q = Req 0 (True, 7) (Some [42])"
    by (simp add: req_of_def ibuf_def ide_ex_def buf_addr_def)
  have r1: "ide_run ata_ex ide_ex ([] @ [?q]) [] u"
    by (rule ide_run.submit[OF ide_run.start u]) (simp_all add: ide_ex_def)
  let ?u = "u\<lparr>kern := (kern u)\<lparr>held := []\<rparr>\<rparr>"
  have r2: "ide_run ata_ex ide_ex [?q] [] ?u"
    by (rule ide_run.other[OF r1[simplified append_Nil]]) (simp_all add: ibuf_def)
  have i0: "idequeue ide_ex = None" by (simp add: ide_ex_def)
  note T = ide_serves_in_order[OF ata_ex_laws i0]
  have Q: "ide_queue ?u [0]" using T[OF r2] by simp
  have "\<exists>v. ideintr ata_ex (\<lambda>_. 0x40) (\<lambda>_. 0x40) ?u = Some (Ok () v)"
    using T[OF r2] ready_ex by (simp add: q FSSIZE_def)
  then obtain v where v: "ideintr ata_ex (\<lambda>_. 0x40) (\<lambda>_. 0x40) ?u = Some (Ok () v)" by blast
  have w: "idewait True (\<lambda>_. 0x40) = Some 0"
    using idewait_ready[OF ready_ex] by (auto simp: idewait_def ide_consts)
  have "idequeue ?u = Some 0" using Q by (simp add: ide_queue_def)
  then have r3: "ide_run ata_ex ide_ex [?q] ([] @ [(0, b_data (ibuf 0 v))]) v"
    by (rule ide_run.intr[OF r2 _ v w])
  then have "b_data (ibuf 0 v) = [42]" "dev v (True, 7) = [42]"
    using T[OF r3] unfolding q by (auto simp: answer_def serve_def serve1_def)
  then show ?thesis using r3 by (metis append_Nil)
qed

end
