(* ===== verification/Ulib.thy ===== *)
theory Ulib
  imports KState
begin

text \<open>
  The library of user programs: the string functions of ulib.c, and \<open>printf\<close> (printf.c). A C string is
  the list of the characters before its terminating 0. What \<open>read\<close> returns is a parameter, as is the string
  at an address (\<open>%s\<close>); an overflow of \<open>int\<close> or a missing argument is \<open>None\<close>.
\<close>

definition INT_MAX :: int where "INT_MAX = 2 ^ 31 - 1"

subsection \<open>Strings (ulib.c)\<close>

fun strcmp :: "string \<Rightarrow> string \<Rightarrow> int" where
  "strcmp (a # p) (b # q) = (if a = b then strcmp p q else of_char a - of_char b)"
| "strcmp (a # p) [] = of_char a"
| "strcmp [] (b # q) = - of_char b"
| "strcmp [] [] = 0"

text \<open>\<open>strchr\<close>: the rest of the string from the first \<open>c\<close>.\<close>

fun strchr :: "string \<Rightarrow> char \<Rightarrow> string option" where
  "strchr [] c = None"
| "strchr (a # s) c = (if a = c then Some (a # s) else strchr s c)"

text \<open>The loop of \<open>gets\<close> with room for \<open>n\<close> characters; \<open>inp\<close> are the characters \<open>read\<close> returns before it fails.\<close>

fun gets_loop :: "nat \<Rightarrow> string \<Rightarrow> string \<times> string" where
  "gets_loop 0 inp = ([], inp)"
| "gets_loop (Suc n) [] = ([], [])"
| "gets_loop (Suc n) (c # inp) = (if c = CHR 0x0a \<or> c = CHR 0x0d then ([c], inp)
     else let (s, rest) = gets_loop n inp in (c # s, rest))"

definition gets :: "int \<Rightarrow> string \<Rightarrow> string \<times> string" where
  "gets mx inp = gets_loop (nat (mx - 1)) inp"

fun atoi_loop :: "int \<Rightarrow> string \<Rightarrow> int option" where
  "atoi_loop n [] = Some n"
| "atoi_loop n (c # s) = (if 48 \<le> (of_char c :: int) \<and> (of_char c :: int) \<le> 57
     then if n * 10 + of_char c > INT_MAX then None else atoi_loop (n * 10 + of_char c - 48) s
     else Some n)"

definition atoi :: "string \<Rightarrow> int option" where
  "atoi s = atoi_loop 0 s"

subsection \<open>printf (printf.c)\<close>

definition digits :: string where
  "digits = ''0123456789ABCDEF''"

text \<open>The digits from the last one, \<open>buf\<close> of the code; the callers pass 10 or 16 as the base.\<close>

function put_digits :: "nat \<Rightarrow> nat \<Rightarrow> string" where
  "put_digits base x = digits ! (x mod base) # (if 1 < base \<and> x div base \<noteq> 0 then put_digits base (x div base) else [])"
  by pat_completeness auto
termination by (relation "measure snd") (auto intro!: div_less_dividend intro: gr0I)

definition printint :: "int \<Rightarrow> nat \<Rightarrow> bool \<Rightarrow> string" where
  "printint xx base sg = (let neg = (sg \<and> xx < 0);
     x = nat ((if neg then - xx else xx) mod 2 ^ 32);
     buf = put_digits base x;
     buf = (if neg then buf @ ''-'' else buf) in
     rev buf)"

text \<open>A value of the argument list as an \<open>int\<close>.\<close>

definition as_int :: "nat \<Rightarrow> int" where
  "as_int v = (if v < 2 ^ 31 then int v else int v - 2 ^ 32)"

text \<open>The loop over the format: \<open>pct\<close> says that \<open>state\<close> is \<open>'%'\<close>, \<open>args\<close> are the words from \<open>ap\<close> on.\<close>

fun printf_loop :: "(nat \<Rightarrow> string) \<Rightarrow> bool \<Rightarrow> string \<Rightarrow> nat list \<Rightarrow> string option" where
  "printf_loop str pct [] args = Some []"
| "printf_loop str False (c # fmt) args =
     (if c = CHR ''%'' then printf_loop str True fmt args
      else map_option (Cons c) (printf_loop str False fmt args))"
| "printf_loop str True (c # fmt) args =
     (if c = CHR ''d'' then (case args of [] \<Rightarrow> None | v # args \<Rightarrow>
        map_option (append (printint (as_int v) 10 True)) (printf_loop str False fmt args))
      else if c = CHR ''x'' \<or> c = CHR ''p'' then (case args of [] \<Rightarrow> None | v # args \<Rightarrow>
        map_option (append (printint (as_int v) 16 False)) (printf_loop str False fmt args))
      else if c = CHR ''s'' then (case args of [] \<Rightarrow> None | v # args \<Rightarrow>
        map_option (append (if v = 0 then ''(null)'' else str v)) (printf_loop str False fmt args))
      else if c = CHR ''c'' then (case args of [] \<Rightarrow> None | v # args \<Rightarrow>
        map_option (Cons (char_of v)) (printf_loop str False fmt args))
      else if c = CHR ''%'' then map_option (Cons c) (printf_loop str False fmt args)
      else map_option (append [CHR ''%'', c]) (printf_loop str False fmt args))"

definition printf :: "(nat \<Rightarrow> string) \<Rightarrow> string \<Rightarrow> nat list \<Rightarrow> string option" where
  "printf str fmt args = printf_loop str False fmt args"

subsection \<open>Numbers\<close>

declare put_digits.simps [simp del]

lemma digit_value:
  assumes "n < 10"
  shows "(of_char (digits ! n) :: int) = 48 + int n"
proof -
  have "n \<in> {0, 1, 2, 3, 4, 5, 6, 7, 8, 9}" using assms by auto
  then show ?thesis by (auto simp: digits_def)
qed

text \<open>Reading the digits back.\<close>

lemma atoi_digits:
  "int x + 48 \<le> INT_MAX \<Longrightarrow> atoi_loop 0 (rev (put_digits 10 x) @ rest) = atoi_loop (int x) rest"
proof (induction x arbitrary: rest rule: less_induct)
  case (less x)
  let ?d = "digits ! (x mod 10)"
  have d: "(of_char ?d :: int) = 48 + int (x mod 10)" by (rule digit_value) simp
  have dx: "int (x div 10) * 10 + int (x mod 10) = int x"
    by (metis div_mult_mod_eq of_nat_add of_nat_mult of_nat_numeral)
  have m: "x mod 10 \<le> 9" by presburger
  have step: "atoi_loop (int (x div 10)) (?d # rest) = atoi_loop (int x) rest"
    using d dx less.prems m by simp
  show ?case
  proof (cases "x div 10 = 0")
    case True
    then show ?thesis using step by (subst put_digits.simps) simp
  next
    case False
    then have lt: "x div 10 < x" by (simp add: div_less_dividend)
    have "int (x div 10) \<le> int x" by simp
    then have "int (x div 10) + 48 \<le> INT_MAX" using less.prems by simp
    then have "atoi_loop 0 (rev (put_digits 10 (x div 10)) @ [?d] @ rest) = atoi_loop (int (x div 10)) ([?d] @ rest)"
      by (rule less.IH[OF lt])
    then show ?thesis using False step by (subst put_digits.simps) simp
  qed
qed

lemma digits_length: "x < 10 ^ n \<Longrightarrow> 0 < n \<Longrightarrow> length (put_digits 10 x) \<le> n"
proof (induction n arbitrary: x)
  case (Suc n)
  show ?case
  proof (cases "x div 10 = 0")
    case True
    then show ?thesis by (subst put_digits.simps) simp
  next
    case False
    have l: "x div 10 < 10 ^ n" using Suc.prems(1) by (simp add: less_mult_imp_div_less mult.commute)
    then have "0 < n" using False by (cases n) simp_all
    then show ?thesis using Suc.IH[OF l] False by (subst put_digits.simps) simp
  qed
qed simp

lemma hd_digits: "put_digits b x \<noteq> []" "x mod b < 16 \<Longrightarrow> x < b \<Longrightarrow> put_digits b x = [digits ! x]"
  by (subst put_digits.simps, simp)+

text \<open>
  \<open>printf\<close> of an \<open>int\<close> with \<open>%d\<close> and \<open>atoi\<close> are inverse up to the sign, which \<open>atoi\<close> does not read:
  the number printed is read back exactly, as long as \<open>atoi\<close>'s \<open>n*10 + *s\<close> stays an \<open>int\<close>, and it never
  overflows the buffer of 16 characters of \<open>printint\<close>.
\<close>

theorem atoi_printf:
  assumes "- (2 ^ 31) < xx" "xx + 48 < 2 ^ 31" "48 - xx < 2 ^ 31"
  shows "\<exists>s. printf str ''%d'' [nat (xx mod 2 ^ 32)] = Some s \<and> length s \<le> 11
    \<and> (if xx < 0 then \<exists>u. s = CHR ''-'' # u \<and> atoi u = Some (- xx) else atoi s = Some xx)"
proof -
  define x where "x = nat (if xx < 0 then - xx else xx)"
  have v: "as_int (nat (xx mod 2 ^ 32)) = xx"
  proof (cases "xx < 0")
    case True
    then have "xx mod 2 ^ 32 = xx + 2 ^ 32"
      using assms(1) by (intro int_mod_pos_eq[of _ _ "- 1"]) simp_all
    then show ?thesis using True assms(1) by (simp add: as_int_def)
  next
    case False
    then have "xx mod 2 ^ 32 = xx" using assms(2) by simp
    then show ?thesis using False assms(2) by (simp add: as_int_def)
  qed
  have x: "int x + 48 \<le> INT_MAX" "(if xx < 0 then - xx else xx) mod 2 ^ 32 = int x"
    using assms by (simp_all add: x_def INT_MAX_def)
  have p: "printint xx 10 True = (if xx < 0 then CHR ''-'' # rev (put_digits 10 x) else rev (put_digits 10 x))"
    using arg_cong[OF x(2), of nat] by (auto simp: printint_def Let_def)
  have r: "atoi (rev (put_digits 10 x)) = Some (int x)"
    using atoi_digits[OF x(1), of "[]"] by (simp add: atoi_def)
  have "x < 10 ^ 10" using x(1) by (simp add: INT_MAX_def)
  then have "length (put_digits 10 x) \<le> 10" by (rule digits_length) simp
  moreover have "printf str ''%d'' [nat (xx mod 2 ^ 32)] = Some (printint xx 10 True)"
    using v by (simp add: printf_def)
  ultimately show ?thesis using p r by (auto simp: x_def)
qed

theorem atoi_printf_witness: "printf (\<lambda>_. []) ''%d'' [nat ((- 1234) mod 2 ^ 32)] = Some ''-1234'' \<and> atoi ''1234'' = Some 1234"
proof -
  obtain s u where "printf (\<lambda>_. []) ''%d'' [nat ((- 1234) mod 2 ^ 32)] = Some s" "s = CHR ''-'' # u" "atoi u = Some 1234"
    using atoi_printf[of "- 1234" "\<lambda>_. []"] by auto
  moreover have "printf (\<lambda>_. []) ''%d'' [nat ((- 1234) mod 2 ^ 32)] = Some ''-1234''"
    by (simp add: printf_def printint_def as_int_def put_digits.simps digits_def Let_def)
  ultimately show ?thesis by simp
qed

end
