(* ===== verification/Grep.thy ===== *)
theory Grep
  imports Ulib
begin

text \<open>
  The program grep (grep.c): its matcher for regular expressions with \<open>^\<close>, \<open>.\<close>, \<open>*\<close> and \<open>$\<close>, and the loop
  that splits the input into lines. The specification of the matcher is the language of the
  pattern; the specification of the loop is the list of the lines of the input.
\<close>

subsection \<open>The matcher\<close>

text \<open>\<open>re[0]\<close>: the first character, or the terminating 0.\<close>

definition at0 :: "string \<Rightarrow> char" where
  "at0 s = (case s of [] \<Rightarrow> CHR 0x00 | c # _ \<Rightarrow> c)"

function (sequential) matchhere :: "string \<Rightarrow> string \<Rightarrow> bool"
and matchstar :: "char \<Rightarrow> string \<Rightarrow> string \<Rightarrow> bool" where
  "matchhere [] text = True"
| "matchhere (r0 # re) text =
     (if at0 re = CHR ''*'' then matchstar r0 (tl re) text
      else if r0 = CHR ''$'' \<and> re = [] then text = []
      else if text \<noteq> [] \<and> (r0 = CHR ''.'' \<or> r0 = hd text) then matchhere re (tl text)
      else False)"
| "matchstar c re text =
     (if matchhere re text then True
      else if text \<noteq> [] \<and> (hd text = c \<or> c = CHR ''.'') then matchstar c re (tl text)
      else False)"
  by pat_completeness auto
termination
  by (relation "measures [\<lambda>x. case x of Inl (re, _) \<Rightarrow> 2 * length re | Inr (_, re, _) \<Rightarrow> 2 * length re + 1,
      \<lambda>x. case x of Inl (_, text) \<Rightarrow> length text | Inr (_, _, text) \<Rightarrow> length text]")
    (auto simp: at0_def split: list.splits)

text \<open>The loop of \<open>match\<close> over the suffixes of the text, the empty one included.\<close>

fun match_loop :: "string \<Rightarrow> string \<Rightarrow> bool" where
  "match_loop re [] = matchhere re []"
| "match_loop re (t # text) = (matchhere re (t # text) \<or> match_loop re text)"

definition match :: "string \<Rightarrow> string \<Rightarrow> bool" where
  "match re text = (if at0 re = CHR ''^'' then matchhere (tl re) text else match_loop re text)"

subsection \<open>The language of a pattern\<close>

text \<open>A pattern is a list of items, and may be anchored at the end by a last \<open>$\<close>.\<close>

datatype item = One char | Many char

fun items :: "string \<Rightarrow> item list" where
  "items [] = []"
| "items [c] = (if c = CHR ''$'' then [] else [One c])"
| "items (c # d # re) = (if d = CHR ''*'' then Many c # items re else One c # items (d # re))"

fun anchored :: "string \<Rightarrow> bool" where
  "anchored [] \<longleftrightarrow> False"
| "anchored [c] \<longleftrightarrow> c = CHR ''$''"
| "anchored (c # d # re) \<longleftrightarrow> (if d = CHR ''*'' then anchored re else anchored (d # re))"

text \<open>The characters \<open>c\<close> stands for, and the words of a list of items.\<close>

definition chars :: "char \<Rightarrow> char set" where
  "chars c = (if c = CHR ''.'' then UNIV else {c})"

fun lang :: "item list \<Rightarrow> string set" where
  "lang [] = {[]}"
| "lang (One c # its) = {t # w | t w. t \<in> chars c \<and> w \<in> lang its}"
| "lang (Many c # its) = {u @ w | u w. set u \<subseteq> chars c \<and> w \<in> lang its}"

definition matches_prefix :: "string \<Rightarrow> string \<Rightarrow> bool" where
  "matches_prefix re text \<longleftrightarrow> (\<exists>u v. text = u @ v \<and> u \<in> lang (items re) \<and> (anchored re \<longrightarrow> v = []))"

lemma matches_prefix_Nil [simp]: "matches_prefix [] text"
  by (auto simp: matches_prefix_def)

lemma matches_prefix_alt:
  "matches_prefix re s \<longleftrightarrow> (\<exists>u v. s = u @ v \<and> u \<in> lang (items re) \<and> v \<in> (if anchored re then {[]} else UNIV))"
  by (auto simp: matches_prefix_def)

lemma part_One: "(\<exists>u v. s = u @ v \<and> u \<in> lang (One c # its) \<and> v \<in> E) \<longleftrightarrow>
    s \<noteq> [] \<and> hd s \<in> chars c \<and> (\<exists>u v. tl s = u @ v \<and> u \<in> lang its \<and> v \<in> E)" (is "?A \<longleftrightarrow> ?B")
proof
  assume ?A
  then obtain t w v where "s = (t # w) @ v" "t \<in> chars c" "w \<in> lang its" "v \<in> E" by auto
  then show ?B by auto
next
  assume b: ?B
  then obtain u v where "tl s = u @ v" "u \<in> lang its" "v \<in> E" by blast
  then show ?A using b by (intro exI[of _ "hd s # u"] exI[of _ v]) (cases s; auto)
qed

lemma part_Many: "(\<exists>u v. s = u @ v \<and> u \<in> lang (Many c # its) \<and> v \<in> E) \<longleftrightarrow>
    (\<exists>x y. s = x @ y \<and> set x \<subseteq> chars c \<and> (\<exists>u v. y = u @ v \<and> u \<in> lang its \<and> v \<in> E))" (is "?A \<longleftrightarrow> ?B")
proof
  assume ?A
  then obtain x w v where "s = (x @ w) @ v" "set x \<subseteq> chars c" "w \<in> lang its" "v \<in> E" by auto
  then show ?B by (intro exI[of _ x] exI[of _ "w @ v"]) auto
next
  assume ?B
  then obtain x u v where "s = x @ u @ v" "set x \<subseteq> chars c" "u \<in> lang its" "v \<in> E" by auto
  then show ?A by (intro exI[of _ "x @ u"] exI[of _ v]) auto
qed

lemma matches_prefix_One:
  assumes "at0 re \<noteq> CHR ''*''" "\<not> (c = CHR ''$'' \<and> re = [])"
  shows "matches_prefix (c # re) s \<longleftrightarrow> s \<noteq> [] \<and> hd s \<in> chars c \<and> matches_prefix re (tl s)"
proof -
  have "items (c # re) = One c # items re" "anchored (c # re) = anchored re"
    using assms by (cases re; simp add: at0_def)+
  then show ?thesis unfolding matches_prefix_alt by (simp only: part_One)
qed

lemma matches_prefix_Many:
  assumes "at0 re = CHR ''*''"
  shows "matches_prefix (c # re) s \<longleftrightarrow> (\<exists>u v. s = u @ v \<and> set u \<subseteq> chars c \<and> matches_prefix (tl re) v)"
proof -
  obtain re' where "re = CHR ''*'' # re'" using assms by (cases re) (auto simp: at0_def)
  then have "items (c # re) = Many c # items (tl re)" "anchored (c # re) = anchored (tl re)" by simp_all
  then show ?thesis unfolding matches_prefix_alt by (simp only: part_Many)
qed

text \<open>\<open>matchhere\<close> and \<open>matchstar\<close> decide whether a prefix of the text is in the language.\<close>

lemma matchhere_matches:
  "matchhere re s \<longleftrightarrow> matches_prefix re s"
  "matchstar c re s \<longleftrightarrow> (\<exists>u v. s = u @ v \<and> set u \<subseteq> chars c \<and> matches_prefix re v)"
proof (induction re s and c re s rule: matchhere_matchstar.induct)
  case (2 r0 re ts)
  show ?case
  proof (cases "at0 re = CHR ''*''")
    case True
    then show ?thesis using 2(1) matches_prefix_Many by simp
  next
    case False
    show ?thesis
    proof (cases "r0 = CHR ''$'' \<and> re = []")
      case True
      then show ?thesis by (auto simp: at0_def matches_prefix_def)
    next
      case dollar: False
      have "r0 = CHR ''.'' \<or> r0 = hd ts \<longleftrightarrow> hd ts \<in> chars r0" by (auto simp: chars_def)
      then show ?thesis using 2(2)[OF False dollar] matches_prefix_One[OF False dollar] False dollar by auto
    qed
  qed
next
  case (3 c re ts)
  have cs: "hd ts = c \<or> c = CHR ''.'' \<longleftrightarrow> hd ts \<in> chars c" by (auto simp: chars_def)
  show ?case (is "_ \<longleftrightarrow> ?R ts")
  proof (cases "matches_prefix re ts")
    case True
    then have "?R ts" by (intro exI[of _ "[]"] exI[of _ ts]) simp
    then show ?thesis using 3(1) True by simp
  next
    case False
    have "?R ts \<longleftrightarrow> ts \<noteq> [] \<and> hd ts \<in> chars c \<and> ?R (tl ts)"
    proof
      assume "?R ts"
      then obtain u v where u: "ts = u @ v" "set u \<subseteq> chars c" "matches_prefix re v" by blast
      then obtain t u' where "u = t # u'" using False by (cases u) auto
      then show "ts \<noteq> [] \<and> hd ts \<in> chars c \<and> ?R (tl ts)" using u by auto
    next
      assume r: "ts \<noteq> [] \<and> hd ts \<in> chars c \<and> ?R (tl ts)"
      then obtain u v where "tl ts = u @ v" "set u \<subseteq> chars c" "matches_prefix re v" by blast
      then show "?R ts" using r by (intro exI[of _ "hd ts # u"] exI[of _ v]) (cases ts; simp)
    qed
    then show ?thesis using 3 False cs by auto
  qed
qed simp

lemma match_loop_matches: "match_loop re s \<longleftrightarrow> (\<exists>p u. s = p @ u \<and> matches_prefix re u)"
proof (induction s)
  case (Cons t ts)
  have "(\<exists>p u. t # ts = p @ u \<and> matches_prefix re u) \<longleftrightarrow>
      matches_prefix re (t # ts) \<or> (\<exists>p u. ts = p @ u \<and> matches_prefix re u)"
    by (metis append_Cons append_Nil append_eq_Cons_conv)
  then show ?case using Cons.IH by (simp add: matchhere_matches)
qed (simp add: matchhere_matches)

text \<open>
  C31. The matcher of grep returns for every pattern and text, and is right: the text has a part in the
  language of the pattern, at the beginning of the text when the pattern starts with \<open>^\<close> and at its end
  when the pattern ends with \<open>$\<close>.
\<close>

theorem match_language:
  "match re text \<longleftrightarrow> (let body = (if at0 re = CHR ''^'' then tl re else re) in
     \<exists>p u s. text = p @ u @ s \<and> u \<in> lang (items body) \<and> (at0 re = CHR ''^'' \<longrightarrow> p = []) \<and> (anchored body \<longrightarrow> s = []))"
proof (cases "at0 re = CHR ''^''")
  case True
  then show ?thesis by (simp add: match_def matchhere_matches matches_prefix_def Let_def)
next
  case False
  then show ?thesis by (simp add: match_def match_loop_matches matches_prefix_def Let_def) blast
qed

theorem match_language_witness:
  "\<exists>p u s. ''xabbc'' = p @ u @ s \<and> u \<in> lang (items ''ab*c$'') \<and> s = []"
proof -
  have "match ''ab*c$'' ''xabbc''" by (simp add: match_def at0_def)
  moreover have "at0 ''ab*c$'' \<noteq> CHR ''^''" "anchored ''ab*c$''" by (simp_all add: at0_def)
  ultimately show ?thesis using match_language[of "''ab*c$''" "''xabbc''"] unfolding Let_def by presburger
qed

subsection \<open>The loop over the input\<close>

abbreviation NL :: char where "NL \<equiv> CHR 0x0a"

text \<open>The C string at the beginning of the buffer.\<close>

definition cstr :: "string \<Rightarrow> string" where
  "cstr p = takeWhile (\<lambda>c. c \<noteq> CHR 0x00) p"

text \<open>The inner loop: the lines of the buffer from \<open>p\<close> on; the output, and the rest without a newline.\<close>

lemma strchr_length: "strchr s c = Some q \<Longrightarrow> length q \<le> length s \<and> q \<noteq> []"
  by (induction s c rule: strchr.induct) (auto split: if_splits)

function grep_lines :: "string \<Rightarrow> string \<Rightarrow> string \<times> string" where
  "grep_lines pattern p = (case strchr (cstr p) NL of
     None \<Rightarrow> ([], p)
   | Some q \<Rightarrow>
       let line = take (length (cstr p) - length q) p;
           (out, rest) = grep_lines pattern (drop (length (cstr p) - length q + 1) p) in
       ((if match pattern line then line @ [NL] else []) @ out, rest))"
  by pat_completeness auto
termination
proof (relation "measure (length \<circ> snd)")
  fix pattern p q and line :: string
  assume "strchr (cstr p) NL = Some q"
  then have "cstr p \<noteq> []" by auto
  then show "((pattern, drop (length (cstr p) - length q + 1) p), (pattern, p)) \<in> measure (length \<circ> snd)"
    by (cases p) (auto simp: cstr_def)
qed simp

text \<open>
  The outer loop: \<open>b\<close> are the \<open>m\<close> characters in the buffer, \<open>xs\<close> what the following calls of \<open>read\<close> return,
  each with at most \<open>sizeof(buf)-m-1\<close> characters.
\<close>

fun grep_loop :: "string \<Rightarrow> string \<Rightarrow> string list \<Rightarrow> string" where
  "grep_loop pattern b [] = []"
| "grep_loop pattern b (x # xs) =
     (if x = [] then []
      else let (out, rest) = grep_lines pattern (b @ x) in
        out @ grep_loop pattern (if length rest = length (b @ x) then [] else rest) xs)"

definition grep :: "string \<Rightarrow> string list \<Rightarrow> string" where
  "grep pattern xs = grep_loop pattern [] xs"

declare grep_lines.simps [simp del]

text \<open>The specification: the complete lines of a text, and those that match.\<close>

fun lines_of :: "string \<Rightarrow> string \<Rightarrow> string list" where
  "lines_of l [] = []"
| "lines_of l (c # s) = (if c = NL then l # lines_of [] s else lines_of (l @ [c]) s)"

definition matching :: "string \<Rightarrow> string list \<Rightarrow> string" where
  "matching pattern ls = concat (map (\<lambda>l. if match pattern l then l @ [NL] else []) ls)"

lemma matching_simps [simp]:
  "matching pattern [] = []" "matching pattern (l # ls) = (if match pattern l then l @ [NL] else []) @ matching pattern ls"
  "matching pattern (ls @ ms) = matching pattern ls @ matching pattern ms"
  by (simp_all add: matching_def)

lemma lines_of_line: "NL \<notin> set a \<Longrightarrow> lines_of l (a @ NL # s) = (l @ a) # lines_of [] s"
  by (induction a arbitrary: l) auto

lemma lines_of_none: "NL \<notin> set a \<Longrightarrow> lines_of l a = []"
  by (induction a arbitrary: l) auto

lemma strchr_None: "c \<notin> set s \<Longrightarrow> strchr s c = None"
  by (induction s c rule: strchr.induct) auto

lemma strchr_Some: "c \<notin> set a \<Longrightarrow> strchr (a @ c # s) c = Some (c # s)"
  by (induction a) auto

lemma cstr_id: "CHR 0x00 \<notin> set p \<Longrightarrow> cstr p = p"
  by (auto simp: cstr_def takeWhile_eq_all_conv)

lemma grep_lines_none: "NL \<notin> set p \<Longrightarrow> CHR 0x00 \<notin> set p \<Longrightarrow> grep_lines pattern p = ([], p)"
  by (subst grep_lines.simps) (simp add: cstr_id strchr_None)

lemma grep_lines_line:
  assumes "NL \<notin> set a" "CHR 0x00 \<notin> set (a @ s)"
  shows "grep_lines pattern (a @ NL # s) =
    ((if match pattern a then a @ [NL] else []) @ fst (grep_lines pattern s), snd (grep_lines pattern s))"
  using assms by (subst grep_lines.simps) (simp add: cstr_id strchr_Some split_beta Let_def One_nat_def)

text \<open>The inner loop prints the matching lines of the buffer and leaves the last, unfinished line.\<close>

lemma grep_lines_spec:
  assumes "CHR 0x00 \<notin> set p"
  shows "fst (grep_lines pattern p) = matching pattern (lines_of [] p) \<and> NL \<notin> set (snd (grep_lines pattern p))
    \<and> (\<exists>d. p = d @ snd (grep_lines pattern p) \<and> (\<forall>s. lines_of [] (d @ s) = lines_of [] d @ lines_of [] s)
        \<and> lines_of [] p = lines_of [] d \<and> (d = [] \<longleftrightarrow> NL \<notin> set p))"
  using assms
proof (induction p rule: length_induct)
  case (1 p)
  show ?case
  proof (cases "NL \<in> set p")
    case False
    then show ?thesis using grep_lines_none[OF False 1(2)] by (auto simp: lines_of_none)
  next
    case True
    then obtain a s where p: "p = a @ NL # s" "NL \<notin> set a" by (meson split_list_first)
    have z: "CHR 0x00 \<notin> set s" "CHR 0x00 \<notin> set (a @ s)" using 1(2) unfolding p by auto
    have "length s < length p" unfolding p by simp
    then obtain d where d: "fst (grep_lines pattern s) = matching pattern (lines_of [] s)" "NL \<notin> set (snd (grep_lines pattern s))"
      "s = d @ snd (grep_lines pattern s)" "\<forall>u. lines_of [] (d @ u) = lines_of [] d @ lines_of [] u" "lines_of [] s = lines_of [] d"
      using 1(1) z(1) by blast
    let ?d = "a @ NL # d"
    have "p = ?d @ snd (grep_lines pattern s)" using d(3) p(1) by simp
    moreover have "lines_of [] (?d @ u) = lines_of [] ?d @ lines_of [] u" for u
      using d(4) by (simp add: lines_of_line[OF p(2)])
    moreover have "lines_of [] p = lines_of [] ?d" using d(5) unfolding p(1) by (simp add: lines_of_line[OF p(2)])
    ultimately show ?thesis using d(1,2) True unfolding p(1) grep_lines_line[OF p(2) z(2)]
      by (auto simp: lines_of_line[OF p(2)] intro!: exI[of _ ?d])
  qed
qed

lemma grep_loop_spec:
  assumes "\<forall>x \<in> set xs. NL \<in> set x \<and> CHR 0x00 \<notin> set x" "NL \<notin> set b" "CHR 0x00 \<notin> set b"
  shows "grep_loop pattern b xs = matching pattern (lines_of [] (b @ concat xs))"
  using assms
proof (induction xs arbitrary: b)
  case Nil
  then show ?case by (simp add: lines_of_none)
next
  case (Cons x xs)
  let ?r = "snd (grep_lines pattern (b @ x))"
  have z: "CHR 0x00 \<notin> set (b @ x)" using Cons.prems by auto
  obtain d where d: "fst (grep_lines pattern (b @ x)) = matching pattern (lines_of [] (b @ x))" "NL \<notin> set ?r"
    "b @ x = d @ ?r" "\<forall>s. lines_of [] (d @ s) = lines_of [] d @ lines_of [] s" "lines_of [] (b @ x) = lines_of [] d"
    "d = [] \<longleftrightarrow> NL \<notin> set (b @ x)"
    using grep_lines_spec[OF z, of pattern] by blast
  have "length (b @ x) = length d + length ?r" using arg_cong[OF d(3), of length] by simp
  moreover have "d \<noteq> []" using d(6) Cons.prems(1) by simp
  ultimately have ne: "length ?r \<noteq> length (b @ x)" by simp
  have zr: "CHR 0x00 \<notin> set ?r" using z d(3) by (metis Un_iff set_append)
  have x: "x \<noteq> []" using Cons.prems(1) by auto
  have "grep_loop pattern b (x # xs) = matching pattern (lines_of [] d) @ grep_loop pattern ?r xs"
    using x ne d(1,5) by (simp add: split_beta Let_def)
  also have "grep_loop pattern ?r xs = matching pattern (lines_of [] (?r @ concat xs))"
    using Cons.IH[of ?r] Cons.prems(1) d(2) zr by simp
  also have "matching pattern (lines_of [] d) @ \<dots> = matching pattern (lines_of [] (d @ ?r @ concat xs))"
    using d(4) by simp
  also have "d @ ?r @ concat xs = b @ concat (x # xs)" using d(3) by (metis append.assoc concat.simps(2))
  finally show ?case .
qed

text \<open>
  C30. grep prints exactly the lines that match, in order and wherever \<open>read\<close> cuts the input, as long as every
  \<open>read\<close> returns a newline; a \<open>read\<close> without one makes it forget what it has of the line, so that a
  line that comes in two pieces is treated as if it were its second piece.
\<close>

theorem grep_prints_lines:
  "((\<forall>x \<in> set xs. NL \<in> set x \<and> CHR 0x00 \<notin> set x) \<longrightarrow> grep pattern xs = matching pattern (lines_of [] (concat xs)))
    \<and> (CHR 0x00 \<notin> set (a @ b) \<longrightarrow> NL \<notin> set (a @ b) \<longrightarrow> a \<noteq> [] \<longrightarrow>
        grep pattern [a, b @ [NL]] = (if match pattern b then b @ [NL] else []))"
proof -
  have "grep pattern [a, b @ [NL]] = (if match pattern b then b @ [NL] else [])"
    if "CHR 0x00 \<notin> set (a @ b)" "NL \<notin> set (a @ b)" "a \<noteq> []"
  proof -
    have "grep_loop pattern [] [a, b @ [NL]] = grep_loop pattern [] [b @ [NL]]"
      using grep_lines_none[of a pattern] that by simp
    also have "\<dots> = matching pattern (lines_of [] (b @ [NL]))"
      using grep_loop_spec[of "[b @ [NL]]" "[]" pattern] that by simp
    finally show ?thesis using that by (simp add: grep_def lines_of_line)
  qed
  then show ?thesis using grep_loop_spec[of xs "[]" pattern] by (auto simp: grep_def)
qed

theorem grep_prints_lines_witness:
  "grep ''b*c$'' [''abc'' @ [NL] @ ''x'', ''c'' @ [NL]] = ''abc'' @ [NL] @ ''xc'' @ [NL] \<and> grep ''ab'' [''a'', ''b'' @ [NL]] = []"
proof -
  have "grep ''b*c$'' [''abc'' @ [NL] @ ''x'', ''c'' @ [NL]] = matching ''b*c$'' (lines_of [] (''abc'' @ [NL] @ ''xc'' @ [NL]))"
    using grep_prints_lines[of "[''abc'' @ [NL] @ ''x'', ''c'' @ [NL]]" "''b*c$''" "''a''" "[]"] by simp
  moreover have "match ''b*c$'' ''abc''" "match ''b*c$'' ''xc''" "\<not> match ''ab'' ''b''"
    by (simp_all add: match_def at0_def)
  ultimately show ?thesis using grep_prints_lines[of "[]" "''ab''" "''a''" "''b''"] by simp
qed

end
