(* ===== verification/Lwp.thy ===== *)
theory Lwp
  imports Proc Boot
begin

text \<open>
  The light-weight processes of project 2 (proc.c and sysproc.c of src/project2/xv6-public): threads are entries
  of the process table that share the page directory of their master, which has a table of its threads. The
  kernel below them is that of the other theories, whose functions project 2 has in the same form;
  the fields which project 2 adds to \<open>struct proc\<close> are a record of their own, one per entry of the table.
\<close>

definition NTHREAD :: nat where "NTHREAD = 64"

record lwp =
  multi_threaded :: bool
  tid :: int
  num_thread :: int
  ret_val :: "int list"
  threads :: "pptr list"
  master_thread :: pptr

record lst =
  pk :: kst
  lws :: "lwp list"

type_synonym 'a lres = "('a, lst) res"

definition in_pk :: "(kst \<Rightarrow> 'a kres) \<Rightarrow> lst \<Rightarrow> 'a lres" where
  "in_pk m s = (case m (pk s) of Ok x k \<Rightarrow> Ok x (s\<lparr>pk := k\<rparr>) | Panic e \<Rightarrow> Panic e
     | Sched k \<Rightarrow> Sched (s\<lparr>pk := k\<rparr>) | Undef \<Rightarrow> Undef)"

definition upd_pk :: "(kst \<Rightarrow> kst) \<Rightarrow> lst \<Rightarrow> lst" where
  "upd_pk f s = s\<lparr>pk := f (pk s)\<rparr>"

definition upd_lw :: "nat \<Rightarrow> (lwp \<Rightarrow> lwp) \<Rightarrow> lst \<Rightarrow> lst" where
  "upd_lw i f s = s\<lparr>lws := (lws s)[i := f (lws s ! i)]\<rparr>"

definition int_bytes :: "int \<Rightarrow> u8 list" where
  "int_bytes v = put32 0 (uint32 v) [0, 0, 0, 0]"

text \<open>The trap frame of a new process is what its kernel stack page holds: 19 words at its top.\<close>

definition page_tf :: "memory \<Rightarrow> nat \<Rightarrow> trapframe" where
  "page_tf m kst = (let w = (\<lambda>k. rd32 m (V2P kst + (KSTACKSIZE - 76) + 4 * k)) in
     \<lparr>tf_eax = w 7, tf_eip = w 14, tf_esp = w 17, tf_cs = w 15 mod 2 ^ 16, tf_trapno = w 12,
      tf_rest = map w [0, 1, 2, 3, 4, 5, 6, 8, 9, 10, 11, 13, 16, 18]\<rparr>)"

text \<open>\<open>allocproc\<close> of project 2: it also sets the fields for threads.\<close>

definition lwp_allocproc :: "nat \<Rightarrow> lst \<Rightarrow> nat option lres" where
  "lwp_allocproc forkret_addr s = kbind (in_pk (allocproc forkret_addr) s) (\<lambda>r s. case r of None \<Rightarrow> Ok None s
     | Some p \<Rightarrow>
         let s = upd_pk (\<lambda>k. upd_proc p (\<lambda>q. q\<lparr>tf := page_tf (pmem k) (kstack q)\<rparr>) k) s in
         Ok (Some p) (upd_lw p (\<lambda>t. t\<lparr>multi_threaded := False, num_thread := 0, master_thread := Some p, tid := 0\<rparr>) s))"

text \<open>An entry of the table of threads.\<close>

definition thread_at :: "nat \<Rightarrow> int \<Rightarrow> lst \<Rightarrow> nat lres" where
  "thread_at c i s = (if 0 \<le> i \<and> i < int NTHREAD
     then (case threads (lws s ! c) ! nat i of None \<Rightarrow> Undef | Some p \<Rightarrow> Ok p s) else Undef)"

subsection \<open>thread_create\<close>

text \<open>The thread gets two pages at the end of the memory of the master, the upper one for its stack.\<close>

definition thread_stack :: "nat \<Rightarrow> nat \<Rightarrow> nat \<Rightarrow> nat \<Rightarrow> lst \<Rightarrow> unit lres" where
  "thread_stack p nt start_routine arg s =
    (let pd = pgdir (procs (pk s) ! nt); oldsz = PGROUNDUP (sz (procs (pk s) ! p)) in
     kbind (in_pk (allocuvm pd oldsz (uadd oldsz (2 * PGSIZE))) s) (\<lambda>n s.
     if n = 0 then Panic ''allocuvm''
     else let s = upd_pk (\<lambda>k. upd_proc nt (\<lambda>q. q\<lparr>sz := n\<rparr>) (upd_proc p (\<lambda>q. q\<lparr>sz := n\<rparr>) k)) s in
       kbind (in_pk (uread arg 4) s) (\<lambda>a s.
       kbind (in_pk (copyout pd (tf_esp (tf (procs (pk s) ! nt))) (int_bytes (- 1) @ a)) s) (\<lambda>r s.
       if r < 0 then Panic ''copyout''
       else Ok () (upd_pk (\<lambda>k. upd_proc nt (\<lambda>q. q\<lparr>tf := (tf q)\<lparr>tf_esp := usub (sz (procs k ! p)) 8, tf_eip := start_routine\<rparr>\<rparr>) k) s)))))"

definition thread_enter :: "nat \<Rightarrow> nat \<Rightarrow> lst \<Rightarrow> unit lres" where
  "thread_enter p nt s = kbind (in_pk (acquire LPtable) s) (\<lambda>_ s.
     let n = num_thread (lws s ! p) + 1 in
     if \<not> (0 \<le> n \<and> n < int NTHREAD) then Undef
     else
       let s = upd_lw p (\<lambda>t. t\<lparr>multi_threaded := True, threads := (threads t)[0 := Some p, nat n := Some nt], num_thread := n\<rparr>) s;
           s = upd_lw nt (\<lambda>t. t\<lparr>tid := n\<rparr>) s;
           s = upd_pk (upd_proc nt (\<lambda>q. q\<lparr>state := RUNNABLE\<rparr>)) s in
       in_pk (release LPtable) s)"

definition thread_create :: "nat \<Rightarrow> nat \<Rightarrow> nat \<Rightarrow> nat \<Rightarrow> lst \<Rightarrow> int lres" where
  "thread_create forkret_addr thr start_routine arg s = (case curproc (pk s) of None \<Rightarrow> Undef | Some p \<Rightarrow>
     kbind (lwp_allocproc forkret_addr s) (\<lambda>r s. case r of None \<Rightarrow> Ok (- 1) s | Some nt \<Rightarrow>
     let s = upd_lw nt (\<lambda>t. t\<lparr>multi_threaded := True, master_thread := Some p, num_thread := - 1\<rparr>) s;
         s = upd_pk (\<lambda>k. upd_proc nt (\<lambda>q. q\<lparr>chan := None, killed := False, cwd := cwd (procs k ! p),
               pgdir := pgdir (procs k ! p)\<rparr>) k) s in
     kbind (thread_stack p nt start_routine arg s) (\<lambda>_ s.
     kbind (kfor [0..<NOFILE] (\<lambda>i. in_pk (dup_file p nt i)) s) (\<lambda>_ s.
     case cwd (procs (pk s) ! p) of None \<Rightarrow> Undef | Some ip \<Rightarrow>
     kbind (in_pk (idup ip) s) (\<lambda>ip s.
     case safestr (pname (procs (pk s) ! nt)) (pname (procs (pk s) ! p)) 16 of None \<Rightarrow> Undef | Some nm \<Rightarrow>
     let s = upd_pk (upd_proc nt (\<lambda>q. q\<lparr>cwd := Some ip, pname := nm\<rparr>)) s in
     kbind (thread_enter p nt s) (\<lambda>_ s.
     kbind (in_pk (uwrite thr (int_bytes (tid (lws s ! nt)))) s) (\<lambda>_ s.
     Ok 0 s)))))))"

subsection \<open>thread_exit\<close>

text \<open>A thread of the master is given to the first process.\<close>

definition thread_abandon :: "nat \<Rightarrow> nat \<Rightarrow> lst \<Rightarrow> unit lres" where
  "thread_abandon m i s = kbind (thread_at m (int i) s) (\<lambda>p s.
     let s = upd_pk (\<lambda>k. upd_proc p (\<lambda>q. q\<lparr>parent := initproc k\<rparr>) k) s in
     Ok () (if state (procs (pk s) ! p) = ZOMBIE
            then upd_pk (\<lambda>k. wakeup1 (map_option ChProc (initproc k)) k) s else s))"

definition thread_exit_tail :: "nat \<Rightarrow> lst \<Rightarrow> unit lres" where
  "thread_exit_tail retval s = kbind (in_pk (acquire LPtable) s) (\<lambda>_ s.
     case curproc (pk s) of None \<Rightarrow> Undef | Some c \<Rightarrow>
     (case master_thread (lws s ! c) of None \<Rightarrow> Undef | Some m \<Rightarrow>
       let s = upd_pk (wakeup1 (Some (ChProc m))) s in
       kbind (kfor [0..<nat (num_thread (lws s ! m) + 1)] (thread_abandon m) s) (\<lambda>_ s.
       let s = upd_pk (upd_proc c (\<lambda>q. q\<lparr>state := ZOMBIE\<rparr>)) s in
       kbind (in_pk (uread retval 4) s) (\<lambda>v s.
       if \<not> (0 \<le> tid (lws s ! c) \<and> tid (lws s ! c) < int NTHREAD) then Undef
       else
         let s = upd_lw m (\<lambda>t. t\<lparr>ret_val := (ret_val t)[nat (tid (lws s ! c)) := sint32 (get32 v 0)]\<rparr>) s;
             s = upd_pk (\<lambda>k. wakeup1 (map_option ChProc (parent (procs k ! c))) k) s in
         in_pk sched s))))"

definition thread_exit :: "nat \<Rightarrow> lst \<Rightarrow> unit lres" where
  "thread_exit retval s = (case curproc (pk s) of None \<Rightarrow> Undef | Some c \<Rightarrow>
     if tid (lws s ! c) = 0 then Panic (''master thread calling thread_exit'' @ [CHR 0x0a])
     else kbind (kfor [0..<NOFILE] (\<lambda>fd. in_pk (close_file c fd)) s) (\<lambda>_ s.
       kbind (in_pk begin_op s) (\<lambda>_ s.
       case cwd (procs (pk s) ! c) of None \<Rightarrow> Undef | Some ip \<Rightarrow>
       kbind (in_pk (iput ip) s) (\<lambda>_ s.
       kbind (in_pk end_op s) (\<lambda>_ s.
       kbind (thread_exit_tail retval (upd_pk (upd_proc c (\<lambda>q. q\<lparr>cwd := None\<rparr>)) s)) (\<lambda>_ s.
       Panic ''[THREAD]zombie exit''))))))"

subsection \<open>thread_join\<close>

text \<open>The entries above \<open>threadid\<close> move down.\<close>

definition join_shift :: "nat \<Rightarrow> int \<Rightarrow> lst \<Rightarrow> unit lres" where
  "join_shift c j s = kbind (thread_at c (j + 1) s) (\<lambda>p s.
     let s = upd_lw c (\<lambda>t. t\<lparr>threads := (threads t)[nat j := Some p]\<rparr>) s;
         s = upd_lw p (\<lambda>t. t\<lparr>tid := j\<rparr>) s in
     Ok () (upd_lw c (\<lambda>t. t\<lparr>ret_val := (ret_val t)[nat j := ret_val t ! nat (j + 1)]\<rparr>) s))"

text \<open>The thread \<open>p\<close> has exited.\<close>

definition join_found :: "nat \<Rightarrow> nat \<Rightarrow> int \<Rightarrow> nat \<Rightarrow> lst \<Rightarrow> unit lres" where
  "join_found c p threadid retval s = kbind (in_pk (kfree (kstack (procs (pk s) ! p))) s) (\<lambda>_ s.
     kbind (in_pk (uwrite retval (int_bytes (ret_val (lws s ! c) ! nat threadid))) s) (\<lambda>_ s.
     let s = upd_lw c (\<lambda>t. t\<lparr>num_thread := num_thread t - 1\<rparr>) s in
     kbind (kfor [threadid..num_thread (lws s ! c) - 1] (join_shift c) s) (\<lambda>_ s.
     let s = (if num_thread (lws s ! c) = 0 then upd_lw c (\<lambda>t. t\<lparr>multi_threaded := False\<rparr>) s else s) in
     in_pk (release LPtable) s)))"

text \<open>One round of the loop; the next one starts by sleeping again.\<close>

definition join_round :: "nat \<Rightarrow> int \<Rightarrow> nat \<Rightarrow> bool \<Rightarrow> bool \<Rightarrow> lst \<Rightarrow> int lres" where
  "join_round c threadid retval gosleep found s =
     kbind (if gosleep then kbind (in_pk (sleep (ChProc c) None) s) (\<lambda>(_ :: unit) s. in_pk (acquire LPtable) s) else Ok () s) (\<lambda>_ s.
     kbind (thread_at c threadid s) (\<lambda>p s.
     if state (procs (pk s) ! p) = ZOMBIE then kbind (join_found c p threadid retval s) (\<lambda>_ s. Ok 0 s)
     else if found then Ok 0 s
     else in_pk (sleep (ChProc c) None) s))"

definition thread_join :: "int \<Rightarrow> nat \<Rightarrow> lst \<Rightarrow> int lres" where
  "thread_join threadid retval s = (case curproc (pk s) of None \<Rightarrow> Undef | Some c \<Rightarrow>
     if tid (lws s ! c) \<noteq> 0 then Panic (''working thread calling join'' @ [CHR 0x0a])
     else kbind (thread_at c threadid s) (\<lambda>p s.
       let zombie = (state (procs (pk s) ! p) = ZOMBIE) in
       join_round c threadid retval (\<not> zombie) zombie s))"

subsection \<open>The system calls\<close>

definition sys_thread_create :: "nat \<Rightarrow> lst \<Rightarrow> int lres" where
  "sys_thread_create forkret_addr s =
     kbind (in_pk (argptr 0 4) s) (\<lambda>t s. case t of None \<Rightarrow> Ok (- 1) s | Some t \<Rightarrow>
     kbind (in_pk (argptr 1 4) s) (\<lambda>f s. case f of None \<Rightarrow> Ok (- 1) s | Some f \<Rightarrow>
     kbind (in_pk (argptr 2 4) s) (\<lambda>a s. case a of None \<Rightarrow> Ok (- 1) s | Some a \<Rightarrow>
     thread_create forkret_addr t f a s)))"

definition sys_thread_exit :: "lst \<Rightarrow> int lres" where
  "sys_thread_exit s = kbind (in_pk (argint 0) s) (\<lambda>r s. case r of None \<Rightarrow> Ok (- 1) s | Some r \<Rightarrow>
     kbind (thread_exit (uint32 r) s) (\<lambda>_ s. Ok 0 s))"

definition sys_thread_join :: "lst \<Rightarrow> int lres" where
  "sys_thread_join s =
     kbind (in_pk (argint 0) s) (\<lambda>t s. case t of None \<Rightarrow> Ok (- 1) s | Some t \<Rightarrow>
     kbind (in_pk (argint 1) s) (\<lambda>r s. case r of None \<Rightarrow> Ok (- 1) s | Some r \<Rightarrow>
     thread_join t (uint32 r) s))"

subsection \<open>thread_join does not return\<close>

text \<open>\<open>stuck\<close>: the run panicked or left the language. \<open>unlocked\<close>: it did, or it returned holding no spin lock.\<close>

definition stuck :: "('a, 's) res \<Rightarrow> bool" where
  "stuck m \<longleftrightarrow> (case m of Ok _ _ \<Rightarrow> False | Sched _ \<Rightarrow> False | _ \<Rightarrow> True)"

definition unlocked :: "'a lres \<Rightarrow> bool" where
  "unlocked m \<longleftrightarrow> (case m of Ok _ t \<Rightarrow> held (pk t) = [] | Sched _ \<Rightarrow> False | _ \<Rightarrow> True)"

lemma stuck_simps [simp]: "\<not> stuck (Ok x s)" "\<not> stuck (Sched s)" "stuck (Panic e)" "stuck Undef"
  by (simp_all add: stuck_def)

lemma unlocked_simps [simp]: "unlocked (Ok x t) = (held (pk t) = [])" "\<not> unlocked (Sched t)" "unlocked (Panic e)" "unlocked Undef"
  by (simp_all add: unlocked_def)

lemma stuck_bind: "unlocked m \<Longrightarrow> (\<And>x t. held (pk t) = [] \<Longrightarrow> stuck (f x t)) \<Longrightarrow> stuck (kbind m f)"
  by (cases m) simp_all

lemma unlocked_bind: "unlocked m \<Longrightarrow> (\<And>x t. held (pk t) = [] \<Longrightarrow> unlocked (f x t)) \<Longrightarrow> unlocked (kbind m f)"
  by (cases m) simp_all

lemma pk_upd_lw [simp]: "pk (upd_lw i f s) = pk s"
  by (simp add: upd_lw_def)

lemma unlocked_kfree: "held (pk s) = [] \<Longrightarrow> unlocked (in_pk (kfree v) s)"
  by (auto simp: in_pk_def kfree_def kmem_lock_def kmem_unlock_def acquire_def release_def)

lemma uwrite_held: "(\<exists>e. uwrite va cs s = Panic e) \<or> (\<exists>t. uwrite va cs s = Ok () t \<and> held t = held s)"
proof (induction cs arbitrary: va s)
  case (Cons c cs)
  show ?case
  proof (cases "mmu_access s va")
    case (Some a)
    then obtain pa rights where "mmu_access s va = Some (pa, rights)" by fastforce
    then show ?thesis using Cons.IH[of "va + 1" "s\<lparr>pmem := (pmem s)(pa := c)\<rparr>"] by (auto simp: ustore_def)
  qed (simp add: ustore_def)
qed simp

lemma unlocked_uwrite: "held (pk s) = [] \<Longrightarrow> unlocked (in_pk (uwrite va cs) s)"
  using uwrite_held[of va cs "pk s"] by (auto simp: in_pk_def)

lemma unlocked_shift: "held (pk s) = [] \<Longrightarrow> unlocked (join_shift c j s)"
  by (auto simp: join_shift_def thread_at_def Let_def split: option.split)

lemma unlocked_kfor: "(\<And>x t. held (pk t) = [] \<Longrightarrow> unlocked (f x t)) \<Longrightarrow> held (pk s) = [] \<Longrightarrow> unlocked (kfor xs f s)"
  by (induction xs arbitrary: s) (auto intro: unlocked_bind)

lemma stuck_release: "held (pk s) = [] \<Longrightarrow> stuck (in_pk (release l) s)"
  by (simp add: in_pk_def release_def)

lemma join_found_stuck:
  assumes "held (pk s) = []"
  shows "stuck (join_found c p i r s)"
  unfolding join_found_def Let_def
  by (intro stuck_bind unlocked_kfree unlocked_uwrite unlocked_kfor unlocked_shift stuck_release)
    (use assms in \<open>auto\<close>)

lemma stuck_kbind: "stuck m \<Longrightarrow> stuck (kbind m f)"
  by (cases m) simp_all

lemma sleep_null: "curproc (pk s) = Some c \<Longrightarrow> in_pk (sleep ch None) s = Panic ''sleep without lk''"
  by (simp add: in_pk_def sleep_def)

text \<open>
  The \<open>thread_join\<close> of project 2 never returns to its caller: joining a thread that still runs panics
  in \<open>sleep\<close>, which is given no lock, and joining one that has exited panics in \<open>release\<close>, because
  the process table is not locked on this path.
\<close>

theorem thread_join_never_returns:
  assumes c: "curproc (pk s) = Some c" and h: "held (pk s) = []"
  shows "stuck (thread_join i retval s)
    \<and> (tid (lws s ! c) = 0 \<longrightarrow> thread_at c i s = Ok p s \<longrightarrow> state (procs (pk s) ! p) \<noteq> ZOMBIE \<longrightarrow>
        thread_join i retval s = Panic ''sleep without lk'')"
proof -
  have run: "thread_join i retval s = Panic ''sleep without lk''"
    if "tid (lws s ! c) = 0" "thread_at c i s = Ok p s" "state (procs (pk s) ! p) \<noteq> ZOMBIE" for p
    using that c by (simp add: thread_join_def join_round_def sleep_null[OF c])
  have "stuck (thread_join i retval s)"
  proof (cases "tid (lws s ! c) = 0")
    case True
    have "thread_at c i s = Undef \<or> (\<exists>p. thread_at c i s = Ok p s)" by (simp add: thread_at_def split: option.split)
    then consider "thread_at c i s = Undef" | p where "thread_at c i s = Ok p s" by blast
    then show ?thesis
    proof cases
      case (2 p)
      show ?thesis
      proof (cases "state (procs (pk s) ! p) = ZOMBIE")
        case z: True
        then have "thread_join i retval s = kbind (join_found c p i retval s) (\<lambda>_ s. Ok 0 s)"
          using True 2 c by (simp add: thread_join_def join_round_def)
        then show ?thesis using stuck_kbind[OF join_found_stuck[OF h]] by simp
      qed (use run[OF True 2] in simp)
    qed (use True c in \<open>simp add: thread_join_def\<close>)
  qed (use c in \<open>simp add: thread_join_def\<close>)
  then show ?thesis using run by blast
qed

text \<open>A master with one thread that runs.\<close>

definition lwp0 :: lwp where
  "lwp0 = \<lparr>multi_threaded = True, tid = 0, num_thread = 1, ret_val = replicate NTHREAD 0,
     threads = (replicate NTHREAD None)[0 := Some 0, 1 := Some 1], master_thread = Some 0\<rparr>"

definition lwp_example :: lst where
  "lwp_example = \<lparr>pk = kernel0 (\<lambda>_. []) 0, lws = [lwp0]\<rparr>"

theorem thread_join_never_returns_witness:
  "thread_join 1 0 lwp_example = Panic ''sleep without lk''"
proof -
  have c: "curproc (pk lwp_example) = Some 0" "held (pk lwp_example) = []" by (simp_all add: lwp_example_def kernel0_def)
  have t: "tid (lws lwp_example ! 0) = 0" "thread_at 0 1 lwp_example = Ok 1 lwp_example"
    by (simp_all add: lwp_example_def lwp0_def thread_at_def NTHREAD_def One_nat_def)
  have "state (procs (pk lwp_example) ! 1) \<noteq> ZOMBIE" by (simp add: lwp_example_def kernel0_def NPROC_def zero_proc_def nth_Cons')
  then show ?thesis using thread_join_never_returns[OF c, of 1 0 1] t by simp
qed

end
