(* ===== verification/LwpSched.thy ===== *)
theory LwpSched
  imports Lwp VmProps
begin

text \<open>
  The changes of project 2 to the scheduling of processes (proc.c and trap.c of src/project2/xv6-public): \<open>forkret\<close>,
  \<open>yield\<close>, the timer, \<open>set_cpu_share\<close> and \<open>fork\<close> with threads. What project 2 has in the same form
  as project 3 is that of \<open>Sched\<close> and \<open>Proc\<close>.
\<close>

text \<open>Where a new process or thread starts, with \<open>ptable.lock\<close> held by the scheduler.\<close>

definition lwp_forkret :: "lst \<Rightarrow> unit lres" where
  "lwp_forkret s = (case curproc (pk s) of None \<Rightarrow> Undef | Some c \<Rightarrow>
     kbind (if multi_threaded (lws s ! c) \<and> first_scheduled (procs (pk s) ! c)
            then in_pk (acquire LPtable) (upd_pk (upd_proc c (\<lambda>q. q\<lparr>first_scheduled := False\<rparr>)) s)
            else Ok () s) (\<lambda>_ s.
     in_pk forkret s))"

definition lwp_yield :: "lst \<Rightarrow> unit lres" where
  "lwp_yield s = (case curproc (pk s) of None \<Rightarrow> Undef | Some c \<Rightarrow>
     kbind (if tid (lws s ! c) \<noteq> 0 then in_pk (release LPtable) s else Ok () s) (\<lambda>_ s.
     in_pk yield s))"

text \<open>The end of \<open>trap\<close> for a timer interrupt; what follows the \<open>return\<close> for multi-threaded processes is never executed.\<close>

definition lwp_trap_tick :: "lst \<Rightarrow> unit lres" where
  "lwp_trap_tick s = (case curproc (pk s) of None \<Rightarrow> Ok () s | Some p \<Rightarrow>
     if state (procs (pk s) ! p) \<noteq> RUNNING then Ok () s
     else
       kbind (if share (procs (pk s) ! p) = 0 then
                kbind (in_pk (acquire LTicks) s) (\<lambda>_ s.
                  in_pk (release LTicks) (upd_pk (\<lambda>k. k\<lparr>mlfq_ticks := uadd (mlfq_ticks k) 1\<rparr>) s))
              else Ok () s) (\<lambda>_ s.
       kbind (if mlfq_ticks (pk s) mod PERIOD_BOOSTING = 0 then in_pk boost s else Ok () s) (\<lambda>_ s.
       if multi_threaded (lws s ! p) then Ok () s
       else
         let s = upd_pk (upd_proc p (\<lambda>q. q\<lparr>time_allotment := time_allotment q - 1\<rparr>)) s;
             l = lev (procs (pk s) ! p) in
         kbind (kguard (0 \<le> l \<and> l < 10 \<and> time_quantom (pk s) ! nat l \<noteq> 0) s) (\<lambda>_ s.
         if time_allotment (procs (pk s) ! p) smod (time_quantom (pk s) ! nat l) \<noteq> 0 then Ok () s
         else lwp_yield (upd_pk (upd_proc p (\<lambda>q. q\<lparr>from_trap := True\<rparr>)) s)))))"

text \<open>\<open>set_cpu_share\<close> of a thread acts on its parent.\<close>

definition lwp_set_cpu_share :: "int \<Rightarrow> lst \<Rightarrow> int lres" where
  "lwp_set_cpu_share shr s =
    (let m = stab (pk s) ! 0 in
     if m = SNull \<or> \<not> int_range (sp_share m (pk s) - shr) then Undef
     else if sp_share m (pk s) - shr < 20 \<or> shr < 0 then Ok (- 1) s
     else kbind (in_pk (acquire LPtable) s) (\<lambda>_ s.
       case curproc (pk s) of None \<Rightarrow> Undef | Some c \<Rightarrow>
       (case (if tid (lws s ! c) \<noteq> 0 then parent (procs (pk s) ! c) else Some c) of None \<Rightarrow> Undef | Some p \<Rightarrow>
       kbind (in_pk (\<lambda>k. lift_aq set_st (aq_push (SProc p) (st_of k)) k) s) (\<lambda>_ s.
       let s = upd_pk (\<lambda>k. sp_set_share (sp_share m k - shr) m k) s;
           s = upd_pk (\<lambda>k. upd_proc p (\<lambda>q. q\<lparr>share := shr, pass := min_pass k\<rparr>) k) s;
           l = lev (procs (pk s) ! p) in
       kbind (kguard (lev_ok l) s) (\<lambda>_ s.
       kbind (in_pk (\<lambda>k. lift_aq (set_aq (nat l)) (aq_del True (Some p) (aq_of (nat l) k)) k) s) (\<lambda>_ s.
       kbind (in_pk (release LPtable) (upd_pk (upd_proc p (\<lambda>q. q\<lparr>lev := STRIDE_LEV,
           time_allotment := STRIDE_DEFAULT_TIME_QUANTOM\<rparr>)) s)) (\<lambda>_ s.
       Ok 1 s)))))))"

definition lwp_fork :: "nat \<Rightarrow> lst \<Rightarrow> int lres" where
  "lwp_fork forkret_addr s = kbind (lwp_allocproc forkret_addr s) (\<lambda>r s. case r of None \<Rightarrow> Ok (- 1) s | Some np \<Rightarrow>
     case curproc (pk s) of None \<Rightarrow> Undef | Some c \<Rightarrow>
     kbind (in_pk (\<lambda>k. copyuvm (pgdir (procs k ! c)) (sz (procs k ! c)) k) s) (\<lambda>d s.
     let s = upd_pk (upd_proc np (\<lambda>q. q\<lparr>pgdir := d\<rparr>)) s in
     if d = 0 then kbind (in_pk (\<lambda>k. kfree (kstack (procs k ! np)) k) s) (\<lambda>_ s.
       Ok (- 1) (upd_pk (upd_proc np (\<lambda>q. q\<lparr>kstack := 0, state := UNUSED\<rparr>)) s))
     else
       let s = upd_pk (\<lambda>k. upd_proc np (\<lambda>q. q\<lparr>sz := sz (procs k ! c), parent := Some c,
                 tf := (tf (procs k ! c))\<lparr>tf_eax := 0\<rparr>\<rparr>) k) s in
       kbind (kfor [0..<NOFILE] (\<lambda>i. in_pk (dup_file c np i)) s) (\<lambda>_ s.
       case cwd (procs (pk s) ! c) of None \<Rightarrow> Undef | Some ip \<Rightarrow>
       kbind (in_pk (idup ip) s) (\<lambda>ip s.
       case safestr (pname (procs (pk s) ! np)) (pname (procs (pk s) ! c)) 16 of None \<Rightarrow> Undef | Some nm \<Rightarrow>
       let s = upd_pk (upd_proc np (\<lambda>q. q\<lparr>cwd := Some ip, pname := nm\<rparr>)) s;
           pd = pid (procs (pk s) ! np);
           s = upd_lw np (\<lambda>t. t\<lparr>num_thread := 0, tid := 0\<rparr>) s in
       kbind (in_pk (acquire LPtable) s) (\<lambda>_ s.
       kbind (in_pk (release LPtable) (upd_pk (upd_proc np (\<lambda>q. q\<lparr>state := RUNNABLE\<rparr>)) s)) (\<lambda>_ s.
       Ok pd s))))))"

subsection \<open>The scheduler and a thread\<close>

lemma run_proc_Some:
  assumes "run_proc p s = Ok (Some q) t" "p < length (procs s)"
  shows "q = p \<and> held t = held s \<and> curproc t = Some p \<and> first_scheduled (procs t ! p) \<and> length (procs t) = length (procs s)"
  using assms by (auto simp: run_proc_def switchuvm_def kassert_def upd_proc_def Let_def release_def split: if_splits)

lemma stride_pick_frame: "stride_pick s = Ok r t \<Longrightarrow> held t = held s \<and> length (procs t) = length (procs s)"
  unfolding stride_pick_def Let_def kguard_def
  by (cases "stab s ! min_scan (nat (stable_size s + 1)) 0 0 s") (auto simp: upd_proc_def split: if_splits)

lemma mlfq_scan_frame: "mlfq_scan s = Ok r t \<Longrightarrow> t = s"
  by (auto simp: mlfq_scan_def split: option.splits)

lemma scheduler_step_runs:
  assumes "scheduler_step s = Ok (Some q) t" "q < length (procs s)"
  shows "held t = LPtable # held s \<and> curproc t = Some q \<and> first_scheduled (procs t ! q)"
proof -
  obtain m e u where u: "stride_pick (s\<lparr>held := LPtable # held s\<rparr>) = Ok (m, e) u"
    and r: "kbind (if m = 0 then mlfq_scan u else Ok None u) (\<lambda>q s. case q of Some p \<Rightarrow> run_proc p s
       | None \<Rightarrow> (case e of SProc p \<Rightarrow> run_proc p s | _ \<Rightarrow> Undef)) = Ok (Some q) t"
    using assms(1) unfolding scheduler_step_def acquire_def kguard_def
    by (auto split: if_splits elim!: kbind_OkE)
  have f: "held u = LPtable # held s" "length (procs u) = length (procs s)" using stride_pick_frame[OF u] by simp_all
  obtain p where p: "run_proc p u = Ok (Some q) t"
    using r by (auto split: if_splits option.splits sptr.splits elim!: kbind_OkE dest!: mlfq_scan_frame)
  have "p = q" using p by (auto simp: run_proc_def switchuvm_def kassert_def Let_def release_def split: if_splits)
  then show ?thesis using run_proc_Some[of q u q t] p assms(2) f by simp
qed

subsection \<open>The entry of a new thread\<close>

lemma in_pk_lws: "in_pk m s = Ok x t \<Longrightarrow> lws t = lws s"
  by (auto simp: in_pk_def split: res.splits)

lemma upd_pk_lws [simp]: "lws (upd_pk f s) = lws s"
  by (simp add: upd_pk_def)

lemma kfor_lws: "(\<And>x s t. f x s = Ok () t \<Longrightarrow> lws t = lws s) \<Longrightarrow> kfor xs f s = Ok () t \<Longrightarrow> lws t = lws s"
proof (induction xs arbitrary: s)
  case (Cons x xs)
  from Cons.prems(2) obtain y u where "f x s = Ok y u" "kfor xs f u = Ok () t" by (auto elim: kbind_OkE)
  then show ?case using Cons.prems(1)[of x s u] Cons.IH[OF Cons.prems(1)] by simp
qed simp

lemma allocproc_index:
  assumes "allocproc fa s = Ok (Some p) t"
  shows "p < length (procs s)"
proof -
  have "first_idx (\<lambda>p. state p = UNUSED) (procs s) = Some p"
    using assms unfolding allocproc_def acquire_def release_def Let_def lift_aq_def
    by (auto split: if_splits option.splits elim!: kbind_OkE)
  then show ?thesis by (auto dest: first_idx_SomeD)
qed

lemma thread_stack_lws: "thread_stack p nt sr arg s = Ok () t \<Longrightarrow> lws t = lws s"
  unfolding thread_stack_def Let_def
  by (auto elim!: kbind_OkE split: if_splits dest!: in_pk_lws)

lemma lwp_allocproc_entry:
  assumes "lwp_allocproc fa s = Ok (Some nt) t" "length (lws s) = length (procs (pk s))"
  shows "nt < length (lws s)" "lws t = (lws s)[nt := (lws s ! nt)\<lparr>multi_threaded := False, num_thread := 0, master_thread := Some nt, tid := 0\<rparr>]"
proof -
  obtain u where u: "in_pk (allocproc fa) s = Ok (Some nt) u" "t = upd_lw nt (\<lambda>t. t\<lparr>multi_threaded := False, num_thread := 0,
      master_thread := Some nt, tid := 0\<rparr>) (upd_pk (\<lambda>k. upd_proc nt (\<lambda>q. q\<lparr>tf := page_tf (pmem k) (kstack q)\<rparr>) k) u)"
    using assms(1) unfolding lwp_allocproc_def by (auto elim!: kbind_OkE split: option.splits simp: Let_def)
  show "nt < length (lws s)" using u(1) assms(2) allocproc_index[of fa "pk s"] by (auto simp: in_pk_def split: res.splits)
  show "lws t = (lws s)[nt := (lws s ! nt)\<lparr>multi_threaded := False, num_thread := 0, master_thread := Some nt, tid := 0\<rparr>]"
    using in_pk_lws[OF u(1)] by (simp add: u(2) upd_lw_def)
qed

text \<open>\<open>thread_enter\<close> puts the thread into the table of its master.\<close>

lemma thread_enter_entry:
  assumes e: "thread_enter p nt s = Ok () t" and l: "p < length (lws s)" "nt < length (lws s)" "length (threads (lws s ! p)) = NTHREAD"
  shows "threads (lws t ! p) ! nat (num_thread (lws t ! p)) = Some nt \<and> (multi_threaded (lws s ! nt) \<longrightarrow> multi_threaded (lws t ! nt))"
proof -
  let ?n = "num_thread (lws s ! p) + 1"
  obtain a where a: "in_pk (acquire LPtable) s = Ok () a" using e unfolding thread_enter_def by (auto elim: kbind_OkE)
  have n: "0 \<le> ?n \<and> ?n < int NTHREAD"
    using e a in_pk_lws[OF a] unfolding thread_enter_def by (auto simp: Let_def split: if_splits)
  have "lws t = ((lws s)[p := (lws s ! p)\<lparr>multi_threaded := True, threads := (threads (lws s ! p))[0 := Some p, nat ?n := Some nt], num_thread := ?n\<rparr>])
      [nt := ((lws s)[p := (lws s ! p)\<lparr>multi_threaded := True, threads := (threads (lws s ! p))[0 := Some p, nat ?n := Some nt], num_thread := ?n\<rparr>] ! nt)\<lparr>tid := ?n\<rparr>]"
    using e a n in_pk_lws[OF a] unfolding thread_enter_def by (auto simp: Let_def upd_lw_def dest!: in_pk_lws)
  moreover have "nat ?n < NTHREAD" using n by linarith
  ultimately show ?thesis using l n by (cases "p = nt") (simp_all add: nth_list_update_if)
qed

lemma thread_create_entry:
  assumes c: "thread_create fa thr sr arg s = Ok 0 t" and p: "curproc (pk s) = Some p" "p < length (lws s)"
    and l: "length (lws s) = length (procs (pk s))" "length (threads (lws s ! p)) = NTHREAD"
  shows "\<exists>nt < length (lws s). threads (lws t ! p) ! nat (num_thread (lws t ! p)) = Some nt \<and> multi_threaded (lws t ! nt)"
proof -
  obtain r a where a: "lwp_allocproc fa s = Ok r a" using c p unfolding thread_create_def by (auto elim: kbind_OkE)
  obtain nt where nt: "r = Some nt" using c p a unfolding thread_create_def by (cases r) auto
  note A = lwp_allocproc_entry[OF a[unfolded nt] l(1)]
  let ?L = "(lws a)[nt := (lws a ! nt)\<lparr>multi_threaded := True, master_thread := Some p, num_thread := - 1\<rparr>]"
  have "\<exists>b u. lws b = ?L \<and> thread_enter p nt b = Ok () u \<and> lws t = lws u"
    using c p a nt unfolding thread_create_def
    by (auto simp: Let_def upd_lw_def elim!: kbind_OkE split: option.splits dest!: in_pk_lws thread_stack_lws kfor_lws[rotated])
      (metis upd_pk_lws)
  then obtain b u where b: "lws b = ?L" and e: "thread_enter p nt b = Ok () u" and w: "lws t = lws u" by blast
  have L: "length ?L = length (lws s)" "multi_threaded (?L ! nt)" "threads (?L ! p) = threads (lws s ! p)"
    using A p(2) by (simp_all add: nth_list_update_if)
  have "threads (lws u ! p) ! nat (num_thread (lws u ! p)) = Some nt \<and> (multi_threaded (lws b ! nt) \<longrightarrow> multi_threaded (lws u ! nt))"
    by (rule thread_enter_entry[OF e]) (use p(2) A(1) L l(2) in \<open>simp_all only: b\<close>)
  then show ?thesis using A(1) L(2) unfolding w b by blast
qed

subsection \<open>Threads never run\<close>

text \<open>
  C34. The threads of project 2 never get to run. When the scheduler of a CPU, whichever process it ran before, picks
  a multi-threaded entry, as \<open>thread_create\<close> makes it, then \<open>forkret\<close>, where a new entry starts,
  panics, because it acquires \<open>ptable.lock\<close>, which the scheduler holds. On a CPU that runs a process:
  \<open>thread_create\<close> enters a multi-threaded entry into the table of the master; a multi-threaded process is not
  preempted, whatever its quantum, the timer only counts; and a thread that gives up the CPU panics in \<open>release\<close>.
\<close>

theorem lwp_threads_never_run:
  assumes h: "held (pk s) = []" and l: "length (lws s) = length (procs (pk s))"
  shows "(scheduler_step (pk s) = Ok (Some nt) k \<and> nt < length (lws s) \<and> multi_threaded (lws s ! nt) \<longrightarrow> lwp_forkret (s\<lparr>pk := k\<rparr>) = Panic ''acquire'')
    \<and> (curproc (pk s) = Some p \<and> p < length (lws s) \<longrightarrow>
        (thread_create fa thr sr arg s = Ok 0 t \<and> length (threads (lws s ! p)) = NTHREAD \<longrightarrow>
          (\<exists>nt < length (lws s). threads (lws t ! p) ! nat (num_thread (lws t ! p)) = Some nt \<and> multi_threaded (lws t ! nt)))
      \<and> (multi_threaded (lws s ! p) \<longrightarrow> (\<exists>u. lwp_trap_tick s = Ok () u \<and> curproc (pk u) = Some p \<and> state (procs (pk u) ! p) = state (procs (pk s) ! p)
          \<and> time_allotment (procs (pk u) ! p) \<in> {time_allotment (procs (pk s) ! p), time_allot (pk s) ! 0}))
      \<and> (tid (lws s ! p) \<noteq> 0 \<longrightarrow> lwp_yield s = Panic ''release''))"
proof (intro conjI impI)
  show "lwp_forkret (s\<lparr>pk := k\<rparr>) = Panic ''acquire''"
    if r: "scheduler_step (pk s) = Ok (Some nt) k \<and> nt < length (lws s) \<and> multi_threaded (lws s ! nt)"
  proof -
    have "held k = [LPtable]" "curproc k = Some nt" "first_scheduled (procs k ! nt)"
      using scheduler_step_runs[of "pk s" nt k] r h l by simp_all
    then show ?thesis using r by (simp add: lwp_forkret_def in_pk_def upd_pk_def upd_proc_def acquire_def)
  qed
  assume "curproc (pk s) = Some p \<and> p < length (lws s)"
  then have p: "curproc (pk s) = Some p" "p < length (lws s)" by blast+
  show "\<exists>nt < length (lws s). threads (lws t ! p) ! nat (num_thread (lws t ! p)) = Some nt \<and> multi_threaded (lws t ! nt)"
    if "thread_create fa thr sr arg s = Ok 0 t \<and> length (threads (lws s ! p)) = NTHREAD"
    using thread_create_entry[OF _ p l] that by blast
  show "\<exists>u. lwp_trap_tick s = Ok () u \<and> curproc (pk u) = Some p \<and> state (procs (pk u) ! p) = state (procs (pk s) ! p)
      \<and> time_allotment (procs (pk u) ! p) \<in> {time_allotment (procs (pk s) ! p), time_allot (pk s) ! 0}" if m: "multi_threaded (lws s ! p)"
    using m p l h by (simp add: lwp_trap_tick_def in_pk_def upd_pk_def acquire_def release_def boost_def)
  show "lwp_yield s = Panic ''release''" if "tid (lws s ! p) \<noteq> 0"
    using that p h by (simp add: lwp_yield_def in_pk_def release_def)
qed

subsection \<open>A thread is created and scheduled\<close>

text \<open>A process without memory, five free pages and an empty page directory.\<close>

definition thread_mem :: memory where
  "thread_mem = wr32 (wr32 (wr32 (wr32 (\<lambda>_. 0) (V2P 0x80401000) 0x80402000) (V2P 0x80402000) 0x80403000) (V2P 0x80403000) 0x80404000)
     (V2P 0x80404000) 0x80405000"

definition thread_proc :: proc where
  "thread_proc = zero_proc\<lparr>state := RUNNING, pid := 1, pgdir := pd_ex, cwd := Some 0\<rparr>"

definition thread_example :: lst where
  "thread_example = \<lparr>pk = (kernel0 (\<lambda>_. []) 0)\<lparr>procs := thread_proc # replicate 63 zero_proc, cr3 := V2P pd_ex, pmem := thread_mem, freelist := 0x80401000\<rparr>,
     lws = replicate NPROC \<lparr>multi_threaded = False, tid = 0, num_thread = 0, ret_val = replicate NTHREAD 0, threads = replicate NTHREAD None, master_thread = None\<rparr>\<rparr>"

lemma thread_mem_rd:
  "rd32 thread_mem (V2P 0x80401000) = 0x80402000" "rd32 thread_mem (V2P 0x80402000) = 0x80403000"
  "rd32 thread_mem (V2P 0x80403000) = 0x80404000" "rd32 thread_mem (V2P 0x80404000) = 0x80405000"
  "rd32 thread_mem (V2P 0x80405000) = 0"
  "i < 1024 \<Longrightarrow> rd32 thread_mem (V2P pd_ex + 4 * i) = 0" "rd32 thread_mem (V2P 0x80401000 + 4088) = 0"
  by (simp_all add: thread_mem_def rd32_wr32 rd32_wr32_other V2P_def usub_def pd_ex_def param_defs rd32_zero)

lemma thread_free_list:
  assumes "pmem k = thread_mem" "kend k = 0x80115000" "held k = []"
  shows "freelist k = 0x80401000 \<Longrightarrow> free_list k [0x80401000, 0x80402000, 0x80403000, 0x80404000, 0x80405000]"
    "freelist k = 0x80402000 \<Longrightarrow> free_list k [0x80402000, 0x80403000, 0x80404000, 0x80405000]"
  using assms thread_mem_rd(1-5) by (simp_all add: free_list_def page_ok_def param_defs)

lemma thread_pte:
  assumes "pmem k = thread_mem"
  shows "pte k pd_ex va = 0" "i < 1024 \<Longrightarrow> ent k pd_ex i = 0"
proof -
  have "V2P (pd_ex + 4 * i) = V2P pd_ex + 4 * i" if "i < 1024" for i
    using that by (simp add: pd_ex_def V2P_def usub_small param_defs)
  then show e: "ent k pd_ex i = 0" if "i < 1024" for i using thread_mem_rd(6)[OF that] that by (simp add: ent_def kread_def assms)
  show "pte k pd_ex va = 0" by (simp add: pte_def e)
qed

lemma thread_uvm:
  assumes "pmem k = thread_mem" "kend k = 0x80115000" "held k = []" "freelist k = 0x80402000"
  shows "uvm_ok k pd_ex [0x80402000, 0x80403000, 0x80404000, 0x80405000]"
proof -
  have "page_ok k pd_ex" by (simp add: page_ok_def assms pd_ex_def param_defs)
  moreover have "pd_ex \<notin> set [0x80402000, 0x80403000, 0x80404000, 0x80405000]" by (simp add: pd_ex_def)
  ultimately have "vm_ok k pd_ex [0x80402000, 0x80403000, 0x80404000, 0x80405000]"
    unfolding vm_ok_def using thread_free_list(2)[OF assms] thread_pte(2)[OF assms(1)] by simp
  then show ?thesis by (simp add: uvm_ok_def thread_pte(1)[OF assms(1)])
qed

lemma thread_example_fields:
  "held (pk thread_example) = []" "curproc (pk thread_example) = Some 0" "procs (pk thread_example) = thread_proc # zero_proc # replicate 62 zero_proc"
  "nextpid (pk thread_example) = 2" "freelist (pk thread_example) = 0x80401000" "pmem (pk thread_example) = thread_mem" "kend (pk thread_example) = 0x80115000"
  "arrq (pk thread_example) = [(replicate NPROC None)[0 := Some 0], replicate NPROC None, replicate NPROC None]" "q_size (pk thread_example) = [0, - 1, - 1]"
  "use_lock (pk thread_example)" "time_allot (pk thread_example) = [5, 10, 0, 0, 0, 0, 0, 0, 0, 5]" "ticks (pk thread_example) = 0" "cr3 (pk thread_example) = V2P pd_ex"
  "length (lws thread_example) = NPROC" "length (procs (pk thread_example)) = NPROC"
proof -
  have r: "replicate 63 zero_proc = zero_proc # replicate 62 zero_proc" by (simp add: numeral_eq_Suc)
  show "procs (pk thread_example) = thread_proc # zero_proc # replicate 62 zero_proc" by (simp add: thread_example_def r)
qed (simp_all add: thread_example_def, simp_all add: kernel0_def NPROC_def)

text \<open>The new entry.\<close>

definition thread_new :: "proc \<Rightarrow> lst" where
  "thread_new q = thread_example\<lparr>pk := (pk thread_example)\<lparr>procs := thread_proc # q # replicate 62 zero_proc, nextpid := 3, freelist := 0x80402000,
     arrq := [(replicate NPROC None)[0 := Some 0, 1 := Some 1], replicate NPROC None, replicate NPROC None], q_size := [1, - 1, - 1]\<rparr>,
     lws := (lws thread_example)[1 := (lws thread_example ! 1)\<lparr>multi_threaded := False, num_thread := 0, master_thread := Some 1, tid := 0\<rparr>]\<rparr>"

definition thread_embryo :: proc where
  "thread_embryo = zero_proc\<lparr>state := EMBRYO, pid := 2, kstack := 0x80401000, ctx_eip := 0, lev := 0, time_allotment := 5, start_tick := 0,
     share := 0, pass := 0, first_scheduled := False, tf := page_tf thread_mem 0x80401000\<rparr>"

lemma thread_alloc: "lwp_allocproc 0 thread_example = Ok (Some 1) (thread_new thread_embryo)"
proof -
  have f: "state zero_proc = UNUSED" "state thread_proc \<noteq> UNUSED" by (simp_all add: thread_proc_def zero_proc_def)
  show ?thesis
    by (simp add: lwp_allocproc_def allocproc_def in_pk_def f acquire_def release_def kalloc_def kmem_lock_def kmem_unlock_def INITIAL_LEV_def
      thread_example_fields thread_mem_rd(1) Let_def lift_aq_def aq_push_def aq_of_def set_aq_def upd_pk_def upd_proc_def NPROC_def One_nat_def
      thread_new_def upd_lw_def thread_embryo_def)
qed

lemma uvm_cong:
  assumes "pmem t = pmem s" "freelist t = freelist s" "kend t = kend s" "held t = held s"
  shows "uvm_ok t = uvm_ok s \<and> pte t = pte s"
proof
  have e: "ent t = ent s" by (simp add: ent_def kread_def assms(1) fun_eq_iff)
  have b: "tab t = tab s" "page_ok t = page_ok s" by (simp_all add: tab_def page_ok_def e assms(3) fun_eq_iff)
  show p: "pte t = pte s" by (simp add: pte_def e b fun_eq_iff)
  have o: "owned t = owned s" "frame t = frame s" by (simp_all add: owned_def frame_def e b p fun_eq_iff)
  have "free_list t = free_list s" by (simp add: free_list_def assms b fun_eq_iff)
  then have "vm_ok t = vm_ok s" by (simp add: vm_ok_def e b fun_eq_iff)
  then show "uvm_ok t = uvm_ok s" by (simp add: uvm_ok_def b p o fun_eq_iff)
qed

text \<open>\<open>thread_stack\<close> gives the process its first two pages.\<close>

lemma thread_stack_ok:
  assumes U: "uvm_ok (pk s) pd xs" "4 \<le> length xs" and z: "\<And>x. pte (pk s) pd x = 0"
    and c: "cr3 (pk s) = V2P pd" "pgdir (procs (pk s) ! nt) = pd" "sz (procs (pk s) ! p) = 0" "tf_esp (tf (procs (pk s) ! nt)) = 0"
    and l: "p < length (procs (pk s))" "nt < length (procs (pk s))" "p \<noteq> nt"
  shows "\<exists>m f q zs. uvm_ok ((pk s)\<lparr>pmem := m, freelist := f\<rparr>) pd zs
    \<and> (\<forall>x < PGSIZE. odd (pte ((pk s)\<lparr>pmem := m, freelist := f\<rparr>) pd x) \<and> PTE_FLAGS (pte ((pk s)\<lparr>pmem := m, freelist := f\<rparr>) pd x) = 7)
    \<and> thread_stack p nt sr 0 s = Ok () (s\<lparr>pk := (pk s)\<lparr>procs := (procs (pk s))[p := (procs (pk s) ! p)\<lparr>sz := 2 * PGSIZE\<rparr>,
        nt := (procs (pk s) ! nt)\<lparr>sz := 2 * PGSIZE, tf := q\<rparr>], pmem := m, freelist := f\<rparr>\<rparr>)"
proof -
  let ?k = "pk s" and ?n = "2 * PGSIZE"
  let ?r = "usub ?n 8"
  have g: "PGROUNDUP 0 = 0" "uadd 0 ?n = ?n" "?n < KERNBASE" "0 < ?n" "length (pages_from 0 ?n) = 2"
    by (simp_all add: PGROUNDUP_def uadd_def pages_from_def param_defs)
  have z0: "\<forall>x < KERNBASE. PGROUNDUP 0 \<le> x \<longrightarrow> pte ?k pd x = 0" using z by simp
  obtain u zs where u: "allocuvm pd 0 ?n ?k = Ok ?n u" "vframe ?k u" "uvm_ok u pd zs"
    "\<forall>x < 2 ^ 32. if PGROUNDUP 0 \<le> x \<and> PGROUNDDOWN x < ?n then odd (pte u pd x) \<and> PTE_FLAGS (pte u pd x) = 7 else pte u pd x = pte ?k pd x"
    using allocuvm_spec[OF U(1) z0 g(3,4)] U(2) unfolding runs_iff g(1,5) by fastforce
  have e: "odd (pte u pd x) \<and> PTE_FLAGS (pte u pd x) = 7" if "x < PGSIZE" for x
  proof -
    have "x < 2 ^ 32" "PGROUNDDOWN x < ?n" using that by (simp_all add: PGROUNDDOWN_def param_defs)
    then show ?thesis using u(4) g(1) by simp
  qed
  obtain m0 f0 where m0: "u = ?k\<lparr>pmem := m0, freelist := f0\<rparr>" using u(2) unfolding vframe_def by blast
  let ?v = "upd_proc nt (\<lambda>q. q\<lparr>sz := ?n\<rparr>) (upd_proc p (\<lambda>q. q\<lparr>sz := ?n\<rparr>) u)"
  have "uvm_ok ?v = uvm_ok u \<and> pte ?v = pte u" by (rule uvm_cong) (simp_all add: upd_proc_def)
  then have vu: "uvm_ok ?v = uvm_ok u" "pte ?v = pte u" by blast+
  have Uv: "uvm_ok ?v pd zs" "cr3 ?v = V2P pd" using u(3) c(1) by (simp_all add: vu) (simp add: m0 upd_proc_def)
  have P: "(0 :: nat) < PGSIZE" by (simp add: param_defs)
  have "\<forall>i < 4. odd (pte ?v pd (0 + i))" unfolding vu using e by (simp add: param_defs)
  from uread_ok[OF uvm_okD(1)[OF Uv(1)] Uv(2) this] obtain bs where bs: "length bs = 4" "uread 0 4 ?v = Ok bs ?v" by blast
  have U4: "and q 4 \<noteq> 0" if "PTE_FLAGS q = 7" for q :: nat
  proof
    assume "and q 4 = 0"
    moreover have "and (and q 0xFFF) 4 = and q 4" by (simp add: and.assoc)
    ultimately show False using that by (simp add: PTE_FLAGS_def)
  qed
  have b8: "int_bytes (- 1) @ bs \<noteq> []" "length (int_bytes (- 1) @ bs) \<le> PGSIZE"
    using bs(1) by (simp_all add: int_bytes_def put32_def put16_def param_defs One_nat_def)
  have pu: "and (pte ?v pd 0) PTE_U \<noteq> 0" unfolding vu using U4 e[OF P] by (simp add: PTE_U_def)
  have pv: "odd (pte ?v pd 0)" unfolding vu using e[OF P] by blast
  obtain w where w: "copyout pd 0 (int_bytes (- 1) @ bs) ?v = Ok 0 w" "vframe ?v w" "uvm_ok w pd zs" "pte w pd = pte ?v pd"
    using copyout_page[OF Uv(1) _ _ pv pu b8] by (auto simp: param_defs)
  obtain m f where mf: "w = ?v\<lparr>pmem := m, freelist := f\<rparr>" using w(2) unfolding vframe_def by blast
  have "uvm_ok (?k\<lparr>pmem := m, freelist := f\<rparr>) = uvm_ok w \<and> pte (?k\<lparr>pmem := m, freelist := f\<rparr>) = pte w"
    by (rule uvm_cong) (simp_all add: mf m0 upd_proc_def)
  then have wk: "uvm_ok (?k\<lparr>pmem := m, freelist := f\<rparr>) = uvm_ok w" "pte (?k\<lparr>pmem := m, freelist := f\<rparr>) = pte w" by blast+
  have a0: "tf_esp (tf (procs ?v ! nt)) = 0" using c(4) l by (simp add: m0 upd_proc_def nth_list_update_if)
  have "thread_stack p nt sr 0 s = Ok () (s\<lparr>pk := ?k\<lparr>procs := (procs ?k)[p := (procs ?k ! p)\<lparr>sz := ?n\<rparr>,
        nt := (procs ?k ! nt)\<lparr>sz := ?n, tf := (tf (procs ?k ! nt))\<lparr>tf_esp := ?r, tf_eip := sr\<rparr>\<rparr>], pmem := m, freelist := f\<rparr>\<rparr>)"
    using u(1) bs(2) w(1) g(1,2) c(2,3) a0 l P
    by (simp add: thread_stack_def Let_def in_pk_def upd_pk_def upd_proc_def mf m0 nth_list_update_if)
  moreover have "uvm_ok (?k\<lparr>pmem := m, freelist := f\<rparr>) pd zs" unfolding wk(1) by (rule w(3))
  moreover have "\<forall>x < PGSIZE. odd (pte (?k\<lparr>pmem := m, freelist := f\<rparr>) pd x) \<and> PTE_FLAGS (pte (?k\<lparr>pmem := m, freelist := f\<rparr>) pd x) = 7"
    unfolding wk(2) w(4) vu(2) using e by blast
  ultimately show ?thesis by blast
qed

lemma kfor_skip: "(\<And>x. x \<in> set xs \<Longrightarrow> f x s = Ok () s) \<Longrightarrow> kfor xs f s = Ok () s"
  by (induction xs) simp_all

text \<open>The entry of the new thread before it gets its memory, and the state.\<close>

definition thread_before :: lst where
  "thread_before = upd_pk (upd_proc 1 (\<lambda>q. q\<lparr>chan := None, killed := False, cwd := Some 0, pgdir := pd_ex\<rparr>))
     (upd_lw 1 (\<lambda>t. t\<lparr>multi_threaded := True, master_thread := Some 0, num_thread := - 1\<rparr>) (thread_new thread_embryo))"

definition thread_after :: "trapframe \<Rightarrow> memory \<Rightarrow> nat \<Rightarrow> lst" where
  "thread_after q m f = thread_before\<lparr>pk := (pk thread_before)\<lparr>procs := (procs (pk thread_before))[0 := (procs (pk thread_before) ! 0)\<lparr>sz := 2 * PGSIZE\<rparr>,
        1 := (procs (pk thread_before) ! 1)\<lparr>sz := 2 * PGSIZE, tf := q\<rparr>], pmem := m, freelist := f\<rparr>\<rparr>"

lemma thread_before_fields:
  "pmem (pk thread_before) = thread_mem" "freelist (pk thread_before) = 0x80402000" "kend (pk thread_before) = 0x80115000" "held (pk thread_before) = []"
  "cr3 (pk thread_before) = V2P pd_ex" "procs (pk thread_before) ! 0 = thread_proc"
  "procs (pk thread_before) ! 1 = thread_embryo\<lparr>chan := None, killed := False, cwd := Some 0, pgdir := pd_ex\<rparr>"
  "length (procs (pk thread_before)) = NPROC"
  by (simp_all add: thread_before_def thread_new_def upd_pk_def upd_lw_def upd_proc_def thread_example_fields NPROC_def One_nat_def)

lemma thread_before_sched:
  "num_thread (lws thread_before ! 0) = 0" "multi_threaded (lws thread_before ! 1)" "length (lws thread_before) = NPROC" "(1 :: nat) < NPROC" "(0 :: nat) < NPROC" "(1 :: nat) < NTHREAD"
  "arrq (pk thread_before) ! 0 = (replicate NPROC None)[0 := Some 0, 1 := Some 1]" "q_size (pk thread_before) ! 0 = 1"
  "stab (pk thread_before) = (replicate NPROC SNull)[0 := SMlfq]" "stable_size (pk thread_before) = 0" "mlfq (pk thread_before) = \<lparr>mshare = 100, mpass = 0\<rparr>"
  by (simp_all add: thread_before_def thread_new_def upd_pk_def upd_lw_def upd_proc_def thread_example_fields NPROC_def NTHREAD_def nth_list_update_if)
    (simp_all add: thread_example_def kernel0_def NPROC_def)

lemma thread_states: "state thread_proc = RUNNING" "share thread_embryo = 0" "kstack thread_embryo = 0x80401000"
  by (simp_all add: thread_proc_def thread_embryo_def)

lemma thread_frame_esp: "tf_esp (page_tf thread_mem 0x80401000) = 0"
  using thread_mem_rd(7) by (simp add: page_tf_def Let_def param_defs add.commute)

lemma thread_before_stack:
  obtains m f q zs where
    "uvm_ok ((pk thread_before)\<lparr>pmem := m, freelist := f\<rparr>) pd_ex zs"
    "\<forall>x < PGSIZE. odd (pte ((pk thread_before)\<lparr>pmem := m, freelist := f\<rparr>) pd_ex x)
       \<and> PTE_FLAGS (pte ((pk thread_before)\<lparr>pmem := m, freelist := f\<rparr>) pd_ex x) = 7"
    "thread_stack 0 1 sr 0 thread_before = Ok () (thread_after q m f)"
proof -
  note F = thread_before_fields
  have U: "uvm_ok (pk thread_before) pd_ex [0x80402000, 0x80403000, 0x80404000, 0x80405000]" by (rule thread_uvm[OF F(1,3,4,2)])
  have l: "4 \<le> length [0x80402000, 0x80403000, 0x80404000, 0x80405000 :: nat]" by simp
  have c: "pgdir (procs (pk thread_before) ! 1) = pd_ex" "sz (procs (pk thread_before) ! 0) = 0" "tf_esp (tf (procs (pk thread_before) ! 1)) = 0"
    unfolding F(6,7) by (simp_all add: thread_proc_def zero_proc_def thread_embryo_def thread_frame_esp)
  have b: "0 < length (procs (pk thread_before))" "1 < length (procs (pk thread_before))" "(0 :: nat) \<noteq> 1" by (simp_all add: F(8) NPROC_def)
  from thread_stack_ok[OF U l thread_pte(1)[OF F(1)] F(5) c b, of sr] that show ?thesis unfolding thread_after_def by blast
qed

lemma thread_name: "safestr (replicate 16 0) (replicate 16 0) 16 = Some ([0, 0] @ replicate 14 0)"
  by (simp add: safestr_def safestrcpy_def numeral_eq_Suc)

text \<open>What the scheduler needs to know of the new entry and of the queues.\<close>

definition thread_ready :: "lst \<Rightarrow> bool" where
  "thread_ready v \<longleftrightarrow> held (pk v) = [] \<and> length (procs (pk v)) = NPROC \<and> length (lws v) = NPROC \<and> multi_threaded (lws v ! 1)
     \<and> state (procs (pk v) ! 0) = RUNNING \<and> state (procs (pk v) ! 1) = RUNNABLE \<and> share (procs (pk v) ! 1) = 0
     \<and> kstack (procs (pk v) ! 1) = 0x80401000 \<and> pgdir (procs (pk v) ! 1) = pd_ex
     \<and> arrq (pk v) ! 0 = (replicate NPROC None)[0 := Some 0, 1 := Some 1] \<and> q_size (pk v) ! 0 = 1
     \<and> stab (pk v) = (replicate NPROC SNull)[0 := SMlfq] \<and> stable_size (pk v) = 0 \<and> mlfq (pk v) = \<lparr>mshare = 100, mpass = 0\<rparr>"

lemma thread_enter_ok:
  fixes m f q
  defines "v \<equiv> thread_after q m f"
  shows "cwd (procs (pk v) ! 0) = Some 0" "in_pk (idup 0) v = Ok 0 (upd_pk (upd_inode 0 (\<lambda>i. i\<lparr>i_ref := i_ref i + 1\<rparr>)) v)"
    "safestr (pname (procs (pk v) ! 1)) (pname (procs (pk v) ! 0)) 16 = Some ([0, 0] @ replicate 14 0)"
    "\<exists>u. thread_enter 0 1 (upd_pk (upd_proc 1 (\<lambda>q. q\<lparr>cwd := Some 0, pname := [0, 0] @ replicate 14 0\<rparr>)) (upd_pk (upd_inode 0 (\<lambda>i. i\<lparr>i_ref := i_ref i + 1\<rparr>)) v)) = Ok () u
       \<and> pmem (pk u) = m \<and> freelist (pk u) = f \<and> kend (pk u) = kend (pk thread_before) \<and> cr3 (pk u) = V2P pd_ex \<and> thread_ready u"
proof -
  note F = thread_before_fields
  have z: "cwd thread_proc = Some 0" "pname thread_proc = replicate 16 0" "pname thread_embryo = replicate 16 0" by (simp_all add: thread_proc_def thread_embryo_def zero_proc_def)
  have n: "1 < length (procs (pk thread_before))" "0 < length (procs (pk thread_before))" by (simp_all add: F(8) NPROC_def)
  show "cwd (procs (pk v) ! 0) = Some 0" "safestr (pname (procs (pk v) ! 1)) (pname (procs (pk v) ! 0)) 16 = Some ([0, 0] @ replicate 14 0)"
    using n by (simp_all add: v_def thread_after_def nth_list_update_if F z thread_name)
  show "in_pk (idup 0) v = Ok 0 (upd_pk (upd_inode 0 (\<lambda>i. i\<lparr>i_ref := i_ref i + 1\<rparr>)) v)"
    by (simp add: v_def thread_after_def in_pk_def idup_def upd_pk_def upd_inode_def acquire_def release_def F)
  show "\<exists>u. thread_enter 0 1 (upd_pk (upd_proc 1 (\<lambda>q. q\<lparr>cwd := Some 0, pname := [0, 0] @ replicate 14 0\<rparr>)) (upd_pk (upd_inode 0 (\<lambda>i. i\<lparr>i_ref := i_ref i + 1\<rparr>)) v)) = Ok () u
       \<and> pmem (pk u) = m \<and> freelist (pk u) = f \<and> kend (pk u) = kend (pk thread_before) \<and> cr3 (pk u) = V2P pd_ex \<and> thread_ready u"
    by (simp add: thread_enter_def v_def thread_after_def in_pk_def upd_pk_def upd_inode_def upd_proc_def upd_lw_def acquire_def release_def F Let_def nth_list_update_if n
      thread_ready_def thread_before_sched thread_states)
qed

lemma thread_created:
  "\<exists>u. thread_create 0 0 sr 0 thread_example = Ok 0 u \<and> thread_ready u"
proof -
  obtain m f q zs where T: "uvm_ok ((pk thread_before)\<lparr>pmem := m, freelist := f\<rparr>) pd_ex zs"
    "\<forall>x < PGSIZE. odd (pte ((pk thread_before)\<lparr>pmem := m, freelist := f\<rparr>) pd_ex x)
       \<and> PTE_FLAGS (pte ((pk thread_before)\<lparr>pmem := m, freelist := f\<rparr>) pd_ex x) = 7"
    "thread_stack 0 1 sr 0 thread_before = Ok () (thread_after q m f)" by (rule thread_before_stack)
  have d: "kfor [0..<NOFILE] (\<lambda>i. in_pk (dup_file 0 1 i)) (thread_after q m f) = Ok () (thread_after q m f)"
    by (rule kfor_skip) (simp add: thread_after_def in_pk_def dup_file_def thread_before_fields NPROC_def thread_proc_def zero_proc_def)
  have p: "procs (pk (upd_lw 1 g (thread_new thread_embryo))) ! 0 = thread_proc" for g by (simp add: upd_lw_def thread_new_def)
  have b: "upd_pk (\<lambda>k. upd_proc 1 (\<lambda>q. q\<lparr>chan := None, killed := False, cwd := cwd (procs k ! 0), pgdir := pgdir (procs k ! 0)\<rparr>) k)
      (upd_lw 1 (\<lambda>t. t\<lparr>multi_threaded := True, master_thread := Some 0, num_thread := - 1\<rparr>) (thread_new thread_embryo)) = thread_before"
    unfolding upd_pk_def p by (simp add: thread_before_def upd_pk_def thread_proc_def)
  note E = thread_enter_ok[of q m f]
  have pi: "procs (pk (upd_pk (upd_inode 0 g) w)) = procs (pk w)" for g w by (simp add: upd_pk_def upd_inode_def)
  obtain u where u: "thread_enter 0 1 (upd_pk (upd_proc 1 (\<lambda>q. q\<lparr>cwd := Some 0, pname := [0, 0] @ replicate 14 0\<rparr>))
      (upd_pk (upd_inode 0 (\<lambda>i. i\<lparr>i_ref := i_ref i + 1\<rparr>)) (thread_after q m f))) = Ok () u"
    "pmem (pk u) = m" "freelist (pk u) = f" "kend (pk u) = kend (pk thread_before)" "cr3 (pk u) = V2P pd_ex" "thread_ready u" using E(4) by blast
  have "uvm_ok (pk u) = uvm_ok ((pk thread_before)\<lparr>pmem := m, freelist := f\<rparr>) \<and> pte (pk u) = pte ((pk thread_before)\<lparr>pmem := m, freelist := f\<rparr>)"
    using u(2-4,6) by (intro uvm_cong) (simp_all add: thread_ready_def thread_before_fields)
  then have U: "uvm_ok (pk u) pd_ex zs" "\<forall>x < PGSIZE. odd (pte (pk u) pd_ex x) \<and> PTE_FLAGS (pte (pk u) pd_ex x) = 7" using T(1,2) by simp_all
  have w2: "and y PTE_W \<noteq> 0" if "PTE_FLAGS y = 7" for y
  proof
    assume "and y PTE_W = 0"
    moreover have "and (and y 0xFFF) 2 = and y 2" by (simp add: and.assoc)
    ultimately show False using that by (simp add: PTE_FLAGS_def PTE_W_def)
  qed
  have l: "length (int_bytes i) = 4" for i by (simp add: int_bytes_def put32_def put16_def One_nat_def)
  have "\<forall>j < length (int_bytes (tid (lws u ! 1))). 0 + j < KERNBASE \<and> odd (pte (pk u) pd_ex (0 + j)) \<and> and (pte (pk u) pd_ex (0 + j)) PTE_W \<noteq> 0"
    using U(2) w2 unfolding l by (simp add: param_defs)
  from uwrite_ok[OF U(1) u(5) this] obtain k where k: "uwrite 0 (int_bytes (tid (lws u ! 1))) (pk u) = Ok () k" "vframe (pk u) k" by blast
  have "thread_create 0 0 sr 0 thread_example = Ok 0 (u\<lparr>pk := k\<rparr>)"
    unfolding thread_create_def thread_example_fields(2) option.case thread_alloc kbind_simps Let_def b T(3) d E(1,2) pi E(3) option.case u(1)
    using k(1) by (simp add: in_pk_def)
  moreover have "thread_ready (u\<lparr>pk := k\<rparr>)" using u(6) k(2) by (auto simp: thread_ready_def vframe_def)
  ultimately show ?thesis by blast
qed

lemma thread_scheduled:
  assumes "thread_ready v"
  shows "\<exists>k. scheduler_step ((pk v)\<lparr>curproc := None\<rparr>) = Ok (Some 1) k"
proof -
  note R = assms[unfolded thread_ready_def]
  let ?s = "(pk v)\<lparr>curproc := None, held := [LPtable], mlfq := \<lparr>mshare = 100, mpass = 10\<rparr>, min_pass := 10\<rparr>"
  have st: "stab (pk v) ! 0 = SMlfq" using R by (simp add: NPROC_def)
  have a: "acquire LPtable ((pk v)\<lparr>curproc := None\<rparr>) = Ok () ((pk v)\<lparr>curproc := None, held := [LPtable]\<rparr>)" using R by (simp add: acquire_def)
  have "(1000 :: int) sdiv 100 = 10" by (simp add: signed_divide_int_def)
  moreover have "nat (0 + 1) = Suc 0" by simp
  moreover have "aq_list ((replicate NPROC SNull)[0 := SMlfq], 0) = [SMlfq]" by (simp add: aq_list_def NPROC_def numeral_eq_Suc)
  then have nn: "SNull \<notin> set (aq_list (st_of ((pk v)\<lparr>curproc := None, held := [LPtable]\<rparr>)))" using R by (simp add: st_of_def)
  ultimately have p: "stride_pick ((pk v)\<lparr>curproc := None, held := [LPtable]\<rparr>) = Ok (0, SMlfq) ?s"
    using R st nn by (simp add: stride_pick_def kguard_def MULTSTRIDESHARE_def int_range_def)
  have row: "(replicate NPROC None)[0 := Some 0, 1 := Some 1] = Some 0 # Some 1 # replicate 62 None" by (simp add: NPROC_def numeral_eq_Suc One_nat_def)
  have "aq_list (aq_of 0 ?s) = [Some 0, Some 1]" using R unfolding row by (simp add: aq_list_def aq_of_def)
  then have "level_entries 0 ?s = [Some 0, Some 1]" using R by (simp add: level_entries_def NPROC_def)
  moreover have "mlfq_entries ?s = level_entries 0 ?s @ concat (map (\<lambda>l. level_entries l ?s) [1..<DEPTH_QUEUE])"
    unfolding mlfq_entries_def by (simp add: upt_rec[of 0] DEPTH_QUEUE_def One_nat_def)
  ultimately have "mlfq_scan ?s = Ok (Some 1) ?s" using R by (simp add: mlfq_scan_def mlfq_ok_def)
  moreover have "pd_ex \<noteq> 0" by (simp add: pd_ex_def)
  moreover have "0 \<le> stable_size (pk v)" "stable_size (pk v) < int NPROC" using R by (simp_all add: NPROC_def)
  ultimately show ?thesis unfolding scheduler_step_def a kbind_simps using R p
    by (simp add: kguard_def run_proc_def switchuvm_def kassert_def Let_def upd_proc_def nth_list_update_if)
qed

text \<open>
  A thread is created, the scheduler picks it, and it panics. A multi-threaded process that runs is not preempted, and
  panics when it yields as a thread.
\<close>

definition thread_running :: lst where
  "thread_running = thread_example\<lparr>lws := (lws thread_example)[0 := (lws thread_example ! 0)\<lparr>multi_threaded := True, tid := 1\<rparr>]\<rparr>"

theorem lwp_threads_never_run_witness:
  "\<exists>t k. thread_create 0 0 0 0 thread_example = Ok 0 t \<and> scheduler_step ((pk t)\<lparr>curproc := None\<rparr>) = Ok (Some 1) k
     \<and> lwp_forkret (t\<lparr>pk := k\<rparr>) = Panic ''acquire'' \<and> multi_threaded (lws t ! 1)
     \<and> (\<exists>nt < NPROC. threads (lws t ! 0) ! nat (num_thread (lws t ! 0)) = Some nt)
     \<and> (\<exists>u. lwp_trap_tick thread_running = Ok () u \<and> curproc (pk u) = Some 0) \<and> lwp_yield thread_running = Panic ''release''"
proof -
  obtain t where t: "thread_create 0 0 0 0 thread_example = Ok 0 t" "thread_ready t" using thread_created by blast
  obtain k where k: "scheduler_step ((pk t)\<lparr>curproc := None\<rparr>) = Ok (Some 1) k" using thread_scheduled[OF t(2)] by blast
  let ?t = "t\<lparr>pk := (pk t)\<lparr>curproc := None\<rparr>\<rparr>"
  note R = t(2)[unfolded thread_ready_def]
  have h: "held (pk ?t) = []" "length (lws ?t) = length (procs (pk ?t))" "(1 :: nat) < length (lws ?t)" using R by (simp_all add: NPROC_def)
  have "lwp_forkret (?t\<lparr>pk := k\<rparr>) = Panic ''acquire''" using lwp_threads_never_run[OF h(1,2), of 1 k] k R h(3) by simp
  moreover have e: "held (pk thread_example) = []" "length (lws thread_example) = length (procs (pk thread_example))"
    "curproc (pk thread_example) = Some 0" "length (lws thread_example) = NPROC" "length (threads (lws thread_example ! 0)) = NTHREAD" "0 < NPROC"
    by (simp_all add: thread_example_fields) (simp_all add: thread_example_def NPROC_def)
  have "\<exists>nt < NPROC. threads (lws t ! 0) ! nat (num_thread (lws t ! 0)) = Some nt"
    using lwp_threads_never_run[OF e(1,2), of 0 "pk t" 0 0 0 0 0 t] t(1) e(3-6) by auto
  moreover have y: "held (pk thread_running) = []" "length (lws thread_running) = length (procs (pk thread_running))"
    "curproc (pk thread_running) = Some 0" "0 < length (lws thread_running)" "multi_threaded (lws thread_running ! 0)" "tid (lws thread_running ! 0) \<noteq> 0"
    using e by (simp_all add: thread_running_def)
  have "(\<exists>u. lwp_trap_tick thread_running = Ok () u \<and> curproc (pk u) = Some 0) \<and> lwp_yield thread_running = Panic ''release''"
    using lwp_threads_never_run[OF y(1,2), where p = 0] y(3-6) by blast
  ultimately show ?thesis using t(1) k R by (intro exI[of _ t] exI[of _ k]) simp
qed

end
