(* ===== verification/Shell.thy ===== *)
theory Shell
  imports Ulib Syscall
begin

text \<open>
  The parser of the shell (sh.c). A pointer into the command line, which ends at \<open>es\<close>, is the rest of the
  line from there; \<open>s < es\<close> is that the rest is not empty, and the character at \<open>es\<close> is 0. A token is the pair of
  the pointers \<open>q\<close> and \<open>eq\<close>. The functions that call each other recursively have a bound on the depth of
  the calls, whose excess is the outcome \<open>PDeep\<close>; \<open>parsecmd\<close> gives a bound that is never reached. Memory for the
  commands is assumed to be there: a command is a value.
\<close>

datatype (tokens: 't) cmd = EXEC "'t list" | REDIR "'t cmd" 't nat nat | PIPE "'t cmd" "'t cmd" | LIST "'t cmd" "'t cmd"
  | BACK "'t cmd"
for map: map_cmd

type_synonym ptr = string
type_synonym token = "ptr \<times> ptr"

text \<open>The outcome of a parsing function: the result and the pointer after it, or a call of \<open>panic\<close>.\<close>

datatype 'a pres = POk 'a ptr | PPanic string | PDeep

definition pbind :: "'a pres \<Rightarrow> ('a \<Rightarrow> ptr \<Rightarrow> 'b pres) \<Rightarrow> 'b pres" where
  "pbind m f = (case m of POk x s \<Rightarrow> f x s | PPanic e \<Rightarrow> PPanic e | PDeep \<Rightarrow> PDeep)"

lemma pbind_simps [simp]: "pbind (POk x s) f = f x s" "pbind (PPanic e) f = PPanic e" "pbind PDeep f = PDeep"
  by (simp_all add: pbind_def)

lemma pbind_cong [fundef_cong]: "m = n \<Longrightarrow> (\<And>x s. n = POk x s \<Longrightarrow> f x s = g x s) \<Longrightarrow> pbind m f = pbind n g"
  by (cases n) simp_all

definition MAXARGS :: nat where "MAXARGS = 10"

definition whitespace :: string where
  "whitespace = [CHR 0x20, CHR 0x09, CHR 0x0d, CHR 0x0a, CHR 0x0b]"

definition symbols :: string where
  "symbols = ''<|>&;()''"

definition skip :: "ptr \<Rightarrow> ptr" where
  "skip s = dropWhile (\<lambda>c. strchr whitespace c \<noteq> None) s"

text \<open>\<open>gettoken\<close>: the kind of the token, its pointers \<open>q\<close> and \<open>eq\<close>, and the pointer after it.\<close>

definition token_end :: "ptr \<Rightarrow> char \<times> ptr" where
  "token_end q = (case q of [] \<Rightarrow> (CHR 0x00, q)
     | c # r \<Rightarrow>
         if c \<in> set ''|();&<'' then (c, r)
         else if c = CHR ''>'' then (if r \<noteq> [] \<and> hd r = CHR ''>'' then (CHR ''+'', tl r) else (c, r))
         else (CHR ''a'', dropWhile (\<lambda>c. strchr whitespace c = None \<and> strchr symbols c = None) q))"

definition gettoken :: "ptr \<Rightarrow> char \<times> token \<times> ptr" where
  "gettoken s = (let q = skip s; (ret, eq) = token_end q in (ret, (q, eq), skip eq))"

definition peek :: "ptr \<Rightarrow> string \<Rightarrow> bool \<times> ptr" where
  "peek s toks = (let s = skip s in (s \<noteq> [] \<and> strchr toks (hd s) \<noteq> None, s))"

subsection \<open>Tokens shorten the line\<close>

lemma strchr_iff: "strchr s c \<noteq> None \<longleftrightarrow> c \<in> set s" "(\<exists>y. strchr s c = Some y) \<longleftrightarrow> c \<in> set s" "strchr s c = None \<longleftrightarrow> c \<notin> set s"
  by (induction s c rule: strchr.induct; auto)+

definition white :: "char \<Rightarrow> bool" where
  "white c \<longleftrightarrow> c \<in> set whitespace"

definition wordchar :: "char \<Rightarrow> bool" where
  "wordchar c \<longleftrightarrow> c \<notin> set whitespace \<and> c \<notin> set symbols"

lemma skip_eq: "skip s = dropWhile white s"
  by (simp add: skip_def strchr_iff white_def[abs_def])

lemma peek_eq: "peek s toks = (skip s \<noteq> [] \<and> hd (skip s) \<in> set toks, skip s)"
  by (simp add: peek_def Let_def strchr_iff)

lemma token_end_eq: "token_end q = (case q of [] \<Rightarrow> (CHR 0x00, q)
     | c # r \<Rightarrow>
         if c \<in> set ''|();&<'' then (c, r)
         else if c = CHR ''>'' then (if r \<noteq> [] \<and> hd r = CHR ''>'' then (CHR ''+'', tl r) else (c, r))
         else (CHR ''a'', dropWhile wordchar q))"
proof -
  have e: "(\<lambda>c. strchr whitespace c = None \<and> strchr symbols c = None) = wordchar"
    by (auto simp: strchr_iff wordchar_def)
  show ?thesis unfolding token_end_def e ..
qed

lemma skip_length: "length (skip s) \<le> length s"
  by (simp add: skip_eq length_dropWhile_le)

lemma skip_skip [simp]: "skip (skip s) = skip s"
  by (simp add: skip_eq dropWhile_idem)

lemma skip_hd: "skip s = c # r \<Longrightarrow> \<not> white c"
  by (metis hd_dropWhile list.sel(1) skip_eq list.distinct(1))

lemma first_wordchar:
  "\<not> white c \<Longrightarrow> c \<notin> set ''|();&<'' \<Longrightarrow> c \<noteq> CHR ''>'' \<Longrightarrow> wordchar c"
  by (auto simp: wordchar_def white_def symbols_def)

lemma token_end_length:
  assumes "token_end q = (ret, e)" "q \<noteq> [] \<Longrightarrow> \<not> white (hd q)"
  shows "length e \<le> length q \<and> (ret \<noteq> CHR 0x00 \<longrightarrow> length e < length q) \<and> (ret = CHR 0x00 \<longrightarrow> q = [])"
proof (cases q)
  case (Cons c r)
  have "length (dropWhile wordchar (c # r)) \<le> length r" if "c \<notin> set ''|();&<''" "c \<noteq> CHR ''>''"
    using first_wordchar[OF _ that] assms(2) Cons by (simp add: length_dropWhile_le)
  then show ?thesis using assms(1) unfolding Cons
    by (auto simp: token_end_eq split: if_splits)
qed (use assms(1) in \<open>simp add: token_end_def\<close>)

lemma gettoken_length:
  assumes "gettoken s = (ret, (q, e), r)"
  shows "length r \<le> length s" "ret \<noteq> CHR 0x00 \<Longrightarrow> length r < length s" "q = skip s" "token_end q = (ret, e)" "r = skip e"
    "ret = CHR 0x00 \<Longrightarrow> skip s = []"
proof -
  show g: "q = skip s" "token_end q = (ret, e)" "r = skip e" using assms by (auto simp: gettoken_def Let_def split: prod.splits)
  have "\<not> white (hd q)" if "q \<noteq> []" using skip_hd[of s "hd q" "tl q"] that g(1) by simp
  then have "length e \<le> length q \<and> (ret \<noteq> CHR 0x00 \<longrightarrow> length e < length q) \<and> (ret = CHR 0x00 \<longrightarrow> q = [])"
    by (rule token_end_length[OF g(2)])
  then show "length r \<le> length s" "ret \<noteq> CHR 0x00 \<Longrightarrow> length r < length s" "ret = CHR 0x00 \<Longrightarrow> skip s = []"
    using skip_length[of e] skip_length[of s] g(1,3) by auto
qed

subsection \<open>Parsing\<close>

text \<open>The redirections after a command, in the order in which they are read: file, mode and descriptor.\<close>

function parseredirs :: "ptr \<Rightarrow> (token \<times> nat \<times> nat) list pres" where
  "parseredirs s = (let (b, s) = peek s ''<>'' in
     if \<not> b then POk [] s
     else let (tok, _, s) = gettoken s; (a, t, s) = gettoken s in
       if a \<noteq> CHR ''a'' then PPanic ''missing file for redirection''
       else pbind (parseredirs s) (\<lambda>rs s.
         POk ((t, if tok = CHR ''<'' then O_RDONLY else or O_WRONLY O_CREATE, if tok = CHR ''<'' then 0 else 1) # rs) s))"
  by pat_completeness auto
termination
proof (relation "measure length")
  fix s b u1 tok t1 u2 a t u3 and x y z w v
  assume p: "x = peek s ''<>''" "(b, u1) = x" "y = gettoken u1" "(tok, z) = y" "(t1, u2) = z" "w = gettoken u2" "(a, v) = w" "(t, u3) = v" "\<not> a \<noteq> CHR ''a''"
  have "length u1 \<le> length s" using p(1,2) skip_length[of s] by (simp add: peek_eq)
  moreover have "length u2 \<le> length u1" using gettoken_length(1)[of u1 tok "fst t1" "snd t1" u2] p(3-5) by simp
  moreover have "length u3 < length u2" using gettoken_length(2)[of u2 a "fst t" "snd t" u3] p(6-9) by simp
  ultimately show "(u3, s) \<in> measure length" by simp
qed simp

declare parseredirs.simps [simp del]

definition parseredirs_on :: "token cmd \<Rightarrow> ptr \<Rightarrow> token cmd pres" where
  "parseredirs_on c s = pbind (parseredirs s) (\<lambda>rs s. POk (foldl (\<lambda>c (t, mode, fd). REDIR c t mode fd) c rs) s)"

lemma peek_length: "peek s toks = (b, r) \<Longrightarrow> length r \<le> length s"
  using skip_length[of s] by (simp add: peek_eq)

text \<open>After a call of \<open>peek\<close> the pointer is at the first character that is not a blank.\<close>

lemma parseredirs_end:
  "parseredirs s = POk rs r \<Longrightarrow> length r \<le> length s \<and> (\<exists>u. r = skip u)"
proof (induction s arbitrary: rs r rule: parseredirs.induct)
  case (1 s)
  obtain b u1 where p: "peek s ''<>'' = (b, u1)" by fastforce
  show ?case
  proof (cases b)
    case False
    then have "r = u1" using 1(2) p by (subst (asm) parseredirs.simps) simp
    then show ?thesis using p peek_length[OF p] by (auto simp: peek_eq)
  next
    case True
    obtain tok t1 u2 where g1: "gettoken u1 = (tok, t1, u2)" by (metis prod_cases3)
    obtain a t u3 where g2: "gettoken u2 = (a, t, u3)" by (metis prod_cases3)
    have "a = CHR ''a''" using 1(2) p True g1 g2 by (subst (asm) parseredirs.simps) (auto split: if_splits)
    then obtain rs' where "parseredirs u3 = POk rs' r"
      using 1(2) p True g1 g2 by (subst (asm) parseredirs.simps) (cases "parseredirs u3"; auto)
    then have "length r \<le> length u3 \<and> (\<exists>u. r = skip u)"
      using 1(1)[OF p[symmetric] _ _ g1[symmetric] _ refl g2[symmetric]] True \<open>a = CHR ''a''\<close> by auto
    moreover have "length u3 \<le> length u2" "length u2 \<le> length u1" "length u1 \<le> length s"
      using gettoken_length(1)[of u2 a "fst t" "snd t" u3] gettoken_length(1)[of u1 tok "fst t1" "snd t1" u2] g1 g2 peek_length[OF p] by auto
    ultimately show ?thesis by simp
  qed
qed

text \<open>
  The loop over the arguments of a command: \<open>args\<close> are those read so far and \<open>rs\<close> the redirections, which are put
  around the command as they are read.
\<close>

function parse_args :: "token list \<Rightarrow> (token \<times> nat \<times> nat) list \<Rightarrow> ptr \<Rightarrow> (token list \<times> (token \<times> nat \<times> nat) list) pres" where
  "parse_args args rs s = (let (b, s) = peek s ''|)&;'' in
     if b then POk (args, rs) s
     else let (tok, t, s) = gettoken s in
       if tok = CHR 0x00 then POk (args, rs) s
       else if tok \<noteq> CHR ''a'' then PPanic ''syntax''
       else if length args + 1 \<ge> MAXARGS then PPanic ''too many args''
       else pbind (parseredirs s) (\<lambda>rs' s. parse_args (args @ [t]) (rs @ rs') s))"
  by pat_completeness auto
termination
proof (relation "measure (length \<circ> snd \<circ> snd)")
  fix args :: "token list" and rs rs' :: "(token \<times> nat \<times> nat) list" and s b u1 tok t u2 r and x y z
  assume p: "x = peek s ''|)&;''" "(b, u1) = x" "\<not> b" "y = gettoken u1" "(tok, z) = y" "(t, u2) = z" "tok \<noteq> CHR 0x00"
    "parseredirs u2 = POk rs' r"
  have "length u1 \<le> length s" using peek_length[of s "''|)&;''" b u1] p(1,2) by simp
  moreover have "length u2 < length u1" using gettoken_length(2)[of u1 tok "fst t" "snd t" u2] p(4-7) by simp
  moreover have "length r \<le> length u2" using parseredirs_end[OF p(8)] by simp
  ultimately show "((args @ [t], rs @ rs', r), (args, rs, s)) \<in> measure (length \<circ> snd \<circ> snd)" by simp
qed simp

declare parse_args.simps [simp del]

text \<open>\<open>while(peek(ps, es, "&"))\<close>.\<close>

function parse_amps :: "token cmd \<Rightarrow> ptr \<Rightarrow> token cmd \<times> ptr" where
  "parse_amps c s = (let (b, s) = peek s ''&'' in
     if b then let (_, _, s) = gettoken s in parse_amps (BACK c) s else (c, s))"
  by pat_completeness auto
termination
proof (relation "measure (length \<circ> snd)")
  fix c :: "token cmd" and s b u1 tok t u2 and x y z
  assume p: "x = peek s ''&''" "(b, u1) = x" "b" "y = gettoken u1" "(tok, z) = y" "(t, u2) = z"
  have u: "u1 = skip s" "skip s \<noteq> []" using p(1-3) by (auto simp: peek_eq)
  have g: "gettoken u1 = (tok, (fst t, snd t), u2)" using p(4-6) by simp
  have "tok \<noteq> CHR 0x00" using gettoken_length(6)[OF g] u by auto
  then have "length u2 < length u1" by (rule gettoken_length(2)[OF g])
  moreover have "length u1 \<le> length s" using peek_length[of s "''&''" b u1] p(1,2) by simp
  ultimately show "((BACK c, u2), (c, s)) \<in> measure (length \<circ> snd)" by simp
qed simp

declare parse_amps.simps [simp del]

fun parseline :: "nat \<Rightarrow> ptr \<Rightarrow> token cmd pres"
and parsepipe :: "nat \<Rightarrow> ptr \<Rightarrow> token cmd pres"
and parseexec :: "nat \<Rightarrow> ptr \<Rightarrow> token cmd pres"
and parseblock :: "nat \<Rightarrow> ptr \<Rightarrow> token cmd pres" where
  "parseline 0 s = PDeep"
| "parseline (Suc n) s = pbind (parsepipe n s) (\<lambda>c s.
     let (c, s) = parse_amps c s; (b, s) = peek s '';'' in
     if b then let (_, _, s) = gettoken s in pbind (parseline n s) (\<lambda>d s. POk (LIST c d) s)
     else POk c s)"
| "parsepipe 0 s = PDeep"
| "parsepipe (Suc n) s = pbind (parseexec n s) (\<lambda>c s.
     let (b, s) = peek s ''|'' in
     if b then let (_, _, s) = gettoken s in pbind (parsepipe n s) (\<lambda>d s. POk (PIPE c d) s)
     else POk c s)"
| "parseexec 0 s = PDeep"
| "parseexec (Suc n) s = (let (b, s) = peek s ''('' in
     if b then parseblock n s
     else pbind (parseredirs s) (\<lambda>rs s.
       pbind (parse_args [] rs s) (\<lambda>(args, rs) s.
       POk (foldl (\<lambda>c (t, mode, fd). REDIR c t mode fd) (EXEC args) rs) s)))"
| "parseblock 0 s = PDeep"
| "parseblock (Suc n) s = (let (b, s) = peek s ''('' in
     if \<not> b then PPanic ''parseblock''
     else let (_, _, s) = gettoken s in
       pbind (parseline n s) (\<lambda>c s.
       let (b, s) = peek s '')'' in
       if \<not> b then PPanic ''syntax - missing )''
       else let (_, _, s) = gettoken s in parseredirs_on c s))"

text \<open>
  \<open>nulterminate\<close> writes a 0 at the end of every token. A position in the line is the length of the rest of the
  line, and the string at a pointer ends at the next 0.
\<close>

fun terminators :: "token cmd \<Rightarrow> nat list" where
  "terminators (EXEC ts) = map (\<lambda>(q, eq). length eq) ts"
| "terminators (REDIR c (q, eq) mode fd) = terminators c @ [length eq]"
| "terminators (PIPE c d) = terminators c @ terminators d"
| "terminators (LIST c d) = terminators c @ terminators d"
| "terminators (BACK c) = terminators c"

fun string_at :: "nat list \<Rightarrow> ptr \<Rightarrow> string" where
  "string_at zs [] = []"
| "string_at zs (c # s) = (if length (c # s) \<in> set zs then [] else c # string_at zs s)"

definition nulterminate :: "token cmd \<Rightarrow> string cmd" where
  "nulterminate c = map_cmd (\<lambda>(q, eq). string_at (terminators c) q) c"

definition parsecmd :: "string \<Rightarrow> string cmd pres" where
  "parsecmd s = pbind (parseline (4 * length s + 4) s) (\<lambda>c s.
     let (_, s) = peek s [] in
     if s \<noteq> [] then PPanic (''leftovers: '' @ s @ [CHR 0x0A] @ ''syntax'') else POk (nulterminate c) s)"

end
