(* ===== verification/ShellSpec.thy ===== *)
theory ShellSpec
  imports Shell
begin

text \<open>
  The parser of the shell always ends, and every token it cuts out is a word of the line that \<open>nulterminate\<close> ends in the right place.
\<close>

subsection \<open>The parser ends\<close>

definition within :: "nat \<Rightarrow> 'a pres \<Rightarrow> bool" where
  "within n m \<longleftrightarrow> (case m of POk _ r \<Rightarrow> length r \<le> n | PPanic _ \<Rightarrow> True | PDeep \<Rightarrow> False)"

lemma within_simps [simp]: "within n (POk x r) = (length r \<le> n)" "within n (PPanic e)" "\<not> within n PDeep"
  by (simp_all add: within_def)

lemma within_bind: "within m a \<Longrightarrow> (\<And>x r. length r \<le> m \<Longrightarrow> within n (f x r)) \<Longrightarrow> within n (pbind a f)"
  by (cases a) simp_all

lemma gettoken_le: "gettoken s = (a, b, r) \<Longrightarrow> length r \<le> length s"
  by (cases b) (use gettoken_length(1) in blast)

lemma gettoken_lt: "gettoken s = (a, b, r) \<Longrightarrow> skip s \<noteq> [] \<Longrightarrow> length r < length s"
  by (cases b) (use gettoken_length(2,6) in blast)

text \<open>One round of each loop, from the tokens it reads.\<close>

lemma parseredirs_no: "peek s ''<>'' = (False, u) \<Longrightarrow> parseredirs s = POk [] u"
  by (subst parseredirs.simps) simp

lemma parseredirs_yes:
  "peek s ''<>'' = (True, u1) \<Longrightarrow> gettoken u1 = (tok, t1, u2) \<Longrightarrow> gettoken u2 = (a, t, u3) \<Longrightarrow>
    parseredirs s = (if a \<noteq> CHR ''a'' then PPanic ''missing file for redirection''
      else pbind (parseredirs u3) (\<lambda>rs s.
        POk ((t, if tok = CHR ''<'' then O_RDONLY else or O_WRONLY O_CREATE, if tok = CHR ''<'' then 0 else 1) # rs) s))"
  by (subst parseredirs.simps) simp

lemma parse_args_stop: "peek s ''|)&;'' = (True, u) \<Longrightarrow> parse_args args rs s = POk (args, rs) u"
  by (subst parse_args.simps) simp

lemma parse_args_step:
  "peek s ''|)&;'' = (False, u1) \<Longrightarrow> gettoken u1 = (tok, t, u2) \<Longrightarrow>
    parse_args args rs s = (if tok = CHR 0x00 then POk (args, rs) u2 else if tok \<noteq> CHR ''a'' then PPanic ''syntax''
      else if length args + 1 \<ge> MAXARGS then PPanic ''too many args''
      else pbind (parseredirs u2) (\<lambda>rs' s. parse_args (args @ [t]) (rs @ rs') s))"
  by (subst parse_args.simps) simp

lemma parse_amps_no: "peek s ''&'' = (False, u) \<Longrightarrow> parse_amps c s = (c, u)"
  by (subst parse_amps.simps) simp

lemma parse_amps_yes: "peek s ''&'' = (True, u1) \<Longrightarrow> gettoken u1 = (tok, t, u2) \<Longrightarrow> parse_amps c s = parse_amps (BACK c) u2"
  by (subst parse_amps.simps) simp

lemma peekE: obtains b u where "peek s toks = (b, u)" "length u \<le> length s" "u = skip s" "b \<longrightarrow> skip s \<noteq> []"
  using peek_length[of s toks] by (auto simp: peek_eq)

lemma gettokenE: obtains a t u where "gettoken s = (a, t, u)"
  by (metis prod_cases3)

lemma parseredirs_within: "within (length s) (parseredirs s)"
proof (induction s rule: length_induct)
  case (1 s)
  obtain b u1 where p: "peek s ''<>'' = (b, u1)" "length u1 \<le> length s" "u1 = skip s" "b \<longrightarrow> skip s \<noteq> []" by (rule peekE)
  show ?case
  proof (cases b)
    case True
    obtain tok t1 u2 where g1: "gettoken u1 = (tok, t1, u2)" by (rule gettokenE)
    obtain a t u3 where g2: "gettoken u2 = (a, t, u3)" by (rule gettokenE)
    have "length u2 < length u1" by (rule gettoken_lt[OF g1]) (use p True in simp)
    then have l: "length u3 < length s" using gettoken_le[OF g2] p(2) by simp
    then have "within (length u3) (parseredirs u3)" using 1 by blast
    then have "within (length s) (pbind (parseredirs u3) (\<lambda>rs s. POk (x # rs) s))" for x
      by (rule within_bind) (use l in simp)
    then show ?thesis using parseredirs_yes[OF _ g1 g2] p(1) True by simp
  qed (use parseredirs_no p in simp)
qed

lemma parse_args_within: "within (length s) (parse_args args rs s)"
proof (induction s arbitrary: args rs rule: length_induct)
  case (1 s)
  obtain b u1 where p: "peek s ''|)&;'' = (b, u1)" "length u1 \<le> length s" "u1 = skip s" by (rule peekE)
  show ?case
  proof (cases b)
    case False
    obtain tok t u2 where g: "gettoken u1 = (tok, t, u2)" by (rule gettokenE)
    have l: "length u2 \<le> length s" using gettoken_le[OF g] p(2) by simp
    have "within (length s) (pbind (parseredirs u2) (\<lambda>rs' s. parse_args (args @ [t]) (rs @ rs') s))" if "tok \<noteq> CHR 0x00"
    proof (rule within_bind[OF parseredirs_within])
      fix rs' and r :: ptr assume "length r \<le> length u2"
      moreover have "length u2 < length s"
        using gettoken_length(2)[of u1 tok "fst t" "snd t" u2] g that p(2) by simp
      ultimately have r: "length r < length s" by simp
      then have "within (length r) (parse_args (args @ [t]) (rs @ rs') r)" using 1 by blast
      then show "within (length s) (parse_args (args @ [t]) (rs @ rs') r)"
        using r by (cases "parse_args (args @ [t]) (rs @ rs') r") simp_all
    qed
    then show ?thesis using parse_args_step[OF _ g] p(1) False l by simp
  qed (use parse_args_stop p in simp)
qed

lemma parse_amps_length: "parse_amps c s = (d, r) \<Longrightarrow> length r \<le> length s"
proof (induction s arbitrary: c rule: length_induct)
  case (1 s)
  obtain b u1 where p: "peek s ''&'' = (b, u1)" "length u1 \<le> length s" "u1 = skip s" "b \<longrightarrow> skip s \<noteq> []" by (rule peekE)
  show ?case
  proof (cases b)
    case True
    obtain tok t u2 where g: "gettoken u1 = (tok, t, u2)" by (rule gettokenE)
    have "length u2 < length u1" by (rule gettoken_lt[OF g]) (use p True in simp)
    then have l: "length u2 < length s" using p(2) by simp
    have "parse_amps (BACK c) u2 = (d, r)" using 1(2) parse_amps_yes[OF _ g] p(1) True by simp
    then have "length r \<le> length u2" using 1(1) l by blast
    then show ?thesis using l by simp
  next
    case False
    then show ?thesis using 1(2) p parse_amps_no by simp
  qed
qed

lemma within_mono: "within m a \<Longrightarrow> m \<le> n \<Longrightarrow> within n a"
  by (cases a) simp_all

lemma parse_within:
  "4 * length s + 4 \<le> n \<Longrightarrow> within (length s) (parseline n s)"
  "4 * length s + 3 \<le> n \<Longrightarrow> within (length s) (parsepipe n s)"
  "4 * length s + 2 \<le> n \<Longrightarrow> within (length s) (parseexec n s)"
  "4 * length s + 1 \<le> n \<Longrightarrow> within (length s) (parseblock n s)"
proof (induction n arbitrary: s)
  case (Suc n)
  {
    case 1
    have "within (length s) (parsepipe n s)" by (rule Suc.IH(2)) (use 1 in simp)
    then have "within (length s) (pbind (parsepipe n s) (\<lambda>c s.
      let (c, s) = parse_amps c s; (b, s) = peek s '';'' in
      if b then let (_, _, s) = gettoken s in pbind (parseline n s) (\<lambda>d s. POk (LIST c d) s) else POk c s))"
    proof (rule within_bind)
      fix c and r :: ptr assume r: "length r \<le> length s"
      obtain d u0 where a: "parse_amps c r = (d, u0)" by fastforce
      obtain b u1 where p: "peek u0 '';'' = (b, u1)" by fastforce
      obtain x y u2 where g: "gettoken u1 = (x, y, u2)" by (metis prod_cases3)
      have l: "length u0 \<le> length s" "length u1 \<le> length s" using parse_amps_length[OF a] peek_length[OF p] r by simp_all
      show "within (length s) (let (c, s) = parse_amps c r; (b, s) = peek s '';'' in
        if b then let (_, _, s) = gettoken s in pbind (parseline n s) (\<lambda>d s. POk (LIST c d) s) else POk c s)"
      proof (cases b)
        case True
        then have "length u2 < length s" using gettoken_lt[OF g] p l by (auto simp: peek_eq)
        then have "within (length u2) (parseline n u2)" by (intro Suc.IH(1)) (use 1 in simp)
        then show ?thesis using True \<open>length u2 < length s\<close> by (auto simp: a p g intro!: within_bind)
      qed (use l in \<open>simp add: a p\<close>)
    qed
    then show ?case by simp
  next
    case 2
    have "within (length s) (parseexec n s)" by (rule Suc.IH(3)) (use 2 in simp)
    then have "within (length s) (pbind (parseexec n s) (\<lambda>c s. let (b, s) = peek s ''|'' in
      if b then let (_, _, s) = gettoken s in pbind (parsepipe n s) (\<lambda>d s. POk (PIPE c d) s) else POk c s))"
    proof (rule within_bind)
      fix c and r :: ptr assume r: "length r \<le> length s"
      obtain b u1 where p: "peek r ''|'' = (b, u1)" by fastforce
      obtain x y u2 where g: "gettoken u1 = (x, y, u2)" by (metis prod_cases3)
      have l: "length u1 \<le> length s" using peek_length[OF p] r by simp
      show "within (length s) (let (b, s) = peek r ''|'' in
        if b then let (_, _, s) = gettoken s in pbind (parsepipe n s) (\<lambda>d s. POk (PIPE c d) s) else POk c s)"
      proof (cases b)
        case True
        then have "length u2 < length s" using gettoken_lt[OF g] p l by (auto simp: peek_eq)
        then have "within (length u2) (parsepipe n u2)" by (intro Suc.IH(2)) (use 2 in simp)
        then show ?thesis using True \<open>length u2 < length s\<close> by (auto simp: p g intro!: within_bind)
      qed (use l in \<open>simp add: p\<close>)
    qed
    then show ?case by simp
  next
    case 3
    obtain b u1 where p: "peek s ''('' = (b, u1)" by fastforce
    have l: "length u1 \<le> length s" by (rule peek_length[OF p])
    have "within (length u1) (parseblock n u1)" by (rule Suc.IH(4)) (use 3 l in simp)
    moreover have "within (length s) (pbind (parseredirs u1) (\<lambda>rs s. pbind (parse_args [] rs s) (\<lambda>(args, rs) s.
       POk (foldl (\<lambda>c (t, mode, fd). REDIR c t mode fd) (EXEC args) rs) s)))"
    proof (rule within_bind[OF parseredirs_within])
      fix rs and r :: ptr assume r: "length r \<le> length u1"
      show "within (length s) (pbind (parse_args [] rs r) (\<lambda>(args, rs) s.
        POk (foldl (\<lambda>c (t, mode, fd). REDIR c t mode fd) (EXEC args) rs) s))"
        by (rule within_bind[OF parse_args_within]) (use r l in \<open>auto split: prod.splits\<close>)
    qed
    ultimately show ?case using l by (auto simp: p intro: within_mono)
  next
    case 4
    obtain b u1 where p: "peek s ''('' = (b, u1)" by fastforce
    obtain x y u2 where g: "gettoken u1 = (x, y, u2)" by (metis prod_cases3)
    have l: "length u1 \<le> length s" by (rule peek_length[OF p])
    show ?case
    proof (cases b)
      case True
      then have l2: "length u2 < length s" using gettoken_lt[OF g] p l by (auto simp: peek_eq)
      then have "within (length u2) (parseline n u2)" by (intro Suc.IH(1)) (use 4 in simp)
      then have "within (length s) (pbind (parseline n u2) (\<lambda>c s. let (b, s) = peek s '')'' in
        if \<not> b then PPanic ''syntax - missing )'' else let (_, _, s) = gettoken s in parseredirs_on c s))"
      proof (rule within_bind)
        fix c and r :: ptr assume r: "length r \<le> length u2"
        obtain b' v1 where p': "peek r '')'' = (b', v1)" by fastforce
        obtain x' y' v2 where g': "gettoken v1 = (x', y', v2)" by (metis prod_cases3)
        have "length v2 \<le> length s" using gettoken_le[OF g'] peek_length[OF p'] r l2 by simp
        then have "within (length s) (parseredirs_on c v2)"
          unfolding parseredirs_on_def by (intro within_bind[OF parseredirs_within]) auto
        then show "within (length s) (let (b, s) = peek r '')'' in
          if \<not> b then PPanic ''syntax - missing )'' else let (_, _, s) = gettoken s in parseredirs_on c s)"
          by (simp add: p' g')
      qed
      then show ?thesis using True by (simp add: p g)
    qed (simp add: p)
  }
qed simp_all

subsection \<open>The tokens of a command\<close>

text \<open>
  A token of a line \<open>B\<close>: its pointers are into the line, between them are the characters of a word, and what
  follows is none. \<open>rest_of s B\<close>: \<open>s\<close> is a pointer into \<open>B\<close>.
\<close>

definition rest_of :: "ptr \<Rightarrow> ptr \<Rightarrow> bool" where
  "rest_of s B \<longleftrightarrow> (\<exists>u. B = u @ s)"

definition good_token :: "ptr \<Rightarrow> token \<Rightarrow> bool" where
  "good_token B t \<longleftrightarrow> (case t of (q, e) \<Rightarrow> rest_of q B \<and>
     (\<exists>w. q = w @ e \<and> (\<forall>c \<in> set w. wordchar c) \<and> (e \<noteq> [] \<longrightarrow> \<not> wordchar (hd e))))"

definition sound :: "ptr \<Rightarrow> 'a pres \<Rightarrow> ('a \<Rightarrow> bool) \<Rightarrow> bool" where
  "sound B m P \<longleftrightarrow> (case m of POk x r \<Rightarrow> rest_of r B \<and> P x | _ \<Rightarrow> True)"

lemma sound_simps [simp]: "sound B (POk x r) P = (rest_of r B \<and> P x)" "sound B (PPanic e) P" "sound B PDeep P"
  by (simp_all add: sound_def)

lemma sound_bind: "sound B m P \<Longrightarrow> (\<And>x r. rest_of r B \<Longrightarrow> P x \<Longrightarrow> sound B (f x r) Q) \<Longrightarrow> sound B (pbind m f) Q"
  by (cases m) simp_all

lemma rest_of_refl [simp]: "rest_of s s"
  by (simp add: rest_of_def)

lemma rest_of_trans: "rest_of r s \<Longrightarrow> rest_of s B \<Longrightarrow> rest_of r B"
  by (auto simp: rest_of_def)

lemma rest_of_dropWhile: "rest_of (dropWhile P s) s"
  unfolding rest_of_def by (metis takeWhile_dropWhile_id)

lemma rest_of_skip: "rest_of s B \<Longrightarrow> rest_of (skip s) B"
  unfolding skip_eq by (rule rest_of_trans[OF rest_of_dropWhile])

lemma rest_of_token_end: "token_end q = (ret, e) \<Longrightarrow> rest_of e q"
proof (cases q)
  case (Cons c r)
  have r: "rest_of r (c # r)" unfolding rest_of_def by (intro exI[of _ "[c]"]) simp
  moreover have "rest_of (tl r) r" unfolding rest_of_def by (cases r) auto
  ultimately have t: "rest_of r (c # r)" "rest_of (tl r) (c # r)" using rest_of_trans by blast+
  assume "token_end q = (ret, e)"
  then show ?thesis unfolding Cons using t rest_of_dropWhile[of wordchar "c # r"]
    by (auto simp: token_end_eq split: if_splits)
qed (simp add: token_end_def)

lemma gettoken_rest:
  assumes "gettoken s = (a, t, r)" "rest_of s B"
  shows "rest_of r B"
proof -
  obtain q e where t: "t = (q, e)" by fastforce
  have g: "q = skip s" "token_end q = (a, e)" "r = skip e" using gettoken_length(3-5) assms(1) unfolding t by blast+
  show ?thesis unfolding g(3)
    by (rule rest_of_skip, rule rest_of_trans[OF rest_of_token_end[OF g(2)]]) (simp add: g(1) rest_of_skip assms(2))
qed

lemma token_end_word:
  assumes "token_end q = (CHR ''a'', e)"
  shows "e = dropWhile wordchar q"
  using assms by (cases q) (auto simp: token_end_eq split: if_splits)

lemma gettoken_good:
  assumes "gettoken s = (CHR ''a'', t, r)" "rest_of s B"
  shows "good_token B t"
proof -
  obtain q e where t: "t = (q, e)" by fastforce
  have g: "q = skip s" "token_end q = (CHR ''a'', e)" using gettoken_length(3,4) assms(1) unfolding t by blast+
  have "q = takeWhile wordchar q @ e" unfolding token_end_word[OF g(2)] by simp
  moreover have "\<forall>c \<in> set (takeWhile wordchar q). wordchar c" by (auto dest: set_takeWhileD)
  moreover have "e \<noteq> [] \<longrightarrow> \<not> wordchar (hd e)" unfolding token_end_word[OF g(2)] using hd_dropWhile by blast
  ultimately show ?thesis unfolding good_token_def t using g(1) rest_of_skip[OF assms(2)] by auto
qed

lemma parseredirs_sound:
  "rest_of s B \<Longrightarrow> sound B (parseredirs s) (\<lambda>rs. \<forall>(t, _) \<in> set rs. good_token B t)"
proof (induction s rule: length_induct)
  case (1 s)
  obtain b u1 where p: "peek s ''<>'' = (b, u1)" "length u1 \<le> length s" "u1 = skip s" "b \<longrightarrow> skip s \<noteq> []" by (rule peekE)
  have r1: "rest_of u1 B" unfolding p(3) by (rule rest_of_skip[OF 1(2)])
  show ?case
  proof (cases b)
    case True
    obtain tok t1 u2 where g1: "gettoken u1 = (tok, t1, u2)" by (rule gettokenE)
    obtain a t u3 where g2: "gettoken u2 = (a, t, u3)" by (rule gettokenE)
    have r: "rest_of u2 B" "rest_of u3 B" using gettoken_rest[OF g1 r1] gettoken_rest[OF g2] by auto
    have "length u2 < length u1" by (rule gettoken_lt[OF g1]) (use p True in simp)
    then have l: "length u3 < length s" using gettoken_le[OF g2] p(2) by simp
    then have "sound B (parseredirs u3) (\<lambda>rs. \<forall>(t, _) \<in> set rs. good_token B t)" using 1(1) r(2) by blast
    then have "sound B (pbind (parseredirs u3) (\<lambda>rs s. POk ((t, m, fd) # rs) s)) (\<lambda>rs. \<forall>(t, _) \<in> set rs. good_token B t)"
      if "a = CHR ''a''" for m fd
      by (rule sound_bind) (use gettoken_good[OF g2[unfolded that] r(1)] in auto)
    then show ?thesis using parseredirs_yes[OF _ g1 g2] p(1) True by simp
  qed (use parseredirs_no p r1 in simp)
qed

lemma parse_args_sound:
  "rest_of s B \<Longrightarrow> \<forall>t \<in> set args. good_token B t \<Longrightarrow> \<forall>(t, _) \<in> set rs. good_token B t \<Longrightarrow>
    sound B (parse_args args rs s) (\<lambda>(args, rs). (\<forall>t \<in> set args. good_token B t) \<and> (\<forall>(t, _) \<in> set rs. good_token B t))"
proof (induction s arbitrary: args rs rule: length_induct)
  case (1 s)
  obtain b u1 where p: "peek s ''|)&;'' = (b, u1)" "length u1 \<le> length s" "u1 = skip s" by (rule peekE)
  have r1: "rest_of u1 B" unfolding p(3) by (rule rest_of_skip[OF 1(2)])
  show ?case
  proof (cases b)
    case False
    obtain tok t u2 where g: "gettoken u1 = (tok, t, u2)" by (rule gettokenE)
    have r2: "rest_of u2 B" by (rule gettoken_rest[OF g r1])
    have "sound B (pbind (parseredirs u2) (\<lambda>rs' s. parse_args (args @ [t]) (rs @ rs') s))
      (\<lambda>(args, rs). (\<forall>t \<in> set args. good_token B t) \<and> (\<forall>(t, _) \<in> set rs. good_token B t))" if tok: "tok = CHR ''a''"
    proof (cases "parseredirs u2")
      case (POk rs' r)
      have "length u2 < length u1" using gettoken_length(2)[of u1 tok "fst t" "snd t" u2] g tok by simp
      then have "length r < length s" using parseredirs_end[OF POk] p(2) by simp
      moreover have "rest_of r B" "\<forall>(t, _) \<in> set rs'. good_token B t" using parseredirs_sound[OF r2] unfolding POk by auto
      moreover have "good_token B t" using gettoken_good[OF _ r1] g tok by blast
      ultimately show ?thesis using 1 unfolding POk by (simp add: ball_Un)
    qed auto
    then show ?thesis using parse_args_step[OF _ g] p(1) False r2 1(3,4) by simp
  qed (use parse_args_stop p r1 1(3,4) in simp)
qed

lemma parse_amps_sound:
  "parse_amps c s = (d, r) \<Longrightarrow> rest_of s B \<Longrightarrow> \<forall>t \<in> tokens c. good_token B t \<Longrightarrow> rest_of r B \<and> (\<forall>t \<in> tokens d. good_token B t)"
proof (induction s arbitrary: c rule: length_induct)
  case (1 s)
  obtain b u1 where p: "peek s ''&'' = (b, u1)" "length u1 \<le> length s" "u1 = skip s" "b \<longrightarrow> skip s \<noteq> []" by (rule peekE)
  have r1: "rest_of u1 B" unfolding p(3) by (rule rest_of_skip[OF 1(3)])
  show ?case
  proof (cases b)
    case True
    obtain tok t u2 where g: "gettoken u1 = (tok, t, u2)" by (rule gettokenE)
    have "length u2 < length u1" by (rule gettoken_lt[OF g]) (use p True in simp)
    then have l: "length u2 < length s" using p(2) by simp
    have "parse_amps (BACK c) u2 = (d, r)" using 1(2) parse_amps_yes[OF _ g] p(1) True by simp
    then show ?thesis using 1(1,4) l gettoken_rest[OF g r1] by simp
  next
    case False
    then show ?thesis using 1(2,4) p parse_amps_no r1 by simp
  qed
qed

lemma tokens_wrap: "tokens (foldl (\<lambda>c (t, mode, fd). REDIR c t mode fd) c rs) = tokens c \<union> fst ` set rs"
  by (induction rs arbitrary: c) (auto split: prod.splits)

lemma parse_sound:
  "rest_of s B \<Longrightarrow> sound B (parseline n s) (\<lambda>c. \<forall>t \<in> tokens c. good_token B t)"
  "rest_of s B \<Longrightarrow> sound B (parsepipe n s) (\<lambda>c. \<forall>t \<in> tokens c. good_token B t)"
  "rest_of s B \<Longrightarrow> sound B (parseexec n s) (\<lambda>c. \<forall>t \<in> tokens c. good_token B t)"
  "rest_of s B \<Longrightarrow> sound B (parseblock n s) (\<lambda>c. \<forall>t \<in> tokens c. good_token B t)"
proof (induction n arbitrary: s)
  case (Suc n)
  {
    case 1
    show ?case unfolding parseline.simps
    proof (rule sound_bind[OF Suc.IH(2)[OF 1]])
      fix c and r :: ptr assume r: "rest_of r B" "\<forall>t \<in> tokens c. good_token B t"
      obtain d u0 where a: "parse_amps c r = (d, u0)" by fastforce
      obtain b u1 where p: "peek u0 '';'' = (b, u1)" "u1 = skip u0" by (rule peekE)
      obtain x y u2 where g: "gettoken u1 = (x, y, u2)" by (rule gettokenE)
      have R: "rest_of u1 B" "\<forall>t \<in> tokens d. good_token B t" using parse_amps_sound[OF a r] rest_of_skip p(2) by auto
      then have "rest_of u2 B" using gettoken_rest[OF g] by blast
      then show "sound B (let (c, s) = parse_amps c r; (b, s) = peek s '';'' in
        if b then let (_, _, s) = gettoken s in pbind (parseline n s) (\<lambda>d s. POk (LIST c d) s) else POk c s)
        (\<lambda>c. \<forall>t \<in> tokens c. good_token B t)"
        using R by (auto simp: a p(1) g intro!: sound_bind[OF Suc.IH(1)])
    qed
  next
    case 2
    show ?case unfolding parsepipe.simps
    proof (rule sound_bind[OF Suc.IH(3)[OF 2]])
      fix c and r :: ptr assume r: "rest_of r B" "\<forall>t \<in> tokens c. good_token B t"
      obtain b u1 where p: "peek r ''|'' = (b, u1)" "u1 = skip r" by (rule peekE)
      obtain x y u2 where g: "gettoken u1 = (x, y, u2)" by (rule gettokenE)
      have R: "rest_of u1 B" using r rest_of_skip p(2) by auto
      then have "rest_of u2 B" using gettoken_rest[OF g] by blast
      then show "sound B (let (b, s) = peek r ''|'' in
        if b then let (_, _, s) = gettoken s in pbind (parsepipe n s) (\<lambda>d s. POk (PIPE c d) s) else POk c s)
        (\<lambda>c. \<forall>t \<in> tokens c. good_token B t)"
        using R r by (auto simp: p(1) g intro!: sound_bind[OF Suc.IH(2)])
    qed
  next
    case 3
    obtain b u1 where p: "peek s ''('' = (b, u1)" "u1 = skip s" by (rule peekE)
    have R: "rest_of u1 B" using 3 rest_of_skip p(2) by auto
    have "sound B (pbind (parseredirs u1) (\<lambda>rs s. pbind (parse_args [] rs s) (\<lambda>(args, rs) s.
       POk (foldl (\<lambda>c (t, mode, fd). REDIR c t mode fd) (EXEC args) rs) s))) (\<lambda>c. \<forall>t \<in> tokens c. good_token B t)"
    proof (rule sound_bind[OF parseredirs_sound[OF R]])
      fix rs :: "(token \<times> nat \<times> nat) list" and r :: ptr assume r: "rest_of r B" "\<forall>(t, _) \<in> set rs. good_token B t"
      show "sound B (pbind (parse_args [] rs r) (\<lambda>(args, rs) s.
        POk (foldl (\<lambda>c (t, mode, fd). REDIR c t mode fd) (EXEC args) rs) s)) (\<lambda>c. \<forall>t \<in> tokens c. good_token B t)"
        by (rule sound_bind[OF parse_args_sound[OF r(1) _ r(2)]]) (auto simp: tokens_wrap split: prod.splits)
    qed
    then show ?case using Suc.IH(4)[OF R] by (simp add: p)
  next
    case 4
    obtain b u1 where p: "peek s ''('' = (b, u1)" "u1 = skip s" by (rule peekE)
    obtain x y u2 where g: "gettoken u1 = (x, y, u2)" by (rule gettokenE)
    have "rest_of u1 B" using 4 rest_of_skip p(2) by auto
    then have R: "rest_of u2 B" using gettoken_rest[OF g] by blast
    have "sound B (pbind (parseline n u2) (\<lambda>c s. let (b, s) = peek s '')'' in
        if \<not> b then PPanic ''syntax - missing )'' else let (_, _, s) = gettoken s in parseredirs_on c s))
      (\<lambda>c. \<forall>t \<in> tokens c. good_token B t)"
    proof (rule sound_bind[OF Suc.IH(1)[OF R]])
      fix c and r :: ptr assume r: "rest_of r B" "\<forall>t \<in> tokens c. good_token B t"
      obtain b' v1 where p': "peek r '')'' = (b', v1)" "v1 = skip r" by (rule peekE)
      obtain x' y' v2 where g': "gettoken v1 = (x', y', v2)" by (rule gettokenE)
      have "rest_of v1 B" using r rest_of_skip p'(2) by auto
      then have R': "rest_of v2 B" using gettoken_rest[OF g'] by blast
      have "sound B (parseredirs_on c v2) (\<lambda>c. \<forall>t \<in> tokens c. good_token B t)"
        unfolding parseredirs_on_def by (rule sound_bind[OF parseredirs_sound[OF R']]) (use r(2) in \<open>auto simp: tokens_wrap\<close>)
      then show "sound B (let (b, s) = peek r '')'' in
          if \<not> b then PPanic ''syntax - missing )'' else let (_, _, s) = gettoken s in parseredirs_on c s)
        (\<lambda>c. \<forall>t \<in> tokens c. good_token B t)"
        by (simp add: p'(1) g')
    qed
    then show ?case by (simp add: p(1) g)
  }
qed simp_all

text \<open>\<open>nulterminate\<close> cuts every token at its end, and no token in the middle.\<close>

definition token_string :: "token \<Rightarrow> string" where
  "token_string t = (case t of (q, e) \<Rightarrow> take (length q - length e) q)"

lemma terminators_tokens: "set (terminators c) = (\<lambda>(q, e). length e) ` tokens c"
  by (induction c rule: terminators.induct) auto

lemma string_at_word:
  "(\<forall>z \<in> set zs. \<not> (length e < z \<and> z \<le> length (w @ e))) \<Longrightarrow> length e \<in> set zs \<Longrightarrow> string_at zs (w @ e) = w"
proof (induction w)
  case Nil
  then show ?case by (cases e) auto
next
  case (Cons a w)
  have "length (a # w @ e) \<notin> set zs" using Cons.prems(1) by fastforce
  moreover have "string_at zs (w @ e) = w" by (rule Cons.IH[OF _ Cons.prems(2)]) (use Cons.prems(1) in auto)
  ultimately show ?case by simp
qed

lemma nulterminate_tokens:
  assumes "\<forall>t \<in> tokens c. good_token B t"
  shows "nulterminate c = map_cmd token_string c"
  unfolding nulterminate_def
proof (rule cmd.map_cong0)
  fix t assume t: "t \<in> tokens c"
  obtain q e where qe: "t = (q, e)" by fastforce
  obtain w u where w: "q = w @ e" "\<forall>c \<in> set w. wordchar c" "B = u @ q"
    using assms t unfolding good_token_def qe rest_of_def by fastforce
  have "\<not> (length e < z \<and> z \<le> length (w @ e))" if z: "z \<in> set (terminators c)" for z
  proof
    assume l: "length e < z \<and> z \<le> length (w @ e)"
    obtain q' e' where qe': "(q', e') \<in> tokens c" "z = length e'" using z terminators_tokens by auto
    obtain w' u' where w': "q' = w' @ e'" "e' \<noteq> [] \<longrightarrow> \<not> wordchar (hd e')" "B = u' @ q'"
      using assms qe'(1) unfolding good_token_def rest_of_def by fastforce
    have le: "length e' \<le> length (w @ e)" using l qe'(2) by simp
    have "u @ w @ e = (u' @ w') @ e'" using w(1,3) w'(1,3) by simp
    then obtain v where "v @ w @ e = e' \<or> w @ e = v @ e'" using append_eq_append_conv2[of u "w @ e" "u' @ w'" e'] by auto
    then have "\<exists>v. w @ e = v @ e'" using le by (cases "v = []") auto
    then obtain v where v: "w @ e = v @ e'" by blast
    have "length v < length w" using arg_cong[OF v, of length] l qe'(2) by simp
    then have "e' = drop (length v) w @ e" using arg_cong[OF v, of "drop (length v)"] by simp
    moreover have "drop (length v) w \<noteq> []" using \<open>length v < length w\<close> by simp
    ultimately have "hd e' \<in> set w" "e' \<noteq> []" by (metis hd_append2 hd_in_set in_set_dropD, simp)
    then show False using w(2) w'(2) by blast
  qed
  moreover have "length e \<in> set (terminators c)" using t terminators_tokens unfolding qe by force
  ultimately have "string_at (terminators c) q = w" unfolding w(1) by (intro string_at_word) auto
  then show "(case t of (q, eq) \<Rightarrow> string_at (terminators c) q) = token_string t"
    by (simp add: qe token_string_def w(1))
qed

end
