(* ===== verification/ShellProps.thy ===== *)
theory ShellProps
  imports ShellSpec
begin

text \<open>The parser of the shell reads back every command that is written in its syntax.\<close>

subsection \<open>Commands in the syntax of the shell\<close>

definition word :: "string \<Rightarrow> bool" where
  "word w \<longleftrightarrow> w \<noteq> [] \<and> (\<forall>c \<in> set w. wordchar c \<and> c \<noteq> CHR 0x00)"

definition redir_ok :: "nat \<Rightarrow> nat \<Rightarrow> bool" where
  "redir_ok mode fd \<longleftrightarrow> mode = O_RDONLY \<and> fd = 0 \<or> mode = or O_WRONLY O_CREATE \<and> fd = 1"

fun wf_cmd :: "string cmd \<Rightarrow> bool" where
  "wf_cmd (EXEC ws) \<longleftrightarrow> length ws < MAXARGS \<and> (\<forall>w \<in> set ws. word w)"
| "wf_cmd (REDIR c f mode fd) \<longleftrightarrow> wf_cmd c \<and> word f \<and> redir_ok mode fd"
| "wf_cmd (PIPE c d) \<longleftrightarrow> wf_cmd c \<and> wf_cmd d"
| "wf_cmd (LIST c d) \<longleftrightarrow> wf_cmd c \<and> wf_cmd d"
| "wf_cmd (BACK c) \<longleftrightarrow> wf_cmd c"

definition show_redir :: "string \<times> nat \<times> nat \<Rightarrow> string" where
  "show_redir r = (case r of (f, mode, fd) \<Rightarrow> (if fd = 0 then CHR ''<'' else CHR ''>'') # f @ '' '')"

definition show_word :: "string \<Rightarrow> string" where
  "show_word w = w @ '' ''"

text \<open>The text of a command where a line (0), a part of a line before \<open>;\<close> (1), a pipe (2) or a simple command (3) is expected.\<close>

fun show_cmd :: "nat \<Rightarrow> string cmd \<Rightarrow> string" where
  "show_cmd l (EXEC ws) = concat (map show_word ws)"
| "show_cmd l (REDIR c f mode fd) = show_cmd 3 c @ show_redir (f, mode, fd)"
| "show_cmd l (PIPE c d) = (let s = show_cmd 3 c @ ''|'' @ show_cmd 2 d in if l \<le> 2 then s else ''('' @ s @ '')'')"
| "show_cmd l (BACK c) = (let s = show_cmd 1 c @ ''&'' in if l \<le> 1 then s else ''('' @ s @ '')'')"
| "show_cmd l (LIST c d) = (let s = show_cmd 1 c @ '';'' @ show_cmd 0 d in if l \<le> 0 then s else ''('' @ s @ '')'')"

definition wrap :: "'t cmd \<Rightarrow> ('t \<times> nat \<times> nat) list \<Rightarrow> 't cmd" where
  "wrap c rs = foldl (\<lambda>c (t, mode, fd). REDIR c t mode fd) c rs"

lemma wrap_simps [simp]: "wrap c [] = c" "wrap c (rs @ [(t, mode, fd)]) = REDIR (wrap c rs) t mode fd"
  by (simp_all add: wrap_def)

lemma wrap_REDIR: "wrap (REDIR c t mode fd) rs = wrap c ((t, mode, fd) # rs)"
  by (simp add: wrap_def)

lemma map_wrap: "map_cmd f (wrap c rs) = wrap (map_cmd f c) (map (\<lambda>(t, x). (f t, x)) rs)"
  by (induction rs rule: rev_induct) auto

lemma show_wrap: "show_cmd 3 (wrap c rs) = show_cmd 3 c @ concat (map show_redir rs)"
  by (induction rs rule: rev_induct) auto

subsection \<open>Reading tokens\<close>

lemma skip_id: "s = [] \<or> \<not> white (hd s) \<Longrightarrow> skip s = s"
  by (cases s) (simp_all add: skip_eq)

lemma skip_blank [simp]: "skip (CHR '' '' # s) = skip s"
  by (simp add: skip_eq white_def whitespace_def)

lemma wordchar_not: "wordchar c \<Longrightarrow> \<not> white c" "wordchar c \<Longrightarrow> c \<notin> set symbols"
  by (simp_all add: wordchar_def white_def)

lemma symbol_not: "c \<in> set symbols \<Longrightarrow> \<not> white c \<and> \<not> wordchar c"
proof
  assume c: "c \<in> set symbols"
  then show "\<not> wordchar c" by (simp add: wordchar_def)
  have "list_all (\<lambda>c. \<not> white c) symbols" by code_simp
  then show "\<not> white c" using c by (simp add: list_all_iff)
qed

lemma skip_symbol [simp]: "c \<in> set symbols \<Longrightarrow> skip (c # s) = c # s"
  using symbol_not[of c] by (simp add: skip_id)

lemma word_hd: "word w \<Longrightarrow> w @ s \<noteq> [] \<and> wordchar (hd (w @ s)) \<and> skip (w @ s) = w @ s"
proof -
  assume w: "word w"
  then obtain c v where c: "w = c # v" "wordchar c" by (cases w) (auto simp: word_def)
  then show ?thesis using wordchar_not(1)[OF c(2)] by (simp add: skip_id)
qed

lemma word_token:
  assumes "word w" "s \<noteq> [] \<longrightarrow> \<not> wordchar (hd s)"
  shows "gettoken (w @ s) = (CHR ''a'', (w @ s, s), skip s)"
proof -
  obtain c v where w: "w = c # v" using assms(1) by (cases w) (auto simp: word_def)
  have c: "wordchar c" "\<forall>x \<in> set w. wordchar x" using assms(1) by (auto simp: w word_def)
  have "c \<notin> set ''|();&<''" "c \<noteq> CHR ''>''" using wordchar_not(2)[OF c(1)] by (auto simp: symbols_def)
  moreover have "dropWhile wordchar (w @ s) = s"
  proof -
    have "dropWhile wordchar (w @ s) = dropWhile wordchar s" using c(2) by (simp add: dropWhile_append)
    also have "\<dots> = s" using assms(2) by (cases s) simp_all
    finally show ?thesis .
  qed
  ultimately have "token_end (w @ s) = (CHR ''a'', s)" unfolding w by (simp add: token_end_eq)
  then show ?thesis using word_hd[OF assms(1)] by (simp add: gettoken_def)
qed

lemma symbol_token: "c \<in> set ''|();&<'' \<Longrightarrow> gettoken (c # s) = (c, (c # s, s), skip s)"
  by (auto simp: gettoken_def token_end_def symbols_def)

lemma gt_token: "s \<noteq> [] \<longrightarrow> hd s \<noteq> CHR ''>'' \<Longrightarrow> gettoken (CHR ''>'' # s) = (CHR ''>'', (CHR ''>'' # s, s), skip s)"
  by (auto simp: gettoken_def token_end_def symbols_def)

lemma token_string_append [simp]: "token_string (w @ e, e) = w"
  by (simp add: token_string_def)

lemma peek_skip [simp]: "peek (skip s) toks = peek s toks"
  by (simp add: peek_eq)

lemma parseredirs_skip [simp]: "parseredirs (skip s) = parseredirs s"
  by (subst (1 2) parseredirs.simps) simp

lemma parse_args_skip [simp]: "parse_args a r (skip s) = parse_args a r s"
  by (subst (1 2) parse_args.simps) simp

lemma parse_amps_skip [simp]: "parse_amps c (skip s) = parse_amps c s"
  by (subst (1 2) parse_amps.simps) simp

lemma parse_skip [simp]:
  "parseline n (skip s) = parseline n s" "parsepipe n (skip s) = parsepipe n s" "parseexec n (skip s) = parseexec n s"
  by (induction n) simp_all

text \<open>What follows a part of the text: nothing, or one of the characters \<open>x\<close>.\<close>

definition stops :: "string \<Rightarrow> string \<Rightarrow> bool" where
  "stops x s \<longleftrightarrow> skip s = [] \<or> hd (skip s) \<in> set x"

lemma stops_mono: "stops x s \<Longrightarrow> set x \<subseteq> set y \<Longrightarrow> stops y s"
  by (auto simp: stops_def)

lemma stops_peek: "stops x s \<Longrightarrow> set x \<inter> set toks = {} \<Longrightarrow> peek s toks = (False, skip s)"
  by (auto simp: stops_def peek_eq)

lemma stops_sym: "c \<in> set symbols \<Longrightarrow> c \<in> set x \<Longrightarrow> stops x (c # s)"
  by (simp add: stops_def)

subsection \<open>Redirections and arguments\<close>

abbreviation strings_of :: "(token \<times> nat \<times> nat) list \<Rightarrow> (string \<times> nat \<times> nat) list" where
  "strings_of rs \<equiv> map (\<lambda>(t, x). (token_string t, x)) rs"

abbreviation redirs_text :: "(string \<times> nat \<times> nat) list \<Rightarrow> string" where
  "redirs_text rs \<equiv> concat (map show_redir rs)"

abbreviation words_text :: "string list \<Rightarrow> string" where
  "words_text ws \<equiv> concat (map show_word ws)"

lemma parseredirs_show:
  assumes "\<forall>(t, mode, fd) \<in> set R. word t \<and> redir_ok mode fd" "stops x s" "set x \<inter> set ''<>'' = {}"
  shows "\<exists>rs. parseredirs (redirs_text R @ s) = POk rs (skip s) \<and> strings_of rs = R"
  using assms(1)
proof (induction R)
  case Nil
  then show ?case using parseredirs_no[OF stops_peek[OF assms(2,3)]] by simp
next
  case (Cons r R)
  obtain f mode fd where r: "r = (f, mode, fd)" by (cases r)
  have f: "word f" "redir_ok mode fd" using Cons.prems by (auto simp: r)
  let ?c = "if fd = 0 then CHR ''<'' else CHR ''>''" and ?s = "redirs_text R @ s"
  have c: "?c \<in> set symbols" by (simp add: symbols_def)
  have eq: "redirs_text (r # R) @ s = ?c # f @ CHR '' '' # ?s" by (simp add: r show_redir_def)
  have p: "peek (?c # f @ CHR '' '' # ?s) ''<>'' = (True, ?c # f @ CHR '' '' # ?s)"
    using skip_symbol[OF c] by (simp add: peek_eq)
  have wf: "skip (f @ CHR '' '' # ?s) = f @ CHR '' '' # ?s" "wordchar (hd (f @ CHR '' '' # ?s))" using word_hd[OF f(1)] by auto
  then have "hd (f @ CHR '' '' # ?s) \<noteq> CHR ''>''" by (auto simp: wordchar_def symbols_def)
  then have g1: "\<exists>t. gettoken (?c # f @ CHR '' '' # ?s) = (?c, t, f @ CHR '' '' # ?s)"
    using symbol_token[of ?c "f @ CHR '' '' # ?s"] gt_token[of "f @ CHR '' '' # ?s"] wf(1) by (cases "fd = 0") auto
  have g2: "gettoken (f @ CHR '' '' # ?s) = (CHR ''a'', (f @ CHR '' '' # ?s, CHR '' '' # ?s), skip ?s)"
    using word_token[OF f(1), of "CHR '' '' # ?s"] by (simp add: wordchar_def whitespace_def)
  obtain rs where rs: "parseredirs ?s = POk rs (skip s)" "strings_of rs = R" using Cons by auto
  obtain t where t: "gettoken (?c # f @ CHR '' '' # ?s) = (?c, t, f @ CHR '' '' # ?s)" using g1 by blast
  have m: "(if ?c = CHR ''<'' then O_RDONLY else or O_WRONLY O_CREATE) = mode" "(if ?c = CHR ''<'' then 0 else 1) = fd"
    using f(2) by (auto simp: redir_ok_def)
  have "parseredirs (?c # f @ CHR '' '' # ?s) = POk (((f @ CHR '' '' # ?s, CHR '' '' # ?s), mode, fd) # rs) (skip s)"
    unfolding parseredirs_yes[OF p t g2] m by (simp add: rs(1))
  then show ?case unfolding eq using rs(2) by (simp add: r)
qed

lemma parse_args_end:
  assumes "stops ''|)&;'' s"
  shows "parse_args args rs s = POk (args, rs) (skip s)"
proof (cases "skip s = []")
  case True
  then have "peek s ''|)&;'' = (False, [])" by (simp add: peek_eq)
  moreover have "gettoken [] = (CHR 0x00, ([], []), [])" by (simp add: gettoken_def token_end_def skip_def)
  ultimately show ?thesis using parse_args_step True by simp
next
  case False
  then have "peek s ''|)&;'' = (True, skip s)" using assms by (auto simp: peek_eq stops_def)
  then show ?thesis by (rule parse_args_stop)
qed

lemma parse_args_show:
  assumes "stops ''|)&;'' s" "\<forall>(t, mode, fd) \<in> set R. word t \<and> redir_ok mode fd"
  shows "ws \<noteq> [] \<Longrightarrow> \<forall>w \<in> set ws. word w \<Longrightarrow> length args + length ws < MAXARGS \<Longrightarrow>
    \<exists>ts rs. parse_args args rs0 (words_text ws @ redirs_text R @ s) = POk (args @ ts, rs0 @ rs) (skip s)
      \<and> map token_string ts = ws \<and> strings_of rs = R"
proof (induction ws arbitrary: args rs0)
  case (Cons w ws)
  let ?s = "words_text ws @ redirs_text R @ s"
  have w: "word w" using Cons.prems by simp
  have eq: "words_text (w # ws) @ redirs_text R @ s = w @ CHR '' '' # ?s" by (simp add: show_word_def)
  have "wordchar (hd (w @ CHR '' '' # ?s))" using word_hd[OF w] by blast
  then have p: "peek (w @ CHR '' '' # ?s) ''|)&;'' = (False, w @ CHR '' '' # ?s)"
    using word_hd[OF w, of "CHR '' '' # ?s"] by (auto simp: peek_eq wordchar_def symbols_def)
  have g: "gettoken (w @ CHR '' '' # ?s) = (CHR ''a'', (w @ CHR '' '' # ?s, CHR '' '' # ?s), skip ?s)"
    using word_token[OF w, of "CHR '' '' # ?s"] by (simp add: wordchar_def whitespace_def)
  let ?t = "(w @ CHR '' '' # ?s, CHR '' '' # ?s)"
  have step: "parse_args args rs0 (w @ CHR '' '' # ?s)
    = pbind (parseredirs ?s) (\<lambda>rs' s. parse_args (args @ [?t]) (rs0 @ rs') s)"
    using Cons.prems(3) unfolding parse_args_step[OF p g] by simp
  show ?case
  proof (cases ws)
    case Nil
    obtain rs where rs: "parseredirs (redirs_text R @ s) = POk rs (skip s)" "strings_of rs = R"
      using parseredirs_show[OF assms(2,1)] by auto
    have "parse_args args rs0 (w @ CHR '' '' # ?s) = POk (args @ [?t], rs0 @ rs) (skip s)"
      unfolding step using rs(1) parse_args_end[OF assms(1)] Nil by simp
    then show ?thesis unfolding eq using rs(2) Nil by (intro exI[of _ "[?t]"] exI[of _ rs]) simp
  next
    case (Cons v vs)
    have v: "word v" using Cons.prems(2) Cons by simp
    have "?s = v @ CHR '' '' # words_text vs @ redirs_text R @ s" by (simp add: Cons show_word_def)
    then have "?s \<noteq> []" "wordchar (hd ?s)" "skip ?s = ?s" using word_hd[OF v] by metis+
    then have "peek ?s ''<>'' = (False, ?s)" by (auto simp: peek_eq wordchar_def symbols_def)
    then have no: "parseredirs ?s = POk [] ?s" by (rule parseredirs_no)
    obtain ts rs where ih: "parse_args (args @ [?t]) rs0 ?s = POk ((args @ [?t]) @ ts, rs0 @ rs) (skip s)"
      "map token_string ts = ws" "strings_of rs = R"
      using Cons.IH[of "args @ [?t]" rs0] Cons.prems Cons by auto
    have "parse_args args rs0 (w @ CHR '' '' # ?s) = POk (args @ (?t # ts), rs0 @ rs) (skip s)"
      unfolding step no using ih(1) by simp
    then show ?thesis unfolding eq using ih(2,3) by (intro exI[of _ "?t # ts"] exI[of _ rs]) simp
  qed
qed simp

subsection \<open>Commands\<close>

text \<open>What a function returns for the text of a command: the command, and the pointer at what follows.\<close>

definition reads :: "token cmd pres \<Rightarrow> string cmd \<Rightarrow> string \<Rightarrow> bool" where
  "reads m c s \<longleftrightarrow> (case m of POk t r \<Rightarrow> r = skip s \<and> map_cmd token_string t = c | _ \<Rightarrow> False)"

lemma readsE: assumes "reads m c s" obtains t where "m = POk t (skip s)" "map_cmd token_string t = c"
  using assms by (auto simp: reads_def split: pres.splits)

lemma reads_POk [simp]: "reads (POk t r) c s \<longleftrightarrow> r = skip s \<and> map_cmd token_string t = c"
  by (simp add: reads_def)

definition execs :: "string cmd \<Rightarrow> bool" where
  "execs c \<longleftrightarrow> (\<forall>s n. stops ''|)&;'' s \<longrightarrow> 4 * length (show_cmd 3 c @ s) + 2 \<le> n \<longrightarrow> reads (parseexec n (show_cmd 3 c @ s)) c s)"

definition pipes :: "string cmd \<Rightarrow> bool" where
  "pipes c \<longleftrightarrow> (\<forall>s n. stops '')&;'' s \<longrightarrow> 4 * length (show_cmd 2 c @ s) + 3 \<le> n \<longrightarrow> reads (parsepipe n (show_cmd 2 c @ s)) c s)"

definition backs :: "string cmd \<Rightarrow> bool" where
  "backs c \<longleftrightarrow> (\<forall>s n. stops '')&;'' s \<longrightarrow> 4 * length (show_cmd 1 c @ s) + 3 \<le> n \<longrightarrow>
    (\<exists>t r u. parsepipe n (show_cmd 1 c @ s) = POk t r \<and> map_cmd token_string u = c \<and> parse_amps t r = parse_amps u s))"

definition lines :: "string cmd \<Rightarrow> bool" where
  "lines c \<longleftrightarrow> (\<forall>s n. stops '')'' s \<longrightarrow> 4 * length (show_cmd 0 c @ s) + 4 \<le> n \<longrightarrow> reads (parseline n (show_cmd 0 c @ s)) c s)"

lemma Suc_ex: "k < n \<Longrightarrow> \<exists>m. n = Suc m"
  by (cases n) simp_all

lemma Suc2_ex:
  assumes "Suc 0 < n"
  obtains m where "n = Suc (Suc m)"
proof
  show "n = Suc (Suc (n - 2))" using assms by arith
qed

lemma pipes_back: "pipes c \<Longrightarrow> show_cmd 1 c = show_cmd 2 c \<Longrightarrow> backs c"
  unfolding backs_def
proof (intro allI impI)
  fix s and n :: nat
  assume c: "pipes c" "show_cmd 1 c = show_cmd 2 c" "stops '')&;'' s" "4 * length (show_cmd 1 c @ s) + 3 \<le> n"
  have "reads (parsepipe n (show_cmd 1 c @ s)) c s" using c unfolding pipes_def by simp
  then show "\<exists>t r u. parsepipe n (show_cmd 1 c @ s) = POk t r \<and> map_cmd token_string u = c \<and> parse_amps t r = parse_amps u s"
    by (elim readsE) auto
qed

lemma execs_pipe: "execs c \<Longrightarrow> show_cmd 2 c = show_cmd 3 c \<Longrightarrow> pipes c"
  unfolding pipes_def
proof (intro allI impI)
  fix s and n :: nat
  assume c: "execs c" "show_cmd 2 c = show_cmd 3 c" "stops '')&;'' s" "4 * length (show_cmd 2 c @ s) + 3 \<le> n"
  obtain m where m: "n = Suc m" using c(4) Suc_ex[of 0 n] by auto
  have st: "stops ''|)&;'' s" by (rule stops_mono[OF c(3)]) auto
  have "reads (parseexec m (show_cmd 2 c @ s)) c s" using c(1,2,4) st unfolding execs_def m by simp
  then show "reads (parsepipe n (show_cmd 2 c @ s)) c s"
    by (elim readsE) (simp add: m stops_peek[OF c(3)])
qed

lemma backs_line: "backs c \<Longrightarrow> show_cmd 0 c = show_cmd 1 c \<Longrightarrow> lines c"
  unfolding lines_def
proof (intro allI impI)
  fix s and n :: nat
  assume c: "backs c" "show_cmd 0 c = show_cmd 1 c" "stops '')'' s" "4 * length (show_cmd 0 c @ s) + 4 \<le> n"
  obtain m where m: "n = Suc m" using c(4) Suc_ex[of 0 n] by auto
  have st: "stops '')&;'' s" by (rule stops_mono[OF c(3)]) auto
  have k: "4 * length (show_cmd 1 c @ s) + 3 \<le> m" using c(2,4) by (simp add: m)
  obtain t r u where p: "parsepipe m (show_cmd 0 c @ s) = POk t r" "map_cmd token_string u = c" "parse_amps t r = parse_amps u s"
    using c(1)[unfolded backs_def, rule_format, OF st k] unfolding c(2) by blast
  have "parse_amps t r = (u, skip s)" unfolding p(3) by (rule parse_amps_no, rule stops_peek[OF c(3)]) auto
  moreover have "peek (skip s) '';'' = (False, skip s)" using stops_peek[OF c(3), of "'';''"] by simp
  ultimately show "reads (parseline n (show_cmd 0 c @ s)) c s" using p(1,2) by (simp add: m)
qed

lemma lines_exec:
  assumes "lines c" "show_cmd 3 c = ''('' @ show_cmd 0 c @ '')''" "\<forall>(t, mode, fd) \<in> set R. word t \<and> redir_ok mode fd"
    "stops ''|)&;'' s" "4 * length (show_cmd 3 c @ redirs_text R @ s) + 2 \<le> n"
  shows "reads (parseexec n (show_cmd 3 c @ redirs_text R @ s)) (wrap c R) s"
proof -
  let ?u = "CHR '')'' # redirs_text R @ s"
  let ?v = "show_cmd 0 c @ ?u"
  obtain m where m: "n = Suc (Suc m)" by (rule Suc2_ex[of n]) (use assms(5) in simp)
  have eq: "show_cmd 3 c @ redirs_text R @ s = CHR ''('' # ?v" by (simp add: assms(2))
  have k: "stops '')'' ?u" by (rule stops_sym) (auto simp: symbols_def)
  have op: "peek (CHR ''('' # ?v) ''('' = (True, CHR ''('' # ?v)" by (simp add: peek_eq symbols_def)
  obtain x where g: "gettoken (CHR ''('' # ?v) = (CHR ''('', x, skip ?v)" using symbol_token[of "CHR ''(''" ?v] by auto
  have "4 * length ?v + 4 \<le> m" using assms(5) unfolding eq m by simp
  then have "reads (parseline m ?v) c ?u" using assms(1) k unfolding lines_def by blast
  then obtain t where t: "parseline m ?v = POk t (skip ?u)" "map_cmd token_string t = c" by (rule readsE)
  have su: "skip ?u = ?u" by (rule skip_symbol) (simp add: symbols_def)
  have cl: "peek ?u '')'' = (True, ?u)" by (simp add: peek_eq symbols_def)
  obtain y where g': "gettoken ?u = (CHR '')'', y, skip (redirs_text R @ s))" using symbol_token[of "CHR '')''" "redirs_text R @ s"] by auto
  obtain rs where rs: "parseredirs (redirs_text R @ s) = POk rs (skip s)" "strings_of rs = R"
    using parseredirs_show[OF assms(3,4)] by auto
  have "parseexec n (CHR ''('' # ?v) = POk (wrap t rs) (skip s)"
    by (simp add: m op g t(1)[unfolded su] cl g' parseredirs_on_def rs(1) wrap_def)
  moreover have "map_cmd token_string (wrap t rs) = wrap c R" unfolding map_wrap t(2) using rs(2) by simp
  ultimately show ?thesis unfolding eq by simp
qed

lemma EXEC_execs:
  assumes "length ws < MAXARGS" "\<forall>w \<in> set ws. word w" "\<forall>(t, mode, fd) \<in> set R. word t \<and> redir_ok mode fd"
  shows "execs (wrap (EXEC ws) R)"
  unfolding execs_def show_wrap show_cmd.simps append_assoc
proof (intro allI impI)
  fix s and n :: nat
  let ?v = "words_text ws @ redirs_text R @ s"
  assume s: "stops ''|)&;'' s" and n: "4 * length ?v + 2 \<le> n"
  obtain m where m: "n = Suc m" using n Suc_ex[of 0 n] by auto
  show "reads (parseexec n ?v) (wrap (EXEC ws) R) s"
  proof (cases ws)
    case Nil
    have "peek (redirs_text R @ s) ''('' = (False, skip (redirs_text R @ s))"
    proof (cases R)
      case Nil
      then show ?thesis using stops_peek[OF s] by simp
    next
      case (Cons r R')
      obtain f mode fd where "r = (f, mode, fd)" by (cases r)
      then have "redirs_text R @ s = (if fd = 0 then CHR ''<'' else CHR ''>'') # f @ CHR '' '' # redirs_text R' @ s"
        by (simp add: Cons show_redir_def)
      then show ?thesis by (simp add: peek_eq symbols_def)
    qed
    moreover obtain rs where rs: "parseredirs (redirs_text R @ s) = POk rs (skip s)" "strings_of rs = R"
      using parseredirs_show[OF assms(3) s] by auto
    ultimately have "parseexec n ?v = POk (wrap (EXEC []) rs) (skip s)"
      using parse_args_end[OF s] by (simp add: Nil m wrap_def)
    then show ?thesis using rs(2) by (simp add: map_wrap Nil)
  next
    case (Cons w ws')
    have "?v = w @ CHR '' '' # words_text ws' @ redirs_text R @ s" by (simp add: Cons show_word_def)
    moreover have "word w" using assms(2) Cons by simp
    ultimately have h: "?v \<noteq> []" "wordchar (hd ?v)" "skip ?v = ?v" using word_hd by metis+
    have p: "peek ?v ''('' = (False, ?v)" "peek ?v ''<>'' = (False, ?v)"
      using h by (auto simp: peek_eq wordchar_def symbols_def)
    obtain ts rs where t: "parse_args [] [] ?v = POk (ts, rs) (skip s)" "map token_string ts = ws" "strings_of rs = R"
      using parse_args_show[OF s assms(3), of ws "[]" "[]"] assms(1,2) Cons by auto
    have "parseexec n ?v = POk (wrap (EXEC ts) rs) (skip s)"
      by (simp add: m p parseredirs_no[OF p(2)] t(1) wrap_def)
    then show ?thesis using t(2,3) by (simp add: map_wrap)
  qed
qed

lemma PIPE_pipes:
  assumes "execs c" "pipes d"
  shows "pipes (PIPE c d)"
  unfolding pipes_def
proof (intro allI impI)
  fix s and n :: nat
  let ?d = "show_cmd 2 d @ s"
  let ?u = "CHR ''|'' # ?d"
  assume s: "stops '')&;'' s" and n: "4 * length (show_cmd 2 (PIPE c d) @ s) + 3 \<le> n"
  obtain m where m: "n = Suc m" using n Suc_ex[of 0 n] by auto
  have eq: "show_cmd 2 (PIPE c d) @ s = show_cmd 3 c @ ?u" by simp
  have "stops ''|)&;'' ?u" by (rule stops_sym) (auto simp: symbols_def)
  moreover have "4 * length (show_cmd 3 c @ ?u) + 2 \<le> m" using n unfolding eq m by simp
  ultimately have "reads (parseexec m (show_cmd 3 c @ ?u)) c ?u" using assms(1) unfolding execs_def by blast
  then obtain t where t: "parseexec m (show_cmd 3 c @ ?u) = POk t (skip ?u)" "map_cmd token_string t = c" by (rule readsE)
  have su: "skip ?u = ?u" by (rule skip_symbol) (simp add: symbols_def)
  have p: "peek ?u ''|'' = (True, ?u)" by (simp add: peek_eq symbols_def)
  obtain x where g: "gettoken ?u = (CHR ''|'', x, skip ?d)" using symbol_token[of "CHR ''|''" ?d] by auto
  have "4 * length ?d + 3 \<le> m" using n unfolding eq m by simp
  then have "reads (parsepipe m ?d) d s" using assms(2) s unfolding pipes_def by blast
  then obtain t' where t': "parsepipe m ?d = POk t' (skip s)" "map_cmd token_string t' = d" by (rule readsE)
  show "reads (parsepipe n (show_cmd 2 (PIPE c d) @ s)) (PIPE c d) s"
    unfolding eq by (simp add: m t(1)[unfolded su] p g t'(1) t(2) t'(2))
qed

lemma BACK_backs:
  assumes "backs c"
  shows "backs (BACK c)"
  unfolding backs_def
proof (intro allI impI)
  fix s and n :: nat
  let ?u = "CHR ''&'' # s"
  assume n: "4 * length (show_cmd 1 (BACK c) @ s) + 3 \<le> n"
  have eq: "show_cmd 1 (BACK c) @ s = show_cmd 1 c @ ?u" by simp
  have k: "stops '')&;'' ?u" by (rule stops_sym) (auto simp: symbols_def)
  obtain t r u where t: "parsepipe n (show_cmd 1 c @ ?u) = POk t r" "map_cmd token_string u = c" "parse_amps t r = parse_amps u ?u"
    using assms[unfolded backs_def, rule_format, OF k] n unfolding eq by blast
  have p: "peek ?u ''&'' = (True, ?u)" by (simp add: peek_eq symbols_def)
  obtain x where g: "gettoken ?u = (CHR ''&'', x, skip s)" using symbol_token[of "CHR ''&''" s] by auto
  have "parse_amps t r = parse_amps (BACK u) s" using t(3) parse_amps_yes[OF p g] by simp
  then show "\<exists>t r u. parsepipe n (show_cmd 1 (BACK c) @ s) = POk t r \<and> map_cmd token_string u = BACK c \<and> parse_amps t r = parse_amps u s"
    unfolding eq using t(1,2) by (intro exI[of _ t] exI[of _ r] exI[of _ "BACK u"]) simp
qed

lemma LIST_lines:
  assumes "backs c" "lines d"
  shows "lines (LIST c d)"
  unfolding lines_def
proof (intro allI impI)
  fix s and n :: nat
  let ?d = "show_cmd 0 d @ s"
  let ?u = "CHR '';'' # ?d"
  assume s: "stops '')'' s" and n: "4 * length (show_cmd 0 (LIST c d) @ s) + 4 \<le> n"
  obtain m where m: "n = Suc m" using n Suc_ex[of 0 n] by auto
  have eq: "show_cmd 0 (LIST c d) @ s = show_cmd 1 c @ ?u" by simp
  have k: "stops '')&;'' ?u" by (rule stops_sym) (auto simp: symbols_def)
  have "4 * length (show_cmd 1 c @ ?u) + 3 \<le> m" using n unfolding eq m by simp
  then obtain t r u where t: "parsepipe m (show_cmd 1 c @ ?u) = POk t r" "map_cmd token_string u = c" "parse_amps t r = parse_amps u ?u"
    using assms(1)[unfolded backs_def, rule_format, OF k] by blast
  have su: "skip ?u = ?u" by (rule skip_symbol) (simp add: symbols_def)
  have "peek ?u ''&'' = (False, ?u)" by (simp add: peek_eq symbols_def)
  then have a: "parse_amps t r = (u, ?u)" unfolding t(3) by (rule parse_amps_no)
  have p: "peek ?u '';'' = (True, ?u)" by (simp add: peek_eq symbols_def)
  obtain x where g: "gettoken ?u = (CHR '';'', x, skip ?d)" using symbol_token[of "CHR '';''" ?d] by auto
  have "4 * length ?d + 4 \<le> m" using n unfolding eq m by simp
  then have "reads (parseline m ?d) d s" using assms(2) s unfolding lines_def by blast
  then obtain t' where t': "parseline m ?d = POk t' (skip s)" "map_cmd token_string t' = d" by (rule readsE)
  show "reads (parseline n (show_cmd 0 (LIST c d) @ s)) (LIST c d) s"
    unfolding eq by (simp add: m t(1,2) a p g t')
qed

text \<open>A command that is put in parentheses where a simple command is expected.\<close>

lemma paren_execs:
  assumes "lines c" "show_cmd 3 c = ''('' @ show_cmd 0 c @ '')''" "\<forall>(t, mode, fd) \<in> set R. word t \<and> redir_ok mode fd"
  shows "execs (wrap c R)"
  unfolding execs_def show_wrap append_assoc using lines_exec[OF assms] by blast

lemma parse_show:
  "wf_cmd c \<Longrightarrow> (\<forall>R. (\<forall>(t, mode, fd) \<in> set R. word t \<and> redir_ok mode fd) \<longrightarrow> execs (wrap c R)) \<and> pipes c \<and> backs c \<and> lines c"
proof (induction c)
  case (EXEC ws)
  then have x: "\<forall>R. (\<forall>(t, mode, fd) \<in> set R. word t \<and> redir_ok mode fd) \<longrightarrow> execs (wrap (EXEC ws) R)" using EXEC_execs by simp
  then have "execs (EXEC ws)" by (elim allE[of _ "[]"]) simp
  then show ?case using x execs_pipe pipes_back backs_line by simp
next
  case (REDIR c f mode fd)
  then have x: "\<forall>R. (\<forall>(t, mode, fd) \<in> set R. word t \<and> redir_ok mode fd) \<longrightarrow> execs (wrap (REDIR c f mode fd) R)"
    by (simp add: wrap_REDIR)
  then have "execs (REDIR c f mode fd)" by (elim allE[of _ "[]"]) simp
  then show ?case using x execs_pipe pipes_back backs_line by simp
next
  case (PIPE c d)
  have "execs (wrap c [])" using PIPE by (metis empty_iff empty_set wf_cmd.simps(3))
  then have p: "pipes (PIPE c d)" using PIPE PIPE_pipes by simp
  have b: "backs (PIPE c d)" by (rule pipes_back[OF p]) simp
  have l: "lines (PIPE c d)" by (rule backs_line[OF b]) simp
  show ?case using p b l paren_execs[OF l] by simp
next
  case (LIST c d)
  then have l: "lines (LIST c d)" using LIST_lines by simp
  have x: "\<forall>R. (\<forall>(t, mode, fd) \<in> set R. word t \<and> redir_ok mode fd) \<longrightarrow> execs (wrap (LIST c d) R)" using paren_execs[OF l] by simp
  then have "execs (LIST c d)" by (elim allE[of _ "[]"]) simp
  then have p: "pipes (LIST c d)" by (rule execs_pipe) simp
  have b: "backs (LIST c d)" by (rule pipes_back[OF p]) simp
  show ?case using l x p b by simp
next
  case (BACK c)
  then have b: "backs (BACK c)" using BACK_backs by simp
  have l: "lines (BACK c)" by (rule backs_line[OF b]) simp
  have x: "\<forall>R. (\<forall>(t, mode, fd) \<in> set R. word t \<and> redir_ok mode fd) \<longrightarrow> execs (wrap (BACK c) R)" using paren_execs[OF l] by simp
  then have "execs (BACK c)" by (elim allE[of _ "[]"]) simp
  then have "pipes (BACK c)" by (rule execs_pipe) simp
  then show ?case using b l x by simp
qed

lemma parsecmd_reads:
  assumes "wf_cmd c" "\<forall>x \<in> set w. white x"
  shows "parsecmd (show_cmd 0 c @ w) = POk c []"
proof -
  let ?s = "show_cmd 0 c @ w"
  have w: "skip w = []" using assms(2) by (simp add: skip_eq dropWhile_eq_Nil_conv)
  then have "stops '')'' w" by (simp add: stops_def)
  then have "reads (parseline (4 * length ?s + 4) ?s) c w"
    using parse_show[OF assms(1)] unfolding lines_def by blast
  then obtain t where t: "parseline (4 * length ?s + 4) ?s = POk t []" "map_cmd token_string t = c"
    unfolding reads_def w by (auto split: pres.splits)
  have "\<forall>x \<in> tokens t. good_token ?s x" using parse_sound(1)[OF rest_of_refl, of ?s "4 * length ?s + 4"] unfolding t(1) by simp
  then have "nulterminate t = c" using nulterminate_tokens t(2) by simp
  then show ?thesis unfolding parsecmd_def t(1) by (simp add: peek_eq skip_eq)
qed

lemma parsecmd_ends: "parsecmd s \<noteq> PDeep"
  using parse_within(1)[of s "4 * length s + 4"] by (cases "parseline (4 * length s + 4) s") (auto simp: parsecmd_def split: prod.splits)

text \<open>
  C32. The parser of the shell never runs out of its depth, for any line. It reads every command that is written in
  the syntax of the shell, with any blanks behind it, back as that command, with the tokens ended by zeros at the right places: words of
  characters that are no blanks and no symbols, fewer than 10 arguments, redirections from and to files, pipes, lists and background
  commands, nested in parentheses where the structure needs them.
\<close>

theorem parsecmd_show:
  "parsecmd s \<noteq> PDeep \<and> (wf_cmd c \<and> list_all white w \<longrightarrow> parsecmd (show_cmd 0 c @ w) = POk c [])"
  using parsecmd_ends parsecmd_reads by (simp add: list_all_iff)

text \<open>A pipe into a list in the background, with redirections.\<close>

lemma parsecmd_show_witness:
  "show_cmd 0 (PIPE (REDIR (EXEC [''cat'']) ''in'' 0 0) (REDIR (LIST (BACK (EXEC [''wc''])) (EXEC [''ls'', ''a''])) ''out'' (or O_WRONLY O_CREATE) 1))
      = ''cat <in |(wc &;ls a )>out ''
    \<and> parsecmd ''cat <in |(wc &;ls a )>out ''
      = POk (PIPE (REDIR (EXEC [''cat'']) ''in'' 0 0) (REDIR (LIST (BACK (EXEC [''wc''])) (EXEC [''ls'', ''a''])) ''out'' (or O_WRONLY O_CREATE) 1)) []"
proof -
  let ?c = "PIPE (REDIR (EXEC [''cat'']) ''in'' 0 0) (REDIR (LIST (BACK (EXEC [''wc''])) (EXEC [''ls'', ''a''])) ''out'' (or O_WRONLY O_CREATE) 1)"
  have s: "show_cmd 0 ?c = ''cat <in |(wc &;ls a )>out ''" by (simp add: show_word_def show_redir_def)
  have "list_all word [''cat'', ''in'', ''wc'', ''ls'', ''a'', ''out'']" by code_simp
  then have "wf_cmd ?c" by (simp add: redir_ok_def O_RDONLY_def MAXARGS_def)
  then show ?thesis using parsecmd_show[of "[]" ?c "[]"] unfolding s by simp
qed

end
