(* ===== verification/ShellRun.thy ===== *)
theory ShellRun
  imports ShellProps
begin

text \<open>
  How the shell runs a command (\<open>runcmd\<close> and \<open>main\<close> of sh.c). A process is the tree of the system calls it makes: the
  branches of \<open>Fork\<close> are the results of the call in the child (0) and in the parent, and \<open>Exec\<close> returns
  only when it fails. What the shell prints on descriptor 2 is \<open>Print\<close>. The loop of \<open>main\<close> that opens the console is left out.
\<close>

datatype act = Exit | Print string act | Exec "string list" act | Close nat act | Dup nat act | Wait act
  | Open string nat "int \<Rightarrow> act" | Pipe "(nat \<times> nat) option \<Rightarrow> act" | Fork "int \<Rightarrow> act" | Chdir string "int \<Rightarrow> act"

definition sh_panic :: "string \<Rightarrow> act" where
  "sh_panic s = Print (s @ [CHR 0x0a]) Exit"

definition fork1 :: "(int \<Rightarrow> act) \<Rightarrow> act" where
  "fork1 k = Fork (\<lambda>pid. if pid = - 1 then sh_panic ''fork'' else k pid)"

fun runcmd :: "string cmd \<Rightarrow> act" where
  "runcmd (EXEC []) = Exit"
| "runcmd (EXEC (a # argv)) = Exec (a # argv) (Print (''exec '' @ a @ '' failed'' @ [CHR 0x0a]) Exit)"
| "runcmd (REDIR c f mode fd) = Close fd (Open f mode (\<lambda>r.
     if r < 0 then Print (''open '' @ f @ '' failed'' @ [CHR 0x0a]) Exit else runcmd c))"
| "runcmd (LIST l r) = fork1 (\<lambda>pid. if pid = 0 then runcmd l else Wait (runcmd r))"
| "runcmd (PIPE l r) = Pipe (\<lambda>p. case p of None \<Rightarrow> sh_panic ''pipe'' | Some (p0, p1) \<Rightarrow>
     fork1 (\<lambda>pid. if pid = 0 then Close 1 (Dup p1 (Close p0 (Close p1 (runcmd l))))
     else fork1 (\<lambda>pid. if pid = 0 then Close 0 (Dup p0 (Close p0 (Close p1 (runcmd r))))
     else Close p0 (Close p1 (Wait (Wait Exit))))))"
| "runcmd (BACK c) = fork1 (\<lambda>pid. if pid = 0 then runcmd c else Exit)"

text \<open>The loop of \<open>main\<close>, over what \<open>getcmd\<close> puts into the buffer until it finds the end of the input.\<close>

fun sh_main :: "string list \<Rightarrow> act" where
  "sh_main [] = Print ''$ '' Exit"
| "sh_main (buf # ls) = Print ''$ ''
     (if buf = [] then Exit
      else if take 3 buf = ''cd '' then
        let dir = drop 3 (butlast buf) in
        Chdir dir (\<lambda>r. if r < 0 then Print (''cannot cd '' @ dir @ [CHR 0x0a]) (sh_main ls) else sh_main ls)
      else fork1 (\<lambda>pid. if pid = 0
        then (case parsecmd buf of POk c _ \<Rightarrow> runcmd c | PPanic e \<Rightarrow> sh_panic e | PDeep \<Rightarrow> Exit)
        else Wait (sh_main ls)))"

subsection \<open>What the processes do\<close>

text \<open>
  The kernel below: a table of descriptors per process, which \<open>fork\<close> copies; \<open>open\<close>, \<open>dup\<close> and \<open>pipe\<close> take the lowest free
  ones (\<open>fdalloc\<close>). A pipe is named by the path of forks and pipes that led to it. \<open>spawn\<close> is the list of the programs that
  are executed, with their descriptors.
\<close>

datatype fobj = Opened string nat | ReadEnd "nat list" | WriteEnd "nat list" | Inherited nat

type_synonym fdtab = "fobj option list"

record os =
  can_exec :: "string list \<Rightarrow> bool"
  can_open :: "string \<Rightarrow> nat \<Rightarrow> bool"

abbreviation free_fd :: "fdtab \<Rightarrow> nat option" where
  "free_fd \<equiv> first_idx (\<lambda>x. x = None)"

primrec spawn :: "os \<Rightarrow> act \<Rightarrow> nat list \<Rightarrow> fdtab \<Rightarrow> (string list \<times> fdtab) list" where
  "spawn os Exit p t = []"
| "spawn os (Print s a) p t = spawn os a p t"
| "spawn os (Exec argv a) p t = (if can_exec os argv then [(argv, t)] else spawn os a p t)"
| "spawn os (Close fd a) p t = spawn os a p (t[fd := None])"
| "spawn os (Dup fd a) p t = (case free_fd t of None \<Rightarrow> spawn os a p t | Some i \<Rightarrow> spawn os a p (t[i := t ! fd]))"
| "spawn os (Wait a) p t = spawn os a p t"
| "spawn os (Open f mode k) p t = (case free_fd t of None \<Rightarrow> spawn os (k (- 1)) p t
     | Some i \<Rightarrow> if can_open os f mode then spawn os (k (int i)) p (t[i := Some (Opened f mode)]) else spawn os (k (- 1)) p t)"
| "spawn os (Pipe k) p t = (case free_fd t of None \<Rightarrow> spawn os (k None) p t
     | Some i \<Rightarrow> (case free_fd (t[i := Some (ReadEnd p)]) of None \<Rightarrow> spawn os (k None) p t
       | Some j \<Rightarrow> spawn os (k (Some (i, j))) (2 # p) (t[i := Some (ReadEnd p), j := Some (WriteEnd p)])))"
| "spawn os (Fork k) p t = spawn os (k 0) (0 # p) t @ spawn os (k 1) (1 # p) t"
| "spawn os (Chdir d k) p t = spawn os (k 0) p t"

text \<open>What a command means: each program with the descriptors the command gives it.\<close>

fun meaning :: "os \<Rightarrow> string cmd \<Rightarrow> nat list \<Rightarrow> fdtab \<Rightarrow> (string list \<times> fdtab) list" where
  "meaning os (EXEC argv) p t = (if argv \<noteq> [] \<and> can_exec os argv then [(argv, t)] else [])"
| "meaning os (REDIR c f mode fd) p t = (if can_open os f mode then meaning os c p (t[fd := Some (Opened f mode)]) else [])"
| "meaning os (LIST l r) p t = meaning os l (0 # p) t @ meaning os r (1 # p) t"
| "meaning os (PIPE l r) p t = meaning os l (0 # 2 # p) (t[1 := Some (WriteEnd p)]) @ meaning os r (0 # 1 # 2 # p) (t[0 := Some (ReadEnd p)])"
| "meaning os (BACK c) p t = meaning os c (0 # p) t"

text \<open>The standard descriptors are open and two others are free.\<close>

definition std_fds :: "fdtab \<Rightarrow> bool" where
  "std_fds t \<longleftrightarrow> 2 \<le> length t \<and> t ! 0 \<noteq> None \<and> t ! 1 \<noteq> None
     \<and> (\<exists>i j. i < j \<and> j < length t \<and> t ! i = None \<and> t ! j = None)"

lemma below_one: "k \<le> 1 \<Longrightarrow> (m :: nat) < k \<Longrightarrow> m = 0"
  by simp

lemma std_fds_upd: "std_fds t \<Longrightarrow> fd \<le> 1 \<Longrightarrow> std_fds (t[fd := Some x])"
proof -
  assume t: "std_fds t" and fd: "fd \<le> 1"
  then obtain i j where ij: "i < j" "j < length t" "t ! i = None" "t ! j = None" "t ! 0 \<noteq> None" "t ! 1 \<noteq> None" "2 \<le> length t"
    by (auto simp: std_fds_def)
  then have "i \<noteq> fd" "j \<noteq> fd" using fd by (metis le_0_eq less_one linorder_neqE_nat not_less)+
  then have "t[fd := Some x] ! i = None" "t[fd := Some x] ! j = None" using ij by simp_all
  moreover have "t[fd := Some x] ! 0 \<noteq> None" "t[fd := Some x] ! 1 \<noteq> None" using ij(5-7) by (simp_all add: nth_list_update_if)
  ultimately show ?thesis unfolding std_fds_def using ij(1,2,7) by (metis length_list_update)
qed

lemma std_pipe:
  assumes "std_fds t"
  obtains i j where "free_fd t = Some i" "\<And>x. free_fd (t[i := Some x]) = Some j" "2 \<le> i" "2 \<le> j" "i \<noteq> j" "i < length t" "j < length t"
    "t ! i = None" "t ! j = None"
proof -
  obtain a b where ab: "a < b" "b < length t" "t ! a = None" "t ! b = None" using assms by (auto simp: std_fds_def)
  have o: "t ! 0 \<noteq> None" "t ! 1 \<noteq> None" using assms by (auto simp: std_fds_def)
  have two: "2 \<le> k" if "t ! k = None" for k using o that by (cases "k = 0"; cases "k = 1") auto
  have "free_fd t \<noteq> None" using ab(2,4) by (auto simp: in_set_conv_nth)
  then obtain i where i: "free_fd t = Some i" by blast
  then have ip: "i < length t" "t ! i = None" by (simp_all add: first_idx_Some)
  have "\<exists>j. free_fd (t[i := Some x]) = Some j" for x :: fobj
  proof -
    have "\<exists>k < length t. k \<noteq> i \<and> t ! k = None" using ab by (metis less_irrefl order_less_trans)
    then have "\<exists>k < length t. t[i := Some x] ! k = None" by (metis nth_list_update_neq)
    then have "free_fd (t[i := Some x]) \<noteq> None" by (auto simp: in_set_conv_nth)
    then show ?thesis by blast
  qed
  then obtain j where j: "free_fd (t[i := Some (Inherited 0)]) = Some j" by blast
  have jx: "free_fd (t[i := Some x]) = Some j" for x
    using j ip unfolding first_idx_Some by (auto simp: nth_list_update_if)
  have jp: "j < length t" "j \<noteq> i" "t ! j = None" using j ip unfolding first_idx_Some by (auto simp: nth_list_update_if split: if_splits)
  show ?thesis by (rule that[OF i jx]) (use ip jp two in auto)
qed

text \<open>\<open>close(k); dup(e)\<close>, with the pipe closed, leaves one end of the pipe at \<open>k\<close> and nothing else of it.\<close>

lemma child_fds:
  fixes t :: fdtab and r w :: fobj
  assumes t: "std_fds t" and i: "2 \<le> i" "2 \<le> j" "i \<noteq> j" "i < length t" "j < length t" "t ! i = None" "t ! j = None"
    and k: "k \<le> 1" and e: "e = i \<or> e = j"
  defines "T \<equiv> t[i := Some r, j := Some w, k := None]"
  shows "free_fd T = Some k" "T[k := T ! e, i := None, j := None] = t[k := Some (if e = i then r else w)]"
proof -
  have o: "t ! 0 \<noteq> None" "2 \<le> length t" using t by (auto simp: std_fds_def)
  have "T ! 0 \<noteq> None" if "0 < k" using that o i by (auto simp: T_def nth_list_update_if)
  then have "\<forall>m < k. T ! m \<noteq> None" using below_one[OF k] by metis
  then show "free_fd T = Some k" using k o i by (simp add: first_idx_Some T_def)
  have "T ! e = Some (if e = i then r else w)" using e k i by (auto simp: T_def nth_list_update_if)
  then show "T[k := T ! e, i := None, j := None] = t[k := Some (if e = i then r else w)]"
    using i k by (intro nth_equalityI) (auto simp: T_def nth_list_update_if)
qed

fun redirs_ok :: "string cmd \<Rightarrow> bool" where
  "redirs_ok (EXEC ws) = True"
| "redirs_ok (REDIR c f mode fd) = (fd \<le> 1 \<and> redirs_ok c)"
| "redirs_ok (PIPE c d) = (redirs_ok c \<and> redirs_ok d)"
| "redirs_ok (LIST c d) = (redirs_ok c \<and> redirs_ok d)"
| "redirs_ok (BACK c) = redirs_ok c"

lemma wf_redirs: "wf_cmd c \<Longrightarrow> redirs_ok c"
  by (induction c) (auto simp: redir_ok_def)

lemma runcmd_meaning:
  "redirs_ok c \<Longrightarrow> std_fds t \<Longrightarrow> spawn os (runcmd c) p t = meaning os c p t"
proof (induction c arbitrary: p t)
  case (EXEC ws)
  then show ?case by (cases ws) simp_all
next
  case (REDIR c f mode fd)
  have o: "t ! 0 \<noteq> None" "t ! 1 \<noteq> None" "2 \<le> length t" using REDIR.prems(2) by (auto simp: std_fds_def)
  have fd: "fd \<le> 1" using REDIR.prems(1) by simp
  then have "\<forall>m < fd. t[fd := None] ! m \<noteq> None" using below_one[OF fd] o(1) by (metis nth_list_update_neq less_irrefl)
  then have "free_fd (t[fd := None]) = Some fd" using fd o by (simp add: first_idx_Some)
  then show ?case using REDIR.IH[of "t[fd := Some (Opened f mode)]" p] REDIR.prems std_fds_upd[OF REDIR.prems(2) fd] by simp
next
  case (PIPE l r)
  obtain i j where ij: "free_fd t = Some i" "\<And>x. free_fd (t[i := Some x]) = Some j" "2 \<le> i" "2 \<le> j" "i \<noteq> j" "i < length t" "j < length t"
    "t ! i = None" "t ! j = None" using std_pipe[OF PIPE.prems(2)] by blast
  let ?T = "t[i := Some (ReadEnd p), j := Some (WriteEnd p)]"
  note c1 = child_fds[OF PIPE.prems(2) ij(3-), of 1 j "ReadEnd p" "WriteEnd p"]
  note c0 = child_fds[OF PIPE.prems(2) ij(3-), of 0 i "ReadEnd p" "WriteEnd p"]
  have s: "std_fds (t[1 := Some (WriteEnd p)])" "std_fds (t[0 := Some (ReadEnd p)])" using std_fds_upd[OF PIPE.prems(2)] by simp_all
  have "spawn os (runcmd l) (0 # 2 # p) (t[1 := Some (WriteEnd p)]) = meaning os l (0 # 2 # p) (t[1 := Some (WriteEnd p)])"
    "spawn os (runcmd r) (0 # 1 # 2 # p) (t[0 := Some (ReadEnd p)]) = meaning os r (0 # 1 # 2 # p) (t[0 := Some (ReadEnd p)])"
    using PIPE s by simp_all
  then show ?case using ij(1,2,5) c1 c0 by (simp add: fork1_def)
qed (simp_all add: fork1_def)

text \<open>
  C33. The shell runs a line as the command it is: on the text of a well-formed command, with a newline behind it, the child of the shell executes
  exactly the programs of the command, each with the descriptors the command gives it (files that were
  redirected, one end of a pipe on either side of \<open>|\<close>) and with no other end of a pipe left open; a program behind a
  file that cannot be opened is not run.
\<close>

theorem shell_runs_line:
  assumes "wf_cmd c" "std_fds t" "take 3 (show_cmd 0 c @ [CHR 0x0a]) \<noteq> ''cd ''"
  shows "spawn os (sh_main [show_cmd 0 c @ [CHR 0x0a]]) p t = meaning os c (0 # p) t"
proof -
  have "white (CHR 0x0a)" by (simp add: white_def whitespace_def)
  then have "parsecmd (show_cmd 0 c @ [CHR 0x0a]) = POk c []" using parsecmd_reads[OF assms(1)] by simp
  then show ?thesis using runcmd_meaning[OF wf_redirs[OF assms(1)] assms(2), of os "0 # p"] assms(3) by (simp add: fork1_def)
qed

text \<open>A pipe whose second command has its output redirected, on a console with ten free descriptors.\<close>

theorem shell_runs_line_witness:
  "let t = replicate 3 (Some (Inherited 0)) @ replicate 10 None; os = \<lparr>can_exec = \<lambda>_. True, can_open = \<lambda>_ _. True\<rparr> in
    spawn os (sh_main [''cat a |wc >b '' @ [CHR 0x0a]]) [] t
      = [([''cat'', ''a''], t[1 := Some (WriteEnd [0])]),
         ([''wc''], t[0 := Some (ReadEnd [0]), 1 := Some (Opened ''b'' (or O_WRONLY O_CREATE))])]"
proof -
  let ?c = "PIPE (EXEC [''cat'', ''a'']) (REDIR (EXEC [''wc'']) ''b'' (or O_WRONLY O_CREATE) 1)"
  let ?t = "replicate 3 (Some (Inherited 0)) @ replicate 10 None" and ?os = "\<lparr>can_exec = \<lambda>_. True, can_open = \<lambda>_ _. True\<rparr>"
  have s: "show_cmd 0 ?c = ''cat a |wc >b ''" by (simp add: show_word_def show_redir_def)
  have "list_all word [''cat'', ''a'', ''wc'', ''b'']" by code_simp
  then have w: "wf_cmd ?c" by (simp add: redir_ok_def MAXARGS_def)
  have "3 < (4 :: nat) \<and> 4 < length ?t \<and> ?t ! 3 = None \<and> ?t ! 4 = None" by (simp add: nth_append nth_Cons')
  then have t: "std_fds ?t" unfolding std_fds_def by (intro conjI exI[of _ 3] exI[of _ 4]) (auto simp: nth_append nth_Cons')
  have n: "take 3 (show_cmd 0 ?c @ [CHR 0x0a]) \<noteq> ''cd ''" unfolding s by (simp add: take_Cons')
  show ?thesis using shell_runs_line[OF w t n, of ?os "[]"] unfolding s by (simp add: Let_def)
qed

end
