(* ===== verification/Mkfs.thy ===== *)
theory Mkfs
  imports Dir
begin

text \<open>
  The program that builds the initial file system (mkfs.c). The image is a file of \<open>nsect\<close> sectors, the rest
  of \<open>img\<close> is zero: \<open>wsect\<close> behind the end makes the file longer, \<open>rsect\<close> behind it fails, which ends the program. The files
  to copy are a parameter: a name and what the calls of \<open>read\<close> return for it, or \<open>None\<close> where \<open>open\<close> fails.
  \<open>exit(1)\<close> and a failed \<open>assert\<close> are the outcome \<open>Panic\<close>. \<open>xint\<close> and \<open>xshort\<close> are the identity on the machine.
\<close>

definition NINODES :: nat where "NINODES = 200"
definition nbitmap :: nat where "nbitmap = FSSIZE div (BSIZE * 8) + 1"
definition ninodeblocks :: nat where "ninodeblocks = NINODES div IPB + 1"
definition nmeta :: nat where "nmeta = 2 + LOGSIZE + ninodeblocks + nbitmap"

definition mk_sb :: superblock where
  "mk_sb = \<lparr>sb_size = FSSIZE, sb_nblocks = FSSIZE - nmeta, sb_ninodes = NINODES, sb_nlog = LOGSIZE, sb_logstart = 2,
     sb_inodestart = 2 + LOGSIZE, sb_bmapstart = 2 + LOGSIZE + ninodeblocks\<rparr>"

record mkst =
  img :: "nat \<Rightarrow> block"
  nsect :: nat
  freeinode :: nat
  freeblock :: nat

type_synonym 'a mkres = "('a, mkst) res"

definition zeroes :: block where "zeroes = replicate BSIZE 0"

definition wsect :: "nat \<Rightarrow> block \<Rightarrow> mkst \<Rightarrow> mkst" where
  "wsect sec buf s = s\<lparr>img := (img s)(sec := buf), nsect := max (nsect s) (sec + 1)\<rparr>"

definition rsect :: "nat \<Rightarrow> mkst \<Rightarrow> block mkres" where
  "rsect sec s = (if sec < nsect s then Ok (img s sec) s else Panic ''read'')"

definition mk_iblock :: "nat \<Rightarrow> nat" where
  "mk_iblock inum = uadd (inum div IPB) (sb_inodestart mk_sb)"

definition rinode :: "nat \<Rightarrow> mkst \<Rightarrow> dinode mkres" where
  "rinode inum s = kbind (rsect (mk_iblock inum) s) (\<lambda>buf s. Ok (get_dinode (inum mod IPB) buf) s)"

definition winode :: "nat \<Rightarrow> dinode \<Rightarrow> mkst \<Rightarrow> unit mkres" where
  "winode inum ip s = kbind (rsect (mk_iblock inum) s) (\<lambda>buf s.
     Ok () (wsect (mk_iblock inum) (put_dinode (inum mod IPB) ip buf) s))"

definition mk_ialloc :: "int \<Rightarrow> mkst \<Rightarrow> nat mkres" where
  "mk_ialloc type s = (let inum = freeinode s; s = s\<lparr>freeinode := uadd inum 1\<rparr> in
     kbind (winode inum (zero_dinode\<lparr>d_type := type, d_nlink := 1, d_size := 0\<rparr>) s) (\<lambda>_ s. Ok inum s))"

definition mk_balloc :: "nat \<Rightarrow> mkst \<Rightarrow> unit mkres" where
  "mk_balloc used s = (if \<not> used < BSIZE * 8 then Panic ''assert''
     else let buf = foldl (\<lambda>buf i. buf[i div 8 := or (buf ! (i div 8)) (push_bit (i mod 8) 1)]) zeroes [0..<used] in
       Ok () (wsect (sb_bmapstart mk_sb) buf s))"

text \<open>\<open>freeblock++\<close>.\<close>

definition new_block :: "mkst \<Rightarrow> nat \<times> mkst" where
  "new_block s = (freeblock s, s\<lparr>freeblock := uadd (freeblock s) 1\<rparr>)"

definition set_addr :: "nat \<Rightarrow> nat \<Rightarrow> dinode \<Rightarrow> dinode" where
  "set_addr i b din = din\<lparr>d_addrs := (d_addrs din)[i := b]\<rparr>"

text \<open>
  The block for block number \<open>fbn\<close> of the file. The array \<open>indirect\<close> has \<open>NINDIRECT\<close> entries, but \<open>fbn\<close> is only
  compared with \<open>MAXFILE\<close>.
\<close>

definition iappend_block :: "nat \<Rightarrow> dinode \<Rightarrow> mkst \<Rightarrow> (nat \<times> dinode) mkres" where
  "iappend_block fbn din s = (if fbn < NDIRECT
     then let (din, s) = (if d_addrs din ! fbn = 0 then let (b, s) = new_block s in (set_addr fbn b din, s) else (din, s)) in
       Ok (d_addrs din ! fbn, din) s
     else let (din, s) = (if d_addrs din ! NDIRECT = 0 then let (b, s) = new_block s in (set_addr NDIRECT b din, s) else (din, s)) in
       kbind (rsect (d_addrs din ! NDIRECT) s) (\<lambda>indirect s.
       kbind (kguard (fbn - NDIRECT < NINDIRECT) s) (\<lambda>_ s.
       let (indirect, s) = (if word_at indirect (fbn - NDIRECT) = 0
           then let (b, s) = new_block s; indirect = set_word (fbn - NDIRECT) b indirect in
             (indirect, wsect (d_addrs din ! NDIRECT) indirect s)
           else (indirect, s)) in
       Ok (word_at indirect (fbn - NDIRECT), din) s)))"

text \<open>The loop of \<open>iappend\<close>, for the bytes that are left at \<open>p\<close>; the assertion keeps \<open>off\<close> far below 2 ^ 32.\<close>

function iappend_loop :: "nat \<Rightarrow> u8 list \<Rightarrow> dinode \<Rightarrow> mkst \<Rightarrow> (nat \<times> dinode) mkres" where
  "iappend_loop off p din s = (if p = [] then Ok (off, din) s
     else let fbn = off div BSIZE in
       kbind (kassert (fbn < MAXFILE) ''assert'' s) (\<lambda>_ s.
       kbind (iappend_block fbn din s) (\<lambda>(x, din) s.
       let n1 = min (length p) ((fbn + 1) * BSIZE - off) in
       kbind (rsect x s) (\<lambda>buf s.
       iappend_loop (off + n1) (drop n1 p) din (wsect x (put_bytes (off - fbn * BSIZE) (take n1 p) buf) s)))))"
  by pat_completeness auto
termination
proof (relation "measure (\<lambda>(_, p, _). length p)")
  fix off :: nat and p :: "u8 list" and din :: dinode and s and fbn x2 and x :: "nat \<times> dinode" and y z n1 xa and t u xb
  assume p: "p \<noteq> []" "fbn = off div BSIZE" "n1 = min (length p) ((fbn + 1) * BSIZE - off)"
  have "off < (fbn + 1) * BSIZE" unfolding p(2) by (simp add: BSIZE_def)
  then have "0 < n1" using p by simp
  then show "((off + n1, drop n1 p, z, wsect y (put_bytes (off - fbn * BSIZE) (take n1 p) xa) xb), off, p, din, s)
      \<in> measure (\<lambda>(_, p, _). length p)" using p(1) by simp
qed simp

declare iappend_loop.simps [simp del]

definition iappend :: "nat \<Rightarrow> u8 list \<Rightarrow> mkst \<Rightarrow> unit mkres" where
  "iappend inum p s = kbind (rinode inum s) (\<lambda>din s.
     kbind (iappend_loop (d_size din) p din s) (\<lambda>(off, din) s.
     winode inum (din\<lparr>d_size := off\<rparr>) s))"

subsection \<open>main\<close>

text \<open>The names are without their final NUL.\<close>

definition add_file :: "u8 list \<times> u8 list list option \<Rightarrow> mkst \<Rightarrow> unit mkres" where
  "add_file f s = (case f of (nm, r) \<Rightarrow>
     kbind (kassert (47 \<notin> set nm) ''assert'' s) (\<lambda>_ s.
     case r of None \<Rightarrow> Panic ''open'' | Some chunks \<Rightarrow>
     let nm = (if nm \<noteq> [] \<and> hd nm = 95 then tl nm else nm) in
     kbind (mk_ialloc T_FILE s) (\<lambda>inum s.
     case strncpy (nm @ [0]) DIRSIZ of None \<Rightarrow> Undef | Some name \<Rightarrow>
     kbind (iappend ROOTINO (mk_dirent inum name) s) (\<lambda>_ s.
     kfor chunks (iappend inum) s))))"

definition sb_block :: block where
  "sb_block = put32 24 (sb_bmapstart mk_sb) (put32 20 (sb_inodestart mk_sb) (put32 16 (sb_logstart mk_sb)
     (put32 12 (sb_nlog mk_sb) (put32 8 (sb_ninodes mk_sb) (put32 4 (sb_nblocks mk_sb)
     (put32 0 (sb_size mk_sb) zeroes))))))"

definition fix_root :: "mkst \<Rightarrow> unit mkres" where
  "fix_root s = kbind (rinode ROOTINO s) (\<lambda>din s.
     winode ROOTINO (din\<lparr>d_size := (d_size din div BSIZE + 1) * BSIZE\<rparr>) s)"

definition mkfs :: "(u8 list \<times> u8 list list option) list \<Rightarrow> unit mkres" where
  "mkfs fs =
     (let s = \<lparr>img = (\<lambda>_. zeroes), nsect = 0, freeinode = 1, freeblock = nmeta\<rparr>;
          s = foldl (\<lambda>s i. wsect i zeroes s) s [0..<FSSIZE];
          s = wsect 1 sb_block s in
     kbind (mk_ialloc T_DIR s) (\<lambda>rootino s.
     kbind (kassert (rootino = ROOTINO) ''assert'' s) (\<lambda>_ s.
     kbind (iappend rootino (mk_dirent rootino (46 # replicate 13 0)) s) (\<lambda>_ s.
     kbind (iappend rootino (mk_dirent rootino (46 # 46 # replicate 12 0)) s) (\<lambda>_ s.
     kbind (kfor fs add_file s) (\<lambda>_ s.
     kbind (fix_root s) (\<lambda>_ s.
     mk_balloc (freeblock s) s)))))))"

end
