(* ===== verification/MkfsSpec.thy ===== *)
theory MkfsSpec
  imports Mkfs WriteSpec
begin

text \<open>
  The image under construction: \<open>mk_ok\<close> says of the blocks behind the metadata that those from \<open>freeblock\<close> on
  are zero, that the trees of the inodes are disjoint and hold the bytes of the files, and nothing behind their ends.
\<close>

lemmas mk_defs = NINODES_def nbitmap_def ninodeblocks_def nmeta_def param_defs

lemma nmeta_eq: "nmeta = 173"
  by (simp add: mk_defs)

lemma mk_sb_eq [simp]:
  "sb_size mk_sb = 100000" "sb_ninodes mk_sb = 200" "sb_logstart mk_sb = 2" "sb_inodestart mk_sb = 122" "sb_bmapstart mk_sb = 148"
  by (simp_all add: mk_sb_def mk_defs)

text \<open>The longest file the program can write.\<close>

definition mk_max :: nat where
  "mk_max = (NDIRECT + NINDIRECT) * BSIZE"

lemma mk_max_blk: "x < mk_max \<Longrightarrow> x div BSIZE < NDIRECT + NINDIRECT \<and> x div BSIZE < MAXFILE"
  by (simp add: mk_max_def less_mult_imp_div_less param_defs)

definition data_node :: "(nat \<Rightarrow> block) \<Rightarrow> nat list \<Rightarrow> nat \<Rightarrow> nat" where
  "data_node v as x = node v as (bpath (x div BSIZE))"

definition mk_ok :: "(nat \<Rightarrow> block) \<Rightarrow> nat \<Rightarrow> nat set \<Rightarrow> (nat \<Rightarrow> nat list) \<Rightarrow> (nat \<Rightarrow> u8 list) \<Rightarrow> bool" where
  "mk_ok v fb N A B \<longleftrightarrow> nmeta \<le> fb \<and> (\<forall>b \<ge> nmeta. length (v b) = BSIZE) \<and> (\<forall>b \<ge> fb. v b = zeroes)
     \<and> (\<forall>n \<in> N. length (A n) = 13 \<and> length (B n) \<le> mk_max
          \<and> (\<forall>p. tpath p \<longrightarrow> node v (A n) p \<noteq> 0 \<longrightarrow> nmeta \<le> node v (A n) p \<and> node v (A n) p < fb)
          \<and> (\<forall>x < length (B n). data_node v (A n) x \<noteq> 0)
          \<and> (\<forall>x < mk_max. data_node v (A n) x \<noteq> 0 \<longrightarrow> v (data_node v (A n) x) ! (x mod BSIZE) = (if x < length (B n) then B n ! x else 0)))
     \<and> (\<forall>n \<in> N. \<forall>m \<in> N. \<forall>p q. tpath p \<longrightarrow> tpath q \<longrightarrow> node v (A n) p \<noteq> 0 \<longrightarrow> node v (A n) p = node v (A m) q \<longrightarrow> n = m \<and> p = q)"

lemma mk_okD:
  assumes "mk_ok v fb N A B"
  shows "nmeta \<le> fb" "0 < fb" "nmeta \<le> b \<Longrightarrow> length (v b) = BSIZE" "fb \<le> b \<Longrightarrow> v b = zeroes"
    "n \<in> N \<Longrightarrow> length (A n) = 13" "n \<in> N \<Longrightarrow> length (B n) \<le> mk_max"
    "n \<in> N \<Longrightarrow> tpath p \<Longrightarrow> node v (A n) p \<noteq> 0 \<Longrightarrow> nmeta \<le> node v (A n) p \<and> node v (A n) p < fb"
    "n \<in> N \<Longrightarrow> x < length (B n) \<Longrightarrow> data_node v (A n) x \<noteq> 0"
    "n \<in> N \<Longrightarrow> x < mk_max \<Longrightarrow> data_node v (A n) x \<noteq> 0 \<Longrightarrow> v (data_node v (A n) x) ! (x mod BSIZE) = (if x < length (B n) then B n ! x else 0)"
    "n \<in> N \<Longrightarrow> m \<in> N \<Longrightarrow> tpath p \<Longrightarrow> tpath q \<Longrightarrow> node v (A n) p \<noteq> 0 \<Longrightarrow> node v (A n) p = node v (A m) q \<Longrightarrow> n = m \<and> p = q"
proof -
  show "nmeta \<le> fb" using assms unfolding mk_ok_def by blast
  then show "0 < fb" by (simp add: nmeta_eq)
qed (use assms in \<open>unfold mk_ok_def, blast+\<close>)

lemma data_path: "x < mk_max \<Longrightarrow> tpath (bpath (x div BSIZE)) \<and> \<not> inner (bpath (x div BSIZE))"
  using bpath_full mk_max_blk by blast

text \<open>Nodes depend on the indirect blocks only.\<close>

lemma node_same:
  assumes "\<And>q. inner q \<Longrightarrow> node v as q \<noteq> 0 \<Longrightarrow> v' (node v as q) = v (node v as q)" "tpath p"
  shows "node v' as p = node v as p"
proof (rule node_cong)
  fix "is" i is' assume "snd p = is @ i # is'" "node v as (fst p, is) \<noteq> 0"
  then show "v (node v as (fst p, is)) = v' (node v as (fst p, is))"
    using assms(1)[of "(fst p, is)"] assms(2) by (auto simp: inner_def tpath_def)
qed simp

subsection \<open>Two steps\<close>

text \<open>A new block at the path \<open>p\<close> of inode \<open>n\<close>; only the indirect block above it changes.\<close>

lemma mk_ok_alloc:
  assumes I: "mk_ok v fb N A B" and n: "n \<in> N" and p: "tpath p" and none: "node v (A n) p = 0"
    and par: "snd p \<noteq> [] \<Longrightarrow> node v (A n) (fst p, butlast (snd p)) \<noteq> 0"
    and ins: "put_at v (A n) p fb v' as'" and len: "length as' = 13" "\<And>b. nmeta \<le> b \<Longrightarrow> length (v' b) = BSIZE"
    and same: "\<And>b. nmeta \<le> b \<Longrightarrow> snd p = [] \<or> b \<noteq> node v (A n) (fst p, butlast (snd p)) \<Longrightarrow> v' b = v b"
  shows "mk_ok v' (fb + 1) N (A(n := as')) B"
    "m \<in> N \<Longrightarrow> tpath q \<Longrightarrow> node v' ((A(n := as')) m) q = (if m = n \<and> q = p then fb else node v (A m) q)"
proof -
  let ?A = "A(n := as')" and ?u = "(fst p, butlast (snd p))"
  note D = mk_okD[OF I]
  have iu: "snd p \<noteq> [] \<Longrightarrow> inner ?u" using p by (cases p; cases "snd p" rule: rev_cases) (auto simp: tpath_def inner_def)
  have own: "node v' as' q = (if q = p then fb else node v (A n) q)" if q: "tpath q" for q
  proof (rule node_put_at[OF ins p D(5)[OF n] _ none par])
    show "fb \<noteq> 0" using D(2) by simp
    show "node v (A n) q \<noteq> fb" if "tpath q" for q using D(2) D(7)[OF n that] by (cases "node v (A n) q = 0") auto
    show "tpath q \<Longrightarrow> tpath q' \<Longrightarrow> node v (A n) q \<noteq> 0 \<Longrightarrow> node v (A n) q = node v (A n) q' \<Longrightarrow> q = q'" for q q'
      using D(10)[OF n n] by blast
    show "v' (node v (A n) q) = v (node v (A n) q)" if "inner q" "node v (A n) q \<noteq> 0" "snd p = [] \<or> q \<noteq> ?u" for q
    proof (rule same)
      show "nmeta \<le> node v (A n) q" using D(7)[OF n inner_tpath[OF that(1)] that(2)] by blast
      show "snd p = [] \<or> node v (A n) q \<noteq> node v (A n) ?u"
        using that iu inner_tpath D(10)[OF n n inner_tpath[OF that(1)] _ that(2), of ?u] by blast
    qed
  qed (use q in simp_all)
  have other: "node v' (A m) q = node v (A m) q" if m: "m \<in> N" "m \<noteq> n" and q: "tpath q" for m q
  proof (rule node_same[OF _ q])
    fix q assume "inner q" "node v (A m) q \<noteq> 0"
    then show "v' (node v (A m) q) = v (node v (A m) q)"
      using same[of "node v (A m) q"] D(7)[OF m(1) inner_tpath] D(10)[OF m(1) n inner_tpath, of q ?u] iu inner_tpath m(2) by blast
  qed
  show all: "node v' (?A m) q = (if m = n \<and> q = p then fb else node v (A m) q)" if "m \<in> N" "tpath q" for m q
    using own other that by (cases "m = n") simp_all
  have zero: "v' b = zeroes" if "fb \<le> b" for b
  proof -
    have "b \<noteq> node v (A n) ?u" if "snd p \<noteq> []"
      using D(7)[OF n inner_tpath[OF iu[OF that]] par[OF that]] \<open>fb \<le> b\<close> by auto
    then have "v' b = v b" using same[of b] that D(1) by (meson order_trans)
    then show ?thesis using D(4)[OF that] by simp
  qed
  have bytes: "v' (data_node v' (?A m) x) ! (x mod BSIZE) = (if x < length (B m) then B m ! x else 0)"
    if m: "m \<in> N" "x < mk_max" "data_node v' (?A m) x \<noteq> 0" for m x
  proof -
    let ?q = "bpath (x div BSIZE)"
    note q = data_path[OF m(2)]
    show ?thesis
    proof (cases "m = n \<and> ?q = p")
      case True
      then have "data_node v (A m) x = 0" using none by (simp add: data_node_def)
      then have "\<not> x < length (B m)" using D(8)[OF m(1)] by metis
      moreover have "data_node v' (?A m) x = fb" unfolding data_node_def using all[OF m(1)] q True by simp
      ultimately show ?thesis using zero[of fb] by (simp add: zeroes_def BSIZE_def)
    next
      case False
      then have e: "data_node v' (?A m) x = data_node v (A m) x" unfolding data_node_def using all[OF m(1)] q by auto
      then have nz: "data_node v (A m) x \<noteq> 0" using m(3) by simp
      have "v' (data_node v (A m) x) = v (data_node v (A m) x)"
      proof (rule same)
        show "nmeta \<le> data_node v (A m) x" using D(7)[OF m(1), of ?q] q nz unfolding data_node_def by blast
        show "snd p = [] \<or> data_node v (A m) x \<noteq> node v (A n) ?u"
          using D(10)[OF m(1) n, of ?q ?u] q nz iu inner_tpath unfolding data_node_def by metis
      qed
      then show ?thesis using D(9)[OF m(1,2) nz] e by simp
    qed
  qed
  show "mk_ok v' (fb + 1) N ?A B"
    unfolding mk_ok_def
  proof (intro conjI ballI allI impI)
    fix m x assume "m \<in> N" "x < mk_max" "data_node v' (?A m) x \<noteq> 0"
    then show "v' (data_node v' (?A m) x) ! (x mod BSIZE) = (if x < length (B m) then B m ! x else 0)" by (rule bytes)
  next
    fix m x assume m: "m \<in> N" "x < length (B m)"
    then have t: "tpath (bpath (x div BSIZE))" using D(6)[of m] data_path by (meson less_le_trans)
    show "data_node v' (?A m) x \<noteq> 0" unfolding data_node_def all[OF m(1) t]
      using D(8)[OF m] D(2) by (simp add: data_node_def)
  next
    fix m q assume m: "m \<in> N" "tpath q" "node v' (?A m) q \<noteq> 0"
    show "nmeta \<le> node v' (?A m) q" "node v' (?A m) q < fb + 1"
      using D(1) D(7)[OF m(1,2)] m(3) unfolding all[OF m(1,2)] by (auto split: if_splits)
  next
    fix m k q q' assume h: "m \<in> N" "k \<in> N" "tpath q" "tpath q'" "node v' (?A m) q \<noteq> 0" "node v' (?A m) q = node v' (?A k) q'"
    have "m = k \<and> q = q'"
      using h(5,6) D(7)[OF h(1,3)] D(7)[OF h(2,4)] D(10)[OF h(1-4)] D(2) unfolding all[OF h(1,3)] all[OF h(2,4)]
      by (auto split: if_splits)
    then show "m = k" "q = q'" by blast+
  qed (use D len zero in \<open>auto simp: nmeta_eq\<close>)
qed

text \<open>Bytes appended to inode \<open>n\<close> in the block of its end.\<close>

lemma mk_ok_append:
  assumes I: "mk_ok v fb N A B" and n: "n \<in> N" and x: "data_node v (A n) (length (B n)) = x" "x \<noteq> 0"
    and c: "length (B n) mod BSIZE + length c \<le> BSIZE" "length (B n) + length c \<le> mk_max" "c \<noteq> []"
  shows "mk_ok (v(x := put_bytes (length (B n) mod BSIZE) c (v x))) fb N A (B(n := B n @ c))"
proof -
  let ?l = "length (B n)" and ?B = "B(n := B n @ c)"
  let ?v = "v(x := put_bytes (?l mod BSIZE) c (v x))"
  note D = mk_okD[OF I]
  have l: "?l < mk_max" using c(2,3) by (cases c) simp_all
  note pl = data_path[OF l]
  have xb: "nmeta \<le> x" "x < fb" using D(7)[OF n, of "bpath (?l div BSIZE)"] pl x unfolding data_node_def by blast+
  have lx: "length (v x) = BSIZE" by (rule D(3)[OF xb(1)])
  have nd: "node ?v (A m) q = node v (A m) q" if m: "m \<in> N" and q: "tpath q" for m q
  proof (rule node_same[OF _ q])
    fix q assume q: "inner q" "node v (A m) q \<noteq> 0"
    then have "node v (A m) q \<noteq> x"
      using D(10)[OF m n inner_tpath[OF q(1)], of "bpath (?l div BSIZE)"] pl x(1) unfolding data_node_def by metis
    then show "?v (node v (A m) q) = v (node v (A m) q)" by simp
  qed
  have dn: "data_node ?v (A m) y = data_node v (A m) y" if "m \<in> N" "y < mk_max" for m y
    unfolding data_node_def using nd[OF that(1)] data_path[OF that(2)] by blast
  have bytes: "?v (data_node v (A m) y) ! (y mod BSIZE) = (if y < length (?B m) then ?B m ! y else 0)"
    if m: "m \<in> N" "y < mk_max" "data_node v (A m) y \<noteq> 0" for m y
  proof (cases "data_node v (A m) y = x")
    case True
    have "m = n \<and> bpath (y div BSIZE) = bpath (?l div BSIZE)"
      using D(10)[OF m(1) n, of "bpath (y div BSIZE)" "bpath (?l div BSIZE)"] True x(1) m(3) pl data_path[OF m(2)]
      unfolding data_node_def by metis
    then have mn: "m = n" and "y div BSIZE = ?l div BSIZE" using bpath_inj mk_max_blk[OF m(2)] mk_max_blk[OF l] by blast+
    define d where "d = ?l div BSIZE * BSIZE"
    have "y = d + y mod BSIZE" "?l = d + ?l mod BSIZE"
      unfolding d_def \<open>y div BSIZE = ?l div BSIZE\<close>[symmetric] using \<open>y div BSIZE = ?l div BSIZE\<close> by (metis div_mult_mod_eq)+
    then have yl: "y < ?l \<longleftrightarrow> y mod BSIZE < ?l mod BSIZE" "y - ?l = y mod BSIZE - ?l mod BSIZE"
      "y < ?l + length c \<longleftrightarrow> y mod BSIZE < ?l mod BSIZE + length c"
      by linarith+
    have ym: "y mod BSIZE < length (v x)" by (simp add: lx BSIZE_def)
    have "?v x ! (y mod BSIZE) = (if ?l mod BSIZE \<le> y mod BSIZE \<and> y mod BSIZE < ?l mod BSIZE + length c
        then c ! (y mod BSIZE - ?l mod BSIZE) else v x ! (y mod BSIZE))"
      using nth_put_bytes[OF c(1)[folded lx] ym] lx by simp
    also have "v x ! (y mod BSIZE) = (if y < ?l then B n ! y else 0)" using D(9)[OF m] True mn by simp
    finally have g: "?v x ! (y mod BSIZE) = (if ?l mod BSIZE \<le> y mod BSIZE \<and> y mod BSIZE < ?l mod BSIZE + length c
        then c ! (y mod BSIZE - ?l mod BSIZE) else if y < ?l then B n ! y else 0)" .
    show ?thesis unfolding True g using yl mn by (auto simp: nth_append)
  next
    case False
    have "\<not> (?l \<le> y \<and> y < ?l + length c)" if "m = n"
    proof
      assume y: "?l \<le> y \<and> y < ?l + length c"
      have "y div BSIZE = ?l div BSIZE"
      proof -
        have "y < (?l div BSIZE) * BSIZE + BSIZE" using y c(1) div_mult_mod_eq[of ?l BSIZE] by linarith
        then have "y div BSIZE \<le> ?l div BSIZE" by (simp add: BSIZE_def div_le_mono less_Suc_eq_le[symmetric] less_mult_imp_div_less)
        then show ?thesis using y div_le_mono[of ?l y BSIZE] by simp
      qed
      then show False using False x(1) that by (simp add: data_node_def)
    qed
    then show ?thesis using False D(9)[OF m] by (auto simp: nth_append)
  qed
  show ?thesis
    unfolding mk_ok_def
  proof (intro conjI ballI allI impI)
    fix m y assume m: "m \<in> N" "y < mk_max" "data_node ?v (A m) y \<noteq> 0"
    then show "?v (data_node ?v (A m) y) ! (y mod BSIZE) = (if y < length (?B m) then ?B m ! y else 0)"
      using bytes[OF m(1,2)] dn[OF m(1,2)] by simp
  next
    fix m y assume m: "m \<in> N" "y < length (?B m)"
    have y: "y < mk_max" using m D(6)[OF m(1)] c(2) by (auto split: if_splits)
    show "data_node ?v (A m) y \<noteq> 0"
    proof (cases "y < length (B m)")
      case True
      then show ?thesis using dn[OF m(1) y] D(8)[OF m(1)] by simp
    next
      case False
      then have mn: "m = n" using m(2) by (auto split: if_splits)
      then have "?l \<le> y" "y < ?l + length c" using m(2) False by simp_all
      then have "y < (?l div BSIZE) * BSIZE + BSIZE" using c(1) div_mult_mod_eq[of ?l BSIZE] by linarith
      then have "y div BSIZE \<le> ?l div BSIZE" by (simp add: BSIZE_def div_le_mono less_Suc_eq_le[symmetric] less_mult_imp_div_less)
      then have "y div BSIZE = ?l div BSIZE" using \<open>?l \<le> y\<close> div_le_mono[of ?l y BSIZE] by simp
      then show ?thesis using dn[OF m(1) y] x mn by (simp add: data_node_def)
    qed
  next
    fix m q assume m: "m \<in> N" "tpath q" "node ?v (A m) q \<noteq> 0"
    show "nmeta \<le> node ?v (A m) q" "node ?v (A m) q < fb" using D(7)[OF m(1,2)] m(3) nd[OF m(1,2)] by simp_all
  next
    fix m k q q' assume h: "m \<in> N" "k \<in> N" "tpath q" "tpath q'" "node ?v (A m) q \<noteq> 0" "node ?v (A m) q = node ?v (A k) q'"
    show "m = k" "q = q'" using h(5,6) D(10)[OF h(1-4)] unfolding nd[OF h(1,3)] nd[OF h(2,4)] by blast+
  next
    fix b assume "nmeta \<le> b"
    then show "length (?v b) = BSIZE" using D(3) lx c(1) by (simp add: length_put_bytes)
  qed (use D xb c(2) in auto)
qed

subsection \<open>The loop\<close>

text \<open>The number of blocks a file of \<open>l\<close> bytes takes.\<close>

definition nblk :: "nat \<Rightarrow> nat" where
  "nblk l = (l + 511) div 512 + (if l > 5120 then 1 else 0)"

lemma nblk_mono: "l \<le> m \<Longrightarrow> nblk l \<le> nblk m"
proof -
  assume l: "l \<le> m"
  then have "(l + 511) div 512 \<le> (m + 511) div 512" by (intro div_le_mono) simp
  then show ?thesis using l by (simp add: nblk_def)
qed

lemma bpath_simps:
  "fbn < NDIRECT \<Longrightarrow> bpath fbn = (fbn, [])"
  "NDIRECT \<le> fbn \<Longrightarrow> fbn < NDIRECT + NINDIRECT \<Longrightarrow> bpath fbn = (NDIRECT, [fbn - NDIRECT])"
  by (auto simp: bpath_def Let_def param_defs)

lemma tpath_simps: "r < 13 \<Longrightarrow> tpath (r, [])" "k < 128 \<Longrightarrow> tpath (NDIRECT, [k])" "inner (NDIRECT, [])"
  by (auto simp: tpath_def inner_def depth_def param_defs)

lemma node_child: "node v as (r, [k]) = (if as ! r = 0 then 0 else word_at (v (as ! r)) k)"
  using node_simps(2)[of v as r "[]" k] by simp

text \<open>What the loop keeps of the state, and what \<open>k\<close> more blocks change.\<close>

definition room :: "mkst \<Rightarrow> nat \<Rightarrow> bool" where
  "room s k \<longleftrightarrow> nsect s = FSSIZE \<and> freeblock s + k < 4096"

definition mk_same :: "mkst \<Rightarrow> mkst \<Rightarrow> bool" where
  "mk_same s t \<longleftrightarrow> nsect t = FSSIZE \<and> freeinode t = freeinode s \<and> (\<forall>b < nmeta. img t b = img s b)"

lemma room_uadd: "room s (Suc k) \<Longrightarrow> uadd (freeblock s) 1 = freeblock s + 1"
  by (simp add: room_def uadd_def)

lemma wsect_img: "sec < FSSIZE \<Longrightarrow> nsect s = FSSIZE \<Longrightarrow> wsect sec b s = s\<lparr>img := (img s)(sec := b)\<rparr>"
  by (simp add: wsect_def)

lemma alloc_root:
  assumes I: "mk_ok (img s) (freeblock s) N A B" and n: "n \<in> N" and k: "k < 13" "A n ! k = 0"
  shows "mk_ok (img s) (freeblock s + 1) N (A(n := (A n)[k := freeblock s])) B"
proof (rule mk_ok_alloc(1)[OF I n tpath_simps(1)[OF k(1)]])
  show "put_at (img s) (A n) (k, []) (freeblock s) (img s) ((A n)[k := freeblock s])"
    using mk_okD(4)[OF I] by (simp add: put_at_def zeroes_def)
qed (use mk_okD[OF I] n k in auto)

lemma alloc_child:
  assumes I: "mk_ok v fb N A B" and n: "n \<in> N" and k: "k < 128" and x: "A n ! NDIRECT = x" "x \<noteq> 0"
    and none: "word_at (v x) k = 0" and fb: "fb < 2 ^ 32"
  shows "mk_ok (v(x := set_word k fb (v x))) (fb + 1) N A B"
    "word_at (set_word k fb (v x)) k = fb"
proof -
  note D = mk_okD[OF I]
  have t: "tpath (NDIRECT, [])" by (rule inner_tpath[OF tpath_simps(3)])
  have xb: "nmeta \<le> x" "x < fb" using D(7)[OF n t] x by simp_all
  have l: "length (v x) = BSIZE" by (rule D(3)[OF xb(1)])
  then have w: "word_at (set_word k fb (v x)) j = (if j = k then fb else word_at (v x) j)" if "j < 128" for j
    using that k fb by (simp add: word_at_set_word)
  show "word_at (set_word k fb (v x)) k = fb" using w[OF k] by simp
  let ?v = "v(x := set_word k fb (v x))"
  have "mk_ok ?v (fb + 1) N (A(n := A n)) B"
  proof (rule mk_ok_alloc(1)[OF I n tpath_simps(2)[OF k]])
    show "put_at v (A n) (NDIRECT, [k]) fb ?v (A n)"
      using put_at_child[of v "A n" NDIRECT "[]" k fb ?v "A n"] w x D(4)[of fb] xb by (simp add: zeroes_def)
    show "node v (A n) (NDIRECT, [k]) = 0" by (simp add: node_child x(1) none)
  qed (use D n x l in auto)
  then show "mk_ok ?v (fb + 1) N A B" by simp
qed

lemma nblk_step:
  assumes "0 < j" "l mod BSIZE + j \<le> BSIZE"
  shows "nblk (l + j) = nblk l + (if l mod BSIZE = 0 then if l div BSIZE = NDIRECT then 2 else 1 else 0)"
proof -
  define q r where "q = l div 512" and "r = l mod 512"
  have l: "l = 512 * q + r" "r < 512" "l div BSIZE = q" "l mod BSIZE = r" by (simp_all add: q_def r_def BSIZE_def)
  have j: "0 < j" "r + j \<le> 512" using assms l by (simp_all add: BSIZE_def)
  have "(r + j + 511) div 512 = 1" by (rule div_nat_eqI) (use j in auto)
  moreover have "l + j + 511 = 512 * q + (r + j + 511)" using l by simp
  ultimately have 1: "(l + j + 511) div 512 = q + 1" by simp
  have 2: "(l + 511) div 512 = (if r = 0 then q else q + 1)"
  proof (cases "r = 0")
    case False
    then have "(r + 511) div 512 = 1" by (intro div_nat_eqI) (use l in auto)
    then show ?thesis using l False by (simp add: add.assoc)
  qed (use l in simp)
  have 3: "l + j > 5120 \<longleftrightarrow> q \<ge> 10" "l > 5120 \<longleftrightarrow> q > 10 \<or> q = 10 \<and> r \<noteq> 0" using l(1,2) j by auto
  show ?thesis unfolding nblk_def 1 2 3 l(3,4) by (auto simp: NDIRECT_def)
qed

text \<open>The part of \<open>iappend_block\<close> behind the indirect block.\<close>

lemma iappend_indirect:
  assumes I: "mk_ok (img s) (freeblock s) N A B" and n: "n \<in> N" and A: "A n = d_addrs din" and x: "A n ! NDIRECT = x" "x \<noteq> 0"
    and k: "k < NINDIRECT" and room: "room s (if word_at (img s x) k = 0 then 1 else 0)"
  shows "\<exists>y s'. kbind (rsect (d_addrs din ! NDIRECT) s) (\<lambda>indirect s.
       kbind (kguard (k < NINDIRECT) s) (\<lambda>_ s.
       let (indirect, s) = (if word_at indirect k = 0
           then let (b, s) = new_block s; indirect = set_word k b indirect in
             (indirect, wsect (d_addrs din ! NDIRECT) indirect s)
           else (indirect, s)) in
       Ok (word_at indirect k, din) s)) = Ok (y, din) s'
     \<and> mk_ok (img s') (freeblock s') N A B \<and> word_at (img s' x) k = y \<and> y \<noteq> 0
     \<and> freeblock s' = freeblock s + (if word_at (img s x) k = 0 then 1 else 0) \<and> mk_same s s'"
proof -
  note D = mk_okD[OF I]
  have k': "k < 128" using k by (simp add: param_defs)
  have xb: "nmeta \<le> x" "x < freeblock s" using D(7)[OF n inner_tpath[OF tpath_simps(3)]] x by simp_all
  then have xs: "x < FSSIZE" using room by (simp add: room_def param_defs split: if_splits)
  have ns: "nsect s = FSSIZE" using room by (simp add: room_def)
  have r: "rsect (d_addrs din ! NDIRECT) s = Ok (img s x) s" using x(1) A ns xs by (simp add: rsect_def)
  show ?thesis
  proof (cases "word_at (img s x) k = 0")
    case True
    then have u: "uadd (freeblock s) 1 = freeblock s + 1" and fb: "freeblock s < 2 ^ 32" using room room_uadd[of s 0]
      by (simp_all add: room_def One_nat_def)
    note c = alloc_child[OF I n k' x True fb]
    let ?s = "s\<lparr>freeblock := freeblock s + 1, img := (img s)(x := set_word k (freeblock s) (img s x))\<rparr>"
    show ?thesis unfolding r using x(1) A k True u c ns xs xb D(2)
      by (intro exI[of _ "freeblock s"] exI[of _ ?s])
        (auto simp: kguard_def new_block_def wsect_img mk_same_def Let_def)
  next
    case False
    then show ?thesis unfolding r using k I ns by (intro exI[of _ "word_at (img s x) k"] exI[of _ s]) (simp add: kguard_def mk_same_def)
  qed
qed

lemma mk_sameI: "nsect s = FSSIZE \<Longrightarrow> mk_same s s" "nsect s = FSSIZE \<Longrightarrow> mk_same s (s\<lparr>freeblock := k\<rparr>)"
  "mk_same (s\<lparr>freeblock := k\<rparr>) t = mk_same s t"
  by (auto simp: mk_same_def)

text \<open>One call of \<open>iappend_block\<close>: it allocates what is missing.\<close>

lemma iappend_block_ok:
  assumes I: "mk_ok (img s) (freeblock s) N A B" and n: "n \<in> N" and A: "A n = d_addrs din"
    and l: "length (B n) < mk_max" and j: "0 < j" "length (B n) mod BSIZE + j \<le> BSIZE"
    and room: "room s (nblk (length (B n) + j) - nblk (length (B n)))"
  shows "\<exists>x din' s'. iappend_block (length (B n) div BSIZE) din s = Ok (x, din') s'
    \<and> mk_ok (img s') (freeblock s') N (A(n := d_addrs din')) B \<and> data_node (img s') (d_addrs din') (length (B n)) = x \<and> x \<noteq> 0
    \<and> din' = din\<lparr>d_addrs := d_addrs din'\<rparr> \<and> freeblock s' + nblk (length (B n)) \<le> freeblock s + nblk (length (B n) + j) \<and> mk_same s s'"
proof -
  let ?l = "length (B n)"
  define fbn where "fbn = ?l div BSIZE"
  note D = mk_okD[OF I]
  have fbn: "fbn < NDIRECT + NINDIRECT" using mk_max_blk[OF l] by (simp add: fbn_def)
  have ns: "nsect s = FSSIZE" using room by (simp add: room_def)
  have l13: "length (d_addrs din) = 13" using D(5)[OF n] A by simp
  have old: "data_node (img s) (A n) ?l \<noteq> 0" if "?l mod BSIZE \<noteq> 0"
  proof -
    have "?l = fbn * BSIZE + ?l mod BSIZE" unfolding fbn_def by simp
    then have "?l - 1 = fbn * BSIZE + (?l mod BSIZE - 1)" using that by linarith
    moreover have "?l mod BSIZE - 1 < BSIZE" by (simp add: BSIZE_def less_imp_diff_less)
    ultimately have "(?l - 1) div BSIZE = fbn" by (simp add: BSIZE_def)
    moreover have "0 < ?l" using that by (cases ?l) simp_all
    ultimately show ?thesis using D(8)[OF n, of "?l - 1"] by (simp add: data_node_def fbn_def)
  qed
  note grows = nblk_step[OF j, folded fbn_def]
  show ?thesis
  proof (cases "fbn < NDIRECT")
    case True
    have dn: "data_node v as ?l = as ! fbn" for v as unfolding data_node_def fbn_def[symmetric] bpath_simps(1)[OF True] by simp
    have f13: "fbn < 13" using True by (simp add: NDIRECT_def)
    show ?thesis
    proof (cases "A n ! fbn = 0")
      case z: True
      then have "?l mod BSIZE = 0" using old dn by auto
      then have g: "nblk (?l + j) = nblk ?l + 1" using grows True by simp
      then have u: "uadd (freeblock s) 1 = freeblock s + 1" using room room_uadd[of s 0] by (simp add: One_nat_def)
      show ?thesis unfolding fbn_def[symmetric] dn
        using True z A u g l13 f13 alloc_root[OF I n f13 z] D(2) ns
        by (intro exI[of _ "freeblock s"] exI[of _ "set_addr fbn (freeblock s) din"] exI[of _ "s\<lparr>freeblock := freeblock s + 1\<rparr>"])
          (simp add: iappend_block_def new_block_def set_addr_def mk_sameI)
    next
      case z: False
      then show ?thesis unfolding fbn_def[symmetric] dn using True A I ns nblk_mono[of ?l "?l + j"]
        by (intro exI[of _ "A n ! fbn"] exI[of _ din] exI[of _ s]) (simp add: iappend_block_def mk_sameI fun_upd_idem)
    qed
  next
    case False
    let ?k = "fbn - NDIRECT"
    have k: "?k < NINDIRECT" using fbn False by (simp add: NDIRECT_def)
    have dn: "data_node v as ?l = (if as ! NDIRECT = 0 then 0 else word_at (v (as ! NDIRECT)) ?k)" for v as
      unfolding data_node_def fbn_def[symmetric] using bpath_simps(2)[OF _ fbn] False by (simp add: node_child)
    have ind: "A n ! NDIRECT \<noteq> 0" if "NDIRECT \<noteq> fbn"
    proof -
      have "11 \<le> fbn" using False that by (simp add: NDIRECT_def)
      then have "5120 < ?l" unfolding fbn_def by (simp add: BSIZE_def less_eq_div_iff_mult_less_eq)
      then have "data_node (img s) (A n) 5120 \<noteq> 0" by (rule D(8)[OF n])
      moreover have "bpath (5120 div BSIZE) = (NDIRECT, [0])" by (simp add: bpath_def param_defs)
      ultimately show ?thesis by (simp add: data_node_def node_child split: if_splits)
    qed
    define s1 where "s1 = (if A n ! NDIRECT = 0 then s\<lparr>freeblock := freeblock s + 1\<rparr> else s)"
    define din1 where "din1 = (if A n ! NDIRECT = 0 then set_addr NDIRECT (freeblock s) din else din)"
    have nd: "NDIRECT < 13" by (simp add: NDIRECT_def)
    have m0: "A n ! NDIRECT = 0 \<Longrightarrow> fbn = NDIRECT \<and> ?l mod BSIZE = 0" using ind old dn by auto
    have r2: "A n ! NDIRECT = 0 \<Longrightarrow> room s 2" using m0 grows room by simp
    have first: "(if d_addrs din ! NDIRECT = 0 then let (b, s) = new_block s in (set_addr NDIRECT b din, s) else (din, s)) = (din1, s1)"
    proof (cases "A n ! NDIRECT = 0")
      case True
      have "uadd (freeblock s) 1 = freeblock s + 1" using r2[OF True] room_uadd[of s 1] by (simp add: One_nat_def numeral_2_eq_2)
      then show ?thesis using True A by (simp add: s1_def din1_def new_block_def)
    qed (simp add: s1_def din1_def A)
    have I1: "mk_ok (img s1) (freeblock s1) N (A(n := d_addrs din1)) B"
      using alloc_root[OF I n nd] I A by (simp add: s1_def din1_def set_addr_def fun_upd_idem)
    have x: "d_addrs din1 ! NDIRECT \<noteq> 0" using D(2) A l13 nd by (simp add: din1_def set_addr_def)
    let ?x = "d_addrs din1 ! NDIRECT"
    have r1: "room s1 (if word_at (img s1 ?x) ?k = 0 then 1 else 0)"
    proof (cases "A n ! NDIRECT = 0")
      case True
      then show ?thesis using r2 by (auto simp: s1_def room_def)
    next
      case F: False
      have "?l mod BSIZE = 0" if "word_at (img s ?x) ?k = 0" using old dn F that A by (auto simp: din1_def split: if_splits)
      then show ?thesis using room grows F by (auto simp: s1_def room_def split: if_splits)
    qed
    have A1: "(A(n := d_addrs din1)) n = d_addrs din1" and x1: "(A(n := d_addrs din1)) n ! NDIRECT = ?x" by simp_all
    obtain y s' where y: "kbind (rsect (d_addrs din1 ! NDIRECT) s1) (\<lambda>indirect s.
       kbind (kguard (?k < NINDIRECT) s) (\<lambda>_ s.
       let (indirect, s) = (if word_at indirect ?k = 0
           then let (b, s) = new_block s; indirect = set_word ?k b indirect in
             (indirect, wsect (d_addrs din1 ! NDIRECT) indirect s)
           else (indirect, s)) in
       Ok (word_at indirect ?k, din1) s)) = Ok (y, din1) s'"
      and R: "mk_ok (img s') (freeblock s') N (A(n := d_addrs din1)) B" "word_at (img s' ?x) ?k = y" "y \<noteq> 0"
        "freeblock s' = freeblock s1 + (if word_at (img s1 ?x) ?k = 0 then 1 else 0)" "mk_same s1 s'"
      using iappend_indirect[OF I1 n A1 x1 x k r1] by blast
    have e: "iappend_block fbn din s = Ok (y, din1) s'"
      unfolding iappend_block_def first using False y by simp
    have c: "freeblock s' + nblk ?l \<le> freeblock s + nblk (?l + j)"
    proof (cases "A n ! NDIRECT = 0")
      case True
      then show ?thesis using R(4) m0 grows by (simp add: s1_def)
    next
      case F: False
      have "?l mod BSIZE = 0" if "word_at (img s ?x) ?k = 0" using old dn F that A by (auto simp: din1_def split: if_splits)
      then show ?thesis using R(4) grows F by (simp add: s1_def)
    qed
    have "mk_same s s'" using R(5) by (simp add: s1_def mk_sameI split: if_splits)
    then show ?thesis unfolding fbn_def[symmetric] dn using e R(1-3) x c
      by (intro exI[of _ y] exI[of _ din1] exI[of _ s']) (simp add: din1_def set_addr_def)
  qed
qed

lemma mk_same_trans: "mk_same s t \<Longrightarrow> mk_same t u \<Longrightarrow> mk_same s u"
  by (simp add: mk_same_def)

lemma iappend_loop_ok:
  assumes "mk_ok (img s) (freeblock s) N A B" "n \<in> N" "A n = d_addrs din" "length (B n) + length p \<le> mk_max"
    "room s (nblk (length (B n) + length p) - nblk (length (B n)))"
  shows "\<exists>din' s'. iappend_loop (length (B n)) p din s = Ok (length (B n) + length p, din') s'
    \<and> mk_ok (img s') (freeblock s') N (A(n := d_addrs din')) (B(n := B n @ p)) \<and> din' = din\<lparr>d_addrs := d_addrs din'\<rparr>
    \<and> freeblock s' + nblk (length (B n)) \<le> freeblock s + nblk (length (B n) + length p) \<and> mk_same s s'"
  using assms
proof (induction p arbitrary: s A B din rule: length_induct)
  case (1 p)
  note I = 1(2) and n = 1(3) and A = 1(4) and l = 1(5) and room = 1(6)
  let ?l = "length (B n)"
  show ?case
  proof (cases "p = []")
    case True
    have "A(n := d_addrs din) = A" "B(n := B n) = B" using A by auto
    then show ?thesis using True I room by (subst iappend_loop.simps) (auto simp: room_def mk_sameI intro!: exI[of _ din])
  next
    case False
    define n1 where "n1 = min (length p) ((?l div BSIZE + 1) * BSIZE - ?l)"
    have e: "?l = ?l div BSIZE * BSIZE + ?l mod BSIZE" "?l mod BSIZE < BSIZE" by (simp_all add: BSIZE_def)
    have lp: "0 < length p" using False by simp
    have ex: "(?l div BSIZE + 1) * BSIZE - ?l = BSIZE - ?l mod BSIZE" "?l - ?l div BSIZE * BSIZE = ?l mod BSIZE"
      unfolding distrib_right mult_1 using e(1) by linarith+
    have n1: "0 < n1" "?l mod BSIZE + n1 \<le> BSIZE" "n1 \<le> length p"
      unfolding n1_def ex(1) using e(2) lp by simp_all
    have lm: "?l < mk_max" using l lp by linarith
    have mono: "nblk (?l + n1) \<le> nblk (?l + length p)" by (rule nblk_mono) (use n1(3) in simp)
    have room1: "room s (nblk (?l + n1) - nblk ?l)" using room mono by (auto simp: room_def)
    obtain x din1 s1 where b: "iappend_block (?l div BSIZE) din s = Ok (x, din1) s1"
        "mk_ok (img s1) (freeblock s1) N (A(n := d_addrs din1)) B" "data_node (img s1) (d_addrs din1) ?l = x" "x \<noteq> 0"
        "din1 = din\<lparr>d_addrs := d_addrs din1\<rparr>" "freeblock s1 + nblk ?l \<le> freeblock s + nblk (?l + n1)" "mk_same s s1"
      using iappend_block_ok[OF I n A lm n1(1,2) room1] by auto
    let ?A = "A(n := d_addrs din1)" and ?c = "take n1 p"
    let ?B = "B(n := B n @ ?c)"
    let ?s = "wsect x (put_bytes (?l mod BSIZE) ?c (img s1 x)) s1"
    have ns: "nsect s1 = FSSIZE" using b(7) by (simp add: mk_same_def)
    have xb: "nmeta \<le> x" "x < freeblock s1"
      using mk_okD(7)[OF b(2) n, of "bpath (?l div BSIZE)"] data_path[OF lm] b(3,4) unfolding data_node_def by auto
    have fs: "freeblock s1 < 4096" using b(6) mono room by (auto simp: room_def)
    then have xs: "x < FSSIZE" using xb by (simp add: FSSIZE_def)
    have rs: "rsect x s1 = Ok (img s1 x) s1" using xs ns by (simp add: rsect_def)
    have se: "?s = s1\<lparr>img := (img s1)(x := put_bytes (?l mod BSIZE) ?c (img s1 x))\<rparr>" by (rule wsect_img[OF xs ns])
    have I2: "mk_ok (img ?s) (freeblock ?s) N ?A ?B"
      using mk_ok_append[OF b(2) n _ b(4), of ?c] b(3) n1 l False by (simp add: se min_absorb2)
    have lB: "length (?B n) = ?l + n1" using n1(3) by simp
    have lt: "length (drop n1 p) < length p" using n1 lp by simp
    have sum: "?l + n1 + length (drop n1 p) = ?l + length p" using n1(3) by simp
    have room2: "room ?s (nblk (length (?B n) + length (drop n1 p)) - nblk (length (?B n)))"
      unfolding lB sum using room b(6) mono nblk_mono[of ?l "?l + n1"] ns unfolding room_def se by (simp; linarith)
    obtain din' s' where h: "iappend_loop (length (?B n)) (drop n1 p) din1 ?s = Ok (?l + length p, din') s'"
        "mk_ok (img s') (freeblock s') N (?A(n := d_addrs din')) (?B(n := ?B n @ drop n1 p))" "din' = din1\<lparr>d_addrs := d_addrs din'\<rparr>"
        "freeblock s' + nblk (?l + n1) \<le> freeblock ?s + nblk (?l + length p)" "mk_same ?s s'"
      using 1(1)[rule_format, OF lt I2 n, of din1] l room2 unfolding lB sum by auto
    have k: "?l div BSIZE < MAXFILE" using mk_max_blk[OF lm] by blast
    have step: "iappend_loop ?l p din s = iappend_loop (?l + n1) (drop n1 p) din1 ?s"
      using False k b(1) rs unfolding iappend_loop.simps[of ?l p din s] by (simp add: kassert_def Let_def n1_def[symmetric] ex(2))
    have "mk_same s1 ?s" using ns xb by (simp add: se mk_same_def)
    then have "mk_same s s'" using b(7) h(5) mk_same_trans by blast
    moreover have "mk_ok (img s') (freeblock s') N (A(n := d_addrs din')) (B(n := B n @ p))" using h(2) by simp
    moreover have "din' = din\<lparr>d_addrs := d_addrs din'\<rparr>" using b(5) h(3) by (metis dinode.surjective dinode.update_convs(6))
    moreover have "freeblock s' + nblk ?l \<le> freeblock s + nblk (?l + length p)" using h(4) b(6) by (simp add: se)
    moreover have "iappend_loop ?l p din s = Ok (?l + length p, din') s'" unfolding step using h(1) lB by simp
    ultimately show ?thesis by blast
  qed
qed

subsection \<open>The inodes\<close>

definition mk_inode :: "(nat \<Rightarrow> block) \<Rightarrow> nat \<Rightarrow> dinode" where
  "mk_inode v n = get_dinode (n mod IPB) (v (mk_iblock n))"

lemma mk_iblock_eq: "n < NINODES \<Longrightarrow> mk_iblock n = 122 + n div 8"
  by (simp add: mk_iblock_def uadd_def mk_defs)

lemma mk_iblock_bounds: "n < NINODES \<Longrightarrow> 122 \<le> mk_iblock n \<and> mk_iblock n < 148"
  using div_le_mono[of n 200 8] by (simp add: mk_iblock_eq NINODES_def)

lemma mk_iblock_eq_iff: "n < NINODES \<Longrightarrow> m < NINODES \<Longrightarrow> mk_iblock n = mk_iblock m \<Longrightarrow> n mod IPB = m mod IPB \<Longrightarrow> n = m"
proof -
  assume h: "n < NINODES" "m < NINODES" "mk_iblock n = mk_iblock m" "n mod IPB = m mod IPB"
  have "n div 8 = m div 8" using h(3) by (simp add: mk_iblock_eq[OF h(1)] mk_iblock_eq[OF h(2)])
  moreover have "n mod 8 = m mod 8" using h(4) by (simp add: IPB_def BSIZE_def)
  ultimately show "n = m" by (metis div_mult_mod_eq)
qed

lemma IPB_mod [simp]: "n mod IPB < IPB"
  by (simp add: IPB_def BSIZE_def)

text \<open>The files of an image under construction: the types and the bytes of inodes 1, 2 and so on.\<close>

definition total :: "(int \<times> u8 list) list \<Rightarrow> nat" where
  "total D = (\<Sum>d \<leftarrow> D. nblk (length (snd d)))"

definition dinode_is :: "int \<times> u8 list \<Rightarrow> nat list \<Rightarrow> dinode" where
  "dinode_is d as = \<lparr>d_type = fst d, d_major = 0, d_minor = 0, d_nlink = 1, d_size = length (snd d), d_addrs = as\<rparr>"

definition mk_holds :: "mkst \<Rightarrow> (int \<times> u8 list) list \<Rightarrow> bool" where
  "mk_holds s D \<longleftrightarrow> nsect s = FSSIZE \<and> freeinode s = length D + 1 \<and> length D < NINODES \<and> (\<forall>b < nmeta. length (img s b) = BSIZE)
     \<and> img s 1 = sb_block \<and> (\<forall>b. 2 \<le> b \<longrightarrow> b < 122 \<longrightarrow> img s b = zeroes) \<and> freeblock s \<le> nmeta + total D
     \<and> (\<exists>A. mk_ok (img s) (freeblock s) {1..length D} A (\<lambda>n. snd (D ! (n - 1)))
          \<and> (\<forall>n \<in> {1..length D}. mk_inode (img s) n = dinode_is (D ! (n - 1)) (A n)))"

lemma mk_holdsD:
  assumes "mk_holds s D"
  shows "nsect s = FSSIZE" "freeinode s = length D + 1" "length D < NINODES" "b < nmeta \<Longrightarrow> length (img s b) = BSIZE"
    "img s 1 = sb_block" "2 \<le> b \<Longrightarrow> b < 122 \<Longrightarrow> img s b = zeroes" "freeblock s \<le> nmeta + total D"
  using assms unfolding mk_holds_def by blast+

lemma mk_holdsE:
  assumes "mk_holds s D"
  obtains A where "mk_ok (img s) (freeblock s) {1..length D} A (\<lambda>n. snd (D ! (n - 1)))"
    "\<forall>n \<in> {1..length D}. mk_inode (img s) n = dinode_is (D ! (n - 1)) (A n)"
  using assms unfolding mk_holds_def by blast

lemma mk_ok_cong:
  assumes "mk_ok v fb N A B" "\<And>b. nmeta \<le> b \<Longrightarrow> v' b = v b" "\<And>n. n \<in> N \<Longrightarrow> A' n = A n" "\<And>n. n \<in> N \<Longrightarrow> B' n = B n"
  shows "mk_ok v' fb N A' B'"
proof -
  note D = mk_okD[OF assms(1)]
  have nd: "node v' (A' n) p = node v (A n) p" if "n \<in> N" "tpath p" for n p
    unfolding assms(3)[OF that(1)] using that D(7) assms(2) inner_tpath by (intro node_same) blast+
  have dn: "data_node v' (A' n) x = data_node v (A n) x" if "n \<in> N" "x < mk_max" for n x
    unfolding data_node_def using nd data_path that by blast
  have lt: "x < mk_max" if "n \<in> N" "x < length (B n)" for n x using D(6) that by (meson less_le_trans)
  have bytes: "v' (data_node v' (A' n) x) ! (x mod BSIZE) = (if x < length (B' n) then B' n ! x else 0)"
    if n: "n \<in> N" "x < mk_max" "data_node v' (A' n) x \<noteq> 0" for n x
  proof -
    have nz: "data_node v (A n) x \<noteq> 0" using n dn by simp
    then have "nmeta \<le> data_node v (A n) x" using D(7)[OF n(1)] data_path[OF n(2)] by (simp add: data_node_def)
    then show ?thesis using D(9)[OF n(1,2) nz] dn[OF n(1,2)] assms(2,4) n(1) by simp
  qed
  show ?thesis unfolding mk_ok_def
  proof (intro conjI ballI allI impI)
    fix n x assume "n \<in> N" "x < mk_max" "data_node v' (A' n) x \<noteq> 0"
    then show "v' (data_node v' (A' n) x) ! (x mod BSIZE) = (if x < length (B' n) then B' n ! x else 0)" by (rule bytes)
  next
    fix n x assume "n \<in> N" "x < length (B' n)"
    then show "data_node v' (A' n) x \<noteq> 0" using dn lt D(8) assms(4) by simp
  next
    fix n p assume "n \<in> N" "tpath p" "node v' (A' n) p \<noteq> 0"
    then show "nmeta \<le> node v' (A' n) p" "node v' (A' n) p < fb" using nd D(7) by simp_all
  next
    fix n m p q assume h: "n \<in> N" "m \<in> N" "tpath p" "tpath q" "node v' (A' n) p \<noteq> 0" "node v' (A' n) p = node v' (A' m) q"
    show "n = m" "p = q" using h(5,6) D(10)[OF h(1-4)] unfolding nd[OF h(1,3)] nd[OF h(2,4)] by blast+
  next
    fix b assume "fb \<le> b"
    moreover from this have "nmeta \<le> b" using D(1) by simp
    ultimately show "v' b = zeroes" using D(4) assms(2) by simp
  qed (use D assms(2-4) in simp_all)
qed

lemma winode_ok:
  assumes "nsect s = FSSIZE" "n < NINODES"
  shows "winode n d s = Ok () (s\<lparr>img := (img s)(mk_iblock n := put_dinode (n mod IPB) d (img s (mk_iblock n)))\<rparr>)"
    "rinode n s = Ok (mk_inode (img s) n) s"
proof -
  have "mk_iblock n < FSSIZE" using mk_iblock_bounds[OF assms(2)] by (simp add: FSSIZE_def)
  then show "winode n d s = Ok () (s\<lparr>img := (img s)(mk_iblock n := put_dinode (n mod IPB) d (img s (mk_iblock n)))\<rparr>)"
    "rinode n s = Ok (mk_inode (img s) n) s"
    using assms(1) by (simp_all add: winode_def rinode_def rsect_def wsect_img mk_inode_def)
qed

lemma mk_inode_put:
  assumes "n < NINODES" "m < NINODES" "dinode_ok d" "length (v (mk_iblock n)) = BSIZE"
  shows "mk_inode (v(mk_iblock n := put_dinode (n mod IPB) d (v (mk_iblock n)))) m = (if m = n then d else mk_inode v m)"
  unfolding mk_inode_def by (rule dinodes.table_put[where blk = mk_iblock and v = v and i = n, OF assms(4,3)]) (rule mk_iblock_eq_iff[OF assms(2,1)])

text \<open>Writing the inode \<open>n\<close> of an image, with new addresses and bytes.\<close>

lemma mk_holds_winode:
  assumes n: "0 < n" "n < NINODES" "n \<le> length D'" "length D' < NINODES" and ns: "nsect s = FSSIZE" "freeinode s = length D' + 1"
    and len: "\<And>b. b < nmeta \<Longrightarrow> length (img s b) = BSIZE" and sb: "img s 1 = sb_block" "\<And>b. 2 \<le> b \<Longrightarrow> b < 122 \<Longrightarrow> img s b = zeroes"
    and fb: "freeblock s \<le> nmeta + total D'" and I: "mk_ok (img s) (freeblock s) {1..length D'} A (\<lambda>n. snd (D' ! (n - 1)))"
    and inodes: "\<And>m. m \<in> {1..length D'} \<Longrightarrow> m \<noteq> n \<Longrightarrow> mk_inode (img s) m = dinode_is (D' ! (m - 1)) (A m)"
    and d: "d = dinode_is (D' ! (n - 1)) (A n)" "dinode_ok d"
  shows "\<exists>s'. winode n d s = Ok () s' \<and> mk_holds s' D'"
proof -
  let ?v = "(img s)(mk_iblock n := put_dinode (n mod IPB) d (img s (mk_iblock n)))"
  have b: "122 \<le> mk_iblock n" "mk_iblock n < 148" using mk_iblock_bounds[OF n(2)] by auto
  then have l: "length (img s (mk_iblock n)) = BSIZE" by (intro len) (simp add: nmeta_eq)
  have "mk_inode ?v m = dinode_is (D' ! (m - 1)) (A m)" if "m \<in> {1..length D'}" for m
    using mk_inode_put[OF n(2) _ d(2), of m "img s"] l inodes[OF that] that d(1) n(4) by auto
  moreover have "mk_ok ?v (freeblock s) {1..length D'} A (\<lambda>n. snd (D' ! (n - 1)))"
    by (rule mk_ok_cong[OF I]) (use b in \<open>auto simp: nmeta_eq\<close>)
  ultimately have "mk_holds (s\<lparr>img := ?v\<rparr>) D'"
    unfolding mk_holds_def using ns n(4) len sb fb b l by (auto intro!: exI[of _ A])
  then show ?thesis using winode_ok(1)[OF ns(1) n(2)] by blast
qed

lemma node_zero: "tpath p \<Longrightarrow> node v (replicate 13 0) p = 0"
proof -
  have "foldl (\<lambda>a i. if a = 0 then 0 else word_at (v a) i) 0 is = 0" for "is" by (induction "is") simp_all
  then show "tpath p \<Longrightarrow> node v (replicate 13 0) p = 0" by (simp add: node_def tpath_def)
qed

lemma mk_ok_insert:
  assumes "mk_ok v fb N A B" "n \<notin> N"
  shows "mk_ok v fb (insert n N) (A(n := replicate 13 0)) (B(n := []))"
proof -
  note D = mk_okD[OF assms(1)]
  have z: "data_node v (replicate 13 0) x = 0" if "x < mk_max" for x
    unfolding data_node_def using node_zero data_path[OF that] by blast
  have nd: "node v ((A(n := replicate 13 0)) m) p = (if m = n then 0 else node v (A m) p)" if "tpath p" for m p
    using node_zero[OF that] by simp
  show ?thesis unfolding mk_ok_def
  proof (intro conjI ballI allI impI)
    fix m p assume m: "m \<in> insert n N" "tpath p" "node v ((A(n := replicate 13 0)) m) p \<noteq> 0"
    then show "nmeta \<le> node v ((A(n := replicate 13 0)) m) p" "node v ((A(n := replicate 13 0)) m) p < fb"
      using D(7)[of m p] unfolding nd[OF m(2)] by (auto split: if_splits)
  next
    fix m x assume m: "m \<in> insert n N" "x < mk_max" "data_node v ((A(n := replicate 13 0)) m) x \<noteq> 0"
    then show "v (data_node v ((A(n := replicate 13 0)) m) x) ! (x mod BSIZE) = (if x < length ((B(n := [])) m) then (B(n := [])) m ! x else 0)"
      using z[OF m(2)] D(9)[of m x] by (cases "m = n") auto
  next
    fix m k p q assume h: "m \<in> insert n N" "k \<in> insert n N" "tpath p" "tpath q" "node v ((A(n := replicate 13 0)) m) p \<noteq> 0"
      "node v ((A(n := replicate 13 0)) m) p = node v ((A(n := replicate 13 0)) k) q"
    then have "m \<in> N" "k \<in> N" "node v (A m) p \<noteq> 0" "node v (A m) p = node v (A k) q"
      unfolding nd[OF h(3)] nd[OF h(4)] by (auto split: if_splits)
    then show "m = k" "p = q" using D(10)[OF _ _ h(3,4)] by blast+
  qed (use D assms(2) in \<open>auto split: if_splits\<close>)
qed

lemma dinode_is_ok:
  assumes "- (2 ^ 15) \<le> fst d" "fst d < 2 ^ 15" "mk_ok v fb N A B" "n \<in> N" "fb < 4096" "length (snd d) \<le> mk_max"
  shows "dinode_ok (dinode_is d (A n))"
proof -
  note D = mk_okD[OF assms(3)]
  have "a < 2 ^ 32" if "a \<in> set (A n)" for a
  proof -
    obtain k where k: "k < 13" "A n ! k = a" using \<open>a \<in> set (A n)\<close> D(5)[OF assms(4)] by (metis in_set_conv_nth)
    then show ?thesis using D(7)[OF assms(4) tpath_simps(1)[OF k(1)]] assms(5) by (cases "a = 0") simp_all
  qed
  moreover have "mk_max < 2 ^ 32" by (simp add: mk_max_def param_defs)
  ultimately show ?thesis using assms(1,2,6) D(5)[OF assms(4)] by (simp add: dinode_ok_def dinode_is_def)
qed

lemma mk_ialloc_ok:
  assumes H: "mk_holds s D" and l: "length D + 1 < NINODES" and t: "- (2 ^ 15) \<le> ty" "ty < 2 ^ 15"
  shows "\<exists>s'. mk_ialloc ty s = Ok (length D + 1) s' \<and> mk_holds s' (D @ [(ty, [])])"
proof -
  note h = mk_holdsD[OF H]
  let ?n = "length D + 1" and ?D = "D @ [(ty, [])]"
  obtain A where A: "mk_ok (img s) (freeblock s) {1..length D} A (\<lambda>n. snd (D ! (n - 1)))"
    "\<forall>n \<in> {1..length D}. mk_inode (img s) n = dinode_is (D ! (n - 1)) (A n)" using H by (rule mk_holdsE)
  let ?A = "A(?n := replicate 13 0)" and ?s = "s\<lparr>freeinode := uadd ?n 1\<rparr>"
  have u: "uadd ?n 1 = length ?D + 1" using l by (simp add: uadd_def NINODES_def)
  have N: "insert ?n {1..length D} = {1..length ?D}" by auto
  have D: "?D ! (m - 1) = D ! (m - 1)" if "m \<in> {1..length D}" for m using that by (auto simp: nth_append)
  have I: "mk_ok (img ?s) (freeblock ?s) {1..length ?D} ?A (\<lambda>n. snd (?D ! (n - 1)))"
  proof -
    have i: "mk_ok (img s) (freeblock s) {1..length ?D} ?A ((\<lambda>n. snd (D ! (n - 1)))(?n := []))"
      using mk_ok_insert[OF A(1), of ?n] unfolding N by simp
    have "snd (?D ! (m - 1)) = ((\<lambda>n. snd (D ! (n - 1)))(?n := [])) m" if "m \<in> {1..length ?D}" for m
      using that D[of m] by (cases "m = ?n") auto
    then show ?thesis using mk_ok_cong[OF i, of "img s" ?A "\<lambda>n. snd (?D ! (n - 1))"] by simp
  qed
  have "dinode_is (?D ! (?n - 1)) (?A ?n) = zero_dinode\<lparr>d_type := ty, d_nlink := 1, d_size := 0\<rparr>"
    by (simp add: dinode_is_def zero_dinode_def)
  moreover have "dinode_ok (zero_dinode\<lparr>d_type := ty, d_nlink := 1, d_size := 0\<rparr>)"
    using t by (simp add: dinode_ok_def zero_dinode_def)
  moreover have "mk_inode (img ?s) m = dinode_is (?D ! (m - 1)) (?A m)" if "m \<in> {1..length ?D}" "m \<noteq> ?n" for m
  proof -
    have "m \<in> {1..length D}" using that by auto
    then show ?thesis using A(2) D that(2) by simp
  qed
  ultimately have "\<exists>s'. winode ?n (zero_dinode\<lparr>d_type := ty, d_nlink := 1, d_size := 0\<rparr>) ?s = Ok () s' \<and> mk_holds s' ?D"
    by (intro mk_holds_winode[OF _ _ _ _ _ _ _ _ _ _ I]) (use l h u in \<open>simp_all add: total_def\<close>)
  then show ?thesis using h(2) by (auto simp: mk_ialloc_def)
qed

lemma total_update: "k < length D \<Longrightarrow> total (D[k := d]) + nblk (length (snd (D ! k))) = total D + nblk (length (snd d))"
  by (induction D arbitrary: k) (auto simp: total_def nth_Cons' split: nat.split)

lemma iappend_ok:
  assumes H: "mk_holds s D" and n: "0 < n" "n \<le> length D" and d: "D ! (n - 1) = (ty, b)" "- (2 ^ 15) \<le> ty" "ty < 2 ^ 15"
    and l: "length b + length p \<le> mk_max" and tot: "nmeta + total (D[n - 1 := (ty, b @ p)]) < 4096"
  shows "\<exists>s'. iappend n p s = Ok () s' \<and> mk_holds s' (D[n - 1 := (ty, b @ p)])"
proof -
  note h = mk_holdsD[OF H]
  let ?D = "D[n - 1 := (ty, b @ p)]" and ?B = "\<lambda>n. snd (D ! (n - 1))"
  have nN: "n \<in> {1..length D}" "n < NINODES" using n h(3) by auto
  obtain A where A: "mk_ok (img s) (freeblock s) {1..length D} A ?B"
    "\<forall>n \<in> {1..length D}. mk_inode (img s) n = dinode_is (D ! (n - 1)) (A n)" using H by (rule mk_holdsE)
  let ?din = "mk_inode (img s) n"
  have din: "d_size ?din = length (?B n)" "A n = d_addrs ?din" using A(2)[rule_format, OF nN(1)] d by (simp_all add: dinode_is_def)
  have t: "total ?D + nblk (length b) = total D + nblk (length b + length p)"
    using total_update[of "n - 1" D "(ty, b @ p)"] n d(1) by simp
  have "nblk (length b) \<le> nblk (length b + length p)" by (rule nblk_mono) simp
  then have room: "room s (nblk (length (?B n) + length p) - nblk (length (?B n)))"
    using t tot h(1,7) d(1) by (simp add: room_def)
  obtain din' s1 where r: "iappend_loop (length (?B n)) p ?din s = Ok (length (?B n) + length p, din') s1"
      "mk_ok (img s1) (freeblock s1) {1..length D} (A(n := d_addrs din')) (?B(n := ?B n @ p))" "din' = ?din\<lparr>d_addrs := d_addrs din'\<rparr>"
      "freeblock s1 + nblk (length (?B n)) \<le> freeblock s + nblk (length (?B n) + length p)" "mk_same s s1"
    using iappend_loop_ok[OF A(1) nN(1) din(2) _ room] l d(1) by auto
  have same: "nsect s1 = FSSIZE" "freeinode s1 = length ?D + 1" "\<And>b. b < nmeta \<Longrightarrow> img s1 b = img s b"
    using r(5) h(2) by (auto simp: mk_same_def)
  have fb: "freeblock s1 \<le> nmeta + total ?D" using r(4) t h(7) d(1) by simp
  let ?A = "A(n := d_addrs din')"
  have I: "mk_ok (img s1) (freeblock s1) {1..length ?D} ?A (\<lambda>n. snd (?D ! (n - 1)))"
    unfolding length_list_update
  proof (rule mk_ok_cong[OF r(2)])
    fix m assume m: "m \<in> {1..length D}"
    then show "snd (?D ! (m - 1)) = (?B(n := ?B n @ p)) m" using n d(1) by (cases "m = n") (auto simp: nth_list_update_if)
  qed simp_all
  have nd: "?D ! (n - 1) = (ty, b @ p)" using n by simp
  have dd: "din'\<lparr>d_size := length (?B n) + length p\<rparr> = dinode_is (?D ! (n - 1)) (?A n)"
    unfolding nd by (subst r(3)) (simp add: A(2)[rule_format, OF nN(1)] d(1) dinode_is_def)
  have "dinode_ok (dinode_is (?D ! (n - 1)) (?A n))"
    by (rule dinode_is_ok[OF _ _ I]) (use nd d nN l fb tot in auto)
  moreover have "mk_inode (img s1) m = dinode_is (?D ! (m - 1)) (?A m)" if m: "m \<in> {1..length ?D}" "m \<noteq> n" for m
  proof -
    have mD: "m \<in> {1..length D}" using m by simp
    then have "m < NINODES" using h(3) by simp
    then have "mk_iblock m < nmeta" using mk_iblock_bounds[of m] by (simp add: nmeta_eq)
    then have "mk_inode (img s1) m = mk_inode (img s) m" using same(3) by (simp add: mk_inode_def)
    moreover have "m - 1 \<noteq> n - 1" using m mD n by auto
    ultimately show ?thesis using A(2)[rule_format, OF mD] m(2) by simp
  qed
  ultimately have "\<exists>s'. winode n (din'\<lparr>d_size := length (?B n) + length p\<rparr>) s1 = Ok () s' \<and> mk_holds s' ?D"
    by (intro mk_holds_winode[OF _ _ _ _ _ _ _ _ _ _ I]) (use n nN h same fb dd in \<open>simp_all add: nmeta_eq\<close>)
  then show ?thesis using winode_ok(2)[OF h(1) nN(2)] r(1) din(1) by (auto simp: iappend_def)
qed

lemma iappend_chunks:
  assumes "mk_holds s D" "0 < n" "n \<le> length D" "D ! (n - 1) = (ty, b)" "- (2 ^ 15) \<le> ty" "ty < 2 ^ 15"
    "length b + length (concat cs) \<le> mk_max" "nmeta + total (D[n - 1 := (ty, b @ concat cs)]) < 4096"
  shows "\<exists>s'. kfor cs (iappend n) s = Ok () s' \<and> mk_holds s' (D[n - 1 := (ty, b @ concat cs)])"
  using assms
proof (induction cs arbitrary: s D b)
  case Nil
  then show ?case by (metis append_Nil2 concat.simps(1) kfor.simps(1) list_update_id)
next
  case (Cons c cs)
  have k: "n - 1 < length D" using Cons.prems(2,3) by simp
  have "total (D[n - 1 := (ty, b @ c)]) \<le> total (D[n - 1 := (ty, b @ concat (c # cs))])"
    using total_update[OF k, of "(ty, b @ c)"] total_update[OF k, of "(ty, b @ concat (c # cs))"]
      nblk_mono[of "length (b @ c)" "length (b @ concat (c # cs))"] by simp
  then obtain s1 where s1: "iappend n c s = Ok () s1" "mk_holds s1 (D[n - 1 := (ty, b @ c)])"
    using iappend_ok[OF Cons.prems(1-6), of c] Cons.prems(7,8) by auto
  then show ?case using Cons.IH[OF s1(2), of "b @ c"] Cons.prems k by simp
qed

subsection \<open>The whole image\<close>

text \<open>The name of a file in its directory entry: cut to \<open>DIRSIZ\<close> bytes and filled up with zeros.\<close>

definition strip :: "u8 list \<Rightarrow> u8 list" where
  "strip nm = (if nm \<noteq> [] \<and> hd nm = 95 then tl nm else nm)"

definition entry_name :: "u8 list \<Rightarrow> u8 list" where
  "entry_name nm = take DIRSIZ (strip nm @ replicate DIRSIZ 0)"

definition file_bytes :: "u8 list \<times> u8 list list option \<Rightarrow> u8 list" where
  "file_bytes f = (case snd f of None \<Rightarrow> [] | Some cs \<Rightarrow> concat cs)"

text \<open>The files from inode number \<open>n\<close> on as directory entries.\<close>

fun entries :: "nat \<Rightarrow> (u8 list \<times> u8 list list option) list \<Rightarrow> u8 list" where
  "entries n [] = []"
| "entries n (f # fs) = mk_dirent n (entry_name (fst f)) @ entries (n + 1) fs"

definition root_bytes :: "(u8 list \<times> u8 list list option) list \<Rightarrow> u8 list" where
  "root_bytes fs = mk_dirent 1 (46 # replicate 13 0) @ mk_dirent 1 (46 # 46 # replicate 12 0) @ entries 2 fs"

text \<open>What the program has to be given: names without \<open>/\<close>, files that open and fit, and few enough of them.\<close>

definition mkfs_input :: "(u8 list \<times> u8 list list option) list \<Rightarrow> bool" where
  "mkfs_input fs \<longleftrightarrow> (\<forall>f \<in> set fs. 47 \<notin> set (fst f) \<and> 0 \<notin> set (fst f) \<and> snd f \<noteq> None \<and> length (file_bytes f) \<le> mk_max)
     \<and> length fs + 2 \<le> NINODES \<and> nmeta + nblk (16 * (length fs + 2)) + (\<Sum>f \<leftarrow> fs. nblk (length (file_bytes f))) < 4096"

lemma take_pad: "take n (t @ replicate (Suc n) 0) = take n (t @ replicate n 0)"
proof -
  have "take (n - length t) (replicate (Suc n) (0 :: 'a)) = take (n - length t) (replicate n 0)"
    unfolding take_replicate by (simp add: min_def)
  then show ?thesis by (simp only: take_append)
qed

lemma strncpy_take: "0 \<notin> set nm \<Longrightarrow> strncpy (nm @ [0]) k = Some (take k (nm @ replicate k 0))"
  by (induction nm k rule: strncpy.induct) (auto simp: take_pad simp del: take_append replicate.simps)

lemma length_entries: "length (entries n fs) = 16 * length fs"
  by (induction fs arbitrary: n) (auto simp: mk_dirent_def entry_name_def DIRSIZ_def)

definition files_of :: "(u8 list \<times> u8 list list option) list \<Rightarrow> (int \<times> u8 list) list" where
  "files_of fs = (T_DIR, root_bytes fs) # map (\<lambda>f. (T_FILE, file_bytes f)) fs"

lemma length_files_of [simp]: "length (files_of fs) = length fs + 1"
  by (simp add: files_of_def)

lemma entries_snoc: "entries n (fs @ [f]) = entries n fs @ mk_dirent (n + length fs) (entry_name (fst f))"
  by (induction fs arbitrary: n) (simp_all add: One_nat_def)

lemma length_root_bytes: "length (root_bytes fs) = 16 * (length fs + 2)"
  by (simp add: root_bytes_def length_entries mk_dirent_def)

lemma total_files_of: "total (files_of fs) = nblk (16 * (length fs + 2)) + (\<Sum>f \<leftarrow> fs. nblk (length (file_bytes f)))"
  by (simp add: total_def files_of_def length_root_bytes comp_def)

lemma total_prefix: "mkfs_input (pre @ post) \<Longrightarrow> nmeta + total (files_of pre) < 4096"
  using nblk_mono[of "16 * (length pre + 2)" "16 * (length (pre @ post) + 2)"]
  by (simp add: mkfs_input_def total_files_of)

lemma root_fits: "n + 2 \<le> NINODES \<Longrightarrow> 16 * (n + 2) \<le> mk_max"
  by (simp add: mk_max_def mk_defs)

lemma type_bounds: "- (2 ^ 15) \<le> T_FILE" "T_FILE < 2 ^ 15" "- (2 ^ 15) \<le> T_DIR" "T_DIR < 2 ^ 15"
  by (simp_all add: T_FILE_def T_DIR_def)

lemma add_file_ok:
  assumes F: "mkfs_input (pre @ f # post)" and H: "mk_holds s (files_of pre)"
  shows "\<exists>s'. add_file f s = Ok () s' \<and> mk_holds s' (files_of (pre @ [f]))"
proof -
  let ?n = "length pre + 2" and ?D = "files_of pre"
  obtain nm cs where f: "f = (nm, Some cs)" using F by (cases f) (auto simp: mkfs_input_def)
  have nm: "47 \<notin> set nm" "0 \<notin> set nm" "length (concat cs) \<le> mk_max" "length pre + 3 \<le> NINODES"
    using F by (auto simp: f mkfs_input_def file_bytes_def)
  have "0 \<notin> set (strip nm)" using nm(2) by (cases nm) (auto simp: strip_def)
  then have sn: "strncpy (strip nm @ [0]) DIRSIZ = Some (entry_name nm)" unfolding entry_name_def by (rule strncpy_take)
  let ?d = "mk_dirent ?n (entry_name nm)" and ?D1 = "?D @ [(T_FILE, [])]"
  let ?D2 = "?D1[0 := (T_DIR, root_bytes pre @ ?d)]"
  have ld: "length ?d = 16" by (simp add: mk_dirent_def entry_name_def DIRSIZ_def)
  have D2: "?D2[?n - 1 := (T_FILE, concat cs)] = files_of (pre @ [f])" "?D2 ! (?n - 1) = (T_FILE, [])"
    by (simp_all add: files_of_def root_bytes_def entries_snoc f file_bytes_def list_update_append add.commute nth_append)
  have tot: "nmeta + total (files_of (pre @ [f])) < 4096" using total_prefix[of "pre @ [f]" post] F by simp
  have k: "?n - 1 < length ?D2" by simp
  have t2: "total ?D2 \<le> total (files_of (pre @ [f]))"
    using total_update[OF k, of "(T_FILE, concat cs)"] unfolding D2 by (simp add: nblk_def)
  have l1: "length ?D + 1 < NINODES" using nm(4) by simp
  obtain s1 where s1: "mk_ialloc T_FILE s = Ok ?n s1" "mk_holds s1 ?D1"
    using mk_ialloc_ok[OF H l1 type_bounds(1,2)] by auto
  have r1: "?D1 ! (1 - 1) = (T_DIR, root_bytes pre)" by (simp add: files_of_def)
  have r2: "length (root_bytes pre) + length ?d \<le> mk_max"
    using root_fits[of "length pre + 1"] nm(4) unfolding length_root_bytes ld by simp
  have "\<exists>s'. iappend 1 ?d s1 = Ok () s' \<and> mk_holds s' (?D1[1 - 1 := (T_DIR, root_bytes pre @ ?d)])"
    by (rule iappend_ok[OF s1(2) _ _ r1 type_bounds(3,4) r2]) (use t2 tot in simp_all)
  then obtain s2 where s2: "iappend 1 ?d s1 = Ok () s2" "mk_holds s2 ?D2" by auto
  have "\<exists>s'. kfor cs (iappend ?n) s2 = Ok () s' \<and> mk_holds s' (?D2[?n - 1 := (T_FILE, [] @ concat cs)])"
    by (rule iappend_chunks[OF s2(2) _ _ D2(2) type_bounds(1,2)]) (use nm tot D2(1) in simp_all)
  then obtain s3 where s3: "kfor cs (iappend ?n) s2 = Ok () s3" "mk_holds s3 (files_of (pre @ [f]))" using D2(1) by auto
  show ?thesis using s1(1) s2(1) s3 nm(1) sn by (simp add: add_file_def f kassert_def strip_def[symmetric] ROOTINO_def)
qed

lemma add_files_ok:
  assumes "mkfs_input (pre @ fs)" "mk_holds s (files_of pre)"
  shows "\<exists>s'. kfor fs add_file s = Ok () s' \<and> mk_holds s' (files_of (pre @ fs))"
  using assms
proof (induction fs arbitrary: pre s)
  case (Cons f fs)
  obtain s1 where s1: "add_file f s = Ok () s1" "mk_holds s1 (files_of (pre @ [f]))" using add_file_ok[OF Cons.prems] by blast
  then show ?case using Cons.IH[of "pre @ [f]" s1] Cons.prems(1) by simp
qed simp

lemma wsect_zero:
  "img s = (\<lambda>_. zeroes) \<Longrightarrow> nsect s = 0 \<Longrightarrow> foldl (\<lambda>s i. wsect i zeroes s) s [0..<n] = s\<lparr>nsect := n\<rparr>"
proof (induction n)
  case (Suc n)
  have "(\<lambda>_. zeroes)(n := zeroes) = (\<lambda>_. zeroes)" by auto
  then show ?case using Suc by (simp add: wsect_def)
qed simp

lemma length_zeroes [simp]: "length zeroes = BSIZE" "length sb_block = BSIZE"
  by (simp_all add: sb_block_def) (simp_all add: zeroes_def)

text \<open>The image before the files are added.\<close>

lemma mkfs_start:
  assumes F: "mkfs_input fs"
  shows "\<exists>s. mkfs fs = kbind (kfor fs add_file s) (\<lambda>_ s. kbind (fix_root s) (\<lambda>_ s. mk_balloc (freeblock s) s)) \<and> mk_holds s (files_of [])"
proof -
  let ?init = "\<lparr>img = (\<lambda>_. zeroes), nsect = 0, freeinode = 1, freeblock = nmeta\<rparr>"
  let ?s = "wsect 1 sb_block (foldl (\<lambda>s i. wsect i zeroes s) ?init [0..<FSSIZE])"
  have e: "?s = \<lparr>img = (\<lambda>_. zeroes)(1 := sb_block), nsect = FSSIZE, freeinode = 1, freeblock = nmeta\<rparr>"
  proof -
    have z: "foldl (\<lambda>s i. wsect i zeroes s) ?init [0..<FSSIZE] = ?init\<lparr>nsect := FSSIZE\<rparr>" using wsect_zero[of ?init FSSIZE] by (simp only: mkst.simps)
    show ?thesis unfolding z by (simp add: wsect_def FSSIZE_def)
  qed
  have H: "mk_holds ?s []" unfolding e mk_holds_def by (auto simp: mk_ok_def NINODES_def nmeta_eq)
  let ?d1 = "mk_dirent 1 (46 # replicate 13 0)" and ?d2 = "mk_dirent 1 (46 # 46 # replicate 12 0)"
  have tot: "nmeta + total (files_of []) < 4096" using total_prefix[of "[]" fs] F by simp
  have n0: "root_bytes [] = ?d1 @ ?d2" "length ?d1 = 16" "length ?d2 = 16" by (simp_all add: root_bytes_def mk_dirent_def)
  obtain s1 where s1: "mk_ialloc T_DIR ?s = Ok 1 s1" "mk_holds s1 [(T_DIR, [])]"
    using mk_ialloc_ok[OF H _ type_bounds(3,4)] by (auto simp: NINODES_def)
  have m: "32 \<le> mk_max" by (simp add: mk_max_def param_defs)
  have t1: "total [(T_DIR, ?d1)] \<le> total (files_of [])" using nblk_mono[of 16 32] by (simp add: total_def files_of_def n0)
  have "\<exists>s'. iappend 1 ?d1 s1 = Ok () s' \<and> mk_holds s' ([(T_DIR, [])][1 - 1 := (T_DIR, [] @ ?d1)])"
    by (rule iappend_ok[OF s1(2) _ _ _ type_bounds(3,4)]) (use n0 m t1 tot in simp_all)
  then obtain s2 where s2: "iappend 1 ?d1 s1 = Ok () s2" "mk_holds s2 [(T_DIR, ?d1)]" by auto
  have "\<exists>s'. iappend 1 ?d2 s2 = Ok () s' \<and> mk_holds s' ([(T_DIR, ?d1)][1 - 1 := (T_DIR, ?d1 @ ?d2)])"
    by (rule iappend_ok[OF s2(2) _ _ _ type_bounds(3,4)]) (use n0 m tot in \<open>simp_all add: files_of_def\<close>)
  then obtain s3 where s3: "iappend 1 ?d2 s2 = Ok () s3" "mk_holds s3 (files_of [])" by (auto simp: files_of_def n0)
  show ?thesis using s1(1) s2(1) s3 by (intro exI[of _ s3]) (simp add: mkfs_def kassert_def ROOTINO_def)
qed

text \<open>The bitmap.\<close>

lemma balloc_bits:
  assumes "n < BPB"
  shows "mk_balloc n s = Ok () (wsect 148 (foldl (\<lambda>d i. mark_bit i d) zeroes [0..<n]) s)"
    "length (foldl (\<lambda>d i. mark_bit i d) zeroes [0..<n]) = BSIZE"
    "b < BPB \<Longrightarrow> bit_free (foldl (\<lambda>d i. mark_bit i d) zeroes [0..<n]) b \<longleftrightarrow> n \<le> b"
proof -
  show "mk_balloc n s = Ok () (wsect 148 (foldl (\<lambda>d i. mark_bit i d) zeroes [0..<n]) s)"
    using assms by (simp add: mk_balloc_def mark_bit_def bit_mask_def BPB_def)
  have "length (foldl (\<lambda>d i. mark_bit i d) zeroes [0..<n]) = BSIZE
      \<and> (\<forall>b < BPB. bit_free (foldl (\<lambda>d i. mark_bit i d) zeroes [0..<n]) b \<longleftrightarrow> n \<le> b)"
    using assms
  proof (induction n)
    case 0
    have "bit_free zeroes b" if "b < BPB" for b using that by (simp add: bit_free_def zeroes_def param_defs less_mult_imp_div_less)
    then show ?case by simp
  next
    case (Suc n)
    then show ?case using bit_free_mark[of "foldl (\<lambda>d i. mark_bit i d) zeroes [0..<n]" n] by auto
  qed
  then show "length (foldl (\<lambda>d i. mark_bit i d) zeroes [0..<n]) = BSIZE"
    "b < BPB \<Longrightarrow> bit_free (foldl (\<lambda>d i. mark_bit i d) zeroes [0..<n]) b \<longleftrightarrow> n \<le> b" by blast+
qed

text \<open>The finished image: the size of the root directory is rounded up.\<close>

definition root_size :: "nat \<Rightarrow> nat" where
  "root_size l = (l div BSIZE + 1) * BSIZE"

definition image :: "mkst \<Rightarrow> (u8 list \<times> u8 list list option) list \<Rightarrow> (nat \<Rightarrow> nat list) \<Rightarrow> bool" where
  "image s fs A \<longleftrightarrow> mk_ok (img s) (freeblock s) {1..length fs + 1} A (\<lambda>n. snd (files_of fs ! (n - 1))) \<and> freeblock s < 4096 \<and> nsect s = FSSIZE
     \<and> (\<forall>n \<in> {1..length fs + 1}. mk_inode (img s) n = (if n = 1
          then (dinode_is (files_of fs ! 0) (A 1))\<lparr>d_size := root_size (length (root_bytes fs))\<rparr> else dinode_is (files_of fs ! (n - 1)) (A n)))
     \<and> img s 1 = sb_block \<and> (\<forall>b < nmeta. length (img s b) = BSIZE) \<and> (\<forall>b. 2 \<le> b \<longrightarrow> b < 122 \<longrightarrow> img s b = zeroes)
     \<and> (\<forall>b < BPB. bit_free (img s 148) b \<longleftrightarrow> freeblock s \<le> b)"

lemma mkfs_image:
  assumes F: "mkfs_input fs"
  shows "\<exists>s A. mkfs fs = Ok () s \<and> image s fs A"
proof -
  obtain s0 where s0: "mkfs fs = kbind (kfor fs add_file s0) (\<lambda>_ s. kbind (fix_root s) (\<lambda>_ s. mk_balloc (freeblock s) s))"
    "mk_holds s0 (files_of [])" using mkfs_start[OF F] by blast
  obtain s where s: "kfor fs add_file s0 = Ok () s" and H: "mk_holds s (files_of fs)" using add_files_ok[of "[]" fs s0] F s0(2) by auto
  note h = mk_holdsD[OF H]
  obtain A where A: "mk_ok (img s) (freeblock s) {1..length (files_of fs)} A (\<lambda>n. snd (files_of fs ! (n - 1)))"
    "\<forall>n \<in> {1..length (files_of fs)}. mk_inode (img s) n = dinode_is (files_of fs ! (n - 1)) (A n)" using H by (rule mk_holdsE)
  let ?r = "root_size (length (root_bytes fs))" and ?d = "dinode_is (files_of fs ! 0) (A 1)"
  have fb: "freeblock s < 4096" using h(7) total_prefix[of fs "[]"] F by simp
  have i1: "mk_inode (img s) 1 = ?d" using A(2)[rule_format, of 1] by simp
  have b1: "mk_iblock 1 = 122" by (simp add: mk_iblock_eq NINODES_def)
  let ?v = "(img s)(122 := put_dinode (1 mod IPB) (?d\<lparr>d_size := ?r\<rparr>) (img s 122))"
  have n1: "1 < NINODES" by (simp add: NINODES_def)
  have fr: "fix_root s = Ok () (s\<lparr>img := ?v\<rparr>)"
    using winode_ok[OF h(1) n1] i1 by (simp add: fix_root_def ROOTINO_def b1) (simp add: dinode_is_def files_of_def root_size_def)
  have rl: "length (root_bytes fs) \<le> 3200" using F by (simp add: mkfs_input_def length_root_bytes NINODES_def)
  have "dinode_ok ?d"
    by (rule dinode_is_ok[OF _ _ A(1)]) (use fb type_bounds mk_okD(6)[OF A(1), of 1] in \<open>auto simp: files_of_def\<close>)
  moreover have "?r < 2 ^ 32" using rl div_le_mono[of "length (root_bytes fs)" 3200 512] by (simp add: root_size_def BSIZE_def)
  ultimately have dk: "dinode_ok (?d\<lparr>d_size := ?r\<rparr>)" by (simp add: dinode_ok_def)
  have l122: "length (img s 122) = BSIZE" by (rule h(4)) (simp add: nmeta_eq)
  let ?b = "foldl (\<lambda>d i. mark_bit i d) zeroes [0..<freeblock s]"
  note B = balloc_bits[of "freeblock s"]
  have fB: "freeblock s < BPB" using fb by (simp add: param_defs)
  let ?t = "s\<lparr>img := ?v(148 := ?b)\<rparr>"
  have bl: "mk_balloc (freeblock s) (s\<lparr>img := ?v\<rparr>) = Ok () ?t"
    using B(1)[OF fB] h(1) by (simp add: wsect_img FSSIZE_def)
  have M: "mk_ok (img ?t) (freeblock ?t) {1..length fs + 1} A (\<lambda>n. snd (files_of fs ! (n - 1)))"
    using mk_ok_cong[OF A(1), of "img ?t" A "\<lambda>n. snd (files_of fs ! (n - 1))"] by (simp add: nmeta_eq)
  have N: "mk_inode (img ?t) n = (if n = 1 then ?d\<lparr>d_size := ?r\<rparr> else dinode_is (files_of fs ! (n - 1)) (A n))"
    if n: "n \<in> {1..length fs + 1}" for n
  proof -
    have nn: "n < NINODES" using n h(3) by simp
    then have "mk_iblock n \<noteq> 148" using mk_iblock_bounds[OF nn] by simp
    then have "mk_inode (img ?t) n = mk_inode ?v n" by (simp add: mk_inode_def)
    also have "\<dots> = (if n = 1 then ?d\<lparr>d_size := ?r\<rparr> else mk_inode (img s) n)"
      using mk_inode_put[OF n1 nn dk, of "img s"] l122 by (simp add: b1)
    finally show ?thesis using A(2) n by simp
  qed
  have "image ?t fs A" unfolding image_def
    using M N fb h(1,4-6) B(2,3)[OF fB] l122 by (auto simp: nmeta_eq)
  then show ?thesis using s0(1) s fr bl by auto
qed

end
