(* ===== verification/MkfsProps.thy ===== *)
theory MkfsProps
  imports MkfsSpec Boot
begin

text \<open>The kernel on the image that mkfs.c builds.\<close>

text \<open>A kernel that sees the image on its disk, and an entry of its inode cache that has been read from the disk.\<close>

definition mounts :: "kst \<Rightarrow> mkst \<Rightarrow> bool" where
  "mounts k s \<longleftrightarrow> view k = img s \<and> disksize k = nsect s \<and> sb k = dec_sb (view k 1) \<and> lg_start (lg k) = sb_logstart (sb k)"

definition inode_in :: "kst \<Rightarrow> nat \<Rightarrow> nat \<Rightarrow> bool" where
  "inode_in k ip n \<longleftrightarrow> ip < length (inodes k) \<and> i_dev (inodes k ! ip) = 1 \<and> dinode_of (inodes k ! ip) = disk_inode k n"

lemma dec_sb_block: "dec_sb sb_block = mk_sb"
proof -
  have "length zeroes = 512" by (simp add: BSIZE_def)
  then show ?thesis
    by (simp add: dec_sb_def sb_block_def get32_put32 get32_put32_other) (simp add: mk_sb_def mk_defs)
qed

lemma imageD:
  assumes "image s fs A"
  shows "mk_ok (img s) (freeblock s) {1..length fs + 1} A (\<lambda>n. snd (files_of fs ! (n - 1)))" "freeblock s < 4096" "nsect s = FSSIZE"
    "n \<in> {1..length fs + 1} \<Longrightarrow> mk_inode (img s) n = (if n = 1
          then (dinode_is (files_of fs ! 0) (A 1))\<lparr>d_size := root_size (length (root_bytes fs))\<rparr> else dinode_is (files_of fs ! (n - 1)) (A n))"
    "img s 1 = sb_block" "2 \<le> b \<Longrightarrow> b < 122 \<Longrightarrow> img s b = zeroes" "b < BPB \<Longrightarrow> bit_free (img s 148) b \<longleftrightarrow> freeblock s \<le> b"
  using assms unfolding image_def by blast+

lemma mounts_sb:
  assumes "mounts k s" "image s fs A"
  shows "sb k = mk_sb" "view k = img s" "disksize k = FSSIZE" "lg_start (lg k) = 2" "data_start k = nmeta"
    "disk_inode k n = mk_inode (img s) n" "b < BPB \<Longrightarrow> used_blk k b \<longleftrightarrow> b < freeblock s"
proof -
  show sb: "sb k = mk_sb" and v: "view k = img s" and "disksize k = FSSIZE" and "lg_start (lg k) = 2"
    using assms(1) imageD(3,5)[OF assms(2)] dec_sb_block by (simp_all add: mounts_def)
  show "data_start k = nmeta" unfolding data_start_def sb by (simp add: mk_defs)
  show "disk_inode k n = mk_inode (img s) n" by (simp add: disk_inode_def mk_inode_def IBLOCK_def mk_iblock_def sb v)
  assume b: "b < BPB"
  then have "BBLOCK b k = 148" by (simp add: BBLOCK_def sb uadd_def)
  then show "used_blk k b \<longleftrightarrow> b < freeblock s" using imageD(7)[OF assms(2) b] b by (simp add: used_blk_def v not_le)
qed

lemma mounts_fs_ok:
  assumes "mounts k s" "image s fs A"
  shows "fs_ok k"
proof -
  note M = mounts_sb[OF assms]
  have "nmeta \<le> freeblock s" using mk_okD(1)[OF imageD(1)[OF assms(2)]] .
  then have "used_blk k b" if "b < nmeta" for b using that M(7)[of b] by (simp add: mk_defs)
  then show ?thesis unfolding fs_ok_def fs_geom_def M(1,3,4,5) by (simp add: mk_defs)
qed

text \<open>An inode of the image in the inode cache.\<close>

lemma inode_in_file:
  assumes M: "mounts k s" and I: "image s fs A" and n: "n \<in> {1..length fs + 1}" and ip: "inode_in k ip n"
  shows "tree_ok k ip" "i_type (inodes k ! ip) = fst (files_of fs ! (n - 1))" "i_nlink (inodes k ! ip) = 1"
    "i_size (inodes k ! ip) = (if n = 1 then root_size (length (root_bytes fs)) else length (snd (files_of fs ! (n - 1))))"
    "x < mk_max \<Longrightarrow> blk_of k ip (x div BSIZE) \<noteq> 0 \<Longrightarrow> file_byte k ip x
        = (if x < length (snd (files_of fs ! (n - 1))) then snd (files_of fs ! (n - 1)) ! x else 0)"
    "x < length (snd (files_of fs ! (n - 1))) \<Longrightarrow> blk_of k ip (x div BSIZE) \<noteq> 0"
proof -
  note K = mounts_sb[OF M I] and D = mk_okD[OF imageD(1)[OF I]]
  have d: "dinode_of (inodes k ! ip) = mk_inode (img s) n" "ip < length (inodes k)" using ip K(6) by (simp_all add: inode_in_def)
  note di = d(1)[unfolded imageD(4)[OF I n]]
  have n1: "files_of fs ! 0 = files_of fs ! (n - 1)" "A 1 = A n" if "n = 1" using that by simp_all
  show "i_type (inodes k ! ip) = fst (files_of fs ! (n - 1))" "i_nlink (inodes k ! ip) = 1"
    "i_size (inodes k ! ip) = (if n = 1 then root_size (length (root_bytes fs)) else length (snd (files_of fs ! (n - 1))))"
    using di by (auto simp: dinode_of_def dinode_is_def split: if_splits)
  have as: "iaddrs k ip = A n" using di by (auto simp: iaddrs_def dinode_of_def dinode_is_def split: if_splits)
  have nd: "inode_node k ip p = node (img s) (A n) p" for p by (simp add: inode_node_def as K(2))
  have "is_data k (inode_node k ip p)" if p: "tpath p" "inode_node k ip p \<noteq> 0" for p
  proof -
    have b: "nmeta \<le> inode_node k ip p" "inode_node k ip p < freeblock s" using D(7)[OF n] p unfolding nd by blast+
    then have "inode_node k ip p < BPB" using imageD(2)[OF I] by (simp add: mk_defs)
    then show ?thesis using b imageD(2)[OF I] K(1,5,7) by (simp add: is_data_def)
  qed
  moreover have "p = q" if "tpath p" "tpath q" "inode_node k ip p \<noteq> 0" "inode_node k ip p = inode_node k ip q" for p q
    using D(10)[OF n n] that unfolding nd by blast
  ultimately show "tree_ok k ip" unfolding tree_ok_def using d(2) as D(5)[OF n] by metis
  have bo: "blk_of k ip (x div BSIZE) = data_node (img s) (A n) x" for x by (simp add: blk_of_def nd data_node_def)
  show "x < mk_max \<Longrightarrow> blk_of k ip (x div BSIZE) \<noteq> 0 \<Longrightarrow> file_byte k ip x
        = (if x < length (snd (files_of fs ! (n - 1))) then snd (files_of fs ! (n - 1)) ! x else 0)"
    using D(9)[OF n] by (simp add: file_byte_def bo K(2))
  show "x < length (snd (files_of fs ! (n - 1))) \<Longrightarrow> blk_of k ip (x div BSIZE) \<noteq> 0"
    using D(8)[OF n] by (simp add: bo)
qed

lemma inode_in_ok:
  assumes M: "mounts k s" and I: "image s fs A" and n: "n \<in> {1..length fs + 1}" and ip: "inode_in k ip n"
    and sz: "i_size (inodes k ! ip) = length (snd (files_of fs ! (n - 1)))" and ty: "fst (files_of fs ! (n - 1)) \<noteq> T_DEV"
  shows "file_ok k ip" "content k ip = snd (files_of fs ! (n - 1))"
proof -
  note F = inode_in_file[OF M I n ip]
  have l: "length (snd (files_of fs ! (n - 1))) \<le> mk_max" using mk_okD(6)[OF imageD(1)[OF I] n] .
  then have "length (snd (files_of fs ! (n - 1))) \<le> MAXFILE * BSIZE" by (simp add: mk_max_def param_defs)
  then show "file_ok k ip" using F(1,2,6) sz ty ip by (auto simp: file_ok_def covers_def inode_in_def)
  show "content k ip = snd (files_of fs ! (n - 1))"
    using F(5,6) l by (intro nth_equalityI) (simp_all add: content_def sz)
qed

lemma pred_div: "(l :: nat) mod BSIZE \<noteq> 0 \<Longrightarrow> l div BSIZE = (l - 1) div BSIZE"
proof -
  assume m: "l mod BSIZE \<noteq> 0"
  have "l = BSIZE * (l div BSIZE) + l mod BSIZE" by simp
  then have "l - 1 = BSIZE * (l div BSIZE) + (l mod BSIZE - 1)" using m by linarith
  moreover have "l mod BSIZE - 1 < BSIZE" by (simp add: BSIZE_def less_imp_diff_less)
  ultimately show ?thesis by (simp add: BSIZE_def)
qed

text \<open>
  C15. \<open>mkfs\<close> succeeds on every input that fits, and a kernel whose disk has the image it writes has a file
  system that satisfies the invariants of the kernel, with an empty log: an inode of the cache that is read from inode \<open>i + 2\<close>
  is a well-formed regular file whose content is the bytes of the \<open>i\<close>-th input file; the root directory starts with the
  entries for \<open>.\<close>, \<open>..\<close> and the files in order, and is a well-formed file filled up with zeros
  unless its entries fill their blocks exactly.
\<close>

theorem mkfs_mounts:
  assumes F: "mkfs_input fs"
  shows "\<exists>s. mkfs fs = Ok () s \<and> (\<forall>k. mounts k s \<longrightarrow> fs_ok k \<and> get32 (view k (lg_start (lg k))) 0 = 0
    \<and> (\<forall>i ip. i < length fs \<and> inode_in k ip (i + 2) \<longrightarrow> file_ok k ip \<and> content k ip = file_bytes (fs ! i)
         \<and> i_type (inodes k ! ip) = T_FILE \<and> i_nlink (inodes k ! ip) = 1)
    \<and> (\<forall>ip. inode_in k ip ROOTINO \<longrightarrow> tree_ok k ip \<and> i_type (inodes k ! ip) = T_DIR
         \<and> take (16 * (length fs + 2)) (content k ip) = root_bytes fs
         \<and> (length fs mod 32 \<noteq> 30 \<longrightarrow> file_ok k ip \<and> (\<exists>m. content k ip = root_bytes fs @ replicate m 0))))"
proof -
  obtain s A where s: "mkfs fs = Ok () s" and I: "image s fs A" using mkfs_image[OF F] by blast
  let ?l = "length (root_bytes fs)"
  have l: "?l = 16 * (length fs + 2)" by (rule length_root_bytes)
  have r0: "snd (files_of fs ! (1 - 1)) = root_bytes fs" "fst (files_of fs ! (1 - 1)) = T_DIR" by (simp_all add: files_of_def)
  have lm: "root_size ?l \<le> mk_max"
  proof -
    have "?l \<le> 3200" using F by (simp add: l mkfs_input_def NINODES_def)
    then have "?l div BSIZE + 1 \<le> 7" using div_le_mono[of ?l 3200 512] by (simp add: BSIZE_def)
    then have "root_size ?l \<le> 7 * BSIZE" unfolding root_size_def by (rule mult_le_mono1)
    then show ?thesis by (simp add: mk_max_def param_defs)
  qed
  have lr: "?l < root_size ?l" by (simp add: root_size_def BSIZE_def)
  have root: "tree_ok k ip \<and> i_type (inodes k ! ip) = T_DIR \<and> take ?l (content k ip) = root_bytes fs
      \<and> (length fs mod 32 \<noteq> 30 \<longrightarrow> file_ok k ip \<and> (\<exists>m. content k ip = root_bytes fs @ replicate m 0))"
    if M: "mounts k s" and ip: "inode_in k ip 1" for k ip
  proof -
    have n: "(1 :: nat) \<in> {1..length fs + 1}" by simp
    note R = inode_in_file[OF M I n ip, unfolded r0]
    have sz: "i_size (inodes k ! ip) = root_size ?l" using R(4) by simp
    have byte: "file_byte k ip x = root_bytes fs ! x" if "x < ?l" for x using R(5,6)[of x] that lr lm by simp
    have "take ?l (content k ip) = map (file_byte k ip) [0..<?l]" using lr by (simp add: content_def sz take_map)
    also have "\<dots> = root_bytes fs" by (rule nth_equalityI) (simp_all add: byte)
    finally have tk: "take ?l (content k ip) = root_bytes fs" .
    have "file_ok k ip \<and> (\<exists>m. content k ip = root_bytes fs @ replicate m 0)" if m: "length fs mod 32 \<noteq> 30"
    proof
      have blk: "blk_of k ip (x div BSIZE) \<noteq> 0" if x: "x < root_size ?l" for x
      proof (cases "x < ?l")
        case False
        have lm0: "?l mod BSIZE \<noteq> 0"
        proof
          assume "?l mod BSIZE = 0"
          then have "(16 * (length fs + 2)) mod (16 * 32) = 0" unfolding l by (simp add: BSIZE_def)
          then have "(length fs + 2) mod 32 = 0" unfolding mult_mod_right[symmetric] by simp
          then show False using m by presburger
        qed
        have "x div BSIZE = ?l div BSIZE"
        proof (rule antisym)
          have "x div BSIZE < ?l div BSIZE + 1" by (rule less_mult_imp_div_less) (use x in \<open>simp only: root_size_def\<close>)
          then show "x div BSIZE \<le> ?l div BSIZE" by linarith
          show "?l div BSIZE \<le> x div BSIZE" by (rule div_le_mono) (use False in simp)
        qed
        also have "\<dots> = (?l - 1) div BSIZE" by (rule pred_div[OF lm0])
        finally have e: "x div BSIZE = (?l - 1) div BSIZE" .
        have "?l - 1 < ?l" by (simp add: l)
        then show ?thesis unfolding e by (rule R(6))
      qed (rule R(6))
      have "root_size ?l \<le> MAXFILE * BSIZE" using lm by (simp add: mk_max_def param_defs)
      then show "file_ok k ip" using R(1,2) blk ip by (simp add: file_ok_def covers_def sz inode_in_def T_DIR_def T_DEV_def)
      have "content k ip = root_bytes fs @ replicate (root_size ?l - ?l) 0"
      proof (rule nth_equalityI)
        fix x assume "x < length (content k ip)"
        then have x: "x < root_size ?l" by (simp add: content_def sz)
        then have "file_byte k ip x = (if x < ?l then root_bytes fs ! x else 0)" using R(5)[OF _ blk[OF x]] lm by simp
        then show "content k ip ! x = (root_bytes fs @ replicate (root_size ?l - ?l) 0) ! x"
          using x by (simp add: content_def sz nth_append)
      qed (use lr in \<open>simp add: content_def sz\<close>)
      then show "\<exists>m. content k ip = root_bytes fs @ replicate m 0" by blast
    qed
    then show ?thesis using R(1,2) tk by blast
  qed
  have files: "file_ok k ip \<and> content k ip = file_bytes (fs ! i) \<and> i_type (inodes k ! ip) = T_FILE \<and> i_nlink (inodes k ! ip) = 1"
    if M: "mounts k s" and i: "i < length fs" and ip: "inode_in k ip (i + 2)" for k i ip
  proof -
    have n: "i + 2 \<in> {1..length fs + 1}" using i by simp
    have f: "files_of fs ! (i + 2 - 1) = (T_FILE, file_bytes (fs ! i))" using i by (simp add: files_of_def)
    note R = inode_in_file[OF M I n ip, unfolded f]
    have sz: "i_size (inodes k ! ip) = length (snd (files_of fs ! (i + 2 - 1)))" unfolding f using R(4) by simp
    show ?thesis using inode_in_ok[OF M I n ip sz] R(2,3) unfolding f by (simp add: T_FILE_def T_DEV_def)
  qed
  have log: "get32 (view k (lg_start (lg k))) 0 = 0" if M: "mounts k s" for k
    using mounts_sb(2,4)[OF M I] imageD(6)[OF I, of 2] by (simp add: zeroes_def BSIZE_def)
  show ?thesis using s mounts_fs_ok[OF _ I] log files root[unfolded l] unfolding ROOTINO_def by blast
qed

text \<open>Two files, and a kernel with the first of them in its inode cache.\<close>

definition mkfs_example :: "(u8 list \<times> u8 list list option) list" where
  "mkfs_example = [([95, 99, 97, 116], Some [[1, 2, 3], [4]]), ([82, 69, 65, 68, 77, 69], Some [])]"

theorem mkfs_mounts_witness:
  "\<exists>s k. mkfs mkfs_example = Ok () s \<and> mounts k s \<and> fs_ok k \<and> inode_in k 0 2 \<and> content k 0 = [1, 2, 3, 4]"
proof -
  have "mkfs_input mkfs_example"
    by (simp add: mkfs_input_def mkfs_example_def file_bytes_def mk_max_def nblk_def nmeta_eq NINODES_def param_defs)
  from mkfs_mounts[OF this] obtain s where s: "mkfs mkfs_example = Ok () s"
    and P: "\<And>k. mounts k s \<Longrightarrow> fs_ok k \<and> (\<forall>i ip. i < length mkfs_example \<and> inode_in k ip (i + 2) \<longrightarrow> content k ip = file_bytes (mkfs_example ! i))"
    by blast
  let ?i = "(load_dinode (mk_inode (img s) 2) zero_inode)\<lparr>i_dev := 1\<rparr>"
  let ?k = "(kernel0 (img s) (nsect s))\<lparr>sb := dec_sb (img s 1), inodes := [?i], lg := zero_log\<lparr>lg_start := sb_logstart (dec_sb (img s 1))\<rparr>\<rparr>"
  have "view ?k = img s"
  proof
    fix n
    have "List.find (\<lambda>i. b_valid (bufs ?k ! i) \<and> b_dev (bufs ?k ! i) = 1 \<and> b_blockno (bufs ?k ! i) = n) [0..<NBUF] = None"
      by (auto simp: find_None_iff kernel0_def zero_buf_def)
    then show "view ?k n = img s n" by (simp add: view_def kernel0_def)
  qed
  then have M: "mounts ?k s" by (simp add: mounts_def) (simp add: kernel0_def)
  obtain A where "image s mkfs_example A"
    using mkfs_image[OF \<open>mkfs_input mkfs_example\<close>] s by auto
  then have "disk_inode ?k 2 = mk_inode (img s) 2" by (rule mounts_sb(6)[OF M])
  then have "inode_in ?k 0 2" by (simp only: inode_in_def) (simp add: inode_in_def dinode_of_def load_dinode_def)
  moreover have "0 < length mkfs_example" "file_bytes (mkfs_example ! 0) = [1, 2, 3, 4]"
    by (simp_all add: mkfs_example_def file_bytes_def)
  ultimately have "content ?k 0 = [1, 2, 3, 4]" "fs_ok ?k" using P[OF M] by (metis add_0)+
  then show ?thesis using M s \<open>inode_in ?k 0 2\<close> by blast
qed

end
