(* ===== verification/Kbd.thy ===== *)
theory Kbd
  imports Console
begin

text \<open>
  The keyboard (kbd.c, kbd.h): scan codes to characters. The controller is a parameter: the bytes it has, one per
  call of \<open>kbdgetc\<close>, until its buffer is empty.
\<close>

definition SHIFT :: "32 word" where "SHIFT = 1"
definition CTL :: "32 word" where "CTL = 2"
definition ALT :: "32 word" where "ALT = 4"
definition CAPSLOCK :: "32 word" where "CAPSLOCK = 8"
definition NUMLOCK :: "32 word" where "NUMLOCK = 16"
definition SCROLLLOCK :: "32 word" where "SCROLLLOCK = 32"
definition E0ESC :: "32 word" where "E0ESC = 64"

lemmas kbd_defs = SHIFT_def CTL_def ALT_def CAPSLOCK_def NUMLOCK_def SCROLLLOCK_def E0ESC_def

text \<open>A table of 256 bytes from the first ones and the designated ones.\<close>

definition init_table :: "32 word list \<Rightarrow> (nat \<times> 32 word) list \<Rightarrow> 32 word list" where
  "init_table xs ds = foldl (\<lambda>t (i, v). t[i := v]) (xs @ replicate (256 - length xs) 0) ds"

abbreviation codes :: "string \<Rightarrow> 32 word list" where
  "codes s \<equiv> map of_char s"

definition shiftcode :: "32 word list" where
  "shiftcode = init_table [] [(0x1D, CTL), (0x2A, SHIFT), (0x36, SHIFT), (0x38, ALT), (0x9D, CTL), (0xB8, ALT)]"

definition togglecode :: "32 word list" where
  "togglecode = init_table [] [(0x3A, CAPSLOCK), (0x45, NUMLOCK), (0x46, SCROLLLOCK)]"

text \<open>The cursor keys: \<open>KEY_UP\<close>, \<open>KEY_DN\<close>, \<open>KEY_PGUP\<close>, \<open>KEY_PGDN\<close>, \<open>KEY_LF\<close>, \<open>KEY_RT\<close>, \<open>KEY_HOME\<close>, \<open>KEY_END\<close>, \<open>KEY_INS\<close>, \<open>KEY_DEL\<close>.\<close>

definition cursor_keys :: "(nat \<times> 32 word) list" where
  "cursor_keys = [(0xC8, 0xE2), (0xD0, 0xE3), (0xC9, 0xE6), (0xD1, 0xE7), (0xCB, 0xE4), (0xCD, 0xE5),
     (0x97, 0xE0), (0xCF, 0xE1), (0xD2, 0xE8), (0xD3, 0xE9)]"

definition keypad :: "32 word list" where
  "keypad = [0, 0x20] @ replicate 13 0 @ codes ''789-456+1230.''"

definition normalmap :: "32 word list" where
  "normalmap = init_table ([0, 0x1B] @ codes ''1234567890-='' @ [0x08, 0x09] @ codes ''qwertyuiop[]'' @ [0x0A, 0] @ codes ''asdfghjkl;''
     @ [0x27, 0x60, 0, 0x5C] @ codes ''zxcvbnm,./'' @ [0] @ codes ''*'' @ keypad) ([(0x9C, 0x0A), (0xB5, 0x2F)] @ cursor_keys)"

definition shiftmap :: "32 word list" where
  "shiftmap = init_table ([0, 0x1B] @ codes ''!@#$%^&*()_+'' @ [0x08, 0x09] @ codes ''QWERTYUIOP{}'' @ [0x0A, 0] @ codes ''ASDFGHJKL:''
     @ [0x22, 0x7E, 0, 0x7C] @ codes ''ZXCVBNM<>?'' @ [0] @ codes ''*'' @ keypad) ([(0x9C, 0x0A), (0xB5, 0x2F)] @ cursor_keys)"

text \<open>\<open>C(x)\<close>, in a byte.\<close>

definition ctl :: "char \<Rightarrow> 32 word" where
  "ctl c = and (of_char c - 0x40) 0xFF"

definition ctlmap :: "32 word list" where
  "ctlmap = init_table (replicate 16 0 @ map ctl ''QWERTYUIOP'' @ [0, 0, 0x0D, 0] @ map ctl ''ASDFGHJKL'' @ [0, 0, 0, 0, ctl (CHR 0x5C)]
     @ map ctl ''ZXCVBNM'' @ [0, 0, ctl (CHR ''/''), 0, 0]) ([(0x9C, 0x0D), (0xB5, ctl (CHR ''/''))] @ cursor_keys)"

definition charcode :: "32 word list list" where
  "charcode = [normalmap, shiftmap, ctlmap, ctlmap]"

text \<open>\<open>kbdgetc\<close> for the data byte in the controller, if there is one: the result and the new \<open>shift\<close>.\<close>

definition kbdgetc :: "32 word option \<Rightarrow> 32 word \<Rightarrow> int \<times> 32 word" where
  "kbdgetc d shift = (case d of None \<Rightarrow> (- 1, shift) | Some data \<Rightarrow>
     if data = 0xE0 then (0, or shift E0ESC)
     else if and data 0x80 \<noteq> 0 then
       let data = (if and shift E0ESC \<noteq> 0 then data else and data 0x7F) in
       (0, and shift (not (or (shiftcode ! unat data) E0ESC)))
     else
       let (data, shift) = (if and shift E0ESC \<noteq> 0 then (or data 0x80, and shift (not E0ESC)) else (data, shift));
           shift = or shift (shiftcode ! unat data);
           shift = xor shift (togglecode ! unat data);
           c = charcode ! unat (and shift (or CTL SHIFT)) ! unat data;
           c = (if and shift CAPSLOCK \<noteq> 0 then
                  (if 0x61 \<le> c \<and> c \<le> 0x7A then c + (0x41 - 0x61)
                   else if 0x41 \<le> c \<and> c \<le> 0x5A then c + (0x61 - 0x41) else c)
                else c) in
       (uint c, shift))"

text \<open>The characters \<open>consoleintr\<close> reads from \<open>kbdgetc\<close>.\<close>

fun kbd_chars :: "32 word list \<Rightarrow> 32 word \<Rightarrow> int list \<times> 32 word" where
  "kbd_chars [] shift = ([], shift)"
| "kbd_chars (d # ds) shift = (let (c, shift) = kbdgetc (Some d) shift; (cs, shift) = kbd_chars ds shift in (c # cs, shift))"

definition kbdintr :: "32 word list \<Rightarrow> 32 word \<Rightarrow> kst \<Rightarrow> unit kres \<times> 32 word" where
  "kbdintr ds shift s = (let (cs, shift) = kbd_chars ds shift in (consoleintr cs s, shift))"

subsection \<open>The tables\<close>

lemma length_init_table: "length xs \<le> 256 \<Longrightarrow> length (init_table xs ds) = 256"
proof -
  have "length (foldl (\<lambda>t (i, v). t[i := v]) t ds) = length t" for t :: "32 word list"
    by (induction ds arbitrary: t) (auto split: prod.splits)
  then show "length xs \<le> 256 \<Longrightarrow> length (init_table xs ds) = 256" by (simp add: init_table_def)
qed

lemma table_lengths: "length shiftcode = 256" "length togglecode = 256" "\<forall>t \<in> set charcode. length t = 256"
  by (simp_all add: shiftcode_def togglecode_def charcode_def normalmap_def shiftmap_def ctlmap_def length_init_table keypad_def)

lemma byte_or: "(a :: nat) < 256 \<Longrightarrow> b < 256 \<Longrightarrow> or a b < 256"
proof -
  assume "a < 256" "b < 256"
  then have "or a b = take_bit 8 (or a b)" by (simp add: take_bit_or take_bit_nat_eq_self)
  also have "\<dots> < 2 ^ 8" by (rule take_bit_nat_less_exp)
  finally show ?thesis by simp
qed

text \<open>A byte indexes the tables, also with its bit 7 changed.\<close>

lemma table_index: "(d :: 32 word) < 256 \<Longrightarrow> unat d < 256 \<and> unat (and d 0x7F) < 256 \<and> unat (or d 0x80) < 256"
proof -
  assume d256: "d < 256"
  then have d: "unat d < 256" by (simp add: word_less_nat_alt)
  have "and d 0x7F < 256" using d256 by (rule le_less_trans[OF word_and_le2])
  then have "unat (and d 0x7F) < 256" by (simp add: word_less_nat_alt)
  then show ?thesis using d byte_or[OF d, of 128] by (simp add: unsigned_or_eq)
qed

text \<open>The key A with shift.\<close>

lemma typed_A: "kbdgetc (Some 0x1E) SHIFT = (65, SHIFT)"
  by code_simp

text \<open>A modifier key that is pressed and released leaves the other modifiers as they were.\<close>

lemma modifier_codes:
  "list_all (\<lambda>d :: 32 word. d \<noteq> 0xE0 \<and> and d 0x80 = 0 \<and> togglecode ! unat d = 0 \<and> d + 0x80 \<noteq> 0xE0 \<and> and (d + 0x80) 0x80 \<noteq> 0
     \<and> and (d + 0x80) 0x7F = d \<and> and (shiftcode ! unat d) E0ESC = 0) [0x1D, 0x2A, 0x36, 0x38]"
  by code_simp

lemma modifier_released:
  assumes d: "d \<in> {0x1D, 0x2A, 0x36, 0x38}" and e: "and shift E0ESC = 0"
  shows "snd (kbd_chars [d, d + 0x80] shift) = and shift (not (shiftcode ! unat d))"
proof -
  let ?m = "shiftcode ! unat d"
  have "d \<in> set [0x1D, 0x2A, 0x36, 0x38]" using d by simp
  note m = modifier_codes[unfolded list_all_iff, rule_format, OF this]
  have c: "d \<noteq> 0xE0" "and d 0x80 = 0" "togglecode ! unat d = 0" "d + 0x80 \<noteq> 0xE0" "and (d + 0x80) 0x80 \<noteq> 0"
    "and (d + 0x80) 0x7F = d" "and ?m E0ESC = 0" using m by blast+
  have "snd (kbdgetc (Some d) shift) = or shift ?m"
    unfolding kbdgetc_def using c(1-3) e by (simp add: Let_def)
  moreover have "and (or shift ?m) E0ESC = 0" using e c(7) by (simp add: and.commute bit.conj_disj_distrib2 bit.conj_disj_distrib)
  then have "snd (kbdgetc (Some (d + 0x80)) (or shift ?m)) = and (or shift ?m) (not (or ?m E0ESC))"
    unfolding kbdgetc_def using c(4-6) by (simp add: Let_def)
  moreover have "and (or shift ?m) (not (or ?m E0ESC)) = and shift (not ?m)"
  proof (rule bit_word_eqI)
    fix n assume "n < LENGTH(32)"
    have "bit (and shift E0ESC) n \<longleftrightarrow> False" using e by simp
    then show "bit (and (or shift ?m) (not (or ?m E0ESC))) n \<longleftrightarrow> bit (and shift (not ?m)) n" by (auto simp: bit_simps)
  qed
  ultimately show ?thesis by (auto simp: Let_def split: prod.splits)
qed

end
