(* ===== verification/Screen.thy ===== *)
theory Screen
  imports Console Ulib
begin

text \<open>
  Console output (console.c): \<open>cprintf\<close> and \<open>consputc\<close> over the video memory of the screen and the serial line. The
  screen has 25 lines of 80 cells, of which the last one stays empty; a cell is a character with its
  colour in the upper byte. The cursor is kept by the video controller.
\<close>

record screen =
  crt :: "nat list"
  cursor :: nat
  uart :: "nat list"
  panicked :: bool

type_synonym 'a scres = "('a, screen) res"

definition BACKSPACE :: nat where "BACKSPACE = 0x100"

definition cell :: "nat \<Rightarrow> nat" where
  "cell c = c mod 256 + 0x700"

text \<open>The screen moves up by a line.\<close>

definition scroll :: "nat \<Rightarrow> nat list \<Rightarrow> nat \<times> nat list" where
  "scroll pos cs = (let cs = take (23 * 80) (drop 80 cs) @ drop (23 * 80) cs; pos = pos - 80 in
     (pos, take pos cs @ replicate (24 * 80 - pos) 0 @ drop (24 * 80) cs))"

definition cgaputc :: "nat \<Rightarrow> screen \<Rightarrow> unit scres" where
  "cgaputc c s = (let pos = cursor s in
     kbind (if c = 10 then Ok (pos + (80 - pos mod 80)) s
            else if c = BACKSPACE then Ok (pos - 1) s
            else kbind (kguard (pos < length (crt s)) s) (\<lambda>_ s. Ok (pos + 1) (s\<lparr>crt := (crt s)[pos := cell c]\<rparr>))) (\<lambda>pos s.
     kbind (kassert (pos \<le> 25 * 80) ''pos under/overflow'' s) (\<lambda>_ s.
     let (pos, s) = (if 24 \<le> pos div 80 then let (pos, cs) = scroll pos (crt s) in (pos, s\<lparr>crt := cs\<rparr>) else (pos, s)) in
     kbind (kguard (pos < length (crt s)) s) (\<lambda>_ s. Ok () (s\<lparr>cursor := pos, crt := (crt s)[pos := cell 0x20]\<rparr>)))))"

text \<open>A CPU that prints after a panic stops for ever.\<close>

definition consputc :: "nat \<Rightarrow> screen \<Rightarrow> unit scres" where
  "consputc c s = (if panicked s then Panic ''frozen''
     else cgaputc c (s\<lparr>uart := uart s @ (if c = BACKSPACE then [8, 0x20, 8] else [c])\<rparr>))"

definition cons_digits :: string where
  "cons_digits = ''0123456789abcdef''"

function cons_put_digits :: "nat \<Rightarrow> nat \<Rightarrow> string" where
  "cons_put_digits base x = cons_digits ! (x mod base) # (if 1 < base \<and> x div base \<noteq> 0 then cons_put_digits base (x div base) else [])"
  by pat_completeness auto
termination by (relation "measure snd") (auto intro!: div_less_dividend intro: gr0I)

declare cons_put_digits.simps [simp del]

definition cons_printint :: "int \<Rightarrow> nat \<Rightarrow> bool \<Rightarrow> string" where
  "cons_printint xx base sg = (let neg = (sg \<and> xx < 0);
     x = nat ((if neg then - xx else xx) mod 2 ^ 32);
     buf = cons_put_digits base x;
     buf = (if neg then buf @ ''-'' else buf) in
     rev buf)"

text \<open>What \<open>cprintf\<close> prints; \<open>str\<close> is the string at an address, and \<open>None\<close> a missing argument.\<close>

fun cprintf_text :: "(nat \<Rightarrow> string) \<Rightarrow> string \<Rightarrow> nat list \<Rightarrow> string option" where
  "cprintf_text str [] args = Some []"
| "cprintf_text str [c] args = Some (if c = CHR ''%'' then [] else [c])"
| "cprintf_text str (c # d # fmt) args =
     (if c \<noteq> CHR ''%'' then map_option (Cons c) (cprintf_text str (d # fmt) args)
      else if d = CHR ''d'' then (case args of [] \<Rightarrow> None | v # args \<Rightarrow>
        map_option (append (cons_printint (as_int v) 10 True)) (cprintf_text str fmt args))
      else if d = CHR ''x'' \<or> d = CHR ''p'' then (case args of [] \<Rightarrow> None | v # args \<Rightarrow>
        map_option (append (cons_printint (as_int v) 16 False)) (cprintf_text str fmt args))
      else if d = CHR ''s'' then (case args of [] \<Rightarrow> None | v # args \<Rightarrow>
        map_option (append (if v = 0 then ''(null)'' else str v)) (cprintf_text str fmt args))
      else if d = CHR ''%'' then map_option (Cons d) (cprintf_text str fmt args)
      else map_option (append [c, d]) (cprintf_text str fmt args))"

definition cprintf :: "(nat \<Rightarrow> string) \<Rightarrow> string \<Rightarrow> nat list \<Rightarrow> screen \<Rightarrow> unit scres" where
  "cprintf str fmt args s = (case cprintf_text str fmt args of None \<Rightarrow> Undef
     | Some out \<Rightarrow> kfor (map of_char out) consputc s)"

subsection \<open>Output never panics\<close>

definition screen_ok :: "screen \<Rightarrow> bool" where
  "screen_ok s \<longleftrightarrow> length (crt s) = 25 * 80 \<and> cursor s < 24 * 80 \<and> \<not> panicked s"

text \<open>The text above and before the cursor.\<close>

definition shown :: "screen \<Rightarrow> nat list" where
  "shown s = take (cursor s) (crt s)"

lemma scroll_simps:
  assumes "length cs = 25 * 80" "80 \<le> pos" "pos \<le> 25 * 80"
  shows "fst (scroll pos cs) = pos - 80" "length (snd (scroll pos cs)) = 25 * 80"
    "pos \<le> 24 * 80 \<Longrightarrow> take (pos - 80) (snd (scroll pos cs)) = take (pos - 80) (drop 80 cs)"
  using assms by (auto simp: scroll_def Let_def min_def)

text \<open>
  A character that is no newline or backspace is put behind the text, a newline fills up the line, and a
  full screen loses its first line.
\<close>

lemma cgaputc_shows:
  assumes s: "screen_ok s" and c: "c \<noteq> 10" "c \<noteq> BACKSPACE"
  shows "\<exists>t. cgaputc c s = Ok () t \<and> screen_ok t \<and> uart t = uart s
    \<and> shown t = (if cursor s + 1 < 24 * 80 then shown s @ [cell c] else drop 80 (shown s) @ [cell c])"
proof -
  let ?p = "cursor s"
  have p: "?p < 24 * 80" "length (crt s) = 25 * 80" "\<not> panicked s" using s by (simp_all add: screen_ok_def)
  show ?thesis
  proof (cases "?p + 1 < 24 * 80")
    case True
    then have "\<not> 24 \<le> (?p + 1) div 80" by (simp add: not_le less_mult_imp_div_less)
    moreover have "take (?p + 1) ((crt s)[?p := cell c, ?p + 1 := cell 0x20]) = take ?p (crt s) @ [cell c]"
      using p True by (intro nth_equalityI) (auto simp: nth_list_update_if nth_append)
    ultimately show ?thesis using p True c
      by (simp add: cgaputc_def kguard_def kassert_def Let_def screen_ok_def shown_def del: take_update_swap)
  next
    case False
    then have pe: "?p = 1919" using p(1) by simp
    let ?cs = "(crt s)[1919 := cell c]"
    note sc = scroll_simps[of ?cs 1920]
    have "fst (scroll 1920 ?cs) = 1840" using sc(1) p(2) by simp
    then obtain C where e: "scroll 1920 ?cs = (1840, C)" by (cases "scroll 1920 ?cs") simp
    have l: "length C = 2000" and C: "take 1840 C = take 1840 (drop 80 ?cs)" using sc(2,3) p(2) e by simp_all
    have "take 1840 (C[1840 := cell 0x20]) = take 1840 (drop 80 ?cs)" using C by simp
    also have "\<dots> = drop 80 (take 1919 (crt s)) @ [cell c]"
      using p(2) by (intro nth_equalityI) (auto simp: nth_list_update_if nth_append)
    finally have sh: "take 1840 (C[1840 := cell 0x20]) = drop 80 (take 1919 (crt s)) @ [cell c]" .
    let ?t = "s\<lparr>cursor := 1840, crt := C[1840 := cell 0x20]\<rparr>"
    have "cgaputc c s = Ok () ?t" unfolding cgaputc_def using c p pe e l by (simp add: kguard_def kassert_def Let_def)
    moreover have "screen_ok ?t" using l p(3) by (simp add: screen_ok_def)
    ultimately show ?thesis using sh pe by (intro exI[of _ ?t]) (simp only: shown_def screen.simps, simp)
  qed
qed

end
