(* ===== verification/BootLoad.thy ===== *)
theory BootLoad
  imports Trap
begin

text \<open>
  The boot loader (bootmain.c): it reads the kernel, an ELF image that starts at sector 1 of the disk, into physical
  memory and returns the address of its entry point. The disk is a parameter: \<open>insl\<close>, what it answers to a
  command, from the values of its ports and the number of words that are read, and \<open>r\<close>, the values of its
  status port, from the number of the read. A wait that never ends is \<open>None\<close>. The addresses at which
  sectors and zeroes are stored are 32-bit registers, which wrap around.
\<close>

unbundle bit_operations_syntax

record bootst =
  bmem :: memory
  bport :: "nat \<Rightarrow> nat"
  breads :: nat

type_synonym insl_fun = "(nat \<Rightarrow> nat) \<Rightarrow> nat \<Rightarrow> u8 list"

definition SECTSIZE :: nat where "SECTSIZE = 512"

definition ph_paddr :: "u8 list \<Rightarrow> nat" where "ph_paddr b = get32 b 12"

definition boot_outb :: "nat \<Rightarrow> nat \<Rightarrow> bootst \<Rightarrow> bootst" where
  "boot_outb p v s = s\<lparr>bport := (bport s)(p := v mod 256)\<rparr>"

text \<open>What \<open>rep insl\<close> (x86.h) stores at \<open>p\<close>.\<close>

definition put_wrap :: "memory \<Rightarrow> nat \<Rightarrow> u8 list \<Rightarrow> memory" where
  "put_wrap m p xs = (\<lambda>a. if a < 2 ^ 32 \<and> usub a p < length xs then xs ! usub a p else m a)"

subsection \<open>The code\<close>

partial_function (option) waitdisk_loop :: "(nat \<Rightarrow> nat) \<Rightarrow> nat \<Rightarrow> nat option" where
  "waitdisk_loop r n = (if r n AND 0xC0 \<noteq> 0x40 then waitdisk_loop r (n + 1) else Some (n + 1))"

definition waitdisk :: "(nat \<Rightarrow> nat) \<Rightarrow> bootst \<Rightarrow> bootst option" where
  "waitdisk r s = map_option (\<lambda>n. s\<lparr>breads := n\<rparr>) (waitdisk_loop r (breads s))"

definition readsect :: "insl_fun \<Rightarrow> (nat \<Rightarrow> nat) \<Rightarrow> nat \<Rightarrow> nat \<Rightarrow> bootst \<Rightarrow> bootst option" where
  "readsect insl r dst offset s = Option.bind (waitdisk r s) (\<lambda>s.
     let s = boot_outb 0x1F2 1 s;
         s = boot_outb 0x1F3 offset s;
         s = boot_outb 0x1F4 (drop_bit 8 offset) s;
         s = boot_outb 0x1F5 (drop_bit 16 offset) s;
         s = boot_outb 0x1F6 (drop_bit 24 offset OR 0xE0) s;
         s = boot_outb 0x1F7 0x20 s in
     Option.bind (waitdisk r s) (\<lambda>s.
     Some (s\<lparr>bmem := put_wrap (bmem s) dst (insl (bport s) (SECTSIZE div 4))\<rparr>)))"

partial_function (option) readseg_loop :: "insl_fun \<Rightarrow> (nat \<Rightarrow> nat) \<Rightarrow> nat \<Rightarrow> nat \<Rightarrow> nat \<Rightarrow> bootst \<Rightarrow> bootst option" where
  "readseg_loop insl r pa epa offset s = (if pa < epa
     then Option.bind (readsect insl r pa offset s) (readseg_loop insl r (uadd pa SECTSIZE) epa (uadd offset 1))
     else Some s)"

definition readseg :: "insl_fun \<Rightarrow> (nat \<Rightarrow> nat) \<Rightarrow> nat \<Rightarrow> nat \<Rightarrow> nat \<Rightarrow> bootst \<Rightarrow> bootst option" where
  "readseg insl r pa count offset s =
     readseg_loop insl r (usub pa (offset mod SECTSIZE)) (uadd pa count) (uadd (offset div SECTSIZE) 1) s"

text \<open>The loop over the program headers; \<open>ph\<close> and \<open>eph\<close> are addresses.\<close>

partial_function (option) boot_segments :: "insl_fun \<Rightarrow> (nat \<Rightarrow> nat) \<Rightarrow> nat \<Rightarrow> nat \<Rightarrow> bootst \<Rightarrow> bootst option" where
  "boot_segments insl r ph eph s = (if ph < eph
     then let b = region (bmem s) ph 32; pa = ph_paddr b in
       Option.bind (readseg insl r pa (ph_filesz b) (ph_off b) s) (\<lambda>s.
       let b = region (bmem s) ph 32;
           s = (if ph_memsz b > ph_filesz b
             then s\<lparr>bmem := stosb (bmem s) (uadd pa (ph_filesz b)) 0 (ph_memsz b - ph_filesz b)\<rparr> else s) in
       boot_segments insl r (uadd ph 32) eph s)
     else Some s)"

text \<open>The result is the address of the entry, or nothing when the disk holds no kernel.\<close>

definition bootmain :: "insl_fun \<Rightarrow> (nat \<Rightarrow> nat) \<Rightarrow> bootst \<Rightarrow> (nat option \<times> bootst) option" where
  "bootmain insl r s = Option.bind (readseg insl r 0x10000 4096 0 s) (\<lambda>s.
     let elf = region (bmem s) 0x10000 52 in
     if eh_magic elf \<noteq> ELF_MAGIC then Some (None, s)
     else let ph = uadd 0x10000 (eh_phoff elf); eph = uadd ph (32 * eh_phnum elf) in
       Option.bind (boot_segments insl r ph eph s) (\<lambda>s.
       Some (Some (eh_entry (region (bmem s) 0x10000 52)), s)))"

subsection \<open>Reading the disk\<close>

text \<open>
  The disk: it becomes ready again and again, and answers a read command for one sector, addressed by 28 bits,
  with the bytes of that sector; \<open>img\<close> are the bytes of the disk.
\<close>

definition disk_read :: "insl_fun \<Rightarrow> (nat \<Rightarrow> nat) \<Rightarrow> (nat \<Rightarrow> u8) \<Rightarrow> bool" where
  "disk_read insl r img \<longleftrightarrow> (\<forall>n. \<exists>k. r (n + k) AND 0xC0 = 0x40)
     \<and> (\<forall>p. p 0x1F2 = 1 \<and> p 0x1F7 = 0x20 \<and> 0xE0 \<le> p 0x1F6 \<longrightarrow>
          insl p 128 = region img (512 * (p 0x1F3 + 256 * p 0x1F4 + 65536 * p 0x1F5 + 16777216 * (p 0x1F6 mod 16))) 512)"

lemma waitdisk_loop_Some: "r (n + k) AND 0xC0 = 0x40 \<Longrightarrow> \<exists>j. waitdisk_loop r n = Some j"
proof (induction k arbitrary: n)
  case (Suc k)
  have "n + 1 + k = n + Suc k" by simp
  then have "r ((n + 1) + k) AND 0xC0 = 0x40" using Suc.prems by (simp only:)
  then show ?case using Suc.IH[of "n + 1"] by (subst waitdisk_loop.simps) (simp del: One_nat_def)
qed (subst waitdisk_loop.simps, simp)

lemma waitdisk_Some: "disk_read insl r img \<Longrightarrow> \<exists>n. waitdisk r s = Some (s\<lparr>breads := n\<rparr>)"
  using waitdisk_loop_Some unfolding disk_read_def waitdisk_def by fastforce

text \<open>\<open>later_boot s m t\<close>: \<open>t\<close> has the memory \<open>m\<close>, and otherwise only the ports have changed.\<close>

definition boot_mem :: "memory \<Rightarrow> bootst option \<Rightarrow> bool" where
  "boot_mem m x \<longleftrightarrow> (\<exists>t. x = Some t \<and> bmem t = m)"

lemma boot_mem_bind: "boot_mem m x \<Longrightarrow> (\<And>s. bmem s = m \<Longrightarrow> boot_mem m' (f s)) \<Longrightarrow> boot_mem m' (Option.bind x f)"
  by (auto simp: boot_mem_def)

lemma lba_bytes:
  fixes n :: nat
  assumes "n < 2 ^ 28"
  shows "n mod 256 + 256 * (drop_bit 8 n mod 256) + 65536 * (drop_bit 16 n mod 256) + 16777216 * (((drop_bit 24 n OR 0xE0) mod 256) mod 16) = n"
    "0xE0 \<le> (drop_bit 24 n OR 0xE0) mod 256"
proof -
  define h where "h = n div 16777216"
  have h: "h < 16" using assms by (simp add: h_def less_mult_imp_div_less)
  have "h OR 0xE0 = h + 0xE0" if "h < 16" for h :: nat
  proof -
    have "h = 0 \<or> h = 1 \<or> h = 2 \<or> h = 3 \<or> h = 4 \<or> h = 5 \<or> h = 6 \<or> h = 7 \<or> h = 8 \<or> h = 9 \<or> h = 10 \<or> h = 11
      \<or> h = 12 \<or> h = 13 \<or> h = 14 \<or> h = 15" using that by presburger
    then show ?thesis by (elim disjE; simp)
  qed
  then have o: "drop_bit 24 n OR 0xE0 = h + 0xE0" using h by (simp add: drop_bit_eq_div h_def)
  show "0xE0 \<le> (drop_bit 24 n OR 0xE0) mod 256" using h by (simp add: o)
  have "(h + 16 * 14) mod 16 = h mod 16" by (rule mod_mult_self2)
  then have "(h + 0xE0) mod 256 mod 16 = h" using h by simp
  moreover have "n mod 256 + 256 * (n div 256 mod 256) + 65536 * (n div 65536 mod 256) + 16777216 * (n div 16777216) = n"
  proof -
    have d: "n div 65536 = n div 256 div 256" "n div 16777216 = n div 256 div 256 div 256"
      by (simp_all flip: div_mult2_eq)
    have m: "x = 256 * (x div 256) + x mod 256" for x :: nat by simp
    show ?thesis unfolding d using m[of n] m[of "n div 256"] m[of "n div 256 div 256"] by linarith
  qed
  ultimately show "n mod 256 + 256 * (drop_bit 8 n mod 256) + 65536 * (drop_bit 16 n mod 256) + 16777216 * (((drop_bit 24 n OR 0xE0) mod 256) mod 16) = n"
    unfolding o by (simp add: drop_bit_eq_div h_def)
qed

lemma put_wrap_eq:
  assumes "p + length xs \<le> 2 ^ 32"
  shows "put_wrap m p xs = put_region m p xs"
proof
  fix a
  show "put_wrap m p xs a = put_region m p xs a"
  proof (cases "xs = []")
    case False
    then have p: "p < 2 ^ 32" using assms by (cases xs) simp_all
    consider "a < p" | "p \<le> a" "a < 2 ^ 32" | "2 ^ 32 \<le> a" by linarith
    then show ?thesis
    proof cases
      case 1
      then have "usub a p = 2 ^ 32 + a - p" using p by (simp add: usub_def)
      then have "\<not> usub a p < length xs" using assms 1 by linarith
      then show ?thesis using 1 by (simp add: put_wrap_def put_region_def)
    next
      case 2
      then show ?thesis by (auto simp: put_wrap_def put_region_def usub_small)
    next
      case 3
      then show ?thesis using assms by (auto simp: put_wrap_def put_region_def)
    qed
  qed (simp add: put_wrap_def)
qed

lemma readsect_eq:
  assumes "disk_read insl r img" "n < 2 ^ 28" "dst + 512 \<le> 2 ^ 32"
  shows "boot_mem (put_region (bmem s) dst (region img (512 * n) 512)) (readsect insl r dst n s)"
proof -
  obtain j where j: "waitdisk r s = Some (s\<lparr>breads := j\<rparr>)" using waitdisk_Some[OF assms(1)] by blast
  define t where "t = (boot_outb 0x1F7 0x20 (boot_outb 0x1F6 (drop_bit 24 n OR 0xE0) (boot_outb 0x1F5 (drop_bit 16 n)
    (boot_outb 0x1F4 (drop_bit 8 n) (boot_outb 0x1F3 n (boot_outb 0x1F2 1 (s\<lparr>breads := j\<rparr>)))))))"
  obtain k where k: "waitdisk r t = Some (t\<lparr>breads := k\<rparr>)" using waitdisk_Some[OF assms(1)] by blast
  have p: "bport t 0x1F2 = 1" "bport t 0x1F7 = 0x20" "bport t 0x1F3 = n mod 256" "bport t 0x1F4 = drop_bit 8 n mod 256"
    "bport t 0x1F5 = drop_bit 16 n mod 256" "bport t 0x1F6 = (drop_bit 24 n OR 0xE0) mod 256"
    by (simp_all add: t_def boot_outb_def)
  have i: "insl (bport t) 128 = region img (512 * n) 512"
    using assms(1) p(1,2) lba_bytes[OF assms(2)] unfolding disk_read_def p(3-6)[symmetric] by metis
  have m: "bmem t = bmem s" by (simp add: t_def boot_outb_def)
  show ?thesis using j k i m put_wrap_eq[of dst "region img (512 * n) 512"] assms(3) by (simp add: readsect_def boot_mem_def SECTSIZE_def Let_def flip: t_def)
qed

lemma region_append: "region m p (k + n) = region m p k @ region m (p + k) n"
  by (rule nth_equalityI) (auto simp: nth_region nth_append)

lemma put_region_append: "put_region (put_region m p xs) (p + length xs) ys = put_region m p (xs @ ys)"
  by (rule ext) (auto simp: put_region_def nth_append)

text \<open>The loop of \<open>readseg\<close> reads whole sectors, as many as are needed to reach \<open>epa\<close>.\<close>

definition sectors :: "nat \<Rightarrow> nat" where
  "sectors n = (n + 511) div 512"

lemma sectors_pos: "0 < n \<Longrightarrow> sectors n = Suc (sectors (n - 512))"
  unfolding sectors_def by (cases "n \<le> 512") (auto simp: div_if le_div_geq)

lemma sectors_bounds: "n \<le> 512 * sectors n" "512 * sectors n < n + 512"
  unfolding sectors_def by linarith+

lemma readseg_loop_eq:
  assumes D: "disk_read insl r img"
  shows "epa + 512 < 2 ^ 32 \<Longrightarrow> n + sectors (epa - pa) < 2 ^ 28 \<Longrightarrow>
    boot_mem (put_region (bmem s) pa (region img (512 * n) (512 * sectors (epa - pa)))) (readseg_loop insl r pa epa n s)"
proof (induction "sectors (epa - pa)" arbitrary: pa n s)
  case 0
  then have "\<not> pa < epa" using sectors_pos[of "epa - pa"] by auto
  then show ?case using 0 by (subst readseg_loop.simps) (simp add: boot_mem_def region_def)
next
  case (Suc k)
  have l: "pa < epa" using Suc.hyps(2) by (cases "pa < epa") (simp_all add: sectors_def)
  have k: "k = sectors (epa - (pa + 512))" "sectors (epa - pa) = Suc k" using Suc.hyps(2) sectors_pos[of "epa - pa"] l by simp_all
  have u: "uadd pa SECTSIZE = pa + 512" "uadd n 1 = n + 1"
    using l Suc.prems by (simp_all add: uadd_small SECTSIZE_def)
  show ?case
  proof (subst readseg_loop.simps, simp only: l if_True u k(2), rule boot_mem_bind)
    show "boot_mem (put_region (bmem s) pa (region img (512 * n) 512)) (readsect insl r pa n s)"
      using Suc.prems l by (intro readsect_eq[OF D]) simp_all
    show "boot_mem (put_region (bmem s) pa (region img (512 * n) (512 * Suc k))) (readseg_loop insl r (pa + 512) epa (n + 1) t)"
      if t: "bmem t = put_region (bmem s) pa (region img (512 * n) 512)" for t
    proof -
      have "boot_mem (put_region (bmem t) (pa + 512) (region img (512 * (n + 1)) (512 * k))) (readseg_loop insl r (pa + 512) epa (n + 1) t)"
        using Suc.hyps(1)[OF k(1), of "n + 1" t] Suc.prems k by simp
      moreover have "put_region (bmem t) (pa + 512) (region img (512 * (n + 1)) (512 * k))
          = put_region (bmem s) pa (region img (512 * n) (512 * Suc k))"
        using put_region_append[of "bmem s" pa "region img (512 * n) 512"] region_append[of img "512 * n" 512 "512 * k"]
        by (simp add: t algebra_simps)
      ultimately show ?thesis by simp
    qed
  qed
qed

text \<open>\<open>readseg\<close> puts the bytes of the image at \<open>pa\<close>; it may change what is in the same sectors around them.\<close>

definition seg_start :: "nat \<Rightarrow> nat \<Rightarrow> nat" where
  "seg_start pa off = pa - off mod 512"

definition seg_len :: "nat \<Rightarrow> nat \<Rightarrow> nat" where
  "seg_len count off = 512 * sectors (count + off mod 512)"

lemma sectors_fit: "512 * k < c + m + 512 \<Longrightarrow> off = 512 * q + m \<Longrightarrow> off + c + 1024 < N \<Longrightarrow> 512 * (q + 1 + k) < (N :: nat)"
  by simp

lemma sector_start: "off = 512 * q + m \<Longrightarrow> 512 * (q + 1) = 512 + off - (m :: nat)"
  by simp

lemma readseg_eq:
  assumes D: "disk_read insl r img" and o: "off mod 512 \<le> pa" "pa + count + 512 < 2 ^ 32" "off + count + 1024 < 2 ^ 37"
  shows "boot_mem (put_region (bmem s) (seg_start pa off) (region img (512 + off - off mod 512) (seg_len count off)))
    (readseg insl r pa count off s)"
proof -
  have u: "usub pa (off mod SECTSIZE) = seg_start pa off" "uadd pa count = pa + count" "uadd (off div SECTSIZE) 1 = off div 512 + 1"
    using o by (simp_all add: usub_small uadd_small SECTSIZE_def seg_start_def)
  have d: "pa + count - seg_start pa off = count + off mod 512" using o(1) by (simp add: seg_start_def)
  have "512 * sectors (count + off mod 512) < count + off mod 512 + 512" by (rule sectors_bounds)
  moreover have q: "off = 512 * (off div 512) + off mod 512" by simp
  moreover have "off + count + 1024 < 137438953472" using o(3) by simp
  ultimately have "512 * (off div 512 + 1 + sectors (count + off mod 512)) < 137438953472" by (rule sectors_fit)
  then have "off div 512 + 1 + sectors (count + off mod 512) < 2 ^ 28" by simp
  moreover have "512 * (off div 512 + 1) = 512 + off - off mod 512" by (rule sector_start[OF q])
  ultimately show ?thesis
    using readseg_loop_eq[OF D, of "pa + count" "off div 512 + 1" "seg_start pa off" s] o(2)
    by (simp add: readseg_def u d seg_len_def)
qed

subsection \<open>Loading the kernel\<close>

text \<open>The memory after segment \<open>b\<close> (a program header) was loaded, the addresses this may change, and where it ends.\<close>

definition seg_end :: "u8 list \<Rightarrow> nat" where
  "seg_end b = max (seg_start (ph_paddr b) (ph_off b) + seg_len (ph_filesz b) (ph_off b)) (ph_paddr b + ph_memsz b)"

definition seg_mem :: "(nat \<Rightarrow> u8) \<Rightarrow> u8 list \<Rightarrow> memory \<Rightarrow> memory" where
  "seg_mem img b m = (let pa = ph_paddr b; off = ph_off b; f = ph_filesz b;
     m = put_region m (seg_start pa off) (region img (512 + off - off mod 512) (seg_len f off)) in
     put_region m (pa + f) (replicate (ph_memsz b - f) 0))"

lemma seg_mem_other:
  assumes "a < seg_start (ph_paddr b) (ph_off b) \<or> seg_end b \<le> a"
  shows "seg_mem img b m a = m a"
  using assms by (auto simp: seg_mem_def seg_end_def put_region_def Let_def seg_start_def)

text \<open>The segment is in memory: its bytes in the file, followed by zeroes.\<close>

definition seg_loaded :: "(nat \<Rightarrow> u8) \<Rightarrow> u8 list \<Rightarrow> memory \<Rightarrow> bool" where
  "seg_loaded img b m \<longleftrightarrow> (\<forall>k < ph_filesz b. m (ph_paddr b + k) = img (512 + ph_off b + k))
     \<and> (\<forall>k < ph_memsz b. ph_filesz b \<le> k \<longrightarrow> m (ph_paddr b + k) = 0)"

lemma seg_loaded_self:
  assumes "ph_off b mod 512 \<le> ph_paddr b"
  shows "seg_loaded img b (seg_mem img b m)"
proof -
  have l: "ph_off b mod 512 + k < seg_len (ph_filesz b) (ph_off b)" if "k < ph_filesz b" for k
    using that sectors_bounds(1)[of "ph_filesz b + ph_off b mod 512"] unfolding seg_len_def by linarith
  have e: "512 + ph_off b - ph_off b mod 512 + (ph_off b mod 512 + k) = 512 + ph_off b + k" for k
    using mod_less_eq_dividend[of "ph_off b" 512] by linarith
  have i: "ph_paddr b + k - seg_start (ph_paddr b) (ph_off b) = ph_off b mod 512 + k" for k
    using assms unfolding seg_start_def by linarith
  have "seg_mem img b m (ph_paddr b + k) = img (512 + ph_off b + k)" if k: "k < ph_filesz b" for k
  proof -
    have "seg_start (ph_paddr b) (ph_off b) \<le> ph_paddr b + k"
      "ph_paddr b + k < seg_start (ph_paddr b) (ph_off b) + seg_len (ph_filesz b) (ph_off b)"
      using l[OF k] i[of k] by (simp_all add: seg_start_def)
    then show ?thesis using k l[OF k]
      by (simp add: seg_mem_def Let_def put_region_def i nth_region e)
  qed
  moreover have "seg_mem img b m (ph_paddr b + k) = 0" if "k < ph_memsz b" "ph_filesz b \<le> k" for k
    using that by (simp add: seg_mem_def Let_def put_region_def)
  ultimately show ?thesis by (simp add: seg_loaded_def)
qed

text \<open>
  An image the loader can load: the program headers are in the first 4096 bytes; no segment, with the zeroes behind it and
  the sectors it is read with, reaches the scratch space of the headers (from 0x10000) or what is below it, or the
  end of memory; and what is written for a segment does not reach the earlier ones.
\<close>

definition prog_header :: "(nat \<Rightarrow> u8) \<Rightarrow> nat \<Rightarrow> u8 list" where
  "prog_header img i = region img (512 + eh_phoff (region img 512 52) + 32 * i) 32"

definition seg_ok :: "u8 list \<Rightarrow> bool" where
  "seg_ok b \<longleftrightarrow> ph_off b mod 512 \<le> ph_paddr b \<and> 0x11000 \<le> seg_start (ph_paddr b) (ph_off b) \<and> ph_paddr b + ph_filesz b + 512 < 2 ^ 32
     \<and> ph_paddr b + ph_memsz b \<le> 2 ^ 32 \<and> ph_off b + ph_filesz b + 1024 < 2 ^ 37"

definition kernel_image :: "(nat \<Rightarrow> u8) \<Rightarrow> bool" where
  "kernel_image img \<longleftrightarrow> (let elf = region img 512 52; n = eh_phnum elf in eh_magic elf = ELF_MAGIC \<and> eh_phoff elf + 32 * n \<le> 4096
     \<and> (\<forall>i < n. seg_ok (prog_header img i) \<and> (\<forall>j < i. let b = prog_header img i; c = prog_header img j in
          seg_end b \<le> ph_paddr c \<or> ph_paddr c + max (ph_filesz c) (ph_memsz c) \<le> seg_start (ph_paddr b) (ph_off b))))"

definition boot_header :: "(nat \<Rightarrow> u8) \<Rightarrow> memory \<Rightarrow> bool" where
  "boot_header img m \<longleftrightarrow> (\<forall>k < 4096. m (0x10000 + k) = img (512 + k))"

lemma boot_header_region: "boot_header img m \<Longrightarrow> o' + n \<le> 4096 \<Longrightarrow> region m (0x10000 + o') n = region img (512 + o') n"
  by (rule nth_equalityI) (simp_all add: nth_region boot_header_def add.assoc)

lemma boot_header_seg: "boot_header img m \<Longrightarrow> seg_ok b \<Longrightarrow> boot_header img (seg_mem img b m)"
  by (simp add: boot_header_def seg_ok_def seg_mem_other)

lemma boot_segments_eq:
  assumes D: "disk_read insl r img" and n: "p + 32 * n \<le> 4096" "p = eh_phoff (region img 512 52)" and S: "\<forall>i < n. seg_ok (prog_header img i)"
  shows "i \<le> n \<Longrightarrow> boot_header img (bmem s) \<Longrightarrow> boot_mem (foldl (\<lambda>m i. seg_mem img (prog_header img i) m) (bmem s) [i..<n])
     (boot_segments insl r (0x10000 + p + 32 * i) (0x10000 + p + 32 * n) s)"
proof (induction "n - i" arbitrary: i s)
  case 0
  then show ?case by (subst boot_segments.simps) (simp add: boot_mem_def)
next
  case (Suc k)
  let ?b = "prog_header img i"
  have i: "i < n" using Suc.hyps(2) by simp
  have b: "region m (0x10000 + p + 32 * i) 32 = ?b" if "boot_header img m" for m
    using boot_header_region[OF that, of "p + 32 * i" 32] i n by (simp add: prog_header_def add.assoc)
  have ok: "seg_ok ?b" using S i by blast
  have u: "uadd (0x10000 + p + 32 * i) 32 = 0x10000 + p + 32 * Suc i" "uadd (ph_paddr ?b) (ph_filesz ?b) = ph_paddr ?b + ph_filesz ?b"
    using i n ok by (simp_all add: uadd_small seg_ok_def)
  let ?m = "put_region (bmem s) (seg_start (ph_paddr ?b) (ph_off ?b)) (region img (512 + ph_off ?b - ph_off ?b mod 512) (seg_len (ph_filesz ?b) (ph_off ?b)))"
  have hm: "boot_header img ?m"
    using Suc.prems(2) ok by (auto simp: boot_header_def put_region_def seg_ok_def)
  have up: "[i..<n] = i # [Suc i..<n]" using i by (rule upt_conv_Cons)
  have lt: "0x10000 + p + 32 * i < 0x10000 + p + 32 * n" using i by simp
  show ?case
  proof (subst boot_segments.simps, simp only: lt if_True b[OF Suc.prems(2)] Let_def, rule boot_mem_bind)
    show "boot_mem ?m (readseg insl r (ph_paddr ?b) (ph_filesz ?b) (ph_off ?b) s)"
      using ok by (intro readseg_eq[OF D]) (simp_all add: seg_ok_def)
    show "boot_mem (foldl (\<lambda>m i. seg_mem img (prog_header img i) m) (bmem s) [i..<n])
      (boot_segments insl r (uadd (0x10000 + p + 32 * i) 32) (0x10000 + p + 32 * n)
        (if ph_memsz (region (bmem t) (0x10000 + p + 32 * i) 32) > ph_filesz (region (bmem t) (0x10000 + p + 32 * i) 32)
         then t\<lparr>bmem := stosb (bmem t) (uadd (ph_paddr ?b) (ph_filesz (region (bmem t) (0x10000 + p + 32 * i) 32))) 0
           (ph_memsz (region (bmem t) (0x10000 + p + 32 * i) 32) - ph_filesz (region (bmem t) (0x10000 + p + 32 * i) 32))\<rparr> else t))"
      if t: "bmem t = ?m" for t
    proof -
      let ?t = "if ph_memsz ?b > ph_filesz ?b then t\<lparr>bmem := stosb (bmem t) (ph_paddr ?b + ph_filesz ?b) 0 (ph_memsz ?b - ph_filesz ?b)\<rparr> else t"
      have bt: "region (bmem t) (0x10000 + p + 32 * i) 32 = ?b" by (rule b) (simp only: t hm)
      have "ph_paddr ?b + ph_filesz ?b + (ph_memsz ?b - ph_filesz ?b) \<le> 2 ^ 32" using ok by (auto simp: seg_ok_def)
      then have mt: "bmem ?t = seg_mem img ?b (bmem s)" by (simp add: t seg_mem_def Let_def stosb_eq)
      have "boot_header img (bmem ?t)" unfolding mt by (rule boot_header_seg[OF Suc.prems(2) ok])
      then have "boot_mem (foldl (\<lambda>m i. seg_mem img (prog_header img i) m) (bmem ?t) [Suc i..<n])
          (boot_segments insl r (0x10000 + p + 32 * Suc i) (0x10000 + p + 32 * n) ?t)"
        using i Suc.hyps by (intro Suc.hyps(1)) simp_all
      then show ?thesis unfolding bt u up foldl_Cons mt .
    qed
  qed
qed

lemma segments_loaded:
  assumes "\<forall>i < n. seg_ok (prog_header img i) \<and> (\<forall>j < i. let b = prog_header img i; c = prog_header img j in
     seg_end b \<le> ph_paddr c \<or> ph_paddr c + max (ph_filesz c) (ph_memsz c) \<le> seg_start (ph_paddr b) (ph_off b))"
  shows "\<forall>i < n. seg_loaded img (prog_header img i) (foldl (\<lambda>m i. seg_mem img (prog_header img i) m) m [0..<n])"
  using assms
proof (induction n)
  case (Suc n)
  let ?m = "foldl (\<lambda>m i. seg_mem img (prog_header img i) m) m [0..<n]" and ?b = "prog_header img n"
  have "seg_loaded img (prog_header img i) (seg_mem img ?b ?m)" if "i < Suc n" for i
  proof (cases "i = n")
    case True
    then show ?thesis using Suc.prems by (auto intro: seg_loaded_self simp: seg_ok_def)
  next
    case False
    let ?c = "prog_header img i"
    have d: "seg_end ?b \<le> ph_paddr ?c \<or> ph_paddr ?c + max (ph_filesz ?c) (ph_memsz ?c) \<le> seg_start (ph_paddr ?b) (ph_off ?b)"
      using Suc.prems that False by (metis lessI less_antisym)
    have "seg_mem img ?b ?m (ph_paddr ?c + k) = ?m (ph_paddr ?c + k)" if "k < max (ph_filesz ?c) (ph_memsz ?c)" for k
      using d that by (intro seg_mem_other) linarith
    moreover have "seg_loaded img ?c ?m" using Suc that False by simp
    ultimately show ?thesis by (simp add: seg_loaded_def)
  qed
  then show ?case by simp
qed simp

text \<open>
  C35. The boot loader loads the kernel. On a disk that answers the commands for single sectors, \<open>bootmain\<close>
  gives up when the magic number is wrong; and when the image can be loaded (\<open>kernel_image\<close>) it ends with the entry point of the
  image and every segment in memory, its bytes of the file followed by zeroes up to its size in memory, although
  whole sectors are read around every segment.
\<close>

theorem bootmain_loads:
  assumes D: "disk_read insl r img"
  shows "(kernel_image img \<longrightarrow> (\<exists>t. bootmain insl r s = Some (Some (eh_entry (region img 512 52)), t)
      \<and> (\<forall>i < eh_phnum (region img 512 52). seg_loaded img (prog_header img i) (bmem t))))
    \<and> (eh_magic (region img 512 52) \<noteq> ELF_MAGIC \<longrightarrow> (\<exists>t. bootmain insl r s = Some (None, t)))"
proof -
  let ?elf = "region img 512 52"
  obtain u where u: "readseg insl r 0x10000 4096 0 s = Some u" "bmem u = put_region (bmem s) 0x10000 (region img 512 4096)"
    using readseg_eq[OF D, where off = 0 and pa = "0x10000" and count = 4096 and s = s] by (auto simp: boot_mem_def seg_start_def seg_len_def sectors_def)
  have h: "boot_header img (bmem u)" by (simp add: boot_header_def u(2) put_region_def nth_region)
  have e: "region m 0x10000 52 = ?elf" if "boot_header img m" for m using boot_header_region[OF that, of 0 52] by simp
  have "\<exists>t. bootmain insl r s = Some (Some (eh_entry ?elf), t) \<and> (\<forall>i < eh_phnum ?elf. seg_loaded img (prog_header img i) (bmem t))"
    if K: "kernel_image img"
  proof -
    let ?n = "eh_phnum ?elf" and ?p = "eh_phoff ?elf"
    let ?m = "\<lambda>n. foldl (\<lambda>m i. seg_mem img (prog_header img i) m) (bmem u) [0..<n]"
    note K = K[unfolded kernel_image_def Let_def]
    have S: "\<forall>i < ?n. seg_ok (prog_header img i)" and f: "?p + 32 * ?n \<le> 4096" using K by blast+
    obtain t where t: "boot_segments insl r (0x10000 + ?p) (0x10000 + ?p + 32 * ?n) u = Some t" "bmem t = ?m ?n"
      using boot_segments_eq[OF D f refl S, of 0 u] h by (auto simp: boot_mem_def)
    have "boot_header img (?m n)" if "n \<le> ?n" for n
      using that S by (induction n) (simp_all add: h boot_header_seg)
    then have "boot_header img (bmem t)" by (simp add: t(2))
    moreover have "uadd 0x10000 ?p = 0x10000 + ?p" "uadd (0x10000 + ?p) (32 * ?n) = 0x10000 + ?p + 32 * ?n"
      using f by (simp_all add: uadd_small)
    ultimately have "bootmain insl r s = Some (Some (eh_entry ?elf), t)"
      using K u(1) t(1) by (simp add: bootmain_def Let_def e h)
    moreover have "\<forall>i < ?n. seg_loaded img (prog_header img i) (bmem t)"
      unfolding t(2) using K by (intro segments_loaded) (simp add: Let_def)
    ultimately show ?thesis by blast
  qed
  moreover have "\<exists>t. bootmain insl r s = Some (None, t)" if "eh_magic ?elf \<noteq> ELF_MAGIC"
    using that u(1) by (simp add: bootmain_def Let_def e[OF h])
  ultimately show ?thesis by blast
qed

text \<open>A disk with a small kernel: 100 bytes at 1 MB, followed by 100 zeroes.\<close>

definition boot_bytes :: "u8 list" where
  "boot_bytes = [0x7F, 0x45, 0x4C, 0x46] @ replicate 20 0 @ [0x0C, 0, 0x10, 0] @ [52, 0, 0, 0] @ replicate 12 0 @ [1, 0] @ replicate 6 0
     @ [1, 0, 0, 0] @ [0, 16, 0, 0] @ [0, 0, 16, 128] @ [0, 0, 16, 0] @ [100, 0, 0, 0] @ [200, 0, 0, 0] @ replicate 8 0"

definition boot_img :: "nat \<Rightarrow> u8" where
  "boot_img a = (if 512 \<le> a \<and> a < 596 then boot_bytes ! (a - 512) else 7)"

definition boot_disk :: insl_fun where
  "boot_disk p n = region boot_img (512 * (p 0x1F3 + 256 * p 0x1F4 + 65536 * p 0x1F5 + 16777216 * (p 0x1F6 mod 16))) (4 * n)"

lemma boot_region: "i + n \<le> 84 \<Longrightarrow> region boot_img (512 + i) n = take n (drop i boot_bytes)"
  by (rule nth_equalityI) (simp_all add: nth_region boot_img_def, simp_all add: boot_bytes_def)

theorem bootmain_loads_witness:
  "\<exists>t. bootmain boot_disk (\<lambda>_. 0x40) \<lparr>bmem = (\<lambda>_. 0), bport = (\<lambda>_. 0), breads = 0\<rparr> = Some (Some 0x10000C, t) \<and> bmem t 0x100000 = 7 \<and> bmem t 0x100064 = 0"
proof -
  have D: "disk_read boot_disk (\<lambda>_. 0x40) boot_img" by (simp add: disk_read_def boot_disk_def)
  have e: "region boot_img 512 52 = take 52 boot_bytes" using boot_region[of 0 52] by simp
  have f: "eh_magic (take 52 boot_bytes) = ELF_MAGIC" "eh_phoff (take 52 boot_bytes) = 52" "eh_phnum (take 52 boot_bytes) = 1"
    "eh_entry (take 52 boot_bytes) = 0x10000C"
    by (simp_all add: One_nat_def eh_magic_def eh_phoff_def eh_phnum_def eh_entry_def ELF_MAGIC_def get32_def get16_def boot_bytes_def nth_append)
  have b: "prog_header boot_img 0 = take 32 (drop 52 boot_bytes)"
    using boot_region[of 52 32] by (simp add: prog_header_def e f)
  have g: "ph_off (prog_header boot_img 0) = 4096" "ph_paddr (prog_header boot_img 0) = 0x100000" "ph_filesz (prog_header boot_img 0) = 100"
    "ph_memsz (prog_header boot_img 0) = 200"
    by (simp_all add: One_nat_def b ph_off_def ph_paddr_def ph_filesz_def ph_memsz_def get32_def get16_def boot_bytes_def nth_append)
  have "kernel_image boot_img" by (simp add: kernel_image_def e f seg_ok_def g seg_start_def)
  then obtain t where t: "bootmain boot_disk (\<lambda>_. 0x40) \<lparr>bmem = (\<lambda>_. 0), bport = (\<lambda>_. 0), breads = 0\<rparr> = Some (Some 0x10000C, t)"
    "seg_loaded boot_img (prog_header boot_img 0) (bmem t)"
    using bootmain_loads[OF D] by (auto simp: e f)
  have l: "\<And>k. k < 100 \<Longrightarrow> bmem t (0x100000 + k) = boot_img (512 + 4096 + k)"
    "\<And>k. k < 200 \<Longrightarrow> 100 \<le> k \<Longrightarrow> bmem t (0x100000 + k) = 0"
    using t(2) unfolding seg_loaded_def g by blast+
  have "bmem t 0x100000 = boot_img 4608" "bmem t 0x100064 = 0" using l(1)[of 0] l(2)[of 100] by simp_all
  then show ?thesis using t(1) by (simp add: boot_img_def)
qed

end
