(* ===== verification/Mp.thy ===== *)
theory Mp
  imports CString Bytes
begin

text \<open>
  The search for the processors (mp.c, mp.h): \<open>mpinit\<close> finds the MP floating pointer structure and the configuration table
  the BIOS left in memory and collects the processors. Memory is \<open>m\<close>, by physical address; a structure is named by its
  address, and read wherever the tables say it is (the kernel maps physical memory up to \<open>PHYSTOP\<close> only; a table above it
  cannot be read, and the model describes BIOS tables below it). The value of port 0x23 is a parameter. A loop that never ends is \<open>None\<close>.
\<close>

unbundle bit_operations_syntax

definition NCPU :: nat where "NCPU = 8"

definition MPPROC :: u8 where "MPPROC = 0"
definition MPBUS :: u8 where "MPBUS = 1"
definition MPIOAPIC :: u8 where "MPIOAPIC = 2"
definition MPIOINTR :: u8 where "MPIOINTR = 3"
definition MPLINTR :: u8 where "MPLINTR = 4"

lemmas mp_types = MPPROC_def MPBUS_def MPIOAPIC_def MPIOINTR_def MPLINTR_def

record mpst =
  cpu_apicid :: "u8 list"
  ncpu :: nat
  ioapicid :: u8
  lapic_addr :: nat
  mp_port :: "nat \<Rightarrow> nat"

text \<open>The fields of \<open>struct mp\<close> (16 bytes) and of \<open>struct mpconf\<close> (44 bytes).\<close>

definition mp_physaddr :: "memory \<Rightarrow> nat \<Rightarrow> nat" where "mp_physaddr m p = get32 (region m (p + 4) 4) 0"
definition mp_imcrp :: "memory \<Rightarrow> nat \<Rightarrow> u8" where "mp_imcrp m p = m (p + 12)"
definition conf_length :: "memory \<Rightarrow> nat \<Rightarrow> nat" where "conf_length m c = get16 (region m (c + 4) 2) 0"
definition conf_version :: "memory \<Rightarrow> nat \<Rightarrow> u8" where "conf_version m c = m (c + 6)"
definition conf_lapicaddr :: "memory \<Rightarrow> nat \<Rightarrow> nat" where "conf_lapicaddr m c = get32 (region m (c + 36) 4) 0"

subsection \<open>The search\<close>

definition mp_sum :: "memory \<Rightarrow> nat \<Rightarrow> nat \<Rightarrow> nat" where
  "mp_sum m a n = sum_list (map unat (region m a n)) mod 256"

definition mpsearch1 :: "memory \<Rightarrow> nat \<Rightarrow> nat \<Rightarrow> nat option" where
  "mpsearch1 m a n = List.find (\<lambda>p. region m p 4 = [0x5F, 0x4D, 0x50, 0x5F] \<and> mp_sum m p 16 = 0)
     (map (\<lambda>k. a + 16 * k) [0..<(n + 15) div 16])"

definition mpsearch :: "memory \<Rightarrow> nat option" where
  "mpsearch m = (let bda = 0x400;
     p = push_bit 4 (push_bit 8 (unat (m (bda + 0x0F))) OR unat (m (bda + 0x0E)));
     r = (if p \<noteq> 0 then mpsearch1 m p 1024
          else let p = (push_bit 8 (unat (m (bda + 0x14))) OR unat (m (bda + 0x13))) * 1024 in mpsearch1 m (usub p 1024) 1024) in
     case r of Some mp \<Rightarrow> Some mp | None \<Rightarrow> mpsearch1 m 0xF0000 0x10000)"

definition mpconfig :: "memory \<Rightarrow> (nat \<times> nat) option" where
  "mpconfig m = (case mpsearch m of None \<Rightarrow> None | Some mp \<Rightarrow>
     if mp_physaddr m mp = 0 then None
     else let conf = mp_physaddr m mp in
       if region m conf 4 \<noteq> [0x50, 0x43, 0x4D, 0x50] then None
       else if conf_version m conf \<noteq> 1 \<and> conf_version m conf \<noteq> 4 then None
       else if mp_sum m conf (conf_length m conf) \<noteq> 0 then None
       else Some (mp, conf))"

subsection \<open>The table\<close>

definition mp_cpu :: "memory \<Rightarrow> nat \<Rightarrow> mpst \<Rightarrow> mpst" where
  "mp_cpu m p s = (if ncpu s < NCPU then s\<lparr>cpu_apicid := (cpu_apicid s)[ncpu s := m (p + 1)], ncpu := ncpu s + 1\<rparr> else s)"

text \<open>The loop over the entries, with the variable \<open>ismp\<close>. The \<open>break\<close> of the default case only leaves the \<open>switch\<close>.\<close>

partial_function (option) mp_loop :: "memory \<Rightarrow> nat \<Rightarrow> nat \<Rightarrow> bool \<Rightarrow> mpst \<Rightarrow> (bool \<times> mpst) option" where
  "mp_loop m e p ismp s = (if p < e then
       if m p = MPPROC then mp_loop m e (p + 20) ismp (mp_cpu m p s)
       else if m p = MPIOAPIC then mp_loop m e (p + 8) ismp (s\<lparr>ioapicid := m (p + 1)\<rparr>)
       else if m p = MPBUS \<or> m p = MPIOINTR \<or> m p = MPLINTR then mp_loop m e (p + 8) ismp s
       else mp_loop m e p False s
     else Some (ismp, s))"

definition mpinit :: "memory \<Rightarrow> nat \<Rightarrow> mpst \<Rightarrow> (unit, mpst) res option" where
  "mpinit m inb s = (case mpconfig m of None \<Rightarrow> Some (Panic ''Expect to run on an SMP'') | Some (mp, conf) \<Rightarrow>
     map_option (\<lambda>(ismp, s).
       if \<not> ismp then Panic ''Didn't find a suitable machine''
       else if mp_imcrp m mp \<noteq> 0 then Ok () (s\<lparr>mp_port := (mp_port s)(0x22 := 0x70, 0x23 := inb OR 1)\<rparr>)
       else Ok () s)
     (mp_loop m (conf + conf_length m conf) (conf + 44) True (s\<lparr>lapic_addr := conf_lapicaddr m conf\<rparr>)))"

subsection \<open>What it finds\<close>

definition entry_size :: "u8 \<Rightarrow> nat" where
  "entry_size b = (if b = MPPROC then 20 else 8)"

definition known_entry :: "u8 \<Rightarrow> bool" where
  "known_entry b \<longleftrightarrow> b \<in> {MPPROC, MPBUS, MPIOAPIC, MPIOINTR, MPLINTR}"

text \<open>The entries \<open>xs\<close> follow each other from \<open>p\<close> to \<open>q\<close>; all start before \<open>e\<close> and have a known type.\<close>

fun mp_chain :: "memory \<Rightarrow> nat \<Rightarrow> nat \<Rightarrow> nat list \<Rightarrow> nat \<Rightarrow> bool" where
  "mp_chain m e p [] q \<longleftrightarrow> p = q"
| "mp_chain m e p (x # xs) q \<longleftrightarrow> x = p \<and> p < e \<and> known_entry (m p) \<and> mp_chain m e (p + entry_size (m p)) xs q"

definition mp_entry :: "memory \<Rightarrow> mpst \<Rightarrow> nat \<Rightarrow> mpst" where
  "mp_entry m s p = (if m p = MPPROC then mp_cpu m p s else if m p = MPIOAPIC then s\<lparr>ioapicid := m (p + 1)\<rparr> else s)"

lemma mp_loop_chain: "mp_chain m e p xs q \<Longrightarrow> mp_loop m e p b s = mp_loop m e q b (foldl (mp_entry m) s xs)"
proof (induction xs arbitrary: p s)
  case (Cons x xs)
  then have x: "p < e" "known_entry (m p)" "mp_chain m e (p + entry_size (m p)) xs q" "x = p" by simp_all
  have "mp_loop m e p b s = mp_loop m e (p + entry_size (m p)) b (mp_entry m s p)"
    using x(1,2) by (subst mp_loop.simps) (auto simp: known_entry_def entry_size_def mp_entry_def mp_types)
  then show ?case using Cons.IH[OF x(3)] x(4) by simp
qed simp

text \<open>At an entry of an unknown type the loop never ends.\<close>

lemma mp_loop_stuck:
  assumes "mp_loop m e p b s = Some y"
  shows "\<not> (p < e \<and> \<not> known_entry (m p))"
proof (rule mp_loop.raw_induct[where P = "\<lambda>m e p b s y. \<not> (p < e \<and> \<not> known_entry (m p))", OF _ assms])
  fix loop m e p b s y
  assume ih: "\<And>m e p b s y. loop m e p b s = Some y \<Longrightarrow> \<not> (p < e \<and> \<not> known_entry (m p))"
    and r: "(if p < e then
       if m p = MPPROC then loop m e (p + 20) b (mp_cpu m p s)
       else if m p = MPIOAPIC then loop m e (p + 8) b (s\<lparr>ioapicid := m (p + 1)\<rparr>)
       else if m p = MPBUS \<or> m p = MPIOINTR \<or> m p = MPLINTR then loop m e (p + 8) b s
       else loop m e p False s
     else Some (b, s)) = Some y"
  show "\<not> (p < e \<and> \<not> known_entry (m p))"
    using r ih[of m e p False s y] by (auto simp: known_entry_def split: if_splits)
qed

lemma mp_loop_unknown: "p < e \<Longrightarrow> \<not> known_entry (m p) \<Longrightarrow> mp_loop m e p b s = None"
  using mp_loop_stuck by (cases "mp_loop m e p b s") blast+

definition found_cpus :: "mpst \<Rightarrow> u8 list" where
  "found_cpus s = take (ncpu s) (cpu_apicid s)"

lemma mp_entries_cpus:
  assumes "length (cpu_apicid s) = NCPU" "ncpu s \<le> NCPU"
  shows "let t = foldl (mp_entry m) s xs in length (cpu_apicid t) = NCPU \<and> ncpu t \<le> NCPU
     \<and> found_cpus t = take NCPU (found_cpus s @ map (\<lambda>x. m (x + 1)) (filter (\<lambda>x. m x = MPPROC) xs))
     \<and> lapic_addr t = lapic_addr s \<and> mp_port t = mp_port s"
  using assms
proof (induction xs arbitrary: s)
  case Nil
  then show ?case by (simp add: found_cpus_def Let_def)
next
  case (Cons x xs)
  let ?t = "mp_entry m s x"
  have t: "length (cpu_apicid ?t) = NCPU" "ncpu ?t \<le> NCPU" "lapic_addr ?t = lapic_addr s" "mp_port ?t = mp_port s"
    using Cons.prems by (auto simp: mp_entry_def mp_cpu_def)
  have f: "take NCPU (found_cpus ?t @ ys) = take NCPU (found_cpus s @ (if m x = MPPROC then [m (x + 1)] else []) @ ys)" for ys
    using Cons.prems by (auto simp: mp_entry_def mp_cpu_def found_cpus_def take_Suc_conv_app_nth MPPROC_def MPIOAPIC_def One_nat_def)
  show ?case using Cons.IH[OF t(1,2)] by (simp add: Let_def t(3,4) f del: take_append)
qed

text \<open>
  C36. Finding the processors. When the configuration table is a sequence of entries of the known types, \<open>mpinit\<close> returns, with
  the identifiers of the processors of the table in their order, cut to the \<open>NCPU\<close> there is room for, and the address
  of the local controller. When it contains an entry of another type, \<open>mpinit\<close> never returns: the \<open>break\<close>
  of that case does not leave the loop, so that the panic after it is never reached.
\<close>

theorem mpinit_processors:
  assumes c: "mpconfig m = Some (mp, conf)" and x: "mp_chain m (conf + conf_length m conf) (conf + 44) xs q"
    and s: "length (cpu_apicid s) = NCPU" "ncpu s = 0"
  shows "(conf + conf_length m conf \<le> q \<longrightarrow> (\<exists>t. mpinit m inb s = Some (Ok () t)
      \<and> found_cpus t = take NCPU (map (\<lambda>x. m (x + 1)) (filter (\<lambda>x. m x = MPPROC) xs)) \<and> lapic_addr t = conf_lapicaddr m conf))
    \<and> (q < conf + conf_length m conf \<and> \<not> known_entry (m q) \<longrightarrow> mpinit m inb s = None)"
proof -
  let ?s = "s\<lparr>lapic_addr := conf_lapicaddr m conf\<rparr>" and ?e = "conf + conf_length m conf"
  let ?t = "foldl (mp_entry m) ?s xs"
  have r: "mp_loop m ?e (conf + 44) True ?s = mp_loop m ?e q True ?t" by (rule mp_loop_chain[OF x])
  have t: "found_cpus ?t = take NCPU (map (\<lambda>x. m (x + 1)) (filter (\<lambda>x. m x = MPPROC) xs))" "lapic_addr ?t = conf_lapicaddr m conf"
    using mp_entries_cpus[of ?s m xs] s by (simp_all add: Let_def found_cpus_def)
  have "mp_loop m ?e q True ?t = Some (True, ?t)" if "?e \<le> q" using that by (subst mp_loop.simps) simp
  then have "\<exists>t. mpinit m inb s = Some (Ok () t) \<and> found_cpus t = take NCPU (map (\<lambda>x. m (x + 1)) (filter (\<lambda>x. m x = MPPROC) xs))
      \<and> lapic_addr t = conf_lapicaddr m conf" if "?e \<le> q"
    using that t by (auto simp: mpinit_def c r found_cpus_def)
  moreover have "mpinit m inb s = None" if "q < ?e" "\<not> known_entry (m q)"
    using that by (simp add: mpinit_def c r mp_loop_unknown)
  ultimately show ?thesis by blast
qed

text \<open>A machine with one processor, whose identifier is 3, and an I/O APIC.\<close>

definition mp_bytes :: "u8 list" where
  "mp_bytes = [0x5F, 0x4D, 0x50, 0x5F, 0, 0xF1, 9, 0, 1, 4, 166, 0, 0, 0, 0, 0]"

definition conf_bytes :: "u8 list" where
  "conf_bytes = [0x50, 0x43, 0x4D, 0x50, 72, 0, 4, 152] @ replicate 20 0 @ [0, 0, 0, 0, 0, 0, 2, 0, 0, 0, 0xE0, 0xFE, 0, 0, 0, 0]
     @ [0, 3] @ replicate 18 0 @ [2, 7] @ replicate 6 0"

definition bios :: memory where
  "bios = (put_region (put_region (\<lambda>_. 0) 0x9F000 mp_bytes) 0x9F100 conf_bytes)(0x40F := 0x9F)"

lemma bios_regions: "i + n \<le> 16 \<Longrightarrow> region bios (0x9F000 + i) n = take n (drop i mp_bytes)"
  "i + n \<le> 72 \<Longrightarrow> region bios (0x9F100 + i) n = take n (drop i conf_bytes)"
  by (rule nth_equalityI; simp add: nth_region bios_def put_region_def mp_bytes_def conf_bytes_def)+

lemma bios_config: "mpconfig bios = Some (0x9F000, 0x9F100)" "conf_length bios 0x9F100 = 72" "conf_lapicaddr bios 0x9F100 = 0xFEE00000"
proof -
  have mp: "region bios 0x9F000 16 = mp_bytes" using bios_regions(1)[of 0 16] by (simp add: mp_bytes_def)
  have s4: "region bios 0x9F000 4 = [0x5F, 0x4D, 0x50, 0x5F]" using bios_regions(1)[of 0 4] by (simp add: mp_bytes_def)
  have c: "region bios 0x9F100 72 = conf_bytes" using bios_regions(2)[of 0 72] by (simp add: conf_bytes_def)
  have c4: "region bios 0x9F100 4 = [0x50, 0x43, 0x4D, 0x50]" using bios_regions(2)[of 0 4] by (simp add: conf_bytes_def)
  have pa: "mp_physaddr bios 0x9F000 = 0x9F100"
    using bios_regions(1)[of 4 4] by (simp add: mp_physaddr_def mp_bytes_def get32_def get16_def One_nat_def)
  show len: "conf_length bios 0x9F100 = 72"
    using bios_regions(2)[of 4 2] by (simp add: conf_length_def conf_bytes_def get16_def One_nat_def)
  show "conf_lapicaddr bios 0x9F100 = 0xFEE00000"
    using bios_regions(2)[of 36 4] by (simp add: conf_lapicaddr_def conf_bytes_def get32_def get16_def One_nat_def)
  have v: "conf_version bios 0x9F100 = 4" by (simp add: conf_version_def bios_def put_region_def conf_bytes_def)
  have b: "bios 0x40F = 0x9F" "bios 0x40E = 0" by (simp_all add: bios_def put_region_def mp_bytes_def conf_bytes_def)
  have sm: "sum_list (map unat mp_bytes) mod 256 = 0" "sum_list (map unat conf_bytes) mod 256 = 0"
    by (simp_all add: mp_bytes_def conf_bytes_def One_nat_def sum_list_replicate)
  have "[0..<64] = 0 # [1..<64]" using upt_conv_Cons[of 0 64] by (simp add: One_nat_def)
  then have "mpsearch1 bios 0x9F000 1024 = Some 0x9F000"
    by (simp add: mpsearch1_def s4 mp_sum_def mp sm)
  then have "mpsearch bios = Some 0x9F000" by (simp add: mpsearch_def b Let_def push_bit_eq_mult One_nat_def)
  then show "mpconfig bios = Some (0x9F000, 0x9F100)"
    by (simp add: mpconfig_def pa c4 v len mp_sum_def c sm)
qed

theorem mpinit_processors_witness:
  "\<exists>t. mpinit bios 0 \<lparr>cpu_apicid = replicate 8 0, ncpu = 0, ioapicid = 0, lapic_addr = 0, mp_port = (\<lambda>_. 0)\<rparr> = Some (Ok () t)
     \<and> found_cpus t = [3] \<and> lapic_addr t = 0xFEE00000"
proof -
  have b: "bios 0x9F12C = 0" "bios 0x9F12D = 3" "bios 0x9F140 = 2" "bios 0x9F141 = 7"
    by (simp_all add: bios_def put_region_def conf_bytes_def nth_append)
  have "mp_chain bios (0x9F100 + conf_length bios 0x9F100) (0x9F100 + 44) [0x9F12C, 0x9F140] 0x9F148"
    by (simp add: bios_config(2) b known_entry_def mp_types entry_size_def)
  from mpinit_processors[OF bios_config(1) this, of "\<lparr>cpu_apicid = replicate 8 0, ncpu = 0, ioapicid = 0, lapic_addr = 0, mp_port = (\<lambda>_. 0)\<rparr>" 0]
  show ?thesis by (simp add: bios_config(2,3) b NCPU_def MPPROC_def)
qed

end
