(* ===== verification/Devices.thy ===== *)
theory Devices
  imports Trap
begin

text \<open>
  The serial line (uart.c), the interrupt controllers (lapic.c, ioapic.c, picirq.c) and the clock of the machine (the CMOS half
  of lapic.c). The state is the list of the accesses to ports and device registers so far, oldest first. The devices are
  a parameter \<open>d\<close>: the value of the access at the end of such a list, when it is a read. A wait that never ends is \<open>None\<close>.
\<close>

unbundle bit_operations_syntax

text \<open>Accesses: ports, the registers of the local APIC by their index, and those of the I/O APIC (\<open>reg\<close> and \<open>data\<close>).\<close>

datatype access = OutB nat nat | InB nat | LapicW nat nat | LapicR nat | IoReg nat | IoW nat | IoR

type_synonym trace = "access list"
type_synonym device = "trace \<Rightarrow> nat"

definition dev_out :: "nat \<Rightarrow> nat \<Rightarrow> trace \<Rightarrow> trace" where
  "dev_out p v h = h @ [OutB p (v mod 256)]"

definition dev_in :: "device \<Rightarrow> nat \<Rightarrow> trace \<Rightarrow> nat \<times> trace" where
  "dev_in d p h = (d (h @ [InB p]) mod 256, h @ [InB p])"

subsection \<open>The I/O interrupt controller\<close>

definition REG_ID :: nat where "REG_ID = 0"
definition REG_VER :: nat where "REG_VER = 1"
definition REG_TABLE :: nat where "REG_TABLE = 0x10"
definition INT_DISABLED :: nat where "INT_DISABLED = 0x10000"

definition ioapicread :: "device \<Rightarrow> nat \<Rightarrow> trace \<Rightarrow> nat \<times> trace" where
  "ioapicread d reg h = (d (h @ [IoReg reg, IoR]) mod 2 ^ 32, h @ [IoReg reg, IoR])"

definition ioapicwrite :: "nat \<Rightarrow> nat \<Rightarrow> trace \<Rightarrow> trace" where
  "ioapicwrite reg v h = h @ [IoReg reg, IoW (v mod 2 ^ 32)]"

text \<open>The message about a controller with another \<open>id\<close> than \<open>ioapicid\<close> is left out.\<close>

definition ioapicinit :: "device \<Rightarrow> trace \<Rightarrow> trace" where
  "ioapicinit d h = (let (v, h) = ioapicread d REG_VER h; maxintr = drop_bit 16 v AND 0xFF; (_, h) = ioapicread d REG_ID h in
     foldl (\<lambda>h i. ioapicwrite (REG_TABLE + 2 * i + 1) 0 (ioapicwrite (REG_TABLE + 2 * i) (INT_DISABLED OR (T_IRQ0 + i)) h)) h [0..<maxintr + 1])"

definition ioapicenable :: "nat \<Rightarrow> nat \<Rightarrow> trace \<Rightarrow> trace" where
  "ioapicenable irq cpunum h = ioapicwrite (REG_TABLE + 2 * irq + 1) (push_bit 24 cpunum) (ioapicwrite (REG_TABLE + 2 * irq) (T_IRQ0 + irq) h)"

text \<open>The old interrupt controllers are switched off.\<close>

definition picinit :: "trace \<Rightarrow> trace" where
  "picinit h = dev_out (0xA0 + 1) 0xFF (dev_out (0x20 + 1) 0xFF h)"

subsection \<open>The serial line\<close>

definition COM1 :: nat where "COM1 = 0x3f8"

text \<open>\<open>uartputc\<close> waits at most 128 times; \<open>uart\<close> says whether there is a serial line.\<close>

fun uart_wait :: "device \<Rightarrow> nat \<Rightarrow> trace \<Rightarrow> trace" where
  "uart_wait d 0 h = h"
| "uart_wait d (Suc n) h = (let (v, h) = dev_in d (COM1 + 5) h in if v AND 0x20 \<noteq> 0 then h else uart_wait d n h)"

definition uartputc :: "device \<Rightarrow> bool \<Rightarrow> nat \<Rightarrow> trace \<Rightarrow> trace" where
  "uartputc d uart c h = (if \<not> uart then h else dev_out (COM1 + 0) c (uart_wait d 128 h))"

definition uartinit :: "device \<Rightarrow> trace \<Rightarrow> bool \<times> trace" where
  "uartinit d h = (let h = dev_out (COM1 + 2) 0 h;
     h = dev_out (COM1 + 3) 0x80 h;
     h = dev_out (COM1 + 0) (115200 div 9600) h;
     h = dev_out (COM1 + 1) 0 h;
     h = dev_out (COM1 + 3) 0x03 h;
     h = dev_out (COM1 + 4) 0 h;
     h = dev_out (COM1 + 1) 0x01 h;
     (v, h) = dev_in d (COM1 + 5) h in
     if v = 0xFF then (False, h)
     else let (_, h) = dev_in d (COM1 + 2) h; (_, h) = dev_in d (COM1 + 0) h; h = ioapicenable IRQ_COM1 0 h in
       (True, foldl (\<lambda>h c. uartputc d True c h) h (map of_char (''xv6...'' @ [CHR 0x0A]))))"

definition uartgetc :: "device \<Rightarrow> bool \<Rightarrow> trace \<Rightarrow> int \<times> trace" where
  "uartgetc d uart h = (if \<not> uart then (- 1, h)
     else let (v, h) = dev_in d (COM1 + 5) h in
       if v AND 0x01 = 0 then (- 1, h) else let (c, h) = dev_in d (COM1 + 0) h in (int c, h))"

text \<open>The characters \<open>consoleintr\<close> reads from \<open>uartgetc\<close>.\<close>

partial_function (option) uart_chars :: "device \<Rightarrow> bool \<Rightarrow> trace \<Rightarrow> (int list \<times> trace) option" where
  "uart_chars d uart h = (let (c, h) = uartgetc d uart h in if c < 0 then Some ([], h)
     else Option.bind (uart_chars d uart h) (\<lambda>(cs, h). Some (c # cs, h)))"

definition uartintr :: "device \<Rightarrow> bool \<Rightarrow> trace \<Rightarrow> kst \<Rightarrow> (unit kres \<times> trace) option" where
  "uartintr d uart h s = map_option (\<lambda>(cs, h). (consoleintr cs s, h)) (uart_chars d uart h)"

subsection \<open>The local interrupt controller\<close>

definition LAPIC_ID :: nat where "LAPIC_ID = 0x0020 div 4"
definition LAPIC_VER :: nat where "LAPIC_VER = 0x0030 div 4"
definition LAPIC_TPR :: nat where "LAPIC_TPR = 0x0080 div 4"
definition LAPIC_EOI :: nat where "LAPIC_EOI = 0x00B0 div 4"
definition LAPIC_SVR :: nat where "LAPIC_SVR = 0x00F0 div 4"
definition LAPIC_ESR :: nat where "LAPIC_ESR = 0x0280 div 4"
definition LAPIC_ICRLO :: nat where "LAPIC_ICRLO = 0x0300 div 4"
definition LAPIC_ICRHI :: nat where "LAPIC_ICRHI = 0x0310 div 4"
definition LAPIC_TIMER :: nat where "LAPIC_TIMER = 0x0320 div 4"
definition LAPIC_PCINT :: nat where "LAPIC_PCINT = 0x0340 div 4"
definition LAPIC_LINT0 :: nat where "LAPIC_LINT0 = 0x0350 div 4"
definition LAPIC_LINT1 :: nat where "LAPIC_LINT1 = 0x0360 div 4"
definition LAPIC_ERROR :: nat where "LAPIC_ERROR = 0x0370 div 4"
definition LAPIC_TICR :: nat where "LAPIC_TICR = 0x0380 div 4"
definition LAPIC_TDCR :: nat where "LAPIC_TDCR = 0x03E0 div 4"
definition LAPIC_MASKED :: nat where "LAPIC_MASKED = 0x10000"
definition IRQ_ERROR :: nat where "IRQ_ERROR = 19"

definition lapicw :: "nat \<Rightarrow> nat \<Rightarrow> trace \<Rightarrow> trace" where
  "lapicw index v h = h @ [LapicW index (v mod 2 ^ 32), LapicR LAPIC_ID]"

definition lapicr :: "device \<Rightarrow> nat \<Rightarrow> trace \<Rightarrow> nat \<times> trace" where
  "lapicr d index h = (d (h @ [LapicR index]) mod 2 ^ 32, h @ [LapicR index])"

partial_function (option) lapic_delivered :: "device \<Rightarrow> trace \<Rightarrow> trace option" where
  "lapic_delivered d h = (let (v, h) = lapicr d LAPIC_ICRLO h in if v AND 0x1000 \<noteq> 0 then lapic_delivered d h else Some h)"

text \<open>\<open>lapic\<close> says whether there is a controller.\<close>

definition lapicinit :: "device \<Rightarrow> bool \<Rightarrow> trace \<Rightarrow> trace option" where
  "lapicinit d lapic h = (if \<not> lapic then Some h
     else
       let h = lapicw LAPIC_SVR (0x100 OR (T_IRQ0 + IRQ_SPURIOUS)) h;
           h = lapicw LAPIC_TDCR 0xB h;
           h = lapicw LAPIC_TIMER (0x20000 OR (T_IRQ0 + IRQ_TIMER)) h;
           h = lapicw LAPIC_TICR 10000000 h;
           h = lapicw LAPIC_LINT0 LAPIC_MASKED h;
           h = lapicw LAPIC_LINT1 LAPIC_MASKED h;
           (v, h) = lapicr d LAPIC_VER h;
           h = (if drop_bit 16 v AND 0xFF \<ge> 4 then lapicw LAPIC_PCINT LAPIC_MASKED h else h);
           h = lapicw LAPIC_ERROR (T_IRQ0 + IRQ_ERROR) h;
           h = lapicw LAPIC_ESR 0 h;
           h = lapicw LAPIC_ESR 0 h;
           h = lapicw LAPIC_EOI 0 h;
           h = lapicw LAPIC_ICRHI 0 h;
           h = lapicw LAPIC_ICRLO (0x80000 OR 0x500 OR 0x8000) h in
       map_option (lapicw LAPIC_TPR 0) (lapic_delivered d h))"

definition lapicid :: "device \<Rightarrow> bool \<Rightarrow> trace \<Rightarrow> nat \<times> trace" where
  "lapicid d lapic h = (if \<not> lapic then (0, h) else let (v, h) = lapicr d LAPIC_ID h in (drop_bit 24 v, h))"

definition lapiceoi :: "bool \<Rightarrow> trace \<Rightarrow> trace" where
  "lapiceoi lapic h = (if lapic then lapicw LAPIC_EOI 0 h else h)"

text \<open>\<open>lapicstartap\<close> also sets the warm reset vector, a word at 0x467 of physical memory.\<close>

definition lapicstartap :: "nat \<Rightarrow> nat \<Rightarrow> memory \<Rightarrow> trace \<Rightarrow> memory \<times> trace" where
  "lapicstartap apicid addr m h =
    (let h = dev_out 0x70 0xF h;
         h = dev_out 0x71 0x0A h;
         m = put_region m 0x467 (put16 2 (drop_bit 4 addr) (put16 0 0 [0, 0, 0, 0]));
         h = lapicw LAPIC_ICRHI (push_bit 24 apicid) h;
         h = lapicw LAPIC_ICRLO (0x500 OR 0x8000 OR 0x4000) h;
         h = lapicw LAPIC_ICRLO (0x500 OR 0x8000) h;
         start = (\<lambda>h. lapicw LAPIC_ICRLO (0x600 OR drop_bit 12 addr) (lapicw LAPIC_ICRHI (push_bit 24 apicid) h)) in
     (m, start (start h)))"

subsection \<open>The clock\<close>

record rtcdate =
  second :: nat
  minute :: nat
  hour :: nat
  day :: nat
  month :: nat
  year :: nat

definition cmos_read :: "device \<Rightarrow> nat \<Rightarrow> trace \<Rightarrow> nat \<times> trace" where
  "cmos_read d reg h = dev_in d 0x71 (dev_out 0x70 reg h)"

definition fill_rtcdate :: "device \<Rightarrow> trace \<Rightarrow> rtcdate \<times> trace" where
  "fill_rtcdate d h = (let (s, h) = cmos_read d 0x00 h; (mi, h) = cmos_read d 0x02 h; (ho, h) = cmos_read d 0x04 h;
     (da, h) = cmos_read d 0x07 h; (mo, h) = cmos_read d 0x08 h; (y, h) = cmos_read d 0x09 h in
     (\<lparr>second = s, minute = mi, hour = ho, day = da, month = mo, year = y\<rparr>, h))"

text \<open>The loop reads the date until it is the same twice.\<close>

partial_function (option) cmos_loop :: "device \<Rightarrow> trace \<Rightarrow> (rtcdate \<times> trace) option" where
  "cmos_loop d h = (let (t1, h) = fill_rtcdate d h; (a, h) = cmos_read d 0x0a h in
     if a AND 0x80 \<noteq> 0 then cmos_loop d h
     else let (t2, h) = fill_rtcdate d h in if t1 = t2 then Some (t1, h) else cmos_loop d h)"

definition bcd_value :: "nat \<Rightarrow> nat" where
  "bcd_value x = drop_bit 4 x * 10 + (x AND 0xf)"

definition cmostime :: "device \<Rightarrow> trace \<Rightarrow> (rtcdate \<times> trace) option" where
  "cmostime d h = (let (sb, h) = cmos_read d 0x0b h; bcd = (sb AND 0x04 = 0) in
     map_option (\<lambda>(t, h).
       let t = (if bcd then \<lparr>second = bcd_value (second t), minute = bcd_value (minute t), hour = bcd_value (hour t),
                  day = bcd_value (day t), month = bcd_value (month t), year = bcd_value (year t)\<rparr> else t) in
       (t\<lparr>year := year t + 2000\<rparr>, h)) (cmos_loop d h))"

subsection \<open>The date\<close>

text \<open>A date as the registers of the clock hold it, in the encoding of the clock.\<close>

definition map_date :: "(nat \<Rightarrow> nat) \<Rightarrow> rtcdate \<Rightarrow> rtcdate" where
  "map_date f t = \<lparr>second = f (second t), minute = f (minute t), hour = f (hour t), day = f (day t), month = f (month t), year = f (year t)\<rparr>"

definition bcd_of :: "nat \<Rightarrow> nat" where
  "bcd_of v = push_bit 4 (v div 10) OR (v mod 10)"

lemma bcd_roundtrip: "v < 100 \<Longrightarrow> bcd_value (bcd_of v) = v \<and> bcd_of v < 256"
proof -
  assume v: "v < 100"
  have m: "v mod 10 = take_bit 4 (v mod 10)" by (simp add: take_bit_eq_mod)
  have "\<not> bit (push_bit 4 (v div 10)) n \<or> \<not> bit (take_bit 4 (v mod 10)) n" for n by (simp add: bit_simps)
  then have "push_bit 4 (v div 10) + v mod 10 = bcd_of v" unfolding bcd_of_def m[symmetric] by (rule disjunctive_add)
  then have o: "bcd_of v = 16 * (v div 10) + v mod 10" by (simp add: push_bit_eq_mult)
  have a: "x AND 0xf = x mod 16" for x :: nat using take_bit_eq_mask[of 4 x] by (simp add: take_bit_eq_mod mask_eq_exp_minus_1)
  have "(16 * (v div 10) + v mod 10) mod 16 = v mod 10" "(16 * (v div 10) + v mod 10) div 16 = v div 10" by simp_all
  then have "bcd_value (bcd_of v) = (v div 10) * 10 + v mod 10" unfolding bcd_value_def o by (simp add: drop_bit_eq_div a)
  moreover have "16 * (v div 10) + v mod 10 < 256" using v by linarith
  ultimately show ?thesis by (simp add: o)
qed

text \<open>The date of six reads after \<open>h\<close>.\<close>

definition reads_date :: "device \<Rightarrow> trace \<Rightarrow> rtcdate \<Rightarrow> bool" where
  "reads_date d h t \<longleftrightarrow> fst (fill_rtcdate d h) = t"

definition no_update :: "device \<Rightarrow> trace \<Rightarrow> bool" where
  "no_update d h \<longleftrightarrow> fst (cmos_read d 0x0a h) AND 0x80 = 0"

text \<open>What the loop returns was read twice, with the flag of an update in progress clear in between.\<close>

lemma cmos_loop_twice:
  assumes "cmos_loop d h = Some (t, k)"
  shows "\<exists>i. reads_date d i t \<and> no_update d (snd (fill_rtcdate d i)) \<and> reads_date d (snd (cmos_read d 0x0a (snd (fill_rtcdate d i)))) t"
proof -
  let ?Q = "\<lambda>d t. \<exists>i. reads_date d i t \<and> no_update d (snd (fill_rtcdate d i)) \<and> reads_date d (snd (cmos_read d 0x0a (snd (fill_rtcdate d i)))) t"
  have "?Q d (fst (t, k))"
  proof (rule cmos_loop.raw_induct[where P = "\<lambda>d h r. ?Q d (fst r)", OF _ assms])
    fix loop d h r
    assume ih: "\<And>d h r. loop d h = Some r \<Longrightarrow> ?Q d (fst r)"
      and r: "(let (t1, h) = fill_rtcdate d h; (a, h) = cmos_read d 0x0a h in
        if a AND 0x80 \<noteq> 0 then loop d h
        else let (t2, h) = fill_rtcdate d h in if t1 = t2 then Some (t1, h) else loop d h) = Some r"
    obtain t1 h1 where 1: "fill_rtcdate d h = (t1, h1)" by force
    obtain a h2 where 2: "cmos_read d 0x0a h1 = (a, h2)" by force
    obtain t2 h3 where 3: "fill_rtcdate d h2 = (t2, h3)" by force
    show "?Q d (fst r)"
    proof (cases "a AND 0x80 = 0 \<and> t1 = t2")
      case True
      then have "fst r = t1" using r by (auto simp: 1 2 3)
      then show ?thesis using True 1 2 3 by (auto simp: reads_date_def no_update_def intro!: exI[of _ h])
    next
      case False
      then have "loop d h2 = Some r \<or> loop d h3 = Some r" using r by (auto simp: 1 2 3 split: if_splits)
      then show ?thesis using ih by blast
    qed
  qed
  then show ?thesis by simp
qed

text \<open>A clock that shows the date \<open>t\<close>, at least after the first \<open>N\<close> accesses.\<close>

definition shows_date :: "device \<Rightarrow> nat \<Rightarrow> rtcdate \<Rightarrow> bool" where
  "shows_date d N t \<longleftrightarrow> (\<forall>h. N \<le> length h \<longrightarrow> reads_date d h t \<and> no_update d h)"

lemma read_length: "length (snd (cmos_read d r h)) = length h + 2" "length (snd (fill_rtcdate d h)) = length h + 12"
  by (simp_all add: fill_rtcdate_def cmos_read_def dev_in_def dev_out_def Let_def)

lemma cmos_loop_returns:
  assumes "shows_date d N t"
  shows "\<exists>r. cmos_loop d h = Some r"
proof (induction "N - length h" arbitrary: h rule: less_induct)
  case less
  obtain t1 h1 where 1: "fill_rtcdate d h = (t1, h1)" by force
  obtain a h2 where 2: "cmos_read d 0x0a h1 = (a, h2)" by force
  obtain t2 h3 where 3: "fill_rtcdate d h2 = (t2, h3)" by force
  have l: "length h1 = length h + 12" "length h2 = length h + 14" "length h3 = length h + 26"
    using read_length(2)[of d h] read_length(1)[of d "0x0a" h1] read_length(2)[of d h2] by (simp_all add: 1 2 3)
  show ?case
  proof (cases "N \<le> length h")
    case True
    then have "t1 = t" "t2 = t" "a AND 0x80 = 0"
      using assms l 1 2 3 unfolding shows_date_def reads_date_def no_update_def
      by (metis fst_conv le_add1 le_trans)+
    then show ?thesis by (subst cmos_loop.simps) (simp add: 1 2 3)
  next
    case False
    then have "N - length h2 < N - length h" "N - length h3 < N - length h" using l by simp_all
    from less[OF this(1)] less[OF this(2)] show ?thesis by (subst cmos_loop.simps) (auto simp: 1 2 3)
  qed
qed

text \<open>
  C37. The date of the machine. When \<open>cmostime\<close> returns, the registers were read twice with the same values, and with no
  update of the clock in between. It returns when the clock comes to show a date for long enough; and when the clock
  shows the date \<open>t\<close>, in its decimal or in its binary encoding, the result is \<open>t\<close> with the full year.
\<close>

theorem cmostime_date:
  "(cmostime d h = Some (r, k) \<longrightarrow> (\<exists>i t. reads_date d i t \<and> no_update d (snd (fill_rtcdate d i))
       \<and> reads_date d (snd (cmos_read d 0x0a (snd (fill_rtcdate d i)))) t
       \<and> r = (let u = map_date (if fst (cmos_read d 0x0b h) AND 0x04 = 0 then bcd_value else id) t in u\<lparr>year := year u + 2000\<rparr>)))
   \<and> (shows_date d N t \<longrightarrow> (\<exists>x. cmostime d h = Some x))
   \<and> (shows_date d 0 (map_date (if fst (cmos_read d 0x0b h) AND 0x04 = 0 then bcd_of else id) t)
       \<and> second t < 60 \<and> minute t < 60 \<and> hour t < 24 \<and> day t < 32 \<and> month t < 13 \<and> year t < 100
       \<longrightarrow> (\<exists>k. cmostime d h = Some (t\<lparr>year := year t + 2000\<rparr>, k)))"
proof -
  let ?f = "if fst (cmos_read d 0x0b h) AND 0x04 = 0 then bcd_value else id"
  have e: "cmostime d h = map_option (\<lambda>(t, k). (let u = map_date ?f t in u\<lparr>year := year u + 2000\<rparr>, k)) (cmos_loop d (snd (cmos_read d 0x0b h)))"
    unfolding cmostime_def by (auto simp: map_date_def split: prod.split intro!: arg_cong2[where f = map_option])
  have p: "\<exists>i t. reads_date d i t \<and> no_update d (snd (fill_rtcdate d i)) \<and> reads_date d (snd (cmos_read d 0x0a (snd (fill_rtcdate d i)))) t
       \<and> r = (let u = map_date ?f t in u\<lparr>year := year u + 2000\<rparr>)" if rk: "cmostime d h = Some (r, k)" for r k
  proof -
    obtain t' k' where "cmos_loop d (snd (cmos_read d 0x0b h)) = Some (t', k')" "r = (let u = map_date ?f t' in u\<lparr>year := year u + 2000\<rparr>)"
      using rk unfolding e by (auto simp: Let_def)
    then show ?thesis using cmos_loop_twice by blast
  qed
  have s: "\<exists>x. cmostime d h = Some x" if "shows_date d N t" for N t
    using cmos_loop_returns[OF that, of "snd (cmos_read d 0x0b h)"] unfolding e by auto
  have "\<exists>k. cmostime d h = Some (t\<lparr>year := year t + 2000\<rparr>, k)"
    if c: "shows_date d 0 (map_date (if fst (cmos_read d 0x0b h) AND 0x04 = 0 then bcd_of else id) t)"
      and b: "second t < 60 \<and> minute t < 60 \<and> hour t < 24 \<and> day t < 32 \<and> month t < 13 \<and> year t < 100"
  proof -
    let ?g = "if fst (cmos_read d 0x0b h) AND 0x04 = 0 then bcd_of else id"
    obtain r k where r: "cmostime d h = Some (r, k)" using s[OF c] by force
    obtain i u where u: "reads_date d i u" "r = (let u = map_date ?f u in u\<lparr>year := year u + 2000\<rparr>)" using p[OF r] by blast
    have "u = map_date ?g t" using c u(1) by (simp add: shows_date_def reads_date_def)
    moreover have "map_date ?f (map_date ?g t) = t" using b by (simp add: map_date_def bcd_roundtrip)
    ultimately have "r = t\<lparr>year := year t + 2000\<rparr>" using u(2) by (simp add: Let_def)
    then show ?thesis using r by blast
  qed
  then show ?thesis using p s by blast
qed

text \<open>A clock at 23:59:07 on 31-12-20, in decimal encoding.\<close>

definition clock_dev :: device where
  "clock_dev h = (case rev h of InB p # OutB q r # _ \<Rightarrow>
     (if r = 0 then 0x07 else if r = 2 then 0x59 else if r = 4 then 0x23 else if r = 7 then 0x31 else if r = 8 then 0x12 else if r = 9 then 0x20 else 0)
     | _ \<Rightarrow> 0)"

theorem cmostime_date_witness:
  "\<exists>k. cmostime clock_dev [] = Some (\<lparr>second = 7, minute = 59, hour = 23, day = 31, month = 12, year = 2020\<rparr>, k)"
proof -
  let ?t = "\<lparr>second = 7, minute = 59, hour = 23, day = 31, month = 12, year = 20\<rparr>"
  have r: "fst (cmos_read clock_dev r h) = clock_dev [OutB 0x70 (r mod 256), InB 0x71] mod 256" for r h
    by (simp add: cmos_read_def dev_in_def dev_out_def clock_dev_def)
  have b: "fst (cmos_read clock_dev 0x0b h) AND 0x04 = 0" for h by (simp add: r clock_dev_def)
  have "map_date bcd_of ?t = \<lparr>second = 0x07, minute = 0x59, hour = 0x23, day = 0x31, month = 0x12, year = 0x20\<rparr>"
    by (simp add: map_date_def bcd_of_def push_bit_eq_mult)
  moreover have "fst (fill_rtcdate clock_dev h) = \<lparr>second = 0x07, minute = 0x59, hour = 0x23, day = 0x31, month = 0x12, year = 0x20\<rparr>" for h
    using r by (simp add: fill_rtcdate_def Let_def split_beta clock_dev_def)
  ultimately have "shows_date clock_dev 0 (map_date bcd_of ?t)"
    by (simp add: shows_date_def reads_date_def no_update_def r clock_dev_def)
  then show ?thesis using cmostime_date[of clock_dev "[]" undefined undefined 0 ?t] b by simp
qed

end
