(* ===== verification/Coreutils.thy ===== *)
theory Coreutils
  imports Grep
begin

text \<open>
  The programs cat, wc, echo and ls (cat.c, wc.c, echo.c, ls.c). What the system calls return is a parameter: the results of the
  calls of \<open>read\<close> as a list, \<open>None\<close> an error and the empty string the end of the file, and for ls the files as a
  record. The output is the list of the strings that are written, with their descriptors.
\<close>

type_synonym writes = "(nat \<times> string) list"

definition DIRSIZ_u :: nat where "DIRSIZ_u = 14"

subsection \<open>cat\<close>

text \<open>\<open>w\<close> says of a string whether \<open>write\<close> takes all of it. The last component says whether the program goes on.\<close>

fun cat :: "(string \<Rightarrow> bool) \<Rightarrow> string option list \<Rightarrow> writes \<times> bool" where
  "cat w [] = ([], True)"
| "cat w (None # xs) = ([(1, ''cat: read error'' @ [NL])], False)"
| "cat w (Some x # xs) = (if x = [] then ([], True)
     else if \<not> w x then ([(1, x), (1, ''cat: write error'' @ [NL])], False)
     else let (out, go) = cat w xs in ((1, x) # out, go))"

fun cat_main :: "(string \<Rightarrow> bool) \<Rightarrow> (string \<Rightarrow> string option list option) \<Rightarrow> string list \<Rightarrow> writes" where
  "cat_main w f [] = []"
| "cat_main w f (a # argv) = (case f a of
     None \<Rightarrow> [(1, ''cat: cannot open '' @ a @ [NL])]
   | Some xs \<Rightarrow> let (out, go) = cat w xs in out @ (if go then cat_main w f argv else []))"

subsection \<open>wc\<close>

definition wc_seps :: string where
  "wc_seps = '' '' @ [CHR 0x0d, CHR 0x09, CHR 0x0a, CHR 0x0b]"

record wc_state =
  wc_l :: int
  wc_w :: int
  wc_c :: int
  inword :: bool

definition wc_char :: "wc_state \<Rightarrow> char \<Rightarrow> wc_state" where
  "wc_char s c =
    (let s = s\<lparr>wc_c := wc_c s + 1\<rparr>;
         s = (if c = NL then s\<lparr>wc_l := wc_l s + 1\<rparr> else s) in
     if strchr wc_seps c \<noteq> None then s\<lparr>inword := False\<rparr>
     else if \<not> inword s then s\<lparr>wc_w := wc_w s + 1, inword := True\<rparr> else s)"

text \<open>The counters are of type \<open>int\<close>; the outcome of an overflow is \<open>None\<close>.\<close>

fun wc_buf :: "wc_state \<Rightarrow> string \<Rightarrow> wc_state option" where
  "wc_buf s [] = Some s"
| "wc_buf s (c # cs) = (if wc_c s + 1 > INT_MAX then None else wc_buf (wc_char s c) cs)"

fun wc_loop :: "wc_state \<Rightarrow> string option list \<Rightarrow> (wc_state \<times> bool) option" where
  "wc_loop s [] = Some (s, True)"
| "wc_loop s (None # xs) = Some (s, False)"
| "wc_loop s (Some x # xs) = (if x = [] then Some (s, True) else Option.bind (wc_buf s x) (\<lambda>s. wc_loop s xs))"

definition wc :: "string option list \<Rightarrow> string \<Rightarrow> (writes \<times> bool) option" where
  "wc xs name = Option.bind (wc_loop \<lparr>wc_l = 0, wc_w = 0, wc_c = 0, inword = False\<rparr> xs) (\<lambda>(s, ok).
     if \<not> ok then Some ([(1, ''wc: read error'' @ [NL])], False)
     else map_option (\<lambda>out. ([(1, out)], True))
       (printf (\<lambda>_. name) (''%d %d %d %s'' @ [NL]) [nat (wc_l s), nat (wc_w s), nat (wc_c s), 1]))"

fun wc_main :: "(string \<Rightarrow> string option list option) \<Rightarrow> string list \<Rightarrow> writes option" where
  "wc_main f [] = Some []"
| "wc_main f (a # argv) = (case f a of
     None \<Rightarrow> Some [(1, ''wc: cannot open '' @ a @ [NL])]
   | Some xs \<Rightarrow> Option.bind (wc xs a) (\<lambda>(out, go).
       if go then map_option (append out) (wc_main f argv) else Some out))"

subsection \<open>echo\<close>

fun echo :: "string list \<Rightarrow> string" where
  "echo [] = []"
| "echo [a] = a @ [NL]"
| "echo (a # argv) = a @ '' '' @ echo argv"

subsection \<open>ls\<close>

text \<open>The name after the last slash, padded with blanks.\<close>

definition fmtname :: "string \<Rightarrow> string" where
  "fmtname path = (let p = rev (takeWhile (\<lambda>c. c \<noteq> CHR ''/'') (rev path)) in
     if length p \<ge> DIRSIZ_u then p else p @ replicate (DIRSIZ_u - length p) CHR '' '')"

record ustat =
  u_type :: nat
  u_ino :: nat
  u_size :: nat

text \<open>\<open>u_open\<close>: which files can be opened; \<open>u_entries\<close>: the entries of a directory, inode numbers and names.\<close>

record uview =
  u_open :: "string \<Rightarrow> bool"
  u_stat :: "string \<Rightarrow> ustat option"
  u_entries :: "string \<Rightarrow> (nat \<times> string) list"

definition ls_line :: "string \<Rightarrow> ustat \<Rightarrow> nat \<times> string" where
  "ls_line path st = (1, the (printf (\<lambda>_. fmtname path) (''%s %d %d %d'' @ [NL]) [1, u_type st, u_ino st, u_size st]))"

definition ls_entry :: "uview \<Rightarrow> string \<Rightarrow> nat \<times> string \<Rightarrow> writes" where
  "ls_entry v path = (\<lambda>(inum, name).
     if inum = 0 then []
     else let buf = path @ ''/'' @ cstr (take DIRSIZ_u name) in
       case u_stat v buf of None \<Rightarrow> [(1, ''ls: cannot stat '' @ buf @ [NL])] | Some st \<Rightarrow> [ls_line buf st])"

definition ls :: "uview \<Rightarrow> string \<Rightarrow> writes" where
  "ls v path =
    (if \<not> u_open v path then [(2, ''ls: cannot open '' @ path @ [NL])]
     else case u_stat v path of
       None \<Rightarrow> [(2, ''ls: cannot stat '' @ path @ [NL])]
     | Some st \<Rightarrow>
         if u_type st = 2 then [ls_line path st]
         else if u_type st = 1 then
           (if length path + 1 + DIRSIZ_u + 1 > 512 then [(1, ''ls: path too long'' @ [NL])]
            else concat (map (ls_entry v path) (u_entries v path)))
         else [])"

subsection \<open>What wc counts\<close>

definition wsep :: "char \<Rightarrow> bool" where
  "wsep c \<longleftrightarrow> c \<in> set wc_seps"

text \<open>The words of a text: the maximal parts without a separator.\<close>

function words :: "string \<Rightarrow> string list" where
  "words [] = []"
| "words (c # s) = (if wsep c then words s else (c # takeWhile (\<lambda>c. \<not> wsep c) s) # words (dropWhile (\<lambda>c. \<not> wsep c) s))"
  by pat_completeness auto
termination
  by (relation "measure length") (auto intro: le_imp_less_Suc length_dropWhile_le)

declare words.simps [simp del]

lemma strchr_sep: "strchr wc_seps c \<noteq> None \<longleftrightarrow> wsep c"
  by (simp add: wsep_def wc_seps_def)

text \<open>The words after a text that ends inside of a word, when \<open>i\<close>, or outside.\<close>

definition more_words :: "bool \<Rightarrow> string \<Rightarrow> nat" where
  "more_words i s = length (words (if i then dropWhile (\<lambda>c. \<not> wsep c) s else s))"

lemma more_words_Cons:
  "more_words i (c # s) = (if wsep c then more_words False s else (if i then 0 else 1) + more_words True s)"
  by (cases i) (simp_all add: more_words_def words.simps)

lemma wc_buf_spec:
  assumes "wc_c s + int (length x) \<le> INT_MAX"
  shows "\<exists>t. wc_buf s x = Some t \<and> wc_l t = wc_l s + int (count_list x NL) \<and> wc_c t = wc_c s + int (length x)
    \<and> (\<forall>y. wc_w t + int (more_words (inword t) y) = wc_w s + int (more_words (inword s) (x @ y)))"
  using assms
proof (induction x arbitrary: s)
  case (Cons c x)
  let ?s = "wc_char s c"
  have s: "wc_c ?s = wc_c s + 1" "wc_l ?s = wc_l s + (if c = NL then 1 else 0)"
    "wc_w ?s + int (more_words (inword ?s) y) = wc_w s + int (more_words (inword s) (c # y))" for y
    by (cases "inword s"; simp add: wc_char_def strchr_sep more_words_Cons Let_def del: not_None_eq)+
  have "wc_c ?s + int (length x) \<le> INT_MAX" using Cons.prems s(1) by simp
  from Cons.IH[OF this] show ?case using Cons.prems s by auto
qed simp

lemma wc_loop_spec:
  assumes "wc_c s + int (length (concat xs)) \<le> INT_MAX" "\<forall>x \<in> set xs. x \<noteq> []"
  shows "\<exists>t. wc_loop s (map Some xs @ Some [] # zs) = Some (t, True) \<and> wc_l t = wc_l s + int (count_list (concat xs) NL)
    \<and> wc_c t = wc_c s + int (length (concat xs))
    \<and> (\<forall>y. wc_w t + int (more_words (inword t) y) = wc_w s + int (more_words (inword s) (concat xs @ y)))"
  using assms
proof (induction xs arbitrary: s)
  case (Cons x xs)
  have "wc_c s + int (length x) \<le> INT_MAX" using Cons.prems(1) by simp
  from wc_buf_spec[OF this] obtain u where u: "wc_buf s x = Some u" "wc_l u = wc_l s + int (count_list x NL)" "wc_c u = wc_c s + int (length x)"
    "\<forall>y. wc_w u + int (more_words (inword u) y) = wc_w s + int (more_words (inword s) (x @ y))" by blast
  have "wc_c u + int (length (concat xs)) \<le> INT_MAX" "\<forall>x \<in> set xs. x \<noteq> []" using Cons.prems u(3) by simp_all
  from Cons.IH[OF this] show ?case using Cons.prems(2) u by auto
qed simp

text \<open>
  wc counts: however \<open>read\<close> cuts the input into pieces, wc prints the numbers of the newlines, of the words (the maximal parts
  without blanks, tabs, newlines, carriage returns and vertical tabs) and of the characters of the whole input, followed by the
  name, when there are less than 2 ^ 31 characters.
\<close>

theorem wc_counts:
  assumes "\<forall>x \<in> set xs. x \<noteq> []" "int (length (concat xs)) \<le> INT_MAX"
  shows "wc (map Some xs @ Some [] # zs) name = map_option (\<lambda>out. ([(1, out)], True)) (printf (\<lambda>_. name) (''%d %d %d %s'' @ [NL])
     [count_list (concat xs) NL, length (words (concat xs)), length (concat xs), 1])"
proof -
  let ?s = "\<lparr>wc_l = 0, wc_w = 0, wc_c = 0, inword = False\<rparr>"
  have "wc_c ?s + int (length (concat xs)) \<le> INT_MAX" using assms(2) by simp
  from wc_loop_spec[OF this assms(1)] obtain t where t: "wc_loop ?s (map Some xs @ Some [] # zs) = Some (t, True)"
    "wc_l t = int (count_list (concat xs) NL)" "wc_c t = int (length (concat xs))"
    "\<forall>y. wc_w t + int (more_words (inword t) y) = int (more_words False (concat xs @ y))" by auto
  have "more_words b [] = 0" for b by (simp add: more_words_def words.simps)
  then have "wc_w t = int (length (words (concat xs)))" using spec[OF t(4), of "[]"] by (simp add: more_words_def)
  then show ?thesis by (simp add: wc_def t(1-3) del: nat_int_comparison)
qed

theorem wc_counts_witness:
  "wc [Some ''ab '', Some ([CHR ''c'', NL] @ ''d e''), Some []] ''f'' = Some ([(1, ''1 4 8 f'' @ [NL])], True)"
proof -
  let ?xs = "[''ab '', [CHR ''c'', NL] @ ''d e'']"
  have c: "count_list (concat ?xs) NL = 1" "length (words (concat ?xs)) = 4" "length (concat ?xs) = 8"
    by (simp_all add: words.simps wsep_def wc_seps_def)
  have p: "printf (\<lambda>_. ''f'') (''%d %d %d %s'' @ [NL]) [1, 4, 8, 1] = Some (''1 4 8 f'' @ [NL])"
    by (simp add: printf_def printint_def as_int_def put_digits.simps digits_def Let_def)
  have "wc (map Some ?xs @ Some [] # []) ''f'' = Some ([(1, ''1 4 8 f'' @ [NL])], True)"
    using wc_counts[of ?xs "[]" "''f''"] unfolding c p by (simp add: INT_MAX_def)
  then show ?thesis by simp
qed

end
