(* ===== verification/RefSched.thy ===== *)
theory RefSched
  imports Ring
begin

text \<open>
  The scheduler of the reference solution (proc.c and trap.c of src/Reference_code): circular queues for the three levels of the feedback
  queue, from which a process is taken when it runs, and stride processes that are searched in the process table. The
  state is that of the scheduler: the fields it uses of the processes, the queues and the counters; of the locks
  only \<open>ptable.lock\<close>, which is the one held in a call of \<open>sched\<close>. Unsigned integers are natural numbers below
  2 ^ 32. A call that does not return is \<open>None\<close>.
\<close>

definition MAX_MLFQ_LEV :: nat where "MAX_MLFQ_LEV = 3"
definition UINT_MAX :: nat where "UINT_MAX = 0xffffffff"
definition MAX_PASS :: nat where "MAX_PASS = 0x0fffffff"
definition TOTAL_TICKET :: nat where "TOTAL_TICKET = 100"
definition MAX_STRIDE_TICKET :: nat where "MAX_STRIDE_TICKET = 80"
definition BOOST_LIMIT :: nat where "BOOST_LIMIT = 100"
definition LARGENUM :: nat where "LARGENUM = 10000"
definition TIME_QUANTUM :: "nat list" where "TIME_QUANTUM = [1, 2, 4]"
definition TIME_ALLOTMENT :: "nat list" where "TIME_ALLOTMENT = [5, 10, UINT_MAX]"

lemmas ref_consts = MAX_MLFQ_LEV_def TOTAL_TICKET_def MAX_STRIDE_TICKET_def BOOST_LIMIT_def LARGENUM_def

record rproc =
  r_state :: procstate
  r_pid :: int
  r_parent :: pptr
  r_chan :: "chan option"
  r_killed :: bool
  r_lev :: int
  tick_cnt :: nat
  is_stride :: bool
  r_stride :: int
  pass_value :: nat
  ticket :: int

record rq =
  rq_cells :: "pptr list"
  rq_front :: nat
  rq_rear :: nat

record rst =
  ps :: "rproc list"
  rcur :: pptr
  rinit :: pptr
  ptlock :: bool
  rqs :: "rq list"
  mlfq_pass :: nat
  mlfq_stride :: nat
  mlfq_ticket :: nat
  boost_tick :: nat
  total_ticket :: nat
  havestride :: int

type_synonym 'a rres = "('a, rst) res"

definition upd_p :: "nat \<Rightarrow> (rproc \<Rightarrow> rproc) \<Rightarrow> rst \<Rightarrow> rst" where
  "upd_p i f s = s\<lparr>ps := (ps s)[i := f (ps s ! i)]\<rparr>"

definition upd_q :: "nat \<Rightarrow> (rq \<Rightarrow> rq) \<Rightarrow> rst \<Rightarrow> rst" where
  "upd_q l f s = s\<lparr>rqs := (rqs s)[l := f (rqs s ! l)]\<rparr>"

definition racquire :: "rst \<Rightarrow> unit rres" where
  "racquire s = (if ptlock s then Panic ''acquire'' else Ok () (s\<lparr>ptlock := True\<rparr>))"

definition rrelease :: "rst \<Rightarrow> unit rres" where
  "rrelease s = (if \<not> ptlock s then Panic ''release'' else Ok () (s\<lparr>ptlock := False\<rparr>))"

subsection \<open>The queues\<close>

definition minit :: "rst \<Rightarrow> rst" where
  "minit s = s\<lparr>mlfq_pass := 0, mlfq_ticket := TOTAL_TICKET, mlfq_stride := LARGENUM div TOTAL_TICKET,
     rqs := replicate 3 \<lparr>rq_cells = replicate NPROC None, rq_front = 0, rq_rear = 0\<rparr>\<rparr>"

definition mlfq_pass_inc :: "rst \<Rightarrow> rst" where
  "mlfq_pass_inc s = s\<lparr>mlfq_pass := uadd (mlfq_pass s) (mlfq_stride s)\<rparr>"

definition is_full :: "rq \<Rightarrow> bool" where
  "is_full q \<longleftrightarrow> rq_front q = (rq_rear q + 1) mod NPROC"

definition is_empty :: "rq \<Rightarrow> bool" where
  "is_empty q \<longleftrightarrow> rq_front q = rq_rear q"

definition rq_put :: "pptr \<Rightarrow> rq \<Rightarrow> rq" where
  "rq_put p q = (let r = (rq_rear q + 1) mod NPROC in q\<lparr>rq_rear := r, rq_cells := (rq_cells q)[r := p]\<rparr>)"

definition rq_get :: "rq \<Rightarrow> pptr \<times> rq" where
  "rq_get q = (let f = (rq_front q + 1) mod NPROC in (rq_cells q ! f, q\<lparr>rq_front := f\<rparr>))"

definition enqueue :: "int \<Rightarrow> nat \<Rightarrow> rst \<Rightarrow> unit rres" where
  "enqueue l p s = kbind (kguard (0 \<le> l \<and> l < 3) s) (\<lambda>_ s.
     if is_full (rqs s ! nat l) then Panic ''Queue is already full''
     else Ok () (upd_q (nat l) (rq_put (Some p)) s))"

text \<open>The null pointer stands for the empty queue.\<close>

definition dequeue :: "nat \<Rightarrow> rst \<Rightarrow> pptr \<times> rst" where
  "dequeue l s = (if is_empty (rqs s ! l) then (None, s)
     else (fst (rq_get (rqs s ! l)), upd_q l (\<lambda>q. snd (rq_get q)) s))"

text \<open>The loops of \<open>priority_boost\<close> that move a level to the highest one.\<close>

partial_function (option) drain :: "nat \<Rightarrow> rst \<Rightarrow> unit rres option" where
  "drain l s = (case dequeue l s of
     (None, s) \<Rightarrow> Some (Ok () s)
   | (Some p, s) \<Rightarrow> (case enqueue 0 p s of Ok _ s \<Rightarrow> drain l s | Panic e \<Rightarrow> Some (Panic e) | Sched s \<Rightarrow> Some (Sched s) | Undef \<Rightarrow> Some Undef))"

definition obind :: "'a rres option \<Rightarrow> ('a \<Rightarrow> rst \<Rightarrow> 'b rres option) \<Rightarrow> 'b rres option" where
  "obind m f = (case m of None \<Rightarrow> None | Some (Ok x s) \<Rightarrow> f x s | Some (Panic e) \<Rightarrow> Some (Panic e)
     | Some (Sched s) \<Rightarrow> Some (Sched s) | Some Undef \<Rightarrow> Some Undef)"

definition priority_boost :: "rst \<Rightarrow> unit rres option" where
  "priority_boost s = (if boost_tick s < BOOST_LIMIT then Some (Panic ''panic in priority boost'')
     else
       let s = s\<lparr>boost_tick := 0\<rparr>; flag = ptlock s in
       obind (Some (if \<not> flag then racquire s else Ok () s)) (\<lambda>_ s.
       let s = s\<lparr>ps := map (\<lambda>p. if is_stride p \<or> r_lev p = 0 then p else p\<lparr>r_lev := 0, tick_cnt := 0\<rparr>) (ps s)\<rparr> in
       obind (drain 1 s) (\<lambda>_ s.
       obind (drain 2 s) (\<lambda>_ s.
       if \<not> is_empty (rqs s ! 1) \<or> \<not> is_empty (rqs s ! 2) then Some (Panic ''panic in priority boost().'')
       else Some (if \<not> flag then rrelease s else Ok () s)))))"

subsection \<open>Stride processes\<close>

definition min_pass_of :: "rst \<Rightarrow> nat" where
  "min_pass_of s = foldl (\<lambda>m p. if is_stride p \<and> r_state p = RUNNABLE \<and> pass_value p < m then pass_value p else m) (mlfq_pass s) (ps s)"

definition get_min_pass :: "rst \<Rightarrow> nat rres" where
  "get_min_pass s = (if \<not> ptlock s then Panic ''panic in get_min_pass().'' else Ok (min_pass_of s) s)"

definition init_pass :: "rst \<Rightarrow> rst" where
  "init_pass s = s\<lparr>mlfq_pass := 0, ps := map (\<lambda>p. if r_stride p \<noteq> 0 then p\<lparr>pass_value := 0\<rparr> else p) (ps s)\<rparr>"

definition ref_set_cpu_share :: "int \<Rightarrow> rst \<Rightarrow> int rres" where
  "ref_set_cpu_share t s = (let ut = nat (t mod 2 ^ 32) in
     if uadd ut (total_ticket s) > MAX_STRIDE_TICKET then Ok (- 1) s
     else kbind (racquire s) (\<lambda>_ s.
       if uadd ut (total_ticket s) > MAX_STRIDE_TICKET then kbind (rrelease s) (\<lambda>_ s. Ok (- 1) s)
       else case rcur s of None \<Rightarrow> Undef | Some p \<Rightarrow>
       let s = s\<lparr>havestride := havestride s + 1, total_ticket := uadd (total_ticket s) ut\<rparr> in
       kbind (kguard (t \<noteq> 0) s) (\<lambda>_ s.
       let s = upd_p p (\<lambda>q. q\<lparr>r_lev := - 1, tick_cnt := 0, is_stride := True, ticket := t, r_stride := int LARGENUM sdiv t\<rparr>) s in
       kbind (get_min_pass s) (\<lambda>m s.
       let s = upd_p p (\<lambda>q. q\<lparr>pass_value := m\<rparr>) s; s = s\<lparr>mlfq_ticket := usub (mlfq_ticket s) ut\<rparr> in
       kbind (kguard (mlfq_ticket s \<noteq> 0) s) (\<lambda>_ s.
       let s = s\<lparr>mlfq_stride := LARGENUM div mlfq_ticket s\<rparr> in
       if uadd (mlfq_ticket s) (total_ticket s) \<noteq> TOTAL_TICKET then Panic ''panic in set_cpu_share().''
       else kbind (rrelease s) (\<lambda>_ s. Ok 1 s))))))"

definition find_stride_proc :: "nat \<Rightarrow> rst \<Rightarrow> nat rres" where
  "find_stride_proc m s = (case first_idx (\<lambda>p. r_state p = RUNNABLE \<and> is_stride p \<and> pass_value p = m) (ps s) of
     None \<Rightarrow> Panic ''panic in find_stride_proc().'' | Some p \<Rightarrow> Ok p s)"

subsection \<open>The scheduler\<close>

definition find_mlfq_proc :: "rst \<Rightarrow> pptr \<times> rst" where
  "find_mlfq_proc s = (case dequeue 0 s of (Some p, s) \<Rightarrow> (Some p, s) | (None, s) \<Rightarrow>
     (case dequeue 1 s of (Some p, s) \<Rightarrow> (Some p, s) | (None, s) \<Rightarrow> dequeue 2 s))"

text \<open>
  One round of the loop of \<open>scheduler\<close>, up to the switch to the process it returns, or to \<open>halt\<close> when there is none. The
  address space of the process is not part of the state.
\<close>

definition ref_run :: "nat \<Rightarrow> nat \<Rightarrow> rst \<Rightarrow> pptr rres" where
  "ref_run m p s = (let s = (if mlfq_pass s \<ge> MAX_PASS \<and> m \<ge> MAX_PASS then init_pass s else s) in
     Ok (Some p) (upd_p p (\<lambda>q. q\<lparr>r_state := RUNNING\<rparr>) (s\<lparr>rcur := Some p\<rparr>)))"

definition ref_scheduler_step :: "rst \<Rightarrow> pptr rres" where
  "ref_scheduler_step s = kbind (racquire s) (\<lambda>_ s.
     kbind (get_min_pass s) (\<lambda>m s.
     if m = mlfq_pass s then (case find_mlfq_proc s of
         (None, s) \<Rightarrow> kbind (rrelease (mlfq_pass_inc s)) (\<lambda>_ s. Ok None s)
       | (Some p, s) \<Rightarrow> ref_run m p s)
     else kbind (find_stride_proc m s) (\<lambda>p s. ref_run m p s)))"

definition ref_scheduler_back :: "rst \<Rightarrow> unit rres" where
  "ref_scheduler_back s = rrelease (s\<lparr>rcur := None\<rparr>)"

definition ref_sched :: "rst \<Rightarrow> 'a rres" where
  "ref_sched s = (case rcur s of None \<Rightarrow> Undef | Some p \<Rightarrow>
     if \<not> ptlock s then Panic ''sched ptable.lock''
     else if r_state (ps s ! p) = RUNNING then Panic ''sched running'' else Sched s)"

subsection \<open>Giving up the CPU\<close>

definition ref_yield_mlfq :: "nat \<Rightarrow> rst \<Rightarrow> unit rres" where
  "ref_yield_mlfq p s = kbind (kguard (0 \<le> r_lev (ps s ! p) \<and> r_lev (ps s ! p) < 3) s) (\<lambda>_ s.
     let q = ps s ! p; l = nat (r_lev q);
         s = (if l < MAX_MLFQ_LEV - 1 \<and> tick_cnt q \<ge> TIME_ALLOTMENT ! l then upd_p p (\<lambda>q. q\<lparr>r_lev := r_lev q + 1, tick_cnt := 0\<rparr>) s
              else if l = MAX_MLFQ_LEV - 1 \<and> tick_cnt q \<ge> TIME_QUANTUM ! l then upd_p p (\<lambda>q. q\<lparr>tick_cnt := 0\<rparr>) s else s) in
     enqueue (r_lev (ps s ! p)) p s)"

definition ref_yield :: "rst \<Rightarrow> unit rres option" where
  "ref_yield s = obind (Some (racquire s)) (\<lambda>_ s. case rcur s of None \<Rightarrow> Some Undef | Some p \<Rightarrow>
     let s = upd_p p (\<lambda>q. q\<lparr>r_state := RUNNABLE\<rparr>) s; s = s\<lparr>boost_tick := uadd (boost_tick s) 1\<rparr> in
     obind (if boost_tick s \<ge> BOOST_LIMIT then priority_boost s else Some (Ok () s)) (\<lambda>_ s.
     let s = upd_p p (\<lambda>q. q\<lparr>tick_cnt := uadd (tick_cnt q) 1\<rparr>) s in
     Some (kbind (if is_stride (ps s ! p)
         then Ok () (upd_p p (\<lambda>q. q\<lparr>pass_value := uadd (pass_value q) (nat (r_stride q mod 2 ^ 32))\<rparr>) s)
         else kbind (ref_yield_mlfq p s) (\<lambda>_ s. Ok () (mlfq_pass_inc s))) (\<lambda>_ s.
       ref_sched s))))"

text \<open>\<open>tick_yield\<close>, for the timer.\<close>

definition tick_yield :: "rst \<Rightarrow> unit rres" where
  "tick_yield s = kbind (racquire s) (\<lambda>_ s. case rcur s of None \<Rightarrow> Undef | Some p \<Rightarrow>
     let s = upd_p p (\<lambda>q. q\<lparr>r_state := RUNNABLE\<rparr>) s; q = ps s ! p in
     kbind (if \<not> is_stride q then
         kbind (kguard (0 \<le> r_lev q \<and> r_lev q < 3) s) (\<lambda>_ s.
         let l = nat (r_lev q);
             s = (if l < MAX_MLFQ_LEV - 1 \<and> tick_cnt q \<ge> TIME_ALLOTMENT ! l then upd_p p (\<lambda>q. q\<lparr>r_lev := r_lev q + 1, tick_cnt := 0\<rparr>) s
                  else if l = MAX_MLFQ_LEV - 1 then upd_p p (\<lambda>q. q\<lparr>tick_cnt := 0\<rparr>) s else s) in
         enqueue (r_lev (ps s ! p)) p s)
       else Ok () s) (\<lambda>_ s. ref_sched s))"

definition ref_trap_tick :: "rst \<Rightarrow> unit rres option" where
  "ref_trap_tick s = (case rcur s of None \<Rightarrow> Some (Ok () s) | Some p \<Rightarrow>
     if r_state (ps s ! p) \<noteq> RUNNING then Some (Ok () s)
     else
       let s = s\<lparr>boost_tick := uadd (boost_tick s) 1\<rparr>; s = upd_p p (\<lambda>q. q\<lparr>tick_cnt := uadd (tick_cnt q) 1\<rparr>) s in
       obind (if boost_tick s \<ge> BOOST_LIMIT then priority_boost s else Some (Ok () s)) (\<lambda>_ s.
       if is_stride (ps s ! p)
       then Some (tick_yield (upd_p p (\<lambda>q. q\<lparr>pass_value := uadd (pass_value q) (nat (r_stride q mod 2 ^ 32))\<rparr>) s))
       else
         let s = mlfq_pass_inc s; l = r_lev (ps s ! p) in
         Some (kbind (kguard (0 \<le> l \<and> l < 3) s) (\<lambda>_ s.
           if tick_cnt (ps s ! p) mod (TIME_QUANTUM ! nat l) = 0 then tick_yield s else Ok () s))))"

subsection \<open>Waking up\<close>

definition ref_wake :: "nat \<Rightarrow> rst \<Rightarrow> unit rres" where
  "ref_wake p s = kbind (if \<not> is_stride (ps s ! p) then enqueue (r_lev (ps s ! p)) p s
       else kbind (get_min_pass s) (\<lambda>m s. Ok () (upd_p p (\<lambda>q. q\<lparr>pass_value := m\<rparr>) s))) (\<lambda>_ s.
     Ok () (upd_p p (\<lambda>q. q\<lparr>r_state := RUNNABLE\<rparr>) s))"

definition ref_wakeup1 :: "chan option \<Rightarrow> rst \<Rightarrow> unit rres" where
  "ref_wakeup1 ch s = kfor [0..<NPROC] (\<lambda>p s.
     if r_state (ps s ! p) = SLEEPING \<and> r_chan (ps s ! p) = ch then ref_wake p s else Ok () s) s"

definition ref_wakeup :: "chan option \<Rightarrow> rst \<Rightarrow> unit rres" where
  "ref_wakeup ch s = kbind (racquire s) (\<lambda>_ s. kbind (ref_wakeup1 ch s) (\<lambda>_ s. rrelease s))"

definition ref_kill :: "int \<Rightarrow> rst \<Rightarrow> int rres" where
  "ref_kill i s = kbind (racquire s) (\<lambda>_ s.
     case first_idx (\<lambda>p. r_pid p = i) (ps s) of
       None \<Rightarrow> kbind (rrelease s) (\<lambda>_ s. Ok (- 1) s)
     | Some p \<Rightarrow>
         let s = upd_p p (\<lambda>q. q\<lparr>r_killed := True\<rparr>) s in
         kbind (if r_state (ps s ! p) = SLEEPING then ref_wake p s else Ok () s) (\<lambda>_ s.
         kbind (rrelease s) (\<lambda>_ s. Ok 0 s)))"

subsection \<open>Life of a process\<close>

text \<open>The end of \<open>userinit\<close> and of \<open>fork\<close> for the new process \<open>p\<close>, and what \<open>wait\<close> clears.\<close>

definition ref_start :: "nat \<Rightarrow> rst \<Rightarrow> unit rres" where
  "ref_start p s = (let s = upd_p p (\<lambda>q. q\<lparr>r_lev := 0, tick_cnt := 0, is_stride := False, r_stride := 0, pass_value := 0, ticket := 0\<rparr>) s in
     kbind (racquire s) (\<lambda>_ s.
     kbind (enqueue (r_lev (ps s ! p)) p (upd_p p (\<lambda>q. q\<lparr>r_state := RUNNABLE\<rparr>) s)) (\<lambda>_ s.
     rrelease s)))"

definition ref_reap :: "nat \<Rightarrow> rst \<Rightarrow> int rres" where
  "ref_reap p s = (let i = r_pid (ps s ! p) in
     kbind (rrelease (upd_p p (\<lambda>q. q\<lparr>r_pid := 0, r_parent := None, r_killed := False, r_lev := 0, tick_cnt := 0, is_stride := False,
       r_stride := 0, pass_value := 0, ticket := 0, r_state := UNUSED\<rparr>) s)) (\<lambda>_ s. Ok i s))"

definition ref_abandon :: "nat \<Rightarrow> nat \<Rightarrow> rst \<Rightarrow> unit rres" where
  "ref_abandon c p s = (if r_parent (ps s ! p) = Some c
     then let s = upd_p p (\<lambda>q. q\<lparr>r_parent := rinit s\<rparr>) s in
       if r_state (ps s ! p) = ZOMBIE then ref_wakeup1 (map_option ChProc (rinit s)) s else Ok () s
     else Ok () s)"

text \<open>\<open>exit\<close> from the acquisition of \<open>ptable.lock\<close> on.\<close>

definition ref_exit_tail :: "rst \<Rightarrow> unit rres" where
  "ref_exit_tail s = kbind (racquire s) (\<lambda>_ s. case rcur s of None \<Rightarrow> Undef | Some c \<Rightarrow>
     kbind (ref_wakeup1 (map_option ChProc (r_parent (ps s ! c))) s) (\<lambda>_ s.
     kbind (kfor [0..<NPROC] (ref_abandon c) s) (\<lambda>_ s.
     kbind (if is_stride (ps s ! c) then
         let ut = nat (ticket (ps s ! c) mod 2 ^ 32);
             s = s\<lparr>havestride := havestride s - 1, total_ticket := usub (total_ticket s) ut, mlfq_ticket := uadd (mlfq_ticket s) ut\<rparr> in
         kbind (kguard (mlfq_ticket s \<noteq> 0) s) (\<lambda>_ s. Ok () (s\<lparr>mlfq_stride := LARGENUM div mlfq_ticket s\<rparr>))
       else Ok () s) (\<lambda>_ s.
     ref_sched (upd_p c (\<lambda>q. q\<lparr>r_state := ZOMBIE\<rparr>) s)))))"

end
