(* ===== verification/RefSpec.thy ===== *)
theory RefSpec
  imports RefSched SchedPick
begin

text \<open>
  The scheduler of the reference solution keeps its queues: the circular buffers implement the interface \<open>byte_queue\<close>, the
  queue of every level holds exactly the runnable processes of the feedback queue on that level, each once (\<open>ref_inv\<close>),
  and the shares add up (\<open>ref_shares\<close>). The properties are the choice of the scheduler, what happens to a process that gives
  up the CPU, and what \<open>set_cpu_share\<close> accepts.
\<close>

subsection \<open>The queues\<close>

definition rq_count :: "rq \<Rightarrow> nat" where
  "rq_count q = (rq_rear q + NPROC - rq_front q) mod NPROC"

definition rq_list :: "rq \<Rightarrow> pptr list" where
  "rq_list q = map (\<lambda>k. rq_cells q ! ((rq_front q + 1 + k) mod NPROC)) [0..<rq_count q]"

definition rq_ok :: "rq \<Rightarrow> bool" where
  "rq_ok q \<longleftrightarrow> length (rq_cells q) = NPROC \<and> rq_front q < NPROC \<and> rq_rear q < NPROC"

lemma mod_NPROC: "a < 2 * NPROC \<Longrightarrow> a mod NPROC = (if a < NPROC then a else a - NPROC)"
  by (simp add: NPROC_def mod_if)

lemma rq_count_less: "rq_count q < NPROC"
  by (simp add: rq_count_def NPROC_def)

lemma rq_count_cases: "rq_ok q \<Longrightarrow> rq_count q = (if rq_front q \<le> rq_rear q then rq_rear q - rq_front q else rq_rear q + NPROC - rq_front q)"
  using mod_NPROC[of "rq_rear q + NPROC - rq_front q"] by (auto simp: rq_count_def rq_ok_def)

lemma rq_next: "rq_ok q \<Longrightarrow> (rq_rear q + 1) mod NPROC = (if rq_rear q + 1 = NPROC then 0 else rq_rear q + 1)"
  "rq_ok q \<Longrightarrow> (rq_front q + 1) mod NPROC = (if rq_front q + 1 = NPROC then 0 else rq_front q + 1)"
  by (auto simp: rq_ok_def)

lemma rq_full_iff: "rq_ok q \<Longrightarrow> is_full q \<longleftrightarrow> rq_count q = NPROC - 1"
  unfolding is_full_def by (auto simp: rq_next rq_count_cases) (auto simp: rq_ok_def)

lemma rq_put_count: "rq_ok q \<Longrightarrow> \<not> is_full q \<Longrightarrow> rq_ok (rq_put p q) \<and> rq_count (rq_put p q) = rq_count q + 1"
proof -
  assume q: "rq_ok q" "\<not> is_full q"
  have o: "rq_ok (rq_put p q)" using q(1) by (simp add: rq_put_def rq_ok_def NPROC_def Let_def)
  have f: "rq_front (rq_put p q) = rq_front q" "rq_rear (rq_put p q) = (if rq_rear q + 1 = NPROC then 0 else rq_rear q + 1)"
    using rq_next[OF q(1)] by (simp_all add: rq_put_def Let_def)
  show ?thesis using q o unfolding is_full_def rq_count_cases[OF o] rq_count_cases[OF q(1)] f rq_next(1)[OF q(1)]
    by (auto simp: rq_ok_def)
qed

lemma rq_cell_eq:
  assumes "rq_ok q" "k \<le> rq_count q"
  shows "(rq_front q + 1 + k) mod NPROC = (rq_rear q + 1) mod NPROC \<longleftrightarrow> k = rq_count q"
proof -
  have "rq_front q + 1 + k < 2 * NPROC" using assms rq_count_less[of q] by (simp add: rq_ok_def)
  then have "(rq_front q + 1 + k) mod NPROC = (if rq_front q + 1 + k < NPROC then rq_front q + 1 + k else rq_front q + 1 + k - NPROC)"
    by (rule mod_NPROC)
  then show ?thesis using assms unfolding rq_next(1)[OF assms(1)] rq_count_cases[OF assms(1)]
    by (auto simp: rq_ok_def split: if_splits)
qed

lemma rq_put_list: "rq_ok q \<Longrightarrow> \<not> is_full q \<Longrightarrow> rq_list (rq_put p q) = rq_list q @ [p]"
proof -
  assume q: "rq_ok q" "\<not> is_full q"
  have f: "rq_front (rq_put p q) = rq_front q" "rq_cells (rq_put p q) = (rq_cells q)[(rq_rear q + 1) mod NPROC := p]"
    by (simp_all add: rq_put_def Let_def)
  have l: "(rq_rear q + 1) mod NPROC < length (rq_cells q)" using q(1) by (simp add: rq_ok_def NPROC_def)
  have s: "(rq_front q + 1 + k) mod NPROC \<noteq> (rq_rear q + 1) mod NPROC" if "k < rq_count q" for k
    using rq_cell_eq[OF q(1), of k] that by simp
  have e: "(rq_front q + 1 + rq_count q) mod NPROC = (rq_rear q + 1) mod NPROC" using rq_cell_eq[OF q(1), of "rq_count q"] by simp
  have "map (\<lambda>k. (rq_cells q)[(rq_rear q + 1) mod NPROC := p] ! ((rq_front q + 1 + k) mod NPROC)) [0..<rq_count q]
      = map (\<lambda>k. rq_cells q ! ((rq_front q + 1 + k) mod NPROC)) [0..<rq_count q]"
    using s by (intro map_cong refl) (simp add: nth_list_update_neq[OF not_sym])
  moreover have "rq_count (rq_put p q) = Suc (rq_count q)" using rq_put_count[OF q, of p] by simp
  ultimately show ?thesis using e l by (simp add: rq_list_def f del: map_eq_conv)
qed

lemma rq_get_list:
  assumes q: "rq_ok q" "\<not> is_empty q"
  shows "rq_ok (snd (rq_get q))" "rq_list q = fst (rq_get q) # rq_list (snd (rq_get q))"
proof -
  let ?r = "snd (rq_get q)"
  show "rq_ok ?r" using q by (simp add: rq_get_def rq_ok_def NPROC_def Let_def)
  have f: "rq_rear ?r = rq_rear q" "rq_front ?r = (if rq_front q + 1 = NPROC then 0 else rq_front q + 1)"
    using rq_next[OF q(1)] by (simp_all add: rq_get_def Let_def)
  have c: "rq_count q = Suc (rq_count ?r)"
    using q unfolding is_empty_def rq_count_cases[OF \<open>rq_ok ?r\<close>] rq_count_cases[OF q(1)] f by (auto simp: rq_ok_def)
  have "(rq_front ?r + 1 + k) mod NPROC = (rq_front q + 1 + Suc k) mod NPROC" for k
    using mod_add_left_eq[of "rq_front q + 1" NPROC "1 + k"] by (simp add: rq_get_def Let_def One_nat_def)
  then show "rq_list q = fst (rq_get q) # rq_list ?r"
    unfolding rq_list_def c upt_conv_Cons[OF zero_less_Suc] map_Suc_upt[symmetric]
    by (simp add: rq_get_def Let_def)
qed

interpretation mq: byte_queue rq_list rq_ok is_full is_empty rq_put rq_get "NPROC - 1"
proof unfold_locales
  fix q :: rq and p
  assume q: "rq_ok q"
  show "is_full q \<longleftrightarrow> length (rq_list q) = NPROC - 1"
    using rq_full_iff[OF q] by (simp add: rq_list_def)
  show "is_empty q \<longleftrightarrow> rq_list q = []"
    using q rq_count_cases[OF q] by (auto simp: rq_list_def rq_ok_def is_empty_def)
  show "length (rq_list q) \<le> NPROC - 1" using rq_count_less[of q] by (simp add: rq_list_def)
  show "rq_ok (rq_put p q) \<and> rq_list (rq_put p q) = rq_list q @ [p]" if "\<not> is_full q"
    using rq_put_count[OF q that] rq_put_list[OF q that] by blast
  show "rq_ok (snd (rq_get q)) \<and> rq_list q = fst (rq_get q) # rq_list (snd (rq_get q))" if "\<not> is_empty q"
    using rq_get_list[OF q that] by blast
qed

subsection \<open>The invariant\<close>

definition lq :: "rst \<Rightarrow> nat \<Rightarrow> pptr list" where
  "lq s l = rq_list (rqs s ! l)"

text \<open>The processes that wait in the queue of level \<open>l\<close>; \<open>X\<close> are processes that are being moved.\<close>

definition waiting :: "rst \<Rightarrow> nat \<Rightarrow> nat set" where
  "waiting s l = {p. p < NPROC \<and> r_state (ps s ! p) = RUNNABLE \<and> \<not> is_stride (ps s ! p) \<and> r_lev (ps s ! p) = int l}"

definition rqs_ok :: "rst \<Rightarrow> bool" where
  "rqs_ok s \<longleftrightarrow> length (rqs s) = 3 \<and> (\<forall>l < 3. rq_ok (rqs s ! l))"

definition ref_inv :: "nat set \<Rightarrow> rst \<Rightarrow> bool" where
  "ref_inv X s \<longleftrightarrow> length (ps s) = NPROC \<and> rqs_ok s \<and> (\<forall>l < 3. distinct (lq s l) \<and> set (lq s l) = Some ` (waiting s l - X))
     \<and> (\<forall>p < NPROC. is_stride (ps s ! p) \<or> 0 \<le> r_lev (ps s ! p) \<and> r_lev (ps s ! p) < 3)"

lemma ref_invD:
  assumes "ref_inv X s"
  shows "length (ps s) = NPROC" "rqs_ok s"
    "l < 3 \<Longrightarrow> distinct (lq s l)" "l < 3 \<Longrightarrow> set (lq s l) = Some ` (waiting s l - X)"
    "p < NPROC \<Longrightarrow> \<not> is_stride (ps s ! p) \<Longrightarrow> 0 \<le> r_lev (ps s ! p) \<and> r_lev (ps s ! p) < 3"
  using assms by (auto simp: ref_inv_def)

lemma waiting_cong:
  "(\<And>p. p < NPROC \<Longrightarrow> r_state (ps t ! p) = r_state (ps s ! p) \<and> is_stride (ps t ! p) = is_stride (ps s ! p) \<and> r_lev (ps t ! p) = r_lev (ps s ! p))
   \<Longrightarrow> waiting t l = waiting s l"
  unfolding waiting_def by (rule Collect_cong) (metis (no_types))

lemma ref_inv_change:
  assumes "ref_inv X s" "rqs t = rqs s" "length (ps t) = length (ps s)" "\<And>l. l < 3 \<Longrightarrow> waiting t l - Y = waiting s l - X"
    "\<And>p. p < NPROC \<Longrightarrow> \<not> is_stride (ps t ! p) \<Longrightarrow> 0 \<le> r_lev (ps t ! p) \<and> r_lev (ps t ! p) < 3"
  shows "ref_inv Y t"
  using assms unfolding ref_inv_def lq_def rqs_ok_def by auto

text \<open>Only the state, the level and the kind of the processes and the queues matter.\<close>

lemma ref_inv_cong:
  assumes "ref_inv X s" "rqs t = rqs s" "length (ps t) = length (ps s)"
    "\<And>p. p < NPROC \<Longrightarrow> r_state (ps t ! p) = r_state (ps s ! p) \<and> is_stride (ps t ! p) = is_stride (ps s ! p) \<and> r_lev (ps t ! p) = r_lev (ps s ! p)"
  shows "ref_inv X t"
proof (rule ref_inv_change[OF assms(1-3)])
  show "waiting t l - X = waiting s l - X" for l using waiting_cong[of t s l] assms(4) by simp
qed (use assms ref_invD(5)[OF assms(1)] in metis)

lemma lq_upd_q: "length (rqs s) = 3 \<Longrightarrow> l < 3 \<Longrightarrow> lq (upd_q l f s) k = (if k = l then rq_list (f (rqs s ! l)) else lq s k)"
  by (simp add: lq_def upd_q_def)

lemma upd_q_simps [simp]:
  "ps (upd_q l f s) = ps s" "rcur (upd_q l f s) = rcur s" "ptlock (upd_q l f s) = ptlock s" "mlfq_pass (upd_q l f s) = mlfq_pass s"
  "mlfq_stride (upd_q l f s) = mlfq_stride s" "mlfq_ticket (upd_q l f s) = mlfq_ticket s" "boost_tick (upd_q l f s) = boost_tick s"
  "total_ticket (upd_q l f s) = total_ticket s" "havestride (upd_q l f s) = havestride s" "rinit (upd_q l f s) = rinit s"
  "length (rqs (upd_q l f s)) = length (rqs s)"
  by (simp_all add: upd_q_def)

lemma upd_p_simps [simp]:
  "rqs (upd_p i f s) = rqs s" "rcur (upd_p i f s) = rcur s" "ptlock (upd_p i f s) = ptlock s" "mlfq_pass (upd_p i f s) = mlfq_pass s"
  "mlfq_stride (upd_p i f s) = mlfq_stride s" "mlfq_ticket (upd_p i f s) = mlfq_ticket s" "boost_tick (upd_p i f s) = boost_tick s"
  "total_ticket (upd_p i f s) = total_ticket s" "havestride (upd_p i f s) = havestride s" "rinit (upd_p i f s) = rinit s"
  "length (ps (upd_p i f s)) = length (ps s)" "lq (upd_p i f s) = lq s"
  by (auto simp: upd_p_def lq_def)

lemma nth_upd_p: "i < length (ps s) \<Longrightarrow> ps (upd_p i f s) ! j = (if j = i then f (ps s ! i) else ps s ! j)"
  by (simp add: upd_p_def)

lemma nth_upd_q: "l < length (rqs s) \<Longrightarrow> rqs (upd_q l f s) ! k = (if k = l then f (rqs s ! l) else rqs s ! k)"
  by (simp add: upd_q_def)

lemma waiting_upd_q [simp]: "waiting (upd_q l f s) k = waiting s k"
  by (simp add: waiting_def)

text \<open>The queues alone.\<close>

lemma enqueue_q:
  assumes q: "rqs_ok s" and l: "l < 3"
  shows "enqueue (int l) p s = (if length (lq s l) = NPROC - 1 then Panic ''Queue is already full''
      else Ok () (upd_q l (rq_put (Some p)) s))"
    "length (lq s l) \<noteq> NPROC - 1 \<Longrightarrow> rqs_ok (upd_q l (rq_put (Some p)) s) \<and> lq (upd_q l (rq_put (Some p)) s) = (lq s)(l := lq s l @ [Some p])"
proof -
  have o: "rq_ok (rqs s ! l)" "length (rqs s) = 3" using q l by (simp_all add: rqs_ok_def)
  have f: "is_full (rqs s ! l) \<longleftrightarrow> length (lq s l) = NPROC - 1" using mq.full_law[OF o(1)] by (simp add: lq_def)
  then show "enqueue (int l) p s = (if length (lq s l) = NPROC - 1 then Panic ''Queue is already full''
      else Ok () (upd_q l (rq_put (Some p)) s))"
    using l by (simp add: enqueue_def)
  assume nf: "length (lq s l) \<noteq> NPROC - 1"
  have P: "rq_ok (rq_put (Some p) (rqs s ! l))" "rq_list (rq_put (Some p) (rqs s ! l)) = lq s l @ [Some p]"
    using mq.put_law[OF o(1), of "Some p"] f nf by (auto simp: lq_def)
  show "rqs_ok (upd_q l (rq_put (Some p)) s) \<and> lq (upd_q l (rq_put (Some p)) s) = (lq s)(l := lq s l @ [Some p])"
    using q P l lq_upd_q[OF o(2) l] by (auto simp: rqs_ok_def nth_upd_q fun_eq_iff)
qed

lemma dequeue_q:
  assumes q: "rqs_ok s" and l: "l < 3"
  shows "lq s l = [] \<Longrightarrow> dequeue l s = (None, s)"
    "lq s l = Some p # r \<Longrightarrow> dequeue l s = (Some p, upd_q l (\<lambda>q. snd (rq_get q)) s)
       \<and> rqs_ok (upd_q l (\<lambda>q. snd (rq_get q)) s) \<and> lq (upd_q l (\<lambda>q. snd (rq_get q)) s) = (lq s)(l := r)"
proof -
  have o: "rq_ok (rqs s ! l)" "length (rqs s) = 3" using q l by (simp_all add: rqs_ok_def)
  have e: "is_empty (rqs s ! l) \<longleftrightarrow> lq s l = []" using mq.empty_law[OF o(1)] by (simp add: lq_def)
  then show "dequeue l s = (None, s)" if "lq s l = []" using that by (simp add: dequeue_def)
  assume c: "lq s l = Some p # r"
  have G: "rq_ok (snd (rq_get (rqs s ! l)))" "fst (rq_get (rqs s ! l)) = Some p" "rq_list (snd (rq_get (rqs s ! l))) = r"
    using mq.get_law[OF o(1)] e c by (auto simp: lq_def)
  then show "dequeue l s = (Some p, upd_q l (\<lambda>q. snd (rq_get q)) s)
       \<and> rqs_ok (upd_q l (\<lambda>q. snd (rq_get q)) s) \<and> lq (upd_q l (\<lambda>q. snd (rq_get q)) s) = (lq s)(l := r)"
    using q e c l lq_upd_q[OF o(2) l] by (auto simp: dequeue_def rqs_ok_def nth_upd_q fun_eq_iff)
qed

text \<open>Putting a waiting process into its queue, and taking the first one out.\<close>

lemma ref_inv_put:
  assumes i: "ref_inv X s" and p: "p \<in> waiting s l" "p \<in> X" "l < 3"
    and t: "rqs_ok t" "ps t = ps s" "lq t = (lq s)(l := lq s l @ [Some p])"
  shows "ref_inv (X - {p}) t"
proof -
  note I = ref_invD[OF i]
  have w: "waiting t = waiting s" using t(2) by (auto simp: waiting_def fun_eq_iff)
  have "distinct (lq t k) \<and> set (lq t k) = Some ` (waiting t k - (X - {p}))" if k: "k < 3" for k
  proof (cases "k = l")
    case True
    have "waiting s l - (X - {p}) = insert p (waiting s l - X)" using p(1) by auto
    then show ?thesis using True I(3,4)[OF p(3)] p by (auto simp: t(3) w)
  next
    case False
    have "p \<notin> waiting s k" using p(1) False by (auto simp: waiting_def)
    then have "waiting s k - (X - {p}) = waiting s k - X" by auto
    then show ?thesis using False I(3,4)[OF k] by (simp add: t(3) w)
  qed
  then show ?thesis using i t(1,2) unfolding ref_inv_def by simp
qed

lemma enqueue_ok:
  assumes i: "ref_inv X s" and p: "p \<in> waiting s l" "p \<in> X" "l < 3" and n: "length (lq s l) \<noteq> NPROC - 1"
  shows "\<exists>t. enqueue (int l) p s = Ok () t \<and> t = upd_q l (rq_put (Some p)) s \<and> ref_inv (X - {p}) t \<and> lq t = (lq s)(l := lq s l @ [Some p])"
  using enqueue_q[OF ref_invD(2)[OF i] p(3), of p] n ref_inv_put[OF i p] by auto

lemma dequeue_ok:
  assumes i: "ref_inv X s" and l: "l < 3" and c: "lq s l = x # r"
  shows "\<exists>p t. x = Some p \<and> p \<in> waiting s l \<and> dequeue l s = (Some p, t) \<and> t = upd_q l (\<lambda>q. snd (rq_get q)) s
       \<and> ref_inv (insert p X) t \<and> lq t = (lq s)(l := r)"
proof -
  note I = ref_invD[OF i]
  let ?t = "upd_q l (\<lambda>q. snd (rq_get q)) s"
  have "x \<in> Some ` (waiting s l - X)" using I(4)[OF l] c by auto
  then obtain p where p: "x = Some p" "p \<in> waiting s l" "p \<notin> X" by auto
  note D = dequeue_q(2)[OF I(2) l c[unfolded p(1)]]
  have "distinct (lq ?t k) \<and> set (lq ?t k) = Some ` (waiting ?t k - insert p X)" if k: "k < 3" for k
  proof (cases "k = l")
    case True
    have "set r = set (lq s l) - {x}" using I(3)[OF l] c by auto
    then have "set r = Some ` (waiting s l - insert p X)" unfolding I(4)[OF l] p(1) by auto
    then show ?thesis using True I(3)[OF l] c D by simp
  next
    case False
    have "p \<notin> waiting s k" using p(2) False by (auto simp: waiting_def)
    then have "waiting s k - insert p X = waiting s k - X" by auto
    then show ?thesis using False I(3,4)[OF k] D by simp
  qed
  then have "ref_inv (insert p X) ?t" using i D unfolding ref_inv_def by simp
  then show ?thesis using D p by blast
qed

lemma lq_distinct:
  assumes i: "ref_inv X s"
  shows "distinct (lq s 0 @ lq s 1 @ lq s 2)"
proof -
  have s: "set (lq s l) = Some ` (waiting s l - X)" "distinct (lq s l)" if "l < 3" for l using ref_invD(3,4)[OF i that] by simp_all
  have "set (lq s k) \<inter> set (lq s l) = {}" if "k \<noteq> l" "k < 3" "l < 3" for k l
    unfolding s(1)[OF that(2)] s(1)[OF that(3)] using that(1) by (auto simp: waiting_def)
  from this[of 0 1] this[of 0 2] this[of 1 2]
  show ?thesis using s(2)[of 0] s(2)[of 1] s(2)[of 2] by (simp add: Int_Un_distrib)
qed

text \<open>There is room for all processes but one.\<close>

lemma lq_room:
  assumes i: "ref_inv X s" and c: "c < NPROC" "\<And>l. l < 3 \<Longrightarrow> c \<notin> waiting s l - X"
  shows "length (lq s 0 @ lq s 1 @ lq s 2) \<le> NPROC - 1"
proof -
  note I = ref_invD[OF i]
  have s: "set (lq s l) = Some ` (waiting s l - X)" if "l < 3" for l by (rule I(4)[OF that])
  have d: "distinct (lq s 0 @ lq s 1 @ lq s 2)" by (rule lq_distinct[OF i])
  have "set (lq s 0 @ lq s 1 @ lq s 2) \<subseteq> Some ` ({..<NPROC} - {c})"
    using s[of 0] s[of 1] s[of 2] c(2)[of 0] c(2)[of 1] c(2)[of 2] by (auto simp: waiting_def)
  then have "card (set (lq s 0 @ lq s 1 @ lq s 2)) \<le> card (Some ` ({..<NPROC} - {c}))" by (rule card_mono[rotated]) simp
  also have "\<dots> = NPROC - 1" using c(1) by (simp add: card_image)
  finally show ?thesis using distinct_card[OF d] by simp
qed

subsection \<open>The boost\<close>

lemma drain_ok:
  assumes "rqs_ok s" "0 < l" "l < 3" "None \<notin> set (lq s l)" "length (lq s 0) + length (lq s l) \<le> NPROC - 1"
  shows "\<exists>q. drain l s = Some (Ok () (s\<lparr>rqs := q\<rparr>)) \<and> rqs_ok (s\<lparr>rqs := q\<rparr>) \<and> lq (s\<lparr>rqs := q\<rparr>) = (lq s)(0 := lq s 0 @ lq s l, l := [])"
  using assms
proof (induction "length (lq s l)" arbitrary: s)
  case 0
  then have e: "lq s l = []" by simp
  then have "drain l s = Some (Ok () (s\<lparr>rqs := rqs s\<rparr>))" using dequeue_q(1)[OF "0.prems"(1,3) e] by (subst drain.simps) simp
  moreover have "s\<lparr>rqs := rqs s\<rparr> = s" "lq s = (lq s)(0 := lq s 0 @ lq s l, l := [])" using e by (simp_all add: fun_eq_iff)
  ultimately show ?case using "0.prems"(1) by metis
next
  case (Suc n)
  obtain p r where c: "lq s l = Some p # r" using Suc.hyps(2) Suc.prems(4) by (cases "lq s l"; cases "hd (lq s l)") auto
  let ?t = "upd_q l (\<lambda>q. snd (rq_get q)) s"
  note D = dequeue_q(2)[OF Suc.prems(1,3) c]
  have t: "rqs_ok ?t" "lq ?t = (lq s)(l := r)" using D by simp_all
  have n: "length (lq ?t 0) \<noteq> NPROC - 1" using Suc.prems(2,5) c t(2) by simp
  let ?u = "upd_q 0 (rq_put (Some p)) ?t"
  have E: "enqueue 0 p ?t = Ok () ?u" "rqs_ok ?u" "lq ?u = (lq s)(l := r, 0 := lq s 0 @ [Some p])"
    using enqueue_q[OF t(1), of 0 p] n t(2) Suc.prems(2) by simp_all
  have s: "drain l s = drain l ?u" using D E(1) by (subst drain.simps) simp
  have p: "n = length (lq ?u l)" "None \<notin> set (lq ?u l)" "length (lq ?u 0) + length (lq ?u l) \<le> NPROC - 1"
    using Suc.hyps(2) Suc.prems(2,4,5) c by (simp_all add: E(3))
  obtain q where q: "drain l ?u = Some (Ok () (?u\<lparr>rqs := q\<rparr>))" "rqs_ok (?u\<lparr>rqs := q\<rparr>)"
      "lq (?u\<lparr>rqs := q\<rparr>) = (lq ?u)(0 := lq ?u 0 @ lq ?u l, l := [])"
    using Suc.hyps(1)[OF p(1) E(2) Suc.prems(2,3) p(2,3)] by blast
  have u: "?u\<lparr>rqs := q\<rparr> = s\<lparr>rqs := q\<rparr>" by (simp add: upd_q_def)
  show ?case using q s Suc.prems(2) c unfolding u E(3) by (intro exI[of _ q]) (auto simp: fun_eq_iff)
qed

text \<open>The processes after a boost.\<close>

definition boosted :: "rproc \<Rightarrow> rproc" where
  "boosted p = (if is_stride p \<or> r_lev p = 0 then p else p\<lparr>r_lev := 0, tick_cnt := 0\<rparr>)"

lemma priority_boost_ok:
  assumes i: "ref_inv X s" and k: "BOOST_LIMIT \<le> boost_tick s" and c: "c < NPROC" "\<And>l. l < 3 \<Longrightarrow> c \<notin> waiting s l - X"
  shows "\<exists>q. let t = s\<lparr>boost_tick := 0, ps := map boosted (ps s), rqs := q\<rparr> in priority_boost s = Some (Ok () t)
    \<and> ref_inv X t \<and> lq t 0 = lq s 0 @ lq s 1 @ lq s 2 \<and> lq t 1 = [] \<and> lq t 2 = []"
proof -
  note I = ref_invD[OF i]
  let ?s = "s\<lparr>boost_tick := 0, ptlock := True, ps := map boosted (ps s)\<rparr>"
  have l: "lq ?s = lq s" "rqs_ok ?s" using I(2) by (simp_all add: lq_def fun_eq_iff rqs_ok_def)
  have N: "None \<notin> set (lq s l)" if "l < 3" for l using I(4)[OF that] by auto
  have r: "length (lq s 0 @ lq s 1 @ lq s 2) \<le> NPROC - 1" by (rule lq_room[OF i c])
  obtain q1 where 1: "drain 1 ?s = Some (Ok () (?s\<lparr>rqs := q1\<rparr>))" "rqs_ok (?s\<lparr>rqs := q1\<rparr>)" "lq (?s\<lparr>rqs := q1\<rparr>) = (lq s)(0 := lq s 0 @ lq s 1, 1 := [])"
    using drain_ok[OF l(2), of 1] N[of 1] r unfolding l(1) by auto
  obtain q where 2: "drain 2 (?s\<lparr>rqs := q1\<rparr>) = Some (Ok () (?s\<lparr>rqs := q\<rparr>))" "rqs_ok (?s\<lparr>rqs := q\<rparr>)"
      "lq (?s\<lparr>rqs := q\<rparr>) = (lq s)(0 := lq s 0 @ lq s 1 @ lq s 2, 1 := [], 2 := [])"
    using drain_ok[OF 1(2), of 2] N[of 2] r unfolding 1(3) by (auto simp: fun_eq_iff)
  let ?t = "s\<lparr>boost_tick := 0, ps := map boosted (ps s), rqs := q\<rparr>"
  have t: "rqs_ok ?t" "lq ?t = (lq s)(0 := lq s 0 @ lq s 1 @ lq s 2, 1 := [], 2 := [])"
    using 2(2,3) unfolding rqs_ok_def by (simp_all add: lq_def[abs_def])
  have e: "is_empty (q ! l)" if "l \<in> {1, 2}" for l
    using that mq.empty_law[of "q ! l"] t(1) fun_cong[OF t(2), of l] by (auto simp: rqs_ok_def lq_def)
  have "priority_boost s = Some (Ok () ?t)"
  proof -
    have P: "priority_boost s = obind (Some (if \<not> ptlock s then racquire (s\<lparr>boost_tick := 0\<rparr>) else Ok () (s\<lparr>boost_tick := 0\<rparr>))) (\<lambda>_ u.
        obind (drain 1 (u\<lparr>ps := map boosted (ps u)\<rparr>)) (\<lambda>_ u. obind (drain 2 u) (\<lambda>_ u.
        if \<not> is_empty (rqs u ! 1) \<or> \<not> is_empty (rqs u ! 2) then Some (Panic ''panic in priority boost().'')
        else Some (if \<not> ptlock s then rrelease u else Ok () u))))"
      using k by (simp add: priority_boost_def boosted_def[abs_def] Let_def not_less cong: if_cong)
    have A: "(if \<not> ptlock s then racquire (s\<lparr>boost_tick := 0\<rparr>) else Ok () (s\<lparr>boost_tick := 0\<rparr>)) = Ok () (s\<lparr>boost_tick := 0, ptlock := True\<rparr>)"
      by (cases s) (auto simp: racquire_def)
    have B: "(if \<not> ptlock s then rrelease (?s\<lparr>rqs := q\<rparr>) else Ok () (?s\<lparr>rqs := q\<rparr>)) = Ok () ?t"
      by (cases s) (auto simp: rrelease_def)
    have C: "(s\<lparr>boost_tick := 0, ptlock := True\<rparr>)\<lparr>ps := map boosted (ps (s\<lparr>boost_tick := 0, ptlock := True\<rparr>))\<rparr> = ?s" by simp
    have E: "is_empty (rqs (?s\<lparr>rqs := q\<rparr>) ! 1)" "is_empty (rqs (?s\<lparr>rqs := q\<rparr>) ! 2)" using e by simp_all
    show ?thesis unfolding P A obind_def option.case res.case C 1(1) 2(1) using E B by (simp only: simp_thms if_False)
  qed
  moreover have "ref_inv X ?t"
  proof -
    have b: "r_state (boosted p) = r_state p" "is_stride (boosted p) = is_stride p" "\<not> is_stride p \<Longrightarrow> r_lev (boosted p) = 0"
      "is_stride p \<Longrightarrow> r_lev (boosted p) = r_lev p" for p by (simp_all add: boosted_def)
    have n: "map boosted (ps s) ! p = boosted (ps s ! p)" if "p < NPROC" for p using that I(1) by simp
    have v: "r_lev (ps s ! p) = 0 \<or> r_lev (ps s ! p) = 1 \<or> r_lev (ps s ! p) = 2" if "p < NPROC" "\<not> is_stride (ps s ! p)" for p
      using I(5)[OF that] by linarith
    have w: "waiting ?t 0 = waiting s 0 \<union> waiting s 1 \<union> waiting s 2" "waiting ?t 1 = {}" "waiting ?t 2 = {}"
      by (auto simp: waiting_def n b cong: conj_cong dest: v)
    have d: "distinct (lq s 0 @ lq s 1 @ lq s 2)" by (rule lq_distinct[OF i])
    have "distinct (lq ?t l) \<and> set (lq ?t l) = Some ` (waiting ?t l - X)" if "l < 3" for l
    proof -
      have "l = 0 \<or> l = 1 \<or> l = 2" using that by linarith
      then show ?thesis using d I(4)[of 0] I(4)[of 1] I(4)[of 2] by (auto simp: t(2) w)
    qed
    moreover have "\<forall>p < NPROC. is_stride (ps ?t ! p) \<or> 0 \<le> r_lev (ps ?t ! p) \<and> r_lev (ps ?t ! p) < 3"
      using b(3) by (auto simp: n b(2))
    ultimately show ?thesis using t(1) I(1) unfolding ref_inv_def by simp
  qed
  ultimately show ?thesis by (auto simp: t(2) Let_def intro!: exI[of _ q])
qed

subsection \<open>The choice\<close>

definition stride_ready :: "rst \<Rightarrow> nat \<Rightarrow> bool" where
  "stride_ready s p \<longleftrightarrow> p < NPROC \<and> is_stride (ps s ! p) \<and> r_state (ps s ! p) = RUNNABLE"

lemma foldl_least:
  fixes v :: "'a \<Rightarrow> nat"
  shows "foldl (\<lambda>m x. if P x \<and> v x < m then v x else m) m xs \<le> m
   \<and> (\<forall>x \<in> set xs. P x \<longrightarrow> foldl (\<lambda>m x. if P x \<and> v x < m then v x else m) m xs \<le> v x)
   \<and> (foldl (\<lambda>m x. if P x \<and> v x < m then v x else m) m xs = m
      \<or> (\<exists>x \<in> set xs. P x \<and> v x = foldl (\<lambda>m x. if P x \<and> v x < m then v x else m) m xs))"
proof (induction xs arbitrary: m)
  case (Cons x xs)
  show ?case using Cons.IH[of "if P x \<and> v x < m then v x else m"] by (auto split: if_splits)
qed simp

lemma min_pass_of_least:
  assumes "length (ps s) = NPROC"
  shows "min_pass_of s \<le> mlfq_pass s" "stride_ready s p \<Longrightarrow> min_pass_of s \<le> pass_value (ps s ! p)"
    "min_pass_of s \<noteq> mlfq_pass s \<Longrightarrow> \<exists>p. stride_ready s p \<and> pass_value (ps s ! p) = min_pass_of s"
proof -
  have e: "min_pass_of s = foldl (\<lambda>m p. if (is_stride p \<and> r_state p = RUNNABLE) \<and> pass_value p < m then pass_value p else m) (mlfq_pass s) (ps s)"
    unfolding min_pass_of_def by (simp add: conj_assoc)
  note F = foldl_least[of "\<lambda>p. is_stride p \<and> r_state p = RUNNABLE" pass_value "mlfq_pass s" "ps s", folded e]
  show "min_pass_of s \<le> mlfq_pass s" using F by blast
  show "min_pass_of s \<le> pass_value (ps s ! p)" if "stride_ready s p" using F that assms by (auto simp: stride_ready_def)
  show "\<exists>p. stride_ready s p \<and> pass_value (ps s ! p) = min_pass_of s" if n: "min_pass_of s \<noteq> mlfq_pass s"
  proof -
    obtain x where "x \<in> set (ps s)" "is_stride x" "r_state x = RUNNABLE" "pass_value x = min_pass_of s" using F n by blast
    then show ?thesis using assms by (auto simp: in_set_conv_nth stride_ready_def)
  qed
qed

lemma ref_run_ok:
  assumes i: "ref_inv X s" and p: "p < NPROC" "\<And>l. l < 3 \<Longrightarrow> waiting s l - X = waiting s l - {p}"
  shows "\<exists>t. ref_run m p s = Ok (Some p) t \<and> ref_inv {} t \<and> rcur t = Some p \<and> r_state (ps t ! p) = RUNNING \<and> lq t = lq s \<and> ptlock t = ptlock s
     \<and> (\<forall>q < NPROC. q \<noteq> p \<longrightarrow> r_state (ps t ! q) = r_state (ps s ! q))"
proof -
  note I = ref_invD[OF i]
  let ?s = "if mlfq_pass s \<ge> MAX_PASS \<and> m \<ge> MAX_PASS then init_pass s else s"
  let ?t = "upd_p p (\<lambda>q. q\<lparr>r_state := RUNNING\<rparr>) (?s\<lparr>rcur := Some p\<rparr>)"
  have f: "rqs ?s = rqs s" "ptlock ?s = ptlock s" "length (ps ?s) = NPROC"
    "\<And>q. q < NPROC \<Longrightarrow> r_state (ps ?s ! q) = r_state (ps s ! q) \<and> is_stride (ps ?s ! q) = is_stride (ps s ! q) \<and> r_lev (ps ?s ! q) = r_lev (ps s ! q)"
    using I(1) by (simp_all add: init_pass_def)
  have t: "ps ?t ! q = (if q = p then (ps ?s ! p)\<lparr>r_state := RUNNING\<rparr> else ps ?s ! q)" for q using p(1) f(3) nth_upd_p[of p "?s\<lparr>rcur := Some p\<rparr>"] by simp
  have "ref_inv {} ?t"
  proof (rule ref_inv_change[OF i])
    show "rqs ?t = rqs s" "length (ps ?t) = length (ps s)" using f I(1) by simp_all
    show "waiting ?t l - {} = waiting s l - X" if "l < 3" for l
      unfolding p(2)[OF that] unfolding waiting_def t using f(4) by (auto split: if_splits)
    show "0 \<le> r_lev (ps ?t ! q) \<and> r_lev (ps ?t ! q) < 3" if "q < NPROC" "\<not> is_stride (ps ?t ! q)" for q
      using that I(5)[of q] f(4)[of q] unfolding t by (auto split: if_splits)
  qed
  moreover have "lq ?t = lq s" using f(1) by (simp add: lq_def fun_eq_iff)
  moreover have "ref_run m p s = Ok (Some p) ?t" by (simp add: ref_run_def Let_def)
  moreover have "\<forall>q < NPROC. q \<noteq> p \<longrightarrow> r_state (ps ?t ! q) = r_state (ps s ! q)" unfolding t using f(4) by simp
  ultimately show ?thesis using f(2) t by (intro exI[of _ ?t]) simp
qed

lemma find_mlfq_proc_ok:
  assumes i: "ref_inv {} s"
  shows "case find_mlfq_proc s of
      (None, t) \<Rightarrow> t = s \<and> (\<forall>l < 3. lq s l = [])
    | (Some p, t) \<Rightarrow> ref_inv {p} t \<and> ps t = ps s \<and> ptlock t = ptlock s \<and> p < NPROC \<and> r_state (ps s ! p) = RUNNABLE \<and> \<not> is_stride (ps s ! p)
       \<and> (\<exists>l < 3. (\<forall>k < l. lq s k = []) \<and> lq s l = Some p # lq t l \<and> (\<forall>k < 3. k \<noteq> l \<longrightarrow> lq t k = lq s k))"
proof -
  have d: "dequeue l s = (None, s)" if "l < 3" "lq s l = []" for l using dequeue_q(1)[OF ref_invD(2)[OF i] that] .
  have g: "\<exists>p t. dequeue l s = (Some p, t) \<and> ref_inv {p} t \<and> ps t = ps s \<and> ptlock t = ptlock s \<and> p < NPROC \<and> r_state (ps s ! p) = RUNNABLE
       \<and> \<not> is_stride (ps s ! p) \<and> lq s l = Some p # lq t l \<and> (\<forall>k < 3. k \<noteq> l \<longrightarrow> lq t k = lq s k)" if l: "l < 3" "lq s l \<noteq> []" for l
  proof -
    obtain x r where "lq s l = x # r" using l(2) by (cases "lq s l") auto
    from dequeue_ok[OF i l(1) this] this show ?thesis by (auto simp: waiting_def)
  qed
  have c: "k < 2 \<Longrightarrow> k = 0 \<or> k = 1" "k < 3 \<Longrightarrow> k = 0 \<or> k = 1 \<or> k = 2" for k :: nat by linarith+
  show ?thesis
  proof (cases "lq s 0 = []")
    case a: True
    show ?thesis
    proof (cases "lq s 1 = []")
      case b: True
      show ?thesis
      proof (cases "lq s 2 = []")
        case True
        then show ?thesis using a b d[of 0] d[of 1] d[of 2] by (auto simp: find_mlfq_proc_def dest: c(2))
      next
        case False
        have "lq s k = []" if "k < 2" for k using c(1)[OF that] a b by auto
        then show ?thesis using False a b d[of 0] d[of 1] g[of 2] by (auto simp: find_mlfq_proc_def intro!: exI[of _ 2])
      qed
    next
      case False
      then show ?thesis using a d[of 0] g[of 1] by (auto simp: find_mlfq_proc_def intro!: exI[of _ 1])
    qed
  next
    case False
    then show ?thesis using g[of 0] by (auto simp: find_mlfq_proc_def intro!: exI[of _ 0])
  qed
qed

lemma find_stride_proc_ok:
  assumes l: "length (ps s) = NPROC" and m: "min_pass_of s < mlfq_pass s"
  shows "\<exists>p. find_stride_proc (min_pass_of s) s = Ok p s \<and> stride_ready s p \<and> (\<forall>q. stride_ready s q \<longrightarrow> pass_value (ps s ! p) \<le> pass_value (ps s ! q))
     \<and> (\<forall>q < p. stride_ready s q \<longrightarrow> pass_value (ps s ! p) < pass_value (ps s ! q))"
proof -
  let ?P = "\<lambda>p. r_state p = RUNNABLE \<and> is_stride p \<and> pass_value p = min_pass_of s"
  obtain q where q: "stride_ready s q" "pass_value (ps s ! q) = min_pass_of s" using min_pass_of_least(3)[OF l] m by auto
  have "ps s ! q \<in> set (ps s)" using q(1) l by (simp add: stride_ready_def)
  then have "first_idx ?P (ps s) \<noteq> None" using q by (auto simp: stride_ready_def)
  then obtain p where p: "first_idx ?P (ps s) = Some p" by blast
  then have f: "p < length (ps s)" "?P (ps s ! p)" "\<forall>j < p. \<not> ?P (ps s ! j)" unfolding first_idx_Some by simp_all
  have "pass_value (ps s ! p) < pass_value (ps s ! q)" if "q < p" "stride_ready s q" for q
    using that f min_pass_of_least(2)[OF l that(2)] by (auto simp: stride_ready_def le_neq_implies_less)
  then show ?thesis using p f(1,2) l min_pass_of_least(2)[OF l] by (auto simp: find_stride_proc_def stride_ready_def)
qed

text \<open>
  C38. The choice of the reference scheduler. When a runnable stride process has a smaller pass than the feedback queue, one round of
  \<open>scheduler\<close> runs the first of those with the least pass; otherwise it takes the first process of the highest level
  that is not empty out of its queue and runs it; when there is none it advances the pass of the feedback queue. It never panics, and
  the queues hold exactly the runnable processes afterwards.
\<close>

theorem ref_scheduler_picks:
  assumes i: "ref_inv {} s" and k: "\<not> ptlock s"
  shows "\<exists>r t. ref_scheduler_step s = Ok r t \<and> ref_inv {} t \<and> ptlock t = (r \<noteq> None) \<and> (case r of
      Some p \<Rightarrow> p < NPROC \<and> rcur t = Some p \<and> r_state (ps s ! p) = RUNNABLE \<and> r_state (ps t ! p) = RUNNING
        \<and> (\<forall>q < NPROC. q \<noteq> p \<longrightarrow> r_state (ps t ! q) = r_state (ps s ! q))
        \<and> (if \<exists>q. stride_ready s q \<and> pass_value (ps s ! q) < mlfq_pass s
           then stride_ready s p \<and> (\<forall>q. stride_ready s q \<longrightarrow> pass_value (ps s ! p) \<le> pass_value (ps s ! q))
             \<and> (\<forall>q < p. stride_ready s q \<longrightarrow> pass_value (ps s ! p) < pass_value (ps s ! q)) \<and> lq t = lq s
           else \<exists>l < 3. (\<forall>j < l. lq s j = []) \<and> lq s l = Some p # lq t l \<and> (\<forall>j < 3. j \<noteq> l \<longrightarrow> lq t j = lq s j))
    | None \<Rightarrow> (\<forall>q. stride_ready s q \<longrightarrow> mlfq_pass s \<le> pass_value (ps s ! q)) \<and> (\<forall>l < 3. lq s l = [])
        \<and> ps t = ps s \<and> lq t = lq s \<and> mlfq_pass t = uadd (mlfq_pass s) (mlfq_stride s))"
proof -
  let ?s = "s\<lparr>ptlock := True\<rparr>"
  have i': "ref_inv {} ?s" by (rule ref_inv_cong[OF i]) simp_all
  have e: "lq ?s = lq s" "stride_ready ?s = stride_ready s" "min_pass_of ?s = min_pass_of s"
    by (simp_all add: lq_def stride_ready_def min_pass_of_def fun_eq_iff)
  note M = min_pass_of_least[OF ref_invD(1)[OF i]]
  show ?thesis
  proof (cases "min_pass_of s = mlfq_pass s")
    case True
    then have n: "\<not> (\<exists>q. stride_ready s q \<and> pass_value (ps s ! q) < mlfq_pass s)" using M(2) by fastforce
    have S: "ref_scheduler_step s = (case find_mlfq_proc ?s of
         (None, t) \<Rightarrow> kbind (rrelease (mlfq_pass_inc t)) (\<lambda>_ s. Ok None s) | (Some p, t) \<Rightarrow> ref_run (mlfq_pass s) p t)"
      using k True e(3) by (simp add: ref_scheduler_step_def racquire_def get_min_pass_def)
    obtain r u where f: "find_mlfq_proc ?s = (r, u)" by force
    show ?thesis
    proof (cases r)
      case None
      then have u: "u = ?s" "\<forall>l < 3. lq s l = []" using find_mlfq_proc_ok[OF i'] f e(1) by auto
      have "ref_inv {} (s\<lparr>mlfq_pass := uadd (mlfq_pass s) (mlfq_stride s), ptlock := False\<rparr>)" by (rule ref_inv_cong[OF i]) simp_all
      then show ?thesis using S f None u n by (auto simp: mlfq_pass_inc_def rrelease_def lq_def fun_eq_iff not_less)
    next
      case (Some p)
      then have u: "ref_inv {p} u" "ps u = ps s" "ptlock u" "p < NPROC" "r_state (ps s ! p) = RUNNABLE"
        "\<exists>l < 3. (\<forall>k < l. lq s k = []) \<and> lq s l = Some p # lq u l \<and> (\<forall>k < 3. k \<noteq> l \<longrightarrow> lq u k = lq s k)"
        using find_mlfq_proc_ok[OF i'] f by (simp_all add: e(1))
      from ref_run_ok[OF u(1,4), of "mlfq_pass s"] obtain t where "ref_run (mlfq_pass s) p u = Ok (Some p) t" "ref_inv {} t" "rcur t = Some p"
        "r_state (ps t ! p) = RUNNING" "lq t = lq u" "ptlock t" "\<forall>q < NPROC. q \<noteq> p \<longrightarrow> r_state (ps t ! q) = r_state (ps s ! q)"
        using u(2,3) by auto
      then show ?thesis using S f Some u by (simp add: if_not_P[OF n])
    qed
  next
    case False
    then have lt: "min_pass_of ?s < mlfq_pass ?s" using M(1) e(3) by simp
    from find_stride_proc_ok[OF _ this] obtain p where p: "find_stride_proc (min_pass_of s) ?s = Ok p ?s" "stride_ready s p"
      "\<forall>q. stride_ready s q \<longrightarrow> pass_value (ps s ! p) \<le> pass_value (ps s ! q)"
      "\<forall>q < p. stride_ready s q \<longrightarrow> pass_value (ps s ! p) < pass_value (ps s ! q)"
      using ref_invD(1)[OF i] by (auto simp: e)
    have c: "\<exists>q. stride_ready s q \<and> pass_value (ps s ! q) < mlfq_pass s" using M(3)[OF False] lt by (auto simp: e(3))
    have "waiting ?s l - {} = waiting ?s l - {p}" for l using p(2) by (auto simp: waiting_def stride_ready_def)
    from ref_run_ok[OF i' _ this, of "min_pass_of s"] p(2) obtain t where "ref_run (min_pass_of s) p ?s = Ok (Some p) t" "ref_inv {} t" "rcur t = Some p"
        "r_state (ps t ! p) = RUNNING" "lq t = lq s" "ptlock t" "\<forall>q < NPROC. q \<noteq> p \<longrightarrow> r_state (ps t ! q) = r_state (ps s ! q)"
      by (auto simp: stride_ready_def e(1))
    moreover have "ref_scheduler_step s = ref_run (min_pass_of s) p ?s"
      using k False e(3) p(1) by (simp add: ref_scheduler_step_def racquire_def get_min_pass_def)
    ultimately show ?thesis using p c by (simp add: stride_ready_def)
  qed
qed

subsection \<open>Giving up the CPU\<close>

text \<open>The queues after the boost that is due, the process after it with its tick counted, and its level after that.\<close>

definition after_boost :: "rst \<Rightarrow> nat \<Rightarrow> pptr list" where
  "after_boost s k = (if BOOST_LIMIT \<le> boost_tick s + 1 then if k = 0 then lq s 0 @ lq s 1 @ lq s 2 else [] else lq s k)"

definition counted :: "rst \<Rightarrow> nat \<Rightarrow> rproc" where
  "counted s p = (let q = ps s ! p; r = (if BOOST_LIMIT \<le> boost_tick s + 1 then boosted q else q) in r\<lparr>tick_cnt := tick_cnt r + 1\<rparr>)"

text \<open>The timer counts the tick before the boost.\<close>

definition ticked :: "rst \<Rightarrow> nat \<Rightarrow> rproc" where
  "ticked s p = (let q = (ps s ! p)\<lparr>tick_cnt := tick_cnt (ps s ! p) + 1\<rparr> in if BOOST_LIMIT \<le> boost_tick s + 1 then boosted q else q)"

definition next_level :: "rproc \<Rightarrow> nat" where
  "next_level q = (let l = nat (r_lev q) in if l < 2 \<and> TIME_ALLOTMENT ! l \<le> tick_cnt q then l + 1 else l)"

definition same_counters :: "rst \<Rightarrow> rst \<Rightarrow> bool" where
  "same_counters s t \<longleftrightarrow> rcur t = rcur s \<and> ptlock t = ptlock s \<and> mlfq_pass t = mlfq_pass s \<and> mlfq_stride t = mlfq_stride s"

text \<open>A process that leaves the CPU goes to the end of the queue of a level.\<close>

lemma requeue:
  fixes n :: nat
  assumes i: "ref_inv {p} s" and p: "p < NPROC" "r_state (ps s ! p) = RUNNABLE" "\<not> is_stride (ps s ! p)" and l: "l < 3"
  defines "s' \<equiv> upd_p p (\<lambda>q. q\<lparr>r_lev := int l, tick_cnt := n\<rparr>) s"
  shows "if length (lq s l) = NPROC - 1 then enqueue (int l) p s' = Panic ''Queue is already full''
    else \<exists>t. enqueue (int l) p s' = Ok () t \<and> ref_inv {} t \<and> lq t = (lq s)(l := lq s l @ [Some p]) \<and> ps t = ps s' \<and> same_counters s t"
proof -
  note I = ref_invD[OF i]
  have n: "ps s' ! q = (if q = p then (ps s ! p)\<lparr>r_lev := int l, tick_cnt := n\<rparr> else ps s ! q)" for q
    unfolding s'_def using p(1) I(1) by (simp add: nth_upd_p)
  have i': "ref_inv {p} s'"
  proof (rule ref_inv_change[OF i])
    show "waiting s' k - {p} = waiting s k - {p}" for k unfolding waiting_def n by (auto split: if_splits)
    show "0 \<le> r_lev (ps s' ! q) \<and> r_lev (ps s' ! q) < 3" if "q < NPROC" "\<not> is_stride (ps s' ! q)" for q
      using that I(5)[of q] l unfolding n by (auto split: if_splits)
  qed (simp_all add: s'_def)
  have w: "p \<in> waiting s' l" using p by (simp add: waiting_def n)
  have q: "lq s' = lq s" by (simp add: s'_def)
  show ?thesis
  proof (cases "length (lq s l) = NPROC - 1")
    case True
    then show ?thesis using enqueue_q(1)[OF ref_invD(2)[OF i'] l, of p] q by simp
  next
    case False
    then obtain t where "enqueue (int l) p s' = Ok () t" "t = upd_q l (rq_put (Some p)) s'" "ref_inv ({p} - {p}) t" "lq t = (lq s)(l := lq s l @ [Some p])"
      using enqueue_ok[OF i' w _ l] q by auto
    then show ?thesis using False by (simp add: same_counters_def s'_def)
  qed
qed

lemma upd_p_same: "p < length (ps s) \<Longrightarrow> f (ps s ! p) = g (ps s ! p) \<Longrightarrow> upd_p p f s = upd_p p g s"
  by (simp add: upd_p_def)

lemma upd_p_id: "f (ps s ! p) = ps s ! p \<Longrightarrow> upd_p p f s = s"
  by (simp add: upd_p_def)

lemma next_level_less: "0 \<le> r_lev q \<Longrightarrow> r_lev q < 3 \<Longrightarrow> next_level q < 3"
  by (auto simp: next_level_def Let_def)

text \<open>The level \<open>yield\<close> and \<open>tick_yield\<close> give the process.\<close>

lemma level_change:
  assumes p: "p < length (ps s)" "0 \<le> r_lev (ps s ! p)"
  shows "\<exists>n. (let q = ps s ! p; l = nat (r_lev q);
      s' = (if l < 2 \<and> TIME_ALLOTMENT ! l \<le> tick_cnt q then upd_p p (\<lambda>q. q\<lparr>r_lev := r_lev q + 1, tick_cnt := 0\<rparr>) s
        else if b then upd_p p (\<lambda>q. q\<lparr>tick_cnt := 0\<rparr>) s else s) in enqueue (r_lev (ps s' ! p)) p s')
    = enqueue (int (next_level (ps s ! p))) p (upd_p p (\<lambda>q. q\<lparr>r_lev := int (next_level (ps s ! p)), tick_cnt := n\<rparr>) s)"
proof -
  let ?q = "ps s ! p"
  let ?l = "nat (r_lev ?q)"
  have l: "int ?l = r_lev ?q" using p(2) by simp
  consider (down) "?l < 2 \<and> TIME_ALLOTMENT ! ?l \<le> tick_cnt ?q" | (reset) "\<not> (?l < 2 \<and> TIME_ALLOTMENT ! ?l \<le> tick_cnt ?q)" b
    | (stay) "\<not> (?l < 2 \<and> TIME_ALLOTMENT ! ?l \<le> tick_cnt ?q)" "\<not> b" by blast
  then show ?thesis
  proof cases
    case down
    then have n: "int (next_level ?q) = r_lev ?q + 1" using l by (simp add: next_level_def Let_def)
    have u: "upd_p p (\<lambda>q. q\<lparr>r_lev := r_lev q + 1, tick_cnt := 0\<rparr>) s = upd_p p (\<lambda>q. q\<lparr>r_lev := r_lev ?q + 1, tick_cnt := 0\<rparr>) s"
      by (rule upd_p_same[OF p(1)]) simp
    show ?thesis unfolding n using down by (intro exI[of _ 0]) (simp add: u nth_upd_p[OF p(1)] Let_def)
  next
    case reset
    then have n: "int (next_level ?q) = r_lev ?q" using l by (auto simp: next_level_def Let_def)
    have u: "upd_p p (\<lambda>q. q\<lparr>tick_cnt := 0\<rparr>) s = upd_p p (\<lambda>q. q\<lparr>r_lev := r_lev ?q, tick_cnt := 0\<rparr>) s" by (rule upd_p_same[OF p(1)]) simp
    show ?thesis unfolding n using reset by (intro exI[of _ 0]) (simp only: Let_def if_False if_True u, simp add: nth_upd_p[OF p(1)])
  next
    case stay
    then have n: "int (next_level ?q) = r_lev ?q" using l by (auto simp: next_level_def Let_def)
    have u: "upd_p p (\<lambda>q. q\<lparr>r_lev := r_lev ?q, tick_cnt := tick_cnt ?q\<rparr>) s = s" by (rule upd_p_id) simp
    show ?thesis unfolding n using stay by (intro exI[of _ "tick_cnt ?q"]) (simp only: Let_def if_False u)
  qed
qed

text \<open>The part of the two functions between \<open>acquire\<close> and \<open>sched\<close> for a process of the feedback queue.\<close>

definition leaves :: "rst \<Rightarrow> nat \<Rightarrow> unit rres \<Rightarrow> bool" where
  "leaves s p m \<longleftrightarrow> (let l = next_level (ps s ! p) in
     if length (lq s l) = NPROC - 1 then m = Panic ''Queue is already full''
     else \<exists>t. m = Ok () t \<and> ref_inv {} t \<and> lq t = (lq s)(l := lq s l @ [Some p]) \<and> same_counters s t
       \<and> r_state (ps t ! p) = RUNNABLE \<and> r_lev (ps t ! p) = int l \<and> \<not> is_stride (ps t ! p))"

lemma level_change_leaves:
  assumes i: "ref_inv {p} s" and p: "p < NPROC" "r_state (ps s ! p) = RUNNABLE" "\<not> is_stride (ps s ! p)"
  shows "leaves s p (let q = ps s ! p; l = nat (r_lev q);
      s' = (if l < 2 \<and> TIME_ALLOTMENT ! l \<le> tick_cnt q then upd_p p (\<lambda>q. q\<lparr>r_lev := r_lev q + 1, tick_cnt := 0\<rparr>) s
        else if b then upd_p p (\<lambda>q. q\<lparr>tick_cnt := 0\<rparr>) s else s) in enqueue (r_lev (ps s' ! p)) p s')"
proof -
  note I = ref_invD[OF i]
  have v: "p < length (ps s)" "0 \<le> r_lev (ps s ! p)" "next_level (ps s ! p) < 3" using p I(1) I(5)[of p] next_level_less by auto
  obtain n where n: "(let q = ps s ! p; l = nat (r_lev q);
      s' = (if l < 2 \<and> TIME_ALLOTMENT ! l \<le> tick_cnt q then upd_p p (\<lambda>q. q\<lparr>r_lev := r_lev q + 1, tick_cnt := 0\<rparr>) s
        else if b then upd_p p (\<lambda>q. q\<lparr>tick_cnt := 0\<rparr>) s else s) in enqueue (r_lev (ps s' ! p)) p s')
    = enqueue (int (next_level (ps s ! p))) p (upd_p p (\<lambda>q. q\<lparr>r_lev := int (next_level (ps s ! p)), tick_cnt := n\<rparr>) s)"
    using level_change[OF v(1,2), of b] by blast
  show ?thesis unfolding n using requeue[OF i p v(3), of n] p v(1) by (auto simp: leaves_def Let_def nth_upd_p split: if_splits)
qed

lemma ref_yield_mlfq_leaves:
  assumes i: "ref_inv {p} s" and p: "p < NPROC" "r_state (ps s ! p) = RUNNABLE" "\<not> is_stride (ps s ! p)"
  shows "leaves s p (ref_yield_mlfq p s)"
proof -
  have "0 \<le> r_lev (ps s ! p) \<and> r_lev (ps s ! p) < 3" using ref_invD(5)[OF i p(1,3)] .
  then have e: "ref_yield_mlfq p s = (let q = ps s ! p; l = nat (r_lev q);
      s' = (if l < 2 \<and> TIME_ALLOTMENT ! l \<le> tick_cnt q then upd_p p (\<lambda>q. q\<lparr>r_lev := r_lev q + 1, tick_cnt := 0\<rparr>) s
        else if nat (r_lev (ps s ! p)) = 2 \<and> TIME_QUANTUM ! nat (r_lev (ps s ! p)) \<le> tick_cnt (ps s ! p)
        then upd_p p (\<lambda>q. q\<lparr>tick_cnt := 0\<rparr>) s else s) in enqueue (r_lev (ps s' ! p)) p s')"
    by (simp add: ref_yield_mlfq_def MAX_MLFQ_LEV_def Let_def cong: if_cong conj_cong)
  show ?thesis unfolding e by (rule level_change_leaves[OF i p])
qed

text \<open>The process after \<open>yield\<close> or a tick that ends its quantum; \<open>c\<close> is the process with its tick counted.\<close>

definition gone :: "rst \<Rightarrow> nat \<Rightarrow> rproc \<Rightarrow> rst \<Rightarrow> bool" where
  "gone s p c t \<longleftrightarrow> ref_inv {} t \<and> rcur t = Some p \<and> ptlock t \<and> r_state (ps t ! p) = RUNNABLE
     \<and> (if is_stride (ps s ! p)
        then (\<forall>k < 3. lq t k = after_boost s k) \<and> mlfq_pass t = mlfq_pass s
          \<and> pass_value (ps t ! p) = uadd (pass_value (ps s ! p)) (nat (r_stride (ps s ! p) mod 2 ^ 32))
        else r_lev (ps t ! p) = int (next_level c) \<and> mlfq_pass t = uadd (mlfq_pass s) (mlfq_stride s)
          \<and> (\<forall>k < 3. lq t k = (if k = next_level c then after_boost s k @ [Some p] else after_boost s k)))"

definition ref_full :: "rst \<Rightarrow> nat \<Rightarrow> rproc \<Rightarrow> bool" where
  "ref_full s p c \<longleftrightarrow> \<not> is_stride (ps s ! p) \<and> length (after_boost s (next_level c)) = NPROC - 1"

text \<open>The boost that is due at a tick, while \<open>p\<close> is on the CPU or has just become runnable.\<close>

definition boost_due :: "rst \<Rightarrow> unit rres option" where
  "boost_due s = (if boost_tick s \<ge> BOOST_LIMIT then priority_boost s else Some (Ok () s))"

lemma boost_due_ok:
  assumes i: "ref_inv {p} s" and p: "p < NPROC"
  shows "\<exists>t. boost_due s = Some (Ok () t) \<and> ref_inv {p} t \<and> same_counters s t
     \<and> (\<forall>k < 3. lq t k = (if BOOST_LIMIT \<le> boost_tick s then if k = 0 then lq s 0 @ lq s 1 @ lq s 2 else [] else lq s k))
     \<and> ps t ! p = (if BOOST_LIMIT \<le> boost_tick s then boosted (ps s ! p) else ps s ! p)"
proof (cases "BOOST_LIMIT \<le> boost_tick s")
  case True
  obtain q where q: "priority_boost s = Some (Ok () (s\<lparr>boost_tick := 0, ps := map boosted (ps s), rqs := q\<rparr>))"
    "ref_inv {p} (s\<lparr>boost_tick := 0, ps := map boosted (ps s), rqs := q\<rparr>)"
    "lq (s\<lparr>boost_tick := 0, ps := map boosted (ps s), rqs := q\<rparr>) 0 = lq s 0 @ lq s 1 @ lq s 2"
    "lq (s\<lparr>boost_tick := 0, ps := map boosted (ps s), rqs := q\<rparr>) 1 = []" "lq (s\<lparr>boost_tick := 0, ps := map boosted (ps s), rqs := q\<rparr>) 2 = []"
    using priority_boost_ok[OF i True p] by (auto simp: Let_def)
  let ?t = "s\<lparr>boost_tick := 0, ps := map boosted (ps s), rqs := q\<rparr>"
  have "lq ?t k = (if k = 0 then lq s 0 @ lq s 1 @ lq s 2 else [])" if k: "k < 3" for k
  proof -
    have "k = 0 \<or> k = 1 \<or> k = 2" using k by linarith
    then show ?thesis using q(3-5) by auto
  qed
  then show ?thesis using True q(1,2) ref_invD(1)[OF i] p by (intro exI[of _ ?t]) (simp add: boost_due_def same_counters_def)
next
  case False
  then show ?thesis using i by (simp add: boost_due_def same_counters_def)
qed

lemma boosted_simps [simp]:
  "r_state (boosted q) = r_state q" "is_stride (boosted q) = is_stride q" "pass_value (boosted q) = pass_value q" "r_stride (boosted q) = r_stride q"
  by (simp_all add: boosted_def)

lemma ref_sched_switches: "rcur t = Some p \<Longrightarrow> ptlock t \<Longrightarrow> r_state (ps t ! p) = RUNNABLE \<Longrightarrow> ref_sched t = Sched t"
  by (simp add: ref_sched_def)

text \<open>A stride process is in no queue.\<close>

lemma ref_inv_stride: "ref_inv {p} s \<Longrightarrow> is_stride (ps s ! p) \<Longrightarrow> ref_inv {} s"
  by (rule ref_inv_change[of "{p}" s]) (auto simp: waiting_def dest: ref_invD(5))

text \<open>The process \<open>p\<close> is being moved, so its entry may change.\<close>

lemma ref_inv_moving:
  assumes i: "ref_inv X s" and X: "X \<subseteq> {p}" "X = {} \<longrightarrow> (\<forall>l. p \<notin> waiting s l)" and t: "rqs t = rqs s" "length (ps t) = length (ps s)"
    and q: "\<And>q. q \<noteq> p \<Longrightarrow> ps t ! q = ps s ! q" and l: "\<not> is_stride (ps t ! p) \<Longrightarrow> 0 \<le> r_lev (ps t ! p) \<and> r_lev (ps t ! p) < 3"
  shows "ref_inv {p} t"
proof (rule ref_inv_change[OF i t])
  show "waiting t k - {p} = waiting s k - X" for k
  proof -
    have "waiting t k - {p} = waiting s k - {p}" using q by (auto simp: waiting_def)
    also have "\<dots> = waiting s k - X" using X by (cases "X = {}") auto
    finally show ?thesis .
  qed
  show "0 \<le> r_lev (ps t ! r) \<and> r_lev (ps t ! r) < 3" if "r < NPROC" "\<not> is_stride (ps t ! r)" for r
    using that l ref_invD(5)[OF i, of r] q[of r] by (cases "r = p") auto
qed

lemma next_level_cong: "r_lev q = r_lev r \<Longrightarrow> tick_cnt q = tick_cnt r \<Longrightarrow> next_level q = next_level r"
  by (simp add: next_level_def)

lemma tick_yield_ok:
  assumes i: "ref_inv {p} s" and p: "p < NPROC" "rcur s = Some p" and k: "\<not> ptlock s"
  shows "if is_stride (ps s ! p)
    then \<exists>t. tick_yield s = Sched t \<and> ref_inv {} t \<and> lq t = lq s \<and> rcur t = Some p \<and> ptlock t \<and> mlfq_pass t = mlfq_pass s
      \<and> r_state (ps t ! p) = RUNNABLE \<and> pass_value (ps t ! p) = pass_value (ps s ! p)
    else let l = next_level (ps s ! p) in
      if length (lq s l) = NPROC - 1 then tick_yield s = Panic ''Queue is already full''
      else \<exists>t. tick_yield s = Sched t \<and> ref_inv {} t \<and> lq t = (lq s)(l := lq s l @ [Some p]) \<and> rcur t = Some p \<and> ptlock t \<and> mlfq_pass t = mlfq_pass s
        \<and> r_state (ps t ! p) = RUNNABLE \<and> r_lev (ps t ! p) = int l"
proof -
  note I = ref_invD[OF i]
  let ?s = "upd_p p (\<lambda>q. q\<lparr>r_state := RUNNABLE\<rparr>) (s\<lparr>ptlock := True\<rparr>)"
  have n: "ps ?s ! q = (if q = p then (ps s ! p)\<lparr>r_state := RUNNABLE\<rparr> else ps s ! q)" for q using p(1) I(1) by (simp add: nth_upd_p)
  have L: "lq ?s = lq s" by (simp add: lq_def fun_eq_iff)
  have i': "ref_inv {p} ?s" by (rule ref_inv_moving[OF i]) (use I(5)[OF p(1)] in \<open>simp_all add: n\<close>)
  show ?thesis
  proof (cases "is_stride (ps s ! p)")
    case True
    have "ref_inv {} ?s" by (rule ref_inv_stride[OF i']) (simp add: n True)
    moreover have "tick_yield s = Sched ?s" using True p k n by (simp add: tick_yield_def racquire_def Let_def ref_sched_switches[of _ p])
    ultimately show ?thesis using True p(2) L by (simp add: n)
  next
    case False
    have v: "0 \<le> r_lev (ps ?s ! p) \<and> r_lev (ps ?s ! p) < 3" using I(5)[OF p(1) False] by (simp add: n)
    let ?m = "let q = ps ?s ! p; l = nat (r_lev q);
      s' = (if l < 2 \<and> TIME_ALLOTMENT ! l \<le> tick_cnt q then upd_p p (\<lambda>q. q\<lparr>r_lev := r_lev q + 1, tick_cnt := 0\<rparr>) ?s
        else if nat (r_lev (ps ?s ! p)) = 2 then upd_p p (\<lambda>q. q\<lparr>tick_cnt := 0\<rparr>) ?s else ?s) in enqueue (r_lev (ps s' ! p)) p s'"
    have y: "tick_yield s = kbind ?m (\<lambda>_. ref_sched)"
      using False p k v by (simp add: tick_yield_def racquire_def Let_def MAX_MLFQ_LEV_def n cong: if_cong)
    have w: "leaves ?s p ?m" by (rule level_change_leaves[OF i' p(1)]) (simp_all add: n False)
    have e: "next_level (ps ?s ! p) = next_level (ps s ! p)" by (rule next_level_cong) (simp_all add: n)
    show ?thesis
    proof (cases "length (lq s (next_level (ps s ! p))) = NPROC - 1")
      case True
      then have "?m = Panic ''Queue is already full''" using w unfolding leaves_def e Let_def L by simp
      then show ?thesis using True False unfolding y by (simp add: Let_def)
    next
      case f: False
      then obtain t where "?m = Ok () t" "ref_inv {} t" "lq t = (lq s)(next_level (ps s ! p) := lq s (next_level (ps s ! p)) @ [Some p])" "same_counters ?s t"
        "r_state (ps t ! p) = RUNNABLE" "r_lev (ps t ! p) = int (next_level (ps s ! p))" using w unfolding leaves_def e Let_def L by auto
      then show ?thesis using False f p(2) unfolding y by (auto simp: Let_def same_counters_def ref_sched_switches[of _ p])
    qed
  qed
qed

lemma after_boost_eq:
  "lq u = lq s \<Longrightarrow> boost_tick u = boost_tick s + 1
   \<Longrightarrow> (if BOOST_LIMIT \<le> boost_tick u then if k = 0 then lq u 0 @ lq u 1 @ lq u 2 else [] else lq u k) = after_boost s k"
  by (simp add: after_boost_def)

lemma fun_upd_after_boost: "f = g(l := g l @ [x]) \<Longrightarrow> (\<And>k. k < 3 \<Longrightarrow> g k = h k) \<Longrightarrow> k < 3 \<Longrightarrow> l < 3
   \<Longrightarrow> f k = (if k = l then h k @ [x] else h k)"
  for f g h :: "nat \<Rightarrow> pptr list"
  by auto

lemma obind_simps [simp]:
  "obind (Some (Ok x s)) f = f x s" "obind (Some (Panic e)) f = Some (Panic e)" "obind (Some (Sched s)) f = Some (Sched s)" "obind (Some Undef) f = Some Undef"
  by (simp_all add: obind_def)

lemma ref_yield_boost:
  assumes "\<not> ptlock s" "rcur s = Some p" "boost_tick s + 1 < 2 ^ 32"
    and "boost_due (upd_p p (\<lambda>q. q\<lparr>r_state := RUNNABLE\<rparr>) (s\<lparr>ptlock := True\<rparr>)\<lparr>boost_tick := boost_tick s + 1\<rparr>) = Some (Ok () u)"
  shows "ref_yield s = (let v = upd_p p (\<lambda>q. q\<lparr>tick_cnt := uadd (tick_cnt q) 1\<rparr>) u in Some (kbind (if is_stride (ps v ! p)
         then Ok () (upd_p p (\<lambda>q. q\<lparr>pass_value := uadd (pass_value q) (nat (r_stride q mod 2 ^ 32))\<rparr>) v)
         else kbind (ref_yield_mlfq p v) (\<lambda>_ s. Ok () (mlfq_pass_inc s))) (\<lambda>_ s. ref_sched s)))"
proof -
  have a: "racquire s = Ok () (s\<lparr>ptlock := True\<rparr>)" using assms(1) by (simp add: racquire_def)
  have t: "uadd (boost_tick (upd_p p (\<lambda>q. q\<lparr>r_state := RUNNABLE\<rparr>) (s\<lparr>ptlock := True\<rparr>))) 1 = boost_tick s + 1" "rcur (s\<lparr>ptlock := True\<rparr>) = Some p"
    using assms(2,3) by (simp_all add: uadd_def)
  show ?thesis unfolding ref_yield_def a obind_simps t(2) option.case Let_def t(1) assms(4)[unfolded boost_due_def] ..
qed

lemma running_not_waiting: "r_state (ps s ! p) = RUNNING \<Longrightarrow> p \<notin> waiting s l"
  by (simp add: waiting_def)

lemma ref_yield_gone:
  assumes i: "ref_inv {} s" and k: "\<not> ptlock s" and p: "rcur s = Some p" "p < NPROC" "r_state (ps s ! p) = RUNNING"
    and b: "boost_tick s + 1 < 2 ^ 32" "tick_cnt (ps s ! p) + 1 < 2 ^ 32"
  shows "if ref_full s p (counted s p) then ref_yield s = Some (Panic ''Queue is already full'')
    else \<exists>t. ref_yield s = Some (Sched t) \<and> gone s p (counted s p) t"
proof -
  note I = ref_invD[OF i]
  let ?q = "ps s ! p"
  let ?a = "upd_p p (\<lambda>q. q\<lparr>r_state := RUNNABLE\<rparr>) (s\<lparr>ptlock := True\<rparr>)\<lparr>boost_tick := boost_tick s + 1\<rparr>"
  have n: "ps (upd_p p (\<lambda>q. q\<lparr>r_state := RUNNABLE\<rparr>) (s\<lparr>ptlock := True\<rparr>)) ! q = (if q = p then ?q\<lparr>r_state := RUNNABLE\<rparr> else ps s ! q)" for q using p(2) I(1) by (simp add: nth_upd_p)
  have L: "lq ?a = lq s" by (simp add: lq_def fun_eq_iff)
  have i': "ref_inv {p} ?a"
    by (rule ref_inv_moving[OF i]) (use I(5)[OF p(2)] running_not_waiting[OF p(3)] p(2) I(1) in \<open>simp_all add: nth_upd_p\<close>)
  obtain u where u: "boost_due ?a = Some (Ok () u)" "ref_inv {p} u" "same_counters ?a u" "\<And>k. k < 3 \<Longrightarrow> lq u k = after_boost s k"
      "ps u ! p = (if BOOST_LIMIT \<le> boost_tick s + 1 then boosted (ps ?a ! p) else ps ?a ! p)"
    using boost_due_ok[OF i' p(2)] after_boost_eq[OF L, of] by auto
  let ?v = "upd_p p (\<lambda>q. q\<lparr>tick_cnt := uadd (tick_cnt q) 1\<rparr>) u"
  have up: "p < length (ps u)" using ref_invD(1)[OF u(2)] p(2) by simp
  have t: "tick_cnt (ps u ! p) + 1 < 2 ^ 32" using b(2) by (simp add: u(5) n boosted_def)
  have v: "ps ?v ! p = (counted s p)\<lparr>r_state := RUNNABLE\<rparr>"
    using t by (simp add: nth_upd_p[OF up] u(5) n uadd_def counted_def Let_def boosted_def)
  have vo: "ps ?v ! q = ps u ! q" if "q \<noteq> p" for q using that by (simp add: nth_upd_p[OF up])
  have iv: "ref_inv {p} ?v"
    by (rule ref_inv_moving[OF u(2)]) (use ref_invD(5)[OF u(2) p(2)] in \<open>simp_all add: nth_upd_p[OF up]\<close>)
  have C: "rcur ?v = Some p" "ptlock ?v" "mlfq_pass ?v = mlfq_pass s" "mlfq_stride ?v = mlfq_stride s" using u(3) p(1) by (simp_all add: same_counters_def)
  have Y: "ref_yield s = Some (kbind (if is_stride (ps ?v ! p)
         then Ok () (upd_p p (\<lambda>q. q\<lparr>pass_value := uadd (pass_value q) (nat (r_stride q mod 2 ^ 32))\<rparr>) ?v)
         else kbind (ref_yield_mlfq p ?v) (\<lambda>_ s. Ok () (mlfq_pass_inc s))) (\<lambda>_ s. ref_sched s))"
    using ref_yield_boost[OF k p(1) b(1) u(1)] by (simp only: Let_def)
  have cs: "is_stride (counted s p) = is_stride ?q" "pass_value (counted s p) = pass_value ?q" "r_stride (counted s p) = r_stride ?q"
    by (simp_all add: counted_def Let_def)
  show ?thesis
  proof (cases "is_stride ?q")
    case True
    define w where "w = upd_p p (\<lambda>q. q\<lparr>pass_value := uadd (pass_value q) (nat (r_stride q mod 2 ^ 32))\<rparr>) ?v"
    have vp: "p < length (ps ?v)" using up by simp
    have w: "ps w ! p = (counted s p)\<lparr>r_state := RUNNABLE, pass_value := uadd (pass_value ?q) (nat (r_stride ?q mod 2 ^ 32))\<rparr>"
      unfolding w_def nth_upd_p[OF vp] v by (simp add: cs)
    have st: "is_stride (ps ?v ! p)" unfolding v by (simp add: cs(1) True)
    have "ref_inv {p} w" by (rule ref_inv_moving[OF iv]) (use st in \<open>simp_all add: w_def nth_upd_p[OF vp]\<close>)
    then have "ref_inv {} w" by (rule ref_inv_stride) (simp add: w cs(1) True)
    moreover have o: "lq w = lq u" "rcur w = Some p" "ptlock w" "mlfq_pass w = mlfq_pass s" using C by (simp_all add: w_def)
    moreover have "ref_sched w = (Sched w :: unit rres)" by (rule ref_sched_switches[of _ p]) (simp_all add: o w)
    then have "ref_yield s = Some (Sched w)" unfolding Y w_def[symmetric] by (simp only: st if_True kbind_simps)
    ultimately show ?thesis using True u(4) w by (auto simp: gone_def ref_full_def)
  next
    case False
    have W: "leaves ?v p (ref_yield_mlfq p ?v)" by (rule ref_yield_mlfq_leaves[OF iv p(2)]) (simp_all add: v cs(1) False)
    let ?l = "next_level (counted s p)"
    have e: "next_level (ps ?v ! p) = ?l" by (rule next_level_cong) (simp_all add: v)
    have l: "?l < 3" unfolding e[symmetric] using ref_invD(5)[OF iv p(2)] by (intro next_level_less) (simp_all add: v cs(1) False)
    have Lv: "lq ?v = lq u" by simp
    show ?thesis
    proof (cases "length (after_boost s ?l) = NPROC - 1")
      case True
      then have "ref_yield_mlfq p ?v = Panic ''Queue is already full''" using W u(4)[OF l] unfolding leaves_def e Let_def Lv by simp
      then show ?thesis using True False unfolding Y by (simp add: ref_full_def v cs(1))
    next
      case f: False
      then obtain t where t: "ref_yield_mlfq p ?v = Ok () t" "ref_inv {} t" "lq t = (lq u)(?l := lq u ?l @ [Some p])" "same_counters ?v t"
        "r_state (ps t ! p) = RUNNABLE" "r_lev (ps t ! p) = int ?l" using W u(4)[OF l] unfolding leaves_def e Let_def Lv by auto
      have r: "ref_inv {} (mlfq_pass_inc t)" by (rule ref_inv_cong[OF t(2)]) (simp_all add: mlfq_pass_inc_def)
      have "ref_yield s = Some (Sched (mlfq_pass_inc t))"
        unfolding Y using False t C by (simp add: v cs(1) same_counters_def mlfq_pass_inc_def ref_sched_switches[of _ p])
      moreover have "lq (mlfq_pass_inc t) = lq t" by (simp add: mlfq_pass_inc_def lq_def fun_eq_iff)
      ultimately show ?thesis using False f r t C fun_upd_after_boost[OF t(3) u(4) _ l]
        by (simp add: ref_full_def gone_def same_counters_def mlfq_pass_inc_def)
    qed
  qed
qed

lemma ref_trap_tick_boost:
  assumes "rcur s = Some p" "r_state (ps s ! p) = RUNNING" "boost_tick s + 1 < 2 ^ 32"
    and "boost_due (upd_p p (\<lambda>q. q\<lparr>tick_cnt := uadd (tick_cnt q) 1\<rparr>) (s\<lparr>boost_tick := boost_tick s + 1\<rparr>)) = Some (Ok () u)"
  shows "ref_trap_tick s = (if is_stride (ps u ! p)
       then Some (tick_yield (upd_p p (\<lambda>q. q\<lparr>pass_value := uadd (pass_value q) (nat (r_stride q mod 2 ^ 32))\<rparr>) u))
       else
         let s = mlfq_pass_inc u; l = r_lev (ps s ! p) in
         Some (kbind (kguard (0 \<le> l \<and> l < 3) s) (\<lambda>_ s.
           if tick_cnt (ps s ! p) mod (TIME_QUANTUM ! nat l) = 0 then tick_yield s else Ok () s)))"
proof -
  have t: "uadd (boost_tick s) 1 = boost_tick s + 1" using assms(3) by (simp add: uadd_def)
  have r: "(r_state (ps s ! p) \<noteq> RUNNING) = False" using assms(2) by simp
  show ?thesis unfolding ref_trap_tick_def assms(1) option.case r if_False Let_def t assms(4)[unfolded boost_due_def] obind_simps ..
qed

lemma ref_trap_tick_gone:
  assumes i: "ref_inv {} s" and k: "\<not> ptlock s" and p: "rcur s = Some p" "p < NPROC" "r_state (ps s ! p) = RUNNING"
    and b: "boost_tick s + 1 < 2 ^ 32" "tick_cnt (ps s ! p) + 1 < 2 ^ 32"
  shows "if \<not> is_stride (ps s ! p) \<and> tick_cnt (ticked s p) mod (TIME_QUANTUM ! nat (r_lev (ticked s p))) \<noteq> 0
    then \<exists>t. ref_trap_tick s = Some (Ok () t) \<and> ref_inv {} t \<and> rcur t = Some p \<and> \<not> ptlock t \<and> ps t ! p = ticked s p
      \<and> (\<forall>k < 3. lq t k = after_boost s k) \<and> mlfq_pass t = uadd (mlfq_pass s) (mlfq_stride s)
    else if ref_full s p (ticked s p) then ref_trap_tick s = Some (Panic ''Queue is already full'')
    else \<exists>t. ref_trap_tick s = Some (Sched t) \<and> gone s p (ticked s p) t"
proof -
  note I = ref_invD[OF i]
  let ?q = "ps s ! p"
  let ?a = "upd_p p (\<lambda>q. q\<lparr>tick_cnt := uadd (tick_cnt q) 1\<rparr>) (s\<lparr>boost_tick := boost_tick s + 1\<rparr>)"
  have n: "ps ?a ! q = (if q = p then ?q\<lparr>tick_cnt := tick_cnt ?q + 1\<rparr> else ps s ! q)" for q
    using p(2) I(1) b(2) by (simp add: nth_upd_p uadd_def)
  have L: "lq ?a = lq s" by (simp add: lq_def fun_eq_iff)
  have i': "ref_inv {p} ?a"
    by (rule ref_inv_moving[OF i]) (use I(5)[OF p(2)] running_not_waiting[OF p(3)] p(2) I(1) in \<open>simp_all add: nth_upd_p\<close>)
  obtain u where u: "boost_due ?a = Some (Ok () u)" "ref_inv {p} u" "same_counters ?a u" "\<And>k. k < 3 \<Longrightarrow> lq u k = after_boost s k" "ps u ! p = ticked s p"
    using boost_due_ok[OF i' p(2)] after_boost_eq[OF L, of] n[of p] by (auto simp: ticked_def Let_def)
  have up: "p < length (ps u)" using ref_invD(1)[OF u(2)] p(2) by simp
  have C: "rcur u = Some p" "\<not> ptlock u" "mlfq_pass u = mlfq_pass s" "mlfq_stride u = mlfq_stride s" using u(3) p(1) k by (simp_all add: same_counters_def)
  have cs: "is_stride (ticked s p) = is_stride ?q" "pass_value (ticked s p) = pass_value ?q" "r_stride (ticked s p) = r_stride ?q" "r_state (ticked s p) = RUNNING"
    using p(3) by (simp_all add: ticked_def Let_def)
  note Y = ref_trap_tick_boost[OF p(1,3) b(1) u(1)]
  show ?thesis
  proof (cases "is_stride ?q")
    case True
    define w where "w = upd_p p (\<lambda>q. q\<lparr>pass_value := uadd (pass_value q) (nat (r_stride q mod 2 ^ 32))\<rparr>) u"
    have w: "ps w ! p = (ticked s p)\<lparr>pass_value := uadd (pass_value ?q) (nat (r_stride ?q mod 2 ^ 32))\<rparr>"
      unfolding w_def nth_upd_p[OF up] u(5) by (simp add: cs)
    have st: "is_stride (ps u ! p)" unfolding u(5) by (simp add: cs(1) True)
    have iw: "ref_inv {p} w" by (rule ref_inv_moving[OF u(2)]) (use st in \<open>simp_all add: w_def nth_upd_p[OF up]\<close>)
    have o: "lq w = lq u" "rcur w = Some p" "\<not> ptlock w" "mlfq_pass w = mlfq_pass s" using C by (simp_all add: w_def)
    obtain t where "tick_yield w = Sched t" "ref_inv {} t" "lq t = lq w" "rcur t = Some p" "ptlock t" "mlfq_pass t = mlfq_pass w"
      "r_state (ps t ! p) = RUNNABLE" "pass_value (ps t ! p) = pass_value (ps w ! p)"
      using tick_yield_ok[OF iw p(2) o(2,3)] True by (auto simp: w cs(1))
    moreover have "ref_trap_tick s = Some (tick_yield w)" unfolding Y w_def[symmetric] by (simp only: st if_True)
    ultimately show ?thesis using True u(4) o(1,4) by (simp add: gone_def ref_full_def w)
  next
    case False
    let ?v = "mlfq_pass_inc u"
    have V: "ps ?v = ps u" "lq ?v = lq u" "rcur ?v = Some p" "\<not> ptlock ?v" "mlfq_pass ?v = uadd (mlfq_pass s) (mlfq_stride s)"
      using C by (simp_all add: mlfq_pass_inc_def lq_def fun_eq_iff)
    have iv: "ref_inv {p} ?v" by (rule ref_inv_cong[OF u(2)]) (simp_all add: mlfq_pass_inc_def)
    have g: "0 \<le> r_lev (ticked s p) \<and> r_lev (ticked s p) < 3" using ref_invD(5)[OF u(2) p(2)] cs(1) False by (simp add: u(5))
    have T: "ref_trap_tick s = Some (if tick_cnt (ticked s p) mod (TIME_QUANTUM ! nat (r_lev (ticked s p))) = 0 then tick_yield ?v else Ok () ?v)"
      unfolding Y Let_def V(1) u(5) using g by (simp add: cs(1) False V(1) u(5))
    show ?thesis
    proof (cases "tick_cnt (ticked s p) mod (TIME_QUANTUM ! nat (r_lev (ticked s p))) = 0")
      case c: False
      have "ref_inv {} ?v"
        by (rule ref_inv_change[OF iv]) (use ref_invD(5)[OF iv] cs(4) in \<open>auto simp: waiting_def V(1) u(5)\<close>)
      then show ?thesis using c False T V u(4,5) by simp
    next
      case c: True
      let ?l = "next_level (ticked s p)"
      have l: "?l < 3" using g by (intro next_level_less) simp_all
      note TY = tick_yield_ok[OF iv p(2) V(3,4), unfolded V(1,2) u(5) cs(1) if_not_P[OF False] Let_def u(4)[OF l]]
      show ?thesis
      proof (cases "length (after_boost s ?l) = NPROC - 1")
        case True
        then show ?thesis using TY T c False by (simp add: ref_full_def)
      next
        case f: False
        then obtain t where t: "tick_yield ?v = Sched t" "ref_inv {} t" "lq t = (lq u)(?l := after_boost s ?l @ [Some p])" "rcur t = Some p" "ptlock t"
          "mlfq_pass t = mlfq_pass ?v" "r_state (ps t ! p) = RUNNABLE" "r_lev (ps t ! p) = int ?l" using TY by auto
        then show ?thesis using f T c False u(4) V(5) by (simp add: ref_full_def gone_def)
      qed
    qed
  qed
qed

text \<open>
  C39. Giving up the CPU in the reference solution. \<open>yield\<close> counts the tick, and a tick of the timer preempts exactly stride
  processes and those whose quantum ends. When the boost is due, the queues of the two lower levels follow the highest one, in their order.
  Then a stride process is charged its stride and is in no queue; a process of the feedback queue goes to the end
  of the queue of its level, the next one when its allotment is used up, and the pass of the feedback queue is advanced. All queues hold exactly
  the runnable processes afterwards. The call panics exactly when the queue already holds all the other processes.
\<close>

theorem ref_leaves_cpu:
  assumes "ref_inv {} s" "\<not> ptlock s" "rcur s = Some p" "p < NPROC" "r_state (ps s ! p) = RUNNING"
    and "boost_tick s + 1 < 2 ^ 32" "tick_cnt (ps s ! p) + 1 < 2 ^ 32"
  shows "(if ref_full s p (counted s p) then ref_yield s = Some (Panic ''Queue is already full'')
      else \<exists>t. ref_yield s = Some (Sched t) \<and> gone s p (counted s p) t)
    \<and> (if \<not> is_stride (ps s ! p) \<and> tick_cnt (ticked s p) mod (TIME_QUANTUM ! nat (r_lev (ticked s p))) \<noteq> 0
      then \<exists>t. ref_trap_tick s = Some (Ok () t) \<and> ref_inv {} t \<and> rcur t = Some p \<and> \<not> ptlock t \<and> ps t ! p = ticked s p
        \<and> (\<forall>k < 3. lq t k = after_boost s k) \<and> mlfq_pass t = uadd (mlfq_pass s) (mlfq_stride s)
      else if ref_full s p (ticked s p) then ref_trap_tick s = Some (Panic ''Queue is already full'')
      else \<exists>t. ref_trap_tick s = Some (Sched t) \<and> gone s p (ticked s p) t)"
  using ref_yield_gone[OF assms] ref_trap_tick_gone[OF assms] by (rule conjI)

subsection \<open>Shares\<close>

text \<open>The stride processes that have tickets, and the accounts.\<close>

definition sharers :: "rst \<Rightarrow> nat set" where
  "sharers s = {p. p < NPROC \<and> is_stride (ps s ! p) \<and> r_state (ps s ! p) \<noteq> ZOMBIE}"

definition ref_shares :: "rst \<Rightarrow> bool" where
  "ref_shares s \<longleftrightarrow> total_ticket s \<le> MAX_STRIDE_TICKET \<and> mlfq_ticket s + total_ticket s = TOTAL_TICKET \<and> mlfq_stride s = LARGENUM div mlfq_ticket s
     \<and> int (total_ticket s) = (\<Sum>p \<in> sharers s. ticket (ps s ! p))
     \<and> (\<forall>p \<in> sharers s. 0 < ticket (ps s ! p) \<and> r_stride (ps s ! p) = int LARGENUM div ticket (ps s ! p))"

lemma sdiv_neg: "0 < y \<Longrightarrow> 0 \<le> x \<Longrightarrow> x sdiv (- y) = - (x div (y :: int))"
  by (cases "x = 0") (simp_all add: signed_divide_int_def)

lemma foldl_skip: "i < length xs \<Longrightarrow> (\<And>m. f m (xs ! i) = m) \<Longrightarrow> (\<And>m. f m y = m) \<Longrightarrow> foldl f m (xs[i := y]) = foldl f m xs"
proof (induction xs arbitrary: i m)
  case (Cons x xs)
  then show ?case by (cases i) auto
qed simp

lemma min_pass_of_skip:
  assumes "p < length (ps s)" "r_state (ps s ! p) \<noteq> RUNNABLE" "r_state (f (ps s ! p)) \<noteq> RUNNABLE"
  shows "min_pass_of (upd_p p f s) = min_pass_of s"
  using assms unfolding min_pass_of_def by (simp add: upd_p_def foldl_skip)

lemma upd_p_twice: "upd_p p g (upd_p p f s) = upd_p p (\<lambda>q. g (f q)) s"
  by (cases "p < length (ps s)") (simp_all add: upd_p_def list_update_beyond)

text \<open>The process when its share is granted.\<close>

definition with_share :: "int \<Rightarrow> nat \<Rightarrow> rproc \<Rightarrow> rproc" where
  "with_share t m q = q\<lparr>r_lev := - 1, tick_cnt := 0, is_stride := True, ticket := t, r_stride := int LARGENUM sdiv t, pass_value := m\<rparr>"

lemma ref_share_granted:
  assumes k: "\<not> ptlock s" and p: "rcur s = Some p" "p < length (ps s)" "r_state (ps s ! p) = RUNNING" and t: "t \<noteq> 0"
    and w: "uadd (nat (t mod 2 ^ 32)) (total_ticket s) = n" "n \<le> MAX_STRIDE_TICKET" "usub (mlfq_ticket s) (nat (t mod 2 ^ 32)) = TOTAL_TICKET - n"
  shows "ref_set_cpu_share t s = Ok 1 (upd_p p (with_share t (min_pass_of s))
     (s\<lparr>havestride := havestride s + 1, total_ticket := n, mlfq_ticket := TOTAL_TICKET - n, mlfq_stride := LARGENUM div (TOTAL_TICKET - n)\<rparr>))"
proof -
  let ?f = "\<lambda>q. q\<lparr>r_lev := - 1, tick_cnt := 0, is_stride := True, ticket := t, r_stride := int LARGENUM sdiv t\<rparr>"
  let ?a = "s\<lparr>ptlock := True, havestride := havestride s + 1, total_ticket := n\<rparr>"
  have n: "0 < TOTAL_TICKET - n" "uadd (TOTAL_TICKET - n) n = TOTAL_TICKET" using w(2) by (simp_all add: ref_consts uadd_def)
  have wa: "uadd (total_ticket s) (nat (t mod 2 ^ 32)) = n" using w(1) by (simp add: uadd_def add.commute)
  have m: "min_pass_of (upd_p p ?f ?a) = min_pass_of s"
    using min_pass_of_skip[of p ?a ?f] p(2,3) by (simp add: min_pass_of_def)
  have g: "get_min_pass (upd_p p ?f ?a) = Ok (min_pass_of s) (upd_p p ?f ?a)" by (simp add: get_min_pass_def m)
  let ?b = "upd_p p (\<lambda>q. q\<lparr>pass_value := min_pass_of s\<rparr>) (upd_p p ?f ?a)\<lparr>mlfq_ticket := TOTAL_TICKET - n\<rparr>"
  have e: "?b\<lparr>mlfq_stride := LARGENUM div (TOTAL_TICKET - n), ptlock := False\<rparr> = upd_p p (with_share t (min_pass_of s))
     (s\<lparr>havestride := havestride s + 1, total_ticket := n, mlfq_ticket := TOTAL_TICKET - n, mlfq_stride := LARGENUM div (TOTAL_TICKET - n)\<rparr>)"
    using k p(2) unfolding upd_p_twice by (cases s) (simp add: upd_p_def with_share_def)
  have l: "\<not> MAX_STRIDE_TICKET < uadd (nat (t mod 2 ^ 32)) (total_ticket s)" using w(1,2) by simp
  have "ref_set_cpu_share t s = Ok 1 (?b\<lparr>mlfq_stride := LARGENUM div (TOTAL_TICKET - n), ptlock := False\<rparr>)"
    unfolding ref_set_cpu_share_def Let_def if_not_P[OF l]
    using k l p(1) t wa g w(3) n by (simp add: racquire_def rrelease_def del: power_numeral cong: if_cong)
  then show ?thesis unfolding e .
qed

lemma ref_share_refused:
  "uadd (nat (t mod 2 ^ 32)) (total_ticket s) > MAX_STRIDE_TICKET \<Longrightarrow> ref_set_cpu_share t s = Ok (- 1) s"
  by (simp add: ref_set_cpu_share_def Let_def)

lemma unsigned_int: "0 \<le> t \<Longrightarrow> t < 2 ^ 31 \<Longrightarrow> nat (t mod 2 ^ 32) = nat t" "- (2 ^ 31) \<le> t \<Longrightarrow> t < 0 \<Longrightarrow> nat (t mod 2 ^ 32) = 2 ^ 32 - nat (- t)" for t :: int
proof -
  show "nat (t mod 2 ^ 32) = nat t" if "0 \<le> t" "t < 2 ^ 31" using that by simp
  show "nat (t mod 2 ^ 32) = 2 ^ 32 - nat (- t)" if "- (2 ^ 31) \<le> t" "t < 0"
  proof -
    have "t mod 2 ^ 32 = (t + 2 ^ 32) mod 2 ^ 32" by simp
    also have "\<dots> = t + 2 ^ 32" by (rule mod_pos_pos_trivial) (use that in simp_all)
    finally show ?thesis using that by simp
  qed
qed

lemma negative_share:
  fixes k m :: nat
  assumes "0 < k" "k \<le> m"
  shows "m \<le> 80 \<Longrightarrow> uadd (2 ^ 32 - k) m = m - k" "m \<le> 80 \<Longrightarrow> a \<le> 100 \<Longrightarrow> usub a (2 ^ 32 - k) = a + k"
proof -
  assume m: "m \<le> 80"
  have "2 ^ 32 - k + m = (m - k) + 2 ^ 32" using assms m by simp
  then show "uadd (2 ^ 32 - k) m = m - k" using m by (simp add: uadd_def del: add_diff_assoc add_diff_assoc2)
  assume a: "a \<le> 100"
  have "a + 2 ^ 32 - (2 ^ 32 - k) = a + k" using assms m by simp
  then show "usub a (2 ^ 32 - k) = a + k" using m a assms by (simp add: usub_def)
qed

text \<open>A process that gets its share keeps the queues and the accounts.\<close>

lemma with_share_keeps:
  fixes t :: int and m :: nat
  assumes i: "ref_inv {} s" and h: "ref_shares s" and p: "p < NPROC" "r_state (ps s ! p) = RUNNING" "\<not> is_stride (ps s ! p)"
    and t: "0 < t" "nat t + total_ticket s = n" "n \<le> MAX_STRIDE_TICKET"
  defines "u \<equiv> upd_p p (with_share t m)
     (s\<lparr>havestride := havestride s + 1, total_ticket := n, mlfq_ticket := TOTAL_TICKET - n, mlfq_stride := LARGENUM div (TOTAL_TICKET - n)\<rparr>)"
  shows "ref_inv {} u" "ref_shares u" "lq u = lq s"
proof -
  note I = ref_invD[OF i]
  have n: "ps u ! q = (if q = p then with_share t m (ps s ! p) else ps s ! q)" for q
    using p(1) I(1) by (simp add: u_def nth_upd_p)
  have f: "rqs u = rqs s" "length (ps u) = length (ps s)" "total_ticket u = n" "mlfq_ticket u = TOTAL_TICKET - n"
    "mlfq_stride u = LARGENUM div (TOTAL_TICKET - n)" by (simp_all add: u_def)
  show "lq u = lq s" using f(1) by (simp add: lq_def fun_eq_iff)
  show "ref_inv {} u"
  proof (rule ref_inv_change[OF i f(1,2)])
    show "waiting u l - {} = waiting s l - {}" for l unfolding waiting_def n using p(2) by (auto simp: with_share_def split: if_splits)
    show "0 \<le> r_lev (ps u ! q) \<and> r_lev (ps u ! q) < 3" if "q < NPROC" "\<not> is_stride (ps u ! q)" for q
      using that I(5)[of q] unfolding n by (auto simp: with_share_def split: if_splits)
  qed
  have c: "sharers u = insert p (sharers s)" "p \<notin> sharers s" "finite (sharers s)"
    unfolding sharers_def n using p by (auto simp: with_share_def split: if_splits)
  have "(\<Sum>q \<in> sharers u. ticket (ps u ! q)) = t + (\<Sum>q \<in> sharers s. ticket (ps u ! q))" using c by (simp add: n with_share_def)
  also have "(\<Sum>q \<in> sharers s. ticket (ps u ! q)) = (\<Sum>q \<in> sharers s. ticket (ps s ! q))" using c(2) by (intro sum.cong refl) (auto simp: n)
  finally have "(\<Sum>q \<in> sharers u. ticket (ps u ! q)) = t + int (total_ticket s)" using h by (simp add: ref_shares_def)
  then have "int n = (\<Sum>q \<in> sharers u. ticket (ps u ! q))" using t(1,2) by linarith
  moreover have "\<forall>q \<in> sharers u. 0 < ticket (ps u ! q) \<and> r_stride (ps u ! q) = int LARGENUM div ticket (ps u ! q)"
    using h t(1) by (auto simp: c(1) n with_share_def ref_shares_def sdiv_pos LARGENUM_def)
  moreover have "TOTAL_TICKET - n + n = TOTAL_TICKET" using t(3) by (simp add: ref_consts)
  ultimately show "ref_shares u" using t(3) by (simp add: ref_shares_def f)
qed

text \<open>
  C40. What \<open>set_cpu_share\<close> of the reference solution accepts. A positive share is granted to a process of the feedback queue exactly when the stride processes
  keep to 80 tickets: the process gets the stride for its tickets and the least pass, the queues stay as they are, and the
  accounts still add up. A share of 0 divides by zero. The sum is taken without sign: a negative share is granted
  whenever the others hold at least that many tickets; it takes these away from the total, and the stride of the process is negative, so that
  its pass goes down with every turn.
\<close>

theorem ref_set_cpu_share_outcomes:
  assumes i: "ref_inv {} s" and h: "ref_shares s" and k: "\<not> ptlock s" and p: "rcur s = Some p" "p < NPROC" "r_state (ps s ! p) = RUNNING"
    and t: "- (2 ^ 31) \<le> t" "t < 2 ^ 31"
  shows "(0 < t \<and> t + int (total_ticket s) \<le> 80 \<and> \<not> is_stride (ps s ! p) \<longrightarrow> (\<exists>u. ref_set_cpu_share t s = Ok 1 u \<and> ref_inv {} u \<and> ref_shares u
        \<and> lq u = lq s \<and> ps u ! p = with_share t (min_pass_of s) (ps s ! p) \<and> int (total_ticket u) = int (total_ticket s) + t))
    \<and> (0 < t \<and> t + int (total_ticket s) > 80 \<longrightarrow> ref_set_cpu_share t s = Ok (- 1) s)
    \<and> (t = 0 \<longrightarrow> ref_set_cpu_share t s = Undef)
    \<and> (t < 0 \<and> - t \<le> int (total_ticket s) \<longrightarrow> (\<exists>u. ref_set_cpu_share t s = Ok 1 u \<and> int (total_ticket u) = int (total_ticket s) + t
        \<and> is_stride (ps u ! p) \<and> r_stride (ps u ! p) = - (10000 div (- t))))
    \<and> (t < 0 \<and> - t > int (total_ticket s) \<longrightarrow> ref_set_cpu_share t s = Ok (- 1) s)"
proof -
  have T: "total_ticket s \<le> 80" "mlfq_ticket s = 100 - total_ticket s" using h by (auto simp: ref_shares_def ref_consts)
  have pl: "p < length (ps s)" using p(2) ref_invD(1)[OF i] by simp
  note G = ref_share_granted[OF k p(1) pl p(3)]
  have 1: "\<exists>u. ref_set_cpu_share t s = Ok 1 u \<and> ref_inv {} u \<and> ref_shares u
      \<and> lq u = lq s \<and> ps u ! p = with_share t (min_pass_of s) (ps s ! p) \<and> int (total_ticket u) = int (total_ticket s) + t"
    if c: "0 < t \<and> t + int (total_ticket s) \<le> 80 \<and> \<not> is_stride (ps s ! p)"
  proof -
    let ?n = "nat t + total_ticket s"
    have b: "?n \<le> 80" "nat t \<le> 100 - total_ticket s" "nat (t mod 2 ^ 32) = nat t" using c unsigned_int(1)[of t] t(2) by linarith+
    have w: "uadd (nat (t mod 2 ^ 32)) (total_ticket s) = ?n" "?n \<le> MAX_STRIDE_TICKET" "usub (mlfq_ticket s) (nat (t mod 2 ^ 32)) = TOTAL_TICKET - ?n"
      using b(1,2) T(2) unfolding b(3) by (simp_all add: uadd_def usub_small ref_consts)
    have z: "t \<noteq> 0" "0 < t" using c by auto
    note K = with_share_keeps[OF i h p(2,3) _ z(2) refl w(2)]
    show ?thesis using G[OF z(1) w] K c pl by (auto simp: nth_upd_p)
  qed
  have 2: "ref_set_cpu_share t s = Ok (- 1) s" if c: "0 < t \<and> t + int (total_ticket s) > 80"
  proof (rule ref_share_refused)
    have "80 < nat t + total_ticket s" using c by linarith
    then show "MAX_STRIDE_TICKET < uadd (nat (t mod 2 ^ 32)) (total_ticket s)"
      using c T(1) unsigned_int(1)[of t] t(2) by (simp add: uadd_def ref_consts)
  qed
  have 3: "ref_set_cpu_share t s = Undef" if "t = 0"
    using that T k p(1) by (simp add: ref_set_cpu_share_def uadd_def ref_consts racquire_def)
  have u: "nat (t mod 2 ^ 32) = 2 ^ 32 - nat (- t)" if "t < 0" using unsigned_int(2)[OF t(1) that] .
  have 4: "\<exists>u. ref_set_cpu_share t s = Ok 1 u \<and> int (total_ticket u) = int (total_ticket s) + t \<and> is_stride (ps u ! p) \<and> r_stride (ps u ! p) = - (10000 div (- t))"
    if c: "t < 0 \<and> - t \<le> int (total_ticket s)"
  proof -
    let ?n = "total_ticket s - nat (- t)"
    have a0: "nat (- t) \<le> total_ticket s" using c by linarith
    then have a: "nat (- t) \<le> total_ticket s" by simp
    have x: "0 < nat (- t)" using c by simp
    have w1: "uadd (nat (t mod 2 ^ 32)) (total_ticket s) = ?n" using negative_share(1)[OF x a] T(1) c by (simp only: u)
    have b: "usub (mlfq_ticket s) (nat (t mod 2 ^ 32)) = TOTAL_TICKET - ?n"
      using negative_share(2)[OF x a, of "mlfq_ticket s"] c T a unfolding u[OF conjunct1[OF c]] by (simp add: ref_consts)
    have "?n \<le> MAX_STRIDE_TICKET" "t \<noteq> 0" using c T by (auto simp: ref_consts)
    then have r: "ref_set_cpu_share t s = Ok 1 (upd_p p (with_share t (min_pass_of s)) (s\<lparr>havestride := havestride s + 1, total_ticket := ?n,
        mlfq_ticket := TOTAL_TICKET - ?n, mlfq_stride := LARGENUM div (TOTAL_TICKET - ?n)\<rparr>))" using G w1 b by blast
    have "int LARGENUM sdiv t = - (10000 div (- t))" using sdiv_neg[of "- t" 10000] c by (simp add: LARGENUM_def)
    then show ?thesis using r c pl a by (simp add: nth_upd_p with_share_def)
  qed
  have 5: "ref_set_cpu_share t s = Ok (- 1) s" if c: "t < 0 \<and> - t > int (total_ticket s)"
  proof (rule ref_share_refused)
    have k: "total_ticket s < nat (- t)" using c by linarith
    have k': "nat (- t) \<le> 2 ^ 31" using t(1) by simp
    have "uadd (2 ^ 32 - nat (- t)) (total_ticket s) = 2 ^ 32 - nat (- t) + total_ticket s" using k k' by (simp add: uadd_def)
    moreover have "80 < 2 ^ 32 - nat (- t) + total_ticket s" using k' by simp
    ultimately show "MAX_STRIDE_TICKET < uadd (nat (t mod 2 ^ 32)) (total_ticket s)"
      unfolding u[OF conjunct1[OF c]] by (simp only: ref_consts)
  qed
  show ?thesis using 1 2 3 4 5 by blast
qed

subsection \<open>An example\<close>

text \<open>Process 0 is on the CPU, process 1 waits, and process 2 is a stride process.\<close>

definition ref_idle :: rproc where
  "ref_idle = \<lparr>r_state = UNUSED, r_pid = 0, r_parent = None, r_chan = None, r_killed = False, r_lev = 0, tick_cnt = 0, is_stride = False,
     r_stride = 0, pass_value = 0, ticket = 0\<rparr>"

definition ref_example :: rst where
  "ref_example = (let s = minit \<lparr>ps = [ref_idle\<lparr>r_state := RUNNING, r_pid := 1\<rparr>, ref_idle\<lparr>r_state := RUNNABLE, r_pid := 2\<rparr>,
       ref_idle\<lparr>r_state := SLEEPING, r_pid := 3, r_lev := - 1, is_stride := True, r_stride := 500, ticket := 20\<rparr>] @ replicate 61 ref_idle,
     rcur = Some 0, rinit = Some 0, ptlock = False, rqs = [], mlfq_pass = 0, mlfq_stride = 0, mlfq_ticket = 0, boost_tick = 0,
     total_ticket = 20, havestride = 1\<rparr> in
   upd_q 0 (rq_put (Some 1)) (s\<lparr>mlfq_ticket := 80, mlfq_stride := 125\<rparr>))"

lemma ref_example_ps: "ps ref_example ! i = (if i = 0 then ref_idle\<lparr>r_state := RUNNING, r_pid := 1\<rparr> else if i = 1 then ref_idle\<lparr>r_state := RUNNABLE, r_pid := 2\<rparr>
     else if i = 2 then ref_idle\<lparr>r_state := SLEEPING, r_pid := 3, r_lev := - 1, is_stride := True, r_stride := 500, ticket := 20\<rparr> else ref_idle)"
  if "i < NPROC"
  using that by (auto simp: ref_example_def Let_def minit_def NPROC_def nth_Cons' nth_append)

lemma ref_example_simps:
  "length (ps ref_example) = NPROC" "rcur ref_example = Some 0" "\<not> ptlock ref_example" "boost_tick ref_example = 0" "mlfq_pass ref_example = 0"
  "total_ticket ref_example = 20" "mlfq_ticket ref_example = 80" "mlfq_stride ref_example = 125"
  by (simp_all add: ref_example_def Let_def minit_def NPROC_def)

lemma ref_example_queues:
  shows "rqs_ok ref_example" "lq ref_example = (\<lambda>k. if k = 0 then [Some 1] else lq ref_example k)" "lq ref_example 1 = []" "lq ref_example 2 = []"
proof -
  let ?e = "\<lparr>rq_cells = replicate NPROC None, rq_front = 0, rq_rear = 0\<rparr>"
  have e: "rq_ok ?e" "rq_list ?e = []" by (simp_all add: rq_ok_def rq_list_def rq_count_def NPROC_def)
  have q: "rqs ref_example = [rq_put (Some 1) ?e, ?e, ?e]" by (simp add: ref_example_def Let_def minit_def upd_q_def numeral_3_eq_3)
  have f: "\<not> is_full ?e" by (simp add: is_full_def NPROC_def)
  note P = mq.put_law[OF e(1) f, of "Some 1"]
  have "l = 0 \<or> l = 1 \<or> l = 2" if "l < 3" for l :: nat using that by linarith
  then show "rqs_ok ref_example" using e P unfolding rqs_ok_def q by (auto simp: nth_Cons')
  show "lq ref_example = (\<lambda>k. if k = 0 then [Some 1] else lq ref_example k)" "lq ref_example 1 = []" "lq ref_example 2 = []"
    using e P by (auto simp: lq_def q fun_eq_iff nth_Cons')
qed

lemma ref_example_inv: "ref_inv {} ref_example"
proof -
  have "p \<in> waiting ref_example l \<longleftrightarrow> p = 1 \<and> l = 0" for p l
    by (cases "p < NPROC"; cases "p = 0"; cases "p = 1"; cases "p = 2"; simp add: waiting_def ref_example_ps ref_idle_def NPROC_def)
  then have "waiting ref_example l = (if l = 0 then {1} else {})" for l by auto
  moreover have "lq ref_example l = (if l = 0 then [Some 1] else [])" if "l < 3" for l
  proof -
    have "l = 0 \<or> l = 1 \<or> l = 2" using that by linarith
    then show ?thesis using ref_example_queues(2-4) fun_cong[OF ref_example_queues(2), of 0] by auto
  qed
  moreover have "is_stride (ps ref_example ! p) \<or> 0 \<le> r_lev (ps ref_example ! p) \<and> r_lev (ps ref_example ! p) < 3" if "p < NPROC" for p
    using that by (simp add: ref_example_ps ref_idle_def)
  ultimately show ?thesis using ref_example_queues(1) ref_example_simps(1) by (simp add: ref_inv_def)
qed

theorem ref_scheduler_picks_witness:
  "\<exists>t. ref_scheduler_step ref_example = Ok (Some 1) t \<and> rcur t = Some 1 \<and> lq t 0 = []"
proof -
  from ref_scheduler_picks[OF ref_example_inv ref_example_simps(3)]
  obtain r t where t: "ref_scheduler_step ref_example = Ok r t" and c: "case r of
      Some p \<Rightarrow> p < NPROC \<and> rcur t = Some p \<and> r_state (ps ref_example ! p) = RUNNABLE \<and> r_state (ps t ! p) = RUNNING
        \<and> (\<forall>q < NPROC. q \<noteq> p \<longrightarrow> r_state (ps t ! q) = r_state (ps ref_example ! q))
        \<and> (if \<exists>q. stride_ready ref_example q \<and> pass_value (ps ref_example ! q) < mlfq_pass ref_example
           then stride_ready ref_example p \<and> (\<forall>q. stride_ready ref_example q \<longrightarrow> pass_value (ps ref_example ! p) \<le> pass_value (ps ref_example ! q))
             \<and> (\<forall>q < p. stride_ready ref_example q \<longrightarrow> pass_value (ps ref_example ! p) < pass_value (ps ref_example ! q)) \<and> lq t = lq ref_example
           else \<exists>l < 3. (\<forall>j < l. lq ref_example j = []) \<and> lq ref_example l = Some p # lq t l \<and> (\<forall>j < 3. j \<noteq> l \<longrightarrow> lq t j = lq ref_example j))
    | None \<Rightarrow> (\<forall>q. stride_ready ref_example q \<longrightarrow> mlfq_pass ref_example \<le> pass_value (ps ref_example ! q)) \<and> (\<forall>l < 3. lq ref_example l = [])
        \<and> ps t = ps ref_example \<and> lq t = lq ref_example \<and> mlfq_pass t = uadd (mlfq_pass ref_example) (mlfq_stride ref_example)" by blast
  have q: "lq ref_example 0 = [Some 1]" using fun_cong[OF ref_example_queues(2), of 0] by simp
  then obtain p where p: "r = Some p" using c by (cases r) force+
  obtain l where l: "l < 3" "lq ref_example l = Some p # lq t l" using c p by (auto simp: ref_example_simps)
  have "l = 0 \<or> l = 1 \<or> l = 2" using l(1) by linarith
  then have "p = 1 \<and> lq t 0 = []" using l(2) q ref_example_queues(3,4) by auto
  then show ?thesis using t c p by auto
qed

theorem ref_leaves_cpu_witness:
  "\<exists>t. ref_yield ref_example = Some (Sched t) \<and> lq t 0 = [Some 1, Some 0]"
proof -
  have p: "ps ref_example ! 0 = ref_idle\<lparr>r_state := RUNNING, r_pid := 1\<rparr>" using ref_example_ps[of 0] by (simp add: NPROC_def)
  have q: "lq ref_example 0 = [Some 1]" using fun_cong[OF ref_example_queues(2), of 0] by simp
  have n: "next_level (counted ref_example 0) = 0"
    by (simp add: counted_def next_level_def Let_def p ref_idle_def boosted_def ref_example_simps BOOST_LIMIT_def TIME_ALLOTMENT_def)
  have a: "after_boost ref_example 0 = [Some 1]" by (simp add: after_boost_def ref_example_simps BOOST_LIMIT_def q)
  have f: "\<not> ref_full ref_example 0 (counted ref_example 0)" by (simp add: ref_full_def n a NPROC_def)
  have s: "\<not> is_stride (ps ref_example ! 0)" by (simp add: p ref_idle_def)
  have "0 < NPROC" "r_state (ps ref_example ! 0) = RUNNING" "boost_tick ref_example + 1 < 2 ^ 32" "tick_cnt (ps ref_example ! 0) + 1 < 2 ^ 32"
    by (simp_all add: NPROC_def p ref_idle_def ref_example_simps)
  from ref_leaves_cpu[OF ref_example_inv ref_example_simps(3,2) this] f
  obtain t where "ref_yield ref_example = Some (Sched t)" "gone ref_example 0 (counted ref_example 0) t" by auto
  then show ?thesis using s by (auto simp: gone_def n a)
qed

lemma ref_example_shares: "ref_shares ref_example"
proof -
  have "p \<in> sharers ref_example \<longleftrightarrow> p = 2" for p
    by (cases "p < NPROC"; cases "p = 0"; cases "p = 1"; cases "p = 2"; simp add: sharers_def ref_example_ps ref_idle_def NPROC_def)
  then have "sharers ref_example = {2}" by auto
  moreover have "ps ref_example ! 2 = ref_idle\<lparr>r_state := SLEEPING, r_pid := 3, r_lev := - 1, is_stride := True, r_stride := 500, ticket := 20\<rparr>"
    using ref_example_ps[of 2] by (simp add: NPROC_def)
  ultimately show ?thesis by (simp add: ref_shares_def ref_example_simps ref_consts)
qed

theorem ref_set_cpu_share_outcomes_witness:
  "(\<exists>u. ref_set_cpu_share 10 ref_example = Ok 1 u \<and> total_ticket u = 30) \<and> ref_set_cpu_share 0 ref_example = Undef
   \<and> (\<exists>u. ref_set_cpu_share (- 10) ref_example = Ok 1 u \<and> total_ticket u = 10 \<and> r_stride (ps u ! 0) = - 1000)"
proof -
  have p: "0 < NPROC" "r_state (ps ref_example ! 0) = RUNNING" "\<not> is_stride (ps ref_example ! 0)"
    using ref_example_ps[of 0] by (simp_all add: NPROC_def ref_idle_def)
  note O = ref_set_cpu_share_outcomes[OF ref_example_inv ref_example_shares ref_example_simps(3,2) p(1,2)]
  show ?thesis using O[of 10] O[of 0] O[of "- 10"] p(3) by (auto simp: ref_example_simps)
qed

end
