(* ===== verification/Spec2Isabelle.thy ===== *)
theory Spec2Isabelle
  imports StorageProps SchedProps ProcSched FsProps KernelProps VmProps Spin Umalloc IdeProps Grep LwpSched ShellRun MkfsProps Kbd Screen
    BootLoad Mp Devices Coreutils RefSpec
begin

text \<open>
  A verification library for the xv6 kernel of this repository, in the version of
  src/project3/xv6-public: the teaching operating system xv6 with the scheduler of project 1 (a
  multi-level feedback queue and stride scheduling) and the file system of project 3 (a larger log,
  triple indirect blocks, positional reads and writes).

  \<^bold>\<open>The program.\<close> Processes enter the kernel by system calls and interrupts. The scheduler (proc.c,
  trap.c) picks the process a CPU runs; \<open>sleep\<close>, \<open>wakeup\<close> and the sleep locks (sleeplock.c) built on
  them order the processes that run kernel code. The file system is a stack: disk driver (memide.c),
  buffer cache (bio.c), write-ahead log (log.c), and above them inodes and files (fs.c, file.c,
  sysfile.c).

  \<^bold>\<open>How it is modelled.\<close> \<open>KState\<close> has one record per struct of the headers, gathered into one record
  \<open>kst\<close>: the state of the kernel as the CPU that runs kernel code sees it. A C function is a HOL
  function of the same name from its arguments and the state to an outcome (\<open>Prelude\<close>): it returned a
  value and a state, it called \<open>panic\<close>, it switched to the scheduler, or it left the language (an index
  out of bounds, a null pointer, a division by zero, a signed overflow where one can happen). A call
  that sleeps ends in the outcome \<open>Sched\<close> with the state at the switch; what the code does when it is
  resumed is a definition of its own (\<open>sleep_resume\<close>, \<open>begin_op_again\<close>, \<open>yield_resume\<close>,
  \<open>scheduler_back\<close>). Unsigned 32-bit values are natural numbers, with the wrap-around written out
  where the code can wrap. Loops over index ranges are folds over the range (\<open>kfor\<close>), loops whose bound
  changes are recursive functions with a termination measure (\<open>aq_scan\<close>).

  \<^bold>\<open>The theories.\<close>
  \<^item> \<open>Prelude\<close>: outcomes, their sequencing, triples for total and partial correctness, loops, list
    lemmas, and the interface \<open>inv_system\<close> of a step relation with an invariant (\<open>Spin\<close>). \<open>KState\<close>:
    constants (param.h, fs.h) and state. \<open>Bytes\<close>: the byte layout of on-disk structs and its round trips,
    and the interface \<open>slots\<close> of a block of entries (words in \<open>Bytes\<close>, inodes in \<open>InodeSpec\<close>). \<open>CString\<close>: string.c.
  \<^item> \<open>Spin\<close>: spinlock.c with all CPUs, as a step relation. \<open>Sync\<close>: \<open>acquire\<close> and \<open>release\<close> as the one CPU
    of \<open>kst\<close> sees them, \<open>sched\<close>, \<open>sleep\<close>, \<open>wakeup\<close>, \<open>kill\<close> (proc.c), the sleep locks (sleeplock.c).
  \<^item> \<open>Bio\<close>: bio.c over memide.c. \<open>BioSpec\<close>: the invariant \<open>bc_inv\<close> of the cache (a block has at most
    one buffer; a valid buffer nobody holds is dirty or equal to the disk) and the abstraction \<open>view\<close>,
    the content of a block as the kernel sees it; every operation keeps both. \<open>BufProto\<close>: the exact
    effect of the operations for a process that holds a known set of buffers.
  \<^item> \<open>Log\<close>: log.c. \<open>LogSpec\<close>: the exact disk writes of \<open>write_log\<close>, \<open>install_trans\<close>, \<open>write_head\<close> and
    \<open>read_head\<close>. \<open>LogCrash\<close>: the invariant \<open>log_ok\<close>, the writes of a commit, recovery, and the
    atomicity of a commit under a crash. \<open>LogOps\<close>: \<open>begin_op\<close>, \<open>log_write\<close>, \<open>end_op\<close>. \<open>Boot\<close>: the
    state at boot and an example transaction. \<open>StorageProps\<close>: the properties of this stack.
  \<^item> \<open>Inode\<close>: the block and inode half of fs.c (\<open>balloc\<close>, \<open>bfree\<close>, the inode cache, \<open>bmap\<close>, \<open>itrunc\<close>).
    \<open>Txn\<close>: the interface \<open>log_write\<close> offers to it, a transaction as a set of pinned blocks. \<open>BlockSpec\<close>,
    \<open>BmapSpec\<close>, \<open>InodeSpec\<close>: the free map, the tree of data blocks with its invariant, and inodes on disk.
    \<open>FsFile\<close>: \<open>readi\<close>, \<open>writei\<close>; \<open>FileSpec\<close>, \<open>WriteSpec\<close>: files as byte lists, which these two refine.
    \<open>Dir\<close>, \<open>DirSpec\<close>: directories and path names. \<open>FsExample\<close>: a small file system for the witnesses.
    \<open>FsProps\<close>: the properties of the file system.
  \<^item> \<open>PQueue\<close>: the array queues of proc.c and the interface \<open>fifo\<close> they implement. \<open>Sched\<close>: the
    scheduling half of proc.c and the timer path of trap.c. \<open>SchedSpec\<close>: the
    invariant \<open>sched_inv\<close> (every live process is exactly once in the queue of its level or in the
    stride table, the shares add up to 100) and the operations that keep it. \<open>SchedPick\<close>: the choice of
    the scheduler and its fairness. \<open>SchedProps\<close>: the properties of the scheduler. \<open>ProcSched\<close>: new processes, and
    what a failed \<open>fork\<close> leaves behind.
  \<^item> \<open>KMem\<close>: kalloc.c, the free list in physical memory, and the interface \<open>page_pool\<close> it offers. \<open>Vm\<close>: vm.c, page tables as words of that memory.
    \<open>VmSpec\<close>: the well-formedness \<open>vm_ok\<close> of a page directory, the addresses and rights the hardware
    finds there (\<open>mmu_access_pte\<close>), what building page tables leaves alone (\<open>mem_only\<close>), \<open>mappages\<close>. \<open>VmUser\<close>: user memory (\<open>uvm_ok\<close>)
    and its bytes, \<open>allocuvm\<close> and \<open>deallocuvm\<close>, accesses to user memory. \<open>VmProps\<close>: the properties of virtual memory.
  \<^item> \<open>Ring\<close>: pipe.c; \<open>PipeSpec\<close>, \<open>PipeRun\<close>: a pipe as a byte queue, for one call and for interleaved calls.
    \<open>FTable\<close>: file.c. \<open>Console\<close>, \<open>ConsoleSpec\<close>: the line discipline of console.c and its specification as an
    editor of the current line. \<open>KernelProps\<close>: the properties of these components and of the page allocator.
    \<open>Kbd\<close>: the scan codes of kbd.c. \<open>Screen\<close>: the output half of console.c on a state of its own.
  \<^item> \<open>Syscall\<close>: argument fetching of syscall.c and the calls of sysfile.c. \<open>Proc\<close>: \<open>userinit\<close>, \<open>fork\<close>,
    \<open>exit\<close>, \<open>wait\<close>, \<open>exec\<close> and the calls of sysproc.c. \<open>Trap\<close>: the dispatch of system calls and traps.
  \<^item> \<open>Ide\<close>: ide.c, the driver for a real disk, with the disk as a parameter. \<open>IdeSpec\<close>: the step relation of its
    requests and interrupts, and the disk that serves requests one by one. \<open>IdeProps\<close>: its property.
  \<^item> \<open>Lwp\<close>: the light-weight processes of project 2 (\<open>thread_create\<close>, \<open>thread_exit\<close>, \<open>thread_join\<close> in
    src/project2/xv6-public/proc.c) over the process table of the other theories. \<open>LwpSched\<close>: what project 2 changes
    in \<open>forkret\<close>, \<open>yield\<close>, the timer, \<open>set_cpu_share\<close> and \<open>fork\<close>, and why its threads never run: an example creates a thread,
    schedules it and ends in the panic.
  \<^item> \<open>RefSched\<close>: the scheduler of the reference solution (proc.c and trap.c of src/Reference_code), on a state of its own.
    \<open>RefSpec\<close>: its circular queues as \<open>byte_queue\<close>s, the invariant \<open>ref_inv\<close> (each queue holds exactly the runnable
    processes of its level, each once), the accounts \<open>ref_shares\<close>, and its properties.
  \<^item> \<open>Mkfs\<close>: mkfs.c, which builds the first file system. \<open>MkfsSpec\<close>: its image as disjoint trees of blocks that hold
    the files; \<open>MkfsProps\<close>: the kernel on that image, in the terms of \<open>FileSpec\<close>.
  \<^item> User programs: \<open>Umalloc\<close>: the allocator (umalloc.c). \<open>Ulib\<close>: ulib.c and printf.c. \<open>Grep\<close>: grep.c with the
    language of its patterns. \<open>Shell\<close>: the parser of sh.c; \<open>ShellSpec\<close>: it ends on every line, and the tokens
    it cuts out; \<open>ShellProps\<close>: the syntax of commands, and that the parser reads it back; \<open>ShellRun\<close>:
    \<open>runcmd\<close> and \<open>main\<close> as trees of system calls, and which programs run with which descriptors. \<open>Coreutils\<close>: cat,
    wc, echo and ls, from the results of their system calls to what they write.
  \<^item> The machine: \<open>BootLoad\<close>: bootmain.c, with the disk behind its ports as a parameter. \<open>Mp\<close>: mp.c over the physical
    memory the BIOS left. \<open>Devices\<close>: uart.c, ioapic.c, picirq.c and lapic.c as lists of accesses to their devices, which
    are parameters, and the clock.

  \<^bold>\<open>What the properties show.\<close> A crash at any point of a commit is atomic after recovery; a commit
  writes exactly the transaction, in the order the protocol needs; the log absorbs and pins; the cache
  returns the content of a block, recycles the least recently used clean buffer and never a dirty one;
  sleep locks are handed over without losing a wakeup. The scheduler runs the runnable entry with the
  smallest pass and the first process of the highest level, shares the CPU in proportion to the
  shares, demotes by the rules of the allotments, and keeps its queues consistent, except in the three
  situations the properties exhibit: \<open>boost\<close> does not move processes between the queues, a
  share of 0 is accepted, and a \<open>fork\<close> that fails leaves its process in a queue. \<open>readi\<close> and \<open>writei\<close> refine reading and overwriting a byte list, \<open>bmap\<close> a tree of
  block numbers, the free lists a stack and a set of bytes, a pipe a queue of bytes. The image of mkfs.c has the invariants of the kernel and the files it was given. \<open>mappages\<close> and
  \<open>allocuvm\<close> keep page tables well formed, give exactly the rights that were asked for, and new memory reads zero; the boot loader loads every segment of the kernel, and the search for processors
  finds them or does not return. The scheduler of the reference solution never loses a process, boosts in order and
  accounts for all positive shares. Spin locks exclude each other on any number of CPUs.

  \<^bold>\<open>Bounds.\<close> There is no fuel: every kernel loop is over a finite range, or a recursive function with
  a measure. The counter of \<open>deallocuvm\<close> is not modelled past 2 ^ 32, where the loop would start again: the
  loop ends there. The loops of the allocator of user programs follow pointers, and are partial functions
  with a termination property, and so are the loops of ide.c that wait for the disk, those of the boot loader, of mp.c, of the
  drivers in \<open>Devices\<close> and of the boost of the reference solution, with what makes them return in the properties; the recursion of the
  shell's parser has a bound that is proved never to be reached. The stride pass grows without bound;
  the model has undefined behaviour where it would overflow an \<open>int\<close>, and the properties assume passes
  far from it. The string instructions (\<open>stosb\<close>, \<open>stosl\<close>, \<open>insl\<close>) wrap their address around at 2 ^ 32, and the boot loader
  is shown to load images whose segments stay below. Statements about the buffer cache assume a disk below 2 ^ 31 blocks and fewer than
  2 ^ 32 - 1 references to a buffer. The time allotment of a process of the lowest level decreases for
  ever and is modelled as an unbounded integer.

  \<^bold>\<open>What is not modelled.\<close> In \<open>kst\<close> the disk is the memory disk of memide.c and the scheduler is the one of a
  single CPU: a second CPU would add an entry of its own to the stride table. Stacks and register contents at
  a context switch, the segment and interrupt descriptor tables, the accessed and dirty bits of page table entries, the screen and
  device registers are not part of the state. The drivers of \<open>Devices\<close> are not part of \<open>kst\<close> either: the list of their accesses is their state.
  The initialisation order (main.c, init.c), the assembly files and the test programs (usertests.c and
  others) are not modelled, nor are the copies of the kernel in src/project1, src/project2 and
  src/Reference_code where they agree with src/project3.
\<close>

end
